(* ===== verification/Kern_Prelude.thy ===== *)
theory Kern_Prelude
  imports Main "HOL-Library.Word"
begin

text \<open>
  Shared vocabulary of the development: the C integer types the kernel uses, the error
  numbers of sys/errno.h that the modelled functions return, the collections of rules the
  component theories fill, and generic facts on finite maps and lists. A C function that
  returns an int error code is modelled by a function into \<open>errno option\<close>: \<open>None\<close> is the
  code 0, \<open>Some e\<close> the code e. A pointer is a natural number, and the heap of each struct
  type is a partial map from pointers to records; \<open>None\<close> as a pointer value is NULL.
\<close>

unbundle bit_operations_syntax

type_synonym u8 = "8 word"
type_synonym u16 = "16 word"
type_synonym u32 = "32 word"
type_synonym ptr = nat

datatype errno =
    EPERM | ENOENT | ESRCH | EINTR | E2BIG | EBADF | EDEADLK | ENOMEM | EACCES | EFAULT
  | EBUSY | EEXIST | EINVAL | EMFILE | EFBIG | ENOSPC | EDOM | ERANGE | EAGAIN | ENAMETOOLONG
  | ENOLCK | ENOSYS | EIDRM | ENOMSG | EOPNOTSUPP | EOVERFLOW

type_synonym err = "errno option"

text \<open>
  Collections: \<open>kern_defs\<close> holds the definitional equations a component's invariant proof
  unfolds, \<open>inv_rules\<close> the preservation rules that are chained step by step along a
  handler, \<open>frame_simps\<close> the fields an operation leaves alone.
\<close>

named_theorems kern_defs
named_theorems inv_rules
named_theorems frame_simps

section \<open>Sums over the live entries of a finite map\<close>

text \<open>
  A reference count is compared with a sum over the objects that may hold a reference:
  \<open>msum f m\<close> adds \<open>f\<close> over the values of the finite map \<open>m\<close>.
\<close>

definition msum :: "('v \<Rightarrow> int) \<Rightarrow> ('k \<rightharpoonup> 'v) \<Rightarrow> int" where
  "msum f m = (\<Sum>k \<in> dom m. f (the (m k)))"

lemma msum_empty [simp]: "msum f Map.empty = 0"
  by (simp add: msum_def)

lemma msum_new:
  assumes "finite (dom m)" and "m k = None"
  shows "msum f (m(k \<mapsto> v)) = msum f m + f v"
proof -
  have "k \<notin> dom m" using assms(2) by (simp add: domIff)
  moreover have "(\<Sum>x \<in> dom m. f (the ((m(k \<mapsto> v)) x))) = (\<Sum>x \<in> dom m. f (the (m x)))"
    by (rule sum.cong) (use \<open>k \<notin> dom m\<close> in auto)
  ultimately show ?thesis using assms(1) by (simp add: msum_def)
qed

lemma msum_del:
  assumes "finite (dom m)" and "m k = Some w"
  shows "msum f (m(k := None)) = msum f m - f w"
proof -
  have "(\<Sum>x \<in> dom m - {k}. f (the ((m(k := None)) x))) = (\<Sum>x \<in> dom m - {k}. f (the (m x)))"
    by (rule sum.cong) auto
  moreover have "k \<in> dom m" using assms(2) by (simp add: domIff)
  ultimately show ?thesis using assms by (simp add: msum_def sum_diff1)
qed

lemma msum_upd:
  assumes "finite (dom m)" and "m k = Some w"
  shows "msum f (m(k \<mapsto> v)) = msum f m - f w + f v"
proof -
  have "m(k \<mapsto> v) = (m(k := None))(k \<mapsto> v)" by simp
  moreover have "msum f ((m(k := None))(k \<mapsto> v)) = msum f (m(k := None)) + f v"
    by (rule msum_new) (use assms(1) in auto)
  ultimately show ?thesis using msum_del [OF assms, of f] by simp
qed

lemma msum_upd_same:
  assumes "finite (dom m)" and "m k = Some w" and "f v = f w"
  shows "msum f (m(k \<mapsto> v)) = msum f m"
  using msum_upd [OF assms(1,2), of f v] assms(3) by simp

lemma msum_nonneg: "(\<And>v. 0 \<le> f v) \<Longrightarrow> 0 \<le> msum f m"
  unfolding msum_def by (rule sum_nonneg) simp

lemma msum_member_le:
  assumes "finite (dom m)" and "m k = Some w" and "\<And>v. 0 \<le> f v"
  shows "f w \<le> msum f m"
proof -
  have "0 \<le> msum f (m(k := None))" by (rule msum_nonneg) (rule assms(3))
  then show ?thesis using msum_del [OF assms(1,2), of f] by simp
qed

lemma msum_cong_map:
  "dom m = dom m' \<Longrightarrow> (\<And>k v v'. m k = Some v \<Longrightarrow> m' k = Some v' \<Longrightarrow> f v = g v') \<Longrightarrow> msum f m = msum g m'"
  unfolding msum_def by (rule sum.cong) (auto simp: dom_def set_eq_iff)

section \<open>Reference-counted objects\<close>

text \<open>
  \<open>balanced objs ref X s\<close>: the table \<open>X\<close> of outstanding references accounts for the
  counts kept in the objects exactly: an object is allocated iff somebody refers to it, and
  its stored count is the number of references.
\<close>

definition balanced :: "('s \<Rightarrow> 'a \<Rightarrow> 'o option) \<Rightarrow> ('o \<Rightarrow> int) \<Rightarrow> ('a \<Rightarrow> int) \<Rightarrow> 's \<Rightarrow> bool" where
  "balanced objs ref X s \<longleftrightarrow>
     (\<forall>a. case objs s a of None \<Rightarrow> X a = 0 | Some ob \<Rightarrow> ref ob = X a \<and> 0 < X a)"

lemma balancedD_live: "balanced objs ref X s \<Longrightarrow> 0 < X a \<Longrightarrow> \<exists>ob. objs s a = Some ob \<and> ref ob = X a"
  unfolding balanced_def by (drule spec [of _ a]) (auto split: option.splits)

lemma balancedD_some: "balanced objs ref X s \<Longrightarrow> objs s a = Some ob \<Longrightarrow> ref ob = X a \<and> 0 < X a"
  unfolding balanced_def by (drule spec [of _ a]) simp

lemma balancedD_none: "balanced objs ref X s \<Longrightarrow> objs s a = None \<Longrightarrow> X a = 0"
  unfolding balanced_def by (drule spec [of _ a]) simp

lemma balanced_nonneg: "balanced objs ref X s \<Longrightarrow> 0 \<le> X a"
  unfolding balanced_def by (drule spec [of _ a]) (auto split: option.splits)

text \<open>
  The interface of a reference-counted object type: \<open>hold\<close> takes a reference, \<open>release\<close>
  drops one and frees the object with the last. The client lemmas say what the two do to a
  balanced table; uidinfo, ucred and prison provide the interface.
\<close>

locale refcounted =
  fixes objs :: "'s \<Rightarrow> 'a \<Rightarrow> 'o option"
    and ref :: "'o \<Rightarrow> int"
    and hold :: "'a \<Rightarrow> 's \<Rightarrow> 's"
    and release :: "'a \<Rightarrow> 's \<Rightarrow> 's"
  assumes hold_other: "objs s a \<noteq> None \<Longrightarrow> b \<noteq> a \<Longrightarrow> objs (hold a s) b = objs s b"
    and hold_self: "objs s a = Some ob \<Longrightarrow> \<exists>ob'. objs (hold a s) a = Some ob' \<and> ref ob' = ref ob + 1"
    and release_other: "objs s a \<noteq> None \<Longrightarrow> b \<noteq> a \<Longrightarrow> objs (release a s) b = objs s b"
    and release_last: "objs s a = Some ob \<Longrightarrow> ref ob = 1 \<Longrightarrow> objs (release a s) a = None"
    and release_more: "objs s a = Some ob \<Longrightarrow> ref ob \<noteq> 1 \<Longrightarrow>
          \<exists>ob'. objs (release a s) a = Some ob' \<and> ref ob' = ref ob - 1"
begin

lemma hold_balanced:
  assumes "balanced objs ref X s" and "0 < X a"
  shows "balanced objs ref (X(a := X a + 1)) (hold a s)"
proof -
  obtain ob where ob: "objs s a = Some ob" "ref ob = X a"
    using balancedD_live [OF assms] by blast
  obtain ob' where ob': "objs (hold a s) a = Some ob'" "ref ob' = ref ob + 1"
    using hold_self [OF ob(1)] by blast
  show ?thesis
    unfolding balanced_def
  proof
    fix b
    show "case objs (hold a s) b of None \<Rightarrow> (X(a := X a + 1)) b = 0
          | Some ob \<Rightarrow> ref ob = (X(a := X a + 1)) b \<and> 0 < (X(a := X a + 1)) b"
    proof (cases "b = a")
      case True
      then show ?thesis using ob ob' assms(2) by simp
    next
      case False
      then show ?thesis
        using hold_other [of s a b] ob(1) balancedD_some [OF assms(1), of b] balancedD_none [OF assms(1), of b]
        by (simp split: option.splits)
    qed
  qed
qed

lemma release_balanced:
  assumes "balanced objs ref X s" and "0 < X a"
  shows "balanced objs ref (X(a := X a - 1)) (release a s)"
proof -
  obtain ob where ob: "objs s a = Some ob" "ref ob = X a"
    using balancedD_live [OF assms] by blast
  show ?thesis
    unfolding balanced_def
  proof
    fix b
    show "case objs (release a s) b of None \<Rightarrow> (X(a := X a - 1)) b = 0
          | Some ob \<Rightarrow> ref ob = (X(a := X a - 1)) b \<and> 0 < (X(a := X a - 1)) b"
    proof (cases "b = a")
      case True
      then show ?thesis
        using ob assms(2) release_last [OF ob(1)] release_more [OF ob(1)]
        by (cases "ref ob = 1") (auto)
    next
      case False
      then show ?thesis
        using release_other [of s a b] ob(1) balancedD_some [OF assms(1), of b] balancedD_none [OF assms(1), of b]
        by (simp split: option.splits)
    qed
  qed
qed

lemma release_frees_last:
  "objs s a = Some ob \<Longrightarrow> objs (release a s) a = None \<longleftrightarrow> ref ob = 1"
  using release_last [of s a ob] release_more [of s a ob] by (cases "ref ob = 1") auto

end

end
