(* ===== verification/Subr_Blist.thy ===== *)
theory Subr_Blist
  imports Kern_Prelude
begin

unbundle bit_operations_syntax

text \<open>
  The bitmap allocator of kern/subr_blist.c, with which the swap pager hands out swap blocks: a radix tree laid
  out in one array, whose leaves are bitmaps of 32 blocks and whose other nodes have 16 children, a count of the
  free blocks under them and a hint of the largest run. The array bl_root is a list; every use of a
  pointer into it that leaves the array is the value Fault, a panic is a value too, and a loop that does not
  advance is Hang. The recursion over the tree has a depth bound, for which the callers pass bl_skip; running
  out of it is Hang as well.
\<close>

section \<open>Data\<close>

text \<open>The union of a node's count (an inner node) and its bitmap (a leaf): a node never changes from one to the other.\<close>

record blmeta =
  bmu_avail :: int
  bmu_bitmap :: "32 word"
  bm_bighint :: int

record blist =
  bl_blocks :: int
  bl_radix :: int
  bl_skip :: nat
  bl_free :: int
  bl_root :: "blmeta list"

datatype blist_error = Panic string | Fault | Hang

type_synonym 'a bl_result = "blist_error + 'a"

definition andthen :: "'a bl_result \<Rightarrow> ('a \<Rightarrow> 'b bl_result) \<Rightarrow> 'b bl_result" where
  "andthen r f = (case r of Inl e \<Rightarrow> Inl e | Inr v \<Rightarrow> f v)"

lemma andthen_simps [simp]: "andthen (Inl e) f = Inl e" "andthen (Inr v) f = f v"
  by (simp_all add: andthen_def)

section \<open>Allocation\<close>

text \<open>The search for the lowest set bit, and for the lowest run under the mask.\<close>

function blst_bit :: "nat \<Rightarrow> nat \<Rightarrow> 32 word \<Rightarrow> 32 word \<Rightarrow> nat" where
  "blst_bit j r orig m =
     (if j = 0 then r
      else if orig AND m = 0 then blst_bit (j div 2) (r + j) (drop_bit j orig) (drop_bit (j div 2) m)
      else blst_bit (j div 2) r orig (drop_bit (j div 2) m))"
  by pat_completeness auto
termination by (relation "measure fst") auto

declare blst_bit.simps [simp del]

function blst_run :: "nat \<Rightarrow> nat \<Rightarrow> 32 word \<Rightarrow> 32 word \<Rightarrow> (nat \<times> 32 word) option" where
  "blst_run j n orig m =
     (if j \<le> n then (if orig AND m = m then Some (j, m) else blst_run (j + 1) n orig (push_bit 1 m)) else None)"
  by pat_completeness auto
termination by (relation "measure (\<lambda>(j, n, _). Suc n - j)") auto

declare blst_run.simps [simp del]

definition blst_leaf_alloc :: "blmeta list \<Rightarrow> nat \<Rightarrow> int \<Rightarrow> int \<Rightarrow> (int option \<times> blmeta list) bl_result" where
  "blst_leaf_alloc M scan blk count =
     (if length M \<le> scan then Inl Fault
      else let orig = bmu_bitmap (M ! scan); none = Inr (None, M[scan := (M ! scan)\<lparr>bm_bighint := count - 1\<rparr>]) in
        if orig = 0 then Inr (None, M[scan := (M ! scan)\<lparr>bm_bighint := 0\<rparr>])
        else if count = 1 then
          let r = blst_bit 16 0 orig (drop_bit 16 (-1)) in
          Inr (Some (blk + int r), M[scan := (M ! scan)\<lparr>bmu_bitmap := orig AND NOT (push_bit r 1)\<rparr>])
        else if 0 \<le> count \<and> count \<le> 32 then
          (case blst_run 0 (32 - nat count) orig (drop_bit (32 - nat count) (-1)) of
             Some (j, m) \<Rightarrow> Inr (Some (blk + int j), M[scan := (M ! scan)\<lparr>bmu_bitmap := orig AND NOT m\<rparr>])
           | None \<Rightarrow> none)
        else none)"

text \<open>The loops that initialise the nodes one level down, up to the terminator.\<close>

function blst_sweep :: "(blmeta \<Rightarrow> blmeta) \<Rightarrow> nat \<Rightarrow> nat \<Rightarrow> nat \<Rightarrow> nat \<Rightarrow> blmeta list \<Rightarrow> blmeta list bl_result" where
  "blst_sweep upd scan skip next_skip i M =
     (if i \<le> skip then
        if next_skip = 0 then Inl Hang
        else if length M \<le> scan + i then Inl Fault
        else if bm_bighint (M ! (scan + i)) = -1 then Inr M
        else blst_sweep upd scan skip next_skip (i + next_skip) (M[scan + i := upd (M ! (scan + i))])
      else Inr M)"
  by pat_completeness auto
termination by (relation "measure (\<lambda>(_, _, skip, _, i, _). Suc skip - i)") auto

declare blst_sweep.simps [simp del]

definition node_free :: "nat \<Rightarrow> int \<Rightarrow> blmeta \<Rightarrow> blmeta" where
  "node_free next_skip radix m =
     (if next_skip = 1 then m\<lparr>bmu_bitmap := -1, bm_bighint := 32\<rparr> else m\<lparr>bm_bighint := radix, bmu_avail := radix\<rparr>)"

definition node_clear :: "nat \<Rightarrow> blmeta \<Rightarrow> blmeta" where
  "node_clear next_skip m =
     (if next_skip = 1 then m\<lparr>bm_bighint := 0, bmu_bitmap := 0\<rparr> else m\<lparr>bm_bighint := 0, bmu_avail := 0\<rparr>)"

text \<open>The search among the children; \<open>alloc\<close> is the allocation in one of them.\<close>

function blst_alloc_loop ::
  "(nat \<Rightarrow> int \<Rightarrow> blmeta list \<Rightarrow> (int option \<times> blmeta list) bl_result) \<Rightarrow> nat \<Rightarrow> int \<Rightarrow> int \<Rightarrow> nat \<Rightarrow> nat \<Rightarrow> nat \<Rightarrow> int \<Rightarrow>
     blmeta list \<Rightarrow> (int option \<times> blmeta list) bl_result" where
  "blst_alloc_loop alloc scan count radix skip next_skip i blk M =
     (let none = (if count \<le> bm_bighint (M ! scan) then M[scan := (M ! scan)\<lparr>bm_bighint := count - 1\<rparr>] else M) in
      if i \<le> skip then
        if next_skip = 0 then Inl Hang
        else if length M \<le> scan + i then Inl Fault
        else if count \<le> bm_bighint (M ! (scan + i)) then
          (case alloc i blk M of
             Inl e \<Rightarrow> Inl e
           | Inr (Some r, M1) \<Rightarrow>
               let avail = bmu_avail (M1 ! scan) - count in
               Inr (Some r, M1[scan := (M1 ! scan)\<lparr>bmu_avail := avail, bm_bighint := min (bm_bighint (M1 ! scan)) avail\<rparr>])
           | Inr (None, M1) \<Rightarrow> blst_alloc_loop alloc scan count radix skip next_skip (i + next_skip) (blk + radix) M1)
        else if bm_bighint (M ! (scan + i)) = -1 then Inr (None, none)
        else if radix < count then Inl (Panic ''blist_meta_alloc: allocation too large'')
        else blst_alloc_loop alloc scan count radix skip next_skip (i + next_skip) (blk + radix) M
      else Inr (None, none))"
  by pat_completeness auto
termination by (relation "measure (\<lambda>(_, _, _, _, skip, _, i, _). Suc skip - i)") auto

declare blst_alloc_loop.simps [simp del]

primrec blst_meta_alloc :: "nat \<Rightarrow> blmeta list \<Rightarrow> nat \<Rightarrow> int \<Rightarrow> int \<Rightarrow> int \<Rightarrow> nat \<Rightarrow> (int option \<times> blmeta list) bl_result" where
  "blst_meta_alloc 0 M scan blk count radix skip = Inl Hang"
| "blst_meta_alloc (Suc d) M scan blk count radix skip =
     (let next_skip = skip div 16; sub = radix div 16 in
      if length M \<le> scan then Inl Fault
      else if bmu_avail (M ! scan) = 0 then Inr (None, M[scan := (M ! scan)\<lparr>bm_bighint := count\<rparr>])
      else andthen (if bmu_avail (M ! scan) = radix then blst_sweep (node_free next_skip sub) scan skip next_skip 1 M else Inr M)
        (blst_alloc_loop
          (\<lambda>i blk M. if next_skip = 1 then blst_leaf_alloc M (scan + i) blk count
                     else blst_meta_alloc d M (scan + i) blk count sub (next_skip - 1))
          scan count sub skip next_skip 1 blk))"

definition blist_alloc :: "blist \<Rightarrow> int \<Rightarrow> (int option \<times> blist) bl_result" where
  "blist_alloc bl count =
     andthen (if bl_radix bl = 32 then blst_leaf_alloc (bl_root bl) 0 0 count
          else blst_meta_alloc (bl_skip bl) (bl_root bl) 0 0 count (bl_radix bl) (bl_skip bl))
       (\<lambda>(blk, M). Inr (blk, bl\<lparr>bl_root := M, bl_free := (if blk = None then bl_free bl else bl_free bl - count)\<rparr>))"

section \<open>Freeing\<close>

definition blst_mask :: "int \<Rightarrow> int \<Rightarrow> 32 word" where
  "blst_mask blk count = push_bit (nat (blk mod 32)) (-1) AND drop_bit (32 - nat count - nat (blk mod 32)) (-1)"

definition blst_leaf_free :: "blmeta list \<Rightarrow> nat \<Rightarrow> int \<Rightarrow> int \<Rightarrow> blmeta list bl_result" where
  "blst_leaf_free M scan blk count =
     (if length M \<le> scan then Inl Fault
      else if bmu_bitmap (M ! scan) AND blst_mask blk count \<noteq> 0 then Inl (Panic ''blst_radix_free: freeing free block'')
      else Inr (M[scan := (M ! scan)\<lparr>bmu_bitmap := bmu_bitmap (M ! scan) OR blst_mask blk count, bm_bighint := 32\<rparr>]))"

text \<open>The loop over the children a range touches, each with its part of the range.\<close>

function blst_range :: "(nat \<Rightarrow> int \<Rightarrow> int \<Rightarrow> int \<Rightarrow> 's \<Rightarrow> 's bl_result) \<Rightarrow> int \<Rightarrow> nat \<Rightarrow> nat \<Rightarrow> nat \<Rightarrow> int \<Rightarrow> int \<Rightarrow> int \<Rightarrow> 's \<Rightarrow> 's bl_result" where
  "blst_range part radix skip next_skip i blk b count st =
     (if i \<le> skip \<and> blk < b + count then
        if next_skip = 0 then Inl Hang
        else let v = min (blk + radix - b) count in
          (case part i b v blk st of
             Inl e \<Rightarrow> Inl e
           | Inr st1 \<Rightarrow> blst_range part radix skip next_skip (i + next_skip) (blk + radix) (b + v) (count - v) st1)
      else Inr st)"
  by pat_completeness auto
termination by (relation "measure (\<lambda>(_, _, skip, _, i, _). Suc skip - i)") auto

declare blst_range.simps [simp del]

definition blst_subrange :: "(nat \<Rightarrow> int \<Rightarrow> int \<Rightarrow> int \<Rightarrow> 's \<Rightarrow> 's bl_result) \<Rightarrow> int \<Rightarrow> nat \<Rightarrow> nat \<Rightarrow> int \<Rightarrow> int \<Rightarrow> int \<Rightarrow> 's \<Rightarrow> 's bl_result" where
  "blst_subrange part radix skip next_skip blk b count =
     (let i = (b - blk) div radix in blst_range part radix skip next_skip (nat i * next_skip + 1) (blk + i * radix) b count)"

primrec blst_meta_free :: "nat \<Rightarrow> blmeta list \<Rightarrow> nat \<Rightarrow> int \<Rightarrow> int \<Rightarrow> int \<Rightarrow> nat \<Rightarrow> int \<Rightarrow> blmeta list bl_result" where
  "blst_meta_free 0 M scan freeBlk count radix skip blk = Inl Hang"
| "blst_meta_free (Suc d) M scan freeBlk count radix skip blk =
     (let next_skip = skip div 16; sub = radix div 16 in
      if length M \<le> scan then Inl Fault
      else andthen
        (if bmu_avail (M ! scan) = 0
         then let M1 = M[scan := (M ! scan)\<lparr>bmu_avail := count, bm_bighint := count\<rparr>] in
              if count \<noteq> radix then blst_sweep (node_clear next_skip) scan skip next_skip 1 M1 else Inr M1
         else Inr (M[scan := (M ! scan)\<lparr>bmu_avail := bmu_avail (M ! scan) + count\<rparr>]))
        (\<lambda>M. if bmu_avail (M ! scan) = radix then Inr M
             else if radix < bmu_avail (M ! scan) then Inl (Panic ''blst_meta_free: freeing already free blocks'')
             else blst_subrange
               (\<lambda>i b v blk M.
                  if bm_bighint (M ! scan) = -1 then Inl (Panic ''blst_meta_free: freeing unexpected range'')
                  else andthen (if next_skip = 1 then blst_leaf_free M (scan + i) b v
                            else blst_meta_free d M (scan + i) b v sub (next_skip - 1) blk)
                    (\<lambda>M. Inr (if bm_bighint (M ! scan) < bm_bighint (M ! (scan + i))
                              then M[scan := (M ! scan)\<lparr>bm_bighint := bm_bighint (M ! (scan + i))\<rparr>] else M)))
               sub skip next_skip blk freeBlk count M))"

definition blist_free :: "blist \<Rightarrow> int \<Rightarrow> int \<Rightarrow> blist bl_result" where
  "blist_free bl blkno count =
     andthen (if bl_radix bl = 32 then blst_leaf_free (bl_root bl) 0 blkno count
          else blst_meta_free (bl_skip bl) (bl_root bl) 0 blkno count (bl_radix bl) (bl_skip bl) 0)
       (\<lambda>M. Inr (bl\<lparr>bl_root := M, bl_free := bl_free bl + count\<rparr>))"

section \<open>Filling\<close>

text \<open>The count of set bits: clearing the lowest one until none is left.\<close>

lemma clear_lowest_less: "w \<noteq> 0 \<Longrightarrow> unat (w AND (w - 1)) < unat (w :: 32 word)"
  by (metis measure_unat order_le_less_trans word_and_le1 word_le_nat_alt)

function blst_count :: "32 word \<Rightarrow> int" where
  "blst_count w = (if w \<noteq> 0 then 1 + blst_count (w AND (w - 1)) else 0)"
  by pat_completeness auto
termination by (relation "measure unat") (auto simp: clear_lowest_less)

declare blst_count.simps [simp del]

definition blst_leaf_fill :: "blmeta list \<Rightarrow> nat \<Rightarrow> int \<Rightarrow> int \<Rightarrow> (int \<times> blmeta list) bl_result" where
  "blst_leaf_fill M scan blk count =
     (if length M \<le> scan then Inl Fault
      else Inr (blst_count (bmu_bitmap (M ! scan) AND blst_mask blk count),
                M[scan := (M ! scan)\<lparr>bmu_bitmap := bmu_bitmap (M ! scan) AND NOT (blst_mask blk count)\<rparr>]))"

primrec blst_meta_fill :: "nat \<Rightarrow> blmeta list \<Rightarrow> nat \<Rightarrow> int \<Rightarrow> int \<Rightarrow> int \<Rightarrow> nat \<Rightarrow> int \<Rightarrow> (int \<times> blmeta list) bl_result" where
  "blst_meta_fill 0 M scan allocBlk count radix skip blk = Inl Hang"
| "blst_meta_fill (Suc d) M scan allocBlk count radix skip blk =
     (let next_skip = skip div 16; sub = radix div 16 in
      if length M \<le> scan then Inl Fault
      else if count = radix \<or> bmu_avail (M ! scan) = 0
      then Inr (bmu_avail (M ! scan), M[scan := (M ! scan)\<lparr>bmu_avail := 0, bm_bighint := count\<rparr>])
      else andthen (if bmu_avail (M ! scan) = radix then blst_sweep (node_free next_skip sub) scan skip next_skip 1 M else Inr M)
        (\<lambda>M. if sub < count then Inl (Panic ''blist_meta_fill: allocation too large'')
             else andthen
               (blst_subrange
                 (\<lambda>i b v blk (nblks, M).
                    if bm_bighint (M ! scan) = -1 then Inl (Panic ''blst_meta_fill: filling unexpected range'')
                    else andthen (if next_skip = 1 then blst_leaf_fill M (scan + i) b v
                              else blst_meta_fill d M (scan + i) b v sub (next_skip - 1) blk)
                      (\<lambda>(n, M). Inr (nblks + n, M)))
                 sub skip next_skip blk allocBlk count (0, M))
               (\<lambda>(nblks, M). Inr (nblks, M[scan := (M ! scan)\<lparr>bmu_avail := bmu_avail (M ! scan) - nblks\<rparr>]))))"

definition blist_fill :: "blist \<Rightarrow> int \<Rightarrow> int \<Rightarrow> (int \<times> blist) bl_result" where
  "blist_fill bl blkno count =
     andthen (if bl_radix bl = 32 then blst_leaf_fill (bl_root bl) 0 blkno count
          else blst_meta_fill (bl_skip bl) (bl_root bl) 0 blkno count (bl_radix bl) (bl_skip bl) 0)
       (\<lambda>(filled, M). Inr (filled, bl\<lparr>bl_root := M, bl_free := bl_free bl - filled\<rparr>))"

section \<open>Creation\<close>

text \<open>The loop over the children while the tree is laid out: it returns the last memory index and the index at which it
  stopped. \<open>init\<close> is the initialisation of one child, given its index and its number of blocks.\<close>

function blst_init_loop ::
  "(nat \<Rightarrow> int \<Rightarrow> blmeta list \<Rightarrow> (nat \<times> blmeta list) bl_result) \<Rightarrow> nat option \<Rightarrow> int \<Rightarrow> nat \<Rightarrow> nat \<Rightarrow> nat \<Rightarrow> int \<Rightarrow> nat \<Rightarrow>
     blmeta list \<Rightarrow> (nat \<times> nat \<times> blmeta list) bl_result" where
  "blst_init_loop init scan radix skip next_skip i count memindex M =
     (if i \<le> skip then
        if next_skip = 0 then Inl Hang
        else if radix \<le> count then
          (case init i radix M of
             Inl e \<Rightarrow> Inl e
           | Inr (n, M1) \<Rightarrow> blst_init_loop init scan radix skip next_skip (i + next_skip) (count - radix) (i + n) M1)
        else if 0 < count then
          (case init i count M of
             Inl e \<Rightarrow> Inl e
           | Inr (n, M1) \<Rightarrow> blst_init_loop init scan radix skip next_skip (i + next_skip) 0 (i + n) M1)
        else (case scan of
                None \<Rightarrow> Inr (memindex, i, M)
              | Some s \<Rightarrow> if length M \<le> s + i then Inl Fault
                          else Inr (memindex, i, M[s + i := (M ! (s + i))\<lparr>bm_bighint := -1\<rparr>]))
      else Inr (memindex, i, M))"
  by pat_completeness auto
termination by (relation "measure (\<lambda>(_, _, _, skip, _, i, _). Suc skip - i)") auto

declare blst_init_loop.simps [simp del]

text \<open>Without a node to initialise (scan is NULL) it only computes the memory index.\<close>

primrec blst_radix_init :: "nat \<Rightarrow> nat option \<Rightarrow> int \<Rightarrow> nat \<Rightarrow> int \<Rightarrow> blmeta list \<Rightarrow> (nat \<times> blmeta list) bl_result" where
  "blst_radix_init 0 scan radix skip count M = Inl Hang"
| "blst_radix_init (Suc d) scan radix skip count M =
     (if (case scan of None \<Rightarrow> False | Some s \<Rightarrow> length M \<le> s) then Inl Fault
      else if radix = 32
      then Inr (0, case scan of None \<Rightarrow> M | Some s \<Rightarrow> M[s := (M ! s)\<lparr>bm_bighint := 0, bmu_bitmap := 0\<rparr>])
      else
        let M1 = (case scan of None \<Rightarrow> M | Some s \<Rightarrow> M[s := (M ! s)\<lparr>bm_bighint := 0, bmu_avail := 0\<rparr>]);
            sub = radix div 16; next_skip = skip div 16 in
        andthen
          (blst_init_loop (\<lambda>i count M. blst_radix_init d (map_option (\<lambda>s. s + i) scan) sub (next_skip - 1) count M)
             scan sub skip next_skip 1 count 0 M1)
          (\<lambda>(memindex, i, M). Inr (max memindex i, M)))"

text \<open>The radix is an int of 32 bits, the number of blocks is not: the search for the radix need not end.\<close>

partial_function (option) create_radix :: "32 word \<Rightarrow> nat \<Rightarrow> int \<Rightarrow> (int \<times> nat) option" where
  "create_radix radix skip blocks =
     (if sint radix < blocks then create_radix (radix * 16) ((skip + 1) * 16) blocks else Some (sint radix, skip))"

declare create_radix.simps [code]

text \<open>The memory malloc returns is not cleared: its contents are an argument.\<close>

definition blist_create :: "(nat \<Rightarrow> blmeta) \<Rightarrow> int \<Rightarrow> blist bl_result" where
  "blist_create mem blocks =
     (case create_radix 32 0 blocks of
        None \<Rightarrow> Inl Hang
      | Some (radix, skip) \<Rightarrow>
          andthen (blst_radix_init (Suc skip) None radix skip blocks [])
            (\<lambda>(n, _). andthen (blst_radix_init (Suc skip) (Some 0) radix skip blocks (map mem [0..<1 + n]))
              (\<lambda>(_, M). Inr \<lparr>bl_blocks = blocks, bl_radix = radix, bl_skip = skip, bl_free = 0, bl_root = M\<rparr>)))"

section \<open>Resizing\<close>

function blst_copy_bits :: "nat \<Rightarrow> 32 word \<Rightarrow> int \<Rightarrow> int \<Rightarrow> blist \<Rightarrow> blist bl_result" where
  "blst_copy_bits i v blk count dest =
     (if i < 32 \<and> int i < count then
        (if v AND push_bit i 1 \<noteq> 0
         then (case blist_free dest (blk + int i) 1 of
                 Inl e \<Rightarrow> Inl e | Inr d \<Rightarrow> blst_copy_bits (i + 1) v blk count d)
         else blst_copy_bits (i + 1) v blk count dest)
      else Inr dest)"
  by pat_completeness auto
termination by (relation "measure (\<lambda>(i, _). 32 - i)") auto

declare blst_copy_bits.simps [simp del]

text \<open>The loop over the children of the source; \<open>copy\<close> copies one child, given its index, its first block and its count.\<close>

function blst_copy_loop ::
  "(nat \<Rightarrow> int \<Rightarrow> int \<Rightarrow> blist \<Rightarrow> blist bl_result) \<Rightarrow> blmeta list \<Rightarrow> nat \<Rightarrow> int \<Rightarrow> nat \<Rightarrow> nat \<Rightarrow> nat \<Rightarrow> int \<Rightarrow> int \<Rightarrow> blist \<Rightarrow> blist bl_result" where
  "blst_copy_loop copy M scan radix skip next_skip i blk count dest =
     (if count \<noteq> 0 \<and> i \<le> skip then
        if next_skip = 0 then Inl Hang
        else if length M \<le> scan + i then Inl Fault
        else if bm_bighint (M ! (scan + i)) = -1 then Inr dest
        else (case copy i blk (if radix \<le> count then radix else count) dest of
                Inl e \<Rightarrow> Inl e
              | Inr d \<Rightarrow> blst_copy_loop copy M scan radix skip next_skip (i + next_skip) (blk + radix)
                          (if radix \<le> count then count - radix else 0) d)
      else Inr dest)"
  by pat_completeness auto
termination by (relation "measure (\<lambda>(_, _, _, _, skip, _, i, _). Suc skip - i)") auto

declare blst_copy_loop.simps [simp del]

primrec blst_copy :: "nat \<Rightarrow> blmeta list \<Rightarrow> nat \<Rightarrow> int \<Rightarrow> int \<Rightarrow> nat \<Rightarrow> blist \<Rightarrow> int \<Rightarrow> blist bl_result" where
  "blst_copy 0 M scan blk radix skip dest count = Inl Hang"
| "blst_copy (Suc d) M scan blk radix skip dest count =
     (if length M \<le> scan then Inl Fault
      else if radix = 32 then
        (if bmu_bitmap (M ! scan) = -1 then blist_free dest blk count
         else if bmu_bitmap (M ! scan) \<noteq> 0 then blst_copy_bits 0 (bmu_bitmap (M ! scan)) blk count dest
         else Inr dest)
      else if bmu_avail (M ! scan) = 0 then Inr dest
      else if bmu_avail (M ! scan) = radix then blist_free dest blk (if count < radix then count else radix)
      else
        let sub = radix div 16; next_skip = skip div 16 in
        blst_copy_loop (\<lambda>i blk count dest. blst_copy d M (scan + i) blk sub (next_skip - 1) dest count)
          M scan sub skip next_skip 1 blk count dest)"

definition blist_resize :: "(nat \<Rightarrow> blmeta) \<Rightarrow> blist \<Rightarrow> int \<Rightarrow> bool \<Rightarrow> blist bl_result" where
  "blist_resize mem save count freenew =
     andthen (blist_create mem count)
       (\<lambda>newbl.
          let count = (if bl_blocks save < count then bl_blocks save else count) in
          andthen (blst_copy (Suc (bl_skip save)) (bl_root save) 0 0 (bl_radix save) (bl_skip save) newbl count)
            (\<lambda>newbl. if freenew \<and> count < bl_blocks newbl then blist_free newbl count (bl_blocks newbl - count) else Inr newbl))"

end
