(* ===== verification/Subr_Blist_Inv.thy ===== *)
theory Subr_Blist_Inv
  imports Subr_Blist
begin

text \<open>
  The tree that lies in the array: level \<open>l\<close>, the node at \<open>s\<close>, and the \<open>cnt\<close> blocks from \<open>b\<close> on it stands for.
  What is laid out (the nodes and the terminators, whatever they say), what a node means, and the lemmas on one level.
\<close>

section \<open>Layout\<close>

definition rad :: "nat \<Rightarrow> int" where "rad l = 32 * 16 ^ l"

primrec skp :: "nat \<Rightarrow> nat" where
  "skp 0 = 0"
| "skp (Suc l) = (skp l + 1) * 16"

definition ch :: "nat \<Rightarrow> nat \<Rightarrow> nat \<Rightarrow> nat" where "ch s l k = s + (1 + k * (skp l + 1))"

definition kid :: "nat \<Rightarrow> int \<Rightarrow> nat \<Rightarrow> bool" where "kid l cnt k \<longleftrightarrow> k < 16 \<and> int k * rad l < cnt"

definition kcnt :: "nat \<Rightarrow> int \<Rightarrow> nat \<Rightarrow> int" where "kcnt l cnt k = min (rad l) (cnt - int k * rad l)"

lemma rad_simps [simp]: "rad 0 = 32" "rad (Suc l) = 16 * rad l" "0 < rad l" "0 \<le> rad l" "rad l \<noteq> 0" "\<not> rad l \<le> 0" "rad l \<noteq> -1"
proof -
  show "0 < rad l" by (simp add: rad_def)
  then show "0 \<le> rad l" "rad l \<noteq> 0" "\<not> rad l \<le> 0" "rad l \<noteq> -1" by auto
qed (simp_all add: rad_def)

lemma rad_dvd: "32 dvd rad l"
  by (simp add: rad_def)

lemma rad_ge: "32 \<le> rad l"
  using zdvd_imp_le [OF rad_dvd] by simp

lemma rad_eq_32 [simp]: "rad l = 32 \<longleftrightarrow> l = 0"
proof (cases l)
  case (Suc j)
  then show ?thesis using rad_ge [of j] by simp
qed simp

lemma skp_simps [simp]: "skp (Suc l) div 16 = skp l + 1" "Suc (skp l) = 1 \<longleftrightarrow> l = 0" "Suc (skp l) = Suc 0 \<longleftrightarrow> l = 0"
  by (cases l; simp)+

lemma skp_0 [simp]: "skp l = 0 \<longleftrightarrow> l = 0"
  by (cases l) auto

lemma level_le_skp: "l \<le> skp l"
  by (induction l) auto

lemma kid_cnt: "kid l cnt k \<Longrightarrow> 0 < kcnt l cnt k" "kcnt l cnt k \<le> rad l" "kid l cnt k \<Longrightarrow> kcnt l cnt k \<le> cnt - int k * rad l"
  by (auto simp: kid_def kcnt_def)

lemma kid_down: "kid l cnt k \<Longrightarrow> j \<le> k \<Longrightarrow> kid l cnt j"
  unfolding kid_def by (metis rad_simps(3) mult_right_mono of_nat_mono order_le_less_trans order_less_imp_le)

lemma kid_0: "0 < cnt \<Longrightarrow> kid l cnt 0"
  by (simp add: kid_def)

lemma kid_full: "k < 16 \<Longrightarrow> kid l (16 * rad l) k" "k < 16 \<Longrightarrow> kcnt l (16 * rad l) k = rad l"
proof -
  assume "k < 16"
  then have "int k * rad l \<le> 15 * rad l" by (intro mult_right_mono) auto
  then show "kid l (16 * rad l) k" "kcnt l (16 * rad l) k = rad l"
    using \<open>k < 16\<close> rad_simps(3) [of l] by (simp_all add: kid_def kcnt_def)
qed

lemma ch_bound: "k < 16 \<Longrightarrow> s < ch s l k" "k < 16 \<Longrightarrow> ch s l k + skp l \<le> s + skp (Suc l)" "j < k \<Longrightarrow> ch s l j + skp l < ch s l k"
proof -
  assume "k < 16"
  then have "k * (skp l + 1) \<le> 15 * (skp l + 1)" by (intro mult_right_mono) auto
  then show "ch s l k + skp l \<le> s + skp (Suc l)" by (simp add: ch_def)
next
  assume "j < k"
  then have "(j + 1) * (skp l + 1) \<le> k * (skp l + 1)" by (intro mult_right_mono) auto
  then show "ch s l j + skp l < ch s l k" by (simp add: ch_def)
qed (simp add: ch_def)

lemma ch_inj: "ch s l j = ch s l k \<longleftrightarrow> j = k"
  using ch_bound(3) [of j k s l] ch_bound(3) [of k j s l] by (metis not_less_iff_gr_or_eq not_add_less1)

lemma ch_simps [simp]: "ch s l 0 = s + 1" "ch s l k \<noteq> s" "s \<noteq> ch s l k"
  by (simp_all add: ch_def)

primrec laid :: "nat \<Rightarrow> blmeta list \<Rightarrow> nat \<Rightarrow> int \<Rightarrow> bool" where
  "laid 0 M s cnt \<longleftrightarrow> s < length M \<and> bm_bighint (M ! s) \<noteq> -1"
| "laid (Suc l) M s cnt \<longleftrightarrow> s < length M \<and> bm_bighint (M ! s) \<noteq> -1 \<and>
     (\<forall>k<16. if int k * rad l < cnt then laid l M (ch s l k) (kcnt l cnt k)
             else int k * rad l < cnt + rad l \<longrightarrow> ch s l k < length M \<and> bm_bighint (M ! ch s l k) = -1)"

section \<open>Meaning\<close>

primrec fr :: "nat \<Rightarrow> blmeta list \<Rightarrow> nat \<Rightarrow> int \<Rightarrow> int \<Rightarrow> int set" where
  "fr 0 M s b cnt = {b + int j |j. j < 32 \<and> bit (bmu_bitmap (M ! s)) j}"
| "fr (Suc l) M s b cnt =
     (if bmu_avail (M ! s) = 0 then {}
      else if bmu_avail (M ! s) = rad (Suc l) then {b..<b + rad (Suc l)}
      else \<Union>k\<in>{k. kid l cnt k}. fr l M (ch s l k) (b + int k * rad l) (kcnt l cnt k))"

definition kids :: "nat \<Rightarrow> blmeta list \<Rightarrow> nat \<Rightarrow> int \<Rightarrow> int \<Rightarrow> int set" where
  "kids l M s b cnt = (\<Union>k\<in>{k. kid l cnt k}. fr l M (ch s l k) (b + int k * rad l) (kcnt l cnt k))"

primrec vl :: "nat \<Rightarrow> blmeta list \<Rightarrow> nat \<Rightarrow> int \<Rightarrow> int \<Rightarrow> bool" where
  "vl 0 M s b cnt \<longleftrightarrow> (\<forall>j. bit (bmu_bitmap (M ! s)) j \<longrightarrow> int j < cnt)"
| "vl (Suc l) M s b cnt \<longleftrightarrow> 0 \<le> bmu_avail (M ! s) \<and> bmu_avail (M ! s) \<le> cnt \<and>
     (bmu_avail (M ! s) \<noteq> 0 \<and> bmu_avail (M ! s) \<noteq> rad (Suc l) \<longrightarrow>
        (\<forall>k. kid l cnt k \<longrightarrow> vl l M (ch s l k) (b + int k * rad l) (kcnt l cnt k)) \<and>
        bmu_avail (M ! s) = int (card (kids l M s b cnt)))"

lemma laid_root: "laid l M s cnt \<Longrightarrow> s < length M" "laid l M s cnt \<Longrightarrow> bm_bighint (M ! s) \<noteq> -1"
  by (cases l; simp)+

lemma laid_kid: "laid (Suc l) M s cnt \<Longrightarrow> kid l cnt k \<Longrightarrow> laid l M (ch s l k) (kcnt l cnt k)"
  by (simp add: kid_def)

lemma laid_term:
  "laid (Suc l) M s cnt \<Longrightarrow> k < 16 \<Longrightarrow> \<not> kid l cnt k \<Longrightarrow> int k * rad l < cnt + rad l \<Longrightarrow> ch s l k < length M \<and> bm_bighint (M ! ch s l k) = -1"
  by (simp add: kid_def)

lemma fr_range: "vl l M s b cnt \<Longrightarrow> 0 < cnt \<Longrightarrow> cnt \<le> rad l \<Longrightarrow> fr l M s b cnt \<subseteq> {b..<b + cnt}"
proof (induction l arbitrary: s b cnt)
  case (Suc l)
  have "fr l M (ch s l k) (b + int k * rad l) (kcnt l cnt k) \<subseteq> {b..<b + cnt}"
    if k: "kid l cnt k" "vl l M (ch s l k) (b + int k * rad l) (kcnt l cnt k)" for k
  proof -
    have "0 \<le> int k * rad l" by (simp add: zero_le_mult_iff order_less_imp_le)
    then show ?thesis
      by (intro order_trans [OF Suc.IH [OF k(2) kid_cnt(1) [OF k(1)] kid_cnt(2)]]) (use kid_cnt(3) [OF k(1)] in auto)
  qed
  then show ?case using Suc.prems by (auto simp: subset_eq)
qed auto

lemma fr_finite: "finite (fr l M s b cnt)"
proof (induction l arbitrary: s b cnt)
  case (Suc l)
  have "finite {k. kid l cnt k}" by (rule finite_subset [of _ "{..<16}"]) (auto simp: kid_def)
  then show ?case by (simp add: Suc.IH)
qed simp

lemma kids_finite: "finite (kids l M s b cnt)"
proof -
  have "finite {k. kid l cnt k}" by (rule finite_subset [of _ "{..<16}"]) (auto simp: kid_def)
  then show ?thesis by (simp add: kids_def fr_finite)
qed

section \<open>What a part of the array does not touch\<close>

definition same :: "blmeta list \<Rightarrow> blmeta list \<Rightarrow> nat set \<Rightarrow> bool" where
  "same M M' A \<longleftrightarrow> length M' = length M \<and> (\<forall>i\<in>A. M' ! i = M ! i)"

lemma same_refl [simp]: "same M M A" and same_trans: "same M M1 A \<Longrightarrow> same M1 M2 B \<Longrightarrow> same M M2 (A \<inter> B)"
  and same_trans2: "same M M1 A \<Longrightarrow> same M1 M2 A \<Longrightarrow> same M M2 A" and same_mono: "same M M' A \<Longrightarrow> B \<subseteq> A \<Longrightarrow> same M M' B"
  by (auto simp: same_def)

lemma same_update: "s \<notin> A \<Longrightarrow> same M (M[s := m]) A"
  unfolding same_def by (metis length_list_update nth_list_update_neq)

lemma same_tree:
  assumes "same M M' {s..s + skp l}"
  shows "laid l M' s cnt = laid l M s cnt" and "fr l M' s b cnt = fr l M s b cnt" and "vl l M' s b cnt = vl l M s b cnt"
proof -
  have "laid l M' s cnt = laid l M s cnt \<and> fr l M' s b cnt = fr l M s b cnt \<and> vl l M' s b cnt = vl l M s b cnt"
    using assms
  proof (induction l arbitrary: s b cnt)
    case (Suc l)
    have root: "M' ! s = M ! s" "length M' = length M" using Suc.prems by (auto simp: same_def)
    have sub: "same M M' {ch s l k..ch s l k + skp l}" if "k < 16" for k
      by (rule same_mono [OF Suc.prems]) (use ch_bound(1,2) [OF that, of s l] in auto)
    note IH = Suc.IH [OF sub]
    have at: "M' ! ch s l k = M ! ch s l k" if "k < 16" for k
      using sub [OF that] by (auto simp: same_def)
    have "kids l M' s b cnt = kids l M s b cnt"
      unfolding kids_def using IH by (auto simp: kid_def)
    then show ?case using IH at root
      by (auto simp: kid_def kids_def split: if_splits)
  qed (auto simp: same_def)
  then show "laid l M' s cnt = laid l M s cnt" and "fr l M' s b cnt = fr l M s b cnt" and "vl l M' s b cnt = vl l M s b cnt"
    by auto
qed

section \<open>One level\<close>

text \<open>A node whose children are to be believed, whatever its own count says.\<close>

definition kids_ok :: "nat \<Rightarrow> blmeta list \<Rightarrow> nat \<Rightarrow> int \<Rightarrow> int \<Rightarrow> bool" where
  "kids_ok l M s b cnt \<longleftrightarrow> laid (Suc l) M s cnt \<and> (\<forall>k. kid l cnt k \<longrightarrow> vl l M (ch s l k) (b + int k * rad l) (kcnt l cnt k))"

lemma kid_range:
  "kids_ok l M s b cnt \<Longrightarrow> kid l cnt k \<Longrightarrow>
   fr l M (ch s l k) (b + int k * rad l) (kcnt l cnt k) \<subseteq> {b + int k * rad l..<b + int k * rad l + kcnt l cnt k}"
  using fr_range kid_cnt(1,2) unfolding kids_ok_def by blast

lemma kids_range: "kids_ok l M s b cnt \<Longrightarrow> kids l M s b cnt \<subseteq> {b..<b + cnt}"
proof
  fix x assume ok: "kids_ok l M s b cnt" and "x \<in> kids l M s b cnt"
  then obtain k where k: "kid l cnt k" "x \<in> fr l M (ch s l k) (b + int k * rad l) (kcnt l cnt k)" by (auto simp: kids_def)
  have "0 \<le> int k * rad l" by simp
  then show "x \<in> {b..<b + cnt}" using subsetD [OF kid_range [OF ok k(1)] k(2)] kid_cnt(3) [OF k(1)]
    unfolding atLeastLessThan_iff by linarith
qed

lemma unwrap:
  assumes "laid (Suc l) M s cnt" and "vl (Suc l) M s b cnt" and "bmu_avail (M ! s) \<noteq> 0" and "bmu_avail (M ! s) \<noteq> rad (Suc l)"
  shows "kids_ok l M s b cnt" and "fr (Suc l) M s b cnt = kids l M s b cnt" and "bmu_avail (M ! s) = int (card (kids l M s b cnt))"
  using assms by (auto simp: kids_ok_def kids_def)

lemma wrap:
  assumes "kids_ok l M s b cnt" and "bmu_avail (M ! s) = int (card (kids l M s b cnt))" and "0 < cnt" and "cnt \<le> rad (Suc l)"
  shows "laid (Suc l) M s cnt" and "vl (Suc l) M s b cnt" and "fr (Suc l) M s b cnt = kids l M s b cnt"
proof -
  have r: "kids l M s b cnt \<subseteq> {b..<b + cnt}" by (rule kids_range [OF assms(1)])
  have c: "card (kids l M s b cnt) \<le> nat cnt" using card_mono [OF _ r] by simp
  show "laid (Suc l) M s cnt" using assms(1) by (simp add: kids_ok_def)
  show "vl (Suc l) M s b cnt" using assms c by (auto simp: kids_ok_def)
  have "kids l M s b cnt = {b..<b + rad (Suc l)}" if "bmu_avail (M ! s) = rad (Suc l)"
    by (rule card_seteq) (use that r c assms(2-4) in auto)
  moreover have "kids l M s b cnt = {}" if "bmu_avail (M ! s) = 0"
    using that assms(2) kids_finite by simp
  ultimately show "fr (Suc l) M s b cnt = kids l M s b cnt" by (auto simp: kids_def)
qed

lemma vl_card: "vl (Suc l) M s b cnt \<Longrightarrow> bmu_avail (M ! s) = int (card (fr (Suc l) M s b cnt))"
  by (auto simp: kids_def)

text \<open>A step that changes one child and perhaps the root of its parent.\<close>

lemma kid_change:
  assumes ok: "kids_ok l M s b cnt" and k: "kid l cnt k"
    and same: "same M M' (- insert s {ch s l k..ch s l k + skp l})" and hint: "bm_bighint (M' ! s) \<noteq> -1"
    and child: "laid l M' (ch s l k) (kcnt l cnt k)" "vl l M' (ch s l k) (b + int k * rad l) (kcnt l cnt k)"
  shows "kids_ok l M' s b cnt"
    and "kids l M' s b cnt = kids l M s b cnt - {b + int k * rad l..<b + (int k + 1) * rad l} \<union>
           fr l M' (ch s l k) (b + int k * rad l) (kcnt l cnt k)"
    and "kids l M s b cnt \<inter> {b + int k * rad l..<b + (int k + 1) * rad l} = fr l M (ch s l k) (b + int k * rad l) (kcnt l cnt k)"
proof -
  have other: "same M M' {ch s l j..ch s l j + skp l}" if "kid l cnt j" "j \<noteq> k" for j
  proof (rule same_mono [OF same])
    have "ch s l j + skp l < ch s l k \<or> ch s l k + skp l < ch s l j"
      using that(2) ch_bound(3) by (meson nat_neq_iff)
    then show "{ch s l j..ch s l j + skp l} \<subseteq> - insert s {ch s l k..ch s l k + skp l}"
      using ch_bound(1) [of j s l] that(1) by (auto simp: kid_def)
  qed
  have at: "M' ! ch s l j = M ! ch s l j" if "j < 16" "j \<noteq> k" for j
  proof -
    have "ch s l j \<in> - insert s {ch s l k..ch s l k + skp l}"
      using that ch_bound(3) [of j k s l] ch_bound(3) [of k j s l] by (cases "j < k") auto
    then show ?thesis using same by (auto simp: same_def)
  qed
  have len: "length M' = length M" using same by (simp add: same_def)
  show "kids_ok l M' s b cnt"
    unfolding kids_ok_def
  proof (intro conjI allI impI)
    show "laid (Suc l) M' s cnt"
    proof -
      have "if int j * rad l < cnt then laid l M' (ch s l j) (kcnt l cnt j)
            else int j * rad l < cnt + rad l \<longrightarrow> ch s l j < length M' \<and> bm_bighint (M' ! ch s l j) = -1" if "j < 16" for j
        using ok child len same_tree(1) [OF other, of j] at [OF that] k that by (cases "j = k") (auto simp: kids_ok_def kid_def)
      then show ?thesis using hint len ok by (simp add: kids_ok_def)
    qed
    fix j assume j: "kid l cnt j"
    show "vl l M' (ch s l j) (b + int j * rad l) (kcnt l cnt j)"
      using ok child j same_tree(3) [OF other [OF j]] by (cases "j = k") (auto simp: kids_ok_def)
  qed
  let ?f = "\<lambda>M j. fr l M (ch s l j) (b + int j * rad l) (kcnt l cnt j)"
  have out: "?f M j \<inter> {b + int k * rad l..<b + (int k + 1) * rad l} = {}" if "kid l cnt j" "j \<noteq> k" for j
  proof -
    have "int j + 1 \<le> int k \<or> int k + 1 \<le> int j" using that(2) by (cases "j < k") auto
    then have "(int j + 1) * rad l \<le> int k * rad l \<or> (int k + 1) * rad l \<le> int j * rad l"
      by (auto intro: mult_right_mono)
    moreover have "?f M j \<subseteq> {b + int j * rad l..<b + (int j + 1) * rad l}"
      by (rule order_trans [OF kid_range [OF ok that(1)]]) (use kid_cnt(2) [of l cnt j] in \<open>simp add: distrib_right\<close>)
    ultimately have "x \<notin> {b + int k * rad l..<b + (int k + 1) * rad l}" if "x \<in> ?f M j" for x
      using that unfolding subset_eq atLeastLessThan_iff by (meson add_left_mono leD order_less_le_trans order_trans)
    then show ?thesis by auto
  qed
  have ins: "?f M k \<subseteq> {b + int k * rad l..<b + (int k + 1) * rad l}"
    by (rule order_trans [OF kid_range [OF ok k]]) (use kid_cnt(2) [of l cnt k] in \<open>simp add: distrib_right\<close>)
  have split: "kids l N s b cnt = ?f N k \<union> (\<Union>j\<in>{j. kid l cnt j \<and> j \<noteq> k}. ?f N j)" for N
    using k by (auto simp: kids_def)
  have rest: "(\<Union>j\<in>{j. kid l cnt j \<and> j \<noteq> k}. ?f M' j) = (\<Union>j\<in>{j. kid l cnt j \<and> j \<noteq> k}. ?f M j)"
    using same_tree(2) [OF other] by auto
  show "kids l M s b cnt \<inter> {b + int k * rad l..<b + (int k + 1) * rad l} = ?f M k"
    unfolding split using ins out by blast
  show "kids l M' s b cnt = kids l M s b cnt - {b + int k * rad l..<b + (int k + 1) * rad l} \<union> ?f M' k"
    unfolding split rest using ins out by blast
qed

section \<open>The loops that initialise the children\<close>

lemma laid_new_root:
  assumes "laid l M s cnt" and "same M M' {s<..s + skp l}" and "bm_bighint (M' ! s) \<noteq> -1"
  shows "laid l M' s cnt"
proof (cases l)
  case (Suc j)
  have sub: "same M M' {ch s j k..ch s j k + skp j}" if "k < 16" for k
    by (rule same_mono [OF assms(2)]) (use ch_bound(1,2) [OF that, of s j] Suc in auto)
  have "M' ! ch s j k = M ! ch s j k" "length M' = length M" if "k < 16" for k
    using sub [OF that] by (auto simp: same_def)
  then show ?thesis using assms same_tree(1) [OF sub] Suc by (auto simp: same_def)
qed (use assms in \<open>auto simp: same_def\<close>)

lemma index_le: "k \<le> 16 \<Longrightarrow> 1 + k * (skp l + 1) \<le> skp (Suc l) \<longleftrightarrow> k < 16"
proof -
  assume "k \<le> 16"
  then have "k = 16 \<or> k < 16" by auto
  moreover have "k * (skp l + 1) \<le> 15 * (skp l + 1)" if "k < 16" using that by (intro mult_right_mono) auto
  ultimately show ?thesis by auto
qed

lemma kid_next: "kid l cnt k \<Longrightarrow> int (Suc k) * rad l < cnt + rad l"
  by (simp add: kid_def algebra_simps)

lemma sweep_from:
  assumes "k \<le> 16" and "int k * rad l < cnt + rad l"
    and "\<And>j. k \<le> j \<Longrightarrow> kid l cnt j \<Longrightarrow> ch s l j < length M \<and> bm_bighint (M ! ch s l j) \<noteq> -1"
    and "\<And>j. k \<le> j \<Longrightarrow> j < 16 \<Longrightarrow> \<not> kid l cnt j \<Longrightarrow> int j * rad l < cnt + rad l \<Longrightarrow> ch s l j < length M \<and> bm_bighint (M ! ch s l j) = -1"
  shows "\<exists>M'. blst_sweep upd s (skp (Suc l)) (skp l + 1) (1 + k * (skp l + 1)) M = Inr M' \<and> length M' = length M \<and>
           (\<forall>i. M' ! i = (if \<exists>j\<ge>k. kid l cnt j \<and> i = ch s l j then upd (M ! i) else M ! i))"
  using assms
proof (induction "16 - k" arbitrary: k M)
  case 0
  then have "k = 16" by simp
  then show ?case by (subst blst_sweep.simps) (auto simp: kid_def)
next
  case (Suc n)
  have k: "k < 16" using Suc.hyps(2) by simp
  let ?i = "1 + k * (skp l + 1)"
  have at: "s + ?i = ch s l k" by (simp add: ch_def)
  show ?case
  proof (cases "kid l cnt k")
    case False
    have "\<not> kid l cnt j" if "k \<le> j" for j using False kid_down that by blast
    then show ?thesis
      using Suc.prems(4) [of k] False k Suc.prems(2) at index_le [of k l] by (subst blst_sweep.simps) auto
  next
    case True
    let ?M = "M[ch s l k := upd (M ! ch s l k)]"
    have i: "?i + (skp l + 1) = 1 + Suc k * (skp l + 1)" by simp
    have "\<exists>M'. blst_sweep upd s (skp (Suc l)) (skp l + 1) (1 + Suc k * (skp l + 1)) ?M = Inr M' \<and> length M' = length ?M \<and>
        (\<forall>i. M' ! i = (if \<exists>j\<ge>Suc k. kid l cnt j \<and> i = ch s l j then upd (?M ! i) else ?M ! i))"
      by (rule Suc.hyps(1)) (use Suc.hyps(2) k kid_next [OF True] Suc.prems(3,4) in \<open>auto simp: ch_inj\<close>)
    then obtain M' where M': "blst_sweep upd s (skp (Suc l)) (skp l + 1) (1 + Suc k * (skp l + 1)) ?M = Inr M'"
      "length M' = length M" "\<And>i. M' ! i = (if \<exists>j\<ge>Suc k. kid l cnt j \<and> i = ch s l j then upd (?M ! i) else ?M ! i)"
      by auto
    have "M' ! i = (if \<exists>j\<ge>k. kid l cnt j \<and> i = ch s l j then upd (M ! i) else M ! i)" for i
    proof (cases "i = ch s l k")
      case True
      then show ?thesis using M'(3) [of i] Suc.prems(3) [of k] \<open>kid l cnt k\<close> by (auto simp: ch_inj)
    next
      case False
      have eq: "(\<exists>j\<ge>k. kid l cnt j \<and> i = ch s l j) \<longleftrightarrow> (\<exists>j\<ge>Suc k. kid l cnt j \<and> i = ch s l j)"
        using False by (metis Suc_leD Suc_leI order_le_less)
      have "?M ! i = M ! i" using False by (metis nth_list_update_neq)
      then show ?thesis by (simp only: eq M'(3))
    qed
    moreover have "blst_sweep upd s (skp (Suc l)) (skp l + 1) ?i M = blst_sweep upd s (skp (Suc l)) (skp l + 1) (?i + (skp l + 1)) ?M"
      using Suc.prems(3) [of k] True k at index_le [of k l]
      by (subst blst_sweep.simps) (simp del: skp.simps)
    then have "blst_sweep upd s (skp (Suc l)) (skp l + 1) ?i M = Inr M'" unfolding i M'(1) .
    ultimately show ?thesis using M'(2) by blast
  qed
qed

lemma sweep_ok:
  assumes "laid (Suc l) M s cnt" and "0 < cnt"
  obtains M' where "blst_sweep upd s (skp (Suc l)) (skp l + 1) 1 M = Inr M'" and "length M' = length M"
    and "\<And>k. kid l cnt k \<Longrightarrow> M' ! ch s l k = upd (M ! ch s l k)"
    and "\<And>i. (\<And>k. kid l cnt k \<Longrightarrow> i \<noteq> ch s l k) \<Longrightarrow> M' ! i = M ! i"
proof -
  have "\<exists>M'. blst_sweep upd s (skp (Suc l)) (skp l + 1) (1 + 0 * (skp l + 1)) M = Inr M' \<and> length M' = length M \<and>
      (\<forall>i. M' ! i = (if \<exists>j\<ge>0. kid l cnt j \<and> i = ch s l j then upd (M ! i) else M ! i))"
  proof (rule sweep_from)
    show "int 0 * rad l < cnt + rad l" using assms(2) by (simp add: add_pos_pos)
    show "ch s l j < length M \<and> bm_bighint (M ! ch s l j) \<noteq> -1" if "kid l cnt j" for j
      using laid_root [OF laid_kid [OF assms(1) that]] by simp
    show "ch s l j < length M \<and> bm_bighint (M ! ch s l j) = -1" if "j < 16" "\<not> kid l cnt j" "int j * rad l < cnt + rad l" for j
      by (rule laid_term [OF assms(1) that])
  qed simp
  then obtain M' where M': "blst_sweep upd s (skp (Suc l)) (skp l + 1) (1 + 0 * (skp l + 1)) M = Inr M'" "length M' = length M"
      "\<And>i. M' ! i = (if \<exists>j\<ge>0. kid l cnt j \<and> i = ch s l j then upd (M ! i) else M ! i)"
    by blast
  show thesis
    by (rule that [of M']) (use M' in auto)
qed

lemma sweep_same:
  assumes "length M' = length M" and "\<And>i. (\<And>k. kid l cnt k \<Longrightarrow> i \<noteq> ch s l k) \<Longrightarrow> M' ! i = M ! i"
  shows "same M M' (- {s<..s + skp (Suc l)})"
    and "kid l cnt k \<Longrightarrow> same M M' {ch s l k<..ch s l k + skp l}"
    and "k < 16 \<Longrightarrow> \<not> kid l cnt k \<Longrightarrow> M' ! ch s l k = M ! ch s l k"
proof -
  have "i \<noteq> ch s l k" if "i \<in> - {s<..s + skp (Suc l)}" "kid l cnt k" for i k
    using that ch_bound(1,2) [of k s l] by (auto simp: kid_def)
  then show "same M M' (- {s<..s + skp (Suc l)})" using assms by (auto simp: same_def)
next
  have "i \<noteq> ch s l j" if "i \<in> {ch s l k<..ch s l k + skp l}" for i j
    using that ch_bound(3) [of j k s l] ch_bound(3) [of k j s l] by (cases j k rule: linorder_cases) auto
  then show "same M M' {ch s l k<..ch s l k + skp l}" using assms by (auto simp: same_def)
next
  show "M' ! ch s l k = M ! ch s l k" if "k < 16" "\<not> kid l cnt k"
    using that by (intro assms(2)) (auto simp: ch_inj)
qed

lemma swept_laid:
  assumes "laid (Suc l) M s cnt" and "length M' = length M" and "\<And>i. (\<And>k. kid l cnt k \<Longrightarrow> i \<noteq> ch s l k) \<Longrightarrow> M' ! i = M ! i"
    and "\<And>k. kid l cnt k \<Longrightarrow> bm_bighint (M' ! ch s l k) \<noteq> -1"
  shows "laid (Suc l) M' s cnt"
proof -
  have "laid l M' (ch s l k) (kcnt l cnt k)" if "kid l cnt k" for k
    by (rule laid_new_root [OF laid_kid [OF assms(1) that] sweep_same(2) [OF assms(2,3) that] assms(4) [OF that]]) simp
  moreover have "M' ! s = M ! s" by (rule assms(3)) simp
  moreover have "M' ! ch s l k = M ! ch s l k" if "k < 16" "\<not> kid l cnt k" for k
    by (rule sweep_same(3) [OF assms(2,3) that]) simp
  ultimately show ?thesis
    using assms(1,2) by (auto simp: kid_def)
qed

text \<open>The two uses: all children free, all children allocated.\<close>

lemma sweep_free:
  assumes "laid (Suc l) M s (rad (Suc l))"
  obtains M' where "blst_sweep (node_free (skp l + 1) (rad l)) s (skp (Suc l)) (skp l + 1) 1 M = Inr M'"
    and "kids_ok l M' s b (rad (Suc l))" and "kids l M' s b (rad (Suc l)) = {b..<b + rad (Suc l)}"
    and "same M M' (- {s<..s + skp (Suc l)})"
proof -
  obtain M' where M': "blst_sweep (node_free (skp l + 1) (rad l)) s (skp (Suc l)) (skp l + 1) 1 M = Inr M'" "length M' = length M"
      "\<And>k. kid l (rad (Suc l)) k \<Longrightarrow> M' ! ch s l k = node_free (skp l + 1) (rad l) (M ! ch s l k)"
      "\<And>i. (\<And>k. kid l (rad (Suc l)) k \<Longrightarrow> i \<noteq> ch s l k) \<Longrightarrow> M' ! i = M ! i"
    by (rule sweep_ok [OF assms, of "node_free (skp l + 1) (rad l)"]) auto
  have full: "kid l (rad (Suc l)) k \<longleftrightarrow> k < 16" "k < 16 \<Longrightarrow> kcnt l (rad (Suc l)) k = rad l" for k
    using kid_full [of k l] by (auto simp: kid_def)
  have child: "vl l M' (ch s l k) c (rad l)" "fr l M' (ch s l k) c (rad l) = {c..<c + rad l}" if "k < 16" for k c
  proof -
    have "x \<in> {c + int j |j. j < 32}" if "c \<le> x" "x < c + 32" for x
      using that by (auto intro!: exI [of _ "nat (x - c)"])
    then show "vl l M' (ch s l k) c (rad l)" "fr l M' (ch s l k) c (rad l) = {c..<c + rad l}"
      using M'(3) [of k] full [of k] that by (cases l; force simp: node_free_def bit_simps)+
  qed
  have "kids_ok l M' s b (rad (Suc l))"
    unfolding kids_ok_def
    using swept_laid [OF assms M'(2,4)] M'(3) child(1) full by (auto simp: node_free_def simp del: laid.simps)
  moreover have "kids l M' s b (rad (Suc l)) = {b..<b + rad (Suc l)}"
  proof -
    have "kids l M' s b (rad (Suc l)) = (\<Union>k\<in>{k. k < 16}. {b + int k * rad l..<b + int k * rad l + rad l})"
      unfolding kids_def using child(2) full by auto
    also have "\<dots> = {b..<b + rad (Suc l)}"
    proof (intro equalityI subsetI)
      fix x assume "x \<in> {b..<b + rad (Suc l)}"
      then have x: "0 \<le> x - b" "x - b < 16 * rad l" by auto
      define k where "k = nat ((x - b) div rad l)"
      have bnd: "(x - b) div rad l * rad l \<le> x - b" "x - b < (x - b) div rad l * rad l + rad l"
        using pos_mod_bound [OF rad_simps(3), of "x - b" l] pos_mod_sign [OF rad_simps(3), of "x - b" l]
          div_mult_mod_eq [of "x - b" "rad l"] by linarith+
      have "(x - b) div rad l * rad l < 16 * rad l" using bnd(1) x(2) by linarith
      then have "(x - b) div rad l < 16" by simp
      then have "k < 16" "int k = (x - b) div rad l" using x by (auto simp: k_def pos_imp_zdiv_nonneg_iff)
      then show "x \<in> (\<Union>k\<in>{k. k < 16}. {b + int k * rad l..<b + int k * rad l + rad l})" using bnd by auto
    next
      fix x assume "x \<in> (\<Union>k\<in>{k. k < 16}. {b + int k * rad l..<b + int k * rad l + rad l})"
      then obtain k where k: "k < 16" "b + int k * rad l \<le> x" "x < b + int k * rad l + rad l" by auto
      have "int k * rad l \<le> 15 * rad l" "0 \<le> int k * rad l" using k(1) by (auto intro: mult_right_mono)
      then show "x \<in> {b..<b + rad (Suc l)}" using k unfolding atLeastLessThan_iff rad_simps by linarith
    qed
    finally show ?thesis .
  qed
  ultimately show thesis using that M'(1) sweep_same(1) [OF M'(2,4)] by blast
qed

lemma sweep_clear:
  assumes "laid (Suc l) M s cnt" and "0 < cnt"
  obtains M' where "blst_sweep (node_clear (skp l + 1)) s (skp (Suc l)) (skp l + 1) 1 M = Inr M'"
    and "kids_ok l M' s b cnt" and "kids l M' s b cnt = {}" and "same M M' (- {s<..s + skp (Suc l)})"
proof -
  obtain M' where M': "blst_sweep (node_clear (skp l + 1)) s (skp (Suc l)) (skp l + 1) 1 M = Inr M'" "length M' = length M"
      "\<And>k. kid l cnt k \<Longrightarrow> M' ! ch s l k = node_clear (skp l + 1) (M ! ch s l k)"
      "\<And>i. (\<And>k. kid l cnt k \<Longrightarrow> i \<noteq> ch s l k) \<Longrightarrow> M' ! i = M ! i"
    by (rule sweep_ok [OF assms, of "node_clear (skp l + 1)"]) auto
  have child: "vl l M' (ch s l k) c (kcnt l cnt k)" "fr l M' (ch s l k) c (kcnt l cnt k) = {}" if "kid l cnt k" for k c
    using M'(3) [OF that] kid_cnt(1) [OF that] by (cases l; force simp: node_clear_def bit_simps)+
  have "kids_ok l M' s b cnt"
    unfolding kids_ok_def
    using swept_laid [OF assms(1) M'(2,4)] M'(3) child(1) by (auto simp: node_clear_def simp del: laid.simps)
  moreover have "kids l M' s b cnt = {}" unfolding kids_def using child(2) by auto
  ultimately show thesis using that M'(1) sweep_same(1) [OF M'(2,4)] by blast
qed

end
