(* ===== verification/Subr_Blist_Leaf.thy ===== *)
theory Subr_Blist_Leaf
  imports Subr_Blist_Inv
begin

text \<open>The operations on a leaf: the searches in a bitmap, the masks, and what the leaf operations do to the free blocks.\<close>

section \<open>Searches and masks\<close>

lemma and_mask_zero_bit: "w AND mask j = 0 \<Longrightarrow> i < j \<Longrightarrow> \<not> bit (w :: 32 word) i"
  by (metis bit_0_eq bit_and_iff bit_imp_le_length bit_mask_iff bot_apply bot_bool_def possible_bit_word)

lemma drop_mask: "j \<le> 32 \<Longrightarrow> drop_bit i (mask j :: 32 word) = mask (j - i)"
  by (rule bit_word_eqI) (auto simp: bit_simps)

lemma minus_one_mask: "drop_bit i (-1 :: 32 word) = mask (32 - i)"
  by (rule bit_word_eqI) (auto simp: bit_simps)

text \<open>The search halves the width: it ends at the lowest set bit.\<close>

lemma blst_bit_pow:
  "\<exists>i<2 * 2 ^ n. bit w i \<Longrightarrow> 2 * 2 ^ n \<le> (32 :: nat) \<Longrightarrow>
     (let k = blst_bit (2 ^ n) r w (mask (2 ^ n)) in r \<le> k \<and> bit w (k - r) \<and> (\<forall>i<k - r. \<not> bit w i))"
proof (induction n arbitrary: r w)
  case 0
  obtain i where "i < 2" "bit w i" using "0.prems"(1) by auto
  show ?case
  proof (cases "w AND mask 1 = 0")
    case True
    then have "\<not> bit w 0" by (rule and_mask_zero_bit) simp
    moreover have "i = 1" using \<open>i < 2\<close> \<open>bit w i\<close> calculation by (cases i) auto
    ultimately show ?thesis
      using True \<open>bit w i\<close> by (simp add: Let_def blst_bit.simps [of "Suc 0"] blst_bit.simps [of 0] less_Suc_eq bit_drop_bit_eq)
  next
    case False
    then have "bit w 0" by (simp add: and_one_eq odd_iff_mod_2_eq_one bit_0)
    then show ?thesis using False by (simp add: Let_def blst_bit.simps [of "Suc 0"] blst_bit.simps [of 0])
  qed
next
  case (Suc n)
  let ?j = "2 ^ Suc n :: nat"
  have half: "?j div 2 = 2 ^ n" "drop_bit (?j div 2) (mask ?j :: 32 word) = mask (2 ^ n)"
    using Suc.prems(2) by (auto simp: drop_mask)
  have size: "2 * 2 ^ n \<le> (32 :: nat)" using Suc.prems(2) by simp
  show ?case
  proof (cases "w AND mask ?j = 0")
    case True
    note low = and_mask_zero_bit [OF True]
    obtain i where i: "i < 2 * ?j" "bit w i" using Suc.prems(1) by blast
    then have "?j \<le> i" using low by (meson not_less)
    then have "i - ?j < 2 * 2 ^ n" "bit (drop_bit ?j w) (i - ?j)" using i by (auto simp: bit_drop_bit_eq)
    then have "\<exists>i<2 * 2 ^ n. bit (drop_bit ?j w) i" by blast
    from Suc.IH [OF this size, of "r + ?j"]
    have IH: "r + ?j \<le> k" "bit (drop_bit ?j w) (k - (r + ?j))" "\<forall>i<k - (r + ?j). \<not> bit (drop_bit ?j w) i"
      if "k = blst_bit (2 ^ n) (r + ?j) (drop_bit ?j w) (mask (2 ^ n))" for k
      using that by (auto simp: Let_def)
    define k where "k = blst_bit (2 ^ n) (r + ?j) (drop_bit ?j w) (mask (2 ^ n))"
    note IH = IH [OF k_def]
    have "bit w (k - r)" using IH(1,2) by (simp add: bit_drop_bit_eq)
    moreover have "\<not> bit w i" if "i < k - r" for i
    proof (cases "i < ?j")
      case False
      then have "i - ?j < k - (r + ?j)" using that by simp
      from IH(3) [rule_format, OF this] show ?thesis using False by (simp add: bit_drop_bit_eq)
    qed (rule low)
    moreover have "blst_bit ?j r w (mask ?j) = k" using True half by (simp only: blst_bit.simps [of ?j] k_def) simp
    ultimately show ?thesis using IH(1) by (simp only: Let_def) simp
  next
    case False
    have "\<exists>i<2 * 2 ^ n. bit w i"
    proof (rule ccontr)
      assume "\<not> ?thesis"
      then have "w AND mask ?j = 0" by (intro bit_word_eqI) (auto simp: bit_simps)
      then show False using False by simp
    qed
    from Suc.IH [OF this size, of r]
    have "blst_bit ?j r w (mask ?j) = blst_bit (2 ^ n) r w (mask (2 ^ n))"
      using False half by (simp only: blst_bit.simps [of ?j]) simp
    then show ?thesis using Suc.IH [OF \<open>\<exists>i<2 * 2 ^ n. bit w i\<close> size, of r] by simp
  qed
qed

lemma blst_bit_lowest:
  assumes "w \<noteq> 0"
  shows "bit w (blst_bit 16 0 w (drop_bit 16 (-1)))" and "i < blst_bit 16 0 w (drop_bit 16 (-1)) \<Longrightarrow> \<not> bit w i"
proof -
  obtain i where "bit w i"
  proof (rule ccontr)
    assume "\<not> thesis"
    then have "w = 0" using that by (intro bit_word_eqI) auto
    then show False using assms by simp
  qed
  then have "\<exists>i<2 * 2 ^ 4. bit w i" using bit_imp_le_length [of w i] by auto
  from blst_bit_pow [OF this, of 0] show "bit w (blst_bit 16 0 w (drop_bit 16 (-1)))"
    and "i < blst_bit 16 0 w (drop_bit 16 (-1)) \<Longrightarrow> \<not> bit w i" for i
    by (auto simp: minus_one_mask Let_def)
qed

lemma blst_run_some:
  "blst_run j n w (push_bit j m) = Some (k, m') \<Longrightarrow> j \<le> k \<and> k \<le> n \<and> m' = push_bit k m \<and> w AND m' = m'"
proof (induction "Suc n - j" arbitrary: j)
  case 0
  then show ?case by (subst (asm) blst_run.simps) simp
next
  case (Suc d)
  have "blst_run j n w (push_bit j m) = (if w AND push_bit j m = push_bit j m then Some (j, push_bit j m) else blst_run (Suc j) n w (push_bit (Suc j) m))"
    using Suc.hyps(2) by (subst blst_run.simps) (simp add: push_bit_push_bit)
  moreover have "d = Suc n - Suc j" "j \<le> n" using Suc.hyps(2) by auto
  ultimately show ?case using Suc.hyps(1) [of "Suc j"] Suc.prems by (cases "w AND push_bit j m = push_bit j m") auto
qed

section \<open>The leaf operations\<close>

text \<open>What an operation on a node leaves: the tree is well formed, and means \<open>F\<close>.\<close>

definition leaves :: "nat \<Rightarrow> blmeta list \<Rightarrow> blmeta list \<Rightarrow> nat \<Rightarrow> int \<Rightarrow> int \<Rightarrow> int set \<Rightarrow> bool" where
  "leaves l M M' s b cnt F \<longleftrightarrow>
     laid l M' s cnt \<and> vl l M' s b cnt \<and> fr l M' s b cnt = F \<and> same M M' (- {s..s + skp l})"

lemma leaf_update:
  assumes "s < length M" and "bm_bighint m \<noteq> -1" and "\<And>j. bit (bmu_bitmap m) j \<Longrightarrow> int j < cnt"
  shows "leaves 0 M (M[s := m]) s b cnt {b + int j |j. bit (bmu_bitmap m) j}"
  using assms bit_imp_le_length [of "bmu_bitmap m"] by (auto simp: leaves_def same_update)

lemma leaf_fr: "fr 0 M s b cnt = {b + int j |j. bit (bmu_bitmap (M ! s)) j}"
  using bit_imp_le_length [of "bmu_bitmap (M ! s)"] by auto

lemma mem_bits: "x \<in> {b + int j |j. bit w j} \<longleftrightarrow> b \<le> x \<and> bit w (nat (x - b))"
  by (auto intro!: exI [of _ "nat (x - b)"])

lemma leaf_alloc:
  assumes "s < length M" and "bm_bighint (M ! s) \<noteq> -1" and "vl 0 M s b cnt" and "0 < c" and "c \<le> 32"
  shows "\<exists>r M'. blst_leaf_alloc M s b c = Inr (r, M') \<and>
     (case r of None \<Rightarrow> leaves 0 M M' s b cnt (fr 0 M s b cnt)
      | Some x \<Rightarrow> {x..<x + c} \<subseteq> fr 0 M s b cnt \<and> leaves 0 M M' s b cnt (fr 0 M s b cnt - {x..<x + c}))"
proof -
  let ?w = "bmu_bitmap (M ! s)"
  have inside: "int j < cnt" if "bit ?w j" for j using assms(3) that by simp
  have stay: "leaves 0 M (M[s := (M ! s)\<lparr>bm_bighint := h\<rparr>]) s b cnt (fr 0 M s b cnt)" if "h \<noteq> -1" for h
    using leaf_update [OF assms(1), of "(M ! s)\<lparr>bm_bighint := h\<rparr>" cnt b] that inside by (simp add: leaf_fr del: fr.simps)
  have take: "{b + int k..<b + int k + c} \<subseteq> fr 0 M s b cnt \<and>
      leaves 0 M (M[s := (M ! s)\<lparr>bmu_bitmap := ?w AND NOT m\<rparr>]) s b cnt (fr 0 M s b cnt - {b + int k..<b + int k + c})"
    if m: "\<And>j. bit m j \<longleftrightarrow> k \<le> j \<and> int j < int k + c" and sub: "?w AND m = m" for k m
  proof -
    have bits: "bit ?w j" if "k \<le> j" "int j < int k + c" for j
      using m [of j] sub that by (metis bit_and_iff)
    have "{b + int j |j. bit (?w AND NOT m) j} = fr 0 M s b cnt - {b + int k..<b + int k + c}"
      unfolding leaf_fr using m bit_imp_le_length [of ?w] by (auto simp: bit_simps)
    moreover have "{b + int k..<b + int k + c} \<subseteq> fr 0 M s b cnt"
      unfolding leaf_fr subset_eq Ball_def mem_bits using bits by auto
    ultimately show ?thesis
      using leaf_update [OF assms(1), of "(M ! s)\<lparr>bmu_bitmap := ?w AND NOT m\<rparr>" cnt b] assms(2) inside by (simp add: bit_simps del: fr.simps)
  qed
  show ?thesis
  proof (cases "?w = 0")
    case True
    then show ?thesis using stay [of 0] assms(1) by (simp add: blst_leaf_alloc_def)
  next
    case False
    show ?thesis
    proof (cases "c = 1")
      case True
      define k where "k = blst_bit 16 0 ?w (drop_bit 16 (-1))"
      have k: "bit ?w k" using blst_bit_lowest(1) [OF False] by (simp add: k_def)
      then have "k < 32" using bit_imp_le_length [of ?w k] by simp
      have "?w AND push_bit k 1 = push_bit k 1" by (rule bit_word_eqI) (use k in \<open>auto simp: bit_simps bit_1_iff\<close>)
      then have "{b + int k..<b + int k + c} \<subseteq> fr 0 M s b cnt \<and>
          leaves 0 M (M[s := (M ! s)\<lparr>bmu_bitmap := ?w AND NOT (push_bit k 1)\<rparr>]) s b cnt (fr 0 M s b cnt - {b + int k..<b + int k + c})"
        by (rule take [rotated]) (use True \<open>k < 32\<close> in \<open>auto simp: bit_simps bit_1_iff\<close>)
      then show ?thesis using False True assms(1) by (auto simp: blst_leaf_alloc_def k_def Let_def)
    next
      case c: False
      show ?thesis
      proof (cases "blst_run 0 (32 - nat c) ?w (push_bit 0 (drop_bit (32 - nat c) (-1)))")
        case None
        then show ?thesis using False c assms(1,4,5) stay [of "c - 1"] by (simp add: blst_leaf_alloc_def)
      next
        case (Some p)
        obtain k m where p: "p = (k, m)" by (cases p)
        from blst_run_some [OF Some [unfolded p]]
        have k: "k \<le> 32 - nat c" "m = push_bit k (mask (nat c))" "?w AND m = m"
          using assms(5) by (auto simp: minus_one_mask)
        have "{b + int k..<b + int k + c} \<subseteq> fr 0 M s b cnt \<and>
            leaves 0 M (M[s := (M ! s)\<lparr>bmu_bitmap := ?w AND NOT m\<rparr>]) s b cnt (fr 0 M s b cnt - {b + int k..<b + int k + c})"
          by (rule take [OF _ k(3)]) (use k(1,2) assms(4,5) in \<open>auto simp: bit_simps\<close>)
        then show ?thesis using False c assms(1,4,5) Some p by (auto simp: blst_leaf_alloc_def)
      qed
    qed
  qed
qed

lemma mask_bits:
  assumes "32 dvd b" and "b \<le> x" and "x + c \<le> b + 32" and "0 < c"
  shows "bit (blst_mask x c) j \<longleftrightarrow> j < 32 \<and> x \<le> b + int j \<and> b + int j < x + c"
proof -
  have "x mod 32 = (x - b) mod 32" using assms(1) by (metis minus_dvd_iff mod_diff_right_eq dvd_imp_mod_0 diff_zero)
  also have "\<dots> = x - b" using assms(2-4) by (intro mod_pos_pos_trivial) auto
  finally have m: "x mod 32 = x - b" .
  have "32 - nat c - nat (x - b) = nat (32 - c - (x - b))" using assms by simp
  then show ?thesis
    unfolding blst_mask_def m using assms(2-4) bit_imp_le_length [of "blst_mask x c" j] by (auto simp: bit_simps)
qed

lemma leaf_free:
  assumes "s < length M" and "vl 0 M s b cnt" and "cnt \<le> 32" and "32 dvd b" and "b \<le> x" and "x + c \<le> b + cnt" and "0 < c"
    and "fr 0 M s b cnt \<inter> {x..<x + c} = {}"
  shows "\<exists>M'. blst_leaf_free M s x c = Inr M' \<and> leaves 0 M M' s b cnt (fr 0 M s b cnt \<union> {x..<x + c})"
proof -
  let ?w = "bmu_bitmap (M ! s)"
  have mask: "bit (blst_mask x c) j \<longleftrightarrow> j < 32 \<and> x \<le> b + int j \<and> b + int j < x + c" for j
    by (rule mask_bits) (use assms in auto)
  have "\<not> bit ?w j" if "bit (blst_mask x c) j" for j
    using assms(8) that unfolding leaf_fr mask by fastforce
  then have "?w AND blst_mask x c = 0" by (intro bit_word_eqI) (auto simp: bit_simps)
  then have run: "blst_leaf_free M s x c = Inr (M[s := (M ! s)\<lparr>bmu_bitmap := ?w OR blst_mask x c, bm_bighint := 32\<rparr>])"
    using assms(1) by (simp add: blst_leaf_free_def)
  have "{b + int j |j. bit (?w OR blst_mask x c) j} = fr 0 M s b cnt \<union> {x..<x + c}"
    unfolding leaf_fr set_eq_iff Un_iff mem_bits unfolding bit_or_iff mask using assms(3,5,6) by auto
  moreover have bound: "int j < cnt" if "bit (?w OR blst_mask x c) j" for j
    using that assms(2,6) by (auto simp: bit_or_iff mask)
  have "leaves 0 M (M[s := (M ! s)\<lparr>bmu_bitmap := ?w OR blst_mask x c, bm_bighint := 32\<rparr>]) s b cnt
      {b + int j |j. bit (?w OR blst_mask x c) j}"
    using leaf_update [OF assms(1), of "(M ! s)\<lparr>bmu_bitmap := ?w OR blst_mask x c, bm_bighint := 32\<rparr>" cnt b] bound by simp
  ultimately show ?thesis using run by simp
qed

text \<open>Clearing the lowest bit.\<close>

lemma clear_lowest:
  assumes "bit (w :: 32 word) k" and "\<And>i. i < k \<Longrightarrow> \<not> bit w i"
  shows "bit (w AND (w - 1)) j \<longleftrightarrow> bit w j \<and> j \<noteq> k"
proof -
  have k: "k < 32" using bit_imp_le_length [OF assms(1)] by simp
  let ?v = "unset_bit k w"
  have "?v AND push_bit k 1 = 0" "?v AND mask k = 0"
    by (rule bit_word_eqI; use assms(2) in \<open>auto simp: bit_simps bit_1_iff\<close>)+
  then have add: "?v + push_bit k 1 = ?v OR push_bit k 1" "?v + mask k = ?v OR mask k"
    by (simp_all add: disjunctive_add_eq_or)
  have "?v OR push_bit k 1 = w"
    by (rule bit_word_eqI) (use assms(1) k in \<open>auto simp: bit_simps bit_1_iff\<close>)
  moreover have "push_bit k (1 :: 32 word) = mask k + 1" by (simp add: mask_eq_exp_minus_1 push_bit_eq_mult)
  ultimately have "w - 1 = ?v OR mask k" using add by (simp add: algebra_simps flip: add)
  then show ?thesis using assms by (auto simp: bit_simps)
qed

lemma count_bits: "blst_count w = int (card {j. bit w j})"
proof (induction w rule: blst_count.induct)
  case (1 w)
  show ?case
  proof (cases "w = 0")
    case False
    define k where "k = blst_bit 16 0 w (drop_bit 16 (-1))"
    have k: "bit w k" "i < k \<Longrightarrow> \<not> bit w i" for i using blst_bit_lowest [OF False] by (auto simp: k_def)
    have "{j. bit (w AND (w - 1)) j} = {j. bit w j} - {k}" using clear_lowest [OF k] by auto
    moreover have "finite {j. bit w j}" by (rule finite_subset [of _ "{..<32}"]) (use bit_imp_le_length [of w] in auto)
    ultimately have "card {j. bit w j} = Suc (card {j. bit (w AND (w - 1)) j})" using k(1) by (metis card.remove mem_Collect_eq)
    then show ?thesis using 1 False by (simp add: blst_count.simps [of w])
  qed (simp add: blst_count.simps)
qed

lemma leaf_fill:
  assumes "s < length M" and "bm_bighint (M ! s) \<noteq> -1" and "vl 0 M s b cnt" and "cnt \<le> 32" and "32 dvd b" and "b \<le> x"
    and "x + c \<le> b + cnt" and "0 < c"
  shows "\<exists>M'. blst_leaf_fill M s x c = Inr (int (card (fr 0 M s b cnt \<inter> {x..<x + c})), M') \<and>
           leaves 0 M M' s b cnt (fr 0 M s b cnt - {x..<x + c})"
proof -
  let ?w = "bmu_bitmap (M ! s)"
  have mask: "bit (blst_mask x c) j \<longleftrightarrow> j < 32 \<and> x \<le> b + int j \<and> b + int j < x + c" for j
    by (rule mask_bits) (use assms in auto)
  have "fr 0 M s b cnt \<inter> {x..<x + c} = (\<lambda>j. b + int j) ` {j. bit (?w AND blst_mask x c) j}"
    unfolding leaf_fr using bit_imp_le_length [of ?w] by (auto simp: bit_and_iff mask)
  then have n: "card (fr 0 M s b cnt \<inter> {x..<x + c}) = card {j. bit (?w AND blst_mask x c) j}"
    by (simp add: card_image inj_on_def)
  have "{b + int j |j. bit (?w AND NOT (blst_mask x c)) j} = fr 0 M s b cnt - {x..<x + c}"
    unfolding leaf_fr using bit_imp_le_length [of ?w] by (auto simp: bit_and_iff bit_not_iff mask)
  moreover have "leaves 0 M (M[s := (M ! s)\<lparr>bmu_bitmap := ?w AND NOT (blst_mask x c)\<rparr>]) s b cnt
      {b + int j |j. bit (?w AND NOT (blst_mask x c)) j}"
    using leaf_update [OF assms(1), of "(M ! s)\<lparr>bmu_bitmap := ?w AND NOT (blst_mask x c)\<rparr>" cnt b] assms(2,3)
    by (auto simp: bit_and_iff)
  ultimately show ?thesis using assms(1) n by (simp add: blst_leaf_fill_def count_bits)
qed

end
