(* ===== verification/Subr_Blist_Ops.thy ===== *)
theory Subr_Blist_Ops
  imports Subr_Blist_Leaf
begin

text \<open>
  The operations on an inner node. Each opens the node (the children of a collapsed node are initialised first), works on
  children, and closes it again with a count that is the number of free blocks of the children. The
  lemmas on a level take the specification of the children's operation as a hypothesis; the theorems at the end
  go through the levels by induction.
\<close>

section \<open>Opening and closing a node\<close>

text \<open>A node whose children are right, whatever its count says, that means \<open>F\<close>; the array outside the node is as in \<open>M\<close>.\<close>

definition opened :: "nat \<Rightarrow> blmeta list \<Rightarrow> blmeta list \<Rightarrow> nat \<Rightarrow> int \<Rightarrow> int \<Rightarrow> int set \<Rightarrow> bool" where
  "opened l M M' s b cnt F \<longleftrightarrow> kids_ok l M' s b cnt \<and> kids l M' s b cnt = F \<and> same M M' (- {s..s + skp (Suc l)})"

lemma opened_root: "opened l M M' s b cnt F \<Longrightarrow> s < length M'" "opened l M M' s b cnt F \<Longrightarrow> bm_bighint (M' ! s) \<noteq> -1"
  by (auto simp: opened_def kids_ok_def)

lemma opened_set_root:
  assumes "opened l M M' s b cnt F" and "bm_bighint m \<noteq> -1"
  shows "opened l M (M'[s := m]) s b cnt F"
proof -
  have s: "same M' (M'[s := m]) {ch s l k..ch s l k + skp l}" if "k < 16" for k
    by (rule same_update) (use ch_bound(1) [OF that, of s l] in auto)
  have "same M (M'[s := m]) (- {s..s + skp (Suc l)})"
    by (rule same_trans2 [OF _ same_update]) (use assms(1) in \<open>auto simp: opened_def\<close>)
  moreover have "M'[s := m] ! ch s l k = M' ! ch s l k" for k by simp
  ultimately show ?thesis
    using assms same_tree [OF s] by (auto simp: opened_def kids_ok_def kids_def kid_def)
qed

lemma opened_close:
  assumes "opened l M M' s b cnt F" and "bmu_avail (M' ! s) = int (card F)" and "0 < cnt" and "cnt \<le> rad (Suc l)"
  shows "leaves (Suc l) M M' s b cnt F"
  using assms wrap [of l M' s b cnt] by (auto simp: opened_def leaves_def simp del: laid.simps vl.simps fr.simps skp.simps)

lemma opened_self:
  assumes "laid (Suc l) M s cnt" and "vl (Suc l) M s b cnt" and "bmu_avail (M ! s) \<noteq> 0" and "bmu_avail (M ! s) \<noteq> rad (Suc l)"
  shows "opened l M M s b cnt (fr (Suc l) M s b cnt)"
  using unwrap [OF assms] by (auto simp: opened_def)

lemma same_below: "same M M' (- {s<..s + skp (Suc l)}) \<Longrightarrow> M' ! s = M ! s \<and> same M M' (- {s..s + skp (Suc l)})"
  by (auto simp: same_def)

lemma opened_kid:
  assumes o: "opened l M M1 s b cnt F" and k: "kid l cnt k"
    and step: "leaves l M1 M2 (ch s l k) (b + int k * rad l) (kcnt l cnt k) G"
  shows "opened l M M2 s b cnt (F - {b + int k * rad l..<b + (int k + 1) * rad l} \<union> G)" and "M2 ! s = M1 ! s"
proof -
  have k16: "k < 16" using k by (simp add: kid_def)
  have sm: "same M1 M2 (- {ch s l k..ch s l k + skp l})" using step by (simp add: leaves_def)
  have s: "s \<in> - {ch s l k..ch s l k + skp l}" using ch_bound(1) [OF k16, of s l] by auto
  show root: "M2 ! s = M1 ! s" using sm s by (auto simp: same_def)
  have "same M M2 (- {s..s + skp (Suc l)})"
  proof (rule same_trans2)
    show "same M M1 (- {s..s + skp (Suc l)})" using o by (simp add: opened_def)
    show "same M1 M2 (- {s..s + skp (Suc l)})"
      by (rule same_mono [OF sm]) (use ch_bound(1,2) [OF k16, of s l] in auto)
  qed
  moreover have "same M1 M2 (- insert s {ch s l k..ch s l k + skp l})" by (rule same_mono [OF sm]) auto
  moreover have "bm_bighint (M2 ! s) \<noteq> -1" using root opened_root(2) [OF o] by simp
  ultimately show "opened l M M2 s b cnt (F - {b + int k * rad l..<b + (int k + 1) * rad l} \<union> G)"
    using kid_change(1,2) [OF _ k, of M1 s b M2] o step unfolding opened_def leaves_def by blast
qed

lemma opened_kid_node:
  assumes o: "opened l M M1 s b cnt F" and k: "kid l cnt k"
  shows "laid l M1 (ch s l k) (kcnt l cnt k)" and "vl l M1 (ch s l k) (b + int k * rad l) (kcnt l cnt k)"
    and "fr l M1 (ch s l k) (b + int k * rad l) (kcnt l cnt k) = F \<inter> {b + int k * rad l..<b + (int k + 1) * rad l}"
proof -
  show l: "laid l M1 (ch s l k) (kcnt l cnt k)" and v: "vl l M1 (ch s l k) (b + int k * rad l) (kcnt l cnt k)"
    using o laid_kid [OF _ k] k unfolding opened_def kids_ok_def by blast+
  show "fr l M1 (ch s l k) (b + int k * rad l) (kcnt l cnt k) = F \<inter> {b + int k * rad l..<b + (int k + 1) * rad l}"
    using kid_change(3) [OF _ k, of M1 s b M1] o l v opened_root(2) [OF o] unfolding opened_def by auto
qed

lemma opened_term:
  "opened l M M1 s b cnt F \<Longrightarrow> k < 16 \<Longrightarrow> \<not> kid l cnt k \<Longrightarrow> int k * rad l < cnt + rad l \<Longrightarrow>
     ch s l k < length M1 \<and> bm_bighint (M1 ! ch s l k) = -1"
  unfolding opened_def kids_ok_def by (rule laid_term) simp_all

lemma kid_root:
  "opened l M M1 s b cnt F \<Longrightarrow> kid l cnt k \<Longrightarrow> ch s l k < length M1 \<and> bm_bighint (M1 ! ch s l k) \<noteq> -1"
  using opened_kid_node(1) laid_root by blast

lemma kids_block: "kid l cnt k \<Longrightarrow> A \<subseteq> {b + int k * rad l..<b + (int k + 1) * rad l} \<Longrightarrow>
    F - {b + int k * rad l..<b + (int k + 1) * rad l} \<union> (F \<inter> {b + int k * rad l..<b + (int k + 1) * rad l} - A) = F - A"
  by blast

lemma align: "32 dvd b \<Longrightarrow> 32 dvd b + int k * rad l"
  using rad_dvd by (simp add: dvd_mult)

text \<open>A count of 0 alone makes a node mean that nothing is free.\<close>

lemma emptied:
  assumes "laid (Suc l) M s cnt" and "0 < cnt" and "bmu_avail m = 0" and "bm_bighint m \<noteq> -1"
  shows "leaves (Suc l) M (M[s := m]) s b cnt {}"
proof -
  have t: "same M (M[s := m]) {s<..s + skp (Suc l)}" by (rule same_update) simp
  have s: "s < length M" by (rule laid_root(1) [OF assms(1)])
  have "laid (Suc l) (M[s := m]) s cnt" by (rule laid_new_root [OF assms(1) t]) (use s assms(4) in simp)
  moreover have "vl (Suc l) (M[s := m]) s b cnt" using s assms(2,3) by simp
  moreover have "fr (Suc l) (M[s := m]) s b cnt = {}" using s assms(3) by simp
  ultimately show ?thesis unfolding leaves_def using same_update by auto
qed

lemma down: "skp (Suc l) div 16 = skp l + 1" "rad (Suc l) div 16 = rad l"
  by simp_all

lemma leaves_trans:
  "same M M1 (- {s..s + skp l}) \<Longrightarrow> leaves l M1 M2 s b cnt F \<Longrightarrow> leaves l M M2 s b cnt F"
  unfolding leaves_def using same_trans2 by blast

section \<open>Allocation\<close>

definition alloc_result :: "nat \<Rightarrow> blmeta list \<Rightarrow> blmeta list \<Rightarrow> nat \<Rightarrow> int \<Rightarrow> int \<Rightarrow> int \<Rightarrow> int set \<Rightarrow> int option \<Rightarrow> bool" where
  "alloc_result l M M' s b cnt c F r \<longleftrightarrow>
     (case r of None \<Rightarrow> leaves l M M' s b cnt F
      | Some x \<Rightarrow> {x..<x + c} \<subseteq> F \<and> leaves l M M' s b cnt (F - {x..<x + c}))"

lemma alloc_loop:
  assumes child: "\<And>k M. kid l cnt k \<Longrightarrow> laid l M (ch s l k) (kcnt l cnt k) \<Longrightarrow>
      vl l M (ch s l k) (b + int k * rad l) (kcnt l cnt k) \<Longrightarrow>
      \<exists>r M'. A (1 + k * (skp l + 1)) (b + int k * rad l) M = Inr (r, M') \<and>
        alloc_result l M M' (ch s l k) (b + int k * rad l) (kcnt l cnt k) c (fr l M (ch s l k) (b + int k * rad l) (kcnt l cnt k)) r"
    and c: "0 < c" "c \<le> 32" and cnt: "0 < cnt" "cnt \<le> rad (Suc l)"
    and o: "opened l M0 M s b cnt F" and avail: "bmu_avail (M ! s) = int (card F)"
    and k: "k \<le> 16" "int k * rad l < cnt + rad l"
  shows "\<exists>r M'. blst_alloc_loop A s c (rad l) (skp (Suc l)) (skp l + 1) (1 + k * (skp l + 1)) (b + int k * rad l) M = Inr (r, M') \<and>
           alloc_result (Suc l) M0 M' s b cnt c F r"
  using o avail k
proof (induction "16 - k" arbitrary: k M)
  case 0
  then have "k = 16" by simp
  have "opened l M0 (M[s := (M ! s)\<lparr>bm_bighint := c - 1\<rparr>]) s b cnt F"
    by (rule opened_set_root [OF 0(2)]) (use c in simp)
  then have "leaves (Suc l) M0 (M[s := (M ! s)\<lparr>bm_bighint := c - 1\<rparr>]) s b cnt F"
    by (rule opened_close) (use 0(3) cnt opened_root [OF 0(2)] in auto)
  moreover have "leaves (Suc l) M0 M s b cnt F" by (rule opened_close [OF 0(2,3) cnt])
  ultimately show ?case
    using \<open>k = 16\<close> by (subst blst_alloc_loop.simps) (simp add: alloc_result_def)
next
  case (Suc n)
  have k: "k < 16" using Suc.hyps(2) by simp
  let ?i = "1 + k * (skp l + 1)" and ?none = "if c \<le> bm_bighint (M ! s) then M[s := (M ! s)\<lparr>bm_bighint := c - 1\<rparr>] else M"
  have at: "s + ?i = ch s l k" by (simp add: ch_def)
  note o = Suc.prems(1) and avail = Suc.prems(2)
  have "opened l M0 ?none s b cnt F" using o opened_set_root [OF o, of "(M ! s)\<lparr>bm_bighint := c - 1\<rparr>"] c by simp
  then have none: "leaves (Suc l) M0 ?none s b cnt F"
    by (rule opened_close) (use avail cnt opened_root [OF o] in auto)
  let ?loop = "blst_alloc_loop A s c (rad l) (skp (Suc l)) (skp l + 1)"
  have unroll: "?loop ?i (b + int k * rad l) M =
      (if length M \<le> ch s l k then Inl Fault
        else if c \<le> bm_bighint (M ! ch s l k) then
          (case A ?i (b + int k * rad l) M of
             Inl e \<Rightarrow> Inl e
           | Inr (Some r, M1) \<Rightarrow>
               let avail = bmu_avail (M1 ! s) - c in
               Inr (Some r, M1[s := (M1 ! s)\<lparr>bmu_avail := avail, bm_bighint := min (bm_bighint (M1 ! s)) avail\<rparr>])
           | Inr (None, M1) \<Rightarrow> ?loop (1 + Suc k * (skp l + 1)) (b + int (Suc k) * rad l) M1)
        else if bm_bighint (M ! ch s l k) = -1 then Inr (None, ?none)
        else if rad l < c then Inl (Panic ''blist_meta_alloc: allocation too large'')
        else ?loop (1 + Suc k * (skp l + 1)) (b + int (Suc k) * rad l) M)"
  proof -
    have "?i + (skp l + 1) = 1 + Suc k * (skp l + 1)" "b + int k * rad l + rad l = b + int (Suc k) * rad l"
      by (simp_all add: algebra_simps)
    then show ?thesis
      using index_le [of k l] k by (subst blst_alloc_loop.simps) (simp only: at Let_def, simp)
  qed
  show ?case
  proof (cases "kid l cnt k")
    case False
    then show ?thesis
      unfolding unroll using opened_term [OF o k False Suc.prems(4)] none c by (auto simp: alloc_result_def)
  next
    case True
    note root = kid_root [OF o True]
    show ?thesis
    proof (cases "c \<le> bm_bighint (M ! ch s l k)")
      case False
      have "\<not> rad l < c" using c rad_ge [of l] by simp
      then have step: "?loop ?i (b + int k * rad l) M = ?loop (1 + Suc k * (skp l + 1)) (b + int (Suc k) * rad l) M"
        unfolding unroll using root False by simp
      show ?thesis unfolding step
        by (rule Suc.hyps(1)) (use Suc.hyps(2) k o avail kid_next [OF True] in auto)
    next
      case fits: True
      obtain r M1 where A: "A ?i (b + int k * rad l) M = Inr (r, M1)"
        "alloc_result l M M1 (ch s l k) (b + int k * rad l) (kcnt l cnt k) c (fr l M (ch s l k) (b + int k * rad l) (kcnt l cnt k)) r"
        using child [OF True opened_kid_node(1,2) [OF o True]] by blast
      note fr = opened_kid_node(3) [OF o True]
      show ?thesis
      proof (cases r)
        case None
        have l1: "leaves l M M1 (ch s l k) (b + int k * rad l) (kcnt l cnt k) (F \<inter> {b + int k * rad l..<b + (int k + 1) * rad l} - {})"
          using A(2) None fr by (simp add: alloc_result_def)
        note o1 = opened_kid [OF o True l1]
        have "opened l M0 M1 s b cnt F" using o1(1) by (simp add: kids_block [OF True] Un_Diff_Int)
        moreover have "bmu_avail (M1 ! s) = int (card F)" using o1(2) avail by simp
        moreover have step: "?loop ?i (b + int k * rad l) M = ?loop (1 + Suc k * (skp l + 1)) (b + int (Suc k) * rad l) M1"
          unfolding unroll using root fits A(1) None by simp
        ultimately show ?thesis unfolding step
          by (intro Suc.hyps(1)) (use Suc.hyps(2) k kid_next [OF True] in auto)
      next
        case (Some x)
        have x: "{x..<x + c} \<subseteq> F \<inter> {b + int k * rad l..<b + (int k + 1) * rad l}"
          and l1: "leaves l M M1 (ch s l k) (b + int k * rad l) (kcnt l cnt k) (F \<inter> {b + int k * rad l..<b + (int k + 1) * rad l} - {x..<x + c})"
          using A(2) Some fr by (auto simp: alloc_result_def)
        note o1 = opened_kid [OF o True l1]
        have o2: "opened l M0 M1 s b cnt (F - {x..<x + c})" using o1(1) x by (simp add: kids_block [OF True])
        have fin: "finite F" using o kids_finite by (auto simp: opened_def)
        have "card (F - {x..<x + c}) = card F - nat c" using x by (subst card_Diff_subset) auto
        moreover have "nat c \<le> card F" using card_mono [OF fin, of "{x..<x + c}"] x by auto
        ultimately have card: "int (card (F - {x..<x + c})) = int (card F) - c" using c by simp
        let ?m = "(M1 ! s)\<lparr>bmu_avail := bmu_avail (M1 ! s) - c, bm_bighint := min (bm_bighint (M1 ! s)) (bmu_avail (M1 ! s) - c)\<rparr>"
        have a: "bmu_avail (M1 ! s) - c = int (card (F - {x..<x + c}))" using o1(2) avail card by simp
        have "opened l M0 (M1[s := ?m]) s b cnt (F - {x..<x + c})"
          by (rule opened_set_root [OF o2]) (use a opened_root(2) [OF o2] in \<open>auto simp: min_def\<close>)
        then have "leaves (Suc l) M0 (M1[s := ?m]) s b cnt (F - {x..<x + c})"
          by (rule opened_close) (use a cnt opened_root(1) [OF o2] in auto)
        then show ?thesis
          unfolding unroll using root fits A(1) Some x by (simp add: alloc_result_def Let_def)
      qed
    qed
  qed
qed

definition node_alloc :: "nat \<Rightarrow> nat \<Rightarrow> blmeta list \<Rightarrow> nat \<Rightarrow> int \<Rightarrow> int \<Rightarrow> (int option \<times> blmeta list) bl_result" where
  "node_alloc d l M s b c = (if l = 0 then blst_leaf_alloc M s b c else blst_meta_alloc d M s b c (rad l) (skp l))"

text \<open>The search of one level, from the first child on.\<close>

lemma alloc_children:
  assumes child: "\<forall>M s b cnt. laid l M s cnt \<longrightarrow> vl l M s b cnt \<longrightarrow> 0 < cnt \<longrightarrow> cnt \<le> rad l \<longrightarrow>
      (\<exists>r M'. node_alloc d l M s b c = Inr (r, M') \<and> alloc_result l M M' s b cnt c (fr l M s b cnt) r)"
    and c: "0 < c" "c \<le> 32" and cnt: "0 < cnt" "cnt \<le> rad (Suc l)"
    and o: "opened l M0 M s b cnt F" and avail: "bmu_avail (M ! s) = int (card F)"
  shows "\<exists>r M'. blst_alloc_loop
      (\<lambda>i blk M. if skp l + 1 = 1 then blst_leaf_alloc M (s + i) blk c else blst_meta_alloc d M (s + i) blk c (rad l) (skp l + 1 - 1))
      s c (rad l) (skp (Suc l)) (skp l + 1) 1 b M = Inr (r, M') \<and> alloc_result (Suc l) M0 M' s b cnt c F r"
proof -
  let ?A = "\<lambda>i blk M. node_alloc d l M (s + i) blk c"
  have A: "(\<lambda>i blk M. if skp l + 1 = 1 then blst_leaf_alloc M (s + i) blk c else blst_meta_alloc d M (s + i) blk c (rad l) (skp l + 1 - 1)) = ?A"
    by (cases l) (auto simp: node_alloc_def fun_eq_iff)
  have "\<exists>r M'. blst_alloc_loop ?A s c (rad l) (skp (Suc l)) (skp l + 1) (1 + 0 * (skp l + 1)) (b + int 0 * rad l) M = Inr (r, M') \<and>
      alloc_result (Suc l) M0 M' s b cnt c F r"
  proof (rule alloc_loop [OF _ c cnt o avail])
    fix k M assume "kid l cnt k" "laid l M (ch s l k) (kcnt l cnt k)" "vl l M (ch s l k) (b + int k * rad l) (kcnt l cnt k)"
    then show "\<exists>r M'. node_alloc d l M (s + (1 + k * (skp l + 1))) (b + int k * rad l) c = Inr (r, M') \<and>
        alloc_result l M M' (ch s l k) (b + int k * rad l) (kcnt l cnt k) c (fr l M (ch s l k) (b + int k * rad l) (kcnt l cnt k)) r"
      using child kid_cnt(1,2) unfolding ch_def by blast
  qed (use cnt in \<open>simp_all add: add_pos_pos\<close>)
  then show ?thesis unfolding A by simp
qed

lemma node_alloc:
  "l \<le> d \<Longrightarrow> laid l M s cnt \<Longrightarrow> vl l M s b cnt \<Longrightarrow> 0 < cnt \<Longrightarrow> cnt \<le> rad l \<Longrightarrow> 0 < c \<Longrightarrow> c \<le> 32 \<Longrightarrow>
     \<exists>r M'. node_alloc d l M s b c = Inr (r, M') \<and> alloc_result l M M' s b cnt c (fr l M s b cnt) r"
proof (induction l arbitrary: d M s b cnt)
  case 0
  then show ?case using leaf_alloc [of s M b cnt c] by (simp add: node_alloc_def alloc_result_def del: fr.simps vl.simps)
next
  case (Suc l)
  obtain e where d: "d = Suc e" "l \<le> e" using Suc.prems(1) by (cases d) auto
  note laid = Suc.prems(2) and vl = Suc.prems(3) and cnt = Suc.prems(4,5) and c = Suc.prems(6,7)
  have child: "\<forall>M s b cnt. laid l M s cnt \<longrightarrow> vl l M s b cnt \<longrightarrow> 0 < cnt \<longrightarrow> cnt \<le> rad l \<longrightarrow>
      (\<exists>r M'. node_alloc e l M s b c = Inr (r, M') \<and> alloc_result l M M' s b cnt c (fr l M s b cnt) r)"
    using Suc.IH [OF d(2) _ _ _ _ c] by blast
  note level = alloc_children [OF child c cnt]
  have s: "s < length M" "bm_bighint (M ! s) \<noteq> -1" using laid_root [OF laid] by auto
  have run: "node_alloc d (Suc l) M s b c =
      (if bmu_avail (M ! s) = 0 then Inr (None, M[s := (M ! s)\<lparr>bm_bighint := c\<rparr>])
       else andthen (if bmu_avail (M ! s) = rad (Suc l) then blst_sweep (node_free (skp l + 1) (rad l)) s (skp (Suc l)) (skp l + 1) 1 M else Inr M)
        (blst_alloc_loop
          (\<lambda>i blk M. if skp l + 1 = 1 then blst_leaf_alloc M (s + i) blk c else blst_meta_alloc e M (s + i) blk c (rad l) (skp l + 1 - 1))
          s c (rad l) (skp (Suc l)) (skp l + 1) 1 b))"
    using s(1) by (simp only: node_alloc_def d blst_meta_alloc.simps Let_def down not_le [symmetric] if_False nat.distinct)
  show ?case
  proof (cases "bmu_avail (M ! s) = 0")
    case True
    have "leaves (Suc l) M (M[s := (M ! s)\<lparr>bm_bighint := c\<rparr>]) s b cnt {}"
      by (rule emptied [OF laid cnt(1)]) (use True c in auto)
    then show ?thesis unfolding run using True by (simp add: alloc_result_def)
  next
    case nonzero: False
    show ?thesis
    proof (cases "bmu_avail (M ! s) = rad (Suc l)")
      case False
      show ?thesis
        unfolding run by (simp only: nonzero False if_False andthen_simps) (rule level [OF opened_self [OF laid vl nonzero False] vl_card [OF vl]])
    next
      case True
      have full: "cnt = rad (Suc l)" using True vl cnt(2) by simp
      obtain M1 where M1: "blst_sweep (node_free (skp l + 1) (rad l)) s (skp (Suc l)) (skp l + 1) 1 M = Inr M1"
        "kids_ok l M1 s b cnt" "kids l M1 s b cnt = {b..<b + rad (Suc l)}" "same M M1 (- {s<..s + skp (Suc l)})"
        using sweep_free [OF laid [unfolded full], of b] full by metis
      note same = same_below [OF M1(4)]
      have "opened l M M1 s b cnt {b..<b + rad (Suc l)}" using M1 same by (simp add: opened_def)
      moreover have "bmu_avail (M1 ! s) = int (card {b..<b + rad (Suc l)})" using same True by simp
      moreover have "fr (Suc l) M s b cnt = {b..<b + rad (Suc l)}" "(rad (Suc l) = 0) = False" using True nonzero by simp_all
      ultimately show ?thesis
        unfolding run by (simp only: True M1(1) if_False if_True andthen_simps refl) (rule level)
    qed
  qed
qed

section \<open>Ranges\<close>

text \<open>The loop over the children a range touches keeps what every part keeps.\<close>

lemma range_loop:
  assumes part: "\<And>k x v st. kid l cnt k \<Longrightarrow> P x st \<Longrightarrow> b + int k * rad l \<le> x \<Longrightarrow> x + v \<le> b + int k * rad l + kcnt l cnt k \<Longrightarrow>
      0 < v \<Longrightarrow> x + v \<le> e \<Longrightarrow> lo \<le> x \<Longrightarrow> \<exists>st'. part (1 + k * (skp l + 1)) x v (b + int k * rad l) st = Inr st' \<and> P (x + v) st'"
    and e: "e \<le> b + cnt" "cnt \<le> rad (Suc l)"
    and k: "k \<le> 16" and P: "P x st" and lo: "lo \<le> x"
    and x: "x = e \<and> e \<le> b + int k * rad l \<or> b + int k * rad l \<le> x \<and> x < b + int k * rad l + rad l \<and> x < e"
  shows "\<exists>st'. blst_range part (rad l) (skp (Suc l)) (skp l + 1) (1 + k * (skp l + 1)) (b + int k * rad l) x (e - x) st = Inr st' \<and> P e st'"
  using k P x lo
proof (induction "16 - k" arbitrary: k x st)
  case 0
  then have "k = 16" by simp
  then have "x = e" "e \<le> b + int k * rad l" using 0(4) e by auto
  then show ?case using 0(3) by (subst blst_range.simps) simp
next
  case (Suc n)
  let ?blk = "b + int k * rad l" and ?i = "1 + k * (skp l + 1)"
  have k: "k < 16" using Suc.hyps(2) by simp
  show ?case
  proof (cases "x = e \<and> e \<le> ?blk")
    case True
    then show ?thesis using Suc.prems(2) by (subst blst_range.simps) simp
  next
    case False
    then have x: "?blk \<le> x" "x < ?blk + rad l" "x < e" using Suc.prems(3) by auto
    then have kid: "kid l cnt k" using e k by (simp add: kid_def)
    define v where "v = min (?blk + rad l - x) (e - x)"
    have v: "0 < v" "x + v \<le> e" "x + v \<le> ?blk + kcnt l cnt k" using x e by (auto simp: v_def kcnt_def min_def)
    obtain st1 where st1: "part ?i x v ?blk st = Inr st1" "P (x + v) st1"
      using part [OF kid Suc.prems(2) x(1) v(3,1,2) Suc.prems(4)] by blast
    have next_k: "?i + (skp l + 1) = 1 + Suc k * (skp l + 1)" "?blk + rad l = b + int (Suc k) * rad l" "e - x - v = e - (x + v)"
      by (simp_all add: algebra_simps)
    have "blst_range part (rad l) (skp (Suc l)) (skp l + 1) ?i ?blk x (e - x) st =
        blst_range part (rad l) (skp (Suc l)) (skp l + 1) (?i + (skp l + 1)) (?blk + rad l) (x + v) (e - x - v) st1"
      using x(1,3) index_le [of k l] k st1(1) by (subst blst_range.simps) (simp only: v_def [symmetric] Let_def, simp)
    also have "\<dots> = blst_range part (rad l) (skp (Suc l)) (skp l + 1) (1 + Suc k * (skp l + 1)) (b + int (Suc k) * rad l) (x + v) (e - (x + v)) st1"
      by (simp only: next_k)
    finally have run: "blst_range part (rad l) (skp (Suc l)) (skp l + 1) ?i ?blk x (e - x) st = \<dots>" .
    have "x + v = e \<and> e \<le> b + int (Suc k) * rad l \<or>
        b + int (Suc k) * rad l \<le> x + v \<and> x + v < b + int (Suc k) * rad l + rad l \<and> x + v < e"
      unfolding next_k(2) [symmetric] v_def using x by (auto simp: min_def)
    then show ?thesis
      unfolding run using Suc.hyps k st1(2) v(1) Suc.prems(4) by (intro Suc.hyps(1)) auto
  qed
qed

lemma subrange:
  assumes part: "\<And>k x v st. kid l cnt k \<Longrightarrow> P x st \<Longrightarrow> b + int k * rad l \<le> x \<Longrightarrow> x + v \<le> b + int k * rad l + kcnt l cnt k \<Longrightarrow>
      0 < v \<Longrightarrow> x + v \<le> y + c \<Longrightarrow> y \<le> x \<Longrightarrow> \<exists>st'. part (1 + k * (skp l + 1)) x v (b + int k * rad l) st = Inr st' \<and> P (x + v) st'"
    and y: "b \<le> y" "y + c \<le> b + cnt" "0 < c" "cnt \<le> rad (Suc l)" and P: "P y st"
  shows "\<exists>st'. blst_subrange part (rad l) (skp (Suc l)) (skp l + 1) b y c st = Inr st' \<and> P (y + c) st'"
proof -
  define k where "k = nat ((y - b) div rad l)"
  have k: "int k = (y - b) div rad l" using y by (simp add: k_def pos_imp_zdiv_nonneg_iff)
  have at: "b + int k * rad l \<le> y" "y < b + int k * rad l + rad l"
    using pos_mod_bound [OF rad_simps(3), of "y - b" l] pos_mod_sign [OF rad_simps(3), of "y - b" l]
      div_mult_mod_eq [of "y - b" "rad l"] unfolding k by linarith+
  have "int k * rad l < 16 * rad l" using at y unfolding rad_simps by linarith
  then have "k \<le> 16" by simp
  have "\<exists>st'. blst_range part (rad l) (skp (Suc l)) (skp l + 1) (1 + k * (skp l + 1)) (b + int k * rad l) y (y + c - y) st = Inr st' \<and> P (y + c) st'"
    by (rule range_loop [where lo = y and P = P and part = part and e = "y + c" and b = b and l = l, OF part y(2,4) \<open>k \<le> 16\<close> P]) (use at y(3) in auto)
  then show ?thesis
    unfolding blst_subrange_def Let_def k [symmetric] by simp
qed

section \<open>Freeing\<close>

declare fr.simps(2) [simp del] vl.simps(2) [simp del] laid.simps(2) [simp del] skp.simps(2) [simp del]

definition node_give :: "nat \<Rightarrow> nat \<Rightarrow> blmeta list \<Rightarrow> nat \<Rightarrow> int \<Rightarrow> int \<Rightarrow> int \<Rightarrow> blmeta list bl_result" where
  "node_give d l M s x c b = (if l = 0 then blst_leaf_free M s x c else blst_meta_free d M s x c (rad l) (skp l) b)"

definition gives :: "nat \<Rightarrow> nat \<Rightarrow> bool" where
  "gives d l \<longleftrightarrow> (\<forall>M s cnt x c b. laid l M s cnt \<longrightarrow> vl l M s b cnt \<longrightarrow> 0 < cnt \<longrightarrow> cnt \<le> rad l \<longrightarrow> 32 dvd b \<longrightarrow> b \<le> x \<longrightarrow>
     x + c \<le> b + cnt \<longrightarrow> 0 < c \<longrightarrow> fr l M s b cnt \<inter> {x..<x + c} = {} \<longrightarrow>
     (\<exists>M'. node_give d l M s x c b = Inr M' \<and> leaves l M M' s b cnt (fr l M s b cnt \<union> {x..<x + c})))"

definition give_part :: "nat \<Rightarrow> nat \<Rightarrow> nat \<Rightarrow> nat \<Rightarrow> int \<Rightarrow> int \<Rightarrow> int \<Rightarrow> blmeta list \<Rightarrow> blmeta list bl_result" where
  "give_part d l s i b v blk M =
     (if bm_bighint (M ! s) = -1 then Inl (Panic ''blst_meta_free: freeing unexpected range'')
      else andthen (if skp l + 1 = 1 then blst_leaf_free M (s + i) b v else blst_meta_free d M (s + i) b v (rad l) (skp l + 1 - 1) blk)
        (\<lambda>M. Inr (if bm_bighint (M ! s) < bm_bighint (M ! (s + i))
                  then M[s := (M ! s)\<lparr>bm_bighint := bm_bighint (M ! (s + i))\<rparr>] else M)))"

lemma give_part:
  assumes child: "gives d l" and b: "32 dvd b"
    and o: "opened l M0 M s b cnt F" and k: "kid l cnt k" and x: "b + int k * rad l \<le> x" "x + v \<le> b + int k * rad l + kcnt l cnt k" "0 < v"
    and free: "F \<inter> {x..<x + v} = {}"
  shows "\<exists>M'. give_part d l s (1 + k * (skp l + 1)) x v (b + int k * rad l) M = Inr M' \<and>
           opened l M0 M' s b cnt (F \<union> {x..<x + v}) \<and> bmu_avail (M' ! s) = bmu_avail (M ! s)"
proof -
  let ?b = "b + int k * rad l" and ?r = "{b + int k * rad l..<b + (int k + 1) * rad l}"
  have op: "(if skp l + 1 = 1 then blst_leaf_free M (ch s l k) x v else blst_meta_free d M (ch s l k) x v (rad l) (skp l + 1 - 1) ?b) =
      node_give d l M (ch s l k) x v ?b"
    by (cases l) (auto simp: node_give_def)
  have range: "{x..<x + v} \<subseteq> ?r" using x kid_cnt(2) [of l cnt k] by (auto simp: distrib_right)
  have "fr l M (ch s l k) ?b (kcnt l cnt k) \<inter> {x..<x + v} = {}"
    using free opened_kid_node(3) [OF o k] by blast
  then obtain M1 where M1: "node_give d l M (ch s l k) x v ?b = Inr M1"
      "leaves l M M1 (ch s l k) ?b (kcnt l cnt k) (fr l M (ch s l k) ?b (kcnt l cnt k) \<union> {x..<x + v})"
    using child opened_kid_node(1,2) [OF o k] kid_cnt(1) [OF k] kid_cnt(2) align [OF b] x unfolding gives_def by blast
  note o1 = opened_kid [OF o k M1(2)]
  have "F - ?r \<union> (F \<inter> ?r \<union> {x..<x + v}) = F \<union> {x..<x + v}" using range by blast
  then have o2: "opened l M0 M1 s b cnt (F \<union> {x..<x + v})" using o1(1) opened_kid_node(3) [OF o k] by simp
  let ?h = "bm_bighint (M1 ! ch s l k)"
  have h: "?h \<noteq> -1" using M1(2) laid_root(2) by (auto simp: leaves_def)
  have "opened l M0 (M1[s := (M1 ! s)\<lparr>bm_bighint := ?h\<rparr>]) s b cnt (F \<union> {x..<x + v})"
    by (rule opened_set_root [OF o2]) (use h in simp)
  moreover have "give_part d l s (1 + k * (skp l + 1)) x v ?b M =
      Inr (if bm_bighint (M1 ! s) < ?h then M1[s := (M1 ! s)\<lparr>bm_bighint := ?h\<rparr>] else M1)"
    unfolding give_part_def ch_def [symmetric] op using opened_root(2) [OF o] M1(1) by simp
  ultimately show ?thesis using o1(2) o2 opened_root(1) [OF o2] by auto
qed

lemma card_add: "finite F \<Longrightarrow> F \<inter> {x..<x + c} = {} \<Longrightarrow> 0 \<le> c \<Longrightarrow> int (card (F \<union> {x..<x + c})) = int (card F) + (c :: int)"
  by (subst card_Un_disjoint) auto

lemma give_children:
  assumes child: "gives d l" and b: "32 dvd b" and cnt: "0 < cnt" "cnt \<le> rad (Suc l)"
    and o: "opened l M0 M s b cnt F" and x: "b \<le> x" "x + c \<le> b + cnt" "0 < c" and free: "F \<inter> {x..<x + c} = {}"
    and avail: "bmu_avail (M ! s) = int (card F) + c"
  shows "\<exists>M'. blst_subrange (give_part d l s) (rad l) (skp (Suc l)) (skp l + 1) b x c M = Inr M' \<and>
           leaves (Suc l) M0 M' s b cnt (F \<union> {x..<x + c})"
proof -
  let ?P = "\<lambda>y M'. opened l M0 M' s b cnt (F \<union> {x..<y}) \<and> bmu_avail (M' ! s) = int (card F) + c"
  have "\<exists>M'. blst_subrange (give_part d l s) (rad l) (skp (Suc l)) (skp l + 1) b x c M = Inr M' \<and> ?P (x + c) M'"
  proof (rule subrange [where P = ?P, OF _ x cnt(2)])
    show "?P x M" using o avail by simp
    fix k y v M
    assume k: "kid l cnt k" and P: "?P y M" and y: "b + int k * rad l \<le> y" "y + v \<le> b + int k * rad l + kcnt l cnt k" "0 < v"
      and in_range: "y + v \<le> x + c" "x \<le> y"
    have "(F \<union> {x..<y}) \<inter> {y..<y + v} = {}" using free in_range by auto
    moreover have "F \<union> {x..<y} \<union> {y..<y + v} = F \<union> {x..<y + v}" using in_range y(3) by auto
    ultimately show "\<exists>M'. give_part d l s (1 + k * (skp l + 1)) y v (b + int k * rad l) M = Inr M' \<and> ?P (y + v) M'"
      using give_part [OF child b _ k y, of M0 M s "F \<union> {x..<y}"] P by auto
  qed
  then obtain M' where M': "blst_subrange (give_part d l s) (rad l) (skp (Suc l)) (skp l + 1) b x c M = Inr M'" "?P (x + c) M'"
    by blast
  have "finite F" using o kids_finite by (auto simp: opened_def)
  then have "leaves (Suc l) M0 M' s b cnt (F \<union> {x..<x + c})"
    using M'(2) card_add [OF _ free] x(3) by (intro opened_close [OF _ _ cnt]) auto
  then show ?thesis using M'(1) by blast
qed

text \<open>A count of the whole radix alone makes a node mean that everything is free.\<close>

lemma filled_up:
  assumes "laid (Suc l) M s (rad (Suc l))" and "bmu_avail m = rad (Suc l)" and "bm_bighint m \<noteq> -1"
  shows "leaves (Suc l) M (M[s := m]) s b (rad (Suc l)) {b..<b + rad (Suc l)}"
proof -
  have t: "same M (M[s := m]) {s<..s + skp (Suc l)}" by (rule same_update) simp
  have s: "s < length M" by (rule laid_root(1) [OF assms(1)])
  have "laid (Suc l) (M[s := m]) s (rad (Suc l))" by (rule laid_new_root [OF assms(1) t]) (use s assms(3) in simp)
  moreover have "vl (Suc l) (M[s := m]) s b (rad (Suc l))" using s assms(2) by (simp add: fr.simps vl.simps)
  moreover have "fr (Suc l) (M[s := m]) s b (rad (Suc l)) = {b..<b + rad (Suc l)}" using s assms(2) by (simp add: fr.simps vl.simps)
  ultimately show ?thesis unfolding leaves_def using same_update by auto
qed

lemma node_give_eq:
  assumes "s < length M"
  shows "node_give (Suc d) (Suc l) M s x c b =
    andthen
      (if bmu_avail (M ! s) = 0
       then let M1 = M[s := (M ! s)\<lparr>bmu_avail := c, bm_bighint := c\<rparr>] in
            if c \<noteq> rad (Suc l) then blst_sweep (node_clear (skp l + 1)) s (skp (Suc l)) (skp l + 1) 1 M1 else Inr M1
       else Inr (M[s := (M ! s)\<lparr>bmu_avail := bmu_avail (M ! s) + c\<rparr>]))
      (\<lambda>M. if bmu_avail (M ! s) = rad (Suc l) then Inr M
           else if rad (Suc l) < bmu_avail (M ! s) then Inl (Panic ''blst_meta_free: freeing already free blocks'')
           else blst_subrange (give_part d l s) (rad l) (skp (Suc l)) (skp l + 1) b x c M)"
  using assms
  by (simp only: node_give_def blst_meta_free.simps Let_def down not_le [symmetric] if_False nat.distinct give_part_def [abs_def])

lemma node_give: "l \<le> d \<Longrightarrow> gives d l"
proof (induction l arbitrary: d)
  case 0
  then show ?case
    unfolding gives_def using leaf_free by (auto simp: node_give_def simp del: fr.simps vl.simps)
next
  case (Suc l)
  obtain e where d: "d = Suc e" "l \<le> e" using Suc.prems by (cases d) auto
  note child = Suc.IH [OF d(2)]
  show ?case
    unfolding gives_def
  proof (intro allI impI)
    fix M s cnt x c b
    assume laid: "laid (Suc l) M s cnt" and vl: "vl (Suc l) M s b cnt" and cnt: "0 < cnt" "cnt \<le> rad (Suc l)" and b: "32 dvd b"
      and x: "b \<le> x" "x + c \<le> b + cnt" "0 < c" and free: "fr (Suc l) M s b cnt \<inter> {x..<x + c} = {}"
    let ?F = "fr (Suc l) M s b cnt"
    let ?goal = "\<exists>M'. node_give d (Suc l) M s x c b = Inr M' \<and> leaves (Suc l) M M' s b cnt (?F \<union> {x..<x + c})"
    have s: "s < length M" "bm_bighint (M ! s) \<noteq> -1" using laid_root [OF laid] by auto
    have avail: "bmu_avail (M ! s) = int (card ?F)" by (rule vl_card [OF vl])
    have sub: "?F \<union> {x..<x + c} \<subseteq> {b..<b + cnt}" using fr_range [OF vl cnt] x by auto
    have card: "int (card (?F \<union> {x..<x + c})) = bmu_avail (M ! s) + c" using card_add [OF fr_finite free] x(3) avail by simp
    have le: "bmu_avail (M ! s) + c \<le> cnt" using card_mono [OF _ sub] card cnt by simp
    define m where "m = (if bmu_avail (M ! s) = 0 then (M ! s)\<lparr>bmu_avail := c, bm_bighint := c\<rparr> else (M ! s)\<lparr>bmu_avail := bmu_avail (M ! s) + c\<rparr>)"
    have m: "bmu_avail m = bmu_avail (M ! s) + c" "bm_bighint m \<noteq> -1" using s(2) x(3) by (auto simp: m_def)
    show ?goal
    proof (cases "bmu_avail (M ! s) + c = rad (Suc l)")
      case True
      then have full: "cnt = rad (Suc l)" using le cnt(2) by simp
      have "?F \<union> {x..<x + c} = {b..<b + rad (Suc l)}"
        by (rule card_seteq) (use sub full card True in auto)
      moreover have "leaves (Suc l) M (M[s := m]) s b cnt {b..<b + rad (Suc l)}"
        unfolding full by (rule filled_up) (use laid full m True in auto)
      moreover have "node_give d (Suc l) M s x c b = Inr (M[s := m])"
        unfolding d node_give_eq [OF s(1)] using True s(1) by (auto simp: m_def)
      ultimately show ?thesis by auto
    next
      case part: False
      obtain M1 where M1: "opened l M M1 s b cnt ?F" "bmu_avail (M1 ! s) = bmu_avail (M ! s) + c"
        "node_give d (Suc l) M s x c b = blst_subrange (give_part e l s) (rad l) (skp (Suc l)) (skp l + 1) b x c M1"
      proof (cases "bmu_avail (M ! s) = 0")
        case True
        have t: "same M (M[s := m]) {s<..s + skp (Suc l)}" by (rule same_update) simp
        have l1: "laid (Suc l) (M[s := m]) s cnt" by (rule laid_new_root [OF laid t]) (use s(1) m(2) in simp)
        obtain M2 where M2: "blst_sweep (node_clear (skp l + 1)) s (skp (Suc l)) (skp l + 1) 1 (M[s := m]) = Inr M2"
          "kids_ok l M2 s b cnt" "kids l M2 s b cnt = {}" "same (M[s := m]) M2 (- {s<..s + skp (Suc l)})"
          by (rule sweep_clear [OF l1 cnt(1)])
        have "?F = {}" using True by (simp add: fr.simps)
        moreover have "same M M2 (- {s..s + skp (Suc l)})"
          by (rule same_trans2 [OF same_update]) (use same_below [OF M2(4)] in auto)
        ultimately have "opened l M M2 s b cnt ?F" using M2 by (simp add: opened_def)
        moreover have root: "M2 ! s = m" using same_below [OF M2(4)] s(1) by simp
        moreover have "node_give d (Suc l) M s x c b = blst_subrange (give_part e l s) (rad l) (skp (Suc l)) (skp l + 1) b x c M2"
          unfolding d node_give_eq [OF s(1)] using True part le cnt(2) M2(1) root m(1) by (simp add: m_def Let_def)
        ultimately show ?thesis using that m(1) by auto
      next
        case False
        have "bmu_avail (M ! s) \<noteq> rad (Suc l)" using le cnt(2) x(3) by simp
        then have "opened l M (M[s := m]) s b cnt ?F"
          by (intro opened_set_root opened_self laid vl False m)
        moreover have "node_give d (Suc l) M s x c b = blst_subrange (give_part e l s) (rad l) (skp (Suc l)) (skp l + 1) b x c (M[s := m])"
          unfolding d node_give_eq [OF s(1)] using False part le cnt(2) s(1) by (simp add: m_def del: skp.simps)
        ultimately show ?thesis using that m(1) s(1) by auto
      qed
      show ?thesis
        unfolding M1(3) by (rule give_children [OF child b cnt M1(1) x free]) (use M1(2) avail in simp)
    qed
  qed
qed

section \<open>Filling\<close>

definition node_take :: "nat \<Rightarrow> nat \<Rightarrow> blmeta list \<Rightarrow> nat \<Rightarrow> int \<Rightarrow> int \<Rightarrow> int \<Rightarrow> (int \<times> blmeta list) bl_result" where
  "node_take d l M s x c b = (if l = 0 then blst_leaf_fill M s x c else blst_meta_fill d M s x c (rad l) (skp l) b)"

definition takes :: "nat \<Rightarrow> nat \<Rightarrow> bool" where
  "takes d l \<longleftrightarrow> (\<forall>M s cnt x c b. laid l M s cnt \<longrightarrow> vl l M s b cnt \<longrightarrow> 0 < cnt \<longrightarrow> cnt \<le> rad l \<longrightarrow> 32 dvd b \<longrightarrow> b \<le> x \<longrightarrow>
     x + c \<le> b + cnt \<longrightarrow> 0 < c \<longrightarrow> c \<le> 32 \<longrightarrow>
     (\<exists>M'. node_take d l M s x c b = Inr (int (card (fr l M s b cnt \<inter> {x..<x + c})), M') \<and>
       leaves l M M' s b cnt (fr l M s b cnt - {x..<x + c})))"

definition take_part :: "nat \<Rightarrow> nat \<Rightarrow> nat \<Rightarrow> nat \<Rightarrow> int \<Rightarrow> int \<Rightarrow> int \<Rightarrow> int \<times> blmeta list \<Rightarrow> (int \<times> blmeta list) bl_result" where
  "take_part d l s i b v blk = (\<lambda>(nblks, M).
     if bm_bighint (M ! s) = -1 then Inl (Panic ''blst_meta_fill: filling unexpected range'')
     else andthen (if skp l + 1 = 1 then blst_leaf_fill M (s + i) b v else blst_meta_fill d M (s + i) b v (rad l) (skp l + 1 - 1) blk)
       (\<lambda>(n, M). Inr (nblks + n, M)))"

lemma take_part:
  assumes child: "takes d l" and b: "32 dvd b"
    and o: "opened l M0 M s b cnt F" and k: "kid l cnt k"
    and x: "b + int k * rad l \<le> x" "x + v \<le> b + int k * rad l + kcnt l cnt k" "0 < v" "v \<le> 32"
  shows "\<exists>M'. take_part d l s (1 + k * (skp l + 1)) x v (b + int k * rad l) (n, M) = Inr (n + int (card (F \<inter> {x..<x + v})), M') \<and>
           opened l M0 M' s b cnt (F - {x..<x + v}) \<and> M' ! s = M ! s"
proof -
  let ?b = "b + int k * rad l" and ?r = "{b + int k * rad l..<b + (int k + 1) * rad l}"
  have op: "(if skp l + 1 = 1 then blst_leaf_fill M (ch s l k) x v else blst_meta_fill d M (ch s l k) x v (rad l) (skp l + 1 - 1) ?b) =
      node_take d l M (ch s l k) x v ?b"
    by (cases l) (auto simp: node_take_def)
  have range: "{x..<x + v} \<subseteq> ?r" using x kid_cnt(2) [of l cnt k] by (auto simp: distrib_right)
  note fr = opened_kid_node(3) [OF o k]
  obtain M1 where M1: "node_take d l M (ch s l k) x v ?b = Inr (int (card (fr l M (ch s l k) ?b (kcnt l cnt k) \<inter> {x..<x + v})), M1)"
      "leaves l M M1 (ch s l k) ?b (kcnt l cnt k) (fr l M (ch s l k) ?b (kcnt l cnt k) - {x..<x + v})"
    using child opened_kid_node(1,2) [OF o k] kid_cnt(1) [OF k] kid_cnt(2) align [OF b] x unfolding takes_def by blast
  note o1 = opened_kid [OF o k M1(2)]
  have "opened l M0 M1 s b cnt (F - {x..<x + v})" using o1(1) unfolding fr kids_block [OF k range] .
  moreover have "F \<inter> ?r \<inter> {x..<x + v} = F \<inter> {x..<x + v}" using range by blast
  ultimately show ?thesis
    using M1(1) o1(2) opened_root(2) [OF o] unfolding take_part_def prod.case ch_def [symmetric] op fr by simp
qed

lemma take_children:
  assumes child: "takes d l" and b: "32 dvd b" and cnt: "0 < cnt" "cnt \<le> rad (Suc l)"
    and o: "opened l M0 M s b cnt F" and x: "b \<le> x" "x + c \<le> b + cnt" "0 < c" and small: "c \<le> 32"
    and avail: "bmu_avail (M ! s) = int (card F)"
  shows "\<exists>M'. andthen (blst_subrange (take_part d l s) (rad l) (skp (Suc l)) (skp l + 1) b x c (0, M))
             (\<lambda>(nblks, M). Inr (nblks, M[s := (M ! s)\<lparr>bmu_avail := bmu_avail (M ! s) - nblks\<rparr>])) =
           Inr (int (card (F \<inter> {x..<x + c})), M') \<and>
           leaves (Suc l) M0 M' s b cnt (F - {x..<x + c})"
proof -
  have fin: "finite F" using o kids_finite by (auto simp: opened_def)
  let ?P = "\<lambda>y (n, M'). opened l M0 M' s b cnt (F - {x..<y}) \<and> n = int (card (F \<inter> {x..<y})) \<and> M' ! s = M ! s"
  have "\<exists>st. blst_subrange (take_part d l s) (rad l) (skp (Suc l)) (skp l + 1) b x c (0, M) = Inr st \<and> ?P (x + c) st"
  proof (rule subrange [where P = ?P, OF _ x cnt(2)])
    show "?P x (0, M)" using o by simp
    fix k y v st
    assume k: "kid l cnt k" and P: "?P y st" and y: "b + int k * rad l \<le> y" "y + v \<le> b + int k * rad l + kcnt l cnt k" "0 < v"
      and in_range: "y + v \<le> x + c" "x \<le> y"
    obtain n M1 where st: "st = (n, M1)" by (cases st)
    have v: "v \<le> 32" using in_range small by simp
    have "F - {x..<y} - {y..<y + v} = F - {x..<y + v}" using in_range y(3) by auto
    moreover have "card (F \<inter> {x..<y}) + card ((F - {x..<y}) \<inter> {y..<y + v}) = card (F \<inter> {x..<y + v})"
      using fin in_range y(3) by (subst card_Un_disjoint [symmetric]) (auto intro: arg_cong [where f = card])
    ultimately show "\<exists>st'. take_part d l s (1 + k * (skp l + 1)) y v (b + int k * rad l) st = Inr st' \<and> ?P (y + v) st'"
      using take_part [OF child b _ k y v, of M0 M1 s "F - {x..<y}" n] P st by auto
  qed
  then obtain M1 where M1: "blst_subrange (take_part d l s) (rad l) (skp (Suc l)) (skp l + 1) b x c (0, M) =
      Inr (int (card (F \<inter> {x..<x + c})), M1)" "opened l M0 M1 s b cnt (F - {x..<x + c})" "M1 ! s = M ! s"
    by auto
  let ?m = "(M1 ! s)\<lparr>bmu_avail := bmu_avail (M1 ! s) - int (card (F \<inter> {x..<x + c}))\<rparr>"
  have "opened l M0 (M1[s := ?m]) s b cnt (F - {x..<x + c})"
    by (rule opened_set_root [OF M1(2)]) (use opened_root(2) [OF M1(2)] in simp)
  moreover have "card (F \<inter> {x..<x + c}) + card (F - {x..<x + c}) = card F"
    using fin by (subst card_Un_disjoint [symmetric]) (auto intro: arg_cong [where f = card])
  ultimately have "leaves (Suc l) M0 (M1[s := ?m]) s b cnt (F - {x..<x + c})"
    using M1(3) avail opened_root(1) [OF M1(2)] by (intro opened_close [OF _ _ cnt]) auto
  then show ?thesis using M1(1) by simp
qed

lemma node_take_eq:
  assumes "s < length M"
  shows "node_take (Suc d) (Suc l) M s x c b =
    (if c = rad (Suc l) \<or> bmu_avail (M ! s) = 0
     then Inr (bmu_avail (M ! s), M[s := (M ! s)\<lparr>bmu_avail := 0, bm_bighint := c\<rparr>])
     else andthen (if bmu_avail (M ! s) = rad (Suc l) then blst_sweep (node_free (skp l + 1) (rad l)) s (skp (Suc l)) (skp l + 1) 1 M else Inr M)
       (\<lambda>M. if rad l < c then Inl (Panic ''blist_meta_fill: allocation too large'')
            else andthen (blst_subrange (take_part d l s) (rad l) (skp (Suc l)) (skp l + 1) b x c (0, M))
              (\<lambda>(nblks, M). Inr (nblks, M[s := (M ! s)\<lparr>bmu_avail := bmu_avail (M ! s) - nblks\<rparr>]))))"
  using assms
  by (simp only: node_take_def blst_meta_fill.simps Let_def down not_le [symmetric] if_False nat.distinct take_part_def [abs_def])

lemma node_take: "l \<le> d \<Longrightarrow> takes d l"
proof (induction l arbitrary: d)
  case 0
  show ?case
    unfolding takes_def node_take_def using leaf_fill by (auto simp del: fr.simps vl.simps)
next
  case (Suc l)
  obtain e where d: "d = Suc e" "l \<le> e" using Suc.prems by (cases d) auto
  note child = Suc.IH [OF d(2)]
  show ?case
    unfolding takes_def
  proof (intro allI impI)
    fix M s cnt x c b
    assume laid: "laid (Suc l) M s cnt" and vl: "vl (Suc l) M s b cnt" and cnt: "0 < cnt" "cnt \<le> rad (Suc l)" and b: "32 dvd b"
      and x: "b \<le> x" "x + c \<le> b + cnt" "0 < c" and small: "c \<le> 32"
    let ?F = "fr (Suc l) M s b cnt"
    let ?goal = "\<exists>M'. node_take d (Suc l) M s x c b = Inr (int (card (?F \<inter> {x..<x + c})), M') \<and> leaves (Suc l) M M' s b cnt (?F - {x..<x + c})"
    have s: "s < length M" "bm_bighint (M ! s) \<noteq> -1" using laid_root [OF laid] by auto
    have avail: "bmu_avail (M ! s) = int (card ?F)" by (rule vl_card [OF vl])
    have size: "c \<noteq> rad (Suc l)" "\<not> rad l < c" using small rad_ge [of l] by auto
    show ?goal
    proof (cases "bmu_avail (M ! s) = 0")
      case True
      have "leaves (Suc l) M (M[s := (M ! s)\<lparr>bmu_avail := 0, bm_bighint := c\<rparr>]) s b cnt {}"
        by (rule emptied [OF laid cnt(1)]) (use x(3) in auto)
      then show ?thesis unfolding d node_take_eq [OF s(1)] using True by (simp add: fr.simps)
    next
      case nonzero: False
      obtain M1 where M1: "opened l M M1 s b cnt ?F" "bmu_avail (M1 ! s) = bmu_avail (M ! s)"
        "(if bmu_avail (M ! s) = rad (Suc l) then blst_sweep (node_free (skp l + 1) (rad l)) s (skp (Suc l)) (skp l + 1) 1 M else Inr M) = Inr M1"
      proof (cases "bmu_avail (M ! s) = rad (Suc l)")
        case True
        have full: "cnt = rad (Suc l)" using True vl cnt(2) by (simp add: vl.simps)
        obtain M1 where M1: "blst_sweep (node_free (skp l + 1) (rad l)) s (skp (Suc l)) (skp l + 1) 1 M = Inr M1"
          "kids_ok l M1 s b cnt" "kids l M1 s b cnt = {b..<b + rad (Suc l)}" "same M M1 (- {s<..s + skp (Suc l)})"
          using sweep_free [OF laid [unfolded full], of b] full by metis
        have "opened l M M1 s b cnt ?F" using M1 same_below [OF M1(4)] True nonzero by (simp add: opened_def fr.simps)
        then show thesis using that M1(1) same_below [OF M1(4)] True by auto
      next
        case False
        then show thesis using that [of M] opened_self [OF laid vl nonzero False] by auto
      qed
      have run: "node_take d (Suc l) M s x c b =
          andthen (blst_subrange (take_part e l s) (rad l) (skp (Suc l)) (skp l + 1) b x c (0, M1))
            (\<lambda>(nblks, M). Inr (nblks, M[s := (M ! s)\<lparr>bmu_avail := bmu_avail (M ! s) - nblks\<rparr>]))"
        unfolding d node_take_eq [OF s(1)] M1(3) using size nonzero by (simp only: if_False andthen_simps simp_thms)
      show ?thesis
        unfolding run by (rule take_children [OF child b cnt M1(1) x small]) (use M1(2) avail in simp)
    qed
  qed
qed

end
