(* ===== verification/Subr_Blist_Calls.thy ===== *)
theory Subr_Blist_Calls
  imports Subr_Blist_Ops
begin

text \<open>
  The calls of the allocator as their callers see them: the set of free blocks of a blist, the invariant, and
  what blist_alloc, blist_free, blist_fill, blist_create and blist_resize do to the set.
\<close>

section \<open>The free blocks of a blist\<close>

function lvl :: "nat \<Rightarrow> nat" where "lvl skip = (if skip = 0 then 0 else Suc (lvl (skip div 16 - 1)))"
  by pat_completeness auto
termination by (relation "measure id") auto

declare lvl.simps [simp del]

lemma lvl_skp [simp]: "lvl (skp l) = l"
  by (induction l) (simp_all add: lvl.simps)

definition free_blocks :: "blist \<Rightarrow> int set" where
  "free_blocks bl = fr (lvl (bl_skip bl)) (bl_root bl) 0 0 (bl_blocks bl)"

definition blist_ok :: "blist \<Rightarrow> bool" where
  "blist_ok bl \<longleftrightarrow> (let l = lvl (bl_skip bl) in
     bl_skip bl = skp l \<and> bl_radix bl = rad l \<and> 0 < bl_blocks bl \<and> bl_blocks bl \<le> rad l \<and>
     laid l (bl_root bl) 0 (bl_blocks bl) \<and> vl l (bl_root bl) 0 0 (bl_blocks bl) \<and>
     bl_free bl = int (card (free_blocks bl)))"

lemma blist_ok_level:
  assumes "blist_ok bl"
  obtains l where "bl_skip bl = skp l" "bl_radix bl = rad l" "0 < bl_blocks bl" "bl_blocks bl \<le> rad l"
    "laid l (bl_root bl) 0 (bl_blocks bl)" "vl l (bl_root bl) 0 0 (bl_blocks bl)" "free_blocks bl = fr l (bl_root bl) 0 0 (bl_blocks bl)"
    "bl_free bl = int (card (free_blocks bl))"
  using assms by (auto simp: blist_ok_def Let_def free_blocks_def)

lemma blist_okI:
  assumes "bl_skip bl = skp l" "bl_radix bl = rad l" "0 < bl_blocks bl" "bl_blocks bl \<le> rad l"
    "leaves l M (bl_root bl) 0 0 (bl_blocks bl) F" "bl_free bl = int (card F)"
  shows "blist_ok bl" and "free_blocks bl = F"
  using assms by (auto simp: blist_ok_def Let_def free_blocks_def leaves_def)

lemma free_range: "blist_ok bl \<Longrightarrow> free_blocks bl \<subseteq> {0..<bl_blocks bl}"
  using fr_range by (elim blist_ok_level) fastforce

lemma free_finite: "finite (free_blocks bl)"
  by (simp add: free_blocks_def fr_finite)

lemma card_minus: "finite F \<Longrightarrow> int (card (F - {x..<x + c})) = int (card F) - int (card (F \<inter> {x..<x + (c :: int)}))"
proof -
  assume "finite F"
  then have "card (F \<inter> {x..<x + c}) + card (F - {x..<x + c}) = card F"
    by (subst card_Un_disjoint [symmetric]) (auto intro: arg_cong [where f = card])
  then show ?thesis by simp
qed

lemma blist_alloc_ok:
  assumes "blist_ok bl" and c: "0 < c" "c \<le> 32"
  obtains r bl' where "blist_alloc bl c = Inr (r, bl')" and "blist_ok bl'" and "bl_blocks bl' = bl_blocks bl"
    and "case r of None \<Rightarrow> free_blocks bl' = free_blocks bl
         | Some x \<Rightarrow> {x..<x + c} \<subseteq> free_blocks bl \<and> free_blocks bl' = free_blocks bl - {x..<x + c}"
proof -
  obtain l where l: "bl_skip bl = skp l" "bl_radix bl = rad l" "0 < bl_blocks bl" "bl_blocks bl \<le> rad l"
    "laid l (bl_root bl) 0 (bl_blocks bl)" "vl l (bl_root bl) 0 0 (bl_blocks bl)" "free_blocks bl = fr l (bl_root bl) 0 0 (bl_blocks bl)"
    "bl_free bl = int (card (free_blocks bl))"
    by (rule blist_ok_level [OF assms(1)])
  obtain r M' where M': "node_alloc (skp l) l (bl_root bl) 0 0 c = Inr (r, M')"
    "alloc_result l (bl_root bl) M' 0 0 (bl_blocks bl) c (free_blocks bl) r"
    using node_alloc [OF level_le_skp l(5,6,3,4) c] l(7) by auto
  let ?bl' = "bl\<lparr>bl_root := M', bl_free := (if r = None then bl_free bl else bl_free bl - c)\<rparr>"
  have run: "blist_alloc bl c = Inr (r, ?bl')" unfolding blist_alloc_def l(1,2) rad_eq_32 node_alloc_def [symmetric] M'(1) by simp
  show thesis
  proof (cases r)
    case None
    then show thesis
      using that [OF run] blist_okI [of ?bl' l "bl_root bl" "free_blocks bl"] l M'(2) by (simp add: alloc_result_def)
  next
    case (Some x)
    have x: "{x..<x + c} \<subseteq> free_blocks bl" using M'(2) Some by (simp add: alloc_result_def)
    then have "int (card (free_blocks bl - {x..<x + c})) = bl_free bl - c"
      using card_minus [OF free_finite] c l(8) by (simp add: Int_absorb1)
    then show thesis
      using that [OF run] blist_okI [of ?bl' l "bl_root bl" "free_blocks bl - {x..<x + c}"] l M'(2) Some x by (simp add: alloc_result_def)
  qed
qed

lemma blist_free_ok:
  assumes "blist_ok bl" and x: "0 \<le> x" "x + c \<le> bl_blocks bl" "0 < c" and free: "free_blocks bl \<inter> {x..<x + c} = {}"
  obtains bl' where "blist_free bl x c = Inr bl'" and "blist_ok bl'" and "bl_blocks bl' = bl_blocks bl"
    and "free_blocks bl' = free_blocks bl \<union> {x..<x + c}"
proof -
  obtain l where l: "bl_skip bl = skp l" "bl_radix bl = rad l" "0 < bl_blocks bl" "bl_blocks bl \<le> rad l"
    "laid l (bl_root bl) 0 (bl_blocks bl)" "vl l (bl_root bl) 0 0 (bl_blocks bl)" "free_blocks bl = fr l (bl_root bl) 0 0 (bl_blocks bl)"
    "bl_free bl = int (card (free_blocks bl))"
    by (rule blist_ok_level [OF assms(1)])
  have "32 dvd (0 :: int)" "x + c \<le> 0 + bl_blocks bl" using x by auto
  then obtain M' where M': "node_give (skp l) l (bl_root bl) 0 x c 0 = Inr M'"
    "leaves l (bl_root bl) M' 0 0 (bl_blocks bl) (free_blocks bl \<union> {x..<x + c})"
    using node_give [OF level_le_skp, of l] l(3-7) x free unfolding gives_def by metis
  let ?bl' = "bl\<lparr>bl_root := M', bl_free := bl_free bl + c\<rparr>"
  have run: "blist_free bl x c = Inr ?bl'" unfolding blist_free_def l(1,2) rad_eq_32 node_give_def [symmetric] M'(1) by simp
  show thesis
  proof (rule that [OF run])
    have ok: "leaves l (bl_root bl) (bl_root ?bl') 0 0 (bl_blocks ?bl') (free_blocks bl \<union> {x..<x + c})"
      "bl_free ?bl' = int (card (free_blocks bl \<union> {x..<x + c}))"
      using M'(2) l(8) card_add [OF free_finite free] x(3) by simp_all
    show "blist_ok ?bl'" "free_blocks ?bl' = free_blocks bl \<union> {x..<x + c}"
      by (rule blist_okI [OF _ _ _ _ ok]; use l(1-4) in simp)+
  qed simp
qed

lemma blist_fill_ok:
  assumes "blist_ok bl" and x: "0 \<le> x" "x + c \<le> bl_blocks bl" "0 < c" "c \<le> 32"
  obtains bl' where "blist_fill bl x c = Inr (int (card (free_blocks bl \<inter> {x..<x + c})), bl')" and "blist_ok bl'"
    and "bl_blocks bl' = bl_blocks bl" and "free_blocks bl' = free_blocks bl - {x..<x + c}"
proof -
  obtain l where l: "bl_skip bl = skp l" "bl_radix bl = rad l" "0 < bl_blocks bl" "bl_blocks bl \<le> rad l"
    "laid l (bl_root bl) 0 (bl_blocks bl)" "vl l (bl_root bl) 0 0 (bl_blocks bl)" "free_blocks bl = fr l (bl_root bl) 0 0 (bl_blocks bl)"
    "bl_free bl = int (card (free_blocks bl))"
    by (rule blist_ok_level [OF assms(1)])
  have "32 dvd (0 :: int)" "x + c \<le> 0 + bl_blocks bl" using x by auto
  then obtain M' where M': "node_take (skp l) l (bl_root bl) 0 x c 0 = Inr (int (card (free_blocks bl \<inter> {x..<x + c})), M')"
    "leaves l (bl_root bl) M' 0 0 (bl_blocks bl) (free_blocks bl - {x..<x + c})"
    using node_take [OF level_le_skp, of l] l(3-7) x unfolding takes_def by metis
  let ?n = "int (card (free_blocks bl \<inter> {x..<x + c}))"
  let ?bl' = "bl\<lparr>bl_root := M', bl_free := bl_free bl - ?n\<rparr>"
  have run: "blist_fill bl x c = Inr (?n, ?bl')" unfolding blist_fill_def l(1,2) rad_eq_32 node_take_def [symmetric] M'(1) by simp
  show thesis
  proof (rule that [OF run])
    have ok: "leaves l (bl_root bl) (bl_root ?bl') 0 0 (bl_blocks ?bl') (free_blocks bl - {x..<x + c})"
      "bl_free ?bl' = int (card (free_blocks bl - {x..<x + c}))"
      using M'(2) l(8) card_minus [OF free_finite] by simp_all
    show "blist_ok ?bl'" "free_blocks ?bl' = free_blocks bl - {x..<x + c}"
      by (rule blist_okI [OF _ _ _ _ ok]; use l(1-4) in simp)+
  qed simp
qed

section \<open>Creation\<close>

text \<open>The number of children, and the last index the layout uses.\<close>

definition nkids :: "nat \<Rightarrow> int \<Rightarrow> nat" where "nkids l cnt = card {k. kid l cnt k}"

lemma kid_nkids: "kid l cnt k \<longleftrightarrow> k < nkids l cnt" and nkids_le: "nkids l cnt \<le> 16"
proof -
  have "{k. kid l cnt k} \<subseteq> {..<16}" by (auto simp: kid_def)
  then have fin: "finite {k. kid l cnt k}" by (rule finite_subset) simp
  have "\<exists>n\<le>16. {k. kid l cnt k} = {..<n}"
  proof (cases "\<exists>k<16. \<not> kid l cnt k")
    case False
    then have "{k. kid l cnt k} = {..<16}" by (auto simp: kid_def)
    then show ?thesis by blast
  next
    case True
    define n where "n = (LEAST k. \<not> kid l cnt k)"
    have "\<not> kid l cnt n" unfolding n_def using True by (metis LeastI)
    moreover have "kid l cnt k" if "k < n" for k using not_less_Least [OF that [unfolded n_def]] by simp
    moreover have "n \<le> 16" unfolding n_def by (rule Least_le) (simp add: kid_def)
    ultimately have "kid l cnt k \<longleftrightarrow> k < n" for k using kid_down by (meson not_less)
    then show ?thesis using \<open>n \<le> 16\<close> by auto
  qed
  then obtain n where n: "n \<le> 16" "{k. kid l cnt k} = {..<n}" by blast
  then have "nkids l cnt = n" by (simp add: nkids_def)
  then show "kid l cnt k \<longleftrightarrow> k < nkids l cnt" "nkids l cnt \<le> 16" using n by (blast, simp)
qed

fun mx :: "nat \<Rightarrow> int \<Rightarrow> nat" where
  "mx 0 cnt = 0"
| "mx (Suc l) cnt = 1 + nkids l cnt * (skp l + 1)"

lemma mx_le: "mx l cnt \<le> skp l + 1"
proof (cases l)
  case (Suc j)
  have "nkids j cnt * (skp j + 1) \<le> 16 * (skp j + 1)" using nkids_le by (intro mult_right_mono) auto
  then show ?thesis using Suc by (simp add: skp.simps)
qed simp

definition left_at :: "nat \<Rightarrow> int \<Rightarrow> nat \<Rightarrow> int" where "left_at l cnt k = max 0 (cnt - int k * rad l)"

lemma left_at:
  "kid l cnt k \<Longrightarrow> rad l \<le> left_at l cnt k \<Longrightarrow> kcnt l cnt k = rad l \<and> left_at l cnt (Suc k) = left_at l cnt k - rad l"
  "kid l cnt k \<Longrightarrow> \<not> rad l \<le> left_at l cnt k \<Longrightarrow> kcnt l cnt k = left_at l cnt k \<and> left_at l cnt (Suc k) = 0"
  "kid l cnt k \<Longrightarrow> 0 < left_at l cnt k"
  "\<not> kid l cnt k \<Longrightarrow> k < 16 \<Longrightarrow> left_at l cnt k = 0"
  by (auto simp: left_at_def kcnt_def kid_def max_def min_def distrib_right)

text \<open>One turn of the loop: the child, whatever part of it is there, is initialised with its number of blocks.\<close>

lemma init_loop_kid:
  assumes "kid l cnt k"
  shows "blst_init_loop init scan (rad l) (skp (Suc l)) (skp l + 1) (1 + k * (skp l + 1)) (left_at l cnt k) m M =
    (case init (1 + k * (skp l + 1)) (kcnt l cnt k) M of
       Inl e \<Rightarrow> Inl e
     | Inr (n, M1) \<Rightarrow> blst_init_loop init scan (rad l) (skp (Suc l)) (skp l + 1) (1 + Suc k * (skp l + 1)) (left_at l cnt (Suc k)) (1 + k * (skp l + 1) + n) M1)"
proof -
  have i: "1 + k * (skp l + 1) + (skp l + 1) = 1 + Suc k * (skp l + 1)" by simp
  have le: "1 + k * (skp l + 1) \<le> skp (Suc l)" using assms index_le [of k l] by (simp add: kid_def)
  show ?thesis
  proof (cases "rad l \<le> left_at l cnt k")
    case True
    note e = left_at(1) [OF assms True]
    show ?thesis
      unfolding e [THEN conjunct1] e [THEN conjunct2]
      using True le by (subst blst_init_loop.simps) (simp only: i, simp)
  next
    case False
    note e = left_at(2) [OF assms False]
    show ?thesis
      unfolding e [THEN conjunct1] e [THEN conjunct2]
      using False le left_at(3) [OF assms] by (subst blst_init_loop.simps) (simp only: i, simp)
  qed
qed

lemma init_loop_none:
  assumes init: "\<And>i c M. 0 < c \<Longrightarrow> c \<le> rad l \<Longrightarrow> init i c M = Inr (mx l c, M)"
  shows "k \<le> nkids l cnt \<Longrightarrow> \<exists>n. blst_init_loop init None (rad l) (skp (Suc l)) (skp l + 1) (1 + k * (skp l + 1)) (left_at l cnt k) m M =
    Inr (n, 1 + nkids l cnt * (skp l + 1), M) \<and> (m \<le> 1 + k * (skp l + 1) \<longrightarrow> n \<le> 1 + nkids l cnt * (skp l + 1))"
proof (induction "nkids l cnt - k" arbitrary: k m)
  case 0
  then have k: "k = nkids l cnt" by simp
  then have "\<not> kid l cnt k" by (simp add: kid_nkids)
  then show ?case
    using k nkids_le [of l cnt] left_at(4) [of l cnt k] index_le [of k l]
    by (subst blst_init_loop.simps) (auto simp del: mult_Suc_right)
next
  case (Suc j)
  then have k: "kid l cnt k" and j: "j = nkids l cnt - Suc k" and le: "Suc k \<le> nkids l cnt" by (auto simp: kid_nkids)
  have m: "1 + k * (skp l + 1) + mx l (kcnt l cnt k) \<le> 1 + Suc k * (skp l + 1)" using mx_le [of l "kcnt l cnt k"] by simp
  show ?case
    unfolding init_loop_kid [OF k] init [OF kid_cnt(1) [OF k] kid_cnt(2)] sum.case prod.case
    using Suc.hyps(1) [OF j le, of "1 + k * (skp l + 1) + mx l (kcnt l cnt k)"] m by blast
qed

lemma init_loop_some:
  assumes init: "\<And>k M. kid l cnt k \<Longrightarrow> ch s l k + mx l (kcnt l cnt k) < length M \<Longrightarrow>
      \<exists>M'. init (1 + k * (skp l + 1)) (kcnt l cnt k) M = Inr (mx l (kcnt l cnt k), M') \<and>
        laid l M' (ch s l k) (kcnt l cnt k) \<and> same M M' (- {ch s l k..ch s l k + skp l})"
  shows "k \<le> nkids l cnt \<Longrightarrow> s + 1 + nkids l cnt * (skp l + 1) < length M \<Longrightarrow> (\<And>j. j < k \<Longrightarrow> laid l M (ch s l j) (kcnt l cnt j)) \<Longrightarrow>
    m \<le> 1 + k * (skp l + 1) \<Longrightarrow>
    \<exists>n M'. blst_init_loop init (Some s) (rad l) (skp (Suc l)) (skp l + 1) (1 + k * (skp l + 1)) (left_at l cnt k) m M =
        Inr (n, 1 + nkids l cnt * (skp l + 1), M') \<and> n \<le> 1 + nkids l cnt * (skp l + 1) \<and>
      (\<forall>j<nkids l cnt. laid l M' (ch s l j) (kcnt l cnt j)) \<and>
      (nkids l cnt < 16 \<longrightarrow> bm_bighint (M' ! ch s l (nkids l cnt)) = -1) \<and> same M M' (- {s<..s + skp (Suc l)})"
proof (induction "nkids l cnt - k" arbitrary: k m M)
  case 0
  then have k: "k = nkids l cnt" by simp
  then have nk: "\<not> kid l cnt k" by (simp add: kid_nkids)
  have at: "s + (1 + k * (skp l + 1)) = ch s l k" "ch s l k < length M" using 0(3) k by (simp_all add: ch_def)
  show ?case
  proof (cases "k < 16")
    case False
    then have "blst_init_loop init (Some s) (rad l) (skp (Suc l)) (skp l + 1) (1 + k * (skp l + 1)) (left_at l cnt k) m M =
        Inr (m, 1 + k * (skp l + 1), M)"
      using index_le [of k l] nkids_le [of l cnt] k by (subst blst_init_loop.simps) (simp del: mult_Suc_right)
    then show ?thesis using 0(4,5) False k by auto
  next
    case True
    let ?M = "M[ch s l k := (M ! ch s l k)\<lparr>bm_bighint := -1\<rparr>]"
    have run: "blst_init_loop init (Some s) (rad l) (skp (Suc l)) (skp l + 1) (1 + k * (skp l + 1)) (left_at l cnt k) m M =
        Inr (m, 1 + k * (skp l + 1), ?M)"
      unfolding left_at(4) [OF nk True] using index_le [of k l] True at(2)
      by (subst blst_init_loop.simps) (simp only: at(1) option.case, simp)
    have "laid l ?M (ch s l j) (kcnt l cnt j)" if "j < k" for j
    proof -
      have "same M ?M {ch s l j..ch s l j + skp l}" by (rule same_update) (use ch_bound(3) [OF that, of s l] in auto)
      then show ?thesis using same_tree(1) 0(4) that by blast
    qed
    moreover have "same M ?M (- {s<..s + skp (Suc l)})" by (rule same_update) (use ch_bound(1,2) [OF True, of s l] in auto)
    ultimately show ?thesis using run 0(5) at(2) k by auto
  qed
next
  case (Suc d)
  then have k: "kid l cnt k" and d: "d = nkids l cnt - Suc k" and le: "Suc k \<le> nkids l cnt" by (auto simp: kid_nkids)
  have k16: "k < 16" using k by (simp add: kid_def)
  have m: "1 + k * (skp l + 1) + mx l (kcnt l cnt k) \<le> 1 + Suc k * (skp l + 1)" using mx_le [of l "kcnt l cnt k"] by simp
  have "Suc k * (skp l + 1) \<le> nkids l cnt * (skp l + 1)" using le by (rule mult_right_mono) simp
  then have "ch s l k + mx l (kcnt l cnt k) < length M" using m Suc.prems(2) unfolding ch_def by linarith
  then obtain M1 where M1: "init (1 + k * (skp l + 1)) (kcnt l cnt k) M = Inr (mx l (kcnt l cnt k), M1)"
      "laid l M1 (ch s l k) (kcnt l cnt k)" "same M M1 (- {ch s l k..ch s l k + skp l})"
    using init [OF k] by blast
  have before_k: "laid l M1 (ch s l j) (kcnt l cnt j)" if "j < Suc k" for j
  proof (cases "j = k")
    case False
    then have "j < k" using that by simp
    have "same M M1 {ch s l j..ch s l j + skp l}"
      by (rule same_mono [OF M1(3)]) (use ch_bound(3) [OF \<open>j < k\<close>, of s l] in auto)
    then show ?thesis using same_tree(1) Suc.prems(3) \<open>j < k\<close> by blast
  qed (use M1(2) in simp)
  have len: "length M1 = length M" using M1(3) by (simp add: same_def)
  obtain n M' where M': "blst_init_loop init (Some s) (rad l) (skp (Suc l)) (skp l + 1) (1 + Suc k * (skp l + 1)) (left_at l cnt (Suc k))
        (1 + k * (skp l + 1) + mx l (kcnt l cnt k)) M1 = Inr (n, 1 + nkids l cnt * (skp l + 1), M')"
      "n \<le> 1 + nkids l cnt * (skp l + 1)" "\<forall>j<nkids l cnt. laid l M' (ch s l j) (kcnt l cnt j)"
      "nkids l cnt < 16 \<longrightarrow> bm_bighint (M' ! ch s l (nkids l cnt)) = -1" "same M1 M' (- {s<..s + skp (Suc l)})"
    using Suc.hyps(1) [OF d le _ before_k m] Suc.prems(2) len by metis
  have "same M M1 (- {s<..s + skp (Suc l)})"
    by (rule same_mono [OF M1(3)]) (use ch_bound(1,2) [OF k16, of s l] in auto)
  then have "same M M' (- {s<..s + skp (Suc l)})" using M'(5) by (rule same_trans2)
  then show ?case
    unfolding init_loop_kid [OF k] M1(1) sum.case prod.case using M'(1-4) by blast
qed

lemma left_at_0: "0 < cnt \<Longrightarrow> left_at l cnt 0 = cnt"
  by (simp add: left_at_def)

lemma init_null: "l < d \<Longrightarrow> 0 < cnt \<Longrightarrow> cnt \<le> rad l \<Longrightarrow> blst_radix_init d None (rad l) (skp l) cnt M = Inr (mx l cnt, M)"
proof (induction l arbitrary: d cnt M)
  case 0
  then show ?case by (cases d) simp_all
next
  case (Suc l)
  obtain e where d: "d = Suc e" "l < e" using Suc.prems(1) by (cases d) auto
  let ?init = "\<lambda>i count M. blst_radix_init e None (rad l) (skp l) count M"
  obtain n where n: "blst_init_loop ?init None (rad l) (skp (Suc l)) (skp l + 1) (1 + 0 * (skp l + 1)) (left_at l cnt 0) 0 M =
      Inr (n, 1 + nkids l cnt * (skp l + 1), M)" "n \<le> 1 + nkids l cnt * (skp l + 1)"
    using init_loop_none [where init = ?init and l = l and k = 0 and cnt = cnt and m = 0 and M = M] Suc.IH [OF d(2)] by auto
  have loop: "blst_init_loop ?init None (rad l) (skp (Suc l)) (skp l + 1) 1 cnt 0 M = Inr (n, 1 + nkids l cnt * (skp l + 1), M)"
    using n(1) left_at_0 [OF Suc.prems(2)] by simp
  have "blst_radix_init d None (rad (Suc l)) (skp (Suc l)) cnt M =
      andthen (blst_init_loop ?init None (rad l) (skp (Suc l)) (skp l + 1) 1 cnt 0 M) (\<lambda>(memindex, i, M). Inr (max memindex i, M))"
    by (simp only: d(1) blst_radix_init.simps option.case if_False rad_eq_32 nat.distinct Let_def down map_option_case add_diff_cancel_right')
  then show ?case unfolding loop using n(2) by simp
qed

lemma init_tree:
  "l < d \<Longrightarrow> 0 < cnt \<Longrightarrow> cnt \<le> rad l \<Longrightarrow> s + mx l cnt < length M \<Longrightarrow>
     \<exists>M'. blst_radix_init d (Some s) (rad l) (skp l) cnt M = Inr (mx l cnt, M') \<and> leaves l M M' s b cnt {}"
proof (induction l arbitrary: d cnt M s b)
  case 0
  then show ?case
    using leaf_update [of s M "(M ! s)\<lparr>bm_bighint := 0, bmu_bitmap := 0\<rparr>" cnt b] by (cases d) simp_all
next
  case (Suc l)
  obtain e where d: "d = Suc e" "l < e" using Suc.prems(1) by (cases d) auto
  let ?init = "\<lambda>i count M. blst_radix_init e (Some (s + i)) (rad l) (skp l) count M"
  let ?M = "M[s := (M ! s)\<lparr>bm_bighint := 0, bmu_avail := 0\<rparr>]"
  have s: "s < length M" using Suc.prems(4) by simp
  have len: "s + 1 + nkids l cnt * (skp l + 1) < length ?M" using Suc.prems(4) by (simp add: algebra_simps)
  have init: "\<exists>M'. ?init (1 + k * (skp l + 1)) (kcnt l cnt k) M = Inr (mx l (kcnt l cnt k), M') \<and>
        laid l M' (ch s l k) (kcnt l cnt k) \<and> same M M' (- {ch s l k..ch s l k + skp l})"
    if "kid l cnt k" "ch s l k + mx l (kcnt l cnt k) < length M" for k M
    using Suc.IH [OF d(2) kid_cnt(1) [OF that(1)] kid_cnt(2) that(2)] unfolding leaves_def ch_def by blast
  obtain n M' where M': "blst_init_loop ?init (Some s) (rad l) (skp (Suc l)) (skp l + 1) (1 + 0 * (skp l + 1)) (left_at l cnt 0) 0 ?M =
        Inr (n, 1 + nkids l cnt * (skp l + 1), M')" "n \<le> 1 + nkids l cnt * (skp l + 1)"
      "\<forall>j<nkids l cnt. laid l M' (ch s l j) (kcnt l cnt j)"
      "nkids l cnt < 16 \<longrightarrow> bm_bighint (M' ! ch s l (nkids l cnt)) = -1" "same ?M M' (- {s<..s + skp (Suc l)})"
    using init_loop_some [where init = ?init and l = l and k = 0 and cnt = cnt and m = 0 and M = ?M and s = s, OF init _ len] by auto
  have loop: "blst_init_loop ?init (Some s) (rad l) (skp (Suc l)) (skp l + 1) 1 cnt 0 ?M = Inr (n, 1 + nkids l cnt * (skp l + 1), M')"
    using M'(1) left_at_0 [OF Suc.prems(2)] by simp
  have "blst_radix_init d (Some s) (rad (Suc l)) (skp (Suc l)) cnt M =
      andthen (blst_init_loop ?init (Some s) (rad l) (skp (Suc l)) (skp l + 1) 1 cnt 0 ?M) (\<lambda>(memindex, i, M). Inr (max memindex i, M))"
    using s by (simp only: d(1) blst_radix_init.simps option.case if_False rad_eq_32 nat.distinct Let_def down option.map(2)
        add_diff_cancel_right' not_le [symmetric])
  then have run: "blst_radix_init d (Some s) (rad (Suc l)) (skp (Suc l)) cnt M = Inr (mx (Suc l) cnt, M')"
    unfolding loop using M'(2) by simp
  have root: "M' ! s = (M ! s)\<lparr>bm_bighint := 0, bmu_avail := 0\<rparr>" "length M' = length M"
    using same_below [OF M'(5)] s by (auto simp: same_def)
  have term_at: "ch s l k < length M' \<and> bm_bighint (M' ! ch s l k) = -1"
    if "k < 16" "\<not> int k * rad l < cnt" "int k * rad l < cnt + rad l" for k
  proof -
    have "\<not> kid l cnt k" "\<And>j. j < k \<Longrightarrow> kid l cnt j"
    proof -
      show "\<not> kid l cnt k" using that by (simp add: kid_def)
      fix j assume "j < k"
      then have "(int j + 1) * rad l \<le> int k * rad l" by (intro mult_right_mono) auto
      then show "kid l cnt j" using that \<open>j < k\<close> by (simp add: kid_def distrib_right)
    qed
    then have "k = nkids l cnt" unfolding kid_nkids by (meson linorder_neqE_nat order_less_irrefl)
    then show ?thesis using M'(4) that(1) len root(2) by (simp add: ch_def algebra_simps)
  qed
  have "laid (Suc l) M' s cnt"
    using s root term_at M'(3) by (auto simp: laid.simps kid_nkids [symmetric] kid_def)
  moreover have "vl (Suc l) M' s b cnt" "fr (Suc l) M' s b cnt = {}" using root Suc.prems(2) by (simp_all add: vl.simps fr.simps)
  moreover have "same M M' (- {s..s + skp (Suc l)})"
    by (rule same_trans2 [OF same_update]) (use same_below [OF M'(5)] in auto)
  ultimately show ?case unfolding run leaves_def by blast
qed

section \<open>The radix\<close>

lemma create_from:
  assumes "l \<le> 6" and "blocks \<le> 2 ^ 29"
  shows "\<exists>l'. create_radix (of_int (rad l)) (skp l) blocks = Some (rad l', skp l') \<and> blocks \<le> rad l'"
  using assms(1)
proof (induction "6 - l" arbitrary: l)
  case 0
  then have "l = 6" by simp
  then show ?case using assms(2) by (subst create_radix.simps) (auto simp: rad_def intro!: exI [of _ 6])
next
  case (Suc n)
  then have l: "l < 6" by simp
  then have "l \<in> {0, 1, 2, 3, 4, 5}" by auto
  then have r: "sint (of_int (rad l) :: 32 word) = rad l" by (auto simp: rad_def)
  have "of_int (rad l) * 16 = (of_int (rad (Suc l)) :: 32 word)" "(skp l + 1) * 16 = skp (Suc l)" by (simp_all add: skp.simps)
  then have step: "create_radix (of_int (rad l)) (skp l) blocks =
      (if rad l < blocks then create_radix (of_int (rad (Suc l))) (skp (Suc l)) blocks else Some (rad l, skp l))"
    by (subst create_radix.simps) (simp only: r)
  show ?case unfolding step using Suc.hyps(1) [of "Suc l"] Suc.hyps(2) by auto
qed

lemma create_radix_ok:
  assumes "blocks \<le> 2 ^ 29"
  obtains l where "create_radix 32 0 blocks = Some (rad l, skp l)" and "blocks \<le> rad l"
  using create_from [of 0 blocks] assms by auto

text \<open>From there on the radix is 0 in 32 bits and stays 0.\<close>

lemma create_some_nonzero:
  assumes "create_radix r skip blocks = Some y"
  shows "0 < blocks \<longrightarrow> r \<noteq> 0"
  by (rule create_radix.raw_induct [where P = "\<lambda>r skip b y. 0 < b \<longrightarrow> r \<noteq> 0", OF _ assms]) (fastforce split: if_splits)

lemma create_stuck: "0 < blocks \<Longrightarrow> create_radix 0 skip blocks = None"
  using create_some_nonzero [of 0 skip blocks] by (cases "create_radix 0 skip blocks") auto

lemma create_too_big: "2 ^ 29 < blocks \<Longrightarrow> create_radix 32 0 blocks = None"
proof -
  have zero: "(0x200000000 :: 32 word) = 0" by simp
  assume "2 ^ 29 < blocks"
  then show ?thesis
    using create_stuck [of blocks "0x11111110", folded zero]
    by (simp add: create_radix.simps [of 32] create_radix.simps [of 512] create_radix.simps [of "0x2000"] create_radix.simps [of "0x20000"]
      create_radix.simps [of "0x200000"] create_radix.simps [of "0x2000000"] create_radix.simps [of "0x20000000"])
qed

lemma blist_create_ok:
  assumes "0 < blocks" and "blocks \<le> 2 ^ 29"
  obtains bl where "blist_create mem blocks = Inr bl" and "blist_ok bl" and "bl_blocks bl = blocks" and "free_blocks bl = {}"
proof -
  obtain l where l: "create_radix 32 0 blocks = Some (rad l, skp l)" "blocks \<le> rad l" by (rule create_radix_ok [OF assms(2)])
  have d: "l < Suc (skp l)" using level_le_skp [of l] by simp
  let ?M = "map mem [0..<1 + mx l blocks]"
  have "0 + mx l blocks < length ?M" by simp
  then obtain M where M: "blst_radix_init (Suc (skp l)) (Some 0) (rad l) (skp l) blocks ?M = Inr (mx l blocks, M)" "leaves l ?M M 0 0 blocks {}"
    using init_tree [OF d assms(1) l(2)] by blast
  let ?bl = "\<lparr>bl_blocks = blocks, bl_radix = rad l, bl_skip = skp l, bl_free = 0, bl_root = M\<rparr>"
  have "blist_create mem blocks = Inr ?bl"
    unfolding blist_create_def l(1) option.case prod.case init_null [OF d assms(1) l(2)] andthen_simps M(1) by simp
  moreover have ok: "leaves l ?M (bl_root ?bl) 0 0 (bl_blocks ?bl) {}" "bl_free ?bl = int (card {})" using M(2) by simp_all
  moreover have "blist_ok ?bl" "free_blocks ?bl = {}"
    by (rule blist_okI [OF _ _ _ _ ok]; use assms(1) l(2) in simp)+
  ultimately show thesis using that by simp
qed

end
