(* ===== verification/Subr_Blist_Resize.thy ===== *)
theory Subr_Blist_Resize
  imports Subr_Blist_Calls
begin

text \<open>
  blist_resize: what blst_copy finds free in the old tree is freed in the new one, block by block or node by node.
\<close>

text \<open>The new list has what it had and \<open>A\<close>.\<close>

definition grown :: "blist \<Rightarrow> int set \<Rightarrow> blist \<Rightarrow> bool" where
  "grown d A d' \<longleftrightarrow> blist_ok d' \<and> bl_blocks d' = bl_blocks d \<and> free_blocks d' = free_blocks d \<union> A"

lemma grown_trans: "grown d A d1 \<Longrightarrow> grown d1 B d2 \<Longrightarrow> grown d (A \<union> B) d2"
  by (auto simp: grown_def)

lemma grown_free:
  assumes "blist_ok d" and "0 \<le> x" and "x + c \<le> bl_blocks d" and "0 < c" and "free_blocks d \<inter> {x..<x + c} = {}"
  shows "\<exists>d'. blist_free d x c = Inr d' \<and> grown d {x..<x + c} d'"
  by (rule blist_free_ok [OF assms]) (auto simp: grown_def)

lemma copy_bits:
  assumes "blist_ok d" and "0 \<le> b" and "b + c \<le> bl_blocks d" and "free_blocks d \<inter> {b + int j |j. i \<le> j \<and> int j < c \<and> bit w j} = {}"
  shows "\<exists>d'. blst_copy_bits i w b c d = Inr d' \<and> grown d {b + int j |j. i \<le> j \<and> int j < c \<and> bit w j} d'"
  using assms
proof (induction "32 - i" arbitrary: i d)
  case 0
  then have "\<not> bit w j" if "i \<le> j" for j using that bit_imp_le_length [of w j] by auto
  then show ?case using 0 by (subst blst_copy_bits.simps) (auto simp: grown_def)
next
  case (Suc n)
  let ?A = "\<lambda>i. {b + int j |j. i \<le> j \<and> int j < c \<and> bit w j}"
  have i: "i < 32" "n = 32 - Suc i" using Suc.hyps(2) by auto
  have bit: "w AND push_bit i 1 \<noteq> 0 \<longleftrightarrow> bit w i"
  proof
    assume "w AND push_bit i 1 \<noteq> 0"
    then show "bit w i" by (rule contrapos_np) (rule bit_word_eqI, auto simp: bit_simps bit_1_iff)
  next
    assume "bit w i"
    then have "bit (w AND push_bit i 1) i" using i(1) by (simp add: bit_simps bit_1_iff)
    then show "w AND push_bit i 1 \<noteq> 0" by auto
  qed
  show ?case
  proof (cases "int i < c")
    case False
    then have "?A i = {}" by auto
    then show ?thesis using Suc.prems(1) False by (subst blst_copy_bits.simps) (auto simp: grown_def)
  next
    case c: True
    show ?thesis
    proof (cases "bit w i")
      case False
      have A: "?A (Suc i) = ?A i" using False by (auto simp: Suc_le_eq order_le_less)
      have "blst_copy_bits i w b c d = blst_copy_bits (Suc i) w b c d" using i(1) c False bit by (subst blst_copy_bits.simps) simp
      then show ?thesis using Suc.hyps(1) [OF i(2) Suc.prems(1-3)] Suc.prems(4) unfolding A by simp
    next
      case True
      have A: "?A i = {b + int i..<b + int i + 1} \<union> ?A (Suc i)"
      proof (intro equalityI subsetI)
        fix x assume "x \<in> ?A i"
        then obtain j where "x = b + int j" "i \<le> j" "int j < c" "bit w j" by auto
        then show "x \<in> {b + int i..<b + int i + 1} \<union> ?A (Suc i)" by (cases "j = i") auto
      next
        fix x assume "x \<in> {b + int i..<b + int i + 1} \<union> ?A (Suc i)"
        then have "x = b + int i \<or> x \<in> ?A (Suc i)" by auto
        then show "x \<in> ?A i" using True c by (auto simp: Suc_le_eq intro: less_imp_le)
      qed
      obtain d1 where d1: "blist_free d (b + int i) 1 = Inr d1" "grown d {b + int i..<b + int i + 1} d1"
        using grown_free [of d "b + int i" 1] Suc.prems c A by auto
      have "\<exists>d'. blst_copy_bits (Suc i) w b c d1 = Inr d' \<and> grown d1 (?A (Suc i)) d'"
        by (rule Suc.hyps(1) [OF i(2)]) (use d1(2) Suc.prems A in \<open>auto simp: grown_def\<close>)
      then obtain d' where d': "blst_copy_bits (Suc i) w b c d1 = Inr d'" "grown d1 (?A (Suc i)) d'" by blast
      have "blst_copy_bits i w b c d = Inr d'" using i(1) c True bit d1(1) d'(1) by (subst blst_copy_bits.simps) simp
      then show ?thesis using grown_trans [OF d1(2) d'(2)] unfolding A by blast
    qed
  qed
qed

lemma copy_loop:
  assumes ok: "opened l M0 M s b cnt F" and count: "0 < count" "count \<le> cnt"
    and child: "\<And>k d. kid l count k \<Longrightarrow> blist_ok d \<Longrightarrow> b + int k * rad l + kcnt l count k \<le> bl_blocks d \<Longrightarrow>
      free_blocks d \<inter> (F \<inter> {b + int k * rad l..<b + int k * rad l + kcnt l count k}) = {} \<Longrightarrow>
      \<exists>d'. copy (1 + k * (skp l + 1)) (b + int k * rad l) (kcnt l count k) d = Inr d' \<and>
        grown d (F \<inter> {b + int k * rad l..<b + int k * rad l + kcnt l count k}) d'"
  shows "k \<le> nkids l count \<Longrightarrow> blist_ok d \<Longrightarrow> b + count \<le> bl_blocks d \<Longrightarrow> free_blocks d \<inter> (F \<inter> {b + int k * rad l..<b + count}) = {} \<Longrightarrow>
    count \<le> rad (Suc l) \<Longrightarrow>
    \<exists>d'. blst_copy_loop copy M s (rad l) (skp (Suc l)) (skp l + 1) (1 + k * (skp l + 1)) (b + int k * rad l) (left_at l count k) d = Inr d' \<and>
      grown d (F \<inter> {b + int k * rad l..<b + count}) d'"
proof (induction "nkids l count - k" arbitrary: k d)
  case 0
  then have k: "k = nkids l count" by simp
  then have "\<not> kid l count k" by (simp add: kid_nkids)
  moreover have "k < 16 \<or> k = 16" using k nkids_le [of l count] by auto
  ultimately have "count \<le> int k * rad l" using 0(6) by (auto simp: kid_def)
  then have "left_at l count k = 0" "F \<inter> {b + int k * rad l..<b + count} = {}" by (auto simp: left_at_def)
  then show ?case using 0(3) by (subst blst_copy_loop.simps) (simp add: grown_def)
next
  case (Suc n)
  then have k: "kid l count k" and n: "n = nkids l count - Suc k" and le: "Suc k \<le> nkids l count" by (auto simp: kid_nkids)
  have kc: "kid l cnt k" using k count(2) by (simp add: kid_def)
  let ?blk = "b + int k * rad l" and ?A = "F \<inter> {b + int k * rad l..<b + int k * rad l + kcnt l count k}"
  have blk: "?blk + rad l = b + int (Suc k) * rad l" by (simp add: algebra_simps)
  have split: "F \<inter> {?blk..<b + count} = ?A \<union> (F \<inter> {b + int (Suc k) * rad l..<b + count})" "?A \<inter> {b + int (Suc k) * rad l..<b + count} = {}"
    and bound: "?blk + kcnt l count k \<le> b + count"
    unfolding blk [symmetric] using kid_cnt(1,3) [OF k] by (auto simp: kcnt_def min_def split: if_splits)
      (use rad_simps(4) [of l] in linarith)
  obtain d1 where d1: "copy (1 + k * (skp l + 1)) ?blk (kcnt l count k) d = Inr d1" "grown d ?A d1"
    using child [OF k Suc.prems(2)] Suc.prems(3,4) split bound by auto
  have "\<exists>d'. blst_copy_loop copy M s (rad l) (skp (Suc l)) (skp l + 1) (1 + Suc k * (skp l + 1)) (b + int (Suc k) * rad l) (left_at l count (Suc k)) d1 = Inr d' \<and>
      grown d1 (F \<inter> {b + int (Suc k) * rad l..<b + count}) d'"
    by (rule Suc.hyps(1) [OF n le]) (use d1(2) Suc.prems(3-5) split in \<open>auto simp: grown_def\<close>)
  then obtain d' where d': "blst_copy_loop copy M s (rad l) (skp (Suc l)) (skp l + 1) (1 + Suc k * (skp l + 1)) (b + int (Suc k) * rad l)
        (left_at l count (Suc k)) d1 = Inr d'" "grown d1 (F \<inter> {b + int (Suc k) * rad l..<b + count}) d'" by blast
  have amount: "(if rad l \<le> left_at l count k then rad l else left_at l count k) = kcnt l count k"
    "(if rad l \<le> left_at l count k then left_at l count k - rad l else 0) = left_at l count (Suc k)"
    using left_at(1,2) [OF k] by auto
  have i: "1 + k * (skp l + 1) + (skp l + 1) = 1 + Suc k * (skp l + 1)" "s + (1 + k * (skp l + 1)) = ch s l k" by (simp_all add: ch_def)
  have "1 + k * (skp l + 1) \<le> skp (Suc l)" using k index_le [of k l] by (simp add: kid_def)
  then have "blst_copy_loop copy M s (rad l) (skp (Suc l)) (skp l + 1) (1 + k * (skp l + 1)) ?blk (left_at l count k) d =
      (case copy (1 + k * (skp l + 1)) ?blk (kcnt l count k) d of
         Inl e \<Rightarrow> Inl e
       | Inr d \<Rightarrow> blst_copy_loop copy M s (rad l) (skp (Suc l)) (skp l + 1) (1 + Suc k * (skp l + 1)) (b + int (Suc k) * rad l) (left_at l count (Suc k)) d)"
    using left_at(3) [OF k] kid_root [OF ok kc] by (subst blst_copy_loop.simps) (simp only: amount i blk, simp)
  also have "\<dots> = Inr d'" unfolding d1(1) sum.case d'(1) ..
  finally show ?case using grown_trans [OF d1(2) d'(2)] unfolding split(1) by blast
qed

lemma node_copy:
  "l < d \<Longrightarrow> laid l M s cnt \<Longrightarrow> vl l M s b cnt \<Longrightarrow> 0 < cnt \<Longrightarrow> cnt \<le> rad l \<Longrightarrow> 0 \<le> b \<Longrightarrow> 0 < count \<Longrightarrow> count \<le> cnt \<Longrightarrow>
    blist_ok dest \<Longrightarrow> b + count \<le> bl_blocks dest \<Longrightarrow> free_blocks dest \<inter> (fr l M s b cnt \<inter> {b..<b + count}) = {} \<Longrightarrow>
    \<exists>d'. blst_copy d M s b (rad l) (skp l) dest count = Inr d' \<and> grown dest (fr l M s b cnt \<inter> {b..<b + count}) d'"
proof (induction l arbitrary: d s b cnt count dest)
  case 0
  obtain e where d: "d = Suc e" using "0.prems"(1) by (cases d) auto
  let ?w = "bmu_bitmap (M ! s)"
  have s: "s < length M" using laid_root(1) [OF "0.prems"(2)] .
  have fr: "fr 0 M s b cnt \<inter> {b..<b + count} = {b + int j |j. 0 \<le> j \<and> int j < count \<and> bit ?w j}"
    unfolding leaf_fr by auto
  have run: "blst_copy d M s b (rad 0) (skp 0) dest count =
      (if ?w = -1 then blist_free dest b count else if ?w \<noteq> 0 then blst_copy_bits 0 ?w b count dest else Inr dest)"
    using s by (simp add: d)
  show ?case
  proof (cases "?w = -1")
    case True
    have "{b + int j |j. 0 \<le> j \<and> int j < count \<and> bit ?w j} = {b..<b + count}"
    proof (intro equalityI subsetI)
      fix x assume "x \<in> {b..<b + count}"
      then show "x \<in> {b + int j |j. 0 \<le> j \<and> int j < count \<and> bit ?w j}"
        using True "0.prems"(5,8) by (auto intro!: exI [of _ "nat (x - b)"])
    qed auto
    then show ?thesis using grown_free [OF "0.prems"(9,6,10,7)] "0.prems"(11) True unfolding run fr by simp
  next
    case False
    note bits = copy_bits [of dest b count 0 ?w, OF "0.prems"(9,6,10) "0.prems"(11) [unfolded fr]]
    show ?thesis
    proof (cases "?w = 0")
      case True
      then show ?thesis using "0.prems"(9) unfolding run fr by (simp add: grown_def)
    next
      case nonzero: False
      then show ?thesis unfolding run fr using bits False by simp
    qed
  qed
next
  case (Suc l)
  obtain e where d: "d = Suc e" "l < e" using Suc.prems(1) by (cases d) auto
  note laid = Suc.prems(2) and vl = Suc.prems(3)
  let ?F = "fr (Suc l) M s b cnt"
  have s: "s < length M" using laid_root(1) [OF laid] .
  have run: "blst_copy d M s b (rad (Suc l)) (skp (Suc l)) dest count =
      (if bmu_avail (M ! s) = 0 then Inr dest
       else if bmu_avail (M ! s) = rad (Suc l) then blist_free dest b (if count < rad (Suc l) then count else rad (Suc l))
       else blst_copy_loop (\<lambda>i blk count dest. blst_copy e M (s + i) blk (rad l) (skp l) dest count) M s (rad l) (skp (Suc l)) (skp l + 1) 1 b count dest)"
    using s by (simp only: d(1) blst_copy.simps Let_def down not_le [symmetric] if_False rad_eq_32 nat.distinct add_diff_cancel_right')
  show ?case
  proof (cases "bmu_avail (M ! s) = 0")
    case True
    then show ?thesis using Suc.prems(9) unfolding run by (simp add: grown_def fr.simps)
  next
    case nonzero: False
    show ?thesis
    proof (cases "bmu_avail (M ! s) = rad (Suc l)")
      case True
      then have full: "cnt = rad (Suc l)" using vl Suc.prems(5) by (simp add: vl.simps)
      have amount: "(if count < rad (Suc l) then count else rad (Suc l)) = count" using Suc.prems(5,8) by simp
      have "?F \<inter> {b..<b + count} = {b..<b + count}" using True nonzero full Suc.prems(8) by (auto simp: fr.simps)
      then show ?thesis
        using grown_free [OF Suc.prems(9,6,10,7)] Suc.prems(11) nonzero True unfolding run amount by simp
    next
      case False
      note o = opened_self [OF laid vl nonzero False]
      let ?copy = "\<lambda>i blk count dest. blst_copy e M (s + i) blk (rad l) (skp l) dest count"
      have child: "\<exists>d'. ?copy (1 + k * (skp l + 1)) (b + int k * rad l) (kcnt l count k) d = Inr d' \<and>
          grown d (?F \<inter> {b + int k * rad l..<b + int k * rad l + kcnt l count k}) d'"
        if k: "kid l count k" and dok: "blist_ok d" "b + int k * rad l + kcnt l count k \<le> bl_blocks d"
          "free_blocks d \<inter> (?F \<inter> {b + int k * rad l..<b + int k * rad l + kcnt l count k}) = {}" for k d
      proof -
        have kc: "kid l cnt k" using k Suc.prems(8) by (simp add: kid_def)
        have sub: "fr l M (ch s l k) (b + int k * rad l) (kcnt l cnt k) \<inter> {b + int k * rad l..<b + int k * rad l + kcnt l count k} =
            ?F \<inter> {b + int k * rad l..<b + int k * rad l + kcnt l count k}"
          unfolding opened_kid_node(3) [OF o kc] using kid_cnt(2) [of l count k] by (auto simp: distrib_right)
        have "kcnt l count k \<le> kcnt l cnt k" "0 \<le> b + int k * rad l" using Suc.prems(6,8) by (auto simp: kcnt_def)
        then show ?thesis
          using Suc.IH [OF d(2) opened_kid_node(1,2) [OF o kc] kid_cnt(1) [OF kc] kid_cnt(2) _ kid_cnt(1) [OF k] _ dok(1,2)] dok(3) sub
          by (simp add: ch_def)
      qed
      have "\<exists>d'. blst_copy_loop ?copy M s (rad l) (skp (Suc l)) (skp l + 1) (1 + 0 * (skp l + 1)) (b + int 0 * rad l) (left_at l count 0) dest = Inr d' \<and>
          grown dest (?F \<inter> {b + int 0 * rad l..<b + count}) d'"
        by (rule copy_loop [OF o Suc.prems(7,8) child]) (use Suc.prems in auto)
      then show ?thesis
        unfolding run using nonzero False left_at_0 [OF Suc.prems(7), of l] by simp
    qed
  qed
qed

lemma blist_resize_ok:
  assumes "blist_ok bl" and "0 < count" and "count \<le> 2 ^ 29"
  obtains bl' where "blist_resize mem bl count freenew = Inr bl'" and "blist_ok bl'" and "bl_blocks bl' = count"
    and "free_blocks bl' = (free_blocks bl \<inter> {0..<count}) \<union> (if freenew then {bl_blocks bl..<count} else {})"
proof -
  obtain new where new: "blist_create mem count = Inr new" "blist_ok new" "bl_blocks new = count" "free_blocks new = {}"
    by (rule blist_create_ok [OF assms(2,3)])
  obtain l where l: "bl_skip bl = skp l" "bl_radix bl = rad l" "0 < bl_blocks bl" "bl_blocks bl \<le> rad l"
    "laid l (bl_root bl) 0 (bl_blocks bl)" "vl l (bl_root bl) 0 0 (bl_blocks bl)" "free_blocks bl = fr l (bl_root bl) 0 0 (bl_blocks bl)"
    by (rule blist_ok_level [OF assms(1)])
  let ?n = "if bl_blocks bl < count then bl_blocks bl else count"
  have "\<exists>d'. blst_copy (Suc (skp l)) (bl_root bl) 0 0 (rad l) (skp l) new ?n = Inr d' \<and> grown new (fr l (bl_root bl) 0 0 (bl_blocks bl) \<inter> {0..<0 + ?n}) d'"
    by (rule node_copy [OF _ l(5,6,3,4)]) (use level_le_skp [of l] new assms(2) l(3) in auto)
  then obtain d where d: "blst_copy (Suc (skp l)) (bl_root bl) 0 0 (rad l) (skp l) new ?n = Inr d" "grown new (free_blocks bl \<inter> {0..<?n}) d"
    unfolding l(7) by auto
  have d_ok: "blist_ok d" "bl_blocks d = count" "free_blocks d = free_blocks bl \<inter> {0..<?n}"
    using d(2) new by (auto simp: grown_def)
  have n: "free_blocks bl \<inter> {0..<?n} = free_blocks bl \<inter> {0..<count}" using free_range [OF assms(1)] by auto
  have run: "blist_resize mem bl count freenew = (if freenew \<and> ?n < count then blist_free d ?n (count - ?n) else Inr d)"
    unfolding blist_resize_def new(1) andthen_simps Let_def l(1,2) d(1) d_ok(2) ..
  show thesis
  proof (cases "freenew \<and> ?n < count")
    case False
    then have "(if freenew then {bl_blocks bl..<count} else {}) = {}" by auto
    moreover have "blist_resize mem bl count freenew = Inr d" unfolding run using False by (rule if_not_P)
    ultimately show thesis using that [of d] d_ok unfolding n by simp
  next
    case True
    then have c: "?n = bl_blocks bl" "bl_blocks bl < count" by (auto split: if_splits)
    have "free_blocks d \<inter> {?n..<?n + (count - ?n)} = {}" using d_ok(3) by auto
    then obtain e where e: "blist_free d ?n (count - ?n) = Inr e" "blist_ok e" "bl_blocks e = count"
        "free_blocks e = free_blocks d \<union> {?n..<?n + (count - ?n)}"
      using blist_free_ok [OF d_ok(1), of ?n "count - ?n"] d_ok(2) c l(3) by auto
    have "free_blocks e = (free_blocks bl \<inter> {0..<count}) \<union> {bl_blocks bl..<count}"
      unfolding e(4) d_ok(3) n unfolding c(1) by simp
    moreover have "blist_resize mem bl count freenew = Inr e" unfolding run e(1) [symmetric] using True by (rule if_P)
    ultimately show thesis using that [of e] True e(2,3) by simp
  qed
qed

end
