(* ===== verification/Subr_Blist_Theorems.thy ===== *)
theory Subr_Blist_Theorems
  imports Subr_Blist_Resize
begin

text \<open>
  The properties of the bitmap allocator, and the interface its clients rely on as a locale: along any sequence of
  calls the extents handed out and not yet freed are apart from each other and from the free blocks.
\<close>

section \<open>The interface\<close>

definition blocks_of :: "(int \<times> int) list \<Rightarrow> int set" where "blocks_of H = (\<Union>(x, c)\<in>set H. {x..<x + c})"

lemma blocks_of_simps [simp]: "blocks_of [] = {}" "blocks_of ((x, c) # H) = {x..<x + c} \<union> blocks_of H"
  by (auto simp: blocks_of_def)

fun apart :: "(int \<times> int) list \<Rightarrow> bool" where
  "apart [] \<longleftrightarrow> True"
| "apart ((x, c) # H) \<longleftrightarrow> {x..<x + c} \<inter> blocks_of H = {} \<and> apart H"

lemma apart_remove:
  "apart H \<Longrightarrow> (x, c) \<in> set H \<Longrightarrow> apart (remove1 (x, c) H) \<and> blocks_of H = {x..<x + c} \<union> blocks_of (remove1 (x, c) H) \<and>
     {x..<x + c} \<inter> blocks_of (remove1 (x, c) H) = {}"
proof (induction H)
  case (Cons p H)
  obtain y d where p: "p = (y, d)" by (cases p)
  show ?case
  proof (cases "(y, d) = (x, c)")
    case False
    then have H: "(x, c) \<in> set H" using Cons.prems(2) p by auto
    have "apart H" "{y..<y + d} \<inter> blocks_of H = {}" using Cons.prems(1) unfolding p by auto
    then show ?thesis using Cons.IH [OF _ H] False unfolding p by auto
  qed (use Cons.prems(1) p in \<open>auto simp: disjoint_iff\<close>)
qed simp

locale block_allocator =
  fixes ok :: "'s \<Rightarrow> bool" and free_of :: "'s \<Rightarrow> int set" and size_of :: "'s \<Rightarrow> int"
    and alloc :: "'s \<Rightarrow> int \<Rightarrow> (int option \<times> 's) bl_result" and release :: "'s \<Rightarrow> int \<Rightarrow> int \<Rightarrow> 's bl_result"
  assumes inside: "ok s \<Longrightarrow> free_of s \<subseteq> {0..<size_of s}"
    and alloc_law: "ok s \<Longrightarrow> 0 < c \<Longrightarrow> c \<le> 32 \<Longrightarrow>
      \<exists>r s'. alloc s c = Inr (r, s') \<and> ok s' \<and> size_of s' = size_of s \<and>
        (case r of None \<Rightarrow> free_of s' = free_of s | Some x \<Rightarrow> {x..<x + c} \<subseteq> free_of s \<and> free_of s' = free_of s - {x..<x + c})"
    and release_law: "ok s \<Longrightarrow> 0 \<le> x \<Longrightarrow> x + c \<le> size_of s \<Longrightarrow> 0 < c \<Longrightarrow> free_of s \<inter> {x..<x + c} = {} \<Longrightarrow>
      \<exists>s'. release s x c = Inr s' \<and> ok s' \<and> size_of s' = size_of s \<and> free_of s' = free_of s \<union> {x..<x + c}"
begin

text \<open>A client that frees what it was given: the state and the extents it holds.\<close>

inductive use :: "'s \<times> (int \<times> int) list \<Rightarrow> 's \<times> (int \<times> int) list \<Rightarrow> bool" where
  take: "0 < c \<Longrightarrow> c \<le> 32 \<Longrightarrow> alloc s c = Inr (Some x, s') \<Longrightarrow> use (s, H) (s', (x, c) # H)"
| fail: "0 < c \<Longrightarrow> c \<le> 32 \<Longrightarrow> alloc s c = Inr (None, s') \<Longrightarrow> use (s, H) (s', H)"
| give: "(x, c) \<in> set H \<Longrightarrow> release s x c = Inr s' \<Longrightarrow> use (s, H) (s', remove1 (x, c) H)"

definition held :: "'s \<times> (int \<times> int) list \<Rightarrow> int set \<Rightarrow> bool" where
  "held p S \<longleftrightarrow> (case p of (s, H) \<Rightarrow> ok s \<and> apart H \<and> (\<forall>(x, c)\<in>set H. 0 \<le> x \<and> 0 < c \<and> x + c \<le> size_of s) \<and>
     free_of s \<inter> blocks_of H = {} \<and> free_of s \<union> blocks_of H = S)"

lemma held_use:
  assumes "use p q" and "held p S"
  shows "held q S"
  using assms
proof cases
  case (take c s x s' H)
  have s: "ok s'" "size_of s' = size_of s" "{x..<x + c} \<subseteq> free_of s" "free_of s' = free_of s - {x..<x + c}"
    using alloc_law [of s c] take assms(2) by (auto simp: held_def)
  have "ok s" using assms(2) by (simp add: take(1) held_def)
  then have "{x..<x + c} \<subseteq> {0..<size_of s}" using inside [of s] s(3) by blast
  moreover have "x \<in> {x..<x + c}" "x + c - 1 \<in> {x..<x + c}" using take(3) by auto
  ultimately have "x \<in> {0..<size_of s}" "x + c - 1 \<in> {0..<size_of s}" by blast+
  then have "0 \<le> x" "x + c \<le> size_of s" by auto
  then show ?thesis
    using s assms(2) take(3) unfolding take(1,2) held_def by auto
next
  case (fail c s s' H)
  then show ?thesis using alloc_law [of s c] assms(2) by (auto simp: held_def)
next
  case (give x c H s s')
  have H: "apart (remove1 (x, c) H)" "blocks_of H = {x..<x + c} \<union> blocks_of (remove1 (x, c) H)"
    "{x..<x + c} \<inter> blocks_of (remove1 (x, c) H) = {}"
    using apart_remove [of H x c] give(3) assms(2) unfolding give(1) held_def by auto
  have bnd: "0 \<le> x" "0 < c" "x + c \<le> size_of s" and ok: "ok s" using assms(2) give(3) unfolding give(1) held_def by auto
  have dis: "free_of s \<inter> {x..<x + c} = {}" using assms(2) H(2) unfolding give(1) held_def by auto
  obtain s1 where "release s x c = Inr s1" "ok s1" "size_of s1 = size_of s" "free_of s1 = free_of s \<union> {x..<x + c}"
    using release_law [OF ok bnd(1,3,2) dis] by blast
  then have s': "ok s'" "size_of s' = size_of s" "free_of s' = free_of s \<union> {x..<x + c}" using give(4) by auto
  then show ?thesis
    using assms(2) H unfolding give(1,2) held_def by (auto dest: notin_set_remove1)
qed

lemma held_uses: "use\<^sup>*\<^sup>* p q \<Longrightarrow> held p S \<Longrightarrow> held q S"
  by (induction rule: rtranclp_induct) (auto intro: held_use)

end

interpretation bl: block_allocator blist_ok free_blocks bl_blocks blist_alloc blist_free
proof
  fix s x and c :: int
  show "blist_ok s \<Longrightarrow> free_blocks s \<subseteq> {0..<bl_blocks s}" by (rule free_range)
  show "blist_ok s \<Longrightarrow> 0 < c \<Longrightarrow> c \<le> 32 \<Longrightarrow>
      \<exists>r s'. blist_alloc s c = Inr (r, s') \<and> blist_ok s' \<and> bl_blocks s' = bl_blocks s \<and>
        (case r of None \<Rightarrow> free_blocks s' = free_blocks s
         | Some x \<Rightarrow> {x..<x + c} \<subseteq> free_blocks s \<and> free_blocks s' = free_blocks s - {x..<x + c})"
    by (rule blist_alloc_ok) blast+
  show "blist_ok s \<Longrightarrow> 0 \<le> x \<Longrightarrow> x + c \<le> bl_blocks s \<Longrightarrow> 0 < c \<Longrightarrow> free_blocks s \<inter> {x..<x + c} = {} \<Longrightarrow>
      \<exists>s'. blist_free s x c = Inr s' \<and> blist_ok s' \<and> bl_blocks s' = bl_blocks s \<and> free_blocks s' = free_blocks s \<union> {x..<x + c}"
    by (rule blist_free_ok) blast+
qed

section \<open>Properties\<close>

text \<open>The contents of the memory malloc returns, in the examples.\<close>

definition junk :: "nat \<Rightarrow> blmeta" where "junk i = \<lparr>bmu_avail = 77, bmu_bitmap = 99, bm_bighint = 55\<rparr>"

definition bl40 :: blist where
  "bl40 = \<lparr>bl_blocks = 40, bl_radix = 512, bl_skip = 16, bl_free = 0,
     bl_root = [\<lparr>bmu_avail = 0, bmu_bitmap = 99, bm_bighint = 0\<rparr>, \<lparr>bmu_avail = 77, bmu_bitmap = 0, bm_bighint = 0\<rparr>,
       \<lparr>bmu_avail = 77, bmu_bitmap = 0, bm_bighint = 0\<rparr>, \<lparr>bmu_avail = 77, bmu_bitmap = 99, bm_bighint = -1\<rparr>]\<rparr>"

lemma bl40: "blist_create junk 40 = Inr bl40"
  by code_simp

text \<open>C26: blist_create makes a list of any positive number of blocks up to 2^29 with every block allocated, whatever the memory held before,
  and for any larger number it never returns.\<close>

theorem blist_create_up_to:
  assumes "0 < blocks"
  shows "if blocks \<le> 2 ^ 29
    then \<exists>bl. blist_create mem blocks = Inr bl \<and> blist_ok bl \<and> bl_blocks bl = blocks \<and> free_blocks bl = {}
    else blist_create mem blocks = Inl Hang"
proof (cases "blocks \<le> 2 ^ 29")
  case True
  then show ?thesis using blist_create_ok [OF assms True, of mem] by auto
next
  case False
  then show ?thesis using create_too_big [of blocks] by (simp add: blist_create_def)
qed

lemma blist_create_up_to_witness: "blist_ok bl40 \<and> free_blocks bl40 = {}"
  using blist_create_up_to [of 40 junk] bl40 by simp

lemma bl40_ok: "blist_ok bl40" "free_blocks bl40 = {}" "bl_blocks bl40 = 40"
  by (rule blist_create_ok [of 40 junk]; use bl40 in \<open>simp add: bl40_def\<close>)+

text \<open>C10: Freeing a range of allocated blocks never panics or leaves the array: the range is free afterwards, nothing else changes.\<close>

theorem blist_free_refines:
  assumes "blist_ok bl" and "0 \<le> x" and "x + c \<le> bl_blocks bl" and "0 < c" and "free_blocks bl \<inter> {x..<x + c} = {}"
  shows "\<exists>bl'. blist_free bl x c = Inr bl' \<and> blist_ok bl' \<and> bl_blocks bl' = bl_blocks bl \<and>
           free_blocks bl' = free_blocks bl \<union> {x..<x + c} \<and> bl_free bl' = bl_free bl + c"
proof -
  have "bl_free b = int (card (free_blocks b))" if "blist_ok b" for b using that by (simp add: blist_ok_def Let_def)
  then show ?thesis
    using card_add [OF free_finite assms(5)] assms(1,4) by (rule_tac blist_free_ok [OF assms]) auto
qed

definition bl40_free :: blist where "bl40_free = projr (blist_free bl40 0 40)"

lemma bl40_free: "blist_free bl40 0 40 = Inr bl40_free"
  by code_simp

lemma blist_free_refines_witness: "blist_ok bl40_free \<and> free_blocks bl40_free = {0..<40}"
  using blist_free_refines [of bl40 0 40] bl40_ok bl40_free by simp

lemma bl40_free_ok: "blist_ok bl40_free" "free_blocks bl40_free = {0..<40}" "bl_blocks bl40_free = 40"
  by (rule blist_free_ok [of bl40 0 40]; use bl40_free bl40_ok in simp)+

text \<open>C25: Allocating up to 32 blocks never panics or leaves the array: it either hands out a run of free blocks, which is
  then allocated, or fails and leaves the free blocks as they were; the count of free blocks stays exact.\<close>

theorem blist_alloc_refines:
  assumes "blist_ok bl" and "0 < c" and "c \<le> 32"
  shows "\<exists>r bl'. blist_alloc bl c = Inr (r, bl') \<and> blist_ok bl' \<and> bl_blocks bl' = bl_blocks bl \<and>
           bl_free bl' = int (card (free_blocks bl')) \<and>
           (case r of None \<Rightarrow> free_blocks bl' = free_blocks bl
            | Some x \<Rightarrow> {x..<x + c} \<subseteq> free_blocks bl \<and> free_blocks bl' = free_blocks bl - {x..<x + c})"
  by (rule blist_alloc_ok [OF assms]) (auto simp: blist_ok_def Let_def)

lemma blist_alloc_refines_witness: "\<exists>bl'. blist_alloc bl40_free 5 = Inr (Some 0, bl') \<and> free_blocks bl' = {5..<40}"
proof -
  have "map_sum id fst (blist_alloc bl40_free 5) = Inr (Some 0)" by code_simp
  then show ?thesis
    using blist_alloc_refines [of bl40_free 5] bl40_free_ok by (auto simp: map_sum.simps)
qed

text \<open>Filling up to 32 blocks, whatever is free among them, leaves none of them free, changes nothing else, and returns how many were free.\<close>

theorem blist_fill_refines:
  assumes "blist_ok bl" and "0 \<le> x" and "x + c \<le> bl_blocks bl" and "0 < c" and "c \<le> 32"
  shows "\<exists>bl'. blist_fill bl x c = Inr (int (card (free_blocks bl \<inter> {x..<x + c})), bl') \<and> blist_ok bl' \<and>
           bl_blocks bl' = bl_blocks bl \<and> free_blocks bl' = free_blocks bl - {x..<x + c}"
  by (rule blist_fill_ok [OF assms]) blast

lemma blist_fill_refines_witness: "\<exists>bl'. blist_fill bl40_free 30 10 = Inr (10, bl') \<and> free_blocks bl' = {0..<30}"
  using blist_fill_refines [of bl40_free 30 10] bl40_free_ok by (auto simp: Int_absorb1)

text \<open>A longer range makes it panic, unless it is all of a node or the node has nothing free.\<close>

lemma fill_panics: "blist_fill bl40_free 0 33 = Inl (Panic ''blist_meta_fill: allocation too large'')"
  by code_simp

text \<open>Past the last block the check for the terminator looks at the parent instead of the child: the terminator is taken for a
  leaf, and the next index is outside of the array.\<close>

lemma fill_past_end: "map_sum id fst (blist_fill bl40_free 64 32) = Inr 4" "blist_fill bl40_free 96 32 = Inl Fault"
  by code_simp+

text \<open>Resizing keeps the free blocks below the new size; the new blocks are free exactly when the caller asks for it.\<close>

theorem blist_resize_keeps:
  assumes "blist_ok bl" and "0 < count" and "count \<le> 2 ^ 29"
  shows "\<exists>bl'. blist_resize mem bl count freenew = Inr bl' \<and> blist_ok bl' \<and> bl_blocks bl' = count \<and>
           free_blocks bl' = (free_blocks bl \<inter> {0..<count}) \<union> (if freenew then {bl_blocks bl..<count} else {})"
  by (rule blist_resize_ok [OF assms, of mem freenew]) blast

lemma blist_resize_keeps_witness: "\<exists>bl'. blist_resize junk bl40_free 600 True = Inr bl' \<and> free_blocks bl' = {0..<600}"
proof -
  have "{0..<40} \<inter> {0..<600} \<union> {40..<600} = {0..<(600 :: int)}" by auto
  then show ?thesis using blist_resize_keeps [of bl40_free 600 junk True] bl40_free_ok by auto
qed

text \<open>C27: For a client that frees what it was given, in any order of allocations and frees, the extents it holds are apart
  from each other and from the free blocks, and together with these are the blocks it began with: no block is handed out twice or lost.\<close>

theorem blist_extents_apart:
  assumes "blist_ok bl" and "(block_allocator.use blist_alloc blist_free)\<^sup>*\<^sup>* (bl, []) (bl', H)"
  shows "apart H \<and> free_blocks bl' \<inter> blocks_of H = {} \<and> free_blocks bl' \<union> blocks_of H = free_blocks bl"
proof -
  have "bl.held (bl, []) (free_blocks bl)" using assms(1) by (simp add: bl.held_def)
  from bl.held_uses [OF assms(2) this] show ?thesis by (simp add: bl.held_def)
qed

lemma blist_extents_apart_witness:
  "\<exists>bl'. blist_alloc bl40_free 32 = Inr (Some 0, bl') \<and> free_blocks bl' \<inter> blocks_of [(0, 32)] = {}"
proof -
  define bl' where "bl' = snd (projr (blist_alloc bl40_free 32))"
  have run: "blist_alloc bl40_free 32 = Inr (Some 0, bl')" unfolding bl'_def by code_simp
  have "bl.use\<^sup>*\<^sup>* (bl40_free, []) (bl', [(0, 32)])"
    by (rule r_into_rtranclp) (rule bl.use.take [OF _ _ run]; simp)
  from blist_extents_apart [OF bl40_free_ok(1) this] show ?thesis using run by blast
qed

section \<open>The hints\<close>

definition bl1024 :: blist where "bl1024 = projr (blist_create junk 1024)"
definition bl1024_a :: blist where "bl1024_a = projr (blist_free bl1024 0 1)"
definition bl1024_b :: blist where "bl1024_b = snd (projr (blist_alloc bl1024_a 2))"
definition bl1024_c :: blist where "bl1024_c = projr (blist_free bl1024_b 1 511)"

lemma bl1024: "blist_create junk 1024 = Inr bl1024" "blist_ok bl1024" "free_blocks bl1024 = {}" "bl_blocks bl1024 = 1024"
  by (rule blist_create_ok [of 1024 junk]; simp add: bl1024_def)+

lemma bl1024_a: "blist_free bl1024 0 1 = Inr bl1024_a" "blist_ok bl1024_a" "free_blocks bl1024_a = {0..<1}" "bl_blocks bl1024_a = 1024"
  by (rule blist_free_ok [of bl1024 0 1]; use bl1024 in \<open>simp add: bl1024_a_def\<close>)+

lemma bl1024_b: "blist_alloc bl1024_a 2 = Inr (None, bl1024_b)" "blist_ok bl1024_b" "free_blocks bl1024_b = {0..<1}" "bl_blocks bl1024_b = 1024"
proof -
  have none: "map_sum id fst (blist_alloc bl1024_a 2) = Inr None" by code_simp
  show "blist_alloc bl1024_a 2 = Inr (None, bl1024_b)" "blist_ok bl1024_b" "free_blocks bl1024_b = {0..<1}" "bl_blocks bl1024_b = 1024"
    by (rule blist_alloc_ok [of bl1024_a 2]; use bl1024_a none in \<open>simp add: bl1024_b_def\<close>)+
qed

lemma bl1024_c: "blist_free bl1024_b 1 511 = Inr bl1024_c" "free_blocks bl1024_c = {0..<1} \<union> {1..<512}"
  by (rule blist_free_ok [of bl1024_b 1 511]; use bl1024_b in \<open>simp add: bl1024_c_def\<close>)+

text \<open>A list of 1024 blocks, one freed, an allocation of two that fails, and the next 511 freed: 512 blocks in a row are free,
  but no allocation of two or more blocks succeeds, because the hint of the node above them was not raised.\<close>

theorem blist_hint_too_low:
  "\<exists>a b d e. blist_free bl1024 0 1 = Inr a \<and> blist_alloc a 2 = Inr (None, b) \<and> blist_free b 1 511 = Inr d \<and>
     free_blocks d = {0..<512} \<and> blist_alloc d 2 = Inr (None, e)"
proof (intro exI conjI)
  show "blist_free bl1024 0 1 = Inr bl1024_a" "blist_alloc bl1024_a 2 = Inr (None, bl1024_b)" "blist_free bl1024_b 1 511 = Inr bl1024_c"
    by (rule bl1024_a bl1024_b bl1024_c)+
  show "free_blocks bl1024_c = {0..<512}" unfolding bl1024_c(2) by (rule ivl_disj_un_two(3)) simp_all
  have none: "map_sum id fst (blist_alloc bl1024_c 2) = Inr None" by code_simp
  show "blist_alloc bl1024_c 2 = Inr (None, snd (projr (blist_alloc bl1024_c 2)))"
    using none by (cases "blist_alloc bl1024_c 2") (simp_all, simp add: prod_eq_iff)
qed

text \<open>Freeing a free block is not noticed when it makes the count of a node reach its radix: the block in use is then taken for free.\<close>

definition bl512 :: blist where "bl512 = projr (blist_create junk 512)"
definition bl512_a :: blist where "bl512_a = projr (blist_free bl512 1 511)"

lemma double_free_unnoticed:
  "blist_create junk 512 = Inr bl512" "blist_free bl512 1 511 = Inr bl512_a" "map_sum id bl_free (blist_free bl512_a 5 1) = Inr 512"
proof -
  have b: "blist_create junk 512 = Inr bl512" "blist_ok bl512" "free_blocks bl512 = {}" "bl_blocks bl512 = 512"
    by (rule blist_create_ok [of 512 junk]; simp add: bl512_def)+
  show "blist_create junk 512 = Inr bl512" by (rule b(1))
  show "blist_free bl512 1 511 = Inr bl512_a"
    by (rule blist_free_ok [of bl512 1 511]; use b in \<open>simp add: bl512_a_def\<close>)
  show "map_sum id bl_free (blist_free bl512_a 5 1) = Inr 512" by code_simp
qed

end
