(* ===== verification/Kern_Rwlock.thy ===== *)
theory Kern_Rwlock
  imports Kern_Prelude "HOL-Library.Multiset"
begin

text \<open>
  The contract of a shared/exclusive lock, and the condition variables of kern/kern_condvar.c
  as the locks use them. A state machine whose states have a multiset of readers (a thread may hold the lock
  shared more than once) and at most one writer keeps the contract when no step lets a writer and a reader in together.
\<close>

section \<open>The contract\<close>

locale rw_lock =
  fixes step :: "'s \<Rightarrow> 's \<Rightarrow> bool" and ok :: "'s \<Rightarrow> bool"
    and readers_of :: "'s \<Rightarrow> 't multiset" and writer_of :: "'s \<Rightarrow> 't option"
  assumes step_ok: "ok s \<Longrightarrow> step s s' \<Longrightarrow> ok s'"
    and exclusive: "ok s \<Longrightarrow> writer_of s \<noteq> None \<Longrightarrow> readers_of s = {#}"
begin

lemma reachable_ok: "step\<^sup>*\<^sup>* s s' \<Longrightarrow> ok s \<Longrightarrow> ok s'"
  by (induction rule: rtranclp_induct) (auto intro: step_ok)

text \<open>Data behind the lock: a step of the lock leaves it alone, and only the thread that holds the lock exclusively changes it.\<close>

inductive use :: "'s \<times> 'd \<Rightarrow> 's \<times> 'd \<Rightarrow> bool" where
  lock_step: "step s s' \<Longrightarrow> use (s, d) (s', d)"
| data_write: "writer_of s = Some t \<Longrightarrow> use (s, d) (s, d')"

text \<open>A run through the given states.\<close>

fun run :: "('s \<times> 'd) list \<Rightarrow> bool" where
  "run (x # y # zs) \<longleftrightarrow> use x y \<and> run (y # zs)"
| "run _ \<longleftrightarrow> True"

lemma use_ok: "use x y \<Longrightarrow> ok (fst x) \<Longrightarrow> ok (fst y)"
  by (auto elim!: use.cases intro: step_ok)

lemma use_stable: "use x y \<Longrightarrow> ok (fst x) \<Longrightarrow> t \<in># readers_of (fst x) \<Longrightarrow> snd y = snd x"
  by (auto elim!: use.cases dest: exclusive)

text \<open>What a reader sees does not change as long as it holds the lock.\<close>

lemma reader_stable:
  "run (x # zs) \<Longrightarrow> ok (fst x) \<Longrightarrow> (\<And>z. z \<in> set (x # zs) \<Longrightarrow> t \<in># readers_of (fst z)) \<Longrightarrow> z \<in> set (x # zs) \<Longrightarrow> snd z = snd x"
proof (induction zs arbitrary: x)
  case (Cons y zs)
  have u: "use x y" "run (y # zs)" using Cons.prems(1) by auto
  have y: "snd y = snd x" using use_stable [OF u(1) Cons.prems(2) Cons.prems(3) [of x]] by simp
  show ?case
  proof (cases "z = x")
    case False
    then have "z \<in> set (y # zs)" using Cons.prems(4) by auto
    then show ?thesis using Cons.IH [OF u(2) use_ok [OF u(1) Cons.prems(2)]] Cons.prems(3) y by simp
  qed simp
qed simp

end

section \<open>Condition variables\<close>

text \<open>The queue of the sleeping threads. Waking returns the threads made runnable.\<close>

record cv =
  cv_waitq :: "ptr list"

definition cv_init :: cv where "cv_init = \<lparr>cv_waitq = []\<rparr>"

definition cv_waitq_add :: "cv \<Rightarrow> ptr \<Rightarrow> cv" where
  "cv_waitq_add c td = c\<lparr>cv_waitq := cv_waitq c @ [td]\<rparr>"

definition cv_waitq_remove :: "ptr \<Rightarrow> cv \<Rightarrow> cv" where
  "cv_waitq_remove td c = c\<lparr>cv_waitq := remove1 td (cv_waitq c)\<rparr>"

definition cv_wakeup :: "cv \<Rightarrow> ptr \<times> cv" where
  "cv_wakeup c = (hd (cv_waitq c), cv_waitq_remove (hd (cv_waitq c)) c)"

definition cv_signal :: "cv \<Rightarrow> ptr list \<times> cv" where
  "cv_signal c = (if cv_waitq c \<noteq> [] then (case cv_wakeup c of (td, c1) \<Rightarrow> ([td], c1)) else ([], c))"

function cv_broadcast :: "cv \<Rightarrow> ptr list \<times> cv" where
  "cv_broadcast c =
     (if cv_waitq c \<noteq> []
      then (case cv_wakeup c of (td, c1) \<Rightarrow> (case cv_broadcast c1 of (tds, c2) \<Rightarrow> (td # tds, c2)))
      else ([], c))"
  by pat_completeness auto
termination
  by (relation "measure (\<lambda>c. length (cv_waitq c))") (auto simp: cv_wakeup_def cv_waitq_remove_def neq_Nil_conv)

declare cv_broadcast.simps [simp del]

lemma cv_signal_eq: "cv_signal c = (take 1 (cv_waitq c), c\<lparr>cv_waitq := tl (cv_waitq c)\<rparr>)"
  by (cases "cv_waitq c") (auto simp: cv_signal_def cv_wakeup_def cv_waitq_remove_def)

lemma cv_broadcast_eq: "cv_broadcast c = (cv_waitq c, c\<lparr>cv_waitq := []\<rparr>)"
proof (induction "cv_waitq c" arbitrary: c)
  case Nil
  then show ?case by (simp add: cv_broadcast.simps)
next
  case (Cons td tds)
  have "tds = cv_waitq (cv_waitq_remove td c)" using Cons.hyps(2) [symmetric] by (simp add: cv_waitq_remove_def)
  from Cons.hyps(1) [OF this] show ?case
    using Cons.hyps(2) [symmetric] by (simp add: cv_broadcast.simps [of c] cv_wakeup_def cv_waitq_remove_def)
qed

end
