(* ===== verification/Kern_Sx.thy ===== *)
theory Kern_Sx
  imports Kern_Rwlock
begin

text \<open>
  The shared/exclusive locks of kern/kern_sx.c. The pool mutex makes the code between two sleeps one
  step: a call runs until it has the lock, fails, or sleeps in cv_wait; a thread that was woken runs on from cv_wait.
  The state of the lock is the struct; what each thread believes to hold, and who was woken but has not yet
  run, is the state around it.
\<close>

section \<open>The code\<close>

record sx =
  sx_cnt :: int
  sx_shrd_cv :: cv
  sx_shrd_wcnt :: int
  sx_excl_cv :: cv
  sx_excl_wcnt :: int
  sx_xholder :: "ptr option"

definition sx_init :: sx where
  "sx_init = \<lparr>sx_cnt = 0, sx_shrd_cv = cv_init, sx_shrd_wcnt = 0, sx_excl_cv = cv_init, sx_excl_wcnt = 0, sx_xholder = None\<rparr>"

datatype turn = Got | Slept

text \<open>One turn of the loop of \<open>_sx_slock\<close>, and the rest of the turn after cv_wait.\<close>

definition sx_slock :: "ptr \<Rightarrow> sx \<Rightarrow> turn \<times> sx" where
  "sx_slock td sx =
     (if sx_cnt sx < 0
      then (Slept, sx\<lparr>sx_shrd_wcnt := sx_shrd_wcnt sx + 1, sx_shrd_cv := cv_waitq_add (sx_shrd_cv sx) td\<rparr>)
      else (Got, sx\<lparr>sx_cnt := sx_cnt sx + 1\<rparr>))"

definition sx_slock_woken :: "ptr \<Rightarrow> sx \<Rightarrow> turn \<times> sx" where
  "sx_slock_woken td sx = sx_slock td (sx\<lparr>sx_shrd_wcnt := sx_shrd_wcnt sx - 1\<rparr>)"

definition sx_try_slock :: "sx \<Rightarrow> bool \<times> sx" where
  "sx_try_slock sx = (if 0 \<le> sx_cnt sx then (True, sx\<lparr>sx_cnt := sx_cnt sx + 1\<rparr>) else (False, sx))"

definition sx_xlock :: "ptr \<Rightarrow> sx \<Rightarrow> turn \<times> sx" where
  "sx_xlock td sx =
     (if sx_cnt sx \<noteq> 0
      then (Slept, sx\<lparr>sx_excl_wcnt := sx_excl_wcnt sx + 1, sx_excl_cv := cv_waitq_add (sx_excl_cv sx) td\<rparr>)
      else (Got, sx\<lparr>sx_cnt := sx_cnt sx - 1, sx_xholder := Some td\<rparr>))"

definition sx_xlock_woken :: "ptr \<Rightarrow> sx \<Rightarrow> turn \<times> sx" where
  "sx_xlock_woken td sx = sx_xlock td (sx\<lparr>sx_excl_wcnt := sx_excl_wcnt sx - 1\<rparr>)"

definition sx_try_xlock :: "ptr \<Rightarrow> sx \<Rightarrow> bool \<times> sx" where
  "sx_try_xlock td sx =
     (if sx_cnt sx = 0 then (True, sx\<lparr>sx_cnt := sx_cnt sx - 1, sx_xholder := Some td\<rparr>) else (False, sx))"

text \<open>The unlocking calls return the threads they wake, of the shared and of the exclusive queue.\<close>

definition wake_shrd :: "sx \<Rightarrow> (ptr list \<times> ptr list) \<times> sx" where
  "wake_shrd sx = (case cv_broadcast (sx_shrd_cv sx) of (w, c) \<Rightarrow> ((w, []), sx\<lparr>sx_shrd_cv := c\<rparr>))"

definition wake_excl :: "sx \<Rightarrow> (ptr list \<times> ptr list) \<times> sx" where
  "wake_excl sx = (case cv_signal (sx_excl_cv sx) of (w, c) \<Rightarrow> (([], w), sx\<lparr>sx_excl_cv := c\<rparr>))"

definition sx_sunlock :: "sx \<Rightarrow> (ptr list \<times> ptr list) \<times> sx" where
  "sx_sunlock sx =
     (let sx1 = sx\<lparr>sx_cnt := sx_cnt sx - 1\<rparr>
      in if 0 < sx_excl_wcnt sx1 then (if sx_cnt sx1 = 0 then wake_excl sx1 else (([], []), sx1))
         else if 0 < sx_shrd_wcnt sx1 then wake_shrd sx1
         else (([], []), sx1))"

definition sx_xunlock :: "sx \<Rightarrow> (ptr list \<times> ptr list) \<times> sx" where
  "sx_xunlock sx =
     (let sx1 = sx\<lparr>sx_cnt := sx_cnt sx + 1, sx_xholder := None\<rparr>
      in if 0 < sx_shrd_wcnt sx1 then wake_shrd sx1
         else if 0 < sx_excl_wcnt sx1 then wake_excl sx1
         else (([], []), sx1))"

definition sx_try_upgrade :: "ptr \<Rightarrow> sx \<Rightarrow> bool \<times> sx" where
  "sx_try_upgrade td sx =
     (if sx_cnt sx = 1 then (True, sx\<lparr>sx_cnt := -1, sx_xholder := Some td\<rparr>) else (False, sx))"

definition sx_downgrade :: "sx \<Rightarrow> (ptr list \<times> ptr list) \<times> sx" where
  "sx_downgrade sx =
     (let sx1 = sx\<lparr>sx_cnt := 1, sx_xholder := None\<rparr>
      in if 0 < sx_shrd_wcnt sx1 then wake_shrd sx1 else (([], []), sx1))"

section \<open>Threads that use the lock\<close>

text \<open>Who holds the lock, and the threads woken from either queue that have not yet run.\<close>

record sx_world =
  w_sx :: sx
  w_readers :: "ptr multiset"
  w_writer :: "ptr option"
  w_shrd :: "ptr list"
  w_excl :: "ptr list"

definition sx_world0 :: sx_world where
  "sx_world0 = \<lparr>w_sx = sx_init, w_readers = {#}, w_writer = None, w_shrd = [], w_excl = []\<rparr>"

datatype sx_call = Slock | TrySlock | Xlock | TryXlock | Sunlock | Xunlock | TryUpgrade | Downgrade

text \<open>A thread sleeping or woken is inside a call; a thread that is not may call what its holdings allow.\<close>

definition sx_waiting :: "ptr \<Rightarrow> sx_world \<Rightarrow> bool" where
  "sx_waiting td w \<longleftrightarrow> td \<in> set (cv_waitq (sx_shrd_cv (w_sx w))) \<union> set (cv_waitq (sx_excl_cv (w_sx w))) \<union> set (w_shrd w) \<union> set (w_excl w)"

definition sx_may :: "sx_call \<Rightarrow> ptr \<Rightarrow> sx_world \<Rightarrow> bool" where
  "sx_may c td w \<longleftrightarrow> \<not> sx_waiting td w \<and>
     (case c of
        Sunlock \<Rightarrow> td \<in># w_readers w | TryUpgrade \<Rightarrow> td \<in># w_readers w
      | Xunlock \<Rightarrow> w_writer w = Some td | Downgrade \<Rightarrow> w_writer w = Some td
      | _ \<Rightarrow> w_writer w \<noteq> Some td)"

definition got_shared :: "ptr \<Rightarrow> bool \<Rightarrow> sx \<Rightarrow> sx_world \<Rightarrow> sx_world" where
  "got_shared td b sx w = (if b then w\<lparr>w_sx := sx, w_readers := add_mset td (w_readers w)\<rparr> else w\<lparr>w_sx := sx\<rparr>)"

definition got_excl :: "ptr \<Rightarrow> bool \<Rightarrow> sx \<Rightarrow> sx_world \<Rightarrow> sx_world" where
  "got_excl td b sx w = (if b then w\<lparr>w_sx := sx, w_writer := Some td\<rparr> else w\<lparr>w_sx := sx\<rparr>)"

definition woke :: "(ptr list \<times> ptr list) \<times> sx \<Rightarrow> sx_world \<Rightarrow> sx_world" where
  "woke r w = w\<lparr>w_sx := snd r, w_shrd := w_shrd w @ fst (fst r), w_excl := w_excl w @ snd (fst r)\<rparr>"

definition sx_do :: "sx_call \<Rightarrow> ptr \<Rightarrow> sx_world \<Rightarrow> sx_world" where
  "sx_do c td w =
     (case c of
        Slock \<Rightarrow> (case sx_slock td (w_sx w) of (t, sx) \<Rightarrow> got_shared td (t = Got) sx w)
      | TrySlock \<Rightarrow> (case sx_try_slock (w_sx w) of (b, sx) \<Rightarrow> got_shared td b sx w)
      | Xlock \<Rightarrow> (case sx_xlock td (w_sx w) of (t, sx) \<Rightarrow> got_excl td (t = Got) sx w)
      | TryXlock \<Rightarrow> (case sx_try_xlock td (w_sx w) of (b, sx) \<Rightarrow> got_excl td b sx w)
      | Sunlock \<Rightarrow> woke (sx_sunlock (w_sx w)) (w\<lparr>w_readers := w_readers w - {#td#}\<rparr>)
      | Xunlock \<Rightarrow> woke (sx_xunlock (w_sx w)) (w\<lparr>w_writer := None\<rparr>)
      | TryUpgrade \<Rightarrow> (case sx_try_upgrade td (w_sx w) of
            (True, sx) \<Rightarrow> got_excl td True sx (w\<lparr>w_readers := w_readers w - {#td#}\<rparr>)
          | (False, sx) \<Rightarrow> w)
      | Downgrade \<Rightarrow> woke (sx_downgrade (w_sx w)) (w\<lparr>w_writer := None, w_readers := {#td#}\<rparr>))"

definition sx_woken_shrd :: "ptr \<Rightarrow> sx_world \<Rightarrow> sx_world" where
  "sx_woken_shrd td w = (case sx_slock_woken td (w_sx w) of (t, sx) \<Rightarrow> got_shared td (t = Got) sx (w\<lparr>w_shrd := remove1 td (w_shrd w)\<rparr>))"

definition sx_woken_excl :: "ptr \<Rightarrow> sx_world \<Rightarrow> sx_world" where
  "sx_woken_excl td w = (case sx_xlock_woken td (w_sx w) of (t, sx) \<Rightarrow> got_excl td (t = Got) sx (w\<lparr>w_excl := remove1 td (w_excl w)\<rparr>))"

inductive sx_step :: "sx_world \<Rightarrow> sx_world \<Rightarrow> bool" where
  call: "sx_may c td w \<Longrightarrow> sx_step w (sx_do c td w)"
| woken_shrd: "td \<in> set (w_shrd w) \<Longrightarrow> sx_step w (sx_woken_shrd td w)"
| woken_excl: "td \<in> set (w_excl w) \<Longrightarrow> sx_step w (sx_woken_excl td w)"

inductive_cases sx_stepE: "sx_step w w'"

section \<open>The invariant\<close>

definition sx_counts :: "sx_world \<Rightarrow> bool" where
  "sx_counts w \<longleftrightarrow>
     (case w_writer w of
        None \<Rightarrow> sx_cnt (w_sx w) = int (size (w_readers w)) \<and> sx_xholder (w_sx w) = None
      | Some td \<Rightarrow> sx_cnt (w_sx w) = -1 \<and> sx_xholder (w_sx w) = Some td \<and> w_readers w = {#}) \<and>
     sx_shrd_wcnt (w_sx w) = int (length (cv_waitq (sx_shrd_cv (w_sx w))) + length (w_shrd w)) \<and>
     sx_excl_wcnt (w_sx w) = int (length (cv_waitq (sx_excl_cv (w_sx w))) + length (w_excl w))"

text \<open>Nobody sleeps for a shared lock unless a writer holds it, and when nobody holds it and
  somebody sleeps, somebody else is on the way.\<close>

definition sx_wakes :: "sx_world \<Rightarrow> bool" where
  "sx_wakes w \<longleftrightarrow> (0 \<le> sx_cnt (w_sx w) \<longrightarrow> cv_waitq (sx_shrd_cv (w_sx w)) = []) \<and>
     (sx_cnt (w_sx w) = 0 \<and> cv_waitq (sx_excl_cv (w_sx w)) \<noteq> [] \<longrightarrow> w_shrd w \<noteq> [] \<or> w_excl w \<noteq> [])"

definition sx_ok :: "sx_world \<Rightarrow> bool" where "sx_ok w \<longleftrightarrow> sx_counts w \<and> sx_wakes w"

lemma some_wait: "0 < int (length xs) + int (length ys) \<longleftrightarrow> xs \<noteq> [] \<or> ys \<noteq> []"
  by (cases xs; cases ys) auto

lemmas sx_body_defs = some_wait sx_slock_def sx_slock_woken_def sx_try_slock_def sx_xlock_def sx_xlock_woken_def sx_try_xlock_def
  wake_shrd_def wake_excl_def sx_sunlock_def sx_xunlock_def sx_try_upgrade_def sx_downgrade_def
  got_shared_def got_excl_def woke_def cv_signal_eq cv_broadcast_eq cv_waitq_add_def Let_def

lemma counts_cases:
  assumes "sx_counts w"
  obtains (shared) "w_writer w = None" "sx_cnt (w_sx w) = int (size (w_readers w))" "sx_xholder (w_sx w) = None"
  | (excl) td where "w_writer w = Some td" "sx_cnt (w_sx w) = -1" "sx_xholder (w_sx w) = Some td" "w_readers w = {#}"
  using assms by (auto simp: sx_counts_def split: option.splits)

lemma size_remove: "td \<in># M \<Longrightarrow> int (size (M - {#td#})) = int (size M) - 1"
  by (auto simp: size_Diff_singleton of_nat_diff dest: size_Suc_Diff1 [of td M])

lemma lock_ok:
  assumes "sx_ok w" and "w_writer w \<noteq> Some td"
  shows "sx_ok (sx_do Slock td w)" and "sx_ok (sx_do TrySlock td w)" and "sx_ok (sx_do Xlock td w)" and "sx_ok (sx_do TryXlock td w)"
  using assms(1) by (auto simp: sx_ok_def sx_do_def sx_counts_def sx_wakes_def sx_body_defs split: option.splits)

lemma sole_reader: "td \<in># M \<Longrightarrow> size M = Suc 0 \<Longrightarrow> M - {#td#} = {#}"
  by (metis add_mset_remove_trivial size_1_singleton_mset single_eq_single union_single_eq_member insert_DiffM size_eq_0_iff_empty size_add_mset Suc_inject)

lemma upgrade_ok: "sx_ok w \<Longrightarrow> td \<in># w_readers w \<Longrightarrow> sx_ok (sx_do TryUpgrade td w)"
  by (auto simp: sx_ok_def sx_do_def sx_counts_def sx_wakes_def sx_body_defs sole_reader split: option.splits)

lemma downgrade_ok: "sx_ok w \<Longrightarrow> w_writer w = Some td \<Longrightarrow> sx_ok (sx_do Downgrade td w)"
  by (auto simp: sx_ok_def sx_do_def sx_counts_def sx_wakes_def sx_body_defs)

lemma xunlock_ok: "sx_ok w \<Longrightarrow> w_writer w = Some td \<Longrightarrow> sx_ok (sx_do Xunlock td w)"
  by (auto simp: sx_ok_def sx_do_def sx_counts_def sx_wakes_def sx_body_defs)

lemma sunlock_ok: "sx_ok w \<Longrightarrow> td \<in># w_readers w \<Longrightarrow> sx_ok (sx_do Sunlock td w)"
  by (auto simp: sx_ok_def sx_do_def sx_counts_def sx_wakes_def sx_body_defs size_remove split: option.splits)

lemma do_ok: "sx_ok w \<Longrightarrow> sx_may c td w \<Longrightarrow> sx_ok (sx_do c td w)"
  by (cases c) (auto simp: sx_may_def intro: lock_ok upgrade_ok downgrade_ok xunlock_ok sunlock_ok)

lemma length_remove1_int: "x \<in> set xs \<Longrightarrow> int (length (remove1 x xs)) = int (length xs) - 1"
  using length_pos_if_in_set [of x xs] by (simp add: length_remove1 int_ops(6))

lemma woken_ok:
  "sx_ok w \<Longrightarrow> td \<in> set (w_shrd w) \<Longrightarrow> sx_ok (sx_woken_shrd td w)"
  "sx_ok w \<Longrightarrow> td \<in> set (w_excl w) \<Longrightarrow> sx_ok (sx_woken_excl td w)"
  by (auto simp: sx_ok_def sx_woken_shrd_def sx_woken_excl_def sx_counts_def sx_wakes_def sx_body_defs length_remove1_int split: option.splits)

lemma step_ok: "sx_ok w \<Longrightarrow> sx_step w w' \<Longrightarrow> sx_ok w'"
  by (auto elim!: sx_stepE intro: do_ok woken_ok)

lemma ok_exclusive: "sx_ok w \<Longrightarrow> w_writer w \<noteq> None \<Longrightarrow> w_readers w = {#}"
  by (auto simp: sx_ok_def sx_counts_def)

interpretation sl: rw_lock sx_step sx_ok w_readers w_writer
  by unfold_locales (auto intro: step_ok ok_exclusive)

lemma world0_ok: "sx_ok sx_world0"
  by (simp add: sx_ok_def sx_counts_def sx_wakes_def sx_world0_def sx_init_def cv_init_def)

lemma reach_ok: "sx_step\<^sup>*\<^sup>* sx_world0 w \<Longrightarrow> sx_ok w"
  by (rule sl.reachable_ok [OF _ world0_ok])

lemma free_wakes:
  assumes "sx_ok w" and "w_writer w = None" and "w_readers w = {#}"
    and "cv_waitq (sx_shrd_cv (w_sx w)) \<noteq> [] \<or> cv_waitq (sx_excl_cv (w_sx w)) \<noteq> []"
  shows "w_shrd w \<noteq> [] \<or> w_excl w \<noteq> []"
  using assms by (auto simp: sx_ok_def sx_counts_def sx_wakes_def)

lemma free_gets:
  assumes "sx_ok w" and "w_writer w = None" and "w_readers w = {#}"
  shows "w_readers (sx_woken_shrd td w) = {#td#}" and "w_writer (sx_woken_excl td w) = Some td"
  using assms by (auto simp: sx_ok_def sx_counts_def sx_woken_shrd_def sx_woken_excl_def sx_body_defs)

section \<open>Properties\<close>

text \<open>Two writers meet, the first leaves, and the second is woken but has not run.\<close>

definition contended :: sx_world where "contended = sx_do Xunlock 1 (sx_do Xlock 2 (sx_do Xlock 1 sx_world0))"

lemma contended_reachable: "sx_step\<^sup>*\<^sup>* sx_world0 contended"
proof -
  have "sx_step sx_world0 (sx_do Xlock 1 sx_world0)" by (rule sx_step.call) code_simp
  moreover have "sx_step (sx_do Xlock 1 sx_world0) (sx_do Xlock 2 (sx_do Xlock 1 sx_world0))"
    by (rule sx_step.call) code_simp
  moreover have "sx_step (sx_do Xlock 2 (sx_do Xlock 1 sx_world0)) (sx_do Xunlock 1 (sx_do Xlock 2 (sx_do Xlock 1 sx_world0)))"
    by (rule sx_step.call) code_simp
  ultimately show ?thesis unfolding contended_def by (meson rtranclp.intros)
qed

lemma contended_eq:
  "contended = \<lparr>w_sx = \<lparr>sx_cnt = 0, sx_shrd_cv = \<lparr>cv_waitq = []\<rparr>, sx_shrd_wcnt = 0, sx_excl_cv = \<lparr>cv_waitq = []\<rparr>,
      sx_excl_wcnt = 1, sx_xholder = None\<rparr>, w_readers = {#}, w_writer = None, w_shrd = [], w_excl = [2]\<rparr>"
  by code_simp

text \<open>C24: Whatever the threads do, the count in the lock is the number of shared holds, or -1 with the holder recorded
  while one thread holds the lock exclusively and nobody holds it shared, and the two wait counts are the threads sleeping or woken.\<close>

theorem sx_reachable_ok:
  assumes "sx_step\<^sup>*\<^sup>* sx_world0 w"
  shows "(case w_writer w of
      None \<Rightarrow> sx_cnt (w_sx w) = int (size (w_readers w)) \<and> sx_xholder (w_sx w) = None
    | Some td \<Rightarrow> sx_cnt (w_sx w) = -1 \<and> sx_xholder (w_sx w) = Some td \<and> w_readers w = {#}) \<and>
    sx_shrd_wcnt (w_sx w) = int (length (cv_waitq (sx_shrd_cv (w_sx w))) + length (w_shrd w)) \<and>
    sx_excl_wcnt (w_sx w) = int (length (cv_waitq (sx_excl_cv (w_sx w))) + length (w_excl w))"
  using reach_ok [OF assms] unfolding sx_ok_def sx_counts_def by blast

lemma sx_reachable_ok_witness: "sx_excl_wcnt (w_sx contended) = 1"
  using sx_reachable_ok [OF contended_reachable] by (simp add: contended_eq)

text \<open>C12: When nobody holds the lock and some thread sleeps for it, a woken thread has yet to run, and every woken thread
  gets the lock if it is the next to run: no wakeup is lost.\<close>

theorem sx_no_lost_wakeup:
  assumes "sx_step\<^sup>*\<^sup>* sx_world0 w" and "w_writer w = None" and "w_readers w = {#}"
    and "cv_waitq (sx_shrd_cv (w_sx w)) \<noteq> [] \<or> cv_waitq (sx_excl_cv (w_sx w)) \<noteq> []"
  shows "(w_shrd w \<noteq> [] \<or> w_excl w \<noteq> []) \<and>
    (\<forall>td\<in>set (w_shrd w). sx_step w (sx_woken_shrd td w) \<and> w_readers (sx_woken_shrd td w) = {#td#}) \<and>
    (\<forall>td\<in>set (w_excl w). sx_step w (sx_woken_excl td w) \<and> w_writer (sx_woken_excl td w) = Some td)"
  using free_wakes [OF reach_ok [OF assms(1)] assms(2-4)] free_gets [OF reach_ok [OF assms(1)] assms(2,3)]
  by (auto intro: sx_step.intros)

text \<open>A third writer sleeps as well before the first leaves.\<close>

definition queued :: sx_world where
  "queued = sx_do Xunlock 1 (sx_do Xlock 3 (sx_do Xlock 2 (sx_do Xlock 1 sx_world0)))"

lemma queued_reachable: "sx_step\<^sup>*\<^sup>* sx_world0 queued"
proof -
  have "sx_step sx_world0 (sx_do Xlock 1 sx_world0)" by (rule sx_step.call) code_simp
  moreover have "sx_step (sx_do Xlock 1 sx_world0) (sx_do Xlock 2 (sx_do Xlock 1 sx_world0))"
    by (rule sx_step.call) code_simp
  moreover have "sx_step (sx_do Xlock 2 (sx_do Xlock 1 sx_world0)) (sx_do Xlock 3 (sx_do Xlock 2 (sx_do Xlock 1 sx_world0)))"
    by (rule sx_step.call) code_simp
  moreover have "sx_step (sx_do Xlock 3 (sx_do Xlock 2 (sx_do Xlock 1 sx_world0))) queued"
    unfolding queued_def by (rule sx_step.call) code_simp
  ultimately show ?thesis by (meson rtranclp.intros)
qed

lemma queued_eq:
  "queued = \<lparr>w_sx = \<lparr>sx_cnt = 0, sx_shrd_cv = \<lparr>cv_waitq = []\<rparr>, sx_shrd_wcnt = 0, sx_excl_cv = \<lparr>cv_waitq = [3]\<rparr>,
      sx_excl_wcnt = 2, sx_xholder = None\<rparr>, w_readers = {#}, w_writer = None, w_shrd = [], w_excl = [2]\<rparr>"
  by code_simp

lemma sx_no_lost_wakeup_witness: "w_writer (sx_woken_excl 2 queued) = Some 2"
  using sx_no_lost_wakeup [OF queued_reachable] by (simp add: queued_eq)

text \<open>What a thread reads while it holds the lock shared does not change, if the data is only written by a thread
  that holds the lock exclusively, whatever the other threads do with the lock meanwhile.\<close>

theorem sx_reader_stable:
  assumes "sx_step\<^sup>*\<^sup>* sx_world0 w" and "rw_lock.run sx_step w_writer ((w, d) # zs)"
    and "\<forall>(w', d')\<in>set ((w, d) # zs). td \<in># w_readers w'"
    and "(w', d') \<in> set zs"
  shows "d' = d"
proof -
  have "td \<in># w_readers (fst z)" if "z \<in> set ((w, d) # zs)" for z
    using assms(3) that by (cases z) auto
  then show ?thesis
    using sl.reader_stable [of "(w, d)" zs td "(w', d')", OF assms(2)] reach_ok [OF assms(1)] assms(4) by simp
qed

lemma sx_reader_stable_witness:
  "\<exists>d :: nat. rw_lock.run sx_step w_writer [(sx_do Slock 3 sx_world0, 7), (sx_do Slock 4 (sx_do Slock 3 sx_world0), d)] \<and> d = 7"
proof -
  have r: "sx_step\<^sup>*\<^sup>* sx_world0 (sx_do Slock 3 sx_world0)"
    by (rule r_into_rtranclp, rule sx_step.call) code_simp
  have "sx_step (sx_do Slock 3 sx_world0) (sx_do Slock 4 (sx_do Slock 3 sx_world0))"
    by (rule sx_step.call) code_simp
  then have u: "rw_lock.run sx_step w_writer [(sx_do Slock 3 sx_world0, 7), (sx_do Slock 4 (sx_do Slock 3 sx_world0), 7 :: nat)]"
    by (simp add: sl.use.lock_step)
  have m: "\<forall>(w', d')\<in>set [(sx_do Slock 3 sx_world0, 7 :: nat), (sx_do Slock 4 (sx_do Slock 3 sx_world0), 7)]. 3 \<in># w_readers w'"
    by simp code_simp
  show ?thesis using sx_reader_stable [OF r u m, of "sx_do Slock 4 (sx_do Slock 3 sx_world0)" 7] u by auto
qed

text \<open>A reader holds the lock, a writer sleeps, and another reader comes before the first leaves, for ever.\<close>

definition starve0 :: sx_world where "starve0 = sx_do Xlock 9 (sx_do Slock 1 sx_world0)"

fun starve :: "nat \<Rightarrow> sx_world" where
  "starve n = (if n mod 4 = 0 then starve0
     else if n mod 4 = 1 then sx_do Slock 2 starve0
     else if n mod 4 = 2 then sx_do Sunlock 1 (sx_do Slock 2 starve0)
     else sx_do Slock 1 (sx_do Sunlock 1 (sx_do Slock 2 starve0)))"

declare starve.simps [simp del]


lemma starve_round: "sx_do Sunlock 2 (sx_do Slock 1 (sx_do Sunlock 1 (sx_do Slock 2 starve0))) = starve0"
  by code_simp

lemma starve_steps:
  "sx_step starve0 (sx_do Slock 2 starve0)"
  "sx_step (sx_do Slock 2 starve0) (sx_do Sunlock 1 (sx_do Slock 2 starve0))"
  "sx_step (sx_do Sunlock 1 (sx_do Slock 2 starve0)) (sx_do Slock 1 (sx_do Sunlock 1 (sx_do Slock 2 starve0)))"
  "sx_step (sx_do Slock 1 (sx_do Sunlock 1 (sx_do Slock 2 starve0))) starve0"
proof -
  show "sx_step starve0 (sx_do Slock 2 starve0)"
    "sx_step (sx_do Slock 2 starve0) (sx_do Sunlock 1 (sx_do Slock 2 starve0))"
    "sx_step (sx_do Sunlock 1 (sx_do Slock 2 starve0)) (sx_do Slock 1 (sx_do Sunlock 1 (sx_do Slock 2 starve0)))"
    by (rule sx_step.call, code_simp)+
  have "sx_may Sunlock 2 (sx_do Slock 1 (sx_do Sunlock 1 (sx_do Slock 2 starve0)))" by code_simp
  from sx_step.call [OF this] show "sx_step (sx_do Slock 1 (sx_do Sunlock 1 (sx_do Slock 2 starve0))) starve0"
    by (simp only: starve_round)
qed

lemma mod4_cases: obtains "n mod 4 = (0::nat)" | "n mod 4 = 1" | "n mod 4 = 2" | "n mod 4 = 3"
  using mod_less_divisor [of 4 n] by linarith

lemma starve_step: "sx_step (starve n) (starve (Suc n))"
  by (rule mod4_cases [of n]) (simp_all add: starve.simps mod_Suc starve_steps del: One_nat_def)

lemma starve_sleeper: "cv_waitq (sx_excl_cv (w_sx (starve n))) = [9]"
proof -
  have "cv_waitq (sx_excl_cv (w_sx starve0)) = [9]" "cv_waitq (sx_excl_cv (w_sx (sx_do Slock 2 starve0))) = [9]"
    "cv_waitq (sx_excl_cv (w_sx (sx_do Sunlock 1 (sx_do Slock 2 starve0)))) = [9]"
    "cv_waitq (sx_excl_cv (w_sx (sx_do Slock 1 (sx_do Sunlock 1 (sx_do Slock 2 starve0))))) = [9]"
    by code_simp+
  then show ?thesis by (simp add: starve.simps)
qed

lemma starve_reachable: "sx_step\<^sup>*\<^sup>* sx_world0 (starve 0)"
proof -
  have "sx_step sx_world0 (sx_do Slock 1 sx_world0)" by (rule sx_step.call) code_simp
  moreover have "sx_step (sx_do Slock 1 sx_world0) starve0" unfolding starve0_def by (rule sx_step.call) code_simp
  ultimately show ?thesis unfolding starve.simps by (simp add: converse_rtranclp_into_rtranclp)
qed

text \<open>New shared lockers get the lock while a thread sleeps for it exclusively, so two threads that lock and unlock in
  turns keep the sleeper out forever: the precedence of exclusive waiters at an unlock does not bound their wait.\<close>

theorem sx_writer_starves:
  "\<exists>f. sx_step\<^sup>*\<^sup>* sx_world0 (f 0) \<and> (\<forall>n. sx_step (f n) (f (Suc n))) \<and> (\<forall>n. 9 \<in> set (cv_waitq (sx_excl_cv (w_sx (f n)))))"
  by (rule exI [of _ starve]) (simp add: starve_reachable starve_step starve_sleeper)

end
