(* ===== verification/Kern_Sema.thy ===== *)
theory Kern_Sema
  imports Kern_Sx
begin

text \<open>
  The counting semaphores of kern/kern_sema.c, in the steps between two sleeps, as in Kern_Sx: sema_wait and
  sema_timedwait run until they have the semaphore, fail, or sleep; a sleeping thread is woken by a post, or by its timeout.
\<close>

section \<open>The code\<close>

record sema =
  sema_cv :: cv
  sema_waiters :: int
  sema_value :: int

definition sema_init :: "int \<Rightarrow> sema" where
  "sema_init value = \<lparr>sema_cv = cv_init, sema_waiters = 0, sema_value = value\<rparr>"

definition sema_post :: "sema \<Rightarrow> ptr list \<times> sema" where
  "sema_post s =
     (let s1 = s\<lparr>sema_value := sema_value s + 1\<rparr>
      in if sema_waiters s1 \<noteq> 0 \<and> 0 < sema_value s1
         then (case cv_signal (sema_cv s1) of (w, c) \<Rightarrow> (w, s1\<lparr>sema_cv := c\<rparr>))
         else ([], s1))"

text \<open>The result is None when the thread went to sleep, and otherwise the return value, 1 for sema_wait.\<close>

definition sema_sleep :: "ptr \<Rightarrow> sema \<Rightarrow> int option \<times> sema" where
  "sema_sleep td s = (None, s\<lparr>sema_waiters := sema_waiters s + 1, sema_cv := cv_waitq_add (sema_cv s) td\<rparr>)"

definition sema_wait :: "ptr \<Rightarrow> sema \<Rightarrow> int option \<times> sema" where
  "sema_wait td s = (if sema_value s = 0 then sema_sleep td s else (Some 1, s\<lparr>sema_value := sema_value s - 1\<rparr>))"

definition sema_wait_woken :: "ptr \<Rightarrow> sema \<Rightarrow> int option \<times> sema" where
  "sema_wait_woken td s = sema_wait td (s\<lparr>sema_waiters := sema_waiters s - 1\<rparr>)"

definition sema_trywait :: "sema \<Rightarrow> int option \<times> sema" where
  "sema_trywait s = (if 0 < sema_value s then (Some 1, s\<lparr>sema_value := sema_value s - 1\<rparr>) else (Some 0, s))"

definition sema_timedwait :: "ptr \<Rightarrow> bool \<Rightarrow> sema \<Rightarrow> int option \<times> sema" where
  "sema_timedwait td timed_out s = (if sema_value s = 0 \<and> \<not> timed_out then sema_sleep td s else sema_trywait s)"

definition sema_timedwait_woken :: "ptr \<Rightarrow> bool \<Rightarrow> sema \<Rightarrow> int option \<times> sema" where
  "sema_timedwait_woken td timed_out s = sema_timedwait td timed_out (s\<lparr>sema_waiters := sema_waiters s - 1\<rparr>)"

section \<open>Threads that use the semaphore\<close>

text \<open>The posts and the successful waits so far, the threads in a timed wait, and those woken by a post and by a timeout that have not yet run.\<close>

record sema_world =
  w_sema :: sema
  w_posts :: int
  w_takes :: int
  w_timed :: "ptr set"
  w_signalled :: "ptr list"
  w_timedout :: "ptr list"

definition sema_world0 :: "int \<Rightarrow> sema_world" where
  "sema_world0 v = \<lparr>w_sema = sema_init v, w_posts = 0, w_takes = 0, w_timed = {}, w_signalled = [], w_timedout = []\<rparr>"

definition sema_idle :: "ptr \<Rightarrow> sema_world \<Rightarrow> bool" where
  "sema_idle td w \<longleftrightarrow> td \<notin> set (cv_waitq (sema_cv (w_sema w))) \<union> set (w_signalled w) \<union> set (w_timedout w)"

definition took :: "int option \<times> sema \<Rightarrow> sema_world \<Rightarrow> sema_world" where
  "took r w = w\<lparr>w_sema := snd r, w_takes := w_takes w + (if fst r = Some 1 then 1 else 0)\<rparr>"

definition sema_run_signalled :: "ptr \<Rightarrow> sema_world \<Rightarrow> sema_world" where
  "sema_run_signalled td w =
     took (if td \<in> w_timed w then sema_timedwait_woken td False (w_sema w) else sema_wait_woken td (w_sema w))
       (w\<lparr>w_signalled := remove1 td (w_signalled w)\<rparr>)"

inductive sema_step :: "sema_world \<Rightarrow> sema_world \<Rightarrow> bool" where
  post: "sema_step w (w\<lparr>w_sema := snd (sema_post (w_sema w)), w_posts := w_posts w + 1,
           w_signalled := w_signalled w @ fst (sema_post (w_sema w))\<rparr>)"
| wait: "sema_idle td w \<Longrightarrow> sema_step w (took (sema_wait td (w_sema w)) (w\<lparr>w_timed := w_timed w - {td}\<rparr>))"
| trywait: "sema_idle td w \<Longrightarrow> sema_step w (took (sema_trywait (w_sema w)) w)"
| timedwait: "sema_idle td w \<Longrightarrow> sema_step w (took (sema_timedwait td False (w_sema w)) (w\<lparr>w_timed := insert td (w_timed w)\<rparr>))"
| timeout: "td \<in> w_timed w \<Longrightarrow> td \<in> set (cv_waitq (sema_cv (w_sema w))) \<Longrightarrow>
    sema_step w (w\<lparr>w_sema := (w_sema w)\<lparr>sema_cv := cv_waitq_remove td (sema_cv (w_sema w))\<rparr>, w_timedout := td # w_timedout w\<rparr>)"
| signalled: "td \<in> set (w_signalled w) \<Longrightarrow> sema_step w (sema_run_signalled td w)"
| timedout: "td \<in> set (w_timedout w) \<Longrightarrow>
    sema_step w (took (sema_timedwait_woken td True (w_sema w)) (w\<lparr>w_timedout := remove1 td (w_timedout w)\<rparr>))"

inductive_cases sema_stepE: "sema_step w w'"

section \<open>The invariant\<close>

text \<open>While threads sleep the value is at most the number of threads that were signalled and have yet to run.\<close>

definition sema_ok :: "int \<Rightarrow> sema_world \<Rightarrow> bool" where
  "sema_ok v w \<longleftrightarrow> (let s = w_sema w; q = cv_waitq (sema_cv s) in
     0 \<le> sema_value s \<and> sema_value s + w_takes w = v + w_posts w \<and>
     sema_waiters s = int (length q) + int (length (w_signalled w)) + int (length (w_timedout w)) \<and>
     (q \<noteq> [] \<longrightarrow> sema_value s \<le> int (length (w_signalled w))))"

lemmas sema_defs = sema_ok_def Let_def took_def sema_sleep_def sema_wait_def sema_wait_woken_def sema_trywait_def sema_timedwait_def
  sema_timedwait_woken_def sema_run_signalled_def sema_post_def cv_waitq_add_def cv_waitq_remove_def cv_signal_eq length_remove1_int

lemma sema_step_ok: "sema_ok v w \<Longrightarrow> sema_step w w' \<Longrightarrow> sema_ok v w'"
proof (elim sema_stepE)
  assume ok: "sema_ok v w"
    and w': "w' = w\<lparr>w_sema := snd (sema_post (w_sema w)), w_posts := w_posts w + 1, w_signalled := w_signalled w @ fst (sema_post (w_sema w))\<rparr>"
  show "sema_ok v w'" using ok unfolding w' by (cases "cv_waitq (sema_cv (w_sema w))") (auto simp: sema_defs)
qed (auto simp: sema_defs)

lemma sema_reachable_ok:
  assumes "sema_step\<^sup>*\<^sup>* (sema_world0 v) w" and "0 \<le> v"
  shows "sema_ok v w"
  using assms(1)
proof (induction rule: rtranclp_induct)
  case base
  show ?case using assms(2) by (simp add: sema_world0_def sema_init_def cv_init_def sema_defs)
qed (rule sema_step_ok)

text \<open>C28: However posts, waits, timed waits and timeouts interleave, successful waits and the value account for the initial value and the
  posts, so no post counts twice; and when the value is positive while a thread sleeps, a signalled thread has yet to run, which then
  succeeds if it runs next.\<close>

theorem sema_no_lost_post:
  assumes "sema_step\<^sup>*\<^sup>* (sema_world0 v) w" and "0 \<le> v"
  shows "0 \<le> sema_value (w_sema w) \<and> sema_value (w_sema w) + w_takes w = v + w_posts w \<and>
    (0 < sema_value (w_sema w) \<and> cv_waitq (sema_cv (w_sema w)) \<noteq> [] \<longrightarrow> w_signalled w \<noteq> []) \<and>
    (\<forall>td\<in>set (w_signalled w). sema_step w (sema_run_signalled td w) \<and>
       (0 < sema_value (w_sema w) \<longrightarrow> w_takes (sema_run_signalled td w) = w_takes w + 1))"
proof (intro conjI ballI)
  fix td assume "td \<in> set (w_signalled w)"
  then show "sema_step w (sema_run_signalled td w)" by (rule sema_step.signalled)
qed (use sema_reachable_ok [OF assms] in \<open>auto simp: sema_defs\<close>)

definition sema_busy :: sema_world where
  "sema_busy = \<lparr>w_sema = \<lparr>sema_cv = \<lparr>cv_waitq = []\<rparr>, sema_waiters = 1, sema_value = 1\<rparr>, w_posts = 1, w_takes = 0, w_timed = {}, w_signalled = [7], w_timedout = []\<rparr>"

lemma sema_no_lost_post_witness: "w_takes (sema_run_signalled 7 sema_busy) = 1"
proof -
  let ?w = "took (sema_wait 7 (w_sema (sema_world0 0))) ((sema_world0 0)\<lparr>w_timed := w_timed (sema_world0 0) - {7}\<rparr>)"
  have "sema_step (sema_world0 0) ?w"
    by (rule sema_step.wait) (simp add: sema_idle_def sema_world0_def sema_init_def cv_init_def)
  moreover have "sema_step ?w sema_busy"
  proof -
    have "sema_busy = ?w\<lparr>w_sema := snd (sema_post (w_sema ?w)), w_posts := w_posts ?w + 1, w_signalled := w_signalled ?w @ fst (sema_post (w_sema ?w))\<rparr>"
      by (simp add: sema_busy_def sema_world0_def sema_init_def cv_init_def sema_defs)
    then show ?thesis using sema_step.post [of ?w] by simp
  qed
  ultimately have "sema_step\<^sup>*\<^sup>* (sema_world0 0) sema_busy" by (meson rtranclp.intros)
  from sema_no_lost_post [OF this] show ?thesis by (simp add: sema_busy_def)
qed

end
