(* ===== verification/Kern_Lockf.thy ===== *)
theory Kern_Lockf
  imports Kern_Prelude
begin

text \<open>
  The advisory byte-range locks of kern/kern_lockf.c. A lock is a struct lockf at an address; the locks on a file are
  a list from the head in its inode, in which lf_next is the order; the field lf_next is kept for a request that waits, where it is the
  lock that blocks it. The pointer \<open>prev\<close> of the code is where a list is cut in two. \<open>lf_asleep\<close> holds the threads that sleep
  in \<open>lf_setlock\<close>, each with its wait channel, the request, and \<open>lf_ready\<close> those that a wakeup has made runnable and that have not run
  yet; a step of the code ends where it sleeps. \<open>p_threads\<close> and \<open>lf_p_pid\<close> are the threads and the id of a process.
\<close>

section \<open>Data\<close>

datatype lock_type = F_RDLCK | F_UNLCK | F_WRLCK

text \<open>A file offset is a 64-bit signed integer; \<open>off_t\<close> is the value an addition stores.\<close>

definition OFF_MAX :: int where "OFF_MAX = 2 ^ 63 - 1"

definition off_t :: "int \<Rightarrow> int" where "off_t x = (x + 2 ^ 63) mod 2 ^ 64 - 2 ^ 63"

lemma off_t_id: "- (2 ^ 63) \<le> x \<Longrightarrow> x \<le> OFF_MAX \<Longrightarrow> off_t x = x" by (simp add: off_t_def OFF_MAX_def)

definition F_WAIT :: u16 where "F_WAIT = 0x010"
definition F_FLOCK :: u16 where "F_FLOCK = 0x020"
definition F_POSIX :: u16 where "F_POSIX = 0x040"

record lockf =
  lf_flags :: u16
  lf_type :: lock_type
  lf_start :: int
  lf_end :: int
  lf_id :: ptr
  lf_head :: ptr
  lf_next :: "ptr option"
  lf_blkhd :: "ptr list"

record lockfs =
  lf_heap :: "ptr \<rightharpoonup> lockf"
  lf_brk :: ptr
  lf_lists :: "ptr \<Rightarrow> ptr list"
  lf_asleep :: "(ptr \<times> ptr) list"
  lf_ready :: "(ptr \<times> ptr) list"
  p_threads :: "ptr \<Rightarrow> ptr list"
  lf_p_pid :: "ptr \<Rightarrow> int"

definition the_lf :: "lockfs \<Rightarrow> ptr \<Rightarrow> lockf" where "the_lf s a = the (lf_heap s a)"

definition put_lf :: "ptr \<Rightarrow> lockf \<Rightarrow> lockfs \<Rightarrow> lockfs" where "put_lf a l s = s\<lparr>lf_heap := (lf_heap s)(a \<mapsto> l)\<rparr>"

definition free_lf :: "ptr \<Rightarrow> lockfs \<Rightarrow> lockfs" where "free_lf a s = s\<lparr>lf_heap := (lf_heap s)(a := None)\<rparr>"

definition new_lf :: "lockf \<Rightarrow> lockfs \<Rightarrow> ptr \<times> lockfs" where
  "new_lf l s = (lf_brk s, s\<lparr>lf_heap := (lf_heap s)(lf_brk s \<mapsto> l), lf_brk := Suc (lf_brk s)\<rparr>)"

definition has_flag :: "lockf \<Rightarrow> u16 \<Rightarrow> bool" where "has_flag l f \<longleftrightarrow> lf_flags l AND f \<noteq> 0"

section \<open>Overlaps\<close>

datatype whose = SELF | OTHERS

datatype overlap = NoOverlap | Equal | Contains | Contained | Before | After | Overlap_panic

text \<open>The chain of tests on one lock of the list, \<open>lf\<close>, against the wanted one.\<close>

definition lf_overlap :: "lockf \<Rightarrow> lockf \<Rightarrow> overlap" where
  "lf_overlap lf lock =
     (let start = lf_start lock; stop = lf_end lock in
      if (lf_end lf \<noteq> -1 \<and> lf_end lf < start) \<or> (stop \<noteq> -1 \<and> stop < lf_start lf) then NoOverlap
      else if lf_start lf = start \<and> lf_end lf = stop then Equal
      else if lf_start lf \<le> start \<and> stop \<noteq> -1 \<and> (stop \<le> lf_end lf \<or> lf_end lf = -1) then Contains
      else if start \<le> lf_start lf \<and> (stop = -1 \<or> (lf_end lf \<noteq> -1 \<and> lf_end lf \<le> stop)) then Contained
      else if lf_start lf < start \<and> (start \<le> lf_end lf \<or> lf_end lf = -1) then Before
      else if start < lf_start lf \<and> stop \<noteq> -1 \<and> (stop < lf_end lf \<or> lf_end lf = -1) then After
      else Overlap_panic)"

text \<open>The first lock of the list from some point on that overlaps: the case, and how many locks come before it.\<close>

fun lf_findoverlap :: "lockfs \<Rightarrow> ptr list \<Rightarrow> lockf \<Rightarrow> whose \<Rightarrow> overlap \<times> nat" where
  "lf_findoverlap s [] lock type = (NoOverlap, 0)"
| "lf_findoverlap s (a # as) lock type =
     (let lf = the_lf s a; further = apsnd Suc (lf_findoverlap s as lock type) in
      if (type = SELF \<and> lf_id lf \<noteq> lf_id lock) \<or> (type = OTHERS \<and> lf_id lf = lf_id lock) then further
      else if lf_overlap lf lock = NoOverlap
      then (if type = SELF \<and> lf_end lock \<noteq> -1 \<and> lf_end lock < lf_start lf then (NoOverlap, 0) else further)
      else (lf_overlap lf lock, 0))"

lemma findoverlap_bound: "fst (lf_findoverlap s as lock type) \<noteq> NoOverlap \<Longrightarrow> snd (lf_findoverlap s as lock type) < length as"
  by (induction s as lock type rule: lf_findoverlap.induct) (auto simp: Let_def split: if_splits)

lemma findoverlap_shorter:
  assumes "x = lf_findoverlap s as lock type" and "(ov, n) = x" and "ov \<noteq> NoOverlap"
  shows "length as - Suc n < length as"
proof (cases as)
  case Nil
  then show ?thesis using assms by simp
next
  case (Cons a as')
  show ?thesis unfolding Cons by simp
qed

function lf_getblock :: "lockfs \<Rightarrow> ptr list \<Rightarrow> lockf \<Rightarrow> ptr option" where
  "lf_getblock s as lock =
     (let (ov, n) = lf_findoverlap s as lock OTHERS in
      if ov = NoOverlap then None
      else if lf_type lock = F_WRLCK \<or> lf_type (the_lf s (as ! n)) = F_WRLCK then Some (as ! n)
      else lf_getblock s (drop (Suc n) as) lock)"
  by pat_completeness auto
termination
  by (relation "measure (\<lambda>(s, as, _). length as)") (simp_all add: findoverlap_shorter)

declare lf_getblock.simps [simp del]

section \<open>Wakeups\<close>

definition wakeup :: "ptr \<Rightarrow> lockfs \<Rightarrow> lockfs" where
  "wakeup chan s = s\<lparr>lf_ready := lf_ready s @ filter (\<lambda>(p, l). l = chan) (lf_asleep s),
                      lf_asleep := filter (\<lambda>(p, l). l \<noteq> chan) (lf_asleep s)\<rparr>"

function lf_wakelock :: "ptr \<Rightarrow> lockfs \<Rightarrow> lockfs" where
  "lf_wakelock listhead s =
     (case lf_blkhd (the_lf s listhead) of
        [] \<Rightarrow> s
      | w # ws \<Rightarrow>
          let s1 = put_lf listhead ((the_lf s listhead)\<lparr>lf_blkhd := ws\<rparr>) s;
              s2 = put_lf w ((the_lf s1 w)\<lparr>lf_next := None\<rparr>) s1
          in lf_wakelock listhead (wakeup w s2))"
  by pat_completeness auto
termination
  by (relation "measure (\<lambda>(a, s). length (lf_blkhd (the_lf s a)))") (auto simp: the_lf_def put_lf_def wakeup_def)

declare lf_wakelock.simps [simp del]

section \<open>Setting a lock\<close>

text \<open>lf_split returns the part of the list that takes the place of \<open>lock1\<close>.\<close>

definition lf_split :: "ptr \<Rightarrow> ptr \<Rightarrow> lockfs \<Rightarrow> ptr list \<times> lockfs" where
  "lf_split lock1 lock2 s =
     (let l1 = the_lf s lock1; l2 = the_lf s lock2 in
      if lf_start l1 = lf_start l2 then ([lock2, lock1], put_lf lock1 (l1\<lparr>lf_start := off_t (lf_end l2 + 1)\<rparr>) s)
      else if lf_end l1 = lf_end l2 then ([lock1, lock2], put_lf lock1 (l1\<lparr>lf_end := off_t (lf_start l2 - 1)\<rparr>) s)
      else let (splitlock, s1) = new_lf (l1\<lparr>lf_start := off_t (lf_end l2 + 1), lf_blkhd := []\<rparr>) s in
           ([lock1, lock2, splitlock], put_lf lock1 (l1\<lparr>lf_end := off_t (lf_start l2 - 1)\<rparr>) s1))"

text \<open>The loop that moves the requests blocked on \<open>overlap\<close> to the new lock.\<close>

function lf_take_blocked :: "ptr \<Rightarrow> ptr \<Rightarrow> lockfs \<Rightarrow> lockfs" where
  "lf_take_blocked overlap lock s =
     (case lf_blkhd (the_lf s overlap) of
        [] \<Rightarrow> s
      | w # ws \<Rightarrow>
          if overlap = lock then s
          else
            let s1 = put_lf overlap ((the_lf s overlap)\<lparr>lf_blkhd := ws\<rparr>) s;
                s2 = put_lf lock ((the_lf s1 lock)\<lparr>lf_blkhd := lf_blkhd (the_lf s1 lock) @ [w]\<rparr>) s1;
                s3 = put_lf w ((the_lf s2 w)\<lparr>lf_next := Some lock\<rparr>) s2
            in lf_take_blocked overlap lock s3)"
  by pat_completeness auto
termination
  by (relation "measure (\<lambda>(a, _, s). length (lf_blkhd (the_lf s a)))") (auto simp: the_lf_def put_lf_def)

declare lf_take_blocked.simps [simp del]

text \<open>The loop that puts a lock that nothing blocks on the list: \<open>before_prev\<close> is the list up to \<open>prev\<close>, \<open>as\<close> the rest from there.\<close>

function lf_link :: "ptr \<Rightarrow> bool \<Rightarrow> ptr list \<Rightarrow> ptr list \<Rightarrow> lockfs \<Rightarrow> ptr list \<times> lockfs" where
  "lf_link lock needtolink before_prev as s =
     (let l = the_lf s lock; (ov, n) = lf_findoverlap s as l SELF; pre = before_prev @ take n as in
      if ov = NoOverlap then (if needtolink then pre @ lock # drop n as else before_prev @ as, s)
      else let overlap = as ! n; o_l = the_lf s overlap; next_as = drop (Suc n) as in
      case ov of
        Equal \<Rightarrow>
          let s1 = (if lf_type l = F_RDLCK \<and> lf_type o_l = F_WRLCK then lf_wakelock overlap s else s);
              s2 = put_lf overlap ((the_lf s1 overlap)\<lparr>lf_type := lf_type l\<rparr>) s1
          in (before_prev @ as, free_lf lock s2)
      | Contains \<Rightarrow>
          if lf_type o_l = lf_type l then (before_prev @ as, free_lf lock s)
          else if lf_start o_l = lf_start l
          then (pre @ lock # overlap # next_as, lf_wakelock overlap (put_lf overlap (o_l\<lparr>lf_start := off_t (lf_end l + 1)\<rparr>) s))
          else let (parts, s1) = lf_split overlap lock s in (pre @ parts @ next_as, lf_wakelock overlap s1)
      | Contained \<Rightarrow>
          let s1 = (if lf_type l = F_RDLCK \<and> lf_type o_l = F_WRLCK then lf_wakelock overlap s else lf_take_blocked overlap lock s) in
          lf_link lock False (if needtolink then pre @ [lock] else pre) next_as (free_lf overlap s1)
      | Before \<Rightarrow>
          let s1 = put_lf overlap (o_l\<lparr>lf_end := off_t (lf_start l - 1)\<rparr>) s in
          lf_link lock False (pre @ [overlap, lock]) next_as (lf_wakelock overlap s1)
      | After \<Rightarrow>
          (pre @ (if needtolink then [lock] else []) @ overlap # next_as, lf_wakelock overlap (put_lf overlap (o_l\<lparr>lf_start := off_t (lf_end l + 1)\<rparr>) s))
      | _ \<Rightarrow> (before_prev @ as, s))"
  by pat_completeness auto
termination
  by (relation "measure (\<lambda>(_, _, _, as, _). length as)") (simp_all add: findoverlap_shorter)

declare lf_link.simps [simp del]

section \<open>Clearing\<close>

function lf_unlink :: "ptr \<Rightarrow> ptr list \<Rightarrow> ptr list \<Rightarrow> lockfs \<Rightarrow> ptr list \<times> lockfs" where
  "lf_unlink unlock before_prev as s =
     (let l = the_lf s unlock; (ov, n) = lf_findoverlap s as l SELF; pre = before_prev @ take n as in
      if ov = NoOverlap then (before_prev @ as, s)
      else let overlap = as ! n; s1 = lf_wakelock overlap s; o_l = the_lf s1 overlap; next_as = drop (Suc n) as in
      case ov of
        Equal \<Rightarrow> (pre @ next_as, free_lf overlap s1)
      | Contains \<Rightarrow>
          if lf_start o_l = lf_start l then (pre @ overlap # next_as, put_lf overlap (o_l\<lparr>lf_start := off_t (lf_end l + 1)\<rparr>) s1)
          else let (parts, s2) = lf_split overlap unlock s1 in (pre @ remove1 unlock parts @ next_as, s2)
      | Contained \<Rightarrow> lf_unlink unlock pre next_as (free_lf overlap s1)
      | Before \<Rightarrow> lf_unlink unlock (pre @ [overlap]) next_as (put_lf overlap (o_l\<lparr>lf_end := off_t (lf_start l - 1)\<rparr>) s1)
      | After \<Rightarrow> (pre @ overlap # next_as, put_lf overlap (o_l\<lparr>lf_start := off_t (lf_end l + 1)\<rparr>) s1)
      | _ \<Rightarrow> (before_prev @ as, s))"
  by pat_completeness auto
termination
  by (relation "measure (\<lambda>(_, _, as, _). length as)") (simp_all add: findoverlap_shorter)

declare lf_unlink.simps [simp del]

definition set_list :: "ptr \<Rightarrow> ptr list \<Rightarrow> lockfs \<Rightarrow> lockfs" where "set_list h L s = s\<lparr>lf_lists := (lf_lists s)(h := L)\<rparr>"

definition lf_clearlock :: "ptr \<Rightarrow> lockfs \<Rightarrow> lockfs" where
  "lf_clearlock unlock s =
     (let h = lf_head (the_lf s unlock) in
      if lf_lists s h = [] then s
      else case lf_unlink unlock [] (lf_lists s h) s of (L, s1) \<Rightarrow> set_list h L s1)"


section \<open>The request that is blocked\<close>

text \<open>
  Deadlock detection: the inner while loop for one thread, with the counter \<open>i\<close>, and the loop over the threads of a process. The wait channel
  of a thread is looked up among the sleepers. A thread that a signal or a timeout ends the sleep of is a sleeper here until it runs; in the code its
  channel is cleared when it is woken, so that between the two the walk may stop at it. The only difference it can make is whether
  the caller gets EDEADLK or sleeps.
\<close>

definition MAXDEPTH :: nat where "MAXDEPTH = 50"

definition td_wchan :: "lockfs \<Rightarrow> ptr \<Rightarrow> ptr option" where "td_wchan s td = map_of (lf_asleep s) td"

function lf_chase :: "lockfs \<Rightarrow> lockf \<Rightarrow> ptr \<Rightarrow> nat \<Rightarrow> bool \<times> nat" where
  "lf_chase s lock td i =
     (case td_wchan s td of
        None \<Rightarrow> (False, i)
      | Some w \<Rightarrow>
          if \<not> i < MAXDEPTH then (False, Suc i)
          else let waitblock = the_lf s (the (lf_next (the_lf s w))) in
            if \<not> has_flag waitblock F_POSIX then (False, Suc i)
            else if lf_id waitblock = lf_id lock then (True, Suc i)
            else lf_chase s lock td (Suc i))"
  by pat_completeness auto
termination
  by (relation "measure (\<lambda>(_, _, _, i). MAXDEPTH - i)") auto

declare lf_chase.simps [simp del]

fun lf_chase_threads :: "lockfs \<Rightarrow> lockf \<Rightarrow> ptr list \<Rightarrow> nat \<Rightarrow> bool" where
  "lf_chase_threads s lock [] i = False"
| "lf_chase_threads s lock (td # tds) i =
     (case lf_chase s lock td i of (deadlock, i1) \<Rightarrow> deadlock \<or> lf_chase_threads s lock tds i1)"

definition lf_deadlock :: "lockfs \<Rightarrow> lockf \<Rightarrow> lockf \<Rightarrow> bool" where
  "lf_deadlock s lock block \<longleftrightarrow>
     has_flag lock F_POSIX \<and> has_flag block F_POSIX \<and> lf_chase_threads s lock (p_threads s (lf_id block)) 0"

datatype lf_result = Returns err | Sleeps

text \<open>One turn of lf_setlock by the thread \<open>td\<close>: to its return, or to its call of tsleep.\<close>

definition lf_setlock :: "ptr \<Rightarrow> ptr \<Rightarrow> lockfs \<Rightarrow> lf_result \<times> lockfs" where
  "lf_setlock td lock s =
     (let l = the_lf s lock; h = lf_head l in
      case lf_getblock s (lf_lists s h) l of
        None \<Rightarrow> (case lf_link lock True [] (lf_lists s h) s of (L, s1) \<Rightarrow> (Returns None, set_list h L s1))
      | Some block \<Rightarrow>
          if \<not> has_flag l F_WAIT then (Returns (Some EAGAIN), free_lf lock s)
          else if lf_deadlock s l (the_lf s block) then (Returns (Some EDEADLK), free_lf lock s)
          else
            let s1 = (if has_flag l F_FLOCK \<and> lf_type l = F_WRLCK
                      then let s0 = lf_clearlock lock (put_lf lock (l\<lparr>lf_type := F_UNLCK\<rparr>) s)
                           in put_lf lock ((the_lf s0 lock)\<lparr>lf_type := F_WRLCK\<rparr>) s0
                      else s);
                s2 = put_lf lock ((the_lf s1 lock)\<lparr>lf_next := Some block\<rparr>) s1;
                s3 = put_lf block ((the_lf s2 block)\<lparr>lf_blkhd := lf_blkhd (the_lf s2 block) @ [lock]\<rparr>) s2
            in (Sleeps, s3\<lparr>lf_asleep := lf_asleep s3 @ [(td, lock)]\<rparr>))"

text \<open>The thread comes back from tsleep with \<open>e\<close>, after a wakeup, a signal or a debugger's continue.\<close>

definition lf_setlock_woken :: "ptr \<Rightarrow> ptr \<Rightarrow> err \<Rightarrow> lockfs \<Rightarrow> lf_result \<times> lockfs" where
  "lf_setlock_woken td lock e s =
     (let s0 = s\<lparr>lf_asleep := removeAll (td, lock) (lf_asleep s), lf_ready := removeAll (td, lock) (lf_ready s)\<rparr>;
          s1 = (case lf_next (the_lf s0 lock) of
                  None \<Rightarrow> s0
                | Some b \<Rightarrow>
                    let s' = put_lf b ((the_lf s0 b)\<lparr>lf_blkhd := remove1 lock (lf_blkhd (the_lf s0 b))\<rparr>) s0
                    in put_lf lock ((the_lf s' lock)\<lparr>lf_next := None\<rparr>) s')
      in case e of
           Some er \<Rightarrow> (Returns (Some er), free_lf lock s1)
         | None \<Rightarrow> lf_setlock td lock s1)"

section \<open>The call\<close>

datatype whence = SEEK_SET | SEEK_CUR | SEEK_END | Whence_other int

record flock =
  l_start :: int
  l_len :: int
  l_pid :: int
  l_type :: lock_type
  l_whence :: whence

definition lf_getlock :: "ptr \<Rightarrow> flock \<Rightarrow> lockfs \<Rightarrow> flock" where
  "lf_getlock lock fl s =
     (let l = the_lf s lock in
      case lf_getblock s (lf_lists s (lf_head l)) l of
        None \<Rightarrow> fl\<lparr>l_type := F_UNLCK\<rparr>
      | Some block \<Rightarrow>
          let b = the_lf s block in
          fl\<lparr>l_type := lf_type b, l_whence := SEEK_SET, l_start := lf_start b,
             l_len := (if lf_end b = -1 then 0 else off_t (off_t (lf_end b - lf_start b) + 1)),
             l_pid := (if has_flag b F_POSIX then lf_p_pid s (lf_id b) else -1)\<rparr>)"

text \<open>The conversion of the flock structure into a start and an end.\<close>

definition lf_range :: "flock \<Rightarrow> int \<Rightarrow> errno + int \<times> int" where
  "lf_range fl fsize =
     (let from = (\<lambda>start.
        if start < 0 then Inl EINVAL
        else if l_len fl < 0
        then (if start = 0 then Inl EINVAL
              else if off_t (start + l_len fl) < 0 then Inl EINVAL
              else Inr (off_t (start + l_len fl), start - 1))
        else if l_len fl = 0 then Inr (start, -1)
        else if l_len fl - 1 > OFF_MAX - start then Inl EOVERFLOW
        else Inr (start, off_t (start + (l_len fl - 1)))) in
      case l_whence fl of
        SEEK_SET \<Rightarrow> from (l_start fl)
      | SEEK_CUR \<Rightarrow> from (l_start fl)
      | SEEK_END \<Rightarrow>
          if fsize > OFF_MAX \<or> (l_start fl > 0 \<and> fsize > OFF_MAX - l_start fl) then Inl EOVERFLOW
          else from (off_t (fsize + l_start fl))
      | Whence_other w \<Rightarrow> Inl EINVAL)"

datatype lf_op = Op_GETLK | Op_SETLK | Op_UNLCK | Op_other int

definition lf_advlock :: "ptr \<Rightarrow> ptr \<Rightarrow> lf_op \<Rightarrow> flock \<Rightarrow> u32 \<Rightarrow> ptr \<Rightarrow> int \<Rightarrow> lockfs \<Rightarrow> (lf_result \<times> flock) \<times> lockfs" where
  "lf_advlock td owner opn fl flags head fsize s =
     (case lf_range fl fsize of
        Inl e \<Rightarrow> ((Returns (Some e), fl), s)
      | Inr (start, stop) \<Rightarrow>
          if lf_lists s head = [] \<and> opn \<noteq> Op_SETLK then ((Returns None, fl\<lparr>l_type := F_UNLCK\<rparr>), s)
          else
            let (lock, s1) = new_lf \<lparr>lf_flags = ucast flags, lf_type = l_type fl, lf_start = start, lf_end = stop, lf_id = owner,
                                     lf_head = head, lf_next = None, lf_blkhd = []\<rparr> s in
            (case opn of
               Op_SETLK \<Rightarrow> (case lf_setlock td lock s1 of (r, s2) \<Rightarrow> ((r, fl), s2))
             | Op_UNLCK \<Rightarrow> ((Returns None, fl), free_lf lock (lf_clearlock lock s1))
             | Op_GETLK \<Rightarrow> ((Returns None, lf_getlock lock fl s1), free_lf lock s1)
             | Op_other n \<Rightarrow> ((Returns (Some EINVAL), fl), free_lf lock s1)))"

end
