(* ===== verification/Kern_Lockf_Ranges.thy ===== *)
theory Kern_Lockf_Ranges
  imports Kern_Lockf
begin

text \<open>
  What the two loops of kern/kern_lockf.c do to the ranges. A list of locks is read as the set of facts ``owner i holds byte k with type t''
  (\<open>held\<close>); setting a lock overrides the facts of its owner on its bytes, clearing removes them, and the locks of one owner stay disjoint
  and in order.
\<close>

section \<open>Ranges\<close>

definition covers :: "lockf \<Rightarrow> int \<Rightarrow> bool" where "covers l k \<longleftrightarrow> lf_start l \<le> k \<and> (lf_end l = -1 \<or> k \<le> lf_end l)"

definition range_ok :: "lockf \<Rightarrow> bool" where
  "range_ok l \<longleftrightarrow> 0 \<le> lf_start l \<and> lf_start l \<le> OFF_MAX \<and> (lf_end l = -1 \<or> lf_start l \<le> lf_end l \<and> lf_end l < OFF_MAX)"

definition bef :: "lockf \<Rightarrow> lockf \<Rightarrow> bool" where "bef a b \<longleftrightarrow> lf_end a \<noteq> -1 \<and> lf_end a < lf_start b"

definition held :: "lockf set \<Rightarrow> ptr \<Rightarrow> int \<Rightarrow> lock_type \<Rightarrow> bool" where
  "held V i k t \<longleftrightarrow> (\<exists>l \<in> V. lf_id l = i \<and> lf_type l = t \<and> covers l k)"

lemma overlap_none: "lf_overlap a l = NoOverlap \<longleftrightarrow> bef a l \<or> bef l a"
  by (auto simp: lf_overlap_def bef_def Let_def)

lemma overlap_no_panic: "range_ok a \<Longrightarrow> range_ok l \<Longrightarrow> lf_overlap a l \<noteq> Overlap_panic"
  unfolding lf_overlap_def range_ok_def Let_def by (simp split: if_split) arith

lemma overlap_byte: "range_ok a \<Longrightarrow> range_ok b \<Longrightarrow> (bef a b \<or> bef b a) \<longleftrightarrow> (\<forall>k. \<not> (covers a k \<and> covers b k))"
proof
  assume "\<forall>k. \<not> (covers a k \<and> covers b k)" and "range_ok a" and "range_ok b"
  then have "\<not> (covers a (max (lf_start a) (lf_start b)) \<and> covers b (max (lf_start a) (lf_start b)))" by blast
  then show "bef a b \<or> bef b a" using \<open>range_ok a\<close> \<open>range_ok b\<close> unfolding covers_def bef_def range_ok_def
    by (cases "lf_start a \<le> lf_start b") auto
qed (auto simp: bef_def covers_def range_ok_def)

lemma bef_asym: "range_ok a \<Longrightarrow> range_ok b \<Longrightarrow> bef a b \<Longrightarrow> \<not> bef b a"
  by (auto simp: bef_def range_ok_def)

lemma bef_trans: "range_ok b \<Longrightarrow> bef a b \<Longrightarrow> bef b c \<Longrightarrow> bef a c"
  by (auto simp: bef_def range_ok_def)

lemma overlap_equal: "lf_overlap a l = Equal \<Longrightarrow> lf_start a = lf_start l \<and> lf_end a = lf_end l"
  by (auto simp: lf_overlap_def Let_def split: if_splits)

lemma overlap_contains: "lf_overlap a l = Contains \<Longrightarrow>
  lf_start a \<le> lf_start l \<and> lf_end l \<noteq> -1 \<and> (lf_end l \<le> lf_end a \<or> lf_end a = -1) \<and> \<not> (lf_start a = lf_start l \<and> lf_end a = lf_end l)"
  by (auto simp: lf_overlap_def Let_def split: if_splits)

lemma overlap_contained: "lf_overlap a l = Contained \<Longrightarrow>
  lf_start l \<le> lf_start a \<and> (lf_end l = -1 \<or> lf_end a \<noteq> -1 \<and> lf_end a \<le> lf_end l) \<and> \<not> (lf_start a = lf_start l \<and> lf_end a = lf_end l)"
  by (auto simp: lf_overlap_def Let_def split: if_splits)

lemma overlap_before: "lf_overlap a l = Before \<Longrightarrow>
  lf_start a < lf_start l \<and> (lf_start l \<le> lf_end a \<or> lf_end a = -1) \<and> (lf_end l = -1 \<or> lf_end a \<noteq> -1 \<and> lf_end a < lf_end l)"
  by (auto simp: lf_overlap_def Let_def split: if_splits)

lemma overlap_after: "lf_overlap a l = After \<Longrightarrow>
  lf_start l < lf_start a \<and> lf_end l \<noteq> -1 \<and> (lf_end l < lf_end a \<or> lf_end a = -1) \<and> lf_start a \<le> lf_end l"
  by (auto simp: lf_overlap_def Let_def split: if_splits)

lemmas overlap_cases = overlap_equal overlap_contains overlap_contained overlap_before overlap_after

section \<open>The locks of one owner in order\<close>

definition own_order :: "lockfs \<Rightarrow> ptr \<Rightarrow> ptr \<Rightarrow> bool" where
  "own_order s a b \<longleftrightarrow> (lf_id (the_lf s a) = lf_id (the_lf s b) \<longrightarrow> bef (the_lf s a) (the_lf s b))"

definition mine :: "lockfs \<Rightarrow> lockf \<Rightarrow> ptr \<Rightarrow> bool" where "mine s l a \<longleftrightarrow> lf_id (the_lf s a) = lf_id l"

lemma findoverlap_self_found:
  assumes "lf_findoverlap s as l SELF = (ov, n)" and "ov \<noteq> NoOverlap"
  shows "n < length as \<and> mine s l (as ! n) \<and> lf_overlap (the_lf s (as ! n)) l = ov \<and> (\<forall>x \<in> set (take n as). mine s l x \<longrightarrow> bef (the_lf s x) l)"
  using assms
proof (induction as arbitrary: n)
  case Nil
  then show ?case by simp
next
  case (Cons a as)
  obtain ov1 n1 where r: "lf_findoverlap s as l SELF = (ov1, n1)" by fastforce
  show ?case
  proof (cases "lf_id (the_lf s a) = lf_id l \<and> lf_overlap (the_lf s a) l \<noteq> NoOverlap")
    case True
    then show ?thesis using Cons.prems by (auto simp: Let_def mine_def)
  next
    case False
    then have "n = Suc n1" "ov1 = ov" and skip: "mine s l a \<longrightarrow> bef (the_lf s a) l"
      using Cons.prems r by (auto simp: Let_def mine_def overlap_none bef_def split: if_splits)
    then show ?thesis using Cons.IH [of n1] Cons.prems(2) r by simp
  qed
qed

lemma findoverlap_self_none:
  assumes "lf_findoverlap s as l SELF = (NoOverlap, n)" and "sorted_wrt (own_order s) as" and "\<forall>a \<in> set as. range_ok (the_lf s a)" and "range_ok l"
  shows "n \<le> length as \<and> (\<forall>x \<in> set (take n as). mine s l x \<longrightarrow> bef (the_lf s x) l) \<and> (\<forall>x \<in> set (drop n as). mine s l x \<longrightarrow> bef l (the_lf s x))"
  using assms(1-3)
proof (induction as arbitrary: n)
  case Nil
  then show ?case by simp
next
  case (Cons a as)
  obtain ov1 n1 where r: "lf_findoverlap s as l SELF = (ov1, n1)" by fastforce
  show ?case
  proof (cases "mine s l a \<and> lf_end l \<noteq> -1 \<and> lf_end l < lf_start (the_lf s a)")
    case True
    then have "n = 0" using Cons.prems(1) by (auto simp: Let_def mine_def overlap_none bef_def split: if_splits)
    moreover have "\<forall>x \<in> set as. mine s l x \<longrightarrow> bef l (the_lf s x)"
      using True Cons.prems(2,3) by (auto simp: own_order_def mine_def bef_def range_ok_def)
    ultimately show ?thesis using True by (simp add: bef_def)
  next
    case False
    then have "n = Suc n1" "ov1 = NoOverlap" and skip: "mine s l a \<longrightarrow> bef (the_lf s a) l"
      using Cons.prems r by (auto simp: Let_def mine_def overlap_none bef_def split: if_splits)
    then show ?thesis using Cons.IH [of n1] Cons.prems(2,3) r by simp
  qed
qed

section \<open>The blocking lock\<close>

lemma findoverlap_others_none:
  assumes "lf_findoverlap s as l OTHERS = (NoOverlap, n)"
  shows "\<forall>x \<in> set as. \<not> mine s l x \<longrightarrow> lf_overlap (the_lf s x) l = NoOverlap"
  using assms
proof (induction as arbitrary: n)
  case (Cons a as)
  obtain ov1 n1 where r: "lf_findoverlap s as l OTHERS = (ov1, n1)" by fastforce
  then show ?case using Cons by (auto simp: Let_def mine_def split: if_splits)
qed simp

lemma findoverlap_others_found:
  assumes "lf_findoverlap s as l OTHERS = (ov, n)" and "ov \<noteq> NoOverlap"
  shows "n < length as \<and> \<not> mine s l (as ! n) \<and> lf_overlap (the_lf s (as ! n)) l = ov
         \<and> (\<forall>x \<in> set (take n as). \<not> mine s l x \<longrightarrow> lf_overlap (the_lf s x) l = NoOverlap)"
  using assms
proof (induction as arbitrary: n)
  case Nil
  then show ?case by simp
next
  case (Cons a as)
  obtain ov1 n1 where r: "lf_findoverlap s as l OTHERS = (ov1, n1)" by fastforce
  show ?case
  proof (cases "lf_id (the_lf s a) \<noteq> lf_id l \<and> lf_overlap (the_lf s a) l \<noteq> NoOverlap")
    case True
    then show ?thesis using Cons.prems by (auto simp: Let_def mine_def)
  next
    case False
    then have "n = Suc n1" "ov1 = ov" and skip: "\<not> mine s l a \<longrightarrow> lf_overlap (the_lf s a) l = NoOverlap"
      using Cons.prems r by (auto simp: Let_def mine_def overlap_none bef_def split: if_splits)
    then show ?thesis using Cons.IH [of n1] Cons.prems(2) r by simp
  qed
qed

text \<open>The conflict of two locks: different owners, a common byte, and one of them exclusive.\<close>

definition conflict :: "lockf \<Rightarrow> lockf \<Rightarrow> bool" where
  "conflict a l \<longleftrightarrow> lf_id a \<noteq> lf_id l \<and> \<not> bef a l \<and> \<not> bef l a \<and> (lf_type l = F_WRLCK \<or> lf_type a = F_WRLCK)"

lemma getblock_spec:
  "case lf_getblock s as l of
     None \<Rightarrow> \<forall>a \<in> set as. \<not> conflict (the_lf s a) l
   | Some b \<Rightarrow> b \<in> set as \<and> conflict (the_lf s b) l"
proof (induction s as l rule: lf_getblock.induct)
  case (1 s as l)
  obtain ov n where r: "lf_findoverlap s as l OTHERS = (ov, n)" by fastforce
  show ?case
  proof (cases "ov = NoOverlap")
    case True
    then show ?thesis using findoverlap_others_none [of s as l n] r
      by (subst lf_getblock.simps) (auto simp: conflict_def mine_def overlap_none)
  next
    case False
    note f = findoverlap_others_found [OF r False]
    show ?thesis
    proof (cases "lf_type l = F_WRLCK \<or> lf_type (the_lf s (as ! n)) = F_WRLCK")
      case True
      have "lf_getblock s as l = Some (as ! n)" using True False r by (subst lf_getblock.simps) simp
      then show ?thesis using f True False overlap_none [of "the_lf s (as ! n)" l] by (auto simp: conflict_def mine_def)
    next
      case rd: False
      have g: "lf_getblock s as l = lf_getblock s (drop (Suc n) as) l" using rd False r by (subst lf_getblock.simps) simp
      have ih: "case lf_getblock s (drop (Suc n) as) l of
            None \<Rightarrow> \<forall>a \<in> set (drop (Suc n) as). \<not> conflict (the_lf s a) l
          | Some b \<Rightarrow> b \<in> set (drop (Suc n) as) \<and> conflict (the_lf s b) l"
        using "1.IH" [of "(ov, n)" ov n] r False rd by simp
      have "\<not> conflict (the_lf s (as ! n)) l" using rd by (auto simp: conflict_def)
      moreover have "\<forall>x \<in> set (take n as). \<not> conflict (the_lf s x) l" using f by (auto simp: conflict_def mine_def overlap_none)
      moreover have "as = take n as @ as ! n # drop (Suc n) as" using f by (simp add: id_take_nth_drop)
      moreover have "set as = set (take n as) \<union> {as ! n} \<union> set (drop (Suc n) as)" using calculation(3) by (metis Un_insert_right list.simps(15) set_append sup_bot.right_neutral Un_assoc insert_is_Un)
      ultimately show ?thesis using ih g by (auto split: option.splits)
    qed
  qed
qed

end
