(* ===== verification/Kern_Lockf_Wake.thy ===== *)
theory Kern_Lockf_Wake
  imports Kern_Lockf_Ranges "HOL-Library.Multiset"
begin

text \<open>
  What the loops over a queue of blocked requests do to the store, in closed form: \<open>lf_wakelock\<close> empties the queue and makes its
  requests runnable, \<open>lf_take_blocked\<close> moves it. Neither touches a lock's owner, type or range (\<open>core\<close>).
\<close>

definition core :: "lockf \<Rightarrow> lockf" where "core l = l\<lparr>lf_next := None, lf_blkhd := []\<rparr>"

lemma core_eq: "core a = core b \<longleftrightarrow> lf_flags a = lf_flags b \<and> lf_type a = lf_type b \<and> lf_start a = lf_start b \<and> lf_end a = lf_end b
                              \<and> lf_id a = lf_id b \<and> lf_head a = lf_head b"
  by (cases a, cases b) (simp add: core_def)

lemma core_next [simp]: "core (l\<lparr>lf_next := n\<rparr>) = core l" by (simp add: core_def)
lemma core_blkhd [simp]: "core (l\<lparr>lf_blkhd := n\<rparr>) = core l" by (simp add: core_def)

lemma the_put [simp]: "the_lf (put_lf a l s) x = (if x = a then l else the_lf s x)" by (simp add: the_lf_def put_lf_def)
lemma the_free [simp]: "x \<noteq> a \<Longrightarrow> the_lf (free_lf a s) x = the_lf s x" by (simp add: the_lf_def free_lf_def)
lemma dom_put [simp]: "dom (lf_heap (put_lf a l s)) = insert a (dom (lf_heap s))" by (simp add: put_lf_def)
lemma dom_free [simp]: "dom (lf_heap (free_lf a s)) = dom (lf_heap s) - {a}" by (simp add: free_lf_def)
lemma the_wakeup [simp]: "the_lf (wakeup c s) x = the_lf s x" by (simp add: the_lf_def wakeup_def)
lemma the_set_list [simp]: "the_lf (set_list h L s) x = the_lf s x" by (simp add: the_lf_def set_list_def)
lemma heap_wakeup [simp]: "lf_heap (wakeup c s) = lf_heap s" by (simp add: wakeup_def)
lemma heap_set_list [simp]: "lf_heap (set_list h L s) = lf_heap s" by (simp add: set_list_def)

definition env :: "lockfs \<Rightarrow> ptr \<times> (ptr \<Rightarrow> ptr list) \<times> (ptr \<Rightarrow> ptr list) \<times> (ptr \<Rightarrow> int)" where
  "env s = (lf_brk s, lf_lists s, p_threads s, lf_p_pid s)"

definition sched :: "lockfs \<Rightarrow> (ptr \<times> ptr) list \<times> (ptr \<times> ptr) list" where "sched s = (lf_asleep s, lf_ready s)"

lemma env_put [simp]: "env (put_lf a l s) = env s" by (simp add: env_def put_lf_def)
lemma env_free [simp]: "env (free_lf a s) = env s" by (simp add: env_def free_lf_def)
lemma env_wakeup [simp]: "env (wakeup c s) = env s" by (simp add: env_def wakeup_def)
lemma sched_put [simp]: "sched (put_lf a l s) = sched s" by (simp add: sched_def put_lf_def)
lemma sched_free [simp]: "sched (free_lf a s) = sched s" by (simp add: sched_def free_lf_def)
lemma sched_set_list [simp]: "sched (set_list h L s) = sched s" by (simp add: sched_def set_list_def)

lemma asleep_put [simp]: "lf_asleep (put_lf a l s) = lf_asleep s" "lf_ready (put_lf a l s) = lf_ready s" by (simp_all add: put_lf_def)
lemma asleep_free [simp]: "lf_asleep (free_lf a s) = lf_asleep s" "lf_ready (free_lf a s) = lf_ready s" by (simp_all add: free_lf_def)
lemma asleep_set_list [simp]: "lf_asleep (set_list h L s) = lf_asleep s" "lf_ready (set_list h L s) = lf_ready s" by (simp_all add: set_list_def)

section \<open>lf_wakelock\<close>

lemma wakelock_nil: "lf_blkhd (the_lf s a) = [] \<Longrightarrow> lf_wakelock a s = s" by (subst lf_wakelock.simps) simp

lemma wakelock_cons:
  "lf_blkhd (the_lf s a) = w # ws \<Longrightarrow>
     lf_wakelock a s = lf_wakelock a (wakeup w (put_lf w ((if w = a then (the_lf s a)\<lparr>lf_blkhd := ws\<rparr> else the_lf s w)\<lparr>lf_next := None\<rparr>)
                                                        (put_lf a ((the_lf s a)\<lparr>lf_blkhd := ws\<rparr>) s)))"
  by (subst lf_wakelock.simps) (simp add: Let_def)

lemma wakelock_core: "core (the_lf (lf_wakelock a s) x) = core (the_lf s x)" and wakelock_env: "env (lf_wakelock a s) = env s"
proof -
  have "core (the_lf (lf_wakelock a s) x) = core (the_lf s x) \<and> env (lf_wakelock a s) = env s"
  proof (induction a s rule: lf_wakelock.induct)
    case (1 a s)
    show ?case
    proof (cases "lf_blkhd (the_lf s a)")
      case Nil
      then show ?thesis by (simp add: wakelock_nil)
    next
      case (Cons w ws)
      note IH = "1.IH" [OF Cons refl refl]
      show ?thesis using IH by (simp add: wakelock_cons [OF Cons] split: if_splits)
    qed
  qed
  then show "core (the_lf (lf_wakelock a s) x) = core (the_lf s x)" and "env (lf_wakelock a s) = env s" by auto
qed

lemma wakelock_store:
  assumes "lf_blkhd (the_lf s a) = q" and "a \<notin> set q"
  shows "the_lf (lf_wakelock a s) x =
           (if x = a then (the_lf s a)\<lparr>lf_blkhd := []\<rparr> else if x \<in> set q then (the_lf s x)\<lparr>lf_next := None\<rparr> else the_lf s x)"
  using assms
proof (induction a s arbitrary: q rule: lf_wakelock.induct)
  case (1 a s)
  show ?case
  proof (cases q)
    case Nil
    then show ?thesis using "1.prems" by (simp add: wakelock_nil)
  next
    case (Cons w ws)
    have q: "lf_blkhd (the_lf s a) = w # ws" using "1.prems" Cons by simp
    have wa: "w \<noteq> a" using "1.prems" Cons by auto
    note IH = "1.IH" [OF q refl refl, of ws]
    show ?thesis using IH "1.prems" Cons by (simp add: wakelock_cons [OF q] wa wa [symmetric])
  qed
qed

lemma wakelock_dom:
  assumes "insert a (set (lf_blkhd (the_lf s a))) \<subseteq> dom (lf_heap s)" and "a \<notin> set (lf_blkhd (the_lf s a))"
  shows "dom (lf_heap (lf_wakelock a s)) = dom (lf_heap s)"
  using assms
proof (induction a s rule: lf_wakelock.induct)
  case (1 a s)
  show ?case
  proof (cases "lf_blkhd (the_lf s a)")
    case Nil
    then show ?thesis by (simp add: wakelock_nil)
  next
    case (Cons w ws)
    have wa: "w \<noteq> a" using "1.prems" Cons by auto
    have ins: "insert w (insert a (dom (lf_heap s))) = dom (lf_heap s)" using "1.prems" Cons by auto
    show ?thesis using "1.IH" [OF Cons refl refl] "1.prems" Cons by (simp add: wakelock_cons wa wa [symmetric] ins)
  qed
qed

definition threads_of :: "lockfs \<Rightarrow> (ptr \<times> ptr) multiset" where "threads_of s = mset (lf_asleep s) + mset (lf_ready s)"

lemma threads_put [simp]: "threads_of (put_lf a l s) = threads_of s" by (simp add: threads_of_def)
lemma threads_free [simp]: "threads_of (free_lf a s) = threads_of s" by (simp add: threads_of_def)
lemma threads_set_list [simp]: "threads_of (set_list h L s) = threads_of s" by (simp add: threads_of_def)

lemma threads_wakeup [simp]: "threads_of (wakeup w s) = threads_of s"
proof -
  have p: "filter (\<lambda>(t, l). l \<noteq> w) xs = filter (\<lambda>x. \<not> (case x of (t, l) \<Rightarrow> l = w)) xs" for xs :: "(ptr \<times> ptr) list"
    by (rule filter_cong) auto
  have "mset (filter (\<lambda>(t, l). l \<noteq> w) xs) + mset (filter (\<lambda>(t, l). l = w) xs) = mset xs" for xs :: "(ptr \<times> ptr) list"
    unfolding p by (simp add: multiset_partition [symmetric] add.commute)
  from this [of "lf_asleep s"] show ?thesis by (simp add: threads_of_def wakeup_def ac_simps)
qed

lemma wakelock_threads: "threads_of (lf_wakelock a s) = threads_of s"
proof (induction a s rule: lf_wakelock.induct)
  case (1 a s)
  show ?case
  proof (cases "lf_blkhd (the_lf s a)")
    case Nil
    then show ?thesis by (simp add: wakelock_nil)
  next
    case (Cons w ws)
    show ?thesis using "1.IH" [OF Cons refl refl] by (simp add: wakelock_cons [OF Cons] split: if_splits)
  qed
qed

lemma wakeup_sched:
  "set (lf_asleep (wakeup w s)) = {(t, l) \<in> set (lf_asleep s). l \<noteq> w}"
  "set (lf_ready (wakeup w s)) = set (lf_ready s) \<union> {(t, l) \<in> set (lf_asleep s). l = w}"
  by (auto simp: wakeup_def)

lemma wakelock_sched:
  assumes "lf_blkhd (the_lf s a) = q" and "a \<notin> set q"
  shows "set (lf_asleep (lf_wakelock a s)) = {(t, l) \<in> set (lf_asleep s). l \<notin> set q}
         \<and> set (lf_ready (lf_wakelock a s)) = set (lf_ready s) \<union> {(t, l) \<in> set (lf_asleep s). l \<in> set q}"
  using assms
proof (induction a s arbitrary: q rule: lf_wakelock.induct)
  case (1 a s)
  show ?case
  proof (cases q)
    case Nil
    then show ?thesis using "1.prems" by (simp add: wakelock_nil)
  next
    case (Cons w ws)
    have q: "lf_blkhd (the_lf s a) = w # ws" using "1.prems" Cons by simp
    have wa: "w \<noteq> a" using "1.prems" Cons by auto
    show ?thesis using "1.IH" [OF q refl refl, of ws] "1.prems" wa Cons
      by (auto simp: wakelock_cons [OF q] wakeup_sched)
  qed
qed

section \<open>lf_take_blocked\<close>

lemma take_nil: "lf_blkhd (the_lf s a) = [] \<or> a = l \<Longrightarrow> lf_take_blocked a l s = s"
  by (subst lf_take_blocked.simps) (auto split: list.splits)

lemma take_cons:
  "lf_blkhd (the_lf s a) = w # ws \<Longrightarrow> a \<noteq> l \<Longrightarrow>
     lf_take_blocked a l s =
       (let s2 = put_lf l ((the_lf s l)\<lparr>lf_blkhd := lf_blkhd (the_lf s l) @ [w]\<rparr>) (put_lf a ((the_lf s a)\<lparr>lf_blkhd := ws\<rparr>) s)
        in lf_take_blocked a l (put_lf w ((the_lf s2 w)\<lparr>lf_next := Some l\<rparr>) s2))"
  by (subst lf_take_blocked.simps) (simp add: Let_def)

lemma take_core: "core (the_lf (lf_take_blocked a l s) x) = core (the_lf s x)"
  and take_env: "env (lf_take_blocked a l s) = env s" and take_sched: "sched (lf_take_blocked a l s) = sched s"
proof -
  have "core (the_lf (lf_take_blocked a l s) x) = core (the_lf s x) \<and> env (lf_take_blocked a l s) = env s \<and> sched (lf_take_blocked a l s) = sched s"
  proof (induction a l s rule: lf_take_blocked.induct)
    case (1 a l s)
    show ?case
    proof (cases "lf_blkhd (the_lf s a) = [] \<or> a = l")
      case True
      then show ?thesis by (simp add: take_nil)
    next
      case False
      then obtain w ws where q: "lf_blkhd (the_lf s a) = w # ws" "a \<noteq> l" by (cases "lf_blkhd (the_lf s a)") auto
      show ?thesis using "1.IH" [OF q refl refl refl] q(2) q(2) [symmetric] by (simp add: take_cons [OF q] Let_def split: if_splits)
    qed
  qed
  then show "core (the_lf (lf_take_blocked a l s) x) = core (the_lf s x)" "env (lf_take_blocked a l s) = env s"
    "sched (lf_take_blocked a l s) = sched s" by auto
qed

lemma take_store:
  assumes "lf_blkhd (the_lf s a) = q" and "a \<notin> set q" and "l \<notin> set q" and "a \<noteq> l"
  shows "the_lf (lf_take_blocked a l s) x =
           (if x = a then (the_lf s a)\<lparr>lf_blkhd := []\<rparr> else if x = l then (the_lf s l)\<lparr>lf_blkhd := lf_blkhd (the_lf s l) @ q\<rparr>
            else if x \<in> set q then (the_lf s x)\<lparr>lf_next := Some l\<rparr> else the_lf s x)
         \<and> (insert a (insert l (set q)) \<subseteq> dom (lf_heap s) \<longrightarrow> dom (lf_heap (lf_take_blocked a l s)) = dom (lf_heap s))"
  using assms
proof (induction a l s arbitrary: q rule: lf_take_blocked.induct)
  case (1 a l s)
  show ?case
  proof (cases q)
    case Nil
    then show ?thesis using "1.prems" by (simp add: take_nil)
  next
    case (Cons w ws)
    have q: "lf_blkhd (the_lf s a) = w # ws" using "1.prems" Cons by simp
    have ne: "w \<noteq> a" "w \<noteq> l" "a \<noteq> l" using "1.prems" Cons by auto
    note IH = "1.IH" [OF q \<open>a \<noteq> l\<close> refl refl refl, of ws]
    have ins: "insert a (insert l (set q)) \<subseteq> dom (lf_heap s) \<Longrightarrow> insert w (insert l (insert a (dom (lf_heap s)))) = dom (lf_heap s)"
      using Cons by auto
    show ?thesis using IH "1.prems" ins Cons ne ne(3) [symmetric] by (auto simp: take_cons [OF q] Let_def)
  qed
qed

end
