(* ===== verification/Kern_Lockf_Link.thy ===== *)
theory Kern_Lockf_Link
  imports Kern_Lockf_Wake
begin

text \<open>
  The ranges that the loop of \<open>lf_setlock\<close> leaves: its state between two turns (\<open>link_pre\<close>), that each turn keeps it, and what the
  finished list holds.
\<close>

definition facts :: "lockfs \<Rightarrow> ptr list \<Rightarrow> ptr \<Rightarrow> int \<Rightarrow> lock_type \<Rightarrow> bool" where "facts s L = held (the_lf s ` set L)"

definition listed_ok :: "ptr \<Rightarrow> lockf \<Rightarrow> bool" where
  "listed_ok h l \<longleftrightarrow> range_ok l \<and> lf_head l = h \<and> lf_type l \<noteq> F_UNLCK"

text \<open>A list of locks on the file at \<open>h\<close>: no lock twice, every lock proper, the locks of one owner apart and in order.\<close>

definition list_ok :: "lockfs \<Rightarrow> ptr \<Rightarrow> ptr list \<Rightarrow> bool" where
  "list_ok s h L \<longleftrightarrow> distinct L \<and> (\<forall>x \<in> set L. x < lf_brk s \<and> listed_ok h (the_lf s x)) \<and> sorted_wrt (own_order s) L"

definition link_pre :: "lockfs \<Rightarrow> ptr \<Rightarrow> bool \<Rightarrow> ptr list \<Rightarrow> ptr list \<Rightarrow> bool" where
  "link_pre s lock need bp as \<longleftrightarrow>
     (let l = the_lf s lock in
      distinct (bp @ as) \<and> (\<forall>x \<in> set bp \<union> set as. x < lf_brk s \<and> listed_ok (lf_head l) (the_lf s x)) \<and>
      lock < lf_brk s \<and> range_ok l \<and>
      lock \<notin> set as \<and> (need \<longleftrightarrow> lock \<notin> set bp) \<and>
      sorted_wrt (own_order s) bp \<and> sorted_wrt (own_order s) as \<and>
      (\<forall>x \<in> set bp. x \<noteq> lock \<longrightarrow> (mine s l x \<longrightarrow> bef (the_lf s x) l) \<and> (\<forall>y \<in> set as. own_order s x y)) \<and>
      (\<not> need \<longrightarrow> (\<forall>y \<in> set as. mine s l y \<longrightarrow> lf_start l < lf_start (the_lf s y))))"

lemma core_fields:
  "core a = core b \<Longrightarrow> lf_flags a = lf_flags b" "core a = core b \<Longrightarrow> lf_type a = lf_type b" "core a = core b \<Longrightarrow> lf_start a = lf_start b"
  "core a = core b \<Longrightarrow> lf_end a = lf_end b" "core a = core b \<Longrightarrow> lf_id a = lf_id b" "core a = core b \<Longrightarrow> lf_head a = lf_head b"
  by (simp_all add: core_eq)

lemma core_listed: "core a = core b \<Longrightarrow> listed_ok h a = listed_ok h b" by (simp add: core_eq listed_ok_def range_ok_def)
lemma core_bef: "core a = core b \<Longrightarrow> core c = core d \<Longrightarrow> bef a c = bef b d" by (simp add: core_eq bef_def)
lemma core_covers: "core a = core b \<Longrightarrow> covers a k = covers b k" by (simp add: core_eq covers_def)

definition same_core :: "ptr set \<Rightarrow> lockfs \<Rightarrow> lockfs \<Rightarrow> bool" where
  "same_core A s s' \<longleftrightarrow> (\<forall>x \<in> A. core (the_lf s' x) = core (the_lf s x)) \<and> lf_brk s' = lf_brk s"

lemma same_coreD: "same_core A s s' \<Longrightarrow> x \<in> A \<Longrightarrow> core (the_lf s' x) = core (the_lf s x)" by (simp add: same_core_def)
lemma same_core_brk: "same_core A s s' \<Longrightarrow> lf_brk s' = lf_brk s" by (simp add: same_core_def)

lemma same_core_own: "same_core A s s' \<Longrightarrow> x \<in> A \<Longrightarrow> y \<in> A \<Longrightarrow> own_order s' x y = own_order s x y"
  using core_bef [OF same_coreD [of A s s' x] same_coreD [of A s s' y]] core_fields(5) [OF same_coreD [of A s s' x]]
    core_fields(5) [OF same_coreD [of A s s' y]] by (simp add: own_order_def)

lemma same_core_sym: "same_core A s s' \<Longrightarrow> same_core A s' s" by (simp add: same_core_def)

lemma same_core_sorted1: "same_core A s s' \<Longrightarrow> set L \<subseteq> A \<Longrightarrow> sorted_wrt (own_order s) L \<Longrightarrow> sorted_wrt (own_order s') L"
  by (erule sorted_wrt_mono_rel [rotated]) (meson same_core_own subsetD)

lemma same_core_sorted: "same_core A s s' \<Longrightarrow> set L \<subseteq> A \<Longrightarrow> sorted_wrt (own_order s') L = sorted_wrt (own_order s) L"
  using same_core_sorted1 same_core_sym by blast

lemma same_core_facts: 
  assumes "same_core A s s'" and "set L \<subseteq> A"
  shows "facts s' L = facts s L"
proof (intro ext)
  fix i k t
  have "\<And>x. x \<in> set L \<Longrightarrow> core (the_lf s' x) = core (the_lf s x)" using same_coreD [OF assms(1)] assms(2) by blast
  then have "\<And>x. x \<in> set L \<Longrightarrow> (lf_id (the_lf s' x) = i \<and> lf_type (the_lf s' x) = t \<and> covers (the_lf s' x) k) =
      (lf_id (the_lf s x) = i \<and> lf_type (the_lf s x) = t \<and> covers (the_lf s x) k)"
    using core_covers core_fields by metis
  then show "facts s' L i k t = facts s L i k t" unfolding facts_def held_def by simp
qed

lemma same_core_listed: "same_core A s s' \<Longrightarrow> x \<in> A \<Longrightarrow> listed_ok h (the_lf s' x) = listed_ok h (the_lf s x)"
  by (rule core_listed) (rule same_coreD)

lemma same_core_list_ok:
  assumes "same_core A s s'" and "set L \<subseteq> A"
  shows "list_ok s' h L = list_ok s h L"
proof -
  have "\<forall>x \<in> set L. listed_ok h (the_lf s' x) = listed_ok h (the_lf s x)" using same_core_listed [OF assms(1)] assms(2) by blast
  then show ?thesis unfolding list_ok_def same_core_sorted [OF assms] same_core_brk [OF assms(1)] by simp
qed

lemma same_core_link:
  assumes "same_core A s s'" and "insert lock (set bp \<union> set as) \<subseteq> A"
  shows "link_pre s' lock need bp as = link_pre s lock need bp as"
proof -
  have c: "\<And>x. x \<in> A \<Longrightarrow> core (the_lf s' x) = core (the_lf s x)" using assms(1) by (simp add: same_core_def)
  have lk: "core (the_lf s' lock) = core (the_lf s lock)" using assms(2) c by blast
  have m: "\<forall>x \<in> set bp \<union> set as. mine s' (the_lf s' lock) x = mine s (the_lf s lock) x"
    unfolding mine_def using c lk assms(2) by (metis core_fields(5) insert_subset subsetD)
  have b: "\<forall>x \<in> set bp. bef (the_lf s' x) (the_lf s' lock) = bef (the_lf s x) (the_lf s lock)"
    using assms(2) c lk by (intro ballI core_bef) auto
  have ok: "\<forall>x \<in> set bp \<union> set as. listed_ok (lf_head (the_lf s' lock)) (the_lf s' x) = listed_ok (lf_head (the_lf s lock)) (the_lf s x)"
    "range_ok (the_lf s' lock) = range_ok (the_lf s lock)"
    unfolding core_fields(6) [OF lk] using same_core_listed [OF assms(1)] assms(2) lk by (blast, simp add: core_eq range_ok_def)
  have st: "\<forall>x \<in> set as. lf_start (the_lf s' x) = lf_start (the_lf s x)" "lf_start (the_lf s' lock) = lf_start (the_lf s lock)"
    using c assms(2) lk core_fields(3) by (meson UnI2 insert_subset subsetD)+
  have o: "\<forall>x \<in> set bp. \<forall>y \<in> set as. own_order s' x y = own_order s x y" using same_core_own [OF assms(1)] assms(2) by auto
  have srt: "sorted_wrt (own_order s') bp = sorted_wrt (own_order s) bp" "sorted_wrt (own_order s') as = sorted_wrt (own_order s) as"
    using same_core_sorted [OF assms(1)] assms(2) by auto
  show ?thesis unfolding link_pre_def Let_def srt same_core_brk [OF assms(1)] using m b ok st o by simp
qed

lemma same_core_wake: "same_core A s (lf_wakelock a s)"
  using wakelock_core wakelock_env [of a s] by (simp add: same_core_def env_def)

lemma same_core_take: "same_core A s (lf_take_blocked a l s)"
  using take_core take_env [of a l s] by (simp add: same_core_def env_def)

lemma same_core_free: "a \<notin> A \<Longrightarrow> same_core A s (free_lf a s)"
  using env_free [of a s] unfolding same_core_def env_def by (metis the_free prod.inject)

lemma same_core_trans: "same_core A s t \<Longrightarrow> same_core A t u \<Longrightarrow> same_core A s u"
  by (simp add: same_core_def)

section \<open>One turn\<close>


lemma link_found:
  assumes "link_pre s lock need bp as" and "lf_findoverlap s as (the_lf s lock) SELF = (ov, n)" and "ov \<noteq> NoOverlap"
  shows "as = take n as @ as ! n # drop (Suc n) as" and "mine s (the_lf s lock) (as ! n)" and "lf_overlap (the_lf s (as ! n)) (the_lf s lock) = ov"
    and "\<forall>x \<in> set (take n as). mine s (the_lf s lock) x \<longrightarrow> bef (the_lf s x) (the_lf s lock)"
  using findoverlap_self_found [OF assms(2,3)] by (simp_all add: id_take_nth_drop)

lemma link_pre_ok: "link_pre s lock need bp as \<Longrightarrow> x \<in> insert lock (set bp \<union> set as) \<Longrightarrow> range_ok (the_lf s x)"
  unfolding link_pre_def Let_def listed_ok_def by blast

lemma link_linked_ahead:
  assumes "link_pre s lock False bp as" and "y \<in> set as" and "mine s (the_lf s lock) y"
  shows "\<not> bef (the_lf s y) (the_lf s lock)" and "lf_start (the_lf s lock) < lf_start (the_lf s y)"
proof -
  show *: "lf_start (the_lf s lock) < lf_start (the_lf s y)" using assms unfolding link_pre_def Let_def by blast
  show "\<not> bef (the_lf s y) (the_lf s lock)" using * link_pre_ok [OF assms(1), of y] assms(2) by (auto simp: bef_def range_ok_def)
qed

lemma link_lock_ok: "link_pre s lock need bp as \<Longrightarrow> lf_type (the_lf s lock) \<noteq> F_UNLCK \<Longrightarrow> listed_ok (lf_head (the_lf s lock)) (the_lf s lock)"
  by (simp add: link_pre_def Let_def listed_ok_def)

text \<open>Once the lock is linked only two of the cases are left.\<close>

lemma link_linked_cases:
  assumes "link_pre s lock False bp as" and "lf_findoverlap s as (the_lf s lock) SELF = (ov, n)"
  shows "ov \<in> {NoOverlap, Contained, After}"
proof (cases "ov = NoOverlap")
  case False
  note f = link_found [OF assms False]
  have "as ! n \<in> set as" using f(1) findoverlap_self_found [OF assms(2) False] by simp
  then have "lf_start (the_lf s lock) < lf_start (the_lf s (as ! n))" using link_linked_ahead(2) [OF assms(1) _ f(2)] by blast
  moreover have "ov \<noteq> Overlap_panic"
    using f(3) overlap_no_panic link_pre_ok [OF assms(1)] \<open>as ! n \<in> set as\<close> by (metis Un_iff insert_iff)
  ultimately show ?thesis using f(3) overlap_cases [of "the_lf s (as ! n)" "the_lf s lock"] by (cases ov) auto
qed simp

text \<open>The next own lock starts after the end of the overlap, so after the start of the lock.\<close>

lemma link_next_ahead:
  assumes "link_pre s lock need bp (tk @ v # nx)" and "mine s (the_lf s lock) v" and "\<not> bef (the_lf s v) (the_lf s lock)"
    and "y \<in> set nx" and "mine s (the_lf s lock) y"
  shows "lf_start (the_lf s lock) < lf_start (the_lf s y)" and "lf_end (the_lf s v) \<noteq> -1" and "lf_end (the_lf s v) < lf_start (the_lf s y)"
proof -
  have "own_order s v y" using assms(1,4) by (auto simp: link_pre_def Let_def sorted_wrt_append)
  then have "bef (the_lf s v) (the_lf s y)" using assms(2,5) by (simp add: own_order_def mine_def)
  then show "lf_end (the_lf s v) \<noteq> -1" "lf_end (the_lf s v) < lf_start (the_lf s y)" by (simp_all add: bef_def)
  then show "lf_start (the_lf s lock) < lf_start (the_lf s y)" using assms(3) by (auto simp: bef_def)
qed

lemma own_order_lock: "mine s (the_lf s lock) x \<longrightarrow> bef (the_lf s x) (the_lf s lock) \<Longrightarrow> own_order s x lock"
  by (simp add: own_order_def mine_def)

lemma link_contained:
  assumes "link_pre s lock need bp (tk @ v # nx)" and "mine s (the_lf s lock) v" and "lf_overlap (the_lf s v) (the_lf s lock) = Contained"
    and "\<forall>x \<in> set tk. mine s (the_lf s lock) x \<longrightarrow> bef (the_lf s x) (the_lf s lock)"
    and ty: "lf_type (the_lf s lock) \<noteq> F_UNLCK"
  shows "link_pre s lock False (if need then (bp @ tk) @ [lock] else bp @ tk) nx"
proof -
  note lok = link_lock_ok [OF assms(1) ty]
  have nb: "\<not> bef (the_lf s v) (the_lf s lock)" using assms(3) overlap_none [of "the_lf s v" "the_lf s lock"] by auto
  have ahead: "\<forall>y \<in> set nx. mine s (the_lf s lock) y \<longrightarrow> lf_start (the_lf s lock) < lf_start (the_lf s y)"
    using link_next_ahead(1) [OF assms(1,2) nb] by blast
  show ?thesis
  proof (cases need)
    case True
    then have "own_order s x lock" if "x \<in> set bp \<union> set tk" for x
      using assms(1,4) that by (intro own_order_lock) (auto simp: link_pre_def Let_def)
    then show ?thesis using assms(1,4) True ahead lok by (auto simp: link_pre_def Let_def sorted_wrt_append)
  next
    case False
    then have "\<not> mine s (the_lf s lock) x" if "x \<in> set tk" for x
      using link_linked_ahead(1) [of s lock bp "tk @ v # nx" x] assms(1,4) that by auto
    moreover have "own_order s lock x" if "x \<in> set tk" for x using calculation [OF that] by (simp add: own_order_def mine_def)
    ultimately show ?thesis using assms(1,4) False ahead by (auto simp: link_pre_def Let_def sorted_wrt_append)
  qed
qed

abbreviation cut_end :: "ptr \<Rightarrow> int \<Rightarrow> lockfs \<Rightarrow> lockfs" where "cut_end v e s \<equiv> put_lf v ((the_lf s v)\<lparr>lf_end := e\<rparr>) s"
abbreviation cut_start :: "ptr \<Rightarrow> int \<Rightarrow> lockfs \<Rightarrow> lockfs" where "cut_start v b s \<equiv> put_lf v ((the_lf s v)\<lparr>lf_start := b\<rparr>) s"

lemma brk_put [simp]: "lf_brk (put_lf a l s) = lf_brk s" by (simp add: put_lf_def)
lemma brk_free [simp]: "lf_brk (free_lf a s) = lf_brk s" by (simp add: free_lf_def)

lemma cut_end_order: "x \<noteq> v \<Longrightarrow> own_order (cut_end v e s) x y = own_order s x y"
  by (simp add: own_order_def bef_def)

lemma cut_start_order: "y \<noteq> v \<Longrightarrow> own_order (cut_start v b s) x y = own_order s x y"
  by (simp add: own_order_def bef_def)

lemma cut_start_order_to: "own_order s x v \<Longrightarrow> x \<noteq> v \<Longrightarrow> lf_start (the_lf s v) \<le> b \<Longrightarrow> own_order (cut_start v b s) x v"
  by (auto simp: own_order_def bef_def)

lemma cut_end_sorted: "v \<notin> set L \<Longrightarrow> sorted_wrt (own_order (cut_end v e s)) L = sorted_wrt (own_order s) L"
  by (rule same_core_sorted [of "set L"]) (auto simp: same_core_def)

lemma cut_start_sorted: "v \<notin> set L \<Longrightarrow> sorted_wrt (own_order (cut_start v b s)) L = sorted_wrt (own_order s) L"
  by (rule same_core_sorted [of "set L"]) (auto simp: same_core_def)

lemma before_end:
  assumes "range_ok a" and "range_ok l" and "lf_overlap a l = Before"
  shows "off_t (lf_start l - 1) = lf_start l - 1" and "range_ok (a\<lparr>lf_end := lf_start l - 1\<rparr>)"
proof -
  have r: "0 \<le> lf_start a" "lf_start a < lf_start l" "lf_start l \<le> OFF_MAX" using assms overlap_before [OF assms(3)] by (auto simp: range_ok_def)
  then show "off_t (lf_start l - 1) = lf_start l - 1" by (intro off_t_id) (auto simp: OFF_MAX_def)
  show "range_ok (a\<lparr>lf_end := lf_start l - 1\<rparr>)" using r by (auto simp: range_ok_def)
qed

lemma after_start:
  assumes "range_ok a" and "range_ok l" and "lf_end l \<noteq> -1" and "lf_end l < lf_end a \<or> lf_end a = -1" and "0 \<le> lf_start a"
  shows "off_t (lf_end l + 1) = lf_end l + 1" and "range_ok (a\<lparr>lf_start := lf_end l + 1\<rparr>)"
  using assms by (auto simp: range_ok_def OFF_MAX_def off_t_def)

lemma link_before:
  assumes pre: "link_pre s lock True bp (tk @ v # nx)" and "mine s (the_lf s lock) v" and "lf_overlap (the_lf s v) (the_lf s lock) = Before"
    and tk: "\<forall>x \<in> set tk. mine s (the_lf s lock) x \<longrightarrow> bef (the_lf s x) (the_lf s lock)"
    and ty: "lf_type (the_lf s lock) \<noteq> F_UNLCK"
  shows "link_pre (cut_end v (lf_start (the_lf s lock) - 1) s) lock False (bp @ tk @ [v, lock]) nx" (is "link_pre ?s _ _ _ _")
proof -
  let ?l = "the_lf s lock"
  have ok: "range_ok (the_lf s v)" "range_ok ?l" using link_pre_ok [OF pre] by auto
  have nb: "\<not> bef (the_lf s v) ?l" using assms(3) overlap_none [of "the_lf s v" ?l] by auto
  have ne: "v \<notin> set bp" "v \<notin> set tk" "v \<notin> set nx" "v \<noteq> lock" "lock \<notin> set bp" "lock \<notin> set tk" "lock \<notin> set nx"
    using pre by (auto simp: link_pre_def Let_def)
  have ahead: "\<forall>y \<in> set nx. mine s ?l y \<longrightarrow> lf_start ?l < lf_start (the_lf s y)"
    using link_next_ahead(1) [OF pre assms(2) nb] by blast
  have lt: "lf_start (the_lf s v) < lf_start ?l" "0 \<le> lf_start (the_lf s v)" using overlap_before [OF assms(3)] ok by (auto simp: range_ok_def)
  have vl: "own_order ?s v lock" using ne lt by (auto simp: own_order_def bef_def)
  have vn: "own_order ?s v y" if "y \<in> set nx" for y
    using ahead that ne assms(2) lt by (auto simp: own_order_def bef_def mine_def)
  have xl: "own_order ?s x lock" if "x \<in> set bp \<union> set tk" for x
    using that tk pre ne by (subst cut_end_order) (auto simp: own_order_def mine_def link_pre_def Let_def)
  have xy: "own_order ?s x y = own_order s x y" if "x \<in> set bp \<union> set tk" for x y using that ne by (intro cut_end_order) auto
  have vok: "listed_ok (lf_head ?l) ((the_lf s v)\<lparr>lf_end := lf_start ?l - 1\<rparr>)"
    using pre before_end(2) [OF ok assms(3)] by (simp add: listed_ok_def link_pre_def Let_def)
  have m: "mine ?s ?l x = mine s ?l x" for x by (simp add: mine_def)
  show ?thesis
    using pre ne ahead vl vn xl vok tk assms(2) lt link_lock_ok [OF pre ty]
    by (auto simp: link_pre_def Let_def sorted_wrt_append cut_end_sorted xy m bef_def)
qed

section \<open>What is held\<close>

lemma facts_nil [simp]: "facts s [] i k t = False" by (simp add: facts_def held_def)

lemma facts_cons [simp]: "facts s (x # xs) i k t \<longleftrightarrow>
    (lf_id (the_lf s x) = i \<and> lf_type (the_lf s x) = t \<and> covers (the_lf s x) k) \<or> facts s xs i k t"
  by (auto simp: facts_def held_def)

lemma facts_append [simp]: "facts s (xs @ ys) i k t \<longleftrightarrow> facts s xs i k t \<or> facts s ys i k t"
  by (auto simp: facts_def held_def)

definition overrides :: "lockf \<Rightarrow> lock_type option \<Rightarrow> (ptr \<Rightarrow> int \<Rightarrow> lock_type \<Rightarrow> bool) \<Rightarrow> (ptr \<Rightarrow> int \<Rightarrow> lock_type \<Rightarrow> bool) \<Rightarrow> bool" where
  "overrides l ty F F' \<longleftrightarrow> (\<forall>i k t. F' i k t \<longleftrightarrow> (if i = lf_id l \<and> covers l k then ty = Some t else F i k t))"

definition same_outside :: "lockf \<Rightarrow> (ptr \<Rightarrow> int \<Rightarrow> lock_type \<Rightarrow> bool) \<Rightarrow> (ptr \<Rightarrow> int \<Rightarrow> lock_type \<Rightarrow> bool) \<Rightarrow> bool" where
  "same_outside l F F' \<longleftrightarrow> (\<forall>i k t. \<not> (i = lf_id l \<and> covers l k) \<longrightarrow> F' i k t = F i k t)"

lemma overrides_trans: "same_outside l F F1 \<Longrightarrow> overrides l ty F1 F2 \<Longrightarrow> overrides l ty F F2"
  by (auto simp: overrides_def same_outside_def)

definition apart :: "lockfs \<Rightarrow> lockf \<Rightarrow> ptr list \<Rightarrow> bool" where
  "apart s l L \<longleftrightarrow> (\<forall>x \<in> set L. mine s l x \<longrightarrow> bef (the_lf s x) l \<or> bef l (the_lf s x))"

lemma apart_facts:
  assumes "apart s l L" and "\<forall>x \<in> set L. range_ok (the_lf s x)" and "range_ok l" and "covers l k"
  shows "\<not> facts s L (lf_id l) k t"
proof
  assume "facts s L (lf_id l) k t"
  then obtain x where x: "x \<in> set L" "mine s l x" "covers (the_lf s x) k" by (auto simp: facts_def held_def mine_def)
  then have "bef (the_lf s x) l \<or> bef l (the_lf s x)" using assms(1) by (simp add: apart_def)
  then show False using overlap_byte [of "the_lf s x" l] assms(2-4) x by blast
qed

lemma apart_append [simp]: "apart s l (xs @ ys) \<longleftrightarrow> apart s l xs \<and> apart s l ys" by (auto simp: apart_def)

lemma link_apart:
  assumes "link_pre s lock need bp (tk @ v # nx)" and "mine s (the_lf s lock) v"
    and "lf_end (the_lf s v) \<noteq> -1 \<longrightarrow> lf_end (the_lf s lock) \<noteq> -1 \<and> lf_end (the_lf s lock) \<le> lf_end (the_lf s v)"
    and "\<forall>x \<in> set tk. mine s (the_lf s lock) x \<longrightarrow> bef (the_lf s x) (the_lf s lock)"
  shows "apart s (the_lf s lock) (remove1 lock bp)" and "apart s (the_lf s lock) tk" and "\<forall>y \<in> set nx. mine s (the_lf s lock) y \<longrightarrow> bef (the_lf s lock) (the_lf s y)"
proof -
  show "apart s (the_lf s lock) (remove1 lock bp)" using assms(1) by (auto simp: link_pre_def Let_def apart_def)
  show "apart s (the_lf s lock) tk" using assms(4) by (auto simp: apart_def)
  show "\<forall>y \<in> set nx. mine s (the_lf s lock) y \<longrightarrow> bef (the_lf s lock) (the_lf s y)"
  proof (intro ballI impI)
    fix y assume y: "y \<in> set nx" "mine s (the_lf s lock) y"
    have "own_order s v y" using assms(1) y(1) by (auto simp: link_pre_def Let_def sorted_wrt_append)
    then have "bef (the_lf s v) (the_lf s y)" using assms(2) y(2) by (simp add: own_order_def mine_def)
    then show "bef (the_lf s lock) (the_lf s y)" using assms(3) by (auto simp: bef_def)
  qed
qed

definition link_post :: "lockfs \<Rightarrow> lockf \<Rightarrow> lock_type option \<Rightarrow> ptr list \<Rightarrow> lockfs \<Rightarrow> ptr list \<Rightarrow> bool" where
  "link_post s l ty L s' L' \<longleftrightarrow> list_ok s' (lf_head l) L' \<and> overrides l ty (facts s L) (facts s' L')
     \<and> (\<forall>x \<in> set L. \<not> mine s l x \<longrightarrow> x \<in> set L' \<and> core (the_lf s' x) = core (the_lf s x))"

lemma link_post_core:
  assumes "link_post s l ty L s1 L'" and "same_core A s1 s2" and "set L' \<subseteq> A"
  shows "link_post s l ty L s2 L'"
  using assms same_core_facts [OF assms(2,3)] same_core_list_ok [OF assms(2,3)] same_coreD [OF assms(2)]
  by (auto simp: link_post_def subset_iff)

lemma list_ok_insert:
  assumes "list_ok s h (xs @ ys)" and "\<forall>x \<in> set xs. own_order s x a" and "\<forall>y \<in> set ys. own_order s a y"
    and "a \<notin> set xs \<union> set ys" and "a < lf_brk s" and "listed_ok h (the_lf s a)"
  shows "list_ok s h (xs @ a # ys)"
  using assms by (auto simp: list_ok_def sorted_wrt_append)

text \<open>Nothing overlaps.\<close>

lemma link_post_none:
  assumes pre: "link_pre s lock need bp as" and f: "lf_findoverlap s as (the_lf s lock) SELF = (NoOverlap, n)"
    and ty: "lf_type (the_lf s lock) \<noteq> F_UNLCK"
  shows "link_post s (the_lf s lock) (Some (lf_type (the_lf s lock))) (bp @ as) s (if need then bp @ take n as @ lock # drop n as else bp @ as)"
proof -
  let ?l = "the_lf s lock" and ?tk = "take n as" and ?nx = "drop n as"
  have as: "as = ?tk @ ?nx" by simp
  have srt: "sorted_wrt (own_order s) as" and ok: "\<forall>x \<in> insert lock (set bp \<union> set as). range_ok (the_lf s x)" "range_ok ?l"
    using pre link_pre_ok [OF pre] by (auto simp: link_pre_def Let_def)
  have tk: "\<forall>x \<in> set ?tk. mine s ?l x \<longrightarrow> bef (the_lf s x) ?l" and nx: "\<forall>x \<in> set ?nx. mine s ?l x \<longrightarrow> bef ?l (the_lf s x)"
    using findoverlap_self_none [OF f srt] ok by auto
  have ap: "apart s ?l as" by (subst as, unfold apart_append) (use tk nx in \<open>simp add: apart_def\<close>)
  have bp: "apart s ?l (remove1 lock bp)" using pre by (auto simp: link_pre_def Let_def apart_def)
  show ?thesis
  proof (cases need)
    case True
    have "list_ok s (lf_head ?l) ((bp @ ?tk) @ ?nx)" using pre True by (auto simp: list_ok_def link_pre_def Let_def sorted_wrt_append)
    then have "list_ok s (lf_head ?l) ((bp @ ?tk) @ lock # ?nx)"
    proof (rule list_ok_insert)
      show "\<forall>x \<in> set (bp @ ?tk). own_order s x lock" using tk pre True by (auto simp: link_pre_def Let_def intro!: own_order_lock)
      show "\<forall>y \<in> set ?nx. own_order s lock y" using nx by (simp add: own_order_def mine_def)
    qed (use pre True link_lock_ok [OF pre ty] in \<open>auto simp: link_pre_def Let_def dest: in_set_takeD in_set_dropD\<close>)
    moreover have "overrides ?l (Some (lf_type ?l)) (facts s (bp @ as)) (facts s (bp @ ?tk @ lock # ?nx))"
    proof -
      have "facts s as i k t = (facts s ?tk i k t \<or> facts s ?nx i k t)" for i k t by (subst as) (rule facts_append)
      moreover have "\<not> facts s as (lf_id ?l) k t" "\<not> facts s bp (lf_id ?l) k t" if "covers ?l k" for k t
        using apart_facts [OF ap _ ok(2) that] apart_facts [OF bp _ ok(2) that] ok(1) True pre
        by (auto simp: link_pre_def Let_def remove1_idem)
      ultimately show ?thesis by (auto simp: overrides_def)
    qed
    moreover have "set as = set ?tk \<union> set ?nx" by (metis as set_append)
    ultimately show ?thesis using True by (auto simp: link_post_def)
  next
    case False
    have ahead: "\<forall>y \<in> set as. mine s ?l y \<longrightarrow> bef ?l (the_lf s y)"
      using ap link_linked_ahead(1) [of s lock bp as] pre False by (auto simp: apart_def)
    have lk: "lock \<in> set bp" "distinct bp" using pre False by (auto simp: link_pre_def Let_def)
    have own: "own_order s x y" if "x \<in> set bp" "y \<in> set as" for x y
      using that pre False ahead by (cases "x = lock") (auto simp: link_pre_def Let_def own_order_def mine_def)
    have "list_ok s (lf_head ?l) (bp @ as)" using pre own by (auto simp: list_ok_def link_pre_def Let_def sorted_wrt_append)
    moreover have "overrides ?l (Some (lf_type ?l)) (facts s (bp @ as)) (facts s (bp @ as))"
    proof -
      have bpf: "facts s bp i k t \<longleftrightarrow> (lf_id ?l = i \<and> lf_type ?l = t \<and> covers ?l k) \<or> facts s (remove1 lock bp) i k t" for i k t
        using lk by (auto simp: facts_def held_def)
      have "\<not> facts s as (lf_id ?l) k t" "\<not> facts s (remove1 lock bp) (lf_id ?l) k t" if "covers ?l k" for k t
        using apart_facts [OF ap _ ok(2) that] apart_facts [OF bp _ ok(2) that] ok(1) set_remove1_subset [of lock bp] by blast+
      then show ?thesis by (auto simp: overrides_def bpf)
    qed
    ultimately show ?thesis using False by (simp add: link_post_def)
  qed
qed

text \<open>One own lock is cut or replaced, and the walk ends: what is before it and after it does not meet the lock.\<close>

definition fills :: "lockfs \<Rightarrow> lockfs \<Rightarrow> lockf \<Rightarrow> lock_type option \<Rightarrow> bool \<Rightarrow> ptr \<Rightarrow> ptr list \<Rightarrow> bool" where
  "fills s s' l ty need v parts \<longleftrightarrow>
     (\<forall>p \<in> set parts. lf_id (the_lf s' p) = lf_id l \<and> p < lf_brk s' \<and> listed_ok (lf_head l) (the_lf s' p)
        \<and> (lf_start (the_lf s v) \<le> lf_start (the_lf s' p) \<or> lf_start l \<le> lf_start (the_lf s' p))
        \<and> (lf_end (the_lf s v) \<noteq> -1 \<longrightarrow> lf_end (the_lf s' p) \<noteq> -1 \<and> lf_end (the_lf s' p) \<le> lf_end (the_lf s v))
        \<and> (\<not> need \<longrightarrow> bef l (the_lf s' p)))
     \<and> sorted_wrt (own_order s') parts
     \<and> (\<forall>k t. \<not> covers l k \<longrightarrow> facts s' parts (lf_id l) k t = facts s [v] (lf_id l) k t)
     \<and> (\<forall>k t. covers l k \<longrightarrow> (facts s' parts (lf_id l) k t \<longrightarrow> ty = Some t) \<and> (need \<and> ty = Some t \<longrightarrow> facts s' parts (lf_id l) k t))"

lemma link_post_last:
  assumes pre: "link_pre s lock need bp (tk @ v # nx)" and v: "mine s (the_lf s lock) v"
    and tk: "\<forall>x \<in> set tk. mine s (the_lf s lock) x \<longrightarrow> bef (the_lf s x) (the_lf s lock)"
    and reach: "lf_end (the_lf s v) \<noteq> -1 \<longrightarrow> lf_end (the_lf s lock) \<noteq> -1 \<and> lf_end (the_lf s lock) \<le> lf_end (the_lf s v)"
    and core: "\<forall>x \<in> insert lock (set bp \<union> set tk \<union> set nx). core (the_lf s' x) = core (the_lf s x)" and brk: "lf_brk s \<le> lf_brk s'"
    and new: "distinct parts" "set parts \<inter> (set bp \<union> set tk \<union> set nx) = {}"
    and fills: "fills s s' (the_lf s lock) ty need v parts" and ty: "\<not> need \<Longrightarrow> ty = Some (lf_type (the_lf s lock))"
  shows "link_post s (the_lf s lock) ty (bp @ tk @ v # nx) s' (bp @ tk @ parts @ nx)"
proof -
  let ?l = "the_lf s lock"
  let ?A = "insert lock (set bp \<union> set tk \<union> set nx)"
  note ap = link_apart [OF pre v reach tk]
  have same: "same_core ?A s (s'\<lparr>lf_brk := lf_brk s\<rparr>)" using core by (simp add: same_core_def the_lf_def)
  have own: "own_order s' x y = own_order s x y" if "x \<in> ?A" "y \<in> ?A" for x y
    using same_core_own [OF same that] by (simp add: own_order_def the_lf_def)
  have sorted': "sorted_wrt (own_order s') L = sorted_wrt (own_order s) L" if "set L \<subseteq> ?A" for L
  proof -
    have "own_order (s'\<lparr>lf_brk := lf_brk s\<rparr>) = own_order s'" by (intro ext) (simp add: own_order_def the_lf_def)
    then show ?thesis using same_core_sorted [OF same that] by simp
  qed
  have facts': "facts s' L = facts s L" if "set L \<subseteq> ?A" for L
    using same_core_facts [OF same that] by (simp add: facts_def the_lf_def)
  have listed: "listed_ok h (the_lf s' x) = listed_ok h (the_lf s x)" if "x \<in> ?A" for x h
    using same_core_listed [OF same that] by (simp add: the_lf_def)
  have ids: "lf_id (the_lf s' x) = lf_id (the_lf s x)" "lf_end (the_lf s' x) = lf_end (the_lf s x)" "lf_start (the_lf s' x) = lf_start (the_lf s x)"
    if "x \<in> ?A" for x using core_fields [OF core [rule_format, OF that]] by simp_all
  have toparts: "own_order s' x p" if "x \<in> set bp \<union> set tk" "p \<in> set parts" for x p
  proof (cases "mine s ?l x \<and> x \<noteq> lock")
    case True
    then have "bef (the_lf s x) ?l" "bef (the_lf s x) (the_lf s v)"
      using pre tk that(1) v by (auto simp: link_pre_def Let_def sorted_wrt_append own_order_def mine_def)
    then show ?thesis using fills that ids [of x] unfolding own_order_def fills_def bef_def by fastforce
  next
    case False
    then show ?thesis
    proof (cases "x = lock")
      case True
      then have "\<not> need" using pre that(1) by (auto simp: link_pre_def Let_def)
      then show ?thesis using fills that(2) True ids [of lock] by (auto simp: own_order_def fills_def bef_def)
    next
      case other: False
      then show ?thesis using False fills that ids [of x] by (auto simp: own_order_def fills_def mine_def)
    qed
  qed
  have fromparts: "own_order s' p y" if "y \<in> set nx" "p \<in> set parts" for p y
  proof (cases "mine s ?l y")
    case True
    then have "bef (the_lf s v) (the_lf s y)" using pre that(1) v by (auto simp: link_pre_def Let_def sorted_wrt_append own_order_def mine_def)
    then show ?thesis using fills that ids [of y] unfolding own_order_def fills_def bef_def by fastforce
  next
    case False
    then show ?thesis using fills that ids [of y] by (auto simp: own_order_def fills_def mine_def)
  qed
  have lo: "own_order s lock y" if "y \<in> set nx" for y using ap(3) that by (simp add: own_order_def mine_def)
  have "sorted_wrt (own_order s) (bp @ tk @ nx)"
    unfolding sorted_wrt_append
  proof (intro conjI ballI)
    fix x y assume xy: "x \<in> set bp" "y \<in> set (tk @ nx)"
    show "own_order s x y"
    proof (cases "x = lock")
      case True
      then have "\<not> need" using pre xy(1) by (auto simp: link_pre_def Let_def)
      then have "y \<in> set tk \<longrightarrow> \<not> mine s ?l y" using link_linked_ahead(1) [of s lock bp "tk @ v # nx" y] pre tk by auto
      then show ?thesis using lo [of y] True xy by (auto simp: own_order_def mine_def)
    next
      case False
      then show ?thesis using pre xy by (auto simp: link_pre_def Let_def)
    qed
  qed (use pre in \<open>auto simp: link_pre_def Let_def sorted_wrt_append\<close>)
  then have "sorted_wrt (own_order s') (bp @ tk @ nx)" by (subst sorted') auto
  then have srt: "sorted_wrt (own_order s') (bp @ tk @ parts @ nx)"
    using toparts fromparts fills by (auto simp: sorted_wrt_append fills_def)
  have lok: "list_ok s' (lf_head ?l) (bp @ tk @ parts @ nx)"
    unfolding list_ok_def
  proof (intro conjI ballI srt)
    show "distinct (bp @ tk @ parts @ nx)" using new pre by (auto simp: link_pre_def Let_def)
    fix x assume x: "x \<in> set (bp @ tk @ parts @ nx)"
    have q: "\<forall>p \<in> set parts. p < lf_brk s' \<and> listed_ok (lf_head ?l) (the_lf s' p)" using fills unfolding fills_def by blast
    have r: "\<forall>z \<in> set bp \<union> set tk \<union> set nx. z < lf_brk s \<and> listed_ok (lf_head ?l) (the_lf s z)" using pre unfolding link_pre_def Let_def by auto
    show "x < lf_brk s'"
    proof (cases "x \<in> set parts")
      case False
      then have "x < lf_brk s" using r x by auto
      then show ?thesis using brk by simp
    qed (use q in simp)
    show "listed_ok (lf_head ?l) (the_lf s' x)"
    proof (cases "x \<in> set parts")
      case False
      then have "x \<in> set bp \<union> set tk \<union> set nx" using x by auto
      then show ?thesis using r listed [of x] by blast
    qed (use q in simp)
  qed
  have ov: "overrides ?l ty (facts s (bp @ tk @ v # nx)) (facts s' (bp @ tk @ parts @ nx))"
  proof -
    have rng: "\<forall>x \<in> insert lock (set bp \<union> set (tk @ v # nx)). range_ok (the_lf s x)" using link_pre_ok [OF pre] by blast
    have none: "\<not> facts s (remove1 lock bp) (lf_id ?l) k t" "\<not> facts s tk (lf_id ?l) k t" "\<not> facts s nx (lf_id ?l) k t" if "covers ?l k" for k t
    proof -
      have nx: "apart s ?l nx" using ap(3) by (simp add: apart_def)
      show "\<not> facts s (remove1 lock bp) (lf_id ?l) k t"
        using apart_facts [OF ap(1) _ _ that] rng set_remove1_subset [of lock bp] by blast
      show "\<not> facts s tk (lf_id ?l) k t" "\<not> facts s nx (lf_id ?l) k t"
        using apart_facts [OF ap(2) _ _ that] apart_facts [OF nx _ _ that] rng by auto
    qed
    have bpf: "facts s bp i k t \<longleftrightarrow> (\<not> need \<and> lf_id ?l = i \<and> lf_type ?l = t \<and> covers ?l k) \<or> facts s (remove1 lock bp) i k t" for i k t
      using pre by (auto simp: link_pre_def Let_def facts_def held_def remove1_idem)
    have fs: "facts s' bp = facts s bp" "facts s' tk = facts s tk" "facts s' nx = facts s nx" by (rule facts', auto)+
    have other: "facts s' parts i k t = False" "facts s [v] i k t = False" if "i \<noteq> lf_id ?l" for i k t
      using fills that v by (auto simp: fills_def facts_def held_def mine_def)
    have vf: "facts s (v # nx) i k t = (facts s [v] i k t \<or> facts s nx i k t)" for i k t by simp
    show ?thesis unfolding overrides_def facts_append fs vf
    proof (intro allI)
      fix i k t
      show "(facts s bp i k t \<or> facts s tk i k t \<or> facts s' parts i k t \<or> facts s nx i k t) =
            (if i = lf_id ?l \<and> covers ?l k then ty = Some t else facts s bp i k t \<or> facts s tk i k t \<or> facts s [v] i k t \<or> facts s nx i k t)"
      proof (cases "i = lf_id ?l")
        case True
        show ?thesis
        proof (cases "covers ?l k")
          case c: True
          have "facts s' parts i k t \<longrightarrow> ty = Some t" "need \<and> ty = Some t \<longrightarrow> facts s' parts i k t"
            using fills True c unfolding fills_def by blast+
          moreover have "facts s bp i k t = (\<not> need \<and> lf_type ?l = t)" "\<not> facts s tk i k t" "\<not> facts s nx i k t"
            using none [OF c, of t] bpf [of i k t] True c by simp_all
          moreover have "\<not> need \<Longrightarrow> (ty = Some t) = (lf_type ?l = t)" using ty by simp
          ultimately show ?thesis using True c by (simp only: if_True simp_thms) blast
        next
          case c: False
          then have "facts s' parts i k t = facts s [v] i k t" using fills True by (simp add: fills_def)
          then show ?thesis using c by simp
        qed
      next
        case False
        then show ?thesis using other(1) [OF False, of k t] other(2) [OF False, of k t] by auto
      qed
    qed
  qed
  show ?thesis using lok ov core v by (auto simp: link_post_def mine_def)
qed

end
