(* ===== verification/Kern_Lockf_Setlk.thy ===== *)
theory Kern_Lockf_Setlk
  imports Kern_Lockf_Link
begin

text \<open>
  The cases in which the loops of \<open>lf_setlock\<close> and \<open>lf_clearlock\<close> end, and from them the effect of a whole walk on the ranges.
\<close>

section \<open>The last overlap\<close>

lemma fills_one:
  assumes "lf_id (the_lf s' v) = lf_id l" and "v < lf_brk s'" and "listed_ok (lf_head l) (the_lf s' v)"
    and "lf_start (the_lf s' v) = lf_start (the_lf s v)" and "lf_end (the_lf s' v) = lf_end (the_lf s v)" and "lf_id (the_lf s v) = lf_id l"
    and "\<And>k. covers l k \<Longrightarrow> covers (the_lf s v) k" and "lf_type (the_lf s' v) = t"
    and "(\<forall>k. covers (the_lf s v) k \<longrightarrow> covers l k) \<or> lf_type (the_lf s v) = t"
  shows "fills s s' l (Some t) True v [v]"
proof -
  have "covers (the_lf s' v) k = covers (the_lf s v) k" for k using assms(4,5) by (simp add: covers_def)
  then show ?thesis using assms by (auto simp: fills_def)
qed

lemma fills_equal:
  assumes "link_pre s lock True bp (tk @ v # nx)" and "mine s (the_lf s lock) v" and "lf_overlap (the_lf s v) (the_lf s lock) = Equal"
    and "t \<noteq> F_UNLCK"
  shows "fills s (put_lf v ((the_lf s v)\<lparr>lf_type := t\<rparr>) s) (the_lf s lock) (Some t) True v [v]"
proof (rule fills_one)
  show "(\<forall>k. covers (the_lf s v) k \<longrightarrow> covers (the_lf s lock) k) \<or> lf_type (the_lf s v) = t"
    using overlap_equal [OF assms(3)] by (simp add: covers_def)
qed (use assms overlap_equal [OF assms(3)] in \<open>auto simp: link_pre_def Let_def mine_def listed_ok_def range_ok_def covers_def\<close>)

lemma fills_same_type:
  assumes "link_pre s lock True bp (tk @ v # nx)" and "mine s (the_lf s lock) v" and "lf_overlap (the_lf s v) (the_lf s lock) = Contains"
    and "lf_type (the_lf s v) = t"
  shows "fills s s (the_lf s lock) (Some t) True v [v]"
proof (rule fills_one)
  show "v < lf_brk s" "listed_ok (lf_head (the_lf s lock)) (the_lf s v)" using assms(1) by (auto simp: link_pre_def Let_def)
  fix k assume "covers (the_lf s lock) k"
  then show "covers (the_lf s v) k" using overlap_contains [OF assms(3)] by (auto simp: covers_def)
qed (use assms in \<open>simp_all add: mine_def\<close>)

definition piece :: "lock_type option \<Rightarrow> ptr \<Rightarrow> ptr list" where "piece ty lock = (if ty = None then [] else [lock])"

lemma fills_start:
  assumes pre: "link_pre s lock need bp (tk @ v # nx)" and m: "mine s (the_lf s lock) v"
    and o1: "lf_start (the_lf s lock) \<le> lf_start (the_lf s v)" "lf_end (the_lf s lock) \<noteq> -1"
    and o2: "lf_end (the_lf s lock) < lf_end (the_lf s v) \<or> lf_end (the_lf s v) = -1" and o3: "lf_start (the_lf s v) \<le> lf_end (the_lf s lock)"
    and ty: "ty = None \<or> ty = Some (lf_type (the_lf s lock)) \<and> lf_type (the_lf s lock) \<noteq> F_UNLCK"
    and parts: "parts = (if need then piece ty lock else []) @ [v]"
  shows "fills s (cut_start v (lf_end (the_lf s lock) + 1) s) (the_lf s lock) ty need v parts"
proof -
  let ?l = "the_lf s lock" and ?v = "the_lf s v"
  let ?s = "cut_start v (lf_end ?l + 1) s"
  have ok: "range_ok ?v" "range_ok ?l" "v \<noteq> lock" "v < lf_brk s" "lock < lf_brk s" "listed_ok (lf_head ?l) ?v" "lf_id ?v = lf_id ?l"
    using link_pre_ok [OF pre] pre m by (auto simp: link_pre_def Let_def mine_def)
  have vok: "range_ok (?v\<lparr>lf_start := lf_end ?l + 1\<rparr>)" using after_start(2) [OF ok(1,2) o1(2) o2] ok(1) by (simp add: range_ok_def)
  have cv: "covers (?v\<lparr>lf_start := lf_end ?l + 1\<rparr>) k \<longleftrightarrow> covers ?v k \<and> \<not> covers ?l k" for k
    using ok o1 o2 o3 by (auto simp: covers_def range_ok_def)
  have b: "bef ?l (?v\<lparr>lf_start := lf_end ?l + 1\<rparr>)" using o1 by (simp add: bef_def)
  have p: "set parts \<subseteq> {lock, v}" "lock \<in> set parts \<longleftrightarrow> need \<and> ty \<noteq> None" "v \<in> set parts" using parts ok(3) by (auto simp: piece_def split: if_splits)
  have f: "facts ?s parts (lf_id ?l) k t \<longleftrightarrow> (need \<and> ty = Some t \<and> covers ?l k) \<or> (lf_type ?v = t \<and> covers ?v k \<and> \<not> covers ?l k)" for k t
    using ok cv ty by (auto simp: parts piece_def)
  show ?thesis
    unfolding fills_def
  proof (intro conjI ballI)
    show "sorted_wrt (own_order ?s) parts" using ok b by (auto simp: parts piece_def own_order_def)
    show "\<forall>k t. \<not> covers ?l k \<longrightarrow> facts ?s parts (lf_id ?l) k t = facts s [v] (lf_id ?l) k t"
      unfolding f using ok by simp
    show "\<forall>k t. covers ?l k \<longrightarrow> (facts ?s parts (lf_id ?l) k t \<longrightarrow> ty = Some t) \<and> (need \<and> ty = Some t \<longrightarrow> facts ?s parts (lf_id ?l) k t)"
      unfolding f by simp
  next
    fix q assume q: "q \<in> set parts"
    show "lf_id (the_lf ?s q) = lf_id ?l" "q < lf_brk ?s" using q p(1) ok by auto
    show "listed_ok (lf_head ?l) (the_lf ?s q)"
      using q p ok vok ty link_lock_ok [OF pre] by (cases "q = v") (auto simp: listed_ok_def)
    show "lf_start ?v \<le> lf_start (the_lf ?s q) \<or> lf_start ?l \<le> lf_start (the_lf ?s q)" using q p(1) o3 by auto
    show "lf_end ?v \<noteq> -1 \<longrightarrow> lf_end (the_lf ?s q) \<noteq> -1 \<and> lf_end (the_lf ?s q) \<le> lf_end ?v" using q p(1) o1 o2 by auto
    show "\<not> need \<longrightarrow> bef ?l (the_lf ?s q)" using q p b by (cases "q = v") auto
  qed
qed

lemma fills_end:
  assumes pre: "link_pre s lock True bp (tk @ v # nx)" and m: "mine s (the_lf s lock) v"
    and o1: "lf_start (the_lf s v) < lf_start (the_lf s lock)" "lf_end (the_lf s lock) = lf_end (the_lf s v)"
    and ty: "ty = None \<or> ty = Some (lf_type (the_lf s lock)) \<and> lf_type (the_lf s lock) \<noteq> F_UNLCK"
  shows "fills s (cut_end v (lf_start (the_lf s lock) - 1) s) (the_lf s lock) ty True v (v # piece ty lock)"
proof -
  let ?l = "the_lf s lock" and ?v = "the_lf s v"
  let ?s = "cut_end v (lf_start ?l - 1) s"
  have ok: "range_ok ?v" "range_ok ?l" "v \<noteq> lock" "v < lf_brk s" "lock < lf_brk s" "listed_ok (lf_head ?l) ?v" "lf_id ?v = lf_id ?l"
    using link_pre_ok [OF pre] pre m by (auto simp: link_pre_def Let_def mine_def)
  have vok: "range_ok (?v\<lparr>lf_end := lf_start ?l - 1\<rparr>)" using ok o1 by (auto simp: range_ok_def)
  have cv: "covers (?v\<lparr>lf_end := lf_start ?l - 1\<rparr>) k \<longleftrightarrow> covers ?v k \<and> \<not> covers ?l k" for k
    using ok o1 by (auto simp: covers_def range_ok_def)
  have b: "bef (?v\<lparr>lf_end := lf_start ?l - 1\<rparr>) ?l" using ok o1 by (auto simp: bef_def range_ok_def)
  have f: "facts ?s (v # piece ty lock) (lf_id ?l) k t \<longleftrightarrow> (ty = Some t \<and> covers ?l k) \<or> (lf_type ?v = t \<and> covers ?v k \<and> \<not> covers ?l k)" for k t
    using ok cv ty by (auto simp: piece_def)
  have p: "set (v # piece ty lock) \<subseteq> {lock, v}" "lock \<in> set (v # piece ty lock) \<longleftrightarrow> ty \<noteq> None" using ok(3) by (auto simp: piece_def split: if_splits)
  show ?thesis
    unfolding fills_def
  proof (intro conjI ballI)
    show "sorted_wrt (own_order ?s) (v # piece ty lock)" using ok b by (auto simp: piece_def own_order_def)
    show "\<forall>k t. \<not> covers ?l k \<longrightarrow> facts ?s (v # piece ty lock) (lf_id ?l) k t = facts s [v] (lf_id ?l) k t"
      unfolding f using ok by simp
    show "\<forall>k t. covers ?l k \<longrightarrow> (facts ?s (v # piece ty lock) (lf_id ?l) k t \<longrightarrow> ty = Some t)
              \<and> (True \<and> ty = Some t \<longrightarrow> facts ?s (v # piece ty lock) (lf_id ?l) k t)"
      unfolding f by simp
  next
    fix q assume q: "q \<in> set (v # piece ty lock)"
    show "lf_id (the_lf ?s q) = lf_id ?l" "q < lf_brk ?s" using q p(1) ok by auto
    show "listed_ok (lf_head ?l) (the_lf ?s q)"
      using q p ok vok ty link_lock_ok [OF pre] by (cases "q = v") (auto simp: listed_ok_def)
    show "lf_start ?v \<le> lf_start (the_lf ?s q) \<or> lf_start ?l \<le> lf_start (the_lf ?s q)" using q p(1) by auto
    show "lf_end ?v \<noteq> -1 \<longrightarrow> lf_end (the_lf ?s q) \<noteq> -1 \<and> lf_end (the_lf ?s q) \<le> lf_end ?v"
      using q p(1) o1 ok by (auto simp: range_ok_def)
  qed simp
qed

text \<open>The state after \<open>lf_split\<close> into three.\<close>

definition split3 :: "ptr \<Rightarrow> lockf \<Rightarrow> lockfs \<Rightarrow> lockfs" where
  "split3 v l s = put_lf v ((the_lf s v)\<lparr>lf_end := lf_start l - 1\<rparr>) (snd (new_lf ((the_lf s v)\<lparr>lf_start := lf_end l + 1, lf_blkhd := []\<rparr>) s))"

lemma the_new: "the_lf (snd (new_lf l s)) x = (if x = lf_brk s then l else the_lf s x)" by (simp add: new_lf_def the_lf_def)

lemma the_split3: "v < lf_brk s \<Longrightarrow> the_lf (split3 v l s) x =
   (if x = v then (the_lf s v)\<lparr>lf_end := lf_start l - 1\<rparr> else if x = lf_brk s then (the_lf s v)\<lparr>lf_start := lf_end l + 1, lf_blkhd := []\<rparr> else the_lf s x)"
  by (simp add: split3_def the_new)

lemma brk_split3: "lf_brk (split3 v l s) = Suc (lf_brk s)" by (simp add: split3_def new_lf_def)

lemma fills_split:
  assumes pre: "link_pre s lock True bp (tk @ v # nx)" and m: "mine s (the_lf s lock) v"
    and o1: "lf_start (the_lf s v) < lf_start (the_lf s lock)" "lf_end (the_lf s lock) \<noteq> -1" "lf_end (the_lf s lock) < lf_end (the_lf s v) \<or> lf_end (the_lf s v) = -1"
    and ty: "ty = None \<or> ty = Some (lf_type (the_lf s lock)) \<and> lf_type (the_lf s lock) \<noteq> F_UNLCK"
  shows "fills s (split3 v (the_lf s lock) s) (the_lf s lock) ty True v (v # piece ty lock @ [lf_brk s])"
proof -
  let ?l = "the_lf s lock" and ?v = "the_lf s v"
  let ?s = "split3 v ?l s" and ?p = "v # piece ty lock @ [lf_brk s]"
  let ?lo = "?v\<lparr>lf_end := lf_start ?l - 1\<rparr>" and ?hi = "?v\<lparr>lf_start := lf_end ?l + 1, lf_blkhd := []\<rparr>"
  have ok: "range_ok ?v" "range_ok ?l" "v \<noteq> lock" "v < lf_brk s" "lock < lf_brk s" "listed_ok (lf_head ?l) ?v" "lf_id ?v = lf_id ?l"
    using link_pre_ok [OF pre] pre m by (auto simp: link_pre_def Let_def mine_def)
  have the: "the_lf ?s v = ?lo" "the_lf ?s lock = ?l" "the_lf ?s (lf_brk s) = ?hi" using ok by (simp_all add: the_split3)
  have vok: "range_ok ?lo" "range_ok ?hi" using ok o1 by (auto simp: range_ok_def OFF_MAX_def)
  have cv: "covers ?lo k \<or> covers ?hi k \<longleftrightarrow> covers ?v k \<and> \<not> covers ?l k" for k
    using ok o1 by (auto simp: covers_def range_ok_def)
  have b: "bef ?lo ?l" "bef ?l ?hi" "bef ?lo ?hi" using ok o1 by (auto simp: bef_def range_ok_def)
  have f: "facts ?s ?p (lf_id ?l) k t \<longleftrightarrow> (ty = Some t \<and> covers ?l k) \<or> (lf_type ?v = t \<and> covers ?v k \<and> \<not> covers ?l k)" for k t
    using ok cv [of k] ty by (auto simp: piece_def the)
  have p: "set ?p \<subseteq> {lock, v, lf_brk s}" "lock \<in> set ?p \<longleftrightarrow> ty \<noteq> None" using ok(3,5) by (auto simp: piece_def split: if_splits)
  show ?thesis
    unfolding fills_def
  proof (intro conjI ballI)
    show "sorted_wrt (own_order ?s) ?p" using ok b by (auto simp: piece_def own_order_def the)
    show "\<forall>k t. \<not> covers ?l k \<longrightarrow> facts ?s ?p (lf_id ?l) k t = facts s [v] (lf_id ?l) k t"
      unfolding f using ok by simp
    show "\<forall>k t. covers ?l k \<longrightarrow> (facts ?s ?p (lf_id ?l) k t \<longrightarrow> ty = Some t) \<and> (True \<and> ty = Some t \<longrightarrow> facts ?s ?p (lf_id ?l) k t)"
      unfolding f by simp
  next
    fix q assume q: "q \<in> set ?p"
    then consider "q = v" | "q = lock" "ty \<noteq> None" | "q = lf_brk s" using p by blast
    note qs = this
    show "lf_id (the_lf ?s q) = lf_id ?l" using qs by cases (simp_all add: the ok)
    show "q < lf_brk ?s" using qs ok by cases (simp_all add: brk_split3)
    show "listed_ok (lf_head ?l) (the_lf ?s q)"
      using qs vok ok(6) ty link_lock_ok [OF pre] by cases (auto simp: the listed_ok_def)
    show "lf_start ?v \<le> lf_start (the_lf ?s q) \<or> lf_start ?l \<le> lf_start (the_lf ?s q)" using qs o1 ok(2) by cases (auto simp: the range_ok_def)
    show "lf_end ?v \<noteq> -1 \<longrightarrow> lf_end (the_lf ?s q) \<noteq> -1 \<and> lf_end (the_lf ?s q) \<le> lf_end ?v"
      using qs o1 ok by cases (auto simp: the range_ok_def)
  qed simp
qed

section \<open>A whole walk of lf_setlock\<close>

lemma core_simps:
  "lf_id (core l) = lf_id l" "lf_type (core l) = lf_type l" "lf_head (core l) = lf_head l" "lf_start (core l) = lf_start l" "lf_end (core l) = lf_end l"
  by (simp_all add: core_def)

lemma core_upd:
  "core a = core b \<Longrightarrow> core (a\<lparr>lf_start := x\<rparr>) = core (b\<lparr>lf_start := x\<rparr>)" "core a = core b \<Longrightarrow> core (a\<lparr>lf_end := x\<rparr>) = core (b\<lparr>lf_end := x\<rparr>)"
  "core a = core b \<Longrightarrow> core (a\<lparr>lf_type := t\<rparr>) = core (b\<lparr>lf_type := t\<rparr>)"
  by (simp_all add: core_eq)

lemma same_core_mono: "same_core A s s1 \<Longrightarrow> B \<subseteq> A \<Longrightarrow> same_core B s s1" by (auto simp: same_core_def)

lemma same_core_put: "same_core A s s1 \<Longrightarrow> core b = core a \<Longrightarrow> same_core A (put_lf v a s) (put_lf v b s1)"
  by (simp add: same_core_def)

lemma link_post_lock:
  assumes "core l = core l'"
  shows "link_post s l ty L s' L' = link_post s l' ty L s' L'"
proof -
  have "lf_id l = lf_id l'" "lf_head l = lf_head l'" "covers l = covers l'" using assms core_covers by (auto simp: core_eq)
  then show ?thesis by (simp add: link_post_def overrides_def mine_def)
qed

lemma link_post_trans:
  assumes "link_post s1 l ty L1 s' L'" and "same_outside l (facts s L) (facts s1 L1)"
    and "\<forall>x \<in> set L. \<not> mine s l x \<longrightarrow> x \<in> set L1 \<and> core (the_lf s1 x) = core (the_lf s x)"
  shows "link_post s l ty L s' L'"
proof -
  have "mine s1 l x = mine s l x" if "x \<in> set L" "\<not> mine s l x" for x
    using assms(3) that core_fields(5) [of "the_lf s1 x" "the_lf s x"] by (simp add: mine_def)
  then show ?thesis using assms(1,3) overrides_trans [OF assms(2)] unfolding link_post_def by metis
qed

lemma link_free: "lock \<notin> set L' \<Longrightarrow> link_post s l ty L s1 L' \<Longrightarrow> link_post s l ty L (free_lf lock s1) L'"
  by (rule link_post_core [of _ _ _ _ _ _ "set L'"]) (auto intro: same_core_free)

lemma link_wake: "link_post s l ty L s1 L' \<Longrightarrow> link_post s l ty L (lf_wakelock a s1) L'"
  by (rule link_post_core [of _ _ _ _ _ _ "set L'"]) (auto intro: same_core_wake)

lemma link_take: "link_post s l ty L s1 L' \<Longrightarrow> link_post s l ty L (lf_take_blocked a b s1) L'"
  by (rule link_post_core [of _ _ _ _ _ _ "set L'"]) (auto intro: same_core_take)

lemma link_outside_contained:
  assumes pre: "link_pre s lock need bp (tk @ v # nx)" and m: "mine s (the_lf s lock) v"
    and ov: "lf_overlap (the_lf s v) (the_lf s lock) = Contained" and L1: "set L1 - {lock} = set bp \<union> set tk \<union> set nx - {lock}"
    and same: "same_core (set L1) s s1"
  shows "same_outside (the_lf s lock) (facts s (bp @ tk @ v # nx)) (facts s1 L1)"
proof -
  have "covers (the_lf s v) k \<Longrightarrow> covers (the_lf s lock) k" for k using overlap_contained [OF ov] by (auto simp: covers_def)
  moreover have "facts s1 L1 = facts s L1" by (rule same_core_facts [OF same]) simp
  moreover have "held (the_lf s ` set L1) i k t = held (the_lf s ` (set L1 - {lock})) i k t"
    "held (the_lf s ` set (bp @ tk @ nx)) i k t = held (the_lf s ` (set (bp @ tk @ nx) - {lock})) i k t"
    if "\<not> (i = lf_id (the_lf s lock) \<and> covers (the_lf s lock) k)" for i k t
    using that by (auto simp: held_def)
  ultimately show ?thesis using L1 m by (auto simp: same_outside_def facts_def held_def mine_def)
qed

lemma split_three:
  assumes "lf_start (the_lf s v) < lf_start (the_lf s lock)" and "lf_end (the_lf s lock) \<noteq> lf_end (the_lf s v)"
    and "range_ok (the_lf s v)" and "range_ok (the_lf s lock)" and "lf_end (the_lf s lock) \<noteq> -1" and "lf_end (the_lf s lock) \<le> lf_end (the_lf s v) \<or> lf_end (the_lf s v) = -1"
  shows "lf_split v lock s = ([v, lock, lf_brk s], split3 v (the_lf s lock) s)"
proof -
  have "off_t (lf_start (the_lf s lock) - 1) = lf_start (the_lf s lock) - 1" "off_t (lf_end (the_lf s lock) + 1) = lf_end (the_lf s lock) + 1"
    using assms by (auto simp: off_t_def range_ok_def OFF_MAX_def)
  then show ?thesis using assms(1,2) by (auto simp: lf_split_def Let_def split3_def new_lf_def)
qed

lemma split_two:
  assumes "lf_start (the_lf s v) < lf_start (the_lf s lock)" and "lf_end (the_lf s lock) = lf_end (the_lf s v)"
    and "range_ok (the_lf s v)" and "range_ok (the_lf s lock)"
  shows "lf_split v lock s = ([v, lock], cut_end v (lf_start (the_lf s lock) - 1) s)"
proof -
  have "off_t (lf_start (the_lf s lock) - 1) = lf_start (the_lf s lock) - 1"
    using assms by (auto simp: off_t_def range_ok_def OFF_MAX_def)
  then show ?thesis using assms(1,2) by (auto simp: lf_split_def Let_def)
qed

text \<open>The case in which the overlap contains the lock, for a walk that sets it and one that clears it.\<close>

lemma link_post_contains:
  assumes pre: "link_pre s lock True bp (tk @ v # nx)" and m: "mine s (the_lf s lock) v" and ov: "lf_overlap (the_lf s v) (the_lf s lock) = Contains"
    and tk: "\<forall>x \<in> set tk. mine s (the_lf s lock) x \<longrightarrow> bef (the_lf s x) (the_lf s lock)"
    and ty: "ty = None \<or> ty = Some (lf_type (the_lf s lock)) \<and> lf_type (the_lf s lock) \<noteq> F_UNLCK"
  shows "if lf_start (the_lf s v) = lf_start (the_lf s lock)
         then link_post s (the_lf s lock) ty (bp @ tk @ v # nx) (cut_start v (off_t (lf_end (the_lf s lock) + 1)) s) (bp @ tk @ piece ty lock @ v # nx)
         else case lf_split v lock s of (parts, s1) \<Rightarrow>
              link_post s (the_lf s lock) ty (bp @ tk @ v # nx) s1 (bp @ tk @ (if ty = None then remove1 lock parts else parts) @ nx)"
proof -
  let ?l = "the_lf s lock" and ?v = "the_lf s v"
  have ok: "range_ok ?v" "range_ok ?l" using link_pre_ok [OF pre] by auto
  have ne: "v \<noteq> lock" "v \<notin> set bp \<union> set tk \<union> set nx" "lock \<notin> set bp \<union> set tk \<union> set nx" "v < lf_brk s" "lock < lf_brk s"
    "\<forall>x \<in> set bp \<union> set tk \<union> set nx. x < lf_brk s"
    using pre by (auto simp: link_pre_def Let_def)
  note o = overlap_contains [OF ov]
  have reach: "lf_end ?v \<noteq> -1 \<longrightarrow> lf_end ?l \<noteq> -1 \<and> lf_end ?l \<le> lf_end ?v" using o by auto
  have last: "lf_brk s \<le> lf_brk s' \<Longrightarrow> \<forall>x \<in> insert lock (set bp \<union> set tk \<union> set nx). core (the_lf s' x) = core (the_lf s x) \<Longrightarrow>
      distinct parts \<Longrightarrow> set parts \<inter> (set bp \<union> set tk \<union> set nx) = {} \<Longrightarrow> fills s s' ?l ty True v parts \<Longrightarrow>
      link_post s ?l ty (bp @ tk @ v # nx) s' (bp @ tk @ parts @ nx)" for s' parts
    by (rule link_post_last [OF pre m tk reach]) simp_all
  show ?thesis
  proof (cases "lf_start ?v = lf_start ?l")
    case True
    then have o2: "lf_end ?l < lf_end ?v \<or> lf_end ?v = -1" "lf_start ?l \<le> lf_start ?v" "lf_start ?v \<le> lf_end ?l" using o ok by (auto simp: range_ok_def)
    have off: "off_t (lf_end ?l + 1) = lf_end ?l + 1" using o o2 ok by (auto simp: off_t_def range_ok_def OFF_MAX_def)
    have "link_post s ?l ty (bp @ tk @ v # nx) (cut_start v (lf_end ?l + 1) s) (bp @ tk @ (piece ty lock @ [v]) @ nx)"
    proof (rule last)
      show "fills s (cut_start v (lf_end ?l + 1) s) ?l ty True v (piece ty lock @ [v])"
        using fills_start [OF pre m o2(2) _ o2(1) o2(3) ty] o by simp
    qed (use ne in \<open>auto simp: piece_def\<close>)
    then show ?thesis using True off by simp
  next
    case False
    then have lt: "lf_start ?v < lf_start ?l" using o by simp
    show ?thesis
    proof (cases "lf_end ?l = lf_end ?v")
      case True
      have "link_post s ?l ty (bp @ tk @ v # nx) (cut_end v (lf_start ?l - 1) s) (bp @ tk @ (v # piece ty lock) @ nx)"
        by (rule last) (use ne fills_end [OF pre m lt True ty] in \<open>auto simp: piece_def\<close>)
      then show ?thesis using False ne by (auto simp: split_two [OF lt True ok] piece_def)
    next
      case end_ne: False
      have sp: "lf_split v lock s = ([v, lock, lf_brk s], split3 v ?l s)" using split_three [OF lt end_ne ok] o by blast
      have "link_post s ?l ty (bp @ tk @ v # nx) (split3 v ?l s) (bp @ tk @ (v # piece ty lock @ [lf_brk s]) @ nx)"
      proof (rule last)
        show "fills s (split3 v ?l s) ?l ty True v (v # piece ty lock @ [lf_brk s])"
          by (rule fills_split [OF pre m lt _ _ ty]) (use o end_ne in auto)
      qed (use ne in \<open>auto simp: piece_def the_split3 brk_split3\<close>)
      then show ?thesis using False ne by (auto simp: sp piece_def)
    qed
  qed
qed

theorem link_ranges:
  assumes "link_pre s lock need bp as" and "lf_type (the_lf s lock) \<noteq> F_UNLCK" and "lf_link lock need bp as s = (L', s')"
  shows "link_post s (the_lf s lock) (Some (lf_type (the_lf s lock))) (bp @ as) s' L'"
  using assms
proof (induction as arbitrary: need bp s rule: measure_induct_rule [where f = length])
  case (less as)
  let ?l = "the_lf s lock" and ?ty = "Some (lf_type (the_lf s lock))"
  note pre = less.prems(1) and un = less.prems(2) and res = less.prems(3)
  obtain ov n where f: "lf_findoverlap s as ?l SELF = (ov, n)" by fastforce
  show ?case
  proof (cases "ov = NoOverlap")
    case True
    have "lf_link lock need bp as s = (if need then (bp @ take n as) @ lock # drop n as else bp @ as, s)"
      using True by (subst lf_link.simps) (simp add: f Let_def)
    then show ?thesis using link_post_none [OF pre f [unfolded True] un] res by (simp split: if_splits)
  next
    case False
    define tk v nx where d: "tk = take n as" "v = as ! n" "nx = drop (Suc n) as"
    note fo = link_found [OF pre f False, folded d]
    have as: "as = tk @ v # nx" using fo(1) .
    note pre' = pre [unfolded as]
    have len: "length nx < length as" unfolding as by simp
    have ok: "range_ok (the_lf s v)" "range_ok ?l" using link_pre_ok [OF pre'] by auto
    have ne: "v \<noteq> lock" "v \<notin> set bp \<union> set tk \<union> set nx" "lock \<notin> set tk \<union> set nx" using pre' by (auto simp: link_pre_def Let_def)
    have nb: "need \<longrightarrow> lock \<notin> set bp" using pre by (simp add: link_pre_def Let_def)
    have np: "ov \<noteq> Overlap_panic" using overlap_no_panic [OF ok] fo(3) by auto
    have need: "ov \<in> {Equal, Contains, Before} \<Longrightarrow> need" using link_linked_cases [OF _ f, of bp] pre by (cases need) auto
    have link_eq: "lf_link lock need bp as s = (case ov of
        NoOverlap \<Rightarrow> undefined
      | Equal \<Rightarrow>
          let s1 = (if lf_type ?l = F_RDLCK \<and> lf_type (the_lf s v) = F_WRLCK then lf_wakelock v s else s)
          in (bp @ as, free_lf lock (put_lf v ((the_lf s1 v)\<lparr>lf_type := lf_type ?l\<rparr>) s1))
      | Contains \<Rightarrow>
          if lf_type (the_lf s v) = lf_type ?l then (bp @ as, free_lf lock s)
          else if lf_start (the_lf s v) = lf_start ?l
          then (bp @ tk @ lock # v # nx, lf_wakelock v (cut_start v (off_t (lf_end ?l + 1)) s))
          else (case lf_split v lock s of (parts, s1) \<Rightarrow> (bp @ tk @ parts @ nx, lf_wakelock v s1))
      | Contained \<Rightarrow>
          lf_link lock False (if need then (bp @ tk) @ [lock] else bp @ tk) nx
            (free_lf v (if lf_type ?l = F_RDLCK \<and> lf_type (the_lf s v) = F_WRLCK then lf_wakelock v s else lf_take_blocked v lock s))
      | Before \<Rightarrow> lf_link lock False (bp @ tk @ [v, lock]) nx (lf_wakelock v (cut_end v (off_t (lf_start ?l - 1)) s))
      | After \<Rightarrow> (bp @ tk @ (if need then [lock] else []) @ v # nx, lf_wakelock v (cut_start v (off_t (lf_end ?l + 1)) s))
      | Overlap_panic \<Rightarrow> undefined)"
      using False np by (subst lf_link.simps, cases ov) (simp_all add: f d Let_def)
    have last: "lf_end (the_lf s v) \<noteq> -1 \<longrightarrow> lf_end ?l \<noteq> -1 \<and> lf_end ?l \<le> lf_end (the_lf s v) \<Longrightarrow> lf_brk s \<le> lf_brk s2 \<Longrightarrow>
        \<forall>x \<in> insert lock (set bp \<union> set tk \<union> set nx). core (the_lf s2 x) = core (the_lf s x) \<Longrightarrow>
        distinct parts \<Longrightarrow> set parts \<inter> (set bp \<union> set tk \<union> set nx) = {} \<Longrightarrow> fills s s2 ?l ?ty need v parts \<Longrightarrow>
        link_post s ?l ?ty (bp @ as) s2 (bp @ tk @ parts @ nx)" for s2 parts
      unfolding as by (rule link_post_last [OF pre' fo(2,4)]) simp_all
    consider (eq) "ov = Equal" | (contains) "ov = Contains" | (contained) "ov = Contained" | (before) "ov = Before" | (after) "ov = After"
      using False np by (cases ov) auto
    then show ?thesis
    proof cases
      case eq: eq
      then have need by (simp add: need)
      note o = fo(3) [unfolded eq] and pre1 = pre' [unfolded eqTrueI [OF \<open>need\<close>]]
      have "link_post s ?l ?ty (bp @ as) (put_lf v ((the_lf s v)\<lparr>lf_type := lf_type ?l\<rparr>) s) (bp @ tk @ [v] @ nx)"
        by (rule last) (use overlap_equal [OF o] ne nb \<open>need\<close> fills_equal [OF pre1 fo(2) o un] in auto)
      then have "link_post s ?l ?ty (bp @ as) (put_lf v ((the_lf s v)\<lparr>lf_type := lf_type ?l\<rparr>) s) (bp @ as)" by (simp add: as)
      then have "link_post s ?l ?ty (bp @ as) (put_lf v ((the_lf s1 v)\<lparr>lf_type := lf_type ?l\<rparr>) s1) (bp @ as)"
        if "s1 = lf_wakelock v s \<or> s1 = s" for s1
      proof (rule link_post_core [OF _ same_core_put])
        show sc: "same_core UNIV s s1" using that same_core_wake [of UNIV s v] by (auto simp: same_core_def)
        show "core ((the_lf s1 v)\<lparr>lf_type := lf_type ?l\<rparr>) = core ((the_lf s v)\<lparr>lf_type := lf_type ?l\<rparr>)"
          by (rule core_upd) (rule same_coreD [OF sc], simp)
      qed simp_all
      then have "link_post s ?l ?ty (bp @ as) (free_lf lock (put_lf v ((the_lf s1 v)\<lparr>lf_type := lf_type ?l\<rparr>) s1)) (bp @ as)"
        if "s1 = lf_wakelock v s \<or> s1 = s" for s1
        by (rule link_free [rotated]) (use that ne nb \<open>need\<close> in \<open>auto simp: as\<close>)
      then show ?thesis using res eq link_eq by (auto simp: Let_def split: if_splits)
    next
      case contains
      then have "need" by (simp add: need)
      note o = fo(3) [unfolded contains] and pre1 = pre' [unfolded eqTrueI [OF \<open>need\<close>]]
      show ?thesis
      proof (cases "lf_type (the_lf s v) = lf_type ?l")
        case True
        have "link_post s ?l ?ty (bp @ as) s (bp @ tk @ [v] @ nx)"
          by (rule last) (use overlap_contains [OF o] ne nb \<open>need\<close> fills_same_type [OF pre1 fo(2) o True] in auto)
        then have "link_post s ?l ?ty (bp @ as) (free_lf lock s) (bp @ as)"
          using link_free [of lock "bp @ as"] ne nb \<open>need\<close> as by simp
        then show ?thesis using res contains True link_eq by simp
      next
        case False
        have "?ty = None \<or> ?ty = Some (lf_type ?l) \<and> lf_type ?l \<noteq> F_UNLCK" using un by simp
        note c = link_post_contains [OF pre1 fo(2) o fo(4) this, folded as]
        show ?thesis using res contains False link_eq c by (auto simp: piece_def intro!: link_wake split: if_splits prod.splits)
      qed
    next
      case contained
      note o = fo(3) [unfolded contained]
      define s1 where "s1 = (if lf_type ?l = F_RDLCK \<and> lf_type (the_lf s v) = F_WRLCK then lf_wakelock v s else lf_take_blocked v lock s)"
      let ?bp = "if need then (bp @ tk) @ [lock] else bp @ tk"
      have same: "same_core (insert lock (set bp \<union> set tk \<union> set nx)) s (free_lf v s1)"
        by (rule same_core_trans [OF _ same_core_free, of _ _ s1]) (use ne s1_def in \<open>auto intro: same_core_wake same_core_take\<close>)
      have l: "core (the_lf (free_lf v s1) lock) = core ?l" using same_coreD [OF same] by simp
      have "link_pre (free_lf v s1) lock False ?bp nx"
        by (subst same_core_link [OF same]) (auto simp: link_contained [OF pre' fo(2) o fo(4) un] simp del: append_assoc)
      then have "link_post (free_lf v s1) (the_lf (free_lf v s1) lock) (Some (lf_type (the_lf (free_lf v s1) lock))) (?bp @ nx) s' L'"
        by (rule less.IH [OF len]) (use un res link_eq contained core_fields [OF l] in \<open>simp_all add: s1_def\<close>)
      then have post: "link_post (free_lf v s1) ?l ?ty (?bp @ nx) s' L'" by (simp add: link_post_lock [OF l] core_fields [OF l])
      show ?thesis
      proof (rule link_post_trans [OF post])
        show "same_outside ?l (facts s (bp @ as)) (facts (free_lf v s1) (?bp @ nx))"
          unfolding as
        proof (rule link_outside_contained [OF pre' fo(2) o])
          show "same_core (set (?bp @ nx)) s (free_lf v s1)" by (rule same_core_mono [OF same]) auto
        qed auto
        show "\<forall>x \<in> set (bp @ as). \<not> mine s ?l x \<longrightarrow> x \<in> set (?bp @ nx) \<and> core (the_lf (free_lf v s1) x) = core (the_lf s x)"
          using fo(2) same_coreD [OF same] by (auto simp: as)
      qed
    next
      case before
      then have "need" by (simp add: need)
      note o = fo(3) [unfolded before] and pre1 = pre' [unfolded eqTrueI [OF \<open>need\<close>]]
      have off: "off_t (lf_start ?l - 1) = lf_start ?l - 1" by (rule before_end(1) [OF ok o])
      let ?s1 = "cut_end v (lf_start ?l - 1) s"
      let ?s2 = "lf_wakelock v ?s1"
      have same: "same_core UNIV ?s1 ?s2" by (rule same_core_wake)
      have l: "core (the_lf ?s2 lock) = core ?l" using same_coreD [OF same, of lock] ne by simp
      have "link_pre ?s2 lock False (bp @ tk @ [v, lock]) nx"
        unfolding same_core_link [OF same, of lock "bp @ tk @ [v, lock]" nx False, simplified] by (rule link_before [OF pre1 fo(2) o fo(4) un])
      then have "link_post ?s2 (the_lf ?s2 lock) (Some (lf_type (the_lf ?s2 lock))) ((bp @ tk @ [v, lock]) @ nx) s' L'"
        by (rule less.IH [OF len]) (use un res link_eq before core_fields [OF l] off in simp_all)
      then have post: "link_post ?s2 ?l ?ty (bp @ tk @ v # lock # nx) s' L'" by (simp add: link_post_lock [OF l] core_fields [OF l])
      show ?thesis
      proof (rule link_post_trans [OF post])
        have cv: "covers ((the_lf s v)\<lparr>lf_end := lf_start ?l - 1\<rparr>) k \<longleftrightarrow> covers (the_lf s v) k" if "\<not> covers ?l k" for k
          using that overlap_before [OF o] ok by (auto simp: covers_def range_ok_def)
        have "facts ?s2 L = facts ?s1 L" for L by (rule same_core_facts [OF same]) simp
        moreover have "facts ?s1 L = facts s L" if "v \<notin> set L" for L by (rule same_core_facts [of "set L"]) (use that in \<open>auto simp: same_core_def\<close>)
        ultimately show "same_outside ?l (facts s (bp @ as)) (facts ?s2 (bp @ tk @ v # lock # nx))"
          using ne cv fo(2) by (auto simp: as same_outside_def mine_def)
        show "\<forall>x \<in> set (bp @ as). \<not> mine s ?l x \<longrightarrow> x \<in> set (bp @ tk @ v # lock # nx) \<and> core (the_lf ?s2 x) = core (the_lf s x)"
          using fo(2) same_coreD [OF same] by (auto simp: as)
      qed
    next
      case after
      note o = overlap_after [OF fo(3) [unfolded after]]
      have off: "off_t (lf_end ?l + 1) = lf_end ?l + 1" by (rule after_start(1) [OF ok]) (use o ok in \<open>auto simp: range_ok_def\<close>)
      have "link_post s ?l ?ty (bp @ as) (cut_start v (lf_end ?l + 1) s) (bp @ tk @ ((if need then piece ?ty lock else []) @ [v]) @ nx)"
      proof (rule last)
        show "fills s (cut_start v (lf_end ?l + 1) s) ?l ?ty need v ((if need then piece ?ty lock else []) @ [v])"
          by (rule fills_start [OF pre' fo(2)]) (use o un in auto)
      qed (use o ne nb in \<open>auto simp: piece_def\<close>)
      then show ?thesis using res link_eq after off by (auto simp: piece_def intro!: link_wake split: if_splits)
    qed
  qed
qed

end
