(* ===== verification/Kern_Lockf_Unlink.thy ===== *)
theory Kern_Lockf_Unlink
  imports Kern_Lockf_Setlk
begin

text \<open>What the loop of \<open>lf_clearlock\<close> does to the ranges.\<close>

lemma core_overlap: "core a = core b \<Longrightarrow> core c = core d \<Longrightarrow> lf_overlap a c = lf_overlap b d"
  unfolding core_eq lf_overlap_def by (elim conjE) (simp only:)

lemma unlink_contained:
  assumes "link_pre s lock True bp (tk @ v # nx)" and "\<forall>x \<in> set tk. mine s (the_lf s lock) x \<longrightarrow> bef (the_lf s x) (the_lf s lock)"
  shows "link_pre s lock True (bp @ tk) nx"
  using assms by (auto simp: link_pre_def Let_def sorted_wrt_append)

lemma unlink_before:
  assumes pre: "link_pre s lock True bp (tk @ v # nx)" and m: "mine s (the_lf s lock) v" and ov: "lf_overlap (the_lf s v) (the_lf s lock) = Before"
    and tk: "\<forall>x \<in> set tk. mine s (the_lf s lock) x \<longrightarrow> bef (the_lf s x) (the_lf s lock)"
  shows "link_pre (cut_end v (lf_start (the_lf s lock) - 1) s) lock True (bp @ tk @ [v]) nx" (is "link_pre ?s _ _ _ _")
proof -
  let ?l = "the_lf s lock"
  have ok: "range_ok (the_lf s v)" "range_ok ?l" using link_pre_ok [OF pre] by auto
  have nb: "\<not> bef (the_lf s v) ?l" using ov overlap_none [of "the_lf s v" ?l] by auto
  have ne: "v \<notin> set bp" "v \<notin> set tk" "v \<notin> set nx" "v \<noteq> lock" "lock \<notin> set bp" "lock \<notin> set tk" "lock \<notin> set nx"
    using pre by (auto simp: link_pre_def Let_def)
  have lt: "lf_start (the_lf s v) < lf_start ?l" "0 \<le> lf_start (the_lf s v)" using overlap_before [OF ov] ok by (auto simp: range_ok_def)
  have vn: "own_order ?s v y" if "y \<in> set nx" for y
    using link_next_ahead(1) [OF pre m nb that] that ne m lt by (auto simp: own_order_def bef_def mine_def)
  have xy: "own_order ?s x y = own_order s x y" if "x \<in> set bp \<union> set tk" for x y using that ne by (intro cut_end_order) auto
  have vok: "listed_ok (lf_head ?l) ((the_lf s v)\<lparr>lf_end := lf_start ?l - 1\<rparr>)"
    using pre before_end(2) [OF ok ov] by (simp add: listed_ok_def link_pre_def Let_def)
  have mi: "mine ?s ?l x = mine s ?l x" for x by (simp add: mine_def)
  show ?thesis
    using pre ne vn vok tk lt
    by (auto simp: link_pre_def Let_def sorted_wrt_append cut_end_sorted xy mi bef_def)
qed

lemma unlink_post_none:
  assumes pre: "link_pre s lock True bp as" and f: "lf_findoverlap s as (the_lf s lock) SELF = (NoOverlap, n)"
  shows "link_post s (the_lf s lock) None (bp @ as) s (bp @ as)"
proof -
  let ?l = "the_lf s lock"
  have as: "as = take n as @ drop n as" by simp
  have srt: "sorted_wrt (own_order s) as" and ok: "\<forall>x \<in> insert lock (set bp \<union> set as). range_ok (the_lf s x)"
    using pre link_pre_ok [OF pre] by (auto simp: link_pre_def Let_def)
  have ap: "apart s ?l as" by (subst as, unfold apart_append) (use findoverlap_self_none [OF f srt] ok in \<open>simp add: apart_def\<close>)
  have bp: "apart s ?l bp" using pre by (auto simp: link_pre_def Let_def apart_def)
  have "list_ok s (lf_head ?l) (bp @ as)" using pre by (auto simp: list_ok_def link_pre_def Let_def sorted_wrt_append)
  moreover have "\<not> facts s as (lf_id ?l) k t" "\<not> facts s bp (lf_id ?l) k t" if "covers ?l k" for k t
    using apart_facts [OF ap _ _ that] apart_facts [OF bp _ _ that] ok by blast+
  ultimately show ?thesis by (auto simp: link_post_def overrides_def)
qed

lemma fills_nil:
  assumes "\<And>k. covers (the_lf s v) k \<Longrightarrow> covers l k"
  shows "fills s s l None True v []"
  using assms by (auto simp: fills_def)

theorem unlink_ranges:
  assumes "link_pre s lock True bp as" and "lf_unlink lock bp as s = (L', s')"
  shows "link_post s (the_lf s lock) None (bp @ as) s' L'"
  using assms
proof (induction as arbitrary: bp s rule: measure_induct_rule [where f = length])
  case (less as)
  let ?l = "the_lf s lock"
  note pre = less.prems(1) and res = less.prems(2)
  obtain ov n where f: "lf_findoverlap s as ?l SELF = (ov, n)" by fastforce
  show ?case
  proof (cases "ov = NoOverlap")
    case True
    have "lf_unlink lock bp as s = (bp @ as, s)" using True by (subst lf_unlink.simps) (simp add: f Let_def)
    then show ?thesis using unlink_post_none [OF pre f [unfolded True]] res by simp
  next
    case False
    define tk v nx where d: "tk = take n as" "v = as ! n" "nx = drop (Suc n) as"
    define s1 where s1: "s1 = lf_wakelock v s"
    let ?l1 = "the_lf s1 lock"
    note fo0 = link_found [OF pre f False, folded d]
    have as: "as = tk @ v # nx" using fo0(1) .
    have same: "same_core UNIV s s1" unfolding s1 by (rule same_core_wake)
    have cr: "core (the_lf s1 x) = core (the_lf s x)" for x using same_coreD [OF same] by simp
    have mi: "mine s1 ?l1 x = mine s ?l x" for x using core_fields(5) [OF cr] by (simp add: mine_def)
    have pre1: "link_pre s1 lock True bp (tk @ v # nx)" using pre same_core_link [OF same, of lock bp as True] as by simp
    have fo: "mine s1 ?l1 v" "lf_overlap (the_lf s1 v) ?l1 = ov" "\<forall>x \<in> set tk. mine s1 ?l1 x \<longrightarrow> bef (the_lf s1 x) ?l1"
      using fo0 core_overlap [OF cr cr] core_bef [OF cr cr] mi by simp_all
    have len: "length nx < length as" unfolding as by simp
    have ok: "range_ok (the_lf s1 v)" "range_ok ?l1" using link_pre_ok [OF pre1] by auto
    have ne: "v \<noteq> lock" "v \<notin> set bp \<union> set tk \<union> set nx" "lock \<notin> set bp \<union> set tk \<union> set nx" using pre1 by (auto simp: link_pre_def Let_def)
    have np: "ov \<noteq> Overlap_panic" using overlap_no_panic [OF ok] fo(2) by auto
    have goal: "link_post s ?l None (bp @ as) s' L'" if "link_post s1 ?l1 None (bp @ as) s' L'"
    proof (rule link_post_trans [of s1])
      show "link_post s1 ?l None (bp @ as) s' L'" using that link_post_lock [OF cr] by simp
      show "same_outside ?l (facts s (bp @ as)) (facts s1 (bp @ as))" using same_core_facts [OF same, of "bp @ as"] by (simp add: same_outside_def)
    qed (use cr in simp)
    have lk: "lf_start ?l1 = lf_start ?l" "lf_end ?l1 = lf_end ?l" using core_fields [OF cr] by simp_all
    have link_eq: "lf_unlink lock bp as s = (case ov of
        NoOverlap \<Rightarrow> undefined
      | Equal \<Rightarrow> (bp @ tk @ nx, free_lf v s1)
      | Contains \<Rightarrow>
          if lf_start (the_lf s1 v) = lf_start ?l1 then (bp @ tk @ v # nx, cut_start v (off_t (lf_end ?l1 + 1)) s1)
          else (case lf_split v lock s1 of (parts, s2) \<Rightarrow> (bp @ tk @ remove1 lock parts @ nx, s2))
      | Contained \<Rightarrow> lf_unlink lock (bp @ tk) nx (free_lf v s1)
      | Before \<Rightarrow> lf_unlink lock (bp @ tk @ [v]) nx (cut_end v (off_t (lf_start ?l1 - 1)) s1)
      | After \<Rightarrow> (bp @ tk @ v # nx, cut_start v (off_t (lf_end ?l1 + 1)) s1)
      | Overlap_panic \<Rightarrow> undefined)"
      using False np by (subst lf_unlink.simps, cases ov) (simp_all add: f d s1 [unfolded d, symmetric] Let_def lk)
    have last: "lf_end (the_lf s1 v) \<noteq> -1 \<longrightarrow> lf_end ?l1 \<noteq> -1 \<and> lf_end ?l1 \<le> lf_end (the_lf s1 v) \<Longrightarrow> lf_brk s1 \<le> lf_brk s2 \<Longrightarrow>
        \<forall>x \<in> insert lock (set bp \<union> set tk \<union> set nx). core (the_lf s2 x) = core (the_lf s1 x) \<Longrightarrow>
        distinct parts \<Longrightarrow> set parts \<inter> (set bp \<union> set tk \<union> set nx) = {} \<Longrightarrow> fills s1 s2 ?l1 None True v parts \<Longrightarrow>
        link_post s1 ?l1 None (bp @ as) s2 (bp @ tk @ parts @ nx)" for s2 parts
      unfolding as by (rule link_post_last [OF pre1 fo(1,3)]) simp_all
    consider (equal) "ov = Equal" | (contains) "ov = Contains" | (contained) "ov = Contained" | (before) "ov = Before" | (after) "ov = After"
      using False np by (cases ov) auto
    then show ?thesis
    proof cases
      case equal
      have o: "lf_start (the_lf s1 v) = lf_start ?l1 \<and> lf_end (the_lf s1 v) = lf_end ?l1" using overlap_equal fo(2) equal by blast
      then have "link_post s1 ?l1 None (bp @ as) s1 (bp @ tk @ [] @ nx)" by (intro last fills_nil) (auto simp: covers_def)
      then have "link_post s1 ?l1 None (bp @ as) (free_lf v s1) (bp @ tk @ nx)" using link_free ne by simp
      then show ?thesis using goal res link_eq equal by simp
    next
      case contains
      have "link_post s1 ?l1 None (bp @ as) s' L'"
        using link_post_contains [OF pre1 fo(1) _ fo(3), of None, folded as] fo(2) contains res link_eq
        by (auto simp: piece_def split: if_splits prod.splits)
      then show ?thesis by (rule goal)
    next
      case contained
      note o = overlap_contained [OF fo(2) [unfolded contained]]
      have sf: "same_core (- {v}) s1 (free_lf v s1)" by (rule same_core_free) simp
      have l: "core (the_lf (free_lf v s1) lock) = core ?l1" using same_coreD [OF sf] ne by simp
      have "link_pre (free_lf v s1) lock True (bp @ tk) nx"
        by (subst same_core_link [OF sf]) (use ne unlink_contained [OF pre1 fo(3)] in auto)
      then have "link_post (free_lf v s1) (the_lf (free_lf v s1) lock) None ((bp @ tk) @ nx) s' L'"
        by (rule less.IH [OF len]) (use res link_eq contained in simp)
      then have post: "link_post (free_lf v s1) ?l1 None ((bp @ tk) @ nx) s' L'" by (simp only: link_post_lock [OF l])
      show ?thesis
      proof (rule goal, rule link_post_trans [OF post])
        have "facts (free_lf v s1) ((bp @ tk) @ nx) = facts s1 ((bp @ tk) @ nx)" by (rule same_core_facts [OF sf]) (use ne in auto)
        moreover have "covers (the_lf s1 v) k \<Longrightarrow> covers ?l1 k" for k using o by (auto simp: covers_def)
        ultimately show "same_outside ?l1 (facts s1 (bp @ as)) (facts (free_lf v s1) ((bp @ tk) @ nx))"
          using fo(1) by (auto simp: as same_outside_def mine_def)
        show "\<forall>x \<in> set (bp @ as). \<not> mine s1 ?l1 x \<longrightarrow> x \<in> set ((bp @ tk) @ nx) \<and> core (the_lf (free_lf v s1) x) = core (the_lf s1 x)"
        proof (intro ballI impI)
          fix x assume x: "x \<in> set (bp @ as)" "\<not> mine s1 ?l1 x"
          then have "x \<noteq> v" using fo(1) by auto
          then show "x \<in> set ((bp @ tk) @ nx) \<and> core (the_lf (free_lf v s1) x) = core (the_lf s1 x)" using x by (auto simp: as)
        qed
      qed
    next
      case before
      note o = fo(2) [unfolded before]
      have off: "off_t (lf_start ?l1 - 1) = lf_start ?l1 - 1" by (rule before_end(1) [OF ok o])
      let ?s2 = "cut_end v (lf_start ?l1 - 1) s1"
      have l: "the_lf ?s2 lock = ?l1" using ne by simp
      have "link_post ?s2 (the_lf ?s2 lock) None ((bp @ tk @ [v]) @ nx) s' L'"
        by (rule less.IH [OF len unlink_before [OF pre1 fo(1) o fo(3)]]) (use res link_eq before off in simp)
      then have post: "link_post ?s2 ?l1 None (bp @ tk @ v # nx) s' L'" using l by simp
      show ?thesis
      proof (rule goal, rule link_post_trans [OF post])
        have cv: "covers ((the_lf s1 v)\<lparr>lf_end := lf_start ?l1 - 1\<rparr>) k \<longleftrightarrow> covers (the_lf s1 v) k" if "\<not> covers ?l1 k" for k
          using that overlap_before [OF o] ok by (auto simp: covers_def range_ok_def)
        have "facts ?s2 L = facts s1 L" if "v \<notin> set L" for L by (rule same_core_facts [of "set L"]) (use that in \<open>auto simp: same_core_def\<close>)
        then show "same_outside ?l1 (facts s1 (bp @ as)) (facts ?s2 (bp @ tk @ v # nx))"
          using ne cv fo(1) by (auto simp: as same_outside_def mine_def)
        show "\<forall>x \<in> set (bp @ as). \<not> mine s1 ?l1 x \<longrightarrow> x \<in> set (bp @ tk @ v # nx) \<and> core (the_lf ?s2 x) = core (the_lf s1 x)"
          using fo(1) by (auto simp: as)
      qed
    next
      case after
      note o = overlap_after [OF fo(2) [unfolded after]]
      have off: "off_t (lf_end ?l1 + 1) = lf_end ?l1 + 1" by (rule after_start(1) [OF ok]) (use o ok in \<open>auto simp: range_ok_def\<close>)
      have "link_post s1 ?l1 None (bp @ as) (cut_start v (lf_end ?l1 + 1) s1) (bp @ tk @ [v] @ nx)"
      proof (rule last)
        show "fills s1 (cut_start v (lf_end ?l1 + 1) s1) ?l1 None True v [v]"
          by (rule fills_start [OF pre1 fo(1)]) (use o in \<open>auto simp: piece_def\<close>)
      qed (use o ne in \<open>auto simp: piece_def\<close>)
      then show ?thesis using goal res link_eq after off by simp
    qed
  qed
qed

end
