(* ===== verification/Kern_Lockf_Queue.thy ===== *)
theory Kern_Lockf_Queue
  imports Kern_Lockf_Unlink
begin

text \<open>
  The queues of blocked requests. In \<open>queues A X s\<close> the set \<open>A\<close> holds the addresses that may have a queue, the listed locks and one in
  flight; a request in the queue of a lock outside \<open>X\<close> conflicts with that lock. Every structure in the store is one of \<open>A\<close> or the request
  of exactly one thread, and a thread sleeps exactly when its request is in a queue.
\<close>

definition blocked :: "lockf \<Rightarrow> lockf \<Rightarrow> bool" where "blocked a w \<longleftrightarrow> conflict a w \<and> lf_head w = lf_head a"

definition requests :: "lockfs \<Rightarrow> ptr set" where "requests s = snd ` (set (lf_asleep s) \<union> set (lf_ready s))"

definition queues :: "ptr set \<Rightarrow> ptr set \<Rightarrow> lockfs \<Rightarrow> bool" where
  "queues A X s \<longleftrightarrow>
     dom (lf_heap s) = A \<union> requests s \<and> A \<inter> requests s = {} \<and> (\<forall>x \<in> dom (lf_heap s). x < lf_brk s) \<and>
     (\<forall>a \<in> A. distinct (lf_blkhd (the_lf s a)) \<and>
        (\<forall>w \<in> set (lf_blkhd (the_lf s a)). lf_next (the_lf s w) = Some a \<and> w \<in> snd ` set (lf_asleep s) \<and>
           (a \<notin> X \<longrightarrow> blocked (the_lf s a) (the_lf s w)))) \<and>
     (\<forall>w \<in> snd ` set (lf_asleep s). \<exists>a \<in> A. lf_next (the_lf s w) = Some a \<and> w \<in> set (lf_blkhd (the_lf s a))) \<and>
     (\<forall>w \<in> snd ` set (lf_ready s). lf_next (the_lf s w) = None) \<and>
     (\<forall>w \<in> requests s. listed_ok (lf_head (the_lf s w)) (the_lf s w) \<and> lf_blkhd (the_lf s w) = []) \<and>
     (\<forall>x. count (image_mset fst (threads_of s)) x \<le> 1) \<and> (\<forall>x. count (image_mset snd (threads_of s)) x \<le> 1)"

lemma requests_threads: "requests s = snd ` set_mset (threads_of s)"
  by (simp add: requests_def threads_of_def)

lemma queues_dom: "queues A X s \<Longrightarrow> dom (lf_heap s) = A \<union> requests s" by (simp add: queues_def)
lemma queues_disj: "queues A X s \<Longrightarrow> A \<inter> requests s = {}" by (simp add: queues_def)
lemma queues_brk: "queues A X s \<Longrightarrow> x \<in> A \<union> requests s \<Longrightarrow> x < lf_brk s" by (simp add: queues_def)
lemma queues_distinct: "queues A X s \<Longrightarrow> a \<in> A \<Longrightarrow> distinct (lf_blkhd (the_lf s a))" by (simp add: queues_def)
lemma queues_next: "queues A X s \<Longrightarrow> a \<in> A \<Longrightarrow> w \<in> set (lf_blkhd (the_lf s a)) \<Longrightarrow> lf_next (the_lf s w) = Some a \<and> w \<in> snd ` set (lf_asleep s)"
  by (simp add: queues_def)
lemma queues_blocked: "queues A X s \<Longrightarrow> a \<in> A \<Longrightarrow> a \<notin> X \<Longrightarrow> w \<in> set (lf_blkhd (the_lf s a)) \<Longrightarrow> blocked (the_lf s a) (the_lf s w)"
  by (simp add: queues_def)
lemma queues_asleep: "queues A X s \<Longrightarrow> w \<in> snd ` set (lf_asleep s) \<Longrightarrow> \<exists>a \<in> A. lf_next (the_lf s w) = Some a \<and> w \<in> set (lf_blkhd (the_lf s a))"
  unfolding queues_def by meson
lemma queues_ready: "queues A X s \<Longrightarrow> w \<in> snd ` set (lf_ready s) \<Longrightarrow> lf_next (the_lf s w) = None" unfolding queues_def by meson
lemma queues_request: "queues A X s \<Longrightarrow> w \<in> requests s \<Longrightarrow> listed_ok (lf_head (the_lf s w)) (the_lf s w) \<and> lf_blkhd (the_lf s w) = []"
  unfolding queues_def by meson
lemma queues_threads: "queues A X s \<Longrightarrow> count (image_mset fst (threads_of s)) x \<le> 1" "queues A X s \<Longrightarrow> count (image_mset snd (threads_of s)) x \<le> 1"
  unfolding queues_def by meson+

lemma queues_own:
  assumes "queues A X s" and "a \<in> A"
  shows "set (lf_blkhd (the_lf s a)) \<subseteq> requests s" and "a \<notin> set (lf_blkhd (the_lf s a))" and "set (lf_blkhd (the_lf s a)) \<inter> A = {}"
    and "insert a (set (lf_blkhd (the_lf s a))) \<subseteq> dom (lf_heap s)" and "a < lf_brk s"
proof -
  show *: "set (lf_blkhd (the_lf s a)) \<subseteq> requests s" using queues_next [OF assms] by (auto simp: requests_def)
  then show "set (lf_blkhd (the_lf s a)) \<inter> A = {}" "a \<notin> set (lf_blkhd (the_lf s a))" "insert a (set (lf_blkhd (the_lf s a))) \<subseteq> dom (lf_heap s)"
    using queues_disj [OF assms(1)] assms(2) queues_dom [OF assms(1)] by blast+
  show "a < lf_brk s" using queues_brk [OF assms(1)] assms(2) by blast
qed

lemma queues_once:
  assumes "queues A X s" and "a \<in> A" and "b \<in> A" and "w \<in> set (lf_blkhd (the_lf s a))" and "w \<in> set (lf_blkhd (the_lf s b))"
  shows "a = b"
  using queues_next [OF assms(1,2,4)] queues_next [OF assms(1,3,5)] by simp

lemma wakelock_requests: "requests (lf_wakelock a s) = requests s"
  by (simp add: requests_threads wakelock_threads)

lemma queues_wake:
  assumes q: "queues A X s" and a: "a \<in> A"
  shows "queues A (X - {a}) (lf_wakelock a s)"
proof -
  let ?q = "lf_blkhd (the_lf s a)" and ?s = "lf_wakelock a s"
  note own = queues_own [OF q a]
  have the: "the_lf ?s x = (if x = a then (the_lf s a)\<lparr>lf_blkhd := []\<rparr> else if x \<in> set ?q then (the_lf s x)\<lparr>lf_next := None\<rparr> else the_lf s x)" for x
    by (rule wakelock_store [OF refl own(2)])
  note sch = wakelock_sched [OF refl own(2)]
  have dom: "dom (lf_heap ?s) = dom (lf_heap s)" by (rule wakelock_dom [OF own(4,2)])
  have brk: "lf_brk ?s = lf_brk s" using wakelock_env [of a s] by (simp add: env_def)
  show ?thesis
    unfolding queues_def wakelock_requests dom brk wakelock_threads
  proof (intro conjI)
    show "dom (lf_heap s) = A \<union> requests s" "A \<inter> requests s = {}" "\<forall>x \<in> dom (lf_heap s). x < lf_brk s"
      "\<forall>x. count (image_mset fst (threads_of s)) x \<le> 1" "\<forall>x. count (image_mset snd (threads_of s)) x \<le> 1"
      using queues_dom [OF q] queues_disj [OF q] queues_brk [OF q] queues_threads [OF q] by simp_all
    show "\<forall>b \<in> A. distinct (lf_blkhd (the_lf ?s b)) \<and> (\<forall>w \<in> set (lf_blkhd (the_lf ?s b)). lf_next (the_lf ?s w) = Some b
            \<and> w \<in> snd ` set (lf_asleep ?s) \<and> (b \<notin> X - {a} \<longrightarrow> blocked (the_lf ?s b) (the_lf ?s w)))"
    proof
      fix b assume b: "b \<in> A"
      show "distinct (lf_blkhd (the_lf ?s b)) \<and> (\<forall>w \<in> set (lf_blkhd (the_lf ?s b)). lf_next (the_lf ?s w) = Some b
            \<and> w \<in> snd ` set (lf_asleep ?s) \<and> (b \<notin> X - {a} \<longrightarrow> blocked (the_lf ?s b) (the_lf ?s w)))"
      proof (cases "b = a")
        case True
        then show ?thesis by (simp add: the)
      next
        case False
        have eq: "the_lf ?s b = the_lf s b" using False own(3) b by (auto simp: the)
        have ws: "the_lf ?s w = the_lf s w \<and> w \<in> snd ` set (lf_asleep ?s) \<and> (b \<notin> X \<longrightarrow> blocked (the_lf s b) (the_lf s w)) \<and> lf_next (the_lf s w) = Some b"
          if w: "w \<in> set (lf_blkhd (the_lf s b))" for w
        proof -
          have "w \<notin> set ?q" using queues_once [OF q a b _ w] False by blast
          moreover have "w \<noteq> a" using queues_own(3) [OF q b] w a by blast
          moreover have "w \<in> snd ` set (lf_asleep s) \<and> (b \<notin> X \<longrightarrow> blocked (the_lf s b) (the_lf s w)) \<and> lf_next (the_lf s w) = Some b"
            using queues_next [OF q b w] queues_blocked [OF q b _ w] by blast
          ultimately show ?thesis using sch by (force simp: the)
        qed
        have "distinct (lf_blkhd (the_lf s b))" by (rule queues_distinct [OF q b])
        then show ?thesis using ws False unfolding eq by auto
      qed
    qed
    show "\<forall>w \<in> snd ` set (lf_asleep ?s). \<exists>b \<in> A. lf_next (the_lf ?s w) = Some b \<and> w \<in> set (lf_blkhd (the_lf ?s b))"
    proof
      fix w assume "w \<in> snd ` set (lf_asleep ?s)"
      then have w: "w \<in> snd ` set (lf_asleep s)" "w \<notin> set ?q" using sch by auto
      obtain b where b: "b \<in> A" "lf_next (the_lf s w) = Some b" "w \<in> set (lf_blkhd (the_lf s b))" using queues_asleep [OF q w(1)] by blast
      have "b \<noteq> a" "w \<noteq> a" "b \<notin> set ?q" using b w(2) queues_own(3) [OF q b(1)] a own(3) by blast+
      then show "\<exists>b \<in> A. lf_next (the_lf ?s w) = Some b \<and> w \<in> set (lf_blkhd (the_lf ?s b))"
        using b w(2) by (intro bexI [of _ b]) (simp_all add: the)
    qed
    show "\<forall>w \<in> snd ` set (lf_ready ?s). lf_next (the_lf ?s w) = None"
    proof
      fix w assume "w \<in> snd ` set (lf_ready ?s)"
      then have w: "w \<in> snd ` set (lf_ready s) \<or> w \<in> set ?q" using sch by auto
      have "w \<in> requests s" using w own(1) by (auto simp: requests_def)
      then have "w \<noteq> a" using queues_disj [OF q] a by blast
      moreover have "w \<in> snd ` set (lf_ready s) \<Longrightarrow> lf_next (the_lf s w) = None" by (rule queues_ready [OF q])
      ultimately show "lf_next (the_lf ?s w) = None" using w by (auto simp: the)
    qed
    have "w \<noteq> a" if "w \<in> requests s" for w using queues_disj [OF q] a that by blast
    moreover have "\<forall>w \<in> requests s. listed_ok (lf_head (the_lf s w)) (the_lf s w) \<and> lf_blkhd (the_lf s w) = []" using queues_request [OF q] by blast
    ultimately show "\<forall>w \<in> requests s. listed_ok (lf_head (the_lf ?s w)) (the_lf ?s w) \<and> lf_blkhd (the_lf ?s w) = []"
      by (auto simp: the listed_ok_def range_ok_def)
  qed
qed

lemma wake_empty: "queues A X s \<Longrightarrow> a \<in> A \<Longrightarrow> lf_blkhd (the_lf (lf_wakelock a s) a) = []"
  using wakelock_store [OF refl queues_own(2), of A X s a a] by simp

lemma requests_put [simp]: "requests (put_lf a l s) = requests s" by (simp add: requests_def)
lemma requests_free [simp]: "requests (free_lf a s) = requests s" by (simp add: requests_def)
lemma requests_new [simp]: "requests (snd (new_lf l s)) = requests s" by (simp add: requests_def new_lf_def)
lemma requests_set_list [simp]: "requests (set_list h L s) = requests s" by (simp add: requests_def)

text \<open>One rule for the steps that leave the threads and the requests alone.\<close>

lemma queues_step:
  assumes q: "queues A X s" and dom: "dom (lf_heap s') = A' \<union> requests s" "A' \<inter> requests s = {}" "\<forall>x \<in> A' \<union> requests s. x < lf_brk s'"
    and sched: "lf_asleep s' = lf_asleep s" "lf_ready s' = lf_ready s"
    and req: "\<forall>w \<in> requests s. the_lf s' w = the_lf s w"
    and old: "\<forall>a \<in> A \<inter> A'. lf_blkhd (the_lf s' a) = lf_blkhd (the_lf s a)" and new: "\<forall>a \<in> A' - A. lf_blkhd (the_lf s' a) = []"
    and gone: "\<forall>a \<in> A - A'. lf_blkhd (the_lf s a) = []"
    and conf: "\<forall>a \<in> A \<inter> A'. a \<notin> X' \<longrightarrow> (\<forall>w \<in> set (lf_blkhd (the_lf s a)). blocked (the_lf s' a) (the_lf s w))"
  shows "queues A' X' s'"
proof -
  have r: "requests s' = requests s" "threads_of s' = threads_of s" using sched by (simp_all add: requests_def threads_of_def)
  have rw: "w \<in> set (lf_blkhd (the_lf s a)) \<Longrightarrow> a \<in> A \<Longrightarrow> w \<in> requests s" for w a using queues_own(1) [OF q] by blast
  show ?thesis
    unfolding queues_def r sched
  proof (intro conjI)
    show "dom (lf_heap s') = A' \<union> requests s" "A' \<inter> requests s = {}" "\<forall>x \<in> dom (lf_heap s'). x < lf_brk s'" using dom by simp_all
    show "\<forall>x. count (image_mset fst (threads_of s)) x \<le> 1" "\<forall>x. count (image_mset snd (threads_of s)) x \<le> 1"
      using queues_threads [OF q] by simp_all
    show "\<forall>a \<in> A'. distinct (lf_blkhd (the_lf s' a)) \<and> (\<forall>w \<in> set (lf_blkhd (the_lf s' a)). lf_next (the_lf s' w) = Some a
            \<and> w \<in> snd ` set (lf_asleep s) \<and> (a \<notin> X' \<longrightarrow> blocked (the_lf s' a) (the_lf s' w)))"
    proof
      fix a assume a: "a \<in> A'"
      show "distinct (lf_blkhd (the_lf s' a)) \<and> (\<forall>w \<in> set (lf_blkhd (the_lf s' a)). lf_next (the_lf s' w) = Some a
            \<and> w \<in> snd ` set (lf_asleep s) \<and> (a \<notin> X' \<longrightarrow> blocked (the_lf s' a) (the_lf s' w)))"
      proof (cases "a \<in> A")
        case True
        have eq: "lf_blkhd (the_lf s' a) = lf_blkhd (the_lf s a)" using old True a by blast
        show ?thesis unfolding eq
          using queues_distinct [OF q True] queues_next [OF q True] rw [OF _ True] req conf True a by (intro conjI ballI) (auto)
      next
        case False
        then show ?thesis using new a by simp
      qed
    qed
    show "\<forall>w \<in> snd ` set (lf_asleep s). \<exists>a \<in> A'. lf_next (the_lf s' w) = Some a \<and> w \<in> set (lf_blkhd (the_lf s' a))"
    proof
      fix w assume w: "w \<in> snd ` set (lf_asleep s)"
      then have "w \<in> requests s" by (auto simp: requests_def)
      then have w': "the_lf s' w = the_lf s w" using req by blast
      obtain a where a: "a \<in> A" "lf_next (the_lf s w) = Some a" "w \<in> set (lf_blkhd (the_lf s a))" using queues_asleep [OF q w] by blast
      then have "a \<in> A'" using gone by (metis Diff_iff empty_iff list.set(1))
      then show "\<exists>a \<in> A'. lf_next (the_lf s' w) = Some a \<and> w \<in> set (lf_blkhd (the_lf s' a))" using a w' old by (intro bexI [of _ a]) auto
    qed
    show "\<forall>w \<in> snd ` set (lf_ready s). lf_next (the_lf s' w) = None"
    proof
      fix w assume w: "w \<in> snd ` set (lf_ready s)"
      then have "w \<in> requests s" by (auto simp: requests_def)
      then show "lf_next (the_lf s' w) = None" using req queues_ready [OF q w] by simp
    qed
    show "\<forall>w \<in> requests s. listed_ok (lf_head (the_lf s' w)) (the_lf s' w) \<and> lf_blkhd (the_lf s' w) = []"
      using req queues_request [OF q] by simp
  qed
qed

lemma queues_put:
  assumes q: "queues A X s" and a: "a \<in> A" and b: "lf_blkhd l = lf_blkhd (the_lf s a)"
  shows "queues A (insert a X) (put_lf a l s)"
proof (rule queues_step [OF q])
  have "\<forall>w \<in> requests s. w \<noteq> a" using queues_disj [OF q] a by blast
  then show "\<forall>w \<in> requests s. the_lf (put_lf a l s) w = the_lf s w" by simp
  show "dom (lf_heap (put_lf a l s)) = A \<union> requests s" using queues_dom [OF q] a by auto
  show "\<forall>c \<in> A \<inter> A. c \<notin> insert a X \<longrightarrow> (\<forall>w \<in> set (lf_blkhd (the_lf s c)). blocked (the_lf (put_lf a l s) c) (the_lf s w))"
    using queues_blocked [OF q] by simp
qed (use b queues_disj [OF q] queues_brk [OF q] in simp_all)

lemma queues_restore:
  assumes q: "queues A X s" and c: "\<forall>a \<in> A \<inter> X. \<forall>w \<in> set (lf_blkhd (the_lf s a)). blocked (the_lf s a) (the_lf s w)"
  shows "queues A Y s"
proof (rule queues_step [OF q])
  show "\<forall>a \<in> A \<inter> A. a \<notin> Y \<longrightarrow> (\<forall>w \<in> set (lf_blkhd (the_lf s a)). blocked (the_lf s a) (the_lf s w))"
    using c queues_blocked [OF q] by blast
qed (use queues_dom [OF q] queues_disj [OF q] queues_brk [OF q] in simp_all)

lemma queues_free:
  assumes q: "queues A X s" and a: "a \<in> A" and e: "lf_blkhd (the_lf s a) = []"
  shows "queues (A - {a}) X (free_lf a s)"
proof (rule queues_step [OF q])
  have ne: "\<forall>w \<in> requests s. w \<noteq> a" using queues_disj [OF q] a by blast
  then show "\<forall>w \<in> requests s. the_lf (free_lf a s) w = the_lf s w" by simp
  show "dom (lf_heap (free_lf a s)) = A - {a} \<union> requests s" using queues_dom [OF q] ne by auto
  show "\<forall>c \<in> A \<inter> (A - {a}). c \<notin> X \<longrightarrow> (\<forall>w \<in> set (lf_blkhd (the_lf s c)). blocked (the_lf (free_lf a s) c) (the_lf s w))"
    using queues_blocked [OF q] by simp
qed (use e queues_disj [OF q] queues_brk [OF q] in auto)

lemma queues_new:
  assumes q: "queues A X s" and e: "lf_blkhd l = []"
  shows "queues (insert (lf_brk s) A) X (snd (new_lf l s))"
proof (rule queues_step [OF q])
  have ne: "\<forall>w \<in> A \<union> requests s. w \<noteq> lf_brk s" using queues_brk [OF q] by blast
  then show "\<forall>w \<in> requests s. the_lf (snd (new_lf l s)) w = the_lf s w" by (simp add: the_new)
  show "dom (lf_heap (snd (new_lf l s))) = insert (lf_brk s) A \<union> requests s" using queues_dom [OF q] by (auto simp: new_lf_def)
  show "\<forall>c \<in> A \<inter> insert (lf_brk s) A. c \<notin> X \<longrightarrow> (\<forall>w \<in> set (lf_blkhd (the_lf s c)). blocked (the_lf (snd (new_lf l s)) c) (the_lf s w))"
    using queues_blocked [OF q] ne by (simp add: the_new)
  show "\<forall>a \<in> A \<inter> insert (lf_brk s) A. lf_blkhd (the_lf (snd (new_lf l s)) a) = lf_blkhd (the_lf s a)" using ne by (simp add: the_new)
  show "\<forall>a \<in> insert (lf_brk s) A - A. lf_blkhd (the_lf (snd (new_lf l s)) a) = []" using e by (auto simp: the_new)
  show "insert (lf_brk s) A \<inter> requests s = {}" using ne queues_disj [OF q] by auto
  show "\<forall>x \<in> insert (lf_brk s) A \<union> requests s. x < lf_brk (snd (new_lf l s))" using queues_brk [OF q] by (auto simp: new_lf_def less_SucI)
qed (auto simp: new_lf_def)

lemma take_threads: "lf_asleep (lf_take_blocked a l s) = lf_asleep s" "lf_ready (lf_take_blocked a l s) = lf_ready s"
  using take_sched [of a l s] by (simp_all add: sched_def)

lemma queues_take:
  assumes q: "queues A X s" and a: "a \<in> A" and l: "l \<in> A" "l \<noteq> a"
    and c: "\<forall>w \<in> set (lf_blkhd (the_lf s a)). blocked (the_lf s l) (the_lf s w)"
  shows "queues A X (lf_take_blocked a l s) \<and> lf_blkhd (the_lf (lf_take_blocked a l s) a) = []"
proof
  let ?q = "lf_blkhd (the_lf s a)" and ?s = "lf_take_blocked a l s"
  have lq: "l \<notin> set ?q" using queues_own(3) [OF q a] l(1) by blast
  note st = take_store [OF refl queues_own(2) [OF q a] lq l(2) [symmetric]]
  have the: "the_lf ?s x = (if x = a then (the_lf s a)\<lparr>lf_blkhd := []\<rparr> else if x = l then (the_lf s l)\<lparr>lf_blkhd := lf_blkhd (the_lf s l) @ ?q\<rparr>
            else if x \<in> set ?q then (the_lf s x)\<lparr>lf_next := Some l\<rparr> else the_lf s x)" for x using st by blast
  have dom: "dom (lf_heap ?s) = dom (lf_heap s)" using st queues_own(4) [OF q a] queues_dom [OF q] l by blast
  have brk: "lf_brk ?s = lf_brk s" using take_env [of a l s] by (simp add: env_def)
  have r: "requests ?s = requests s" "threads_of ?s = threads_of s" by (simp_all add: requests_def threads_of_def take_threads)
  show "lf_blkhd (the_lf ?s a) = []" by (simp add: the)
  have bc: "blocked (the_lf ?s x) (the_lf ?s w) = blocked (the_lf s x) (the_lf s w)" for x w
    by (simp add: the blocked_def conflict_def bef_def)
  have ra: "w \<noteq> a \<and> w \<noteq> l" if "w \<in> requests s" for w using queues_disj [OF q] a l that by blast
  show "queues A X ?s"
    unfolding queues_def dom brk r take_threads bc
  proof (intro conjI)
    show "dom (lf_heap s) = A \<union> requests s" "A \<inter> requests s = {}" "\<forall>x \<in> dom (lf_heap s). x < lf_brk s"
      "\<forall>x. count (image_mset fst (threads_of s)) x \<le> 1" "\<forall>x. count (image_mset snd (threads_of s)) x \<le> 1"
      using queues_dom [OF q] queues_disj [OF q] queues_brk [OF q] queues_threads [OF q] by simp_all
    show "\<forall>b \<in> A. distinct (lf_blkhd (the_lf ?s b)) \<and> (\<forall>w \<in> set (lf_blkhd (the_lf ?s b)). lf_next (the_lf ?s w) = Some b
            \<and> w \<in> snd ` set (lf_asleep s) \<and> (b \<notin> X \<longrightarrow> blocked (the_lf s b) (the_lf s w)))"
    proof
      fix b assume b: "b \<in> A"
      have dis: "set (lf_blkhd (the_lf s b)) \<inter> set ?q = {}" if "b \<noteq> a" using queues_once [OF q a b] that by blast
      have wr: "w \<in> requests s" if "w \<in> set (lf_blkhd (the_lf s b)) \<union> set ?q" for w using queues_own(1) [OF q a] queues_own(1) [OF q b] that by blast
      consider "b = a" | "b = l" | "b \<noteq> a" "b \<noteq> l" by blast
      then show "distinct (lf_blkhd (the_lf ?s b)) \<and> (\<forall>w \<in> set (lf_blkhd (the_lf ?s b)). lf_next (the_lf ?s w) = Some b
            \<and> w \<in> snd ` set (lf_asleep s) \<and> (b \<notin> X \<longrightarrow> blocked (the_lf s b) (the_lf s w)))"
      proof cases
        case 2
        have "lf_blkhd (the_lf ?s l) = lf_blkhd (the_lf s l) @ ?q" using l(2) by (simp add: the)
        moreover have "distinct (lf_blkhd (the_lf s l) @ ?q)" using dis 2 l(2) queues_distinct [OF q a] queues_distinct [OF q l(1)] by simp
        moreover have "lf_next (the_lf ?s w) = Some l \<and> w \<in> snd ` set (lf_asleep s) \<and> (l \<notin> X \<longrightarrow> blocked (the_lf s l) (the_lf s w))"
          if "w \<in> set (lf_blkhd (the_lf s l) @ ?q)" for w
        proof (cases "w \<in> set ?q")
          case True
          then show ?thesis using ra [OF wr] queues_next [OF q a] c by (simp add: the)
        next
          case False
          then have "w \<in> set (lf_blkhd (the_lf s l))" using that by simp
          then show ?thesis using False ra [OF wr] 2 queues_next [OF q l(1)] queues_blocked [OF q l(1)] by (simp add: the)
        qed
        ultimately show ?thesis unfolding 2 by simp
      next
        case 3
        have "b \<notin> set ?q" using queues_own(3) [OF q a] b by blast
        then have "lf_blkhd (the_lf ?s b) = lf_blkhd (the_lf s b)" using 3 by (simp add: the)
        moreover have "lf_next (the_lf ?s w) = Some b \<and> w \<in> snd ` set (lf_asleep s) \<and> (b \<notin> X \<longrightarrow> blocked (the_lf s b) (the_lf s w))"
          if w: "w \<in> set (lf_blkhd (the_lf s b))" for w
        proof -
          have "w \<notin> set ?q" using dis [OF 3(1)] w by blast
          then show ?thesis using ra [OF wr] w queues_next [OF q b w] queues_blocked [OF q b _ w] by (simp add: the)
        qed
        ultimately show ?thesis using queues_distinct [OF q b] by simp
      qed (simp add: the)
    qed
    show "\<forall>w \<in> snd ` set (lf_asleep s). \<exists>b \<in> A. lf_next (the_lf ?s w) = Some b \<and> w \<in> set (lf_blkhd (the_lf ?s b))"
    proof
      fix w assume w: "w \<in> snd ` set (lf_asleep s)"
      then have wn: "w \<noteq> a" "w \<noteq> l" using ra [of w] by (auto simp: requests_def)
      obtain b where b: "b \<in> A" "lf_next (the_lf s w) = Some b" "w \<in> set (lf_blkhd (the_lf s b))" using queues_asleep [OF q w] by blast
      show "\<exists>b \<in> A. lf_next (the_lf ?s w) = Some b \<and> w \<in> set (lf_blkhd (the_lf ?s b))"
      proof (cases "b = a")
        case True
        then show ?thesis using b wn l by (intro bexI [of _ l]) (simp_all add: the)
      next
        case False
        then have "w \<notin> set ?q" using queues_once [OF q a b(1) _ b(3)] by blast
        moreover have "b \<notin> set ?q" using queues_own(3) [OF q a] b(1) by blast
        ultimately show ?thesis using b wn False by (intro bexI [of _ b]) (auto simp: the)
      qed
    qed
    show "\<forall>w \<in> snd ` set (lf_ready s). lf_next (the_lf ?s w) = None"
    proof
      fix w assume w: "w \<in> snd ` set (lf_ready s)"
      then have wn: "w \<noteq> a" "w \<noteq> l" using ra [of w] by (auto simp: requests_def)
      have "w \<notin> set ?q" using queues_ready [OF q w] queues_next [OF q a, of w] by auto
      then show "lf_next (the_lf ?s w) = None" using queues_ready [OF q w] wn by (simp add: the)
    qed
    show "\<forall>w \<in> requests s. listed_ok (lf_head (the_lf ?s w)) (the_lf ?s w) \<and> lf_blkhd (the_lf ?s w) = []"
      using queues_request [OF q] ra by (auto simp: the listed_ok_def range_ok_def)
  qed
qed

end
