(* ===== verification/Kern_Lockf_Walk.thy ===== *)
theory Kern_Lockf_Walk
  imports Kern_Lockf_Queue
begin

text \<open>What the two walks do to the queues, and what they leave alone.\<close>

definition frame :: "ptr set \<Rightarrow> lockfs \<Rightarrow> lockfs \<Rightarrow> bool" where
  "frame K s s' \<longleftrightarrow> (\<forall>x \<in> K. core (the_lf s' x) = core (the_lf s x)) \<and> lf_lists s' = lf_lists s \<and> p_threads s' = p_threads s
     \<and> lf_p_pid s' = lf_p_pid s \<and> lf_brk s \<le> lf_brk s' \<and> threads_of s' = threads_of s"

lemma frame_refl: "frame K s s" by (simp add: frame_def)
lemma frame_trans: "frame K s t \<Longrightarrow> frame K t u \<Longrightarrow> frame K s u" by (simp add: frame_def)
lemma frame_mono: "frame K s t \<Longrightarrow> J \<subseteq> K \<Longrightarrow> frame J s t" by (auto simp: frame_def)

lemma frame_wake: "frame K s (lf_wakelock a s)"
  using wakelock_core wakelock_env [of a s] wakelock_threads by (simp add: frame_def env_def)

lemma frame_take: "frame K s (lf_take_blocked a l s)"
  using take_core take_env [of a l s] take_sched [of a l s] by (simp add: frame_def env_def sched_def threads_of_def)

lemma frame_put: "a \<notin> K \<Longrightarrow> frame K s (put_lf a l s)" by (auto simp: frame_def put_lf_def the_lf_def threads_of_def)
lemma frame_free: "a \<notin> K \<Longrightarrow> frame K s (free_lf a s)" by (auto simp: frame_def free_lf_def the_lf_def threads_of_def)
lemma frame_new: "lf_brk s \<notin> K \<Longrightarrow> frame K s (snd (new_lf l s))" by (auto simp: frame_def new_lf_def the_lf_def threads_of_def)
lemma frame_put_core: "core l = core (the_lf s a) \<Longrightarrow> frame K s (put_lf a l s)" by (auto simp: frame_def put_lf_def the_lf_def threads_of_def)

lemma wake_other:
  assumes "queues A X s" and "a \<in> A" and "b \<in> A" and "b \<noteq> a"
  shows "lf_blkhd (the_lf (lf_wakelock a s) b) = lf_blkhd (the_lf s b)"
  using wakelock_store [OF refl queues_own(2) [OF assms(1,2)], of b] assms(4) by simp

lemma cut_wake: "queues A {} s \<Longrightarrow> a \<in> A \<Longrightarrow> lf_blkhd l = lf_blkhd (the_lf s a) \<Longrightarrow> queues A {} (lf_wakelock a (put_lf a l s))"
  using queues_wake [OF queues_put, of A "{}" s a l a] by simp

lemma wake_cut:
  assumes "queues A {} s" and "a \<in> A" and "lf_blkhd (the_lf s a) = []" and "lf_blkhd l = []"
  shows "queues A {} (put_lf a l s)"
  using queues_put [OF assms(1,2), of l] by (rule queues_restore) (use assms in auto)

lemma blocked_type:
  assumes "blocked a w" and "lf_type w \<noteq> F_UNLCK" and "lf_type a \<noteq> F_UNLCK" and "t \<noteq> F_UNLCK" and "\<not> (t = F_RDLCK \<and> lf_type a = F_WRLCK)"
  shows "blocked (a\<lparr>lf_type := t\<rparr>) w"
  using assms by (cases t; cases "lf_type a") (auto simp: blocked_def conflict_def bef_def)

lemma blocked_contained:
  assumes "blocked a w" and "lf_overlap a l = Contained" and "lf_id a = lf_id l" and "lf_head a = lf_head l" and "range_ok a" and "range_ok l" and "range_ok w"
    and "lf_type a \<noteq> F_UNLCK" and "lf_type l \<noteq> F_UNLCK" and "\<not> (lf_type l = F_RDLCK \<and> lf_type a = F_WRLCK)"
  shows "blocked l w"
proof -
  have "lf_type w = F_WRLCK \<or> lf_type l = F_WRLCK" using assms(1,8-10) by (cases "lf_type l"; cases "lf_type a") (auto simp: blocked_def conflict_def)
  moreover have "\<not> bef l w" "\<not> bef w l" using assms(1,5-7) overlap_contained [OF assms(2)] by (auto simp: blocked_def conflict_def bef_def range_ok_def)
  ultimately show ?thesis using assms(1,3,4) by (auto simp: blocked_def conflict_def)
qed

lemma lf_split_queues:
  assumes "queues A {} s" and "v \<in> A" and "lf_split v lock s = (parts, s1)" and "parts = [v, lock] \<or> parts = [v, lock, lf_brk s]"
    and "lf_start (the_lf s v) \<noteq> lf_start (the_lf s lock)"
    and "lock < lf_brk s"
  shows "queues (A \<union> (set parts - {lock})) {v} s1" and "K \<inter> {v, lf_brk s} = {} \<Longrightarrow> frame K s s1"
    and "lf_blkhd (the_lf s1 v) = lf_blkhd (the_lf s v)"
proof -
  let ?l1 = "the_lf s v" and ?l2 = "the_lf s lock"
  have v: "v < lf_brk s" using queues_own(5) [OF assms(1,2)] .
  show "queues (A \<union> (set parts - {lock})) {v} s1"
  proof (cases "lf_end ?l1 = lf_end ?l2")
    case True
    then have s1: "parts = [v, lock]" "s1 = cut_end v (off_t (lf_start ?l2 - 1)) s" using assms(3,5) by (auto simp: lf_split_def Let_def)
    have "A \<union> (set parts - {lock}) = A" using s1(1) assms(2) by auto
    then show ?thesis unfolding s1 using queues_put [OF assms(1,2)] s1(1) by simp
  next
    case False
    let ?n = "?l1\<lparr>lf_start := off_t (lf_end ?l2 + 1), lf_blkhd := []\<rparr>"
    have s1: "parts = [v, lock, lf_brk s]" "s1 = put_lf v (?l1\<lparr>lf_end := off_t (lf_start ?l2 - 1)\<rparr>) (snd (new_lf ?n s))"
      using False assms(3,5) by (auto simp: lf_split_def Let_def new_lf_def)
    have q: "queues (insert (lf_brk s) A) {} (snd (new_lf ?n s))" by (rule queues_new [OF assms(1)]) simp
    have p: "queues (insert (lf_brk s) A) {v} s1" unfolding s1(2)
      by (rule queues_put [OF q]) (use assms(2) v in \<open>simp_all add: the_new\<close>)
    have "A \<union> (set parts - {lock}) = insert (lf_brk s) A" using s1(1) assms(2,6) by auto
    then show ?thesis using p by simp
  qed
  show "frame K s s1" if "K \<inter> {v, lf_brk s} = {}"
    using assms(3,5) that by (auto simp: lf_split_def Let_def new_lf_def frame_def put_lf_def the_lf_def threads_of_def split: if_splits)
  show "lf_blkhd (the_lf s1 v) = lf_blkhd ?l1"
    using assms(3,5) v by (auto simp: lf_split_def Let_def new_lf_def put_lf_def the_lf_def split: if_splits)
qed

lemma frame_requests: "frame K s s' \<Longrightarrow> requests s' = requests s" by (simp add: frame_def requests_threads)

lemma off_start: "range_ok l \<Longrightarrow> lf_end l \<noteq> -1 \<Longrightarrow> off_t (lf_end l + 1) = lf_end l + 1" by (auto simp: off_t_def range_ok_def OFF_MAX_def)

theorem link_queues:
  assumes "link_pre s lock need bp as" and "lf_type (the_lf s lock) \<noteq> F_UNLCK" and "lf_link lock need bp as s = (L', s')"
    and "queues (B \<union> insert lock (set bp \<union> set as)) {} s" and "B \<inter> insert lock (set bp \<union> set as) = {}" and "need \<longrightarrow> lf_blkhd (the_lf s lock) = []"
  shows "queues (B \<union> set L') {} s' \<and> frame (B \<union> requests s) s s'"
  using assms
proof (induction as arbitrary: need bp s rule: measure_induct_rule [where f = length])
  case (less as)
  let ?l = "the_lf s lock" and ?A = "B \<union> insert lock (set bp \<union> set as)" and ?K = "B \<union> requests s"
  note pre = less.prems(1) and un = less.prems(2) and res = less.prems(3) and q = less.prems(4) and dis = less.prems(5) and emp = less.prems(6)
  obtain ov n where f: "lf_findoverlap s as ?l SELF = (ov, n)" by fastforce
  have K: "?K \<inter> (insert (lf_brk s) (insert lock (set bp \<union> set as))) = {}" using queues_disj [OF q] queues_brk [OF q] dis by auto
  have lA: "lock \<in> ?A" by simp
  have nb: "need \<longleftrightarrow> lock \<notin> set bp" "lock \<notin> set as" using pre by (auto simp: link_pre_def Let_def)
  show ?case
  proof (cases "ov = NoOverlap")
    case True
    have *: "lf_link lock need bp as s = (if need then (bp @ take n as) @ lock # drop n as else bp @ as, s)"
      using True by (subst lf_link.simps) (simp add: f Let_def)
    have sa: "set (take n as) \<union> set (drop n as) = set as" by (metis append_take_drop_id set_append)
    have "set ((bp @ take n as) @ lock # drop n as) = insert lock (set bp \<union> (set (take n as) \<union> set (drop n as)))" by auto
    then have i: "set ((bp @ take n as) @ lock # drop n as) = insert lock (set bp \<union> set as)" unfolding sa .
    have L: "L' = (if need then (bp @ take n as) @ lock # drop n as else bp @ as)" "s' = s" using * res by (simp_all split: if_splits)
    have "set L' = insert lock (set bp \<union> set as)"
    proof (cases need)
      case True
      then show ?thesis using L(1) i by (simp only: if_True)
    next
      case False
      then show ?thesis using L(1) nb(1) by (simp add: insert_absorb)
    qed
    then have "B \<union> set L' = ?A" by simp
    then show ?thesis using q frame_refl L(2) by simp
  next
    case False
    define tk v nx where d: "tk = take n as" "v = as ! n" "nx = drop (Suc n) as"
    note fo = link_found [OF pre f False, folded d]
    have as: "as = tk @ v # nx" using fo(1) .
    note pre' = pre [unfolded as]
    have len: "length nx < length as" unfolding as by simp
    have lv: "v < lf_brk s" "lock < lf_brk s" "listed_ok (lf_head ?l) (the_lf s v)" "range_ok ?l" using pre' by (simp_all add: link_pre_def Let_def)
    then have ok: "range_ok (the_lf s v)" "range_ok ?l" "lf_type (the_lf s v) \<noteq> F_UNLCK" "lf_head (the_lf s v) = lf_head ?l" "lf_id (the_lf s v) = lf_id ?l"
      "v < lf_brk s" "lock < lf_brk s"
      using fo(2) by (simp_all add: listed_ok_def mine_def)
    have ne: "v \<noteq> lock" "v \<notin> set bp \<union> set tk \<union> set nx" "lock \<notin> set tk \<union> set nx" using pre' by (auto simp: link_pre_def Let_def)
    have vA: "v \<in> ?A" by (simp add: as)
    have vK: "v \<notin> ?K" "lock \<notin> ?K" using K as by auto
    have np: "ov \<noteq> Overlap_panic" using overlap_no_panic [OF ok(1,2)] fo(3) by auto
    have need: "ov \<in> {Equal, Contains, Before} \<Longrightarrow> need" using link_linked_cases [OF _ f, of bp] pre by (cases need) auto
    have link_eq: "lf_link lock need bp as s = (case ov of
        NoOverlap \<Rightarrow> undefined
      | Equal \<Rightarrow>
          let s1 = (if lf_type ?l = F_RDLCK \<and> lf_type (the_lf s v) = F_WRLCK then lf_wakelock v s else s)
          in (bp @ as, free_lf lock (put_lf v ((the_lf s1 v)\<lparr>lf_type := lf_type ?l\<rparr>) s1))
      | Contains \<Rightarrow>
          if lf_type (the_lf s v) = lf_type ?l then (bp @ as, free_lf lock s)
          else if lf_start (the_lf s v) = lf_start ?l
          then (bp @ tk @ lock # v # nx, lf_wakelock v (cut_start v (off_t (lf_end ?l + 1)) s))
          else (case lf_split v lock s of (parts, s1) \<Rightarrow> (bp @ tk @ parts @ nx, lf_wakelock v s1))
      | Contained \<Rightarrow>
          lf_link lock False (if need then (bp @ tk) @ [lock] else bp @ tk) nx
            (free_lf v (if lf_type ?l = F_RDLCK \<and> lf_type (the_lf s v) = F_WRLCK then lf_wakelock v s else lf_take_blocked v lock s))
      | Before \<Rightarrow> lf_link lock False (bp @ tk @ [v, lock]) nx (lf_wakelock v (cut_end v (off_t (lf_start ?l - 1)) s))
      | After \<Rightarrow> (bp @ tk @ (if need then [lock] else []) @ v # nx, lf_wakelock v (cut_start v (off_t (lf_end ?l + 1)) s))
      | Overlap_panic \<Rightarrow> undefined)"
      using False np by (subst lf_link.simps, cases ov) (simp_all add: f d Let_def)
    have bl: "\<forall>w \<in> set (lf_blkhd (the_lf s v)). blocked (the_lf s v) (the_lf s w) \<and> lf_type (the_lf s w) \<noteq> F_UNLCK \<and> range_ok (the_lf s w)"
      using queues_blocked [OF q vA] queues_own(1) [OF q vA] queues_request [OF q] by (auto simp: listed_ok_def)
    have freed: "queues (B \<union> set (bp @ as)) {} (free_lf lock s2) \<and> frame ?K s (free_lf lock s2)"
      if "need" "queues ?A {} s2" "lf_blkhd (the_lf s2 lock) = []" "frame ?K s s2" for s2
    proof -
      have "?A - {lock} = B \<union> set (bp @ as)" using that(1) nb dis by auto
      then show ?thesis using queues_free [OF that(2) lA that(3)] frame_trans [OF that(4) frame_free] vK by simp
    qed
    consider (equal) "ov = Equal" | (contains) "ov = Contains" | (contained) "ov = Contained" | (before) "ov = Before" | (after) "ov = After"
      using False np by (cases ov) auto
    then show ?thesis
    proof cases
      case equal
      then have "need" by (simp add: need)
      define s1 where "s1 = (if lf_type ?l = F_RDLCK \<and> lf_type (the_lf s v) = F_WRLCK then lf_wakelock v s else s)"
      let ?s2 = "put_lf v ((the_lf s1 v)\<lparr>lf_type := lf_type ?l\<rparr>) s1"
      have fr: "frame ?K s ?s2" by (rule frame_trans [OF _ frame_put]) (use vK frame_wake frame_refl in \<open>auto simp: s1_def\<close>)
      have e: "lf_blkhd (the_lf ?s2 lock) = []" using wake_other [OF q vA lA] ne emp \<open>need\<close> by (simp add: s1_def)
      have "queues ?A {} ?s2"
      proof (cases "lf_type ?l = F_RDLCK \<and> lf_type (the_lf s v) = F_WRLCK")
        case True
        then show ?thesis using queues_wake [OF q vA] wake_empty [OF q vA] vA unfolding s1_def by (intro wake_cut) simp_all
      next
        case False
        then have s1: "s1 = s" unfolding s1_def by (rule if_not_P)
        have "queues ?A {v} ?s2" unfolding s1 by (rule queues_put [OF q vA]) simp
        then show ?thesis
        proof (rule queues_restore, intro ballI)
          fix a w assume a: "a \<in> ?A \<inter> {v}" and w: "w \<in> set (lf_blkhd (the_lf ?s2 a))"
          have w': "w \<in> set (lf_blkhd (the_lf s v))" "w \<noteq> v" using w a queues_own(2) [OF q vA] by (auto simp: s1)
          then show "blocked (the_lf ?s2 a) (the_lf ?s2 w)" using blocked_type [OF _ _ ok(3) un False] bl a s1 by simp
        qed
      qed
      moreover have "L' = bp @ as" "s' = free_lf lock ?s2" using res link_eq equal by (simp_all add: Let_def s1_def)
      ultimately show ?thesis using freed [OF \<open>need\<close> _ e fr] by (simp only:)
    next
      case contains
      then have "need" by (simp add: need)
      note o = overlap_contains [OF fo(3) [unfolded contains]]
      show ?thesis
      proof (cases "lf_type (the_lf s v) = lf_type ?l")
        case True
        then show ?thesis using freed [OF \<open>need\<close> q _ frame_refl] emp \<open>need\<close> res link_eq contains by simp
      next
        case ty: False
        show ?thesis
        proof (cases "lf_start (the_lf s v) = lf_start ?l")
          case True
          then have r: "L' = bp @ tk @ lock # v # nx" "s' = lf_wakelock v (cut_start v (off_t (lf_end ?l + 1)) s)" using res link_eq contains ty by auto
          have "B \<union> set L' = ?A" unfolding r(1) as by auto
          then show ?thesis unfolding r(2) using cut_wake [OF q vA] frame_trans [OF frame_put frame_wake] vK by simp
        next
          case False
          obtain parts s1 where sp: "lf_split v lock s = (parts, s1)" by fastforce
          then have r: "L' = bp @ tk @ parts @ nx" "s' = lf_wakelock v s1" using res link_eq contains ty False by auto
          have lt: "lf_start (the_lf s v) < lf_start ?l" using False o by simp
          have p: "parts = [v, lock] \<or> parts = [v, lock, lf_brk s]"
            using split_two [OF lt _ ok(1,2)] split_three [OF lt _ ok(1,2)] o sp by (cases "lf_end ?l = lf_end (the_lf s v)") auto
          note spq = lf_split_queues [OF q vA sp p False ok(7)]
          have "B \<union> set L' = ?A \<union> (set parts - {lock})" unfolding r(1) as using p by auto
          moreover have "frame ?K s s'" unfolding r(2) by (rule frame_trans [OF spq(2) frame_wake]) (use K vK in auto)
          ultimately show ?thesis unfolding r(2) using queues_wake [OF spq(1) UnI1 [OF vA]] by simp
        qed
      qed
    next
      case contained
      define s1 where "s1 = (if lf_type ?l = F_RDLCK \<and> lf_type (the_lf s v) = F_WRLCK then lf_wakelock v s else lf_take_blocked v lock s)"
      let ?bp = "if need then (bp @ tk) @ [lock] else bp @ tk"
      have fr1: "frame UNIV s s1" by (simp add: s1_def frame_wake frame_take)
      have fr: "frame ?K s (free_lf v s1)" using frame_trans [OF frame_mono [OF fr1] frame_free, of ?K v] vK by simp
      have frl: "frame (insert lock (set bp \<union> set tk \<union> set nx)) s (free_lf v s1)"
        using frame_trans [OF frame_mono [OF fr1] frame_free, of "insert lock (set bp \<union> set tk \<union> set nx)" v] ne by simp
      have same: "same_core (insert lock (set bp \<union> set tk \<union> set nx)) s (free_lf v s1)"
        using frl wakelock_env [of v s] take_env [of v lock s] by (auto simp: frame_def same_core_def s1_def env_def)
      have "queues ?A {} s1 \<and> lf_blkhd (the_lf s1 v) = []"
      proof (cases "lf_type ?l = F_RDLCK \<and> lf_type (the_lf s v) = F_WRLCK")
        case True
        then show ?thesis using queues_wake [OF q vA] wake_empty [OF q vA] by (simp add: s1_def)
      next
        case False
        have "blocked ?l (the_lf s w)" if "w \<in> set (lf_blkhd (the_lf s v))" for w
          by (rule blocked_contained [OF _ fo(3) [unfolded contained] ok(5,4,1,2) _ ok(3) un False]) (use bl that in auto)
        then show ?thesis using queues_take [OF q vA lA] ne False by (auto simp: s1_def)
      qed
      then have qf: "queues (?A - {v}) {} (free_lf v s1)" using queues_free vA by blast
      have A': "?A - {v} = B \<union> insert lock (set ?bp \<union> set nx)" using ne dis by (auto simp: as)
      have "link_pre (free_lf v s1) lock False ?bp nx"
        by (subst same_core_link [OF same]) (auto simp: link_contained [OF pre' fo(2) fo(3) [unfolded contained] fo(4) un] simp del: append_assoc)
      then have "queues (B \<union> set L') {} s' \<and> frame (B \<union> requests (free_lf v s1)) (free_lf v s1) s'"
      proof (rule less.IH [OF len])
        show "lf_type (the_lf (free_lf v s1) lock) \<noteq> F_UNLCK" using un core_fields(2) [OF same_coreD [OF same, of lock]] by simp
        show "lf_link lock False ?bp nx (free_lf v s1) = (L', s')" using res link_eq contained by (simp add: s1_def)
        show "queues (B \<union> insert lock (set ?bp \<union> set nx)) {} (free_lf v s1)" using qf A' by simp
      qed (use dis in \<open>auto simp: as\<close>)
      then show ?thesis using frame_trans [OF fr] frame_requests [OF fr] by simp
    next
      case before
      then have "need" by (simp add: need)
      note o = fo(3) [unfolded before] and pre1 = pre' [unfolded eqTrueI [OF \<open>need\<close>]]
      have off: "off_t (lf_start ?l - 1) = lf_start ?l - 1" by (rule before_end(1) [OF ok(1,2) o])
      let ?s1 = "cut_end v (lf_start ?l - 1) s"
      let ?s2 = "lf_wakelock v ?s1"
      have same: "same_core UNIV ?s1 ?s2" by (rule same_core_wake)
      have l: "core (the_lf ?s2 lock) = core ?l" using same_coreD [OF same, of lock] ne by simp
      have fr: "frame ?K s ?s2" by (rule frame_trans [OF frame_put frame_wake]) (use vK in auto)
      have "link_pre ?s2 lock False (bp @ tk @ [v, lock]) nx"
        unfolding same_core_link [OF same, of lock "bp @ tk @ [v, lock]" nx False, simplified] by (rule link_before [OF pre1 fo(2) o fo(4) un])
      then have "queues (B \<union> set L') {} s' \<and> frame (B \<union> requests ?s2) ?s2 s'"
      proof (rule less.IH [OF len])
        show "lf_type (the_lf ?s2 lock) \<noteq> F_UNLCK" using un core_fields(2) [OF l] by simp
        show "lf_link lock False (bp @ tk @ [v, lock]) nx ?s2 = (L', s')" using res link_eq before off by simp
        have "B \<union> insert lock (set (bp @ tk @ [v, lock]) \<union> set nx) = ?A" by (auto simp: as)
        then show "queues (B \<union> insert lock (set (bp @ tk @ [v, lock]) \<union> set nx)) {} ?s2" using cut_wake [OF q vA] by simp
      qed (use dis in \<open>auto simp: as\<close>)
      then show ?thesis using frame_trans [OF fr] frame_requests [OF fr] by simp
    next
      case after
      then have r: "L' = bp @ tk @ (if need then [lock] else []) @ v # nx" "s' = lf_wakelock v (cut_start v (off_t (lf_end ?l + 1)) s)"
        using res link_eq by auto
      have "B \<union> set L' = ?A" unfolding r(1) as using nb by auto
      then show ?thesis unfolding r(2) using cut_wake [OF q vA] frame_trans [OF frame_put frame_wake] vK by simp
    qed
  qed
qed

theorem unlink_queues:
  assumes "link_pre s lock True bp as" and "lf_unlink lock bp as s = (L', s')"
    and "queues (B \<union> insert lock (set bp \<union> set as)) {} s" and "B \<inter> insert lock (set bp \<union> set as) = {}"
  shows "queues (B \<union> insert lock (set L')) {} s' \<and> frame (insert lock B \<union> requests s) s s' \<and> lf_blkhd (the_lf s' lock) = lf_blkhd (the_lf s lock)"
  using assms
proof (induction as arbitrary: bp s rule: measure_induct_rule [where f = length])
  case (less as)
  let ?l = "the_lf s lock" and ?A = "B \<union> insert lock (set bp \<union> set as)" and ?K = "insert lock B \<union> requests s"
  note pre = less.prems(1) and res = less.prems(2) and q = less.prems(3) and dis = less.prems(4)
  obtain ov n where f: "lf_findoverlap s as ?l SELF = (ov, n)" by fastforce
  have lA: "lock \<in> ?A" by simp
  have nb: "lock \<notin> set bp" "lock \<notin> set as" using pre by (auto simp: link_pre_def Let_def)
  have K: "?K \<inter> (insert (lf_brk s) (set bp \<union> set as)) = {}" using queues_disj [OF q] queues_brk [OF q] dis nb by auto
  show ?case
  proof (cases "ov = NoOverlap")
    case True
    have "lf_unlink lock bp as s = (bp @ as, s)" using True by (subst lf_unlink.simps) (simp add: f Let_def)
    then show ?thesis using res q frame_refl by auto
  next
    case False
    define tk v nx where d: "tk = take n as" "v = as ! n" "nx = drop (Suc n) as"
    define s1 where s1: "s1 = lf_wakelock v s"
    let ?l1 = "the_lf s1 lock"
    note fo0 = link_found [OF pre f False, folded d]
    have as: "as = tk @ v # nx" using fo0(1) .
    have same: "same_core UNIV s s1" unfolding s1 by (rule same_core_wake)
    have cr: "core (the_lf s1 x) = core (the_lf s x)" for x using same_coreD [OF same] by simp
    have mi: "mine s1 ?l1 x = mine s ?l x" for x using core_fields(5) [OF cr] by (simp add: mine_def)
    have pre1: "link_pre s1 lock True bp (tk @ v # nx)" using pre same_core_link [OF same, of lock bp as True] as by simp
    have fo: "mine s1 ?l1 v" "lf_overlap (the_lf s1 v) ?l1 = ov" "\<forall>x \<in> set tk. mine s1 ?l1 x \<longrightarrow> bef (the_lf s1 x) ?l1"
      using fo0 core_overlap [OF cr cr] core_bef [OF cr cr] mi by simp_all
    have len: "length nx < length as" unfolding as by simp
    have ok: "range_ok (the_lf s1 v)" "range_ok ?l1" using link_pre_ok [OF pre1] by auto
    have lk: "lf_start ?l1 = lf_start ?l" "lf_end ?l1 = lf_end ?l" using core_fields [OF cr] by simp_all
    have ne: "v \<noteq> lock" "v \<notin> set bp \<union> set tk \<union> set nx" using pre1 by (auto simp: link_pre_def Let_def)
    have vA: "v \<in> ?A" by (simp add: as)
    have vK: "v \<notin> ?K" using K as by auto
    have np: "ov \<noteq> Overlap_panic" using overlap_no_panic [OF ok] fo(2) by auto
    have q1: "queues ?A {} s1" using queues_wake [OF q vA] by (simp add: s1)
    have e1: "lf_blkhd (the_lf s1 v) = []" unfolding s1 by (rule wake_empty [OF q vA])
    have b1: "lf_blkhd ?l1 = lf_blkhd ?l" unfolding s1 by (rule wake_other [OF q vA lA ne(1) [symmetric]])
    have fr1: "frame K s s1" for K unfolding s1 by (rule frame_wake)
    have brk1: "lf_brk s1 = lf_brk s" using wakelock_env [of v s] by (simp add: s1 env_def)
    have link_eq: "lf_unlink lock bp as s = (case ov of
        NoOverlap \<Rightarrow> undefined
      | Equal \<Rightarrow> (bp @ tk @ nx, free_lf v s1)
      | Contains \<Rightarrow>
          if lf_start (the_lf s1 v) = lf_start ?l1 then (bp @ tk @ v # nx, cut_start v (off_t (lf_end ?l1 + 1)) s1)
          else (case lf_split v lock s1 of (parts, s2) \<Rightarrow> (bp @ tk @ remove1 lock parts @ nx, s2))
      | Contained \<Rightarrow> lf_unlink lock (bp @ tk) nx (free_lf v s1)
      | Before \<Rightarrow> lf_unlink lock (bp @ tk @ [v]) nx (cut_end v (off_t (lf_start ?l1 - 1)) s1)
      | After \<Rightarrow> (bp @ tk @ v # nx, cut_start v (off_t (lf_end ?l1 + 1)) s1)
      | Overlap_panic \<Rightarrow> undefined)"
      using False np by (subst lf_unlink.simps, cases ov) (simp_all add: f d s1 [unfolded d, symmetric] Let_def lk)
    have cut: "queues ?A {} (put_lf v l s1) \<and> frame ?K s (put_lf v l s1) \<and> lf_blkhd (the_lf (put_lf v l s1) lock) = lf_blkhd ?l"
      if "lf_blkhd l = []" for l
      using wake_cut [OF q1 vA e1 that] frame_trans [OF fr1 frame_put [OF vK]] ne b1 by simp
    have fre: "queues (?A - {v}) {} (free_lf v s1) \<and> frame ?K s (free_lf v s1) \<and> lf_blkhd (the_lf (free_lf v s1) lock) = lf_blkhd ?l"
      using queues_free [OF q1 vA e1] frame_trans [OF fr1 frame_free [OF vK]] ne b1 by simp
    have A_v: "?A - {v} = B \<union> insert lock (set bp \<union> set tk \<union> set nx)" using ne dis by (auto simp: as)
    have A_as: "?A = B \<union> insert lock (set (bp @ tk @ v # nx))" by (auto simp: as)
    consider (equal) "ov = Equal" | (contains) "ov = Contains" | (contained) "ov = Contained" | (before) "ov = Before" | (after) "ov = After"
      using False np by (cases ov) auto
    then show ?thesis
    proof cases
      case equal
      then have "L' = bp @ tk @ nx" "s' = free_lf v s1" using res link_eq by auto
      then show ?thesis using fre A_v by (simp add: Un_assoc)
    next
      case contains
      note o = overlap_contains [OF fo(2) [unfolded contains]]
      show ?thesis
      proof (cases "lf_start (the_lf s1 v) = lf_start ?l1")
        case True
        then have "L' = bp @ tk @ v # nx" "s' = cut_start v (off_t (lf_end ?l1 + 1)) s1" using res link_eq contains by auto
        then show ?thesis using cut e1 A_as by simp
      next
        case ne_st: False
        obtain parts s2 where sp: "lf_split v lock s1 = (parts, s2)" by fastforce
        then have r: "L' = bp @ tk @ remove1 lock parts @ nx" "s' = s2" using res link_eq contains ne_st by auto
        have lt: "lf_start (the_lf s1 v) < lf_start ?l1" using ne_st o by simp
        have p: "parts = [v, lock] \<or> parts = [v, lock, lf_brk s1]"
          using split_two [OF lt _ ok] split_three [OF lt _ ok] o sp by (cases "lf_end ?l1 = lf_end (the_lf s1 v)") auto
        have lb: "lock < lf_brk s1" using pre1 by (simp add: link_pre_def Let_def)
        note spq = lf_split_queues [OF q1 vA sp p ne_st lb]
        have "B \<union> insert lock (set L') = ?A \<union> (set parts - {lock})" unfolding r(1) as using p ne by auto
        moreover have "queues (?A \<union> (set parts - {lock})) {} s2" using spq(1,3) e1 by (intro queues_restore [OF spq(1)]) auto
        moreover have "frame ?K s s2" by (rule frame_trans [OF fr1 spq(2)]) (use K vK brk1 in auto)
        moreover have "lf_blkhd (the_lf s2 lock) = lf_blkhd ?l"
          using sp ne lb b1 by (auto simp: lf_split_def Let_def new_lf_def put_lf_def the_lf_def split: if_splits)
        ultimately show ?thesis using r by simp
      qed
    next
      case contained
      have sf: "same_core (- {v}) s1 (free_lf v s1)" by (rule same_core_free) simp
      have "link_pre (free_lf v s1) lock True (bp @ tk) nx"
        by (subst same_core_link [OF sf]) (use ne unlink_contained [OF pre1 fo(3)] pre1 in \<open>auto simp: link_pre_def Let_def\<close>)
      then have "queues (B \<union> insert lock (set L')) {} s' \<and> frame (insert lock B \<union> requests (free_lf v s1)) (free_lf v s1) s'
            \<and> lf_blkhd (the_lf s' lock) = lf_blkhd (the_lf (free_lf v s1) lock)"
      proof (rule less.IH [OF len])
        show "lf_unlink lock (bp @ tk) nx (free_lf v s1) = (L', s')" using res link_eq contained by simp
        show "queues (B \<union> insert lock (set (bp @ tk) \<union> set nx)) {} (free_lf v s1)" using fre A_v by simp
      qed (use dis in \<open>auto simp: as\<close>)
      then show ?thesis using fre frame_trans frame_requests [of ?K s "free_lf v s1"] by metis
    next
      case before
      note o = fo(2) [unfolded before]
      have off: "off_t (lf_start ?l1 - 1) = lf_start ?l1 - 1" by (rule before_end(1) [OF ok o])
      let ?s2 = "cut_end v (lf_start ?l1 - 1) s1"
      note c = cut [of "(the_lf s1 v)\<lparr>lf_end := lf_start ?l1 - 1\<rparr>"]
      have "queues (B \<union> insert lock (set L')) {} s' \<and> frame (insert lock B \<union> requests ?s2) ?s2 s' \<and> lf_blkhd (the_lf s' lock) = lf_blkhd (the_lf ?s2 lock)"
      proof (rule less.IH [OF len unlink_before [OF pre1 fo(1) o fo(3)]])
        show "lf_unlink lock (bp @ tk @ [v]) nx ?s2 = (L', s')" using res link_eq before off by simp
        have "?A = B \<union> insert lock (set (bp @ tk @ [v]) \<union> set nx)" by (auto simp: as)
        then show "queues (B \<union> insert lock (set (bp @ tk @ [v]) \<union> set nx)) {} ?s2" using c e1 by simp
      qed (use dis in \<open>auto simp: as\<close>)
      moreover have "frame ?K s ?s2" "requests ?s2 = requests s" "lf_blkhd (the_lf ?s2 lock) = lf_blkhd ?l" using c e1 frame_requests [of ?K s ?s2] by simp_all
      ultimately show ?thesis using frame_trans [of ?K s ?s2 s'] by simp
    next
      case after
      then have "L' = bp @ tk @ v # nx" "s' = cut_start v (off_t (lf_end ?l1 + 1)) s1" using res link_eq by auto
      then show ?thesis using cut e1 A_as by simp
    qed
  qed
qed

end
