(* ===== verification/Kern_Lockf_Inv.thy ===== *)
theory Kern_Lockf_Inv
  imports Kern_Lockf_Walk
begin

text \<open>
  The invariant of the advisory locks, and that each operation of kern/kern_lockf.c keeps it: the lists of all files, the queues, and
  that locks of different owners share a byte only when both are shared.
\<close>

definition listed :: "lockfs \<Rightarrow> ptr set" where "listed s = (\<Union>h. set (lf_lists s h))"

definition compat :: "(ptr \<Rightarrow> int \<Rightarrow> lock_type \<Rightarrow> bool) \<Rightarrow> bool" where
  "compat F \<longleftrightarrow> (\<forall>i j k t u. F i k t \<and> F j k u \<and> i \<noteq> j \<longrightarrow> t = F_RDLCK \<and> u = F_RDLCK)"

definition lists_ok :: "lockfs \<Rightarrow> bool" where
  "lists_ok s \<longleftrightarrow> (\<forall>h. list_ok s h (lf_lists s h) \<and> compat (facts s (lf_lists s h)))"

definition lf_ok :: "lockfs \<Rightarrow> bool" where "lf_ok s \<longleftrightarrow> queues (listed s) {} s \<and> lists_ok s"

text \<open>One more structure, in no list: the lock of the call that runs.\<close>

definition inflight :: "ptr \<Rightarrow> lockfs \<Rightarrow> bool" where
  "inflight lock s \<longleftrightarrow> queues (insert lock (listed s)) {} s \<and> lock \<notin> listed s \<and> lf_blkhd (the_lf s lock) = [] \<and> range_ok (the_lf s lock) \<and> lists_ok s"

lemma frame_list_ok:
  assumes "frame K s s'" and "set L \<subseteq> K" and "list_ok s h L"
  shows "list_ok s' h L"
proof -
  have same: "same_core K s (s'\<lparr>lf_brk := lf_brk s\<rparr>)" using assms(1) by (simp add: frame_def same_core_def the_lf_def)
  have "list_ok (s'\<lparr>lf_brk := lf_brk s\<rparr>) h L" using same_core_list_ok [OF same assms(2)] assms(3) by simp
  moreover have "own_order (s'\<lparr>lf_brk := lf_brk s\<rparr>) = own_order s'" by (intro ext) (simp add: own_order_def the_lf_def)
  moreover have "lf_brk s \<le> lf_brk s'" using assms(1) by (simp add: frame_def)
  ultimately show ?thesis by (auto simp: list_ok_def the_lf_def)
qed

lemma frame_facts: "frame K s s' \<Longrightarrow> set L \<subseteq> K \<Longrightarrow> facts s' L = facts s L"
  using same_core_facts [of K s "s'\<lparr>lf_brk := lf_brk s\<rparr>" L] by (simp add: frame_def same_core_def facts_def the_lf_def)

lemma listed_mem: "lists_ok s \<Longrightarrow> x \<in> set (lf_lists s h) \<Longrightarrow> lf_head (the_lf s x) = h"
  unfolding lists_ok_def list_ok_def listed_ok_def by blast

definition elsewhere :: "lockfs \<Rightarrow> ptr \<Rightarrow> ptr set" where "elsewhere s h = (\<Union>g \<in> - {h}. set (lf_lists s g))"

lemma listed_split: "listed s = elsewhere s h \<union> set (lf_lists s h)" by (auto simp: listed_def elsewhere_def)

lemma elsewhere_disj: "lists_ok s \<Longrightarrow> elsewhere s h \<inter> set (lf_lists s h) = {}"
  unfolding elsewhere_def using listed_mem [of s] by (metis (no_types, lifting) ComplD UN_E disjoint_iff singletonI)

lemma listed_set_list: "lf_lists s1 = lf_lists s \<Longrightarrow> listed (set_list h L s1) = elsewhere s h \<union> set L"
  by (fastforce simp: listed_def elsewhere_def set_list_def split: if_splits)

lemma queues_set_list: "queues A X (set_list h L s) = queues A X s"
  by (simp add: queues_def set_list_def requests_def threads_of_def the_lf_def)

lemma inflight_pre:
  assumes "inflight lock s" and "lf_head (the_lf s lock) = h"
  shows "link_pre s lock True [] (lf_lists s h)"
    and "queues (elsewhere s h \<union> insert lock (set [] \<union> set (lf_lists s h))) {} s" and "elsewhere s h \<inter> insert lock (set [] \<union> set (lf_lists s h)) = {}"
proof -
  have q: "queues (insert lock (listed s)) {} s" "lock \<notin> listed s" "lists_ok s" "range_ok (the_lf s lock)" using assms(1) by (simp_all add: inflight_def)
  have "list_ok s h (lf_lists s h)" using q(3) by (simp add: lists_ok_def)
  moreover have "lock < lf_brk s" using queues_brk [OF q(1)] by simp
  ultimately show "link_pre s lock True [] (lf_lists s h)" using q(2,4) assms(2)
    by (auto simp: link_pre_def Let_def list_ok_def listed_split [of s h])
  show "queues (elsewhere s h \<union> insert lock (set [] \<union> set (lf_lists s h))) {} s" using q(1) by (simp add: listed_split [of s h])
  show "elsewhere s h \<inter> insert lock (set [] \<union> set (lf_lists s h)) = {}"
    using q(2) elsewhere_disj [OF q(3), of h] by (auto simp: listed_split [of s h])
qed

lemma compat_overrides:
  assumes "overrides l ty F F'" and "compat F" and "\<And>j k t u. ty = Some u \<Longrightarrow> covers l k \<Longrightarrow> F j k t \<Longrightarrow> j \<noteq> lf_id l \<Longrightarrow> t = F_RDLCK \<and> u = F_RDLCK"
  shows "compat F'"
  using assms unfolding compat_def overrides_def by (metis option.inject option.distinct(1))

text \<open>The state after a walk over the list of \<open>h\<close> that leaves the list \<open>L\<close>.\<close>

lemma lists_ok_walk:
  assumes "lists_ok s" and "link_post s l ty (lf_lists s h) s1 L" and "lf_head l = h" and "frame (elsewhere s h) s s1"
    and "\<And>j k t u. ty = Some u \<Longrightarrow> covers l k \<Longrightarrow> facts s (lf_lists s h) j k t \<Longrightarrow> j \<noteq> lf_id l \<Longrightarrow> t = F_RDLCK \<and> u = F_RDLCK"
  shows "lists_ok (set_list h L s1)" and "overrides l ty (facts s (lf_lists s h)) (facts (set_list h L s1) (lf_lists (set_list h L s1) h))"
    and "\<And>g. g \<noteq> h \<Longrightarrow> lf_lists (set_list h L s1) g = lf_lists s g \<and> facts (set_list h L s1) (lf_lists s g) = facts s (lf_lists s g)"
proof -
  have fx: "facts (set_list h L s1) M = facts s1 M" for M by (simp add: facts_def)
  have own: "own_order (set_list h L s1) = own_order s1" by (intro ext) (simp add: own_order_def)
  have lx: "list_ok (set_list h L s1) g M = list_ok s1 g M" for g M unfolding list_ok_def own by (simp add: set_list_def the_lf_def)
  have ls: "lf_lists (set_list h L s1) g = (if g = h then L else lf_lists s g)" for g using assms(4) by (simp add: set_list_def frame_def)
  show ov: "overrides l ty (facts s (lf_lists s h)) (facts (set_list h L s1) (lf_lists (set_list h L s1) h))"
    using assms(2) by (simp add: link_post_def fx ls)
  have g: "set (lf_lists s g) \<subseteq> elsewhere s h" if "g \<noteq> h" for g using that by (auto simp: elsewhere_def)
  show "lf_lists (set_list h L s1) g = lf_lists s g \<and> facts (set_list h L s1) (lf_lists s g) = facts s (lf_lists s g)" if "g \<noteq> h" for g
    using frame_facts [OF assms(4) g [OF that]] that by (simp add: ls fx)
  show "lists_ok (set_list h L s1)"
    unfolding lists_ok_def
  proof
    fix g
    show "list_ok (set_list h L s1) g (lf_lists (set_list h L s1) g) \<and> compat (facts (set_list h L s1) (lf_lists (set_list h L s1) g))"
    proof (cases "g = h")
      case True
      have "compat (facts s (lf_lists s h))" using assms(1) by (simp add: lists_ok_def)
      then show ?thesis using compat_overrides [OF ov] assms(2,3,5) True by (auto simp: link_post_def lx ls)
    next
      case False
      have "list_ok s g (lf_lists s g)" "compat (facts s (lf_lists s g))" using assms(1) by (simp_all add: lists_ok_def)
      then show ?thesis using frame_list_ok [OF assms(4) g [OF False]] frame_facts [OF assms(4) g [OF False]] False by (simp add: lx ls fx)
    qed
  qed
qed

section \<open>Clearing\<close>

lemma clearlock_walk: "lf_clearlock lock s = (case lf_unlink lock [] (lf_lists s (lf_head (the_lf s lock))) s of (L, s1) \<Rightarrow> set_list (lf_head (the_lf s lock)) L s1)"
proof (cases "lf_lists s (lf_head (the_lf s lock)) = []")
  case True
  then have "(lf_lists s)(lf_head (the_lf s lock) := []) = lf_lists s" by (intro ext) simp
  then show ?thesis using True by (simp add: lf_clearlock_def lf_unlink.simps set_list_def)
qed (simp add: lf_clearlock_def Let_def)

lemma clearlock_ok:
  assumes "inflight lock s" and h: "lf_head (the_lf s lock) = h"
  shows "inflight lock (lf_clearlock lock s)" and "overrides (the_lf s lock) None (facts s (lf_lists s h)) (facts (lf_clearlock lock s) (lf_lists (lf_clearlock lock s) h))"
    and "\<And>g. g \<noteq> h \<Longrightarrow> lf_lists (lf_clearlock lock s) g = lf_lists s g \<and> facts (lf_clearlock lock s) (lf_lists s g) = facts s (lf_lists s g)"
    and "core (the_lf (lf_clearlock lock s) lock) = core (the_lf s lock)"
    and "\<And>x. x \<in> set (lf_lists s h) \<Longrightarrow> lf_id (the_lf s x) \<noteq> lf_id (the_lf s lock) \<Longrightarrow>
           x \<in> set (lf_lists (lf_clearlock lock s) h) \<and> core (the_lf (lf_clearlock lock s) x) = core (the_lf s x)"
    and "threads_of (lf_clearlock lock s) = threads_of s" and "p_threads (lf_clearlock lock s) = p_threads s"
proof -
  obtain L s1 where r: "lf_unlink lock [] (lf_lists s h) s = (L, s1)" by fastforce
  have s': "lf_clearlock lock s = set_list h L s1" using r h by (simp add: clearlock_walk)
  note p = inflight_pre [OF assms]
  have fl: "queues (insert lock (listed s)) {} s" "lock \<notin> listed s" "lf_blkhd (the_lf s lock) = []" "lists_ok s" "range_ok (the_lf s lock)"
    using assms(1) by (simp_all add: inflight_def)
  have post: "link_post s (the_lf s lock) None (lf_lists s h) s1 L" using unlink_ranges [OF p(1) r] by simp
  have q: "queues (elsewhere s h \<union> insert lock (set L)) {} s1" and fr: "frame (insert lock (elsewhere s h) \<union> requests s) s s1"
    and b: "lf_blkhd (the_lf s1 lock) = []" using unlink_queues [OF p(1) r p(2,3)] fl(3) by simp_all
  have fr': "frame (elsewhere s h) s s1" by (rule frame_mono [OF fr]) auto
  note w = lists_ok_walk [OF fl(4) post h fr', simplified]
  have lsx: "lf_lists s1 = lf_lists s" using fr by (simp add: frame_def)
  have c: "core (the_lf s1 lock) = core (the_lf s lock)" using fr by (simp add: frame_def)
  have "lock \<notin> set L"
  proof
    assume "lock \<in> set L"
    have "covers (the_lf s1 lock) (lf_start (the_lf s lock))" "lf_id (the_lf s1 lock) = lf_id (the_lf s lock)"
      using c fl(5) by (auto simp: core_eq covers_def range_ok_def)
    then have "facts s1 L (lf_id (the_lf s lock)) (lf_start (the_lf s lock)) (lf_type (the_lf s1 lock))"
      using \<open>lock \<in> set L\<close> by (auto simp: facts_def held_def)
    moreover have "covers (the_lf s lock) (lf_start (the_lf s lock))" using fl(5) by (auto simp: covers_def range_ok_def)
    ultimately show False using post unfolding link_post_def overrides_def by fastforce
  qed
  then have n: "lock \<notin> listed (set_list h L s1)" using fl(2) by (simp add: listed_set_list [OF lsx] listed_split [of s h])
  show "inflight lock (lf_clearlock lock s)"
    using q b c w(1) n fl(5) unfolding inflight_def s' queues_set_list listed_set_list [OF lsx] by (simp add: core_eq range_ok_def)
  show "overrides (the_lf s lock) None (facts s (lf_lists s h)) (facts (lf_clearlock lock s) (lf_lists (lf_clearlock lock s) h))" using w(2) s' by simp
  show "\<And>g. g \<noteq> h \<Longrightarrow> lf_lists (lf_clearlock lock s) g = lf_lists s g \<and> facts (lf_clearlock lock s) (lf_lists s g) = facts s (lf_lists s g)"
    using w(3) s' by simp
  show "core (the_lf (lf_clearlock lock s) lock) = core (the_lf s lock)" using c s' by simp
  show "\<And>x. x \<in> set (lf_lists s h) \<Longrightarrow> lf_id (the_lf s x) \<noteq> lf_id (the_lf s lock) \<Longrightarrow>
           x \<in> set (lf_lists (lf_clearlock lock s) h) \<and> core (the_lf (lf_clearlock lock s) x) = core (the_lf s x)"
    using post s' by (simp add: link_post_def mine_def set_list_def the_lf_def)
  show "threads_of (lf_clearlock lock s) = threads_of s" "p_threads (lf_clearlock lock s) = p_threads s" using fr s' by (simp_all add: frame_def set_list_def threads_of_def)
qed

lemma free_ok:
  assumes "inflight lock s"
  shows "lf_ok (free_lf lock s)" and "facts (free_lf lock s) (lf_lists s h) = facts s (lf_lists s h)" and "lf_lists (free_lf lock s) = lf_lists s"
proof -
  have fl: "queues (insert lock (listed s)) {} s" "lock \<notin> listed s" "lf_blkhd (the_lf s lock) = []" "lists_ok s" using assms by (simp_all add: inflight_def)
  have ls: "lf_lists (free_lf lock s) = lf_lists s" by (simp add: free_lf_def)
  have fr: "frame (listed s) s (free_lf lock s)" by (rule frame_free) (rule fl(2))
  have g: "set (lf_lists s g) \<subseteq> listed s" for g by (auto simp: listed_def)
  have "lists_ok (free_lf lock s)"
    using fl(4) frame_list_ok [OF fr g] frame_facts [OF fr g] by (simp add: lists_ok_def ls)
  moreover have "queues (listed s) {} (free_lf lock s)" using queues_free [OF fl(1) _ fl(3)] fl(2) by simp
  ultimately show "lf_ok (free_lf lock s)" by (simp add: lf_ok_def listed_def ls)
  show "facts (free_lf lock s) (lf_lists s h) = facts s (lf_lists s h)" by (rule frame_facts [OF fr g])
  show "lf_lists (free_lf lock s) = lf_lists s" by (rule ls)
qed

lemma inflight_put:
  assumes "inflight lock s" and "lf_blkhd l = []" and "range_ok l"
  shows "inflight lock (put_lf lock l s)" and "facts (put_lf lock l s) (lf_lists s h) = facts s (lf_lists s h)"
proof -
  have fl: "queues (insert lock (listed s)) {} s" "lock \<notin> listed s" "lf_blkhd (the_lf s lock) = []" "lists_ok s" using assms by (simp_all add: inflight_def)
  have ls: "lf_lists (put_lf lock l s) = lf_lists s" by (simp add: put_lf_def)
  have fr: "frame (listed s) s (put_lf lock l s)" by (rule frame_put) (rule fl(2))
  have g: "set (lf_lists s g) \<subseteq> listed s" for g by (auto simp: listed_def)
  have "lists_ok (put_lf lock l s)" using fl(4) frame_list_ok [OF fr g] frame_facts [OF fr g] by (simp add: lists_ok_def ls)
  moreover have "queues (insert lock (listed s)) {} (put_lf lock l s)" using wake_cut [OF fl(1) _ fl(3) assms(2)] by simp
  ultimately show "inflight lock (put_lf lock l s)" using assms(2,3) fl(2) by (simp add: inflight_def listed_def ls)
  show "facts (put_lf lock l s) (lf_lists s h) = facts s (lf_lists s h)" by (rule frame_facts [OF fr g])
qed

lemma new_ok:
  assumes "lf_ok s" and "lf_blkhd l = []" and "range_ok l"
  shows "inflight (lf_brk s) (snd (new_lf l s))" and "facts (snd (new_lf l s)) (lf_lists s h) = facts s (lf_lists s h)"
proof -
  have ok: "queues (listed s) {} s" "lists_ok s" using assms(1) by (simp_all add: lf_ok_def)
  have n: "lf_brk s \<notin> listed s" using queues_brk [OF ok(1)] by blast
  have ls: "lf_lists (snd (new_lf l s)) = lf_lists s" by (simp add: new_lf_def)
  have fr: "frame (listed s) s (snd (new_lf l s))" by (rule frame_new) (rule n)
  have g: "set (lf_lists s g) \<subseteq> listed s" for g by (auto simp: listed_def)
  have "lists_ok (snd (new_lf l s))" using ok(2) frame_list_ok [OF fr g] frame_facts [OF fr g] by (simp add: lists_ok_def ls)
  moreover have "queues (insert (lf_brk s) (listed s)) {} (snd (new_lf l s))" by (rule queues_new [OF ok(1) assms(2)])
  ultimately show "inflight (lf_brk s) (snd (new_lf l s))" using n assms(2,3) by (simp add: inflight_def listed_def ls the_new)
  show "facts (snd (new_lf l s)) (lf_lists s h) = facts s (lf_lists s h)" by (rule frame_facts [OF fr g])
qed

section \<open>Setting\<close>

text \<open>What it means for a request to be free of conflicts, over the facts of its file.\<close>

definition grantable :: "(ptr \<Rightarrow> int \<Rightarrow> lock_type \<Rightarrow> bool) \<Rightarrow> lockf \<Rightarrow> bool" where
  "grantable F l \<longleftrightarrow> (\<forall>j k t. F j k t \<and> covers l k \<and> j \<noteq> lf_id l \<longrightarrow> t \<noteq> F_WRLCK \<and> lf_type l \<noteq> F_WRLCK)"

lemma grantable_conflict:
  assumes "\<forall>x \<in> set L. range_ok (the_lf s x)" and "range_ok l"
  shows "grantable (facts s L) l \<longleftrightarrow> (\<forall>x \<in> set L. \<not> conflict (the_lf s x) l)"
proof
  assume g: "grantable (facts s L) l"
  show "\<forall>x \<in> set L. \<not> conflict (the_lf s x) l"
  proof (intro ballI notI)
    fix x assume x: "x \<in> set L" "conflict (the_lf s x) l"
    then obtain k where "covers (the_lf s x) k" "covers l k" using overlap_byte [of "the_lf s x" l] assms by (auto simp: conflict_def)
    moreover from this have "facts s L (lf_id (the_lf s x)) k (lf_type (the_lf s x))" using x(1) by (auto simp: facts_def held_def)
    ultimately show False using g x(2) by (auto simp: grantable_def conflict_def)
  qed
next
  assume c: "\<forall>x \<in> set L. \<not> conflict (the_lf s x) l"
  show "grantable (facts s L) l"
    unfolding grantable_def
  proof (intro allI impI)
    fix j k t assume a: "facts s L j k t \<and> covers l k \<and> j \<noteq> lf_id l"
    then obtain x where x: "x \<in> set L" "lf_id (the_lf s x) = j" "lf_type (the_lf s x) = t" "covers (the_lf s x) k" by (auto simp: facts_def held_def)
    then have "\<not> bef (the_lf s x) l" "\<not> bef l (the_lf s x)" using overlap_byte [of "the_lf s x" l] assms a by blast+
    then show "t \<noteq> F_WRLCK \<and> lf_type l \<noteq> F_WRLCK" using c x a by (auto simp: conflict_def)
  qed
qed

lemma getblock_grantable:
  assumes "lists_ok s" and "range_ok l"
  shows "lf_getblock s (lf_lists s h) l = None \<longleftrightarrow> grantable (facts s (lf_lists s h)) l"
proof -
  have "\<forall>x \<in> set (lf_lists s h). range_ok (the_lf s x)" using assms(1) by (auto simp: lists_ok_def list_ok_def listed_ok_def)
  from grantable_conflict [OF this assms(2)] show ?thesis using getblock_spec [where s = s and as = "lf_lists s h" and l = l] by (auto split: option.splits)
qed

lemma setlock_granted:
  assumes fl: "inflight lock s" and ty: "lf_type (the_lf s lock) \<noteq> F_UNLCK" and h: "lf_head (the_lf s lock) = h"
    and g: "grantable (facts s (lf_lists s h)) (the_lf s lock)" and r: "lf_setlock td lock s = (r', s')"
  shows "r' = Returns None" and "lf_ok s'" and "overrides (the_lf s lock) (Some (lf_type (the_lf s lock))) (facts s (lf_lists s h)) (facts s' (lf_lists s' h))"
    and "\<And>g. g \<noteq> h \<Longrightarrow> lf_lists s' g = lf_lists s g \<and> facts s' (lf_lists s g) = facts s (lf_lists s g)"
    and "threads_of s' = threads_of s" and "p_threads s' = p_threads s"
proof -
  have i: "queues (insert lock (listed s)) {} s" "lock \<notin> listed s" "lf_blkhd (the_lf s lock) = []" "lists_ok s" "range_ok (the_lf s lock)"
    using fl by (simp_all add: inflight_def)
  have "lf_getblock s (lf_lists s h) (the_lf s lock) = None" using g getblock_grantable [OF i(4,5)] by simp
  moreover obtain L s1 where l: "lf_link lock True [] (lf_lists s h) s = (L, s1)" by fastforce
  ultimately have s': "r' = Returns None" "s' = set_list h L s1" using r h by (simp_all add: lf_setlock_def Let_def)
  note p = inflight_pre [OF fl h]
  have post: "link_post s (the_lf s lock) (Some (lf_type (the_lf s lock))) (lf_lists s h) s1 L" using link_ranges [OF p(1) ty l] by simp
  have q: "queues (elsewhere s h \<union> set L) {} s1" "frame (elsewhere s h \<union> requests s) s s1"
    using link_queues [OF p(1) ty l p(2,3)] i(3) by simp_all
  have fr: "frame (elsewhere s h) s s1" by (rule frame_mono [OF q(2)]) auto
  have lsx: "lf_lists s1 = lf_lists s" using q(2) by (simp add: frame_def)
  have c: "t = F_RDLCK \<and> u = F_RDLCK" if "Some (lf_type (the_lf s lock)) = Some u" "covers (the_lf s lock) k" "facts s (lf_lists s h) j k t" "j \<noteq> lf_id (the_lf s lock)"
    for j k t u
  proof -
    have "t \<noteq> F_WRLCK" "u \<noteq> F_WRLCK" using g that unfolding grantable_def by auto
    moreover have "t \<noteq> F_UNLCK" using that(3) i(4) by (auto simp: lists_ok_def list_ok_def listed_ok_def facts_def held_def)
    moreover have "u \<noteq> F_UNLCK" using that(1) ty by simp
    ultimately show ?thesis by (cases t; cases u) simp_all
  qed
  note w = lists_ok_walk [OF i(4) post h fr c]
  show "r' = Returns None" by (rule s'(1))
  show "lf_ok s'" using q(1) w(1) unfolding lf_ok_def s'(2) queues_set_list listed_set_list [OF lsx] by simp
  show "overrides (the_lf s lock) (Some (lf_type (the_lf s lock))) (facts s (lf_lists s h)) (facts s' (lf_lists s' h))" using w(2) s' by simp
  show "\<And>g. g \<noteq> h \<Longrightarrow> lf_lists s' g = lf_lists s g \<and> facts s' (lf_lists s g) = facts s (lf_lists s g)" using w(3) s' by simp
  show "threads_of s' = threads_of s" "p_threads s' = p_threads s" using q(2) s' by (simp_all add: frame_def set_list_def threads_of_def)
qed

text \<open>A request goes to sleep on a lock that conflicts with it.\<close>

definition sleep_on :: "ptr \<Rightarrow> ptr \<Rightarrow> ptr \<Rightarrow> lockfs \<Rightarrow> lockfs" where
  "sleep_on td lock block s =
     (let s2 = put_lf lock ((the_lf s lock)\<lparr>lf_next := Some block\<rparr>) s;
          s3 = put_lf block ((the_lf s2 block)\<lparr>lf_blkhd := lf_blkhd (the_lf s2 block) @ [lock]\<rparr>) s2
      in s3\<lparr>lf_asleep := lf_asleep s3 @ [(td, lock)]\<rparr>)"

lemma sleep_on_the: "block \<noteq> lock \<Longrightarrow> the_lf (sleep_on td lock block s) x =
    (if x = block then (the_lf s block)\<lparr>lf_blkhd := lf_blkhd (the_lf s block) @ [lock]\<rparr> else if x = lock then (the_lf s lock)\<lparr>lf_next := Some block\<rparr> else the_lf s x)"
  by (simp add: sleep_on_def Let_def the_lf_def put_lf_def)

lemma sleep_on_fields:
  "lf_asleep (sleep_on td lock block s) = lf_asleep s @ [(td, lock)]" "lf_ready (sleep_on td lock block s) = lf_ready s"
  "lf_lists (sleep_on td lock block s) = lf_lists s" "lf_brk (sleep_on td lock block s) = lf_brk s"
  "dom (lf_heap (sleep_on td lock block s)) = insert lock (insert block (dom (lf_heap s)))" "p_threads (sleep_on td lock block s) = p_threads s"
  by (auto simp: sleep_on_def Let_def put_lf_def)

definition busy :: "lockfs \<Rightarrow> ptr set" where "busy s = fst ` set_mset (threads_of s)"

lemma sleep_ok:
  assumes fl: "inflight lock s" and lk: "listed_ok (lf_head (the_lf s lock)) (the_lf s lock)" and b: "block \<in> set (lf_lists s (lf_head (the_lf s lock)))"
    and c: "conflict (the_lf s block) (the_lf s lock)" and td: "td \<notin> busy s"
  shows "lf_ok (sleep_on td lock block s)" and "facts (sleep_on td lock block s) (lf_lists s h) = facts s (lf_lists s h)"
proof -
  let ?s = "sleep_on td lock block s" and ?l = "the_lf s lock"
  have i: "queues (insert lock (listed s)) {} s" "lock \<notin> listed s" "lf_blkhd (the_lf s lock) = []" "lists_ok s"
    using fl by (simp_all add: inflight_def)
  note q = i(1)
  have bl: "block \<in> listed s" "block \<noteq> lock" using b i(2) by (auto simp: listed_def)
  note the = sleep_on_the [OF bl(2), of td s]
  have cr: "core (the_lf ?s x) = core (the_lf s x)" for x by (simp add: the)
  have fr: "same_core UNIV s ?s" by (simp add: same_core_def cr sleep_on_fields)
  show "facts ?s (lf_lists s h) = facts s (lf_lists s h)" by (rule same_core_facts [OF fr]) simp
  have "lists_ok ?s" using i(4) same_core_list_ok [OF fr] same_core_facts [OF fr] by (simp add: lists_ok_def sleep_on_fields)
  moreover have "queues (listed s) {} ?s"
  proof -
    have rq: "requests ?s = insert lock (requests s)" by (simp add: requests_def sleep_on_fields)
    have th: "threads_of ?s = add_mset (td, lock) (threads_of s)" by (simp add: threads_of_def sleep_on_fields)
    have lr: "lock \<notin> requests s" using queues_disj [OF q] by blast
    have dom: "dom (lf_heap ?s) = insert lock (listed s) \<union> requests s" using queues_dom [OF q] bl(1) by (auto simp: sleep_on_fields)
    have bk: "blocked (the_lf ?s x) (the_lf ?s w) = blocked (the_lf s x) (the_lf s w)" for x w
      by (auto simp: the blocked_def conflict_def bef_def)
    have wr: "w \<in> requests s" "w \<noteq> lock" "w \<noteq> block" if "a \<in> listed s" "w \<in> set (lf_blkhd (the_lf s a))" for a w
      using queues_own(1,3) [OF q, of a] that lr bl(1) by auto
    show ?thesis
      unfolding queues_def dom rq th bk
    proof (intro conjI)
      show "insert lock (listed s) \<union> requests s = listed s \<union> insert lock (requests s)" by auto
      show "listed s \<inter> insert lock (requests s) = {}" using i(2) queues_disj [OF q] by auto
      show "\<forall>x \<in> insert lock (listed s) \<union> requests s. x < lf_brk ?s" using queues_brk [OF q] by (simp add: sleep_on_fields)
      have "count (image_mset fst (threads_of s)) td = 0" using td by (simp add: busy_def count_eq_zero_iff)
      then show "\<forall>x. count (image_mset fst (add_mset (td, lock) (threads_of s))) x \<le> 1" using queues_threads(1) [OF q] by simp
      have "count (image_mset snd (threads_of s)) lock = 0" using lr by (simp add: requests_threads count_eq_zero_iff)
      then show "\<forall>x. count (image_mset snd (add_mset (td, lock) (threads_of s))) x \<le> 1" using queues_threads(2) [OF q] by simp
      show "\<forall>a \<in> listed s. distinct (lf_blkhd (the_lf ?s a)) \<and> (\<forall>w \<in> set (lf_blkhd (the_lf ?s a)). lf_next (the_lf ?s w) = Some a
              \<and> w \<in> snd ` set (lf_asleep ?s) \<and> (a \<notin> {} \<longrightarrow> blocked (the_lf s a) (the_lf s w)))"
      proof
        fix a assume a: "a \<in> listed s"
        then have a': "a \<in> insert lock (listed s)" "a \<noteq> lock" using i(2) by auto
        have old: "lf_next (the_lf ?s w) = Some a \<and> w \<in> snd ` set (lf_asleep ?s) \<and> blocked (the_lf s a) (the_lf s w)"
          if "w \<in> set (lf_blkhd (the_lf s a))" for w
          using queues_next [OF q a'(1) that] queues_blocked [OF q a'(1) _ that] wr [OF a that] by (auto simp: the sleep_on_fields)
        have new: "blocked (the_lf s block) ?l" using c listed_mem [OF i(4) b] by (simp add: blocked_def)
        have qb: "lf_blkhd (the_lf ?s a) = lf_blkhd (the_lf s a) @ (if a = block then [lock] else [])" using a'(2) by (simp add: the)
        have nx: "lf_next (the_lf ?s lock) = Some block" "lock \<in> snd ` set (lf_asleep ?s)" using bl(2) by (auto simp: the sleep_on_fields)
        have "distinct (lf_blkhd (the_lf s a))" "lock \<notin> set (lf_blkhd (the_lf s a))" using queues_distinct [OF q a'(1)] wr(2) [OF a] by auto
        then show "distinct (lf_blkhd (the_lf ?s a)) \<and> (\<forall>w \<in> set (lf_blkhd (the_lf ?s a)). lf_next (the_lf ?s w) = Some a
              \<and> w \<in> snd ` set (lf_asleep ?s) \<and> (a \<notin> {} \<longrightarrow> blocked (the_lf s a) (the_lf s w)))"
          unfolding qb using old new nx by (cases "a = block") auto
      qed
      show "\<forall>w \<in> snd ` set (lf_asleep ?s). \<exists>a \<in> listed s. lf_next (the_lf ?s w) = Some a \<and> w \<in> set (lf_blkhd (the_lf ?s a))"
      proof
        fix w assume w: "w \<in> snd ` set (lf_asleep ?s)"
        show "\<exists>a \<in> listed s. lf_next (the_lf ?s w) = Some a \<and> w \<in> set (lf_blkhd (the_lf ?s a))"
        proof (cases "w = lock")
          case True
          then show ?thesis using bl by (intro bexI [of _ block]) (simp_all add: the)
        next
          case False
          then have "w \<in> snd ` set (lf_asleep s)" using w by (auto simp: sleep_on_fields)
          then obtain a where a: "a \<in> insert lock (listed s)" "lf_next (the_lf s w) = Some a" "w \<in> set (lf_blkhd (the_lf s a))" using queues_asleep [OF q] by blast
          have al: "a \<noteq> lock" using a(3) i(3) by auto
          then have "a \<in> listed s" using a(1) by simp
          moreover have "w \<noteq> block" using wr(3) [OF calculation a(3)] .
          ultimately show ?thesis using a False al by (intro bexI [of _ a]) (auto simp: the)
        qed
      qed
      show "\<forall>w \<in> snd ` set (lf_ready ?s). lf_next (the_lf ?s w) = None"
      proof
        fix w assume "w \<in> snd ` set (lf_ready ?s)"
        then have w: "w \<in> snd ` set (lf_ready s)" by (simp add: sleep_on_fields)
        then have "w \<in> requests s" by (auto simp: requests_def)
        then have "w \<noteq> lock" "w \<noteq> block" using lr queues_disj [OF q] bl(1) by auto
        then show "lf_next (the_lf ?s w) = None" using queues_ready [OF q w] by (simp add: the)
      qed
      show "\<forall>w \<in> insert lock (requests s). listed_ok (lf_head (the_lf ?s w)) (the_lf ?s w) \<and> lf_blkhd (the_lf ?s w) = []"
      proof
        fix w assume w: "w \<in> insert lock (requests s)"
        then have "w \<noteq> block" using queues_disj [OF q] bl by auto
        moreover have "listed_ok (lf_head (the_lf s w)) (the_lf s w) \<and> lf_blkhd (the_lf s w) = []" using w lk i(3) queues_request [OF q] by auto
        ultimately show "listed_ok (lf_head (the_lf ?s w)) (the_lf ?s w) \<and> lf_blkhd (the_lf ?s w) = []" by (cases "w = lock") (simp_all add: the listed_ok_def range_ok_def)
      qed
    qed
  qed
  ultimately show "lf_ok ?s" by (simp add: lf_ok_def listed_def sleep_on_fields)
qed

text \<open>The locks that a sleeping flock request gives up first.\<close>

definition drops :: "lockf \<Rightarrow> bool" where "drops l \<longleftrightarrow> has_flag l F_FLOCK \<and> lf_type l = F_WRLCK"

definition give_up :: "ptr \<Rightarrow> lockfs \<Rightarrow> lockfs" where
  "give_up lock s =
     (if drops (the_lf s lock)
      then let s0 = lf_clearlock lock (put_lf lock ((the_lf s lock)\<lparr>lf_type := F_UNLCK\<rparr>) s)
           in put_lf lock ((the_lf s0 lock)\<lparr>lf_type := F_WRLCK\<rparr>) s0
      else s)"

lemma setlock_cases:
  "lf_setlock td lock s =
     (case lf_getblock s (lf_lists s (lf_head (the_lf s lock))) (the_lf s lock) of
        None \<Rightarrow> (case lf_link lock True [] (lf_lists s (lf_head (the_lf s lock))) s of (L, s1) \<Rightarrow> (Returns None, set_list (lf_head (the_lf s lock)) L s1))
      | Some block \<Rightarrow>
          if \<not> has_flag (the_lf s lock) F_WAIT then (Returns (Some EAGAIN), free_lf lock s)
          else if lf_deadlock s (the_lf s lock) (the_lf s block) then (Returns (Some EDEADLK), free_lf lock s)
          else (Sleeps, sleep_on td lock block (give_up lock s)))"
  by (simp add: lf_setlock_def sleep_on_def give_up_def drops_def Let_def split: option.split)

lemma give_up_ok:
  assumes fl: "inflight lock s" and lk: "listed_ok h (the_lf s lock)" 
  shows "inflight lock (give_up lock s)" and "core (the_lf (give_up lock s) lock) = core (the_lf s lock)"
    and "if drops (the_lf s lock) then overrides (the_lf s lock) None (facts s (lf_lists s h)) (facts (give_up lock s) (lf_lists (give_up lock s) h))
         else facts (give_up lock s) (lf_lists (give_up lock s) h) = facts s (lf_lists s h)"
    and "\<And>g. g \<noteq> h \<Longrightarrow> lf_lists (give_up lock s) g = lf_lists s g \<and> facts (give_up lock s) (lf_lists s g) = facts s (lf_lists s g)"
    and "\<And>x. x \<in> set (lf_lists s h) \<Longrightarrow> lf_id (the_lf s x) \<noteq> lf_id (the_lf s lock) \<Longrightarrow>
           x \<in> set (lf_lists (give_up lock s) h) \<and> core (the_lf (give_up lock s) x) = core (the_lf s x)"
    and "threads_of (give_up lock s) = threads_of s" and "p_threads (give_up lock s) = p_threads s"
proof -
  let ?l = "the_lf s lock"
  let ?s1 = "put_lf lock (?l\<lparr>lf_type := F_UNLCK\<rparr>) s"
  let ?s2 = "lf_clearlock lock ?s1"
  have i: "lf_blkhd ?l = []" "lock \<notin> listed s" and ro: "range_ok ?l" and hd: "lf_head ?l = h" using fl lk by (simp_all add: inflight_def listed_ok_def)
  have ro1: "range_ok (?l\<lparr>lf_type := F_UNLCK\<rparr>)" using ro by (simp add: range_ok_def)
  note p1 = inflight_put [OF fl _ ro1]
  have in1: "inflight lock ?s1" using p1(1) i by simp
  have l1: "lf_lists ?s1 = lf_lists s" "threads_of ?s1 = threads_of s" "p_threads ?s1 = p_threads s" by (simp_all add: put_lf_def threads_of_def)
  have f1: "facts ?s1 (lf_lists s g) = facts s (lf_lists s g)" for g using p1(2) i by simp
  have h1: "lf_head (the_lf ?s1 lock) = h" using hd by simp
  note c = clearlock_ok [OF in1 h1, unfolded l1 f1]
  have b2: "lf_blkhd (the_lf ?s2 lock) = []" "range_ok (the_lf ?s2 lock)" using c(1) by (simp_all add: inflight_def)
  let ?s3 = "put_lf lock ((the_lf ?s2 lock)\<lparr>lf_type := F_WRLCK\<rparr>) ?s2"
  have p3: "inflight lock ?s3" "\<And>g. facts ?s3 (lf_lists ?s2 g) = facts ?s2 (lf_lists ?s2 g)"
    using inflight_put [OF c(1), of "(the_lf ?s2 lock)\<lparr>lf_type := F_WRLCK\<rparr>"] b2 by (simp_all add: range_ok_def)
  have l3: "lf_lists ?s3 = lf_lists ?s2" "threads_of ?s3 = threads_of ?s2" "p_threads ?s3 = p_threads ?s2" by (simp_all add: put_lf_def threads_of_def)
  have g: "give_up lock s = (if drops ?l then ?s3 else s)" by (simp add: give_up_def Let_def)
  show "inflight lock (give_up lock s)" using p3(1) fl by (simp add: g)
  show "core (the_lf (give_up lock s) lock) = core ?l" using c(4) by (simp add: g core_eq drops_def)
  have "overrides ?l None (facts s (lf_lists s h)) (facts ?s2 (lf_lists ?s2 h))"
    using c(2) by (simp add: overrides_def covers_def)
  then show "if drops ?l then overrides ?l None (facts s (lf_lists s h)) (facts (give_up lock s) (lf_lists (give_up lock s) h))
         else facts (give_up lock s) (lf_lists (give_up lock s) h) = facts s (lf_lists s h)"
    using p3(2) l3 by (simp add: g)
  show "lf_lists (give_up lock s) g' = lf_lists s g' \<and> facts (give_up lock s) (lf_lists s g') = facts s (lf_lists s g')" if "g' \<noteq> h" for g'
    using c(3) [OF that] p3(2) [of g'] l3(1) by (simp add: g)
  show "x \<in> set (lf_lists (give_up lock s) h) \<and> core (the_lf (give_up lock s) x) = core (the_lf s x)"
    if "x \<in> set (lf_lists s h)" "lf_id (the_lf s x) \<noteq> lf_id ?l" for x
  proof -
    have "x \<noteq> lock" using that by auto
    then show ?thesis using c(5) [of x] that l3(1) by (simp add: g)
  qed
  show "threads_of (give_up lock s) = threads_of s" "p_threads (give_up lock s) = p_threads s" using c(6,7) l3 by (simp_all add: g)
qed

text \<open>Everything lf_setlock does, for each answer.\<close>

definition setlock_effect :: "lockf \<Rightarrow> lf_result \<Rightarrow> lockfs \<Rightarrow> lockfs \<Rightarrow> bool" where
  "setlock_effect l r s s' \<longleftrightarrow>
     (let h = lf_head l; F = facts s (lf_lists s h); F' = facts s' (lf_lists s' h) in
      (case r of
         Returns None \<Rightarrow> grantable F l \<and> overrides l (Some (lf_type l)) F F'
       | Returns (Some e) \<Rightarrow> \<not> grantable F l \<and> F' = F \<and> (e = EAGAIN \<and> \<not> has_flag l F_WAIT \<or> e = EDEADLK \<and> has_flag l F_WAIT)
       | Sleeps \<Rightarrow> \<not> grantable F l \<and> has_flag l F_WAIT \<and> (if drops l then overrides l None F F' else F' = F)))"

lemma setlock_ok:
  assumes fl: "inflight lock s" and lk: "listed_ok h (the_lf s lock)" and td: "td \<notin> busy s" and r: "lf_setlock td lock s = (r, s')"
  shows "lf_ok s'" and "setlock_effect (the_lf s lock) r s s'" and "\<And>g. g \<noteq> h \<Longrightarrow> facts s' (lf_lists s' g) = facts s (lf_lists s g)"
    and "threads_of s' = (if r = Sleeps then add_mset (td, lock) (threads_of s) else threads_of s)"
proof -
  let ?l = "the_lf s lock"
  have hd: "lf_head ?l = h" and ty: "lf_type ?l \<noteq> F_UNLCK" and ro: "range_ok ?l" using lk by (simp_all add: listed_ok_def)
  have lo: "lists_ok s" using fl by (simp add: inflight_def)
  have gb: "lf_getblock s (lf_lists s h) ?l = None \<longleftrightarrow> grantable (facts s (lf_lists s h)) ?l" by (rule getblock_grantable [OF lo ro])
  have fr: "lf_ok (free_lf lock s)" "facts (free_lf lock s) (lf_lists s g) = facts s (lf_lists s g)" "lf_lists (free_lf lock s) = lf_lists s" for g
    using free_ok [OF fl] by simp_all
  have "lf_ok s' \<and> setlock_effect ?l r s s' \<and> (\<forall>g. g \<noteq> h \<longrightarrow> facts s' (lf_lists s' g) = facts s (lf_lists s g))
     \<and> threads_of s' = (if r = Sleeps then add_mset (td, lock) (threads_of s) else threads_of s)"
  proof (cases "lf_getblock s (lf_lists s h) ?l")
    case None
    then have g: "grantable (facts s (lf_lists s h)) ?l" using gb by simp
    show ?thesis using setlock_granted [OF fl ty hd g r] g hd by (simp add: setlock_effect_def Let_def)
  next
    case (Some block)
    then have ng: "\<not> grantable (facts s (lf_lists s h)) ?l" using gb by simp
    have b: "block \<in> set (lf_lists s h)" "conflict (the_lf s block) ?l"
      using getblock_spec [where s = s and as = "lf_lists s h" and l = ?l] Some by simp_all
    consider (again) "\<not> has_flag ?l F_WAIT" | (dead) "has_flag ?l F_WAIT" "lf_deadlock s ?l (the_lf s block)"
      | (sleep) "has_flag ?l F_WAIT" "\<not> lf_deadlock s ?l (the_lf s block)" by blast
    then show ?thesis
    proof cases
      case again
      then have "r = Returns (Some EAGAIN)" "s' = free_lf lock s" using r Some hd by (simp_all add: setlock_cases)
      then show ?thesis using fr ng hd again by (simp add: setlock_effect_def Let_def)
    next
      case dead
      then have "r = Returns (Some EDEADLK)" "s' = free_lf lock s" using r Some hd by (simp_all add: setlock_cases)
      then show ?thesis using fr ng hd dead by (simp add: setlock_effect_def Let_def)
    next
      case sleep
      let ?s1 = "give_up lock s"
      have rs: "r = Sleeps" "s' = sleep_on td lock block ?s1" using r Some hd sleep by (simp_all add: setlock_cases)
      note u = give_up_ok [OF fl lk]
      have c: "core (the_lf ?s1 lock) = core ?l" by (rule u(2))
      have bb: "block \<in> set (lf_lists ?s1 h)" "core (the_lf ?s1 block) = core (the_lf s block)" using u(5) b by (simp_all add: conflict_def)
      have hd1: "lf_head (the_lf ?s1 lock) = h" using core_fields(6) [OF c] hd by simp
      have cf: "conflict (the_lf ?s1 block) (the_lf ?s1 lock)" using b(2) c bb(2) by (simp add: conflict_def core_eq bef_def)
      have lk1: "listed_ok (lf_head (the_lf ?s1 lock)) (the_lf ?s1 lock)" using core_listed [OF c] hd1 lk by simp
      have td1: "td \<notin> busy ?s1" using td u(6) by (simp add: busy_def)
      note sl = sleep_ok [OF u(1) lk1 bb(1) [folded hd1] cf td1]
      have F: "facts s' (lf_lists s' g) = facts ?s1 (lf_lists ?s1 g)" for g using sl(2) by (simp add: rs sleep_on_fields)
      have "lf_ok s'" using sl(1) rs by simp
      moreover have "setlock_effect ?l r s s'" using ng sleep u(3) hd F by (simp add: setlock_effect_def Let_def rs(1))
      moreover have "threads_of s' = add_mset (td, lock) (threads_of s)" using u(6) by (simp add: rs threads_of_def sleep_on_fields)
      moreover have "facts s' (lf_lists s' g) = facts s (lf_lists s g)" if "g \<noteq> h" for g using u(4) [OF that] F by simp
      ultimately show ?thesis using rs(1) by simp
    qed
  qed
  then show "lf_ok s'" "setlock_effect ?l r s s'" "\<And>g. g \<noteq> h \<Longrightarrow> facts s' (lf_lists s' g) = facts s (lf_lists s g)"
    "threads_of s' = (if r = Sleeps then add_mset (td, lock) (threads_of s) else threads_of s)" by blast+
qed

end
