(* ===== verification/Kern_Lockf_Back.thy ===== *)
theory Kern_Lockf_Back
  imports Kern_Lockf_Inv
begin

text \<open>A thread that comes back from its sleep: it takes its request out of the queue, if it is still in one, and goes on.\<close>

section \<open>Coming back\<close>

definition leave :: "ptr \<Rightarrow> ptr \<Rightarrow> lockfs \<Rightarrow> lockfs" where
  "leave td lock s =
     (let s0 = s\<lparr>lf_asleep := removeAll (td, lock) (lf_asleep s), lf_ready := removeAll (td, lock) (lf_ready s)\<rparr> in
      case lf_next (the_lf s0 lock) of
        None \<Rightarrow> s0
      | Some b \<Rightarrow>
          let s' = put_lf b ((the_lf s0 b)\<lparr>lf_blkhd := remove1 lock (lf_blkhd (the_lf s0 b))\<rparr>) s0
          in put_lf lock ((the_lf s' lock)\<lparr>lf_next := None\<rparr>) s')"

lemma woken_leave:
  "lf_setlock_woken td lock e s =
     (case e of Some er \<Rightarrow> (Returns (Some er), free_lf lock (leave td lock s)) | None \<Rightarrow> lf_setlock td lock (leave td lock s))"
  unfolding lf_setlock_woken_def leave_def Let_def by (rule refl)

lemma one_left:
  assumes "queues A X s" and "(td, l) \<in># threads_of s"
  shows "td \<notin> fst ` set_mset (threads_of s - {#(td, l)#})" and "l \<notin> snd ` set_mset (threads_of s - {#(td, l)#})"
proof -
  have m: "threads_of s = add_mset (td, l) (threads_of s - {#(td, l)#})" using assms(2) by simp
  have "count (image_mset fst (threads_of s)) td = Suc (count (image_mset fst (threads_of s - {#(td, l)#})) td)" by (subst m) simp
  then show "td \<notin> fst ` set_mset (threads_of s - {#(td, l)#})"
    using queues_threads(1) [OF assms(1), of td] by (metis Suc_le_mono One_nat_def le_zero_eq count_eq_zero_iff set_image_mset)
  have "count (image_mset snd (threads_of s)) l = Suc (count (image_mset snd (threads_of s - {#(td, l)#})) l)" by (subst m) simp
  then show "l \<notin> snd ` set_mset (threads_of s - {#(td, l)#})"
    using queues_threads(2) [OF assms(1), of l] by (metis Suc_le_mono One_nat_def le_zero_eq count_eq_zero_iff set_image_mset)
qed

lemma leave_fields:
  "lf_asleep (leave td lock s) = removeAll (td, lock) (lf_asleep s)" "lf_ready (leave td lock s) = removeAll (td, lock) (lf_ready s)"
  "lf_lists (leave td lock s) = lf_lists s" "lf_brk (leave td lock s) = lf_brk s" "p_threads (leave td lock s) = p_threads s"
  by (auto simp: leave_def Let_def put_lf_def split: option.split)

lemma leave_the:
  "lf_next (the_lf s lock) = None \<Longrightarrow> the_lf (leave td lock s) x = the_lf s x"
  "lf_next (the_lf s lock) = Some b \<Longrightarrow> b \<noteq> lock \<Longrightarrow> the_lf (leave td lock s) x =
     (if x = b then (the_lf s b)\<lparr>lf_blkhd := remove1 lock (lf_blkhd (the_lf s b))\<rparr> else if x = lock then (the_lf s lock)\<lparr>lf_next := None\<rparr> else the_lf s x)"
  by (simp_all add: leave_def Let_def the_lf_def put_lf_def)

lemma leave_dom:
  "lf_next (the_lf s lock) = None \<Longrightarrow> dom (lf_heap (leave td lock s)) = dom (lf_heap s)"
  "lf_next (the_lf s lock) = Some b \<Longrightarrow> dom (lf_heap (leave td lock s)) = insert lock (insert b (dom (lf_heap s)))"
  by (auto simp: leave_def Let_def the_lf_def put_lf_def)

lemma leave_threads:
  assumes "queues A X s" and "(td, lock) \<in># threads_of s"
  shows "threads_of (leave td lock s) = threads_of s - {#(td, lock)#}"
proof (rule multiset_eqI)
  fix p
  have "count (threads_of (leave td lock s)) p = (if p = (td, lock) then 0 else count (threads_of s) p)"
    by (simp add: threads_of_def leave_fields removeAll_filter_not_eq)
  moreover have "count (threads_of s - {#(td, lock)#}) (td, lock) = 0"
    unfolding count_eq_zero_iff using imageI [of "(td, lock)" "set_mset (threads_of s - {#(td, lock)#})" fst] one_left(1) [OF assms] by auto
  ultimately show "count (threads_of (leave td lock s)) p = count (threads_of s - {#(td, lock)#}) p" by simp
qed

lemma leave_ok:
  assumes ok: "lf_ok s" and t: "(td, lock) \<in># threads_of s"
  shows "inflight lock (leave td lock s)" and "core (the_lf (leave td lock s) x) = core (the_lf s x)"
    and "facts (leave td lock s) (lf_lists s h) = facts s (lf_lists s h)" and "listed_ok (lf_head (the_lf s lock)) (the_lf s lock)"
    and "td \<notin> busy (leave td lock s)"
proof -
  let ?s = "leave td lock s"
  have q: "queues (listed s) {} s" and lo: "lists_ok s" using ok by (simp_all add: lf_ok_def)
  note th = leave_threads [OF q t] and one = one_left [OF q t]
  have lr: "lock \<in> requests s" using t by (force simp: requests_threads)
  have ln: "lock \<notin> listed s" using queues_disj [OF q] lr by blast
  show td: "td \<notin> busy ?s" using one(1) by (simp add: busy_def th)
  have "requests s = insert lock (requests ?s)"
    using t insert_DiffM [OF t] unfolding requests_threads th by (metis image_insert set_mset_add_mset_insert snd_conv)
  moreover have lq: "lock \<notin> requests ?s" using one(2) by (simp add: requests_threads th)
  ultimately have rq: "requests ?s = requests s - {lock}" by auto
  have bl: "b \<in> listed s \<and> b \<noteq> lock \<and> lock \<in> set (lf_blkhd (the_lf s b))" if "lf_next (the_lf s lock) = Some b" for b
  proof -
    have "lock \<notin> snd ` set (lf_ready s)" using queues_ready [OF q] that by force
    then have "lock \<in> snd ` set (lf_asleep s)" using lr by (auto simp: requests_def)
    then show ?thesis using queues_asleep [OF q] that ln by fastforce
  qed
  have nq: "lock \<notin> set (lf_blkhd (the_lf s a))" if "a \<in> listed s" "lf_next (the_lf s lock) \<noteq> Some a" for a
    using queues_next [OF q that(1)] that(2) by blast
  have the: "the_lf ?s x = (if x = lock then (the_lf s lock)\<lparr>lf_next := None\<rparr>
             else if lf_next (the_lf s lock) = Some x then (the_lf s x)\<lparr>lf_blkhd := remove1 lock (lf_blkhd (the_lf s x))\<rparr> else the_lf s x)" for x
  proof (cases "lf_next (the_lf s lock)")
    case None
    moreover from this have "the_lf s lock = (the_lf s lock)\<lparr>lf_next := None\<rparr>" by simp
    ultimately show ?thesis using leave_the(1) by simp
  next
    case (Some b)
    then show ?thesis using leave_the(2) [OF Some] bl by auto
  qed
  have qb: "lf_blkhd (the_lf ?s a) = remove1 lock (lf_blkhd (the_lf s a))" if "a \<in> listed s" for a
    using nq [OF that] ln that by (auto simp: the remove1_idem)
  have cr: "core (the_lf ?s x) = core (the_lf s x)" for x by (simp add: the)
  have same: "same_core UNIV s ?s" by (simp add: same_core_def cr leave_fields)
  show "core (the_lf ?s x) = core (the_lf s x)" by (rule cr)
  show "facts ?s (lf_lists s h) = facts s (lf_lists s h)" by (rule same_core_facts [OF same]) simp
  show "listed_ok (lf_head (the_lf s lock)) (the_lf s lock)" using queues_request [OF q lr] by simp
  have lists: "lists_ok ?s" using lo same_core_list_ok [OF same] same_core_facts [OF same] by (simp add: lists_ok_def leave_fields)
  have bk: "blocked (the_lf ?s a) (the_lf ?s w) = blocked (the_lf s a) (the_lf s w)" for a w
    by (auto simp: the blocked_def conflict_def bef_def)
  have lb: "lf_blkhd (the_lf s lock) = []" using queues_request [OF q lr] by simp
  have nx: "lf_next (the_lf ?s w) = lf_next (the_lf s w)" if "w \<noteq> lock" for w using that by (simp add: the)
  have wr: "w \<in> requests s" if "a \<in> listed s" "w \<in> set (lf_blkhd (the_lf s a))" for a w using queues_own(1) [OF q that(1)] that(2) by blast
  have sub: "snd ` set (lf_asleep ?s) = snd ` set (lf_asleep s) - {lock}" "snd ` set (lf_ready ?s) = snd ` set (lf_ready s) - {lock}"
    using lq by (auto simp: leave_fields requests_def image_iff)
  have "queues (insert lock (listed s)) {} ?s"
    unfolding queues_def th rq bk sub
  proof (intro conjI)
    show "dom (lf_heap ?s) = insert lock (listed s) \<union> (requests s - {lock})"
      using queues_dom [OF q] lr bl leave_dom [of s lock] by (cases "lf_next (the_lf s lock)") auto
    show "insert lock (listed s) \<inter> (requests s - {lock}) = {}" using queues_disj [OF q] by auto
    show "\<forall>x \<in> dom (lf_heap ?s). x < lf_brk ?s"
      using queues_dom [OF q] lr bl leave_dom [of s lock] queues_brk [OF q] by (cases "lf_next (the_lf s lock)") (auto simp: leave_fields)
    have le: "count (image_mset f (M - N)) x \<le> count (image_mset f M) x" for f :: "ptr \<times> ptr \<Rightarrow> ptr" and M N x
      by (intro mset_subset_eq_count image_mset_subseteq_mono) simp
    show "\<forall>x. count (image_mset fst (threads_of s - {#(td, lock)#})) x \<le> 1" "\<forall>x. count (image_mset snd (threads_of s - {#(td, lock)#})) x \<le> 1"
      using queues_threads [OF q] le order_trans by blast+
    show "\<forall>a \<in> insert lock (listed s). distinct (lf_blkhd (the_lf ?s a)) \<and> (\<forall>w \<in> set (lf_blkhd (the_lf ?s a)). lf_next (the_lf ?s w) = Some a
            \<and> w \<in> snd ` set (lf_asleep s) - {lock} \<and> (a \<notin> {} \<longrightarrow> blocked (the_lf s a) (the_lf s w)))"
    proof
      fix a assume a: "a \<in> insert lock (listed s)"
      show "distinct (lf_blkhd (the_lf ?s a)) \<and> (\<forall>w \<in> set (lf_blkhd (the_lf ?s a)). lf_next (the_lf ?s w) = Some a
            \<and> w \<in> snd ` set (lf_asleep s) - {lock} \<and> (a \<notin> {} \<longrightarrow> blocked (the_lf s a) (the_lf s w)))"
      proof (cases "a = lock")
        case True
        then show ?thesis using lb by (simp add: the)
      next
        case False
        then have al: "a \<in> listed s" using a by simp
        have d: "distinct (lf_blkhd (the_lf s a))" by (rule queues_distinct [OF q al])
        show ?thesis unfolding qb [OF al] using d queues_next [OF q al] queues_blocked [OF q al] nx by (auto simp: set_remove1_eq)
      qed
    qed
    show "\<forall>w \<in> snd ` set (lf_asleep s) - {lock}. \<exists>a \<in> insert lock (listed s). lf_next (the_lf ?s w) = Some a \<and> w \<in> set (lf_blkhd (the_lf ?s a))"
    proof
      fix w assume w: "w \<in> snd ` set (lf_asleep s) - {lock}"
      then obtain a where "a \<in> listed s" "lf_next (the_lf s w) = Some a" "w \<in> set (lf_blkhd (the_lf s a))" using queues_asleep [OF q, of w] by blast
      then show "\<exists>a \<in> insert lock (listed s). lf_next (the_lf ?s w) = Some a \<and> w \<in> set (lf_blkhd (the_lf ?s a))"
        using w nx qb by (intro bexI [of _ a]) auto
    qed
    show "\<forall>w \<in> snd ` set (lf_ready s) - {lock}. lf_next (the_lf ?s w) = None" using queues_ready [OF q] nx by simp
    show "\<forall>w \<in> requests s - {lock}. listed_ok (lf_head (the_lf ?s w)) (the_lf ?s w) \<and> lf_blkhd (the_lf ?s w) = []"
    proof
      fix w assume w: "w \<in> requests s - {lock}"
      have "lf_blkhd (the_lf ?s w) = []" using queues_request [OF q, of w] w by (simp add: the)
      moreover have "listed_ok (lf_head (the_lf ?s w)) (the_lf ?s w)"
        using queues_request [OF q, of w] w core_listed [OF cr] core_fields(6) [OF cr] by simp
      ultimately show "listed_ok (lf_head (the_lf ?s w)) (the_lf ?s w) \<and> lf_blkhd (the_lf ?s w) = []" by simp
    qed
  qed
  moreover have "listed ?s = listed s" by (simp add: listed_def leave_fields)
  moreover have "range_ok (the_lf ?s lock)" using queues_request [OF q lr] by (simp add: the listed_ok_def range_ok_def)
  ultimately show "inflight lock ?s" using ln lists lb by (simp add: inflight_def the)
qed

end
