(* ===== verification/Kern_Lockf_Calls.thy ===== *)
theory Kern_Lockf_Calls
  imports Kern_Lockf_Back
begin

text \<open>
  The advisory locks as processes see them: the steps of lf_advlock and of the threads that come back from their sleep, the states they
  reach, and what the invariant gives for each operation.
\<close>

section \<open>The byte range of a flock structure\<close>

definition flock_in :: "flock \<Rightarrow> int \<Rightarrow> bool" where
  "flock_in fl fsize \<longleftrightarrow> - (2 ^ 63) \<le> l_start fl \<and> l_start fl \<le> OFF_MAX \<and> - (2 ^ 63) \<le> l_len fl \<and> l_len fl \<le> OFF_MAX \<and> 0 \<le> fsize \<and> fsize < 2 ^ 64"

text \<open>Where the bytes start, without wrap-around.\<close>

definition flock_base :: "flock \<Rightarrow> int \<Rightarrow> int" where
  "flock_base fl fsize = (if l_whence fl = SEEK_END then fsize + l_start fl else l_start fl)"

definition flock_covers :: "flock \<Rightarrow> int \<Rightarrow> int \<Rightarrow> bool" where
  "flock_covers fl fsize k \<longleftrightarrow>
     (if l_len fl < 0 then flock_base fl fsize + l_len fl \<le> k \<and> k < flock_base fl fsize
      else flock_base fl fsize \<le> k \<and> (l_len fl = 0 \<or> k < flock_base fl fsize + l_len fl))"

definition range_of :: "int \<Rightarrow> int \<Rightarrow> int \<Rightarrow> bool" where "range_of a b k \<longleftrightarrow> a \<le> k \<and> (b = -1 \<or> k \<le> b)"

lemma range_spec:
  assumes "flock_in fl fsize"
  shows "case lf_range fl fsize of
           Inl e \<Rightarrow> (case l_whence fl of Whence_other w \<Rightarrow> e = EINVAL
                     | _ \<Rightarrow> if e = EINVAL then flock_base fl fsize < 0 \<or> l_len fl < 0 \<and> flock_base fl fsize + l_len fl < 0
                           else e = EOVERFLOW \<and> (l_whence fl = SEEK_END \<and> (fsize > OFF_MAX \<or> flock_base fl fsize > OFF_MAX)
                                                   \<or> l_len fl > 0 \<and> flock_base fl fsize + l_len fl - 1 > OFF_MAX))
         | Inr (a, b) \<Rightarrow> 0 \<le> a \<and> a \<le> OFF_MAX \<and> (b = -1 \<or> a \<le> b \<and> b \<le> OFF_MAX) \<and> (\<forall>k. range_of a b k = flock_covers fl fsize k)"
proof -
  have s: "off_t (fsize + l_start fl) = fsize + l_start fl" if "\<not> (fsize > OFF_MAX \<or> (l_start fl > 0 \<and> fsize > OFF_MAX - l_start fl))"
    using that assms by (intro off_t_id) (auto simp: flock_in_def OFF_MAX_def)
  have l: "off_t (x + l_len fl) = x + l_len fl" if "l_len fl < 0" "0 \<le> x" "x \<le> OFF_MAX" for x
    using that assms by (intro off_t_id) (auto simp: flock_in_def OFF_MAX_def)
  have m: "off_t (x + (l_len fl - 1)) = x + (l_len fl - 1)" if "\<not> l_len fl - 1 > OFF_MAX - x" "0 \<le> x" "l_len fl > 0" for x
    using that assms by (intro off_t_id) (auto simp: flock_in_def OFF_MAX_def)
  have b: "l_start fl \<le> OFF_MAX" "0 \<le> fsize" using assms by (simp_all add: flock_in_def)
  show ?thesis
    using s l m b
    by (cases "l_whence fl") (auto simp: lf_range_def flock_base_def flock_covers_def range_of_def Let_def)
qed

section \<open>Steps\<close>

definition lf_init :: "(ptr \<Rightarrow> ptr list) \<Rightarrow> (ptr \<Rightarrow> int) \<Rightarrow> lockfs" where
  "lf_init threads pids = \<lparr>lf_heap = Map.empty, lf_brk = 0, lf_lists = (\<lambda>_. []), lf_asleep = [], lf_ready = [], p_threads = threads, lf_p_pid = pids\<rparr>"

definition lf_busy :: "lockfs \<Rightarrow> ptr list" where "lf_busy s = map fst (lf_asleep s @ lf_ready s)"

text \<open>A call that the checks of fcntl and flock let through, and whose range does not end at the last offset of all.\<close>

definition call_in :: "lf_op \<Rightarrow> flock \<Rightarrow> int \<Rightarrow> bool" where
  "call_in opn fl fsize \<longleftrightarrow> flock_in fl fsize \<and> (opn = Op_SETLK \<longrightarrow> l_type fl \<noteq> F_UNLCK)
     \<and> (case lf_range fl fsize of Inl e \<Rightarrow> True | Inr (a, b) \<Rightarrow> b \<noteq> OFF_MAX)"

inductive lf_reachable :: "lockfs \<Rightarrow> bool" where
  lf_start_up: "lf_reachable (lf_init threads pids)"
| lf_call: "lf_reachable s \<Longrightarrow> td \<notin> set (lf_busy s) \<Longrightarrow> call_in opn fl fsize \<Longrightarrow> lf_reachable (snd (lf_advlock td owner opn fl flags head fsize s))"
| lf_back: "lf_reachable s \<Longrightarrow> (td, lock) \<in> set (lf_asleep s @ lf_ready s) \<Longrightarrow> lf_reachable (snd (lf_setlock_woken td lock e s))"

lemma busy_set: "busy s = set (lf_busy s)" by (simp add: busy_def lf_busy_def threads_of_def image_Un)

definition request :: "ptr \<Rightarrow> flock \<Rightarrow> u32 \<Rightarrow> ptr \<Rightarrow> int \<Rightarrow> int \<Rightarrow> lockf" where
  "request owner fl flags head a b = \<lparr>lf_flags = ucast flags, lf_type = l_type fl, lf_start = a, lf_end = b, lf_id = owner,
                                      lf_head = head, lf_next = None, lf_blkhd = []\<rparr>"

lemma request_simps [simp]:
  "lf_flags (request owner fl flags head a b) = ucast flags" "lf_type (request owner fl flags head a b) = l_type fl"
  "lf_start (request owner fl flags head a b) = a" "lf_end (request owner fl flags head a b) = b"
  "lf_id (request owner fl flags head a b) = owner" "lf_head (request owner fl flags head a b) = head"
  "lf_next (request owner fl flags head a b) = None" "lf_blkhd (request owner fl flags head a b) = []"
  by (simp_all add: request_def)

lemma advlock_cases:
  "lf_advlock td owner opn fl flags head fsize s =
     (case lf_range fl fsize of
        Inl e \<Rightarrow> ((Returns (Some e), fl), s)
      | Inr (a, b) \<Rightarrow>
          if lf_lists s head = [] \<and> opn \<noteq> Op_SETLK then ((Returns None, fl\<lparr>l_type := F_UNLCK\<rparr>), s)
          else let s1 = snd (new_lf (request owner fl flags head a b) s) in
            (case opn of
               Op_SETLK \<Rightarrow> ((fst (lf_setlock td (lf_brk s) s1), fl), snd (lf_setlock td (lf_brk s) s1))
             | Op_UNLCK \<Rightarrow> ((Returns None, fl), free_lf (lf_brk s) (lf_clearlock (lf_brk s) s1))
             | Op_GETLK \<Rightarrow> ((Returns None, lf_getlock (lf_brk s) fl s1), free_lf (lf_brk s) s1)
             | Op_other n \<Rightarrow> ((Returns (Some EINVAL), fl), free_lf (lf_brk s) s1)))"
proof (cases "lf_range fl fsize")
  case (Inr p)
  then show ?thesis by (cases p; cases opn) (simp_all add: lf_advlock_def request_def new_lf_def Let_def split: prod.split)
qed (simp add: lf_advlock_def)

lemma call_range:
  assumes "call_in opn fl fsize" and "lf_range fl fsize = Inr (a, b)"
  shows "range_ok (request owner fl flags head a b)" and "covers (request owner fl flags head a b) k \<longleftrightarrow> flock_covers fl fsize k"
    and "opn = Op_SETLK \<Longrightarrow> listed_ok head (request owner fl flags head a b)"
proof -
  have "0 \<le> a \<and> a \<le> OFF_MAX \<and> (b = -1 \<or> a \<le> b \<and> b \<le> OFF_MAX) \<and> (\<forall>k. range_of a b k = flock_covers fl fsize k)" "b \<noteq> OFF_MAX"
    using range_spec [of fl fsize] assms by (simp_all add: call_in_def)
  then show "range_ok (request owner fl flags head a b)" "covers (request owner fl flags head a b) k \<longleftrightarrow> flock_covers fl fsize k"
    by (auto simp: range_ok_def covers_def range_of_def)
  then show "opn = Op_SETLK \<Longrightarrow> listed_ok head (request owner fl flags head a b)" using assms(1) by (simp add: listed_ok_def call_in_def)
qed

text \<open>The facts of a file.\<close>

definition holds :: "lockfs \<Rightarrow> ptr \<Rightarrow> ptr \<Rightarrow> int \<Rightarrow> lock_type \<Rightarrow> bool" where "holds s h = facts s (lf_lists s h)"

lemma new_holds: "lf_ok s \<Longrightarrow> lf_blkhd l = [] \<Longrightarrow> range_ok l \<Longrightarrow> holds (snd (new_lf l s)) = holds s"
  using new_ok(2) [of s l] by (intro ext) (simp add: holds_def new_lf_def)

lemma advlock_set:
  assumes ok: "lf_ok s" and td: "td \<notin> set (lf_busy s)" and c: "call_in Op_SETLK fl fsize" and r: "lf_range fl fsize = Inr (a, b)"
    and res: "lf_advlock td owner Op_SETLK fl flags head fsize s = ((r, fl'), s')"
  shows "lf_ok s'" and "fl' = fl" and "\<And>g. g \<noteq> head \<Longrightarrow> holds s' g = holds s g"
    and "case r of
           Returns None \<Rightarrow> grantable (holds s head) (request owner fl flags head a b)
                           \<and> overrides (request owner fl flags head a b) (Some (l_type fl)) (holds s head) (holds s' head)
         | Returns (Some e) \<Rightarrow> \<not> grantable (holds s head) (request owner fl flags head a b) \<and> holds s' head = holds s head
                           \<and> (if has_flag (request owner fl flags head a b) F_WAIT then e = EDEADLK else e = EAGAIN)
         | Sleeps \<Rightarrow> \<not> grantable (holds s head) (request owner fl flags head a b) \<and> has_flag (request owner fl flags head a b) F_WAIT
                           \<and> (if drops (request owner fl flags head a b) then overrides (request owner fl flags head a b) None (holds s head) (holds s' head)
                              else holds s' head = holds s head)"
    and "threads_of s' = (if r = Sleeps then add_mset (td, lf_brk s) (threads_of s) else threads_of s)"
proof -
  let ?l = "request owner fl flags head a b" and ?s1 = "snd (new_lf (request owner fl flags head a b) s)"
  note cr = call_range [OF c r]
  have fl: "inflight (lf_brk s) ?s1" by (rule new_ok(1) [OF ok]) (simp_all add: cr(1))
  have th: "the_lf ?s1 (lf_brk s) = ?l" by (simp add: the_new)
  have h1: "facts ?s1 (lf_lists ?s1 g) = holds s g" for g using new_holds [OF ok _ cr(1)] by (metis holds_def request_simps(8))
  have tm: "threads_of ?s1 = threads_of s" by (simp add: new_lf_def threads_of_def)
  have b1: "td \<notin> busy ?s1" using td by (simp add: busy_def tm flip: busy_set)
  have rs: "lf_setlock td (lf_brk s) ?s1 = (r, s')" "fl' = fl" using res r by (auto simp: advlock_cases Let_def prod_eq_iff)
  have lk: "listed_ok head (the_lf ?s1 (lf_brk s))" using cr(3) th by simp
  note e = setlock_ok [OF fl lk b1 rs(1)]
  show "lf_ok s'" "fl' = fl" using e(1) rs by simp_all
  show "holds s' g = holds s g" if "g \<noteq> head" for g using e(3) [OF that] h1 by (simp add: holds_def)
  show "threads_of s' = (if r = Sleeps then add_mset (td, lf_brk s) (threads_of s) else threads_of s)" using e(4) tm by simp
  have "setlock_effect ?l r ?s1 s'" using e(2) th by simp
  then show "case r of
           Returns None \<Rightarrow> grantable (holds s head) ?l \<and> overrides ?l (Some (l_type fl)) (holds s head) (holds s' head)
         | Returns (Some e) \<Rightarrow> \<not> grantable (holds s head) ?l \<and> holds s' head = holds s head \<and> (if has_flag ?l F_WAIT then e = EDEADLK else e = EAGAIN)
         | Sleeps \<Rightarrow> \<not> grantable (holds s head) ?l \<and> has_flag ?l F_WAIT
                           \<and> (if drops ?l then overrides ?l None (holds s head) (holds s' head) else holds s' head = holds s head)"
    unfolding setlock_effect_def Let_def request_simps h1 holds_def [of s' head, symmetric] by (auto split: lf_result.splits option.splits)
qed

lemma advlock_clear:
  assumes ok: "lf_ok s" and c: "call_in Op_UNLCK fl fsize" and r: "lf_range fl fsize = Inr (a, b)"
    and res: "lf_advlock td owner Op_UNLCK fl flags head fsize s = ((r, fl'), s')"
  shows "lf_ok s'" and "r = Returns None" and "\<And>g. g \<noteq> head \<Longrightarrow> holds s' g = holds s g"
    and "overrides (request owner fl flags head a b) None (holds s head) (holds s' head)" and "threads_of s' = threads_of s"
proof -
  let ?l = "request owner fl flags head a b" and ?s1 = "snd (new_lf (request owner fl flags head a b) s)"
  note cr = call_range [OF c r]
  have "lf_ok s' \<and> r = Returns None \<and> (\<forall>g. g \<noteq> head \<longrightarrow> holds s' g = holds s g) \<and> overrides ?l None (holds s head) (holds s' head) \<and> threads_of s' = threads_of s"
  proof (cases "lf_lists s head = []")
    case True
    then have "r = Returns None" "s' = s" using res r by (simp_all add: advlock_cases)
    then show ?thesis using ok True by (auto simp: overrides_def holds_def)
  next
    case False
    have rs: "r = Returns None" "s' = free_lf (lf_brk s) (lf_clearlock (lf_brk s) ?s1)" using res r False by (auto simp: advlock_cases Let_def)
    have fl: "inflight (lf_brk s) ?s1" by (rule new_ok(1) [OF ok]) (simp_all add: cr(1))
    have th: "the_lf ?s1 (lf_brk s) = ?l" by (simp add: the_new)
    have hd: "lf_head (the_lf ?s1 (lf_brk s)) = head" using th by simp
    have h1: "facts ?s1 (lf_lists ?s1 g) = holds s g" for g using new_holds [OF ok _ cr(1)] by (metis holds_def request_simps(8))
    note k = clearlock_ok [OF fl hd]
    have f: "lf_ok s'" "holds s' g = facts (lf_clearlock (lf_brk s) ?s1) (lf_lists (lf_clearlock (lf_brk s) ?s1) g)" for g
      using free_ok [OF k(1)] by (simp_all add: rs(2) holds_def)
    have tm: "threads_of s' = threads_of s" using k(6) by (simp add: rs(2)) (simp add: new_lf_def threads_of_def)
    show ?thesis using f k(2,3) tm rs(1) th h1 by simp
  qed
  then show "lf_ok s'" "r = Returns None" "\<And>g. g \<noteq> head \<Longrightarrow> holds s' g = holds s g"
    "overrides ?l None (holds s head) (holds s' head)" "threads_of s' = threads_of s" by blast+
qed

lemma advlock_other:
  assumes ok: "lf_ok s" and c: "call_in opn fl fsize" and n: "opn \<noteq> Op_SETLK" "opn \<noteq> Op_UNLCK"
  shows "lf_ok (snd (lf_advlock td owner opn fl flags head fsize s))" and "holds (snd (lf_advlock td owner opn fl flags head fsize s)) = holds s"
proof -
  have "lf_ok (free_lf (lf_brk s) s1) \<and> holds (free_lf (lf_brk s) s1) = holds s"
    if r: "lf_range fl fsize = Inr (a, b)" and s1: "s1 = snd (new_lf (request owner fl flags head a b) s)" for a b s1
  proof -
    have cr: "range_ok (request owner fl flags head a b)" by (rule call_range(1) [OF c r])
    have "inflight (lf_brk s) s1" unfolding s1 by (rule new_ok(1) [OF ok]) (simp_all add: cr)
    moreover have "holds s1 = holds s" unfolding s1 by (rule new_holds [OF ok _ cr]) simp
    ultimately show ?thesis using free_ok [of "lf_brk s" s1] by (simp add: holds_def fun_eq_iff)
  qed
  then show "lf_ok (snd (lf_advlock td owner opn fl flags head fsize s))" "holds (snd (lf_advlock td owner opn fl flags head fsize s)) = holds s"
    using ok n by (auto simp: advlock_cases Let_def split: sum.split prod.split lf_op.split)
qed

lemma lf_woken_ok:
  assumes ok: "lf_ok s" and t: "(td, lock) \<in> set (lf_asleep s @ lf_ready s)" and r: "lf_setlock_woken td lock e s = (r, s')"
  shows "lf_ok s'" and "e = None \<Longrightarrow> grantable (holds s (lf_head (the_lf s lock))) (the_lf s lock) \<Longrightarrow> r = Returns None"
proof -
  let ?s1 = "leave td lock s" and ?h = "lf_head (the_lf s lock)"
  have t': "(td, lock) \<in># threads_of s" using t by (simp add: threads_of_def)
  note l = leave_ok [OF ok t']
  have c: "core (the_lf ?s1 lock) = core (the_lf s lock)" by (rule l(2))
  have lk: "listed_ok ?h (the_lf ?s1 lock)" using l(4) core_listed [OF c] by simp
  show "lf_ok s'"
  proof (cases e)
    case None
    then show ?thesis using setlock_ok(1) [OF l(1) lk l(5), of r s'] r by (simp add: woken_leave)
  next
    case (Some er)
    then show ?thesis using free_ok(1) [OF l(1)] r by (simp add: woken_leave)
  qed
  show "r = Returns None" if "e = None" "grantable (holds s ?h) (the_lf s lock)"
  proof (rule setlock_granted(1) [OF l(1)])
    show "lf_type (the_lf ?s1 lock) \<noteq> F_UNLCK" using lk by (simp add: listed_ok_def)
    show "lf_head (the_lf ?s1 lock) = ?h" by (rule core_fields(6) [OF c])
    have "facts ?s1 (lf_lists ?s1 ?h) = holds s ?h" using l(3) by (simp add: holds_def leave_fields)
    moreover have "grantable F (the_lf ?s1 lock) = grantable F (the_lf s lock)" for F
      using core_covers [OF c] core_fields(2,5) [OF c] by (simp add: grantable_def)
    ultimately show "grantable (facts ?s1 (lf_lists ?s1 ?h)) (the_lf ?s1 lock)" using that(2) by simp
    show "lf_setlock td lock ?s1 = (r, s')" using r that(1) by (simp add: woken_leave)
  qed
qed

lemma lf_reachable_ok: "lf_reachable s \<Longrightarrow> lf_ok s"
proof (induction rule: lf_reachable.induct)
  case (lf_start_up threads pids)
  show ?case by (simp add: lf_ok_def lf_init_def queues_def lists_ok_def listed_def requests_def threads_of_def list_ok_def compat_def)
next
  case (lf_call s td opn fl fsize owner flags head)
  show ?case
  proof (cases "lf_range fl fsize")
    case (Inl e)
    then show ?thesis using lf_call.IH by (simp add: advlock_cases)
  next
    case (Inr p)
    obtain a b where p: "p = (a, b)" by fastforce
    show ?thesis
    proof (cases "opn = Op_SETLK \<or> opn = Op_UNLCK")
      case True
      obtain r fl' s' where e: "lf_advlock td owner opn fl flags head fsize s = ((r, fl'), s')" by (metis surj_pair)
      then show ?thesis using True advlock_set(1) [OF lf_call.IH lf_call.hyps(2), of fl fsize a b owner flags head r fl' s']
          advlock_clear(1) [OF lf_call.IH, of fl fsize a b td owner flags head r fl' s'] lf_call.hyps(3) Inr p by auto
    next
      case False
      then show ?thesis using advlock_other(1) [OF lf_call.IH lf_call.hyps(3)] by blast
    qed
  qed
next
  case (lf_back s td lock e)
  then show ?case using lf_woken_ok(1) [OF lf_back.IH lf_back.hyps(2)] by (metis prod.collapse)
qed

end
