(* ===== verification/Kern_Lockf_Theorems.thy ===== *)
theory Kern_Lockf_Theorems
  imports Kern_Lockf_Calls
begin

text \<open>The properties of the advisory locks.\<close>

section \<open>Inputs of the witnesses\<close>

definition ask :: "lock_type \<Rightarrow> int \<Rightarrow> int \<Rightarrow> flock" where
  "ask t start len = \<lparr>l_start = start, l_len = len, l_pid = 0, l_type = t, l_whence = SEEK_SET\<rparr>"

text \<open>Process \<open>p\<close>, whose one thread is \<open>p + 100\<close>, on the file with the list head 7, with F_POSIX and F_WAIT.\<close>

definition posix :: "lf_op \<Rightarrow> ptr \<Rightarrow> lock_type \<Rightarrow> int \<Rightarrow> int \<Rightarrow> lockfs \<Rightarrow> (lf_result \<times> flock) \<times> lockfs" where
  "posix opn p t start len s = lf_advlock (p + 100) p opn (ask t start len) 0x50 7 0 s"

definition lf_s0 :: lockfs where "lf_s0 = lf_init (\<lambda>p. [p + 100]) int"

definition lf_s1 :: lockfs where "lf_s1 = snd (posix Op_SETLK 1 F_WRLCK 10 20 lf_s0)"

definition lf_s2 :: lockfs where "lf_s2 = snd (posix Op_SETLK 2 F_WRLCK 15 1 lf_s1)"

definition lf_s3 :: lockfs where "lf_s3 = snd (posix Op_UNLCK 1 F_UNLCK 15 2 lf_s2)"

lemma reachable_s0: "lf_reachable lf_s0" unfolding lf_s0_def by (rule lf_start_up)

lemma reachable_s1: "lf_reachable lf_s1"
  unfolding lf_s1_def posix_def by (rule lf_call [OF reachable_s0]) code_simp+

lemma reachable_s2: "lf_reachable lf_s2"
  unfolding lf_s2_def posix_def by (rule lf_call [OF reachable_s1]) code_simp+

lemma reachable_s3: "lf_reachable lf_s3"
  unfolding lf_s3_def posix_def by (rule lf_call [OF reachable_s2]) code_simp+

section \<open>The store\<close>

text \<open>C32: Every lock structure in the store is well typed and accounted for: its range is a range of file offsets, it is a read or a
  write lock, and it is either on the list of its own file or the request of exactly one thread, never both; nothing is leaked.\<close>

theorem lf_store_typed:
  assumes "lf_reachable s" and "lf_heap s a = Some l"
  shows "0 \<le> lf_start l \<and> lf_start l \<le> OFF_MAX \<and> (lf_end l = -1 \<or> lf_start l \<le> lf_end l \<and> lf_end l < OFF_MAX) \<and> lf_type l \<noteq> F_UNLCK
    \<and> (a \<in> set (lf_lists s (lf_head l)) \<and> (\<forall>td. (td, a) \<notin> set (lf_asleep s @ lf_ready s))
       \<or> (\<forall>h. a \<notin> set (lf_lists s h)) \<and> (\<exists>!td. (td, a) \<in> set (lf_asleep s @ lf_ready s)))"
proof -
  have ok: "queues (listed s) {} s" "lists_ok s" using lf_reachable_ok [OF assms(1)] by (simp_all add: lf_ok_def)
  have l: "the_lf s a = l" using assms(2) by (simp add: the_lf_def)
  have "a \<in> listed s \<union> requests s" using queues_dom [OF ok(1)] assms(2) by auto
  then show ?thesis
  proof
    assume "a \<in> listed s"
    then obtain h where h: "a \<in> set (lf_lists s h)" by (auto simp: listed_def)
    then have "listed_ok h l" using ok(2) l by (auto simp: lists_ok_def list_ok_def)
    moreover have "\<forall>td. (td, a) \<notin> set (lf_asleep s @ lf_ready s)" using queues_disj [OF ok(1)] \<open>a \<in> listed s\<close> by (force simp: requests_def)
    ultimately show ?thesis using h unfolding listed_ok_def range_ok_def by blast
  next
    assume a: "a \<in> requests s"
    then have lo: "listed_ok (lf_head l) l" using queues_request [OF ok(1)] l by blast
    have n: "\<forall>h. a \<notin> set (lf_lists s h)" using queues_disj [OF ok(1)] a by (auto simp: listed_def)
    obtain td where td: "(td, a) \<in> set (lf_asleep s @ lf_ready s)" using a unfolding requests_def set_append by (metis imageE prod.collapse)
    have "td' = td" if "(td', a) \<in> set (lf_asleep s @ lf_ready s)" for td'
    proof (rule ccontr)
      assume "td' \<noteq> td"
      moreover have "(td', a) \<in># threads_of s" "(td, a) \<in># threads_of s" using td that by (auto simp: threads_of_def)
      ultimately have "(td', a) \<in># threads_of s - {#(td, a)#}" by (simp add: in_diff_count)
      then show False using one_left(2) [OF ok(1) \<open>(td, a) \<in># threads_of s\<close>] by force
    qed
    then show ?thesis using td n lo unfolding listed_ok_def range_ok_def by (metis (no_types, lifting))
  qed
qed

theorem lf_store_typed_witness: "lf_type (the (lf_heap lf_s2 0)) \<noteq> F_UNLCK"
proof -
  have "lf_heap lf_s2 0 = Some (the (lf_heap lf_s2 0))" by code_simp
  then show ?thesis using lf_store_typed [OF reachable_s2] by blast
qed

text \<open>Two locks on a file that share a byte belong to different owners and are both read locks: a write lock is exclusive, and
  the locks of one owner never overlap.\<close>

theorem lf_locks_exclusive:
  assumes "lf_reachable s" and "a \<in> set (lf_lists s h)" and "b \<in> set (lf_lists s h)" and "a \<noteq> b"
    and "covers (the_lf s a) k" and "covers (the_lf s b) k"
  shows "lf_id (the_lf s a) \<noteq> lf_id (the_lf s b) \<and> lf_type (the_lf s a) = F_RDLCK \<and> lf_type (the_lf s b) = F_RDLCK"
proof -
  have lo: "list_ok s h (lf_lists s h)" "compat (facts s (lf_lists s h))" using lf_reachable_ok [OF assms(1)] by (simp_all add: lf_ok_def lists_ok_def)
  have rng: "range_ok (the_lf s a)" "range_ok (the_lf s b)" using lo(1) assms(2,3) by (auto simp: list_ok_def listed_ok_def)
  have nb: "\<not> bef (the_lf s a) (the_lf s b)" "\<not> bef (the_lf s b) (the_lf s a)" using overlap_byte [OF rng] assms(5,6) by blast+
  have "\<not> (own_order s a b \<or> own_order s b a)" if "lf_id (the_lf s a) = lf_id (the_lf s b)" using that nb by (simp add: own_order_def)
  moreover have "own_order s a b \<or> own_order s b a"
    using lo(1) assms(2-4) unfolding list_ok_def by (metis in_set_conv_nth linorder_neqE_nat sorted_wrt_nth_less)
  ultimately have "lf_id (the_lf s a) \<noteq> lf_id (the_lf s b)" by blast
  moreover have "facts s (lf_lists s h) (lf_id (the_lf s a)) k (lf_type (the_lf s a))" "facts s (lf_lists s h) (lf_id (the_lf s b)) k (lf_type (the_lf s b))"
    using assms by (auto simp: facts_def held_def)
  ultimately show ?thesis using lo(2) unfolding compat_def by blast
qed

definition lf_s4 :: lockfs where "lf_s4 = snd (posix Op_SETLK 3 F_RDLCK 12 0 (snd (posix Op_SETLK 1 F_RDLCK 10 20 lf_s0)))"

lemma reachable_s4: "lf_reachable lf_s4"
  unfolding lf_s4_def posix_def by (rule lf_call [OF lf_call [OF reachable_s0]]) code_simp+

theorem lf_locks_exclusive_witness: "lf_id (the_lf lf_s4 0) \<noteq> lf_id (the_lf lf_s4 1)"
proof -
  have "0 \<in> set (lf_lists lf_s4 7)" "1 \<in> set (lf_lists lf_s4 7)" "(0::nat) \<noteq> 1" "covers (the_lf lf_s4 0) 13" "covers (the_lf lf_s4 1) 13" by code_simp+
  from lf_locks_exclusive [OF reachable_s4 this] show ?thesis by simp
qed

section \<open>Setting and clearing\<close>

text \<open>C31: The answer of F_SETLK. The lock is granted exactly when no other owner holds a byte of its range in a type that excludes it; else a
  request without F_WAIT gets EAGAIN, and one with F_WAIT sleeps or gets EDEADLK.\<close>

theorem lf_setlk_decides:
  assumes "lf_reachable s" and "td \<notin> set (lf_busy s)" and "call_in Op_SETLK fl fsize" and "lf_range fl fsize = Inr (a, b)"
    and "lf_advlock td owner Op_SETLK fl flags head fsize s = ((r, fl'), s')"
  shows "let free = (\<forall>j k t. j \<noteq> owner \<and> flock_covers fl fsize k \<and> holds s head j k t \<longrightarrow> t \<noteq> F_WRLCK \<and> l_type fl \<noteq> F_WRLCK);
             wait = (ucast flags :: u16) AND F_WAIT \<noteq> 0 in
         (r = Returns None \<longleftrightarrow> free) \<and> (r = Returns (Some EAGAIN) \<longleftrightarrow> \<not> free \<and> \<not> wait) \<and> (r = Returns (Some EDEADLK) \<or> r = Sleeps \<longleftrightarrow> \<not> free \<and> wait)"
proof -
  let ?l = "request owner fl flags head a b"
  note e = advlock_set(4) [OF lf_reachable_ok [OF assms(1)] assms(2-5)]
  have g: "grantable (holds s head) ?l \<longleftrightarrow>
      (\<forall>j k t. j \<noteq> owner \<and> flock_covers fl fsize k \<and> holds s head j k t \<longrightarrow> t \<noteq> F_WRLCK \<and> l_type fl \<noteq> F_WRLCK)"
    unfolding grantable_def request_simps call_range(2) [OF assms(3,4)] by blast
  show ?thesis using e unfolding g Let_def by (auto simp: has_flag_def split: lf_result.splits option.splits if_splits)
qed

theorem lf_setlk_decides_witness:
  "\<exists>j k t. j \<noteq> 2 \<and> flock_covers (ask F_WRLCK 15 1) 0 k \<and> holds lf_s1 7 j k t"
proof -
  have r: "102 \<notin> set (lf_busy lf_s1)" "call_in Op_SETLK (ask F_WRLCK 15 1) 0" "lf_range (ask F_WRLCK 15 1) 0 = Inr (15, 15)" by code_simp+
  have s: "fst (fst (lf_advlock 102 2 Op_SETLK (ask F_WRLCK 15 1) 0x50 7 0 lf_s1)) = Sleeps" by code_simp
  obtain r fl' s' where e: "lf_advlock 102 2 Op_SETLK (ask F_WRLCK 15 1) 0x50 7 0 lf_s1 = ((r, fl'), s')" by (metis surj_pair)
  show ?thesis using lf_setlk_decides [OF reachable_s1 r e] s e by (auto simp: Let_def)
qed

lemma setlk_refines:
  assumes "lf_reachable s" and "td \<notin> set (lf_busy s)" and "call_in Op_SETLK fl fsize" and "lf_range fl fsize = Inr (a, b)"
    and "lf_advlock td owner Op_SETLK fl flags head fsize s = ((r, fl'), s')"
  shows "holds s' = (holds s)(head := (\<lambda>i k t.
           case r of
             Returns None \<Rightarrow> if i = owner \<and> flock_covers fl fsize k then t = l_type fl else holds s head i k t
           | Returns (Some e) \<Rightarrow> holds s head i k t
           | Sleeps \<Rightarrow> holds s head i k t
                \<and> \<not> ((ucast flags :: u16) AND F_FLOCK \<noteq> 0 \<and> l_type fl = F_WRLCK \<and> i = owner \<and> flock_covers fl fsize k)))"
proof (rule ext)
  fix g
  let ?l = "request owner fl flags head a b"
  note e = advlock_set(3,4) [OF lf_reachable_ok [OF assms(1)] assms(2-5)]
  show "holds s' g = ((holds s)(head := (\<lambda>i k t.
           case r of
             Returns None \<Rightarrow> if i = owner \<and> flock_covers fl fsize k then t = l_type fl else holds s head i k t
           | Returns (Some e) \<Rightarrow> holds s head i k t
           | Sleeps \<Rightarrow> holds s head i k t
                \<and> \<not> ((ucast flags :: u16) AND F_FLOCK \<noteq> 0 \<and> l_type fl = F_WRLCK \<and> i = owner \<and> flock_covers fl fsize k)))) g"
  proof (cases "g = head")
    case True
    then show ?thesis using e(2) call_range(2) [OF assms(3,4)]
      by (intro ext) (auto simp: overrides_def drops_def has_flag_def split: lf_result.splits option.splits if_splits)
  next
    case False
    then show ?thesis using e(1) by simp
  qed
qed

lemma unlck_refines:
  assumes "lf_reachable s" and "call_in Op_UNLCK fl fsize" and "lf_range fl fsize = Inr (a, b)"
    and "lf_advlock td owner Op_UNLCK fl flags head fsize s = ((r, fl'), s')"
  shows "r = Returns None \<and> holds s' = (holds s)(head := (\<lambda>i k t. holds s head i k t \<and> \<not> (i = owner \<and> flock_covers fl fsize k)))"
proof
  note e = advlock_clear [OF lf_reachable_ok [OF assms(1)] assms(2-4)]
  show "r = Returns None" by (rule e(2))
  show "holds s' = (holds s)(head := (\<lambda>i k t. holds s head i k t \<and> \<not> (i = owner \<and> flock_covers fl fsize k)))"
    using e(3,4) call_range(2) [OF assms(2,3)] by (intro ext) (auto simp: overrides_def)
qed

text \<open>C3: F_SETLK refines the table of who holds which byte: when granted, the caller holds the bytes of the range in the new type and every
  other fact stands; on an error nothing changes; a request that sleeps changes nothing, but that an exclusive flock request has given up
  what its owner held of the range. The locks on other files stand in every case. This is for ranges that do not end at the last offset
  OFF_MAX, in this call and in those before it (call_in): there lf_split overflows, see lf_unlock_wraps below. A range to the end of the file is
  covered.\<close>

theorem lf_setlk_refines:
  assumes "lf_reachable s" and "td \<notin> set (lf_busy s)" and "call_in Op_SETLK fl fsize" and "lf_range fl fsize = Inr (a, b)"
    and "lf_advlock td owner Op_SETLK fl flags head fsize s = ((r, fl'), s')"
  shows "holds s' = (holds s)(head := (\<lambda>i k t.
           case r of
             Returns None \<Rightarrow> if i = owner \<and> flock_covers fl fsize k then t = l_type fl else holds s head i k t
           | Returns (Some e) \<Rightarrow> holds s head i k t
           | Sleeps \<Rightarrow> holds s head i k t
                \<and> \<not> ((ucast flags :: u16) AND F_FLOCK \<noteq> 0 \<and> l_type fl = F_WRLCK \<and> i = owner \<and> flock_covers fl fsize k)))"
  by (rule setlk_refines [OF assms])

theorem lf_setlk_refines_witness: "holds (snd (posix Op_SETLK 1 F_RDLCK 12 3 lf_s1)) 7 1 13 F_RDLCK"
proof -
  have r: "101 \<notin> set (lf_busy lf_s1)" "call_in Op_SETLK (ask F_RDLCK 12 3) 0" "lf_range (ask F_RDLCK 12 3) 0 = Inr (12, 14)" by code_simp+
  have g: "fst (fst (lf_advlock 101 1 Op_SETLK (ask F_RDLCK 12 3) 0x50 7 0 lf_s1)) = Returns None" by code_simp
  obtain r fl' s' where e: "lf_advlock 101 1 Op_SETLK (ask F_RDLCK 12 3) 0x50 7 0 lf_s1 = ((r, fl'), s')" by (metis surj_pair)
  have "flock_covers (ask F_RDLCK 12 3) 0 13" by code_simp
  then have "holds s' 7 1 13 (l_type (ask F_RDLCK 12 3))" using lf_setlk_refines [OF reachable_s1 r e] g e by simp
  then show ?thesis using e by (simp add: posix_def ask_def)
qed

text \<open>C29: F_UNLCK refines the removal of the caller's facts on the bytes of the range, and always succeeds, for ranges that do not end at
  OFF_MAX, in this call and in those before it (call_in). Where one does the code is wrong: lf_unlock_wraps below clears [1, OFF_MAX] of a lock on the whole file
  and the caller holds the whole file afterwards.\<close>

theorem lf_unlck_refines:
  assumes "lf_reachable s" and "call_in Op_UNLCK fl fsize" and "lf_range fl fsize = Inr (a, b)"
    and "lf_advlock td owner Op_UNLCK fl flags head fsize s = ((r, fl'), s')"
  shows "r = Returns None \<and> holds s' = (holds s)(head := (\<lambda>i k t. holds s head i k t \<and> \<not> (i = owner \<and> flock_covers fl fsize k)))"
  by (rule unlck_refines [OF assms])

theorem lf_unlck_refines_witness: "\<not> holds (snd (posix Op_UNLCK 1 F_UNLCK 15 2 lf_s2)) 7 1 15 F_WRLCK"
proof -
  have r: "call_in Op_UNLCK (ask F_UNLCK 15 2) 0" "lf_range (ask F_UNLCK 15 2) 0 = Inr (15, 16)" by code_simp+
  obtain r fl' s' where e: "lf_advlock 101 1 Op_UNLCK (ask F_UNLCK 15 2) 0x50 7 0 lf_s2 = ((r, fl'), s')" by (metis surj_pair)
  have "flock_covers (ask F_UNLCK 15 2) 0 15" by code_simp
  then have "\<not> holds s' 7 1 15 F_WRLCK" using lf_unlck_refines [OF reachable_s2 r e] by simp
  then show ?thesis using e by (simp add: posix_def)
qed

section \<open>Waiting\<close>

text \<open>C6: No wakeup is lost. A request whose range no other owner excludes any more is not asleep: its thread has been made runnable, and
  when it runs it gets the lock.\<close>

theorem lf_no_lost_wakeup:
  assumes "lf_reachable s" and "(td, lock) \<in> set (lf_asleep s @ lf_ready s)" and "l = the_lf s lock"
    and "\<forall>j k t. j \<noteq> lf_id l \<and> covers l k \<and> holds s (lf_head l) j k t \<longrightarrow> t \<noteq> F_WRLCK \<and> lf_type l \<noteq> F_WRLCK"
  shows "(td, lock) \<in> set (lf_ready s) \<and> fst (lf_setlock_woken td lock None s) = Returns None"
proof
  have ok: "lf_ok s" by (rule lf_reachable_ok [OF assms(1)])
  then have q: "queues (listed s) {} s" "lists_ok s" by (simp_all add: lf_ok_def)
  have g: "grantable (holds s (lf_head l)) l" using assms(4) unfolding grantable_def by blast
  have lr: "lock \<in> requests s" using assms(2) by (force simp: requests_def)
  have rng: "range_ok l" using queues_request [OF q(1) lr] assms(3) by (simp add: listed_ok_def)
  show "fst (lf_setlock_woken td lock None s) = Returns None"
    using lf_woken_ok(2) [OF ok assms(2) prod.collapse [symmetric], of None] g assms(3) by simp
  show "(td, lock) \<in> set (lf_ready s)"
  proof (rule ccontr)
    assume "(td, lock) \<notin> set (lf_ready s)"
    then have "lock \<in> snd ` set (lf_asleep s)" using assms(2) by force
    then obtain b where b: "b \<in> listed s" "lock \<in> set (lf_blkhd (the_lf s b))" using queues_asleep [OF q(1)] by blast
    then have bl: "blocked (the_lf s b) l" using queues_blocked [OF q(1) b(1) _ b(2)] assms(3) by simp
    obtain h where h: "b \<in> set (lf_lists s h)" using b(1) by (auto simp: listed_def)
    then have "h = lf_head l" using listed_mem [OF q(2) h] bl by (simp add: blocked_def)
    then have "b \<in> set (lf_lists s (lf_head l))" using h by simp
    moreover have "\<forall>x \<in> set (lf_lists s (lf_head l)). range_ok (the_lf s x)" using q(2) by (auto simp: lists_ok_def list_ok_def listed_ok_def)
    ultimately show False using grantable_conflict [of "lf_lists s (lf_head l)" s l] rng g bl by (auto simp: holds_def blocked_def)
  qed
qed

theorem lf_no_lost_wakeup_witness: "(102, 1) \<in> set (lf_ready lf_s3) \<and> fst (lf_setlock_woken 102 1 None lf_s3) = Returns None"
proof (rule lf_no_lost_wakeup [OF reachable_s3 _ refl])
  show "(102, 1) \<in> set (lf_asleep lf_s3 @ lf_ready lf_s3)" by code_simp
  have "lf_lists lf_s3 7 = [0, 3] \<and> lf_head (the_lf lf_s3 1) = 7 \<and> lf_id (the_lf lf_s3 1) = 2 \<and> lf_start (the_lf lf_s3 1) = 15 \<and> lf_end (the_lf lf_s3 1) = 15
     \<and> lf_start (the_lf lf_s3 0) = 10 \<and> lf_end (the_lf lf_s3 0) = 14 \<and> lf_start (the_lf lf_s3 3) = 17 \<and> lf_end (the_lf lf_s3 3) = 29" by code_simp
  then show "\<forall>j k t. j \<noteq> lf_id (the_lf lf_s3 1) \<and> covers (the_lf lf_s3 1) k \<and> holds lf_s3 (lf_head (the_lf lf_s3 1)) j k t \<longrightarrow>
     t \<noteq> F_WRLCK \<and> lf_type (the_lf lf_s3 1) \<noteq> F_WRLCK"
    by (auto simp: holds_def facts_def held_def covers_def)
qed

text \<open>What the chase of wait channels finds: the lock that a sleeping thread waits for.\<close>

definition waits_on :: "lockfs \<Rightarrow> ptr \<Rightarrow> lockf option" where
  "waits_on s t = (case td_wchan s t of None \<Rightarrow> None | Some w \<Rightarrow> Some (the_lf s (the (lf_next (the_lf s w)))))"

lemma chase_none: "waits_on s t = None \<Longrightarrow> lf_chase s l t i = (False, i)"
  by (subst lf_chase.simps) (simp add: waits_on_def split: option.splits)

lemma chase_full: "MAXDEPTH \<le> i \<Longrightarrow> \<not> fst (lf_chase s l t i) \<and> i \<le> snd (lf_chase s l t i)"
  by (subst (1 2) lf_chase.simps) (simp split: option.split)

lemma chase_other:
  "waits_on s t = Some b \<Longrightarrow> i < MAXDEPTH \<Longrightarrow> \<not> has_flag b F_POSIX \<Longrightarrow> lf_chase s l t i = (False, Suc i)"
  by (subst lf_chase.simps) (auto simp: waits_on_def Let_def split: option.splits)

lemma chase_found:
  "waits_on s t = Some b \<Longrightarrow> i < MAXDEPTH \<Longrightarrow> has_flag b F_POSIX \<Longrightarrow> lf_id b = lf_id l \<Longrightarrow> fst (lf_chase s l t i)"
  by (subst lf_chase.simps) (auto simp: waits_on_def Let_def split: option.splits)

text \<open>The loop never leaves its thread: it uses up the counter.\<close>

lemma chase_stuck:
  assumes "waits_on s t = Some b" and "i \<le> MAXDEPTH" and "has_flag b F_POSIX" and "lf_id b \<noteq> lf_id l"
  shows "lf_chase s l t i = (False, Suc MAXDEPTH)"
  using assms
proof (induction s l t i rule: lf_chase.induct)
  case (1 s l t i)
  obtain w where w: "td_wchan s t = Some w" "b = the_lf s (the (lf_next (the_lf s w)))" using "1.prems"(1) by (auto simp: waits_on_def split: option.splits)
  show ?case
  proof (cases "i < MAXDEPTH")
    case True
    then have "lf_chase s l t i = lf_chase s l t (Suc i)" using w "1.prems" by (subst lf_chase.simps) (simp add: Let_def)
    then show ?thesis using "1.IH" [OF w(1)] True w "1.prems" by simp
  next
    case False
    then show ?thesis using w(1) "1.prems"(2) by (subst lf_chase.simps) simp
  qed
qed

lemma chase_threads_full: "MAXDEPTH \<le> i \<Longrightarrow> \<not> lf_chase_threads s l tds i"
proof (induction tds arbitrary: i)
  case (Cons t tds)
  then show ?case using chase_full [of i s l t] by (auto split: prod.split)
qed simp

text \<open>The reference: the first thread of the process that waits for a F_POSIX lock decides.\<close>

definition first_waits :: "lockfs \<Rightarrow> ptr list \<Rightarrow> lockf option" where
  "first_waits s tds = List.find (\<lambda>b. has_flag b F_POSIX) (List.map_filter (waits_on s) tds)"

lemma chase_threads_spec:
  "i + length tds \<le> MAXDEPTH \<Longrightarrow> lf_chase_threads s l tds i \<longleftrightarrow> (\<exists>b. first_waits s tds = Some b \<and> lf_id b = lf_id l)"
proof (induction tds arbitrary: i)
  case Nil
  then show ?case by (simp add: first_waits_def map_filter_simps)
next
  case (Cons t tds)
  have i: "i < MAXDEPTH" using Cons.prems by simp
  show ?case
  proof (cases "waits_on s t")
    case None
    then show ?thesis using Cons chase_none [OF None] by (simp add: first_waits_def map_filter_simps)
  next
    case (Some b)
    show ?thesis
    proof (cases "has_flag b F_POSIX")
      case True
      have f: "first_waits s (t # tds) = Some b" using Some True by (simp add: first_waits_def map_filter_simps)
      show ?thesis
      proof (cases "lf_id b = lf_id l")
        case True
        then show ?thesis using chase_found [OF Some i \<open>has_flag b F_POSIX\<close> True] f by (simp split: prod.split) (metis fst_conv)
      next
        case False
        then show ?thesis using chase_stuck [OF Some _ True False] i chase_threads_full [of "Suc MAXDEPTH"] f by simp
      qed
    next
      case False
      then show ?thesis using Cons.IH [of "Suc i"] Cons.prems Some chase_other [OF Some i False]
        by (simp add: first_waits_def map_filter_simps)
    qed
  qed
qed

text \<open>What the deadlock detection detects, which is less than the comment in kern_lockf.c promises. For a process of at most MAXDEPTH threads the walk over the wait channels is this test: the
  first thread of the process that owns the blocking lock which itself waits for a F_POSIX lock waits for a lock of the caller. So a cycle
  of two processes with one thread each is caught, and nothing longer.\<close>

theorem lf_deadlock_is:
  assumes "length (p_threads s (lf_id block)) \<le> MAXDEPTH"
  shows "lf_deadlock s lock block \<longleftrightarrow> has_flag lock F_POSIX \<and> has_flag block F_POSIX
           \<and> (\<exists>b. first_waits s (p_threads s (lf_id block)) = Some b \<and> lf_id b = lf_id lock)"
  using chase_threads_spec [of 0] assms by (simp add: lf_deadlock_def)

definition lf_pair :: lockfs where
  "lf_pair = snd (posix Op_SETLK 1 F_WRLCK 1 1 (snd (posix Op_SETLK 2 F_WRLCK 1 1 (snd (posix Op_SETLK 1 F_WRLCK 0 1 lf_s0)))))"

theorem lf_deadlock_is_witness: "fst (fst (posix Op_SETLK 2 F_WRLCK 0 1 lf_pair)) = Returns (Some EDEADLK)
    \<and> (\<exists>b. first_waits lf_pair (p_threads lf_pair 1) = Some b \<and> lf_id b = 2)"
proof
  show "fst (fst (posix Op_SETLK 2 F_WRLCK 0 1 lf_pair)) = Returns (Some EDEADLK)" by code_simp
  have l: "length (p_threads lf_pair (lf_id (the_lf lf_pair 0))) \<le> MAXDEPTH" by code_simp
  have d: "lf_deadlock lf_pair (the_lf lf_pair 1) (the_lf lf_pair 0)" "lf_id (the_lf lf_pair 0) = 1" "lf_id (the_lf lf_pair 1) = 2" by code_simp+
  show "\<exists>b. first_waits lf_pair (p_threads lf_pair 1) = Some b \<and> lf_id b = 2" using lf_deadlock_is [OF l, of "the_lf lf_pair 1"] d by simp
qed

text \<open>Three processes that wait for each other in a circle are not caught, though the comment promises any cycle that involves the caller:
  the third request goes to sleep, and all three threads sleep with nobody left to wake them.\<close>

definition lf_three :: lockfs where
  "lf_three = snd (posix Op_SETLK 2 F_WRLCK 2 1 (snd (posix Op_SETLK 1 F_WRLCK 1 1 (snd (posix Op_SETLK 3 F_WRLCK 2 1
                 (snd (posix Op_SETLK 2 F_WRLCK 1 1 (snd (posix Op_SETLK 1 F_WRLCK 0 1 lf_s0)))))))))"

theorem lf_deadlock_missed:
  "case posix Op_SETLK 3 F_WRLCK 0 1 lf_three of ((r, fl), s) \<Rightarrow>
     r = Sleeps \<and> map fst (lf_asleep s) = [101, 102, 103] \<and> lf_ready s = []
     \<and> map (\<lambda>(t, w). (lf_id (the_lf s w), lf_id (the_lf s (the (lf_next (the_lf s w)))))) (lf_asleep s) = [(1, 2), (2, 3), (3, 1)]"
  by code_simp

section \<open>The last offset\<close>

text \<open>A lock to the end of the file that is cleared from some byte up to the last offset of all comes back as a lock of the whole file, for the
  start of the part behind the cleared range wraps around; and the clearing of the whole file that a close does cannot remove it, for the end
  before its first byte is the mark of a lock without end. Another process that asks for a byte then sleeps on it.\<close>

definition lf_wrapped :: lockfs where
  "lf_wrapped = snd (posix Op_UNLCK 1 F_UNLCK 1 OFF_MAX (snd (posix Op_SETLK 1 F_WRLCK 0 0 lf_s0)))"

theorem lf_unlock_wraps:
  "map (\<lambda>a. (lf_start (the_lf lf_wrapped a), lf_end (the_lf lf_wrapped a))) (lf_lists lf_wrapped 7) = [(0, 0), (- (2 ^ 63), -1)]
   \<and> (let s = snd (posix Op_UNLCK 1 F_UNLCK 0 0 lf_wrapped) in
        map (\<lambda>a. (lf_id (the_lf s a), lf_type (the_lf s a), lf_start (the_lf s a), lf_end (the_lf s a))) (lf_lists s 7) = [(1, F_WRLCK, - (2 ^ 63), -1)]
        \<and> fst (fst (posix Op_SETLK 2 F_RDLCK 5 1 s)) = Sleeps)"
  by code_simp

text \<open>In the same way the write lock of another process is overrun: process 2 locks byte 5 for writing, process 1 locks from 100 to the end and clears
  101 to OFF_MAX, and then holds byte 5 for writing too.\<close>

definition lf_overrun :: lockfs where
  "lf_overrun = snd (posix Op_UNLCK 1 F_UNLCK 101 (OFF_MAX - 100) (snd (posix Op_SETLK 1 F_WRLCK 100 0 (snd (posix Op_SETLK 2 F_WRLCK 5 1 lf_s0)))))"

lemma lf_write_lock_overrun:
  "map (\<lambda>a. (lf_id (the_lf lf_overrun a), lf_type (the_lf lf_overrun a) = F_WRLCK \<and> covers (the_lf lf_overrun a) 5)) (lf_lists lf_overrun 7)
   = [(2, True), (1, False), (1, True)]"
  by code_simp

section \<open>What others do\<close>

text \<open>
  The contract of a table of byte locks, for the processes that use it: an operation of one owner leaves the facts of the others alone, and an
  exclusive lock excludes. Then a lock lasts until its own owner acts.
\<close>

locale byte_locks =
  fixes ok :: "'s \<Rightarrow> bool" and owns :: "'s \<Rightarrow> 'h \<Rightarrow> 'i \<Rightarrow> int \<Rightarrow> 't \<Rightarrow> bool" and acts :: "'i \<Rightarrow> 's \<Rightarrow> 's \<Rightarrow> bool" and excl :: 't
  assumes acts_ok: "ok s \<Longrightarrow> acts j s s' \<Longrightarrow> ok s'"
    and acts_others: "ok s \<Longrightarrow> acts j s s' \<Longrightarrow> i \<noteq> j \<Longrightarrow> owns s' h i k t = owns s h i k t"
    and exclusive: "ok s \<Longrightarrow> owns s h i k excl \<Longrightarrow> owns s h j k t \<Longrightarrow> i = j"
begin

lemma path_keeps:
  assumes "(\<lambda>s s'. \<exists>j. j \<noteq> i \<and> acts j s s')\<^sup>*\<^sup>* s s'" and "ok s"
  shows "ok s' \<and> owns s' h i k t = owns s h i k t"
  using assms
proof (induction rule: rtranclp_induct)
  case (step y z)
  then obtain j where j: "j \<noteq> i" "acts j y z" by blast
  then show ?case using step.IH [OF step.prems] acts_ok [of y j z] acts_others [of y j z i h k t] by simp
qed simp

lemma path_excludes:
  assumes "(\<lambda>s s'. \<exists>j. j \<noteq> i \<and> acts j s s')\<^sup>*\<^sup>* s s'" and "ok s" and "owns s h i k excl"
  shows "owns s' h i k excl \<and> (\<forall>j t. owns s' h j k t \<longrightarrow> j = i)"
  using path_keeps [OF assms(1,2)] assms(3) exclusive by blast

end

inductive lf_acts :: "ptr \<Rightarrow> lockfs \<Rightarrow> lockfs \<Rightarrow> bool" where
  acts_call: "td \<notin> set (lf_busy s) \<Longrightarrow> call_in opn fl fsize \<Longrightarrow> lf_acts owner s (snd (lf_advlock td owner opn fl flags head fsize s))"
| acts_back: "(td, lock) \<in> set (lf_asleep s @ lf_ready s) \<Longrightarrow> lf_acts (lf_id (the_lf s lock)) s (snd (lf_setlock_woken td lock e s))"

lemma acts_reachable: "lf_acts j s s' \<Longrightarrow> lf_reachable s \<Longrightarrow> lf_reachable s'"
  by (induction rule: lf_acts.induct) (auto intro: lf_call lf_back)

lemma effect_others:
  "setlock_effect l r s s' \<Longrightarrow> i \<noteq> lf_id l \<Longrightarrow> facts s' (lf_lists s' (lf_head l)) i k t = facts s (lf_lists s (lf_head l)) i k t"
  by (auto simp: setlock_effect_def Let_def overrides_def split: lf_result.splits option.splits if_splits)

lemma back_others:
  assumes ok: "lf_ok s" and t: "(td, lock) \<in> set (lf_asleep s @ lf_ready s)" and i: "i \<noteq> lf_id (the_lf s lock)"
  shows "holds (snd (lf_setlock_woken td lock e s)) h i k t = holds s h i k t"
proof -
  let ?s1 = "leave td lock s"
  have l: "(td, lock) \<in># threads_of s" using t by (simp add: threads_of_def)
  note l = leave_ok [OF ok l]
  have c: "core (the_lf ?s1 lock) = core (the_lf s lock)" by (rule l(2))
  have h1: "holds ?s1 = holds s" using l(3) by (intro ext) (simp add: holds_def leave_fields)
  show ?thesis
  proof (cases e)
    case None
    obtain r s' where r: "lf_setlock td lock ?s1 = (r, s')" by fastforce
    have lk: "listed_ok (lf_head (the_lf s lock)) (the_lf ?s1 lock)" using l(4) core_listed [OF c] by simp
    note e = setlock_ok [OF l(1) lk l(5) r]
    have "holds s' h i k t = holds ?s1 h i k t"
    proof (cases "h = lf_head (the_lf s lock)")
      case True
      then show ?thesis using effect_others [OF e(2), of i k t] i core_fields(5,6) [OF c] by (simp add: holds_def)
    next
      case False
      then show ?thesis using e(3) by (simp add: holds_def)
    qed
    then show ?thesis using None r h1 by (simp add: woken_leave)
  next
    case (Some er)
    then show ?thesis using free_ok [OF l(1)] h1 by (simp add: woken_leave holds_def fun_eq_iff)
  qed
qed

lemma acts_leave_others:
  assumes "lf_reachable s" and "lf_acts j s s'" and "i \<noteq> j"
  shows "holds s' h i k t = holds s h i k t"
  using assms(2)
proof cases
  case (acts_call td opn fl fsize flags head)
  have ok: "lf_ok s" by (rule lf_reachable_ok [OF assms(1)])
  show ?thesis
  proof (cases "lf_range fl fsize")
    case (Inl e)
    then show ?thesis using acts_call by (simp add: advlock_cases)
  next
    case (Inr p)
    obtain a b where p: "lf_range fl fsize = Inr (a, b)" using Inr by (cases p) auto
    obtain r fl' where e: "lf_advlock td j opn fl flags head fsize s = ((r, fl'), s')" using acts_call(1) by (metis prod.collapse)
    consider "opn = Op_SETLK" | "opn = Op_UNLCK" | "opn \<noteq> Op_SETLK" "opn \<noteq> Op_UNLCK" by blast
    then show ?thesis
    proof cases
      case 1
      show ?thesis using setlk_refines [OF assms(1) acts_call(2) _ p] e acts_call(3) 1 assms(3) by (simp split: lf_result.split option.split)
    next
      case 2
      show ?thesis using unlck_refines [OF assms(1) _ p] e acts_call(3) 2 assms(3) by simp
    next
      case 3
      then show ?thesis using advlock_other(2) [OF ok acts_call(3), of td j flags head] e by simp
    qed
  qed
next
  case (acts_back td lock e)
  then show ?thesis using back_others [OF lf_reachable_ok [OF assms(1)] acts_back(3)] assms(3) by simp
qed

lemma write_excludes:
  assumes "lf_reachable s" and "holds s h i k F_WRLCK" and "holds s h j k t"
  shows "i = j"
proof -
  have "compat (holds s h)" using lf_reachable_ok [OF assms(1)] by (simp add: lf_ok_def lists_ok_def holds_def)
  then show ?thesis using assms(2,3) unfolding compat_def by blast
qed

interpretation lf: byte_locks lf_reachable holds lf_acts F_WRLCK
  by unfold_locales (auto intro: acts_reachable simp: acts_leave_others dest: write_excludes)

text \<open>C30: A write lock protects its bytes: whatever calls the other owners make whose ranges do not end at OFF_MAX (call_in), whatever sleeps end and however,
  the owner keeps it and nobody else holds any of its bytes, until the owner itself acts. A call whose range ends at OFF_MAX may break this:
  lf_split overflows on the caller's own lock to the end of the file, whose rest then covers every byte (lf_write_lock_overrun).\<close>

theorem lf_write_lock_protects:
  assumes "lf_reachable s" and "holds s h i k F_WRLCK" and "(\<lambda>s s'. \<exists>j. j \<noteq> i \<and> lf_acts j s s')\<^sup>*\<^sup>* s s'"
  shows "holds s' h i k F_WRLCK \<and> (\<forall>j t. holds s' h j k t \<longrightarrow> j = i)"
  by (rule lf.path_excludes [OF assms(3,1,2)])

theorem lf_write_lock_protects_witness: "holds lf_s2 7 1 20 F_WRLCK \<and> \<not> holds lf_s2 7 2 20 F_RDLCK"
proof -
  have "lf_lists lf_s1 7 = [0] \<and> lf_id (the_lf lf_s1 0) = 1 \<and> lf_type (the_lf lf_s1 0) = F_WRLCK \<and> covers (the_lf lf_s1 0) 20" by code_simp
  then have h: "holds lf_s1 7 1 20 F_WRLCK" by (simp add: holds_def facts_def held_def)
  have "lf_acts 2 lf_s1 lf_s2" unfolding lf_s2_def posix_def by (rule acts_call) code_simp+
  then have p: "(\<lambda>s s'. \<exists>j. j \<noteq> 1 \<and> lf_acts j s s')\<^sup>*\<^sup>* lf_s1 lf_s2" by (intro r_into_rtranclp exI [of _ 2]) simp
  from lf_write_lock_protects [OF reachable_s1 h p] show ?thesis by auto
qed

section \<open>F_GETLK\<close>

definition reported :: "lockf \<Rightarrow> lockfs \<Rightarrow> flock" where
  "reported l s = \<lparr>l_start = lf_start l, l_len = (if lf_end l = -1 then 0 else lf_end l - lf_start l + 1),
                  l_pid = (if has_flag l F_POSIX then lf_p_pid s (lf_id l) else -1), l_type = lf_type l, l_whence = SEEK_SET\<rparr>"

lemma getlock_reported:
  assumes "lf_getblock s (lf_lists s (lf_head (the_lf s lock))) (the_lf s lock) = Some x" and "range_ok (the_lf s x)"
  shows "lf_getlock lock fl s = reported (the_lf s x) s"
proof -
  have "off_t (off_t (lf_end (the_lf s x) - lf_start (the_lf s x)) + 1) = lf_end (the_lf s x) - lf_start (the_lf s x) + 1" if "lf_end (the_lf s x) \<noteq> -1"
    using assms(2) that by (auto simp: off_t_def range_ok_def OFF_MAX_def)
  then show ?thesis using assms(1) by (simp add: lf_getlock_def Let_def reported_def)
qed

lemma advlock_get:
  assumes ok: "lf_ok s" and c: "call_in Op_GETLK fl fsize" and p: "lf_range fl fsize = Inr (a, b)"
    and r: "lf_advlock td owner Op_GETLK fl flags head fsize s = ((r, fl'), s')"
  shows "r = Returns None" and "grantable (holds s head) (request owner fl flags head a b) \<Longrightarrow> fl' = fl\<lparr>l_type := F_UNLCK\<rparr>"
    and "\<not> grantable (holds s head) (request owner fl flags head a b) \<Longrightarrow>
           \<exists>x \<in> set (lf_lists s head). conflict (the_lf s x) (request owner fl flags head a b) \<and> fl' = reported (the_lf s x) s"
proof -
  let ?l = "request owner fl flags head a b"
  let ?s1 = "snd (new_lf ?l s)"
  have cr: "range_ok ?l" by (rule call_range(1) [OF c p])
  have fl: "inflight (lf_brk s) ?s1" by (rule new_ok(1) [OF ok]) (simp_all add: cr)
  have l1: "the_lf ?s1 (lf_brk s) = ?l" "lf_lists ?s1 = lf_lists s" "lf_p_pid ?s1 = lf_p_pid s" by (simp_all add: the_new) (simp_all add: new_lf_def)
  have "facts ?s1 (lf_lists s head) = holds s head" using fun_cong [OF new_holds [OF ok _ cr], of head] l1(2) by (simp add: holds_def)
  then have gb: "lf_getblock ?s1 (lf_lists s head) ?l = None \<longleftrightarrow> grantable (holds s head) ?l"
    using getblock_grantable [of ?s1 ?l head] fl cr l1(2) by (simp add: inflight_def)
  have e: "lf_lists s head = [] \<Longrightarrow> lf_getblock ?s1 (lf_lists s head) ?l = None" by (simp add: lf_getblock.simps)
  show "r = Returns None" using r p by (auto simp: advlock_cases Let_def split: if_splits)
  have fl': "fl' = (if lf_lists s head = [] then fl\<lparr>l_type := F_UNLCK\<rparr> else lf_getlock (lf_brk s) fl ?s1)" using r p by (auto simp: advlock_cases Let_def)
  show "fl' = fl\<lparr>l_type := F_UNLCK\<rparr>" if "grantable (holds s head) ?l" using that gb l1 by (simp add: fl' lf_getlock_def Let_def)
  show "\<exists>x \<in> set (lf_lists s head). conflict (the_lf s x) ?l \<and> fl' = reported (the_lf s x) s" if "\<not> grantable (holds s head) ?l"
  proof -
    obtain x where x: "lf_getblock ?s1 (lf_lists s head) ?l = Some x" using \<open>\<not> grantable (holds s head) ?l\<close> gb by auto
    then have xs: "x \<in> set (lf_lists s head)" "conflict (the_lf ?s1 x) ?l"
      using getblock_spec [where s = ?s1 and as = "lf_lists s head" and l = ?l] by simp_all
    have lo: "x < lf_brk s" "range_ok (the_lf s x)" using ok xs(1) by (auto simp: lf_ok_def lists_ok_def list_ok_def listed_ok_def)
    have tx: "the_lf ?s1 x = the_lf s x" using lo(1) by (simp add: the_new)
    have "fl' = reported (the_lf s x) ?s1" using getlock_reported [of ?s1 "lf_brk s" x fl] x lo(2) tx l1 e by (auto simp: fl')
    then show ?thesis using xs tx l1(3) by (auto simp: reported_def)
  qed
qed

text \<open>C33: F_GETLK reports a lock of another owner that excludes the request, its first byte, its length and its owner, if there is one, and F_UNLCK if
  there is none; it changes no lock. This is for ranges that do not end at OFF_MAX, in this call and in those before it (call_in).\<close>

theorem lf_getlk_reports:
  assumes "lf_reachable s" and "call_in Op_GETLK fl fsize" and "lf_range fl fsize = Inr (a, b)"
    and "lf_advlock td owner Op_GETLK fl flags head fsize s = ((r, fl'), s')"
  shows "r = Returns None \<and> holds s' = holds s
    \<and> (if \<forall>j k t. j \<noteq> owner \<and> flock_covers fl fsize k \<and> holds s head j k t \<longrightarrow> t \<noteq> F_WRLCK \<and> l_type fl \<noteq> F_WRLCK
       then fl' = fl\<lparr>l_type := F_UNLCK\<rparr>
       else \<exists>x \<in> set (lf_lists s head). let l = the_lf s x in
              lf_id l \<noteq> owner \<and> (\<exists>k. covers l k \<and> flock_covers fl fsize k) \<and> (lf_type l = F_WRLCK \<or> l_type fl = F_WRLCK)
              \<and> fl' = \<lparr>l_start = lf_start l, l_len = (if lf_end l = -1 then 0 else lf_end l - lf_start l + 1),
                       l_pid = (if has_flag l F_POSIX then lf_p_pid s (lf_id l) else -1), l_type = lf_type l, l_whence = SEEK_SET\<rparr>)"
proof -
  let ?l = "request owner fl flags head a b"
  have ok: "lf_ok s" by (rule lf_reachable_ok [OF assms(1)])
  have cr: "range_ok ?l" "covers ?l k \<longleftrightarrow> flock_covers fl fsize k" for k using call_range [OF assms(2,3)] by simp_all
  have g: "grantable (holds s head) ?l \<longleftrightarrow>
      (\<forall>j k t. j \<noteq> owner \<and> flock_covers fl fsize k \<and> holds s head j k t \<longrightarrow> t \<noteq> F_WRLCK \<and> l_type fl \<noteq> F_WRLCK)"
    unfolding grantable_def request_simps cr(2) by blast
  have rng: "range_ok (the_lf s x)" if "x \<in> set (lf_lists s head)" for x using ok that by (auto simp: lf_ok_def lists_ok_def list_ok_def listed_ok_def)
  have ex: "\<exists>k. covers (the_lf s x) k \<and> flock_covers fl fsize k" if "x \<in> set (lf_lists s head)" "conflict (the_lf s x) ?l" for x
    using overlap_byte [OF rng [OF that(1)] cr(1)] that(2) cr(2) by (auto simp: conflict_def)
  have h: "holds s' = holds s" using advlock_other(2) [OF ok assms(2), of td owner flags head] assms(4) by simp
  note a = advlock_get [OF ok assms(2-4)]
  show ?thesis
  proof (cases "grantable (holds s head) ?l")
    case True
    then show ?thesis using a(1,2) g h by simp
  next
    case False
    then obtain x where "x \<in> set (lf_lists s head)" "conflict (the_lf s x) ?l" "fl' = reported (the_lf s x) s" using a(3) by blast
    then show ?thesis using a(1) False g h ex by (intro conjI) (auto simp: conflict_def Let_def reported_def)
  qed
qed

theorem lf_getlk_reports_witness: "snd (fst (posix Op_GETLK 2 F_RDLCK 0 0 lf_s1)) \<noteq> (ask F_RDLCK 0 0)\<lparr>l_type := F_UNLCK\<rparr>
    \<and> holds (snd (posix Op_GETLK 2 F_RDLCK 0 0 lf_s1)) = holds lf_s1"
proof
  have r: "call_in Op_GETLK (ask F_RDLCK 0 0) 0" "lf_range (ask F_RDLCK 0 0) 0 = Inr (0, -1)" by code_simp+
  obtain r fl' s' where e: "lf_advlock 102 2 Op_GETLK (ask F_RDLCK 0 0) 0x50 7 0 lf_s1 = ((r, fl'), s')" by (metis surj_pair)
  show "holds (snd (posix Op_GETLK 2 F_RDLCK 0 0 lf_s1)) = holds lf_s1" using lf_getlk_reports [OF reachable_s1 r e] e by (simp add: posix_def)
  show "snd (fst (posix Op_GETLK 2 F_RDLCK 0 0 lf_s1)) \<noteq> (ask F_RDLCK 0 0)\<lparr>l_type := F_UNLCK\<rparr>" by code_simp
qed

section \<open>The range\<close>

text \<open>C34: The conversion of a flock structure never wraps: it either fails with the error the range calls for, or gives a start and an end within the file
  offsets that cover exactly the bytes asked for.\<close>

theorem lf_range_exact:
  assumes "flock_in fl fsize"
  shows "case lf_range fl fsize of
           Inl e \<Rightarrow> (case l_whence fl of Whence_other w \<Rightarrow> e = EINVAL
                     | _ \<Rightarrow> if e = EINVAL then flock_base fl fsize < 0 \<or> l_len fl < 0 \<and> flock_base fl fsize + l_len fl < 0
                           else e = EOVERFLOW \<and> (l_whence fl = SEEK_END \<and> (fsize > OFF_MAX \<or> flock_base fl fsize > OFF_MAX)
                                                   \<or> l_len fl > 0 \<and> flock_base fl fsize + l_len fl - 1 > OFF_MAX))
         | Inr (a, b) \<Rightarrow> 0 \<le> a \<and> a \<le> OFF_MAX \<and> (b = -1 \<or> a \<le> b \<and> b \<le> OFF_MAX) \<and> (\<forall>k. range_of a b k = flock_covers fl fsize k)"
  by (rule range_spec [OF assms])

theorem lf_range_exact_witness: "\<forall>k. range_of 90 99 k = flock_covers \<lparr>l_start = 0, l_len = -10, l_pid = 0, l_type = F_RDLCK, l_whence = SEEK_END\<rparr> 100 k"
proof -
  have "lf_range \<lparr>l_start = 0, l_len = -10, l_pid = 0, l_type = F_RDLCK, l_whence = SEEK_END\<rparr> 100 = Inr (90, 99)" by code_simp
  moreover have "flock_in \<lparr>l_start = 0, l_len = -10, l_pid = 0, l_type = F_RDLCK, l_whence = SEEK_END\<rparr> 100" by code_simp
  ultimately show ?thesis using lf_range_exact [of "\<lparr>l_start = 0, l_len = -10, l_pid = 0, l_type = F_RDLCK, l_whence = SEEK_END\<rparr>" 100] by simp
qed

end
