(* ===== verification/Kern_State.thy ===== *)
theory Kern_State
  imports Kern_Prelude
begin

text \<open>
  The part of the kernel's data that credentials, jails, process groups and the inter-process
  access checks work on: the structs uidinfo (sys/resourcevar.h), ucred (sys/ucred.h), prison
  (sys/jail.h), session, pgrp, proc and thread (sys/proc.h), each with the fields the modelled
  code reads or writes, and the record \<open>kern\<close> of their heaps and of the global variables.
  Mutexes and sx locks are not part of the state: every modelled operation runs as one step.
  Reference and process counts are integers without a width, so that a decrement below zero
  shows as a negative number; ids are 32-bit words.
\<close>

type_synonym uid = u32
type_synonym gid = u32
type_synonym pid = int

record uidinfo =
  ui_sbsize :: int
  ui_proccnt :: int
  ui_uid :: uid
  ui_ref :: int

record prison =
  pr_id :: int
  pr_ref :: int
  pr_path :: string
  pr_root :: ptr
  pr_host :: string
  pr_ip :: u32
  pr_linux :: "ptr option"
  pr_securelevel :: int

record ucred =
  cr_ref :: int
  cr_uid :: uid
  cr_ruid :: uid
  cr_svuid :: uid
  cr_ngroups :: nat
  cr_groups :: "gid list"
  cr_rgid :: gid
  cr_svgid :: gid
  cr_uidinfo :: "ptr option"
  cr_ruidinfo :: "ptr option"
  cr_prison :: "ptr option"

record session =
  s_count :: int
  s_leader :: "ptr option"
  s_sid :: pid
  s_ttyvp :: "ptr option"
  s_ttyp :: "ptr option"
  s_login :: string

record pgrp =
  pg_id :: pid
  pg_session :: ptr
  pg_members :: "ptr list"
  pg_jobc :: int

datatype proc_state = PRS_NEW | PRS_NORMAL | PRS_ZOMBIE

record proc =
  p_pid :: pid
  p_ucred :: ptr
  p_flag :: u32
  p_pfsflags :: u32
  p_stops :: u32
  p_pptr :: ptr
  p_children :: "ptr list"
  p_pgrp :: "ptr option"
  p_state :: proc_state

record thread =
  td_proc :: ptr
  td_ucred :: "ptr option"

text \<open>
  \<open>k_brk\<close> is the allocator: malloc with M_WAITOK never fails and returns the pointer \<open>k_brk\<close>.
  \<open>k_uihash\<close> are the chains of uihashtbl, indexed by a uid masked with \<open>k_uimask\<close> (uihash);
  \<open>k_ttypgrp\<close> is the field t_pgrp of the terminals; \<open>k_allproc\<close> and \<open>k_pgrphash\<close>
  are the processes and process groups that pfind and pgfind search, in search order.
\<close>

record kern =
  k_brk :: ptr
  k_ui :: "ptr \<rightharpoonup> uidinfo"
  k_uihash :: "u32 \<Rightarrow> ptr list"
  k_uimask :: u32
  k_cred :: "ptr \<rightharpoonup> ucred"
  k_prison :: "ptr \<rightharpoonup> prison"
  k_allprison :: "ptr list"
  k_lastprid :: int
  k_prisoncount :: int
  k_sess :: "ptr \<rightharpoonup> session"
  k_pgrp :: "ptr \<rightharpoonup> pgrp"
  k_pgrphash :: "ptr list"
  k_ttypgrp :: "ptr \<Rightarrow> ptr option"
  k_proc :: "ptr \<rightharpoonup> proc"
  k_allproc :: "ptr list"
  k_thread :: "ptr \<rightharpoonup> thread"
  initproc :: ptr
  suser_enabled :: bool
  securelevel :: int
  see_other_uids :: bool
  see_other_gids :: bool
  conservative_signals :: bool
  unprivileged_proc_debug :: bool

text \<open>The constants of sys/param.h, sys/syslimits.h, sys/proc.h, sys/jail.h and sys/pioctl.h.\<close>

definition NGROUPS :: nat where "NGROUPS = 16"
definition P_CONTROLT :: u32 where "P_CONTROLT = 0x00002"
definition P_SUGID :: u32 where "P_SUGID = 0x00100"
definition P_EXEC :: u32 where "P_EXEC = 0x04000"
definition P_STOPPED :: u32 where "P_STOPPED = 0xe0000"
definition P_INEXEC :: u32 where "P_INEXEC = 0x4000000"
definition PF_ISUGID :: u32 where "PF_ISUGID = 0x02"
definition JAIL_MAX :: int where "JAIL_MAX = 999999"

text \<open>Following a pointer. A dangling pointer gives an unspecified record; the invariants exclude it.\<close>

abbreviation the_ui :: "kern \<Rightarrow> ptr \<Rightarrow> uidinfo" where "the_ui k a \<equiv> the (k_ui k a)"
abbreviation the_cred :: "kern \<Rightarrow> ptr \<Rightarrow> ucred" where "the_cred k c \<equiv> the (k_cred k c)"
abbreviation the_prison :: "kern \<Rightarrow> ptr \<Rightarrow> prison" where "the_prison k a \<equiv> the (k_prison k a)"
abbreviation the_proc :: "kern \<Rightarrow> ptr \<Rightarrow> proc" where "the_proc k p \<equiv> the (k_proc k p)"
abbreviation the_thread :: "kern \<Rightarrow> ptr \<Rightarrow> thread" where "the_thread k t \<equiv> the (k_thread k t)"

abbreviation put_ui :: "ptr \<Rightarrow> uidinfo \<Rightarrow> kern \<Rightarrow> kern" where
  "put_ui a u k \<equiv> k\<lparr>k_ui := (k_ui k)(a \<mapsto> u)\<rparr>"
abbreviation put_cred :: "ptr \<Rightarrow> ucred \<Rightarrow> kern \<Rightarrow> kern" where
  "put_cred c cr k \<equiv> k\<lparr>k_cred := (k_cred k)(c \<mapsto> cr)\<rparr>"
abbreviation put_prison :: "ptr \<Rightarrow> prison \<Rightarrow> kern \<Rightarrow> kern" where
  "put_prison a pr k \<equiv> k\<lparr>k_prison := (k_prison k)(a \<mapsto> pr)\<rparr>"
abbreviation put_proc :: "ptr \<Rightarrow> proc \<Rightarrow> kern \<Rightarrow> kern" where
  "put_proc p pc k \<equiv> k\<lparr>k_proc := (k_proc k)(p \<mapsto> pc)\<rparr>"
abbreviation put_thread :: "ptr \<Rightarrow> thread \<Rightarrow> kern \<Rightarrow> kern" where
  "put_thread t td k \<equiv> k\<lparr>k_thread := (k_thread k)(t \<mapsto> td)\<rparr>"

end
