(* ===== verification/Kern_Resource.thy ===== *)
theory Kern_Resource
  imports Kern_State
begin

text \<open>
  The per-uid resource accounting of kern/kern_resource.c: the hash table of uidinfo structs
  (\<open>uilookup\<close>, \<open>uifind\<close>), their reference counts (\<open>uihold\<close>, \<open>uifree\<close>) and the limits
  kept in them (\<open>chgproccnt\<close>, \<open>chgsbsize\<close>). The invariant \<open>uihash_inv\<close> says that the table
  holds every allocated uidinfo in the chain of its uid, once, and one uidinfo per uid.
  The diagnostic printfs are not modelled.
\<close>

section \<open>Operations\<close>

definition UIHASH :: "kern \<Rightarrow> uid \<Rightarrow> u32" where
  "UIHASH k u = u AND k_uimask k"

definition uilookup :: "kern \<Rightarrow> uid \<Rightarrow> ptr option" where
  "uilookup k u = List.find (\<lambda>a. ui_uid (the_ui k a) = u) (k_uihash k (UIHASH k u))"

definition uihold :: "ptr \<Rightarrow> kern \<Rightarrow> kern" where
  "uihold a k = put_ui a ((the_ui k a)\<lparr>ui_ref := ui_ref (the_ui k a) + 1\<rparr>) k"

text \<open>
  \<open>uifind env\<close>: \<open>env\<close> is what the rest of the kernel does to the state while the hash lock is
  dropped around malloc; the second lookup is there for it.
\<close>

definition uifind :: "(kern \<Rightarrow> kern) \<Rightarrow> uid \<Rightarrow> kern \<Rightarrow> ptr \<times> kern" where
  "uifind env u k =
     (case uilookup k u of
        Some a \<Rightarrow> (a, uihold a k)
      | None \<Rightarrow>
          let k1 = env k;
              uip = k_brk k1;
              k2 = k1\<lparr>k_brk := uip + 1\<rparr>
          in (case uilookup k2 u of
                Some old \<Rightarrow> (old, uihold old k2)
              | None \<Rightarrow>
                  let ui = \<lparr>ui_sbsize = 0, ui_proccnt = 0, ui_uid = u, ui_ref = 0\<rparr>;
                      k3 = put_ui uip ui k2;
                      k4 = k3\<lparr>k_uihash := (k_uihash k3)(UIHASH k3 u := uip # k_uihash k3 (UIHASH k3 u))\<rparr>
                  in (uip, uihold uip k4)))"

text \<open>LIST_REMOVE from the hash chain and FREE.\<close>

definition ui_unlink :: "ptr \<Rightarrow> kern \<Rightarrow> kern" where
  "ui_unlink a k =
     (let h = UIHASH k (ui_uid (the_ui k a))
      in k\<lparr>k_uihash := (k_uihash k)(h := remove1 a (k_uihash k h)), k_ui := (k_ui k)(a := None)\<rparr>)"

definition uifree :: "ptr \<Rightarrow> kern \<Rightarrow> kern" where
  "uifree a k =
     (let ui1 = (the_ui k a)\<lparr>ui_ref := ui_ref (the_ui k a) - 1\<rparr> in
      if ui_ref ui1 \<noteq> 0 then put_ui a ui1 k
      else
        let ui2 = ui1\<lparr>ui_ref := ui_ref ui1 + 1\<rparr>;
            ui3 = ui2\<lparr>ui_ref := ui_ref ui2 - 1\<rparr>;
            k3 = put_ui a ui3 k
        in if ui_ref ui3 = 0 then ui_unlink a k3 else k3)"

text \<open>\<open>chgproccnt\<close> returns False (the C 0) where the limit refuses the change.\<close>

definition chgproccnt :: "ptr \<Rightarrow> int \<Rightarrow> int \<Rightarrow> kern \<Rightarrow> bool \<times> kern" where
  "chgproccnt a diff lim k =
     (let ui = the_ui k a in
      if diff > 0 \<and> ui_proccnt ui + diff > lim \<and> lim \<noteq> 0 then (False, k)
      else (True, put_ui a (ui\<lparr>ui_proccnt := ui_proccnt ui + diff\<rparr>) k))"

text \<open>
  \<open>chgsbsize\<close>: \<open>hiwat\<close> is the value behind the pointer argument; the result holds its new
  value. rlim_t is a signed 64-bit type, wide enough for the sums of 32-bit sizes kept here,
  so it is an integer.
\<close>

definition chgsbsize :: "ptr \<Rightarrow> u32 \<Rightarrow> u32 \<Rightarrow> int \<Rightarrow> kern \<Rightarrow> (bool \<times> u32) \<times> kern" where
  "chgsbsize a hiwat to lim k =
     (let ui = the_ui k a;
          new = ui_sbsize ui + uint to - uint hiwat
      in if to > hiwat \<and> new > lim then ((False, hiwat), k)
         else ((True, to), put_ui a (ui\<lparr>ui_sbsize := new\<rparr>) k))"

section \<open>The hash table invariant\<close>

definition uihash_inv :: "kern \<Rightarrow> bool" where
  "uihash_inv k \<longleftrightarrow>
     (\<forall>h. distinct (k_uihash k h)) \<and>
     (\<forall>h a. a \<in> set (k_uihash k h) \<longleftrightarrow> (\<exists>ui. k_ui k a = Some ui \<and> UIHASH k (ui_uid ui) = h)) \<and>
     (\<forall>a b ui uj. k_ui k a = Some ui \<longrightarrow> k_ui k b = Some uj \<longrightarrow> ui_uid ui = ui_uid uj \<longrightarrow> a = b)"

text \<open>Every allocated struct lies below the allocator's next pointer.\<close>

definition brk_inv :: "kern \<Rightarrow> bool" where
  "brk_inv k \<longleftrightarrow> dom (k_ui k) \<subseteq> {..<k_brk k} \<and> dom (k_cred k) \<subseteq> {..<k_brk k} \<and> dom (k_prison k) \<subseteq> {..<k_brk k}"

lemma brk_fresh:
  assumes "brk_inv k"
  shows "k_ui k (k_brk k) = None" and "k_cred k (k_brk k) = None" and "k_prison k (k_brk k) = None"
  using assms unfolding brk_inv_def by (auto simp: dom_def)

lemma brk_finite:
  assumes "brk_inv k"
  shows "finite (dom (k_ui k))" and "finite (dom (k_cred k))" and "finite (dom (k_prison k))"
  using assms unfolding brk_inv_def by (auto intro: finite_subset)

lemma uilookup_some:
  assumes inv: "uihash_inv k"
  shows "uilookup k u = Some a \<longleftrightarrow> (\<exists>ui. k_ui k a = Some ui \<and> ui_uid ui = u)"
proof
  assume "uilookup k u = Some a"
  then have "a \<in> set (k_uihash k (UIHASH k u)) \<and> ui_uid (the_ui k a) = u"
    by (auto simp: uilookup_def find_Some_iff)
  then show "\<exists>ui. k_ui k a = Some ui \<and> ui_uid ui = u"
    using inv by (auto simp: uihash_inv_def)
next
  assume "\<exists>ui. k_ui k a = Some ui \<and> ui_uid ui = u"
  then obtain ui where ui: "k_ui k a = Some ui" "ui_uid ui = u" by blast
  then have mem: "a \<in> set (k_uihash k (UIHASH k u))" using inv by (auto simp: uihash_inv_def)
  then have "uilookup k u \<noteq> None"
    using ui by (auto simp: uilookup_def find_None_iff)
  then obtain b where b: "uilookup k u = Some b" by blast
  then have "b \<in> set (k_uihash k (UIHASH k u)) \<and> ui_uid (the_ui k b) = u"
    by (auto simp: uilookup_def find_Some_iff)
  then obtain uj where "k_ui k b = Some uj" "ui_uid uj = u"
    using inv by (auto simp: uihash_inv_def)
  then have "a = b" using ui inv unfolding uihash_inv_def by metis
  then show "uilookup k u = Some a" using b by simp
qed

lemma uilookup_none:
  assumes "uihash_inv k"
  shows "uilookup k u = None \<longleftrightarrow> (\<forall>a ui. k_ui k a = Some ui \<longrightarrow> ui_uid ui \<noteq> u)"
proof (cases "uilookup k u")
  case None
  then show ?thesis using uilookup_some [OF assms, of u] by auto
next
  case (Some a)
  then obtain ui where "k_ui k a = Some ui" "ui_uid ui = u"
    using uilookup_some [OF assms, of u a] by blast
  then show ?thesis using Some by auto
qed

text \<open>Writing a field other than the uid keeps the table right.\<close>

lemma uihash_inv_put:
  "uihash_inv k \<Longrightarrow> k_ui k a = Some ui \<Longrightarrow> ui_uid ui' = ui_uid ui \<Longrightarrow> uihash_inv (put_ui a ui' k)"
  unfolding uihash_inv_def UIHASH_def by (auto split: if_splits)

lemma uihash_inv_insert:
  assumes inv: "uihash_inv k" and "k_ui k a = None"
    and "\<forall>b uj. k_ui k b = Some uj \<longrightarrow> ui_uid uj \<noteq> ui_uid ui"
  shows "uihash_inv (k\<lparr>k_ui := (k_ui k)(a \<mapsto> ui),
            k_uihash := (k_uihash k)(UIHASH k (ui_uid ui) := a # k_uihash k (UIHASH k (ui_uid ui)))\<rparr>)"
  using assms unfolding uihash_inv_def UIHASH_def
  by (auto split: if_splits) metis+

lemma uihash_inv_unlink:
  assumes inv: "uihash_inv k" and "k_ui k a = Some ui"
  shows "uihash_inv (ui_unlink a k)"
  using assms unfolding uihash_inv_def UIHASH_def ui_unlink_def Let_def
  by (auto split: if_splits)

end
