(* ===== verification/Kern_Jail.thy ===== *)
theory Kern_Jail
  imports Kern_Resource
begin

text \<open>
  Jails, kern/kern_jail.c: the reference counts of prison structs and the list allprison,
  the isolation check \<open>prison_check\<close> every access check starts with, the address rewriting
  of prison_ip and prison_remote_ip, and the choice of the next jail id. The system calls
  jail and jail_attach are in Kern_Jail_Calls, as they work on credentials. The release of
  the vnode pr_root and of the Linux data is not modelled.
\<close>

definition prison_find :: "kern \<Rightarrow> int \<Rightarrow> ptr option" where
  "prison_find k prid = List.find (\<lambda>a. pr_id (the_prison k a) = prid) (k_allprison k)"

definition prison_free :: "ptr \<Rightarrow> kern \<Rightarrow> kern" where
  "prison_free a k =
     (let pr = (the_prison k a)\<lparr>pr_ref := pr_ref (the_prison k a) - 1\<rparr> in
      if pr_ref pr = 0
      then k\<lparr>k_allprison := remove1 a (k_allprison k), k_prisoncount := k_prisoncount k - 1,
             k_prison := (k_prison k)(a := None)\<rparr>
      else put_prison a pr k)"

definition prison_hold :: "ptr \<Rightarrow> kern \<Rightarrow> kern" where
  "prison_hold a k = put_prison a ((the_prison k a)\<lparr>pr_ref := pr_ref (the_prison k a) + 1\<rparr>) k"

definition jailed :: "ucred \<Rightarrow> bool" where
  "jailed cr \<longleftrightarrow> cr_prison cr \<noteq> None"

definition prison_check :: "ucred \<Rightarrow> ucred \<Rightarrow> err" where
  "prison_check cred1 cred2 =
     (if jailed cred1 then
        if \<not> jailed cred2 then Some ESRCH
        else if cr_prison cred2 \<noteq> cr_prison cred1 then Some ESRCH
        else None
      else None)"

section \<open>Addresses\<close>

text \<open>ntohl and htonl of the little-endian i386: the four bytes in the other order.\<close>

definition ntohl :: "u32 \<Rightarrow> u32" where
  "ntohl x = push_bit 24 (x AND 0xff) OR push_bit 8 (x AND 0xff00)
      OR (drop_bit 8 x AND 0xff00) OR drop_bit 24 x"

abbreviation htonl :: "u32 \<Rightarrow> u32" where "htonl \<equiv> ntohl"

definition INADDR_ANY :: u32 where "INADDR_ANY = 0"
definition INADDR_LOOPBACK :: u32 where "INADDR_LOOPBACK = 0x7f000001"

definition prison_getip :: "kern \<Rightarrow> ucred \<Rightarrow> u32" where
  "prison_getip k cred = pr_ip (the_prison k (the (cr_prison cred)))"

text \<open>\<open>prison_ip\<close>: the returned int (1: refused) and the new value behind the pointer ip.\<close>

definition prison_ip :: "kern \<Rightarrow> ucred \<Rightarrow> bool \<Rightarrow> u32 \<Rightarrow> bool \<times> u32" where
  "prison_ip k cred flag ip =
     (if \<not> jailed cred then (False, ip)
      else
        let tmp = (if flag then ip else ntohl ip);
            own = prison_getip k cred in
        if tmp = INADDR_ANY then (False, if flag then own else htonl own)
        else if tmp = INADDR_LOOPBACK then (False, if flag then own else htonl own)
        else if own \<noteq> tmp then (True, ip)
        else (False, ip))"

definition prison_remote_ip :: "kern \<Rightarrow> ucred \<Rightarrow> bool \<Rightarrow> u32 \<Rightarrow> u32" where
  "prison_remote_ip k cred flag ip =
     (if \<not> jailed cred then ip
      else
        let tmp = (if flag then ip else ntohl ip) in
        if tmp = INADDR_LOOPBACK
        then (if flag then prison_getip k cred else htonl (prison_getip k cred))
        else ip)"

text \<open>\<open>prison_if\<close>: a socket address is its family and, for AF_INET, the address in network order.\<close>

definition prison_if :: "bool \<Rightarrow> kern \<Rightarrow> ucred \<Rightarrow> nat \<Rightarrow> nat \<Rightarrow> u32 \<Rightarrow> bool" where
  "prison_if jail_socket_unixiproute_only k cred af_inet family addr =
     (if family \<noteq> af_inet \<and> jail_socket_unixiproute_only then True
      else if family \<noteq> af_inet then False
      else if prison_getip k cred \<noteq> ntohl addr then True
      else False)"

section \<open>The next jail id\<close>

text \<open>
  The loop at the label next of jail: restart the scan of allprison whenever the id tried is
  in use; \<open>None\<close> is EAGAIN.
\<close>

function jail_next_prid :: "int list \<Rightarrow> int \<Rightarrow> int option" where
  "jail_next_prid ids tryprid =
     (if tryprid \<in> set ids
      then (if tryprid + 1 = JAIL_MAX then None else jail_next_prid ids (tryprid + 1))
      else Some tryprid)"
  by pat_completeness auto
termination
proof (relation "measure (\<lambda>(ids, t). card {i \<in> set ids. t \<le> i})")
  fix ids and t :: int
  assume "t \<in> set ids"
  then have "{i \<in> set ids. t + 1 \<le> i} \<subset> {i \<in> set ids. t \<le> i}" by force
  then show "((ids, t + 1), (ids, t)) \<in> measure (\<lambda>(ids, t). card {i \<in> set ids. t \<le> i})"
    by (simp add: psubset_card_mono)
qed simp

declare jail_next_prid.simps [simp del]

definition jail_pick_prid :: "kern \<Rightarrow> int option" where
  "jail_pick_prid k =
     (let t = k_lastprid k + 1;
          t = (if t = JAIL_MAX then 1 else t)
      in jail_next_prid (map (\<lambda>a. pr_id (the_prison k a)) (k_allprison k)) t)"

section \<open>Properties\<close>

lemma jail_next_prid_free:
  "jail_next_prid ids t = Some i \<Longrightarrow> i \<notin> set ids \<and> t \<le> i"
proof (induction ids t rule: jail_next_prid.induct)
  case (1 ids t)
  then show ?case
    by (auto simp: jail_next_prid.simps [of ids t] split: if_splits)
qed

lemma jail_next_prid_bound:
  "jail_next_prid ids t = Some i \<Longrightarrow> t < JAIL_MAX \<Longrightarrow> i < JAIL_MAX"
proof (induction ids t rule: jail_next_prid.induct)
  case (1 ids t)
  then show ?case
    by (auto simp: jail_next_prid.simps [of ids t] split: if_splits)
qed

lemma jail_next_prid_none:
  "jail_next_prid ids t = None \<Longrightarrow> t < JAIL_MAX \<Longrightarrow> {t..<JAIL_MAX} \<subseteq> set ids"
proof (induction ids t rule: jail_next_prid.induct)
  case (1 ids t)
  have split: "{t..<JAIL_MAX} = insert t {t + 1..<JAIL_MAX}" using 1(3) by auto
  show ?case
    using 1 by (auto simp: jail_next_prid.simps [of ids t] split split: if_splits)
qed

lemma bit_byte_masks:
  "bit (0xff :: u32) i = (i < 8)" "bit (0xff00 :: u32) i = (8 \<le> i \<and> i < 16)"
proof -
  have "(0xff :: u32) = mask 8" by (simp add: mask_eq_exp_minus_1)
  then show "bit (0xff :: u32) i = (i < 8)" by (simp only: bit_mask_iff) auto
  have "(0xff00 :: u32) = push_bit 8 (mask 8)" by (simp add: mask_eq_exp_minus_1 push_bit_eq_mult)
  then show "bit (0xff00 :: u32) i = (8 \<le> i \<and> i < 16)"
    by (simp only: bit_push_bit_iff bit_mask_iff) auto
qed

lemma bit_ntohl:
  "n < 32 \<Longrightarrow> bit (ntohl x) n =
    (if n < 8 then bit x (n + 24) else if n < 16 then bit x (n + 8)
     else if n < 24 then bit x (n - 8) else bit x (n - 24))"
  by (simp only: ntohl_def bit_or_iff bit_push_bit_iff bit_drop_bit_eq bit_and_iff bit_byte_masks o_apply)
     (auto simp: add.commute dest: bit_imp_le_length)

lemma ntohl_ntohl [simp]: "ntohl (ntohl x) = x"
proof (rule bit_word_eqI)
  fix n assume "n < LENGTH(32)"
  then have "n < 32" by simp
  then show "bit (ntohl (ntohl x)) n = bit x n"
    by (auto simp: bit_ntohl)
qed
end
