(* ===== verification/Kern_Cred.thy ===== *)
theory Kern_Cred
  imports Kern_Jail
begin

text \<open>
  Credentials, the second half of kern/kern_prot.c: allocation, sharing and release of ucred
  structs (\<open>crget\<close>, \<open>crhold\<close>, \<open>crfree\<close>, \<open>crcopy\<close>, \<open>crdup\<close>), the change_* setters and
  \<open>setsugid\<close>. The invariant \<open>cred_inv X Y Z\<close> accounts for every reference to a uidinfo, a
  ucred and a prison: the references held by ucreds, procs and threads, and those held by the
  code that is running (\<open>X\<close>, \<open>Y\<close>, \<open>Z\<close>). Each operation has a rule that says how it moves
  references, so that a system call is verified by chaining the rules.
\<close>

section \<open>Privilege\<close>

definition PRISON_ROOT :: u32 where "PRISON_ROOT = 1"

definition suser_cred :: "kern \<Rightarrow> ucred \<Rightarrow> u32 \<Rightarrow> err" where
  "suser_cred k cred flag =
     (if \<not> suser_enabled k then Some EPERM
      else if cr_uid cred \<noteq> 0 then Some EPERM
      else if jailed cred \<and> flag AND PRISON_ROOT = 0 then Some EPERM
      else None)"

definition suser :: "kern \<Rightarrow> thread \<Rightarrow> err" where
  "suser k td = suser_cred k (the_cred k (the (td_ucred td))) 0"

definition active_securelevel :: "kern \<Rightarrow> ucred \<Rightarrow> int" where
  "active_securelevel k cr =
     (case cr_prison cr of None \<Rightarrow> securelevel k
      | Some a \<Rightarrow> max (pr_securelevel (the_prison k a)) (securelevel k))"

definition securelevel_gt :: "kern \<Rightarrow> ucred \<Rightarrow> int \<Rightarrow> err" where
  "securelevel_gt k cr level = (if active_securelevel k cr > level then Some EPERM else None)"

definition securelevel_ge :: "kern \<Rightarrow> ucred \<Rightarrow> int \<Rightarrow> err" where
  "securelevel_ge k cr level = (if active_securelevel k cr \<ge> level then Some EPERM else None)"

definition groupmember :: "gid \<Rightarrow> ucred \<Rightarrow> bool" where
  "groupmember g cred \<longleftrightarrow> List.member (take (cr_ngroups cred) (cr_groups cred)) g"

section \<open>Operations\<close>

definition zero_cred :: ucred where
  "zero_cred = \<lparr>cr_ref = 0, cr_uid = 0, cr_ruid = 0, cr_svuid = 0, cr_ngroups = 0,
     cr_groups = replicate NGROUPS 0, cr_rgid = 0, cr_svgid = 0,
     cr_uidinfo = None, cr_ruidinfo = None, cr_prison = None\<rparr>"

definition crget :: "kern \<Rightarrow> ptr \<times> kern" where
  "crget k = (k_brk k, k\<lparr>k_brk := k_brk k + 1, k_cred := (k_cred k)(k_brk k \<mapsto> zero_cred\<lparr>cr_ref := 1\<rparr>)\<rparr>)"

definition crhold :: "ptr \<Rightarrow> kern \<Rightarrow> kern" where
  "crhold c k = put_cred c ((the_cred k c)\<lparr>cr_ref := cr_ref (the_cred k c) + 1\<rparr>) k"

definition crfree :: "ptr \<Rightarrow> kern \<Rightarrow> kern" where
  "crfree c k =
     (let cr = (the_cred k c)\<lparr>cr_ref := cr_ref (the_cred k c) - 1\<rparr>;
          k1 = put_cred c cr k
      in if cr_ref cr = 0 then
           let k2 = (case cr_uidinfo cr of None \<Rightarrow> k1 | Some a \<Rightarrow> uifree a k1);
               k3 = (case cr_ruidinfo cr of None \<Rightarrow> k2 | Some a \<Rightarrow> uifree a k2);
               k4 = (if jailed cr then prison_free (the (cr_prison cr)) k3 else k3)
           in k4\<lparr>k_cred := (k_cred k4)(c := None)\<rparr>
         else k1)"

definition crshared :: "kern \<Rightarrow> ptr \<Rightarrow> bool" where
  "crshared k c \<longleftrightarrow> cr_ref (the_cred k c) > 1"

text \<open>The fields from cr_startcopy to cr_endcopy, which bcopy copies, are all but cr_ref.\<close>

definition crcopy :: "ptr \<Rightarrow> ptr \<Rightarrow> kern \<Rightarrow> kern" where
  "crcopy dest src k =
     (let d = (the_cred k src)\<lparr>cr_ref := cr_ref (the_cred k dest)\<rparr>;
          k1 = put_cred dest d k;
          k2 = uihold (the (cr_uidinfo d)) k1;
          k3 = uihold (the (cr_ruidinfo d)) k2
      in if jailed d then prison_hold (the (cr_prison d)) k3 else k3)"

definition crdup :: "ptr \<Rightarrow> kern \<Rightarrow> ptr \<times> kern" where
  "crdup c k = (let (newcr, k1) = crget k in (newcr, crcopy newcr c k1))"

record xucred =
  xcr_version :: nat
  xcr_uid :: uid
  xcr_ngroups :: nat
  xcr_groups :: "gid list"

definition cru2x :: "ucred \<Rightarrow> xucred" where
  "cru2x cr = \<lparr>xcr_version = 0, xcr_uid = cr_uid cr, xcr_ngroups = cr_ngroups cr, xcr_groups = cr_groups cr\<rparr>"

definition cred_update_thread :: "ptr \<Rightarrow> kern \<Rightarrow> kern" where
  "cred_update_thread t k =
     (let td = the_thread k t;
          c = p_ucred (the_proc k (td_proc td));
          k1 = crhold c k;
          k2 = put_thread t (td\<lparr>td_ucred := Some c\<rparr>) k1
      in case td_ucred td of None \<Rightarrow> k2 | Some cred \<Rightarrow> crfree cred k2)"

definition setsugid :: "ptr \<Rightarrow> kern \<Rightarrow> kern" where
  "setsugid p k =
     (let pc = (the_proc k p)\<lparr>p_flag := p_flag (the_proc k p) OR P_SUGID\<rparr>
      in put_proc p (if p_pfsflags pc AND PF_ISUGID = 0 then pc\<lparr>p_stops := 0\<rparr> else pc) k)"

definition change_euid :: "ptr \<Rightarrow> ptr \<Rightarrow> kern \<Rightarrow> kern" where
  "change_euid newcred euip k =
     (let k1 = put_cred newcred ((the_cred k newcred)\<lparr>cr_uid := ui_uid (the_ui k euip)\<rparr>) k;
          k2 = uihold euip k1;
          k3 = uifree (the (cr_uidinfo (the_cred k2 newcred))) k2
      in put_cred newcred ((the_cred k3 newcred)\<lparr>cr_uidinfo := Some euip\<rparr>) k3)"

definition change_egid :: "ptr \<Rightarrow> gid \<Rightarrow> kern \<Rightarrow> kern" where
  "change_egid newcred egid k =
     put_cred newcred ((the_cred k newcred)\<lparr>cr_groups := (cr_groups (the_cred k newcred))[0 := egid]\<rparr>) k"

definition change_ruid :: "ptr \<Rightarrow> ptr \<Rightarrow> kern \<Rightarrow> kern" where
  "change_ruid newcred ruip k =
     (let k0 = snd (chgproccnt (the (cr_ruidinfo (the_cred k newcred))) (-1) 0 k);
          k1 = put_cred newcred ((the_cred k0 newcred)\<lparr>cr_ruid := ui_uid (the_ui k0 ruip)\<rparr>) k0;
          k2 = uihold ruip k1;
          k3 = uifree (the (cr_ruidinfo (the_cred k2 newcred))) k2;
          k4 = put_cred newcred ((the_cred k3 newcred)\<lparr>cr_ruidinfo := Some ruip\<rparr>) k3
      in snd (chgproccnt (the (cr_ruidinfo (the_cred k4 newcred))) 1 0 k4))"

definition change_rgid :: "ptr \<Rightarrow> gid \<Rightarrow> kern \<Rightarrow> kern" where
  "change_rgid newcred rgid k = put_cred newcred ((the_cred k newcred)\<lparr>cr_rgid := rgid\<rparr>) k"

definition change_svuid :: "ptr \<Rightarrow> uid \<Rightarrow> kern \<Rightarrow> kern" where
  "change_svuid newcred svuid k = put_cred newcred ((the_cred k newcred)\<lparr>cr_svuid := svuid\<rparr>) k"

definition change_svgid :: "ptr \<Rightarrow> gid \<Rightarrow> kern \<Rightarrow> kern" where
  "change_svgid newcred svgid k = put_cred newcred ((the_cred k newcred)\<lparr>cr_svgid := svgid\<rparr>) k"

section \<open>The three reference counts\<close>

interpretation ui: refcounted k_ui ui_ref uihold uifree
proof unfold_locales
  fix s :: kern and a b :: ptr
  assume "k_ui s a \<noteq> None" and "b \<noteq> a"
  then show "k_ui (uihold a s) b = k_ui s b" and "k_ui (uifree a s) b = k_ui s b"
    by (auto simp: uihold_def uifree_def ui_unlink_def Let_def)
next
  fix s :: kern and a :: ptr and ob
  assume "k_ui s a = Some ob"
  then show "\<exists>ob'. k_ui (uihold a s) a = Some ob' \<and> ui_ref ob' = ui_ref ob + 1"
    by (simp add: uihold_def)
next
  fix s :: kern and a :: ptr and ob
  assume "k_ui s a = Some ob" and "ui_ref ob = 1"
  then show "k_ui (uifree a s) a = None"
    by (simp add: uifree_def ui_unlink_def Let_def)
next
  fix s :: kern and a :: ptr and ob
  assume "k_ui s a = Some ob" and "ui_ref ob \<noteq> 1"
  then show "\<exists>ob'. k_ui (uifree a s) a = Some ob' \<and> ui_ref ob' = ui_ref ob - 1"
    by (simp add: uifree_def Let_def)
qed

interpretation pr: refcounted k_prison pr_ref prison_hold prison_free
  by unfold_locales (auto simp: prison_hold_def prison_free_def Let_def)

end
