(* ===== verification/Kern_Cred_Inv.thy ===== *)
theory Kern_Cred_Inv
  imports Kern_Cred
begin

text \<open>
  The reference-count invariant of credentials and the rule of each primitive operation.
  In \<open>cred_inv X Y Z k\<close> the tables X, Y and Z are the references to uidinfos, ucreds and
  prisons that local variables of the running code hold; at rest all three are zero.
\<close>

section \<open>Frames\<close>

lemma uihold_frame [frame_simps]:
  "k_brk (uihold a k) = k_brk k" "k_uihash (uihold a k) = k_uihash k" "k_uimask (uihold a k) = k_uimask k"
  "k_cred (uihold a k) = k_cred k" "k_prison (uihold a k) = k_prison k"
  "k_allprison (uihold a k) = k_allprison k" "k_prisoncount (uihold a k) = k_prisoncount k"
  "k_lastprid (uihold a k) = k_lastprid k"
  "k_proc (uihold a k) = k_proc k" "k_thread (uihold a k) = k_thread k"
  by (simp_all add: uihold_def)

lemma uifree_frame [frame_simps]:
  "k_brk (uifree a k) = k_brk k" "k_uimask (uifree a k) = k_uimask k"
  "k_cred (uifree a k) = k_cred k" "k_prison (uifree a k) = k_prison k"
  "k_allprison (uifree a k) = k_allprison k" "k_prisoncount (uifree a k) = k_prisoncount k"
  "k_lastprid (uifree a k) = k_lastprid k"
  "k_proc (uifree a k) = k_proc k" "k_thread (uifree a k) = k_thread k"
  by (simp_all add: uifree_def ui_unlink_def Let_def)

lemma prison_hold_frame [frame_simps]:
  "k_brk (prison_hold a k) = k_brk k" "k_ui (prison_hold a k) = k_ui k" "k_uihash (prison_hold a k) = k_uihash k"
  "k_uimask (prison_hold a k) = k_uimask k" "k_cred (prison_hold a k) = k_cred k"
  "k_allprison (prison_hold a k) = k_allprison k" "k_prisoncount (prison_hold a k) = k_prisoncount k"
  "k_lastprid (prison_hold a k) = k_lastprid k"
  "k_proc (prison_hold a k) = k_proc k" "k_thread (prison_hold a k) = k_thread k"
  by (simp_all add: prison_hold_def)

lemma prison_free_frame [frame_simps]:
  "k_brk (prison_free a k) = k_brk k" "k_ui (prison_free a k) = k_ui k" "k_uihash (prison_free a k) = k_uihash k"
  "k_uimask (prison_free a k) = k_uimask k" "k_cred (prison_free a k) = k_cred k"
  "k_lastprid (prison_free a k) = k_lastprid k"
  "k_proc (prison_free a k) = k_proc k" "k_thread (prison_free a k) = k_thread k"
  by (simp_all add: prison_free_def Let_def)

lemma crfree_other: "c' \<noteq> c \<Longrightarrow> k_cred (crfree c k) c' = k_cred k c'"
  by (simp add: crfree_def Let_def frame_simps split: option.split)

interpretation cr: refcounted k_cred cr_ref crhold crfree
proof unfold_locales
  fix s :: kern and a b :: ptr
  assume "k_cred s a \<noteq> None" and "b \<noteq> a"
  then show "k_cred (crhold a s) b = k_cred s b" and "k_cred (crfree a s) b = k_cred s b"
    by (auto simp: crhold_def crfree_other)
next
  fix s :: kern and a :: ptr and ob
  assume "k_cred s a = Some ob"
  then show "\<exists>ob'. k_cred (crhold a s) a = Some ob' \<and> cr_ref ob' = cr_ref ob + 1"
    by (simp add: crhold_def)
next
  fix s :: kern and a :: ptr and ob
  assume "k_cred s a = Some ob" and "cr_ref ob = 1"
  then show "k_cred (crfree a s) a = None"
    by (simp add: crfree_def Let_def)
next
  fix s :: kern and a :: ptr and ob
  assume "k_cred s a = Some ob" and "cr_ref ob \<noteq> 1"
  then show "\<exists>ob'. k_cred (crfree a s) a = Some ob' \<and> cr_ref ob' = cr_ref ob - 1"
    by (simp add: crfree_def Let_def)
qed

section \<open>The invariant\<close>

definition ui_use :: "ptr \<Rightarrow> ucred \<Rightarrow> int" where
  "ui_use a cr = of_bool (cr_uidinfo cr = Some a) + of_bool (cr_ruidinfo cr = Some a)"
definition pr_use :: "ptr \<Rightarrow> ucred \<Rightarrow> int" where
  "pr_use a cr = of_bool (cr_prison cr = Some a)"
definition ui_refs :: "kern \<Rightarrow> ptr \<Rightarrow> int" where "ui_refs k a = msum (ui_use a) (k_cred k)"
definition pr_refs :: "kern \<Rightarrow> ptr \<Rightarrow> int" where "pr_refs k a = msum (pr_use a) (k_cred k)"
definition cr_refs :: "kern \<Rightarrow> ptr \<Rightarrow> int" where
  "cr_refs k c = msum (\<lambda>p. of_bool (p_ucred p = c)) (k_proc k) + msum (\<lambda>t. of_bool (td_ucred t = Some c)) (k_thread k)"

text \<open>A cred that is in use: both uidinfo pointers set.\<close>

definition cred_full :: "ucred \<Rightarrow> bool" where
  "cred_full cr \<longleftrightarrow> cr_uidinfo cr \<noteq> None \<and> cr_ruidinfo cr \<noteq> None \<and> 1 \<le> cr_ngroups cr"

definition cred_ok :: "kern \<Rightarrow> ucred \<Rightarrow> bool" where
  "cred_ok k cr \<longleftrightarrow>
     length (cr_groups cr) = NGROUPS \<and> cr_ngroups cr \<le> NGROUPS \<and>
     (\<forall>a ui. cr_uidinfo cr = Some a \<longrightarrow> k_ui k a = Some ui \<longrightarrow> ui_uid ui = cr_uid cr) \<and>
     (\<forall>a ui. cr_ruidinfo cr = Some a \<longrightarrow> k_ui k a = Some ui \<longrightarrow> ui_uid ui = cr_ruid cr)"

definition prison_inv :: "kern \<Rightarrow> bool" where
  "prison_inv k \<longleftrightarrow> distinct (k_allprison k) \<and> set (k_allprison k) = dom (k_prison k) \<and>
     k_prisoncount k = int (length (k_allprison k)) \<and>
     (\<forall>a b p q. k_prison k a = Some p \<longrightarrow> k_prison k b = Some q \<longrightarrow> pr_id p = pr_id q \<longrightarrow> a = b)"

definition cred_inv :: "(ptr \<Rightarrow> int) \<Rightarrow> (ptr \<Rightarrow> int) \<Rightarrow> (ptr \<Rightarrow> int) \<Rightarrow> kern \<Rightarrow> bool" where
  "cred_inv X Y Z k \<longleftrightarrow>
     brk_inv k \<and> finite (dom (k_proc k)) \<and> finite (dom (k_thread k)) \<and> uihash_inv k \<and> prison_inv k \<and>
     (\<forall>a. 0 \<le> X a \<and> 0 \<le> Y a \<and> 0 \<le> Z a) \<and>
     balanced k_ui ui_ref (\<lambda>a. X a + ui_refs k a) k \<and>
     balanced k_cred cr_ref (\<lambda>c. Y c + cr_refs k c) k \<and>
     balanced k_prison pr_ref (\<lambda>a. Z a + pr_refs k a) k \<and>
     (\<forall>c cr. k_cred k c = Some cr \<longrightarrow> cred_ok k cr) \<and>
     (\<forall>c cr. k_cred k c = Some cr \<longrightarrow> 0 < cr_refs k c \<longrightarrow> cred_full cr)"

lemma cred_invI:
  assumes "brk_inv k" and "finite (dom (k_proc k))" and "finite (dom (k_thread k))"
    and "uihash_inv k" and "prison_inv k"
    and "\<And>a. 0 \<le> X a" and "\<And>a. 0 \<le> Y a" and "\<And>a. 0 \<le> Z a"
    and "balanced k_ui ui_ref (\<lambda>a. X a + ui_refs k a) k"
    and "balanced k_cred cr_ref (\<lambda>c. Y c + cr_refs k c) k"
    and "balanced k_prison pr_ref (\<lambda>a. Z a + pr_refs k a) k"
    and "\<And>c cr. k_cred k c = Some cr \<Longrightarrow> cred_ok k cr"
    and "\<And>c cr. k_cred k c = Some cr \<Longrightarrow> 0 < cr_refs k c \<Longrightarrow> cred_full cr"
  shows "cred_inv X Y Z k"
  unfolding cred_inv_def using assms by blast

lemma cred_invD:
  assumes "cred_inv X Y Z k"
  shows "brk_inv k" and "finite (dom (k_proc k))" and "finite (dom (k_thread k))"
    and "uihash_inv k" and "prison_inv k"
    and "0 \<le> X a" and "0 \<le> Y a" and "0 \<le> Z a"
    and "balanced k_ui ui_ref (\<lambda>a. X a + ui_refs k a) k"
    and "balanced k_cred cr_ref (\<lambda>c. Y c + cr_refs k c) k"
    and "balanced k_prison pr_ref (\<lambda>a. Z a + pr_refs k a) k"
    and "k_cred k c = Some cr \<Longrightarrow> cred_ok k cr"
    and "k_cred k c = Some cr \<Longrightarrow> 0 < cr_refs k c \<Longrightarrow> cred_full cr"
  using assms unfolding cred_inv_def by blast+

lemma ui_use_nonneg [simp]: "0 \<le> ui_use a cr" by (simp add: ui_use_def)
lemma pr_use_nonneg [simp]: "0 \<le> pr_use a cr" by (simp add: pr_use_def)
lemma ui_refs_nonneg [simp]: "0 \<le> ui_refs k a" by (simp add: ui_refs_def msum_nonneg)
lemma pr_refs_nonneg [simp]: "0 \<le> pr_refs k a" by (simp add: pr_refs_def msum_nonneg)
lemma cr_refs_nonneg [simp]: "0 \<le> cr_refs k c" by (simp add: cr_refs_def msum_nonneg)

lemma refs_frame:
  "k_cred k' = k_cred k \<Longrightarrow> ui_refs k' = ui_refs k"
  "k_cred k' = k_cred k \<Longrightarrow> pr_refs k' = pr_refs k"
  "k_proc k' = k_proc k \<Longrightarrow> k_thread k' = k_thread k \<Longrightarrow> cr_refs k' = cr_refs k"
  by (auto simp: ui_refs_def pr_refs_def cr_refs_def)

text \<open>What a reference, wherever it is held, guarantees.\<close>

lemma balanced_objs: "objs s' = objs s \<Longrightarrow> balanced objs ref X s' = balanced objs ref X s"
  by (simp add: balanced_def)

lemma uihash_inv_uihold: "uihash_inv k \<Longrightarrow> k_ui k a \<noteq> None \<Longrightarrow> uihash_inv (uihold a k)"
  by (auto simp: uihold_def intro!: uihash_inv_put)

lemma uihash_inv_uifree:
  assumes "uihash_inv k" and "k_ui k a = Some ui"
  shows "uihash_inv (uifree a k)"
proof (cases "ui_ref ui = 1")
  case True
  let ?k = "put_ui a (ui\<lparr>ui_ref := 0\<rparr>) k"
  have "uihash_inv ?k" by (rule uihash_inv_put [OF assms]) simp
  then have "uihash_inv (ui_unlink a ?k)" by (rule uihash_inv_unlink) simp
  then show ?thesis using True assms(2) by (simp add: uifree_def Let_def)
next
  case False
  then show ?thesis using assms by (auto simp: uifree_def Let_def intro!: uihash_inv_put)
qed

lemma brk_inv_uihold: "brk_inv k \<Longrightarrow> k_ui k a \<noteq> None \<Longrightarrow> brk_inv (uihold a k)"
  by (auto simp: brk_inv_def uihold_def)

lemma brk_inv_uifree: "brk_inv k \<Longrightarrow> k_ui k a \<noteq> None \<Longrightarrow> brk_inv (uifree a k)"
  by (auto simp: brk_inv_def uifree_def ui_unlink_def Let_def)

lemma ui_uid_uihold: "k_ui k a \<noteq> None \<Longrightarrow> k_ui (uihold a k) b = Some ui \<Longrightarrow> \<exists>ui'. k_ui k b = Some ui' \<and> ui_uid ui' = ui_uid ui"
  by (auto simp: uihold_def split: if_splits)

lemma ui_uid_uifree: "k_ui k a \<noteq> None \<Longrightarrow> k_ui (uifree a k) b = Some ui \<Longrightarrow> \<exists>ui'. k_ui k b = Some ui' \<and> ui_uid ui' = ui_uid ui"
  by (auto simp: uifree_def ui_unlink_def Let_def split: if_splits)

lemma cred_ok_mono:
  "cred_ok k cr \<Longrightarrow> (\<And>b ui. k_ui k' b = Some ui \<Longrightarrow> \<exists>ui'. k_ui k b = Some ui' \<and> ui_uid ui' = ui_uid ui) \<Longrightarrow> cred_ok k' cr"
  unfolding cred_ok_def by metis

lemma prison_inv_frame:
  "k_allprison k' = k_allprison k \<Longrightarrow> k_prison k' = k_prison k \<Longrightarrow> k_prisoncount k' = k_prisoncount k \<Longrightarrow> prison_inv k \<Longrightarrow> prison_inv k'"
  by (simp add: prison_inv_def)

lemma add_upd: "(\<lambda>b. (X(a := X a + d)) b + r b) = (\<lambda>b. X b + r b)(a := X a + r a + (d::int))" for X :: "ptr \<Rightarrow> int"
  by (auto simp: fun_eq_iff)

lemma cred_inv_uihold:
  assumes inv: "cred_inv X Y Z k" and ref: "0 < X a + ui_refs k a"
  shows "cred_inv (X(a := X a + 1)) Y Z (uihold a k)"
proof -
  have bal: "balanced k_ui ui_ref (\<lambda>a. X a + ui_refs k a) k" using inv by (simp add: cred_inv_def)
  obtain ui where ui: "k_ui k a = Some ui" using balancedD_live [OF bal, of a] ref by auto
  have "balanced k_ui ui_ref (\<lambda>b. (X(a := X a + 1)) b + ui_refs k b) (uihold a k)"
    unfolding add_upd by (rule ui.hold_balanced [OF bal, simplified]) (rule ref)
  then show ?thesis
    using inv ui uihash_inv_uihold [of k a] brk_inv_uihold [of k a]
      prison_inv_frame [of "uihold a k" k] cred_ok_mono [of k _ "uihold a k"] ui_uid_uihold [of k a]
    by (auto simp: cred_inv_def frame_simps refs_frame [of "uihold a k" k]
          balanced_objs [of k_cred "uihold a k" k] balanced_objs [of k_prison "uihold a k" k])
qed

lemma cred_inv_uifree:
  assumes inv: "cred_inv X Y Z k" and ref: "0 < X a"
  shows "cred_inv (X(a := X a - 1)) Y Z (uifree a k)"
proof -
  have bal: "balanced k_ui ui_ref (\<lambda>a. X a + ui_refs k a) k" using inv by (simp add: cred_inv_def)
  have ref': "0 < X a + ui_refs k a" using ref ui_refs_nonneg [of k a] by linarith
  obtain ui where ui: "k_ui k a = Some ui" using balancedD_live [OF bal, of a] ref' by auto
  have "balanced k_ui ui_ref (\<lambda>b. (X(a := X a - 1)) b + ui_refs k b) (uifree a k)"
    using ui.release_balanced [OF bal, of a] ref' add_upd [of X a "-1" "ui_refs k"] by simp
  then show ?thesis
    using inv ui ref uihash_inv_uifree [of k a] brk_inv_uifree [of k a]
      prison_inv_frame [of "uifree a k" k] cred_ok_mono [of k _ "uifree a k"] ui_uid_uifree [of k a]
    by (auto simp: cred_inv_def frame_simps refs_frame [of "uifree a k" k]
          balanced_objs [of k_cred "uifree a k" k] balanced_objs [of k_prison "uifree a k" k])
qed


lemma cred_inv_prison_hold:
  assumes inv: "cred_inv X Y Z k" and ref: "0 < Z a + pr_refs k a"
  shows "cred_inv X Y (Z(a := Z a + 1)) (prison_hold a k)"
proof -
  have bal: "balanced k_prison pr_ref (\<lambda>a. Z a + pr_refs k a) k" using inv by (simp add: cred_inv_def)
  obtain pr where pr: "k_prison k a = Some pr" using balancedD_live [OF bal, of a] ref by auto
  have "balanced k_prison pr_ref (\<lambda>b. (Z(a := Z a + 1)) b + pr_refs k b) (prison_hold a k)"
    unfolding add_upd by (rule pr.hold_balanced [OF bal, simplified]) (rule ref)
  moreover have "prison_inv (prison_hold a k)" "brk_inv (prison_hold a k)"
    using cred_invD(1,5) [OF inv] pr by (auto simp: prison_inv_def brk_inv_def prison_hold_def split: if_splits)
  moreover have "uihash_inv (prison_hold a k)"
    using cred_invD(4) [OF inv] by (simp add: uihash_inv_def UIHASH_def frame_simps)
  moreover have "cred_ok (prison_hold a k) cr = cred_ok k cr" for cr
    by (simp add: cred_ok_def frame_simps)
  ultimately show ?thesis
    using cred_invD [OF inv]
    by (intro cred_invI) (simp_all add: frame_simps refs_frame [of "prison_hold a k" k]
          balanced_objs [of k_cred "prison_hold a k" k] balanced_objs [of k_ui "prison_hold a k" k])
qed

lemma cred_inv_prison_free:
  assumes inv: "cred_inv X Y Z k" and ref: "0 < Z a"
  shows "cred_inv X Y (Z(a := Z a - 1)) (prison_free a k)"
proof -
  have bal: "balanced k_prison pr_ref (\<lambda>a. Z a + pr_refs k a) k" using inv by (simp add: cred_inv_def)
  have ref': "0 < Z a + pr_refs k a" using ref pr_refs_nonneg [of k a] by linarith
  obtain pr where pr: "k_prison k a = Some pr" using balancedD_live [OF bal, of a] ref' by auto
  have "balanced k_prison pr_ref (\<lambda>b. (Z(a := Z a - 1)) b + pr_refs k b) (prison_free a k)"
    using pr.release_balanced [OF bal, of a] ref' add_upd [of Z a "-1" "pr_refs k"] by simp
  moreover have "prison_inv (prison_free a k)"
  proof -
    have P: "prison_inv k" by (rule cred_invD(5) [OF inv])
    then have mem: "a \<in> set (k_allprison k)" using pr by (auto simp: prison_inv_def)
    then obtain n where "length (k_allprison k) = Suc n" by (cases "length (k_allprison k)") auto
    with mem have "int (length (remove1 a (k_allprison k))) = int (length (k_allprison k)) - 1"
      by (simp add: length_remove1)
    then show ?thesis using P pr
      by (auto simp: prison_inv_def prison_free_def Let_def split: if_splits)
  qed
  moreover have "brk_inv (prison_free a k)"
    using cred_invD(1) [OF inv] pr by (auto simp: brk_inv_def prison_free_def Let_def split: if_splits)
  moreover have "uihash_inv (prison_free a k)"
    using cred_invD(4) [OF inv] by (simp add: uihash_inv_def UIHASH_def frame_simps)
  moreover have "cred_ok (prison_free a k) cr = cred_ok k cr" for cr
    by (simp add: cred_ok_def frame_simps)
  ultimately show ?thesis
    using cred_invD [OF inv] ref
    by (intro cred_invI) (simp_all add: frame_simps refs_frame [of "prison_free a k" k]
          balanced_objs [of k_cred "prison_free a k" k] balanced_objs [of k_ui "prison_free a k" k])
qed

text \<open>Rewriting a cred moves references between it and the running code.\<close>

lemma cred_inv_put_cred:
  assumes inv: "cred_inv X Y Z k" and c: "k_cred k c = Some cr" and ref: "cr_ref cr' = cr_ref cr"
    and ok: "cred_ok k cr'" and full: "0 < cr_refs k c \<Longrightarrow> cred_full cr'"
    and X': "\<And>a. X' a = X a + ui_use a cr - ui_use a cr'" "\<And>a. 0 \<le> X' a"
    and Z': "\<And>a. Z' a = Z a + pr_use a cr - pr_use a cr'" "\<And>a. 0 \<le> Z' a"
  shows "cred_inv X' Y Z' (put_cred c cr' k)"
proof -
  let ?k = "put_cred c cr' k"
  have fin: "finite (dom (k_cred k))" by (rule brk_finite(2) [OF cred_invD(1) [OF inv]])
  have X: "X' a + ui_refs ?k a = X a + ui_refs k a" for a
    by (simp add: X'(1) ui_refs_def msum_upd [OF fin c])
  have Z: "Z' a + pr_refs ?k a = Z a + pr_refs k a" for a
    by (simp add: Z'(1) pr_refs_def msum_upd [OF fin c])
  have refs: "cr_refs ?k = cr_refs k" by (rule refs_frame) simp_all
  have "balanced k_cred cr_ref (\<lambda>c. Y c + cr_refs k c) ?k"
    using cred_invD(10) [OF inv] balancedD_some [OF cred_invD(10) [OF inv] c] ref by (simp add: balanced_def)
  moreover have "uihash_inv ?k" "brk_inv ?k" "prison_inv ?k"
    using cred_invD(1,4,5) [OF inv] c by (auto simp: uihash_inv_def UIHASH_def brk_inv_def prison_inv_def)
  moreover have "cred_ok ?k x = cred_ok k x" for x
    by (simp add: cred_ok_def)
  ultimately show ?thesis
  proof (intro cred_invI)
    show "balanced k_ui ui_ref (\<lambda>a. X' a + ui_refs ?k a) ?k"
      unfolding X using cred_invD(9) [OF inv] by (simp add: balanced_objs [of k_ui ?k k])
    show "balanced k_prison pr_ref (\<lambda>a. Z' a + pr_refs ?k a) ?k"
      unfolding Z using cred_invD(11) [OF inv] by (simp add: balanced_objs [of k_prison ?k k])
    fix d x assume d: "k_cred ?k d = Some x"
    show "cred_ok ?k x"
      using d ok cred_invD(12) [OF inv, of d x] by (auto simp: cred_ok_def split: if_splits)
    show "0 < cr_refs ?k d \<Longrightarrow> cred_full x"
      using d full cred_invD(13) [OF inv, of d x] by (auto simp: refs split: if_splits)
  qed (use cred_invD(2,3,7) [OF inv] X'(2) Z'(2) refs in simp_all)
qed

lemma cred_inv_crget:
  assumes inv: "cred_inv X Y Z k" and c: "crget k = (c, k')"
  shows "cred_inv X (Y(c := Y c + 1)) Z k'" and "k_cred k' c = Some (zero_cred\<lparr>cr_ref := 1\<rparr>)"
    and "cr_refs k' c = 0" and "Y c = 0"
proof -
  have k': "c = k_brk k" "k' = k\<lparr>k_brk := k_brk k + 1, k_cred := (k_cred k)(c \<mapsto> zero_cred\<lparr>cr_ref := 1\<rparr>)\<rparr>"
    using c by (auto simp: crget_def)
  have fin: "finite (dom (k_cred k))" and new: "k_cred k c = None"
    using brk_finite(2) brk_fresh(2) cred_invD(1) [OF inv] k'(1) by auto
  note bal = cred_invD(10) [OF inv]
  have "Y c + cr_refs k c = 0" using balancedD_none [OF bal new] .
  then have zero: "Y c = 0" "cr_refs k c = 0"
    using cred_invD(7) [OF inv, of c] cr_refs_nonneg [of k c] by linarith+
  have kc: "k_cred k' = (k_cred k)(c \<mapsto> zero_cred\<lparr>cr_ref := 1\<rparr>)" by (simp add: k')
  have fr: "k_ui k' = k_ui k" "k_uihash k' = k_uihash k" "k_uimask k' = k_uimask k" "k_prison k' = k_prison k"
    "k_allprison k' = k_allprison k" "k_prisoncount k' = k_prisoncount k" "k_proc k' = k_proc k"
    "k_thread k' = k_thread k" by (simp_all add: k')
  have refs: "cr_refs k' = cr_refs k" by (rule refs_frame) (simp_all add: fr)
  have use: "ui_refs k' = ui_refs k" "pr_refs k' = pr_refs k"
    by (rule ext, simp add: kc ui_refs_def pr_refs_def msum_new [OF fin new] ui_use_def pr_use_def zero_cred_def)+
  show "cred_inv X (Y(c := Y c + 1)) Z k'"
  proof (rule cred_invI)
    show "brk_inv k'"
      using cred_invD(1) [OF inv] by (auto simp: brk_inv_def k')
    show "uihash_inv k'" using cred_invD(4) [OF inv] by (simp add: uihash_inv_def UIHASH_def fr)
    show "prison_inv k'" using cred_invD(5) [OF inv] by (simp add: prison_inv_def fr)
    show "balanced k_cred cr_ref (\<lambda>d. (Y(c := Y c + 1)) d + cr_refs k' d) k'"
      using bal zero by (simp add: balanced_def kc refs)
    fix d x assume d: "k_cred k' d = Some x"
    have "cred_ok k (zero_cred\<lparr>cr_ref := 1\<rparr>)" by (simp add: cred_ok_def zero_cred_def NGROUPS_def)
    then show "cred_ok k' x"
      using d cred_invD(12) [OF inv, of d x] by (auto simp: cred_ok_def kc fr split: if_splits)
    show "0 < cr_refs k' d \<Longrightarrow> cred_full x"
      using d zero cred_invD(13) [OF inv, of d x] by (auto simp: refs kc split: if_splits)
  qed (use cred_invD [OF inv] in \<open>simp_all add: fr use balanced_objs [of k_ui k' k] balanced_objs [of k_prison k' k]\<close>)
  show "k_cred k' c = Some (zero_cred\<lparr>cr_ref := 1\<rparr>)" by (simp add: kc)
  show "cr_refs k' c = 0" using zero refs by simp
  show "Y c = 0" by (rule zero)
qed


lemma cred_inv_put_proc:
  assumes inv: "cred_inv X Y Z k" and p: "k_proc k p = Some pc"
    and Y': "\<And>c. Y' c = Y c + of_bool (p_ucred pc = c) - of_bool (p_ucred pc' = c)" "\<And>c. 0 \<le> Y' c"
    and full: "p_ucred pc' \<noteq> p_ucred pc \<Longrightarrow> \<forall>cr. k_cred k (p_ucred pc') = Some cr \<longrightarrow> cred_full cr"
  shows "cred_inv X Y' Z (put_proc p pc' k)"
proof -
  let ?k = "put_proc p pc' k"
  have refs: "cr_refs ?k c = cr_refs k c - of_bool (p_ucred pc = c) + of_bool (p_ucred pc' = c)" for c
    by (simp add: cr_refs_def msum_upd [OF cred_invD(2) [OF inv] p])
  have Y: "Y' c + cr_refs ?k c = Y c + cr_refs k c" for c by (simp add: Y'(1) refs)
  have use: "ui_refs ?k = ui_refs k" "pr_refs ?k = pr_refs k" by (rule refs_frame, simp)+
  show ?thesis
  proof (rule cred_invI)
    show "balanced k_cred cr_ref (\<lambda>c. Y' c + cr_refs ?k c) ?k"
      unfolding Y using cred_invD(10) [OF inv] by (simp add: balanced_objs [of k_cred ?k k])
    show "balanced k_ui ui_ref (\<lambda>a. X a + ui_refs ?k a) ?k"
      using cred_invD(9) [OF inv] by (simp add: use balanced_objs [of k_ui ?k k])
    show "balanced k_prison pr_ref (\<lambda>a. Z a + pr_refs ?k a) ?k"
      using cred_invD(11) [OF inv] by (simp add: use balanced_objs [of k_prison ?k k])
    fix d x assume d: "k_cred ?k d = Some x"
    show "cred_ok ?k x" using d cred_invD(12) [OF inv, of d x] by (simp add: cred_ok_def)
    assume "0 < cr_refs ?k d"
    then have "0 < cr_refs k d \<or> p_ucred pc' \<noteq> p_ucred pc \<and> p_ucred pc' = d"
      unfolding refs by (auto simp: of_bool_def split: if_splits)
    then show "cred_full x" using d full cred_invD(13) [OF inv, of d x] by auto
  next
    show "uihash_inv ?k" using cred_invD(4) [OF inv] by (simp add: uihash_inv_def UIHASH_def)
    show "prison_inv ?k" using cred_invD(5) [OF inv] by (simp add: prison_inv_def)
    show "brk_inv ?k" using cred_invD(1) [OF inv] by (simp add: brk_inv_def)
  qed (use cred_invD(2,3,6,8) [OF inv] Y'(2) in simp_all)
qed

lemma cred_inv_setsugid:
  assumes "cred_inv X Y Z k" and "k_proc k p = Some pc"
  shows "cred_inv X Y Z (setsugid p k)"
  unfolding setsugid_def Let_def using assms
  by (auto intro!: cred_inv_put_proc cred_invD(7))

lemma uifree_cred_upd: "uifree a (k\<lparr>k_cred := m\<rparr>) = (uifree a k)\<lparr>k_cred := m\<rparr>"
  by (simp add: uifree_def ui_unlink_def UIHASH_def Let_def)

lemma prison_free_cred_upd: "prison_free a (k\<lparr>k_cred := m\<rparr>) = (prison_free a k)\<lparr>k_cred := m\<rparr>"
  by (simp add: prison_free_def Let_def)

text \<open>Dropping the references a dead cred held; in terms of the state without the cred.\<close>

definition drop_ui :: "ptr option \<Rightarrow> kern \<Rightarrow> kern" where
  "drop_ui a k = (case a of None \<Rightarrow> k | Some a \<Rightarrow> uifree a k)"
definition drop_pr :: "ptr option \<Rightarrow> kern \<Rightarrow> kern" where
  "drop_pr a k = (case a of None \<Rightarrow> k | Some a \<Rightarrow> prison_free a k)"

lemma crfree_last:
  assumes "k_cred k c = Some cr" and "cr_ref cr = 1"
  shows "crfree c k = drop_pr (cr_prison cr) (drop_ui (cr_ruidinfo cr) (drop_ui (cr_uidinfo cr)
           (k\<lparr>k_cred := (k_cred k)(c := None)\<rparr>)))"
  using assms
  by (auto simp: crfree_def drop_ui_def drop_pr_def jailed_def Let_def uifree_cred_upd prison_free_cred_upd frame_simps
        split: option.split)

lemma crfree_more:
  assumes "k_cred k c = Some cr" and "cr_ref cr \<noteq> 1"
  shows "crfree c k = put_cred c (cr\<lparr>cr_ref := cr_ref cr - 1\<rparr>) k"
  using assms by (simp add: crfree_def Let_def)

lemma cred_inv_drop_ui:
  "cred_inv (\<lambda>b. X b + of_bool (a = Some b)) Y Z k \<Longrightarrow> (\<And>b. 0 \<le> X b) \<Longrightarrow> cred_inv X Y Z (drop_ui a k)"
proof (cases a)
  case (Some b)
  assume inv: "cred_inv (\<lambda>b. X b + of_bool (a = Some b)) Y Z k" and pos: "\<And>b. 0 \<le> X b"
  have "0 < X b + of_bool (a = Some b)" using pos [of b] Some by simp
  from cred_inv_uifree [OF inv this] have "cred_inv (\<lambda>b. X b + of_bool (a = Some b))
      Y Z k \<Longrightarrow> cred_inv ((\<lambda>b. X b + of_bool (a = Some b))(b := X b)) Y Z (uifree b k)"
    using Some by simp
  moreover have "(\<lambda>b. X b + of_bool (a = Some b))(b := X b) = X" using Some by (auto simp: fun_eq_iff)
  ultimately show ?thesis using inv Some by (simp add: drop_ui_def)
qed (simp add: drop_ui_def)

lemma cred_inv_drop_pr:
  "cred_inv X Y (\<lambda>b. Z b + of_bool (a = Some b)) k \<Longrightarrow> (\<And>b. 0 \<le> Z b) \<Longrightarrow> cred_inv X Y Z (drop_pr a k)"
proof (cases a)
  case (Some b)
  assume inv: "cred_inv X Y (\<lambda>b. Z b + of_bool (a = Some b)) k" and pos: "\<And>b. 0 \<le> Z b"
  have "0 < Z b + of_bool (a = Some b)" using pos [of b] Some by simp
  from cred_inv_prison_free [OF inv this]
  have "cred_inv X Y ((\<lambda>b. Z b + of_bool (a = Some b))(b := Z b)) (prison_free b k)" using Some by simp
  moreover have "(\<lambda>b. Z b + of_bool (a = Some b))(b := Z b) = Z" using Some by (auto simp: fun_eq_iff)
  ultimately show ?thesis using Some by (simp add: drop_pr_def)
qed (simp add: drop_pr_def)


lemma cred_inv_del_cred:
  assumes inv: "cred_inv X Y Z k" and c: "k_cred k c = Some cr" and one: "cr_ref cr = 1" and Y: "0 < Y c"
  shows "cred_inv (\<lambda>a. X a + ui_use a cr) (Y(c := Y c - 1)) (\<lambda>a. Z a + pr_use a cr)
           (k\<lparr>k_cred := (k_cred k)(c := None)\<rparr>)"
proof -
  let ?k = "k\<lparr>k_cred := (k_cred k)(c := None)\<rparr>"
  have fin: "finite (dom (k_cred k))" by (rule brk_finite(2) [OF cred_invD(1) [OF inv]])
  have cnt: "Y c + cr_refs k c = 1" using balancedD_some [OF cred_invD(10) [OF inv] c] one by simp
  then have zero: "Y c = 1" "cr_refs k c = 0" using Y cr_refs_nonneg [of k c] by linarith+
  have use: "ui_refs ?k a = ui_refs k a - ui_use a cr" "pr_refs ?k a = pr_refs k a - pr_use a cr" for a
    by (simp_all add: ui_refs_def pr_refs_def msum_del [OF fin c])
  have refs: "cr_refs ?k = cr_refs k" by (rule refs_frame) simp_all
  show ?thesis
  proof (rule cred_invI)
    show "balanced k_ui ui_ref (\<lambda>a. X a + ui_use a cr + ui_refs ?k a) ?k"
      using cred_invD(9) [OF inv] by (simp add: use balanced_objs [of k_ui ?k k])
    show "balanced k_prison pr_ref (\<lambda>a. Z a + pr_use a cr + pr_refs ?k a) ?k"
      using cred_invD(11) [OF inv] by (simp add: use balanced_objs [of k_prison ?k k])
    show "balanced k_cred cr_ref (\<lambda>d. (Y(c := Y c - 1)) d + cr_refs ?k d) ?k"
      using cred_invD(10) [OF inv] zero by (simp add: balanced_def refs)
    fix d x assume d: "k_cred ?k d = Some x"
    then have d': "k_cred k d = Some x" by (simp split: if_splits)
    show "cred_ok ?k x" using cred_invD(12) [OF inv d'] by (simp add: cred_ok_def)
    show "0 < cr_refs ?k d \<Longrightarrow> cred_full x" using cred_invD(13) [OF inv d'] by (simp add: refs)
  next
    show "uihash_inv ?k" using cred_invD(4) [OF inv] by (simp add: uihash_inv_def UIHASH_def)
    show "prison_inv ?k" using cred_invD(5) [OF inv] by (simp add: prison_inv_def)
    show "brk_inv ?k" using cred_invD(1) [OF inv] by (auto simp: brk_inv_def)
  qed (use cred_invD(2,3,6,7,8) [OF inv] zero in simp_all)
qed

lemma cred_inv_crfree:
  assumes inv: "cred_inv X Y Z k" and Y: "0 < Y c"
  shows "cred_inv X (Y(c := Y c - 1)) Z (crfree c k)"
proof -
  have "0 < Y c + cr_refs k c" using Y cr_refs_nonneg [of k c] by linarith
  then obtain cr where c: "k_cred k c = Some cr" "cr_ref cr = Y c + cr_refs k c"
    using balancedD_live [OF cred_invD(10) [OF inv], of c] by blast
  show ?thesis
  proof (cases "cr_ref cr = 1")
    case True
    show ?thesis
      unfolding crfree_last [OF c(1) True]
      by (intro cred_inv_drop_pr cred_inv_drop_ui)
         (use cred_inv_del_cred [OF inv c(1) True Y] cred_invD(6,8) [OF inv]
          in \<open>simp_all add: ui_use_def pr_use_def ac_simps\<close>)
  next
    case False
    let ?k = "crfree c k"
    have k': "?k = put_cred c (cr\<lparr>cr_ref := cr_ref cr - 1\<rparr>) k" by (rule crfree_more [OF c(1) False])
    have fin: "finite (dom (k_cred k))" by (rule brk_finite(2) [OF cred_invD(1) [OF inv]])
    have use: "ui_refs ?k = ui_refs k" "pr_refs ?k = pr_refs k"
      by (rule ext, simp add: k' ui_refs_def pr_refs_def msum_upd [OF fin c(1)] ui_use_def pr_use_def)+
    have refs: "cr_refs ?k = cr_refs k" by (rule refs_frame) (simp_all add: k')
    show ?thesis
    proof (rule cred_invI)
      show "balanced k_cred cr_ref (\<lambda>d. (Y(c := Y c - 1)) d + cr_refs ?k d) ?k"
        using cr.release_balanced [OF cred_invD(10) [OF inv], of c] Y \<open>0 < Y c + cr_refs k c\<close>
          add_upd [of Y c "-1" "cr_refs k"] by (simp add: refs)
      fix d x assume d: "k_cred ?k d = Some x"
      show "cred_ok ?k x" using d cred_invD(12) [OF inv, of d] cred_invD(12) [OF inv c(1)]
        by (auto simp: k' cred_ok_def split: if_splits)
      show "0 < cr_refs ?k d \<Longrightarrow> cred_full x"
        using d cred_invD(13) [OF inv, of d] cred_invD(13) [OF inv c(1)]
        by (auto simp: k' refs [unfolded k'] cred_full_def split: if_splits)
    next
      show "uihash_inv ?k" using cred_invD(4) [OF inv] by (simp add: uihash_inv_def UIHASH_def k')
      show "prison_inv ?k" using cred_invD(5) [OF inv] by (simp add: prison_inv_def k')
      show "brk_inv ?k" using cred_invD(1) [OF inv] c(1) by (auto simp: brk_inv_def k')
    qed (use cred_invD [OF inv] Y use in \<open>simp_all add: k' balanced_objs [of k_ui ?k k, unfolded k']
           balanced_objs [of k_prison ?k k, unfolded k']\<close>)
  qed
qed

lemma cred_inv_crhold:
  assumes inv: "cred_inv X Y Z k" and ref: "0 < Y c + cr_refs k c"
  shows "cred_inv X (Y(c := Y c + 1)) Z (crhold c k)"
proof -
  obtain cr where c: "k_cred k c = Some cr" "cr_ref cr = Y c + cr_refs k c"
    using balancedD_live [OF cred_invD(10) [OF inv], of c] ref by blast
  let ?k = "crhold c k"
  have k': "?k = put_cred c (cr\<lparr>cr_ref := cr_ref cr + 1\<rparr>) k" using c by (simp add: crhold_def)
  have fin: "finite (dom (k_cred k))" by (rule brk_finite(2) [OF cred_invD(1) [OF inv]])
  have use: "ui_refs ?k = ui_refs k" "pr_refs ?k = pr_refs k"
    by (rule ext, simp add: k' ui_refs_def pr_refs_def msum_upd [OF fin c(1)] ui_use_def pr_use_def)+
  have refs: "cr_refs ?k = cr_refs k" by (rule refs_frame) (simp_all add: k')
  show ?thesis
  proof (rule cred_invI)
    show "balanced k_cred cr_ref (\<lambda>d. (Y(c := Y c + 1)) d + cr_refs ?k d) ?k"
      unfolding refs add_upd by (rule cr.hold_balanced [OF cred_invD(10) [OF inv], simplified]) (rule ref)
    fix d x assume d: "k_cred ?k d = Some x"
    show "cred_ok ?k x" using d cred_invD(12) [OF inv, of d] cred_invD(12) [OF inv c(1)]
      by (auto simp: k' cred_ok_def split: if_splits)
    show "0 < cr_refs ?k d \<Longrightarrow> cred_full x"
      using d cred_invD(13) [OF inv, of d] cred_invD(13) [OF inv c(1)]
      by (auto simp: k' refs [unfolded k'] cred_full_def split: if_splits)
  next
    show "uihash_inv ?k" using cred_invD(4) [OF inv] by (simp add: uihash_inv_def UIHASH_def k')
    show "prison_inv ?k" using cred_invD(5) [OF inv] by (simp add: prison_inv_def k')
    show "brk_inv ?k" using cred_invD(1) [OF inv] c(1) by (auto simp: brk_inv_def k')
  qed (use cred_invD [OF inv] use in \<open>simp_all add: k' balanced_objs [of k_ui ?k k, unfolded k']
         balanced_objs [of k_prison ?k k, unfolded k']\<close>)
qed


lemma cred_inv_put_ui:
  assumes inv: "cred_inv X Y Z k" and a: "k_ui k a = Some u" and same: "ui_uid u' = ui_uid u" "ui_ref u' = ui_ref u"
  shows "cred_inv X Y Z (put_ui a u' k)"
proof -
  let ?k = "put_ui a u' k"
  have use: "ui_refs ?k = ui_refs k" "pr_refs ?k = pr_refs k" by (rule refs_frame, simp)+
  have refs: "cr_refs ?k = cr_refs k" by (rule refs_frame) simp_all
  show ?thesis
  proof (rule cred_invI)
    show "balanced k_ui ui_ref (\<lambda>a. X a + ui_refs ?k a) ?k"
      using cred_invD(9) [OF inv] balancedD_some [OF cred_invD(9) [OF inv] a] same(2)
      by (simp add: use balanced_def)
    show "uihash_inv ?k" by (rule uihash_inv_put [OF cred_invD(4) [OF inv] a same(1)])
    show "brk_inv ?k" using cred_invD(1) [OF inv] a by (auto simp: brk_inv_def)
    show "prison_inv ?k" using cred_invD(5) [OF inv] by (simp add: prison_inv_def)
    fix d x assume d: "k_cred ?k d = Some x"
    then show "cred_ok ?k x"
      using cred_invD(12) [OF inv, of d x] same(1) a by (auto simp: cred_ok_def)
    show "0 < cr_refs ?k d \<Longrightarrow> cred_full x" using d cred_invD(13) [OF inv, of d x] by (simp add: refs)
  qed (use cred_invD [OF inv] in \<open>simp_all add: use refs balanced_objs [of k_cred ?k k] balanced_objs [of k_prison ?k k]\<close>)
qed

lemma cred_inv_live_ui: "cred_inv X Y Z k \<Longrightarrow> 0 < X a + ui_refs k a \<Longrightarrow> \<exists>u. k_ui k a = Some u"
  using balancedD_live [OF cred_invD(9)] by blast

lemma cred_inv_ui_member:
  assumes "cred_inv X Y Z k" and "k_cred k c = Some cr" and "cr_uidinfo cr = Some a \<or> cr_ruidinfo cr = Some a"
  shows "0 < ui_refs k a"
proof -
  have "ui_use a cr \<le> ui_refs k a" unfolding ui_refs_def
    by (rule msum_member_le [where f = "ui_use a", OF brk_finite(2) [OF cred_invD(1) [OF assms(1)]] assms(2)]) simp
  then show ?thesis using assms(3) by (auto simp: ui_use_def of_bool_def split: if_splits)
qed

lemma cred_inv_pr_member:
  assumes "cred_inv X Y Z k" and "k_cred k c = Some cr" and "cr_prison cr = Some a"
  shows "0 < pr_refs k a"
proof -
  have "pr_use a cr \<le> pr_refs k a" unfolding pr_refs_def
    by (rule msum_member_le [where f = "pr_use a", OF brk_finite(2) [OF cred_invD(1) [OF assms(1)]] assms(2)]) simp
  then show ?thesis using assms(3) by (auto simp: pr_use_def)
qed

lemma cred_inv_proc_cred:
  assumes inv: "cred_inv X Y Z k" and p: "k_proc k p = Some pc"
  shows "\<exists>cr. k_cred k (p_ucred pc) = Some cr \<and> cred_full cr \<and> cred_ok k cr" and "0 < cr_refs k (p_ucred pc)"
proof -
  have "of_bool (p_ucred pc = p_ucred pc) \<le> msum (\<lambda>p. of_bool (p_ucred p = p_ucred pc)) (k_proc k)"
    by (rule msum_member_le [OF cred_invD(2) [OF inv] p]) simp
  moreover have "0 \<le> msum (\<lambda>t. of_bool (td_ucred t = Some (p_ucred pc))) (k_thread k)"
    by (rule msum_nonneg) simp
  ultimately show pos: "0 < cr_refs k (p_ucred pc)" by (simp add: cr_refs_def)
  then have "0 < Y (p_ucred pc) + cr_refs k (p_ucred pc)"
    using cred_invD(7) [OF inv, of "p_ucred pc"] by linarith
  then obtain cr where "k_cred k (p_ucred pc) = Some cr"
    using balancedD_live [OF cred_invD(10) [OF inv]] by blast
  then show "\<exists>cr. k_cred k (p_ucred pc) = Some cr \<and> cred_full cr \<and> cred_ok k cr"
    using cred_invD(12,13) [OF inv] pos by blast
qed

lemma cred_inv_brk:
  assumes e: "cred_inv X Y Z e"
  shows "cred_inv X Y Z (e\<lparr>k_brk := k_brk e + 1\<rparr>)"
proof -
  define n where "n = k_brk e + 1"
  let ?k = "e\<lparr>k_brk := n\<rparr>"
  have refs: "ui_refs ?k = ui_refs e" "pr_refs ?k = pr_refs e" "cr_refs ?k = cr_refs e"
    by (rule refs_frame; simp)+
  have "cred_inv X Y Z ?k"
  proof (rule cred_invI)
    show "brk_inv ?k" using cred_invD(1) [OF e] by (auto simp: brk_inv_def n_def)
    show "uihash_inv ?k" using cred_invD(4) [OF e] by (simp add: uihash_inv_def UIHASH_def)
    show "prison_inv ?k" using cred_invD(5) [OF e] by (simp add: prison_inv_def)
    show "balanced k_ui ui_ref (\<lambda>a. X a + ui_refs ?k a) ?k" "balanced k_cred cr_ref (\<lambda>c. Y c + cr_refs ?k c) ?k"
      "balanced k_prison pr_ref (\<lambda>a. Z a + pr_refs ?k a) ?k"
      using cred_invD(9,10,11) [OF e]
      by (simp_all add: refs balanced_objs [of k_ui ?k e] balanced_objs [of k_cred ?k e] balanced_objs [of k_prison ?k e])
    fix d x assume d: "k_cred ?k d = Some x"
    show "cred_ok ?k x" using d cred_invD(12) [OF e, of d x] by (simp add: cred_ok_def)
    show "0 < cr_refs ?k d \<Longrightarrow> cred_full x" using d cred_invD(13) [OF e, of d x] by (simp add: refs)
  qed (use cred_invD [OF e] in simp_all)
  then show ?thesis by (simp add: n_def)
qed

lemma cred_inv_new_ui:
  assumes inv: "cred_inv X Y Z k" and new: "k_ui k a = None" and lt: "a < k_brk k"
    and uniq: "uilookup k (ui_uid n) = None" and n: "ui_ref n = 1"
    and k': "k' = k\<lparr>k_ui := (k_ui k)(a \<mapsto> n),
         k_uihash := (k_uihash k)(UIHASH k (ui_uid n) := a # k_uihash k (UIHASH k (ui_uid n)))\<rparr>"
  shows "cred_inv (X(a := X a + 1)) Y Z k'"
proof -
  have "X a + ui_refs k a = 0" using balancedD_none [OF cred_invD(9) [OF inv] new] .
  then have zero: "X a = 0" "ui_refs k a = 0"
    using cred_invD(6) [OF inv, of a] ui_refs_nonneg [of k a] by linarith+
  have ku: "k_ui k' = (k_ui k)(a \<mapsto> n)" by (simp add: k')
  have fr: "k_brk k' = k_brk k" "k_cred k' = k_cred k" "k_prison k' = k_prison k" "k_allprison k' = k_allprison k"
    "k_prisoncount k' = k_prisoncount k" "k_proc k' = k_proc k" "k_thread k' = k_thread k"
    by (simp_all add: k')
  have refs: "ui_refs k' = ui_refs k" "pr_refs k' = pr_refs k" "cr_refs k' = cr_refs k"
    by (rule refs_frame; simp add: fr)+
  have no: "cr_uidinfo x \<noteq> Some a \<and> cr_ruidinfo x \<noteq> Some a" if "k_cred k d = Some x" for d x
    using cred_inv_ui_member [OF inv that, of a] zero by auto
  show ?thesis
  proof (rule cred_invI)
    show "uihash_inv k'" unfolding k'
      by (rule uihash_inv_insert [OF cred_invD(4) [OF inv] new])
         (use uniq uilookup_none [OF cred_invD(4) [OF inv]] in auto)
    show "brk_inv k'" using cred_invD(1) [OF inv] lt by (auto simp: brk_inv_def ku fr)
    show "prison_inv k'" using cred_invD(5) [OF inv] by (simp add: prison_inv_def fr)
    show "balanced k_ui ui_ref (\<lambda>b. (X(a := X a + 1)) b + ui_refs k' b) k'"
      using cred_invD(9) [OF inv] zero n by (simp add: refs balanced_def ku)
    fix d x assume d: "k_cred k' d = Some x"
    then have d': "k_cred k d = Some x" by (simp add: fr)
    show "cred_ok k' x" using cred_invD(12) [OF inv d'] no [OF d'] by (auto simp: cred_ok_def ku)
    show "0 < cr_refs k' d \<Longrightarrow> cred_full x" using cred_invD(13) [OF inv d'] by (simp add: refs)
  qed (use cred_invD [OF inv] in \<open>simp_all add: refs fr balanced_objs [of k_cred k' k] balanced_objs [of k_prison k' k]\<close>)
qed

lemma cred_inv_uifind:
  assumes inv: "cred_inv X Y Z k" and env: "uilookup k u = None \<Longrightarrow> cred_inv X Y Z (env k)"
    and r: "uifind env u k = (a, k')"
  shows "cred_inv (X(a := X a + 1)) Y Z k' \<and> (\<exists>ui. k_ui k' a = Some ui \<and> ui_uid ui = u)"
proof -
  have found: "cred_inv (X(a := X a + 1)) Y Z (uihold a h) \<and> (\<exists>ui. k_ui (uihold a h) a = Some ui \<and> ui_uid ui = u)"
    if h: "cred_inv X Y Z h" and l: "uilookup h u = Some a" for h
  proof -
    obtain ui where ui: "k_ui h a = Some ui" "ui_uid ui = u"
      using l uilookup_some [OF cred_invD(4) [OF h]] by blast
    then have "0 < X a + ui_refs h a" using balancedD_some [OF cred_invD(9) [OF h]] by blast
    then have "cred_inv (X(a := X a + 1)) Y Z (uihold a h)" by (rule cred_inv_uihold [OF h])
    moreover have "\<exists>ui. k_ui (uihold a h) a = Some ui \<and> ui_uid ui = u" using ui by (simp add: uihold_def)
    ultimately show ?thesis ..
  qed
  show ?thesis
  proof (cases "uilookup k u")
    case (Some b)
    then show ?thesis using r found [OF inv] by (auto simp: uifind_def)
  next
    case None
    define k2 where "k2 = (env k)\<lparr>k_brk := k_brk (env k) + 1\<rparr>"
    have k2: "cred_inv X Y Z k2" unfolding k2_def by (rule cred_inv_brk [OF env [OF None]])
    show ?thesis
    proof (cases "uilookup k2 u")
      case (Some b)
      then show ?thesis using r None found [OF k2] by (auto simp: uifind_def Let_def k2_def)
    next
      case none2: None
      define n where "n = \<lparr>ui_sbsize = 0, ui_proccnt = 0, ui_uid = u, ui_ref = 1\<rparr>"
      have a: "a = k_brk (env k)" using r None none2 by (auto simp: uifind_def Let_def k2_def)
      have k': "k' = k2\<lparr>k_ui := (k_ui k2)(a \<mapsto> n),
           k_uihash := (k_uihash k2)(UIHASH k2 (ui_uid n) := a # k_uihash k2 (UIHASH k2 (ui_uid n)))\<rparr>"
        using r None none2 by (auto simp: uifind_def Let_def uihold_def UIHASH_def n_def k2_def)
      have "k_ui k2 a = None" using brk_fresh(1) [OF cred_invD(1) [OF env [OF None]]] a by (simp add: k2_def)
      moreover have "a < k_brk k2" using a by (simp add: k2_def)
      ultimately have "cred_inv (X(a := X a + 1)) Y Z k'"
        by (rule cred_inv_new_ui [OF k2 _ _ _ _ k']) (use none2 in \<open>simp_all add: n_def\<close>)
      then show ?thesis by (simp add: k' n_def)
    qed
  qed
qed

lemma uifind_frame [frame_simps]:
  assumes "uifind id u k = (a, k')"
  shows "k_cred k' = k_cred k" "k_proc k' = k_proc k" "k_thread k' = k_thread k"
  using assms by (auto simp: uifind_def Let_def frame_simps split: option.splits)

end
