(* ===== verification/Kern_Cred_Edit.thy ===== *)
theory Kern_Cred_Edit
  imports Kern_Cred_Inv
begin

text \<open>
  Editing a fresh cred: every call that changes a process's ids takes a new cred with crget,
  fills it with crcopy, applies the change_* setters and installs it. \<open>editing\<close> is the
  predicate that holds between those steps; one rule per setter keeps it.
\<close>

text \<open>A cred being edited: allocated for the running code and not yet installed anywhere.\<close>

definition editing :: "ptr \<Rightarrow> ucred \<Rightarrow> (ptr \<Rightarrow> int) \<Rightarrow> (ptr \<Rightarrow> int) \<Rightarrow> (ptr \<Rightarrow> int) \<Rightarrow> kern \<Rightarrow> bool" where
  "editing n cr X Y Z k \<longleftrightarrow> cred_inv X Y Z k \<and> k_cred k n = Some cr \<and> cr_refs k n = 0 \<and> cred_full cr"

lemma editing_ok: "editing n cr X Y Z k \<Longrightarrow> cred_ok k cr"
  unfolding editing_def using cred_invD(12) by blast

text \<open>Rewriting plain fields of the edited cred.\<close>

lemma editing_put:
  assumes e: "editing n cr X Y Z k" and ok: "cred_ok k cr'" and full: "cred_full cr'"
    and same: "cr_ref cr' = cr_ref cr" "cr_uidinfo cr' = cr_uidinfo cr" "cr_ruidinfo cr' = cr_ruidinfo cr" "cr_prison cr' = cr_prison cr"
  shows "editing n cr' X Y Z (put_cred n cr' k)"
proof -
  have inv: "cred_inv X Y Z k" and n: "k_cred k n = Some cr" and z: "cr_refs k n = 0"
    using e by (simp_all add: editing_def)
  have "cred_inv X Y Z (put_cred n cr' k)"
    by (rule cred_inv_put_cred [OF inv n same(1) ok full])
       (use same cred_invD(6,8) [OF inv] in \<open>simp_all add: ui_use_def pr_use_def\<close>)
  moreover have "cr_refs (put_cred n cr' k) = cr_refs k" by (rule refs_frame) simp_all
  ultimately show ?thesis using full z by (simp add: editing_def)
qed

lemma editing_change_svuid:
  "editing n cr X Y Z k \<Longrightarrow> editing n (cr\<lparr>cr_svuid := u\<rparr>) X Y Z (change_svuid n u k)"
  using editing_put [of n cr X Y Z k "cr\<lparr>cr_svuid := u\<rparr>"] editing_ok [of n cr X Y Z k]
  by (simp add: change_svuid_def editing_def cred_ok_def cred_full_def)

lemma editing_change_svgid:
  "editing n cr X Y Z k \<Longrightarrow> editing n (cr\<lparr>cr_svgid := u\<rparr>) X Y Z (change_svgid n u k)"
  using editing_put [of n cr X Y Z k "cr\<lparr>cr_svgid := u\<rparr>"] editing_ok [of n cr X Y Z k]
  by (simp add: change_svgid_def editing_def cred_ok_def cred_full_def)

lemma editing_change_rgid:
  "editing n cr X Y Z k \<Longrightarrow> editing n (cr\<lparr>cr_rgid := u\<rparr>) X Y Z (change_rgid n u k)"
  using editing_put [of n cr X Y Z k "cr\<lparr>cr_rgid := u\<rparr>"] editing_ok [of n cr X Y Z k]
  by (simp add: change_rgid_def editing_def cred_ok_def cred_full_def)

lemma editing_change_egid:
  "editing n cr X Y Z k \<Longrightarrow> editing n (cr\<lparr>cr_groups := (cr_groups cr)[0 := g]\<rparr>) X Y Z (change_egid n g k)"
  using editing_put [of n cr X Y Z k "cr\<lparr>cr_groups := (cr_groups cr)[0 := g]\<rparr>"] editing_ok [of n cr X Y Z k]
  by (simp add: change_egid_def editing_def cred_ok_def cred_full_def)

lemma uihold_cred_upd: "uihold a (k\<lparr>k_cred := m\<rparr>) = (uihold a k)\<lparr>k_cred := m\<rparr>"
  by (simp add: uihold_def)
lemma prison_hold_cred_upd: "prison_hold a (k\<lparr>k_cred := m\<rparr>) = (prison_hold a k)\<lparr>k_cred := m\<rparr>"
  by (simp add: prison_hold_def)

lemma change_euid_eq:
  assumes "k_cred k n = Some cr" and "k_ui k e = Some ui" and "cr_uidinfo cr = Some old"
  shows "change_euid n e k = uifree old (put_cred n (cr\<lparr>cr_uid := ui_uid ui, cr_uidinfo := Some e\<rparr>) (uihold e k))"
  using assms by (simp add: change_euid_def Let_def uihold_cred_upd uifree_cred_upd frame_simps)

lemma editing_change_euid:
  assumes e: "editing n cr X Y Z k" and X: "0 < X a" and u: "k_ui k a = Some ui"
  shows "editing n (cr\<lparr>cr_uid := ui_uid ui, cr_uidinfo := Some a\<rparr>) X Y Z (change_euid n a k)"
proof -
  let ?cr = "cr\<lparr>cr_uid := ui_uid ui, cr_uidinfo := Some a\<rparr>"
  have inv: "cred_inv X Y Z k" and n: "k_cred k n = Some cr" and z: "cr_refs k n = 0" and full: "cred_full cr"
    using e by (simp_all add: editing_def)
  obtain old where old: "cr_uidinfo cr = Some old" using full by (auto simp: cred_full_def)
  let ?k1 = "uihold a k" and ?X1 = "X(a := X a + 1)"
  have k1: "cred_inv ?X1 Y Z ?k1"
    by (rule cred_inv_uihold [OF inv]) (use X ui_refs_nonneg [of k a] in linarith)
  have refs1: "cr_refs ?k1 = cr_refs k" by (rule refs_frame) (simp_all add: frame_simps)
  have ok: "cred_ok ?k1 ?cr"
    using cred_invD(12) [OF k1, of n cr] n u by (auto simp: frame_simps cred_ok_def uihold_def)
  let ?k2 = "put_cred n ?cr ?k1" and ?X2 = "X(old := X old + 1)"
  have k2: "cred_inv ?X2 Y Z ?k2"
    by (rule cred_inv_put_cred [OF k1 _ _ ok])
       (use n full old cred_invD(6,8) [OF inv] in \<open>auto simp: frame_simps cred_full_def ui_use_def pr_use_def add_nonneg_nonneg\<close>)
  have "cred_inv (?X2(old := ?X2 old - 1)) Y Z (uifree old ?k2)"
    by (rule cred_inv_uifree [OF k2]) (use cred_invD(6) [OF inv, of old] in simp)
  then have "cred_inv X Y Z (change_euid n a k)"
    by (simp add: change_euid_eq [OF n u old])
  moreover have "cr_refs (change_euid n a k) = cr_refs k"
    by (rule refs_frame) (simp_all add: change_euid_eq [OF n u old] frame_simps)
  ultimately show ?thesis using z full
    by (simp add: editing_def change_euid_eq [OF n u old] frame_simps cred_full_def)
qed

lemma chgproccnt_nolimit: "snd (chgproccnt a d 0 k) = put_ui a ((the_ui k a)\<lparr>ui_proccnt := ui_proccnt (the_ui k a) + d\<rparr>) k"
  by (simp add: chgproccnt_def Let_def)

lemma editing_chgproccnt:
  assumes e: "editing n cr X Y Z k" and u: "k_ui k a = Some ui"
  shows "editing n cr X Y Z (snd (chgproccnt a d 0 k))"
proof -
  have inv: "cred_inv X Y Z k" using e by (simp add: editing_def)
  have "cred_inv X Y Z (snd (chgproccnt a d 0 k))"
    unfolding chgproccnt_nolimit by (rule cred_inv_put_ui [OF inv u]) (simp_all add: u)
  moreover have "cr_refs (snd (chgproccnt a d 0 k)) = cr_refs k"
    unfolding chgproccnt_nolimit by (rule refs_frame) simp_all
  ultimately show ?thesis using e by (simp add: editing_def chgproccnt_nolimit)
qed

lemma editing_ui_live:
  assumes e: "editing n cr X Y Z k" and a: "cr_uidinfo cr = Some a \<or> cr_ruidinfo cr = Some a"
  shows "\<exists>ui. k_ui k a = Some ui"
proof -
  have inv: "cred_inv X Y Z k" and n: "k_cred k n = Some cr" using e by (simp_all add: editing_def)
  have "0 < X a + ui_refs k a" using cred_inv_ui_member [OF inv n a] cred_invD(6) [OF inv, of a] by linarith
  then show ?thesis by (rule cred_inv_live_ui [OF inv])
qed

lemma change_ruid_eq:
  assumes "k_cred k n = Some cr" and "cr_ruidinfo cr = Some old" and "k0 = snd (chgproccnt old (-1) 0 k)"
    and "k_ui k0 r = Some ui"
  shows "change_ruid n r k = snd (chgproccnt r 1 0
           (uifree old (put_cred n (cr\<lparr>cr_ruid := ui_uid ui, cr_ruidinfo := Some r\<rparr>) (uihold r k0))))"
proof -
  have "k_cred k0 = k_cred k" unfolding assms(3) chgproccnt_nolimit by simp
  then show ?thesis
    using assms by (simp add: change_ruid_def Let_def uihold_cred_upd uifree_cred_upd frame_simps)
qed

lemma editing_change_ruid:
  assumes e: "editing n cr X Y Z k" and X: "0 < X a" and u: "k_ui k a = Some ui"
  shows "editing n (cr\<lparr>cr_ruid := ui_uid ui, cr_ruidinfo := Some a\<rparr>) X Y Z (change_ruid n a k)"
proof -
  let ?cr = "cr\<lparr>cr_ruid := ui_uid ui, cr_ruidinfo := Some a\<rparr>"
  have "cred_full cr" using e by (simp add: editing_def)
  then obtain old where old: "cr_ruidinfo cr = Some old" by (auto simp: cred_full_def)
  obtain uo where uo: "k_ui k old = Some uo" using editing_ui_live [OF e] old by blast
  define k0 where "k0 = snd (chgproccnt old (-1) 0 k)"
  have e0: "editing n cr X Y Z k0" unfolding k0_def by (rule editing_chgproccnt [OF e uo])
  obtain u0 where u0: "k_ui k0 a = Some u0" "ui_uid u0 = ui_uid ui"
    using u uo unfolding k0_def chgproccnt_nolimit by (cases "a = old") auto
  have n: "k_cred k n = Some cr" using e by (simp add: editing_def)
  have inv: "cred_inv X Y Z k0" and n0: "k_cred k0 n = Some cr" and z: "cr_refs k0 n = 0" and full: "cred_full cr"
    using e0 by (simp_all add: editing_def)
  let ?k1 = "uihold a k0" and ?X1 = "X(a := X a + 1)"
  have k1: "cred_inv ?X1 Y Z ?k1"
    by (rule cred_inv_uihold [OF inv]) (use X ui_refs_nonneg [of k0 a] in linarith)
  have refs1: "cr_refs ?k1 = cr_refs k0" by (rule refs_frame) (simp_all add: frame_simps)
  have ok: "cred_ok ?k1 ?cr"
    using cred_invD(12) [OF k1, of n cr] n0 u0 by (auto simp: frame_simps cred_ok_def uihold_def)
  let ?k2 = "put_cred n ?cr ?k1" and ?X2 = "X(old := X old + 1)"
  have k2: "cred_inv ?X2 Y Z ?k2"
    by (rule cred_inv_put_cred [OF k1 _ _ ok])
       (use n0 full old cred_invD(6,8) [OF inv] in \<open>auto simp: frame_simps cred_full_def ui_use_def pr_use_def add_nonneg_nonneg\<close>)
  let ?k3 = "uifree old ?k2"
  have "cred_inv (?X2(old := ?X2 old - 1)) Y Z ?k3"
    by (rule cred_inv_uifree [OF k2]) (use cred_invD(6) [OF inv, of old] in simp)
  then have k3: "cred_inv X Y Z ?k3" by simp
  have "cr_refs ?k3 = cr_refs k0" by (rule refs_frame) (simp_all add: frame_simps)
  then have e3: "editing n ?cr X Y Z ?k3" using k3 z full by (simp add: editing_def frame_simps cred_full_def)
  obtain u3 where "k_ui ?k3 a = Some u3" using editing_ui_live [OF e3] by auto
  then have "editing n ?cr X Y Z (snd (chgproccnt a 1 0 ?k3))" by (rule editing_chgproccnt [OF e3])
  then show ?thesis
    using change_ruid_eq [OF n old k0_def u0(1)] by (simp add: u0(2))
qed


lemma crcopy_eq:
  assumes "k_cred k src = Some s" and "k_cred k dest = Some d" and "cr_ref d = 1"
    and "cr_uidinfo s = Some u" and "cr_ruidinfo s = Some r"
  shows "crcopy dest src k = put_cred dest (s\<lparr>cr_ref := 1\<rparr>)
           (let k2 = uihold r (uihold u k) in case cr_prison s of None \<Rightarrow> k2 | Some a \<Rightarrow> prison_hold a k2)"
  using assms
  by (simp add: crcopy_def Let_def jailed_def uihold_cred_upd prison_hold_cred_upd frame_simps split: option.split)

lemma editing_crcopy:
  assumes inv: "cred_inv X Y Z k" and s: "k_cred k src = Some s" and full: "cred_full s"
    and d: "k_cred k n = Some (zero_cred\<lparr>cr_ref := 1\<rparr>)" and z: "cr_refs k n = 0" and ne: "n \<noteq> src"
  shows "editing n (s\<lparr>cr_ref := 1\<rparr>) X Y Z (crcopy n src k)"
proof -
  obtain u r where u: "cr_uidinfo s = Some u" and r: "cr_ruidinfo s = Some r"
    using full by (auto simp: cred_full_def)
  let ?X1 = "X(u := X u + 1)" and ?k1 = "uihold u k"
  have k1: "cred_inv ?X1 Y Z ?k1"
    by (rule cred_inv_uihold [OF inv])
       (use cred_inv_ui_member [OF inv s, of u] u cred_invD(6) [OF inv, of u] in linarith)
  have s1: "k_cred ?k1 src = Some s" by (simp add: frame_simps s)
  let ?X2 = "?X1(r := ?X1 r + 1)" and ?k2 = "uihold r ?k1"
  have k2: "cred_inv ?X2 Y Z ?k2"
    by (rule cred_inv_uihold [OF k1])
       (use cred_inv_ui_member [OF k1 s1, of r] r cred_invD(6) [OF k1, of r] in linarith)
  have s2: "k_cred ?k2 src = Some s" by (simp add: frame_simps s)
  let ?k3 = "case cr_prison s of None \<Rightarrow> ?k2 | Some a \<Rightarrow> prison_hold a ?k2"
  let ?Z3 = "\<lambda>a. Z a + of_bool (cr_prison s = Some a)"
  have k3: "cred_inv ?X2 Y ?Z3 ?k3"
  proof (cases "cr_prison s")
    case None
    then show ?thesis using k2 by simp
  next
    case (Some a)
    have "0 < Z a + pr_refs ?k2 a"
      using cred_inv_pr_member [OF k2 s2 Some] cred_invD(8) [OF k2, of a] by linarith
    from cred_inv_prison_hold [OF k2 this]
    have "cred_inv ?X2 Y (Z(a := Z a + 1)) (prison_hold a ?k2)" .
    moreover have "Z(a := Z a + 1) = ?Z3" using Some by (auto simp: fun_eq_iff)
    ultimately show ?thesis using Some by simp
  qed
  have kc: "k_cred ?k3 = k_cred k" "k_proc ?k3 = k_proc k" "k_thread ?k3 = k_thread k"
    by (simp_all add: frame_simps split: option.split)
  let ?cr = "s\<lparr>cr_ref := 1\<rparr>"
  have ok: "cred_ok ?k3 ?cr"
    using cred_invD(12) [OF k3, of src s] s by (simp add: kc cred_ok_def)
  have refs: "cr_refs ?k3 = cr_refs k" by (rule refs_frame) (simp_all add: kc)
  have "cred_inv X Y Z (put_cred n ?cr ?k3)"
    by (rule cred_inv_put_cred [OF k3 _ _ ok])
       (use d u r refs full z cred_invD(6,8) [OF inv]
         in \<open>auto simp: kc ui_use_def pr_use_def zero_cred_def cred_full_def\<close>)
  moreover have "cr_refs (put_cred n ?cr ?k3) = cr_refs ?k3" by (rule refs_frame) simp_all
  ultimately show ?thesis
    using z full by (simp add: refs) (simp add: editing_def crcopy_eq [OF s d _ u r] Let_def cred_full_def)
qed

lemma crcopy_frame [frame_simps]:
  "k_proc (crcopy n src k) = k_proc k" "k_thread (crcopy n src k) = k_thread k"
  by (simp_all add: crcopy_def Let_def frame_simps)

lemma crcopy_other: "c \<noteq> n \<Longrightarrow> k_cred (crcopy n src k) c = k_cred k c"
  by (simp add: crcopy_def Let_def frame_simps)

lemma change_frame [frame_simps]:
  "k_proc (change_euid n a k) = k_proc k" "k_thread (change_euid n a k) = k_thread k"
  "k_proc (change_ruid n a k) = k_proc k" "k_thread (change_ruid n a k) = k_thread k"
  "k_proc (change_svuid n u k) = k_proc k" "k_thread (change_svuid n u k) = k_thread k"
  "k_proc (change_egid n g k) = k_proc k" "k_thread (change_egid n g k) = k_thread k"
  "k_proc (change_rgid n g k) = k_proc k" "k_thread (change_rgid n g k) = k_thread k"
  "k_proc (change_svgid n g k) = k_proc k" "k_thread (change_svgid n g k) = k_thread k"
  by (simp_all add: change_euid_def change_ruid_def change_svuid_def change_egid_def change_rgid_def
      change_svgid_def Let_def frame_simps chgproccnt_nolimit)

text \<open>Installing the edited cred in a process; the old one is now held by the running code.\<close>

lemma cred_inv_install:
  assumes e: "editing n cr X Y Z k" and p: "k_proc k p = Some pc" and Y: "0 < Y n"
  shows "cred_inv X (\<lambda>c. Y c - of_bool (n = c) + of_bool (p_ucred pc = c)) Z (put_proc p (pc\<lparr>p_ucred := n\<rparr>) k)"
proof -
  have inv: "cred_inv X Y Z k" and n: "k_cred k n = Some cr" and full: "cred_full cr"
    using e by (simp_all add: editing_def)
  show ?thesis
    by (rule cred_inv_put_proc [OF inv p])
       (use n full Y cred_invD(7) [OF inv] in \<open>auto simp: of_bool_def\<close>)
qed

end
