(* ===== verification/Kern_Prot_Ids.thy ===== *)
theory Kern_Prot_Ids
  imports Kern_Cred_Edit
begin

text \<open>
  The system calls of kern/kern_prot.c that change the ids of the calling process: setuid,
  seteuid, setgid, setegid, setgroups, setreuid, setregid, setresuid and setresgid. Each takes
  the calling thread and returns the error and the new kernel state. \<open>_POSIX_SAVED_IDS\<close> is
  undefined (sys/unistd.h) and \<open>POSIX_APPENDIX_B_4_2_2\<close> is defined, as in the build.
\<close>

text \<open>(uid_t)-1 and (gid_t)-1\<close>

abbreviation NOID :: u32 where "NOID \<equiv> - 1"

definition setuid :: "ptr \<Rightarrow> uid \<Rightarrow> kern \<Rightarrow> err \<times> kern" where
  "setuid td uid k0 =
     (let p = td_proc (the_thread k0 td);
          (newcred, k1) = crget k0;
          (uip, k2) = uifind id uid k1;
          oldcred = p_ucred (the_proc k2 p);
          old = the_cred k2 oldcred;
          error = suser_cred k2 old PRISON_ROOT
      in if uid \<noteq> cr_ruid old \<and> uid \<noteq> cr_uid old \<and> error \<noteq> None
         then (error, crfree newcred (uifree uip k2))
         else
           let k3 = crcopy newcred oldcred k2;
               k4 = (if uid \<noteq> cr_ruid old then setsugid p (change_ruid newcred uip k3) else k3);
               k5 = (if uid \<noteq> cr_svuid old then setsugid p (change_svuid newcred uid k4) else k4);
               k6 = (if uid \<noteq> cr_uid old then setsugid p (change_euid newcred uip k5) else k5);
               k7 = put_proc p ((the_proc k6 p)\<lparr>p_ucred := newcred\<rparr>) k6
           in (None, crfree oldcred (uifree uip k7)))"

definition seteuid :: "ptr \<Rightarrow> uid \<Rightarrow> kern \<Rightarrow> err \<times> kern" where
  "seteuid td euid k0 =
     (let p = td_proc (the_thread k0 td);
          (newcred, k1) = crget k0;
          (euip, k2) = uifind id euid k1;
          oldcred = p_ucred (the_proc k2 p);
          old = the_cred k2 oldcred;
          error = suser_cred k2 old PRISON_ROOT
      in if euid \<noteq> cr_ruid old \<and> euid \<noteq> cr_svuid old \<and> error \<noteq> None
         then (error, crfree newcred (uifree euip k2))
         else
           let k3 = crcopy newcred oldcred k2;
               k4 = (if cr_uid old \<noteq> euid then setsugid p (change_euid newcred euip k3) else k3);
               k5 = put_proc p ((the_proc k4 p)\<lparr>p_ucred := newcred\<rparr>) k4
           in (None, crfree oldcred (uifree euip k5)))"

definition setgid :: "ptr \<Rightarrow> gid \<Rightarrow> kern \<Rightarrow> err \<times> kern" where
  "setgid td gid k0 =
     (let p = td_proc (the_thread k0 td);
          (newcred, k1) = crget k0;
          oldcred = p_ucred (the_proc k1 p);
          old = the_cred k1 oldcred;
          error = suser_cred k1 old PRISON_ROOT
      in if gid \<noteq> cr_rgid old \<and> gid \<noteq> cr_groups old ! 0 \<and> error \<noteq> None
         then (error, crfree newcred k1)
         else
           let k2 = crcopy newcred oldcred k1;
               k3 = (if cr_rgid old \<noteq> gid then setsugid p (change_rgid newcred gid k2) else k2);
               k4 = (if cr_svgid old \<noteq> gid then setsugid p (change_svgid newcred gid k3) else k3);
               k5 = (if cr_groups old ! 0 \<noteq> gid then setsugid p (change_egid newcred gid k4) else k4);
               k6 = put_proc p ((the_proc k5 p)\<lparr>p_ucred := newcred\<rparr>) k5
           in (None, crfree oldcred k6))"

definition setegid :: "ptr \<Rightarrow> gid \<Rightarrow> kern \<Rightarrow> err \<times> kern" where
  "setegid td egid k0 =
     (let p = td_proc (the_thread k0 td);
          (newcred, k1) = crget k0;
          oldcred = p_ucred (the_proc k1 p);
          old = the_cred k1 oldcred;
          error = suser_cred k1 old PRISON_ROOT
      in if egid \<noteq> cr_rgid old \<and> egid \<noteq> cr_svgid old \<and> error \<noteq> None
         then (error, crfree newcred k1)
         else
           let k2 = crcopy newcred oldcred k1;
               k3 = (if cr_groups old ! 0 \<noteq> egid then setsugid p (change_egid newcred egid k2) else k2);
               k4 = put_proc p ((the_proc k3 p)\<lparr>p_ucred := newcred\<rparr>) k3
           in (None, crfree oldcred k4))"

text \<open>
  \<open>setgroups\<close>: \<open>copyin\<close> is the outcome of reading gidsetsize group ids from user space, the
  error or the list (of length gidsetsize).
\<close>

definition setgroups :: "ptr \<Rightarrow> nat \<Rightarrow> errno + gid list \<Rightarrow> kern \<Rightarrow> err \<times> kern" where
  "setgroups td ngrp copyin k0 =
     (let p = td_proc (the_thread k0 td) in
      if ngrp > NGROUPS then (Some EINVAL, k0)
      else
        let (tempcred, k1) = crget k0 in
        (case copyin of
           Inl e \<Rightarrow> (Some e, crfree tempcred k1)
         | Inr gids \<Rightarrow>
             let temp = the_cred k1 tempcred;
                 k2 = put_cred tempcred (temp\<lparr>cr_groups := gids @ drop ngrp (cr_groups temp)\<rparr>) k1;
                 (newcred, k3) = crget k2;
                 oldcred = p_ucred (the_proc k3 p);
                 error = suser_cred k3 (the_cred k3 oldcred) PRISON_ROOT
             in if error \<noteq> None
                then (error, crfree tempcred (crfree newcred k3))
                else
                  let k4 = crcopy newcred oldcred k3;
                      new = the_cred k4 newcred;
                      k5 = (if ngrp < 1
                            then put_cred newcred (new\<lparr>cr_ngroups := 1\<rparr>) k4
                            else put_cred newcred (new\<lparr>cr_groups := take ngrp (cr_groups (the_cred k4 tempcred))
                                                        @ drop ngrp (cr_groups new),
                                               cr_ngroups := ngrp\<rparr>) k4);
                      k6 = setsugid p k5;
                      k7 = put_proc p ((the_proc k6 p)\<lparr>p_ucred := newcred\<rparr>) k6
                  in (None, crfree oldcred (crfree tempcred k7))))"

definition setreuid :: "ptr \<Rightarrow> uid \<Rightarrow> uid \<Rightarrow> kern \<Rightarrow> err \<times> kern" where
  "setreuid td ruid euid k0 =
     (let p = td_proc (the_thread k0 td);
          (newcred, k1) = crget k0;
          (euip, k2) = uifind id euid k1;
          (ruip, k3) = uifind id ruid k2;
          oldcred = p_ucred (the_proc k3 p);
          old = the_cred k3 oldcred;
          error = suser_cred k3 old PRISON_ROOT
      in if ((ruid \<noteq> NOID \<and> ruid \<noteq> cr_ruid old \<and> ruid \<noteq> cr_svuid old) \<or>
             (euid \<noteq> NOID \<and> euid \<noteq> cr_uid old \<and> euid \<noteq> cr_ruid old \<and> euid \<noteq> cr_svuid old)) \<and>
            error \<noteq> None
         then (error, crfree newcred (uifree euip (uifree ruip k3)))
         else
           let k4 = crcopy newcred oldcred k3;
               k5 = (if euid \<noteq> NOID \<and> cr_uid old \<noteq> euid then setsugid p (change_euid newcred euip k4) else k4);
               k6 = (if ruid \<noteq> NOID \<and> cr_ruid old \<noteq> ruid then setsugid p (change_ruid newcred ruip k5) else k5);
               new = the_cred k6 newcred;
               k7 = (if (ruid \<noteq> NOID \<or> cr_uid new \<noteq> cr_ruid new) \<and> cr_svuid new \<noteq> cr_uid new
                     then setsugid p (change_svuid newcred (cr_uid new) k6) else k6);
               k8 = put_proc p ((the_proc k7 p)\<lparr>p_ucred := newcred\<rparr>) k7
           in (None, crfree oldcred (uifree euip (uifree ruip k8))))"

definition setregid :: "ptr \<Rightarrow> gid \<Rightarrow> gid \<Rightarrow> kern \<Rightarrow> err \<times> kern" where
  "setregid td rgid egid k0 =
     (let p = td_proc (the_thread k0 td);
          (newcred, k1) = crget k0;
          oldcred = p_ucred (the_proc k1 p);
          old = the_cred k1 oldcred;
          error = suser_cred k1 old PRISON_ROOT
      in if ((rgid \<noteq> NOID \<and> rgid \<noteq> cr_rgid old \<and> rgid \<noteq> cr_svgid old) \<or>
             (egid \<noteq> NOID \<and> egid \<noteq> cr_groups old ! 0 \<and> egid \<noteq> cr_rgid old \<and> egid \<noteq> cr_svgid old)) \<and>
            error \<noteq> None
         then (error, crfree newcred k1)
         else
           let k2 = crcopy newcred oldcred k1;
               k3 = (if egid \<noteq> NOID \<and> cr_groups old ! 0 \<noteq> egid then setsugid p (change_egid newcred egid k2) else k2);
               k4 = (if rgid \<noteq> NOID \<and> cr_rgid old \<noteq> rgid then setsugid p (change_rgid newcred rgid k3) else k3);
               new = the_cred k4 newcred;
               k5 = (if (rgid \<noteq> NOID \<or> cr_groups new ! 0 \<noteq> cr_rgid new) \<and> cr_svgid new \<noteq> cr_groups new ! 0
                     then setsugid p (change_svgid newcred (cr_groups new ! 0) k4) else k4);
               k6 = put_proc p ((the_proc k5 p)\<lparr>p_ucred := newcred\<rparr>) k5
           in (None, crfree oldcred k6))"

definition setresuid :: "ptr \<Rightarrow> uid \<Rightarrow> uid \<Rightarrow> uid \<Rightarrow> kern \<Rightarrow> err \<times> kern" where
  "setresuid td ruid euid suid k0 =
     (let p = td_proc (the_thread k0 td);
          (newcred, k1) = crget k0;
          (euip, k2) = uifind id euid k1;
          (ruip, k3) = uifind id ruid k2;
          oldcred = p_ucred (the_proc k3 p);
          old = the_cred k3 oldcred;
          error = suser_cred k3 old PRISON_ROOT
      in if ((ruid \<noteq> NOID \<and> ruid \<noteq> cr_ruid old \<and> ruid \<noteq> cr_svuid old \<and> ruid \<noteq> cr_uid old) \<or>
             (euid \<noteq> NOID \<and> euid \<noteq> cr_ruid old \<and> euid \<noteq> cr_svuid old \<and> euid \<noteq> cr_uid old) \<or>
             (suid \<noteq> NOID \<and> suid \<noteq> cr_ruid old \<and> suid \<noteq> cr_svuid old \<and> suid \<noteq> cr_uid old)) \<and>
            error \<noteq> None
         then (error, crfree newcred (uifree euip (uifree ruip k3)))
         else
           let k4 = crcopy newcred oldcred k3;
               k5 = (if euid \<noteq> NOID \<and> cr_uid old \<noteq> euid then setsugid p (change_euid newcred euip k4) else k4);
               k6 = (if ruid \<noteq> NOID \<and> cr_ruid old \<noteq> ruid then setsugid p (change_ruid newcred ruip k5) else k5);
               k7 = (if suid \<noteq> NOID \<and> cr_svuid old \<noteq> suid then setsugid p (change_svuid newcred suid k6) else k6);
               k8 = put_proc p ((the_proc k7 p)\<lparr>p_ucred := newcred\<rparr>) k7
           in (None, crfree oldcred (uifree euip (uifree ruip k8))))"

definition setresgid :: "ptr \<Rightarrow> gid \<Rightarrow> gid \<Rightarrow> gid \<Rightarrow> kern \<Rightarrow> err \<times> kern" where
  "setresgid td rgid egid sgid k0 =
     (let p = td_proc (the_thread k0 td);
          (newcred, k1) = crget k0;
          oldcred = p_ucred (the_proc k1 p);
          old = the_cred k1 oldcred;
          error = suser_cred k1 old PRISON_ROOT
      in if ((rgid \<noteq> NOID \<and> rgid \<noteq> cr_rgid old \<and> rgid \<noteq> cr_svgid old \<and> rgid \<noteq> cr_groups old ! 0) \<or>
             (egid \<noteq> NOID \<and> egid \<noteq> cr_rgid old \<and> egid \<noteq> cr_svgid old \<and> egid \<noteq> cr_groups old ! 0) \<or>
             (sgid \<noteq> NOID \<and> sgid \<noteq> cr_rgid old \<and> sgid \<noteq> cr_svgid old \<and> sgid \<noteq> cr_groups old ! 0)) \<and>
            error \<noteq> None
         then (error, crfree newcred k1)
         else
           let k2 = crcopy newcred oldcred k1;
               k3 = (if egid \<noteq> NOID \<and> cr_groups old ! 0 \<noteq> egid then setsugid p (change_egid newcred egid k2) else k2);
               k4 = (if rgid \<noteq> NOID \<and> cr_rgid old \<noteq> rgid then setsugid p (change_rgid newcred rgid k3) else k3);
               k5 = (if sgid \<noteq> NOID \<and> cr_svgid old \<noteq> sgid then setsugid p (change_svgid newcred sgid k4) else k4);
               k6 = put_proc p ((the_proc k5 p)\<lparr>p_ucred := newcred\<rparr>) k5
           in (None, crfree oldcred k6))"

section \<open>The abstract effect on the ids\<close>

text \<open>
  What a process's ids are, and what each call promises to do to them: a pure function of the
  ids and of whether the process has appropriate privilege.
\<close>

record ids =
  i_ruid :: uid
  i_euid :: uid
  i_svuid :: uid
  i_rgid :: gid
  i_svgid :: gid
  i_ngroups :: nat
  i_groups :: "gid list"

definition ids_of :: "ucred \<Rightarrow> ids" where
  "ids_of cr = \<lparr>i_ruid = cr_ruid cr, i_euid = cr_uid cr, i_svuid = cr_svuid cr, i_rgid = cr_rgid cr,
     i_svgid = cr_svgid cr, i_ngroups = cr_ngroups cr, i_groups = cr_groups cr\<rparr>"

abbreviation i_egid :: "ids \<Rightarrow> gid" where "i_egid i \<equiv> i_groups i ! 0"
abbreviation set_egid :: "gid \<Rightarrow> ids \<Rightarrow> ids" where "set_egid g i \<equiv> i\<lparr>i_groups := (i_groups i)[0 := g]\<rparr>"

datatype id_call =
    Setuid uid | Seteuid uid | Setgid gid | Setegid gid
  | Setgroups nat "errno + gid list"
  | Setreuid uid uid | Setregid gid gid
  | Setresuid uid uid uid | Setresgid gid gid gid

fun do_id_call :: "ptr \<Rightarrow> id_call \<Rightarrow> kern \<Rightarrow> err \<times> kern" where
  "do_id_call td (Setuid u) k = setuid td u k"
| "do_id_call td (Seteuid u) k = seteuid td u k"
| "do_id_call td (Setgid g) k = setgid td g k"
| "do_id_call td (Setegid g) k = setegid td g k"
| "do_id_call td (Setgroups n c) k = setgroups td n c k"
| "do_id_call td (Setreuid r e) k = setreuid td r e k"
| "do_id_call td (Setregid r e) k = setregid td r e k"
| "do_id_call td (Setresuid r e s) k = setresuid td r e s k"
| "do_id_call td (Setresgid r e s) k = setresgid td r e s k"

definition keep :: "u32 \<Rightarrow> u32 \<Rightarrow> u32" where
  "keep new old = (if new = NOID then old else new)"

text \<open>Ids an unprivileged call may ask for, besides -1.\<close>

definition among :: "u32 \<Rightarrow> u32 set \<Rightarrow> bool" where
  "among u S \<longleftrightarrow> u = NOID \<or> u \<in> S"

fun id_permitted :: "id_call \<Rightarrow> ids \<Rightarrow> bool" where
  "id_permitted (Setuid u) i \<longleftrightarrow> u \<in> {i_ruid i, i_euid i}"
| "id_permitted (Seteuid u) i \<longleftrightarrow> u \<in> {i_ruid i, i_svuid i}"
| "id_permitted (Setgid g) i \<longleftrightarrow> g \<in> {i_rgid i, i_egid i}"
| "id_permitted (Setegid g) i \<longleftrightarrow> g \<in> {i_rgid i, i_svgid i}"
| "id_permitted (Setgroups n c) i \<longleftrightarrow> False"
| "id_permitted (Setreuid r e) i \<longleftrightarrow> among r {i_ruid i, i_svuid i} \<and> among e {i_ruid i, i_euid i, i_svuid i}"
| "id_permitted (Setregid r e) i \<longleftrightarrow> among r {i_rgid i, i_svgid i} \<and> among e {i_rgid i, i_egid i, i_svgid i}"
| "id_permitted (Setresuid r e s) i \<longleftrightarrow>
     among r {i_ruid i, i_euid i, i_svuid i} \<and> among e {i_ruid i, i_euid i, i_svuid i} \<and> among s {i_ruid i, i_euid i, i_svuid i}"
| "id_permitted (Setresgid r e s) i \<longleftrightarrow>
     among r {i_rgid i, i_egid i, i_svgid i} \<and> among e {i_rgid i, i_egid i, i_svgid i} \<and> among s {i_rgid i, i_egid i, i_svgid i}"

text \<open>The ids after a permitted call.\<close>

fun id_effect :: "id_call \<Rightarrow> ids \<Rightarrow> ids" where
  "id_effect (Setuid u) i = i\<lparr>i_ruid := u, i_euid := u, i_svuid := u\<rparr>"
| "id_effect (Seteuid u) i = i\<lparr>i_euid := u\<rparr>"
| "id_effect (Setgid g) i = set_egid g (i\<lparr>i_rgid := g, i_svgid := g\<rparr>)"
| "id_effect (Setegid g) i = set_egid g i"
| "id_effect (Setgroups n c) i =
     (case c of Inl _ \<Rightarrow> i
      | Inr gids \<Rightarrow> if n = 0 then i\<lparr>i_ngroups := 1\<rparr>
                    else i\<lparr>i_groups := gids @ drop n (i_groups i), i_ngroups := n\<rparr>)"
| "id_effect (Setreuid r e) i =
     (let i1 = i\<lparr>i_euid := keep e (i_euid i), i_ruid := keep r (i_ruid i)\<rparr>
      in if r \<noteq> NOID \<or> i_euid i1 \<noteq> i_ruid i1 then i1\<lparr>i_svuid := i_euid i1\<rparr> else i1)"
| "id_effect (Setregid r e) i =
     (let i1 = set_egid (keep e (i_egid i)) (i\<lparr>i_rgid := keep r (i_rgid i)\<rparr>)
      in if r \<noteq> NOID \<or> i_egid i1 \<noteq> i_rgid i1 then i1\<lparr>i_svgid := i_egid i1\<rparr> else i1)"
| "id_effect (Setresuid r e s) i =
     i\<lparr>i_ruid := keep r (i_ruid i), i_euid := keep e (i_euid i), i_svuid := keep s (i_svuid i)\<rparr>"
| "id_effect (Setresgid r e s) i =
     set_egid (keep e (i_egid i)) (i\<lparr>i_rgid := keep r (i_rgid i), i_svgid := keep s (i_svgid i)\<rparr>)"

text \<open>The errors of setgroups that come before the privilege check.\<close>

fun id_early_error :: "id_call \<Rightarrow> err" where
  "id_early_error (Setgroups n c) =
     (if n > NGROUPS then Some EINVAL else case c of Inl e \<Rightarrow> Some e | Inr _ \<Rightarrow> None)"
| "id_early_error _ = None"

definition id_step :: "bool \<Rightarrow> id_call \<Rightarrow> ids \<Rightarrow> err \<times> ids" where
  "id_step priv c i =
     (case id_early_error c of
        Some e \<Rightarrow> (Some e, i)
      | None \<Rightarrow> if id_permitted c i \<or> priv then (None, id_effect c i) else (Some EPERM, i))"

end
