(* ===== verification/Kern_Prot_Edit.thy ===== *)
theory Kern_Prot_Edit
  imports Kern_Prot_Ids
begin

text \<open>
  The state of a call between crcopy and the installation of the new cred, relative to the
  state \<open>k0\<close> the call started in: process \<open>p\<close> is \<open>pc\<close>, the new cred \<open>n\<close> is \<open>cr\<close>, the
  uidinfos in \<open>H\<close> are held and have the uids given, and no other process, thread or cred has
  changed.
\<close>

definition edit_of :: "kern \<Rightarrow> ptr \<Rightarrow> ptr \<Rightarrow> (ptr \<times> uid) set \<Rightarrow> ucred \<Rightarrow> proc \<Rightarrow>
    (ptr \<Rightarrow> int) \<Rightarrow> (ptr \<Rightarrow> int) \<Rightarrow> kern \<Rightarrow> bool" where
  "edit_of k0 p n H cr pc X Y k \<longleftrightarrow>
     editing n cr X Y (\<lambda>_. 0) k \<and> k_proc k = (k_proc k0)(p \<mapsto> pc) \<and> k_thread k = k_thread k0 \<and>
     (\<forall>c. c \<noteq> n \<longrightarrow> k_cred k c = k_cred k0 c) \<and>
     (\<forall>(a, u) \<in> H. 0 < X a \<and> (\<exists>ui. k_ui k a = Some ui \<and> ui_uid ui = u))"

lemma editing_held: "editing n cr X Y Z k \<Longrightarrow> 0 < X a \<Longrightarrow> \<exists>ui. k_ui k a = Some ui"
  unfolding editing_def using cred_inv_live_ui [of X Y Z k a] ui_refs_nonneg [of k a] by fastforce

lemma edit_of_held:
  assumes "edit_of k0 p n H cr pc X Y k" and "(a, u) \<in> H"
  shows "0 < X a" and "\<exists>ui. k_ui k a = Some ui \<and> ui_uid ui = u"
  using assms by (auto simp: edit_of_def)

lemma change_cred_other:
  "c \<noteq> n \<Longrightarrow> k_cred (change_euid n a k) c = k_cred k c"
  "c \<noteq> n \<Longrightarrow> k_cred (change_ruid n a k) c = k_cred k c"
  by (simp_all add: change_euid_def change_ruid_def Let_def frame_simps chgproccnt_nolimit)

lemma uid_uihold: "k_ui k b = Some u \<Longrightarrow> k_ui k a \<noteq> None \<Longrightarrow> \<exists>u'. k_ui (uihold a k) b = Some u' \<and> ui_uid u' = ui_uid u"
  by (auto simp: uihold_def)

lemma uid_uifree: "k_ui k b = Some u \<Longrightarrow> k_ui (uifree a k) b = Some u' \<Longrightarrow> k_ui k a \<noteq> None \<Longrightarrow> ui_uid u' = ui_uid u"
  by (auto simp: uifree_def ui_unlink_def Let_def split: if_splits)

lemma uid_put_cred: "k_ui (put_cred n cr k) = k_ui k" by simp

lemma change_euid_uid:
  assumes "k_cred k n = Some cr" and "cr_uidinfo cr = Some old" and "k_ui k a \<noteq> None" and "k_ui k old \<noteq> None"
    and "k_ui k b = Some u" and "k_ui (change_euid n a k) b = Some u'"
  shows "ui_uid u' = ui_uid u"
  using assms
  by (auto simp: change_euid_def Let_def uihold_def uifree_def ui_unlink_def frame_simps split: if_splits)

lemma change_ruid_uid:
  assumes "k_cred k n = Some cr" and "cr_ruidinfo cr = Some old" and "k_ui k a \<noteq> None" and "k_ui k old \<noteq> None"
    and "k_ui k b = Some u" and "k_ui (change_ruid n a k) b = Some u'" and "b \<noteq> a"
  shows "ui_uid u' = ui_uid u"
  using assms
  by (auto simp: change_ruid_def Let_def uihold_def uifree_def ui_unlink_def frame_simps chgproccnt_nolimit split: if_splits)

lemma edit_of_change_euid:
  assumes e: "edit_of k0 p n H cr pc X Y k" and a: "(a, u) \<in> H"
  shows "edit_of k0 p n H (cr\<lparr>cr_uid := u, cr_uidinfo := Some a\<rparr>) pc X Y (change_euid n a k)"
proof -
  have ed: "editing n cr X Y (\<lambda>_. 0) k" using e by (simp add: edit_of_def)
  obtain ui where ui: "k_ui k a = Some ui" "ui_uid ui = u" using edit_of_held(2) [OF e a] by blast
  have ed': "editing n (cr\<lparr>cr_uid := u, cr_uidinfo := Some a\<rparr>) X Y (\<lambda>_. 0) (change_euid n a k)"
    using editing_change_euid [OF ed edit_of_held(1) [OF e a] ui(1)] ui(2) by simp
  obtain old where old: "cr_uidinfo cr = Some old" using ed by (auto simp: editing_def cred_full_def)
  obtain uo where uo: "k_ui k old = Some uo" using editing_ui_live [OF ed] old by blast
  have "\<exists>ui. k_ui (change_euid n a k) b = Some ui \<and> ui_uid ui = v" if b: "(b, v) \<in> H" for b v
  proof -
    obtain ub where "k_ui k b = Some ub" "ui_uid ub = v" using edit_of_held(2) [OF e b] by blast
    moreover obtain u' where "k_ui (change_euid n a k) b = Some u'"
      using editing_held [OF ed' edit_of_held(1) [OF e b]] by blast
    ultimately show ?thesis
      using change_euid_uid [of k n cr old a b ub u'] old uo ui ed by (auto simp: editing_def)
  qed
  then show ?thesis
    using e ed' by (auto simp: edit_of_def frame_simps change_cred_other)
qed

lemma edit_of_change_ruid:
  assumes e: "edit_of k0 p n H cr pc X Y k" and a: "(a, u) \<in> H"
  shows "edit_of k0 p n H (cr\<lparr>cr_ruid := u, cr_ruidinfo := Some a\<rparr>) pc X Y (change_ruid n a k)"
proof -
  have ed: "editing n cr X Y (\<lambda>_. 0) k" using e by (simp add: edit_of_def)
  obtain ui where ui: "k_ui k a = Some ui" "ui_uid ui = u" using edit_of_held(2) [OF e a] by blast
  have ed': "editing n (cr\<lparr>cr_ruid := u, cr_ruidinfo := Some a\<rparr>) X Y (\<lambda>_. 0) (change_ruid n a k)"
    using editing_change_ruid [OF ed edit_of_held(1) [OF e a] ui(1)] ui(2) by simp
  obtain old where old: "cr_ruidinfo cr = Some old" using ed by (auto simp: editing_def cred_full_def)
  obtain uo where uo: "k_ui k old = Some uo" using editing_ui_live [OF ed] old by blast
  have "\<exists>ui. k_ui (change_ruid n a k) b = Some ui \<and> ui_uid ui = v" if b: "(b, v) \<in> H" for b v
  proof -
    obtain ub where ub: "k_ui k b = Some ub" "ui_uid ub = v" using edit_of_held(2) [OF e b] by blast
    obtain u' where u': "k_ui (change_ruid n a k) b = Some u'"
      using editing_held [OF ed' edit_of_held(1) [OF e b]] by blast
    show ?thesis
    proof (cases "b = a")
      case True
      have "ui_uid u' = ui_uid ui"
        using editing_ok [OF ed'] u' True ui(2) by (simp add: cred_ok_def)
      then show ?thesis using u' ui True ub by simp
    next
      case False
      with ub u' show ?thesis
        using change_ruid_uid [of k n cr old a b ub u'] old uo ui ed by (auto simp: editing_def)
    qed
  qed
  then show ?thesis
    using e ed' by (auto simp: edit_of_def frame_simps change_cred_other)
qed

lemma change_plain_frame [frame_simps]:
  "k_ui (change_svuid n u k) = k_ui k" "k_ui (change_svgid n g k) = k_ui k"
  "k_ui (change_rgid n g k) = k_ui k" "k_ui (change_egid n g k) = k_ui k"
  by (simp_all add: change_svuid_def change_svgid_def change_rgid_def change_egid_def)

lemma edit_of_change_svuid:
  "edit_of k0 p n H cr pc X Y k \<Longrightarrow> edit_of k0 p n H (cr\<lparr>cr_svuid := u\<rparr>) pc X Y (change_svuid n u k)"
  by (auto simp: edit_of_def frame_simps intro: editing_change_svuid) (simp add: change_svuid_def)

lemma edit_of_change_svgid:
  "edit_of k0 p n H cr pc X Y k \<Longrightarrow> edit_of k0 p n H (cr\<lparr>cr_svgid := u\<rparr>) pc X Y (change_svgid n u k)"
  by (auto simp: edit_of_def frame_simps intro: editing_change_svgid) (simp add: change_svgid_def)

lemma edit_of_change_rgid:
  "edit_of k0 p n H cr pc X Y k \<Longrightarrow> edit_of k0 p n H (cr\<lparr>cr_rgid := u\<rparr>) pc X Y (change_rgid n u k)"
  by (auto simp: edit_of_def frame_simps intro: editing_change_rgid) (simp add: change_rgid_def)

lemma edit_of_change_egid:
  "edit_of k0 p n H cr pc X Y k \<Longrightarrow>
   edit_of k0 p n H (cr\<lparr>cr_groups := (cr_groups cr)[0 := u]\<rparr>) pc X Y (change_egid n u k)"
  by (auto simp: edit_of_def frame_simps intro: editing_change_egid) (simp add: change_egid_def)

definition sugid :: "proc \<Rightarrow> proc" where
  "sugid pc = (let pc' = pc\<lparr>p_flag := p_flag pc OR P_SUGID\<rparr>
     in if p_pfsflags pc AND PF_ISUGID = 0 then pc'\<lparr>p_stops := 0\<rparr> else pc')"

lemma setsugid_eq: "k_proc k p = Some pc \<Longrightarrow> setsugid p k = put_proc p (sugid pc) k"
  by (simp add: setsugid_def sugid_def Let_def)

lemma editing_setsugid:
  assumes "editing n cr X Y Z k" and "k_proc k p = Some pc"
  shows "editing n cr X Y Z (setsugid p k)"
proof -
  have "cr_refs (setsugid p k) n = cr_refs k n"
  proof -
    have fin: "finite (dom (k_proc k))" using assms(1) by (auto simp: editing_def cred_inv_def)
    have "p_ucred (sugid pc) = p_ucred pc" by (simp add: sugid_def Let_def)
    then show ?thesis
      by (simp add: setsugid_eq [OF assms(2)] cr_refs_def msum_upd [OF fin assms(2)])
  qed
  moreover have "k_cred (setsugid p k) = k_cred k" by (simp add: setsugid_def Let_def)
  ultimately show ?thesis using assms cred_inv_setsugid by (auto simp: editing_def)
qed

lemma edit_of_setsugid:
  assumes "edit_of k0 p n H cr pc X Y k"
  shows "edit_of k0 p n H cr (sugid pc) X Y (setsugid p k)"
proof -
  have "k_proc k p = Some pc" using assms by (simp add: edit_of_def)
  then show ?thesis
    using assms editing_setsugid [of n cr X Y "\<lambda>_. 0" k p pc]
    by (auto simp: edit_of_def setsugid_eq)
qed

text \<open>A conditional setter followed by setsugid, as every call does it.\<close>

lemma edit_of_if:
  assumes e: "edit_of k0 p n H cr pc X Y k"
    and t: "b \<Longrightarrow> edit_of k0 p n H cr' pc' X Y k'"
  shows "edit_of k0 p n H (if b then cr' else cr) (if b then sugid pc' else pc) X Y (if b then setsugid p k' else k)"
  using e t edit_of_setsugid by simp

lemma edit_of_euid_if:
  "edit_of k0 p n H cr pc X Y k \<Longrightarrow> (a, u) \<in> H \<Longrightarrow>
   edit_of k0 p n H (if b then cr\<lparr>cr_uid := u, cr_uidinfo := Some a\<rparr> else cr) (if b then sugid pc else pc) X Y
     (if b then setsugid p (change_euid n a k) else k)"
  by (rule edit_of_if) (auto intro: edit_of_change_euid)

lemma edit_of_ruid_if:
  "edit_of k0 p n H cr pc X Y k \<Longrightarrow> (a, u) \<in> H \<Longrightarrow>
   edit_of k0 p n H (if b then cr\<lparr>cr_ruid := u, cr_ruidinfo := Some a\<rparr> else cr) (if b then sugid pc else pc) X Y
     (if b then setsugid p (change_ruid n a k) else k)"
  by (rule edit_of_if) (auto intro: edit_of_change_ruid)

lemma edit_of_svuid_if:
  "edit_of k0 p n H cr pc X Y k \<Longrightarrow>
   edit_of k0 p n H (if b then cr\<lparr>cr_svuid := u\<rparr> else cr) (if b then sugid pc else pc) X Y
     (if b then setsugid p (change_svuid n u k) else k)"
  by (rule edit_of_if) (auto intro: edit_of_change_svuid)

lemma edit_of_egid_if:
  "edit_of k0 p n H cr pc X Y k \<Longrightarrow>
   edit_of k0 p n H (if b then cr\<lparr>cr_groups := (cr_groups cr)[0 := u]\<rparr> else cr) (if b then sugid pc else pc) X Y
     (if b then setsugid p (change_egid n u k) else k)"
  by (rule edit_of_if) (auto intro: edit_of_change_egid)

lemma edit_of_rgid_if:
  "edit_of k0 p n H cr pc X Y k \<Longrightarrow>
   edit_of k0 p n H (if b then cr\<lparr>cr_rgid := u\<rparr> else cr) (if b then sugid pc else pc) X Y
     (if b then setsugid p (change_rgid n u k) else k)"
  by (rule edit_of_if) (auto intro: edit_of_change_rgid)

lemma edit_of_svgid_if:
  "edit_of k0 p n H cr pc X Y k \<Longrightarrow>
   edit_of k0 p n H (if b then cr\<lparr>cr_svgid := u\<rparr> else cr) (if b then sugid pc else pc) X Y
     (if b then setsugid p (change_svgid n u k) else k)"
  by (rule edit_of_if) (auto intro: edit_of_change_svgid)

lemma edit_of_held_mono:
  "edit_of k0 p n H cr pc X Y k \<Longrightarrow> H' \<subseteq> H \<Longrightarrow> edit_of k0 p n H' cr pc X Y k"
  by (auto simp: edit_of_def)

section \<open>Before and after the edit\<close>

text \<open>
  \<open>prep k0 n H X Y k\<close>: the call that started in \<open>k0\<close> has allocated the cred \<open>n\<close> and looked up
  the uidinfos \<open>H\<close>.
\<close>

definition prep :: "kern \<Rightarrow> ptr \<Rightarrow> (ptr \<times> uid) set \<Rightarrow> (ptr \<Rightarrow> int) \<Rightarrow> (ptr \<Rightarrow> int) \<Rightarrow> kern \<Rightarrow> bool" where
  "prep k0 n H X Y k \<longleftrightarrow>
     cred_inv X Y (\<lambda>_. 0) k \<and> k_proc k = k_proc k0 \<and> k_thread k = k_thread k0 \<and>
     suser_enabled k = suser_enabled k0 \<and>
     k_cred k0 n = None \<and> k_cred k = (k_cred k0)(n \<mapsto> zero_cred\<lparr>cr_ref := 1\<rparr>) \<and> cr_refs k n = 0 \<and>
     (\<forall>(a, u) \<in> H. 0 < X a \<and> (\<exists>ui. k_ui k a = Some ui \<and> ui_uid ui = u))"

lemma uifind_enabled: "uifind id u k = (a, k') \<Longrightarrow> suser_enabled k' = suser_enabled k"
  by (auto simp: uifind_def Let_def uihold_def split: option.splits)

lemma prep_crget:
  assumes inv: "cred_inv X Y (\<lambda>_. 0) k0" and c: "crget k0 = (n, k1)"
  shows "prep k0 n {} X (Y(n := 1)) k1"
proof -
  have "k_cred k0 n = None" using brk_fresh(2) cred_invD(1) [OF inv] c by (auto simp: crget_def)
  then show ?thesis using cred_inv_crget [OF inv c] c by (auto simp: prep_def crget_def)
qed

lemma uifind_uid:
  assumes "k_ui k b = Some ui" and "uifind id u k = (a, k')" and "uihash_inv k" and "brk_inv k"
  shows "\<exists>ui'. k_ui k' b = Some ui' \<and> ui_uid ui' = ui_uid ui"
proof -
  have "b < k_brk k" using assms(1,4) by (auto simp: brk_inv_def)
  then show ?thesis
    using assms by (auto simp: uifind_def uihold_def Let_def split: option.splits if_splits)
qed

lemma prep_uifind:
  assumes p: "prep k0 n H X Y k" and u: "uifind id u k = (a, k')"
  shows "prep k0 n (insert (a, u) H) (X(a := X a + 1)) Y k'"
proof -
  have inv: "cred_inv X Y (\<lambda>_. 0) k" using p by (simp add: prep_def)
  have r: "cred_inv (X(a := X a + 1)) Y (\<lambda>_. 0) k'" "\<exists>ui. k_ui k' a = Some ui \<and> ui_uid ui = u"
    using cred_inv_uifind [OF inv _ u] inv by auto
  have refs: "cr_refs k' = cr_refs k" by (rule refs_frame) (simp_all add: uifind_frame [OF u])
  have "0 \<le> X a" using cred_invD(6) [OF inv] by blast
  then show ?thesis
    using p r uifind_uid [OF _ u cred_invD(4) [OF inv] cred_invD(1) [OF inv]]
    unfolding prep_def uifind_frame [OF u] uifind_enabled [OF u] refs by fastforce
qed

lemma prep_crcopy:
  assumes p: "prep k0 n H X Y k" and pc: "k_proc k0 p = Some pc" and old: "k_cred k0 (p_ucred pc) = Some old"
    and full: "cred_full old"
  shows "edit_of k0 p n H (old\<lparr>cr_ref := 1\<rparr>) pc X Y (crcopy n (p_ucred pc) k)"
proof -
  have ne: "n \<noteq> p_ucred pc" using p old by (auto simp: prep_def)
  have inv: "cred_inv X Y (\<lambda>_. 0) k" using p by (simp add: prep_def)
  have o: "k_cred k (p_ucred pc) = Some old" using p old ne by (simp add: prep_def)
  have ed: "editing n (old\<lparr>cr_ref := 1\<rparr>) X Y (\<lambda>_. 0) (crcopy n (p_ucred pc) k)"
    by (rule editing_crcopy [OF inv o full]) (use p ne in \<open>simp_all add: prep_def\<close>)
  have "\<exists>ui. k_ui (crcopy n (p_ucred pc) k) b = Some ui \<and> ui_uid ui = v" if b: "(b, v) \<in> H" for b v
  proof -
    obtain u r where ur: "cr_uidinfo old = Some u" "cr_ruidinfo old = Some r"
      using full by (auto simp: cred_full_def)
    have live: "k_ui k u \<noteq> None" "k_ui k r \<noteq> None"
      using cred_inv_live_ui [OF inv, of u] cred_inv_ui_member [OF inv o, of u] cred_inv_ui_member [OF inv o, of r]
        cred_inv_live_ui [OF inv, of r] ur cred_invD(6) [OF inv, of u] cred_invD(6) [OF inv, of r]
      by fastforce+
    show ?thesis
      using p b live by (auto simp: crcopy_eq [OF o _ _ ur] prep_def Let_def uihold_def prison_hold_def split: option.splits)
  qed
  then show ?thesis
    using ed p pc by (auto simp: edit_of_def frame_simps prep_def crcopy_other)
qed

text \<open>What a refused call leaves behind.\<close>

definition id_refused :: "kern \<Rightarrow> kern \<Rightarrow> bool" where
  "id_refused k0 k \<longleftrightarrow> k_cred k = k_cred k0 \<and> k_proc k = k_proc k0 \<and> k_thread k = k_thread k0"

lemma prep_refused:
  assumes p: "prep k0 n H X Y k" and y: "Y n = 1"
  shows "cred_inv X (Y(n := 0)) (\<lambda>_. 0) (crfree n k)" and "id_refused k0 (crfree n k)"
proof -
  have inv: "cred_inv X Y (\<lambda>_. 0) k" using p by (simp add: prep_def)
  show "cred_inv X (Y(n := 0)) (\<lambda>_. 0) (crfree n k)"
    using cred_inv_crfree [OF inv, of n] y by simp
  have n: "k_cred k n = Some (zero_cred\<lparr>cr_ref := 1\<rparr>)" using p by (simp add: prep_def)
  show "id_refused k0 (crfree n k)"
    using p by (simp add: crfree_last [OF n] id_refused_def prep_def drop_ui_def drop_pr_def zero_cred_def fun_upd_idem)
qed

lemma prep_uifree:
  assumes p: "prep k0 n H X Y k" and a: "0 < X a"
  shows "prep k0 n {} (X(a := X a - 1)) Y (uifree a k)"
proof -
  have "cr_refs (uifree a k) = cr_refs k" by (rule refs_frame) (simp_all add: frame_simps)
  moreover have "suser_enabled (uifree a k) = suser_enabled k"
    by (simp add: uifree_def ui_unlink_def Let_def)
  ultimately show ?thesis
    using p cred_inv_uifree [of X Y "\<lambda>_. 0" k a] a by (simp add: prep_def frame_simps)
qed

text \<open>
  \<open>installed k0 p n oc cr pc X Y k\<close>: process \<open>p\<close> has the new cred; the old one, \<open>oc\<close>, is held by
  the running code, which \<open>Y\<close> does not count.
\<close>

definition installed :: "kern \<Rightarrow> ptr \<Rightarrow> ptr \<Rightarrow> ptr \<Rightarrow> ucred \<Rightarrow> proc \<Rightarrow> (ptr \<Rightarrow> int) \<Rightarrow> (ptr \<Rightarrow> int) \<Rightarrow> kern \<Rightarrow> bool" where
  "installed k0 p n oc cr pc X Y k \<longleftrightarrow>
     cred_inv X (Y(oc := Y oc + 1)) (\<lambda>_. 0) k \<and> k_cred k n = Some cr \<and> (\<forall>c. c \<noteq> n \<longrightarrow> k_cred k c = k_cred k0 c) \<and>
     k_proc k = (k_proc k0)(p \<mapsto> pc\<lparr>p_ucred := n\<rparr>) \<and> k_thread k = k_thread k0"

lemma edit_of_install:
  assumes e: "edit_of k0 p n H cr pc X (Y(n := 1)) k" and Y: "Y n = 0" and ne: "n \<noteq> p_ucred pc"
  shows "installed k0 p n (p_ucred pc) cr pc X Y (put_proc p ((the_proc k p)\<lparr>p_ucred := n\<rparr>) k)"
proof -
  have ed: "editing n cr X (Y(n := 1)) (\<lambda>_. 0) k" and p: "k_proc k p = Some pc"
    using e by (simp_all add: edit_of_def)
  have "(\<lambda>c. (Y(n := 1)) c - of_bool (n = c) + of_bool (p_ucred pc = c)) = Y(p_ucred pc := Y (p_ucred pc) + 1)"
    using Y ne by (auto simp: fun_eq_iff)
  then show ?thesis
    using cred_inv_install [OF ed p] e by (simp add: installed_def edit_of_def editing_def)
qed

lemma installed_uifree:
  assumes "installed k0 p n oc cr pc X Y k" and "0 < X a"
  shows "installed k0 p n oc cr pc (X(a := X a - 1)) Y (uifree a k)"
  using assms cred_inv_uifree [of X _ "\<lambda>_. 0" k a] by (auto simp: installed_def frame_simps)

text \<open>What a successful call leaves behind: a new cred in \<open>p\<close>, no other cred or process changed.\<close>

definition id_done :: "kern \<Rightarrow> ptr \<Rightarrow> ucred \<Rightarrow> proc \<Rightarrow> kern \<Rightarrow> bool" where
  "id_done k0 p cr pc k \<longleftrightarrow>
     (\<exists>n. k_cred k0 n = None \<and> k_cred k n = Some cr \<and> k_proc k = (k_proc k0)(p \<mapsto> pc\<lparr>p_ucred := n\<rparr>) \<and>
          k_thread k = k_thread k0 \<and>
          (\<forall>c x. c \<noteq> n \<longrightarrow> k_cred k c = Some x \<longrightarrow> (\<exists>r. k_cred k0 c = Some (x\<lparr>cr_ref := r\<rparr>))))"

lemma crfree_self: "k_cred k c = Some x \<Longrightarrow> k_cred (crfree c k) c = Some y \<Longrightarrow> \<exists>r. x = y\<lparr>cr_ref := r\<rparr>"
  by (cases "cr_ref x = 1") (auto simp: crfree_last crfree_more drop_ui_def drop_pr_def frame_simps split: option.splits
       intro!: exI [of _ "cr_ref x"])

lemma crfree_frame [frame_simps]: "k_proc (crfree c k) = k_proc k" "k_thread (crfree c k) = k_thread k"
  by (auto simp: crfree_def Let_def frame_simps split: option.splits)

lemma installed_done:
  assumes i: "installed k0 p n oc cr pc X Y k" and n: "k_cred k0 n = None" and oc: "k_cred k0 oc = Some old" and Y: "0 \<le> Y oc"
  shows "cred_inv X Y (\<lambda>_. 0) (crfree oc k)" and "id_done k0 p cr pc (crfree oc k)"
proof -
  have ne: "oc \<noteq> n" using n oc by auto
  have inv: "cred_inv X (Y(oc := Y oc + 1)) (\<lambda>_. 0) k" using i by (simp add: installed_def)
  show "cred_inv X Y (\<lambda>_. 0) (crfree oc k)"
    using cred_inv_crfree [OF inv, of oc] Y by simp
  have o: "k_cred k oc = Some old" using i oc ne by (simp add: installed_def)
  have "\<exists>r. k_cred k0 c = Some (x\<lparr>cr_ref := r\<rparr>)" if "c \<noteq> n" "k_cred (crfree oc k) c = Some x" for c x
  proof (cases "c = oc")
    case True
    then show ?thesis using crfree_self [OF o] that oc by auto
  next
    case False
    then have "k_cred k0 c = Some x" using that i crfree_other [of c oc k] by (auto simp: installed_def)
    then show ?thesis by (intro exI [of _ "cr_ref x"]) simp
  qed
  then show "id_done k0 p cr pc (crfree oc k)"
    unfolding id_done_def using i n ne by (intro exI [of _ n]) (simp add: installed_def frame_simps crfree_other)
qed

end
