(* ===== verification/Kern_Prot_Setids.thy ===== *)
theory Kern_Prot_Setids
  imports Kern_Prot_Edit
begin

text \<open>
  The outcome of every id call of Kern_Prot_Ids: the reference counts balance, the error and the
  new ids are those of the abstract \<open>id_step\<close>, and nothing but the calling process's cred has
  changed. One lemma per call, collected in \<open>id_outcomes\<close>.
\<close>

abbreviation cred_inv0 :: "kern \<Rightarrow> bool" where "cred_inv0 \<equiv> cred_inv (\<lambda>_. 0) (\<lambda>_. 0) (\<lambda>_. 0)"

text \<open>The privilege that every one of the calls asks for.\<close>

definition id_priv :: "kern \<Rightarrow> ucred \<Rightarrow> bool" where
  "id_priv k cr \<longleftrightarrow> suser_cred k cr PRISON_ROOT = None"

lemma suser_prison_root: "suser_cred k cr PRISON_ROOT = (if suser_enabled k \<and> cr_uid cr = 0 then None else Some EPERM)"
  by (simp add: suser_cred_def PRISON_ROOT_def)

lemma sugid_idem [simp]: "sugid (sugid pc) = sugid pc"
  by (auto simp: sugid_def Let_def bit_eq_iff)

lemma sugid_ucred [simp]: "p_ucred (sugid pc) = p_ucred pc"
  by (simp add: sugid_def Let_def)

definition id_outcome :: "kern \<Rightarrow> ptr \<Rightarrow> proc \<Rightarrow> ucred \<Rightarrow> id_call \<Rightarrow> err \<times> kern \<Rightarrow> bool" where
  "id_outcome k0 p pc old c r \<longleftrightarrow>
     cred_inv0 (snd r) \<and> fst r = fst (id_step (id_priv k0 old) c (ids_of old)) \<and>
     (if fst r \<noteq> None then id_refused k0 (snd r)
      else \<exists>cr pc'. id_done k0 p cr pc' (snd r) \<and> ids_of cr = snd (id_step (id_priv k0 old) c (ids_of old)) \<and>
             cr_prison cr = cr_prison old \<and> (pc' = sugid pc \<or> pc' = pc \<and> ids_of cr = ids_of old))"

text \<open>A thread that runs in the kernel: its process and that process's cred exist.\<close>

definition runs :: "kern \<Rightarrow> ptr \<Rightarrow> ptr \<Rightarrow> proc \<Rightarrow> ucred \<Rightarrow> bool" where
  "runs k td p pc cr \<longleftrightarrow> (\<exists>t. k_thread k td = Some t \<and> td_proc t = p) \<and> k_proc k p = Some pc \<and>
     k_cred k (p_ucred pc) = Some cr"

lemma prep_facts:
  assumes "prep k0 n H X Y k" and "runs k0 td p pc old"
  shows "td_proc (the_thread k0 td) = p" "the_proc k p = pc" "the_cred k (p_ucred pc) = old"
    "suser_cred k old PRISON_ROOT = suser_cred k0 old PRISON_ROOT" "n \<noteq> p_ucred pc"
    "k_cred k0 n = None" "k_cred k0 (p_ucred pc) = Some old" "k_proc k0 p = Some pc"
  using assms by (auto simp: prep_def runs_def suser_cred_def)

lemma runs_full: "cred_inv X Y Z k \<Longrightarrow> runs k td p pc cr \<Longrightarrow> cred_full cr"
  using cred_inv_proc_cred(1) [of X Y Z k p pc] by (auto simp: runs_def)

lemma list_update_0 [simp]: "xs ! 0 = g \<Longrightarrow> xs[0 := g] = xs"
  using list_update_id [of xs 0] by simp

lemma runs_groups: "cred_inv X Y Z k \<Longrightarrow> runs k td p pc cr \<Longrightarrow> length (cr_groups cr) = NGROUPS"
  using cred_invD(12) [of X Y Z k "p_ucred pc" cr] by (auto simp: runs_def cred_ok_def)

text \<open>Finishing a call that looked up no uidinfo, one, or two.\<close>

definition fin_ok :: "kern \<Rightarrow> ptr \<Rightarrow> ucred \<Rightarrow> proc \<Rightarrow> kern \<Rightarrow> bool" where
  "fin_ok k0 p cr pc k \<longleftrightarrow> cred_inv0 k \<and> id_done k0 p cr pc k"

lemma zero_upd [simp]: "(\<lambda>_. 0::int)(a := 0) = (\<lambda>_. 0)"
  by (auto simp: fun_eq_iff)

lemma finish0:
  assumes e: "edit_of k0 p n H cr pc' (\<lambda>_. 0) ((\<lambda>_. 0)(n := 1)) k" and n: "k_cred k0 n = None"
    and old: "k_cred k0 oc = Some old" and pc': "p_ucred pc' = oc"
  shows "fin_ok k0 p cr pc' (crfree oc (put_proc p ((the_proc k p)\<lparr>p_ucred := n\<rparr>) k))"
proof -
  have "n \<noteq> p_ucred pc'" using n old pc' by auto
  from edit_of_install [OF e _ this]
  have i: "installed k0 p n oc cr pc' (\<lambda>_. 0) (\<lambda>_. 0) (put_proc p ((the_proc k p)\<lparr>p_ucred := n\<rparr>) k)"
    by (simp add: pc')
  show ?thesis unfolding fin_ok_def using installed_done [OF i n old] by simp
qed

lemma finish1:
  assumes e: "edit_of k0 p n H cr pc' ((\<lambda>_. 0)(a := 1)) ((\<lambda>_. 0)(n := 1)) k" and n: "k_cred k0 n = None"
    and old: "k_cred k0 oc = Some old" and pc': "p_ucred pc' = oc"
  shows "fin_ok k0 p cr pc' (crfree oc (uifree a (put_proc p ((the_proc k p)\<lparr>p_ucred := n\<rparr>) k)))"
proof -
  have "n \<noteq> p_ucred pc'" using n old pc' by auto
  note i = installed_uifree [OF edit_of_install [OF e _ this], of a, unfolded pc', simplified]
  show ?thesis unfolding fin_ok_def using installed_done [OF i n old] by simp
qed

lemma finish2:
  assumes e: "edit_of k0 p n H cr pc' ((\<lambda>_. 0)(a := 1, b := ((\<lambda>_. 0)(a := 1)) b + 1)) ((\<lambda>_. 0)(n := 1)) k"
    and n: "k_cred k0 n = None" and old: "k_cred k0 oc = Some old" and pc': "p_ucred pc' = oc"
  shows "fin_ok k0 p cr pc' (crfree oc (uifree a (uifree b (put_proc p ((the_proc k p)\<lparr>p_ucred := n\<rparr>) k))))"
proof -
  have ne: "n \<noteq> p_ucred pc'" using n old pc' by auto
  have b: "0 < ((\<lambda>_. 0::int)(a := 1, b := ((\<lambda>_. 0)(a := 1)) b + 1)) b" by simp
  have x: "((\<lambda>_. 0::int)(a := 1, b := ((\<lambda>_. 0)(a := 1)) b + 1))(b := ((\<lambda>_. 0::int)(a := 1, b := ((\<lambda>_. 0)(a := 1)) b + 1)) b - 1)
      = (\<lambda>_. 0)(a := 1)" by (auto simp: fun_eq_iff)
  note i = installed_uifree [OF installed_uifree [OF edit_of_install [OF e _ ne] b, unfolded x], of a, unfolded pc', simplified]
  show ?thesis unfolding fin_ok_def using installed_done [OF i n old] by simp
qed

definition ref_ok :: "kern \<Rightarrow> kern \<Rightarrow> bool" where
  "ref_ok k0 k \<longleftrightarrow> cred_inv0 k \<and> id_refused k0 k"

lemma refuse0: "prep k0 n H (\<lambda>_. 0) ((\<lambda>_. 0)(n := 1)) k \<Longrightarrow> ref_ok k0 (crfree n k)"
  unfolding ref_ok_def using prep_refused [of k0 n H "\<lambda>_. 0" "(\<lambda>_. 0)(n := 1)" k] by simp

lemma refuse1: "prep k0 n H ((\<lambda>_. 0)(a := 1)) ((\<lambda>_. 0)(n := 1)) k \<Longrightarrow> ref_ok k0 (crfree n (uifree a k))"
  by (rule refuse0 [where H = "{}"], drule prep_uifree [where a = a]) simp_all

lemma refuse2:
  assumes p: "prep k0 n H ((\<lambda>_. 0)(a := 1, b := ((\<lambda>_. 0)(a := 1)) b + 1)) ((\<lambda>_. 0)(n := 1)) k"
  shows "ref_ok k0 (crfree n (uifree a (uifree b k)))"
proof (rule refuse1 [where H = "{}"])
  have "((\<lambda>_. 0::int)(a := 1, b := ((\<lambda>_. 0)(a := 1)) b + 1))(b := ((\<lambda>_. 0::int)(a := 1, b := ((\<lambda>_. 0)(a := 1)) b + 1)) b - 1)
      = (\<lambda>_. 0)(a := 1)" by (auto simp: fun_eq_iff)
  then show "prep k0 n {} ((\<lambda>_. 0)(a := 1)) ((\<lambda>_. 0)(n := 1)) (uifree b k)"
    using prep_uifree [OF p, of b] by simp
qed

text \<open>The outcome, from the two ways a call can end.\<close>

lemma outcomeI:
  assumes "fin_ok k0 p cr pc' kf" and "ref_ok k0 kr"
    and "r = (if \<not> perm \<and> suser_cred k0 old PRISON_ROOT \<noteq> None then (suser_cred k0 old PRISON_ROOT, kr) else (None, kf))"
    and "perm = id_permitted c (ids_of old)" and "id_early_error c = None"
    and "ids_of cr = id_effect c (ids_of old)" and "cr_prison cr = cr_prison old"
    and "pc' = sugid pc \<or> pc' = pc \<and> ids_of cr = ids_of old"
  shows "id_outcome k0 p pc old c r"
proof (cases "perm \<or> id_priv k0 old")
  case True
  then have r: "r = (None, kf)" using assms(3) by (auto simp: id_priv_def)
  have "\<exists>cr pc'. id_done k0 p cr pc' kf \<and> ids_of cr = id_effect c (ids_of old) \<and>
          cr_prison cr = cr_prison old \<and> (pc' = sugid pc \<or> pc' = pc \<and> ids_of cr = ids_of old)"
    by (rule exI [of _ cr], rule exI [of _ pc']) (use assms in \<open>auto simp: fin_ok_def\<close>)
  moreover have "cred_inv0 kf" using assms(1) by (simp add: fin_ok_def)
  ultimately show ?thesis unfolding id_outcome_def id_step_def r
    using True assms(4,5) by simp
next
  case False
  then have r: "r = (Some EPERM, kr)" using assms(3) by (auto simp: id_priv_def suser_prison_root split: if_splits)
  show ?thesis unfolding id_outcome_def id_step_def r
    using False assms by (auto simp: ref_ok_def)
qed

lemma not_imp_perm: "(if a \<and> b \<and> e then x else y) = (if \<not> (\<not> a \<or> \<not> b) \<and> e then x else y)"
  by simp

lemma not_not_perm: "r = (if a \<and> e then x else y) \<Longrightarrow> r = (if \<not> (\<not> a) \<and> e then x else y)"
  by simp

lemmas cred_if = if_distrib [of cr_uid] if_distrib [of cr_ruid] if_distrib [of cr_svuid]
  if_distrib [of cr_rgid] if_distrib [of cr_svgid] if_distrib [of cr_ngroups] if_distrib [of cr_groups]
  if_distrib [of cr_prison] if_distrib [of "\<lambda>x. x ! 0"]

lemma keep_if: "(if u \<noteq> NOID \<and> x \<noteq> u then u else x) = keep u x"
  by (simp add: keep_def)

lemma sugid_if: "sugid (if b then x else y) = (if b then sugid x else sugid y)"
  "p_ucred (if b then x else y) = (if b then p_ucred x else p_ucred y)"
  by simp_all

lemma held1: "(a, u) \<in> {(a, u)}" and held2: "(a, u) \<in> {(b, v), (a, u)}" "(b, v) \<in> {(b, v), (a, u)}"
  by simp_all

lemma prep2:
  assumes "cred_inv0 k0" and "crget k0 = (n, k1)" and "uifind id u k1 = (a, k2)" and "uifind id v k2 = (b, k3)"
  shows "prep k0 n {(b, v), (a, u)} ((\<lambda>_. 0)(a := 1, b := ((\<lambda>_. 0)(a := 1)) b + 1)) ((\<lambda>_. 0)(n := 1)) k3"
  using prep_uifind [OF prep_uifind [OF prep_crget [OF assms(1,2)] assms(3)] assms(4)] by simp

lemma setuid_outcome:
  assumes inv: "cred_inv0 k0" and r: "runs k0 td p pc old"
  shows "id_outcome k0 p pc old (Setuid u) (setuid td u k0)"
proof -
  obtain n k1 where c: "crget k0 = (n, k1)" by fastforce
  obtain a k2 where f: "uifind id u k1 = (a, k2)" by fastforce
  note p2 = prep_uifind [OF prep_crget [OF inv c] f, simplified]
  note facts = prep_facts [OF p2 r]
  define k3 where "k3 = crcopy n (p_ucred pc) k2"
  define k4 where "k4 = (if u \<noteq> cr_ruid old then setsugid p (change_ruid n a k3) else k3)"
  define k5 where "k5 = (if u \<noteq> cr_svuid old then setsugid p (change_svuid n u k4) else k4)"
  define k6 where "k6 = (if u \<noteq> cr_uid old then setsugid p (change_euid n a k5) else k5)"
  define e where "e = suser_cred k0 old PRISON_ROOT"
  have run: "setuid td u k0 =
      (if u \<noteq> cr_ruid old \<and> u \<noteq> cr_uid old \<and> e \<noteq> None
       then (e, crfree n (uifree a k2))
       else (None, crfree (p_ucred pc) (uifree a (put_proc p ((the_proc k6 p)\<lparr>p_ucred := n\<rparr>) k6))))"
    unfolding setuid_def Let_def c f facts prod.case e_def k3_def k4_def k5_def k6_def ..
  note e3 = prep_crcopy [OF p2 facts(8,7) runs_full [OF inv r], folded k3_def]
  note e4 = edit_of_ruid_if [OF e3 held1, where b = "u \<noteq> cr_ruid old", folded k4_def]
  note e5 = edit_of_svuid_if [OF e4, where b = "u \<noteq> cr_svuid old" and u = u, folded k5_def]
  note e6 = edit_of_euid_if [OF e5 held1, where b = "u \<noteq> cr_uid old", folded k6_def]
  note fin = finish1 [OF e6 facts(6,7)]
  show ?thesis
    by (rule outcomeI [OF fin refuse1 [OF p2] run [unfolded e_def not_imp_perm]]) (auto simp: ids_of_def)
qed

lemma seteuid_outcome:
  assumes inv: "cred_inv0 k0" and r: "runs k0 td p pc old"
  shows "id_outcome k0 p pc old (Seteuid u) (seteuid td u k0)"
proof -
  obtain n k1 where c: "crget k0 = (n, k1)" by fastforce
  obtain a k2 where f: "uifind id u k1 = (a, k2)" by fastforce
  note p2 = prep_uifind [OF prep_crget [OF inv c] f, simplified]
  note facts = prep_facts [OF p2 r]
  define k3 where "k3 = crcopy n (p_ucred pc) k2"
  define k4 where "k4 = (if cr_uid old \<noteq> u then setsugid p (change_euid n a k3) else k3)"
  have run: "seteuid td u k0 =
      (if u \<noteq> cr_ruid old \<and> u \<noteq> cr_svuid old \<and> suser_cred k0 old PRISON_ROOT \<noteq> None
       then (suser_cred k0 old PRISON_ROOT, crfree n (uifree a k2))
       else (None, crfree (p_ucred pc) (uifree a (put_proc p ((the_proc k4 p)\<lparr>p_ucred := n\<rparr>) k4))))"
    unfolding seteuid_def Let_def c f facts prod.case k3_def k4_def ..
  note e3 = prep_crcopy [OF p2 facts(8,7) runs_full [OF inv r], folded k3_def]
  note e4 = edit_of_euid_if [OF e3 held1, where b = "cr_uid old \<noteq> u", folded k4_def]
  show ?thesis
    by (rule outcomeI [OF finish1 [OF e4 facts(6,7)] refuse1 [OF p2] run [unfolded not_imp_perm]]) (auto simp: ids_of_def)
qed

lemma setgid_outcome:
  assumes inv: "cred_inv0 k0" and r: "runs k0 td p pc old"
  shows "id_outcome k0 p pc old (Setgid g) (setgid td g k0)"
proof -
  obtain n k1 where c: "crget k0 = (n, k1)" by fastforce
  note p1 = prep_crget [OF inv c]
  note facts = prep_facts [OF p1 r]
  define k2 where "k2 = crcopy n (p_ucred pc) k1"
  define k3 where "k3 = (if cr_rgid old \<noteq> g then setsugid p (change_rgid n g k2) else k2)"
  define k4 where "k4 = (if cr_svgid old \<noteq> g then setsugid p (change_svgid n g k3) else k3)"
  define k5 where "k5 = (if cr_groups old ! 0 \<noteq> g then setsugid p (change_egid n g k4) else k4)"
  have run: "setgid td g k0 =
      (if g \<noteq> cr_rgid old \<and> g \<noteq> cr_groups old ! 0 \<and> suser_cred k0 old PRISON_ROOT \<noteq> None
       then (suser_cred k0 old PRISON_ROOT, crfree n k1)
       else (None, crfree (p_ucred pc) (put_proc p ((the_proc k5 p)\<lparr>p_ucred := n\<rparr>) k5)))"
    unfolding setgid_def Let_def c facts prod.case k2_def k3_def k4_def k5_def ..
  note e2 = prep_crcopy [OF p1 facts(8,7) runs_full [OF inv r], folded k2_def]
  note e3 = edit_of_rgid_if [OF e2, where u = g and b = "cr_rgid old \<noteq> g", folded k3_def]
  note e4 = edit_of_svgid_if [OF e3, where u = g and b = "cr_svgid old \<noteq> g", folded k4_def]
  note e5 = edit_of_egid_if [OF e4, where u = g and b = "cr_groups old ! 0 \<noteq> g", folded k5_def]
  have len: "cr_groups old \<noteq> []"
    using runs_groups [OF inv r] by (auto simp: NGROUPS_def)
  show ?thesis
    by (rule outcomeI [OF finish0 [OF e5 facts(6,7)] refuse0 [OF p1] run [unfolded not_imp_perm]])
       (use len in \<open>auto simp: ids_of_def\<close>)
qed

lemma setegid_outcome:
  assumes inv: "cred_inv0 k0" and r: "runs k0 td p pc old"
  shows "id_outcome k0 p pc old (Setegid g) (setegid td g k0)"
proof -
  obtain n k1 where c: "crget k0 = (n, k1)" by fastforce
  note p1 = prep_crget [OF inv c]
  note facts = prep_facts [OF p1 r]
  define k2 where "k2 = crcopy n (p_ucred pc) k1"
  define k3 where "k3 = (if cr_groups old ! 0 \<noteq> g then setsugid p (change_egid n g k2) else k2)"
  have run: "setegid td g k0 =
      (if g \<noteq> cr_rgid old \<and> g \<noteq> cr_svgid old \<and> suser_cred k0 old PRISON_ROOT \<noteq> None
       then (suser_cred k0 old PRISON_ROOT, crfree n k1)
       else (None, crfree (p_ucred pc) (put_proc p ((the_proc k3 p)\<lparr>p_ucred := n\<rparr>) k3)))"
    unfolding setegid_def Let_def c facts prod.case k2_def k3_def ..
  note e2 = prep_crcopy [OF p1 facts(8,7) runs_full [OF inv r], folded k2_def]
  note e3 = edit_of_egid_if [OF e2, where u = g and b = "cr_groups old ! 0 \<noteq> g", folded k3_def]
  have len: "cr_groups old \<noteq> []"
    using runs_groups [OF inv r] by (auto simp: NGROUPS_def)
  show ?thesis
    by (rule outcomeI [OF finish0 [OF e3 facts(6,7)] refuse0 [OF p1] run [unfolded not_imp_perm]])
       (use len in \<open>auto simp: ids_of_def\<close>)
qed

lemma setreuid_outcome:
  assumes inv: "cred_inv0 k0" and r: "runs k0 td p pc old"
  shows "id_outcome k0 p pc old (Setreuid ru eu) (setreuid td ru eu k0)"
proof -
  obtain n k1 where c: "crget k0 = (n, k1)" by fastforce
  obtain a k2 where fa: "uifind id eu k1 = (a, k2)" by fastforce
  obtain b k3 where fb: "uifind id ru k2 = (b, k3)" by fastforce
  note p3 = prep2 [OF inv c fa fb]
  note facts = prep_facts [OF p3 r]
  define k4 where "k4 = crcopy n (p_ucred pc) k3"
  define k5 where "k5 = (if eu \<noteq> NOID \<and> cr_uid old \<noteq> eu then setsugid p (change_euid n a k4) else k4)"
  define k6 where "k6 = (if ru \<noteq> NOID \<and> cr_ruid old \<noteq> ru then setsugid p (change_ruid n b k5) else k5)"
  define new where "new = the_cred k6 n"
  define cond where "cond \<longleftrightarrow> (ru \<noteq> NOID \<or> cr_uid new \<noteq> cr_ruid new) \<and> cr_svuid new \<noteq> cr_uid new"
  define k7 where "k7 = (if cond then setsugid p (change_svuid n (cr_uid new) k6) else k6)"
  have run: "setreuid td ru eu k0 =
      (if ((ru \<noteq> NOID \<and> ru \<noteq> cr_ruid old \<and> ru \<noteq> cr_svuid old) \<or>
           (eu \<noteq> NOID \<and> eu \<noteq> cr_uid old \<and> eu \<noteq> cr_ruid old \<and> eu \<noteq> cr_svuid old)) \<and>
          suser_cred k0 old PRISON_ROOT \<noteq> None
       then (suser_cred k0 old PRISON_ROOT, crfree n (uifree a (uifree b k3)))
       else (None, crfree (p_ucred pc) (uifree a (uifree b (put_proc p ((the_proc k7 p)\<lparr>p_ucred := n\<rparr>) k7)))))"
    unfolding setreuid_def Let_def c fa fb facts prod.case k4_def k5_def k6_def k7_def new_def cond_def ..
  note e4 = prep_crcopy [OF p3 facts(8,7) runs_full [OF inv r], folded k4_def]
  note e5 = edit_of_euid_if [OF e4 held2(1), where b = "eu \<noteq> NOID \<and> cr_uid old \<noteq> eu", folded k5_def]
  note e6 = edit_of_ruid_if [OF e5 held2(2), where b = "ru \<noteq> NOID \<and> cr_ruid old \<noteq> ru", folded k6_def]
  note e7 = edit_of_svuid_if [OF e6, where b = cond and u = "cr_uid new", folded k7_def]
  have "k_cred k6 n = Some (if ru \<noteq> NOID \<and> cr_ruid old \<noteq> ru
      then (if eu \<noteq> NOID \<and> cr_uid old \<noteq> eu then old\<lparr>cr_ref := 1, cr_uid := eu, cr_uidinfo := Some a\<rparr>
            else old\<lparr>cr_ref := 1\<rparr>)\<lparr>cr_ruid := ru, cr_ruidinfo := Some b\<rparr>
      else if eu \<noteq> NOID \<and> cr_uid old \<noteq> eu then old\<lparr>cr_ref := 1, cr_uid := eu, cr_uidinfo := Some a\<rparr>
      else old\<lparr>cr_ref := 1\<rparr>)"
    using e6 by (simp only: edit_of_def editing_def)
  then have new: "cr_uid new = keep eu (cr_uid old)" "cr_ruid new = keep ru (cr_ruid old)" "cr_svuid new = cr_svuid old"
    unfolding new_def keep_def by auto
  show ?thesis
  proof (rule outcomeI [OF finish2 [OF e7 facts(6,7)] refuse2 [OF p3] not_not_perm [OF run]], goal_cases)
    case 1 show ?case by (simp add: sugid_if)
  next
    case 2 show ?case by (simp add: ids_of_def among_def) blast
  next
    case 4 show ?case
      by (cases "eu = NOID"; cases "ru = NOID"; cases "cr_uid old = eu"; cases "cr_ruid old = ru")
         (simp_all add: ids_of_def keep_def cond_def new Let_def)
  next
    case 6
    show ?case
    proof (cases "cond \<or> (ru \<noteq> NOID \<and> cr_ruid old \<noteq> ru) \<or> (eu \<noteq> NOID \<and> cr_uid old \<noteq> eu)")
      case True
      then show ?thesis by (intro disjI1) (simp only: sugid_if sugid_idem if_cancel, metis)
    next
      case False
      then show ?thesis by (auto simp: ids_of_def)
    qed
  qed (simp_all add: cred_if)
qed

lemma setregid_outcome:
  assumes inv: "cred_inv0 k0" and r: "runs k0 td p pc old"
  shows "id_outcome k0 p pc old (Setregid rg eg) (setregid td rg eg k0)"
proof -
  obtain n k1 where c: "crget k0 = (n, k1)" by fastforce
  note p1 = prep_crget [OF inv c]
  note facts = prep_facts [OF p1 r]
  define k2 where "k2 = crcopy n (p_ucred pc) k1"
  define k3 where "k3 = (if eg \<noteq> NOID \<and> cr_groups old ! 0 \<noteq> eg then setsugid p (change_egid n eg k2) else k2)"
  define k4 where "k4 = (if rg \<noteq> NOID \<and> cr_rgid old \<noteq> rg then setsugid p (change_rgid n rg k3) else k3)"
  define new where "new = the_cred k4 n"
  define cond where "cond \<longleftrightarrow> (rg \<noteq> NOID \<or> cr_groups new ! 0 \<noteq> cr_rgid new) \<and> cr_svgid new \<noteq> cr_groups new ! 0"
  define k5 where "k5 = (if cond then setsugid p (change_svgid n (cr_groups new ! 0) k4) else k4)"
  have run: "setregid td rg eg k0 =
      (if ((rg \<noteq> NOID \<and> rg \<noteq> cr_rgid old \<and> rg \<noteq> cr_svgid old) \<or>
           (eg \<noteq> NOID \<and> eg \<noteq> cr_groups old ! 0 \<and> eg \<noteq> cr_rgid old \<and> eg \<noteq> cr_svgid old)) \<and>
          suser_cred k0 old PRISON_ROOT \<noteq> None
       then (suser_cred k0 old PRISON_ROOT, crfree n k1)
       else (None, crfree (p_ucred pc) (put_proc p ((the_proc k5 p)\<lparr>p_ucred := n\<rparr>) k5)))"
    unfolding setregid_def Let_def c facts prod.case k2_def k3_def k4_def k5_def new_def cond_def ..
  note e2 = prep_crcopy [OF p1 facts(8,7) runs_full [OF inv r], folded k2_def]
  note e3 = edit_of_egid_if [OF e2, where b = "eg \<noteq> NOID \<and> cr_groups old ! 0 \<noteq> eg" and u = eg, folded k3_def]
  note e4 = edit_of_rgid_if [OF e3, where b = "rg \<noteq> NOID \<and> cr_rgid old \<noteq> rg" and u = rg, folded k4_def]
  note e5 = edit_of_svgid_if [OF e4, where b = cond and u = "cr_groups new ! 0", folded k5_def]
  have len: "cr_groups old \<noteq> []"
    using runs_groups [OF inv r] by (auto simp: NGROUPS_def)
  have "k_cred k4 n = Some (if rg \<noteq> NOID \<and> cr_rgid old \<noteq> rg
      then (if eg \<noteq> NOID \<and> cr_groups old ! 0 \<noteq> eg then old\<lparr>cr_ref := 1, cr_groups := (cr_groups (old\<lparr>cr_ref := 1\<rparr>))[0 := eg]\<rparr>
            else old\<lparr>cr_ref := 1\<rparr>)\<lparr>cr_rgid := rg\<rparr>
      else if eg \<noteq> NOID \<and> cr_groups old ! 0 \<noteq> eg then old\<lparr>cr_ref := 1, cr_groups := (cr_groups (old\<lparr>cr_ref := 1\<rparr>))[0 := eg]\<rparr>
      else old\<lparr>cr_ref := 1\<rparr>)"
    using e4 by (simp only: edit_of_def editing_def)
  then have new: "cr_groups new ! 0 = keep eg (cr_groups old ! 0)" "cr_rgid new = keep rg (cr_rgid old)" "cr_svgid new = cr_svgid old"
    using len unfolding new_def keep_def by auto
  show ?thesis
  proof (rule outcomeI [OF finish0 [OF e5 facts(6,7)] refuse0 [OF p1] not_not_perm [OF run]], goal_cases)
    case 1 show ?case by (simp add: sugid_if)
  next
    case 2 show ?case by (simp add: ids_of_def among_def) blast
  next
    case 4 show ?case
      by (cases "eg = NOID"; cases "rg = NOID"; cases "cr_groups old ! 0 = eg"; cases "cr_rgid old = rg")
         (simp_all add: ids_of_def keep_def cond_def new len Let_def)
  next
    case 6
    show ?case
    proof (cases "cond \<or> (rg \<noteq> NOID \<and> cr_rgid old \<noteq> rg) \<or> (eg \<noteq> NOID \<and> cr_groups old ! 0 \<noteq> eg)")
      case True
      then show ?thesis by (intro disjI1) (simp only: sugid_if sugid_idem if_cancel, metis)
    next
      case False
      then show ?thesis by (auto simp: ids_of_def)
    qed
  qed (simp_all add: cred_if)
qed

lemma setresuid_outcome:
  assumes inv: "cred_inv0 k0" and r: "runs k0 td p pc old"
  shows "id_outcome k0 p pc old (Setresuid ru eu su) (setresuid td ru eu su k0)"
proof -
  obtain n k1 where c: "crget k0 = (n, k1)" by fastforce
  obtain a k2 where fa: "uifind id eu k1 = (a, k2)" by fastforce
  obtain b k3 where fb: "uifind id ru k2 = (b, k3)" by fastforce
  note p3 = prep2 [OF inv c fa fb]
  note facts = prep_facts [OF p3 r]
  define k4 where "k4 = crcopy n (p_ucred pc) k3"
  define k5 where "k5 = (if eu \<noteq> NOID \<and> cr_uid old \<noteq> eu then setsugid p (change_euid n a k4) else k4)"
  define k6 where "k6 = (if ru \<noteq> NOID \<and> cr_ruid old \<noteq> ru then setsugid p (change_ruid n b k5) else k5)"
  define k7 where "k7 = (if su \<noteq> NOID \<and> cr_svuid old \<noteq> su then setsugid p (change_svuid n su k6) else k6)"
  have run: "setresuid td ru eu su k0 =
      (if ((ru \<noteq> NOID \<and> ru \<noteq> cr_ruid old \<and> ru \<noteq> cr_svuid old \<and> ru \<noteq> cr_uid old) \<or>
           (eu \<noteq> NOID \<and> eu \<noteq> cr_ruid old \<and> eu \<noteq> cr_svuid old \<and> eu \<noteq> cr_uid old) \<or>
           (su \<noteq> NOID \<and> su \<noteq> cr_ruid old \<and> su \<noteq> cr_svuid old \<and> su \<noteq> cr_uid old)) \<and>
          suser_cred k0 old PRISON_ROOT \<noteq> None
       then (suser_cred k0 old PRISON_ROOT, crfree n (uifree a (uifree b k3)))
       else (None, crfree (p_ucred pc) (uifree a (uifree b (put_proc p ((the_proc k7 p)\<lparr>p_ucred := n\<rparr>) k7)))))"
    unfolding setresuid_def Let_def c fa fb facts prod.case k4_def k5_def k6_def k7_def ..
  note e4 = prep_crcopy [OF p3 facts(8,7) runs_full [OF inv r], folded k4_def]
  note e5 = edit_of_euid_if [OF e4 held2(1), where b = "eu \<noteq> NOID \<and> cr_uid old \<noteq> eu", folded k5_def]
  note e6 = edit_of_ruid_if [OF e5 held2(2), where b = "ru \<noteq> NOID \<and> cr_ruid old \<noteq> ru", folded k6_def]
  note e7 = edit_of_svuid_if [OF e6, where b = "su \<noteq> NOID \<and> cr_svuid old \<noteq> su" and u = su, folded k7_def]
  show ?thesis
    by (rule outcomeI [OF finish2 [OF e7 facts(6,7)] refuse2 [OF p3] not_not_perm [OF run]])
       (simp_all add: ids_of_def keep_def among_def cred_if sugid_if, blast)
qed

lemma setresgid_outcome:
  assumes inv: "cred_inv0 k0" and r: "runs k0 td p pc old"
  shows "id_outcome k0 p pc old (Setresgid rg eg sg) (setresgid td rg eg sg k0)"
proof -
  obtain n k1 where c: "crget k0 = (n, k1)" by fastforce
  note p1 = prep_crget [OF inv c]
  note facts = prep_facts [OF p1 r]
  define k2 where "k2 = crcopy n (p_ucred pc) k1"
  define k3 where "k3 = (if eg \<noteq> NOID \<and> cr_groups old ! 0 \<noteq> eg then setsugid p (change_egid n eg k2) else k2)"
  define k4 where "k4 = (if rg \<noteq> NOID \<and> cr_rgid old \<noteq> rg then setsugid p (change_rgid n rg k3) else k3)"
  define k5 where "k5 = (if sg \<noteq> NOID \<and> cr_svgid old \<noteq> sg then setsugid p (change_svgid n sg k4) else k4)"
  have run: "setresgid td rg eg sg k0 =
      (if ((rg \<noteq> NOID \<and> rg \<noteq> cr_rgid old \<and> rg \<noteq> cr_svgid old \<and> rg \<noteq> cr_groups old ! 0) \<or>
           (eg \<noteq> NOID \<and> eg \<noteq> cr_rgid old \<and> eg \<noteq> cr_svgid old \<and> eg \<noteq> cr_groups old ! 0) \<or>
           (sg \<noteq> NOID \<and> sg \<noteq> cr_rgid old \<and> sg \<noteq> cr_svgid old \<and> sg \<noteq> cr_groups old ! 0)) \<and>
          suser_cred k0 old PRISON_ROOT \<noteq> None
       then (suser_cred k0 old PRISON_ROOT, crfree n k1)
       else (None, crfree (p_ucred pc) (put_proc p ((the_proc k5 p)\<lparr>p_ucred := n\<rparr>) k5)))"
    unfolding setresgid_def Let_def c facts prod.case k2_def k3_def k4_def k5_def ..
  note e2 = prep_crcopy [OF p1 facts(8,7) runs_full [OF inv r], folded k2_def]
  note e3 = edit_of_egid_if [OF e2, where b = "eg \<noteq> NOID \<and> cr_groups old ! 0 \<noteq> eg" and u = eg, folded k3_def]
  note e4 = edit_of_rgid_if [OF e3, where b = "rg \<noteq> NOID \<and> cr_rgid old \<noteq> rg" and u = rg, folded k4_def]
  note e5 = edit_of_svgid_if [OF e4, where b = "sg \<noteq> NOID \<and> cr_svgid old \<noteq> sg" and u = sg, folded k5_def]
  have len: "cr_groups old \<noteq> []"
    using runs_groups [OF inv r] by (auto simp: NGROUPS_def)
  show ?thesis
    by (rule outcomeI [OF finish0 [OF e5 facts(6,7)] refuse0 [OF p1] not_not_perm [OF run]])
       (use len in \<open>simp_all add: ids_of_def keep_def among_def cred_if sugid_if\<close>, blast)
qed

lemma prep_put_temp:
  assumes p: "prep k0 t {} X Y k" and len: "length gs = NGROUPS"
  shows "cred_inv X Y (\<lambda>_. 0) (put_cred t (zero_cred\<lparr>cr_ref := 1, cr_groups := gs\<rparr>) k)"
proof -
  have inv: "cred_inv X Y (\<lambda>_. 0) k" and t: "k_cred k t = Some (zero_cred\<lparr>cr_ref := 1\<rparr>)" "cr_refs k t = 0"
    using p by (simp_all add: prep_def)
  show ?thesis
    by (rule cred_inv_put_cred [OF inv t(1)])
       (use t(2) len cred_invD(6,8) [OF inv] in \<open>auto simp: ui_use_def pr_use_def zero_cred_def cred_ok_def\<close>)
qed

lemma edit_of_put:
  assumes e: "edit_of k0 p n H cr pc X Y k" and len: "length (cr_groups cr') = NGROUPS" "cr_ngroups cr' \<le> NGROUPS" "1 \<le> cr_ngroups cr'"
    and same: "cr' = cr\<lparr>cr_groups := cr_groups cr', cr_ngroups := cr_ngroups cr'\<rparr>"
  shows "edit_of k0 p n H cr' pc X Y (put_cred n cr' k)"
proof -
  have ed: "editing n cr X Y (\<lambda>_. 0) k" using e by (simp add: edit_of_def)
  have s: "cr_ref cr' = cr_ref cr" "cr_uidinfo cr' = cr_uidinfo cr" "cr_ruidinfo cr' = cr_ruidinfo cr" "cr_prison cr' = cr_prison cr"
    "cr_uid cr' = cr_uid cr" "cr_ruid cr' = cr_ruid cr"
    by (subst same; simp)+
  have "cred_ok k cr'" "cred_full cr'"
    using editing_ok [OF ed] ed len s by (simp_all add: cred_ok_def cred_full_def editing_def)
  then show ?thesis using e editing_put [OF ed _ _ s(1-4)] by (simp add: edit_of_def)
qed

lemma crfree_temp:
  assumes t: "k_cred k t = Some (zero_cred\<lparr>cr_ref := 1, cr_groups := gs\<rparr>)"
  shows "k_cred (crfree t k) = (k_cred k)(t := None)"
  using crfree_last [OF t] by (simp add: drop_ui_def drop_pr_def zero_cred_def)

lemma installed_temp:
  assumes i: "installed k2 p n oc cr pc X ((\<lambda>_. 0)(t := 1)) k" and t: "t \<noteq> n" "t \<noteq> oc"
    and kt: "k_cred k2 t = Some (zero_cred\<lparr>cr_ref := 1, cr_groups := gs\<rparr>)"
    and k2: "k_cred k0 t = None" "k_cred k2 = (k_cred k0)(t \<mapsto> x)" "k_proc k2 = k_proc k0" "k_thread k2 = k_thread k0"
  shows "installed k0 p n oc cr pc X (\<lambda>_. 0) (crfree t k)"
proof -
  have inv: "cred_inv X ((\<lambda>_. 0)(t := 1, oc := 1)) (\<lambda>_. 0) k"
    using i t by (simp add: installed_def)
  have "cred_inv X ((\<lambda>_. 0)(t := 1, oc := 1, t := 0)) (\<lambda>_. 0) (crfree t k)"
    using cred_inv_crfree [OF inv, of t] t by simp
  moreover have "(\<lambda>_. 0::int)(t := 1, oc := 1, t := 0) = (\<lambda>_. 0)(oc := 1)" using t by (auto simp: fun_eq_iff)
  moreover have "k_cred k t = Some (zero_cred\<lparr>cr_ref := 1, cr_groups := gs\<rparr>)" using i t kt by (simp add: installed_def)
  ultimately show ?thesis
    using i k2 t crfree_temp by (auto simp: installed_def frame_simps)
qed

lemma setgroups_outcome:
  assumes inv: "cred_inv0 k0" and r: "runs k0 td p pc old" and len: "\<And>g. c = Inr g \<Longrightarrow> length g = ngrp"
  shows "id_outcome k0 p pc old (Setgroups ngrp c) (setgroups td ngrp c k0)"
proof (cases "ngrp > NGROUPS")
  case True
  then show ?thesis using inv by (simp add: setgroups_def id_outcome_def id_step_def id_refused_def)
next
  case small: False
  obtain t k1 where ct: "crget k0 = (t, k1)" by fastforce
  note p1 = prep_crget [OF inv ct]
  show ?thesis
  proof (cases c)
    case (Inl e)
    then show ?thesis
      using refuse0 [OF p1] small by (simp add: setgroups_def ct id_outcome_def id_step_def ref_ok_def)
  next
    case (Inr gids)
    define k2 where "k2 = put_cred t (zero_cred\<lparr>cr_ref := 1, cr_groups := gids @ drop ngrp (replicate NGROUPS 0)\<rparr>) k1"
    have lg: "length gids = ngrp" using len Inr by blast
    have inv2: "cred_inv (\<lambda>_. 0) ((\<lambda>_. 0)(t := 1)) (\<lambda>_. 0) k2"
      unfolding k2_def by (rule prep_put_temp [OF p1]) (use lg small in simp)
    have kt: "k_cred k2 t = Some (zero_cred\<lparr>cr_ref := 1, cr_groups := gids @ drop ngrp (replicate NGROUPS 0)\<rparr>)"
      by (simp add: k2_def)
    have frame2: "k_cred k0 t = None" "k_cred k2 = (k_cred k0)(t \<mapsto> the_cred k2 t)" "k_proc k2 = k_proc k0" "k_thread k2 = k_thread k0"
      "suser_enabled k2 = suser_enabled k0"
      using p1 by (simp_all add: prep_def k2_def)
    obtain n k3 where cn: "crget k2 = (n, k3)" by fastforce
    note p3 = prep_crget [OF inv2 cn]
    have ot: "t \<noteq> p_ucred pc" using frame2(1) r by (auto simp: runs_def)
    have r2: "runs k2 td p pc old" using r ot unfolding runs_def frame2(3,4) by (subst frame2(2)) simp
    note facts = prep_facts [OF p3 r2]
    have nt: "n \<noteq> t" using facts(6) kt by auto
    define kr where "kr = crfree t (crfree n k3)"
    have refuse: "ref_ok k0 kr"
    proof -
      have y: "((\<lambda>_. 0::int)(t := 1, n := 1)) n = 1" by simp
      have "((\<lambda>_. 0::int)(t := 1, n := 1))(n := 0) = (\<lambda>_. 0)(t := 1)" using nt by (auto simp: fun_eq_iff)
      note rf = prep_refused [OF p3 y, unfolded this]
      have "cred_inv0 kr"
        using cred_inv_crfree [OF rf(1), of t] by (simp add: kr_def)
      moreover have "k_cred (crfree n k3) t = k_cred k2 t" using rf(2) by (simp add: id_refused_def)
      ultimately show ?thesis
        using rf(2) crfree_temp kt frame2
        unfolding ref_ok_def id_refused_def kr_def by (simp add: frame_simps fun_upd_idem)
    qed
    define k4 where "k4 = crcopy n (p_ucred pc) k3"
    define cr where "cr = (if ngrp < 1 then old\<lparr>cr_ref := 1, cr_ngroups := 1\<rparr>
      else old\<lparr>cr_ref := 1, cr_groups := gids @ drop ngrp (cr_groups old), cr_ngroups := ngrp\<rparr>)"
    define k6 where "k6 = setsugid p (put_cred n cr k4)"
    define kf where "kf = crfree (p_ucred pc) (crfree t (put_proc p ((the_proc k6 p)\<lparr>p_ucred := n\<rparr>) k6))"
    have old2: "cred_full old" "length (cr_groups old) = NGROUPS" using runs_full [OF inv r] runs_groups [OF inv r] .
    note e4 = prep_crcopy [OF p3 facts(8,7) old2(1), folded k4_def]
    have e5: "edit_of k2 p n {} cr pc (\<lambda>_. 0) ((\<lambda>_. 0)(t := 1, n := 1)) (put_cred n cr k4)"
      by (rule edit_of_put [OF e4]) (use lg small old2(2) in \<open>simp_all add: cr_def NGROUPS_def\<close>)
    note e6 = edit_of_setsugid [OF e5, folded k6_def]
    have fin: "fin_ok k0 p cr (sugid pc) kf"
    proof -
      have "installed k2 p n (p_ucred pc) cr (sugid pc) (\<lambda>_. 0) ((\<lambda>_. 0)(t := 1)) (put_proc p ((the_proc k6 p)\<lparr>p_ucred := n\<rparr>) k6)"
        using edit_of_install [OF e6] nt facts(5) by simp
      then have i: "installed k0 p n (p_ucred pc) cr (sugid pc) (\<lambda>_. 0) (\<lambda>_. 0) (crfree t (put_proc p ((the_proc k6 p)\<lparr>p_ucred := n\<rparr>) k6))"
        by (intro installed_temp [OF _ _ ot kt frame2(1-4)]) (use nt in simp_all)
      have "k_cred k0 n = None" using facts(6) nt by (subst (asm) frame2(2)) simp
      moreover have "k_cred k0 (p_ucred pc) = Some old" using r by (simp add: runs_def)
      ultimately show ?thesis unfolding fin_ok_def kf_def using installed_done [OF i] by simp
    qed
    have the: "the_cred k4 n = old\<lparr>cr_ref := 1\<rparr>" "k_cred k4 t = k_cred k2 t"
      using e4 nt by (simp_all add: edit_of_def editing_def)
    have tk: "the_cred k1 t = zero_cred\<lparr>cr_ref := 1\<rparr>" using p1 by (simp add: prep_def)
    have k5: "(if ngrp < 1 then put_cred n ((the_cred k4 n)\<lparr>cr_ngroups := 1\<rparr>) k4
        else put_cred n ((the_cred k4 n)\<lparr>cr_groups := take ngrp (cr_groups (the_cred k4 t)) @ drop ngrp (cr_groups (the_cred k4 n)),
                            cr_ngroups := ngrp\<rparr>) k4) = put_cred n cr k4"
      by (simp add: the kt cr_def lg)
    have k2: "put_cred t ((the_cred k1 t)\<lparr>cr_groups := gids @ drop ngrp (cr_groups (the_cred k1 t))\<rparr>) k1 = k2"
      unfolding k2_def tk by (simp add: zero_cred_def)
    have p: "td_proc (the_thread k0 td) = p" using r by (auto simp: runs_def)
    have prv: "suser_cred k2 old PRISON_ROOT = suser_cred k0 old PRISON_ROOT"
      using frame2(5) by (simp add: suser_cred_def)
    have "setgroups td ngrp c k0 = (if suser_cred k0 old PRISON_ROOT \<noteq> None then (suser_cred k0 old PRISON_ROOT, crfree t (crfree n k3)) else (None, kf))"
      using small unfolding setgroups_def Let_def ct Inr prod.case sum.case k2 cn p facts k4_def [symmetric] k5 k6_def [symmetric] kf_def [symmetric] prv
      by simp
    then have run: "setgroups td ngrp c k0 = (if suser_cred k0 old PRISON_ROOT \<noteq> None then (suser_cred k0 old PRISON_ROOT, kr) else (None, kf))"
      by (simp add: kr_def)
    show ?thesis
      by (rule outcomeI [OF fin refuse, where perm = False])
         (use run small in \<open>simp_all add: Inr ids_of_def cr_def\<close>)
  qed
qed

text \<open>What a caller must supply: \<open>copyin\<close> returns as many group ids as were asked for.\<close>

fun id_call_ok :: "id_call \<Rightarrow> bool" where
  "id_call_ok (Setgroups n (Inr gids)) \<longleftrightarrow> length gids = n"
| "id_call_ok _ \<longleftrightarrow> True"

lemmas id_outcomes = setuid_outcome seteuid_outcome setgid_outcome setegid_outcome setgroups_outcome
  setreuid_outcome setregid_outcome setresuid_outcome setresgid_outcome

lemma do_id_call_outcome:
  assumes "cred_inv0 k" and "runs k td p pc old" and "id_call_ok c"
  shows "id_outcome k p pc old c (do_id_call td c k)"
  using assms by (cases c) (auto intro: id_outcomes)

end
