(* ===== verification/Kern_Boot.thy ===== *)
theory Kern_Boot
  imports Kern_Prot_Setids
begin

text \<open>
  A small well-formed kernel: two processes, at 10 and 11, that share the cred at 2 of uid
  \<open>u\<close> gid 100 and saved gid 101, whose uidinfo is at 1; the threads 20 and 21 run them. The theorems
  are applied to it.
\<close>

definition boot_cred :: "uid \<Rightarrow> ucred" where
  "boot_cred u = zero_cred\<lparr>cr_ref := 3, cr_uid := u, cr_ruid := u, cr_svuid := u, cr_ngroups := 2,
     cr_groups := 100 # 101 # replicate 14 0, cr_rgid := 100, cr_svgid := 101,
     cr_uidinfo := Some 1, cr_ruidinfo := Some 1\<rparr>"

definition boot_proc :: "pid \<Rightarrow> proc" where
  "boot_proc pid = \<lparr>p_pid = pid, p_ucred = 2, p_flag = 0, p_pfsflags = 0, p_stops = 0, p_pptr = 0,
     p_children = [], p_pgrp = None, p_state = PRS_NORMAL\<rparr>"

definition boot_kern :: "uid \<Rightarrow> kern" where
  "boot_kern u = \<lparr>k_brk = 3, k_ui = [1 \<mapsto> \<lparr>ui_sbsize = 0, ui_proccnt = 2, ui_uid = u, ui_ref = 2\<rparr>],
     k_uihash = (\<lambda>_. [])(u AND 0xff := [1]), k_uimask = 0xff, k_cred = [2 \<mapsto> boot_cred u],
     k_prison = Map.empty, k_allprison = [], k_lastprid = 0, k_prisoncount = 0,
     k_sess = Map.empty, k_pgrp = Map.empty, k_pgrphash = [], k_ttypgrp = (\<lambda>_. None),
     k_proc = [10 \<mapsto> boot_proc 1, 11 \<mapsto> boot_proc 2], k_allproc = [11, 10],
     k_thread = [20 \<mapsto> \<lparr>td_proc = 10, td_ucred = Some 2\<rparr>, 21 \<mapsto> \<lparr>td_proc = 11, td_ucred = None\<rparr>],
     initproc = 10, suser_enabled = True, securelevel = -1, see_other_uids = True,
     see_other_gids = True, conservative_signals = True, unprivileged_proc_debug = True\<rparr>"

lemma boot_refs:
  "ui_refs (boot_kern u) a = (if a = 1 then 2 else 0)"
  "cr_refs (boot_kern u) c = (if c = 2 then 3 else 0)"
  "pr_refs (boot_kern u) a = 0"
  by (auto simp: ui_refs_def cr_refs_def pr_refs_def msum_def boot_kern_def boot_cred_def boot_proc_def
      ui_use_def pr_use_def zero_cred_def)

lemma boot_inv: "cred_inv0 (boot_kern u)"
proof (rule cred_invI)
  show "balanced k_ui ui_ref (\<lambda>a. 0 + ui_refs (boot_kern u) a) (boot_kern u)"
    by (simp add: balanced_def boot_refs) (simp add: boot_kern_def)
  show "balanced k_cred cr_ref (\<lambda>c. 0 + cr_refs (boot_kern u) c) (boot_kern u)"
    by (simp add: balanced_def boot_refs) (simp add: boot_kern_def boot_cred_def)
  show "balanced k_prison pr_ref (\<lambda>a. 0 + pr_refs (boot_kern u) a) (boot_kern u)"
    by (simp add: balanced_def boot_refs) (simp add: boot_kern_def)
qed (auto simp: boot_kern_def brk_inv_def uihash_inv_def UIHASH_def prison_inv_def cred_ok_def boot_cred_def
      zero_cred_def NGROUPS_def cred_full_def split: if_splits)

lemma boot_runs: "runs (boot_kern u) 20 10 (boot_proc 1) (boot_cred u)"
  "runs (boot_kern u) 21 11 (boot_proc 2) (boot_cred u)"
  by (simp_all add: runs_def boot_kern_def boot_proc_def)

end
