(* ===== verification/Kern_Prot_Theorems.thy ===== *)
theory Kern_Prot_Theorems
  imports Kern_Boot
begin

text \<open>
  What the id calls of kern/kern_prot.c guarantee, for one call and for every sequence of calls
  that a process can make.
\<close>

definition proc_ids :: "kern \<Rightarrow> ptr \<Rightarrow> ids" where
  "proc_ids k p = ids_of (the_cred k (p_ucred (the_proc k p)))"

definition do_id_calls :: "ptr \<Rightarrow> id_call list \<Rightarrow> kern \<Rightarrow> kern" where
  "do_id_calls td cs k = fold (\<lambda>c k. snd (do_id_call td c k)) cs k"

definition uids :: "ids \<Rightarrow> uid set" where "uids i = {i_ruid i, i_euid i, i_svuid i}"
definition gids :: "ids \<Rightarrow> gid set" where "gids i = {i_rgid i, i_egid i, i_svgid i}"

section \<open>One call\<close>

lemma runs_ids: "runs k td p pc cr \<Longrightarrow> proc_ids k p = ids_of cr"
  by (simp add: runs_def proc_ids_def)

lemma ids_of_sel [simp]:
  "i_groups (ids_of cr) = cr_groups cr" "i_ngroups (ids_of cr) = cr_ngroups cr"
  by (simp_all add: ids_of_def)

lemma sugid_flag: "p_flag (sugid pc) = p_flag pc OR P_SUGID"
  by (simp add: sugid_def Let_def)

lemma id_call_result:
  assumes inv: "cred_inv0 k" and r: "runs k td p pc cr" and ok: "id_call_ok c"
  obtains pc' cr' where "runs (snd (do_id_call td c k)) td p pc' cr'"
    and "cred_inv0 (snd (do_id_call td c k))"
    and "(fst (do_id_call td c k), ids_of cr') = id_step (id_priv k cr) c (ids_of cr)"
    and "cr_prison cr' = cr_prison cr"
    and "ids_of cr' = ids_of cr \<or> p_flag pc' = p_flag pc OR P_SUGID"
proof -
  define res where "res = do_id_call td c k"
  have o: "id_outcome k p pc cr c res" unfolding res_def using do_id_call_outcome [OF inv r ok] .
  define out where "out = id_step (id_priv k cr) c (ids_of cr)"
  show thesis
  proof (cases "fst res")
    case (Some e)
    have "snd out = ids_of cr"
      using o Some unfolding id_outcome_def out_def by (auto simp: id_step_def split: option.splits if_splits)
    then have "(fst res, ids_of cr) = out"
      using o unfolding id_outcome_def out_def by (simp add: prod_eq_iff)
    moreover have "runs (snd res) td p pc cr"
      using o Some r unfolding id_outcome_def by (auto simp: id_refused_def runs_def)
    ultimately show ?thesis using that o unfolding id_outcome_def res_def out_def by auto
  next
    case None
    then obtain cr' pc' where d: "id_done k p cr' pc' (snd res)" and i: "ids_of cr' = snd out" "cr_prison cr' = cr_prison cr"
      and pc': "pc' = sugid pc \<or> pc' = pc \<and> ids_of cr' = ids_of cr"
      using o unfolding id_outcome_def out_def by auto
    obtain n where n: "k_cred (snd res) n = Some cr'" "k_proc (snd res) = (k_proc k)(p \<mapsto> pc'\<lparr>p_ucred := n\<rparr>)"
      "k_thread (snd res) = k_thread k"
      using d unfolding id_done_def by blast
    have "runs (snd res) td p (pc'\<lparr>p_ucred := n\<rparr>) cr'" using n r by (auto simp: runs_def)
    moreover have "(fst res, ids_of cr') = out" using o i unfolding id_outcome_def out_def by (simp add: prod_eq_iff)
    moreover have "ids_of cr' = ids_of cr \<or> p_flag (pc'\<lparr>p_ucred := n\<rparr>) = p_flag pc OR P_SUGID"
      using pc' sugid_flag [of pc] by auto
    ultimately show ?thesis using that o i(2) unfolding id_outcome_def res_def out_def by auto
  qed
qed

lemma id_call_others:
  assumes inv: "cred_inv0 k" and r: "runs k td p pc cr" and ok: "id_call_ok c"
  shows "k_thread (snd (do_id_call td c k)) = k_thread k"
    and "q \<noteq> p \<Longrightarrow> k_proc (snd (do_id_call td c k)) q = k_proc k q"
    and "k_cred k d = Some x \<Longrightarrow> k_cred (snd (do_id_call td c k)) d = Some y \<Longrightarrow> \<exists>n. x = y\<lparr>cr_ref := n\<rparr>"
proof -
  define res where "res = do_id_call td c k"
  have o: "id_outcome k p pc cr c res" unfolding res_def using do_id_call_outcome [OF inv r ok] .
  have "k_thread (snd res) = k_thread k \<and> (q \<noteq> p \<longrightarrow> k_proc (snd res) q = k_proc k q) \<and>
      (k_cred k d = Some x \<longrightarrow> k_cred (snd res) d = Some y \<longrightarrow> (\<exists>n. x = y\<lparr>cr_ref := n\<rparr>))"
  proof (cases "fst res")
    case (Some e)
    then have "id_refused k (snd res)" using o by (simp add: id_outcome_def)
    then show ?thesis by (auto simp: id_refused_def intro!: exI [of _ "cr_ref y"])
  next
    case None
    then obtain cr' pc' where "id_done k p cr' pc' (snd res)" using o by (auto simp: id_outcome_def)
    then obtain n where n: "k_cred k n = None" "k_proc (snd res) = (k_proc k)(p \<mapsto> pc'\<lparr>p_ucred := n\<rparr>)"
      "k_thread (snd res) = k_thread k"
      and c: "\<And>d y. d \<noteq> n \<Longrightarrow> k_cred (snd res) d = Some y \<Longrightarrow> \<exists>r. k_cred k d = Some (y\<lparr>cr_ref := r\<rparr>)"
      unfolding id_done_def by blast
    have "\<exists>n. x = y\<lparr>cr_ref := n\<rparr>" if "k_cred k d = Some x" "k_cred (snd res) d = Some y"
    proof -
      have "d \<noteq> n" using n(1) that(1) by auto
      from c [OF this that(2)] show ?thesis using that(1) by simp
    qed
    then show ?thesis using n by simp
  qed
  then show "k_thread (snd (do_id_call td c k)) = k_thread k"
    and "q \<noteq> p \<Longrightarrow> k_proc (snd (do_id_call td c k)) q = k_proc k q"
    and "k_cred k d = Some x \<Longrightarrow> k_cred (snd (do_id_call td c k)) d = Some y \<Longrightarrow> \<exists>n. x = y\<lparr>cr_ref := n\<rparr>"
    by (auto simp: res_def)
qed

lemma ids_of_ref [simp]: "ids_of (x\<lparr>cr_ref := n\<rparr>) = ids_of x"
  by (simp add: ids_of_def)

lemma cred_inv_thread_cred:
  assumes inv: "cred_inv X Y Z k" and t: "k_thread k t = Some th" "td_ucred th = Some d"
  shows "0 < cr_refs k d"
proof -
  have fin: "finite (dom (k_thread k))" using cred_invD(3) [OF inv] .
  have "1 \<le> msum (\<lambda>t. of_bool (td_ucred t = Some d)) (k_thread k)"
    using msum_member_le [OF fin t(1), of "\<lambda>t. of_bool (td_ucred t = Some d)"] t(2) by simp
  moreover have "0 \<le> msum (\<lambda>p. of_bool (p_ucred p = d)) (k_proc k)" by (rule msum_nonneg) simp
  ultimately show ?thesis by (simp add: cr_refs_def)
qed

section \<open>Sequences of calls\<close>

lemma id_step_unprivileged:
  assumes "\<not> priv" and "i_groups i \<noteq> []"
  shows "uids (snd (id_step priv c i)) \<subseteq> uids i \<and> gids (snd (id_step priv c i)) \<subseteq> gids i \<and>
    tl (i_groups (snd (id_step priv c i))) = tl (i_groups i) \<and> i_ngroups (snd (id_step priv c i)) = i_ngroups i \<and>
    i_groups (snd (id_step priv c i)) \<noteq> []"
proof (cases "i_groups i")
  case (Cons g gs)
  then show ?thesis using assms
    by (cases c) (auto simp: id_step_def uids_def gids_def among_def keep_def Let_def split: option.splits)
qed (use assms in simp)

lemma unprivileged_step:
  assumes inv: "cred_inv0 k" and r: "runs k td p pc cr" and ok: "id_call_ok c" and root: "0 \<notin> uids (ids_of cr)"
  obtains pc' cr' where "runs (snd (do_id_call td c k)) td p pc' cr'" and "cred_inv0 (snd (do_id_call td c k))"
    and "uids (ids_of cr') \<subseteq> uids (ids_of cr)" and "gids (ids_of cr') \<subseteq> gids (ids_of cr)"
    and "tl (cr_groups cr') = tl (cr_groups cr)" and "cr_ngroups cr' = cr_ngroups cr"
proof -
  obtain pc' cr' where a: "runs (snd (do_id_call td c k)) td p pc' cr'" "cred_inv0 (snd (do_id_call td c k))"
    and i: "(fst (do_id_call td c k), ids_of cr') = id_step (id_priv k cr) c (ids_of cr)"
    by (rule id_call_result [OF inv r ok])
  have "\<not> id_priv k cr" using root by (simp add: id_priv_def suser_prison_root uids_def ids_of_def)
  moreover have "i_groups (ids_of cr) \<noteq> []" using runs_groups [OF inv r] by (auto simp: NGROUPS_def)
  ultimately have "uids (snd (fst (do_id_call td c k), ids_of cr')) \<subseteq> uids (ids_of cr) \<and>
      gids (snd (fst (do_id_call td c k), ids_of cr')) \<subseteq> gids (ids_of cr) \<and>
      tl (i_groups (ids_of cr')) = tl (i_groups (ids_of cr)) \<and> i_ngroups (ids_of cr') = i_ngroups (ids_of cr)"
    using id_step_unprivileged [of "id_priv k cr" "ids_of cr" c] unfolding i [symmetric] by simp
  then show ?thesis using that [OF a] by simp
qed

lemma unprivileged_calls:
  assumes "cred_inv0 k" and "runs k td p pc cr" and "\<forall>c \<in> set cs. id_call_ok c" and "0 \<notin> uids (ids_of cr)"
  shows "uids (proc_ids (do_id_calls td cs k) p) \<subseteq> uids (proc_ids k p) \<and>
    gids (proc_ids (do_id_calls td cs k) p) \<subseteq> gids (proc_ids k p) \<and>
    tl (i_groups (proc_ids (do_id_calls td cs k) p)) = tl (i_groups (proc_ids k p)) \<and>
    i_ngroups (proc_ids (do_id_calls td cs k) p) = i_ngroups (proc_ids k p)"
  using assms
proof (induction cs arbitrary: k pc cr)
  case Nil
  then show ?case by (simp add: do_id_calls_def)
next
  case (Cons c cs)
  let ?k = "snd (do_id_call td c k)"
  obtain pc' cr' where a: "runs ?k td p pc' cr'" "cred_inv0 ?k"
    and b: "uids (ids_of cr') \<subseteq> uids (ids_of cr)" "gids (ids_of cr') \<subseteq> gids (ids_of cr)"
      "tl (cr_groups cr') = tl (cr_groups cr)" "cr_ngroups cr' = cr_ngroups cr"
    by (rule unprivileged_step [of k td p pc cr c]) (use Cons.prems in auto)
  have "0 \<notin> uids (ids_of cr')" using b(1) Cons.prems(4) by blast
  moreover have "do_id_calls td (c # cs) k = do_id_calls td cs ?k" by (simp add: do_id_calls_def)
  ultimately show ?case
    using Cons.IH [OF a(2,1)] Cons.prems b runs_ids [OF a(1)] runs_ids [OF Cons.prems(2)]
    by auto
qed

lemma calls_prison:
  assumes "cred_inv0 k" and "runs k td p pc cr" and "\<forall>c \<in> set cs. id_call_ok c"
  shows "cr_prison (the_cred (do_id_calls td cs k) (p_ucred (the_proc (do_id_calls td cs k) p))) = cr_prison cr"
  using assms
proof (induction cs arbitrary: k pc cr)
  case Nil
  then show ?case by (simp add: do_id_calls_def runs_def)
next
  case (Cons c cs)
  let ?k = "snd (do_id_call td c k)"
  obtain pc' cr' where a: "runs ?k td p pc' cr'" "cred_inv0 ?k" and b: "cr_prison cr' = cr_prison cr"
    by (rule id_call_result [of k td p pc cr c]) (use Cons.prems in auto)
  have "do_id_calls td (c # cs) k = do_id_calls td cs ?k" by (simp add: do_id_calls_def)
  then show ?case using Cons.IH [OF a(2,1)] Cons.prems(3) b by simp
qed

section \<open>Where setreuid and setregid are not as in their manual\<close>

text \<open>setreuid(2) and setregid(2) let unprivileged users change the real id to the effective one and the
  other way round, reserve every other change to the super-user, and change the saved id only when the real id is
  given or the effective one is changed. For an unprivileged process the code refuses the first when the
  effective id is neither the real nor the saved one, allows the real id to become the saved one, and with two
  arguments of -1 sets the saved id to an effective one that differs from the real one.\<close>

lemma id_call_outcome:
  assumes "cred_inv0 k" and "runs k td p pc cr" and "id_call_ok c"
  shows "(fst (do_id_call td c k), proc_ids (snd (do_id_call td c k)) p) = id_step (id_priv k cr) c (ids_of cr)"
proof -
  obtain pc' cr' where "runs (snd (do_id_call td c k)) td p pc' cr'"
    and "(fst (do_id_call td c k), ids_of cr') = id_step (id_priv k cr) c (ids_of cr)"
    by (rule id_call_result [OF assms])
  then show ?thesis using runs_ids by simp
qed

lemma setreuid_rules:
  assumes "cred_inv0 k" and "runs k td p pc cr" and "\<not> id_priv k cr"
  shows "cr_uid cr \<notin> {NOID, cr_ruid cr, cr_svuid cr} \<Longrightarrow> fst (do_id_call td (Setreuid (cr_uid cr) NOID) k) = Some EPERM"
    and "fst (do_id_call td (Setreuid (cr_svuid cr) NOID) k) = None"
    and "cr_uid cr \<noteq> cr_ruid cr \<Longrightarrow>
      do_id_call td (Setreuid NOID NOID) k = r \<Longrightarrow> fst r = None \<and> i_svuid (proc_ids (snd r) p) = cr_uid cr"
  using id_call_outcome [OF assms(1,2), of "Setreuid (cr_uid cr) NOID"] id_call_outcome [OF assms(1,2), of "Setreuid (cr_svuid cr) NOID"]
    id_call_outcome [OF assms(1,2), of "Setreuid NOID NOID"] assms(3)
  by (auto simp: id_step_def ids_of_def among_def keep_def Let_def)

lemma setregid_rules:
  assumes "cred_inv0 k" and "runs k td p pc cr" and "\<not> id_priv k cr"
  shows "i_egid (ids_of cr) \<notin> {NOID, cr_rgid cr, cr_svgid cr} \<Longrightarrow> fst (do_id_call td (Setregid (i_egid (ids_of cr)) NOID) k) = Some EPERM"
    and "fst (do_id_call td (Setregid (cr_svgid cr) NOID) k) = None"
  using id_call_outcome [OF assms(1,2), of "Setregid (i_egid (ids_of cr)) NOID"] id_call_outcome [OF assms(1,2), of "Setregid (cr_svgid cr) NOID"]
    assms(3)
  by (auto simp: id_step_def ids_of_def among_def keep_def Let_def)

section \<open>The properties\<close>

lemma boot_enabled [simp]: "suser_enabled (boot_kern u)"
  by (simp add: boot_kern_def)

lemma boot_ids: "proc_ids (boot_kern u) 10 = ids_of (boot_cred u)"
  using runs_ids [OF boot_runs(1)] .

lemmas boot_eval = id_step_def id_priv_def suser_prison_root boot_ids boot_cred_def zero_cred_def ids_of_def keep_def Let_def

text \<open>C1: Every id call, whether it succeeds or fails, keeps the account of references exact: each
  uidinfo, cred and prison has a count equal to the number of pointers to it from creds, processes and
  threads, none is freed while in use and none leaks; the hash table of uidinfos and the jail list stay
  well-formed.\<close>

theorem id_call_refs:
  assumes "cred_inv0 k" and "runs k td p pc cr" and "id_call_ok c"
  shows "cred_inv0 (snd (do_id_call td c k))"
  using do_id_call_outcome [OF assms] by (simp add: id_outcome_def)

theorem id_call_refs_witness: "cred_inv0 (snd (do_id_call 20 (Setresuid 5 6 7) (boot_kern 0)))"
  using id_call_refs [OF boot_inv boot_runs(1), of "Setresuid 5 6 7" 0] by simp

text \<open>C2: The id calls refine the abstract step: the error returned and the ids of the process afterwards
  are those id_step computes from the ids before and from whether the process is privileged, for every
  argument and on every branch. The rules are those of the code, which for setreuid and setregid are not those of
  the manual (setreuid_rules and setregid_rules below): an unprivileged process may not set the real id to the
  effective one, may set it to the saved one, and loses the saved id also when it asks for no change.\<close>

theorem id_call_refines:
  assumes "cred_inv0 k" and "runs k td p pc cr" and "id_call_ok c"
  shows "(fst (do_id_call td c k), proc_ids (snd (do_id_call td c k)) p) =
    id_step (suser_cred k cr PRISON_ROOT = None) c (proc_ids k p)"
proof -
  obtain pc' cr' where "runs (snd (do_id_call td c k)) td p pc' cr'"
    and "(fst (do_id_call td c k), ids_of cr') = id_step (id_priv k cr) c (ids_of cr)"
    by (rule id_call_result [OF assms])
  then show ?thesis using runs_ids assms(2) by (simp add: id_priv_def)
qed

theorem id_call_refines_witness:
  "(fst (do_id_call 20 (Setreuid (-1) 7) (boot_kern 0)), proc_ids (snd (do_id_call 20 (Setreuid (-1) 7) (boot_kern 0))) 10) =
   (None, (ids_of (boot_cred 0))\<lparr>i_euid := 7, i_svuid := 7\<rparr>)"
  using id_call_refines [OF boot_inv boot_runs(1), of "Setreuid (-1) 7" 0] by (simp add: boot_eval)

text \<open>C13: An id call changes the ids of the calling process only: every other process keeps its proc
  struct and its ids, also where it shared the cred with the caller, and every cred a thread still holds
  keeps its ids and its jail.\<close>

theorem id_call_isolated:
  assumes "cred_inv0 k" and "runs k td p pc cr" and "id_call_ok c" and "q \<noteq> p" and "k_proc k q = Some qc"
  shows "k_proc (snd (do_id_call td c k)) q = Some qc \<and>
    proc_ids (snd (do_id_call td c k)) q = proc_ids k q \<and>
    (\<forall>t th d. k_thread k t = Some th \<longrightarrow> td_ucred th = Some d \<longrightarrow>
       ids_of (the_cred (snd (do_id_call td c k)) d) = ids_of (the_cred k d) \<and>
       cr_prison (the_cred (snd (do_id_call td c k)) d) = cr_prison (the_cred k d))"
proof -
  let ?k = "snd (do_id_call td c k)"
  note o = id_call_others [OF assms(1-3)]
  have inv: "cred_inv0 ?k" using do_id_call_outcome [OF assms(1-3)] by (simp add: id_outcome_def)
  have same: "ids_of (the_cred ?k d) = ids_of (the_cred k d) \<and> cr_prison (the_cred ?k d) = cr_prison (the_cred k d)"
    if "0 < cr_refs k d" "0 < cr_refs ?k d" for d
  proof -
    have "0 < 0 + cr_refs k d" "0 < 0 + cr_refs ?k d" using that by simp_all
    then obtain x y where "k_cred k d = Some x" "k_cred ?k d = Some y"
      using balancedD_live [OF cred_invD(10) [OF inv]] balancedD_live [OF cred_invD(10) [OF assms(1)]] by meson
    then show ?thesis using o(3) by fastforce
  qed
  have q: "k_proc ?k q = Some qc" using o(2) assms(4,5) by simp
  have "0 < cr_refs k (p_ucred qc)" "0 < cr_refs ?k (p_ucred qc)"
    using cred_inv_proc_cred(2) [OF assms(1,5)] cred_inv_proc_cred(2) [OF inv q] .
  moreover have "0 < cr_refs k d \<and> 0 < cr_refs ?k d" if "k_thread k t = Some th" "td_ucred th = Some d" for t th d
    using cred_inv_thread_cred [OF assms(1) that] cred_inv_thread_cred [OF inv _ that(2)] that(1) by (simp add: o(1))
  ultimately show ?thesis using same q assms(5) by (simp add: proc_ids_def)
qed

theorem id_call_isolated_witness:
  "proc_ids (snd (do_id_call 20 (Setuid 1000) (boot_kern 0))) 11 = ids_of (boot_cred 0)"
  using id_call_isolated [OF boot_inv boot_runs(1), of "Setuid 1000" 11 0 "boot_proc 2"] runs_ids [OF boot_runs(2), of 0]
  by (simp add: boot_kern_def)

text \<open>C14: An id call that returns an error has no effect: every cred, process and thread is as before,
  the counts in the creds included.\<close>

theorem id_call_error_atomic:
  assumes "cred_inv0 k" and "runs k td p pc cr" and "id_call_ok c" and "fst (do_id_call td c k) \<noteq> None"
  shows "k_cred (snd (do_id_call td c k)) = k_cred k \<and> k_proc (snd (do_id_call td c k)) = k_proc k \<and>
    k_thread (snd (do_id_call td c k)) = k_thread k"
  using do_id_call_outcome [OF assms(1-3)] assms(4) by (auto simp: id_outcome_def id_refused_def)

lemma boot_refused: "fst (do_id_call 20 (Setuid 0) (boot_kern 1000)) = Some EPERM"
  using do_id_call_outcome [OF boot_inv boot_runs(1), of "Setuid 0" 1000]
  by (simp add: id_outcome_def boot_eval)

theorem id_call_error_atomic_witness:
  "k_cred (snd (do_id_call 20 (Setuid 0) (boot_kern 1000))) = k_cred (boot_kern 1000)"
  using id_call_error_atomic [OF boot_inv boot_runs(1), of "Setuid 0" 1000] boot_refused by simp

text \<open>C7: No sequence of id calls gives an unprivileged process anything: if none of its real, effective
  and saved uids is 0, then after any calls with any arguments its uids are among the three it had, its
  gids are among the three it had, and its other groups are unchanged.\<close>

theorem unprivileged_confined:
  assumes "cred_inv0 k" and "runs k td p pc cr" and "\<forall>c \<in> set cs. id_call_ok c" and "0 \<notin> uids (proc_ids k p)"
  shows "uids (proc_ids (do_id_calls td cs k) p) \<subseteq> uids (proc_ids k p) \<and>
    gids (proc_ids (do_id_calls td cs k) p) \<subseteq> gids (proc_ids k p) \<and>
    tl (i_groups (proc_ids (do_id_calls td cs k) p)) = tl (i_groups (proc_ids k p)) \<and>
    i_ngroups (proc_ids (do_id_calls td cs k) p) = i_ngroups (proc_ids k p)"
  using unprivileged_calls [OF assms(1-3)] assms(4) runs_ids [OF assms(2)] by simp

theorem unprivileged_confined_witness:
  "uids (proc_ids (do_id_calls 20 [Setuid 0, Setgroups 1 (Inr [0]), Setreuid 0 (-1), Setresuid 1000 0 0] (boot_kern 1000)) 10) \<subseteq> {1000}"
  using unprivileged_confined [OF boot_inv boot_runs(1), of "[Setuid 0, Setgroups 1 (Inr [0]), Setreuid 0 (-1), Setresuid 1000 0 0]" 1000]
    runs_ids [OF boot_runs(1)] by (simp add: uids_def ids_of_def boot_cred_def)

text \<open>C8: Dropping privilege with setuid is permanent: after a successful setuid to a nonzero uid, whatever
  id calls the process makes, its real, effective and saved uids are all that uid.\<close>

theorem setuid_drop_permanent:
  assumes "cred_inv0 k" and "runs k td p pc cr" and "u \<noteq> 0" and "fst (setuid td u k) = None"
    and "\<forall>c \<in> set cs. id_call_ok c"
  shows "uids (proc_ids (do_id_calls td cs (snd (setuid td u k))) p) = {u}"
proof -
  obtain pc' cr' where a: "runs (snd (do_id_call td (Setuid u) k)) td p pc' cr'" "cred_inv0 (snd (do_id_call td (Setuid u) k))"
    and i: "(fst (do_id_call td (Setuid u) k), ids_of cr') = id_step (id_priv k cr) (Setuid u) (ids_of cr)"
    by (rule id_call_result [OF assms(1,2), of "Setuid u"]) simp
  have "uids (ids_of cr') = {u}" using i assms(4) by (auto simp: id_step_def uids_def split: if_splits)
  then have "uids (proc_ids (do_id_calls td cs (snd (setuid td u k))) p) \<subseteq> {u}"
    using unprivileged_calls [OF a(2,1) assms(5)] runs_ids [OF a(1)] assms(3) by simp
  then show ?thesis by (auto simp: uids_def)
qed

lemma boot_drop: "fst (setuid 20 1000 (boot_kern 0)) = None"
  using setuid_outcome [OF boot_inv boot_runs(1), of 0 1000]
  by (simp add: id_outcome_def boot_eval)

theorem setuid_drop_permanent_witness:
  "uids (proc_ids (do_id_calls 20 [Seteuid 0, Setresuid 0 0 0] (snd (setuid 20 1000 (boot_kern 0)))) 10) = {1000}"
  using setuid_drop_permanent [OF boot_inv boot_runs(1) _ boot_drop] by simp

text \<open>A process whose ids an id call has changed carries P_SUGID afterwards, the flag that
  makes it untraceable and its environment untrusted.\<close>

theorem id_change_sets_sugid:
  assumes "cred_inv0 k" and "runs k td p pc cr" and "id_call_ok c"
    and "proc_ids (snd (do_id_call td c k)) p \<noteq> proc_ids k p"
  shows "p_flag (the_proc (snd (do_id_call td c k)) p) = p_flag pc OR P_SUGID"
proof -
  obtain pc' cr' where r: "runs (snd (do_id_call td c k)) td p pc' cr'"
    and d: "ids_of cr' = ids_of cr \<or> p_flag pc' = p_flag pc OR P_SUGID"
    by (rule id_call_result [OF assms(1-3)])
  have "ids_of cr' \<noteq> ids_of cr" using assms(4) runs_ids [OF r] runs_ids [OF assms(2)] by simp
  then show ?thesis using d r by (simp add: runs_def)
qed

theorem id_change_sets_sugid_witness:
  "p_flag (the_proc (snd (do_id_call 20 (Seteuid 7) (boot_kern 0))) 10) = P_SUGID"
proof -
  obtain pc' cr' where r: "runs (snd (do_id_call 20 (Seteuid 7) (boot_kern 0))) 20 10 pc' cr'"
    and i: "(fst (do_id_call 20 (Seteuid 7) (boot_kern 0)), ids_of cr') = id_step (id_priv (boot_kern 0) (boot_cred 0)) (Seteuid 7) (ids_of (boot_cred 0))"
    by (rule id_call_result [OF boot_inv boot_runs(1), of "Seteuid 7" 0]) simp
  have "ids_of cr' \<noteq> ids_of (boot_cred 0)"
    using i by (auto simp: boot_eval)
  then have "proc_ids (snd (do_id_call 20 (Seteuid 7) (boot_kern 0))) 10 \<noteq> proc_ids (boot_kern 0) 10"
    using runs_ids [OF r] runs_ids [OF boot_runs(1)] by simp
  then show ?thesis using id_change_sets_sugid [OF boot_inv boot_runs(1), of "Seteuid 7" 0] by (simp add: boot_proc_def)
qed

text \<open>No sequence of id calls, by root or not, moves a process out of its jail or into another.\<close>

theorem id_calls_keep_jail:
  assumes "cred_inv0 k" and "runs k td p pc cr" and "\<forall>c \<in> set cs. id_call_ok c"
  shows "cr_prison (the_cred (do_id_calls td cs k) (p_ucred (the_proc (do_id_calls td cs k) p))) = cr_prison cr"
  using calls_prison assms .

theorem id_calls_keep_jail_witness:
  "cr_prison (the_cred (do_id_calls 20 [Setuid 0, Setgid 5] (boot_kern 0)) (p_ucred (the_proc (do_id_calls 20 [Setuid 0, Setgid 5] (boot_kern 0)) 10))) = None"
  using id_calls_keep_jail [OF boot_inv boot_runs(1), of "[Setuid 0, Setgid 5]" 0] by (simp add: boot_cred_def zero_cred_def)

end
