(* ===== verification/Kern_Prot_Access.thy ===== *)
theory Kern_Prot_Access
  imports Kern_Prot_Theorems
begin

text \<open>
  The access checks between processes of kern/kern_prot.c (may one see, signal, reschedule or
  debug another, or see a socket) and the calls that read a process's ids. MAC and CAPABILITIES
  are not configured, COMPAT_43 is (i386/conf/GENERIC), so getpid, getuid and getgid return two
  values. A thread or process is its address; \<open>td_cred\<close> and \<open>p_cred\<close> follow td_ucred and p_ucred.
\<close>

abbreviation td_cred :: "kern \<Rightarrow> ptr \<Rightarrow> ucred" where
  "td_cred k td \<equiv> the_cred k (the (td_ucred (the_thread k td)))"
abbreviation p_cred :: "kern \<Rightarrow> ptr \<Rightarrow> ucred" where
  "p_cred k p \<equiv> the_cred k (p_ucred (the_proc k p))"
abbreviation the_pgrp :: "kern \<Rightarrow> ptr \<Rightarrow> pgrp" where "the_pgrp k g \<equiv> the (k_pgrp k g)"
abbreviation the_sess :: "kern \<Rightarrow> ptr \<Rightarrow> session" where "the_sess k s \<equiv> the (k_sess k s)"
abbreviation p_session :: "kern \<Rightarrow> ptr \<Rightarrow> ptr" where
  "p_session k p \<equiv> pg_session (the_pgrp k (the (p_pgrp (the_proc k p))))"

section \<open>The policies\<close>

definition cr_seeotheruids :: "kern \<Rightarrow> ucred \<Rightarrow> ucred \<Rightarrow> err" where
  "cr_seeotheruids k u1 u2 =
     (if \<not> see_other_uids k \<and> cr_ruid u1 \<noteq> cr_ruid u2 then
        if suser_cred k u1 PRISON_ROOT \<noteq> None then Some ESRCH else None
      else None)"

definition cr_seeothergids :: "kern \<Rightarrow> ucred \<Rightarrow> ucred \<Rightarrow> err" where
  "cr_seeothergids k u1 u2 =
     (if \<not> see_other_gids k then
        let match = list_ex (\<lambda>g. groupmember g u2) (take (cr_ngroups u1) (cr_groups u1)) in
        if \<not> match then if suser_cred k u1 PRISON_ROOT \<noteq> None then Some ESRCH else None
        else None
      else None)"

text \<open>Sequential checks, each of which may return its error.\<close>

definition andthen :: "err \<Rightarrow> err \<Rightarrow> err" where
  "andthen e f = (case e of Some x \<Rightarrow> Some x | None \<Rightarrow> f)"

lemma andthen_none [simp]: "andthen e f = None \<longleftrightarrow> e = None \<and> f = None"
  by (simp add: andthen_def split: option.split)

definition cr_cansee :: "kern \<Rightarrow> ucred \<Rightarrow> ucred \<Rightarrow> err" where
  "cr_cansee k u1 u2 =
     andthen (prison_check u1 u2) (andthen (cr_seeotheruids k u1 u2) (cr_seeothergids k u1 u2))"

definition p_cansee :: "kern \<Rightarrow> ptr \<Rightarrow> ptr \<Rightarrow> err" where
  "p_cansee k td p = cr_cansee k (td_cred k td) (p_cred k p)"

section \<open>Signals, sys/signal.h\<close>

abbreviation SIGHUP :: int where "SIGHUP \<equiv> 1"
abbreviation SIGINT :: int where "SIGINT \<equiv> 2"
abbreviation SIGKILL :: int where "SIGKILL \<equiv> 9"
abbreviation SIGALRM :: int where "SIGALRM \<equiv> 14"
abbreviation SIGTERM :: int where "SIGTERM \<equiv> 15"
abbreviation SIGSTOP :: int where "SIGSTOP \<equiv> 17"
abbreviation SIGTSTP :: int where "SIGTSTP \<equiv> 18"
abbreviation SIGCONT :: int where "SIGCONT \<equiv> 19"
abbreviation SIGTTIN :: int where "SIGTTIN \<equiv> 21"
abbreviation SIGTTOU :: int where "SIGTTOU \<equiv> 22"
abbreviation SIGUSR1 :: int where "SIGUSR1 \<equiv> 30"
abbreviation SIGUSR2 :: int where "SIGUSR2 \<equiv> 31"

definition cr_cansignal :: "kern \<Rightarrow> ucred \<Rightarrow> ptr \<Rightarrow> int \<Rightarrow> err" where
  "cr_cansignal k cred p signum =
     (let pc = p_cred k p in
      andthen (prison_check cred pc) (andthen (cr_seeotheruids k cred pc) (andthen (cr_seeothergids k cred pc)
      (andthen
        (if conservative_signals k \<and> p_flag (the_proc k p) AND P_SUGID \<noteq> 0 then
           if signum \<in> {0, SIGKILL, SIGINT, SIGTERM, SIGALRM, SIGSTOP, SIGTTIN, SIGTTOU, SIGTSTP, SIGHUP, SIGUSR1, SIGUSR2}
           then None
           else suser_cred k cred PRISON_ROOT
         else None)
        (if cr_ruid cred \<noteq> cr_ruid pc \<and> cr_ruid cred \<noteq> cr_svuid pc \<and>
            cr_uid cred \<noteq> cr_ruid pc \<and> cr_uid cred \<noteq> cr_svuid pc
         then suser_cred k cred PRISON_ROOT
         else None)))))"

definition p_cansignal :: "kern \<Rightarrow> ptr \<Rightarrow> ptr \<Rightarrow> int \<Rightarrow> err" where
  "p_cansignal k td p signum =
     (if td_proc (the_thread k td) = p then None
      else if signum = SIGCONT \<and> p_session k (td_proc (the_thread k td)) = p_session k p then None
      else cr_cansignal k (td_cred k td) p signum)"

section \<open>Scheduling and debugging\<close>

definition p_cansched :: "kern \<Rightarrow> ptr \<Rightarrow> ptr \<Rightarrow> err" where
  "p_cansched k td p =
     (let tc = td_cred k td; pc = p_cred k p in
      if td_proc (the_thread k td) = p then None
      else andthen (prison_check tc pc) (andthen (cr_seeotheruids k tc pc) (andthen (cr_seeothergids k tc pc)
        (if cr_ruid tc = cr_ruid pc then None
         else if cr_uid tc = cr_ruid pc then None
         else if suser_cred k tc PRISON_ROOT = None then None
         else Some EPERM))))"

definition p_candebug :: "kern \<Rightarrow> ptr \<Rightarrow> ptr \<Rightarrow> err" where
  "p_candebug k td p =
     (let tc = td_cred k td; pc = p_cred k p in
      andthen (if \<not> unprivileged_proc_debug k then suser_cred k tc PRISON_ROOT else None)
      (if td_proc (the_thread k td) = p then None
       else andthen (prison_check tc pc) (andthen (cr_seeotheruids k tc pc) (andthen (cr_seeothergids k tc pc)
         (let grpsubset = list_all (\<lambda>g. groupmember g tc) (take (cr_ngroups pc) (cr_groups pc)) \<and>
                groupmember (cr_rgid pc) tc \<and> groupmember (cr_svgid pc) tc;
              uidsubset = (cr_uid tc = cr_uid pc \<and> cr_uid tc = cr_svuid pc \<and> cr_uid tc = cr_ruid pc);
              credentialchanged = (p_flag (the_proc k p) AND P_SUGID \<noteq> 0)
          in andthen (if \<not> grpsubset \<or> \<not> uidsubset \<or> credentialchanged then suser_cred k tc PRISON_ROOT else None)
             (andthen (if p = initproc k then securelevel_gt k tc 0 else None)
             (if p_flag (the_proc k p) AND P_INEXEC \<noteq> 0 then Some EAGAIN else None)))))))"

definition cr_canseesocket :: "kern \<Rightarrow> ucred \<Rightarrow> ucred \<Rightarrow> err" where
  "cr_canseesocket k cred so_cred =
     (if prison_check cred so_cred \<noteq> None then Some ENOENT
      else if cr_seeotheruids k cred so_cred \<noteq> None then Some ENOENT
      else if cr_seeothergids k cred so_cred \<noteq> None then Some ENOENT
      else None)"

section \<open>Reading ids\<close>

text \<open>The values stored in td_retval; these calls return 0.\<close>

definition getpid :: "kern \<Rightarrow> ptr \<Rightarrow> pid \<times> pid" where
  "getpid k td = (let p = the_proc k (td_proc (the_thread k td)) in (p_pid p, p_pid (the_proc k (p_pptr p))))"
definition getppid :: "kern \<Rightarrow> ptr \<Rightarrow> pid" where
  "getppid k td = p_pid (the_proc k (p_pptr (the_proc k (td_proc (the_thread k td)))))"
definition getpgrp :: "kern \<Rightarrow> ptr \<Rightarrow> pid" where
  "getpgrp k td = pg_id (the_pgrp k (the (p_pgrp (the_proc k (td_proc (the_thread k td))))))"
definition getuid :: "kern \<Rightarrow> ptr \<Rightarrow> uid \<times> uid" where
  "getuid k td = (cr_ruid (td_cred k td), cr_uid (td_cred k td))"
definition geteuid :: "kern \<Rightarrow> ptr \<Rightarrow> uid" where "geteuid k td = cr_uid (td_cred k td)"
definition getgid :: "kern \<Rightarrow> ptr \<Rightarrow> gid \<times> gid" where
  "getgid k td = (cr_rgid (td_cred k td), cr_groups (td_cred k td) ! 0)"
definition getegid :: "kern \<Rightarrow> ptr \<Rightarrow> gid" where "getegid k td = cr_groups (td_cred k td) ! 0"

text \<open>
  Calls that write to user space take \<open>copyout\<close>, which writes a list of words at a user address
  and returns the error and the new user memory. A null pointer is 0.
\<close>

definition getgroups :: "(ptr \<Rightarrow> u32 list \<Rightarrow> 'm \<Rightarrow> err \<times> 'm) \<Rightarrow> kern \<Rightarrow> ptr \<Rightarrow> nat \<Rightarrow> ptr \<Rightarrow> 'm \<Rightarrow> (errno + nat) \<times> 'm" where
  "getgroups copyout k td gidsetsize gidset m =
     (let cred = td_cred k td in
      if gidsetsize = 0 then (Inr (cr_ngroups cred), m)
      else if gidsetsize < cr_ngroups cred then (Inl EINVAL, m)
      else
        let ngrp = cr_ngroups cred in
        (case copyout gidset (take ngrp (cr_groups cred)) m of
           (None, m') \<Rightarrow> (Inr ngrp, m')
         | (Some e, m') \<Rightarrow> (Inl e, m')))"

definition getresuid :: "(ptr \<Rightarrow> u32 list \<Rightarrow> 'm \<Rightarrow> err \<times> 'm) \<Rightarrow> kern \<Rightarrow> ptr \<Rightarrow> ptr \<Rightarrow> ptr \<Rightarrow> ptr \<Rightarrow> 'm \<Rightarrow> err \<times> 'm" where
  "getresuid copyout k td ruid euid suid m0 =
     (let cred = td_cred k td;
          (error1, m1) = (if ruid \<noteq> 0 then copyout ruid [cr_ruid cred] m0 else (None, m0));
          (error2, m2) = (if euid \<noteq> 0 then copyout euid [cr_uid cred] m1 else (None, m1));
          (error3, m3) = (if suid \<noteq> 0 then copyout suid [cr_svuid cred] m2 else (None, m2))
      in (if error1 \<noteq> None then error1 else if error2 \<noteq> None then error2 else error3, m3))"

definition getresgid :: "(ptr \<Rightarrow> u32 list \<Rightarrow> 'm \<Rightarrow> err \<times> 'm) \<Rightarrow> kern \<Rightarrow> ptr \<Rightarrow> ptr \<Rightarrow> ptr \<Rightarrow> ptr \<Rightarrow> 'm \<Rightarrow> err \<times> 'm" where
  "getresgid copyout k td rgid egid sgid m0 =
     (let cred = td_cred k td;
          (error1, m1) = (if rgid \<noteq> 0 then copyout rgid [cr_rgid cred] m0 else (None, m0));
          (error2, m2) = (if egid \<noteq> 0 then copyout egid [cr_groups cred ! 0] m1 else (None, m1));
          (error3, m3) = (if sgid \<noteq> 0 then copyout sgid [cr_svgid cred] m2 else (None, m2))
      in (if error1 \<noteq> None then error1 else if error2 \<noteq> None then error2 else error3, m3))"

definition issetugid :: "kern \<Rightarrow> ptr \<Rightarrow> int" where
  "issetugid k td = (if p_flag (the_proc k (td_proc (the_thread k td))) AND P_SUGID \<noteq> 0 then 1 else 0)"

text \<open>\<open>setlogin\<close>: \<open>copyinstr\<close> is the outcome of reading the name from user space.\<close>

definition setlogin :: "ptr \<Rightarrow> errno + string \<Rightarrow> kern \<Rightarrow> err \<times> kern" where
  "setlogin td copyinstr k =
     (case suser_cred k (td_cred k td) PRISON_ROOT of
        Some e \<Rightarrow> (Some e, k)
      | None \<Rightarrow>
          (case copyinstr of
             Inl e \<Rightarrow> (Some (if e = ENAMETOOLONG then EINVAL else e), k)
           | Inr logintmp \<Rightarrow>
               let s = p_session k (td_proc (the_thread k td))
               in (None, k\<lparr>k_sess := (k_sess k)(s \<mapsto> (the_sess k s)\<lparr>s_login := logintmp\<rparr>)\<rparr>)))"

section \<open>Properties\<close>

lemma prison_check_none: "prison_check u1 u2 = None \<longleftrightarrow> cr_prison u1 = None \<or> cr_prison u2 = cr_prison u1"
  by (auto simp: prison_check_def jailed_def)

lemma prison_check_some: "prison_check u1 u2 \<noteq> None \<Longrightarrow> prison_check u1 u2 = Some ESRCH"
  by (auto simp: prison_check_def split: if_splits)

lemma andthen_some: "andthen (Some e) f = Some e"
  by (simp add: andthen_def)

lemma suser_sees:
  "suser_cred k u1 PRISON_ROOT = None \<Longrightarrow> cr_seeotheruids k u1 u2 = None"
  "suser_cred k u1 PRISON_ROOT = None \<Longrightarrow> cr_seeothergids k u1 u2 = None"
  by (simp_all add: cr_seeotheruids_def cr_seeothergids_def Let_def)

lemma p_candebug_other:
  assumes "td_proc (the_thread k td) \<noteq> p" and "p_candebug k td p = None"
  shows "p_cansee k td p = None"
    and "suser_cred k (td_cred k td) PRISON_ROOT = None \<or>
      unprivileged_proc_debug k \<and>
      cr_uid (p_cred k p) = cr_uid (td_cred k td) \<and> cr_ruid (p_cred k p) = cr_uid (td_cred k td) \<and>
      cr_svuid (p_cred k p) = cr_uid (td_cred k td) \<and>
      (\<forall>g \<in> set (take (cr_ngroups (p_cred k p)) (cr_groups (p_cred k p))) \<union> {cr_rgid (p_cred k p), cr_svgid (p_cred k p)}.
         groupmember g (td_cred k td)) \<and>
      p_flag (the_proc k p) AND P_SUGID = 0"
    and "p_flag (the_proc k p) AND P_INEXEC = 0"
    and "p = initproc k \<Longrightarrow> active_securelevel k (td_cred k td) \<le> 0"
  using assms
  by (auto simp: p_candebug_def p_cansee_def cr_cansee_def Let_def securelevel_gt_def list_all_iff split: if_splits)

text \<open>C15: A jailed process can neither see, reschedule, debug nor signal a process outside its jail,
  whatever its privilege and the sysctls say; the one exception is SIGCONT within one session.\<close>

theorem jail_confines:
  assumes "cr_prison (td_cred k td) = Some j" and "cr_prison (p_cred k p) \<noteq> Some j"
    and "td_proc (the_thread k td) \<noteq> p"
    and "signum = SIGCONT \<longrightarrow> p_session k (td_proc (the_thread k td)) \<noteq> p_session k p"
  shows "p_cansee k td p = Some ESRCH \<and> p_cansched k td p = Some ESRCH \<and> p_candebug k td p \<noteq> None \<and>
    p_cansignal k td p signum = Some ESRCH \<and> cr_canseesocket k (td_cred k td) (p_cred k p) = Some ENOENT"
proof -
  have c: "prison_check (td_cred k td) (p_cred k p) = Some ESRCH"
    using assms(1,2) by (auto simp: prison_check_def jailed_def)
  have "p_candebug k td p \<noteq> None"
    using c assms(3) by (auto simp: p_candebug_def Let_def)
  then show ?thesis
    using c assms(3,4)
    by (auto simp: p_cansee_def cr_cansee_def p_cansched_def p_cansignal_def cr_cansignal_def cr_canseesocket_def
        andthen_some Let_def)
qed

definition jail_demo :: kern where
  "jail_demo = (boot_kern 0)\<lparr>k_cred := [2 \<mapsto> (boot_cred 0)\<lparr>cr_prison := Some 5\<rparr>, 3 \<mapsto> boot_cred 0],
     k_proc := [10 \<mapsto> boot_proc 1, 11 \<mapsto> (boot_proc 2)\<lparr>p_ucred := 3\<rparr>]\<rparr>"

theorem jail_confines_witness: "p_cansignal jail_demo 20 11 SIGKILL = Some ESRCH"
  using jail_confines [of jail_demo 20 5 11 SIGKILL]
  by (simp add: jail_demo_def boot_kern_def boot_proc_def boot_cred_def zero_cred_def)

text \<open>The right to debug another process includes every weaker right: whoever may debug it may
  see it, reschedule it and send it any signal.\<close>

theorem candebug_strongest:
  assumes "td_proc (the_thread k td) \<noteq> p" and "p_candebug k td p = None"
  shows "p_cansee k td p = None \<and> p_cansched k td p = None \<and> p_cansignal k td p signum = None"
proof -
  note d = p_candebug_other [OF assms]
  have see: "prison_check (td_cred k td) (p_cred k p) = None" "cr_seeotheruids k (td_cred k td) (p_cred k p) = None"
    "cr_seeothergids k (td_cred k td) (p_cred k p) = None"
    using d(1) by (simp_all add: p_cansee_def cr_cansee_def)
  have "p_cansched k td p = None" "cr_cansignal k (td_cred k td) p signum = None"
    using see d(2) by (auto simp: p_cansched_def cr_cansignal_def Let_def)
  then show ?thesis using d(1) by (simp add: p_cansignal_def)
qed

lemma boot_candebug: "td_proc (the_thread (boot_kern 1000) 20) \<noteq> 11" "p_candebug (boot_kern 1000) 20 11 = None"
  by (simp_all add: p_candebug_def boot_kern_def boot_proc_def boot_cred_def zero_cred_def Let_def prison_check_def
      jailed_def cr_seeotheruids_def cr_seeothergids_def groupmember_def)

theorem candebug_strongest_witness: "p_cansignal (boot_kern 1000) 20 11 SIGKILL = None"
  using candebug_strongest [OF boot_candebug] by simp

text \<open>A process without privilege may debug another one only if it dominates it: all three uids
  of the target are its effective uid, every group of the target is one of its groups, the target has not
  changed ids since its exec and is not in one, and the target is in the same jail if the debugger is in one.\<close>

theorem candebug_dominates:
  assumes "td_proc (the_thread k td) \<noteq> p" and "p_candebug k td p = None"
    and "suser_cred k (td_cred k td) PRISON_ROOT \<noteq> None"
  shows "uids (proc_ids k p) = {cr_uid (td_cred k td)} \<and>
    (\<forall>g \<in> set (take (cr_ngroups (p_cred k p)) (cr_groups (p_cred k p))) \<union> {cr_rgid (p_cred k p), cr_svgid (p_cred k p)}.
       groupmember g (td_cred k td)) \<and>
    p_flag (the_proc k p) AND P_SUGID = 0 \<and> p_flag (the_proc k p) AND P_INEXEC = 0 \<and>
    (cr_prison (td_cred k td) = None \<or> cr_prison (p_cred k p) = cr_prison (td_cred k td)) \<and>
    (p = initproc k \<longrightarrow> active_securelevel k (td_cred k td) \<le> 0)"
proof -
  note d = p_candebug_other [OF assms(1,2)]
  have "cr_prison (td_cred k td) = None \<or> cr_prison (p_cred k p) = cr_prison (td_cred k td)"
    using d(1) by (simp add: p_cansee_def cr_cansee_def prison_check_none)
  moreover have "uids (proc_ids k p) = {cr_uid (td_cred k td)}"
    using d(2) assms(3) by (auto simp: uids_def proc_ids_def ids_of_def)
  ultimately show ?thesis using d(2-4) assms(3) by blast
qed

theorem candebug_dominates_witness: "uids (proc_ids (boot_kern 1000) 11) = {1000}"
  using candebug_dominates [OF boot_candebug]
  by (simp add: boot_kern_def boot_cred_def zero_cred_def suser_cred_def)

lemma boot_uid: "cr_uid (boot_cred u) = u"
  by (simp add: boot_cred_def)

text \<open>A process that has changed its ids by any of the id calls cannot be debugged afterwards by an
  unprivileged process, and can be sent only the job and terminal control signals by one, also if that
  process shared its cred until then.\<close>

theorem id_change_protects:
  assumes "cred_inv0 k" and "runs k td p pc cr" and "id_call_ok c" and "k' = snd (do_id_call td c k)"
    and "proc_ids k' p \<noteq> proc_ids k p"
    and "td_proc (the_thread k' t) \<noteq> p" and "suser_cred k' (td_cred k' t) PRISON_ROOT \<noteq> None"
  shows "p_candebug k' t p \<noteq> None \<and>
    (conservative_signals k' \<longrightarrow>
     signum \<notin> {0, SIGKILL, SIGINT, SIGTERM, SIGALRM, SIGSTOP, SIGTTIN, SIGTTOU, SIGTSTP, SIGHUP, SIGUSR1, SIGUSR2, SIGCONT} \<longrightarrow>
     p_cansignal k' t p signum \<noteq> None)"
proof -
  obtain pc' cr' where r: "runs k' td p pc' cr'"
    and d: "ids_of cr' = ids_of cr \<or> p_flag pc' = p_flag pc OR P_SUGID"
    using id_call_result [OF assms(1-3)] assms(4) by metis
  have "ids_of cr' \<noteq> ids_of cr" using assms(5) runs_ids [OF r] runs_ids [OF assms(2)] by simp
  then have f: "p_flag (the_proc k' p) AND P_SUGID \<noteq> 0"
    using d r by (simp add: runs_def P_SUGID_def bit.conj_disj_distrib2)
  then have "p_candebug k' t p \<noteq> None"
    using p_candebug_other(2) [OF assms(6)] assms(7) by blast
  then show ?thesis
    using f assms(6,7) by (auto simp: p_cansignal_def cr_cansignal_def Let_def)
qed

theorem id_change_protects_witness:
  "p_candebug (snd (do_id_call 21 (Setegid 101) (boot_kern 1000))) 20 11 \<noteq> None"
proof -
  let ?k = "snd (do_id_call 21 (Setegid 101) (boot_kern 1000))"
  obtain pc' cr' where r: "runs ?k 21 11 pc' cr'"
    and i: "(fst (do_id_call 21 (Setegid 101) (boot_kern 1000)), ids_of cr') =
      id_step (id_priv (boot_kern 1000) (boot_cred 1000)) (Setegid 101) (ids_of (boot_cred 1000))"
    by (rule id_call_result [OF boot_inv boot_runs(2), of "Setegid 101" 1000]) simp
  have "ids_of cr' \<noteq> ids_of (boot_cred 1000)" using i by (auto simp: boot_eval)
  then have 1: "proc_ids ?k 11 \<noteq> proc_ids (boot_kern 1000) 11"
    using runs_ids [OF r] runs_ids [OF boot_runs(2)] by simp
  have th: "k_thread ?k = k_thread (boot_kern 1000)" by (rule id_call_others [OF boot_inv boot_runs(2)]) simp
  have t20: "the_thread ?k 20 = \<lparr>td_proc = 10, td_ucred = Some 2\<rparr>" unfolding th by (simp add: boot_kern_def)
  have inv: "cred_inv0 ?k"
    using do_id_call_outcome [OF boot_inv boot_runs(2), of "Setegid 101" 1000] by (simp add: id_outcome_def)
  have "0 < 0 + cr_refs ?k 2"
    using cred_inv_thread_cred [OF inv, of 20 _ 2] unfolding th by (simp add: boot_kern_def)
  then obtain y where y: "k_cred ?k 2 = Some y" using balancedD_live [OF cred_invD(10) [OF inv]] by metis
  have "\<exists>n. boot_cred 1000 = y\<lparr>cr_ref := n\<rparr>"
    by (rule id_call_others(3) [OF boot_inv boot_runs(2) _ _ y]) (simp_all add: boot_kern_def)
  then have "cr_uid y = 1000" by (metis (no_types) ids_of_ref ids.ext_inject ids_of_def boot_uid)
  then show ?thesis
    using id_change_protects [OF boot_inv boot_runs(2) _ refl 1, of 20] t20 y by (simp add: suser_prison_root)
qed

end
