(* ===== verification/Kern_Proc.thy ===== *)
theory Kern_Proc
  imports Kern_Prot_Access
begin

text \<open>
  Process groups and sessions, kern/kern_proc.c, and the calls setsid, setpgid, getpgid and getsid
  of kern/kern_prot.c. A process group is its address in \<open>k_pgrp\<close>; \<open>k_pgrphash\<close> lists the
  groups that pgfind can find. \<open>psig p sig k\<close> is psignal of kern/kern_sig.c, a parameter.
  The proctree lock makes each call one step; sigio lists are not modelled.
\<close>

abbreviation put_pgrp :: "ptr \<Rightarrow> pgrp \<Rightarrow> kern \<Rightarrow> kern" where
  "put_pgrp g pg k \<equiv> k\<lparr>k_pgrp := (k_pgrp k)(g \<mapsto> pg)\<rparr>"
abbreviation put_sess :: "ptr \<Rightarrow> session \<Rightarrow> kern \<Rightarrow> kern" where
  "put_sess s ss k \<equiv> k\<lparr>k_sess := (k_sess k)(s \<mapsto> ss)\<rparr>"

type_synonym psig = "ptr \<Rightarrow> int \<Rightarrow> kern \<Rightarrow> kern"

section \<open>Lookup\<close>

text \<open>The loop of inferior climbs to the parent; \<open>None\<close> is not returning.\<close>

partial_function (option) inferior :: "ptr \<Rightarrow> kern \<Rightarrow> ptr \<Rightarrow> bool option" where
  "inferior curproc k p =
     (if p = curproc then Some True
      else if p_pid (the_proc k p) = 0 then Some False
      else inferior curproc k (p_pptr (the_proc k p)))"

definition pfind :: "kern \<Rightarrow> pid \<Rightarrow> ptr option" where
  "pfind k pid = List.find (\<lambda>p. p_pid (the_proc k p) = pid) (k_allproc k)"

definition pgfind :: "kern \<Rightarrow> pid \<Rightarrow> ptr option" where
  "pgfind k pgid = List.find (\<lambda>g. pg_id (the_pgrp k g) = pgid) (k_pgrphash k)"

section \<open>Job control counts\<close>

definition P_SHOULDSTOP :: "proc \<Rightarrow> bool" where
  "P_SHOULDSTOP pc \<longleftrightarrow> p_flag pc AND P_STOPPED \<noteq> 0"

definition orphanpg :: "psig \<Rightarrow> ptr \<Rightarrow> kern \<Rightarrow> kern" where
  "orphanpg psig g k =
     (let members = pg_members (the_pgrp k g) in
      if list_ex (\<lambda>p. P_SHOULDSTOP (the_proc k p)) members
      then fold (\<lambda>p k. psig p SIGCONT (psig p SIGHUP k)) members k
      else k)"

definition pgadjustjobc :: "psig \<Rightarrow> ptr \<Rightarrow> bool \<Rightarrow> kern \<Rightarrow> kern" where
  "pgadjustjobc psig g entering k =
     (let pg = the_pgrp k g in
      if entering then put_pgrp g (pg\<lparr>pg_jobc := pg_jobc pg + 1\<rparr>) k
      else
        let pg1 = pg\<lparr>pg_jobc := pg_jobc pg - 1\<rparr>;
            k1 = put_pgrp g pg1 k
        in if pg_jobc pg1 = 0 then orphanpg psig g k1 else k1)"

definition fixjobc :: "psig \<Rightarrow> ptr \<Rightarrow> ptr \<Rightarrow> bool \<Rightarrow> kern \<Rightarrow> kern" where
  "fixjobc psig p g entering k =
     (let mysession = pg_session (the_pgrp k g);
          hispgrp = the (p_pgrp (the_proc k (p_pptr (the_proc k p))));
          k1 = (if hispgrp \<noteq> g \<and> pg_session (the_pgrp k hispgrp) = mysession
                then pgadjustjobc psig g entering k else k)
      in fold (\<lambda>c k.
           let hispgrp = the (p_pgrp (the_proc k c)) in
           if hispgrp = g \<or> pg_session (the_pgrp k hispgrp) \<noteq> mysession then k
           else if p_state (the_proc k c) = PRS_ZOMBIE then k
           else pgadjustjobc psig hispgrp entering k)
         (p_children (the_proc k1 p)) k1)"

section \<open>Entering and leaving groups\<close>

definition pgdelete :: "ptr \<Rightarrow> kern \<Rightarrow> kern" where
  "pgdelete g k =
     (let s = pg_session (the_pgrp k g);
          k1 = (case s_ttyp (the_sess k s) of
                  None \<Rightarrow> k
                | Some t \<Rightarrow> if k_ttypgrp k t = Some g then k\<lparr>k_ttypgrp := (k_ttypgrp k)(t := None)\<rparr> else k);
          k2 = k1\<lparr>k_pgrphash := remove1 g (k_pgrphash k1)\<rparr>;
          ss = (the_sess k2 s)\<lparr>s_count := s_count (the_sess k2 s) - 1\<rparr>;
          k3 = put_sess s ss k2;
          k4 = (if s_count ss = 0 then k3\<lparr>k_sess := (k_sess k3)(s := None)\<rparr> else k3)
      in k4\<lparr>k_pgrp := (k_pgrp k4)(g := None)\<rparr>)"

definition doenterpgrp :: "psig \<Rightarrow> ptr \<Rightarrow> ptr \<Rightarrow> kern \<Rightarrow> kern" where
  "doenterpgrp psig p g k =
     (let save = the (p_pgrp (the_proc k p));
          k1 = fixjobc psig p g True k;
          k2 = fixjobc psig p save False k1;
          k3 = put_pgrp save ((the_pgrp k2 save)\<lparr>pg_members := remove1 p (pg_members (the_pgrp k2 save))\<rparr>) k2;
          k4 = put_proc p ((the_proc k3 p)\<lparr>p_pgrp := Some g\<rparr>) k3;
          k5 = put_pgrp g ((the_pgrp k4 g)\<lparr>pg_members := p # pg_members (the_pgrp k4 g)\<rparr>) k4
      in if pg_members (the_pgrp k5 save) = [] then pgdelete save k5 else k5)"

definition enterthispgrp :: "psig \<Rightarrow> ptr \<Rightarrow> ptr \<Rightarrow> kern \<Rightarrow> kern" where
  "enterthispgrp psig p g k = doenterpgrp psig p g k"

text \<open>\<open>enterpgrp\<close>: the group \<open>g\<close> and, for a new session, \<open>sess\<close> are allocated by the caller.\<close>

definition enterpgrp :: "psig \<Rightarrow> ptr \<Rightarrow> pid \<Rightarrow> ptr \<Rightarrow> ptr option \<Rightarrow> kern \<Rightarrow> kern" where
  "enterpgrp psig p pgid g sess k =
     (let k1 = (case sess of
            Some s \<Rightarrow>
              let ka = put_proc p ((the_proc k p)\<lparr>p_flag := p_flag (the_proc k p) AND NOT P_CONTROLT\<rparr>) k;
                  kb = put_sess s ((the_sess ka s)\<lparr>s_leader := Some p, s_sid := p_pid (the_proc ka p), s_count := 1,
                         s_ttyvp := None, s_ttyp := None, s_login := s_login (the_sess ka (p_session ka p))\<rparr>) ka
              in put_pgrp g ((the_pgrp kb g)\<lparr>pg_session := s\<rparr>) kb
          | None \<Rightarrow>
              let s = p_session k p;
                  ka = put_pgrp g ((the_pgrp k g)\<lparr>pg_session := s\<rparr>) k
              in put_sess s ((the_sess ka s)\<lparr>s_count := s_count (the_sess ka s) + 1\<rparr>) ka);
          k2 = put_pgrp g ((the_pgrp k1 g)\<lparr>pg_id := pgid, pg_members := []\<rparr>) k1;
          k3 = k2\<lparr>k_pgrphash := g # k_pgrphash k2\<rparr>;
          k4 = put_pgrp g ((the_pgrp k3 g)\<lparr>pg_jobc := 0\<rparr>) k3
      in doenterpgrp psig p g k4)"

definition leavepgrp :: "ptr \<Rightarrow> kern \<Rightarrow> kern" where
  "leavepgrp p k =
     (let save = the (p_pgrp (the_proc k p));
          k1 = put_pgrp save ((the_pgrp k save)\<lparr>pg_members := remove1 p (pg_members (the_pgrp k save))\<rparr>) k;
          k2 = put_proc p ((the_proc k1 p)\<lparr>p_pgrp := None\<rparr>) k1
      in if pg_members (the_pgrp k2 save) = [] then pgdelete save k2 else k2)"

section \<open>The system calls\<close>

text \<open>MALLOC with M_ZERO of a group or a session, and FREE.\<close>

definition zero_pgrp :: pgrp where
  "zero_pgrp = \<lparr>pg_id = 0, pg_session = 0, pg_members = [], pg_jobc = 0\<rparr>"
definition zero_sess :: session where
  "zero_sess = \<lparr>s_count = 0, s_leader = None, s_sid = 0, s_ttyvp = None, s_ttyp = None, s_login = ''''\<rparr>"
definition malloc_pgrp :: "kern \<Rightarrow> ptr \<times> kern" where
  "malloc_pgrp k = (k_brk k, put_pgrp (k_brk k) zero_pgrp (k\<lparr>k_brk := k_brk k + 1\<rparr>))"
definition malloc_sess :: "kern \<Rightarrow> ptr \<times> kern" where
  "malloc_sess k = (k_brk k, put_sess (k_brk k) zero_sess (k\<lparr>k_brk := k_brk k + 1\<rparr>))"
definition free_pgrp :: "ptr \<Rightarrow> kern \<Rightarrow> kern" where
  "free_pgrp g k = k\<lparr>k_pgrp := (k_pgrp k)(g := None)\<rparr>"
definition free_sess :: "ptr \<Rightarrow> kern \<Rightarrow> kern" where
  "free_sess s k = k\<lparr>k_sess := (k_sess k)(s := None)\<rparr>"

definition SESS_LEADER :: "kern \<Rightarrow> ptr \<Rightarrow> bool" where
  "SESS_LEADER k p \<longleftrightarrow> s_leader (the_sess k (p_session k p)) = Some p"

abbreviation p_pgid :: "kern \<Rightarrow> ptr \<Rightarrow> pid" where
  "p_pgid k p \<equiv> pg_id (the_pgrp k (the (p_pgrp (the_proc k p))))"

text \<open>\<open>setsid\<close> returns the pid in td_retval or the error.\<close>

definition setsid :: "psig \<Rightarrow> ptr \<Rightarrow> kern \<Rightarrow> (errno + pid) \<times> kern" where
  "setsid psig td k0 =
     (let p = td_proc (the_thread k0 td);
          (newpgrp, k1) = malloc_pgrp k0;
          (newsess, k2) = malloc_sess k1
      in if p_pgid k2 p = p_pid (the_proc k2 p) \<or> pgfind k2 (p_pid (the_proc k2 p)) \<noteq> None
         then (Inl EPERM, free_sess newsess (free_pgrp newpgrp k2))
         else (Inr (p_pid (the_proc k2 p)), enterpgrp psig p (p_pid (the_proc k2 p)) newpgrp (Some newsess) k2))"

text \<open>
  \<open>setpgid\<close>; \<open>None\<close> is not returning, which only \<open>inferior\<close> could cause. The target is a
  process, or the error that stops the call. The new group is freed unless enterpgrp took it.
\<close>

definition setpgid_target :: "ptr \<Rightarrow> ptr \<Rightarrow> pid \<Rightarrow> kern \<Rightarrow> (errno + ptr) option" where
  "setpgid_target td curp pid k =
     (if pid \<noteq> 0 \<and> pid \<noteq> p_pid (the_proc k curp) then
        (case pfind k pid of
           None \<Rightarrow> Some (Inl ESRCH)
         | Some targp \<Rightarrow>
             (case inferior curp k targp of
                None \<Rightarrow> None
              | Some False \<Rightarrow> Some (Inl ESRCH)
              | Some True \<Rightarrow>
                  (case p_cansee k td targp of
                     Some e \<Rightarrow> Some (Inl e)
                   | None \<Rightarrow>
                       if p_pgrp (the_proc k targp) = None \<or> p_session k targp \<noteq> p_session k curp then Some (Inl EPERM)
                       else if p_flag (the_proc k targp) AND P_EXEC \<noteq> 0 then Some (Inl EACCES)
                       else Some (Inr targp))))
      else Some (Inr curp))"

definition setpgid :: "psig \<Rightarrow> ptr \<Rightarrow> pid \<Rightarrow> pid \<Rightarrow> kern \<Rightarrow> (err \<times> kern) option" where
  "setpgid psig td pid pgid0 k0 =
     (let curp = td_proc (the_thread k0 td) in
      if pgid0 < 0 then Some (Some EINVAL, k0)
      else
        let (newpgrp, k) = malloc_pgrp k0 in
        (case setpgid_target td curp pid k of
           None \<Rightarrow> None
         | Some (Inl e) \<Rightarrow> Some (Some e, free_pgrp newpgrp k)
         | Some (Inr targp) \<Rightarrow>
             if SESS_LEADER k targp then Some (Some EPERM, free_pgrp newpgrp k)
             else
               let pgid = (if pgid0 = 0 then p_pid (the_proc k targp) else pgid0) in
               (case pgfind k pgid of
                  None \<Rightarrow>
                    if pgid = p_pid (the_proc k targp)
                    then Some (None, enterpgrp psig targp pgid newpgrp None k)
                    else Some (Some EPERM, free_pgrp newpgrp k)
                | Some pgrp \<Rightarrow>
                    if Some pgrp = p_pgrp (the_proc k targp) then Some (None, free_pgrp newpgrp k)
                    else if pg_id (the_pgrp k pgrp) \<noteq> p_pid (the_proc k targp) \<and>
                            pg_session (the_pgrp k pgrp) \<noteq> p_session k curp
                    then Some (Some EPERM, free_pgrp newpgrp k)
                    else Some (None, free_pgrp newpgrp (enterthispgrp psig targp pgrp k)))))"

definition getpgid :: "kern \<Rightarrow> ptr \<Rightarrow> pid \<Rightarrow> errno + pid" where
  "getpgid k td pid =
     (if pid = 0 then Inr (p_pgid k (td_proc (the_thread k td)))
      else case pfind k pid of
             None \<Rightarrow> Inl ESRCH
           | Some p \<Rightarrow> (case p_cansee k td p of Some e \<Rightarrow> Inl e | None \<Rightarrow> Inr (p_pgid k p)))"

definition getsid :: "kern \<Rightarrow> ptr \<Rightarrow> pid \<Rightarrow> errno + pid" where
  "getsid k td pid =
     (if pid = 0 then Inr (s_sid (the_sess k (p_session k (td_proc (the_thread k td)))))
      else case pfind k pid of
             None \<Rightarrow> Inl ESRCH
           | Some p \<Rightarrow> (case p_cansee k td p of Some e \<Rightarrow> Inl e | None \<Rightarrow> Inr (s_sid (the_sess k (p_session k p)))))"

end
