(* ===== verification/Kern_Proc_Inv.thy ===== *)
theory Kern_Proc_Inv
  imports Kern_Proc
begin

text \<open>
  The process-group invariant \<open>pg_inv\<close> and the proof that doenterpgrp keeps it. Its heart is the
  job control count: pg_jobc of a group is the number of its live members whose parent is in
  another group of the same session.
\<close>

section \<open>Counting, away from the kernel state\<close>

text \<open>
  \<open>G\<close> gives the group of a process, \<open>S\<close> the session of a group, \<open>Z\<close> the zombies, \<open>P\<close> the parent.
\<close>

definition qualifies :: "('p \<Rightarrow> 'g option) \<Rightarrow> ('g \<Rightarrow> 's) \<Rightarrow> ('p \<Rightarrow> bool) \<Rightarrow> ('p \<Rightarrow> 'p) \<Rightarrow> 'p \<Rightarrow> 'g \<Rightarrow> bool" where
  "qualifies G S Z P q g \<longleftrightarrow> G q = Some g \<and> \<not> Z q \<and> (\<exists>h. G (P q) = Some h \<and> h \<noteq> g \<and> S h = S g)"

definition jobs :: "'p set \<Rightarrow> ('p \<Rightarrow> 'g option) \<Rightarrow> ('g \<Rightarrow> 's) \<Rightarrow> ('p \<Rightarrow> bool) \<Rightarrow> ('p \<Rightarrow> 'p) \<Rightarrow> 'g \<Rightarrow> int" where
  "jobs D G S Z P g = (\<Sum>q \<in> D. of_bool (qualifies G S Z P q g))"

text \<open>What fixjobc adds for a group \<open>t\<close> that \<open>p\<close> enters: for its parent, and for each child.\<close>

definition parent_part :: "('p \<Rightarrow> 'g option) \<Rightarrow> ('g \<Rightarrow> 's) \<Rightarrow> ('p \<Rightarrow> 'p) \<Rightarrow> 'p \<Rightarrow> 'g \<Rightarrow> 'g \<Rightarrow> int" where
  "parent_part G S P p t h = of_bool (h = t \<and> (\<exists>hp. G (P p) = Some hp \<and> hp \<noteq> t \<and> S hp = S t))"

definition child_part :: "('p \<Rightarrow> 'g option) \<Rightarrow> ('g \<Rightarrow> 's) \<Rightarrow> ('p \<Rightarrow> bool) \<Rightarrow> 'g \<Rightarrow> 'g \<Rightarrow> 'p \<Rightarrow> int" where
  "child_part G S Z t h c = of_bool (G c = Some h \<and> \<not> Z c \<and> h \<noteq> t \<and> S h = S t)"

lemma jobs_move:
  assumes D: "finite D" "p \<in> D" and s: "G p = Some s" and live: "\<not> Z p" and C: "C = {c \<in> D. P c = p}" and pp: "P p \<noteq> p"
  shows "jobs D (G(p \<mapsto> t)) S Z P h = jobs D G S Z P h
    + (parent_part G S P p t h + (\<Sum>c \<in> C. child_part G S Z t h c))
    - (parent_part G S P p s h + (\<Sum>c \<in> C. child_part G S Z s h c))"
proof -
  let ?G = "G(p \<mapsto> t)"
  have pC: "p \<notin> C" and CD: "C \<subseteq> D - {p}" using C pp by auto
  have split: "jobs D H S Z P h = of_bool (qualifies H S Z P p h) + (\<Sum>c \<in> C. of_bool (qualifies H S Z P c h))
      + (\<Sum>q \<in> D - {p} - C. of_bool (qualifies H S Z P q h))" for H
  proof -
    have "jobs D H S Z P h = of_bool (qualifies H S Z P p h) + (\<Sum>q \<in> D - {p}. of_bool (qualifies H S Z P q h))"
      unfolding jobs_def by (rule sum.remove) (use D in auto)
    moreover have "(\<Sum>q \<in> D - {p}. of_bool (qualifies H S Z P q h) :: int)
        = (\<Sum>q \<in> D - {p} - C. of_bool (qualifies H S Z P q h)) + (\<Sum>c \<in> C. of_bool (qualifies H S Z P c h))"
      by (rule sum.subset_diff) (use CD D in auto)
    ultimately show ?thesis by simp
  qed
  have rest: "(\<Sum>q \<in> D - {p} - C. of_bool (qualifies ?G S Z P q h) :: int) = (\<Sum>q \<in> D - {p} - C. of_bool (qualifies G S Z P q h))"
    by (rule sum.cong) (use C in \<open>auto simp: qualifies_def\<close>)
  have self: "of_bool (qualifies ?G S Z P p h) = parent_part G S P p t h" "of_bool (qualifies G S Z P p h) = parent_part G S P p s h"
    using s live pp by (auto simp: qualifies_def parent_part_def intro!: arg_cong [of _ _ of_bool])
  have kids: "of_bool (qualifies ?G S Z P c h) = child_part G S Z t h c" "of_bool (qualifies G S Z P c h) = child_part G S Z s h c"
    if "c \<in> C" for c
    using that s C pC by (auto simp: qualifies_def child_part_def intro!: arg_cong [of _ _ of_bool])
  have "(\<Sum>c \<in> C. of_bool (qualifies ?G S Z P c h) :: int) = (\<Sum>c \<in> C. child_part G S Z t h c)"
    "(\<Sum>c \<in> C. of_bool (qualifies G S Z P c h) :: int) = (\<Sum>c \<in> C. child_part G S Z s h c)"
    using kids by (auto intro!: sum.cong)
  then show ?thesis unfolding split [of ?G] split [of G] rest self by simp
qed

section \<open>States that differ in job control counts only\<close>

definition pview :: "proc \<Rightarrow> pid \<times> ptr option \<times> ptr \<times> ptr list \<times> proc_state \<times> ptr" where
  "pview pc = (p_pid pc, p_pgrp pc, p_pptr pc, p_children pc, p_state pc, p_ucred pc)"

definition gview :: "pgrp \<Rightarrow> pid \<times> ptr \<times> ptr list" where
  "gview pg = (pg_id pg, pg_session pg, pg_members pg)"

definition same_tree :: "kern \<Rightarrow> kern \<Rightarrow> bool" where
  "same_tree k k' \<longleftrightarrow> k_sess k' = k_sess k \<and> k_pgrphash k' = k_pgrphash k \<and> k_ttypgrp k' = k_ttypgrp k \<and>
     k_allproc k' = k_allproc k \<and> k_brk k' = k_brk k \<and>
     (\<forall>q. map_option pview (k_proc k' q) = map_option pview (k_proc k q)) \<and>
     (\<forall>g. map_option gview (k_pgrp k' g) = map_option gview (k_pgrp k g))"

definition psig_ok :: "psig \<Rightarrow> bool" where
  "psig_ok psig \<longleftrightarrow> (\<forall>p s k. same_tree k (psig p s k) \<and> k_pgrp (psig p s k) = k_pgrp k)"

lemma same_tree_refl [simp]: "same_tree k k" by (simp add: same_tree_def)
lemma same_tree_trans: "same_tree k k' \<Longrightarrow> same_tree k' k'' \<Longrightarrow> same_tree k k''" by (simp add: same_tree_def)

lemma same_tree_proc:
  assumes "same_tree k k'"
  shows "k_proc k' q = None \<longleftrightarrow> k_proc k q = None"
    and "k_proc k q = Some qc \<Longrightarrow> p_pid (the_proc k' q) = p_pid qc \<and> p_pgrp (the_proc k' q) = p_pgrp qc \<and>
      p_pptr (the_proc k' q) = p_pptr qc \<and> p_children (the_proc k' q) = p_children qc \<and> p_state (the_proc k' q) = p_state qc"
proof -
  have "map_option pview (k_proc k' q) = map_option pview (k_proc k q)" using assms by (simp add: same_tree_def)
  then show "k_proc k' q = None \<longleftrightarrow> k_proc k q = None"
    and "k_proc k q = Some qc \<Longrightarrow> p_pid (the_proc k' q) = p_pid qc \<and> p_pgrp (the_proc k' q) = p_pgrp qc \<and>
      p_pptr (the_proc k' q) = p_pptr qc \<and> p_children (the_proc k' q) = p_children qc \<and> p_state (the_proc k' q) = p_state qc"
    by (cases "k_proc k q"; cases "k_proc k' q"; simp add: pview_def)+
qed

lemma same_tree_pgrp:
  assumes "same_tree k k'"
  shows "k_pgrp k' g = None \<longleftrightarrow> k_pgrp k g = None"
    and "k_pgrp k g = Some pg \<Longrightarrow> pg_id (the_pgrp k' g) = pg_id pg \<and> pg_session (the_pgrp k' g) = pg_session pg \<and>
      pg_members (the_pgrp k' g) = pg_members pg"
proof -
  have "map_option gview (k_pgrp k' g) = map_option gview (k_pgrp k g)" using assms by (simp add: same_tree_def)
  then show "k_pgrp k' g = None \<longleftrightarrow> k_pgrp k g = None"
    and "k_pgrp k g = Some pg \<Longrightarrow> pg_id (the_pgrp k' g) = pg_id pg \<and> pg_session (the_pgrp k' g) = pg_session pg \<and>
      pg_members (the_pgrp k' g) = pg_members pg"
    by (cases "k_pgrp k g"; cases "k_pgrp k' g"; simp add: gview_def)+
qed

abbreviation jobc :: "kern \<Rightarrow> ptr \<Rightarrow> int" where "jobc k g \<equiv> pg_jobc (the_pgrp k g)"

lemma fold_psig:
  assumes "psig_ok psig"
  shows "same_tree k (fold (\<lambda>p k. psig p SIGCONT (psig p SIGHUP k)) ps k) \<and>
    k_pgrp (fold (\<lambda>p k. psig p SIGCONT (psig p SIGHUP k)) ps k) = k_pgrp k"
proof (induction ps arbitrary: k)
  case (Cons p ps)
  let ?k = "psig p SIGCONT (psig p SIGHUP k)"
  have "same_tree k ?k" "k_pgrp ?k = k_pgrp k"
    using assms same_tree_trans unfolding psig_ok_def by metis+
  then show ?case using Cons.IH [of ?k] same_tree_trans by simp
qed simp

lemma orphanpg_same:
  "psig_ok psig \<Longrightarrow> same_tree k (orphanpg psig g k) \<and> k_pgrp (orphanpg psig g k) = k_pgrp k"
  by (simp add: orphanpg_def Let_def fold_psig)

definition sgn_of :: "bool \<Rightarrow> int" where "sgn_of e = (if e then 1 else -1)"

lemma same_tree_jobc: "k_pgrp k g = Some pg \<Longrightarrow> same_tree k (put_pgrp g (pg\<lparr>pg_jobc := j\<rparr>) k)"
  by (simp add: same_tree_def gview_def)

lemma pgadjustjobc_effect:
  assumes ok: "psig_ok psig" and g: "k_pgrp k g = Some pg"
  shows "same_tree k (pgadjustjobc psig g e k)" and "jobc (pgadjustjobc psig g e k) h = jobc k h + sgn_of e * of_bool (h = g)"
proof -
  note o = orphanpg_same [OF ok, of "put_pgrp g (pg\<lparr>pg_jobc := pg_jobc pg - 1\<rparr>) k" g]
  show "same_tree k (pgadjustjobc psig g e k)"
    using g same_tree_jobc [OF g] same_tree_trans [OF same_tree_jobc [OF g] conjunct1 [OF o]]
    by (auto simp: pgadjustjobc_def Let_def)
  show "jobc (pgadjustjobc psig g e k) h = jobc k h + sgn_of e * of_bool (h = g)"
    using g o by (cases "pg_jobc pg = 1") (simp_all add: pgadjustjobc_def Let_def sgn_of_def)
qed

section \<open>The effect of fixjobc\<close>

definition grp_of :: "kern \<Rightarrow> ptr \<Rightarrow> ptr option" where
  "grp_of k q = (case k_proc k q of None \<Rightarrow> None | Some qc \<Rightarrow> p_pgrp qc)"
definition ses_of :: "kern \<Rightarrow> ptr \<Rightarrow> ptr" where "ses_of k g = pg_session (the_pgrp k g)"
definition zomb :: "kern \<Rightarrow> ptr \<Rightarrow> bool" where "zomb k q \<longleftrightarrow> p_state (the_proc k q) = PRS_ZOMBIE"
definition par_of :: "kern \<Rightarrow> ptr \<Rightarrow> ptr" where "par_of k q = p_pptr (the_proc k q)"

lemma same_tree_views:
  assumes "same_tree k k'"
  shows "grp_of k' = grp_of k" and "k_pgrp k g = Some pg \<Longrightarrow> ses_of k' g = ses_of k g"
    and "k_proc k q = Some qc \<Longrightarrow> zomb k' q = zomb k q" and "k_proc k q = Some qc \<Longrightarrow> par_of k' q = par_of k q"
    and "dom (k_proc k') = dom (k_proc k)" and "dom (k_pgrp k') = dom (k_pgrp k)"
proof -
  have "grp_of k' q = grp_of k q" for q
    using same_tree_proc [OF assms, of q] by (cases "k_proc k q"; cases "k_proc k' q") (simp_all add: grp_of_def)
  then show "grp_of k' = grp_of k" by blast
  show "k_pgrp k g = Some pg \<Longrightarrow> ses_of k' g = ses_of k g" using same_tree_pgrp(2) [OF assms] by (simp add: ses_of_def)
  show "k_proc k q = Some qc \<Longrightarrow> zomb k' q = zomb k q" using same_tree_proc(2) [OF assms, of q qc] by (simp add: zomb_def)
  show "k_proc k q = Some qc \<Longrightarrow> par_of k' q = par_of k q" using same_tree_proc(2) [OF assms, of q qc] by (simp add: par_of_def)
  show "dom (k_proc k') = dom (k_proc k)" unfolding dom_def using same_tree_proc(1) [OF assms] by simp
  show "dom (k_pgrp k') = dom (k_pgrp k)" unfolding dom_def using same_tree_pgrp(1) [OF assms] by simp
qed

lemma fix_children:
  assumes ok: "psig_ok psig" and g: "k_pgrp k g \<noteq> None"
    and cs: "\<And>c. c \<in> set cs \<Longrightarrow> \<exists>cc h pg. k_proc k c = Some cc \<and> p_pgrp cc = Some h \<and> k_pgrp k h = Some pg"
    and f: "f = (\<lambda>c k. let hispgrp = the (p_pgrp (the_proc k c)) in
           if hispgrp = g \<or> pg_session (the_pgrp k hispgrp) \<noteq> ms then k
           else if p_state (the_proc k c) = PRS_ZOMBIE then k
           else pgadjustjobc psig hispgrp e k)"
    and ms: "ms = ses_of k g"
  shows "same_tree k (fold f cs k)"
    and "jobc (fold f cs k) h = jobc k h + sgn_of e * (\<Sum>c \<leftarrow> cs. child_part (grp_of k) (ses_of k) (zomb k) g h c)"
  using g cs ms
proof (induction cs arbitrary: k)
  case Nil
  { case 1 show ?case by simp }
  { case 2 show ?case by simp }
next
  case (Cons c cs)
  { fix k assume g: "k_pgrp k g \<noteq> None" and ms: "ms = ses_of k g"
      and cs: "\<And>d. d \<in> set (c # cs) \<Longrightarrow> \<exists>cc h pg. k_proc k d = Some cc \<and> p_pgrp cc = Some h \<and> k_pgrp k h = Some pg"
    obtain cc hc pg where c: "k_proc k c = Some cc" "p_pgrp cc = Some hc" "k_pgrp k hc = Some pg"
      using cs [of c] by auto
    let ?k = "f c k"
    have s: "same_tree k ?k" and j: "\<And>h. jobc ?k h = jobc k h + sgn_of e * child_part (grp_of k) (ses_of k) (zomb k) g h c"
      using pgadjustjobc_effect [OF ok c(3), of e] c ms
      by (auto simp: f Let_def child_part_def grp_of_def zomb_def ses_of_def)
    have g': "k_pgrp ?k g \<noteq> None" using same_tree_pgrp(1) [OF s] g by simp
    have cs': "\<exists>cc h pg. k_proc ?k d = Some cc \<and> p_pgrp cc = Some h \<and> k_pgrp ?k h = Some pg" if "d \<in> set cs" for d
    proof -
      obtain dc hd pd where d: "k_proc k d = Some dc" "p_pgrp dc = Some hd" "k_pgrp k hd = Some pd"
        using cs [of d] \<open>d \<in> set cs\<close> by auto
      then obtain dc' pd' where "k_proc ?k d = Some dc'" "k_pgrp ?k hd = Some pd'"
        using same_tree_proc(1) [OF s, of d] same_tree_pgrp(1) [OF s, of hd] by auto
      then show ?thesis using same_tree_proc(2) [OF s d(1)] d(2) by auto
    qed
    have ms': "ms = ses_of ?k g" using ms same_tree_views(2) [OF s] g by auto
    have part: "child_part (grp_of ?k) (ses_of ?k) (zomb ?k) g h d = child_part (grp_of k) (ses_of k) (zomb k) g h d"
      if "d \<in> set cs" for d
    proof -
      obtain dc hd pd where d: "k_proc k d = Some dc" "p_pgrp dc = Some hd" "k_pgrp k hd = Some pd"
        using cs [of d] \<open>d \<in> set cs\<close> by auto
      have "ses_of ?k hd = ses_of k hd" "ses_of ?k g = ses_of k g" "zomb ?k d = zomb k d" "grp_of ?k = grp_of k"
        using same_tree_views [OF s] d g by auto
      then show ?thesis using d by (auto simp: child_part_def grp_of_def)
    qed
    have sum: "(\<Sum>d \<leftarrow> cs. child_part (grp_of ?k) (ses_of ?k) (zomb ?k) g h d) = (\<Sum>d \<leftarrow> cs. child_part (grp_of k) (ses_of k) (zomb k) g h d)"
      using part by (simp cong: map_cong)
    have "same_tree k (fold f (c # cs) k)"
      "jobc (fold f (c # cs) k) h = jobc k h + sgn_of e * (\<Sum>c \<leftarrow> c # cs. child_part (grp_of k) (ses_of k) (zomb k) g h c)"
      using Cons.IH(1) [OF g' cs' ms'] same_tree_trans [OF s] Cons.IH(2) [OF g' cs' ms'] j sum
      by (simp_all add: distrib_left)
  }
  note step = this
  { case 1 then show ?case using step(1) by blast }
  { case 2 then show ?case using step(2) by blast }
qed

section \<open>The invariant\<close>

definition proc_tree :: "kern \<Rightarrow> bool" where
  "proc_tree k \<longleftrightarrow>
     k_proc k 0 = None \<and>
     (\<forall>q qc. k_proc k q = Some qc \<longrightarrow> distinct (p_children qc) \<and>
        (\<forall>c. c \<in> set (p_children qc) \<longleftrightarrow> (\<exists>cc. k_proc k c = Some cc \<and> p_pptr cc = q \<and> p_pgrp cc \<noteq> None))) \<and>
     (\<forall>q qc. k_proc k q = Some qc \<longrightarrow> p_pid qc \<noteq> 0 \<longrightarrow> p_pgrp qc \<noteq> None \<longrightarrow>
        (\<exists>pp. k_proc k (p_pptr qc) = Some pp \<and> p_pgrp pp \<noteq> None)) \<and>
     (\<forall>q qc. k_proc k q = Some qc \<longrightarrow> p_pid qc = 0 \<longrightarrow> p_pptr qc = 0) \<and>
     (\<exists>d :: ptr \<Rightarrow> nat. \<forall>q qc. k_proc k q = Some qc \<longrightarrow> p_pid qc \<noteq> 0 \<longrightarrow> d (p_pptr qc) < d q)"

definition sess_groups :: "kern \<Rightarrow> ptr \<Rightarrow> nat" where
  "sess_groups k s = length (filter (\<lambda>g. ses_of k g = s) (k_pgrphash k))"

abbreviation kjobs :: "kern \<Rightarrow> ptr \<Rightarrow> int" where
  "kjobs k g \<equiv> jobs (dom (k_proc k)) (grp_of k) (ses_of k) (zomb k) (par_of k) g"

definition members_ok :: "kern \<Rightarrow> ptr set \<Rightarrow> ptr \<Rightarrow> bool" where
  "members_ok k E g \<longleftrightarrow> distinct (pg_members (the_pgrp k g)) \<and>
     set (pg_members (the_pgrp k g)) = {q. grp_of k q = Some g} \<and> (pg_members (the_pgrp k g) = [] \<longrightarrow> g \<in> E)"

text \<open>
  \<open>pg_inv F E k\<close>: \<open>F\<close> are the groups allocated but not yet in use, \<open>E\<close> those in use that may
  be empty for the moment; both are empty between system calls.
\<close>

definition pg_inv :: "ptr set \<Rightarrow> ptr set \<Rightarrow> kern \<Rightarrow> bool" where
  "pg_inv F E k \<longleftrightarrow>
     finite (dom (k_proc k)) \<and> distinct (k_pgrphash k) \<and>
     dom (k_pgrp k) = set (k_pgrphash k) \<union> F \<and> set (k_pgrphash k) \<inter> F = {} \<and>
     inj_on (\<lambda>g. pg_id (the_pgrp k g)) (set (k_pgrphash k)) \<and>
     (\<forall>g \<in> set (k_pgrphash k). members_ok k E g) \<and>
     (\<forall>q g. grp_of k q = Some g \<longrightarrow> g \<in> set (k_pgrphash k)) \<and>
     balanced k_sess s_count (\<lambda>s. int (sess_groups k s)) k \<and>
     proc_tree k \<and>
     (\<forall>g \<in> set (k_pgrphash k). jobc k g = kjobs k g) \<and>
     dom (k_pgrp k) \<subseteq> {..<k_brk k} \<and> dom (k_sess k) \<subseteq> {..<k_brk k}"

lemma pg_invI:
  assumes "finite (dom (k_proc k))" and "distinct (k_pgrphash k)"
    and "dom (k_pgrp k) = set (k_pgrphash k) \<union> F" and "set (k_pgrphash k) \<inter> F = {}"
    and "inj_on (\<lambda>g. pg_id (the_pgrp k g)) (set (k_pgrphash k))"
    and "\<And>g. g \<in> set (k_pgrphash k) \<Longrightarrow> members_ok k E g"
    and "\<And>q g. grp_of k q = Some g \<Longrightarrow> g \<in> set (k_pgrphash k)"
    and "balanced k_sess s_count (\<lambda>s. int (sess_groups k s)) k"
    and "proc_tree k" and "\<And>g. g \<in> set (k_pgrphash k) \<Longrightarrow> jobc k g = kjobs k g"
    and "dom (k_pgrp k) \<subseteq> {..<k_brk k}" and "dom (k_sess k) \<subseteq> {..<k_brk k}"
  shows "pg_inv F E k"
  unfolding pg_inv_def using assms by blast

lemma pg_invD:
  assumes "pg_inv F E k"
  shows "finite (dom (k_proc k))" and "distinct (k_pgrphash k)"
    and "dom (k_pgrp k) = set (k_pgrphash k) \<union> F" and "set (k_pgrphash k) \<inter> F = {}"
    and "inj_on (\<lambda>g. pg_id (the_pgrp k g)) (set (k_pgrphash k))"
    and "g \<in> set (k_pgrphash k) \<Longrightarrow> members_ok k E g"
    and "grp_of k q = Some g \<Longrightarrow> g \<in> set (k_pgrphash k)"
    and "balanced k_sess s_count (\<lambda>s. int (sess_groups k s)) k"
    and "proc_tree k" and "g \<in> set (k_pgrphash k) \<Longrightarrow> jobc k g = kjobs k g"
    and "dom (k_pgrp k) \<subseteq> {..<k_brk k}" and "dom (k_sess k) \<subseteq> {..<k_brk k}"
  using assms unfolding pg_inv_def by blast+

lemma pg_inv_group:
  assumes "pg_inv F E k" and "g \<in> set (k_pgrphash k)"
  shows "\<exists>pg. k_pgrp k g = Some pg"
  using pg_invD(3) [OF assms(1)] assms(2) by blast

text \<open>The part of the invariant that does not speak of the counts.\<close>

definition pg_shape :: "kern \<Rightarrow> bool" where
  "pg_shape k \<longleftrightarrow> finite (dom (k_proc k)) \<and> (\<forall>g \<in> set (k_pgrphash k). \<exists>pg. k_pgrp k g = Some pg) \<and>
     (\<forall>q g. grp_of k q = Some g \<longrightarrow> g \<in> set (k_pgrphash k)) \<and> proc_tree k"

lemma pg_inv_shape: "pg_inv F E k \<Longrightarrow> pg_shape k"
  unfolding pg_shape_def using pg_invD(1,7,9) [of F E k] pg_inv_group [of F E k] by blast

lemma pg_shapeD:
  assumes "pg_shape k"
  shows "finite (dom (k_proc k))" and "g \<in> set (k_pgrphash k) \<Longrightarrow> \<exists>pg. k_pgrp k g = Some pg"
    and "grp_of k q = Some g \<Longrightarrow> g \<in> set (k_pgrphash k)" and "proc_tree k"
  using assms unfolding pg_shape_def by blast+

lemma same_tree_both:
  assumes "same_tree k k'"
  shows "k_proc k' q = Some qc' \<Longrightarrow> \<exists>qc. k_proc k q = Some qc \<and> pview qc = pview qc'"
    and "k_proc k q = Some qc \<Longrightarrow> \<exists>qc'. k_proc k' q = Some qc' \<and> pview qc' = pview qc"
proof -
  have e: "map_option pview (k_proc k' q) = map_option pview (k_proc k q)" using assms by (simp add: same_tree_def)
  show "k_proc k' q = Some qc' \<Longrightarrow> \<exists>qc. k_proc k q = Some qc \<and> pview qc = pview qc'" using e by (cases "k_proc k q") auto
  show "k_proc k q = Some qc \<Longrightarrow> \<exists>qc'. k_proc k' q = Some qc' \<and> pview qc' = pview qc" using e by (cases "k_proc k' q") auto
qed

lemma proc_tree_cong:
  assumes r1: "\<And>q qc'. k_proc k' q = Some qc' \<Longrightarrow> \<exists>qc. k_proc k q = Some qc \<and> p_pid qc = p_pid qc' \<and> p_pptr qc = p_pptr qc' \<and>
      p_children qc = p_children qc' \<and> (p_pgrp qc = None) = (p_pgrp qc' = None)"
    and r2: "\<And>q qc. k_proc k q = Some qc \<Longrightarrow> \<exists>qc'. k_proc k' q = Some qc' \<and> p_pid qc = p_pid qc' \<and> p_pptr qc = p_pptr qc' \<and>
      p_children qc = p_children qc' \<and> (p_pgrp qc = None) = (p_pgrp qc' = None)"
    and t: "proc_tree k"
  shows "proc_tree k'"
proof -
  have z: "k_proc k 0 = None" and
    c: "\<And>q qc. k_proc k q = Some qc \<Longrightarrow> distinct (p_children qc) \<and>
        (\<forall>c. c \<in> set (p_children qc) \<longleftrightarrow> (\<exists>cc. k_proc k c = Some cc \<and> p_pptr cc = q \<and> p_pgrp cc \<noteq> None))" and
    p: "\<And>q qc. k_proc k q = Some qc \<Longrightarrow> p_pid qc \<noteq> 0 \<Longrightarrow> p_pgrp qc \<noteq> None \<Longrightarrow>
        \<exists>pp. k_proc k (p_pptr qc) = Some pp \<and> p_pgrp pp \<noteq> None" and
    r: "\<And>q qc. k_proc k q = Some qc \<Longrightarrow> p_pid qc = 0 \<Longrightarrow> p_pptr qc = 0"
    using t unfolding proc_tree_def by blast+
  obtain d :: "ptr \<Rightarrow> nat" where d: "\<And>q qc. k_proc k q = Some qc \<Longrightarrow> p_pid qc \<noteq> 0 \<Longrightarrow> d (p_pptr qc) < d q"
    using t unfolding proc_tree_def by blast
  show ?thesis unfolding proc_tree_def
  proof (intro conjI allI impI)
    show "k_proc k' 0 = None" using r1 [of 0] z by (cases "k_proc k' 0") auto
  next
    fix q qc' assume "k_proc k' q = Some qc'"
    then show "distinct (p_children qc')" using r1 c by metis
  next
    fix q qc' ch assume q: "k_proc k' q = Some qc'"
    then obtain qc where qc: "k_proc k q = Some qc" "p_children qc = p_children qc'" using r1 by metis
    show "ch \<in> set (p_children qc') \<longleftrightarrow> (\<exists>cc. k_proc k' ch = Some cc \<and> p_pptr cc = q \<and> p_pgrp cc \<noteq> None)"
      using c [OF qc(1)] qc(2) r1 r2 by metis
  next
    fix q qc' assume "k_proc k' q = Some qc'" "p_pid qc' \<noteq> 0" "p_pgrp qc' \<noteq> None"
    then show "\<exists>pp. k_proc k' (p_pptr qc') = Some pp \<and> p_pgrp pp \<noteq> None" using r1 r2 p by metis
  next
    fix q qc' assume "k_proc k' q = Some qc'" "p_pid qc' = 0"
    then show "p_pptr qc' = 0" using r1 r by metis
  next
    show "\<exists>d :: ptr \<Rightarrow> nat. \<forall>q qc. k_proc k' q = Some qc \<longrightarrow> p_pid qc \<noteq> 0 \<longrightarrow> d (p_pptr qc) < d q"
      by (rule exI [of _ d]) (use r1 d in metis)
  qed
qed

lemma same_tree_tree: "same_tree k k' \<Longrightarrow> proc_tree k \<Longrightarrow> proc_tree k'"
  by (rule proc_tree_cong) (use same_tree_both [of k k'] in \<open>force simp: pview_def\<close>)+

lemma same_tree_shape:
  assumes s: "same_tree k k'" and sh: "pg_shape k"
  shows "pg_shape k'"
proof -
  have h: "k_pgrphash k' = k_pgrphash k" using s by (simp add: same_tree_def)
  have "\<exists>pg. k_pgrp k' g = Some pg" if "g \<in> set (k_pgrphash k')" for g
    using pg_shapeD(2) [OF sh, of g] same_tree_pgrp(1) [OF s, of g] that h by auto
  then show ?thesis
    using sh same_tree_tree [OF s] same_tree_views(1,5) [OF s] h unfolding pg_shape_def by auto
qed

lemma fixjobc_effect:
  assumes ok: "psig_ok psig" and inv: "pg_shape k" and g: "g \<in> set (k_pgrphash k)"
    and p: "k_proc k p = Some pc" "p_pid pc \<noteq> 0" "p_pgrp pc \<noteq> None"
  shows "same_tree k (fixjobc psig p g e k)"
    and "jobc (fixjobc psig p g e k) h = jobc k h + sgn_of e *
      (parent_part (grp_of k) (ses_of k) (par_of k) p g h +
       (\<Sum>c \<in> {c \<in> dom (k_proc k). par_of k c = p}. child_part (grp_of k) (ses_of k) (zomb k) g h c))"
proof -
  have tree: "proc_tree k" using pg_shapeD(4) [OF inv] .
  obtain pp hp where pp: "k_proc k (p_pptr pc) = Some pp" "p_pgrp pp = Some hp"
    using tree p unfolding proc_tree_def by blast
  have hp: "hp \<in> set (k_pgrphash k)" using pg_shapeD(3) [OF inv, of "p_pptr pc" hp] pp by (simp add: grp_of_def)
  obtain pgh where pgh: "k_pgrp k hp = Some pgh" using pg_shapeD(2) [OF inv hp] by blast
  have gd: "k_pgrp k g \<noteq> None" using pg_shapeD(2) [OF inv g] by auto
  define k1' where "k1' = (if hp \<noteq> g \<and> ses_of k hp = ses_of k g then pgadjustjobc psig g e k else k)"
  have par: "par_of k p = p_pptr pc" using p by (simp add: par_of_def)
  obtain pg where pg: "k_pgrp k g = Some pg" using gd by auto
  have s1: "same_tree k k1'" and j1: "jobc k1' h = jobc k h + sgn_of e * parent_part (grp_of k) (ses_of k) (par_of k) p g h"
    using pgadjustjobc_effect [OF ok pg, of e] pp by (auto simp: k1'_def parent_part_def par grp_of_def)
  define f where "f = (\<lambda>c k'. let hispgrp = the (p_pgrp (the_proc k' c)) in
           if hispgrp = g \<or> pg_session (the_pgrp k' hispgrp) \<noteq> ses_of k g then k'
           else if p_state (the_proc k' c) = PRS_ZOMBIE then k'
           else pgadjustjobc psig hispgrp e k')"
  have kids: "p_children (the_proc k1' p) = p_children pc" using same_tree_proc(2) [OF s1 p(1)] by simp
  have fx: "fixjobc psig p g e k = fold f (p_children pc) k1'"
    using p(1) pp kids by (simp add: fixjobc_def Let_def k1'_def f_def ses_of_def)
  have g1: "k_pgrp k1' g \<noteq> None" using same_tree_pgrp(1) [OF s1] gd by simp
  have cs: "\<exists>cc h pg. k_proc k1' c = Some cc \<and> p_pgrp cc = Some h \<and> k_pgrp k1' h = Some pg" if c: "c \<in> set (p_children pc)" for c
  proof -
    obtain cc hc where cc: "k_proc k c = Some cc" "p_pgrp cc = Some hc"
      using tree c p(1) unfolding proc_tree_def by blast
    then have "hc \<in> set (k_pgrphash k)" using pg_shapeD(3) [OF inv, of c hc] by (simp add: grp_of_def)
    then obtain pgc where pgc: "k_pgrp k hc = Some pgc" using pg_shapeD(2) [OF inv] by blast
    obtain cc' pgc' where "k_proc k1' c = Some cc'" "k_pgrp k1' hc = Some pgc'"
      using same_tree_proc(1) [OF s1, of c] same_tree_pgrp(1) [OF s1, of hc] cc pgc by auto
    then show ?thesis using same_tree_proc(2) [OF s1 cc(1)] cc(2) by auto
  qed
  have ms: "ses_of k g = ses_of k1' g" using same_tree_views(2) [OF s1 pg] by simp
  note fc = fix_children [OF ok g1 cs f_def ms]
  show "same_tree k (fixjobc psig p g e k)"
    unfolding fx using same_tree_trans [OF s1 fc(1)] .
  have part: "child_part (grp_of k1') (ses_of k1') (zomb k1') g h c = child_part (grp_of k) (ses_of k) (zomb k) g h c"
    if c: "c \<in> set (p_children pc)" for c
  proof -
    obtain cc hc where cc: "k_proc k c = Some cc" "p_pgrp cc = Some hc"
      using tree c p(1) unfolding proc_tree_def by blast
    then have "hc \<in> set (k_pgrphash k)" using pg_shapeD(3) [OF inv, of c hc] by (simp add: grp_of_def)
    then obtain pgc where pgc: "k_pgrp k hc = Some pgc" using pg_shapeD(2) [OF inv] by blast
    show ?thesis
      using same_tree_views(1) [OF s1] same_tree_views(2) [OF s1 pgc] same_tree_views(2) [OF s1 pg] same_tree_views(3) [OF s1 cc(1)] cc
      by (auto simp: child_part_def grp_of_def)
  qed
  have dist: "distinct (p_children pc)" using tree p(1) unfolding proc_tree_def by blast
  have "(\<Sum>c \<leftarrow> p_children pc. child_part (grp_of k1') (ses_of k1') (zomb k1') g h c)
      = (\<Sum>c \<leftarrow> p_children pc. child_part (grp_of k) (ses_of k) (zomb k) g h c)"
    using part by (simp cong: map_cong)
  also have "\<dots> = (\<Sum>c \<in> set (p_children pc). child_part (grp_of k) (ses_of k) (zomb k) g h c)"
    using dist by (rule sum_list_distinct_conv_sum_set)
  also have "\<dots> = (\<Sum>c \<in> {c \<in> dom (k_proc k). par_of k c = p}. child_part (grp_of k) (ses_of k) (zomb k) g h c)"
  proof (rule sum.mono_neutral_left)
    show "finite {c \<in> dom (k_proc k). par_of k c = p}" using pg_shapeD(1) [OF inv] by simp
    show "set (p_children pc) \<subseteq> {c \<in> dom (k_proc k). par_of k c = p}"
      using tree p(1) unfolding proc_tree_def by (fastforce simp: par_of_def)
    show "\<forall>c \<in> {c \<in> dom (k_proc k). par_of k c = p} - set (p_children pc). child_part (grp_of k) (ses_of k) (zomb k) g h c = 0"
    proof
      fix c assume c: "c \<in> {c \<in> dom (k_proc k). par_of k c = p} - set (p_children pc)"
      then obtain cc where cc: "k_proc k c = Some cc" "p_pptr cc = p" by (auto simp: par_of_def)
      then have "p_pgrp cc = None" using tree p(1) c unfolding proc_tree_def by blast
      then show "child_part (grp_of k) (ses_of k) (zomb k) g h c = 0" using cc by (simp add: child_part_def grp_of_def)
    qed
  qed
  finally show "jobc (fixjobc psig p g e k) h = jobc k h + sgn_of e *
      (parent_part (grp_of k) (ses_of k) (par_of k) p g h +
       (\<Sum>c \<in> {c \<in> dom (k_proc k). par_of k c = p}. child_part (grp_of k) (ses_of k) (zomb k) g h c))"
    unfolding fx using fc(2) [where h = h] j1 by (simp add: distrib_left)
qed

section \<open>doenterpgrp keeps the invariant\<close>

text \<open>Both calls of fixjobc: from the counts of \<open>k\<close> to those that hold once \<open>p\<close> has moved.\<close>

lemma two_fixjobc:
  assumes ok: "psig_ok psig" and inv: "pg_inv F E k" and t: "t \<in> set (k_pgrphash k)"
    and p: "k_proc k p = Some pc" "p_pid pc \<noteq> 0" "p_pgrp pc = Some s" "p_state pc \<noteq> PRS_ZOMBIE"
    and k2: "k2 = fixjobc psig p s False (fixjobc psig p t True k)"
  shows "same_tree k k2"
    and "h \<in> set (k_pgrphash k) \<Longrightarrow> jobc k2 h = jobs (dom (k_proc k)) ((grp_of k)(p \<mapsto> t)) (ses_of k) (zomb k) (par_of k) h"
proof -
  define k1 where "k1 = fixjobc psig p t True k"
  have sh: "pg_shape k" using pg_inv_shape [OF inv] .
  have gp: "p_pgrp pc \<noteq> None" using p by simp
  note f1 = fixjobc_effect [OF ok sh t p(1,2) gp, of True, folded k1_def]
  have sh1: "pg_shape k1" using same_tree_shape [OF f1(1) sh] .
  have s0: "s \<in> set (k_pgrphash k)" using pg_invD(7) [OF inv, of p s] p by (simp add: grp_of_def)
  have s1: "s \<in> set (k_pgrphash k1)" using s0 f1(1) by (simp add: same_tree_def)
  obtain pc1 where pc1: "k_proc k1 p = Some pc1" "pview pc1 = pview pc" using same_tree_both(2) [OF f1(1) p(1)] by blast
  have p1: "p_pid pc1 \<noteq> 0" "p_pgrp pc1 \<noteq> None" using pc1(2) p by (auto simp: pview_def)
  have k2': "k2 = fixjobc psig p s False k1" using k2 k1_def by simp
  note f2 = fixjobc_effect [OF ok sh1 s1 pc1(1) p1, of False, folded k2']
  show "same_tree k k2" using same_tree_trans [OF f1(1) f2(1)] .
  assume h: "h \<in> set (k_pgrphash k)"
  define C where "C = {c \<in> dom (k_proc k). par_of k c = p}"
  have v: "grp_of k1 = grp_of k" using same_tree_views(1) [OF f1(1)] .
  have ses: "ses_of k1 g = ses_of k g" if "g \<in> set (k_pgrphash k)" for g
    using same_tree_views(2) [OF f1(1)] pg_inv_group [OF inv that] by blast
  have zp: "zomb k1 q = zomb k q" "par_of k1 q = par_of k q" if "q \<in> dom (k_proc k)" for q
    using same_tree_views(3,4) [OF f1(1)] that by auto
  have C1: "{c \<in> dom (k_proc k1). par_of k1 c = p} = C"
    unfolding C_def same_tree_views(5) [OF f1(1)] using zp(2) [OF domI] by fastforce
  have grp: "g \<in> set (k_pgrphash k)" if "grp_of k q = Some g" for q g using pg_invD(7) [OF inv that] .
  have pd: "p \<in> dom (k_proc k)" using p(1) by auto
  have pp: "parent_part (grp_of k1) (ses_of k1) (par_of k1) p s h = parent_part (grp_of k) (ses_of k) (par_of k) p s h"
    using v zp(2) [OF pd] ses s0 grp by (auto simp: parent_part_def intro!: arg_cong [of _ _ of_bool])
  have cp: "child_part (grp_of k1) (ses_of k1) (zomb k1) s h c = child_part (grp_of k) (ses_of k) (zomb k) s h c" if "c \<in> C" for c
    using v zp(1) [of c] ses [OF h] ses [OF s0] that by (simp add: child_part_def C_def)
  have tree: "proc_tree k" using pg_invD(9) [OF inv] .
  obtain d :: "ptr \<Rightarrow> nat" where "\<forall>q qc. k_proc k q = Some qc \<longrightarrow> p_pid qc \<noteq> 0 \<longrightarrow> d (p_pptr qc) < d q"
    using tree unfolding proc_tree_def by blast
  then have "d (p_pptr pc) < d p" using p(1,2) by blast
  then have pne: "par_of k p \<noteq> p" using p(1) by (auto simp: par_of_def)
  have gs: "grp_of k p = Some s" and zs: "\<not> zomb k p" using p by (simp_all add: grp_of_def zomb_def)
  have "jobc k2 h = jobc k1 h - (parent_part (grp_of k) (ses_of k) (par_of k) p s h + (\<Sum>c \<in> C. child_part (grp_of k) (ses_of k) (zomb k) s h c))"
    using f2(2) [of h] C1 pp cp by (simp add: sgn_of_def)
  also have "jobc k1 h = kjobs k h + (parent_part (grp_of k) (ses_of k) (par_of k) p t h + (\<Sum>c \<in> C. child_part (grp_of k) (ses_of k) (zomb k) t h c))"
    using f1(2) [of h] pg_invD(10) [OF inv h] by (simp add: sgn_of_def C_def)
  finally show "jobc k2 h = jobs (dom (k_proc k)) ((grp_of k)(p \<mapsto> t)) (ses_of k) (zomb k) (par_of k) h"
    using jobs_move [where D = "dom (k_proc k)" and G = "grp_of k" and Z = "zomb k" and P = "par_of k", OF pg_invD(1) [OF inv] pd gs zs C_def pne, of t "ses_of k" h] by simp
qed

lemma balanced_cong: "objs s' = objs s \<Longrightarrow> X' = X \<Longrightarrow> balanced objs ref X s \<Longrightarrow> balanced objs ref X' s'"
  by (simp add: balanced_def)

lemma jobs_cong:
  assumes "\<And>q g. G q = Some g \<Longrightarrow> S' g = S g" and "\<And>q. q \<in> D \<Longrightarrow> Z' q = Z q" and "\<And>q. q \<in> D \<Longrightarrow> P' q = P q"
  shows "jobs D G S' Z' P' h = jobs D G S Z P h"
  unfolding jobs_def
proof (rule sum.cong)
  fix q assume q: "q \<in> D"
  have "qualifies G S' Z' P' q h = qualifies G S Z P q h"
    unfolding qualifies_def assms(2,3) [OF q] using assms(1) by metis
  then show "of_bool (qualifies G S' Z' P' q h) = (of_bool (qualifies G S Z P q h) :: int)" by simp
qed simp

lemma count_filter_remove1:
  "distinct xs \<Longrightarrow> x \<in> set xs \<Longrightarrow>
   length (filter P xs) = length (filter P (remove1 x xs)) + (if P x then 1 else 0)"
  by (induction xs) auto

lemma filter_pos: "x \<in> set xs \<Longrightarrow> P x \<Longrightarrow> 0 < length (filter P xs)"
  by (induction xs) auto

lemma pgdelete_eq:
  assumes "k_pgrp k g = Some pg"
  shows "k_pgrp (pgdelete g k) = (k_pgrp k)(g := None)" and "k_pgrphash (pgdelete g k) = remove1 g (k_pgrphash k)"
    and "k_proc (pgdelete g k) = k_proc k" and "k_brk (pgdelete g k) = k_brk k" and "k_allproc (pgdelete g k) = k_allproc k"
    and "k_sess (pgdelete g k) = (let s = pg_session pg; ss = (the_sess k s)\<lparr>s_count := s_count (the_sess k s) - 1\<rparr>
        in if s_count ss = 0 then (k_sess k)(s := None) else (k_sess k)(s \<mapsto> ss))"
    and "k_thread (pgdelete g k) = k_thread k" and "k_cred (pgdelete g k) = k_cred k"
  using assms by (auto simp: pgdelete_def Let_def split: option.split)

lemma pgdelete_inv:
  assumes inv: "pg_inv F E k" and g: "g \<in> set (k_pgrphash k)" and empty: "pg_members (the_pgrp k g) = []"
  shows "pg_inv F (E - {g}) (pgdelete g k)"
proof -
  obtain pg where pg: "k_pgrp k g = Some pg" using pg_inv_group [OF inv g] by blast
  note eq = pgdelete_eq [OF pg]
  define k' where "k' = pgdelete g k"
  note eq' = eq [folded k'_def]
  note D = pg_invD [OF inv]
  have set': "set (k_pgrphash k') = set (k_pgrphash k) - {g}" using D(2) by (simp add: eq')
  have grp: "grp_of k' = grp_of k" by (simp add: fun_eq_iff grp_of_def eq')
  have nog: "grp_of k q \<noteq> Some g" for q
    using D(6) [OF g] empty by (auto simp: members_ok_def)
  have ses: "ses_of k' h = ses_of k h" if "h \<noteq> g" for h using that by (simp add: ses_of_def eq')
  have sesg: "ses_of k' h = ses_of k h" if "grp_of k q = Some h" for q h
    using ses [of h] nog [of q] that by (cases "h = g") auto
  have jobs': "kjobs k' h = kjobs k h" if "h \<noteq> g" for h
    unfolding grp eq'(3) by (rule jobs_cong) (use sesg in \<open>auto simp: zomb_def par_of_def eq'\<close>)
  have cnt: "sess_groups k' s = sess_groups k s - (if ses_of k g = s then 1 else 0)" for s
  proof -
    have "filter (\<lambda>h. ses_of k' h = s) (remove1 g (k_pgrphash k)) = filter (\<lambda>h. ses_of k h = s) (remove1 g (k_pgrphash k))"
      by (rule filter_cong) (use ses D(2) in auto)
    then show ?thesis
      unfolding sess_groups_def eq'(2) using count_filter_remove1 [OF D(2) g, of "\<lambda>h. ses_of k h = s"] by simp
  qed
  have pos: "0 < sess_groups k (ses_of k g)" unfolding sess_groups_def by (rule filter_pos [OF g]) simp
  have sg: "ses_of k g = pg_session pg" using pg by (simp add: ses_of_def)
  show ?thesis unfolding k'_def [symmetric]
  proof (rule pg_invI)
    show "balanced k_sess s_count (\<lambda>s. int (sess_groups k' s)) k'"
      unfolding balanced_def
    proof
      fix s
      have b: "case k_sess k s of None \<Rightarrow> int (sess_groups k s) = 0
          | Some ob \<Rightarrow> s_count ob = int (sess_groups k s) \<and> 0 < int (sess_groups k s)"
        using D(8) unfolding balanced_def by blast
      show "case k_sess k' s of None \<Rightarrow> int (sess_groups k' s) = 0
          | Some ob \<Rightarrow> s_count ob = int (sess_groups k' s) \<and> 0 < int (sess_groups k' s)"
        using b pos by (auto simp: eq'(6) Let_def cnt sg split: option.splits if_splits)
    qed
    show "proc_tree k'" using D(9) by (simp add: proc_tree_def eq')
    fix h assume h: "h \<in> set (k_pgrphash k')"
    then show "members_ok k' (E - {g}) h" using D(6) [of h] set' by (auto simp: members_ok_def grp eq')
    show "jobc k' h = kjobs k' h" using D(10) [of h] h set' jobs' by (simp add: eq')
  next
    show "dom (k_pgrp k') = set (k_pgrphash k') \<union> F" using D(3,4) g set' by (auto simp: eq')
    show "inj_on (\<lambda>h. pg_id (the_pgrp k' h)) (set (k_pgrphash k'))"
      unfolding set' using D(5) by (auto simp: inj_on_def eq')
    show "dom (k_sess k') \<subseteq> {..<k_brk k'}"
    proof -
      have "0 < int (sess_groups k (pg_session pg))" using pos sg by simp
      then have "pg_session pg \<in> dom (k_sess k)" using balancedD_live [OF D(8)] by blast
      then show ?thesis using D(12) by (auto simp: eq' Let_def split: if_splits)
    qed
  qed (use D set' nog in \<open>auto simp: eq' grp\<close>)
qed

lemma pg_inv_shrink:
  assumes inv: "pg_inv F E k" and ne: "\<And>g. g \<in> E \<Longrightarrow> g \<notin> E' \<Longrightarrow> pg_members (the_pgrp k g) \<noteq> []"
  shows "pg_inv F E' k"
proof -
  have "\<forall>g \<in> set (k_pgrphash k). members_ok k E' g"
    using pg_invD(6) [OF inv] ne unfolding members_ok_def by blast
  then show ?thesis using inv unfolding pg_inv_def by blast
qed

text \<open>The state once \<open>p\<close> is in the list and the pointer of its new group, before pgdelete.\<close>

definition moved :: "ptr \<Rightarrow> ptr \<Rightarrow> ptr \<Rightarrow> kern \<Rightarrow> kern" where
  "moved p s t k2 =
     (let k3 = put_pgrp s ((the_pgrp k2 s)\<lparr>pg_members := remove1 p (pg_members (the_pgrp k2 s))\<rparr>) k2;
          k4 = put_proc p ((the_proc k3 p)\<lparr>p_pgrp := Some t\<rparr>) k3
      in put_pgrp t ((the_pgrp k4 t)\<lparr>pg_members := p # pg_members (the_pgrp k4 t)\<rparr>) k4)"

lemma doenterpgrp_eq:
  assumes "k_proc k p = Some pc" and "p_pgrp pc = Some s"
  shows "doenterpgrp psig p t k =
    (let k5 = moved p s t (fixjobc psig p s False (fixjobc psig p t True k))
     in if pg_members (the_pgrp k5 s) = [] then pgdelete s k5 else k5)"
  using assms by (simp add: doenterpgrp_def moved_def Let_def)

lemma moved_inv:
  assumes inv: "pg_inv F E k" and st: "same_tree k k2" and t: "t \<in> set (k_pgrphash k)" "t \<noteq> s"
    and p: "k_proc k p = Some pc" "p_pgrp pc = Some s"
    and j: "\<And>h. h \<in> set (k_pgrphash k) \<Longrightarrow> jobc k2 h = jobs (dom (k_proc k)) ((grp_of k)(p \<mapsto> t)) (ses_of k) (zomb k) (par_of k) h"
    and E: "E \<subseteq> {t}"
  shows "pg_inv F {s} (moved p s t k2)"
proof -
  note D = pg_invD [OF inv]
  define k' where "k' = moved p s t k2"
  have s0: "s \<in> set (k_pgrphash k)" using D(7) [of p s] p by (simp add: grp_of_def)
  obtain gs gt where g: "k_pgrp k s = Some gs" "k_pgrp k t = Some gt" using pg_inv_group [OF inv] s0 t(1) by blast
  obtain gs2 gt2 where g2: "k_pgrp k2 s = Some gs2" "k_pgrp k2 t = Some gt2"
    using same_tree_pgrp(1) [OF st, of s] same_tree_pgrp(1) [OF st, of t] g by auto
  obtain pc2 where p2: "k_proc k2 p = Some pc2" "pview pc2 = pview pc" using same_tree_both(2) [OF st p(1)] by blast
  have proc': "k_proc k' = (k_proc k2)(p \<mapsto> pc2\<lparr>p_pgrp := Some t\<rparr>)"
    using p2 by (simp add: k'_def moved_def Let_def)
  have grp': "k_pgrp k' = (k_pgrp k2)(s \<mapsto> gs2\<lparr>pg_members := remove1 p (pg_members gs2)\<rparr>, t \<mapsto> gt2\<lparr>pg_members := p # pg_members gt2\<rparr>)"
    using g2 t(2) by (simp add: k'_def moved_def Let_def)
  have other: "k_sess k' = k_sess k" "k_pgrphash k' = k_pgrphash k" "k_brk k' = k_brk k"
    using st by (simp_all add: k'_def moved_def Let_def same_tree_def)
  have grp: "grp_of k' = (grp_of k)(p \<mapsto> t)"
    using same_tree_views(1) [OF st] by (auto simp: fun_eq_iff grp_of_def proc' split: option.splits)
  have id: "pg_id (the_pgrp k' h) = pg_id (the_pgrp k h)" "ses_of k' h = ses_of k h" "jobc k' h = jobc k2 h"
    "pg_members (the_pgrp k' h) = (if h = t then p # pg_members (the_pgrp k h) else if h = s then remove1 p (pg_members (the_pgrp k h)) else pg_members (the_pgrp k h))"
    if "h \<in> set (k_pgrphash k)" for h
    using same_tree_pgrp(2) [OF st, of h] pg_inv_group [OF inv that] g2 t(2) by (auto simp: grp' ses_of_def)
  have dp: "dom (k_proc k') = dom (k_proc k)" using same_tree_views(5) [OF st] p2 p by (auto simp: proc')
  have dg: "dom (k_pgrp k') = dom (k_pgrp k)" using same_tree_views(6) [OF st] g by (auto simp: grp')
  have zp: "zomb k' q = zomb k q" "par_of k' q = par_of k q" if "q \<in> dom (k_proc k)" for q
    using same_tree_proc(2) [OF st] that p2 p by (auto simp: zomb_def par_of_def proc' pview_def)
  have inG: "h \<in> set (k_pgrphash k)" if "((grp_of k)(p \<mapsto> t)) q = Some h" for q h
    using that D(7) [of q h] t(1) by (auto split: if_splits)
  have jobs': "kjobs k' h = jobs (dom (k_proc k)) ((grp_of k)(p \<mapsto> t)) (ses_of k) (zomb k) (par_of k) h" for h
    unfolding grp dp by (rule jobs_cong) (use inG id(2) zp in blast)+
  have ps: "grp_of k p = Some s" using p by (simp add: grp_of_def)
  show ?thesis unfolding k'_def [symmetric]
  proof (rule pg_invI)
    show "finite (dom (k_proc k'))" using D(1) dp by simp
    show "distinct (k_pgrphash k')" using D(2) other by simp
    show "dom (k_pgrp k') = set (k_pgrphash k') \<union> F" using D(3) dg other by simp
    show "set (k_pgrphash k') \<inter> F = {}" using D(4) other by simp
    show "inj_on (\<lambda>h. pg_id (the_pgrp k' h)) (set (k_pgrphash k'))"
      using D(5) id(1) other(2) unfolding inj_on_def by metis
    show "dom (k_pgrp k') \<subseteq> {..<k_brk k'}" "dom (k_sess k') \<subseteq> {..<k_brk k'}"
      using D(11,12) dg other by simp_all
    show "balanced k_sess s_count (\<lambda>s. int (sess_groups k' s)) k'"
    proof (rule balanced_cong [OF other(1) _ D(8)])
      show "(\<lambda>s. int (sess_groups k' s)) = (\<lambda>s. int (sess_groups k s))"
        unfolding sess_groups_def other(2) using id(2) by (auto intro!: arg_cong [of _ _ length] filter_cong ext)
    qed
    show "proc_tree k'"
    proof (rule proc_tree_cong [OF _ _ same_tree_tree [OF st D(9)]])
      fix q qc' assume "k_proc k' q = Some qc'"
      then show "\<exists>qc. k_proc k2 q = Some qc \<and> p_pid qc = p_pid qc' \<and> p_pptr qc = p_pptr qc' \<and>
        p_children qc = p_children qc' \<and> (p_pgrp qc = None) = (p_pgrp qc' = None)"
        using p2 p by (auto simp: proc' pview_def split: if_splits)
    next
      fix q qc assume "k_proc k2 q = Some qc"
      then show "\<exists>qc'. k_proc k' q = Some qc' \<and> p_pid qc = p_pid qc' \<and> p_pptr qc = p_pptr qc' \<and>
        p_children qc = p_children qc' \<and> (p_pgrp qc = None) = (p_pgrp qc' = None)"
        using p2 p by (auto simp: proc' pview_def)
    qed
  next
    fix q h assume "grp_of k' q = Some h"
    then show "h \<in> set (k_pgrphash k')" using inG [of q h] unfolding grp other by blast
  next
    fix h assume "h \<in> set (k_pgrphash k')"
    then have h: "h \<in> set (k_pgrphash k)" using other by simp
    show "jobc k' h = kjobs k' h" using id(3) [OF h] j [OF h] jobs' by simp
    have m: "distinct (pg_members (the_pgrp k h))" "set (pg_members (the_pgrp k h)) = {q. grp_of k q = Some h}"
      "pg_members (the_pgrp k h) = [] \<Longrightarrow> h = t"
      using D(6) [OF h] E by (auto simp: members_ok_def)
    show "members_ok k' {s} h"
    proof (cases "h = t")
      case True
      have "set (pg_members (the_pgrp k' h)) = insert p {q. grp_of k q = Some t}" using m(2) id(4) [OF h] True by simp
      also have "\<dots> = {q. grp_of k' q = Some h}" using True by (auto simp: grp)
      finally show ?thesis using m(1,2) id(4) [OF h] True ps t(2) by (simp add: members_ok_def)
    next
      case False
      then have "set (pg_members (the_pgrp k' h)) = {q. grp_of k q = Some h} - {p}"
        using m(1,2) id(4) [OF h] ps by (cases "h = s") auto
      also have "\<dots> = {q. grp_of k' q = Some h}" using False by (auto simp: grp)
      finally have "set (pg_members (the_pgrp k' h)) = {q. grp_of k' q = Some h}" .
      moreover have "distinct (pg_members (the_pgrp k' h))" using m(1) id(4) [OF h] False by (cases "h = s") simp_all
      moreover have "pg_members (the_pgrp k' h) = [] \<Longrightarrow> h = s" using m(3) id(4) [OF h] False by (cases "h = s") simp_all
      ultimately show ?thesis by (simp add: members_ok_def)
    qed
  qed
qed

lemma moved_members:
  "t \<noteq> s \<Longrightarrow> k_pgrp k2 t \<noteq> None \<Longrightarrow> pg_members (the_pgrp (moved p s t k2) s) = remove1 p (pg_members (the_pgrp k2 s))"
  by (simp add: moved_def Let_def)

lemma doenterpgrp_inv:
  assumes ok: "psig_ok psig" and inv: "pg_inv F E k" and t: "t \<in> set (k_pgrphash k)" "t \<noteq> s"
    and p: "k_proc k p = Some pc" "p_pid pc \<noteq> 0" "p_pgrp pc = Some s" "p_state pc \<noteq> PRS_ZOMBIE"
    and E: "E \<subseteq> {t}"
  shows "pg_inv F {} (doenterpgrp psig p t k)"
proof -
  define k2 where "k2 = fixjobc psig p s False (fixjobc psig p t True k)"
  note f = two_fixjobc [OF ok inv t(1) p k2_def]
  have m: "pg_inv F {s} (moved p s t k2)" by (rule moved_inv [OF inv f(1) t p(1,3) f(2) E])
  have h: "k_pgrphash (moved p s t k2) = k_pgrphash k" using f(1) by (simp add: moved_def Let_def same_tree_def)
  have s0: "s \<in> set (k_pgrphash k)" using pg_invD(7) [OF inv, of p s] p by (simp add: grp_of_def)
  show ?thesis
  proof (cases "pg_members (the_pgrp (moved p s t k2) s) = []")
    case True
    then show ?thesis
      using pgdelete_inv [OF m _ True] s0 h by (simp add: doenterpgrp_eq [OF p(1,3)] Let_def k2_def)
  next
    case False
    have "pg_inv F {} (moved p s t k2)"
      by (rule pg_inv_shrink [OF m]) (use False in auto)
    then show ?thesis using False by (simp add: doenterpgrp_eq [OF p(1,3)] Let_def k2_def)
  qed
qed

end
