(* ===== verification/Kern_Proc_Calls.thy ===== *)
theory Kern_Proc_Calls
  imports Kern_Proc_Inv
begin

text \<open>
  setsid and setpgid keep the process-group invariant, what setsid builds, and that setpgid never
  moves a process to another session.
\<close>

section \<open>Allocating and freeing a group\<close>

lemma pg_inv_view:
  assumes inv: "pg_inv F E k"
    and eq: "k_proc k' = k_proc k" "k_pgrphash k' = k_pgrphash k" "k_sess k' = k_sess k"
    and pg: "\<And>g. g \<in> set (k_pgrphash k) \<Longrightarrow> k_pgrp k' g = k_pgrp k g"
    and dom: "dom (k_pgrp k') = set (k_pgrphash k) \<union> F'" "set (k_pgrphash k) \<inter> F' = {}"
    and brk: "dom (k_pgrp k') \<subseteq> {..<k_brk k'}" "k_brk k \<le> k_brk k'"
  shows "pg_inv F' E k'"
proof -
  note D = pg_invD [OF inv]
  have grp: "grp_of k' = grp_of k" "zomb k' = zomb k" "par_of k' = par_of k"
    by (simp_all add: fun_eq_iff grp_of_def zomb_def par_of_def eq)
  have ses: "ses_of k' g = ses_of k g" if "g \<in> set (k_pgrphash k)" for g
    using pg [OF that] by (simp add: ses_of_def)
  have jobs': "kjobs k' g = kjobs k g" for g
    unfolding grp eq by (rule jobs_cong) (use D(7) ses in auto)
  have sg: "sess_groups k' s = sess_groups k s" for s
    unfolding sess_groups_def eq using ses by (auto intro!: arg_cong [of _ _ length] filter_cong)
  show ?thesis
  proof (rule pg_invI)
    show "balanced k_sess s_count (\<lambda>s. int (sess_groups k' s)) k'"
      by (rule balanced_cong [OF eq(3) _ D(8)]) (simp add: sg)
    show "proc_tree k'" using D(9) by (simp add: proc_tree_def eq)
    show "inj_on (\<lambda>g. pg_id (the_pgrp k' g)) (set (k_pgrphash k'))"
      using D(5) pg unfolding eq inj_on_def by metis
    show "dom (k_sess k') \<subseteq> {..<k_brk k'}" using D(12) brk(2) eq(3) by auto
    fix g assume "g \<in> set (k_pgrphash k')"
    then have g: "g \<in> set (k_pgrphash k)" by (simp add: eq)
    show "members_ok k' E g" using D(6) [OF g] pg [OF g] by (simp add: members_ok_def grp)
    show "jobc k' g = kjobs k' g" using D(10) [OF g] pg [OF g] jobs' by simp
  next
    fix q g assume "grp_of k' q = Some g"
    then show "g \<in> set (k_pgrphash k')" unfolding grp eq by (rule D(7))
  qed (use D(1,2) dom brk eq in simp_all)
qed

lemma malloc_pgrp_inv:
  assumes inv: "pg_inv {} E k" and m: "malloc_pgrp k = (g, k')"
  shows "pg_inv {g} E k'" and "k_pgrp k g = None" and "k_pgrp k' g = Some zero_pgrp"
    and "k_proc k' = k_proc k" and "k_sess k' = k_sess k" and "k_pgrphash k' = k_pgrphash k" and "k_thread k' = k_thread k"
    and "k_brk k' = k_brk k + 1" and "k_pgrp k' = (k_pgrp k)(g \<mapsto> zero_pgrp)" and "k_allproc k' = k_allproc k" and "k_cred k' = k_cred k"
proof -
  have k': "g = k_brk k" "k' = put_pgrp g zero_pgrp (k\<lparr>k_brk := k_brk k + 1\<rparr>)"
    using m by (auto simp: malloc_pgrp_def)
  show new: "k_pgrp k g = None" using pg_invD(11) [OF inv] k'(1) by auto
  have nh: "g \<notin> set (k_pgrphash k)" using pg_invD(3) [OF inv] new by auto
  show "pg_inv {g} E k'"
    by (rule pg_inv_view [OF inv]) (use pg_invD(3,11) [OF inv] nh k' in \<open>auto simp: less_Suc_eq\<close>)
qed (use m in \<open>auto simp: malloc_pgrp_def\<close>)

lemma free_pgrp_inv:
  assumes inv: "pg_inv {g} E k"
  shows "pg_inv {} E (free_pgrp g k)"
  by (rule pg_inv_view [OF inv]) (use pg_invD(3,4,11) [OF inv] in \<open>auto simp: free_pgrp_def\<close>)

section \<open>A new group\<close>

lemma new_group_inv:
  assumes inv: "pg_inv {g} {} k" and id: "\<And>h. h \<in> set (k_pgrphash k) \<Longrightarrow> pg_id (the_pgrp k h) \<noteq> pgid"
    and k': "k_pgrp k' = (k_pgrp k)(g \<mapsto> \<lparr>pg_id = pgid, pg_session = s, pg_members = [], pg_jobc = 0\<rparr>)"
      "k_pgrphash k' = g # k_pgrphash k" "k_sess k' = (k_sess k)(s \<mapsto> ss)"
    and ss: "s_count ss = int (sess_groups k s) + 1" and brk: "s < k_brk k'" "k_brk k \<le> k_brk k'"
    and st: "\<And>q. map_option pview (k_proc k' q) = map_option pview (k_proc k q)"
  shows "pg_inv {} {g} k'"
proof -
  note D = pg_invD [OF inv]
  have gh: "g \<notin> set (k_pgrphash k)" using D(4) by auto
  define kp where "kp = k\<lparr>k_proc := k_proc k'\<rparr>"
  have st: "same_tree k kp" using st by (simp add: same_tree_def kp_def)
  have grp: "grp_of k' = grp_of k" using same_tree_views(1) [OF st] by (simp add: fun_eq_iff grp_of_def kp_def)
  have dp: "dom (k_proc k') = dom (k_proc k)" using same_tree_views(5) [OF st] by (simp add: kp_def)
  have zp: "zomb k' q = zomb k q" "par_of k' q = par_of k q" if "q \<in> dom (k_proc k)" for q
    using same_tree_views(3,4) [OF st, of q] that by (auto simp: zomb_def par_of_def kp_def)
  have ses: "ses_of k' h = ses_of k h" if "h \<in> set (k_pgrphash k)" for h
    using that gh by (auto simp: ses_of_def k')
  have jobs': "kjobs k' h = kjobs k h" for h
    unfolding grp dp by (rule jobs_cong) (use D(7) ses zp in blast)+
  have nog: "grp_of k q \<noteq> Some g" for q using D(7) gh by auto
  have cnt: "sess_groups k' x = sess_groups k x + (if x = s then 1 else 0)" for x
  proof -
    have "filter (\<lambda>h. ses_of k' h = x) (k_pgrphash k) = filter (\<lambda>h. ses_of k h = x) (k_pgrphash k)"
      by (rule filter_cong) (use ses in auto)
    moreover have "ses_of k' g = s" by (simp add: ses_of_def k'(1))
    ultimately show ?thesis unfolding sess_groups_def k'(2) by auto
  qed
  have tree: "proc_tree k'" using same_tree_tree [OF st D(9)] by (simp add: kp_def proc_tree_def)
  show ?thesis
  proof (rule pg_invI)
    show "balanced k_sess s_count (\<lambda>s. int (sess_groups k' s)) k'"
      unfolding balanced_def
    proof
      fix x
      have b: "case k_sess k x of None \<Rightarrow> int (sess_groups k x) = 0
          | Some ob \<Rightarrow> s_count ob = int (sess_groups k x) \<and> 0 < int (sess_groups k x)"
        using D(8) unfolding balanced_def by blast
      show "case k_sess k' x of None \<Rightarrow> int (sess_groups k' x) = 0
          | Some ob \<Rightarrow> s_count ob = int (sess_groups k' x) \<and> 0 < int (sess_groups k' x)"
        using b ss by (auto simp: k' cnt split: option.splits if_splits)
    qed
    show "proc_tree k'" by (rule tree)
    show "inj_on (\<lambda>h. pg_id (the_pgrp k' h)) (set (k_pgrphash k'))"
      using D(5) id gh by (auto simp: k' inj_on_def)
    fix h assume h: "h \<in> set (k_pgrphash k')"
    show "members_ok k' {g} h" using D(6) [of h] h nog by (cases "h = g") (auto simp: members_ok_def grp k')
    have "kjobs k g = 0" unfolding jobs_def qualifies_def using nog by simp
    then show "jobc k' h = kjobs k' h" using D(10) [of h] h jobs' by (cases "h = g") (auto simp: k')
  next
    fix q h assume "grp_of k' q = Some h"
    then show "h \<in> set (k_pgrphash k')" using D(7) [of q h] by (simp add: grp k')
  next
    show "dom (k_pgrp k') \<subseteq> {..<k_brk k'}" "dom (k_sess k') \<subseteq> {..<k_brk k'}"
      using D(3,11,12) brk by (auto simp: k')
  qed (use D(1-4) gh dp in \<open>auto simp: k'\<close>)
qed

section \<open>What doenterpgrp changes\<close>

lemma doenterpgrp_effect:
  assumes ok: "psig_ok psig" and inv: "pg_inv F E k" and t: "t \<in> set (k_pgrphash k)" "t \<noteq> s"
    and p: "k_proc k p = Some pc" "p_pid pc \<noteq> 0" "p_pgrp pc = Some s" "p_state pc \<noteq> PRS_ZOMBIE"
    and k': "k' = doenterpgrp psig p t k"
  shows "grp_of k' = (grp_of k)(p \<mapsto> t)"
    and "set (k_pgrphash k') \<subseteq> set (k_pgrphash k)"
    and "h \<in> set (k_pgrphash k) \<Longrightarrow> h \<noteq> s \<Longrightarrow> h \<in> set (k_pgrphash k') \<and> k_pgrp k' h \<noteq> None"
    and "h \<in> set (k_pgrphash k') \<Longrightarrow> pg_id (the_pgrp k' h) = pg_id (the_pgrp k h) \<and> ses_of k' h = ses_of k h"
    and "pg_members (the_pgrp k' t) = p # pg_members (the_pgrp k t)"
    and "x \<noteq> ses_of k s \<Longrightarrow> k_sess k' x = k_sess k x"
    and "k_proc k q = Some qc \<Longrightarrow> \<exists>qc'. k_proc k' q = Some qc' \<and> p_pid qc' = p_pid qc \<and> p_state qc' = p_state qc \<and> p_ucred qc' = p_ucred qc"
    and "k_allproc k' = k_allproc k"
    and "dom (k_proc k') = dom (k_proc k)"
proof -
  define k2 where "k2 = fixjobc psig p s False (fixjobc psig p t True k)"
  note st = two_fixjobc(1) [OF ok inv t(1) p k2_def]
  define k5 where "k5 = moved p s t k2"
  note D = pg_invD [OF inv]
  have s0: "s \<in> set (k_pgrphash k)" using D(7) [of p s] p by (simp add: grp_of_def)
  obtain gs gt where g: "k_pgrp k s = Some gs" "k_pgrp k t = Some gt" using pg_inv_group [OF inv] s0 t(1) by blast
  obtain gs2 gt2 where g2: "k_pgrp k2 s = Some gs2" "k_pgrp k2 t = Some gt2"
    using same_tree_pgrp(1) [OF st, of s] same_tree_pgrp(1) [OF st, of t] g by auto
  obtain pc2 where p2: "k_proc k2 p = Some pc2" "pview pc2 = pview pc" using same_tree_both(2) [OF st p(1)] by blast
  have proc': "k_proc k5 = (k_proc k2)(p \<mapsto> pc2\<lparr>p_pgrp := Some t\<rparr>)"
    using p2 by (simp add: k5_def moved_def Let_def)
  have grp': "k_pgrp k5 = (k_pgrp k2)(s \<mapsto> gs2\<lparr>pg_members := remove1 p (pg_members gs2)\<rparr>, t \<mapsto> gt2\<lparr>pg_members := p # pg_members gt2\<rparr>)"
    using g2 t(2) by (simp add: k5_def moved_def Let_def)
  have other: "k_sess k5 = k_sess k" "k_pgrphash k5 = k_pgrphash k" "k_allproc k5 = k_allproc k"
    using st by (simp_all add: k5_def moved_def Let_def same_tree_def)
  have k'5: "k' = (if pg_members (the_pgrp k5 s) = [] then pgdelete s k5 else k5)"
    unfolding k' doenterpgrp_eq [OF p(1,3)] by (simp add: Let_def k2_def k5_def)
  have s5: "k_pgrp k5 s = Some (gs2\<lparr>pg_members := remove1 p (pg_members gs2)\<rparr>)" using t(2) by (simp add: grp')
  note del = pgdelete_eq [OF s5]
  have proc: "k_proc k' = k_proc k5" "k_allproc k' = k_allproc k" using k'5 del other by simp_all
  show "k_allproc k' = k_allproc k" by (rule proc(2))
  show "grp_of k' = (grp_of k)(p \<mapsto> t)"
    using same_tree_views(1) [OF st] by (auto simp: fun_eq_iff grp_of_def proc proc' split: option.splits)
  show "set (k_pgrphash k') \<subseteq> set (k_pgrphash k)" using k'5 del(2) other(2) set_remove1_subset [of s "k_pgrphash k"] by auto
  have pg: "k_pgrp k' h = k_pgrp k5 h" if "h \<noteq> s" for h using k'5 del(1) that by simp
  have view: "pg_id (the_pgrp k5 h) = pg_id (the_pgrp k h) \<and> ses_of k5 h = ses_of k h" if "h \<in> set (k_pgrphash k)" for h
    using same_tree_pgrp(2) [OF st, of h] pg_inv_group [OF inv that] g2 t(2) by (auto simp: grp' ses_of_def)
  have notin: "h \<in> set (k_pgrphash k') \<Longrightarrow> h = s \<Longrightarrow> k' = k5" for h
    using k'5 del(2) D(2) other(2) by (auto split: if_splits)
  show "h \<in> set (k_pgrphash k) \<Longrightarrow> h \<noteq> s \<Longrightarrow> h \<in> set (k_pgrphash k') \<and> k_pgrp k' h \<noteq> None"
  proof -
    assume h: "h \<in> set (k_pgrphash k)" "h \<noteq> s"
    have "k_pgrp k2 h \<noteq> None" using pg_inv_group [OF inv h(1)] same_tree_pgrp(1) [OF st, of h] by auto
    then show ?thesis using h k'5 del(2) other(2) D(2) pg [OF h(2)] by (auto simp: grp')
  qed
  have sub: "h \<in> set (k_pgrphash k') \<Longrightarrow> h \<in> set (k_pgrphash k)" for h
    using k'5 del(2) other(2) set_remove1_subset [of s "k_pgrphash k"] by (auto split: if_splits)
  show "h \<in> set (k_pgrphash k') \<Longrightarrow> pg_id (the_pgrp k' h) = pg_id (the_pgrp k h) \<and> ses_of k' h = ses_of k h"
    using view [of h] sub [of h] notin [of h] pg [of h] by (cases "h = s") (auto simp: ses_of_def)
  show "pg_members (the_pgrp k' t) = p # pg_members (the_pgrp k t)"
    using pg [OF t(2)] same_tree_pgrp(2) [OF st g(2)] g g2 by (simp add: grp')
  show "x \<noteq> ses_of k s \<Longrightarrow> k_sess k' x = k_sess k x"
    using k'5 del(6) other(1) same_tree_pgrp(2) [OF st g(1)] g g2 by (auto simp: Let_def ses_of_def)
  show "\<exists>qc'. k_proc k' q = Some qc' \<and> p_pid qc' = p_pid qc \<and> p_state qc' = p_state qc \<and> p_ucred qc' = p_ucred qc"
    if q: "k_proc k q = Some qc"
  proof -
    obtain q2 where "k_proc k2 q = Some q2" "pview q2 = pview qc" using same_tree_both(2) [OF st q] by blast
    then show ?thesis using p2 by (auto simp: proc proc' pview_def)
  qed
  show "dom (k_proc k') = dom (k_proc k)"
    using same_tree_views(5) [OF st] p2 p(1) by (auto simp: proc proc')
qed

section \<open>enterpgrp\<close>

lemma pgrp_filled:
  "(pg :: pgrp)\<lparr>pg_session := s, pg_id := i, pg_members := m, pg_jobc := j\<rparr> =
   \<lparr>pg_id = i, pg_session = s, pg_members = m, pg_jobc = j\<rparr>"
  by (cases pg) simp

lemma enterpgrp_new_session:
  assumes "k_proc k p = Some pc" and "p_pgrp pc = Some s" and "S \<noteq> ses_of k s"
  obtains k4 where "enterpgrp psig p pgid g (Some S) k = doenterpgrp psig p g k4"
    and "k_proc k4 = (k_proc k)(p \<mapsto> pc\<lparr>p_flag := p_flag pc AND NOT P_CONTROLT\<rparr>)"
    and "k_pgrp k4 = (k_pgrp k)(g \<mapsto> \<lparr>pg_id = pgid, pg_session = S, pg_members = [], pg_jobc = 0\<rparr>)"
    and "k_sess k4 = (k_sess k)(S \<mapsto> (the_sess k S)\<lparr>s_leader := Some p, s_sid := p_pid pc, s_count := 1,
            s_ttyvp := None, s_ttyp := None, s_login := s_login (the_sess k (ses_of k s))\<rparr>)"
    and "k_pgrphash k4 = g # k_pgrphash k" and "k_brk k4 = k_brk k" and "k_allproc k4 = k_allproc k"
proof -
  define k4 where "k4 = (let ka = put_proc p ((the_proc k p)\<lparr>p_flag := p_flag (the_proc k p) AND NOT P_CONTROLT\<rparr>) k;
       kb = put_sess S ((the_sess ka S)\<lparr>s_leader := Some p, s_sid := p_pid (the_proc ka p), s_count := 1,
              s_ttyvp := None, s_ttyp := None, s_login := s_login (the_sess ka (p_session ka p))\<rparr>) ka;
       k1 = put_pgrp g ((the_pgrp kb g)\<lparr>pg_session := S\<rparr>) kb;
       k2 = put_pgrp g ((the_pgrp k1 g)\<lparr>pg_id := pgid, pg_members := []\<rparr>) k1;
       k3 = k2\<lparr>k_pgrphash := g # k_pgrphash k2\<rparr>
     in put_pgrp g ((the_pgrp k3 g)\<lparr>pg_jobc := 0\<rparr>) k3)"
  have e: "enterpgrp psig p pgid g (Some S) k = doenterpgrp psig p g k4"
    unfolding enterpgrp_def k4_def Let_def option.case ..
  show thesis
    by (rule that [OF e]) (use assms in \<open>simp_all add: k4_def Let_def ses_of_def pgrp_filled\<close>)
qed

lemma enterpgrp_same_session:
  assumes "k_proc k p = Some pc" and "p_pgrp pc = Some s" and "s \<noteq> g"
  obtains k4 where "enterpgrp psig p pgid g None k = doenterpgrp psig p g k4"
    and "k_proc k4 = k_proc k" and "k_allproc k4 = k_allproc k"
    and "k_pgrp k4 = (k_pgrp k)(g \<mapsto> \<lparr>pg_id = pgid, pg_session = ses_of k s, pg_members = [], pg_jobc = 0\<rparr>)"
    and "k_sess k4 = (k_sess k)(ses_of k s \<mapsto> (the_sess k (ses_of k s))\<lparr>s_count := s_count (the_sess k (ses_of k s)) + 1\<rparr>)"
    and "k_pgrphash k4 = g # k_pgrphash k" and "k_brk k4 = k_brk k"
proof -
  define k4 where "k4 = (let sn = p_session k p;
       ka = put_pgrp g ((the_pgrp k g)\<lparr>pg_session := sn\<rparr>) k;
       k1 = put_sess sn ((the_sess ka sn)\<lparr>s_count := s_count (the_sess ka sn) + 1\<rparr>) ka;
       k2 = put_pgrp g ((the_pgrp k1 g)\<lparr>pg_id := pgid, pg_members := []\<rparr>) k1;
       k3 = k2\<lparr>k_pgrphash := g # k_pgrphash k2\<rparr>
     in put_pgrp g ((the_pgrp k3 g)\<lparr>pg_jobc := 0\<rparr>) k3)"
  have e: "enterpgrp psig p pgid g None k = doenterpgrp psig p g k4"
    unfolding enterpgrp_def k4_def Let_def option.case ..
  show thesis
    by (rule that [OF e]) (use assms in \<open>simp_all add: k4_def Let_def ses_of_def pgrp_filled\<close>)
qed

section \<open>setsid\<close>

text \<open>A thread in the kernel, of a process that is in a group and not process 0.\<close>

definition in_group :: "kern \<Rightarrow> ptr \<Rightarrow> proc \<Rightarrow> ptr \<Rightarrow> bool" where
  "in_group k p pc s \<longleftrightarrow> k_proc k p = Some pc \<and> p_pid pc \<noteq> 0 \<and> p_pgrp pc = Some s \<and> p_state pc \<noteq> PRS_ZOMBIE"

lemma pgfind_some: "pgfind k i = Some g \<Longrightarrow> g \<in> set (k_pgrphash k) \<and> pg_id (the_pgrp k g) = i"
  unfolding pgfind_def by (auto simp: find_Some_iff)
lemma pgfind_none: "pgfind k i = None \<longleftrightarrow> (\<forall>g \<in> set (k_pgrphash k). pg_id (the_pgrp k g) \<noteq> i)"
  unfolding pgfind_def by (auto simp: find_None_iff)

lemma sess_live:
  assumes inv: "pg_inv F E k" and h: "h \<in> set (k_pgrphash k)"
  shows "\<exists>ss. k_sess k (ses_of k h) = Some ss \<and> s_count ss = int (sess_groups k (ses_of k h))"
proof -
  have "0 < int (sess_groups k (ses_of k h))" unfolding sess_groups_def using filter_pos [OF h] by simp
  then show ?thesis using balancedD_live [OF pg_invD(8) [OF inv]] by blast
qed

lemma setsid_result:
  assumes inv: "pg_inv {} {} k" and ok: "psig_ok psig" and td: "td_proc (the_thread k td) = p" and p: "in_group k p pc s"
    and r: "setsid psig td k = (r, k')"
  shows "pg_inv {} {} k'"
    and "(\<exists>h \<in> set (k_pgrphash k). pg_id (the_pgrp k h) = p_pid pc) \<Longrightarrow>
      r = Inl EPERM \<and> k_proc k' = k_proc k \<and> k_pgrp k' = k_pgrp k \<and> k_sess k' = k_sess k \<and> k_pgrphash k' = k_pgrphash k"
    and "k_allproc k' = k_allproc k \<and> dom (k_proc k') = dom (k_proc k) \<and>
      (\<forall>q qc. k_proc k q = Some qc \<longrightarrow> (\<exists>qc'. k_proc k' q = Some qc' \<and> p_pid qc' = p_pid qc \<and> p_state qc' = p_state qc))"
    and "\<forall>h \<in> set (k_pgrphash k). pg_id (the_pgrp k h) \<noteq> p_pid pc \<Longrightarrow>
      r = Inr (p_pid pc) \<and> (\<exists>g S. k_pgrp k g = None \<and> k_sess k S = None \<and> grp_of k' = (grp_of k)(p \<mapsto> g) \<and>
        pg_id (the_pgrp k' g) = p_pid pc \<and> pg_members (the_pgrp k' g) = [p] \<and> ses_of k' g = S \<and>
        k_sess k' S = Some \<lparr>s_count = 1, s_leader = Some p, s_sid = p_pid pc, s_ttyvp = None, s_ttyp = None,
          s_login = s_login (the_sess k (ses_of k s))\<rparr> \<and>
        (\<forall>h \<in> set (k_pgrphash k'). h \<noteq> g \<longrightarrow> h \<in> set (k_pgrphash k) \<and> pg_id (the_pgrp k' h) = pg_id (the_pgrp k h) \<and> ses_of k' h = ses_of k h))"
proof -
  have pp: "k_proc k p = Some pc" "p_pid pc \<noteq> 0" "p_pgrp pc = Some s" "p_state pc \<noteq> PRS_ZOMBIE"
    using p by (simp_all add: in_group_def)
  obtain g k1 where m: "malloc_pgrp k = (g, k1)" by fastforce
  note M = malloc_pgrp_inv [OF inv m]
  define S where "S = k_brk k1"
  define k2 where "k2 = put_sess S zero_sess (k1\<lparr>k_brk := k_brk k1 + 1\<rparr>)"
  have ms: "malloc_sess k1 = (S, k2)" by (simp add: malloc_sess_def S_def k2_def)
  have S0: "k_sess k S = None" using pg_invD(12) [OF M(1)] M(5) S_def by auto
  have sk: "s \<in> set (k_pgrphash k)" using pg_invD(7) [OF inv, of p s] pp by (simp add: grp_of_def)
  have gs: "g \<notin> set (k_pgrphash k)" using pg_inv_group [OF inv, of g] M(2) by auto
  have sg: "s \<noteq> g" using sk gs by auto
  have pgrp2: "k_pgrp k2 = (k_pgrp k)(g \<mapsto> zero_pgrp)" "k_pgrphash k2 = k_pgrphash k" "k_proc k2 = k_proc k"
    "k_sess k2 = (k_sess k)(S \<mapsto> zero_sess)" "k_allproc k2 = k_allproc k" "k_brk k2 = k_brk k + 2"
    using M by (simp_all add: k2_def)
  have ids: "pg_id (the_pgrp k2 h) = pg_id (the_pgrp k h)" "ses_of k2 h = ses_of k h" if "h \<in> set (k_pgrphash k)" for h
    using that gs by (auto simp: pgrp2 ses_of_def)
  have test: "(p_pgid k2 p = p_pid (the_proc k2 p) \<or> pgfind k2 (p_pid (the_proc k2 p)) \<noteq> None) \<longleftrightarrow>
      (\<exists>h \<in> set (k_pgrphash k). pg_id (the_pgrp k h) = p_pid pc)"
    using pp ids sk by (auto simp: pgfind_none pgrp2)
  have run: "setsid psig td k = (if \<exists>h \<in> set (k_pgrphash k). pg_id (the_pgrp k h) = p_pid pc
      then (Inl EPERM, free_sess S (free_pgrp g k2)) else (Inr (p_pid pc), enterpgrp psig p (p_pid pc) g (Some S) k2))"
    unfolding setsid_def Let_def m ms prod.case td test using pp pgrp2 by simp
  have fail: "pg_inv {} {} (free_sess S (free_pgrp g k2))"
    by (rule pg_inv_view [OF inv])
       (use pg_invD(3,11) [OF inv] M(2) S0 pgrp2 in \<open>auto simp: free_sess_def free_pgrp_def fun_upd_idem\<close>)
  have failed: "k_proc (free_sess S (free_pgrp g k2)) = k_proc k" "k_pgrp (free_sess S (free_pgrp g k2)) = k_pgrp k"
    "k_sess (free_sess S (free_pgrp g k2)) = k_sess k" "k_pgrphash (free_sess S (free_pgrp g k2)) = k_pgrphash k"
    using M(2) S0 pgrp2 by (simp_all add: free_sess_def free_pgrp_def fun_upd_idem)
  have p2: "k_proc k2 p = Some pc" using pp pgrp2 by simp
  have Ss: "S \<noteq> ses_of k2 s" using sess_live [OF inv sk] S0 ids(2) [OF sk] by auto
  obtain k4 where e: "enterpgrp psig p (p_pid pc) g (Some S) k2 = doenterpgrp psig p g k4"
    and k4: "k_proc k4 = (k_proc k2)(p \<mapsto> pc\<lparr>p_flag := p_flag pc AND NOT P_CONTROLT\<rparr>)"
      "k_pgrp k4 = (k_pgrp k2)(g \<mapsto> \<lparr>pg_id = p_pid pc, pg_session = S, pg_members = [], pg_jobc = 0\<rparr>)"
      "k_sess k4 = (k_sess k2)(S \<mapsto> (the_sess k2 S)\<lparr>s_leader := Some p, s_sid := p_pid pc, s_count := 1,
            s_ttyvp := None, s_ttyp := None, s_login := s_login (the_sess k2 (ses_of k2 s))\<rparr>)"
      "k_pgrphash k4 = g # k_pgrphash k2" "k_brk k4 = k_brk k2" "k_allproc k4 = k_allproc k2"
    by (rule enterpgrp_new_session [OF p2 pp(3) Ss])
  have free: "\<forall>h \<in> set (k_pgrphash k). pg_id (the_pgrp k h) \<noteq> p_pid pc \<Longrightarrow> pg_inv {} {g} k4"
  proof (rule new_group_inv [OF M(1), where s = S and pgid = "p_pid pc"])
    assume n: "\<forall>h \<in> set (k_pgrphash k). pg_id (the_pgrp k h) \<noteq> p_pid pc"
    show "pg_id (the_pgrp k1 h) \<noteq> p_pid pc" if "h \<in> set (k_pgrphash k1)" for h
      using n that gs M by auto
    have "sess_groups k1 S = 0"
      using balancedD_none [OF pg_invD(8) [OF M(1)], of S] S0 M(5) by simp
    then show "s_count (the (k_sess k4 S)) = int (sess_groups k1 S) + 1" by (simp add: k4)
  qed (use pp in \<open>auto simp: k4 pgrp2 M k2_def S_def pview_def\<close>)
  have p4: "k_proc k4 p = Some (pc\<lparr>p_flag := p_flag pc AND NOT P_CONTROLT\<rparr>)" by (simp add: k4)
  have g4: "g \<in> set (k_pgrphash k4)" by (simp add: k4)
  note de = doenterpgrp_inv [OF ok free g4 _ p4]
  show "pg_inv {} {} k'"
    using r run fail e de sg pp by (auto split: if_splits)
  show "(\<exists>h \<in> set (k_pgrphash k). pg_id (the_pgrp k h) = p_pid pc) \<Longrightarrow>
      r = Inl EPERM \<and> k_proc k' = k_proc k \<and> k_pgrp k' = k_pgrp k \<and> k_sess k' = k_sess k \<and> k_pgrphash k' = k_pgrphash k"
    using r run failed by auto
  have gne: "g \<noteq> s" using sg by simp
  show "k_allproc k' = k_allproc k \<and> dom (k_proc k') = dom (k_proc k) \<and>
      (\<forall>q qc. k_proc k q = Some qc \<longrightarrow> (\<exists>qc'. k_proc k' q = Some qc' \<and> p_pid qc' = p_pid qc \<and> p_state qc' = p_state qc))"
  proof (cases "\<exists>h \<in> set (k_pgrphash k). pg_id (the_pgrp k h) = p_pid pc")
    case True
    then show ?thesis using r run failed pgrp2 by (auto simp: free_sess_def free_pgrp_def)
  next
    case False
    then have n: "\<forall>h \<in> set (k_pgrphash k). pg_id (the_pgrp k h) \<noteq> p_pid pc" and k': "k' = doenterpgrp psig p g k4"
      using r run e by auto
    note ef = doenterpgrp_effect [OF ok free [OF n] g4 gne p4 _ _ _ k', simplified, OF pp(2-4)]
    have "dom (k_proc k4) = dom (k_proc k)" using pp by (auto simp: k4 pgrp2)
    moreover have "\<exists>qc'. k_proc k' q = Some qc' \<and> p_pid qc' = p_pid qc \<and> p_state qc' = p_state qc" if q: "k_proc k q = Some qc" for q qc
      using ef(7) [of q] q pp by (cases "q = p") (auto simp: k4 pgrp2)
    ultimately show ?thesis using ef(8,9) by (simp add: k4 pgrp2)
  qed
  assume n: "\<forall>h \<in> set (k_pgrphash k). pg_id (the_pgrp k h) \<noteq> p_pid pc"
  then have r': "r = Inr (p_pid pc)" "k' = doenterpgrp psig p g k4" using r run e by auto
  note ef = doenterpgrp_effect [OF ok free [OF n] g4 gne p4 _ _ _ r'(2), simplified, OF pp(2-4)]
  have g4k: "grp_of k4 = grp_of k" using pp by (auto simp: fun_eq_iff grp_of_def k4 pgrp2)
  have s4: "ses_of k4 s = ses_of k s" using sg by (simp add: ses_of_def k4 pgrp2)
  have gk: "g \<in> set (k_pgrphash k')" using ef(3) [OF g4 gne] by simp
  have "k_sess k' S = k_sess k4 S" using ef(6) [of S] Ss s4 ids(2) [OF sk] by simp
  also have "\<dots> = Some \<lparr>s_count = 1, s_leader = Some p, s_sid = p_pid pc, s_ttyvp = None, s_ttyp = None,
          s_login = s_login (the_sess k (ses_of k s))\<rparr>"
    using Ss ids(2) [OF sk] by (simp add: k4 pgrp2 zero_sess_def)
  finally have sess: "k_sess k' S = \<dots>" .
  have "h \<in> set (k_pgrphash k) \<and> pg_id (the_pgrp k' h) = pg_id (the_pgrp k h) \<and> ses_of k' h = ses_of k h"
    if "h \<in> set (k_pgrphash k')" "h \<noteq> g" for h
    using ef(2) ef(4) [OF that(1)] that by (auto simp: ses_of_def k4 pgrp2)
  then show "r = Inr (p_pid pc) \<and> (\<exists>g S. k_pgrp k g = None \<and> k_sess k S = None \<and> grp_of k' = (grp_of k)(p \<mapsto> g) \<and>
        pg_id (the_pgrp k' g) = p_pid pc \<and> pg_members (the_pgrp k' g) = [p] \<and> ses_of k' g = S \<and>
        k_sess k' S = Some \<lparr>s_count = 1, s_leader = Some p, s_sid = p_pid pc, s_ttyvp = None, s_ttyp = None,
          s_login = s_login (the_sess k (ses_of k s))\<rparr> \<and>
        (\<forall>h \<in> set (k_pgrphash k'). h \<noteq> g \<longrightarrow> h \<in> set (k_pgrphash k) \<and> pg_id (the_pgrp k' h) = pg_id (the_pgrp k h) \<and> ses_of k' h = ses_of k h))"
    using r'(1) M(2) S0 ef(1) g4k ef(4) [OF gk] ef(5) sess
    by (intro conjI exI [of _ g] exI [of _ S]) (simp_all add: k4 ses_of_def)
qed

section \<open>setpgid\<close>

text \<open>inferior returns, as the chain of parents ends at process 0.\<close>

lemma inferior_total:
  assumes t: "proc_tree k" and p: "k_proc k p = Some pc" "p_pgrp pc \<noteq> None"
  shows "\<exists>b. inferior curp k p = Some b"
proof -
  obtain d :: "ptr \<Rightarrow> nat" where d: "\<And>q qc. k_proc k q = Some qc \<Longrightarrow> p_pid qc \<noteq> 0 \<Longrightarrow> d (p_pptr qc) < d q"
    using t unfolding proc_tree_def by blast
  show ?thesis
    using p
  proof (induction "d p" arbitrary: p pc rule: less_induct)
    case less
    show ?case
    proof (cases "p = curp \<or> p_pid pc = 0")
      case True
      then show ?thesis using less.prems(1) by (auto simp: inferior.simps [of curp k p])
    next
      case False
      then obtain pp where pp: "k_proc k (p_pptr pc) = Some pp" "p_pgrp pp \<noteq> None"
        using t less.prems unfolding proc_tree_def by blast
      have "\<exists>b. inferior curp k (p_pptr pc) = Some b"
        by (rule less.hyps [OF _ pp]) (use d less.prems(1) False in blast)
      then show ?thesis using False less.prems(1) by (simp add: inferior.simps [of curp k p])
    qed
  qed
qed

text \<open>What pfind can find: live processes with distinct ids that are in groups.\<close>

definition allproc_ok :: "kern \<Rightarrow> bool" where
  "allproc_ok k \<longleftrightarrow> (\<forall>q \<in> set (k_allproc k). \<exists>qc g. k_proc k q = Some qc \<and> p_state qc \<noteq> PRS_ZOMBIE \<and> p_pgrp qc = Some g)"

lemma pfind_some: "pfind k i = Some q \<Longrightarrow> q \<in> set (k_allproc k) \<and> p_pid (the_proc k q) = i"
  unfolding pfind_def by (auto simp: find_Some_iff)

lemma setpgid_target_ok:
  assumes t: "proc_tree k" and a: "allproc_ok k" and c: "in_group k curp cc sc"
  shows "\<exists>r. setpgid_target td curp pid k = Some r"
    and "setpgid_target td curp pid k = Some (Inr q) \<Longrightarrow> \<exists>qc s. in_group k q qc s \<and> ses_of k s = ses_of k sc"
proof -
  have find: "\<exists>qc g. k_proc k q = Some qc \<and> p_pid qc = pid \<and> p_state qc \<noteq> PRS_ZOMBIE \<and> p_pgrp qc = Some g" if "pfind k pid = Some q" for q
    using a pfind_some [OF that] unfolding allproc_ok_def by fastforce
  show "\<exists>r. setpgid_target td curp pid k = Some r"
  proof (cases "pfind k pid")
    case (Some q)
    obtain qc g where "k_proc k q = Some qc" "p_pgrp qc = Some g" using find [OF Some] by blast
    then obtain b where "inferior curp k q = Some b" using inferior_total [OF t, of q qc curp] by auto
    then show ?thesis using Some by (cases b) (auto simp: setpgid_target_def split: option.split)
  qed (simp add: setpgid_target_def)
  assume r: "setpgid_target td curp pid k = Some (Inr q)"
  show "\<exists>qc s. in_group k q qc s \<and> ses_of k s = ses_of k sc"
  proof (cases "pid \<noteq> 0 \<and> pid \<noteq> p_pid (the_proc k curp)")
    case True
    then have f: "pfind k pid = Some q" and s: "p_session k q = p_session k curp"
      using r by (auto simp: setpgid_target_def split: option.splits bool.splits if_splits)
    show ?thesis using find [OF f] s True c by (auto simp: in_group_def ses_of_def)
  next
    case False
    then have "q = curp" using r by (auto simp: setpgid_target_def)
    then show ?thesis using c by blast
  qed
qed

text \<open>
  A group whose id is the pid of a process is in that process's session. It is what lets
  setpgid skip the session check for such a group.
\<close>

definition pid_groups :: "kern \<Rightarrow> bool" where
  "pid_groups k \<longleftrightarrow> (\<forall>q qc g h. k_proc k q = Some qc \<longrightarrow> p_pgrp qc = Some h \<longrightarrow> g \<in> set (k_pgrphash k) \<longrightarrow>
     pg_id (the_pgrp k g) = p_pid qc \<longrightarrow> ses_of k g = ses_of k h)"

definition sess_of_proc :: "kern \<Rightarrow> ptr \<Rightarrow> ptr option" where
  "sess_of_proc k q = map_option (ses_of k) (grp_of k q)"

lemma enter_group_sessions:
  assumes ok: "psig_ok psig" and inv: "pg_inv F E k" and t: "t \<in> set (k_pgrphash k)" "t \<noteq> s" and E: "E \<subseteq> {t}"
    and p: "in_group k p pc s" and same: "ses_of k t = ses_of k s" and pg: "pid_groups k" and a: "allproc_ok k"
    and k': "k' = doenterpgrp psig p t k"
  shows "sess_of_proc k' = sess_of_proc k" and "pid_groups k'" and "allproc_ok k'" and "pg_inv F {} k'"
proof -
  have pp: "k_proc k p = Some pc" "p_pid pc \<noteq> 0" "p_pgrp pc = Some s" "p_state pc \<noteq> PRS_ZOMBIE"
    using p by (simp_all add: in_group_def)
  note ef = doenterpgrp_effect [OF ok inv t pp k']
  show inv': "pg_inv F {} k'" unfolding k' by (rule doenterpgrp_inv [OF ok inv t pp E])
  have ses: "ses_of k' h = ses_of k h" if "grp_of k' q = Some h" for q h
    using ef(4) [of h] pg_invD(7) [OF inv' that] by blast
  have gp: "grp_of k p = Some s" using pp by (simp add: grp_of_def)
  show s: "sess_of_proc k' = sess_of_proc k"
  proof
    fix q
    show "sess_of_proc k' q = sess_of_proc k q"
    proof (cases "grp_of k' q")
      case None
      then show ?thesis using ef(1) by (auto simp: sess_of_proc_def split: if_splits)
    next
      case (Some h)
      then show ?thesis using ses [OF Some] ef(1) gp same by (auto simp: sess_of_proc_def split: if_splits)
    qed
  qed
  show "pid_groups k'" unfolding pid_groups_def
  proof (intro allI impI)
    fix q qc' g h assume q': "k_proc k' q = Some qc'" "p_pgrp qc' = Some h" and g: "g \<in> set (k_pgrphash k')"
      and id: "pg_id (the_pgrp k' g) = p_pid qc'"
    obtain qc where q: "k_proc k q = Some qc" using ef(9) q'(1) by blast
    then have pid: "p_pid qc' = p_pid qc" using ef(7) [OF q] q'(1) by auto
    have "grp_of k' q = Some h" using q' by (simp add: grp_of_def)
    then have "sess_of_proc k q = Some (ses_of k' h)" using s by (metis sess_of_proc_def option.simps(9))
    then obtain h0 where h0: "grp_of k q = Some h0" "ses_of k h0 = ses_of k' h" by (auto simp: sess_of_proc_def)
    have "ses_of k g = ses_of k h0"
      using pg q h0(1) g ef(2) ef(4) [OF g] id pid unfolding pid_groups_def grp_of_def by fastforce
    then show "ses_of k' g = ses_of k' h" using ef(4) [OF g] h0(2) by simp
  qed
  show "allproc_ok k'" unfolding allproc_ok_def
  proof
    fix q assume "q \<in> set (k_allproc k')"
    then obtain qc g where q: "k_proc k q = Some qc" "p_state qc \<noteq> PRS_ZOMBIE" "p_pgrp qc = Some g"
      using a ef(8) unfolding allproc_ok_def by auto
    obtain qc' where qc': "k_proc k' q = Some qc'" "p_state qc' = p_state qc" using ef(7) [OF q(1)] by blast
    have "grp_of k' q \<noteq> None" using ef(1) q by (simp add: grp_of_def)
    then show "\<exists>qc g. k_proc k' q = Some qc \<and> p_state qc \<noteq> PRS_ZOMBIE \<and> p_pgrp qc = Some g"
      using qc' q(2) by (auto simp: grp_of_def)
  qed
qed

definition pids_unique :: "kern \<Rightarrow> bool" where
  "pids_unique k \<longleftrightarrow> (\<forall>q r qc rc. k_proc k q = Some qc \<longrightarrow> k_proc k r = Some rc \<longrightarrow> p_pid qc = p_pid rc \<longrightarrow> q = r)"

text \<open>Everything the two calls keep; \<open>F\<close> as in pg_inv.\<close>

definition job_inv :: "ptr set \<Rightarrow> kern \<Rightarrow> bool" where
  "job_inv F k \<longleftrightarrow> pg_inv F {} k \<and> pid_groups k \<and> allproc_ok k \<and> pids_unique k"

lemma job_inv_view:
  assumes inv: "job_inv F k"
    and eq: "k_proc k' = k_proc k" "k_pgrphash k' = k_pgrphash k" "k_sess k' = k_sess k" "k_allproc k' = k_allproc k"
    and pg: "\<And>g. g \<in> set (k_pgrphash k) \<Longrightarrow> k_pgrp k' g = k_pgrp k g"
    and dom: "dom (k_pgrp k') = set (k_pgrphash k) \<union> F'" "set (k_pgrphash k) \<inter> F' = {}"
    and brk: "dom (k_pgrp k') \<subseteq> {..<k_brk k'}" "k_brk k \<le> k_brk k'"
  shows "job_inv F' k'" and "sess_of_proc k' = sess_of_proc k"
proof -
  have i: "pg_inv F {} k" using inv by (simp add: job_inv_def)
  have grp: "grp_of k' = grp_of k" by (simp add: fun_eq_iff grp_of_def eq)
  have ses: "ses_of k' g = ses_of k g" if "g \<in> set (k_pgrphash k)" for g using pg [OF that] by (simp add: ses_of_def)
  have gh: "g \<in> set (k_pgrphash k)" if "grp_of k q = Some g" for q g using pg_invD(7) [OF i that] .
  show "sess_of_proc k' = sess_of_proc k"
  proof
    fix q show "sess_of_proc k' q = sess_of_proc k q"
      using ses [OF gh, of q] by (cases "grp_of k q") (simp_all add: sess_of_proc_def grp)
  qed
  have "pid_groups k'" unfolding pid_groups_def
  proof (intro allI impI)
    fix q qc g h assume q: "k_proc k' q = Some qc" "p_pgrp qc = Some h" and g: "g \<in> set (k_pgrphash k')" and id: "pg_id (the_pgrp k' g) = p_pid qc"
    have g': "g \<in> set (k_pgrphash k)" and q': "k_proc k q = Some qc" using g q(1) by (simp_all add: eq)
    have h: "h \<in> set (k_pgrphash k)" using gh [of q h] q' q(2) by (simp add: grp_of_def)
    have "ses_of k g = ses_of k h" using inv q' q(2) g' id pg [OF g'] unfolding job_inv_def pid_groups_def by metis
    then show "ses_of k' g = ses_of k' h" by (simp add: ses [OF g'] ses [OF h])
  qed
  moreover have "allproc_ok k'" "pids_unique k'" using inv by (simp_all add: job_inv_def allproc_ok_def pids_unique_def eq)
  ultimately show "job_inv F' k'"
    using pg_inv_view [OF i eq(1-3) pg dom brk] by (simp add: job_inv_def)
qed

lemma job_inv_malloc:
  assumes inv: "job_inv {} k" and m: "malloc_pgrp k = (g, k')"
  shows "job_inv {g} k'" and "sess_of_proc k' = sess_of_proc k"
proof -
  have i: "pg_inv {} {} k" using inv by (simp add: job_inv_def)
  note M = malloc_pgrp_inv [OF i m]
  have nh: "g \<notin> set (k_pgrphash k)" using pg_inv_group [OF i, of g] M(2) by auto
  have d: "dom (k_pgrp k') = set (k_pgrphash k) \<union> {g}" using pg_invD(3) [OF i] M(9) by auto
  have b: "dom (k_pgrp k') \<subseteq> {..<k_brk k'}" using pg_invD(11) [OF M(1)] .
  have same: "k_pgrp k' h = k_pgrp k h" if "h \<in> set (k_pgrphash k)" for h using that nh M(9) by auto
  have dis: "set (k_pgrphash k) \<inter> {g} = {}" and le: "k_brk k \<le> k_brk k'" using nh M(8) by auto
  note v = job_inv_view [OF inv M(4,6,5,10) same d dis b le]
  show "job_inv {g} k'" and "sess_of_proc k' = sess_of_proc k" using v by blast+
qed

lemma job_inv_free:
  assumes inv: "job_inv {g} k"
  shows "job_inv {} (free_pgrp g k)" and "sess_of_proc (free_pgrp g k) = sess_of_proc k"
proof -
  have i: "pg_inv {g} {} k" using inv by (simp add: job_inv_def)
  have eq: "k_proc (free_pgrp g k) = k_proc k" "k_pgrphash (free_pgrp g k) = k_pgrphash k" "k_sess (free_pgrp g k) = k_sess k"
    "k_allproc (free_pgrp g k) = k_allproc k" "k_brk k \<le> k_brk (free_pgrp g k)" "k_pgrp (free_pgrp g k) = (k_pgrp k)(g := None)"
    "k_brk (free_pgrp g k) = k_brk k"
    by (simp_all add: free_pgrp_def)
  have d: "dom (k_pgrp (free_pgrp g k)) = set (k_pgrphash k) \<union> {}" using pg_invD(3,4) [OF i] eq(6) by auto
  have b: "dom (k_pgrp (free_pgrp g k)) \<subseteq> {..<k_brk (free_pgrp g k)}" using pg_invD(11) [OF i] eq(6,7) by auto
  have same: "k_pgrp (free_pgrp g k) h = k_pgrp k h" if "h \<in> set (k_pgrphash k)" for h
    using that pg_invD(4) [OF i] eq(6) by auto
  note v = job_inv_view [OF inv eq(1-4) same d _ b eq(5)]
  show "job_inv {} (free_pgrp g k)" and "sess_of_proc (free_pgrp g k) = sess_of_proc k" using v by blast+
qed

lemma pids_unique_effect:
  assumes "pids_unique k" and "dom (k_proc k') = dom (k_proc k)"
    and "\<And>q qc. k_proc k q = Some qc \<Longrightarrow> \<exists>qc'. k_proc k' q = Some qc' \<and> p_pid qc' = p_pid qc"
  shows "pids_unique k'"
  unfolding pids_unique_def
proof (intro allI impI)
  fix q r qc' rc' assume *: "k_proc k' q = Some qc'" "k_proc k' r = Some rc'" "p_pid qc' = p_pid rc'"
  then obtain qc rc where o: "k_proc k q = Some qc" "k_proc k r = Some rc" using assms(2) by (metis domD domI)
  moreover have "p_pid qc = p_pid rc" using assms(3) [OF o(1)] assms(3) [OF o(2)] * by auto
  ultimately show "q = r" using assms(1) unfolding pids_unique_def by blast
qed

lemma enter_job_inv:
  assumes ok: "psig_ok psig" and inv: "pg_inv F E k" and t: "t \<in> set (k_pgrphash k)" "t \<noteq> s" and E: "E \<subseteq> {t}"
    and p: "in_group k p pc s" and same: "ses_of k t = ses_of k s" and pg: "pid_groups k" "allproc_ok k" "pids_unique k"
  shows "job_inv F (doenterpgrp psig p t k)" and "sess_of_proc (doenterpgrp psig p t k) = sess_of_proc k"
proof -
  note e = enter_group_sessions [OF ok inv t E p same pg(1,2) refl]
  show "sess_of_proc (doenterpgrp psig p t k) = sess_of_proc k" by (rule e(1))
  have pp: "k_proc k p = Some pc" "p_pid pc \<noteq> 0" "p_pgrp pc = Some s" "p_state pc \<noteq> PRS_ZOMBIE"
    using p by (simp_all add: in_group_def)
  note ef = doenterpgrp_effect [OF ok inv t pp refl]
  have "pids_unique (doenterpgrp psig p t k)"
    by (rule pids_unique_effect [OF pg(3) ef(9)]) (use ef(7) in blast)
  then show "job_inv F (doenterpgrp psig p t k)" using e by (simp add: job_inv_def)
qed

lemma setpgid_result:
  assumes inv: "job_inv {} k" and ok: "psig_ok psig" and td: "td_proc (the_thread k td) = p" and p: "in_group k p cc sc"
  shows "\<exists>e k'. setpgid psig td pid pgid k = Some (e, k') \<and> job_inv {} k' \<and> sess_of_proc k' = sess_of_proc k \<and>
    (e \<noteq> None \<longrightarrow> k_proc k' = k_proc k \<and> k_pgrp k' = k_pgrp k \<and> k_sess k' = k_sess k \<and> k_pgrphash k' = k_pgrphash k)"
    (is "\<exists>e k'. ?run e k' \<and> ?good e k'")
proof -
  have i0: "pg_inv {} {} k" using inv by (simp add: job_inv_def)
  obtain n k1 where m: "malloc_pgrp k = (n, k1)" by fastforce
  note M = malloc_pgrp_inv [OF i0 m]
  note J = job_inv_malloc [OF inv m]
  have i1: "pg_inv {n} {} k1" and c1: "pid_groups k1" "allproc_ok k1" "pids_unique k1" using J(1) by (simp_all add: job_inv_def)
  have p1: "in_group k1 p cc sc" using p by (simp add: in_group_def M)
  have freed: "k_proc (free_pgrp n k1) = k_proc k" "k_pgrp (free_pgrp n k1) = k_pgrp k" "k_sess (free_pgrp n k1) = k_sess k"
    "k_pgrphash (free_pgrp n k1) = k_pgrphash k"
    using M(2) by (simp_all add: free_pgrp_def M fun_upd_idem)
  have err: "?good e (free_pgrp n k1)" for e
    using job_inv_free [OF J(1)] J(2) freed by simp
  have start: "?good (Some EINVAL) k" using inv by simp
  obtain tr where tr: "setpgid_target td p pid k1 = Some tr"
    using setpgid_target_ok(1) [OF pg_invD(9) [OF i1] c1(2) p1] by blast
  have run: "setpgid psig td pid pgid k = (if pgid < 0 then Some (Some EINVAL, k) else
        (case tr of Inl e \<Rightarrow> Some (Some e, free_pgrp n k1)
         | Inr targp \<Rightarrow>
             if SESS_LEADER k1 targp then Some (Some EPERM, free_pgrp n k1)
             else
               let pgid = (if pgid = 0 then p_pid (the_proc k1 targp) else pgid) in
               (case pgfind k1 pgid of
                  None \<Rightarrow>
                    if pgid = p_pid (the_proc k1 targp)
                    then Some (None, enterpgrp psig targp pgid n None k1)
                    else Some (Some EPERM, free_pgrp n k1)
                | Some pgrp \<Rightarrow>
                    if Some pgrp = p_pgrp (the_proc k1 targp) then Some (None, free_pgrp n k1)
                    else if pg_id (the_pgrp k1 pgrp) \<noteq> p_pid (the_proc k1 targp) \<and>
                            pg_session (the_pgrp k1 pgrp) \<noteq> p_session k1 p
                    then Some (Some EPERM, free_pgrp n k1)
                    else Some (None, free_pgrp n (enterthispgrp psig targp pgrp k1)))))"
    unfolding setpgid_def td Let_def m prod.case tr option.case ..
  show ?thesis
  proof (cases "pgid < 0 \<or> (\<exists>e. tr = Inl e) \<or> SESS_LEADER k1 (projr tr)")
    case True
    then show ?thesis unfolding run using err start by (cases tr) auto
  next
    case False
    then obtain q where q: "tr = Inr q" by (cases tr) auto
    obtain qc s where g: "in_group k1 q qc s" and ss: "ses_of k1 s = ses_of k1 sc"
      using setpgid_target_ok(2) [OF pg_invD(9) [OF i1] c1(2) p1] tr q by blast
    have qk: "k_proc k1 q = Some qc" "p_pgrp qc = Some s" "p_pid qc \<noteq> 0" "p_state qc \<noteq> PRS_ZOMBIE" using g by (simp_all add: in_group_def)
    have sh: "s \<in> set (k_pgrphash k1)" using pg_invD(7) [OF i1, of q s] qk by (simp add: grp_of_def)
    have pk: "k_proc k1 p = Some cc" "p_pgrp cc = Some sc" using p1 by (simp_all add: in_group_def)
    define i where "i = (if pgid = 0 then p_pid qc else pgid)"
    show ?thesis
    proof (cases "pgfind k1 i")
      case None
      have sn: "s \<noteq> n" using sh pg_invD(4) [OF i1] by auto
      obtain k4 where e: "enterpgrp psig q i n None k1 = doenterpgrp psig q n k4"
        and k4: "k_proc k4 = k_proc k1" "k_allproc k4 = k_allproc k1"
          "k_pgrp k4 = (k_pgrp k1)(n \<mapsto> \<lparr>pg_id = i, pg_session = ses_of k1 s, pg_members = [], pg_jobc = 0\<rparr>)"
          "k_sess k4 = (k_sess k1)(ses_of k1 s \<mapsto> (the_sess k1 (ses_of k1 s))\<lparr>s_count := s_count (the_sess k1 (ses_of k1 s)) + 1\<rparr>)"
          "k_pgrphash k4 = n # k_pgrphash k1" "k_brk k4 = k_brk k1"
        by (rule enterpgrp_same_session [OF qk(1,2) sn])
      have "?good None (doenterpgrp psig q n k4)" if i: "i = p_pid qc"
      proof -
        obtain so where so: "k_sess k1 (ses_of k1 s) = Some so" "s_count so = int (sess_groups k1 (ses_of k1 s))"
          using sess_live [OF i1 sh] by blast
        have "pg_inv {} {n} k4"
        proof (rule new_group_inv [OF i1, where pgid = i and s = "ses_of k1 s"])
          show "s_count (the (k_sess k4 (ses_of k1 s))) = int (sess_groups k1 (ses_of k1 s)) + 1" using so by (simp add: k4)
          show "ses_of k1 s < k_brk k4" using pg_invD(12) [OF i1] so(1) by (auto simp: k4)
        qed (use None in \<open>auto simp: k4 pgfind_none\<close>)
        moreover have nh: "n \<notin> set (k_pgrphash k1)" using pg_invD(4) [OF i1] by auto
        moreover have g4: "in_group k4 q qc s" using g by (simp add: in_group_def k4)
        moreover have s4: "ses_of k4 n = ses_of k1 s" "ses_of k4 s = ses_of k1 s" using sn by (simp_all add: ses_of_def k4)
        moreover have "allproc_ok k4" "pids_unique k4" using c1 by (simp_all add: allproc_ok_def pids_unique_def k4)
        moreover have ses4: "ses_of k4 h = ses_of k1 h" "pg_id (the_pgrp k4 h) = pg_id (the_pgrp k1 h)" if "h \<in> set (k_pgrphash k1)" for h
          using that nh by (auto simp: ses_of_def k4)
        moreover have gh: "h \<in> set (k_pgrphash k1)" if "k_proc k1 r = Some rc" "p_pgrp rc = Some h" for r rc h
          using pg_invD(7) [OF i1, of r h] that by (simp add: grp_of_def)
        moreover have "pid_groups k4" unfolding pid_groups_def
        proof (intro allI impI)
          fix r rc g h assume r: "k_proc k4 r = Some rc" "p_pgrp rc = Some h" and gg: "g \<in> set (k_pgrphash k4)" and id: "pg_id (the_pgrp k4 g) = p_pid rc"
          have r1: "k_proc k1 r = Some rc" using r(1) by (simp add: k4)
          have hh: "ses_of k4 h = ses_of k1 h" using ses4(1) [OF gh [OF r1 r(2)]] .
          show "ses_of k4 g = ses_of k4 h"
          proof (cases "g = n")
            case True
            then have "p_pid rc = p_pid qc" using id i by (simp add: k4)
            then have "r = q" using c1(3) r1 qk(1) unfolding pids_unique_def by metis
            then have "h = s" using r1 r(2) qk by simp
            then show ?thesis using True s4 by simp
          next
            case False
            then have g1: "g \<in> set (k_pgrphash k1)" using gg by (simp add: k4)
            have "ses_of k1 g = ses_of k1 h" using c1(1) r1 r(2) g1 id ses4(2) [OF g1] unfolding pid_groups_def by metis
            then show ?thesis using hh ses4(1) [OF g1] by simp
          qed
        qed
        moreover have "sess_of_proc k4 = sess_of_proc k1"
        proof
          fix r
          have "grp_of k4 = grp_of k1" by (simp add: fun_eq_iff grp_of_def k4)
          then show "sess_of_proc k4 r = sess_of_proc k1 r"
            using ses4(1) [OF pg_invD(7) [OF i1, of r]] by (cases "grp_of k1 r") (simp_all add: sess_of_proc_def)
        qed
        ultimately show ?thesis
          using enter_job_inv [OF ok, of "{}" "{n}" k4 n s q qc] J(2) sn by (auto simp: k4)
      qed
      then show ?thesis unfolding run using False q None err e i_def qk by (auto simp: Let_def)
    next
      case (Some g')
      note fnd = pgfind_some [OF Some]
      show ?thesis
      proof (cases "g' = s \<or> (pg_id (the_pgrp k1 g') \<noteq> p_pid qc \<and> pg_session (the_pgrp k1 g') \<noteq> p_session k1 p)")
        case True
        then show ?thesis unfolding run using False q Some err i_def qk by (auto simp: Let_def)
      next
        case go: False
        have ses: "ses_of k1 g' = ses_of k1 s"
          using go fnd c1(1) qk ss pk unfolding pid_groups_def by (auto simp: ses_of_def)
        have e: "job_inv {n} (doenterpgrp psig q g' k1)" "sess_of_proc (doenterpgrp psig q g' k1) = sess_of_proc k1"
          using enter_job_inv [OF ok i1 _ _ _ g ses c1, of] fnd go by auto
        then have "?good None (free_pgrp n (enterthispgrp psig q g' k1))"
          using job_inv_free J(2) by (simp add: enterthispgrp_def)
        then show ?thesis unfolding run using False q Some go i_def qk by (auto simp: Let_def)
      qed
    qed
  qed
qed

lemma setsid_job_inv:
  assumes inv: "job_inv {} k" and ok: "psig_ok psig" and td: "td_proc (the_thread k td) = p" and p: "in_group k p pc s"
  shows "job_inv {} (snd (setsid psig td k))"
proof -
  have i: "pg_inv {} {} k" and c: "pid_groups k" "allproc_ok k" "pids_unique k" using inv by (simp_all add: job_inv_def)
  obtain r k' where r: "setsid psig td k = (r, k')" by fastforce
  note S = setsid_result [OF i ok td p r]
  have u: "pids_unique k'" by (rule pids_unique_effect [OF c(3)]) (use S(3) in blast)+
  have pid: "p_pid qc' = p_pid qc" if "k_proc k q = Some qc" "k_proc k' q = Some qc'" for q qc qc'
    using S(3) that by fastforce
  have both: "pid_groups k' \<and> allproc_ok k'"
  proof (cases "\<exists>h \<in> set (k_pgrphash k). pg_id (the_pgrp k h) = p_pid pc")
    case True
    note e = S(2) [OF True]
    have "ses_of k' = ses_of k" using e by (simp add: fun_eq_iff ses_of_def)
    then show ?thesis using c e S(3) by (simp add: pid_groups_def allproc_ok_def)
  next
    case False
    then have n: "\<forall>h \<in> set (k_pgrphash k). pg_id (the_pgrp k h) \<noteq> p_pid pc" by blast
    obtain g where g: "k_pgrp k g = None" "grp_of k' = (grp_of k)(p \<mapsto> g)" "pg_id (the_pgrp k' g) = p_pid pc"
      and old: "\<And>h. h \<in> set (k_pgrphash k') \<Longrightarrow> h \<noteq> g \<Longrightarrow>
        h \<in> set (k_pgrphash k) \<and> pg_id (the_pgrp k' h) = pg_id (the_pgrp k h) \<and> ses_of k' h = ses_of k h"
      using S(4) [OF n] by blast
    have pk: "k_proc k p = Some pc" using p by (simp add: in_group_def)
    have "pid_groups k'" unfolding pid_groups_def
    proof (intro allI impI)
      fix q qc' x h assume q': "k_proc k' q = Some qc'" "p_pgrp qc' = Some h" and x: "x \<in> set (k_pgrphash k')" and id: "pg_id (the_pgrp k' x) = p_pid qc'"
      obtain qc where q: "k_proc k q = Some qc" using S(3) q'(1) by blast
      have pq: "p_pid qc' = p_pid qc" using pid [OF q q'(1)] .
      have gq: "grp_of k' q = Some h" using q' by (simp add: grp_of_def)
      show "ses_of k' x = ses_of k' h"
      proof (cases "q = p")
        case True
        then have "h = g" using gq g(2) by simp
        moreover have "x = g"
        proof (rule ccontr)
          assume "x \<noteq> g"
          then show False using old [OF x] n id pq q pk True by auto
        qed
        ultimately show ?thesis by simp
      next
        case False
        then have hq: "grp_of k q = Some h" using gq g(2) by simp
        then have hk: "h \<in> set (k_pgrphash k)" using pg_invD(7) [OF i] by blast
        have hg: "h \<noteq> g" using g(1) pg_inv_group [OF i hk] by auto
        have xg: "x \<noteq> g"
        proof
          assume "x = g"
          then have "p_pid qc = p_pid pc" using id g(3) pq by simp
          then show False using c(3) q pk False unfolding pids_unique_def by blast
        qed
        have "h \<in> set (k_pgrphash k')" using pg_invD(7) [OF S(1) gq] .
        then have h': "ses_of k' h = ses_of k h" using old hg by blast
        have "ses_of k x = ses_of k h"
          using c(1) q hq old [OF x xg] id pq unfolding pid_groups_def grp_of_def by auto
        then show ?thesis using h' old [OF x xg] by simp
      qed
    qed
    moreover have "allproc_ok k'" unfolding allproc_ok_def
    proof
      fix q assume "q \<in> set (k_allproc k')"
      then obtain qc h where q: "k_proc k q = Some qc" "p_state qc \<noteq> PRS_ZOMBIE" "p_pgrp qc = Some h"
        using c(2) S(3) unfolding allproc_ok_def by auto
      obtain qc' where q': "k_proc k' q = Some qc'" "p_state qc' = p_state qc" using S(3) q(1) by blast
      have "grp_of k' q \<noteq> None" using g(2) q by (simp add: grp_of_def)
      then show "\<exists>qc g. k_proc k' q = Some qc \<and> p_state qc \<noteq> PRS_ZOMBIE \<and> p_pgrp qc = Some g"
        using q' q(2) by (auto simp: grp_of_def)
    qed
    ultimately show ?thesis ..
  qed
  then show ?thesis using S(1) u r by (simp add: job_inv_def)
qed

section \<open>Every sequence of the two calls\<close>

datatype pg_call = Setsid | Setpgid pid pid

fun do_pg_call :: "psig \<Rightarrow> ptr \<Rightarrow> pg_call \<Rightarrow> kern \<Rightarrow> (err \<times> kern) option" where
  "do_pg_call psig td Setsid k =
     (case setsid psig td k of (Inl e, k') \<Rightarrow> Some (Some e, k') | (Inr _, k') \<Rightarrow> Some (None, k'))"
| "do_pg_call psig td (Setpgid pid pgid) k = setpgid psig td pid pgid k"

text \<open>A step: a thread of some live process makes one of the calls and it returns.\<close>

inductive pg_step :: "psig \<Rightarrow> kern \<Rightarrow> kern \<Rightarrow> bool" for psig where
  pg_stepI: "in_group k (td_proc (the_thread k td)) pc s \<Longrightarrow> do_pg_call psig td c k = Some (e, k') \<Longrightarrow> pg_step psig k k'"

inductive_cases pg_stepE: "pg_step psig k k'"

lemma pg_call_job_inv:
  assumes "job_inv {} k" and "psig_ok psig" and "in_group k (td_proc (the_thread k td)) pc s"
  shows "\<exists>e k'. do_pg_call psig td c k = Some (e, k') \<and> job_inv {} k'"
proof (cases c)
  case Setsid
  then show ?thesis using setsid_job_inv [OF assms(1,2) refl assms(3)] by (auto split: prod.split sum.split)
next
  case (Setpgid pid pgid)
  then show ?thesis using setpgid_result [OF assms(1,2) refl assms(3), of pid pgid] by auto
qed

lemma pg_steps_job_inv: "(pg_step psig)\<^sup>*\<^sup>* k k' \<Longrightarrow> psig_ok psig \<Longrightarrow> job_inv {} k \<Longrightarrow> job_inv {} k'"
proof (induction rule: rtranclp_induct)
  case (step k1 k2)
  show ?case using step.hyps(2)
  proof (rule pg_stepE)
    fix td pc s c e assume "in_group k1 (td_proc (the_thread k1 td)) pc s" "do_pg_call psig td c k1 = Some (e, k2)"
    then show "job_inv {} k2"
      using pg_call_job_inv [OF step.IH [OF step.prems] step.prems(1), of td pc s c] by auto
  qed
qed simp

section \<open>A kernel to run the calls on\<close>

text \<open>
  Process 0 at 9, alone in its group and session; init at 10 and its child at 11 in the group 30 of the
  session 40; and a stopped child of init at 12 in the group 31 of that session.
\<close>

definition job_kern :: kern where
  "job_kern = (boot_kern 0)\<lparr>k_brk := 50,
     k_proc := [9 \<mapsto> (boot_proc 0)\<lparr>p_children := [10], p_pgrp := Some 29\<rparr>,
                10 \<mapsto> (boot_proc 1)\<lparr>p_pptr := 9, p_children := [12, 11], p_pgrp := Some 30\<rparr>,
                11 \<mapsto> (boot_proc 2)\<lparr>p_pptr := 10, p_pgrp := Some 30\<rparr>,
                12 \<mapsto> (boot_proc 3)\<lparr>p_pptr := 10, p_pgrp := Some 31, p_flag := 0x20000\<rparr>],
     k_allproc := [12, 11, 10],
     k_pgrphash := [31, 30, 29],
     k_pgrp := [29 \<mapsto> \<lparr>pg_id = 0, pg_session = 39, pg_members = [9], pg_jobc = 0\<rparr>,
                30 \<mapsto> \<lparr>pg_id = 1, pg_session = 40, pg_members = [11, 10], pg_jobc = 0\<rparr>,
                31 \<mapsto> \<lparr>pg_id = 3, pg_session = 40, pg_members = [12], pg_jobc = 1\<rparr>],
     k_sess := [39 \<mapsto> zero_sess\<lparr>s_count := 1, s_leader := Some 9\<rparr>,
                40 \<mapsto> zero_sess\<lparr>s_count := 2, s_leader := Some 10, s_sid := 1, s_login := ''root''\<rparr>]\<rparr>"

text \<open>psignal as far as it matters here: SIGCONT lets a stopped process go on.\<close>

definition cont_psig :: psig where
  "cont_psig p sig k = (case k_proc k p of None \<Rightarrow> k
     | Some pc \<Rightarrow> if sig = SIGCONT then put_proc p (pc\<lparr>p_flag := p_flag pc AND NOT P_STOPPED\<rparr>) k else k)"

lemma cont_psig_ok: "psig_ok cont_psig"
proof -
  have "same_tree k (cont_psig p sig k) \<and> k_pgrp (cont_psig p sig k) = k_pgrp k" for p sig k
    by (cases "k_proc k p") (simp_all add: cont_psig_def same_tree_def pview_def)
  then show ?thesis by (simp add: psig_ok_def)
qed

lemma job_dom: "dom (k_proc job_kern) = {9, 10, 11, 12}" "dom (k_pgrp job_kern) = {29, 30, 31}"
  by (auto simp: job_kern_def)

lemma job_grp: "grp_of job_kern q = (if q = 9 then Some 29 else if q = 10 \<or> q = 11 then Some 30 else if q = 12 then Some 31 else None)"
  by (simp add: grp_of_def job_kern_def)

lemma job_hash [simp]: "k_pgrphash job_kern = [31, 30, 29]"
  by (simp add: job_kern_def)

lemma job_pgrp: "k_pgrp job_kern = [29 \<mapsto> \<lparr>pg_id = 0, pg_session = 39, pg_members = [9], pg_jobc = 0\<rparr>,
                30 \<mapsto> \<lparr>pg_id = 1, pg_session = 40, pg_members = [11, 10], pg_jobc = 0\<rparr>,
                31 \<mapsto> \<lparr>pg_id = 3, pg_session = 40, pg_members = [12], pg_jobc = 1\<rparr>]"
  by (simp add: job_kern_def)

lemma job_views:
  "ses_of job_kern 29 = 39" "ses_of job_kern 30 = 40" "ses_of job_kern 31 = 40"
  "par_of job_kern 9 = 0" "par_of job_kern 10 = 9" "par_of job_kern 11 = 10" "par_of job_kern 12 = 10"
  "\<not> zomb job_kern 9" "\<not> zomb job_kern 10" "\<not> zomb job_kern 11" "\<not> zomb job_kern 12"
  by (simp_all add: ses_of_def job_pgrp par_of_def zomb_def job_kern_def boot_proc_def)

lemma job_jobs: "kjobs job_kern g = (if g = 31 then 1 else 0)"
  unfolding jobs_def job_dom by (auto simp: qualifies_def job_grp job_views)

lemma job_kern_inv: "job_inv {} job_kern"
proof -
  have "pg_inv {} {} job_kern"
  proof (rule pg_invI)
    show "proc_tree job_kern" unfolding proc_tree_def
    proof (intro conjI)
      show "\<exists>d :: ptr \<Rightarrow> nat. \<forall>q qc. k_proc job_kern q = Some qc \<longrightarrow> p_pid qc \<noteq> 0 \<longrightarrow> d (p_pptr qc) < d q"
        by (rule exI [of _ id]) (auto simp: job_kern_def boot_proc_def split: if_splits)
    qed (auto simp: job_kern_def boot_proc_def split: if_splits)
    show "balanced k_sess s_count (\<lambda>s. int (sess_groups job_kern s)) job_kern"
      by (simp add: balanced_def sess_groups_def ses_of_def job_kern_def)
    fix g assume "g \<in> set (k_pgrphash job_kern)"
    then show "members_ok job_kern {} g" "jobc job_kern g = kjobs job_kern g"
      unfolding job_jobs by (auto simp: members_ok_def job_grp job_pgrp split: if_splits)
  qed (auto simp: job_dom job_grp job_pgrp split: if_splits, auto simp: job_kern_def split: if_splits)
  then show ?thesis
    by (auto simp: job_inv_def pid_groups_def allproc_ok_def pids_unique_def ses_of_def job_kern_def boot_proc_def split: if_splits)
qed

lemma job_runs: "in_group job_kern (td_proc (the_thread job_kern 21)) ((boot_proc 2)\<lparr>p_pptr := 10, p_pgrp := Some 30\<rparr>) 30"
  by (simp add: in_group_def job_kern_def boot_kern_def boot_proc_def)

section \<open>The properties\<close>

text \<open>C16: The job control accounting is exact in every state that any sequence of setsid and setpgid
  calls can reach: pg_jobc of a group is the number of its live members whose parent is in another group of the
  same session, the members lists are the processes that point to the group, no group in use is empty, and s_count
  of a session is the number of its groups.\<close>

theorem pg_reachable_inv:
  assumes "(pg_step psig)\<^sup>*\<^sup>* k k'" and "psig_ok psig" and "job_inv {} k"
  shows "(\<forall>g \<in> set (k_pgrphash k'). jobc k' g = kjobs k' g \<and> pg_members (the_pgrp k' g) \<noteq> [] \<and>
      set (pg_members (the_pgrp k' g)) = {q. grp_of k' q = Some g}) \<and>
    (\<forall>s ss. k_sess k' s = Some ss \<longrightarrow> s_count ss = int (sess_groups k' s) \<and> 0 < sess_groups k' s) \<and> job_inv {} k'"
proof -
  have j: "job_inv {} k'" using pg_steps_job_inv assms .
  then have i: "pg_inv {} {} k'" by (simp add: job_inv_def)
  have "s_count ss = int (sess_groups k' s) \<and> 0 < sess_groups k' s" if "k_sess k' s = Some ss" for s ss
    using balancedD_some [OF pg_invD(8) [OF i] that] by simp
  then show ?thesis using j pg_invD(6,10) [OF i] by (auto simp: members_ok_def)
qed

theorem pg_reachable_inv_witness: "job_inv {} (snd (setsid cont_psig 21 job_kern))"
proof -
  have "pg_step cont_psig job_kern (snd (setsid cont_psig 21 job_kern))"
    by (cases "setsid cont_psig 21 job_kern"; cases "fst (setsid cont_psig 21 job_kern)")
       (auto intro: pg_stepI [OF job_runs, of _ Setsid])
  then show ?thesis using pg_reachable_inv [OF r_into_rtranclp cont_psig_ok job_kern_inv] by blast
qed

text \<open>setsid fails with EPERM and changes nothing iff some process group has the caller's pid as its
  id; otherwise it puts the caller alone in a new group of that id in a new session, which it leads, without a controlling
  terminal and with the login name of the old session, and moves no other process.\<close>

theorem setsid_new_session:
  assumes "job_inv {} k" and "psig_ok psig" and "in_group k (td_proc (the_thread k td)) pc s"
    and "setsid psig td k = (r, k')"
  shows "if \<exists>h \<in> set (k_pgrphash k). pg_id (the_pgrp k h) = p_pid pc
    then r = Inl EPERM \<and> k_proc k' = k_proc k \<and> k_pgrp k' = k_pgrp k \<and> k_sess k' = k_sess k
    else r = Inr (p_pid pc) \<and> (\<exists>g S. k_pgrp k g = None \<and> k_sess k S = None \<and>
      grp_of k' = (grp_of k)(td_proc (the_thread k td) \<mapsto> g) \<and>
      pg_id (the_pgrp k' g) = p_pid pc \<and> pg_members (the_pgrp k' g) = [td_proc (the_thread k td)] \<and> ses_of k' g = S \<and>
      k_sess k' S = Some \<lparr>s_count = 1, s_leader = Some (td_proc (the_thread k td)), s_sid = p_pid pc, s_ttyvp = None, s_ttyp = None,
        s_login = s_login (the_sess k (ses_of k s))\<rparr>)"
proof -
  have i: "pg_inv {} {} k" using assms(1) by (simp add: job_inv_def)
  note S = setsid_result [OF i assms(2) refl assms(3,4)]
  show ?thesis
  proof (cases "\<exists>h \<in> set (k_pgrphash k). pg_id (the_pgrp k h) = p_pid pc")
    case True
    then show ?thesis using S(2) by simp
  next
    case False
    then have "\<forall>h \<in> set (k_pgrphash k). pg_id (the_pgrp k h) \<noteq> p_pid pc" by blast
    from S(4) [OF this] show ?thesis using False by (simp only: if_False) blast
  qed
qed

theorem setsid_new_session_witness: "fst (setsid cont_psig 21 job_kern) = Inr 2"
proof -
  have "\<not> (\<exists>h \<in> set (k_pgrphash job_kern). pg_id (the_pgrp job_kern h) = p_pid ((boot_proc 2)\<lparr>p_pptr := 10, p_pgrp := Some 30\<rparr>))"
    by (simp add: job_kern_def boot_proc_def)
  then show ?thesis
    using setsid_new_session [OF job_kern_inv cont_psig_ok job_runs surjective_pairing] by (simp add: boot_proc_def)
qed

text \<open>setpgid always returns, keeps the process-group invariant, changes nothing when it fails, and never
  moves any process to another session: each process is in the session it was in, whatever the arguments.\<close>

theorem setpgid_keeps_sessions:
  assumes "job_inv {} k" and "psig_ok psig" and "in_group k (td_proc (the_thread k td)) pc s"
  shows "\<exists>e k'. setpgid psig td pid pgid k = Some (e, k') \<and> job_inv {} k' \<and> sess_of_proc k' = sess_of_proc k \<and>
    (e \<noteq> None \<longrightarrow> k_proc k' = k_proc k \<and> k_pgrp k' = k_pgrp k \<and> k_sess k' = k_sess k)"
  using setpgid_result [OF assms(1,2) refl assms(3), of pid pgid] by blast

theorem setpgid_keeps_sessions_witness:
  "\<exists>e k'. setpgid cont_psig 21 0 0 job_kern = Some (e, k') \<and> sess_of_proc k' 11 = Some 40"
proof -
  have "sess_of_proc job_kern 11 = Some 40" by (simp add: sess_of_proc_def job_grp) (simp add: ses_of_def job_kern_def)
  then show ?thesis using setpgid_keeps_sessions [OF job_kern_inv cont_psig_ok job_runs, of 0 0] by metis
qed

end
