(* ===== verification/Kern_Jail_Calls.thy ===== *)
theory Kern_Jail_Calls
  imports Kern_Prot_Access
begin

text \<open>
  The system calls jail and jail_attach of kern/kern_jail.c, with what they keep: the account of
  references to prisons, and that no jailed process can use them to leave its jail.
\<close>

section \<open>The calls\<close>

text \<open>
  \<open>change_dir\<close> is the outcome of change_dir on the jail's root directory; the file system state
  that it and change_root change is not modelled.
\<close>

definition jail_attach :: "err \<Rightarrow> ptr \<Rightarrow> int \<Rightarrow> kern \<Rightarrow> err \<times> kern" where
  "jail_attach change_dir td jid k0 =
     (case suser k0 (the_thread k0 td) of
        Some e \<Rightarrow> (Some e, k0)
      | None \<Rightarrow>
          let p = td_proc (the_thread k0 td) in
          (case prison_find k0 jid of
             None \<Rightarrow> (Some EINVAL, k0)
           | Some pr \<Rightarrow>
               let k1 = put_prison pr ((the_prison k0 pr)\<lparr>pr_ref := pr_ref (the_prison k0 pr) + 1\<rparr>) k0 in
               if change_dir \<noteq> None
               then (change_dir, put_prison pr ((the_prison k1 pr)\<lparr>pr_ref := pr_ref (the_prison k1 pr) - 1\<rparr>) k1)
               else
                 let (newcred, k2) = crget k1;
                     oldcred = p_ucred (the_proc k2 p);
                     k3 = setsugid p k2;
                     k4 = crcopy newcred oldcred k3;
                     k5 = put_cred newcred ((the_cred k4 newcred)\<lparr>cr_prison := Some pr\<rparr>) k4;
                     k6 = put_proc p ((the_proc k5 p)\<lparr>p_ucred := newcred\<rparr>) k5
                 in (None, crfree oldcred k6)))"

text \<open>
  \<open>jail\<close>: the argument struct read from user space, whose path and hostname are the outcomes of
  reading those strings; \<open>namei\<close> is the outcome of looking the path up, a vnode. The vnode is
  released on the error paths, which is not modelled. The prison is private to the call until it
  is on the list allprison. The result is the jail id or the error.
\<close>

record jail_args =
  j_version :: int
  j_path :: "errno + string"
  j_hostname :: "errno + string"
  j_ip_number :: u32

definition jail :: "errno + jail_args \<Rightarrow> (string \<Rightarrow> errno + ptr) \<Rightarrow> err \<Rightarrow> ptr \<Rightarrow> kern \<Rightarrow> (errno + int) \<times> kern" where
  "jail copyin namei change_dir td k0 =
     (case copyin of
        Inl e \<Rightarrow> (Inl e, k0)
      | Inr j \<Rightarrow>
          if j_version j \<noteq> 0 then (Inl EINVAL, k0)
          else
            let pr = k_brk k0;
                k1 = k0\<lparr>k_brk := k_brk k0 + 1\<rparr> in
            (case j_path j of
               Inl e \<Rightarrow> (Inl e, k1)
             | Inr path \<Rightarrow>
                 (case namei path of
                    Inl e \<Rightarrow> (Inl e, k1)
                  | Inr root \<Rightarrow>
                      (case j_hostname j of
                         Inl e \<Rightarrow> (Inl e, k1)
                       | Inr host \<Rightarrow>
                           (case jail_pick_prid k1 of
                              None \<Rightarrow> (Inl EAGAIN, k1)
                            | Some jid \<Rightarrow>
                                let k2 = put_prison pr \<lparr>pr_id = jid, pr_ref = 1, pr_path = path, pr_root = root, pr_host = host,
                                           pr_ip = j_ip_number j, pr_linux = None, pr_securelevel = securelevel k1\<rparr> k1;
                                    k3 = k2\<lparr>k_lastprid := jid, k_allprison := pr # k_allprison k2, k_prisoncount := k_prisoncount k2 + 1\<rparr>
                                in (case jail_attach change_dir td jid k3 of
                                      (None, k4) \<Rightarrow>
                                        (Inr jid, put_prison pr ((the_prison k4 pr)\<lparr>pr_ref := pr_ref (the_prison k4 pr) - 1\<rparr>) k4)
                                    | (Some e, k4) \<Rightarrow>
                                        (Inl e, k4\<lparr>k_allprison := remove1 pr (k_allprison k4), k_prisoncount := k_prisoncount k4 - 1,
                                                   k_prison := (k_prison k4)(pr := None)\<rparr>)))))))"

section \<open>A new prison\<close>

lemma cred_inv_new_prison:
  assumes inv: "cred_inv X Y Z k" and new: "k_prison k a = None" and lt: "a < k_brk k" and ref: "pr_ref pr = 1"
    and uniq: "\<And>b p. k_prison k b = Some p \<Longrightarrow> pr_id p \<noteq> pr_id pr"
    and k': "k' = k\<lparr>k_prison := (k_prison k)(a \<mapsto> pr), k_lastprid := i, k_allprison := a # k_allprison k, k_prisoncount := k_prisoncount k + 1\<rparr>"
  shows "cred_inv X Y (Z(a := Z a + 1)) k'"
proof -
  have "Z a + pr_refs k a = 0" using balancedD_none [OF cred_invD(11) [OF inv] new] .
  then have zero: "Z a = 0" "pr_refs k a = 0"
    using cred_invD(8) [OF inv, of a] pr_refs_nonneg [of k a] by linarith+
  have kp: "k_prison k' = (k_prison k)(a \<mapsto> pr)" by (simp add: k')
  have fr: "k_brk k' = k_brk k" "k_cred k' = k_cred k" "k_ui k' = k_ui k" "k_uihash k' = k_uihash k" "k_uimask k' = k_uimask k"
    "k_proc k' = k_proc k" "k_thread k' = k_thread k"
    by (simp_all add: k')
  have refs: "ui_refs k' = ui_refs k" "pr_refs k' = pr_refs k" "cr_refs k' = cr_refs k"
    by (rule refs_frame; simp add: fr)+
  have na: "a \<notin> set (k_allprison k)" using cred_invD(5) [OF inv] new by (auto simp: prison_inv_def)
  show ?thesis
  proof (rule cred_invI)
    show "brk_inv k'" using cred_invD(1) [OF inv] lt by (auto simp: brk_inv_def kp fr)
    show "uihash_inv k'" using cred_invD(4) [OF inv] by (simp add: uihash_inv_def UIHASH_def fr)
    show "prison_inv k'" using cred_invD(5) [OF inv] na uniq
      unfolding prison_inv_def k' by (simp add: insert_absorb) (metis option.inject)
    show "balanced k_prison pr_ref (\<lambda>b. (Z(a := Z a + 1)) b + pr_refs k' b) k'"
      using cred_invD(11) [OF inv] zero ref by (simp add: refs balanced_def kp)
    fix d x assume d: "k_cred k' d = Some x"
    then have d': "k_cred k d = Some x" by (simp add: fr)
    show "cred_ok k' x" using cred_invD(12) [OF inv d'] by (simp add: cred_ok_def fr)
    show "0 < cr_refs k' d \<Longrightarrow> cred_full x" using cred_invD(13) [OF inv d'] by (simp add: refs)
  qed (use cred_invD [OF inv] in \<open>simp_all add: refs fr balanced_objs [of k_cred k' k] balanced_objs [of k_ui k' k]\<close>)
qed

lemma prison_fresh_brk: "cred_inv X Y Z k \<Longrightarrow> k_prison (k\<lparr>k_brk := k_brk k + 1\<rparr>) (k_brk k) = None"
  using brk_fresh(3) [OF cred_invD(1)] by simp

section \<open>jail_attach\<close>

lemma prison_find_some:
  "prison_inv k \<Longrightarrow> prison_find k jid = Some a \<Longrightarrow> \<exists>pr. k_prison k a = Some pr \<and> pr_id pr = jid"
proof -
  assume "prison_inv k" and f: "prison_find k jid = Some a"
  moreover have "a \<in> set (k_allprison k)" and "pr_id (the_prison k a) = jid"
    using f unfolding prison_find_def by (auto simp: find_Some_iff)
  ultimately show ?thesis unfolding prison_inv_def by auto
qed

lemma put_prison_hold: "k_prison k a = Some pr \<Longrightarrow> put_prison a (pr\<lparr>pr_ref := pr_ref pr + 1\<rparr>) k = prison_hold a k"
  by (simp add: prison_hold_def)

lemma attach_cred:
  assumes inv: "cred_inv (\<lambda>_. 0) (\<lambda>_. 0) Z k1" and Z: "0 < Z pr" and r: "runs k1 td p pc old"
    and c: "crget k1 = (n, k2)"
    and k6: "k6 = put_proc p ((the_proc k5 p)\<lparr>p_ucred := n\<rparr>) k5"
    and k5: "k5 = put_cred n ((the_cred k4 n)\<lparr>cr_prison := Some pr\<rparr>) k4"
    and k4: "k4 = crcopy n (p_ucred pc) (setsugid p k2)"
  shows "cred_inv (\<lambda>_. 0) (\<lambda>_. 0) (\<lambda>a. Z a + pr_use a old - of_bool (a = pr)) (crfree (p_ucred pc) k6)"
    and "\<exists>pc' cr'. runs (crfree (p_ucred pc) k6) td p pc' cr' \<and> ids_of cr' = ids_of old \<and> cr_prison cr' = Some pr \<and>
      p_flag pc' = p_flag pc OR P_SUGID"
    and "cr_prison old = None \<Longrightarrow> k_prison (crfree (p_ucred pc) k6) = k_prison k1"
proof -
  note C = cred_inv_crget [OF inv c]
  have k2: "k_proc k2 = k_proc k1" "k_thread k2 = k_thread k1" "k_prison k2 = k_prison k1"
    "k_cred k2 = (k_cred k1)(n \<mapsto> zero_cred\<lparr>cr_ref := 1\<rparr>)" "k_cred k1 n = None"
    using c brk_fresh(2) [OF cred_invD(1) [OF inv]] by (auto simp: crget_def)
  have p: "k_proc k1 p = Some pc" and o: "k_cred k1 (p_ucred pc) = Some old" and full: "cred_full old"
    using r runs_full [OF inv r] by (simp_all add: runs_def)
  have ne: "n \<noteq> p_ucred pc" using k2(5) o by auto
  define k3 where "k3 = setsugid p k2"
  have inv3: "cred_inv (\<lambda>_. 0) ((\<lambda>_. 0)(n := 1)) Z k3"
    unfolding k3_def by (rule cred_inv_setsugid [where pc = pc]) (use C(1) p k2 in simp_all)
  have k3: "k_proc k3 = (k_proc k1)(p \<mapsto> sugid pc)" "k_cred k3 = k_cred k2" "k_prison k3 = k_prison k1" "k_thread k3 = k_thread k1"
    using setsugid_eq [of k2 p pc] p k2 by (simp_all add: k3_def)
  have z3: "cr_refs k3 n = 0"
  proof -
    have "cr_refs k3 n = cr_refs k2 n"
      using msum_upd_same [OF cred_invD(2) [OF C(1)], of p pc "\<lambda>p. of_bool (p_ucred p = n)" "sugid pc"] p k2 k3
      by (simp add: cr_refs_def)
    then show ?thesis using C(3) by simp
  qed
  have o3: "k_cred k3 (p_ucred pc) = Some old" using o ne k2 k3 by simp
  have d3: "k_cred k3 n = Some (zero_cred\<lparr>cr_ref := 1\<rparr>)" by (simp add: k3 k2)
  have e4: "editing n (old\<lparr>cr_ref := 1\<rparr>) (\<lambda>_. 0) ((\<lambda>_. 0)(n := 1)) Z k4"
    unfolding k4 k3_def [symmetric] by (rule editing_crcopy [OF inv3 o3 full d3 z3 ne])
  let ?cr = "old\<lparr>cr_ref := 1, cr_prison := Some pr\<rparr>" and ?Z = "\<lambda>a. Z a + pr_use a old - of_bool (a = pr)"
  have n4: "k_cred k4 n = Some (old\<lparr>cr_ref := 1\<rparr>)" and inv4: "cred_inv (\<lambda>_. 0) ((\<lambda>_. 0)(n := 1)) Z k4" and z4: "cr_refs k4 n = 0"
    using e4 by (simp_all add: editing_def)
  have k5': "k5 = put_cred n ?cr k4" by (simp add: k5 n4)
  have Zp: "?Z a = Z a + pr_use a (old\<lparr>cr_ref := 1\<rparr>) - pr_use a ?cr" "0 \<le> ?Z a" for a
    using Z cred_invD(8) [OF inv, of a] by (auto simp: pr_use_def)
  have ok: "cred_ok k4 ?cr" "cred_full ?cr" using editing_ok [OF e4] full by (simp_all add: cred_ok_def cred_full_def)
  have "cred_inv (\<lambda>_. 0) ((\<lambda>_. 0)(n := 1)) ?Z k5"
    unfolding k5' by (rule cred_inv_put_cred [OF inv4 n4 _ ok(1) _ _ _ Zp]) (use ok(2) in \<open>simp_all add: ui_use_def\<close>)
  moreover have "cr_refs k5 = cr_refs k4" unfolding k5' by (rule refs_frame) simp_all
  ultimately have e5: "editing n ?cr (\<lambda>_. 0) ((\<lambda>_. 0)(n := 1)) ?Z k5"
    using z4 ok(2) by (simp add: editing_def k5')
  have f5: "k_proc k5 = (k_proc k1)(p \<mapsto> sugid pc)" "k_thread k5 = k_thread k1"
    "\<And>c. c \<noteq> n \<Longrightarrow> k_cred k5 c = k_cred k1 c"
    by (auto simp: k5' k4 frame_simps k3 [unfolded k3_def] crcopy_other k2)
  have p5: "k_proc k5 p = Some (sugid pc)" by (simp add: f5)
  have "(\<lambda>c. ((\<lambda>_. 0)(n := 1)) c - of_bool (n = c) + of_bool (p_ucred (sugid pc) = c)) = (\<lambda>_. 0::int)(p_ucred pc := 1)"
    using ne by (auto simp: fun_eq_iff)
  then have inv6: "cred_inv (\<lambda>_. 0) ((\<lambda>_. 0)(p_ucred pc := 1)) ?Z k6"
    using cred_inv_install [OF e5 p5] p5 by (simp add: k6)
  show "cred_inv (\<lambda>_. 0) (\<lambda>_. 0) ?Z (crfree (p_ucred pc) k6)"
    using cred_inv_crfree [OF inv6, of "p_ucred pc"] by simp
  have n6: "k_cred k6 n = Some ?cr" by (simp add: k6 k5')
  have "runs (crfree (p_ucred pc) k6) td p ((sugid pc)\<lparr>p_ucred := n\<rparr>) ?cr"
    using r p5 n6 crfree_other [of n "p_ucred pc" k6] ne by (auto simp: runs_def k6 frame_simps f5)
  then show "\<exists>pc' cr'. runs (crfree (p_ucred pc) k6) td p pc' cr' \<and> ids_of cr' = ids_of old \<and> cr_prison cr' = Some pr \<and>
      p_flag pc' = p_flag pc OR P_SUGID"
    by (intro exI [of _ "(sugid pc)\<lparr>p_ucred := n\<rparr>"] exI [of _ ?cr]) (simp add: ids_of_def sugid_flag)
  assume nj: "cr_prison old = None"
  have "k_prison k4 = k_prison k3"
    using nj full o3 d3 crcopy_eq [OF o3 d3] unfolding cred_full_def k4 k3_def [symmetric] by (auto simp: Let_def uihold_def)
  then have p5: "k_prison k5 = k_prison k1" by (simp add: k5' k3)
  have o6: "k_cred k6 (p_ucred pc) = Some old" using f5(3) [of "p_ucred pc"] ne o by (simp add: k6)
  have "k_prison (crfree (p_ucred pc) k6) = k_prison k6"
    using nj by (cases "cr_ref old = 1") (simp_all add: crfree_last [OF o6] crfree_more [OF o6] drop_pr_def drop_ui_def frame_simps split: option.split)
  then show "k_prison (crfree (p_ucred pc) k6) = k_prison k1" by (simp add: k6 p5)
qed

lemma jail_attach_denied: "suser k (the_thread k td) = Some e \<Longrightarrow> jail_attach cd td jid k = (Some e, k)"
  by (simp add: jail_attach_def)

text \<open>The outcome of jail_attach when the prison has a reference that is not the caller's to drop. A process
  whose cred is in a prison already leaves a reference to it behind, for cr_prison is overwritten.\<close>

lemma jail_attach_refs:
  assumes inv: "cred_inv (\<lambda>_. 0) (\<lambda>_. 0) Z k" and r: "runs k td p pc old"
  shows "cred_inv (\<lambda>_. 0) (\<lambda>_. 0) (\<lambda>a. Z a + (if fst (jail_attach cd td jid k) = None then pr_use a old else 0))
      (snd (jail_attach cd td jid k)) \<and>
    (fst (jail_attach cd td jid k) = None \<longrightarrow>
       (\<exists>pc' cr'. runs (snd (jail_attach cd td jid k)) td p pc' cr' \<and> cr_prison cr' = prison_find k jid)) \<and>
    (fst (jail_attach cd td jid k) \<noteq> None \<longrightarrow> snd (jail_attach cd td jid k) = k)"
proof (cases "suser k (the_thread k td) \<noteq> None \<or> prison_find k jid = None")
  case True
  then show ?thesis using inv by (auto simp: jail_attach_def split: option.splits)
next
  case False
  then obtain pr where su: "suser k (the_thread k td) = None" and f: "prison_find k jid = Some pr" by auto
  obtain q where q: "k_prison k pr = Some q" "pr_id q = jid" using prison_find_some [OF cred_invD(5) [OF inv] f] by blast
  define k1 where "k1 = put_prison pr (q\<lparr>pr_ref := pr_ref q + 1\<rparr>) k"
  have td: "td_proc (the_thread k td) = p" using r by (auto simp: runs_def)
  show ?thesis
  proof (cases cd)
    case (Some e)
    have "jail_attach cd td jid k = (Some e, put_prison pr ((the_prison k1 pr)\<lparr>pr_ref := pr_ref (the_prison k1 pr) - 1\<rparr>) k1)"
      using su f q Some by (simp add: jail_attach_def k1_def Let_def)
    moreover have "\<dots> = (Some e, k)" using q by (simp add: k1_def map_upd_triv)
    ultimately show ?thesis using inv by simp
  next
    case None
    obtain n k2 where c: "crget k1 = (n, k2)" by fastforce
    define k4 where "k4 = crcopy n (p_ucred pc) (setsugid p k2)"
    define k5 where "k5 = put_cred n ((the_cred k4 n)\<lparr>cr_prison := Some pr\<rparr>) k4"
    define k6 where "k6 = put_proc p ((the_proc k5 p)\<lparr>p_ucred := n\<rparr>) k5"
    have k2p: "the_proc k2 p = pc" using c r by (auto simp: crget_def k1_def runs_def)
    have run: "jail_attach cd td jid k = (None, crfree (p_ucred pc) k6)"
      using su f q None c k2p by (simp add: jail_attach_def td Let_def k1_def [symmetric] k4_def k5_def k6_def)
    have "0 < Z pr + pr_refs k pr" using balancedD_some [OF cred_invD(11) [OF inv] q(1)] by blast
    from cred_inv_prison_hold [OF inv this]
    have inv1: "cred_inv (\<lambda>_. 0) (\<lambda>_. 0) (Z(pr := Z pr + 1)) k1"
      using put_prison_hold [of k pr q] q by (simp add: k1_def)
    have Zp: "0 < (Z(pr := Z pr + 1)) pr" using cred_invD(8) [OF inv, of pr] by simp
    have r1: "runs k1 td p pc old" using r by (simp add: runs_def k1_def)
    note at = attach_cred [OF inv1 Zp r1 c k6_def k5_def k4_def]
    have "(\<lambda>a. (Z(pr := Z pr + 1)) a + pr_use a old - of_bool (a = pr)) = (\<lambda>a. Z a + pr_use a old)" by (auto simp: fun_eq_iff)
    then show ?thesis using at(1,2) f by (auto simp: run)
  qed
qed

lemma jail_attach_outcome:
  assumes inv: "cred_inv (\<lambda>_. 0) (\<lambda>_. 0) Z k" and r: "runs k td p pc old" and nj: "cr_prison old = None"
  shows "cred_inv (\<lambda>_. 0) (\<lambda>_. 0) Z (snd (jail_attach cd td jid k))"
    and "fst (jail_attach cd td jid k) = None \<Longrightarrow> \<exists>pr q pc' cr'. k_prison k pr = Some q \<and> pr_id q = jid \<and>
      runs (snd (jail_attach cd td jid k)) td p pc' cr' \<and> ids_of cr' = ids_of old \<and> cr_prison cr' = Some pr \<and>
      p_flag pc' = p_flag pc OR P_SUGID \<and> suser k (the_thread k td) = None \<and>
      k_prison (snd (jail_attach cd td jid k)) = (k_prison k)(pr \<mapsto> q\<lparr>pr_ref := pr_ref q + 1\<rparr>)"
    and "fst (jail_attach cd td jid k) \<noteq> None \<Longrightarrow> snd (jail_attach cd td jid k) = k"
proof -
  have pinv: "prison_inv k" using cred_invD(5) [OF inv] .
  have "cred_inv (\<lambda>_. 0) (\<lambda>_. 0) Z (snd (jail_attach cd td jid k)) \<and>
    (fst (jail_attach cd td jid k) = None \<longrightarrow> (\<exists>pr q pc' cr'. k_prison k pr = Some q \<and> pr_id q = jid \<and>
      runs (snd (jail_attach cd td jid k)) td p pc' cr' \<and> ids_of cr' = ids_of old \<and> cr_prison cr' = Some pr \<and>
      p_flag pc' = p_flag pc OR P_SUGID \<and> suser k (the_thread k td) = None \<and>
      k_prison (snd (jail_attach cd td jid k)) = (k_prison k)(pr \<mapsto> q\<lparr>pr_ref := pr_ref q + 1\<rparr>))) \<and>
    (fst (jail_attach cd td jid k) \<noteq> None \<longrightarrow> snd (jail_attach cd td jid k) = k)"
  proof (cases "suser k (the_thread k td) \<noteq> None \<or> prison_find k jid = None")
    case True
    then show ?thesis using inv by (auto simp: jail_attach_def split: option.splits)
  next
    case False
    then obtain pr where su: "suser k (the_thread k td) = None" and f: "prison_find k jid = Some pr" by auto
    obtain q where q: "k_prison k pr = Some q" "pr_id q = jid" using prison_find_some [OF pinv f] by blast
    define k1 where "k1 = put_prison pr (q\<lparr>pr_ref := pr_ref q + 1\<rparr>) k"
    have td: "td_proc (the_thread k td) = p" using r by (auto simp: runs_def)
    show ?thesis
    proof (cases cd)
      case (Some e)
      have "jail_attach cd td jid k = (Some e, put_prison pr ((the_prison k1 pr)\<lparr>pr_ref := pr_ref (the_prison k1 pr) - 1\<rparr>) k1)"
        using su f q Some by (simp add: jail_attach_def k1_def Let_def)
      moreover have "\<dots> = (Some e, k)" using q by (simp add: k1_def map_upd_triv)
      ultimately show ?thesis using inv by simp
    next
      case None
      obtain n k2 where c: "crget k1 = (n, k2)" by fastforce
      define k4 where "k4 = crcopy n (p_ucred pc) (setsugid p k2)"
      define k5 where "k5 = put_cred n ((the_cred k4 n)\<lparr>cr_prison := Some pr\<rparr>) k4"
      define k6 where "k6 = put_proc p ((the_proc k5 p)\<lparr>p_ucred := n\<rparr>) k5"
      have k2p: "the_proc k2 p = pc" using c r by (auto simp: crget_def k1_def runs_def)
      have run: "jail_attach cd td jid k = (None, crfree (p_ucred pc) k6)"
        using su f q None c k2p by (simp add: jail_attach_def td Let_def k1_def [symmetric] k4_def k5_def k6_def)
      have "0 < Z pr + pr_refs k pr" using balancedD_some [OF cred_invD(11) [OF inv] q(1)] by blast
      from cred_inv_prison_hold [OF inv this]
      have inv1: "cred_inv (\<lambda>_. 0) (\<lambda>_. 0) (Z(pr := Z pr + 1)) k1"
        using put_prison_hold [of k pr q] q by (simp add: k1_def)
      have Zp: "0 < (Z(pr := Z pr + 1)) pr" using cred_invD(8) [OF inv, of pr] by simp
      have r1: "runs k1 td p pc old" using r by (simp add: runs_def k1_def)
      note at = attach_cred [OF inv1 Zp r1 c k6_def k5_def k4_def]
      have z: "(\<lambda>a. (Z(pr := Z pr + 1)) a + pr_use a old - of_bool (a = pr)) = Z" using nj by (auto simp: fun_eq_iff pr_use_def)
      have "cred_inv (\<lambda>_. 0) (\<lambda>_. 0) Z (crfree (p_ucred pc) k6)" using at(1) unfolding z .
      moreover have "k_prison (crfree (p_ucred pc) k6) = (k_prison k)(pr \<mapsto> q\<lparr>pr_ref := pr_ref q + 1\<rparr>)"
        using at(3) [OF nj] by (simp add: k1_def)
      ultimately show ?thesis using at(2) q su by (auto simp: run)
    qed
  qed
  then show "cred_inv (\<lambda>_. 0) (\<lambda>_. 0) Z (snd (jail_attach cd td jid k))"
    and "fst (jail_attach cd td jid k) = None \<Longrightarrow> \<exists>pr q pc' cr'. k_prison k pr = Some q \<and> pr_id q = jid \<and>
      runs (snd (jail_attach cd td jid k)) td p pc' cr' \<and> ids_of cr' = ids_of old \<and> cr_prison cr' = Some pr \<and>
      p_flag pc' = p_flag pc OR P_SUGID \<and> suser k (the_thread k td) = None \<and>
      k_prison (snd (jail_attach cd td jid k)) = (k_prison k)(pr \<mapsto> q\<lparr>pr_ref := pr_ref q + 1\<rparr>)"
    and "fst (jail_attach cd td jid k) \<noteq> None \<Longrightarrow> snd (jail_attach cd td jid k) = k"
    by blast+
qed

section \<open>jail\<close>

lemma jail_pick_prid_new:
  assumes p: "prison_inv k" and j: "jail_pick_prid k = Some i" and a: "k_prison k a = Some pr"
  shows "pr_id pr \<noteq> i"
proof -
  have "a \<in> set (k_allprison k)" using p a by (auto simp: prison_inv_def)
  then show ?thesis using jail_next_prid_free j a unfolding jail_pick_prid_def Let_def by (force split: if_splits)
qed

text \<open>The ways jail can end: before the prison is on the list, or after jail_attach.\<close>

definition new_prison :: "ptr \<Rightarrow> prison \<Rightarrow> kern \<Rightarrow> kern" where
  "new_prison a q k = (put_prison a q k)\<lparr>k_lastprid := pr_id q, k_allprison := a # k_allprison k, k_prisoncount := k_prisoncount k + 1\<rparr>"

lemma jail_cases:
  obtains e where "jail ci namei cd td k = (Inl e, k)"
  | e where "jail ci namei cd td k = (Inl e, k\<lparr>k_brk := k_brk k + 1\<rparr>)"
  | q where "jail_pick_prid k = Some (pr_id q)" and "pr_ref q = 1"
    and "jail ci namei cd td k =
      (case jail_attach cd td (pr_id q) (new_prison (k_brk k) q (k\<lparr>k_brk := k_brk k + 1\<rparr>)) of
         (None, k4) \<Rightarrow> (Inr (pr_id q), put_prison (k_brk k) ((the_prison k4 (k_brk k))\<lparr>pr_ref := pr_ref (the_prison k4 (k_brk k)) - 1\<rparr>) k4)
       | (Some e, k4) \<Rightarrow> (Inl e, k4\<lparr>k_allprison := remove1 (k_brk k) (k_allprison k4), k_prisoncount := k_prisoncount k4 - 1,
                                   k_prison := (k_prison k4)(k_brk k := None)\<rparr>))"
proof -
  define k1 where "k1 = k\<lparr>k_brk := k_brk k + 1\<rparr>"
  have pick: "jail_pick_prid k1 = jail_pick_prid k" by (simp add: jail_pick_prid_def k1_def)
  consider (a) "\<exists>e. jail ci namei cd td k = (Inl e, k)" | (b) "\<exists>e. jail ci namei cd td k = (Inl e, k1)"
    | (c) j path root host jid where "ci = Inr j" "j_version j = 0" "j_path j = Inr path" "namei path = Inr root" "j_hostname j = Inr host"
      "jail_pick_prid k1 = Some jid"
  proof (cases ci)
    case (Inl e)
    then show ?thesis by (intro a) (simp add: jail_def)
  next
    case (Inr j)
    show ?thesis
    proof (cases "j_version j = 0")
      case False
      then show ?thesis using Inr by (intro a) (simp add: jail_def)
    next
      case True
      note i = Inr True
      show ?thesis
      proof (cases "j_path j")
        case (Inl e)
        then show ?thesis using i by (intro b) (simp add: jail_def Let_def k1_def)
      next
        case (Inr path)
        note i = i Inr
        show ?thesis
        proof (cases "namei path")
          case (Inl e)
          then show ?thesis using i by (intro b) (simp add: jail_def Let_def k1_def)
        next
          case (Inr root)
          note i = i Inr
          show ?thesis
          proof (cases "j_hostname j")
            case (Inl e)
            then show ?thesis using i by (intro b) (simp add: jail_def Let_def k1_def)
          next
            case (Inr host)
            note i = i Inr
            show ?thesis
            proof (cases "jail_pick_prid k1")
              case None
              then show ?thesis using i by (intro b) (simp add: jail_def Let_def k1_def)
            next
              case (Some jid)
              then show ?thesis using i c by blast
            qed
          qed
        qed
      qed
    qed
  qed
  then show thesis
  proof cases
    case a
    then show ?thesis using that(1) by blast
  next
    case b
    then show ?thesis using that(2) by (auto simp: k1_def)
  next
    case (c j path root host jid)
    define q where "q = \<lparr>pr_id = jid, pr_ref = 1, pr_path = path, pr_root = root, pr_host = host,
       pr_ip = j_ip_number j, pr_linux = None, pr_securelevel = securelevel k1\<rparr>"
    have qid: "pr_id q = jid" by (simp add: q_def)
    show ?thesis
    proof (rule that(3) [of q])
      show "jail_pick_prid k = Some (pr_id q)" using c(6) pick by (simp add: q_def)
      show "pr_ref q = 1" by (simp add: q_def)
      show "jail ci namei cd td k =
        (case jail_attach cd td (pr_id q) (new_prison (k_brk k) q (k\<lparr>k_brk := k_brk k + 1\<rparr>)) of
           (None, k4) \<Rightarrow> (Inr (pr_id q), put_prison (k_brk k) ((the_prison k4 (k_brk k))\<lparr>pr_ref := pr_ref (the_prison k4 (k_brk k)) - 1\<rparr>) k4)
         | (Some e, k4) \<Rightarrow> (Inl e, k4\<lparr>k_allprison := remove1 (k_brk k) (k_allprison k4), k_prisoncount := k_prisoncount k4 - 1,
                                     k_prison := (k_prison k4)(k_brk k := None)\<rparr>))"
        unfolding qid using c(1-5) c(6) [unfolded k1_def] by (simp add: q_def jail_def Let_def k1_def new_prison_def)
    qed
  qed
qed

lemma jail_outcome:
  assumes inv: "cred_inv0 k" and r: "runs k td p pc old" and nj: "cr_prison old = None"
  shows "cred_inv0 (snd (jail ci namei cd td k)) \<and>
    (case fst (jail ci namei cd td k) of
       Inr jid \<Rightarrow> \<exists>pc' cr' pr q. runs (snd (jail ci namei cd td k)) td p pc' cr' \<and>
         ids_of cr' = ids_of old \<and> cr_prison cr' = Some pr \<and> k_prison k pr = None \<and>
         k_prison (snd (jail ci namei cd td k)) = (k_prison k)(pr \<mapsto> q) \<and> pr_id q = jid \<and> pr_ref q = 1 \<and>
         (\<forall>a x. k_prison k a = Some x \<longrightarrow> pr_id x \<noteq> jid) \<and> suser k (the_thread k td) = None
     | Inl e \<Rightarrow> k_prison (snd (jail ci namei cd td k)) = k_prison k \<and>
         k_allprison (snd (jail ci namei cd td k)) = k_allprison k \<and> k_cred (snd (jail ci namei cd td k)) = k_cred k \<and>
         k_proc (snd (jail ci namei cd td k)) = k_proc k)"
proof (rule jail_cases [of ci namei cd td k])
  fix e assume "jail ci namei cd td k = (Inl e, k)"
  then show ?thesis using inv by simp
next
  fix e assume "jail ci namei cd td k = (Inl e, k\<lparr>k_brk := k_brk k + 1\<rparr>)"
  then show ?thesis using cred_inv_brk [OF inv] by simp
next
  fix q assume pick: "jail_pick_prid k = Some (pr_id q)" and ref: "pr_ref q = 1"
    and run: "jail ci namei cd td k =
      (case jail_attach cd td (pr_id q) (new_prison (k_brk k) q (k\<lparr>k_brk := k_brk k + 1\<rparr>)) of
         (None, k4) \<Rightarrow> (Inr (pr_id q), put_prison (k_brk k) ((the_prison k4 (k_brk k))\<lparr>pr_ref := pr_ref (the_prison k4 (k_brk k)) - 1\<rparr>) k4)
       | (Some e, k4) \<Rightarrow> (Inl e, k4\<lparr>k_allprison := remove1 (k_brk k) (k_allprison k4), k_prisoncount := k_prisoncount k4 - 1,
                                   k_prison := (k_prison k4)(k_brk k := None)\<rparr>))"
  define a where "a = k_brk k"
  define k1 where "k1 = k\<lparr>k_brk := k_brk k + 1\<rparr>"
  define k3 where "k3 = new_prison a q k1"
  have inv1: "cred_inv0 k1" unfolding k1_def by (rule cred_inv_brk [OF inv])
  have pi: "prison_inv k" using cred_invD(5) [OF inv] .
  have new: "k_prison k1 a = None" using prison_fresh_brk [OF inv] by (simp add: k1_def a_def)
  have uniq: "pr_id x \<noteq> pr_id q" if "k_prison k1 b = Some x" for b x
    using jail_pick_prid_new [OF pi pick] that by (simp add: k1_def)
  have k3: "k3 = k1\<lparr>k_prison := (k_prison k1)(a \<mapsto> q), k_lastprid := pr_id q, k_allprison := a # k_allprison k1, k_prisoncount := k_prisoncount k1 + 1\<rparr>"
    by (simp add: k3_def new_prison_def)
  have inv3: "cred_inv (\<lambda>_. 0) (\<lambda>_. 0) ((\<lambda>_. 0)(a := 1)) k3"
    using cred_inv_new_prison [OF inv1 new _ ref uniq k3] by (simp add: k1_def a_def)
  have r3: "runs k3 td p pc old" using r by (simp add: runs_def k3 k1_def)
  note out = jail_attach_outcome [OF inv3 r3 nj, of cd "pr_id q"]
  obtain e k4 where at: "jail_attach cd td (pr_id q) k3 = (e, k4)" by fastforce
  have run': "jail ci namei cd td k =
      (case e of None \<Rightarrow> (Inr (pr_id q), put_prison a ((the_prison k4 a)\<lparr>pr_ref := pr_ref (the_prison k4 a) - 1\<rparr>) k4)
       | Some e \<Rightarrow> (Inl e, k4\<lparr>k_allprison := remove1 a (k_allprison k4), k_prisoncount := k_prisoncount k4 - 1, k_prison := (k_prison k4)(a := None)\<rparr>))"
    using run at by (cases e) (simp_all add: k3_def k1_def a_def)
  have inv4: "cred_inv (\<lambda>_. 0) (\<lambda>_. 0) ((\<lambda>_. 0)(a := 1)) k4" using out(1) at by simp
  note free = cred_inv_prison_free [OF inv4, of a]
  show ?thesis
  proof (cases e)
    case (Some x)
    then have k4: "k4 = k3" using out(3) at by simp
    have "prison_free a k4 = k4\<lparr>k_allprison := remove1 a (k_allprison k4), k_prisoncount := k_prisoncount k4 - 1, k_prison := (k_prison k4)(a := None)\<rparr>"
      using ref by (simp add: prison_free_def k4 k3)
    then have "snd (jail ci namei cd td k) = prison_free a k4" "fst (jail ci namei cd td k) = Inl x"
      using run' Some by simp_all
    moreover have "cred_inv0 (prison_free a k4)" using free by simp
    moreover have "k_prison (prison_free a k4) = k_prison k" "k_allprison (prison_free a k4) = k_allprison k"
      using ref new by (simp_all add: prison_free_def k4 k3 k1_def fun_upd_idem)
    moreover have "k_cred (prison_free a k4) = k_cred k" "k_proc (prison_free a k4) = k_proc k"
      by (simp_all add: frame_simps k4 k3 k1_def)
    ultimately show ?thesis by simp
  next
    case None
    obtain pr q' pc' cr' where o: "k_prison k3 pr = Some q'" "pr_id q' = pr_id q" "runs k4 td p pc' cr'" "ids_of cr' = ids_of old"
      "cr_prison cr' = Some pr" "suser k3 (the_thread k3 td) = None" "k_prison k4 = (k_prison k3)(pr \<mapsto> q'\<lparr>pr_ref := pr_ref q' + 1\<rparr>)"
      using out(2) at None by auto
    have pr: "pr = a"
    proof (rule ccontr)
      assume "pr \<noteq> a"
      then show False using uniq [of pr q'] o(1,2) by (simp add: k3)
    qed
    then have q': "q' = q" using o(1) by (simp add: k3)
    have k4a: "k_prison k4 a = Some (q\<lparr>pr_ref := 2\<rparr>)" using o(7) pr q' ref by simp
    have "prison_free a k4 = put_prison a (q\<lparr>pr_ref := 1\<rparr>) k4" using k4a by (simp add: prison_free_def)
    moreover have "put_prison a ((the_prison k4 a)\<lparr>pr_ref := pr_ref (the_prison k4 a) - 1\<rparr>) k4 = put_prison a (q\<lparr>pr_ref := 1\<rparr>) k4"
      using k4a by simp
    ultimately have res: "jail ci namei cd td k = (Inr (pr_id q), prison_free a k4)" using run' None by simp
    have kp: "k_prison (prison_free a k4) = (k_prison k)(a \<mapsto> q)"
      using k4a o(7) pr ref by (simp add: prison_free_def k3 k1_def fun_eq_iff)
    have rr: "runs (prison_free a k4) td p pc' cr'" using o(3) by (simp add: runs_def frame_simps)
    have su: "suser k (the_thread k td) = None" using o(6) by (simp add: suser_def suser_cred_def k3 k1_def)
    have "\<forall>b x. k_prison k b = Some x \<longrightarrow> pr_id x \<noteq> pr_id q" using jail_pick_prid_new [OF pi pick] by blast
    moreover have "k_prison k a = None" using new by (simp add: k1_def)
    ultimately show ?thesis using res free kp rr su o(4,5) pr ref by auto
  qed
qed

text \<open>The references that remain when a process whose cred is in a prison enters another: one to the old prison.\<close>

definition jail_left :: "ucred \<Rightarrow> bool \<Rightarrow> ptr \<Rightarrow> int" where
  "jail_left old ok a = of_bool (ok \<and> cr_prison old = Some a)"

lemma jail_left_no [simp]: "jail_left old False = (\<lambda>_. 0)"
  by (simp add: jail_left_def fun_eq_iff)

lemma jail_refs:
  assumes inv: "cred_inv0 k" and r: "runs k td p pc old"
  shows "cred_inv (\<lambda>_. 0) (\<lambda>_. 0) (jail_left old (\<not> isl (fst (jail ci namei cd td k)))) (snd (jail ci namei cd td k))"
proof (rule jail_cases [of ci namei cd td k])
  fix e assume "jail ci namei cd td k = (Inl e, k)"
  then show ?thesis using inv by (simp add: jail_left_def)
next
  fix e assume "jail ci namei cd td k = (Inl e, k\<lparr>k_brk := k_brk k + 1\<rparr>)"
  then show ?thesis using cred_inv_brk [OF inv] by (simp add: jail_left_def)
next
  fix q assume pick: "jail_pick_prid k = Some (pr_id q)" and ref: "pr_ref q = 1"
    and run: "jail ci namei cd td k =
      (case jail_attach cd td (pr_id q) (new_prison (k_brk k) q (k\<lparr>k_brk := k_brk k + 1\<rparr>)) of
         (None, k4) \<Rightarrow> (Inr (pr_id q), put_prison (k_brk k) ((the_prison k4 (k_brk k))\<lparr>pr_ref := pr_ref (the_prison k4 (k_brk k)) - 1\<rparr>) k4)
       | (Some e, k4) \<Rightarrow> (Inl e, k4\<lparr>k_allprison := remove1 (k_brk k) (k_allprison k4), k_prisoncount := k_prisoncount k4 - 1,
                                   k_prison := (k_prison k4)(k_brk k := None)\<rparr>))"
  define a where "a = k_brk k"
  define k1 where "k1 = k\<lparr>k_brk := k_brk k + 1\<rparr>"
  define k3 where "k3 = new_prison a q k1"
  have inv1: "cred_inv0 k1" unfolding k1_def by (rule cred_inv_brk [OF inv])
  have new: "k_prison k1 a = None" using prison_fresh_brk [OF inv] by (simp add: k1_def a_def)
  have uniq: "pr_id x \<noteq> pr_id q" if "k_prison k1 b = Some x" for b x
    using jail_pick_prid_new [OF cred_invD(5) [OF inv] pick] that by (simp add: k1_def)
  have k3: "k3 = k1\<lparr>k_prison := (k_prison k1)(a \<mapsto> q), k_lastprid := pr_id q, k_allprison := a # k_allprison k1, k_prisoncount := k_prisoncount k1 + 1\<rparr>"
    by (simp add: k3_def new_prison_def)
  have inv3: "cred_inv (\<lambda>_. 0) (\<lambda>_. 0) ((\<lambda>_. 0)(a := 1)) k3"
    using cred_inv_new_prison [OF inv1 new _ ref uniq k3] by (simp add: k1_def a_def)
  have r3: "runs k3 td p pc old" using r by (simp add: runs_def k3 k1_def)
  obtain e k4 where at: "jail_attach cd td (pr_id q) k3 = (e, k4)" by fastforce
  note out = jail_attach_refs [OF inv3 r3, of cd "pr_id q", unfolded at fst_conv snd_conv]
  have run': "jail ci namei cd td k =
      (case e of None \<Rightarrow> (Inr (pr_id q), put_prison a ((the_prison k4 a)\<lparr>pr_ref := pr_ref (the_prison k4 a) - 1\<rparr>) k4)
       | Some e \<Rightarrow> (Inl e, k4\<lparr>k_allprison := remove1 a (k_allprison k4), k_prisoncount := k_prisoncount k4 - 1, k_prison := (k_prison k4)(a := None)\<rparr>))"
    using run at by (cases e) (simp_all add: k3_def k1_def a_def)
  let ?Z = "\<lambda>b. ((\<lambda>_. 0)(a := 1)) b + (if e = None then pr_use b old else 0) :: int"
  have inv4: "cred_inv (\<lambda>_. 0) (\<lambda>_. 0) ?Z k4" using out by blast
  have Za: "0 < ?Z a" by (simp add: pr_use_def)
  have free: "cred_inv (\<lambda>_. 0) (\<lambda>_. 0) (?Z(a := ?Z a - 1)) (prison_free a k4)" by (rule cred_inv_prison_free [OF inv4 Za])
  have left: "?Z(a := ?Z a - 1) = jail_left old (e = None)" by (auto simp: fun_eq_iff jail_left_def pr_use_def)
  show ?thesis
  proof (cases e)
    case (Some x)
    then have k4: "k4 = k3" using out by blast
    have "prison_free a k4 = k4\<lparr>k_allprison := remove1 a (k_allprison k4), k_prisoncount := k_prisoncount k4 - 1, k_prison := (k_prison k4)(a := None)\<rparr>"
      using ref by (simp add: prison_free_def k4 k3)
    then show ?thesis using free run' Some unfolding left by simp
  next
    case None
    have "prison_find k3 (pr_id q) = Some a" by (simp add: prison_find_def k3)
    then obtain pc' cr' where rr: "runs k4 td p pc' cr'" "cr_prison cr' = Some a" using out None by auto
    have fin: "finite (dom (k_cred k4))" by (rule brk_finite(2) [OF cred_invD(1) [OF inv4]])
    have c: "k_cred k4 (p_ucred pc') = Some cr'" using rr(1) by (simp add: runs_def)
    have "pr_use a cr' \<le> pr_refs k4 a" unfolding pr_refs_def by (rule msum_member_le [OF fin c]) (simp add: pr_use_def)
    then have use1: "1 \<le> pr_refs k4 a" using rr(2) by (simp add: pr_use_def)
    have two: "2 \<le> ?Z a + pr_refs k4 a" using use1 by (simp add: pr_use_def)
    then obtain x where x: "k_prison k4 a = Some x" using balancedD_live [OF cred_invD(11) [OF inv4], of a] by auto
    have "pr_ref x = ?Z a + pr_refs k4 a" using balancedD_some [OF cred_invD(11) [OF inv4] x] by simp
    then have "prison_free a k4 = put_prison a ((the_prison k4 a)\<lparr>pr_ref := pr_ref (the_prison k4 a) - 1\<rparr>) k4"
      using two x by (simp add: prison_free_def)
    then show ?thesis using free run' None unfolding left by simp
  qed
qed

text \<open>The same kernel with its cred in prison 0, whose id is 1.\<close>

definition jailed_kern :: "uid \<Rightarrow> kern" where
  "jailed_kern u = (boot_kern u)\<lparr>k_cred := [2 \<mapsto> (boot_cred u)\<lparr>cr_prison := Some 0\<rparr>],
     k_prison := [0 \<mapsto> \<lparr>pr_id = 1, pr_ref = 1, pr_path = ''/'', pr_root = 7, pr_host = ''j'', pr_ip = 5, pr_linux = None,
        pr_securelevel = -1\<rparr>],
     k_allprison := [0], k_lastprid := 1, k_prisoncount := 1\<rparr>"

lemma jailed_refs:
  "ui_refs (jailed_kern u) a = (if a = 1 then 2 else 0)"
  "cr_refs (jailed_kern u) c = (if c = 2 then 3 else 0)"
  "pr_refs (jailed_kern u) a = (if a = 0 then 1 else 0)"
  by (auto simp: ui_refs_def cr_refs_def pr_refs_def msum_def jailed_kern_def boot_kern_def boot_cred_def boot_proc_def
      ui_use_def pr_use_def zero_cred_def)

lemma jailed_inv: "cred_inv0 (jailed_kern u)"
proof (rule cred_invI)
  show "balanced k_ui ui_ref (\<lambda>a. 0 + ui_refs (jailed_kern u) a) (jailed_kern u)"
    by (simp add: balanced_def jailed_refs) (simp add: jailed_kern_def boot_kern_def)
  show "balanced k_cred cr_ref (\<lambda>c. 0 + cr_refs (jailed_kern u) c) (jailed_kern u)"
    by (simp add: balanced_def jailed_refs) (simp add: jailed_kern_def boot_kern_def boot_cred_def)
  show "balanced k_prison pr_ref (\<lambda>a. 0 + pr_refs (jailed_kern u) a) (jailed_kern u)"
    by (simp add: balanced_def jailed_refs) (simp add: jailed_kern_def boot_kern_def)
qed (auto simp: jailed_kern_def boot_kern_def brk_inv_def uihash_inv_def UIHASH_def prison_inv_def cred_ok_def boot_cred_def
      zero_cred_def NGROUPS_def cred_full_def split: if_splits)

text \<open>The search for an id does not wrap: with the last id given out just below the end and the one prison that
  holds the highest id, no id is found, although all the others are free.\<close>

lemma jail_ids_do_not_wrap:
  "jail_pick_prid (k\<lparr>k_lastprid := JAIL_MAX - 2, k_allprison := [a],
     k_prison := [a \<mapsto> pr\<lparr>pr_id := JAIL_MAX - 1\<rparr>]\<rparr>) = None"
  by (simp add: jail_pick_prid_def Let_def JAIL_MAX_def jail_next_prid.simps)

section \<open>The properties\<close>

text \<open>C17: jail and jail_attach keep the account of references exact on every path: the count of each prison is the
  number of creds in it, the list and the number of prisons agree, ids are unique, and a failed call leaves no
  prison behind. There is one exception, which jail_left writes out: a call that succeeds for a process
  whose cred is in a prison already, while the cred of the calling thread is not, so that suser lets it pass, leaves one
  reference to the old prison that nobody holds. For a process outside every prison jail_left is 0 and the account is exact.\<close>

theorem jail_calls_refs:
  assumes "cred_inv0 k" and "runs k td p pc old"
  shows "cred_inv (\<lambda>_. 0) (\<lambda>_. 0) (jail_left old (\<not> isl (fst (jail ci namei cd td k)))) (snd (jail ci namei cd td k)) \<and>
    cred_inv (\<lambda>_. 0) (\<lambda>_. 0) (jail_left old (fst (jail_attach cd td jid k) = None)) (snd (jail_attach cd td jid k))"
proof -
  have "(\<lambda>a. 0 + (if fst (jail_attach cd td jid k) = None then pr_use a old else 0)) = jail_left old (fst (jail_attach cd td jid k) = None)"
    by (auto simp: fun_eq_iff jail_left_def pr_use_def)
  then show ?thesis using jail_attach_refs [OF assms, of cd jid] jail_refs [OF assms, of ci namei cd] by simp
qed

lemma not_jailed_left: "cr_prison old = None \<Longrightarrow> jail_left old ok = (\<lambda>_. 0)"
  by (simp add: jail_left_def fun_eq_iff)

text \<open>The exception happens: another thread has moved the process into prison 1 since this one took its cred.\<close>

definition stale_kern :: kern where
  "stale_kern = (jailed_kern 0)\<lparr>k_brk := 4, k_ui := [1 \<mapsto> \<lparr>ui_sbsize = 0, ui_proccnt = 2, ui_uid = 0, ui_ref = 4\<rparr>],
     k_cred := [2 \<mapsto> (boot_cred 0)\<lparr>cr_prison := Some 0, cr_ref := 2\<rparr>, 3 \<mapsto> (boot_cred 0)\<lparr>cr_ref := 1\<rparr>],
     k_thread := [20 \<mapsto> \<lparr>td_proc = 10, td_ucred = Some 3\<rparr>, 21 \<mapsto> \<lparr>td_proc = 11, td_ucred = None\<rparr>]\<rparr>"

lemma stale_refs:
  "ui_refs stale_kern a = (if a = 1 then 4 else 0)"
  "cr_refs stale_kern c = (if c = 2 then 2 else if c = 3 then 1 else 0)"
  "pr_refs stale_kern a = (if a = 0 then 1 else 0)"
  by (auto simp: ui_refs_def cr_refs_def pr_refs_def msum_def stale_kern_def jailed_kern_def boot_kern_def boot_cred_def boot_proc_def
      ui_use_def pr_use_def zero_cred_def)

lemma stale_inv: "cred_inv0 stale_kern"
proof (rule cred_invI)
  show "balanced k_ui ui_ref (\<lambda>a. 0 + ui_refs stale_kern a) stale_kern"
    by (simp add: balanced_def stale_refs) (simp add: stale_kern_def jailed_kern_def boot_kern_def)
  show "balanced k_cred cr_ref (\<lambda>c. 0 + cr_refs stale_kern c) stale_kern"
    by (simp add: balanced_def stale_refs) (simp add: stale_kern_def jailed_kern_def boot_kern_def boot_cred_def)
  show "balanced k_prison pr_ref (\<lambda>a. 0 + pr_refs stale_kern a) stale_kern"
    by (simp add: balanced_def stale_refs) (simp add: stale_kern_def jailed_kern_def boot_kern_def)
qed (auto simp: stale_kern_def jailed_kern_def boot_kern_def brk_inv_def uihash_inv_def UIHASH_def prison_inv_def cred_ok_def boot_cred_def
      zero_cred_def NGROUPS_def cred_full_def split: if_splits)

lemma jail_attach_leaks:
  "runs stale_kern 20 10 (boot_proc 1) ((boot_cred 0)\<lparr>cr_prison := Some 0, cr_ref := 2\<rparr>) \<and>
   fst (jail_attach None 20 1 stale_kern) = None \<and> jail_left ((boot_cred 0)\<lparr>cr_prison := Some 0, cr_ref := 2\<rparr>) True 0 = 1"
  by (simp add: stale_kern_def jailed_kern_def boot_kern_def boot_cred_def zero_cred_def jail_attach_def suser_def suser_cred_def
      prison_find_def jailed_def Let_def jail_left_def split_beta runs_def boot_proc_def)

theorem jail_calls_refs_witness:
  "cred_inv0 (snd (jail (Inr \<lparr>j_version = 0, j_path = Inr ''/'', j_hostname = Inr ''j'', j_ip_number = 5\<rparr>) (\<lambda>_. Inr 7) None 20 (boot_kern 0)))"
  using jail_calls_refs [OF boot_inv boot_runs(1)] by (simp add: not_jailed_left boot_cred_def zero_cred_def)

text \<open>A successful jail puts the caller, with its ids unchanged, in a new prison that holds nobody else and
  whose id is below JAIL_MAX and no other prison's; a failed jail changes no prison, cred or process.\<close>

theorem jail_creates:
  assumes "cred_inv0 k" and "runs k td p pc old" and "cr_prison old = None" and "k_lastprid k + 1 \<le> JAIL_MAX"
  shows "case fst (jail ci namei cd td k) of
       Inr jid \<Rightarrow> \<exists>pc' cr' pr q. runs (snd (jail ci namei cd td k)) td p pc' cr' \<and>
         ids_of cr' = ids_of old \<and> cr_prison cr' = Some pr \<and> k_prison k pr = None \<and>
         k_prison (snd (jail ci namei cd td k)) = (k_prison k)(pr \<mapsto> q) \<and> pr_id q = jid \<and> pr_ref q = 1 \<and> jid < JAIL_MAX \<and>
         (\<forall>a x. k_prison k a = Some x \<longrightarrow> pr_id x \<noteq> jid)
     | Inl e \<Rightarrow> k_prison (snd (jail ci namei cd td k)) = k_prison k \<and>
         k_allprison (snd (jail ci namei cd td k)) = k_allprison k \<and> k_cred (snd (jail ci namei cd td k)) = k_cred k \<and>
         k_proc (snd (jail ci namei cd td k)) = k_proc k"
proof -
  have bound: "jid < JAIL_MAX" if "fst (jail ci namei cd td k) = Inr jid" for jid
  proof (rule jail_cases [of ci namei cd td k])
    fix q assume "jail_pick_prid k = Some (pr_id q)"
      and "jail ci namei cd td k =
      (case jail_attach cd td (pr_id q) (new_prison (k_brk k) q (k\<lparr>k_brk := k_brk k + 1\<rparr>)) of
         (None, k4) \<Rightarrow> (Inr (pr_id q), put_prison (k_brk k) ((the_prison k4 (k_brk k))\<lparr>pr_ref := pr_ref (the_prison k4 (k_brk k)) - 1\<rparr>) k4)
       | (Some e, k4) \<Rightarrow> (Inl e, k4\<lparr>k_allprison := remove1 (k_brk k) (k_allprison k4), k_prisoncount := k_prisoncount k4 - 1,
                                   k_prison := (k_prison k4)(k_brk k := None)\<rparr>))"
    then have "jail_pick_prid k = Some jid" using that by (auto split: prod.splits option.splits)
    moreover have "(if k_lastprid k + 1 = JAIL_MAX then 1 else k_lastprid k + 1) < JAIL_MAX"
      using assms(4) by (simp add: JAIL_MAX_def)
    ultimately show ?thesis using jail_next_prid_bound unfolding jail_pick_prid_def Let_def by blast
  qed (use that in auto)
  show ?thesis
    using jail_outcome [OF assms(1-3), of ci namei cd] bound by (auto split: sum.splits)
qed

lemma boot_jail: "fst (jail (Inr \<lparr>j_version = 0, j_path = Inr ''/'', j_hostname = Inr ''j'', j_ip_number = 5\<rparr>) (\<lambda>_. Inr 7) None 20 (boot_kern 0)) = Inr 1"
  by (simp add: jail_def Let_def jail_pick_prid_def jail_next_prid.simps boot_kern_def JAIL_MAX_def jail_attach_def suser_def suser_cred_def
      boot_cred_def zero_cred_def jailed_def prison_find_def crget_def)

theorem jail_creates_witness:
  "\<exists>pc cr pr. runs (snd (jail (Inr \<lparr>j_version = 0, j_path = Inr ''/'', j_hostname = Inr ''j'', j_ip_number = 5\<rparr>) (\<lambda>_. Inr 7) None 20 (boot_kern 0))) 20 10 pc cr \<and> cr_prison cr = Some pr"
  using jail_creates [OF boot_inv boot_runs(1), of 0 "Inr \<lparr>j_version = 0, j_path = Inr ''/'', j_hostname = Inr ''j'', j_ip_number = 5\<rparr>" "\<lambda>_. Inr 7" None] boot_jail
  by (simp add: boot_cred_def zero_cred_def) (auto simp: boot_kern_def JAIL_MAX_def)

text \<open>A thread whose cred is jailed cannot create or enter a jail, root or not: jail_attach fails with EPERM
  before it changes anything, and jail fails leaving every prison, cred and process as it was.\<close>

theorem jailed_cannot_attach:
  assumes "cred_inv0 k" and "td_ucred (the_thread k td) = Some c" and "k_cred k c = Some cr" and "cr_prison cr \<noteq> None"
  shows "jail_attach cd td jid k = (Some EPERM, k) \<and> (\<exists>e. fst (jail ci namei cd td k) = Inl e) \<and>
    k_prison (snd (jail ci namei cd td k)) = k_prison k \<and> k_allprison (snd (jail ci namei cd td k)) = k_allprison k \<and>
    k_cred (snd (jail ci namei cd td k)) = k_cred k \<and> k_proc (snd (jail ci namei cd td k)) = k_proc k"
proof -
  have su: "suser k' (the_thread k' td) = Some EPERM" if "k_thread k' = k_thread k" "k_cred k' = k_cred k" for k'
    using assms(2-4) that by (simp add: suser_def suser_cred_def jailed_def)
  have at: "jail_attach cd td i k' = (Some EPERM, k')" if "k_thread k' = k_thread k" "k_cred k' = k_cred k" for k' i
    using jail_attach_denied [OF su [OF that]] .
  have new: "k_prison k (k_brk k) = None" using brk_fresh(3) [OF cred_invD(1) [OF assms(1)]] .
  have "(\<exists>e. fst (jail ci namei cd td k) = Inl e) \<and>
    k_prison (snd (jail ci namei cd td k)) = k_prison k \<and> k_allprison (snd (jail ci namei cd td k)) = k_allprison k \<and>
    k_cred (snd (jail ci namei cd td k)) = k_cred k \<and> k_proc (snd (jail ci namei cd td k)) = k_proc k"
    by (rule jail_cases [of ci namei cd td k]) (simp_all add: at new_prison_def fun_upd_idem new)
  then show ?thesis using at by simp
qed

theorem jailed_cannot_attach_witness:
  "jail_attach None 20 1 (jailed_kern 0) = (Some EPERM, jailed_kern 0)"
  using jailed_cannot_attach [OF jailed_inv, of 0 20 2] by (simp add: jailed_kern_def boot_kern_def)

end
