(* ===== verification/Bpf_Filter.thy ===== *)
theory Bpf_Filter
  imports Kern_Prelude
begin

text \<open>
  The packet filter machine of net/bpf_filter.c: the word and halfword reads from an mbuf chain, one step of
  the interpreter, the interpreter itself and the validator. A packet is one buffer, or a chain of mbufs (the
  first and the rest, each the bytes of its data) when buflen is 0. The program counter is a pointer of 32 bits
  that wraps, so a program that is not validated may loop, and the interpreter is a partial function. What the
  C code leaves undefined is a fault of the step: an instruction outside the program, a read outside the data, scratch memory
  outside the array or not yet written, a division by zero, a shift by the width or more.
\<close>

section \<open>Data\<close>

type_synonym byte = "8 word"

record bpf_insn =
  icode :: "16 word"
  jt :: byte
  jf :: byte
  ik :: u32

datatype packet = Buf "byte list" | Chain "byte list" "byte list list"

datatype fault = BadPc | BadRead | BadMem | Uninit | DivZero | BadShift

text \<open>The result of a read from a chain: the value, the error flag set, or an access outside the data.\<close>

datatype 'a fetch = Fetched 'a | Merr | Outside

abbreviation BPF_LD :: "16 word" where "BPF_LD \<equiv> 0x00"
abbreviation BPF_LDX :: "16 word" where "BPF_LDX \<equiv> 0x01"
abbreviation BPF_ST :: "16 word" where "BPF_ST \<equiv> 0x02"
abbreviation BPF_STX :: "16 word" where "BPF_STX \<equiv> 0x03"
abbreviation BPF_ALU :: "16 word" where "BPF_ALU \<equiv> 0x04"
abbreviation BPF_JMP :: "16 word" where "BPF_JMP \<equiv> 0x05"
abbreviation BPF_RET :: "16 word" where "BPF_RET \<equiv> 0x06"
abbreviation BPF_MISC :: "16 word" where "BPF_MISC \<equiv> 0x07"
abbreviation BPF_W :: "16 word" where "BPF_W \<equiv> 0x00"
abbreviation BPF_H :: "16 word" where "BPF_H \<equiv> 0x08"
abbreviation BPF_B :: "16 word" where "BPF_B \<equiv> 0x10"
abbreviation BPF_IMM :: "16 word" where "BPF_IMM \<equiv> 0x00"
abbreviation BPF_ABS :: "16 word" where "BPF_ABS \<equiv> 0x20"
abbreviation BPF_IND :: "16 word" where "BPF_IND \<equiv> 0x40"
abbreviation BPF_MEM :: "16 word" where "BPF_MEM \<equiv> 0x60"
abbreviation BPF_LEN :: "16 word" where "BPF_LEN \<equiv> 0x80"
abbreviation BPF_MSH :: "16 word" where "BPF_MSH \<equiv> 0xa0"
abbreviation BPF_ADD :: "16 word" where "BPF_ADD \<equiv> 0x00"
abbreviation BPF_SUB :: "16 word" where "BPF_SUB \<equiv> 0x10"
abbreviation BPF_MUL :: "16 word" where "BPF_MUL \<equiv> 0x20"
abbreviation BPF_DIV :: "16 word" where "BPF_DIV \<equiv> 0x30"
abbreviation BPF_OR :: "16 word" where "BPF_OR \<equiv> 0x40"
abbreviation BPF_AND :: "16 word" where "BPF_AND \<equiv> 0x50"
abbreviation BPF_LSH :: "16 word" where "BPF_LSH \<equiv> 0x60"
abbreviation BPF_RSH :: "16 word" where "BPF_RSH \<equiv> 0x70"
abbreviation BPF_NEG :: "16 word" where "BPF_NEG \<equiv> 0x80"
abbreviation BPF_JA :: "16 word" where "BPF_JA \<equiv> 0x00"
abbreviation BPF_JEQ :: "16 word" where "BPF_JEQ \<equiv> 0x10"
abbreviation BPF_JGT :: "16 word" where "BPF_JGT \<equiv> 0x20"
abbreviation BPF_JGE :: "16 word" where "BPF_JGE \<equiv> 0x30"
abbreviation BPF_JSET :: "16 word" where "BPF_JSET \<equiv> 0x40"
abbreviation BPF_K :: "16 word" where "BPF_K \<equiv> 0x00"
abbreviation BPF_X :: "16 word" where "BPF_X \<equiv> 0x08"
abbreviation BPF_A :: "16 word" where "BPF_A \<equiv> 0x10"
abbreviation BPF_TAX :: "16 word" where "BPF_TAX \<equiv> 0x00"
abbreviation BPF_TXA :: "16 word" where "BPF_TXA \<equiv> 0x80"

definition BPF_MEMWORDS :: nat where "BPF_MEMWORDS = 16"

definition BPF_CLASS :: "16 word \<Rightarrow> 16 word" where "BPF_CLASS code = code AND 0x07"
definition BPF_OP :: "16 word \<Rightarrow> 16 word" where "BPF_OP code = code AND 0xf0"
definition BPF_MODE :: "16 word \<Rightarrow> 16 word" where "BPF_MODE code = code AND 0xe0"

section \<open>Reads\<close>

definition extract_long :: "byte \<Rightarrow> byte \<Rightarrow> byte \<Rightarrow> byte \<Rightarrow> u32" where
  "extract_long a b c d =
     push_bit 24 (ucast a) OR push_bit 16 (ucast b) OR push_bit 8 (ucast c) OR ucast d"

definition extract_short :: "byte \<Rightarrow> byte \<Rightarrow> 16 word" where
  "extract_short a b = push_bit 8 (ucast a) OR ucast b"

text \<open>The walk along the chain, shared by m_xword, m_xhalf and MINDEX: the mbuf that holds offset k, what
  follows it, and the offset in it.\<close>

fun mindex :: "byte list \<Rightarrow> byte list list \<Rightarrow> nat \<Rightarrow> (byte list \<times> byte list list \<times> nat) option" where
  "mindex m ms k =
     (if length m \<le> k
      then (case ms of [] \<Rightarrow> None | m' # ms' \<Rightarrow> mindex m' ms' (k - length m))
      else Some (m, ms, k))"

declare mindex.simps [simp del]

definition m_xword :: "byte list \<Rightarrow> byte list list \<Rightarrow> u32 \<Rightarrow> u32 fetch" where
  "m_xword m ms k =
     (case mindex m ms (unat k) of
        None \<Rightarrow> Merr
      | Some (m, ms, k) \<Rightarrow>
          (let len = length m; cp = drop k m
           in if 4 \<le> len - k then Fetched (extract_long (cp ! 0) (cp ! 1) (cp ! 2) (cp ! 3))
              else (case ms of
                      [] \<Rightarrow> Merr
                    | np # _ \<Rightarrow>
                        if length np + len - k < 4 then Merr
                        else if len - k = 1 then Fetched (extract_long (cp ! 0) (np ! 0) (np ! 1) (np ! 2))
                        else if len - k = 2 then Fetched (extract_long (cp ! 0) (cp ! 1) (np ! 0) (np ! 1))
                        else Fetched (extract_long (cp ! 0) (cp ! 1) (cp ! 2) (np ! 0)))))"

text \<open>m_xhalf does not look at the length of the second mbuf before it reads its first byte.\<close>

definition m_xhalf :: "byte list \<Rightarrow> byte list list \<Rightarrow> u32 \<Rightarrow> 16 word fetch" where
  "m_xhalf m ms k =
     (case mindex m ms (unat k) of
        None \<Rightarrow> Merr
      | Some (m, ms, k) \<Rightarrow>
          (let len = length m; cp = drop k m
           in if 2 \<le> len - k then Fetched (extract_short (cp ! 0) (cp ! 1))
              else (case ms of
                      [] \<Rightarrow> Merr
                    | m0 # _ \<Rightarrow> if m0 = [] then Outside else Fetched (extract_short (cp ! 0) (m0 ! 0)))))"

definition m_byte :: "byte list \<Rightarrow> byte list list \<Rightarrow> u32 \<Rightarrow> byte fetch" where
  "m_byte m ms k = (case mindex m ms (unat k) of None \<Rightarrow> Merr | Some (m, ms, k) \<Rightarrow> Fetched (m ! k))"

text \<open>The reads of the one-buffer case; an offset outside the bytes of the buffer is a fault.\<close>

definition p_long :: "packet \<Rightarrow> u32 \<Rightarrow> u32 fetch" where
  "p_long p k =
     (case p of
        Buf bs \<Rightarrow> if unat k + 4 \<le> length bs
                  then Fetched (extract_long (bs ! unat k) (bs ! (unat k + 1)) (bs ! (unat k + 2)) (bs ! (unat k + 3)))
                  else Outside
      | Chain m ms \<Rightarrow> Outside)"

definition p_short :: "packet \<Rightarrow> u32 \<Rightarrow> 16 word fetch" where
  "p_short p k =
     (case p of
        Buf bs \<Rightarrow> if unat k + 2 \<le> length bs then Fetched (extract_short (bs ! unat k) (bs ! (unat k + 1))) else Outside
      | Chain m ms \<Rightarrow> Outside)"

definition p_byte :: "packet \<Rightarrow> u32 \<Rightarrow> byte fetch" where
  "p_byte p k =
     (case p of Buf bs \<Rightarrow> if unat k < length bs then Fetched (bs ! unat k) else Outside | Chain m ms \<Rightarrow> Outside)"

text \<open>The same from the chain when buflen is 0; a buffer that is taken for a chain is a fault.\<close>

definition c_word :: "packet \<Rightarrow> u32 \<Rightarrow> u32 fetch" where
  "c_word p k = (case p of Buf bs \<Rightarrow> Outside | Chain m ms \<Rightarrow> m_xword m ms k)"

definition c_half :: "packet \<Rightarrow> u32 \<Rightarrow> 16 word fetch" where
  "c_half p k = (case p of Buf bs \<Rightarrow> Outside | Chain m ms \<Rightarrow> m_xhalf m ms k)"

definition c_byte :: "packet \<Rightarrow> u32 \<Rightarrow> byte fetch" where
  "c_byte p k = (case p of Buf bs \<Rightarrow> Outside | Chain m ms \<Rightarrow> m_byte m ms k)"

section \<open>One instruction\<close>

record bpf_state =
  pc :: nat
  regA :: u32
  regX :: u32
  mem :: "u32 option list"

datatype 's outcome = Continue 's | Return u32 | Fault fault

text \<open>A fetched value goes into a register; an error of the chain rejects the packet.\<close>

definition load :: "'a fetch \<Rightarrow> ('a \<Rightarrow> bpf_state) \<Rightarrow> bpf_state outcome" where
  "load v upd = (case v of Fetched x \<Rightarrow> Continue (upd x) | Merr \<Rightarrow> Return 0 | Outside \<Rightarrow> Fault BadRead)"

definition bpf_packet :: "packet \<Rightarrow> u32 \<Rightarrow> u32 \<Rightarrow> bpf_insn \<Rightarrow> bpf_state \<Rightarrow> bpf_state outcome option" where
  "bpf_packet p wirelen buflen i s =
    (let pk = ik i; X = regX s; c = icode i
     in if c = BPF_LD OR BPF_W OR BPF_ABS then
          Some (if buflen < pk \<or> buflen - pk < 4
                then (if buflen \<noteq> 0 then Return 0 else load (c_word p pk) (\<lambda>w. s\<lparr>regA := w\<rparr>))
                else load (p_long p pk) (\<lambda>w. s\<lparr>regA := w\<rparr>))
        else if c = BPF_LD OR BPF_H OR BPF_ABS then
          Some (if buflen < pk \<or> buflen - pk < 2
                then (if buflen \<noteq> 0 then Return 0
                      else (case c_half p pk of Merr \<Rightarrow> Continue (s\<lparr>regA := 0\<rparr>)
                            | v \<Rightarrow> load v (\<lambda>h. s\<lparr>regA := ucast h\<rparr>)))
                else load (p_short p pk) (\<lambda>h. s\<lparr>regA := ucast h\<rparr>))
        else if c = BPF_LD OR BPF_B OR BPF_ABS then
          Some (if buflen \<le> pk
                then (if buflen \<noteq> 0 then Return 0 else load (c_byte p pk) (\<lambda>b. s\<lparr>regA := ucast b\<rparr>))
                else load (p_byte p pk) (\<lambda>b. s\<lparr>regA := ucast b\<rparr>))
        else if c = BPF_LD OR BPF_W OR BPF_LEN then Some (Continue (s\<lparr>regA := wirelen\<rparr>))
        else if c = BPF_LDX OR BPF_W OR BPF_LEN then Some (Continue (s\<lparr>regX := wirelen\<rparr>))
        else None)"

definition bpf_indirect :: "packet \<Rightarrow> u32 \<Rightarrow> bpf_insn \<Rightarrow> bpf_state \<Rightarrow> bpf_state outcome option" where
  "bpf_indirect p buflen i s =
    (let pk = ik i; X = regX s; c = icode i
     in if c = BPF_LD OR BPF_W OR BPF_IND then
          (let k = X + pk
           in Some (if buflen < pk \<or> buflen - pk < X \<or> buflen - k < 4
                    then (if buflen \<noteq> 0 then Return 0 else load (c_word p k) (\<lambda>w. s\<lparr>regA := w\<rparr>))
                    else load (p_long p k) (\<lambda>w. s\<lparr>regA := w\<rparr>)))
        else if c = BPF_LD OR BPF_H OR BPF_IND then
          (let k = X + pk
           in Some (if buflen < X \<or> buflen - X < pk \<or> buflen - k < 2
                    then (if buflen \<noteq> 0 then Return 0 else load (c_half p k) (\<lambda>h. s\<lparr>regA := ucast h\<rparr>))
                    else load (p_short p k) (\<lambda>h. s\<lparr>regA := ucast h\<rparr>)))
        else if c = BPF_LD OR BPF_B OR BPF_IND then
          (let k = X + pk
           in Some (if buflen \<le> pk \<or> buflen - pk \<le> X
                    then (if buflen \<noteq> 0 then Return 0 else load (c_byte p k) (\<lambda>b. s\<lparr>regA := scast b\<rparr>))
                    else load (p_byte p k) (\<lambda>b. s\<lparr>regA := ucast b\<rparr>)))
        else if c = BPF_LDX OR BPF_MSH OR BPF_B then
          Some (if buflen \<le> pk
                then (if buflen \<noteq> 0 then Return 0
                      else load (c_byte p pk) (\<lambda>b. s\<lparr>regX := push_bit 2 (scast b AND 0xf)\<rparr>))
                else load (p_byte p pk) (\<lambda>b. s\<lparr>regX := push_bit 2 (ucast b AND 0xf)\<rparr>))
        else None)"

definition load_mem :: "u32 option list \<Rightarrow> u32 \<Rightarrow> (u32 \<Rightarrow> bpf_state) \<Rightarrow> bpf_state outcome" where
  "load_mem m k upd =
     (if unat k < length m then (case m ! unat k of Some w \<Rightarrow> Continue (upd w) | None \<Rightarrow> Fault Uninit) else Fault BadMem)"

definition store_mem :: "u32 \<Rightarrow> u32 \<Rightarrow> bpf_state \<Rightarrow> bpf_state outcome" where
  "store_mem k v s =
     (if unat k < length (mem s) then Continue (s\<lparr>mem := (mem s)[unat k := Some v]\<rparr>) else Fault BadMem)"

definition bpf_register :: "bpf_insn \<Rightarrow> bpf_state \<Rightarrow> bpf_state outcome option" where
  "bpf_register i s =
    (let k = ik i; c = icode i
     in if c = BPF_LD OR BPF_IMM then Some (Continue (s\<lparr>regA := k\<rparr>))
        else if c = BPF_LDX OR BPF_IMM then Some (Continue (s\<lparr>regX := k\<rparr>))
        else if c = BPF_LD OR BPF_MEM then Some (load_mem (mem s) k (\<lambda>w. s\<lparr>regA := w\<rparr>))
        else if c = BPF_LDX OR BPF_MEM then Some (load_mem (mem s) k (\<lambda>w. s\<lparr>regX := w\<rparr>))
        else if c = BPF_ST then Some (store_mem k (regA s) s)
        else if c = BPF_STX then Some (store_mem k (regX s) s)
        else None)"

text \<open>The program counter is the place of the instruction; an instruction has 8 bytes and an address 32 bits, so
  the sum of the pointer and an offset wraps at 2^29 instructions.\<close>

definition pc_add :: "nat \<Rightarrow> nat \<Rightarrow> nat" where "pc_add n k = (n + k) mod 2 ^ 29"

lemma pc_add_code [code]: "pc_add n k = nat ((int n + int k) mod 0x20000000)"
  by (simp add: pc_add_def nat_mod_distrib nat_add_distrib)

definition branch :: "bool \<Rightarrow> bpf_insn \<Rightarrow> bpf_state \<Rightarrow> bpf_state outcome option" where
  "branch b i s = Some (Continue (s\<lparr>pc := pc_add (pc s) (unat (if b then jt i else jf i))\<rparr>))"

definition bpf_jump :: "bpf_insn \<Rightarrow> bpf_state \<Rightarrow> bpf_state outcome option" where
  "bpf_jump i s =
    (let k = ik i; c = icode i; A = regA s; X = regX s
     in if c = BPF_JMP OR BPF_JA then Some (Continue (s\<lparr>pc := pc_add (pc s) (unat k)\<rparr>))
        else if c = BPF_JMP OR BPF_JGT OR BPF_K then branch (k < A) i s
        else if c = BPF_JMP OR BPF_JGE OR BPF_K then branch (k \<le> A) i s
        else if c = BPF_JMP OR BPF_JEQ OR BPF_K then branch (A = k) i s
        else if c = BPF_JMP OR BPF_JSET OR BPF_K then branch (A AND k \<noteq> 0) i s
        else if c = BPF_JMP OR BPF_JGT OR BPF_X then branch (X < A) i s
        else if c = BPF_JMP OR BPF_JGE OR BPF_X then branch (X \<le> A) i s
        else if c = BPF_JMP OR BPF_JEQ OR BPF_X then branch (A = X) i s
        else if c = BPF_JMP OR BPF_JSET OR BPF_X then branch (A AND X \<noteq> 0) i s
        else None)"

definition setA :: "u32 \<Rightarrow> bpf_state \<Rightarrow> bpf_state outcome option" where
  "setA w s = Some (Continue (s\<lparr>regA := w\<rparr>))"

definition shiftA :: "(nat \<Rightarrow> u32 \<Rightarrow> u32) \<Rightarrow> u32 \<Rightarrow> bpf_state \<Rightarrow> bpf_state outcome option" where
  "shiftA f n s = (if n < 32 then setA (f (unat n) (regA s)) s else Some (Fault BadShift))"

definition bpf_alu :: "bpf_insn \<Rightarrow> bpf_state \<Rightarrow> bpf_state outcome option" where
  "bpf_alu i s =
    (let k = ik i; c = icode i; A = regA s; X = regX s
     in if c = BPF_ALU OR BPF_ADD OR BPF_X then setA (A + X) s
        else if c = BPF_ALU OR BPF_SUB OR BPF_X then setA (A - X) s
        else if c = BPF_ALU OR BPF_MUL OR BPF_X then setA (A * X) s
        else if c = BPF_ALU OR BPF_DIV OR BPF_X then (if X = 0 then Some (Return 0) else setA (A div X) s)
        else if c = BPF_ALU OR BPF_AND OR BPF_X then setA (A AND X) s
        else if c = BPF_ALU OR BPF_OR OR BPF_X then setA (A OR X) s
        else if c = BPF_ALU OR BPF_LSH OR BPF_X then shiftA push_bit X s
        else if c = BPF_ALU OR BPF_RSH OR BPF_X then shiftA drop_bit X s
        else if c = BPF_ALU OR BPF_ADD OR BPF_K then setA (A + k) s
        else if c = BPF_ALU OR BPF_SUB OR BPF_K then setA (A - k) s
        else if c = BPF_ALU OR BPF_MUL OR BPF_K then setA (A * k) s
        else if c = BPF_ALU OR BPF_DIV OR BPF_K then (if k = 0 then Some (Fault DivZero) else setA (A div k) s)
        else if c = BPF_ALU OR BPF_AND OR BPF_K then setA (A AND k) s
        else if c = BPF_ALU OR BPF_OR OR BPF_K then setA (A OR k) s
        else if c = BPF_ALU OR BPF_LSH OR BPF_K then shiftA push_bit k s
        else if c = BPF_ALU OR BPF_RSH OR BPF_K then shiftA drop_bit k s
        else if c = BPF_ALU OR BPF_NEG then setA (- A) s
        else None)"

definition bpf_misc :: "bpf_insn \<Rightarrow> bpf_state \<Rightarrow> bpf_state outcome option" where
  "bpf_misc i s =
    (let c = icode i
     in if c = BPF_MISC OR BPF_TAX then Some (Continue (s\<lparr>regX := regA s\<rparr>))
        else if c = BPF_MISC OR BPF_TXA then Some (Continue (s\<lparr>regA := regX s\<rparr>))
        else None)"

definition bpf_ret :: "bpf_insn \<Rightarrow> bpf_state \<Rightarrow> bpf_state outcome option" where
  "bpf_ret i s =
    (let c = icode i
     in if c = BPF_RET OR BPF_K then Some (Return (ik i))
        else if c = BPF_RET OR BPF_A then Some (Return (regA s))
        else None)"

definition orelse :: "'a option \<Rightarrow> 'a option \<Rightarrow> 'a option" where
  "orelse a b = (case a of None \<Rightarrow> b | Some x \<Rightarrow> Some x)"

text \<open>The body of the switch, a code of none of its cases rejecting the packet.\<close>

definition bpf_exec :: "packet \<Rightarrow> u32 \<Rightarrow> u32 \<Rightarrow> bpf_insn \<Rightarrow> bpf_state \<Rightarrow> bpf_state outcome" where
  "bpf_exec p wirelen buflen i s =
     (case orelse (bpf_ret i s) (orelse (bpf_packet p wirelen buflen i s) (orelse (bpf_indirect p buflen i s)
             (orelse (bpf_register i s) (orelse (bpf_jump i s) (orelse (bpf_alu i s) (bpf_misc i s)))))) of
        None \<Rightarrow> Return 0
      | Some r \<Rightarrow> r)"

definition bpf_next :: "bpf_state \<Rightarrow> bpf_state" where "bpf_next s = s\<lparr>pc := pc_add (pc s) 1\<rparr>"

definition bpf_step :: "bpf_insn list \<Rightarrow> packet \<Rightarrow> u32 \<Rightarrow> u32 \<Rightarrow> bpf_state \<Rightarrow> bpf_state outcome" where
  "bpf_step f p wirelen buflen s =
     (if pc s < length f
      then (case bpf_exec p wirelen buflen (f ! pc s) s of Continue s' \<Rightarrow> Continue (bpf_next s') | r \<Rightarrow> r)
      else Fault BadPc)"

section \<open>What one instruction can do\<close>

lemmas group_defs = bpf_ret_def bpf_packet_def bpf_indirect_def bpf_register_def bpf_jump_def bpf_alu_def bpf_misc_def
  Let_def load_def load_mem_def store_mem_def branch_def setA_def shiftA_def

text \<open>The program counter moves only at a jump of the class JMP, by one of its offsets.\<close>

definition moves :: "bpf_insn \<Rightarrow> nat \<Rightarrow> nat \<Rightarrow> bool" where
  "moves i n n' \<longleftrightarrow> n' = n \<or> BPF_CLASS (icode i) = BPF_JMP \<and>
     (if BPF_OP (icode i) = BPF_JA then n' = pc_add n (unat (ik i))
      else n' = pc_add n (unat (jt i)) \<or> n' = pc_add n (unat (jf i)))"

lemma moves_same [simp]: "moves i n n" by (simp add: moves_def)

lemma no_move:
  "bpf_ret i s = Some (Continue s') \<Longrightarrow> P"
  "bpf_packet p w b i s = Some (Continue s') \<Longrightarrow> pc s' = pc s \<and> mem s' = mem s"
  "bpf_indirect p b i s = Some (Continue s') \<Longrightarrow> pc s' = pc s \<and> mem s' = mem s"
  "bpf_register i s = Some (Continue s') \<Longrightarrow> pc s' = pc s \<and> length (mem s') = length (mem s)"
  "bpf_alu i s = Some (Continue s') \<Longrightarrow> pc s' = pc s \<and> mem s' = mem s"
  "bpf_misc i s = Some (Continue s') \<Longrightarrow> pc s' = pc s \<and> mem s' = mem s"
  by (auto simp: group_defs split: if_splits fetch.splits option.splits)

lemma jump_move: "bpf_jump i s = Some (Continue s') \<Longrightarrow> moves i (pc s) (pc s') \<and> mem s' = mem s"
  by (auto simp: group_defs moves_def BPF_CLASS_def BPF_OP_def split: if_splits)

lemma orelse_some: "orelse a b = Some x \<longleftrightarrow> a = Some x \<or> a = None \<and> b = Some x"
  by (simp add: orelse_def split: option.split)

lemma exec_continue:
  assumes "bpf_exec p w b i s = Continue s'"
  shows "moves i (pc s) (pc s') \<and> length (mem s') = length (mem s)"
proof -
  from assms have "orelse (bpf_ret i s) (orelse (bpf_packet p w b i s) (orelse (bpf_indirect p b i s)
             (orelse (bpf_register i s) (orelse (bpf_jump i s) (orelse (bpf_alu i s) (bpf_misc i s)))))) = Some (Continue s')"
    by (simp add: bpf_exec_def split: option.splits)
  then show ?thesis unfolding orelse_some
    by (auto dest: jump_move no_move(2-6) elim: no_move(1))
qed

lemma exec_ret_class:
  assumes "BPF_CLASS (icode i) = BPF_RET"
  shows "\<exists>w'. bpf_exec p w b i s = Return w'"
proof -
  have "bpf_packet p w b i s = None" "bpf_indirect p b i s = None" "bpf_register i s = None" "bpf_jump i s = None"
    "bpf_alu i s = None" "bpf_misc i s = None"
    using assms by (auto simp: group_defs BPF_CLASS_def split: if_splits)
  then show ?thesis by (auto simp: bpf_exec_def orelse_def bpf_ret_def Let_def)
qed

section \<open>The interpreter\<close>

text \<open>The loop: a step for as long as it continues. A loop that does not end is \<open>None\<close>.\<close>

partial_function (option) bpf_loop :: "('s \<Rightarrow> 's outcome) \<Rightarrow> 's \<Rightarrow> (fault + u32) option" where
  "bpf_loop step s =
     (case step s of
        Continue s' \<Rightarrow> bpf_loop step s'
      | Return w \<Rightarrow> Some (Inr w)
      | Fault e \<Rightarrow> Some (Inl e))"

declare bpf_loop.simps [code]

definition bpf_run :: "bpf_insn list \<Rightarrow> packet \<Rightarrow> u32 \<Rightarrow> u32 \<Rightarrow> bpf_state \<Rightarrow> (fault + u32) option" where
  "bpf_run f p wirelen buflen = bpf_loop (bpf_step f p wirelen buflen)"

definition bpf_start :: bpf_state where
  "bpf_start = \<lparr>pc = 0, regA = 0, regX = 0, mem = replicate BPF_MEMWORDS None\<rparr>"

definition bpf_filter :: "bpf_insn list option \<Rightarrow> packet \<Rightarrow> u32 \<Rightarrow> u32 \<Rightarrow> (fault + u32) option" where
  "bpf_filter prog p wirelen buflen =
     (case prog of None \<Rightarrow> Some (Inr (- 1)) | Some f \<Rightarrow> bpf_run f p wirelen buflen bpf_start)"

text \<open>The states of a run, in order.\<close>

partial_function (option) loop_states :: "('s \<Rightarrow> 's outcome) \<Rightarrow> 's \<Rightarrow> 's list option" where
  "loop_states step s =
     (case step s of
        Continue s' \<Rightarrow> Option.bind (loop_states step s') (\<lambda>ss. Some (s # ss))
      | _ \<Rightarrow> Some [s])"

declare loop_states.simps [code]

text \<open>The places of the instructions a run executes.\<close>

definition bpf_trace :: "bpf_insn list \<Rightarrow> packet \<Rightarrow> u32 \<Rightarrow> u32 \<Rightarrow> bpf_state \<Rightarrow> nat list option" where
  "bpf_trace f p wirelen buflen s = map_option (map pc) (loop_states (bpf_step f p wirelen buflen) s)"

lemma loop_none:
  assumes "step s = Continue s"
  shows "bpf_loop step s = None"
proof (rule ccontr)
  assume "bpf_loop step s \<noteq> None"
  then obtain r where r: "bpf_loop step s = Some r" by blast
  have "step s \<noteq> Continue s"
  proof (rule bpf_loop.raw_induct [where P = "\<lambda>step s r. step s \<noteq> Continue s", OF _ r])
    fix g :: "('a \<Rightarrow> 'a outcome) \<Rightarrow> 'a \<Rightarrow> (fault + u32) option" and step s r
    assume ih: "\<And>step s r. g step s = Some r \<Longrightarrow> step s \<noteq> Continue s"
      and eq: "(case step s of Continue s' \<Rightarrow> g step s' | Return w \<Rightarrow> Some (Inr w) | Fault e \<Rightarrow> Some (Inl e)) = Some r"
    show "step s \<noteq> Continue s" using ih [of step s r] eq by auto
  qed
  then show False using assms by simp
qed

section \<open>The validator\<close>

definition bpf_insn_ok :: "nat \<Rightarrow> nat \<Rightarrow> bpf_insn \<Rightarrow> bool" where
  "bpf_insn_ok len i p \<longleftrightarrow>
     (BPF_CLASS (icode p) = BPF_JMP \<longrightarrow>
        (let from = i + 1
         in if BPF_OP (icode p) = BPF_JA
            then \<not> (len \<le> from \<or> len - from \<le> unat (ik p))
            else \<not> (len \<le> from \<or> len - from \<le> unat (jt p) \<or> len - from \<le> unat (jf p)))) \<and>
     \<not> ((BPF_CLASS (icode p) = BPF_ST \<or> BPF_CLASS (icode p) = BPF_LD \<and> icode p AND 0xe0 = BPF_MEM) \<and>
        BPF_MEMWORDS \<le> unat (ik p)) \<and>
     \<not> (icode p = BPF_ALU OR BPF_DIV OR BPF_K \<and> ik p = 0)"

text \<open>\<open>None\<close> when the last instruction is read from an empty program.\<close>

definition bpf_validate :: "bpf_insn list \<Rightarrow> bool option" where
  "bpf_validate f =
     (if \<not> (\<forall>i \<in> set [0..<length f]. bpf_insn_ok (length f) i (f ! i)) then Some False
      else if f = [] then None
      else Some (BPF_CLASS (icode (f ! (length f - 1))) = BPF_RET))"

lemma validate_ok: "bpf_validate f = Some True \<Longrightarrow> i < length f \<Longrightarrow> bpf_insn_ok (length f) i (f ! i)"
  by (auto simp: bpf_validate_def split: if_splits)

lemma validate_last: "bpf_validate f = Some True \<Longrightarrow> f \<noteq> [] \<and> BPF_CLASS (icode (f ! (length f - 1))) = BPF_RET"
  by (auto simp: bpf_validate_def split: if_splits)

text \<open>In a validated program a step stays inside the program, and goes forward: the pointer does not wrap in a
  program that lies in an address space of 32 bits.\<close>

lemma pc_add_le: "pc_add (pc_add n k) 1 \<le> n + k + 1" "pc_add n k \<le> n + k"
  unfolding pc_add_def by (metis mod_add_left_eq mod_less_eq_dividend, rule mod_less_eq_dividend)

lemma pc_add_small: "n + k < 2 ^ 29 \<Longrightarrow> pc_add n k = n + k"
  by (simp add: pc_add_def)

lemma validated_move:
  assumes v: "bpf_validate f = Some True" and s: "pc s < length f" and st: "bpf_step f p w b s = Continue s'"
  obtains k where "pc s' = pc_add (pc_add (pc s) k) 1" "pc s + k + 1 < length f"
proof -
  obtain t where t: "bpf_exec p w b (f ! pc s) s = Continue t" "s' = bpf_next t"
    using st s by (auto simp: bpf_step_def split: outcome.splits)
  have "pc s \<noteq> length f - 1"
    using exec_ret_class [of "f ! pc s" p w b s] validate_last [OF v] t(1) by auto
  then have l: "pc s + 0 + 1 < length f" using s by simp
  have m: "moves (f ! pc s) (pc s) (pc t)" using exec_continue [OF t(1)] by blast
  have "\<exists>k. (pc t = pc_add (pc s) k \<or> k = 0 \<and> pc t = pc s) \<and> pc s + k + 1 < length f"
    using m validate_ok [OF v s] l
    by (auto simp: moves_def bpf_insn_ok_def Let_def not_le less_diff_conv algebra_simps split: if_splits)
  then obtain k where k: "pc t = pc_add (pc s) k \<or> k = 0 \<and> pc t = pc s" "pc s + k + 1 < length f" by blast
  have "pc_add (pc_add (pc s) 0) 1 = pc_add (pc s) 1" by (simp add: pc_add_def mod_Suc_eq)
  then have "pc s' = pc_add (pc_add (pc s) k) 1" using k(1) t(2) by (auto simp: bpf_next_def)
  then show ?thesis using k(2) by (rule that)
qed

lemma validated_step:
  assumes v: "bpf_validate f = Some True" and s: "pc s < length f" and st: "bpf_step f p w b s = Continue s'"
  shows "pc s' < length f"
  using validated_move [OF assms] pc_add_le(1) [of "pc s"] by (metis order_le_less_trans)

lemma validated_forward:
  assumes v: "bpf_validate f = Some True" and s: "pc s < length f" and st: "bpf_step f p w b s = Continue s'"
    and len: "length f \<le> 2 ^ 29"
  shows "pc s < pc s'"
proof -
  obtain k where k: "pc s' = pc_add (pc_add (pc s) k) 1" "pc s + k + 1 < length f" by (rule validated_move [OF assms(1-3)])
  have "pc_add (pc s) k = pc s + k" using k(2) len by (intro pc_add_small) linarith
  moreover have "pc_add (pc s + k) 1 = pc s + k + 1" using k(2) len by (intro pc_add_small) linarith
  ultimately show ?thesis using k(1) by simp
qed

lemma validated_induct [consumes 3, case_names run]:
  assumes v: "bpf_validate f = Some True" and len: "length f \<le> 2 ^ 29" and s: "pc s < length f"
    and run: "\<And>s. pc s < length f \<Longrightarrow>
      (\<And>s'. bpf_step f p w b s = Continue s' \<Longrightarrow> pc s' < length f \<Longrightarrow> pc s < pc s' \<Longrightarrow> P s') \<Longrightarrow> P s"
  shows "P s"
  using s
proof (induction "length f - pc s" arbitrary: s rule: less_induct)
  case less
  show ?case
  proof (rule run [OF less.prems])
    fix s' assume st: "bpf_step f p w b s = Continue s'" and p: "pc s' < length f" and f: "pc s < pc s'"
    have "length f - pc s' < length f - pc s" using f p by linarith
    from less.hyps [OF this p] show "P s'" .
  qed
qed

section \<open>Reads stay inside the data\<close>


















section \<open>Runs of validated programs\<close>






lemma trace_ends:
  assumes v: "bpf_validate f = Some True" and len: "length f \<le> 2 ^ 29" and s: "pc s < length f"
  shows "\<exists>ss. loop_states (bpf_step f p w b) s = Some ss \<and> sorted_wrt (<) (map pc ss) \<and>
    (\<forall>t \<in> set ss. pc s \<le> pc t \<and> pc t < length f)"
  using v len s
proof (induction rule: validated_induct [where p = p and w = w and b = b])
  case (run s)
  show ?case
  proof (cases "bpf_step f p w b s")
    case (Continue s')
    have n: "pc s' < length f" "pc s < pc s'"
      using validated_step [OF v run.hyps Continue] validated_forward [OF v run.hyps Continue len] .
    from run.IH [OF Continue n] obtain ss where ss: "loop_states (bpf_step f p w b) s' = Some ss"
      "sorted_wrt (<) (map pc ss)" "\<forall>t \<in> set ss. pc s' \<le> pc t \<and> pc t < length f" by blast
    have "loop_states (bpf_step f p w b) s = Some (s # ss)" by (simp add: loop_states.simps [of _ s] Continue ss(1))
    then show ?thesis using ss(2,3) n run.hyps by fastforce
  qed (use run.hyps in \<open>simp_all add: loop_states.simps [of _ s]\<close>)
qed

section \<open>Reads from a chain and from a buffer\<close>

lemma mindex_nil: "mindex m [] k = (if length m \<le> k then None else Some (m, [], k))"
  by (simp add: mindex.simps)

lemma mindex_cons: "mindex m (x # xs) k = (if length m \<le> k then mindex x xs (k - length m) else Some (m, x # xs, k))"
  by (simp add: mindex.simps [of m])

lemma mindex_none: "mindex m ms k = None \<longleftrightarrow> length (concat (m # ms)) \<le> k"
  by (induction ms arbitrary: m k) (auto simp: mindex_nil mindex_cons)

lemma mindex_some:
  "mindex m ms k = Some (m', ms', k') \<Longrightarrow>
   k' < length m' \<and> drop k (concat (m # ms)) = drop k' m' @ concat ms' \<and> (\<exists>xs. m # ms = xs @ m' # ms')"
proof (induction ms arbitrary: m k)
  case (Cons x xs)
  show ?case
  proof (cases "length m \<le> k")
    case True
    have "mindex x xs (k - length m) = Some (m', ms', k')" using Cons.prems True by (simp add: mindex_cons)
    from Cons.IH [OF this] obtain ys where
      a: "k' < length m'" "drop (k - length m) (concat (x # xs)) = drop k' m' @ concat ms'" and ys: "x # xs = ys @ m' # ms'"
      by blast
    have "drop k (concat (m # x # xs)) = drop k' m' @ concat ms'" using a(2) True by simp
    moreover have "m # x # xs = (m # ys) @ m' # ms'" using ys by simp
    ultimately show ?thesis using a(1) by blast
  qed (use Cons in \<open>auto simp: mindex_cons\<close>)
qed (auto simp: mindex_nil split: if_splits)

text \<open>The big-endian word at an offset of a byte list.\<close>

definition word_at :: "byte list \<Rightarrow> nat \<Rightarrow> u32 option" where
  "word_at bs k =
     (case drop k bs of a # b # c # d # _ \<Rightarrow> Some (extract_long a b c d) | _ \<Rightarrow> None)"


lemma list_ge: "4 \<le> length xs \<Longrightarrow> \<exists>a b c d ys. xs = a # b # c # d # ys" "3 \<le> length xs \<Longrightarrow> \<exists>a b c ys. xs = a # b # c # ys"
  "2 \<le> length xs \<Longrightarrow> \<exists>a b ys. xs = a # b # ys" "1 \<le> length xs \<Longrightarrow> \<exists>a ys. xs = a # ys" for xs :: "'a list"
  by (auto simp: numeral_eq_Suc Suc_le_length_iff)

lemma list_eq_len: "length xs = 1 \<Longrightarrow> \<exists>a. xs = [a]" "length xs = 2 \<Longrightarrow> \<exists>a b. xs = [a, b]"
  "length xs = 3 \<Longrightarrow> \<exists>a b c. xs = [a, b, c]" for xs :: "'a list"
  by (auto simp: numeral_eq_Suc length_Suc_conv)

text \<open>Every mbuf but the first and the last has at least three bytes: a word then lies in at most two mbufs.\<close>

definition long_mbufs :: "byte list list \<Rightarrow> bool" where
  "long_mbufs ms \<longleftrightarrow> (\<forall>m \<in> set (butlast ms). 3 \<le> length m)"

lemma m_xword_word_at:
  assumes l: "long_mbufs ms"
  shows "m_xword m ms k = (case word_at (concat (m # ms)) (unat k) of Some w \<Rightarrow> Fetched w | None \<Rightarrow> Merr)"
proof (cases "mindex m ms (unat k)")
  case None
  then have "drop (unat k) (concat (m # ms)) = []" using mindex_none [of m ms "unat k"] by simp
  then show ?thesis using None by (simp add: m_xword_def word_at_def)
next
  case (Some t)
  then obtain m' ms' k' where t: "mindex m ms (unat k) = Some (m', ms', k')" by (cases t) simp
  from mindex_some [OF t] obtain xs where k': "k' < length m'" and d: "drop (unat k) (concat (m # ms)) = drop k' m' @ concat ms'"
    and xs: "m # ms = xs @ m' # ms'" by blast
  define cp where "cp = drop k' m'"
  have lcp: "length m' - k' = length cp" by (simp add: cp_def)
  have sum: "n + length m' - k' = n + length cp" for n using k' by (simp add: cp_def)
  have pos: "1 \<le> length cp" using k' by (simp add: cp_def)
  have run: "m_xword m ms k =
      (if 4 \<le> length cp then Fetched (extract_long (cp ! 0) (cp ! 1) (cp ! 2) (cp ! 3))
       else (case ms' of [] \<Rightarrow> Merr
             | np # _ \<Rightarrow> if length np + length cp < 4 then Merr
                 else if length cp = 1 then Fetched (extract_long (cp ! 0) (np ! 0) (np ! 1) (np ! 2))
                 else if length cp = 2 then Fetched (extract_long (cp ! 0) (cp ! 1) (np ! 0) (np ! 1))
                 else Fetched (extract_long (cp ! 0) (cp ! 1) (cp ! 2) (np ! 0))))"
    unfolding m_xword_def t option.case prod.case Let_def lcp sum cp_def [symmetric] ..
  have w: "word_at (concat (m # ms)) (unat k) =
      (case cp @ concat ms' of a # b # c # d # _ \<Rightarrow> Some (extract_long a b c d) | _ \<Rightarrow> None)"
    using d by (simp add: word_at_def cp_def)
  show ?thesis
  proof (cases "4 \<le> length cp")
    case True
    then show ?thesis unfolding run w using list_ge(1) [OF True] by auto
  next
    case False
    show ?thesis
    proof (cases ms')
      case Nil
      then show ?thesis unfolding run w using False by (auto split: list.splits)
    next
      case (Cons np rest)
      show ?thesis
      proof (cases "length np + length cp < 4")
        case True
        have "rest = []"
        proof (rule ccontr)
          assume "rest \<noteq> []"
          then have "np \<in> set (butlast ms)"
            using xs Cons by (cases xs) (auto simp: butlast_append)
          then show False using l pos True by (auto simp: long_mbufs_def)
        qed
        then have "length (cp @ concat ms') < 4" using True Cons by simp
        then show ?thesis unfolding run w using True False Cons by (auto split: list.splits dest!: arg_cong [where f = length])
      next
        case len: False
        consider "length cp = 1" "3 \<le> length np" | "length cp = 2" "2 \<le> length np" | "length cp = 3" "1 \<le> length np"
          using len False pos by linarith
        then show ?thesis
        proof cases
          case 1
          from list_eq_len(1) [OF 1(1)] list_ge(2) [OF 1(2)] show ?thesis unfolding run w by (auto simp: Cons)
        next
          case 2
          from list_eq_len(2) [OF 2(1)] list_ge(3) [OF 2(2)] show ?thesis unfolding run w by (auto simp: Cons)
        next
          case 3
          from list_eq_len(3) [OF 3(1)] list_ge(4) [OF 3(2)] show ?thesis unfolding run w by (auto simp: Cons)
        qed
      qed
    qed
  qed
qed


section \<open>The same program on a chain and on a buffer\<close>








section \<open>The properties\<close>


text \<open>The filter that accepts IPv4 packets of an ethernet: the type halfword is compared with 0x0800.\<close>

definition ip_filter :: "bpf_insn list" where
  "ip_filter =
     [\<lparr>icode = BPF_LD OR BPF_H OR BPF_ABS, jt = 0, jf = 0, ik = 12\<rparr>,
      \<lparr>icode = BPF_JMP OR BPF_JEQ OR BPF_K, jt = 0, jf = 1, ik = 0x0800\<rparr>,
      \<lparr>icode = BPF_RET OR BPF_K, jt = 0, jf = 0, ik = 96\<rparr>,
      \<lparr>icode = BPF_RET OR BPF_K, jt = 0, jf = 0, ik = 0\<rparr>]"

lemma ip_filter_valid: "bpf_validate ip_filter = Some True"
  by code_simp


text \<open>C18: Every run of a validated program ends: it executes each instruction at most once, in the order of the
  program and without leaving it, so it has at most as many steps as the program has instructions.\<close>

theorem bpf_runs_once:
  assumes "bpf_validate f = Some True" and "length f \<le> 2 ^ 29"
  shows "\<exists>t. bpf_trace f p wirelen buflen bpf_start = Some t \<and> sorted_wrt (<) t \<and> set t \<subseteq> {..<length f} \<and>
    length t \<le> length f"
proof -
  have "pc bpf_start < length f" using validate_last [OF assms(1)] by (simp add: bpf_start_def)
  from trace_ends [OF assms this, of p wirelen buflen] obtain ss where
    ss: "loop_states (bpf_step f p wirelen buflen) bpf_start = Some ss" "sorted_wrt (<) (map pc ss)"
      "\<forall>t \<in> set ss. pc t < length f" by blast
  have i: "set (map pc ss) \<subseteq> {..<length f}" using ss(3) by auto
  have "distinct (map pc ss)" using ss(2) strict_sorted_iff by blast
  then have "length (map pc ss) \<le> length f"
    using card_mono [OF _ i] distinct_card by fastforce
  then show ?thesis using ss(1,2) i by (intro exI [of _ "map pc ss"]) (simp add: bpf_trace_def)
qed

theorem bpf_runs_once_witness:
  "\<exists>t. bpf_trace ip_filter (Buf (replicate 14 8)) 14 14 bpf_start = Some t \<and> sorted_wrt (<) t \<and>
     set t \<subseteq> {..<length ip_filter} \<and> length t \<le> length ip_filter"
  using bpf_runs_once [OF ip_filter_valid, of "Buf (replicate 14 8)" 14 14] by (simp add: ip_filter_def)

text \<open>Without the validator a program may run for ever: an offset of 2^29 - 1 wraps to the same instruction.\<close>

lemma bpf_loops_for_ever:
  "bpf_filter (Some [\<lparr>icode = BPF_JMP OR BPF_JA, jt = 0, jf = 0, ik = 0x1fffffff\<rparr>]) p w b = None \<and>
   bpf_validate [\<lparr>icode = BPF_JMP OR BPF_JA, jt = 0, jf = 0, ik = 0x1fffffff\<rparr>] = Some False"
proof -
  have "bpf_step [\<lparr>icode = BPF_JMP OR BPF_JA, jt = 0, jf = 0, ik = 0x1fffffff\<rparr>] p w b bpf_start = Continue bpf_start"
    by (simp add: bpf_step_def bpf_start_def bpf_next_def bpf_exec_def group_defs orelse_def pc_add_def)
  then have "bpf_filter (Some [\<lparr>icode = BPF_JMP OR BPF_JA, jt = 0, jf = 0, ik = 0x1fffffff\<rparr>]) p w b = None"
    unfolding bpf_filter_def bpf_run_def by (simp add: loop_none)
  moreover have "bpf_validate [\<lparr>icode = BPF_JMP OR BPF_JA, jt = 0, jf = 0, ik = 0x1fffffff\<rparr>] = Some False"
    by code_simp
  ultimately show ?thesis by blast
qed

text \<open>C19: A word read from a chain of mbufs is the big-endian word at that offset of the concatenated data, and
  the error is reported exactly when the data ends before, given that the mbufs in the middle hold three bytes or more.\<close>

theorem m_xword_correct:
  assumes "\<forall>x \<in> set (butlast ms). 3 \<le> length x"
  shows "m_xword m ms k = (case word_at (concat (m # ms)) (unat k) of Some w \<Rightarrow> Fetched w | None \<Rightarrow> Merr)"
  using assms by (intro m_xword_word_at) (simp add: long_mbufs_def)

theorem m_xword_correct_witness: "m_xword [1, 2, 3] [[4, 5, 6], [7]] 1 = Fetched 0x02030405"
  using m_xword_correct [of "[[4, 5, 6], [7]]" "[1, 2, 3]" 1] by (simp add: word_at_def extract_long_def push_bit_eq_mult)



section \<open>What the validator and the two readers leave open\<close>

text \<open>A program the validator accepts and that stores outside the scratch memory.\<close>

lemma validate_misses_stx:
  "bpf_validate [\<lparr>icode = BPF_STX, jt = 0, jf = 0, ik = 1000\<rparr>, \<lparr>icode = BPF_RET OR BPF_K, jt = 0, jf = 0, ik = 0\<rparr>] = Some True \<and>
   bpf_filter (Some [\<lparr>icode = BPF_STX, jt = 0, jf = 0, ik = 1000\<rparr>, \<lparr>icode = BPF_RET OR BPF_K, jt = 0, jf = 0, ik = 0\<rparr>]) (Buf [1]) 1 1 = Some (Inl BadMem)"
  by code_simp

text \<open>The indirect byte load sign-extends the byte of a chain, and not that of a buffer.\<close>

lemma chain_byte_signed:
  "bpf_filter (Some [\<lparr>icode = BPF_LD OR BPF_B OR BPF_IND, jt = 0, jf = 0, ik = 0\<rparr>, \<lparr>icode = BPF_RET OR BPF_A, jt = 0, jf = 0, ik = 0\<rparr>])
     (Chain [0x80] []) 1 0 = Some (Inr 0xffffff80)"
  "bpf_filter (Some [\<lparr>icode = BPF_LD OR BPF_B OR BPF_IND, jt = 0, jf = 0, ik = 0\<rparr>, \<lparr>icode = BPF_RET OR BPF_A, jt = 0, jf = 0, ik = 0\<rparr>])
     (Buf [0x80]) 1 1 = Some (Inr 0x80)"
  by code_simp+

text \<open>The halfword load beyond the end of a chain gives 0 where that of a buffer rejects the packet.\<close>

lemma chain_half_ignored:
  "bpf_filter (Some [\<lparr>icode = BPF_LD OR BPF_H OR BPF_ABS, jt = 0, jf = 0, ik = 5\<rparr>, \<lparr>icode = BPF_RET OR BPF_K, jt = 0, jf = 0, ik = 9\<rparr>])
     (Chain [1] []) 1 0 = Some (Inr 9)"
  "bpf_filter (Some [\<lparr>icode = BPF_LD OR BPF_H OR BPF_ABS, jt = 0, jf = 0, ik = 5\<rparr>, \<lparr>icode = BPF_RET OR BPF_K, jt = 0, jf = 0, ik = 9\<rparr>])
     (Buf [1]) 1 1 = Some (Inr 0)"
  by code_simp+

text \<open>The halfword whose second byte is in the next mbuf: an empty one is read all the same.\<close>

lemma half_read_outside:
  "bpf_filter (Some ip_filter) (Chain (replicate 13 8) [[], [0]]) 14 0 = Some (Inl BadRead)"
  by code_simp

text \<open>A word that lies in three mbufs is rejected though its bytes are there.\<close>

lemma word_in_three: "m_xword [1, 2] [[3], [4]] 0 = Merr \<and> word_at (concat ([1, 2] # [[3], [4]])) (unat (0 :: u32)) \<noteq> None"
  by code_simp

end
