(* ===== verification/Subr_Rman.thy ===== *)
theory Subr_Rman
  imports Kern_Prelude
begin

text \<open>
  The resource manager of kern/subr_rman.c: the list of the segments of a space of u_long
  units (u_long has 32 bits, as on i386), each free or allocated, the sharing lists, and the operations that reserve,
  activate and release. One rman is one state, under its mutex; its structs are in heaps of its own. malloc
  may fail: \<open>rm_ok a\<close> says whether the allocation at the a-th address succeeds.
\<close>

section \<open>Data\<close>

type_synonym ulong = "32 word"

definition RF_ALLOCATED :: u32 where "RF_ALLOCATED = 0x0001"
definition RF_ACTIVE :: u32 where "RF_ACTIVE = 0x0002"
definition RF_SHAREABLE :: u32 where "RF_SHAREABLE = 0x0004"
definition RF_TIMESHARE :: u32 where "RF_TIMESHARE = 0x0008"
definition RF_WANTED :: u32 where "RF_WANTED = 0x0010"
definition RF_FIRSTSHARE :: u32 where "RF_FIRSTSHARE = 0x0020"

definition RF_ALIGNMENT :: "u32 \<Rightarrow> nat" where
  "RF_ALIGNMENT x = unat (drop_bit 10 (x AND push_bit 10 0x3F))"

definition RF_ALIGNMENT_LOG2 :: "u32 \<Rightarrow> u32" where
  "RF_ALIGNMENT_LOG2 x = push_bit 10 x"

record resource =
  r_sharehead :: "ptr option"
  r_start :: ulong
  r_end :: ulong
  r_flags :: u32
  r_virtual :: "ptr option"
  r_dev :: "ptr option"
  r_rid :: int

datatype rman_type = RMAN_UNINIT | RMAN_GAUGE | RMAN_ARRAY

record rman =
  rm_list :: "ptr list"
  rm_type :: rman_type
  rm_res :: "ptr \<rightharpoonup> resource"
  rm_share :: "ptr \<rightharpoonup> ptr list"
  rm_brk :: ptr
  rm_ok :: "ptr \<Rightarrow> bool"
  rm_wakeups :: "ptr option list"

definition zero_resource :: resource where
  "zero_resource = \<lparr>r_sharehead = None, r_start = 0, r_end = 0, r_flags = 0, r_virtual = None, r_dev = None, r_rid = 0\<rparr>"

abbreviation the_res :: "rman \<Rightarrow> ptr \<Rightarrow> resource" where "the_res s p \<equiv> the (rm_res s p)"

abbreviation put_res :: "ptr \<Rightarrow> resource \<Rightarrow> rman \<Rightarrow> rman" where
  "put_res p r s \<equiv> s\<lparr>rm_res := (rm_res s)(p \<mapsto> r)\<rparr>"

definition rm_malloc :: "rman \<Rightarrow> ptr option \<times> rman" where
  "rm_malloc s = ((if rm_ok s (rm_brk s) then Some (rm_brk s) else None), s\<lparr>rm_brk := rm_brk s + 1\<rparr>)"

definition allocated :: "resource \<Rightarrow> bool" where "allocated r \<longleftrightarrow> r_flags r AND RF_ALLOCATED \<noteq> 0"

section \<open>Set-up\<close>

text \<open>The list of all the managers is an argument. A panic is \<open>None\<close>.\<close>

definition rman_init :: "ptr \<Rightarrow> bool \<Rightarrow> ptr list \<Rightarrow> rman \<Rightarrow> (err \<times> ptr list \<times> rman) option" where
  "rman_init rm mtx_ok rman_head s =
     (if rm_type s = RMAN_UNINIT \<or> rm_type s = RMAN_GAUGE then None
      else let s1 = s\<lparr>rm_list := []\<rparr>
           in if \<not> mtx_ok then Some (Some ENOMEM, rman_head, s1)
              else Some (None, rman_head @ [rm], s1))"

definition rman_manage_region :: "ulong \<Rightarrow> ulong \<Rightarrow> rman \<Rightarrow> err \<times> rman" where
  "rman_manage_region start end s =
     (case rm_malloc s of
        (None, s1) \<Rightarrow> (Some ENOMEM, s1)
      | (Some r, s1) \<Rightarrow>
          (let s2 = put_res r (zero_resource\<lparr>r_start := start, r_end := end\<rparr>) s1;
               below = (\<lambda>q. r_end (the_res s2 q) < start)
           in (None, s2\<lparr>rm_list := takeWhile below (rm_list s2) @ r # dropWhile below (rm_list s2)\<rparr>)))"

definition rman_fini :: "ptr \<Rightarrow> ptr list \<Rightarrow> rman \<Rightarrow> err \<times> ptr list \<times> rman" where
  "rman_fini rm rman_head s =
     (if list_ex (\<lambda>q. allocated (the_res s q)) (rm_list s) then (Some EBUSY, rman_head, s)
      else (None, remove1 rm rman_head,
            s\<lparr>rm_res := foldr (\<lambda>q m. m(q := None)) (rm_list s) (rm_res s), rm_list := []\<rparr>))"

section \<open>Reserving\<close>

text \<open>The do loop that adjusts the start to the alignment and the boundary; it need not end.\<close>

partial_function (option) rman_adjust :: "ulong \<Rightarrow> ulong \<Rightarrow> ulong \<Rightarrow> ulong \<Rightarrow> ulong \<Rightarrow> ulong \<Rightarrow> ulong \<Rightarrow> ulong option" where
  "rman_adjust amask bmask bound count end send rstart =
     (let r1 = (rstart + amask) AND NOT amask;
          r2 = (if (r1 XOR (r1 + count - 1)) AND bmask \<noteq> 0 then r1 + (bound - (r1 AND NOT bmask)) else r1)
      in if r2 AND amask \<noteq> 0 \<and> r2 < end \<and> r2 < send
         then rman_adjust amask bmask bound count end send r2
         else Some r2)"

declare rman_adjust.simps [code]

text \<open>The first pass: the first free segment that has room, and the adjusted start in it.\<close>

fun rman_scan :: "rman \<Rightarrow> ulong \<Rightarrow> ulong \<Rightarrow> ulong \<Rightarrow> ulong \<Rightarrow> ulong \<Rightarrow> ulong \<Rightarrow> ptr list \<Rightarrow> (ptr \<times> ulong) option option" where
  "rman_scan st amask bmask bound start end count [] = Some None"
| "rman_scan st amask bmask bound start end count (p # ps) =
     (let s = the_res st p
      in if end < r_start s then Some None
         else if allocated s then rman_scan st amask bmask bound start end count ps
         else (case rman_adjust amask bmask bound count end (r_end s) (max (r_start s) start) of
                 None \<Rightarrow> None
               | Some rstart \<Rightarrow>
                   (let rend = min (r_end s) (max (rstart + count) end)
                    in if rend < rstart then rman_scan st amask bmask bound start end count ps
                       else if count \<le> rend - rstart + 1 then Some (Some (p, rstart))
                       else rman_scan st amask bmask bound start end count ps)))"

definition insert_after :: "ptr \<Rightarrow> ptr \<Rightarrow> ptr list \<Rightarrow> ptr list" where
  "insert_after q p l = takeWhile (\<lambda>x. x \<noteq> q) l @ q # p # tl (dropWhile (\<lambda>x. x \<noteq> q) l)"

definition insert_before :: "ptr \<Rightarrow> ptr \<Rightarrow> ptr list \<Rightarrow> ptr list" where
  "insert_before q p l = takeWhile (\<lambda>x. x \<noteq> q) l @ p # dropWhile (\<lambda>x. x \<noteq> q) l"

text \<open>Take count units at rstart from the free segment p: all of it, its middle, its beginning or its end.\<close>

definition rman_take :: "ptr \<Rightarrow> ulong \<Rightarrow> ulong \<Rightarrow> u32 \<Rightarrow> ptr \<Rightarrow> rman \<Rightarrow> ptr option \<times> rman" where
  "rman_take p rstart count flags dev st =
    (let s = the_res st p
     in if r_end s - r_start s + 1 = count
        then (Some p, put_res p (s\<lparr>r_flags := r_flags s OR (RF_ALLOCATED OR flags), r_dev := Some dev\<rparr>) st)
        else (case rm_malloc st of
            (None, st1) \<Rightarrow> (None, st1)
          | (Some rv, st1) \<Rightarrow>
              (let v = zero_resource\<lparr>r_start := rstart, r_end := rstart + count - 1, r_flags := flags OR RF_ALLOCATED, r_dev := Some dev\<rparr>;
                   st2 = put_res rv v st1
               in if r_start s < r_start v \<and> r_end v < r_end s
                  then (case rm_malloc st2 of
                      (None, st3) \<Rightarrow> (None, st3\<lparr>rm_res := (rm_res st3)(rv := None)\<rparr>)
                    | (Some r, st3) \<Rightarrow>
                        (let st4 = put_res r (zero_resource\<lparr>r_start := r_end v + 1, r_end := r_end s, r_flags := r_flags s\<rparr>) st3;
                             st5 = put_res p (s\<lparr>r_end := r_start v - 1\<rparr>) st4
                         in (Some rv, st5\<lparr>rm_list := insert_after rv r (insert_after p rv (rm_list st5))\<rparr>)))
                  else if r_start s = r_start v
                  then (let st3 = put_res p (s\<lparr>r_start := r_end v + 1\<rparr>) st2
                        in (Some rv, st3\<lparr>rm_list := insert_before p rv (rm_list st3)\<rparr>))
                  else (let st3 = put_res p (s\<lparr>r_end := r_start v - 1\<rparr>) st2
                        in (Some rv, st3\<lparr>rm_list := insert_after p rv (rm_list st3)\<rparr>)))))"

text \<open>The second pass: the first segment of exactly the size asked for whose flags allow the sharing.\<close>

fun rman_scan_shared :: "rman \<Rightarrow> ulong \<Rightarrow> ulong \<Rightarrow> ulong \<Rightarrow> ulong \<Rightarrow> ulong \<Rightarrow> u32 \<Rightarrow> ptr list \<Rightarrow> ptr option" where
  "rman_scan_shared st amask bmask start end count flags [] = None"
| "rman_scan_shared st amask bmask start end count flags (p # ps) =
     (let s = the_res st p
      in if end < r_start s then None
         else if r_flags s AND flags \<noteq> flags then rman_scan_shared st amask bmask start end count flags ps
         else if start \<le> r_start s \<and> r_end s \<le> end \<and> r_end s - r_start s + 1 = count \<and>
                 r_start s AND amask = 0 \<and> (r_start s XOR r_end s) AND bmask = 0
         then Some p
         else rman_scan_shared st amask bmask start end count flags ps)"

definition rman_share :: "ptr \<Rightarrow> ptr \<Rightarrow> rman \<Rightarrow> ptr option \<times> rman" where
  "rman_share p dev st =
    (let s = the_res st p
     in case rm_malloc st of
          (None, st1) \<Rightarrow> (None, st1)
        | (Some rv, st1) \<Rightarrow>
            (let v = zero_resource\<lparr>r_start := r_start s, r_end := r_end s,
                   r_flags := r_flags s AND (RF_ALLOCATED OR RF_SHAREABLE OR RF_TIMESHARE), r_dev := Some dev\<rparr>
             in case r_sharehead s of
                  Some h \<Rightarrow>
                    (let st2 = put_res rv (v\<lparr>r_sharehead := Some h\<rparr>) st1
                     in (Some rv, st2\<lparr>rm_share := (rm_share st2)(h \<mapsto> rv # the (rm_share st2 h))\<rparr>))
                | None \<Rightarrow>
                    (case rm_malloc st1 of
                       (None, st2) \<Rightarrow> (None, st2)
                     | (Some h, st2) \<Rightarrow>
                         (let st3 = put_res p (s\<lparr>r_sharehead := Some h, r_flags := r_flags s OR RF_FIRSTSHARE\<rparr>) st2;
                              st4 = put_res rv (v\<lparr>r_sharehead := Some h\<rparr>) st3
                          in (Some rv, st4\<lparr>rm_share := (rm_share st4)(h \<mapsto> [rv, p])\<rparr>)))))"

section \<open>Activating and releasing\<close>

definition int_rman_activate_resource :: "ptr \<Rightarrow> rman \<Rightarrow> (err \<times> ptr option) \<times> rman" where
  "int_rman_activate_resource p st =
    (let r = the_res st p; on = put_res p (r\<lparr>r_flags := r_flags r OR RF_ACTIVE\<rparr>) st
     in if r_flags r AND RF_TIMESHARE = 0 \<or> r_flags r AND RF_ACTIVE \<noteq> 0 \<or> r_sharehead r = None
        then ((None, None), on)
        else (case find (\<lambda>q. r_flags (the_res st q) AND RF_ACTIVE \<noteq> 0) (the (rm_share st (the (r_sharehead r)))) of
                Some q \<Rightarrow> ((Some EBUSY, Some q), st)
              | None \<Rightarrow> ((None, None), on)))"

definition rman_activate_resource :: "ptr \<Rightarrow> rman \<Rightarrow> err \<times> rman" where
  "rman_activate_resource p st = (case int_rman_activate_resource p st of ((e, _), st1) \<Rightarrow> (e, st1))"

text \<open>One turn of the loop of rman_await_resource: the result, or the channel to sleep on.\<close>

definition rman_await_resource :: "ptr \<Rightarrow> rman \<Rightarrow> (ptr option + err) option \<times> rman" where
  "rman_await_resource p st =
    (case int_rman_activate_resource p st of
       ((Some EBUSY, Some who), st1) \<Rightarrow>
         (if r_sharehead (the_res st1 p) = None then (None, st1)
          else let w = the_res st1 who
               in (Some (Inl (r_sharehead (the_res st1 p))), put_res who (w\<lparr>r_flags := r_flags w OR RF_WANTED\<rparr>) st1))
     | ((e, _), st1) \<Rightarrow> (Some (Inr e), st1))"

definition int_rman_deactivate_resource :: "ptr \<Rightarrow> rman \<Rightarrow> rman" where
  "int_rman_deactivate_resource p st =
    (let r = the_res st p; r1 = r\<lparr>r_flags := r_flags r AND NOT RF_ACTIVE\<rparr>
     in if r_flags r1 AND RF_WANTED \<noteq> 0
        then (put_res p (r1\<lparr>r_flags := r_flags r1 AND NOT RF_WANTED\<rparr>) st)\<lparr>rm_wakeups := rm_wakeups st @ [r_sharehead r1]\<rparr>
        else put_res p r1 st)"

definition rman_deactivate_resource :: "ptr \<Rightarrow> rman \<Rightarrow> err \<times> rman" where
  "rman_deactivate_resource p st = (None, int_rman_deactivate_resource p st)"

definition free_res :: "ptr \<Rightarrow> rman \<Rightarrow> rman" where
  "free_res p st = st\<lparr>rm_res := (rm_res st)(p := None)\<rparr>"

text \<open>Leave the sharing list; \<open>None\<close> when nobody else is on it, which the code takes for impossible.\<close>

definition rman_unshare :: "ptr \<Rightarrow> ptr \<Rightarrow> rman \<Rightarrow> rman option" where
  "rman_unshare p h st =
    (let r = the_res st p; l = remove1 p (the (rm_share st h)); st1 = st\<lparr>rm_share := (rm_share st)(h \<mapsto> l)\<rparr>
     in case l of
          [] \<Rightarrow> None
        | q # rest \<Rightarrow>
            (let st2 = (if r_flags r AND RF_FIRSTSHARE \<noteq> 0
                        then let s = the_res st1 q
                             in (put_res q (s\<lparr>r_flags := r_flags s OR RF_FIRSTSHARE\<rparr>) st1)
                                  \<lparr>rm_list := remove1 p (insert_before p q (rm_list st1))\<rparr>
                        else st1);
                 st3 = (if rest = []
                        then let s = the_res st2 q
                             in (put_res q (s\<lparr>r_sharehead := None, r_flags := r_flags s AND NOT RF_FIRSTSHARE\<rparr>) st2)
                                  \<lparr>rm_share := (rm_share st2)(h := None)\<rparr>
                        else st2)
             in Some (free_res p st3)))"

definition prev_of :: "ptr \<Rightarrow> ptr list \<Rightarrow> ptr option" where
  "prev_of p l = (let b = takeWhile (\<lambda>x. x \<noteq> p) l in if b = [] then None else Some (last b))"

definition next_of :: "ptr \<Rightarrow> ptr list \<Rightarrow> ptr option" where
  "next_of p l = (case dropWhile (\<lambda>x. x \<noteq> p) l of _ # q # _ \<Rightarrow> Some q | _ \<Rightarrow> None)"

definition is_free :: "rman \<Rightarrow> ptr option \<Rightarrow> bool" where
  "is_free st p \<longleftrightarrow> (case p of None \<Rightarrow> False | Some q \<Rightarrow> \<not> allocated (the_res st q))"

text \<open>Give the segment back and merge it with the free neighbours.\<close>

definition rman_merge :: "ptr \<Rightarrow> rman \<Rightarrow> rman" where
  "rman_merge p st =
    (let r = the_res st p; s = prev_of p (rm_list st); t = next_of p (rm_list st)
     in if is_free st s \<and> is_free st t then
          (let st1 = put_res (the s) ((the_res st (the s))\<lparr>r_end := r_end (the_res st (the t))\<rparr>) st;
               st2 = st1\<lparr>rm_list := remove1 (the t) (remove1 p (rm_list st1))\<rparr>
           in free_res p (free_res (the t) st2))
        else if is_free st s then
          (let st1 = put_res (the s) ((the_res st (the s))\<lparr>r_end := r_end r\<rparr>) st
           in free_res p (st1\<lparr>rm_list := remove1 p (rm_list st1)\<rparr>))
        else if is_free st t then
          (let st1 = put_res (the t) ((the_res st (the t))\<lparr>r_start := r_start r\<rparr>) st
           in free_res p (st1\<lparr>rm_list := remove1 p (rm_list st1)\<rparr>))
        else put_res p (r\<lparr>r_flags := r_flags r AND NOT RF_ALLOCATED\<rparr>) st)"

definition int_rman_release_resource :: "ptr \<Rightarrow> rman \<Rightarrow> rman option" where
  "int_rman_release_resource p st =
    (let st1 = (if r_flags (the_res st p) AND RF_ACTIVE \<noteq> 0 then int_rman_deactivate_resource p st else st)
     in case r_sharehead (the_res st1 p) of
          Some h \<Rightarrow> rman_unshare p h st1
        | None \<Rightarrow> Some (rman_merge p st1))"

definition rman_release_resource :: "ptr \<Rightarrow> rman \<Rightarrow> (err \<times> rman) option" where
  "rman_release_resource p st = (case int_rman_release_resource p st of None \<Rightarrow> None | Some st1 \<Rightarrow> Some (None, st1))"

section \<open>The whole reservation\<close>

definition rman_grab :: "ulong \<Rightarrow> ulong \<Rightarrow> ulong \<Rightarrow> ulong \<Rightarrow> u32 \<Rightarrow> ptr \<Rightarrow> rman \<Rightarrow> (ptr option \<times> rman) option" where
  "rman_grab start end count bound flags dev st =
    (let l = dropWhile (\<lambda>q. r_end (the_res st q) < start) (rm_list st);
         amask = push_bit (RF_ALIGNMENT flags) 1 - 1; bmask = NOT (bound - 1)
     in if l = [] then Some (None, st)
        else (case rman_scan st amask bmask bound start end count l of
            None \<Rightarrow> None
          | Some (Some (p, rstart)) \<Rightarrow> Some (rman_take p rstart count flags dev st)
          | Some None \<Rightarrow>
              (if flags AND (RF_SHAREABLE OR RF_TIMESHARE) = 0 then Some (None, st)
               else (case rman_scan_shared st amask bmask start end count flags l of
                       None \<Rightarrow> Some (None, st)
                     | Some p \<Rightarrow> Some (rman_share p dev st)))))"

definition rman_reserve_resource_bound :: "ulong \<Rightarrow> ulong \<Rightarrow> ulong \<Rightarrow> ulong \<Rightarrow> u32 \<Rightarrow> ptr \<Rightarrow> rman \<Rightarrow> (ptr option \<times> rman) option" where
  "rman_reserve_resource_bound start end count bound flags dev st =
    (let want_activate = flags AND RF_ACTIVE \<noteq> 0; flags1 = flags AND NOT RF_ACTIVE
     in case rman_grab start end count bound flags1 dev st of
          None \<Rightarrow> None
        | Some (rv, st1) \<Rightarrow>
            (case rv of
               Some p \<Rightarrow>
                 (if want_activate
                  then (case int_rman_activate_resource p st1 of
                          ((None, _), st2) \<Rightarrow> Some (Some p, st2)
                        | ((Some e, _), st2) \<Rightarrow>
                            (case int_rman_release_resource p st2 of None \<Rightarrow> None | Some st3 \<Rightarrow> Some (None, st3)))
                  else Some (Some p, st1))
             | None \<Rightarrow> Some (None, st1)))"

definition rman_reserve_resource :: "ulong \<Rightarrow> ulong \<Rightarrow> ulong \<Rightarrow> u32 \<Rightarrow> ptr \<Rightarrow> rman \<Rightarrow> (ptr option \<times> rman) option" where
  "rman_reserve_resource start end count flags dev st = rman_reserve_resource_bound start end count 0 flags dev st"

text \<open>The alignment flags for a size: the loop from bit 31 down, then one more if another bit is set.\<close>

fun top_bit :: "u32 \<Rightarrow> nat \<Rightarrow> nat" where
  "top_bit sz 0 = 0"
| "top_bit sz (Suc i) = (if push_bit (Suc i) 1 AND sz \<noteq> 0 then Suc i else top_bit sz i)"

definition rman_make_alignment_flags :: "u32 \<Rightarrow> u32" where
  "rman_make_alignment_flags sz =
     (let i = top_bit sz 31;
          i = (if NOT (push_bit i 1) AND sz \<noteq> 0 then i + 1 else i)
      in RF_ALIGNMENT_LOG2 (of_nat i))"

end
