(* ===== verification/Subr_Rman_Inv.thy ===== *)
theory Subr_Rman_Inv
  imports Subr_Rman
begin

text \<open>
  The invariant of the resource manager: the segments on the list tile the managed space without a gap, and
  the resources that share a segment stand on one sharing list, of which one is on the list. It is stated on a
  view of each resource that leaves out what does not matter to it, so that an operation that changes
  only other flags keeps it at once.
\<close>

section \<open>Flags\<close>

lemma and_mask1: "x AND push_bit n 1 \<noteq> 0 \<longleftrightarrow> bit x n" for x :: "'a::len word"
  by (simp add: bit_iff_and_push_bit_not_eq_0)

lemma flag_push:
  "RF_ALLOCATED = push_bit 0 1" "RF_ACTIVE = push_bit 1 1" "RF_SHAREABLE = push_bit 2 1" "RF_TIMESHARE = push_bit 3 1"
  "RF_WANTED = push_bit 4 1" "RF_FIRSTSHARE = push_bit 5 1"
  by (simp_all add: RF_ALLOCATED_def RF_ACTIVE_def RF_SHAREABLE_def RF_TIMESHARE_def RF_WANTED_def RF_FIRSTSHARE_def push_bit_eq_mult)

lemma flag_test:
  "x AND RF_ALLOCATED = 0 \<longleftrightarrow> \<not> bit x 0" "x AND RF_ACTIVE = 0 \<longleftrightarrow> \<not> bit x 1" "x AND RF_SHAREABLE = 0 \<longleftrightarrow> \<not> bit x 2"
  "x AND RF_TIMESHARE = 0 \<longleftrightarrow> \<not> bit x 3" "x AND RF_WANTED = 0 \<longleftrightarrow> \<not> bit x 4" "x AND RF_FIRSTSHARE = 0 \<longleftrightarrow> \<not> bit x 5"
  using and_mask1 unfolding flag_push by blast+

lemma flag_bit:
  "bit RF_ALLOCATED n \<longleftrightarrow> n = 0" "bit RF_ACTIVE n \<longleftrightarrow> n = 1" "bit RF_SHAREABLE n \<longleftrightarrow> n = 2"
  "bit RF_TIMESHARE n \<longleftrightarrow> n = 3" "bit RF_WANTED n \<longleftrightarrow> n = 4" "bit RF_FIRSTSHARE n \<longleftrightarrow> n = 5"
  unfolding flag_push bit_push_bit_iff bit_1_iff by auto

lemma not_bit: "bit (NOT x) n \<longleftrightarrow> n < 32 \<and> \<not> bit x n" for x :: u32
  by (auto simp: bit_simps)

lemmas flag_simps = flag_test flag_bit not_bit bit_or_iff bit_and_iff

section \<open>Views\<close>

record vres =
  v_start :: ulong
  v_end :: ulong
  v_alloc :: bool
  v_first :: bool
  v_share :: "ptr option"

definition view :: "resource \<Rightarrow> vres" where
  "view r = \<lparr>v_start = r_start r, v_end = r_end r, v_alloc = bit (r_flags r) 0, v_first = bit (r_flags r) 5, v_share = r_sharehead r\<rparr>"

definition views :: "rman \<Rightarrow> ptr \<rightharpoonup> vres" where "views s p = map_option view (rm_res s p)"

lemma views_put [simp]: "views (put_res p r s) = (views s)(p \<mapsto> view r)"
  by (auto simp: views_def)

lemma views_other [simp]:
  "views (s\<lparr>rm_list := l\<rparr>) = views s" "views (s\<lparr>rm_share := sh\<rparr>) = views s" "views (s\<lparr>rm_brk := b\<rparr>) = views s"
  "views (s\<lparr>rm_wakeups := w\<rparr>) = views s"
  by (auto simp: views_def)

lemma views_free [simp]: "views (s\<lparr>rm_res := (rm_res s)(p := None)\<rparr>) = (views s)(p := None)"
  by (auto simp: views_def)

lemma views_free_res [simp]: "views (free_res p s) = (views s)(p := None)" by (simp add: free_res_def)

lemma view_sel [simp]:
  "v_start (view r) = r_start r" "v_end (view r) = r_end r" "v_alloc (view r) = allocated r" "v_share (view r) = r_sharehead r"
  "v_first (view r) = (r_flags r AND RF_FIRSTSHARE \<noteq> 0)"
  by (simp_all add: view_def allocated_def flag_simps)

lemma views_some: "rm_res s p = Some r \<Longrightarrow> views s p = Some (view r)" by (simp add: views_def)

lemma views_res: "views s p = Some v \<Longrightarrow> \<exists>r. rm_res s p = Some r \<and> v = view r" by (auto simp: views_def)

section \<open>Tilings\<close>

fun tiles :: "nat \<Rightarrow> (ulong \<times> ulong) list \<Rightarrow> nat \<Rightarrow> bool" where
  "tiles a [] b \<longleftrightarrow> a = b"
| "tiles a ((s, e) # xs) b \<longleftrightarrow> unat s = a \<and> s \<le> e \<and> tiles (unat e + 1) xs b"

lemma tiles_append: "tiles a (xs @ ys) b \<longleftrightarrow> (\<exists>m. tiles a xs m \<and> tiles m ys b)"
  by (induction xs arbitrary: a) auto

lemma tiles_le: "tiles a xs b \<Longrightarrow> a \<le> b"
proof (induction xs arbitrary: a)
  case (Cons x xs)
  obtain s e where x: "x = (s, e)" by fastforce
  then show ?case using Cons by (fastforce simp: word_le_nat_alt)
qed simp

lemma tiles_in: "tiles a xs b \<Longrightarrow> (s, e) \<in> set xs \<Longrightarrow> a \<le> unat s \<and> s \<le> e \<and> unat e < b"
proof (induction xs arbitrary: a)
  case (Cons x xs)
  obtain s' e' where x: "x = (s', e')" by fastforce
  have t: "tiles (unat e' + 1) xs b" "unat s' = a" "s' \<le> e'" using Cons.prems x by auto
  show ?case
  proof (cases "(s, e) = (s', e')")
    case True
    then show ?thesis using t tiles_le [OF t(1)] by simp
  next
    case False
    then have "(s, e) \<in> set xs" using Cons.prems x by auto
    from Cons.IH [OF t(1) this] show ?thesis using t(2,3) by (simp add: word_le_nat_alt)
  qed
qed simp

text \<open>A unit is in one tile only.\<close>

lemma tiles_meet:
  assumes "tiles a xs b" and "i < length xs" and "j < length xs" and "xs ! i = (s, e)" and "xs ! j = (s', e')"
    and "s \<le> x" and "x \<le> e" and "s' \<le> x" and "x \<le> e'"
  shows "i = j"
proof -
  have lt: False if ij: "i < j" "j < length xs" and a: "tiles a xs b" "xs ! i = (s, e)" "xs ! j = (s', e')" "s' \<le> x" "x \<le> e"
    for i j s e s' e'
  proof -
    have "xs = take j xs @ drop j xs" by simp
    then obtain m where m: "tiles a (take j xs) m" "tiles m (drop j xs) b" using a(1) tiles_append by metis
    have "(s, e) \<in> set (take j xs)" using ij a(2) by (auto simp: in_set_conv_nth intro: exI [of _ i])
    then have "unat e < m" using tiles_in [OF m(1)] by blast
    moreover have "(s', e') \<in> set (drop j xs)" using ij a(3) by (metis Cons_nth_drop_Suc list.set_intros(1))
    then have "m \<le> unat s'" using tiles_in [OF m(2)] by blast
    ultimately show False using a(4,5) by (simp add: word_le_nat_alt)
  qed
  show ?thesis using lt [of i j s e s' e'] lt [of j i s' e' s e] assms by (cases i j rule: linorder_cases) auto
qed

section \<open>The invariant\<close>

definition seg :: "(ptr \<rightharpoonup> vres) \<Rightarrow> ptr \<Rightarrow> ulong \<times> ulong" where
  "seg V p = (v_start (the (V p)), v_end (the (V p)))"

definition listed :: "(ptr \<rightharpoonup> vres) \<Rightarrow> ptr list \<Rightarrow> bool" where
  "listed V l \<longleftrightarrow> distinct l \<and> (\<forall>p \<in> set l. V p \<noteq> None)"

definition owned :: "ptr list \<Rightarrow> (ptr \<rightharpoonup> ptr list) \<Rightarrow> ptr \<Rightarrow> vres \<Rightarrow> bool" where
  "owned l S p v \<longleftrightarrow>
     (case v_share v of
        None \<Rightarrow> p \<in> set l \<and> \<not> v_first v
      | Some h \<Rightarrow> v_alloc v \<and> (v_first v \<longleftrightarrow> p \<in> set l) \<and> (\<exists>L. S h = Some L \<and> p \<in> set L))"

definition sharing :: "(ptr \<rightharpoonup> vres) \<Rightarrow> ptr list \<Rightarrow> ptr \<Rightarrow> ptr list \<Rightarrow> bool" where
  "sharing V l h L \<longleftrightarrow> distinct L \<and> 2 \<le> length L \<and> (\<exists>q \<in> set L. q \<in> set l) \<and>
     (\<forall>p \<in> set L. \<exists>v. V p = Some v \<and> v_share v = Some h) \<and> (\<exists>t. \<forall>p \<in> set L. seg V p = t)"

definition rinv :: "nat \<Rightarrow> nat \<Rightarrow> ptr list \<Rightarrow> (ptr \<rightharpoonup> vres) \<Rightarrow> (ptr \<rightharpoonup> ptr list) \<Rightarrow> bool" where
  "rinv lo hi l V S \<longleftrightarrow> listed V l \<and> tiles lo (map (seg V) l) hi \<and> (\<forall>p v. V p = Some v \<longrightarrow> owned l S p v) \<and>
     (\<forall>h L. S h = Some L \<longrightarrow> sharing V l h L)"

definition rman_inv :: "nat \<Rightarrow> nat \<Rightarrow> rman \<Rightarrow> bool" where
  "rman_inv lo hi s \<longleftrightarrow> rinv lo hi (rm_list s) (views s) (rm_share s) \<and>
     (\<forall>p. rm_brk s \<le> p \<longrightarrow> rm_res s p = None \<and> rm_share s p = None)"

lemma sharing_member: "sharing V l h L \<Longrightarrow> p \<in> set L \<Longrightarrow> \<exists>v. V p = Some v \<and> v_share v = Some h"
  by (simp add: sharing_def)

lemma sharing_seg: "sharing V l h L \<Longrightarrow> p \<in> set L \<Longrightarrow> q \<in> set L \<Longrightarrow> seg V p = seg V q"
  by (auto simp: sharing_def)

lemma rinvI:
  "listed V l \<Longrightarrow> tiles lo (map (seg V) l) hi \<Longrightarrow> (\<And>p v. V p = Some v \<Longrightarrow> owned l S p v) \<Longrightarrow>
   (\<And>h L. S h = Some L \<Longrightarrow> sharing V l h L) \<Longrightarrow> rinv lo hi l V S"
  by (simp add: rinv_def)

lemma rinvD:
  assumes "rinv lo hi l V S"
  shows "listed V l" and "tiles lo (map (seg V) l) hi" and "V p = Some v \<Longrightarrow> owned l S p v" and "S h = Some L \<Longrightarrow> sharing V l h L"
  using assms by (auto simp: rinv_def)

lemma sharing_same:
  assumes "sharing V l h L" and same: "\<And>q. q \<in> set L \<Longrightarrow> V' q = V q" and on: "\<And>q. q \<in> set L \<Longrightarrow> q \<in> set l \<Longrightarrow> q \<in> set l'"
  shows "sharing V' l' h L"
proof -
  have "seg V' q = seg V q" if "q \<in> set L" for q using same [OF that] by (simp add: seg_def)
  then have "\<exists>t. \<forall>p \<in> set L. seg V' p = t" using assms(1) by (simp add: sharing_def)
  moreover have "\<forall>p \<in> set L. \<exists>v. V' p = Some v \<and> v_share v = Some h" using sharing_member [OF assms(1)] same by metis
  moreover have "\<exists>q \<in> set L. q \<in> set l'" using assms(1) on unfolding sharing_def by blast
  moreover have "distinct L" "2 \<le> length L" using assms(1) by (simp_all add: sharing_def)
  ultimately show ?thesis unfolding sharing_def by blast
qed

text \<open>A run of segments that nobody shares is replaced by another that covers the same units.\<close>

lemma rinv_replace:
  assumes inv: "rinv lo hi (xs @ bs @ ys) V S"
    and unshared: "\<And>b. b \<in> set bs \<Longrightarrow> v_share (the (V b)) = None"
    and fresh: "\<And>q. q \<in> set qs \<Longrightarrow> q \<in> set bs \<or> V q = None" and dist: "distinct qs"
    and new: "\<And>q. q \<in> set qs \<Longrightarrow> \<exists>v. V' q = Some v \<and> v_share v = None \<and> \<not> v_first v"
    and gone: "\<And>b. b \<in> set bs \<Longrightarrow> b \<notin> set qs \<Longrightarrow> V' b = None"
    and same: "\<And>p. p \<notin> set bs \<Longrightarrow> p \<notin> set qs \<Longrightarrow> V' p = V p"
    and tile: "\<And>a b. tiles a (map (seg V) bs) b \<Longrightarrow> tiles a (map (seg V') qs) b"
  shows "rinv lo hi (xs @ qs @ ys) V' S"
proof (rule rinvI)
  note d = rinvD [OF inv]
  have live: "V p \<noteq> None" if "p \<in> set xs \<union> set ys" for p using d(1) that by (auto simp: listed_def)
  have out: "p \<notin> set bs" "p \<notin> set qs" if "p \<in> set xs \<union> set ys" for p
  proof -
    show b: "p \<notin> set bs" using d(1) that by (auto simp: listed_def)
    show "p \<notin> set qs" using fresh [of p] live [OF that] b by auto
  qed
  have seg_same: "seg V' p = seg V p" if "p \<notin> set bs" "p \<notin> set qs" for p using same [OF that] by (simp add: seg_def)
  show "listed V' (xs @ qs @ ys)"
  proof -
    have "V' p \<noteq> None" if "p \<in> set (xs @ qs @ ys)" for p
    proof (cases "p \<in> set qs")
      case False
      then have "p \<in> set xs \<union> set ys" using that by auto
      then show ?thesis using live same out by metis
    qed (use new in blast)
    moreover have "distinct (xs @ qs @ ys)" using d(1) dist out unfolding listed_def by auto
    ultimately show ?thesis by (simp add: listed_def)
  qed
  have m: "map (seg V') xs = map (seg V) xs" "map (seg V') ys = map (seg V) ys" using out seg_same by auto
  show "tiles lo (map (seg V') (xs @ qs @ ys)) hi"
    using d(2) tile unfolding map_append tiles_append m by blast
  show "owned (xs @ qs @ ys) S p v" if v: "V' p = Some v" for p v
  proof (cases "p \<in> set qs")
    case True
    then show ?thesis using new [OF True] v by (auto simp: owned_def)
  next
    case False
    then have "p \<notin> set bs" using gone v by auto
    then have "V p = Some v" using same [OF _ False] v by simp
    from d(3) [OF this] show ?thesis using \<open>p \<notin> set bs\<close> False by (auto simp: owned_def split: option.splits)
  qed
  show "sharing V' (xs @ qs @ ys) h L" if L: "S h = Some L" for h L
  proof -
    have o: "p \<notin> set bs" "p \<notin> set qs" if pL: "p \<in> set L" for p
    proof -
      obtain v where v: "V p = Some v" "v_share v = Some h" using sharing_member [OF d(4) [OF L] pL] by blast
      show b: "p \<notin> set bs" using unshared [of p] v by auto
      show "p \<notin> set qs" using fresh [of p] v b by auto
    qed
    have v: "V' q = V q" if "q \<in> set L" for q using same [OF o [OF that]] .
    have on: "q \<in> set (xs @ qs @ ys)" if "q \<in> set L" "q \<in> set (xs @ bs @ ys)" for q using that(2) o(1) [OF that(1)] by auto
    show ?thesis using sharing_same [OF d(4) [OF L] v on] .
  qed
qed


section \<open>Disjoint holders\<close>

lemma rinv_rep:
  assumes inv: "rinv lo hi l V S" and p: "V p = Some v"
  shows "\<exists>m \<in> set l. seg V m = seg V p \<and> (m = p \<and> v_share v = None \<or> (\<exists>h. v_share v = Some h \<and> (\<exists>w. V m = Some w \<and> v_share w = Some h)))"
proof (cases "v_share v")
  case None
  then show ?thesis using rinvD(3) [OF inv p] by (auto simp: owned_def)
next
  case (Some h)
  then obtain L where L: "S h = Some L" "p \<in> set L" using rinvD(3) [OF inv p] by (auto simp: owned_def)
  note sh = rinvD(4) [OF inv L(1)]
  obtain m where "m \<in> set L" "m \<in> set l" using sh by (auto simp: sharing_def)
  moreover have "seg V m = seg V p" using sharing_seg [OF sh \<open>m \<in> set L\<close> L(2)] .
  moreover have "\<exists>w. V m = Some w \<and> v_share w = Some h" using sharing_member [OF sh \<open>m \<in> set L\<close>] .
  ultimately show ?thesis using Some by blast
qed

lemma rinv_disjoint:
  assumes inv: "rinv lo hi l V S" and p: "V p = Some v" and q: "V q = Some w" and ne: "p \<noteq> q"
    and x: "v_start v \<le> x" "x \<le> v_end v" "v_start w \<le> x" "x \<le> v_end w"
  shows "\<exists>h. v_share v = Some h \<and> v_share w = Some h \<and> seg V p = seg V q"
proof -
  obtain m where m: "m \<in> set l" "seg V m = seg V p" "m = p \<and> v_share v = None \<or> (\<exists>h. v_share v = Some h \<and> (\<exists>w. V m = Some w \<and> v_share w = Some h))"
    using rinv_rep [OF inv p] by blast
  obtain n where n: "n \<in> set l" "seg V n = seg V q" "n = q \<and> v_share w = None \<or> (\<exists>h. v_share w = Some h \<and> (\<exists>w. V n = Some w \<and> v_share w = Some h))"
    using rinv_rep [OF inv q] by blast
  obtain i j where ij: "i < length l" "l ! i = m" "j < length l" "l ! j = n" using m(1) n(1) by (auto simp: in_set_conv_nth)
  have sv: "seg V p = (v_start v, v_end v)" "seg V q = (v_start w, v_end w)" using p q by (auto simp: seg_def)
  have "i = j"
    by (rule tiles_meet [OF rinvD(2) [OF inv], where x = x and s = "v_start v" and e = "v_end v" and s' = "v_start w" and e' = "v_end w"])
       (use ij m(2) n(2) sv x in auto)
  then have mn: "m = n" using ij by simp
  then show ?thesis using m n p q ne by auto
qed

section \<open>Sharing\<close>

lemma listed_same: "listed V l \<Longrightarrow> (\<And>p. p \<in> set l \<Longrightarrow> V' p \<noteq> None) \<Longrightarrow> listed V' l" by (simp add: listed_def)

text \<open>The first sharer joins p: a new list with the two.\<close>

lemma rinv_share_new:
  assumes inv: "rinv lo hi l V S" and p: "V p = Some v" "p \<in> set l" "v_share v = None" "v_alloc v"
    and rv: "V rv = None" and h: "S h = None"
    and V': "V' = V(p \<mapsto> v\<lparr>v_first := True, v_share := Some h\<rparr>, rv \<mapsto> w)"
    and w: "v_start w = v_start v" "v_end w = v_end v" "v_alloc w" "\<not> v_first w" "v_share w = Some h"
  shows "rinv lo hi l V' (S(h \<mapsto> [rv, p]))"
proof (rule rinvI)
  note d = rinvD [OF inv]
  have ne: "rv \<noteq> p" using p rv by auto
  have rvl: "rv \<notin> set l" using d(1) rv by (auto simp: listed_def)
  have s: "seg V' q = seg V q" if "q \<noteq> rv" for q using that p ne by (auto simp: seg_def V')
  have sr: "seg V' rv = seg V p" using w p by (simp add: seg_def V')
  show "listed V' l" by (rule listed_same [OF d(1)]) (use d(1) in \<open>auto simp: V' listed_def\<close>)
  have "map (seg V') l = map (seg V) l" by (intro map_cong refl s) (use rvl in auto)
  then show "tiles lo (map (seg V') l) hi" using d(2) by (simp only:)
  show "owned l (S(h \<mapsto> [rv, p])) q u" if u: "V' q = Some u" for q u
  proof (cases "q = rv \<or> q = p")
    case True
    then show ?thesis using u p w rvl ne by (auto simp: owned_def V' split: if_splits)
  next
    case False
    then have "V q = Some u" using u by (simp add: V')
    from d(3) [OF this] show ?thesis using h by (auto simp: owned_def split: option.splits)
  qed
  show "sharing V' l k L" if L: "(S(h \<mapsto> [rv, p])) k = Some L" for k L
  proof (cases "k = h")
    case True
    then have "L = [rv, p]" using L by simp
    then show ?thesis using True ne p w s sr by (auto simp: sharing_def V')
  next
    case False
    then have Sk: "S k = Some L" using L by simp
    have no: "q \<noteq> rv" "q \<noteq> p" if "q \<in> set L" for q
      using d(4) [OF Sk] that rv p by (auto simp: sharing_def)
    have v: "V' q = V q" if "q \<in> set L" for q using no [OF that] by (simp add: V')
    show ?thesis using sharing_same [OF d(4) [OF Sk] v] .
  qed
qed

text \<open>One more sharer joins the list h.\<close>

lemma rinv_share_more:
  assumes inv: "rinv lo hi l V S" and p: "V p = Some v" "v_share v = Some h" and rv: "V rv = None" and L: "S h = Some L"
    and w: "v_start w = v_start v" "v_end w = v_end v" "v_alloc w" "\<not> v_first w" "v_share w = Some h"
  shows "rinv lo hi l (V(rv \<mapsto> w)) (S(h \<mapsto> rv # L))"
proof (rule rinvI)
  note d = rinvD [OF inv]
  let ?V = "V(rv \<mapsto> w)"
  have rvl: "rv \<notin> set l" using d(1) rv by (auto simp: listed_def)
  have s: "seg ?V q = seg V q" if "q \<noteq> rv" for q using that by (auto simp: seg_def)
  have sr: "seg ?V rv = seg V p" using w p by (simp add: seg_def)
  have pL: "p \<in> set L" using d(3) [OF p(1)] p L by (auto simp: owned_def)
  have rvL: "rv \<notin> set L" using d(4) [OF L] rv by (auto simp: sharing_def)
  show "listed ?V l" by (rule listed_same [OF d(1)]) (use d(1) in \<open>auto simp: listed_def\<close>)
  have "map (seg ?V) l = map (seg V) l" by (intro map_cong refl s) (use rvl in auto)
  then show "tiles lo (map (seg ?V) l) hi" using d(2) by (simp only:)
  show "owned l (S(h \<mapsto> rv # L)) q u" if u: "?V q = Some u" for q u
  proof (cases "q = rv")
    case True
    then show ?thesis using u w rvl by (auto simp: owned_def)
  next
    case False
    then have "V q = Some u" using u by simp
    from d(3) [OF this] show ?thesis using L by (auto simp: owned_def split: option.splits)
  qed
  show "sharing ?V l k M" if M: "(S(h \<mapsto> rv # L)) k = Some M" for k M
  proof (cases "k = h")
    case True
    then have Meq: "M = rv # L" using M by simp
    have "seg ?V q = seg V p" if "q \<in> set M" for q
      using that Meq s [of q] sr sharing_seg [OF d(4) [OF L] _ pL] by (cases "q = rv") auto
    moreover have "\<exists>v. ?V q = Some v \<and> v_share v = Some h" if "q \<in> set M" for q
      using that Meq w sharing_member [OF d(4) [OF L]] by auto
    moreover have "distinct M" "2 \<le> length M" "\<exists>q \<in> set M. q \<in> set l" using Meq rvL d(4) [OF L] by (auto simp: sharing_def)
    ultimately show ?thesis using True unfolding sharing_def by blast
  next
    case False
    then have Sk: "S k = Some M" using M by simp
    have v: "?V q = V q" if "q \<in> set M" for q using sharing_member [OF d(4) [OF Sk] that] rv by auto
    show ?thesis using sharing_same [OF d(4) [OF Sk] v] .
  qed
qed


text \<open>Leaving a list. The member that is on the list of segments hands its place to another.\<close>

lemma replace_split: "distinct l \<Longrightarrow> p \<in> set l \<Longrightarrow> \<exists>xs ys. l = xs @ p # ys \<and> p \<notin> set xs \<and> p \<notin> set ys"
  by (metis distinct.simps(2) distinct_append in_set_conv_decomp_first)

text \<open>What stays when p leaves: q takes its place when p is on the list, and is alone when the rest is q only.\<close>

lemma rinv_unshare:
  assumes inv: "rinv lo hi l V S" and p: "V p = Some v" "v_share v = Some h" and L: "S h = Some L"
    and rest: "remove1 p L = q # rest" and vq: "V q = Some u"
    and l': "l' = (if v_first v then map (\<lambda>x. if x = p then q else x) l else l)"
    and u': "u' = u\<lparr>v_first := (v_first v \<or> v_first u) \<and> rest \<noteq> [], v_share := (if rest = [] then None else Some h)\<rparr>"
    and S': "S' = S(h := (if rest = [] then None else Some (q # rest)))"
  shows "rinv lo hi l' (V(q \<mapsto> u', p := None)) S'"
proof -
  note d = rinvD [OF inv]
  note sh = d(4) [OF L, unfolded sharing_def]
  have pL: "p \<in> set L" using d(3) [OF p(1)] p L by (auto simp: owned_def)
  have setL: "set L = insert p (set (q # rest))" "p \<notin> set (q # rest)" "distinct (q # rest)"
  proof -
    have "distinct L" using sh by blast
    then show "p \<notin> set (q # rest)" "distinct (q # rest)" using rest [symmetric] by (simp_all add: distinct_remove1)
    show "set L = insert p (set (q # rest))" using rest [symmetric] pL \<open>distinct L\<close> by (auto simp: set_remove1_eq)
  qed
  have qp: "q \<noteq> p" using setL by auto
  have same_seg: "seg V x = seg V p" if "x \<in> set L" for x using sharing_seg [OF d(4) [OF L] that pL] .
  have own: "v_alloc w \<and> v_share w = Some h \<and> (v_first w \<longleftrightarrow> x \<in> set l)" if "x \<in> set L" "V x = Some w" for x w
  proof -
    have s: "v_share w = Some h" using sh that by fastforce
    then show ?thesis using d(3) [OF that(2)] by (simp add: owned_def)
  qed
  have uniq: "x = y" if mem: "x \<in> set L" "y \<in> set L" "x \<in> set l" "y \<in> set l" for x y
  proof -
    obtain i j where ij: "i < length l" "l ! i = x" "j < length l" "l ! j = y" using mem(3,4) by (auto simp: in_set_conv_nth)
    obtain s e where se: "seg V p = (s, e)" by fastforce
    have seg: "seg V x = (s, e)" "seg V y = (s, e)" using same_seg mem(1,2) se by auto
    have "(s, e) \<in> set (map (seg V) l)" using mem(3) seg(1) by (metis image_eqI image_set)
    then have "s \<le> e" using tiles_in [OF d(2)] by blast
    then have "i = j"
      by (intro tiles_meet [OF d(2), where x = s and s = s and e = e and s' = s and e' = e]) (use ij seg in auto)
    then show ?thesis using ij by simp
  qed
  let ?V = "V(q \<mapsto> u', p := None)"
  have seg': "seg ?V x = seg V x" if "x \<noteq> p" for x using that vq by (auto simp: seg_def u')
  have l'_in: "x \<in> set l' \<longleftrightarrow> (if v_first v then (x \<in> set l \<and> x \<noteq> p) \<or> x = q else x \<in> set l)" for x
    using own [OF pL p(1)] by (auto simp: l' split: if_splits)
  have no_p: "p \<notin> set l'" using own [OF pL p(1)] qp by (auto simp: l'_in)
  have ql: "q \<notin> set l" if "v_first v" using uniq [of p q] own [OF pL p(1)] that qp pL setL by auto
  show ?thesis
  proof (rule rinvI)
    have "distinct l'"
    proof (cases "v_first v")
      case True
      then show ?thesis using d(1) ql by (auto simp: l' listed_def distinct_map inj_on_def)
    qed (use d(1) in \<open>simp add: l' listed_def\<close>)
    then show "listed ?V l'" using d(1) no_p by (auto simp: listed_def l'_in split: if_splits)
    have "map (seg ?V) l' = map (seg V) l"
    proof (cases "v_first v")
      case True
      have "seg ?V (if x = p then q else x) = seg V x" for x
        using seg' [of x] seg' [OF qp] same_seg [of q] setL by auto
      then show ?thesis using True by (simp add: l' comp_def)
    next
      case False
      have "map (seg ?V) l = map (seg V) l" by (intro map_cong refl seg') (use no_p False in \<open>auto simp: l'\<close>)
      then show ?thesis using False by (simp add: l')
    qed
    then show "tiles lo (map (seg ?V) l') hi" using d(2) by (simp only:)
    show "owned l' S' x w" if w: "?V x = Some w" for x w
    proof (cases "x = q")
      case True
      then have "w = u'" using w qp by simp
      moreover have "v_alloc u \<and> v_share u = Some h \<and> (v_first u \<longleftrightarrow> q \<in> set l)" using own [of q u] vq setL by auto
      moreover have "q \<in> set l' \<longleftrightarrow> v_first v \<or> q \<in> set l" by (auto simp: l'_in)
      moreover have "q \<in> set l'" if "rest = []"
      proof -
        obtain y where "y \<in> set L" "y \<in> set l" using sh by blast
        then show ?thesis using setL(1) that own [OF pL p(1)] by (auto simp: l'_in)
      qed
      ultimately show ?thesis using True by (auto simp: owned_def u' S')
    next
      case False
      have x: "V x = Some w" "x \<noteq> p" using w False by (auto split: if_splits)
      have mem: "x \<in> set l' \<longleftrightarrow> x \<in> set l" using False x(2) by (auto simp: l'_in)
      show ?thesis
      proof (cases "v_share w = Some h")
        case True
        then have xL: "x \<in> set L" using d(3) [OF x(1)] L by (auto simp: owned_def)
        then have "rest \<noteq> []" using setL(1) False x(2) by auto
        then show ?thesis using d(3) [OF x(1)] True mem xL setL False x(2) by (auto simp: owned_def S')
      next
        case False
        then show ?thesis using d(3) [OF x(1)] mem by (auto simp: owned_def S' split: option.splits)
      qed
    qed
    show "sharing ?V l' k M" if M: "S' k = Some M" for k M
    proof (cases "k = h")
      case True
      then have Meq: "M = q # rest" and ne: "rest \<noteq> []" using M by (auto simp: S' split: if_splits)
      have sub: "x \<in> set L" "x \<noteq> p" if "x \<in> set M" for x using that Meq setL by auto
      have "\<exists>x \<in> set M. x \<in> set l'"
      proof -
        obtain y where y: "y \<in> set L" "y \<in> set l" using sh by blast
        show ?thesis
        proof (cases "v_first v")
          case False
          then have "y \<noteq> p" using own [OF pL p(1)] y by auto
          then have "y \<in> set M" using y Meq setL by auto
          then show ?thesis using y False by (auto simp: l')
        qed (auto simp: Meq l'_in)
      qed
      moreover have "\<exists>w. ?V x = Some w \<and> v_share w = Some h" if "x \<in> set M" for x
        using sh sub [OF that] ne by (cases "x = q") (auto simp: u')
      moreover have "seg ?V x = seg ?V y" if "x \<in> set M" "y \<in> set M" for x y
        using seg' sub [OF that(1)] sub [OF that(2)] same_seg by metis
      moreover have "distinct M" "2 \<le> length M" using setL(3) Meq ne by (auto simp: Suc_le_eq)
      ultimately show ?thesis using True unfolding sharing_def by blast
    next
      case False
      then have Sk: "S k = Some M" using M by (simp add: S')
      have no: "x \<noteq> p" "x \<noteq> q" if xM: "x \<in> set M" for x
      proof -
        obtain w where "V x = Some w" "v_share w = Some k" using sharing_member [OF d(4) [OF Sk] xM] by blast
        moreover have "v_share u = Some h" using own [OF _ vq] setL(1) by simp
        ultimately show "x \<noteq> p" "x \<noteq> q" using p vq False by force+
      qed
      have v: "?V x = V x" if "x \<in> set M" for x using no [OF that] by simp
      have on: "x \<in> set l'" if "x \<in> set M" "x \<in> set l" for x using no [OF that(1)] that(2) by (simp add: l'_in)
      show ?thesis using sharing_same [OF d(4) [OF Sk] v on] .
    qed
  qed
qed

end
