(* ===== verification/Subr_Rman_Ops.thy ===== *)
theory Subr_Rman_Ops
  imports Subr_Rman_Inv
begin

text \<open>
  What the operations of the resource manager do to the list and to the views: the adjustment of the start to
  alignment and boundary, the choice of a segment, the splitting, the sharing and the merging.
\<close>

section \<open>Alignment\<close>

lemma mask_push: "push_bit k 1 - 1 = (mask k :: ulong)"
  by (simp add: mask_eq_exp_minus_1 push_bit_eq_mult)

lemma unat_pow_ulong:
  assumes "k < 32"
  shows "unat (2 ^ k :: ulong) = 2 ^ k"
proof -
  have "(2 ^ k :: ulong) = of_nat (2 ^ k)" by simp
  then have "unat (2 ^ k :: ulong) = 2 ^ k mod 2 ^ LENGTH(32)" by (simp only: unat_of_nat)
  moreover have "(2::nat) ^ k < 2 ^ LENGTH(32)" using assms by (intro power_strict_increasing) simp_all
  ultimately show ?thesis by (simp only: mod_less)
qed

lemma unat_mask_ulong: "k < 32 \<Longrightarrow> unat (mask k :: ulong) = 2 ^ k - 1"
proof -
  assume k: "k < 32"
  then have "(2 ^ k :: ulong) \<noteq> 0" using unat_pow_ulong [OF k] by force
  then show ?thesis by (simp add: mask_eq_exp_minus_1 unat_minus_one unat_pow_ulong [OF k])
qed

lemma unat_and_mask: "unat (x AND mask k :: ulong) = unat x mod 2 ^ k"
  by (simp flip: take_bit_eq_mask add: unsigned_take_bit_eq) (simp add: take_bit_eq_mod)

lemma and_not_mask_minus: "x AND NOT (mask k) = x - (x AND mask k)" for x :: ulong
proof -
  have "(x AND NOT (mask k)) + (x AND mask k) = (x AND NOT (mask k)) OR (x AND mask k)"
    by (rule disjunctive_add) (auto simp: bit_and_iff bit_not_iff)
  also have "\<dots> = x" by (rule bit_word_eqI) (auto simp: bit_simps)
  finally show ?thesis by (simp add: algebra_simps)
qed

lemma unat_and_not_mask: "unat (x AND NOT (mask k) :: ulong) = unat x - unat x mod 2 ^ k"
proof -
  have "x AND mask k \<le> x" by (simp add: word_le_nat_alt unat_and_mask)
  then show ?thesis by (simp add: and_not_mask_minus unat_sub unat_and_mask)
qed

lemma aligned_iff: "x AND mask k = 0 \<longleftrightarrow> 2 ^ k dvd unat x" for x :: ulong
  by (metis unat_and_mask mod_eq_0_iff_dvd unat_eq_zero)

lemma round_up:
  assumes k: "k < 32" and w: "unat x + 2 ^ k \<le> 2 ^ 32"
  shows "unat x \<le> unat ((x + mask k) AND NOT (mask k) :: ulong)" and "unat ((x + mask k) AND NOT (mask k)) < unat x + 2 ^ k"
    and "((x + mask k) AND NOT (mask k)) AND mask k = 0"
proof -
  have p: "(0::nat) < 2 ^ k" by simp
  have s: "unat (x + mask k) = unat x + (2 ^ k - 1)"
    using w p by (subst unat_add_lem [THEN iffD1]) (simp_all add: unat_mask_ulong [OF k])
  have m: "unat (x + mask k) mod 2 ^ k < 2 ^ k" by simp
  show "unat x \<le> unat ((x + mask k) AND NOT (mask k))" using m p unfolding unat_and_not_mask s by linarith
  show "unat ((x + mask k) AND NOT (mask k)) < unat x + 2 ^ k" using p unfolding unat_and_not_mask s by linarith
  show "((x + mask k) AND NOT (mask k)) AND mask k = 0" by (rule bit_word_eqI) (auto simp: bit_simps)
qed

lemma round_aligned: "x AND mask k = 0 \<Longrightarrow> (x + mask k) AND NOT (mask k) = x" for x :: ulong
proof -
  assume a: "x AND mask k = 0"
  have d: "x + mask k = x OR mask k"
  proof (rule disjunctive_add)
    fix n show "\<not> bit x n \<or> \<not> bit (mask k :: ulong) n" using arg_cong [OF a, of "\<lambda>y. bit y n"] by (simp add: bit_and_iff)
  qed
  show ?thesis
  proof (rule bit_word_eqI)
    fix n assume "n < LENGTH(32)"
    then show "bit ((x + mask k) AND NOT (mask k)) n = bit x n"
      using arg_cong [OF a, of "\<lambda>y. bit y n"] unfolding d by (auto simp: bit_and_iff bit_or_iff bit_not_iff)
  qed
qed

section \<open>The adjusted start\<close>

text \<open>The requests for which the loop of the code is exact: no boundary, or a power of two that is a multiple of
  the alignment and not below the size.\<close>

definition good_bound :: "nat \<Rightarrow> ulong \<Rightarrow> ulong \<Rightarrow> bool" where
  "good_bound k bound count \<longleftrightarrow> k < 32 \<and> (bound = 0 \<or> (\<exists>b. k \<le> b \<and> b < 32 \<and> bound = push_bit b 1 \<and> count \<le> bound))"

lemma next_boundary:
  assumes b: "b < 32" and w: "unat x + 2 ^ b < 2 ^ 32"
  defines "y \<equiv> (x + (push_bit b 1 - (x AND mask b)) :: ulong)"
  shows "unat x < unat y" and "unat y \<le> unat x + 2 ^ b" and "2 ^ b dvd unat y"
proof -
  have p: "unat (push_bit b 1 :: ulong) = 2 ^ b" using b by (simp add: push_bit_eq_mult unat_pow_ulong)
  have m: "unat x mod 2 ^ b < 2 ^ b" by simp
  have "x AND mask b \<le> push_bit b 1" using m by (simp only: word_le_nat_alt p unat_and_mask)
  then have d: "unat (push_bit b 1 - (x AND mask b)) = 2 ^ b - unat x mod 2 ^ b" by (simp only: unat_sub p unat_and_mask)
  have y: "unat y = unat x + (2 ^ b - unat x mod 2 ^ b)"
    unfolding y_def d [symmetric] using w by (subst unat_add_lem [THEN iffD1]) (simp_all only: d, simp)
  show "unat x < unat y" "unat y \<le> unat x + 2 ^ b" unfolding y using m by linarith+
  have "unat y = (unat x div 2 ^ b) * 2 ^ b + 2 ^ b"
    unfolding y using m div_mult_mod_eq [of "unat x" "2 ^ b"] by linarith
  then show "2 ^ b dvd unat y" by simp
qed

lemma no_cross:
  fixes x c :: ulong
  assumes a: "x AND mask b = 0" and c: "unat c \<le> 2 ^ b" "0 < c" and b: "b < 32"
  shows "(x XOR (x + c - 1)) AND NOT (mask b) = 0"
proof -
  have "c \<noteq> 0" using c(2) by auto
  moreover have "0 < unat c" using c(2) by (simp add: word_less_nat_alt)
  ultimately have "unat (c - 1) < 2 ^ b" using unat_minus_one [of c] c(1) by linarith
  then have "unat (take_bit b (c - 1)) = unat (c - 1)" by (simp only: unsigned_take_bit_eq take_bit_nat_eq_self)
  then have c1: "take_bit b (c - 1) = c - 1" by (rule unsigned_word_eqI)
  have cb: "bit (c - 1) n \<Longrightarrow> n < b" for n by (metis c1 bit_take_bit_iff)
  have xb: "bit x n \<Longrightarrow> n < 32 \<Longrightarrow> b \<le> n" for n
    using arg_cong [OF a, of "\<lambda>y. bit y n"] by (auto simp: bit_and_iff bit_mask_iff)
  have "x + (c - 1) = x OR (c - 1)"
  proof (rule disjunctive_add)
    fix n show "\<not> bit x n \<or> \<not> bit (c - 1) n" using cb [of n] xb [of n] b by fastforce
  qed
  then have s: "x + c - 1 = x OR (c - 1)" by (simp add: algebra_simps)
  show ?thesis unfolding s
  proof (rule bit_word_eqI)
    fix n assume "n < LENGTH(32)"
    then show "bit ((x XOR (x OR (c - 1))) AND NOT (mask b)) n = bit (0 :: ulong) n"
      using cb [of n] by (auto simp: bit_and_iff bit_xor_iff bit_or_iff bit_not_iff bit_mask_iff)
  qed
qed

lemma adjust:
  assumes g: "good_bound k bound count" and w: "unat x + 2 ^ k + unat bound < 2 ^ 32" and c: "0 < count"
  shows "\<exists>r. rman_adjust (mask k) (NOT (bound - 1)) bound count end send x = Some r \<and> x \<le> r \<and> r AND mask k = 0 \<and>
    (r XOR (r + count - 1)) AND NOT (bound - 1) = 0 \<and> unat r < unat x + 2 ^ k + unat bound"
proof -
  define r1 where "r1 = (x + mask k) AND NOT (mask k)"
  have k: "k < 32" using g by (simp add: good_bound_def)
  have r1: "unat x \<le> unat r1" "unat r1 < unat x + 2 ^ k" "r1 AND mask k = 0"
    using round_up [OF k, of x] w by (simp_all add: r1_def)
  show ?thesis
  proof (cases "(r1 XOR (r1 + count - 1)) AND NOT (bound - 1) = 0")
    case True
    then have "rman_adjust (mask k) (NOT (bound - 1)) bound count end send x = Some r1"
      using r1(3) by (subst rman_adjust.simps) (simp add: Let_def r1_def [symmetric])
    then show ?thesis using r1 True by (intro exI [of _ r1]) (simp add: word_le_nat_alt)
  next
    case False
    then have "bound \<noteq> 0" by auto
    then obtain b where b: "k \<le> b" "b < 32" "bound = push_bit b 1" "count \<le> bound" using g by (auto simp: good_bound_def)
    have m: "bound - 1 = mask b" unfolding b(3) by (rule mask_push)
    have ub: "unat bound = 2 ^ b" using b(2) by (simp add: b(3) push_bit_eq_mult unat_pow_ulong)
    define r2 where "r2 = r1 + (bound - (r1 AND mask b))"
    have r2: "unat r1 < unat r2" "unat r2 \<le> unat r1 + 2 ^ b" "2 ^ b dvd unat r2"
      using next_boundary [OF b(2), of r1] r1(2) w ub by (simp_all add: r2_def b(3))
    have al: "r2 AND mask b = 0" using r2(3) by (simp add: aligned_iff)
    have ak: "r2 AND mask k = 0" using r2(3) power_le_dvd b(1) dvd_trans le_imp_power_dvd by (metis aligned_iff)
    have "rman_adjust (mask k) (NOT (bound - 1)) bound count end send x = Some r2"
      using False ak by (subst rman_adjust.simps) (simp add: Let_def r1_def [symmetric] r2_def m)
    moreover have "(r2 XOR (r2 + count - 1)) AND NOT (mask b) = 0"
      using no_cross [OF al _ c b(2)] b(4) ub by (simp add: word_le_nat_alt)
    ultimately show ?thesis using r1 r2 ak ub by (intro exI [of _ r2]) (simp add: word_le_nat_alt m)
  qed
qed

section \<open>The choice of a segment\<close>

lemma unat_diff: "s \<le> e \<Longrightarrow> unat (e - s) = unat e - unat s" for s e :: ulong
  by (simp add: unat_sub)

lemma unat_below: "unat (x :: ulong) < 2 ^ 32"
  using unsigned_less [of x] by simp

lemma unat_suc: "unat x + 1 < 2 ^ 32 \<Longrightarrow> unat (x + 1) = unat x + 1" for x :: ulong
  by (subst unat_add_lem [THEN iffD1]) simp_all

lemma unat_pred: "0 < x \<Longrightarrow> unat (x - 1) = unat x - 1" for x :: ulong
proof -
  assume "0 < x"
  then have "x \<noteq> 0" by auto
  then show ?thesis by (rule unat_minus_one)
qed

lemma last_unit:
  fixes rs count e :: ulong
  assumes "0 < count" and "unat rs + unat count \<le> unat e + 1"
  shows "unat (rs + count - 1) = unat rs + unat count - 1"
proof -
  have c: "unat (count - 1) = unat count - 1" "0 < unat count" using unat_pred [OF assms(1)] assms(1) by (simp_all add: word_less_nat_alt)
  have "unat (rs + (count - 1)) = unat rs + unat (count - 1)"
    using assms(2) c unat_below [of e] by (subst unat_add_lem [THEN iffD1]) simp_all
  then show ?thesis using c by (simp add: algebra_simps)
qed

lemma whole_size:
  fixes e s count :: ulong
  assumes "e - s + 1 = count" and "s \<le> e" and "0 < count"
  shows "unat count = unat e - unat s + 1"
proof -
  have "unat (e - s) + 1 < 2 ^ 32"
  proof (rule ccontr)
    assume "\<not> ?thesis"
    then have "unat (e - s) = 2 ^ 32 - 1" using unat_below [of "e - s"] by linarith
    moreover have "unat (- 1 :: ulong) = 2 ^ 32 - 1" by (simp add: unsigned_minus_1_eq_mask mask_eq_exp_minus_1)
    ultimately have "e - s = - 1" by (intro unsigned_word_eqI [where ?'a = nat]) simp
    then show False using assms(1,3) by simp
  qed
  then show ?thesis using unat_suc [of "e - s"] unat_diff [OF assms(2)] assms(1) by simp
qed

lemma room_count:
  fixes r rend count :: ulong
  assumes "r \<le> rend" and "unat rend < 2 ^ 32 - 1" and "count \<le> rend - r + 1"
  shows "unat r + unat count \<le> unat rend + 1"
proof -
  have d: "unat (rend - r) = unat rend - unat r" using unat_diff [OF assms(1)] .
  then have "unat (rend - r + 1) = unat rend - unat r + 1" using assms(2) by (subst unat_suc) simp_all
  moreover have "unat r \<le> unat rend" using assms(1) by (simp add: word_le_nat_alt)
  ultimately show ?thesis using assms(3) unfolding word_le_nat_alt by linarith
qed

definition exact_fit :: "nat \<Rightarrow> ulong \<Rightarrow> ulong \<Rightarrow> ulong \<Rightarrow> ulong \<Rightarrow> resource \<Rightarrow> bool" where
  "exact_fit k bound start end count s \<longleftrightarrow> start \<le> r_start s \<and> r_end s \<le> end \<and> r_end s - r_start s + 1 = count \<and>
     r_start s AND mask k = 0 \<and> (r_start s XOR r_end s) AND NOT (bound - 1) = 0"

lemma adjust_exact:
  assumes "exact_fit k bound start end count s"
  shows "rman_adjust (mask k) (NOT (bound - 1)) bound count end send (max (r_start s) start) = Some (r_start s)"
proof -
  have "r_start s + count - 1 = r_end s" using assms by (auto simp: exact_fit_def algebra_simps)
  moreover have "max (r_start s) start = r_start s" using assms by (simp add: exact_fit_def max_absorb1)
  ultimately show ?thesis
    using assms by (subst rman_adjust.simps) (simp add: Let_def exact_fit_def round_aligned)
qed

definition scannable :: "rman \<Rightarrow> nat \<Rightarrow> ulong \<Rightarrow> ptr list \<Rightarrow> bool" where
  "scannable st hi start ps \<longleftrightarrow> (\<forall>q \<in> set ps. start \<le> r_end (the_res st q) \<and> r_start (the_res st q) \<le> r_end (the_res st q) \<and>
     unat (r_end (the_res st q)) < hi)"

lemma adjust_max:
  assumes "good_bound k bound count" and "unat x + 2 ^ k + unat bound < 2 ^ 32" and "0 < count"
  shows "\<exists>r. rman_adjust (mask k) (NOT (bound - 1)) bound count end send x = Some r \<and> x \<le> r \<and> r AND mask k = 0 \<and>
    (r XOR (r + count - 1)) AND NOT (bound - 1) = 0"
  using adjust [OF assms, of "end" send] by blast

lemma scan_room:
  assumes ps: "scannable st hi start (p # ps)" and g: "good_bound k bound count" and w: "hi + 2 ^ k + unat bound \<le> 2 ^ 32" and c: "0 < count"
  shows "\<exists>r. rman_adjust (mask k) (NOT (bound - 1)) bound count end (r_end (the_res st p)) (max (r_start (the_res st p)) start) = Some r \<and>
    max (r_start (the_res st p)) start \<le> r \<and> r AND mask k = 0 \<and> (r XOR (r + count - 1)) AND NOT (bound - 1) = 0"
proof -
  have "max (r_start (the_res st p)) start \<le> r_end (the_res st p)" using ps by (simp add: scannable_def)
  then have "unat (max (r_start (the_res st p)) start) < hi" using ps by (auto simp: scannable_def word_le_nat_alt)
  then show ?thesis using w by (intro adjust_max [OF g _ c]) linarith
qed

lemma adjust_plain: "rman_adjust (mask 0) (NOT (0 - 1)) 0 count end send x = Some x"
  by (subst rman_adjust.simps) (simp add: Let_def)

text \<open>The first pass always ends, and what it finds fits.\<close>

lemma scan_result:
  assumes g: "good_bound k bound count" and w: "hi + 2 ^ k + unat bound \<le> 2 ^ 32" and c: "0 < count"
  shows "scannable st hi start ps \<Longrightarrow>
    (\<exists>r. rman_scan st (mask k) (NOT (bound - 1)) bound start end count ps = Some r \<and>
       (\<forall>p rs. r = Some (p, rs) \<longrightarrow> p \<in> set ps \<and> \<not> allocated (the_res st p) \<and> r_start (the_res st p) \<le> rs \<and> start \<le> rs \<and>
          unat rs + unat count \<le> unat (r_end (the_res st p)) + 1 \<and> rs AND mask k = 0 \<and>
          (rs XOR (rs + count - 1)) AND NOT (bound - 1) = 0 \<and> (k = 0 \<and> bound = 0 \<and> start \<le> end \<longrightarrow> rs \<le> end)) \<and>
       (\<forall>flags q. r = None \<longrightarrow> rman_scan_shared st (mask k) (NOT (bound - 1)) start end count flags ps = Some q \<longrightarrow> allocated (the_res st q)))"
proof (induction ps)
  case (Cons p ps)
  let ?s = "the_res st p"
  have sc: "scannable st hi start ps" using Cons.prems by (simp add: scannable_def)
  note IH = Cons.IH [OF sc]
  from scan_room [OF Cons.prems g w c, of "end"] obtain r where
    r: "rman_adjust (mask k) (NOT (bound - 1)) bound count end (r_end ?s) (max (r_start ?s) start) = Some r"
    "max (r_start ?s) start \<le> r" "r AND mask k = 0" "(r XOR (r + count - 1)) AND NOT (bound - 1) = 0" by blast
  define rend where "rend = min (r_end ?s) (max (r + count) end)"
  have exact: "r = r_start ?s \<and> rend = r_end ?s" if "exact_fit k bound start end count ?s"
    using adjust_exact [OF that, of "r_end ?s"] r(1) that by (auto simp: rend_def exact_fit_def min_def max_def)
  consider (stop) "end < r_start ?s" | (taken) "\<not> end < r_start ?s" "allocated ?s"
    | (small) "\<not> end < r_start ?s" "\<not> allocated ?s" "rend < r \<or> \<not> count \<le> rend - r + 1"
    | (fits) "\<not> end < r_start ?s" "\<not> allocated ?s" "\<not> rend < r" "count \<le> rend - r + 1" by blast
  then show ?case
  proof cases
    case stop
    then show ?thesis by (simp add: Let_def)
  next
    case taken
    then have "rman_scan st (mask k) (NOT (bound - 1)) bound start end count (p # ps) =
      rman_scan st (mask k) (NOT (bound - 1)) bound start end count ps" by (simp add: Let_def)
    then show ?thesis using IH taken by (auto simp: Let_def split: if_splits)
  next
    case small
    then have *: "rman_scan st (mask k) (NOT (bound - 1)) bound start end count (p # ps) =
      rman_scan st (mask k) (NOT (bound - 1)) bound start end count ps" using r(1) by (auto simp: Let_def rend_def)
    have "\<not> exact_fit k bound start end count ?s"
    proof
      assume e: "exact_fit k bound start end count ?s"
      then show False using exact [OF e] small(3) Cons.prems by (auto simp: exact_fit_def scannable_def)
    qed
    then show ?thesis using IH unfolding * by (auto simp: Let_def exact_fit_def split: if_splits)
  next
    case fits
    then have *: "rman_scan st (mask k) (NOT (bound - 1)) bound start end count (p # ps) = Some (Some (p, r))"
      using r(1) by (auto simp: Let_def rend_def)
    have "r \<le> rend" using fits(3) by simp
    moreover have "unat rend < 2 ^ 32 - 1" 
    proof -
      have "rend \<le> r_end ?s" by (simp add: rend_def)
      moreover have "unat (r_end ?s) < hi" using Cons.prems by (simp add: scannable_def)
      moreover have "hi + 1 \<le> 2 ^ 32" using w one_le_power [of "2 :: nat" k] by linarith
      ultimately show ?thesis unfolding word_le_nat_alt by linarith
    qed
    ultimately have "unat r + unat count \<le> unat rend + 1" using room_count fits(4) by blast
    moreover have "unat rend \<le> unat (r_end ?s)" by (simp add: rend_def flip: word_le_nat_alt)
    ultimately have "unat r + unat count \<le> unat (r_end ?s) + 1" by simp
    moreover have "r \<le> end" if "k = 0" "bound = 0" "start \<le> end"
      using r(1) adjust_plain fits(1) that by (auto simp: max_def split: if_splits)
    ultimately show ?thesis unfolding * using fits r by auto
  qed
qed simp

section \<open>Who holds which units\<close>

text \<open>The abstract state: the range of units each live allocated resource holds.\<close>

definition held :: "(ptr \<rightharpoonup> vres) \<Rightarrow> ptr \<rightharpoonup> ulong \<times> ulong" where
  "held V p = (case V p of Some v \<Rightarrow> if v_alloc v then Some (v_start v, v_end v) else None | None \<Rightarrow> None)"

definition grants :: "rman \<Rightarrow> ptr \<rightharpoonup> ulong \<times> ulong" where
  "grants s = held (views s)"

section \<open>Taking from a free segment\<close>

lemma split_at: "p \<notin> set xs \<Longrightarrow> takeWhile (\<lambda>x. x \<noteq> p) (xs @ p # ys) = xs" "p \<notin> set xs \<Longrightarrow> dropWhile (\<lambda>x. x \<noteq> p) (xs @ p # ys) = p # ys"
  by (induction xs) auto

lemma insert_at:
  "p \<notin> set xs \<Longrightarrow> insert_after p q (xs @ p # ys) = xs @ p # q # ys"
  "p \<notin> set xs \<Longrightarrow> insert_before p q (xs @ p # ys) = xs @ q # p # ys"
  by (simp_all add: insert_after_def insert_before_def split_at)

lemma rman_invD:
  assumes "rman_inv lo hi s"
  shows "rinv lo hi (rm_list s) (views s) (rm_share s)" and "rm_brk s \<le> p \<Longrightarrow> rm_res s p = None" and "rm_brk s \<le> p \<Longrightarrow> rm_share s p = None"
  using assms by (auto simp: rman_inv_def)

lemma rman_live: "rman_inv lo hi s \<Longrightarrow> p \<in> set (rm_list s) \<Longrightarrow> \<exists>r. rm_res s p = Some r"
  using rinvD(1) [OF rman_invD(1)] by (fastforce simp: listed_def views_def)

lemma rman_inv_brk: "rman_inv lo hi s \<Longrightarrow> rman_inv lo hi (s\<lparr>rm_brk := rm_brk s + 1\<rparr>)"
  by (simp add: rman_inv_def)

lemma grants_brk [simp]: "grants (s\<lparr>rm_brk := b\<rparr>) = grants s" by (simp add: grants_def)

lemma unshared_free: "rinv lo hi l V S \<Longrightarrow> V p = Some v \<Longrightarrow> \<not> v_alloc v \<Longrightarrow> v_share v = None \<and> p \<in> set l \<and> \<not> v_first v"
  using rinvD(3) [of lo hi l V S p v] by (auto simp: owned_def split: option.splits)

text \<open>What a successful reservation does to the abstract state.\<close>

definition granted :: "rman \<Rightarrow> ptr \<Rightarrow> ulong \<Rightarrow> ulong \<Rightarrow> rman \<Rightarrow> bool" where
  "granted s p a b s' \<longleftrightarrow> grants s p = None \<and> grants s' = (grants s)(p \<mapsto> (a, b))"

lemma take_whole:
  fixes dev :: ptr
  assumes inv: "rman_inv lo hi st" and p: "rm_res st p = Some s" "\<not> allocated s" and f: "\<not> bit flags 5"
  defines "st' \<equiv> put_res p (s\<lparr>r_flags := r_flags s OR (RF_ALLOCATED OR flags), r_dev := Some dev\<rparr>) st"
  shows "rman_inv lo hi st' \<and> granted st p (r_start s) (r_end s) st'"
proof -
  note i = rman_invD(1) [OF inv]
  let ?r = "s\<lparr>r_flags := r_flags s OR (RF_ALLOCATED OR flags), r_dev := Some dev\<rparr>"
  have v: "views st p = Some (view s)" using p by (simp add: views_def)
  then have u: "r_sharehead s = None" "p \<in> set (rm_list st)" "\<not> v_first (view s)" using unshared_free [OF i v] p(2) by simp_all
  obtain xs ys where l: "rm_list st = xs @ p # ys" using u(2) split_list by metis
  have a: "allocated ?r" by (simp add: allocated_def flag_simps)
  have nf: "\<not> v_first (view ?r)" using u(3) f by (simp add: flag_simps)
  have "rinv lo hi (xs @ [p] @ ys) (views st') (rm_share st)"
  proof (rule rinv_replace [where bs = "[p]" and V = "views st"])
    show "rinv lo hi (xs @ [p] @ ys) (views st) (rm_share st)" using i l by simp
    show "\<exists>v. views st' q = Some v \<and> v_share v = None \<and> \<not> v_first v" if "q \<in> set [p]" for q
      using that u(1) nf by (auto simp: st'_def)
  qed (auto simp: st'_def v u seg_def)
  then have "rman_inv lo hi st'" using rman_invD(2,3) [OF inv] l p by (auto simp: rman_inv_def st'_def)
  moreover have "granted st p (r_start s) (r_end s) st'" using a p v by (auto simp: granted_def grants_def held_def st'_def)
  ultimately show ?thesis by blast
qed

lemma tiles_one: "tiles a [(s, e)] b \<longleftrightarrow> unat s = a \<and> s \<le> e \<and> unat e + 1 = b" by auto

text \<open>A free segment p is replaced by pieces of which one, rv, is allocated and the others are free.\<close>

lemma take_pieces:
  assumes inv: "rman_inv lo hi st" and p: "rm_res st p = Some s" "\<not> allocated s" and l: "rm_list st = xs @ p # ys"
    and qs: "distinct qs" "p \<in> set qs" "rv \<in> set qs" "\<And>q. q \<in> set qs \<Longrightarrow> q \<noteq> p \<Longrightarrow> rm_brk st \<le> q \<and> q < rm_brk st'" "p \<noteq> rv"
    and new: "\<And>q. q \<in> set qs \<Longrightarrow> \<exists>r. rm_res st' q = Some r \<and> r_sharehead r = None \<and> \<not> bit (r_flags r) 5 \<and> (allocated r \<longleftrightarrow> q = rv)"
    and same: "\<And>q. q \<notin> set qs \<Longrightarrow> rm_res st' q = rm_res st q" and sh: "rm_share st' = rm_share st" and br: "rm_brk st \<le> rm_brk st'"
    and l': "rm_list st' = xs @ qs @ ys"
    and tile: "\<And>a b. tiles a [(r_start s, r_end s)] b \<Longrightarrow> tiles a (map (seg (views st')) qs) b"
  shows "rman_inv lo hi st' \<and> granted st rv (r_start (the_res st' rv)) (r_end (the_res st' rv)) st'"
proof -
  note i = rman_invD(1) [OF inv]
  have v: "views st p = Some (view s)" using p by (simp add: views_def)
  have fresh: "rm_res st q = None" if "q \<in> set qs" "q \<noteq> p" for q using qs(4) [OF that] rman_invD(2) [OF inv] by blast
  have "rinv lo hi (xs @ qs @ ys) (views st') (rm_share st)"
  proof (rule rinv_replace [where bs = "[p]" and V = "views st"])
    show "rinv lo hi (xs @ [p] @ ys) (views st) (rm_share st)" using i l by simp
    show "v_share (the (views st b)) = None" if "b \<in> set [p]" for b using unshared_free [OF i v] p that v by simp
    show "q \<in> set [p] \<or> views st q = None" if "q \<in> set qs" for q
      using fresh [OF that] by (cases "q = p") (simp_all add: views_def)
    show "\<exists>v. views st' q = Some v \<and> v_share v = None \<and> \<not> v_first v" if "q \<in> set qs" for q
      using new [OF that] by (auto simp: views_def flag_simps)
    show "views st' q = views st q" if "q \<notin> set [p]" "q \<notin> set qs" for q using same [OF that(2)] by (simp add: views_def)
    show "tiles a (map (seg (views st')) qs) b" if "tiles a (map (seg (views st)) [p]) b" for a b
      using tile that by (simp add: seg_def v)
  qed (use qs in auto)
  moreover have "rm_res st' q = None \<and> rm_share st' q = None" if "rm_brk st' \<le> q" for q
  proof -
    have "rm_brk st \<le> q" using that br by simp
    then have n: "rm_res st q = None" "rm_share st q = None" using rman_invD(2,3) [OF inv] by blast+
    then have "q \<noteq> p" using p by auto
    then have "q \<notin> set qs" using qs(4) [of q] that by fastforce
    then show ?thesis using n same sh by simp
  qed
  ultimately have "rman_inv lo hi st'" by (simp add: rman_inv_def l' sh)
  moreover have "grants st' q = ((grants st)(rv \<mapsto> (r_start (the_res st' rv), r_end (the_res st' rv)))) q" for q
  proof (cases "q \<in> set qs")
    case True
    from new [OF this] obtain r where r: "rm_res st' q = Some r" "allocated r \<longleftrightarrow> q = rv" by blast
    have "grants st q = None" using fresh [OF True] p v by (cases "q = p") (auto simp: grants_def held_def views_def)
    then show ?thesis using r by (auto simp: grants_def held_def views_def)
  next
    case False
    then have "q \<noteq> rv" using qs(3) by auto
    then show ?thesis using same [OF False] by (simp add: grants_def held_def views_def)
  qed
  moreover have "grants st rv = None" using fresh [OF qs(3)] qs(5) by (simp add: grants_def held_def views_def)
  ultimately show ?thesis unfolding granted_def by blast
qed


definition got :: "rman \<Rightarrow> ulong \<Rightarrow> ulong \<Rightarrow> ptr option \<times> rman \<Rightarrow> bool" where
  "got st a b r \<longleftrightarrow> (case fst r of None \<Rightarrow> grants (snd r) = grants st | Some rv \<Rightarrow> granted st rv a b (snd r))"

text \<open>The four ways a segment is taken.\<close>

lemma take_outcome:
  fixes dev :: ptr
  assumes inv: "rman_inv lo hi st" and p: "rm_res st p = Some s" "\<not> allocated s" and f: "\<not> bit flags 5" and c: "0 < count"
    and lo: "r_start s \<le> rs" and hi: "unat rs + unat count \<le> unat (r_end s) + 1"
  shows "rman_inv lo hi (snd (rman_take p rs count flags dev st)) \<and> got st rs (rs + count - 1) (rman_take p rs count flags dev st)"
proof -
  note i = rman_invD(1) [OF inv]
  have v: "views st p = Some (view s)" using p by (simp add: views_def)
  have u: "r_sharehead s = None" "p \<in> set (rm_list st)" "\<not> bit (r_flags s) 5"
    using unshared_free [OF i v] p(2) by (simp_all add: flag_simps)
  obtain xs ys where l: "rm_list st = xs @ p # ys" "p \<notin> set xs" using u(2) split_list_first by metis
  define re where "re = rs + count - 1"
  have re: "unat re = unat rs + unat count - 1" using last_unit [OF c hi] by (simp add: re_def)
  have cpos: "0 < unat count" using c by (simp add: word_less_nat_alt)
  have rse: "rs \<le> re" "re \<le> r_end s" using re cpos hi by (simp_all add: word_le_nat_alt)
  have na: "\<not> bit (r_flags s) 0" using p(2) by (simp add: allocated_def flag_simps)
  define b where "b = rm_brk st"
  have pb: "p \<noteq> b" "p \<noteq> b + 1" using rman_invD(2) [OF inv, of b] rman_invD(2) [OF inv, of "b + 1"] p by (auto simp: b_def)
  have pb': "p \<noteq> Suc b" "b \<noteq> p" "Suc b \<noteq> p" using pb by auto
  define rv where "rv = zero_resource\<lparr>r_start := rs, r_end := re, r_flags := flags OR RF_ALLOCATED, r_dev := Some dev\<rparr>"
  have al: "allocated rv" "r_sharehead rv = None" "\<not> bit (r_flags rv) 5" "r_start rv = rs" "r_end rv = re"
    using f by (simp_all add: allocated_def flag_simps RF_ALLOCATED_def rv_def zero_resource_def)
  consider (whole) "r_end s - r_start s + 1 = count" | (nomem) "r_end s - r_start s + 1 \<noteq> count" "\<not> rm_ok st b"
    | (middle) "r_end s - r_start s + 1 \<noteq> count" "rm_ok st b" "r_start s < rs" "re < r_end s"
    | (first) "r_end s - r_start s + 1 \<noteq> count" "rm_ok st b" "r_start s = rs"
    | (tail) "r_end s - r_start s + 1 \<noteq> count" "rm_ok st b" "r_start s < rs" "\<not> re < r_end s"
    using lo by fastforce
  then show ?thesis
  proof cases
    case whole
    have "unat count = unat (r_end s) - unat (r_start s) + 1" using whole_size [OF whole _ c] lo rse by simp
    then have "unat rs = unat (r_start s)" using lo hi rse re cpos unfolding word_le_nat_alt by linarith
    then have eq: "r_start s = rs" by (simp add: word_unat_eq_iff)
    then have "re = r_end s" using whole by (auto simp: re_def algebra_simps)
    then show ?thesis using take_whole [OF inv p f, of dev] whole eq p \<open>re = r_end s\<close> by (simp add: rman_take_def got_def Let_def flip: re_def)
  next
    case nomem
    then show ?thesis using rman_inv_brk [OF inv] p by (simp add: rman_take_def rm_malloc_def got_def b_def Let_def)
  next
    case middle
    have p1: "unat (rs - 1) = unat rs - 1" by (intro unat_pred order.strict_trans1 [OF _ middle(3)]) simp
    have u1: "unat (re + 1) = unat re + 1" using middle(4) by (intro unat_suc) (use unat_below [of "r_end s"] in \<open>simp add: word_less_nat_alt\<close>)
    show ?thesis
    proof (cases "rm_ok st (b + 1)")
      case False
      have "rman_take p rs count flags dev st = (None, st\<lparr>rm_brk := b + 2\<rparr>)"
        using False middle l p rman_invD(2) [OF inv, of b]
        by (simp add: rman_take_def rm_malloc_def Let_def b_def [symmetric] re_def [symmetric] zero_resource_def fun_upd_idem)
      then show ?thesis using inv by (simp add: got_def rman_inv_def b_def)
    next
      case True
      have bx: "b \<notin> set xs" using rman_live [OF inv, of b] rman_invD(2) [OF inv, of b] l by (auto simp: b_def)
      define r where "r = zero_resource\<lparr>r_start := re + 1, r_end := r_end s, r_flags := r_flags s\<rparr>"
      define st' where "st' = snd (rman_take p rs count flags dev st)"
      have st': "rman_take p rs count flags dev st = (Some b, st')"
        "st' = st\<lparr>rm_brk := b + 2, rm_res := (rm_res st)(b \<mapsto> rv, b + 1 \<mapsto> r, p \<mapsto> s\<lparr>r_end := rs - 1\<rparr>), rm_list := xs @ [p, b, b + 1] @ ys\<rparr>"
        using middle True l p pb insert_at [of b "xs @ [p]" "b + 1" ys] bx
        by (auto simp: st'_def rman_take_def rm_malloc_def Let_def b_def [symmetric] re_def [symmetric] rv_def r_def insert_at zero_resource_def)
      have "rman_inv lo hi st' \<and> granted st b (r_start (the_res st' b)) (r_end (the_res st' b)) st'"
        by (rule take_pieces [OF inv p l(1), where qs = "[p, b, b + 1]"])
           (use pb pb' al u na rse middle u1 p1 in \<open>auto simp: st' b_def [symmetric] r_def zero_resource_def seg_def views_def flag_simps
              allocated_def word_le_nat_alt word_less_nat_alt\<close>)
      then show ?thesis using st' al pb by (simp add: got_def re_def [symmetric])
    qed
  next
    case first
    have ne: "re \<noteq> r_end s"
      using first(1,3) by (auto simp: re_def algebra_simps)
    then have lt: "re < r_end s" using rse by simp
    define st' where "st' = snd (rman_take p rs count flags dev st)"
    have st': "rman_take p rs count flags dev st = (Some b, st')"
      "st' = st\<lparr>rm_brk := b + 1, rm_res := (rm_res st)(b \<mapsto> rv, p \<mapsto> s\<lparr>r_start := re + 1\<rparr>), rm_list := xs @ b # p # ys\<rparr>"
      using first l p pb by (simp_all add: st'_def rman_take_def rm_malloc_def Let_def b_def [symmetric] re_def [symmetric] rv_def insert_at)
    have u1: "unat (re + 1) = unat re + 1" using lt by (intro unat_suc) (use unat_below [of "r_end s"] in \<open>simp add: word_less_nat_alt\<close>)
    have "rman_inv lo hi st' \<and> granted st b (r_start (the_res st' b)) (r_end (the_res st' b)) st'"
      by (rule take_pieces [OF inv p l(1), where qs = "[b, p]"])
         (use pb pb' al u na lt rse first u1 in \<open>auto simp: st' b_def [symmetric] seg_def views_def flag_simps allocated_def word_le_nat_alt word_less_nat_alt\<close>)
    then show ?thesis using st' al pb by (simp add: got_def re_def [symmetric])
  next
    case tail
    have p1: "unat (rs - 1) = unat rs - 1" by (intro unat_pred order.strict_trans1 [OF _ tail(3)]) simp
    have ree: "re = r_end s" using tail(4) rse by simp
    define st' where "st' = snd (rman_take p rs count flags dev st)"
    have st': "rman_take p rs count flags dev st = (Some b, st')"
      "st' = st\<lparr>rm_brk := b + 1, rm_res := (rm_res st)(b \<mapsto> rv, p \<mapsto> s\<lparr>r_end := rs - 1\<rparr>), rm_list := xs @ [p, b] @ ys\<rparr>"
      using tail l p pb by (simp_all add: st'_def rman_take_def rm_malloc_def Let_def b_def [symmetric] re_def [symmetric] rv_def insert_at)
    have "rman_inv lo hi st' \<and> granted st b (r_start (the_res st' b)) (r_end (the_res st' b)) st'"
      by (rule take_pieces [OF inv p l(1), where qs = "[p, b]"])
         (use pb pb' al u na rse tail p1 ree in \<open>auto simp: st' b_def [symmetric] seg_def views_def flag_simps
            allocated_def word_le_nat_alt word_less_nat_alt\<close>)
    then show ?thesis using st' al pb by (simp add: got_def re_def [symmetric])
  qed
qed

end
