(* ===== verification/Subr_Rman_Calls.thy ===== *)
theory Subr_Rman_Calls
  imports Subr_Rman_Ops
begin

text \<open>
  The calls of the resource manager against their abstract specification: reserving adds one holder with
  its range, releasing removes one, activating changes none, and every call keeps the invariant.
\<close>

section \<open>Changes of flags\<close>

lemma put_view:
  assumes "rm_res st p = Some r" and "view r' = view r"
  shows "views (put_res p r' st) = views st"
  using assms by (simp add: views_some fun_upd_idem)

lemma put_flags:
  assumes "rman_inv lo hi st" and "rm_res st p = Some r" and "view r' = view r"
  shows "rman_inv lo hi (put_res p r' st) \<and> grants (put_res p r' st) = grants st"
proof -
  have v: "views (put_res p r' st) = views st" using put_view [OF assms(2,3)] .
  have "rm_res st q = None" if "rm_brk st \<le> q" for q using rman_invD(2) [OF assms(1) that] .
  then show ?thesis using assms(1,2) v by (auto simp: rman_inv_def grants_def)
qed

lemma view_flags: "bit f 0 = bit (r_flags r) 0 \<Longrightarrow> bit f 5 = bit (r_flags r) 5 \<Longrightarrow> view (r\<lparr>r_flags := f\<rparr>) = view r"
  by (simp add: view_def)

lemma view_active: "view (r\<lparr>r_flags := r_flags r OR RF_ACTIVE\<rparr>) = view r"
  by (rule view_flags) (simp_all add: flag_simps)

lemma activate_outcome:
  assumes "rman_inv lo hi st" and "rm_res st p = Some r"
  shows "rman_inv lo hi (snd (int_rman_activate_resource p st)) \<and> grants (snd (int_rman_activate_resource p st)) = grants st \<and>
    rm_res (snd (int_rman_activate_resource p st)) p \<noteq> None"
  using put_flags [OF assms view_active] assms
  by (auto simp: int_rman_activate_resource_def Let_def split: option.split)

lemma deactivate_outcome:
  assumes "rman_inv lo hi st" and "rm_res st p = Some r"
  shows "rman_inv lo hi (int_rman_deactivate_resource p st) \<and> grants (int_rman_deactivate_resource p st) = grants st \<and>
    views (int_rman_deactivate_resource p st) = views st \<and> rm_list (int_rman_deactivate_resource p st) = rm_list st \<and>
    rm_share (int_rman_deactivate_resource p st) = rm_share st"
proof -
  have v1: "view (r\<lparr>r_flags := r_flags r AND NOT RF_ACTIVE\<rparr>) = view r"
    by (rule view_flags) (simp_all add: flag_simps)
  have v2: "view (r\<lparr>r_flags := (r_flags r AND NOT RF_ACTIVE) AND NOT RF_WANTED\<rparr>) = view r"
    by (rule view_flags) (simp_all add: flag_simps)
  have w: "rman_inv lo hi (s\<lparr>rm_wakeups := x\<rparr>) = rman_inv lo hi s" "grants (s\<lparr>rm_wakeups := x\<rparr>) = grants s" for s x
    by (simp_all add: rman_inv_def grants_def)
  show ?thesis
    using put_flags [OF assms v1] put_flags [OF assms v2] put_view [OF assms(2) v1] put_view [OF assms(2) v2] assms(2)
    by (simp add: int_rman_deactivate_resource_def Let_def w)
qed

section \<open>Sharing\<close>

lemma share_outcome:
  fixes dev :: ptr
  assumes inv: "rman_inv lo hi st" and p: "rm_res st p = Some s" "allocated s" and l: "p \<in> set (rm_list st)"
  shows "rman_inv lo hi (snd (rman_share p dev st)) \<and> got st (r_start s) (r_end s) (rman_share p dev st)"
proof -
  note i = rman_invD(1) [OF inv]
  define b where "b = rm_brk st"
  have fresh: "rm_res st b = None" "rm_res st (b + 1) = None" "rm_share st b = None" "rm_share st (b + 1) = None"
    using rman_invD(2,3) [OF inv] by (simp_all add: b_def)
  have vb: "views st b = None" using fresh by (simp add: views_def)
  have pb: "p \<noteq> b" "p \<noteq> b + 1" using fresh p by auto
  have v: "views st p = Some (view s)" using p by (simp add: views_def)
  define r where "r = zero_resource\<lparr>r_start := r_start s, r_end := r_end s,
     r_flags := r_flags s AND (RF_ALLOCATED OR RF_SHAREABLE OR RF_TIMESHARE), r_dev := Some dev\<rparr>"
  have r: "allocated (r\<lparr>r_sharehead := h\<rparr>)" "\<not> v_first (view (r\<lparr>r_sharehead := h\<rparr>))" for h
    using p(2) by (simp_all add: r_def allocated_def flag_simps)
  have rs: "r_start r = r_start s" "r_end r = r_end s" by (simp_all add: r_def)
  consider (nomem) "\<not> rm_ok st b" | (more) h where "rm_ok st b" "r_sharehead s = Some h"
    | (nomem2) "rm_ok st b" "r_sharehead s = None" "\<not> rm_ok st (b + 1)" | (new) "rm_ok st b" "r_sharehead s = None" "rm_ok st (b + 1)"
    by (cases "r_sharehead s") auto
  then show ?thesis
  proof cases
    case nomem
    then show ?thesis using rman_inv_brk [OF inv] p by (simp add: rman_share_def rm_malloc_def got_def b_def Let_def)
  next
    case nomem2
    then show ?thesis using rman_inv_brk [OF rman_inv_brk [OF inv]] p by (simp add: rman_share_def rm_malloc_def got_def b_def Let_def)
  next
    case (more h)
    obtain L where L: "rm_share st h = Some L" using rinvD(3) [OF i v] more(2) by (auto simp: owned_def)
    define st' where "st' = st\<lparr>rm_brk := b + 1, rm_res := (rm_res st)(b \<mapsto> r\<lparr>r_sharehead := Some h\<rparr>), rm_share := (rm_share st)(h \<mapsto> b # L)\<rparr>"
    have run: "rman_share p dev st = (Some b, st')"
      using more p L by (simp add: rman_share_def rm_malloc_def Let_def b_def [symmetric] st'_def r_def)
    have vs: "views st' = (views st)(b \<mapsto> view (r\<lparr>r_sharehead := Some h\<rparr>))" by (auto simp: st'_def views_def)
    have "rinv lo hi (rm_list st') (views st') (rm_share st')"
      unfolding vs using rinv_share_more [OF i v _ _ L, of b "view (r\<lparr>r_sharehead := Some h\<rparr>)"] more r vb rs
      by (simp add: st'_def)
    moreover have "h < b" using L rman_invD(3) [OF inv, of h] by (force simp: b_def not_le [symmetric])
    ultimately have "rman_inv lo hi st'" using rman_invD(2,3) [OF inv] by (simp add: rman_inv_def st'_def b_def)
    moreover have "granted st b (r_start s) (r_end s) st'"
      using r fresh rs by (auto simp: granted_def grants_def vs held_def views_def)
    ultimately show ?thesis by (simp add: run got_def)
  next
    case new
    define st' where "st' = st\<lparr>rm_brk := b + 2, rm_res := (rm_res st)(p \<mapsto> s\<lparr>r_sharehead := Some (b + 1), r_flags := r_flags s OR RF_FIRSTSHARE\<rparr>,
       b \<mapsto> r\<lparr>r_sharehead := Some (b + 1)\<rparr>), rm_share := (rm_share st)(b + 1 \<mapsto> [b, p])\<rparr>"
    have run: "rman_share p dev st = (Some b, st')"
      using new p by (simp add: rman_share_def rm_malloc_def Let_def b_def [symmetric] st'_def r_def)
    have vp: "view (s\<lparr>r_sharehead := Some (b + 1), r_flags := r_flags s OR RF_FIRSTSHARE\<rparr>) = (view s)\<lparr>v_first := True, v_share := Some (b + 1)\<rparr>"
      by (simp add: view_def flag_simps)
    have vs: "views st' = (views st)(p \<mapsto> (view s)\<lparr>v_first := True, v_share := Some (b + 1)\<rparr>, b \<mapsto> view (r\<lparr>r_sharehead := Some (b + 1)\<rparr>))"
      unfolding vp [symmetric] by (auto simp: st'_def views_def)
    have "rinv lo hi (rm_list st') (views st') (rm_share st')"
      using rinv_share_new [OF i v l _ _ _ _ vs] new r fresh vb rs p(2) by (simp add: st'_def)
    then have "rman_inv lo hi st'" using rman_invD(2,3) [OF inv] pb p(1) by (auto simp: rman_inv_def st'_def b_def)
    moreover have "granted st b (r_start s) (r_end s) st'"
      using r fresh rs p(2) v pb by (auto simp: granted_def grants_def vs held_def views_def fun_eq_iff)
    ultimately show ?thesis by (simp add: run got_def)
  qed
qed

section \<open>Releasing a shared resource\<close>

text \<open>What releasing p does.\<close>

definition released :: "nat \<Rightarrow> nat \<Rightarrow> rman \<Rightarrow> ptr \<Rightarrow> rman \<Rightarrow> bool" where
  "released lo hi st p st' \<longleftrightarrow> rman_inv lo hi st' \<and> grants st' = (grants st)(p := None) \<and> rm_res st' p = None"

lemma remove1_replace:
  assumes "distinct l" and "p \<in> set l" and "q \<notin> set l"
  shows "remove1 p (insert_before p q l) = map (\<lambda>x. if x = p then q else x) l"
proof -
  obtain xs ys where l: "l = xs @ p # ys" "p \<notin> set xs" using assms(2) split_list_first by metis
  have "p \<notin> set ys" using assms(1) l by simp
  moreover have "map (\<lambda>x. if x = p then q else x) zs = zs" if "p \<notin> set zs" for zs
    using that by (intro map_idI) auto
  moreover have "p \<noteq> q" using assms(2,3) by auto
  ultimately show ?thesis using l by (simp add: insert_at remove1_append)
qed

lemma unshare_outcome:
  assumes inv: "rman_inv lo hi st" and p: "rm_res st p = Some r" and h: "r_sharehead r = Some h"
  shows "\<exists>st'. rman_unshare p h st = Some st' \<and> released lo hi st p st'"
proof -
  note i = rman_invD(1) [OF inv]
  have v: "views st p = Some (view r)" using p by (simp add: views_def)
  have vh: "v_share (view r) = Some h" using h by simp
  obtain L where L: "rm_share st h = Some L" "p \<in> set L" using rinvD(3) [OF i v] h by (auto simp: owned_def)
  note sh = rinvD(4) [OF i L(1)]
  have "length (remove1 p L) = length L - 1" using L(2) by (simp add: length_remove1)
  moreover have "2 \<le> length L" using sh by (simp add: sharing_def)
  ultimately have "remove1 p L \<noteq> []" by (metis Suc_1 Suc_le_eq diff_is_0_eq list.size(3) not_less zero_less_diff le_refl One_nat_def)
  then obtain q rest where rest: "remove1 p L = q # rest" by (cases "remove1 p L") auto
  have "distinct L" using sh by (simp add: sharing_def)
  then have "set (remove1 p L) = set L - {p}" by (rule set_remove1_eq)
  then have qL: "q \<in> set L" "q \<noteq> p" using rest by auto
  obtain rq where rq: "rm_res st q = Some rq" "r_sharehead rq = Some h"
    using sharing_member [OF sh qL(1)] by (auto simp: views_def)
  have vq: "views st q = Some (view rq)" using rq by (simp add: views_def)
  define l' where "l' = (if v_first (view r) then map (\<lambda>x. if x = p then q else x) (rm_list st) else rm_list st)"
  define rq1 where "rq1 = (if v_first (view r) then rq\<lparr>r_flags := r_flags rq OR RF_FIRSTSHARE\<rparr> else rq)"
  define rq' where "rq' = (if rest = [] then rq1\<lparr>r_sharehead := None, r_flags := r_flags rq1 AND NOT RF_FIRSTSHARE\<rparr> else rq1)"
  have vrq': "view rq' = (view rq)\<lparr>v_first := (v_first (view r) \<or> v_first (view rq)) \<and> rest \<noteq> [], v_share := (if rest = [] then None else Some h)\<rparr>"
    using rq(2) by (simp add: view_def rq'_def rq1_def flag_simps)
  define S' where "S' = (rm_share st)(h := (if rest = [] then None else Some (q # rest)))"
  have r': "rinv lo hi l' ((views st)(q \<mapsto> view rq', p := None)) S'"
    by (rule rinv_unshare [OF i v vh L(1) rest vq l'_def vrq' S'_def])
  have list: "remove1 p (insert_before p q (rm_list st)) = map (\<lambda>x. if x = p then q else x) (rm_list st)" if "v_first (view r)"
  proof (rule remove1_replace)
    show "distinct (rm_list st)" using rinvD(1) [OF i] by (simp add: listed_def)
    show pl: "p \<in> set (rm_list st)" using rinvD(3) [OF i v] that h by (auto simp: owned_def)
    show "q \<notin> set (rm_list st)"
    proof
      assume "q \<in> set (rm_list st)"
      then obtain m n where mn: "m < length (rm_list st)" "rm_list st ! m = q" "n < length (rm_list st)" "rm_list st ! n = p"
        using pl by (auto simp: in_set_conv_nth)
      have s: "seg (views st) q = seg (views st) p" using sharing_seg [OF sh qL(1) L(2)] .
      obtain a b where ab: "seg (views st) p = (a, b)" by fastforce
      have "(a, b) \<in> set (map (seg (views st)) (rm_list st))" using pl ab by (metis image_eqI image_set)
      then have "a \<le> b" using tiles_in [OF rinvD(2) [OF i]] by blast
      then have "m = n"
        by (intro tiles_meet [OF rinvD(2) [OF i], where x = a and s = a and e = b and s' = a and e' = b]) (use mn s ab in auto)
      then show False using mn qL by simp
    qed
  qed
  define st' where "st' = st\<lparr>rm_share := S', rm_res := (rm_res st)(q \<mapsto> rq', p := None), rm_list := l'\<rparr>"
  have idem: "(rm_res st)(q \<mapsto> rq) = rm_res st" using rq(1) by (simp add: fun_upd_idem)
  have run: "rman_unshare p h st = Some st'"
    using rq qL(2) p L rest list
    by (cases "v_first (view r)"; cases "rest = []")
       (simp_all add: rman_unshare_def Let_def st'_def l'_def S'_def rq'_def rq1_def free_res_def idem)
  have vs: "views st' = (views st)(q \<mapsto> view rq', p := None)" by (auto simp: st'_def views_def)
  have inv': "rman_inv lo hi st'"
    using r' rman_invD(2,3) [OF inv] L rq by (auto simp: rman_inv_def vs) (auto simp: st'_def S'_def)
  have "v_alloc (view rq)" using rinvD(3) [OF i vq] rq(2) by (simp add: owned_def)
  then have "grants st' = (grants st)(p := None)"
    using vq qL(2) by (auto simp: grants_def vs held_def fun_eq_iff vrq')
  then show ?thesis using run inv' by (simp add: released_def st'_def)
qed

section \<open>Releasing an unshared resource\<close>

lemma prev_at: "p \<notin> set xs \<Longrightarrow> prev_of p (xs @ p # ys) = (if xs = [] then None else Some (last xs))"
  by (simp add: prev_of_def split_at)

lemma next_at: "p \<notin> set xs \<Longrightarrow> next_of p (xs @ p # ys) = (case ys of [] \<Rightarrow> None | q # _ \<Rightarrow> Some q)"
  by (simp add: next_of_def split_at split: list.split)

text \<open>A run bs of segments with p in it becomes the one free segment m of the same extent.\<close>

lemma merge_pieces:
  assumes inv: "rman_inv lo hi st" and l: "rm_list st = xs @ bs @ ys" and p: "p \<in> set bs" and m: "m \<in> set bs"
    and free: "\<And>b. b \<in> set bs \<Longrightarrow> \<exists>r. rm_res st b = Some r \<and> r_sharehead r = None \<and> (b \<noteq> p \<longrightarrow> \<not> allocated r)"
    and s: "rm_res st' m = Some s" "r_sharehead s = None" "\<not> allocated s" "\<not> bit (r_flags s) 5"
    and gone: "\<And>b. b \<in> set bs \<Longrightarrow> b \<noteq> m \<Longrightarrow> rm_res st' b = None" and same: "\<And>b. b \<notin> set bs \<Longrightarrow> rm_res st' b = rm_res st b"
    and sh: "rm_share st' = rm_share st" "rm_brk st' = rm_brk st" and l': "rm_list st' = xs @ [m] @ ys"
    and tile: "\<And>a b. tiles a (map (seg (views st)) bs) b \<Longrightarrow> tiles a [(r_start s, r_end s)] b"
  shows "rman_inv lo hi st' \<and> grants st' = (grants st)(p := None)"
proof -
  note i = rman_invD(1) [OF inv]
  have vm: "views st' m = Some (view s)" using s by (simp add: views_def)
  have "rinv lo hi (xs @ [m] @ ys) (views st') (rm_share st)"
  proof (rule rinv_replace [where bs = bs and V = "views st"])
    show "rinv lo hi (xs @ bs @ ys) (views st) (rm_share st)" using i l by simp
    show "v_share (the (views st b)) = None" if "b \<in> set bs" for b using free [OF that] by (auto simp: views_def)
    show "\<exists>v. views st' q = Some v \<and> v_share v = None \<and> \<not> v_first v" if "q \<in> set [m]" for q
      using that s vm by (auto simp: flag_simps)
    show "views st' b = None" if "b \<in> set bs" "b \<notin> set [m]" for b using gone that by (simp add: views_def)
    show "views st' b = views st b" if "b \<notin> set bs" "b \<notin> set [m]" for b using same that by (simp add: views_def)
    show "tiles a (map (seg (views st')) [m]) b" if "tiles a (map (seg (views st)) bs) b" for a b
      using tile [OF that] by (simp add: seg_def vm)
  qed (use m in auto)
  moreover have "rm_res st' q = None \<and> rm_share st' q = None" if "rm_brk st' \<le> q" for q
  proof -
    have n: "rm_res st q = None" "rm_share st q = None" using rman_invD(2,3) [OF inv] that sh by simp_all
    then have "q \<notin> set bs" using free by force
    then show ?thesis using n same sh by simp
  qed
  ultimately have "rman_inv lo hi st'" by (simp add: rman_inv_def l' sh)
  moreover have "grants st' q = ((grants st)(p := None)) q" for q
  proof (cases "q \<in> set bs")
    case True
    have "grants st q = None" if "q \<noteq> p" using free [OF True] that by (auto simp: grants_def held_def views_def)
    moreover have "grants st' q = None" using gone [OF True] s vm by (cases "q = m") (auto simp: grants_def held_def views_def)
    ultimately show ?thesis by simp
  next
    case False
    then show ?thesis using same [OF False] p by (auto simp: grants_def held_def views_def)
  qed
  ultimately show ?thesis by blast
qed

lemma unallocated: "\<not> allocated (r\<lparr>r_flags := f AND NOT RF_ALLOCATED\<rparr>)"
  by (simp add: allocated_def flag_simps)

lemma merge_outcome:
  assumes inv: "rman_inv lo hi st" and p: "rm_res st p = Some r" and h: "r_sharehead r = None"
  shows "rman_inv lo hi (rman_merge p st) \<and> grants (rman_merge p st) = (grants st)(p := None)"
proof -
  note i = rman_invD(1) [OF inv]
  have v: "views st p = Some (view r)" using p by (simp add: views_def)
  have pl: "p \<in> set (rm_list st)" "\<not> bit (r_flags r) 5" using rinvD(3) [OF i v] h by (auto simp: owned_def flag_simps)
  obtain xs ys where l: "rm_list st = xs @ p # ys" "p \<notin> set xs" using split_list_first [OF pl(1)] by blast
  have d: "distinct (rm_list st)" using rinvD(1) [OF i] by (simp add: listed_def)
  have fr: "\<exists>r. rm_res st q = Some r \<and> r_sharehead r = None \<and> \<not> allocated r \<and> \<not> bit (r_flags r) 5 \<and> views st q = Some (view r)"
    if ql: "q \<in> set (rm_list st)" and qf: "is_free st (Some q)" for q
  proof -
    obtain s where s: "rm_res st q = Some s" using rman_live [OF inv ql] by blast
    then have vq: "views st q = Some (view s)" by (simp add: views_def)
    then show ?thesis using unshared_free [OF i vq] s qf by (auto simp: is_free_def flag_simps)
  qed
  have pn: "prev_of p (rm_list st) = (if xs = [] then None else Some (last xs))" "next_of p (rm_list st) = (case ys of [] \<Rightarrow> None | q # _ \<Rightarrow> Some q)"
    unfolding l(1) by (rule prev_at [OF l(2)], rule next_at [OF l(2)])
  consider (both) xs' s t ys' where "xs = xs' @ [s]" "ys = t # ys'" "is_free st (Some s)" "is_free st (Some t)"
    | (prev) xs' s where "xs = xs' @ [s]" "is_free st (Some s)" "\<not> is_free st (next_of p (rm_list st))"
    | (nxt) t ys' where "ys = t # ys'" "\<not> is_free st (prev_of p (rm_list st))" "is_free st (Some t)"
    | (none) "\<not> is_free st (prev_of p (rm_list st))" "\<not> is_free st (next_of p (rm_list st))"
  proof (cases "is_free st (prev_of p (rm_list st))"; cases "is_free st (next_of p (rm_list st))")
    assume a: "is_free st (prev_of p (rm_list st))" "is_free st (next_of p (rm_list st))"
    then have "xs \<noteq> []" "ys \<noteq> []" by (auto simp: pn is_free_def split: if_splits list.splits)
    then obtain xs' s t ys' where e: "xs = xs' @ [s]" "ys = t # ys'" by (metis neq_Nil_conv rev_exhaust)
    then show ?thesis using that(1) a by (simp add: pn)
  next
    assume a: "is_free st (prev_of p (rm_list st))" "\<not> is_free st (next_of p (rm_list st))"
    then have "xs \<noteq> []" by (auto simp: pn is_free_def)
    then obtain xs' s where "xs = xs' @ [s]" by (metis rev_exhaust)
    then show ?thesis using that(2) a by (simp add: pn)
  next
    assume a: "\<not> is_free st (prev_of p (rm_list st))" "is_free st (next_of p (rm_list st))"
    then obtain t ys' where "ys = t # ys'" by (cases ys) (auto simp: pn is_free_def)
    then show ?thesis using that(3) a by (simp add: pn)
  qed (use that(4) in blast)
  then show ?thesis
  proof cases
    case (both xs' s t ys')
    obtain rs where s: "rm_res st s = Some rs" "r_sharehead rs = None" "\<not> allocated rs" "\<not> bit (r_flags rs) 5" "views st s = Some (view rs)"
      using fr [of s] l both by auto
    obtain rt where t: "rm_res st t = Some rt" "r_sharehead rt = None" "\<not> allocated rt" "views st t = Some (view rt)"
      using fr [of t] l both by auto
    have ne: "s \<noteq> p" "t \<noteq> p" "s \<noteq> t" "p \<notin> set xs'" "t \<notin> set xs'" using d l both by auto
    define st' where "st' = rman_merge p st"
    have st': "st' = st\<lparr>rm_res := (rm_res st)(s \<mapsto> rs\<lparr>r_end := r_end rt\<rparr>, t := None, p := None), rm_list := xs' @ [s] @ ys'\<rparr>"
      unfolding st'_def rman_merge_def Let_def pn using l both s t ne by (simp add: free_res_def remove1_append)
    show ?thesis unfolding st'_def [symmetric]
      by (rule merge_pieces [OF inv, where bs = "[s, p, t]" and m = s and s = "rs\<lparr>r_end := r_end rt\<rparr>" and xs = xs' and ys = ys'])
         (use l both s t ne p h v in \<open>auto simp: st' seg_def allocated_def word_le_nat_alt\<close>)
  next
    case (prev xs' s)
    obtain rs where s: "rm_res st s = Some rs" "r_sharehead rs = None" "\<not> allocated rs" "\<not> bit (r_flags rs) 5" "views st s = Some (view rs)"
      using fr [of s] l prev by auto
    have ne: "s \<noteq> p" "p \<notin> set xs'" using d l prev by auto
    define st' where "st' = rman_merge p st"
    have st': "st' = st\<lparr>rm_res := (rm_res st)(s \<mapsto> rs\<lparr>r_end := r_end r\<rparr>, p := None), rm_list := xs' @ [s] @ ys\<rparr>"
      unfolding st'_def rman_merge_def Let_def pn using l prev(1,2) prev(3) [unfolded pn] s p ne by (simp add: free_res_def remove1_append)
    show ?thesis unfolding st'_def [symmetric]
      by (rule merge_pieces [OF inv, where bs = "[s, p]" and m = s and s = "rs\<lparr>r_end := r_end r\<rparr>" and xs = xs' and ys = ys])
         (use l prev s ne p h v in \<open>auto simp: st' seg_def allocated_def word_le_nat_alt\<close>)
  next
    case (nxt t ys')
    obtain rt where t: "rm_res st t = Some rt" "r_sharehead rt = None" "\<not> allocated rt" "\<not> bit (r_flags rt) 5" "views st t = Some (view rt)"
      using fr [of t] l nxt by auto
    have ne: "t \<noteq> p" "t \<notin> set xs" using d l nxt by auto
    define st' where "st' = rman_merge p st"
    have st': "st' = st\<lparr>rm_res := (rm_res st)(t \<mapsto> rt\<lparr>r_start := r_start r\<rparr>, p := None), rm_list := xs @ [t] @ ys'\<rparr>"
      unfolding st'_def rman_merge_def Let_def pn using l nxt(1,3) nxt(2) [unfolded pn] t p ne by (simp add: free_res_def remove1_append)
    show ?thesis unfolding st'_def [symmetric]
      by (rule merge_pieces [OF inv, where bs = "[p, t]" and m = t and s = "rt\<lparr>r_start := r_start r\<rparr>" and xs = xs and ys = ys'])
         (use l nxt t ne p h v in \<open>auto simp: st' seg_def allocated_def word_le_nat_alt\<close>)
  next
    case none
    define st' where "st' = rman_merge p st"
    have st': "st' = put_res p (r\<lparr>r_flags := r_flags r AND NOT RF_ALLOCATED\<rparr>) st"
      using none p by (simp add: st'_def rman_merge_def Let_def)
    show ?thesis unfolding st'_def [symmetric]
      by (rule merge_pieces [OF inv, where bs = "[p]" and m = p and s = "r\<lparr>r_flags := r_flags r AND NOT RF_ALLOCATED\<rparr>" and xs = xs and ys = ys])
         (use l p h v pl in \<open>auto simp: st' seg_def flag_simps unallocated\<close>)
  qed
qed

text \<open>Releasing always succeeds, and takes away what the resource held, and idle else.\<close>

lemma release_outcome:
  assumes inv: "rman_inv lo hi st" and p: "rm_res st p = Some r"
  shows "\<exists>st'. int_rman_release_resource p st = Some st' \<and> rman_inv lo hi st' \<and> grants st' = (grants st)(p := None)"
proof -
  define st1 where "st1 = (if r_flags (the_res st p) AND RF_ACTIVE \<noteq> 0 then int_rman_deactivate_resource p st else st)"
  have st1: "rman_inv lo hi st1" "grants st1 = grants st" "views st1 = views st"
    using deactivate_outcome [OF inv p] inv by (auto simp: st1_def)
  have "views st1 p \<noteq> None" using st1(3) p by (simp add: views_def)
  then obtain r1 where r1: "rm_res st1 p = Some r1" by (auto simp: views_def)
  show ?thesis
  proof (cases "r_sharehead r1")
    case None
    then show ?thesis using merge_outcome [OF st1(1) r1 None] r1 st1(2)
      by (simp add: int_rman_release_resource_def Let_def st1_def [symmetric])
  next
    case (Some h)
    then show ?thesis using unshare_outcome [OF st1(1) r1 Some] r1 st1(2)
      by (auto simp: int_rman_release_resource_def Let_def st1_def [symmetric] released_def)
  qed
qed

section \<open>Reserving\<close>

lemma reachable_segments:
  "tiles a (map (\<lambda>q. (r_start (f q), r_end (f q))) l) b \<Longrightarrow> q \<in> set (dropWhile (\<lambda>q. r_end (f q) < start) l) \<Longrightarrow>
   start \<le> r_end (f q) \<and> r_start (f q) \<le> r_end (f q) \<and> unat (r_end (f q)) < b \<and> a \<le> unat (r_start (f q))"
proof (induction l arbitrary: a)
  case (Cons p l)
  have t: "tiles (unat (r_end (f p)) + 1) (map (\<lambda>q. (r_start (f q), r_end (f q))) l) b" "unat (r_start (f p)) = a" "r_start (f p) \<le> r_end (f p)"
    using Cons.prems(1) by auto
  show ?case
  proof (cases "r_end (f p) < start")
    case True
    then show ?thesis using Cons.IH [OF t(1)] Cons.prems(2) t(2,3) by (simp add: word_le_nat_alt)
  next
    case False
    then have "q = p \<or> q \<in> set l" using Cons.prems(2) by simp
    then show ?thesis
    proof
      assume "q \<in> set l"
      then have "(r_start (f q), r_end (f q)) \<in> set (map (\<lambda>q. (r_start (f q), r_end (f q))) l)" by auto
      from tiles_in [OF t(1) this] show ?thesis using False t(2,3) by (simp add: word_le_nat_alt not_less)
    next
      assume "q = p"
      then show ?thesis using False t tiles_le [OF t(1)] by (simp add: word_le_nat_alt not_less)
    qed
  qed
qed simp

lemma inv_tiles: "rman_inv lo hi st \<Longrightarrow> tiles lo (map (\<lambda>q. (r_start (the_res st q), r_end (the_res st q))) (rm_list st)) hi"
proof -
  assume inv: "rman_inv lo hi st"
  have "map (seg (views st)) (rm_list st) = map (\<lambda>q. (r_start (the_res st q), r_end (the_res st q))) (rm_list st)"
  proof (intro map_cong refl)
    fix q assume "q \<in> set (rm_list st)"
    from rman_live [OF inv this] show "seg (views st) q = (r_start (the_res st q), r_end (the_res st q))"
      by (auto simp: seg_def views_def)
  qed
  then show ?thesis using rinvD(2) [OF rman_invD(1) [OF inv]] by (simp only:)
qed

lemma scan_shared_fit:
  "rman_scan_shared st (mask k) (NOT (bound - 1)) start end count flags ps = Some p \<Longrightarrow>
   p \<in> set ps \<and> exact_fit k bound start end count (the_res st p)"
  by (induction ps) (auto simp: Let_def exact_fit_def split: if_splits)

text \<open>A request, and the range of units that serves it.\<close>

record request =
  q_start :: ulong
  q_end :: ulong
  q_count :: ulong
  q_bound :: ulong
  q_flags :: u32

definition serves :: "nat \<Rightarrow> nat \<Rightarrow> request \<Rightarrow> ulong \<times> ulong \<Rightarrow> bool" where
  "serves lo hi q ab \<longleftrightarrow>
     (case ab of (a, b) \<Rightarrow> q_start q \<le> a \<and> lo \<le> unat a \<and> unat b = unat a + unat (q_count q) - 1 \<and> unat b < hi \<and>
       a AND mask (RF_ALIGNMENT (q_flags q)) = 0 \<and> (a XOR b) AND NOT (q_bound q - 1) = 0 \<and>
       (RF_ALIGNMENT (q_flags q) = 0 \<and> q_bound q = 0 \<and> q_start q \<le> q_end q \<longrightarrow> a \<le> q_end q))"

definition valid_request :: "nat \<Rightarrow> request \<Rightarrow> bool" where
  "valid_request hi q \<longleftrightarrow> good_bound (RF_ALIGNMENT (q_flags q)) (q_bound q) (q_count q) \<and> 0 < q_count q \<and>
     \<not> bit (q_flags q) 5 \<and> hi + 2 ^ RF_ALIGNMENT (q_flags q) + unat (q_bound q) \<le> 2 ^ 32"

text \<open>The outcome of a call that may return a resource.\<close>

definition reserved :: "nat \<Rightarrow> nat \<Rightarrow> request \<Rightarrow> rman \<Rightarrow> ptr option \<times> rman \<Rightarrow> bool" where
  "reserved lo hi q st r \<longleftrightarrow> rman_inv lo hi (snd r) \<and>
     (case fst r of
        None \<Rightarrow> grants (snd r) = grants st
      | Some p \<Rightarrow> grants st p = None \<and> (\<exists>ab. serves lo hi q ab \<and> grants (snd r) = (grants st)(p \<mapsto> ab)))"

lemma got_reserved:
  assumes "rman_inv lo hi (snd r) \<and> got st a b r" and "serves lo hi q (a, b)"
  shows "reserved lo hi q st r"
  using assms by (auto simp: reserved_def got_def granted_def split: option.splits)

lemma grab_outcome:
  fixes dev :: ptr
  assumes inv: "rman_inv lo hi st" and q: "valid_request hi q"
  shows "\<exists>r. rman_grab (q_start q) (q_end q) (q_count q) (q_bound q) (q_flags q) dev st = Some r \<and> reserved lo hi q st r"
proof -
  define k where "k = RF_ALIGNMENT (q_flags q)"
  define l where "l = dropWhile (\<lambda>p. r_end (the_res st p) < q_start q) (rm_list st)"
  have g: "good_bound k (q_bound q) (q_count q)" and c: "0 < q_count q" and f: "\<not> bit (q_flags q) 5"
    and w: "hi + 2 ^ k + unat (q_bound q) \<le> 2 ^ 32"
    using q by (simp_all add: valid_request_def k_def)
  have sub: "p \<in> set (rm_list st)" if "p \<in> set l" for p using that unfolding l_def by (rule set_dropWhileD)
  have seg: "q_start q \<le> r_end (the_res st p) \<and> r_start (the_res st p) \<le> r_end (the_res st p) \<and> unat (r_end (the_res st p)) < hi \<and>
    lo \<le> unat (r_start (the_res st p))" if "p \<in> set l" for p
    using reachable_segments [OF inv_tiles [OF inv], of p "q_start q"] that by (simp add: l_def)
  have sc: "scannable st hi (q_start q) l" using seg by (simp add: scannable_def)
  have run: "rman_grab (q_start q) (q_end q) (q_count q) (q_bound q) (q_flags q) dev st =
    (if l = [] then Some (None, st)
     else (case rman_scan st (mask k) (NOT (q_bound q - 1)) (q_bound q) (q_start q) (q_end q) (q_count q) l of
            None \<Rightarrow> None
          | Some (Some (p, rstart)) \<Rightarrow> Some (rman_take p rstart (q_count q) (q_flags q) dev st)
          | Some None \<Rightarrow>
              (if q_flags q AND (RF_SHAREABLE OR RF_TIMESHARE) = 0 then Some (None, st)
               else (case rman_scan_shared st (mask k) (NOT (q_bound q - 1)) (q_start q) (q_end q) (q_count q) (q_flags q) l of
                       None \<Rightarrow> Some (None, st)
                     | Some p \<Rightarrow> Some (rman_share p dev st)))))"
    unfolding rman_grab_def Let_def l_def [symmetric] k_def [symmetric] mask_push ..
  have idle: "reserved lo hi q st (None, st)" using inv by (simp add: reserved_def)
  obtain r where r: "rman_scan st (mask k) (NOT (q_bound q - 1)) (q_bound q) (q_start q) (q_end q) (q_count q) l = Some r"
    and rest: "(\<forall>p rs. r = Some (p, rs) \<longrightarrow> p \<in> set l \<and> \<not> allocated (the_res st p) \<and> r_start (the_res st p) \<le> rs \<and> q_start q \<le> rs \<and>
      unat rs + unat (q_count q) \<le> unat (r_end (the_res st p)) + 1 \<and> rs AND mask k = 0 \<and>
      (rs XOR (rs + q_count q - 1)) AND NOT (q_bound q - 1) = 0 \<and> (k = 0 \<and> q_bound q = 0 \<and> q_start q \<le> q_end q \<longrightarrow> rs \<le> q_end q)) \<and>
     (\<forall>fl p. r = None \<longrightarrow> rman_scan_shared st (mask k) (NOT (q_bound q - 1)) (q_start q) (q_end q) (q_count q) fl l = Some p \<longrightarrow>
      allocated (the_res st p))"
    using scan_result [OF g w c sc, of "q_end q"] by (elim exE conjE) simp
  note take = rest [THEN conjunct1, rule_format] and share = rest [THEN conjunct2, rule_format]
  show ?thesis
  proof (cases r)
    case (Some prs)
    then obtain p rs where prs: "r = Some (p, rs)" by (cases prs) auto
    note t = take [OF prs]
    obtain s where s: "rm_res st p = Some s" using rman_live [OF inv sub] t by blast
    have to: "rman_inv lo hi (snd (rman_take p rs (q_count q) (q_flags q) dev st)) \<and>
      got st rs (rs + q_count q - 1) (rman_take p rs (q_count q) (q_flags q) dev st)"
      by (rule take_outcome [OF inv s _ f c]) (use t s in auto)
    have "serves lo hi q (rs, rs + q_count q - 1)"
      using t seg [of p] last_unit [OF c, of rs "r_end s"] s c
      by (auto simp: serves_def k_def word_le_nat_alt word_less_nat_alt)
    then show ?thesis using got_reserved [OF to] t by (cases "l = []") (auto simp: run r prs)
  next
    case None
    show ?thesis
    proof (cases "rman_scan_shared st (mask k) (NOT (q_bound q - 1)) (q_start q) (q_end q) (q_count q) (q_flags q) l")
      case None': None
      have "rman_grab (q_start q) (q_end q) (q_count q) (q_bound q) (q_flags q) dev st = Some (None, st)"
        by (simp add: run r \<open>r = None\<close> None')
      then show ?thesis using idle by blast
    next
      case (Some p)
      have fit: "p \<in> set l" "exact_fit k (q_bound q) (q_start q) (q_end q) (q_count q) (the_res st p)" using scan_shared_fit [OF Some] by auto
      obtain s where s: "rm_res st p = Some s" using rman_live [OF inv sub] fit by blast
      have al: "allocated s" using share [OF None Some] s by simp
      have so: "rman_inv lo hi (snd (rman_share p dev st)) \<and> got st (r_start s) (r_end s) (rman_share p dev st)"
        by (rule share_outcome [OF inv s al sub [OF fit(1)]])
      have e: "exact_fit k (q_bound q) (q_start q) (q_end q) (q_count q) s" using fit(2) s by simp
      then have "unat (q_count q) = unat (r_end s) - unat (r_start s) + 1"
        using whole_size [of "r_end s" "r_start s" "q_count q"] c seg [OF fit(1)] s by (simp add: exact_fit_def)
      then have "serves lo hi q (r_start s, r_end s)"
        using e seg [OF fit(1)] s by (simp add: exact_fit_def serves_def k_def word_le_nat_alt)
      then have "reserved lo hi q st (rman_share p dev st)" by (rule got_reserved [OF so])
      then show ?thesis using idle by (cases "l = []"; cases "q_flags q AND (RF_SHAREABLE OR RF_TIMESHARE) = 0")
        (simp_all add: run r \<open>r = None\<close> Some)
    qed
  qed
qed

definition rman_request :: "request \<Rightarrow> ptr \<Rightarrow> rman \<Rightarrow> (ptr option \<times> rman) option" where
  "rman_request q dev st = rman_reserve_resource_bound (q_start q) (q_end q) (q_count q) (q_bound q) (q_flags q) dev st"

lemma alignment_active: "RF_ALIGNMENT (f AND NOT RF_ACTIVE) = RF_ALIGNMENT f"
proof -
  have "(f AND NOT RF_ACTIVE) AND push_bit 10 0x3F = f AND (NOT RF_ACTIVE AND push_bit 10 0x3F)" by (simp only: and.assoc)
  also have "NOT RF_ACTIVE AND push_bit 10 0x3F = (push_bit 10 0x3F :: u32)" by (simp add: RF_ACTIVE_def push_bit_eq_mult)
  finally show ?thesis by (simp add: RF_ALIGNMENT_def)
qed

lemma request_outcome:
  assumes inv: "rman_inv lo hi st" and q: "valid_request hi q"
  shows "\<exists>r. rman_request q dev st = Some r \<and> reserved lo hi q st r"
proof -
  define q1 where "q1 = q\<lparr>q_flags := q_flags q AND NOT RF_ACTIVE\<rparr>"
  have q1: "valid_request hi q1" using q by (simp add: valid_request_def q1_def alignment_active flag_simps)
  have serves: "serves lo hi q1 = serves lo hi q" by (rule ext) (simp add: serves_def q1_def alignment_active split: prod.split)
  have res: "reserved lo hi q1 st r = reserved lo hi q st r" for r unfolding reserved_def serves ..
  obtain rv st1 where g: "rman_grab (q_start q) (q_end q) (q_count q) (q_bound q) (q_flags q AND NOT RF_ACTIVE) dev st = Some (rv, st1)"
    and o: "reserved lo hi q st (rv, st1)"
    using grab_outcome [OF inv q1, of dev] by (auto simp: q1_def res [unfolded q1_def])
  show ?thesis
  proof (cases rv)
    case None
    then show ?thesis using g o by (simp add: rman_request_def rman_reserve_resource_bound_def Let_def)
  next
    case (Some p)
    obtain a0 b0 where ab: "grants st p = None" "serves lo hi q (a0, b0)" "grants st1 = (grants st)(p \<mapsto> (a0, b0))" and i1: "rman_inv lo hi st1"
      using o Some by (auto simp: reserved_def)
    have "grants st1 p \<noteq> None" using ab by simp
    then obtain r where r: "rm_res st1 p = Some r" by (auto simp: grants_def held_def views_def split: option.splits)
    obtain e w st2 where act: "int_rman_activate_resource p st1 = ((e, w), st2)" by (metis surj_pair)
    have a: "rman_inv lo hi st2" "grants st2 = grants st1" "rm_res st2 p \<noteq> None" using activate_outcome [OF i1 r] act by auto
    show ?thesis
    proof (cases "q_flags q AND RF_ACTIVE \<noteq> 0 \<and> e \<noteq> None")
      case False
      then have "rman_request q dev st = Some (Some p, if q_flags q AND RF_ACTIVE \<noteq> 0 then st2 else st1)"
        using g Some act by (auto simp: rman_request_def rman_reserve_resource_bound_def Let_def)
      then show ?thesis using ab a i1 by (auto simp: reserved_def)
    next
      case True
      obtain r2 where "rm_res st2 p = Some r2" using a(3) by blast
      from release_outcome [OF a(1) this] obtain st3 where
        st3: "int_rman_release_resource p st2 = Some st3" "rman_inv lo hi st3" "grants st3 = (grants st2)(p := None)" by blast
      have "rman_request q dev st = Some (None, st3)"
        using g Some act True st3 by (auto simp: rman_request_def rman_reserve_resource_bound_def Let_def)
      moreover have "grants st3 = grants st" using st3(3) a(2) ab by (simp add: fun_upd_idem)
      ultimately show ?thesis using st3(2) by (simp add: reserved_def)
    qed
  qed
qed

end
