(* ===== verification/Subr_Rman_Merge.thy ===== *)
theory Subr_Rman_Merge
  imports Subr_Rman_Calls
begin

text \<open>
  Free space is kept in one piece: no two neighbours on the list of segments are free. Every
  operation of the resource manager keeps this, the release by merging what it gives back.
\<close>

section \<open>Merged lists\<close>

definition rman_merged :: "rman \<Rightarrow> bool" where
  "rman_merged st \<longleftrightarrow> successively (\<lambda>p q. allocated (the_res st p) \<or> allocated (the_res st q)) (rm_list st)"

lemma merged_by:
  assumes "successively (\<lambda>p q. a p \<or> a q) (rm_list st)" and "\<And>x. x \<in> set (rm_list st) \<Longrightarrow> allocated (the_res st x) \<longleftrightarrow> a x"
  shows "rman_merged st"
  using assms unfolding rman_merged_def by (metis (mono_tags, lifting) successively_cong)

lemma merged_views:
  assumes "rman_merged st" and "views st' = views st" and "rm_list st' = rm_list st"
  shows "rman_merged st'"
proof -
  have "allocated (the_res st' x) = allocated (the_res st x)" for x
    using fun_cong [OF assms(2), of x]
    by (cases "rm_res st x"; cases "rm_res st' x") (auto simp: views_def view_def allocated_def flag_simps)
  then show ?thesis using assms(1,3) by (simp add: rman_merged_def)
qed

lemma alloc_nz: "RF_ALLOCATED \<noteq> 0" by (simp add: RF_ALLOCATED_def)

lemmas succ_simps = successively_append_iff successively_Cons

text \<open>A run bs of the list is replaced by qs, which are merged, and touch an allocated segment on both sides or are
  allocated there.\<close>

lemma merged_replace:
  assumes m: "rman_merged st" and l: "rm_list st = xs @ bs @ ys" and l': "rm_list st' = xs @ qs @ ys" and ne: "qs \<noteq> []"
    and same: "\<And>x. x \<in> set xs \<union> set ys \<Longrightarrow> rm_res st' x = rm_res st x"
    and mid: "successively (\<lambda>p q. allocated (the_res st' p) \<or> allocated (the_res st' q)) qs"
    and left: "xs = [] \<or> allocated (the_res st (last xs)) \<or> allocated (the_res st' (hd qs))"
    and right: "ys = [] \<or> allocated (the_res st (hd ys)) \<or> allocated (the_res st' (last qs))"
  shows "rman_merged st'"
proof -
  let ?m = "\<lambda>st p q. allocated (the_res st p) \<or> allocated (the_res st q)"
  have "successively (?m st) xs" "successively (?m st) ys" using m l by (auto simp: rman_merged_def succ_simps)
  moreover have "successively (?m st') zs = successively (?m st) zs" if "set zs \<subseteq> set xs \<union> set ys" for zs
    by (rule successively_cong) (use same that in auto)
  ultimately have "successively (?m st') xs" "successively (?m st') ys" by simp_all
  moreover have "xs = [] \<or> allocated (the_res st' (last xs)) \<or> allocated (the_res st' (hd qs))"
    using left same by (cases "xs = []") simp_all
  moreover have "ys = [] \<or> allocated (the_res st' (last qs)) \<or> allocated (the_res st' (hd ys))"
    using right same by (cases "ys = []") auto
  ultimately have "successively (?m st') (xs @ qs @ ys)" using mid ne by (simp add: successively_append_iff)
  then show ?thesis by (simp add: rman_merged_def l')
qed

section \<open>Giving back\<close>

lemma merge_merged:
  assumes inv: "rman_inv lo hi st" and p: "rm_res st p = Some r" "r_sharehead r = None" and m: "rman_merged st"
  shows "rman_merged (rman_merge p st)"
proof -
  note i = rman_invD(1) [OF inv]
  have "views st p = Some (view r)" using p by (simp add: views_def)
  from rinvD(3) [OF i this] have "p \<in> set (rm_list st)" using p by (simp add: owned_def)
  then obtain xs ys where l: "rm_list st = xs @ p # ys" "p \<notin> set xs" using split_list_first by metis
  have d: "distinct (xs @ p # ys)" using rinvD(1) [OF i] l by (simp add: listed_def)
  have pn: "prev_of p (rm_list st) = (if xs = [] then None else Some (last xs))" "next_of p (rm_list st) = (case ys of [] \<Rightarrow> None | q # _ \<Rightarrow> Some q)"
    unfolding l(1) by (rule prev_at [OF l(2)], rule next_at [OF l(2)])
  let ?a = "\<lambda>q. allocated (the_res st q)"
  have s: "successively (\<lambda>p q. ?a p \<or> ?a q) (xs @ p # ys)" using m l by (simp add: rman_merged_def)
  consider (both) xs' s t ys' where "xs = xs' @ [s]" "ys = t # ys'" "\<not> ?a s" "\<not> ?a t"
    | (prev) xs' s where "xs = xs' @ [s]" "\<not> ?a s" "ys = [] \<or> ?a (hd ys)"
    | (nxt) t ys' where "ys = t # ys'" "xs = [] \<or> ?a (last xs)" "\<not> ?a t"
    | (none) "xs = [] \<or> ?a (last xs)" "ys = [] \<or> ?a (hd ys)"
    by (metis append_butlast_last_id list.collapse)
  then show ?thesis
  proof cases
    case both
    have run: "rman_merge p st = st\<lparr>rm_res := (rm_res st)(s \<mapsto> (the_res st s)\<lparr>r_end := r_end (the_res st t)\<rparr>, t := None, p := None),
        rm_list := xs' @ s # ys'\<rparr>"
      unfolding rman_merge_def Let_def pn using l both d by (simp add: free_res_def remove1_append is_free_def)
    show ?thesis unfolding run
      by (rule merged_replace [OF m, where xs = xs' and bs = "[s, p, t]" and qs = "[s]" and ys = ys'])
         (use s both d l in \<open>auto simp: succ_simps\<close>)
  next
    case prev
    have run: "rman_merge p st = st\<lparr>rm_res := (rm_res st)(s \<mapsto> (the_res st s)\<lparr>r_end := r_end r\<rparr>, p := None), rm_list := xs' @ s # ys\<rparr>"
      unfolding rman_merge_def Let_def pn using l prev d p
      by (cases ys) (simp_all add: free_res_def remove1_append is_free_def)
    show ?thesis unfolding run
      by (rule merged_replace [OF m, where xs = xs' and bs = "[s, p]" and qs = "[s]" and ys = ys])
         (use s prev d l in \<open>auto simp: succ_simps\<close>)
  next
    case nxt
    have run: "rman_merge p st = st\<lparr>rm_res := (rm_res st)(t \<mapsto> (the_res st t)\<lparr>r_start := r_start r\<rparr>, p := None), rm_list := xs @ t # ys'\<rparr>"
      unfolding rman_merge_def Let_def pn using l nxt d p by (auto simp: free_res_def remove1_append is_free_def)
    show ?thesis unfolding run
      by (rule merged_replace [OF m, where xs = xs and bs = "[p, t]" and qs = "[t]" and ys = ys'])
         (use s nxt d l in \<open>auto simp: succ_simps\<close>)
  next
    case none
    have run: "rman_merge p st = put_res p (r\<lparr>r_flags := r_flags r AND NOT RF_ALLOCATED\<rparr>) st"
      unfolding rman_merge_def Let_def pn using none p by (cases ys) (auto simp: is_free_def)
    show ?thesis unfolding run
      by (rule merged_replace [OF m, where xs = xs and bs = "[p]" and qs = "[p]" and ys = ys])
         (use none d l in \<open>auto simp: succ_simps\<close>)
  qed
qed

lemma unshare_merged:
  assumes inv: "rman_inv lo hi st" and p: "rm_res st p = Some r" "r_sharehead r = Some h" and m: "rman_merged st"
    and run: "rman_unshare p h st = Some st'"
  shows "rman_merged st'"
proof -
  note i = rman_invD(1) [OF inv]
  have vp: "views st p = Some (view r)" using p by (simp add: views_def)
  from rinvD(3) [OF i this] obtain L where L: "rm_share st h = Some L" "p \<in> set L" "allocated r"
    "r_flags r AND RF_FIRSTSHARE \<noteq> 0 \<longleftrightarrow> p \<in> set (rm_list st)"
    using p by (auto simp: owned_def)
  note sh = rinvD(4) [OF i L(1)]
  obtain q rest where rest: "remove1 p L = q # rest" using run L(1) by (cases "remove1 p L") (auto simp: rman_unshare_def Let_def)
  have "distinct L" using sh by (simp add: sharing_def)
  then have q: "q \<in> set L" "q \<noteq> p" using rest set_remove1_eq [of L p] by auto
  then obtain rq where rq: "rm_res st q = Some rq" "allocated rq"
    using sharing_member [OF sh q(1)] rinvD(3) [OF i] by (fastforce simp: views_def owned_def)
  have d: "distinct (rm_list st)" using rinvD(1) [OF i] by (simp add: listed_def)
  have res: "allocated (the_res st' x) \<longleftrightarrow> allocated (the_res st x)" if "x \<noteq> p" for x
    using run L(1) rest p rq q that
    by (auto simp: rman_unshare_def Let_def free_res_def allocated_def flag_simps split: if_splits)
  have list: "rm_list st' = (if r_flags r AND RF_FIRSTSHARE \<noteq> 0 then remove1 p (insert_before p q (rm_list st)) else rm_list st)"
    using run L(1) rest p by (auto simp: rman_unshare_def Let_def free_res_def split: if_splits)
  show ?thesis
  proof (cases "p \<in> set (rm_list st)")
    case False
    then have "rm_list st' = rm_list st" using list L(4) by simp
    then show ?thesis using m res False by (intro merged_by [of "\<lambda>x. allocated (the_res st x)"]) (auto simp: rman_merged_def, metis+)
  next
    case True
    then obtain xs ys where l: "rm_list st = xs @ p # ys" "p \<notin> set xs" using split_list_first by metis
    have "rm_list st' = xs @ q # ys" using list True L(4) l q d by (simp add: insert_at remove1_append)
    moreover have "p \<notin> set ys" using d l by simp
    moreover have "successively (\<lambda>p q. allocated (the_res st p) \<or> allocated (the_res st q)) (xs @ q # ys)"
      using m l rq p L(3) by (cases ys) (auto simp: rman_merged_def succ_simps)
    ultimately show ?thesis using res l q by (intro merged_by [of "\<lambda>x. allocated (the_res st x)"]) (auto, metis+)
  qed
qed

lemma release_merged:
  assumes inv: "rman_inv lo hi st" and p: "rm_res st p = Some r" and m: "rman_merged st"
    and run: "int_rman_release_resource p st = Some st'"
  shows "rman_merged st'"
proof -
  define st1 where "st1 = (if r_flags (the_res st p) AND RF_ACTIVE \<noteq> 0 then int_rman_deactivate_resource p st else st)"
  have st1: "rman_inv lo hi st1" "views st1 = views st" "rm_list st1 = rm_list st"
    using deactivate_outcome [OF inv p] inv by (auto simp: st1_def)
  have m1: "rman_merged st1" by (rule merged_views [OF m st1(2,3)])
  have "views st1 p \<noteq> None" using st1(2) p by (simp add: views_def)
  then obtain r1 where r1: "rm_res st1 p = Some r1" by (auto simp: views_def)
  show ?thesis
  proof (cases "r_sharehead r1")
    case None
    then show ?thesis using merge_merged [OF st1(1) r1 None m1] run r1
      by (simp add: int_rman_release_resource_def Let_def st1_def [symmetric])
  next
    case (Some h)
    then have "rman_unshare p h st1 = Some st'" using run r1 by (simp add: int_rman_release_resource_def Let_def st1_def [symmetric])
    then show ?thesis by (rule unshare_merged [OF st1(1) r1 Some m1])
  qed
qed

section \<open>Reserving\<close>

lemma take_merged:
  fixes dev :: ptr
  assumes inv: "rman_inv lo hi st" and p: "p \<in> set (rm_list st)" "\<not> allocated (the_res st p)" and m: "rman_merged st"
  shows "rman_merged (snd (rman_take p rs count flags dev st))"
proof -
  note i = rman_invD(1) [OF inv]
  define b where "b = rm_brk st"
  have fresh: "b \<notin> set (rm_list st)" "Suc b \<notin> set (rm_list st)"
    using rman_live [OF inv, of b] rman_live [OF inv, of "Suc b"] rman_invD(2) [OF inv, of b] rman_invD(2) [OF inv, of "Suc b"]
    by (auto simp: b_def)
  obtain xs ys where l: "rm_list st = xs @ p # ys" "p \<notin> set xs" using p(1) split_list_first by metis
  have d: "distinct (xs @ p # ys)" using rinvD(1) [OF i] l by (simp add: listed_def)
  have n: "b \<noteq> p" "Suc b \<noteq> p" "b \<notin> set xs" "Suc b \<notin> set xs" "b \<notin> set ys" "Suc b \<notin> set ys" using fresh l by auto
  let ?a = "\<lambda>q. allocated (the_res st q)"
  have s: "successively (\<lambda>p q. ?a p \<or> ?a q) (xs @ p # ys)" using m l by (simp add: rman_merged_def)
  then have nb: "xs = [] \<or> ?a (last xs)" "ys = [] \<or> ?a (hd ys)" using p by (cases ys; auto simp: succ_simps)+
  have al: "allocated (r\<lparr>r_flags := f OR (RF_ALLOCATED OR g)\<rparr>)" "allocated (r\<lparr>r_flags := g OR RF_ALLOCATED\<rparr>)" "allocated \<lparr>r_sharehead = h, r_start = x, r_end = y, r_flags = g OR RF_ALLOCATED, r_virtual = v, r_dev = w, r_rid = z\<rparr>"
    for r f g h x y v w z
    by (simp_all add: allocated_def flag_simps alloc_nz)
  have idem: "(rm_res st)(b := None) = rm_res st" using rman_invD(2) [OF inv, of b] by (simp add: b_def fun_upd_idem)
  consider (whole) "r_end (the_res st p) - r_start (the_res st p) + 1 = count" | (nomem) "r_end (the_res st p) - r_start (the_res st p) + 1 \<noteq> count" "\<not> rm_ok st b"
    | (middle) "r_end (the_res st p) - r_start (the_res st p) + 1 \<noteq> count" "rm_ok st b" "r_start (the_res st p) < rs" "rs + count - 1 < r_end (the_res st p)"
    | (first) "r_end (the_res st p) - r_start (the_res st p) + 1 \<noteq> count" "rm_ok st b" "r_start (the_res st p) = rs"
    | (tail) "r_end (the_res st p) - r_start (the_res st p) + 1 \<noteq> count" "rm_ok st b" "r_start (the_res st p) \<noteq> rs"
        "\<not> (r_start (the_res st p) < rs \<and> rs + count - 1 < r_end (the_res st p))" by blast
  then show ?thesis
  proof cases
    case whole
    then show ?thesis
      by (intro merged_replace [OF m, where xs = xs and bs = "[p]" and qs = "[p]" and ys = ys])
         (use l d nb in \<open>auto simp: rman_take_def Let_def\<close>)
  next
    case nomem
    then show ?thesis using m by (simp add: rman_take_def rm_malloc_def b_def [symmetric] Let_def rman_merged_def)
  next
    case middle
    show ?thesis
    proof (cases "rm_ok st (Suc b)")
      case False
      then show ?thesis using m middle
        by (simp add: rman_take_def rm_malloc_def b_def [symmetric] Let_def rman_merged_def zero_resource_def idem)
    next
      case True
      have "rm_list (snd (rman_take p rs count flags dev st)) = xs @ [p, b, Suc b] @ ys"
        using middle True l n insert_at [of b "xs @ [p]" "Suc b" ys]
        by (auto simp: rman_take_def rm_malloc_def Let_def b_def [symmetric] insert_at zero_resource_def)
      then show ?thesis using middle True
        by (intro merged_replace [OF m, where xs = xs and bs = "[p]" and qs = "[p, b, Suc b]" and ys = ys])
           (use l d n nb al in \<open>auto simp: rman_take_def rm_malloc_def Let_def b_def [symmetric] zero_resource_def\<close>)
    qed
  next
    case first
    then have "rm_list (snd (rman_take p rs count flags dev st)) = xs @ b # p # ys"
      using l n by (simp add: rman_take_def rm_malloc_def Let_def b_def [symmetric] insert_at zero_resource_def)
    then show ?thesis using first
      by (intro merged_replace [OF m, where xs = xs and bs = "[p]" and qs = "[b, p]" and ys = ys])
         (use l d n nb al in \<open>auto simp: rman_take_def rm_malloc_def Let_def b_def [symmetric] zero_resource_def\<close>)
  next
    case tail
    then have "rm_list (snd (rman_take p rs count flags dev st)) = xs @ p # b # ys"
      using l n by (auto simp: rman_take_def rm_malloc_def Let_def b_def [symmetric] insert_at zero_resource_def)
    then show ?thesis using tail
      by (intro merged_replace [OF m, where xs = xs and bs = "[p]" and qs = "[p, b]" and ys = ys])
         (use l d n nb al in \<open>auto simp: rman_take_def rm_malloc_def Let_def b_def [symmetric] zero_resource_def\<close>)
  qed
qed

lemma share_merged:
  assumes inv: "rman_inv lo hi st" and p: "p \<in> set (rm_list st)" and m: "rman_merged st"
  shows "rman_merged (snd (rman_share p dev st))"
proof (rule merged_by)
  define st' where "st' = snd (rman_share p dev st)"
  have list: "rm_list st' = rm_list st"
    by (simp add: st'_def rman_share_def rm_malloc_def Let_def split: option.split)
  then show "successively (\<lambda>p q. allocated (the_res st p) \<or> allocated (the_res st q)) (rm_list (snd (rman_share p dev st)))"
    using m by (simp add: rman_merged_def st'_def)
  fix x assume "x \<in> set (rm_list (snd (rman_share p dev st)))"
  then have x: "x \<in> set (rm_list st)" using list by (simp add: st'_def)
  then have "x \<noteq> rm_brk st" using rman_live [OF inv x] rman_invD(2) [OF inv, of x] by auto
  then show "allocated (the_res (snd (rman_share p dev st)) x) \<longleftrightarrow> allocated (the_res st x)"
    by (auto simp: rman_share_def rm_malloc_def Let_def allocated_def flag_simps split: option.split)
qed

lemma activate_merged:
  assumes p: "rm_res st p = Some r" and m: "rman_merged st"
  shows "rman_merged (snd (int_rman_activate_resource p st))"
proof (rule merged_views [OF m])
  have "views (put_res p (r\<lparr>r_flags := r_flags r OR RF_ACTIVE\<rparr>) st) = views st" by (rule put_view [OF p view_active])
  then show "views (snd (int_rman_activate_resource p st)) = views st"
    using p by (simp add: int_rman_activate_resource_def Let_def split: option.split)
  show "rm_list (snd (int_rman_activate_resource p st)) = rm_list st"
    by (simp add: int_rman_activate_resource_def Let_def split: option.split)
qed

lemma scan_free:
  "rman_scan st amask bmask bound start end count ps = Some (Some (p, rs)) \<Longrightarrow> p \<in> set ps \<and> \<not> allocated (the_res st p)"
  by (induction ps) (auto simp: Let_def split: if_splits option.splits)

lemma scan_shared_in: "rman_scan_shared st amask bmask start end count flags ps = Some p \<Longrightarrow> p \<in> set ps"
  by (induction ps) (auto simp: Let_def split: if_splits)

lemma grab_merged:
  assumes inv: "rman_inv lo hi st" and m: "rman_merged st" and run: "rman_grab start end count bound flags dev st = Some r"
  shows "rman_merged (snd r)"
proof -
  have sub: "p \<in> set (rm_list st)" if "p \<in> set (dropWhile (\<lambda>q. r_end (the_res st q) < start) (rm_list st))" for p
    using that by (rule set_dropWhileD)
  show ?thesis
    using run m take_merged [OF inv _ _ m] share_merged [OF inv _ m] sub
    by (auto simp: rman_grab_def Let_def dest!: scan_free scan_shared_in split: if_splits option.splits)
qed

lemma request_merged:
  assumes inv: "rman_inv lo hi st" and q: "valid_request hi q" and m: "rman_merged st"
    and run: "rman_request q dev st = Some (rv, st')"
  shows "rman_merged st'"
proof -
  define q1 where "q1 = q\<lparr>q_flags := q_flags q AND NOT RF_ACTIVE\<rparr>"
  have q1: "valid_request hi q1" using q by (simp add: valid_request_def q1_def alignment_active flag_simps)
  obtain rv1 st1 where g: "rman_grab (q_start q) (q_end q) (q_count q) (q_bound q) (q_flags q AND NOT RF_ACTIVE) dev st = Some (rv1, st1)"
    and o: "reserved lo hi q1 st (rv1, st1)"
    using grab_outcome [OF inv q1, of dev] by (auto simp: q1_def)
  have m1: "rman_merged st1" using grab_merged [OF inv m g] by simp
  have i1: "rman_inv lo hi st1" using o by (simp add: reserved_def)
  show ?thesis
  proof (cases rv1)
    case None
    then show ?thesis using g run m1 by (simp add: rman_request_def rman_reserve_resource_bound_def Let_def)
  next
    case (Some p)
    have "grants st1 p \<noteq> None" using o Some by (auto simp: reserved_def)
    then obtain r where r: "rm_res st1 p = Some r" by (auto simp: grants_def held_def views_def split: option.splits)
    obtain e w st2 where act: "int_rman_activate_resource p st1 = ((e, w), st2)" by (metis surj_pair)
    have a: "rman_inv lo hi st2" "rm_res st2 p \<noteq> None" using activate_outcome [OF i1 r] act by auto
    have m2: "rman_merged st2" using activate_merged [OF r m1] act by simp
    obtain r2 where r2: "rm_res st2 p = Some r2" using a(2) by blast
    show ?thesis
      using run g act Some m1 m2 release_merged [OF a(1) r2 m2]
      by (auto simp: rman_request_def rman_reserve_resource_bound_def Let_def split: if_splits option.splits)
  qed
qed

end
