(* ===== verification/Subr_Rman_Theorems.thy ===== *)
theory Subr_Rman_Theorems
  imports Subr_Rman_Merge
begin

text \<open>
  The contract of an allocator of ranges as a locale, the resource manager as an instance of it, and the
  properties of the resource manager.
\<close>

section \<open>The contract\<close>

datatype ('q, 'h) alloc_call = Reserve 'q | Release 'h

locale range_allocator =
  fixes inv :: "'s \<Rightarrow> bool" and holders :: "'s \<Rightarrow> 'h \<rightharpoonup> 'r" and fits :: "'q \<Rightarrow> 'r \<Rightarrow> bool" and valid :: "'q \<Rightarrow> bool"
    and reserve :: "'q \<Rightarrow> 's \<Rightarrow> 'h option \<times> 's" and release :: "'h \<Rightarrow> 's \<Rightarrow> 's"
  assumes reserve_inv: "inv s \<Longrightarrow> valid q \<Longrightarrow> inv (snd (reserve q s))"
    and reserve_some: "inv s \<Longrightarrow> valid q \<Longrightarrow> reserve q s = (Some h, s') \<Longrightarrow> holders s h = None \<and> (\<exists>r. fits q r \<and> holders s' = (holders s)(h \<mapsto> r))"
    and reserve_none: "inv s \<Longrightarrow> valid q \<Longrightarrow> reserve q s = (None, s') \<Longrightarrow> holders s' = holders s"
    and release_inv: "inv s \<Longrightarrow> holders s h \<noteq> None \<Longrightarrow> inv (release h s)"
    and release_holders: "inv s \<Longrightarrow> holders s h \<noteq> None \<Longrightarrow> holders (release h s) = (holders s)(h := None)"
begin

text \<open>A client that releases only what it holds.\<close>

fun client :: "('q, 'h) alloc_call list \<Rightarrow> 's \<Rightarrow> 's" where
  "client [] s = s"
| "client (Reserve q # cs) s = client cs (snd (reserve q s))"
| "client (Release h # cs) s = client cs (if holders s h = None then s else release h s)"

lemma round_trip:
  assumes "inv s" and "valid q" and "reserve q s = (Some h, s')"
  shows "inv (release h s') \<and> holders (release h s') = holders s"
proof -
  obtain r where r: "holders s h = None" "holders s' = (holders s)(h \<mapsto> r)" using reserve_some [OF assms] by blast
  have i: "inv s'" using reserve_inv [OF assms(1,2)] assms(3) by simp
  show ?thesis using release_inv [OF i] release_holders [OF i] r by (simp add: fun_upd_idem)
qed

lemma client_inv: "inv s \<Longrightarrow> (\<And>q. Reserve q \<in> set cs \<Longrightarrow> valid q) \<Longrightarrow> inv (client cs s)"
proof (induction cs arbitrary: s)
  case (Cons c cs)
  then show ?case using reserve_inv release_inv by (cases c) auto
qed simp

lemma client_keeps:
  "inv s \<Longrightarrow> (\<And>q. Reserve q \<in> set cs \<Longrightarrow> valid q) \<Longrightarrow> Release h \<notin> set cs \<Longrightarrow> holders s h = Some r \<Longrightarrow>
   inv (client cs s) \<and> holders (client cs s) h = Some r"
proof (induction cs arbitrary: s)
  case (Cons c cs)
  have ok: "\<And>q. Reserve q \<in> set cs \<Longrightarrow> valid q" "Release h \<notin> set cs" using Cons.prems(2,3) by auto
  show ?case
  proof (cases c)
    case (Reserve q)
    then have v: "valid q" using Cons.prems(2) by simp
    obtain h' s' where r: "reserve q s = (h', s')" by fastforce
    have i: "inv s'" using reserve_inv [OF Cons.prems(1) v] r by simp
    have "holders s' h = Some r"
      using reserve_some [OF Cons.prems(1) v, of _ s'] reserve_none [OF Cons.prems(1) v, of s'] r Cons.prems(4)
      by (cases h') auto
    from Cons.IH [OF i ok this] show ?thesis using Reserve r by simp
  next
    case (Release g)
    then have ne: "g \<noteq> h" using Cons.prems(3) by auto
    let ?s = "if holders s g = None then s else release g s"
    have "inv ?s" "holders ?s h = Some r"
      using Cons.prems(1,4) release_inv [of s g] release_holders [of s g] ne by auto
    from Cons.IH [OF this(1) ok this(2)] show ?thesis using Release by simp
  qed
qed simp

end

section \<open>The resource manager keeps the contract\<close>

definition rman_reserve :: "request \<times> ptr \<Rightarrow> rman \<Rightarrow> ptr option \<times> rman" where
  "rman_reserve q st = the (rman_request (fst q) (snd q) st)"

definition rman_release :: "ptr \<Rightarrow> rman \<Rightarrow> rman" where
  "rman_release p st = the (int_rman_release_resource p st)"

lemma granted_live: "grants st p \<noteq> None \<Longrightarrow> \<exists>r. rm_res st p = Some r"
  by (auto simp: grants_def held_def views_def split: option.splits)

interpretation rm: range_allocator "rman_inv lo hi" grants "\<lambda>q. serves lo hi (fst q)" "\<lambda>q :: request \<times> ptr. valid_request hi (fst q)"
  rman_reserve rman_release for lo hi :: nat
proof unfold_locales
  fix s and q :: "request \<times> ptr" assume a: "rman_inv lo hi s" "valid_request hi (fst q)"
  obtain r where r: "rman_request (fst q) (snd q) s = Some r" "reserved lo hi (fst q) s r" using request_outcome [OF a] by blast
  show "rman_inv lo hi (snd (rman_reserve q s))" using r by (simp add: rman_reserve_def reserved_def)
  show "grants s h = None \<and> (\<exists>r. serves lo hi (fst q) r \<and> grants s' = (grants s)(h \<mapsto> r))"
    if "rman_reserve q s = (Some h, s')" for h s'
    using r that by (auto simp: rman_reserve_def reserved_def)
  show "grants s' = grants s" if "rman_reserve q s = (None, s')" for s'
    using r that by (auto simp: rman_reserve_def reserved_def)
next
  fix s h assume a: "rman_inv lo hi s" "grants s h \<noteq> None"
  obtain r where "rm_res s h = Some r" using granted_live [OF a(2)] by blast
  from release_outcome [OF a(1) this]
  show "rman_inv lo hi (rman_release h s)" "grants (rman_release h s) = (grants s)(h := None)" by (auto simp: rman_release_def)
qed

text \<open>Two holders of a well-formed manager overlap only when they share.\<close>

lemma holders_apart:
  assumes "rman_inv lo hi st" and "grants st p = Some (a, b)" and "grants st q = Some (c, d)" and "p \<noteq> q"
    and "a \<le> x" and "x \<le> b" and "c \<le> x" and "x \<le> d"
  shows "(a, b) = (c, d) \<and> (\<exists>h l. rm_share st h = Some l \<and> {p, q} \<subseteq> set l)"
proof -
  obtain v where v: "views st p = Some v" "v_start v = a" "v_end v = b"
    using assms(2) by (auto simp: grants_def held_def split: option.splits if_splits)
  obtain w where w: "views st q = Some w" "v_start w = c" "v_end w = d"
    using assms(3) by (auto simp: grants_def held_def split: option.splits if_splits)
  note i = rman_invD(1) [OF assms(1)]
  obtain h where h: "v_share v = Some h" "v_share w = Some h" "seg (views st) p = seg (views st) q"
    using rinv_disjoint [OF i v(1) w(1) assms(4)] v w assms(5-8) by blast
  then have "(a, b) = (c, d)" using v w by (simp add: seg_def)
  moreover have "\<exists>l. rm_share st h = Some l \<and> p \<in> set l \<and> q \<in> set l"
    using rinvD(3) [OF i v(1)] rinvD(3) [OF i w(1)] h by (auto simp: owned_def)
  ultimately show ?thesis by auto
qed

section \<open>A manager to start with\<close>

definition empty_rman :: rman where
  "empty_rman = \<lparr>rm_list = [], rm_type = RMAN_ARRAY, rm_res = Map.empty, rm_share = Map.empty, rm_brk = 0, rm_ok = (\<lambda>_. True), rm_wakeups = []\<rparr>"

lemma manage_first:
  assumes "rm_list s = []" and "rm_res s = Map.empty" and "rm_share s = Map.empty" and "rm_ok s (rm_brk s)" and "a \<le> b"
  shows "rman_inv (unat a) (unat b + 1) (snd (rman_manage_region a b s))"
proof -
  have res: "rm_res (snd (rman_manage_region a b s)) = [rm_brk s \<mapsto> zero_resource\<lparr>r_start := a, r_end := b\<rparr>]"
    and oth: "rm_list (snd (rman_manage_region a b s)) = [rm_brk s]" "rm_share (snd (rman_manage_region a b s)) = Map.empty"
      "rm_brk (snd (rman_manage_region a b s)) = rm_brk s + 1"
    using assms by (simp_all add: rman_manage_region_def rm_malloc_def Let_def)
  show ?thesis unfolding rman_inv_def res oth views_def
    using assms(5) by (auto simp: rinv_def listed_def owned_def seg_def view_def zero_resource_def)
qed

section \<open>The properties\<close>

text \<open>C9: rman_reserve_resource_bound, for a request of at least one unit whose boundary is absent or a power of
  two that is a multiple of the alignment and not below the size, and a space that ends before the adjustment can
  wrap around: the search for the start ends, and the call either changes no holder or adds exactly one, with a range inside the managed
  space of just the size asked for, not below the start asked for, aligned, and inside one boundary window.
  The end asked for binds less: without alignment and boundary the range begins at or before it, but it may end
  beyond it (reserve_beyond_end below), for the code never checks. The tiling of the space and the sharing lists stay well formed,
  and the free space merged, also when malloc fails or the activation asked for is refused.\<close>

theorem rman_reserve_refines:
  assumes "rman_inv lo hi st" and "valid_request hi q"
  shows "\<exists>rv st'. rman_request q dev st = Some (rv, st') \<and> rman_inv lo hi st' \<and> (rman_merged st \<longrightarrow> rman_merged st') \<and>
    (case rv of
       None \<Rightarrow> grants st' = grants st
     | Some p \<Rightarrow> \<exists>a b. grants st p = None \<and> grants st' = (grants st)(p \<mapsto> (a, b)) \<and>
         q_start q \<le> a \<and> lo \<le> unat a \<and> unat b = unat a + unat (q_count q) - 1 \<and> unat b < hi \<and>
         a AND mask (RF_ALIGNMENT (q_flags q)) = 0 \<and> (a XOR b) AND NOT (q_bound q - 1) = 0 \<and>
         (RF_ALIGNMENT (q_flags q) = 0 \<and> q_bound q = 0 \<and> q_start q \<le> q_end q \<longrightarrow> a \<le> q_end q))"
proof -
  obtain rv st' where r: "rman_request q dev st = Some (rv, st')" "reserved lo hi q st (rv, st')"
    using request_outcome [OF assms, of dev] by auto
  have "rman_merged st \<longrightarrow> rman_merged st'" using request_merged [OF assms _ r(1)] by blast
  then show ?thesis using r by (cases rv) (auto simp: reserved_def serves_def)
qed

definition demo_request :: request where
  "demo_request = \<lparr>q_start = 1, q_end = 99, q_count = 6, q_bound = 8, q_flags = RF_ALIGNMENT_LOG2 2 OR RF_ACTIVE\<rparr>"

definition demo_rman :: rman where "demo_rman = snd (rman_manage_region 0 99 empty_rman)"

lemma demo_inv: "rman_inv 0 100 demo_rman"
  using manage_first [of empty_rman 0 99] by (simp add: demo_rman_def empty_rman_def)

lemma demo_valid: "valid_request 100 demo_request"
proof -
  have al: "RF_ALIGNMENT (q_flags demo_request) = 2" by code_simp
  have "good_bound 2 8 6" unfolding good_bound_def by (auto simp: push_bit_eq_mult intro!: exI [of _ 3])
  moreover have "\<not> bit (q_flags demo_request) 5" by code_simp
  ultimately show ?thesis unfolding valid_request_def al by (simp add: demo_request_def)
qed

theorem rman_reserve_refines_witness:
  "\<exists>rv st'. rman_request demo_request 7 demo_rman = Some (rv, st') \<and> rman_inv 0 100 st'"
  using rman_reserve_refines [OF demo_inv demo_valid, of 7] by blast

text \<open>Two sharers of the units 0 to 9.\<close>

definition share_request :: request where
  "share_request = \<lparr>q_start = 0, q_end = 99, q_count = 10, q_bound = 0, q_flags = RF_SHAREABLE\<rparr>"

definition share_rman :: rman where
  "share_rman = snd (rman_reserve (share_request, 8) (snd (rman_reserve (share_request, 7)
     (snd (rman_reserve (share_request\<lparr>q_start := 10, q_count := 90\<rparr>, 7) demo_rman)))))"

lemma share_valid: "valid_request 100 share_request" "valid_request 100 (share_request\<lparr>q_start := 10, q_count := 90\<rparr>)"
proof -
  have al: "RF_ALIGNMENT (q_flags share_request) = 0" by code_simp
  have "\<not> bit RF_SHAREABLE 5" by (simp add: flag_simps)
  then show "valid_request 100 share_request" "valid_request 100 (share_request\<lparr>q_start := 10, q_count := 90\<rparr>)"
    unfolding valid_request_def using al by (simp_all add: share_request_def good_bound_def)
qed

lemma share_inv: "rman_inv 0 100 share_rman"
  unfolding share_rman_def using share_valid
  by (intro rm.reserve_inv demo_inv) simp_all

lemma share_rman_holder: "grants share_rman 0 = Some (0, 9)" "grants share_rman 2 = Some (0, 9)"
  by code_simp+

text \<open>C21: rman_release_resource always succeeds: it takes away what the resource held and nothing else, the
  segments and the sharing lists stay well formed, and the space given back joins its free neighbours: if no two
  neighbours on the list of segments were free, no two are.\<close>

theorem rman_release_refines:
  assumes "rman_inv lo hi st" and "rm_res st p \<noteq> None"
  shows "\<exists>st'. rman_release_resource p st = Some (None, st') \<and> rman_inv lo hi st' \<and> grants st' = (grants st)(p := None) \<and>
    (rman_merged st \<longrightarrow> rman_merged st')"
proof -
  obtain r where r: "rm_res st p = Some r" using assms(2) by blast
  from release_outcome [OF assms(1) r] obtain st' where
    st': "int_rman_release_resource p st = Some st'" "rman_inv lo hi st'" "grants st' = (grants st)(p := None)" by blast
  then show ?thesis using release_merged [OF assms(1) r _ st'(1)] by (auto simp: rman_release_resource_def)
qed

lemma share_rman_merged: "rman_merged share_rman" "grants share_rman 1 = Some (10, 99)" "rm_res share_rman 1 \<noteq> None"
  by code_simp+

theorem rman_release_refines_witness:
  "grants share_rman 1 = Some (10, 99) \<and>
   (\<exists>st'. rman_release_resource 1 share_rman = Some (None, st') \<and> rman_inv 0 100 st' \<and>
      grants st' = (grants share_rman)(1 := None) \<and> rman_merged st')"
  using rman_release_refines [OF share_inv share_rman_merged(3)] share_rman_merged(1,2) by blast

text \<open>A sequence of calls of clients that release only what they hold.\<close>

primrec rman_calls :: "(request \<times> ptr, ptr) alloc_call list \<Rightarrow> rman \<Rightarrow> rman" where
  "rman_calls [] st = st"
| "rman_calls (c # cs) st = rman_calls cs
     (case c of Reserve q \<Rightarrow> snd (the (rman_request (fst q) (snd q) st))
      | Release h \<Rightarrow> if grants st h = None then st else the (int_rman_release_resource h st))"

lemma rman_calls_client: "rman_calls cs st = rm.client cs st"
  by (induction cs arbitrary: st) (auto simp: rman_reserve_def rman_release_def split: alloc_call.split)

text \<open>C22: After any sequence of valid requests and of releases, from a well-formed manager, two holders never overlap, except that
  sharers of one segment hold the same range and stand on one sharing list.\<close>

theorem rman_holders_disjoint:
  assumes "rman_inv lo hi st" and "\<And>q. Reserve q \<in> set cs \<Longrightarrow> valid_request hi (fst q)"
    and "grants (rman_calls cs st) p = Some (a, b)" and "grants (rman_calls cs st) q = Some (c, d)" and "p \<noteq> q"
    and "a \<le> x" and "x \<le> b" and "c \<le> x" and "x \<le> d"
  shows "(a, b) = (c, d) \<and> (\<exists>h l. rm_share (rman_calls cs st) h = Some l \<and> {p, q} \<subseteq> set l)"
proof -
  have "rman_inv lo hi (rman_calls cs st)" unfolding rman_calls_client using assms(1,2) by (rule rm.client_inv)
  from holders_apart [OF this assms(3-9)] show ?thesis .
qed

theorem rman_holders_disjoint_witness:
  "\<exists>h l. rm_share (rman_calls [Release 1, Reserve (demo_request, 9)] share_rman) h = Some l \<and> {0, 2} \<subseteq> set l"
proof -
  have "grants (rman_calls [Release 1, Reserve (demo_request, 9)] share_rman) 0 = Some (0, 9)"
    "grants (rman_calls [Release 1, Reserve (demo_request, 9)] share_rman) 2 = Some (0, 9)" by code_simp+
  from rman_holders_disjoint [OF share_inv _ this, of 0] show ?thesis using demo_valid by auto
qed

text \<open>C23: What is reserved and then released leaves every other holder as it was.\<close>

theorem rman_round_trip:
  assumes "rman_inv lo hi st" and "valid_request hi q" and "rman_request q dev st = Some (Some p, st')"
  shows "\<exists>st''. rman_release_resource p st' = Some (None, st'') \<and> rman_inv lo hi st'' \<and> grants st'' = grants st"
proof -
  have r: "rman_reserve (q, dev) st = (Some p, st')" using assms(3) by (simp add: rman_reserve_def)
  have i: "rman_inv lo hi st'" using rm.reserve_inv [OF assms(1), of "(q, dev)"] assms(2) r by simp
  have "grants st' p \<noteq> None" using rm.reserve_some [OF assms(1) _ r] assms(2) by auto
  then obtain x where "rm_res st' p = Some x" using granted_live by blast
  from release_outcome [OF i this] obtain st'' where "int_rman_release_resource p st' = Some st''" by blast
  then show ?thesis
    using rm.round_trip [OF assms(1) _ r] assms(2) by (simp add: rman_release_resource_def rman_release_def)
qed

theorem rman_round_trip_witness:
  "\<exists>p st' st''. rman_request share_request 7 demo_rman = Some (Some p, st') \<and> rman_release_resource p st' = Some (None, st'') \<and>
     grants st'' = grants demo_rman"
proof -
  have s: "map_option fst (rman_request share_request 7 demo_rman) = Some (Some 1)" by code_simp
  then obtain st' where r: "rman_request share_request 7 demo_rman = Some (Some 1, st')" by auto
  show ?thesis using rman_round_trip [OF demo_inv share_valid(1) r] r by blast
qed

text \<open>A holder keeps its range, whatever valid requests and releases of other resources follow, in any order.\<close>

theorem rman_holder_kept:
  assumes "rman_inv lo hi st" and "\<And>q. Reserve q \<in> set cs \<Longrightarrow> valid_request hi (fst q)" and "Release p \<notin> set cs" and "grants st p = Some ab"
  shows "rman_inv lo hi (rman_calls cs st) \<and> grants (rman_calls cs st) p = Some ab"
  unfolding rman_calls_client by (rule rm.client_keeps) (use assms in auto)

theorem rman_holder_kept_witness:
  "grants (rman_calls [Release 2, Reserve (demo_request, 9), Release 5] share_rman) 0 = Some (0, 9)"
  using rman_holder_kept [OF share_inv, of "[Release 2, Reserve (demo_request, 9), Release 5]" 0 "(0, 9)"] demo_valid
  by (auto simp: share_rman_holder)

section \<open>Alignment flags\<close>

lemma top_bit_spec:
  assumes "sz \<noteq> 0" and "\<And>j. n < j \<Longrightarrow> \<not> bit sz j"
  shows "bit sz (top_bit sz n) \<and> (\<forall>j > top_bit sz n. \<not> bit sz j)"
  using assms(2)
proof (induction n)
  case 0
  have "bit sz 0"
  proof (rule ccontr)
    assume "\<not> bit sz 0"
    then have "\<not> bit sz j" for j using 0 [of j] by (cases j) auto
    then show False using assms(1) by (simp add: bit_eq_iff)
  qed
  then show ?case using 0 by simp
next
  case (Suc n)
  have t: "push_bit (Suc n) 1 AND sz \<noteq> 0 \<longleftrightarrow> bit sz (Suc n)" using and_mask1 [of sz "Suc n"] by (simp only: and.commute)
  show ?case
  proof (cases "bit sz (Suc n)")
    case True
    then show ?thesis using Suc.prems t by simp
  next
    case False
    then have "\<not> bit sz j" if "n < j" for j using Suc.prems [of j] that by (cases "j = Suc n") auto
    from Suc.IH [OF this] show ?thesis using False t by simp
  qed
qed

lemma size_bounds:
  fixes sz :: u32
  assumes "bit sz i" and "\<forall>j > i. \<not> bit sz j"
  shows "2 ^ i \<le> unat sz" and "unat sz < 2 ^ Suc i" and "i < 32" and "NOT (push_bit i 1) AND sz = 0 \<longleftrightarrow> unat sz = 2 ^ i"
proof -
  show i: "i < 32" using assms(1) bit_imp_le_length by force
  have b: "bit (unat sz) j = bit sz j" for j by (auto simp: bit_unsigned_iff dest: bit_imp_le_length)
  have "take_bit (Suc i) (unat sz) = unat sz" by (rule bit_eqI) (use assms(2) in \<open>auto simp: bit_take_bit_iff b not_less_eq\<close>)
  then show "unat sz < 2 ^ Suc i" by (metis take_bit_nat_eq_self_iff)
  have "odd (unat sz div 2 ^ i)" using assms(1) b [of i] by (simp add: bit_iff_odd)
  then have "0 < unat sz div 2 ^ i" by (auto intro: Nat.gr0I)
  then show "2 ^ i \<le> unat sz" by (simp add: div_greater_zero_iff)
  have u: "unat (push_bit i 1 :: u32) = 2 ^ i"
  proof -
    have "unat (of_nat (2 ^ i) :: u32) = 2 ^ i mod 2 ^ LENGTH(32)" by (rule unat_of_nat)
    moreover have "(2::nat) ^ i < 2 ^ LENGTH(32)" using i by (intro power_strict_increasing) simp_all
    ultimately show ?thesis by (simp add: push_bit_eq_mult)
  qed
  have "NOT (push_bit i 1) AND sz = 0 \<longleftrightarrow> sz = push_bit i 1"
  proof
    assume z: "NOT (push_bit i 1) AND sz = 0"
    show "sz = push_bit i 1"
    proof (rule bit_word_eqI)
      fix n assume n: "n < LENGTH(32)"
      show "bit sz n = bit (push_bit i 1 :: u32) n"
        unfolding bit_push_bit_iff bit_1_iff
        using arg_cong [OF z, of "\<lambda>y. bit y n", unfolded bit_and_iff bit_not_iff bit_push_bit_iff bit_1_iff] assms(1) n by auto
    qed
  qed simp
  also have "\<dots> \<longleftrightarrow> unat sz = 2 ^ i" unfolding u [symmetric] by (simp add: word_unat_eq_iff)
  finally show "NOT (push_bit i 1) AND sz = 0 \<longleftrightarrow> unat sz = 2 ^ i" .
qed

lemma alignment_log2: "k \<le> 32 \<Longrightarrow> RF_ALIGNMENT (RF_ALIGNMENT_LOG2 (of_nat k)) = k"
proof -
  have "list_all (\<lambda>k. RF_ALIGNMENT (RF_ALIGNMENT_LOG2 (of_nat k)) = k) [0..<33]" by code_simp
  then show "k \<le> 32 \<Longrightarrow> ?thesis" by (simp add: list_all_iff)
qed

text \<open>The alignment encoded by rman_make_alignment_flags for a size is the logarithm of the smallest power of
  two that is not below the size.\<close>

theorem rman_alignment_least:
  assumes "0 < sz"
  shows "unat sz \<le> 2 ^ RF_ALIGNMENT (rman_make_alignment_flags sz) \<and>
    (\<forall>j. unat sz \<le> 2 ^ j \<longrightarrow> RF_ALIGNMENT (rman_make_alignment_flags sz) \<le> j)"
proof -
  define i where "i = top_bit sz 31"
  have "sz \<noteq> 0" using assms by auto
  moreover have "\<not> bit sz j" if "31 < j" for j using that bit_imp_le_length [of sz j] by auto
  ultimately have i: "bit sz i" "\<forall>j > i. \<not> bit sz j" using top_bit_spec [of sz 31] by (auto simp: i_def)
  note b = size_bounds [OF i]
  have f: "rman_make_alignment_flags sz = RF_ALIGNMENT_LOG2 (of_nat (if unat sz = 2 ^ i then i else i + 1))"
    using b(4) by (simp add: rman_make_alignment_flags_def Let_def i_def [symmetric])
  define k where "k = (if unat sz = 2 ^ i then i else i + 1)"
  have k: "RF_ALIGNMENT (rman_make_alignment_flags sz) = k"
    unfolding f k_def [symmetric] by (rule alignment_log2) (use b(3) in \<open>simp add: k_def\<close>)
  have "k \<le> j" if j: "unat sz \<le> 2 ^ j" for j
  proof (rule ccontr)
    assume "\<not> k \<le> j"
    then have "j < i \<or> j = i \<and> unat sz \<noteq> 2 ^ i" by (auto simp: k_def split: if_splits)
    then show False
    proof
      assume "j < i"
      then have "(2::nat) ^ j < 2 ^ i" by (rule power_strict_increasing) simp
      then show False using j b(1) by linarith
    qed (use j b(1) in auto)
  qed
  then show ?thesis unfolding k using b(2) by (auto simp: k_def)
qed

theorem rman_alignment_least_witness: "RF_ALIGNMENT (rman_make_alignment_flags 5) \<le> 3"
  using rman_alignment_least [of 5] by (simp add: spec [of _ 3])

section \<open>What the code does beyond the contract\<close>

text \<open>A segment that was shareable keeps the flag when it is released, and hands it to an exclusive holder, with
  whom the next client then shares.\<close>

definition stale_rman :: rman where
  "stale_rman = the (int_rman_release_resource 0 (snd (the (rman_reserve_resource 0 99 100 RF_SHAREABLE 7 demo_rman))))"

lemma stale_share_flag:
  "map_option fst (rman_reserve_resource 0 99 100 RF_SHAREABLE 9 (snd (the (rman_reserve_resource 0 99 100 0 8 stale_rman)))) = Some (Some 1)"
  by code_simp

text \<open>With a request that is longer than its window the range goes beyond the end asked for.\<close>

lemma reserve_beyond_end:
  "map_option (\<lambda>(p, s). grants s 1) (rman_reserve_resource 0 5 7 0 8 demo_rman) = Some (Some (0, 6))"
  by code_simp

text \<open>Releasing merges over the gap between two managed regions: the units 100 to 199 were never managed.\<close>

lemma release_over_gap:
  "map (\<lambda>q. (r_start q, r_end q)) (let s = the (int_rman_release_resource 1 (snd (the (rman_reserve_resource 200 299 100 0 8
      (snd (rman_manage_region 200 299 demo_rman)))))) in map (the_res s) (rm_list s)) = [(0, 299)]"
  by code_simp

text \<open>An alignment that wraps around hands out units that are not managed.\<close>

lemma reserve_wraps:
  "map_option (\<lambda>(p, s). grants s 1) (rman_reserve_resource 0 (- 1) 4 (RF_ALIGNMENT_LOG2 6) 8
     (snd (rman_manage_region (- 16) (- 2) empty_rman))) = Some (Some (0, 3))"
  by code_simp

end
