(* ===== verification/Kern_Runq.thy ===== *)
theory Kern_Runq
  imports Kern_Prelude
begin

text \<open>
  The run queues of kern/kern_switch.c (sys/runq.h, i386/include/runq.h): 64 queues of KSEs, and a bit for each queue
  in two status words, set as long as the queue is not empty. The locale \<open>prio_queues\<close> is the contract
  the schedulers rely on: numbered first-in first-out queues, and a choice of the first of the lowest numbered
  one. Its client lemmas bound how long an entry waits; the run queue with its status bits is the interpretation.
\<close>

type_synonym keid = nat

section \<open>The contract: numbered queues\<close>

definition flat :: "(nat \<Rightarrow> 'k list) \<Rightarrow> nat \<Rightarrow> 'k list" where
  "flat r n = concat (map r [0..<n])"

lemma flat_Suc: "flat r (Suc n) = flat r n @ r n"
  by (simp add: flat_def)

lemma set_flat: "set (flat r n) = (\<Union>p<n. set (r p))"
  by (auto simp: flat_def)

lemma flat_cong: "(\<And>q. q < n \<Longrightarrow> r q = r' q) \<Longrightarrow> flat r n = flat r' n"
  by (auto simp: flat_def intro!: arg_cong [where f = concat])

lemma flat_upd_split:
  assumes "p < n"
  shows "\<exists>B. flat r n = flat r p @ r p @ B \<and> (\<forall>x. flat (r(p := x)) n = flat r p @ x @ B)"
  using assms
proof (induction n)
  case (Suc n)
  show ?case
  proof (cases "p = n")
    case True
    have "flat (r(n := x)) n = flat r n" for x by (rule flat_cong) simp
    then show ?thesis unfolding True flat_Suc fun_upd_same by (intro exI [of _ "[]"]) simp
  next
    case False
    then have "p < n" using Suc.prems by simp
    from Suc.IH [OF this] obtain B where "flat r n = flat r p @ r p @ B" "\<forall>x. flat (r(p := x)) n = flat r p @ x @ B"
      by blast
    then show ?thesis using False by (intro exI [of _ "B @ r n"]) (simp add: flat_Suc fun_upd_def)
  qed
qed simp

lemma flat_distinct_add:
  assumes "p < n" "distinct (flat r n)" "k \<notin> set (flat r n)"
  shows "distinct (flat (r(p := r p @ [k])) n)"
proof -
  obtain B where "flat r n = flat r p @ r p @ B" "\<forall>x. flat (r(p := x)) n = flat r p @ x @ B"
    using flat_upd_split [OF assms(1)] by blast
  then show ?thesis using assms by auto
qed

lemma flat_remove1:
  assumes "p < n" "k \<in> set (r p)" "distinct (flat r n)"
  shows "flat (r(p := remove1 k (r p))) n = remove1 k (flat r n)"
proof -
  obtain B where B: "flat r n = flat r p @ r p @ B" "\<forall>x. flat (r(p := x)) n = flat r p @ x @ B"
    using flat_upd_split [OF assms(1)] by blast
  have "k \<notin> set (flat r p)" using assms(2,3) unfolding B(1) by auto
  then show ?thesis using assms(2) B by (simp add: remove1_append)
qed

text \<open>The number of entries that are chosen before \<open>k\<close> if none is added.\<close>

definition ahead :: "(nat \<Rightarrow> 'k list) \<Rightarrow> nat \<Rightarrow> 'k \<Rightarrow> nat" where
  "ahead r n k = length (takeWhile (\<lambda>x. x \<noteq> k) (flat r n))"

text \<open>Taking the first entry brings every other one place closer; an entry added to the same or a later queue pushes nobody back.\<close>

lemma ahead_taken:
  assumes "flat r n = k # zs" "p < n" "k \<in> set (r p)" "distinct (flat r n)" "k' \<noteq> k"
  shows "ahead (r(p := remove1 k (r p))) n k' = ahead r n k' - 1 \<and> 0 < ahead r n k'"
  using assms(1,5) by (simp add: ahead_def flat_remove1 [OF assms(2-4)])

lemma ahead_add:
  assumes "p < n" "k' \<in> set (r p')" "p' \<le> p"
  shows "ahead (r(p := r p @ [k])) n k' = ahead r n k'"
proof -
  obtain B where B: "flat r n = flat r p @ r p @ B" "\<forall>x. flat (r(p := x)) n = flat r p @ x @ B"
    using flat_upd_split [OF assms(1)] by blast
  have "k' \<in> set (flat r p @ r p)"
    using assms(2,3) by (cases "p' = p") (auto simp: set_flat)
  then show ?thesis
    using B takeWhile_append1 [of k' "flat r p @ r p" "\<lambda>x. x \<noteq> k'"] by (simp add: ahead_def)
qed

locale prio_queues =
  fixes n :: nat and ok :: "'q \<Rightarrow> bool" and queue :: "'q \<Rightarrow> nat \<Rightarrow> 'k list"
    and fresh :: "'q" and add :: "'q \<Rightarrow> nat \<Rightarrow> 'k \<Rightarrow> 'q" and remove :: "'q \<Rightarrow> nat \<Rightarrow> 'k \<Rightarrow> 'q option"
    and pick :: "'q \<Rightarrow> 'k option option" and check :: "'q \<Rightarrow> bool"
  assumes fresh_ok: "ok fresh" and fresh_queue: "queue fresh p = []"
    and add_ok: "ok q \<Longrightarrow> p < n \<Longrightarrow> ok (add q p k)"
    and add_queue: "ok q \<Longrightarrow> p < n \<Longrightarrow> queue (add q p k) = (queue q)(p := queue q p @ [k])"
    and remove_ok: "ok q \<Longrightarrow> p < n \<Longrightarrow> remove q p k = Some q' \<Longrightarrow> ok q'"
    and remove_queue: "ok q \<Longrightarrow> p < n \<Longrightarrow> remove q p k = Some q' \<Longrightarrow> queue q' = (queue q)(p := remove1 k (queue q p))"
    and remove_some: "ok q \<Longrightarrow> p < n \<Longrightarrow> k \<in> set (queue q p) \<Longrightarrow> remove q p k \<noteq> None"
    and pick_first: "ok q \<Longrightarrow> pick q = Some (case flat (queue q) n of [] \<Rightarrow> None | k # ks \<Rightarrow> Some k)"
    and check_any: "ok q \<Longrightarrow> check q \<longleftrightarrow> flat (queue q) n \<noteq> []"
begin

lemma add_members: "ok q \<Longrightarrow> p < n \<Longrightarrow> set (flat (queue (add q p k)) n) = insert k (set (flat (queue q) n))"
  by (auto simp: set_flat add_queue split: if_splits)

lemma add_distinct:
  "ok q \<Longrightarrow> p < n \<Longrightarrow> distinct (flat (queue q) n) \<Longrightarrow> k \<notin> set (flat (queue q) n) \<Longrightarrow> distinct (flat (queue (add q p k)) n)"
  by (simp add: add_queue flat_distinct_add)

lemma remove_split:
  "ok q \<Longrightarrow> p < n \<Longrightarrow> k \<in> set (queue q p) \<Longrightarrow> remove q p k = Some q' \<Longrightarrow> distinct (flat (queue q) n) \<Longrightarrow>
   flat (queue q') n = remove1 k (flat (queue q) n)"
  by (simp add: remove_queue flat_remove1)

text \<open>Who is chosen, is ahead of everybody.\<close>

lemma pick_head: "ok q \<Longrightarrow> pick q = Some (Some k) \<Longrightarrow> flat (queue q) n \<noteq> [] \<and> hd (flat (queue q) n) = k"
  by (simp add: pick_first split: list.splits)

lemma taken_ahead:
  assumes "ok q" "pick q = Some (Some k)" "p < n" "k \<in> set (queue q p)" "remove q p k = Some q'"
    "distinct (flat (queue q) n)" "k' \<noteq> k"
  shows "ahead (queue q') n k' = ahead (queue q) n k' - 1 \<and> 0 < ahead (queue q) n k'"
proof -
  obtain zs where "flat (queue q) n = k # zs"
    using pick_head [OF assms(1,2)] by (cases "flat (queue q) n") auto
  then show ?thesis using ahead_taken [of "queue q" n k zs p k'] assms by (simp add: remove_queue [OF assms(1,3,5)])
qed

lemma add_ahead:
  "ok q \<Longrightarrow> p < n \<Longrightarrow> k' \<in> set (queue q p') \<Longrightarrow> p' \<le> p \<Longrightarrow> ahead (queue (add q p k)) n k' = ahead (queue q) n k'"
  by (simp add: add_queue ahead_add)

text \<open>Removing any other entry does not push an entry back either.\<close>

lemma remove_ahead:
  assumes "ok q" "p < n" "k \<in> set (queue q p)" "remove q p k = Some q'" "distinct (flat (queue q) n)" "k' \<noteq> k"
  shows "ahead (queue q') n k' \<le> ahead (queue q) n k'"
proof -
  have "length (takeWhile (\<lambda>x. x \<noteq> k') (remove1 k xs)) \<le> length (takeWhile (\<lambda>x. x \<noteq> k') xs)" for xs :: "'k list"
    using assms(6) by (induction xs) auto
  then show ?thesis unfolding ahead_def remove_split [OF assms(1-5)] .
qed

end

section \<open>Queues with status bits\<close>

definition RQ_NQS :: nat where "RQ_NQS = 64"
definition RQ_PPQ :: nat where "RQ_PPQ = 4"
definition RQB_LEN :: nat where "RQB_LEN = 2"
definition RQB_L2BPW :: nat where "RQB_L2BPW = 5"
definition RQB_BPW :: nat where "RQB_BPW = push_bit RQB_L2BPW 1"

record runq =
  rqb_bits :: "u32 list"
  rq_queues :: "keid list list"

definition RQB_BIT :: "nat \<Rightarrow> u32" where "RQB_BIT pri = push_bit (pri AND (RQB_BPW - 1)) 1"
definition RQB_WORD :: "nat \<Rightarrow> nat" where "RQB_WORD pri = drop_bit RQB_L2BPW pri"

text \<open>\<open>ffs\<close> of the C library: one more than the index of the lowest bit set, 0 when there is none.\<close>

definition ffs :: "u32 \<Rightarrow> nat" where
  "ffs w = (case find (bit w) [0..<32] of None \<Rightarrow> 0 | Some i \<Rightarrow> Suc i)"

definition RQB_FFS :: "u32 \<Rightarrow> nat" where "RQB_FFS w = ffs w - 1"

definition runq_init :: runq where
  "runq_init = \<lparr>rqb_bits = replicate RQB_LEN 0, rq_queues = replicate RQ_NQS []\<rparr>"

definition runq_clrbit :: "nat \<Rightarrow> runq \<Rightarrow> runq" where
  "runq_clrbit pri rq = rq\<lparr>rqb_bits := (rqb_bits rq)[RQB_WORD pri := rqb_bits rq ! RQB_WORD pri AND NOT (RQB_BIT pri)]\<rparr>"

definition runq_setbit :: "nat \<Rightarrow> runq \<Rightarrow> runq" where
  "runq_setbit pri rq = rq\<lparr>rqb_bits := (rqb_bits rq)[RQB_WORD pri := rqb_bits rq ! RQB_WORD pri OR RQB_BIT pri]\<rparr>"

text \<open>The loop over the status words from word \<open>i\<close>; \<open>None\<close> is -1.\<close>

fun runq_findbit_from :: "nat \<Rightarrow> u32 list \<Rightarrow> nat option" where
  "runq_findbit_from i [] = None"
| "runq_findbit_from i (w # ws) = (if w \<noteq> 0 then Some (RQB_FFS w + push_bit RQB_L2BPW i) else runq_findbit_from (Suc i) ws)"

definition runq_findbit :: "runq \<Rightarrow> nat option" where
  "runq_findbit rq = runq_findbit_from 0 (rqb_bits rq)"

definition runq_check :: "runq \<Rightarrow> bool" where
  "runq_check rq = list_ex (\<lambda>w. w \<noteq> 0) (rqb_bits rq)"

text \<open>The first KSE of the first queue whose bit is set; the assertion that the queue is not empty fails with \<open>None\<close>.\<close>

definition runq_choose :: "runq \<Rightarrow> keid option option" where
  "runq_choose rq = (case runq_findbit rq of
     None \<Rightarrow> Some None
   | Some pri \<Rightarrow> (case rq_queues rq ! pri of [] \<Rightarrow> None | ke # _ \<Rightarrow> Some (Some ke)))"

text \<open>
  \<open>pri\<close> is the queue the KSE belongs to, which the C function computes from the priority of its
  thread and keeps in \<open>ke_rqindex\<close>; removing a KSE that is not on the queue is undefined.
\<close>

definition runq_add :: "runq \<Rightarrow> nat \<Rightarrow> keid \<Rightarrow> runq" where
  "runq_add rq pri ke = (let rq1 = runq_setbit pri rq in rq1\<lparr>rq_queues := (rq_queues rq1)[pri := rq_queues rq1 ! pri @ [ke]]\<rparr>)"

definition runq_remove :: "runq \<Rightarrow> nat \<Rightarrow> keid \<Rightarrow> runq option" where
  "runq_remove rq pri ke = (if ke \<notin> set (rq_queues rq ! pri) then None else
     (let rq1 = rq\<lparr>rq_queues := (rq_queues rq)[pri := remove1 ke (rq_queues rq ! pri)]\<rparr> in
      Some (if rq_queues rq1 ! pri = [] then runq_clrbit pri rq1 else rq1)))"

subsection \<open>The bits tell which queues are not empty\<close>

definition runq_ok :: "runq \<Rightarrow> bool" where
  "runq_ok rq \<longleftrightarrow> length (rqb_bits rq) = 2 \<and> length (rq_queues rq) = 64 \<and>
     (\<forall>p < 64. bit (rqb_bits rq ! (p div 32)) (p mod 32) \<longleftrightarrow> rq_queues rq ! p \<noteq> [])"

definition rq_queue :: "runq \<Rightarrow> nat \<Rightarrow> keid list" where
  "rq_queue rq p = (if p < RQ_NQS then rq_queues rq ! p else [])"

lemmas rq_consts = RQ_NQS_def RQ_PPQ_def RQB_LEN_def RQB_L2BPW_def RQB_BPW_def

lemma RQB_WORD_div: "RQB_WORD p = p div 32"
  by (simp add: RQB_WORD_def RQB_L2BPW_def drop_bit_eq_div)

lemma RQB_BIT_iff: "bit (RQB_BIT p) i \<longleftrightarrow> i = p mod 32"
proof -
  have "take_bit 5 p = p AND 31" by (simp add: take_bit_eq_mask mask_eq_exp_minus_1)
  then have "p AND 31 = p mod 32" by (simp add: take_bit_eq_mod)
  then show ?thesis by (auto simp: RQB_BIT_def rq_consts bit_exp_iff exp_eq_0_imp_not_bit push_bit_of_1)
qed

lemma find_word: "i < 2 \<Longrightarrow> length bs = 2 \<Longrightarrow> bit ((bs :: u32 list)[i := w] ! j) b = bit (if i = j then w else bs ! j) b"
  by (auto simp: nth_list_update)

lemma div_mod_32: "(p :: nat) div 32 = q div 32 \<and> p mod 32 = q mod 32 \<longleftrightarrow> p = q"
  by (metis div_mult_mod_eq)

lemma setbit_bit:
  assumes "length (rqb_bits rq) = 2" "p < 64" "q < 64"
  shows "bit (rqb_bits (runq_setbit p rq) ! (q div 32)) (q mod 32) \<longleftrightarrow> p = q \<or> bit (rqb_bits rq ! (q div 32)) (q mod 32)"
proof -
  have "p div 32 < 2" using assms(2) by simp
  then show ?thesis
    using assms(1) div_mod_32 [of p q]
    by (auto simp: runq_setbit_def RQB_WORD_div RQB_BIT_iff find_word bit_or_iff)
qed

lemma clrbit_bit:
  assumes "length (rqb_bits rq) = 2" "p < 64" "q < 64"
  shows "bit (rqb_bits (runq_clrbit p rq) ! (q div 32)) (q mod 32) \<longleftrightarrow> p \<noteq> q \<and> bit (rqb_bits rq ! (q div 32)) (q mod 32)"
proof -
  have "p div 32 < 2" using assms(2) by simp
  then show ?thesis
    using assms(1) div_mod_32 [of p q]
    by (auto simp: runq_clrbit_def RQB_WORD_div RQB_BIT_iff find_word bit_and_iff bit_not_iff)
qed

lemma ffs_lowest: "w \<noteq> 0 \<Longrightarrow> bit w (RQB_FFS w) \<and> RQB_FFS w < 32 \<and> (\<forall>i < RQB_FFS w. \<not> bit w i)"
proof -
  assume "w \<noteq> 0"
  then obtain i where i: "bit w i" by (auto simp: bit_eq_iff)
  then have "i < 32" using bit_imp_le_length [of w i] by simp
  then obtain j where j: "find (bit w) [0..<32] = Some j" using i by (cases "find (bit w) [0..<32]") (auto simp: find_None_iff)
  then have "RQB_FFS w = j" by (simp add: RQB_FFS_def ffs_def)
  then show ?thesis using j by (auto simp: find_Some_iff)
qed

lemma list2: "length xs = 2 \<Longrightarrow> xs = [xs ! 0, xs ! 1]"
  by (auto simp: length_Suc_conv numeral_2_eq_2)

lemma findbit_first:
  assumes "runq_ok rq"
  shows "case runq_findbit rq of
     None \<Rightarrow> \<forall>p < 64. rq_queues rq ! p = []
   | Some p \<Rightarrow> p < 64 \<and> rq_queues rq ! p \<noteq> [] \<and> (\<forall>q < p. rq_queues rq ! q = [])"
proof -
  let ?b = "rqb_bits rq"
  have len: "length ?b = 2" and bits: "\<And>p. p < 64 \<Longrightarrow> bit (?b ! (p div 32)) (p mod 32) \<longleftrightarrow> rq_queues rq ! p \<noteq> []"
    using assms by (auto simp: runq_ok_def)
  have low: "bit (?b ! 0) p \<longleftrightarrow> rq_queues rq ! p \<noteq> []" if "p < 32" for p
    using bits [of p] that by simp
  have high: "bit (?b ! 1) (p - 32) \<longleftrightarrow> rq_queues rq ! p \<noteq> []" if "32 \<le> p" "p < 64" for p
  proof -
    have "p div 32 = 1" "p mod 32 = p - 32" using that by (simp_all add: le_div_geq le_mod_geq)
    then show ?thesis using bits [OF that(2)] by simp
  qed
  have f: "runq_findbit rq = (if ?b ! 0 \<noteq> 0 then Some (RQB_FFS (?b ! 0)) else if ?b ! 1 \<noteq> 0 then Some (RQB_FFS (?b ! 1) + 32) else None)"
    unfolding runq_findbit_def by (subst list2 [OF len]) (simp add: rq_consts)
  consider "?b ! 0 \<noteq> 0" | "?b ! 0 = 0" "?b ! 1 \<noteq> 0" | "?b ! 0 = 0" "?b ! 1 = 0" by blast
  then show ?thesis
  proof cases
    case 1
    then show ?thesis using ffs_lowest [OF 1] low f by auto
  next
    case 2
    have "rq_queues rq ! q = []" if "q < RQB_FFS (?b ! 1) + 32" for q
      using that ffs_lowest [OF 2(2)] low [of q] high [of q] 2(1) by (cases "q < 32") auto
    then show ?thesis using ffs_lowest [OF 2(2)] high [of "RQB_FFS (?b ! 1) + 32"] 2 f by auto
  next
    case 3
    then show ?thesis using low high f by (auto simp: not_less) (metis bit_0_eq bot_apply not_less)
  qed
qed

subsection \<open>The run queue keeps the contract\<close>

lemma queue_flat: "flat (rq_queue rq) 64 = concat (map ((!) (rq_queues rq)) [0..<64])"
  unfolding flat_def by (rule arg_cong [where f = concat]) (simp add: rq_queue_def RQ_NQS_def)

lemma flat_first:
  assumes "p < n" "r p = k # ks" "\<forall>q < p. r q = []"
  shows "\<exists>xs. flat r n = k # xs"
proof -
  have "flat r p = []" using assms(3) by (simp add: flat_def)
  then show ?thesis using flat_upd_split [OF assms(1), of r] assms(2) by auto
qed

lemma runq_choose_first:
  assumes "runq_ok rq"
  shows "runq_choose rq = Some (case flat (rq_queue rq) RQ_NQS of [] \<Rightarrow> None | k # ks \<Rightarrow> Some k)"
proof (cases "runq_findbit rq")
  case None
  then have "flat (rq_queue rq) RQ_NQS = []" using findbit_first [OF assms] by (auto simp: flat_def rq_queue_def RQ_NQS_def)
  then show ?thesis using None by (simp add: runq_choose_def)
next
  case (Some p)
  then have p: "p < 64" "rq_queues rq ! p \<noteq> []" "\<forall>q < p. rq_queues rq ! q = []" using findbit_first [OF assms] by auto
  then obtain k ks where k: "rq_queues rq ! p = k # ks" by (cases "rq_queues rq ! p") auto
  have "\<exists>xs. flat (rq_queue rq) RQ_NQS = k # xs"
    by (rule flat_first [of p]) (use p k in \<open>auto simp: rq_queue_def RQ_NQS_def\<close>)
  then show ?thesis using Some k by (auto simp: runq_choose_def)
qed

lemma runq_check_any:
  assumes "runq_ok rq"
  shows "runq_check rq \<longleftrightarrow> flat (rq_queue rq) RQ_NQS \<noteq> []"
proof -
  have "list_ex (\<lambda>w. w \<noteq> 0) ws \<longleftrightarrow> runq_findbit_from i ws \<noteq> None" for i ws
    by (induction ws arbitrary: i) auto
  then have "runq_check rq \<longleftrightarrow> runq_findbit rq \<noteq> None" unfolding runq_check_def runq_findbit_def .
  then show ?thesis using runq_choose_first [OF assms]
    by (auto simp: runq_choose_def split: option.splits list.splits)
qed

lemma runq_add_queues [simp]: "rq_queues (runq_add rq p k) = (rq_queues rq)[p := rq_queues rq ! p @ [k]]"
  by (simp add: runq_add_def runq_setbit_def Let_def)

lemma runq_add_bits [simp]: "rqb_bits (runq_add rq p k) = rqb_bits (runq_setbit p rq)"
  by (simp add: runq_add_def Let_def)

lemma runq_remove_queues: "runq_remove rq p k = Some rq' \<Longrightarrow> rq_queues rq' = (rq_queues rq)[p := remove1 k (rq_queues rq ! p)]"
  by (auto simp: runq_remove_def runq_clrbit_def Let_def split: if_splits)

interpretation rq: prio_queues RQ_NQS runq_ok rq_queue runq_init runq_add runq_remove runq_choose runq_check
proof unfold_locales
  show "runq_ok runq_init" by (simp add: runq_ok_def runq_init_def rq_consts)
  show "rq_queue runq_init p = []" for p by (simp add: rq_queue_def runq_init_def)
  fix q p and k :: keid
  assume q: "runq_ok q" "p < RQ_NQS"
  then have p: "p < 64" "length (rqb_bits q) = 2" "length (rq_queues q) = 64" by (auto simp: runq_ok_def RQ_NQS_def)
  show "runq_ok (runq_add q p k)"
    using q p setbit_bit [of q p] by (auto simp: runq_ok_def nth_list_update runq_setbit_def)
  show "rq_queue (runq_add q p k) = (rq_queue q)(p := rq_queue q p @ [k])"
    using p by (auto simp: rq_queue_def RQ_NQS_def nth_list_update)
  show "k \<in> set (rq_queue q p) \<Longrightarrow> runq_remove q p k \<noteq> None"
    using q by (auto simp: runq_remove_def rq_queue_def Let_def)
  fix q' assume q': "runq_remove q p k = Some q'"
  show "rq_queue q' = (rq_queue q)(p := remove1 k (rq_queue q p))"
    using p by (auto simp: rq_queue_def RQ_NQS_def nth_list_update runq_remove_queues [OF q'])
  show "runq_ok q'"
    using q p q' clrbit_bit [of "q\<lparr>rq_queues := (rq_queues q)[p := remove1 k (rq_queues q ! p)]\<rparr>" p]
    by (auto simp: runq_ok_def runq_remove_def nth_list_update runq_clrbit_def Let_def split: if_splits)
qed (auto simp: runq_choose_first runq_check_any)

end
