(* ===== verification/Sched_4bsd.thy ===== *)
theory Sched_4bsd
  imports Kern_Runq "HOL-Library.Monad_Syntax"
begin

text \<open>
  The data the 4BSD scheduler works on (sys/proc.h) and the part of kern/sched_4bsd.c that needs nothing of
  kern/kern_switch.c but the run queue: putting a KSE on the queue, taking it off, choosing the next one, and the
  estimate of recent cpu use with the user priority that follows from it. The objects are found by
  number in the tables of the state; a pointer that may be NULL is an option. A KASSERT that fails and a
  dereference of NULL are the result \<open>None\<close>.
\<close>

type_synonym tid = nat
type_synonym kgid = nat
type_synonym pno = nat

datatype td_states = TDS_INACTIVE | TDS_INHIBITED | TDS_CAN_RUN | TDS_RUNQ | TDS_RUNNING
datatype ke_states = KES_UNUSED | KES_IDLE | KES_ONRUNQ | KES_UNQUEUED | KES_THREAD
datatype p_states = PRS_NEW | PRS_NORMAL | PRS_ZOMBIE

record sched_thread =
  td_proc :: pno
  td_ksegrp :: kgid
  td_flags :: u32
  td_inhibitors :: u32
  td_last_kse :: "keid option"
  td_kse :: "keid option"
  td_lastcpu :: u8
  td_oncpu :: u8
  td_priority :: u8
  td_state :: td_states

record kse =
  ke_proc :: pno
  ke_ksegrp :: kgid
  ke_flags :: u32
  ke_thread :: "tid option"
  ke_pctcpu :: u32
  ke_rqindex :: nat
  ke_state :: ke_states
  ske_cpticks :: u32

record ksegrp =
  kg_proc :: pno
  kg_kseq :: "keid list"
  kg_iq :: "keid list"
  kg_threads :: "tid list"
  kg_runq :: "tid list"
  kg_estcpu :: u32
  kg_slptime :: u32
  kg_last_assigned :: "tid option"
  kg_runnable :: int
  kg_runq_kses :: u32
  kg_idle_kses :: int
  kg_pri_class :: u8
  kg_user_pri :: u8
  kg_nice :: int

record sched_proc =
  p_ksegrps :: "kgid list"
  p_flag :: u32
  p_sflag :: u32
  p_state :: p_states
  p_swtime :: u32

text \<open>One CPU. \<open>sched_averunnable\<close> is the one minute load average, \<open>sched_stathz\<close> and \<open>sched_hz\<close> the two clock rates.\<close>

record sched =
  the_td :: "tid \<Rightarrow> sched_thread"
  the_ke :: "keid \<Rightarrow> kse"
  the_kg :: "kgid \<Rightarrow> ksegrp"
  the_p :: "pno \<Rightarrow> sched_proc"
  the_runq :: runq
  curthread :: tid
  idlethread :: tid
  panicstr :: bool
  sched_allproc :: "pno list"
  sched_averunnable :: u32
  sched_stathz :: u32
  sched_hz :: u32

definition P_SYSTEM :: u32 where "P_SYSTEM = 0x200"
definition P_SA :: u32 where "P_SA = 0x8000"
definition PS_INMEM :: u32 where "PS_INMEM = 1"
definition PS_SWAPINREQ :: u32 where "PS_SWAPINREQ = 0x100"
definition PS_SWAPPINGIN :: u32 where "PS_SWAPPINGIN = 0x4000"
definition TDF_INPANIC :: u32 where "TDF_INPANIC = 2"
definition TDF_NEEDRESCHED :: u32 where "TDF_NEEDRESCHED = 0x10000"
definition TDI_SWAPPED :: u32 where "TDI_SWAPPED = 4"
definition KEF_DIDRUN :: u32 where "KEF_DIDRUN = 0x2000"
definition NOCPU :: u8 where "NOCPU = 0xff"
definition PUSER :: u32 where "PUSER = 160"
definition PRI_MIN_TIMESHARE :: u32 where "PRI_MIN_TIMESHARE = 160"
definition PRI_MAX_TIMESHARE :: u32 where "PRI_MAX_TIMESHARE = 223"
definition PRI_TIMESHARE :: u8 where "PRI_TIMESHARE = 3"
definition PRIO_MIN :: int where "PRIO_MIN = -20"
definition PRIO_MAX :: int where "PRIO_MAX = 20"
definition FSHIFT :: nat where "FSHIFT = 11"
definition FSCALE :: u32 where "FSCALE = push_bit FSHIFT 1"
definition CCPU_SHIFT :: nat where "CCPU_SHIFT = 11"

section \<open>Access\<close>

definition upd_td :: "tid \<Rightarrow> (sched_thread \<Rightarrow> sched_thread) \<Rightarrow> sched \<Rightarrow> sched" where
  "upd_td t f s = s\<lparr>the_td := (the_td s)(t := f (the_td s t))\<rparr>"

definition upd_ke :: "keid \<Rightarrow> (kse \<Rightarrow> kse) \<Rightarrow> sched \<Rightarrow> sched" where
  "upd_ke k f s = s\<lparr>the_ke := (the_ke s)(k := f (the_ke s k))\<rparr>"

definition upd_kg :: "kgid \<Rightarrow> (ksegrp \<Rightarrow> ksegrp) \<Rightarrow> sched \<Rightarrow> sched" where
  "upd_kg g f s = s\<lparr>the_kg := (the_kg s)(g := f (the_kg s g))\<rparr>"

definition upd_p :: "pno \<Rightarrow> (sched_proc \<Rightarrow> sched_proc) \<Rightarrow> sched \<Rightarrow> sched" where
  "upd_p p f s = s\<lparr>the_p := (the_p s)(p := f (the_p s p))\<rparr>"

lemma upd_td_simps [simp]:
  "the_td (upd_td t f s) = (the_td s)(t := f (the_td s t))"
  "the_ke (upd_td t f s) = the_ke s"
  "the_kg (upd_td t f s) = the_kg s"
  "the_p (upd_td t f s) = the_p s"
  "the_runq (upd_td t f s) = the_runq s"
  "curthread (upd_td t f s) = curthread s"
  "idlethread (upd_td t f s) = idlethread s"
  "panicstr (upd_td t f s) = panicstr s"
  "sched_allproc (upd_td t f s) = sched_allproc s"
  "sched_averunnable (upd_td t f s) = sched_averunnable s"
  "sched_stathz (upd_td t f s) = sched_stathz s"
  "sched_hz (upd_td t f s) = sched_hz s"
  by (simp_all add: upd_td_def)

lemma upd_ke_simps [simp]:
  "the_td (upd_ke k f s) = the_td s"
  "the_ke (upd_ke k f s) = (the_ke s)(k := f (the_ke s k))"
  "the_kg (upd_ke k f s) = the_kg s"
  "the_p (upd_ke k f s) = the_p s"
  "the_runq (upd_ke k f s) = the_runq s"
  "curthread (upd_ke k f s) = curthread s"
  "idlethread (upd_ke k f s) = idlethread s"
  "panicstr (upd_ke k f s) = panicstr s"
  "sched_allproc (upd_ke k f s) = sched_allproc s"
  "sched_averunnable (upd_ke k f s) = sched_averunnable s"
  "sched_stathz (upd_ke k f s) = sched_stathz s"
  "sched_hz (upd_ke k f s) = sched_hz s"
  by (simp_all add: upd_ke_def)

lemma upd_kg_simps [simp]:
  "the_td (upd_kg g f s) = the_td s"
  "the_ke (upd_kg g f s) = the_ke s"
  "the_kg (upd_kg g f s) = (the_kg s)(g := f (the_kg s g))"
  "the_p (upd_kg g f s) = the_p s"
  "the_runq (upd_kg g f s) = the_runq s"
  "curthread (upd_kg g f s) = curthread s"
  "idlethread (upd_kg g f s) = idlethread s"
  "panicstr (upd_kg g f s) = panicstr s"
  "sched_allproc (upd_kg g f s) = sched_allproc s"
  "sched_averunnable (upd_kg g f s) = sched_averunnable s"
  "sched_stathz (upd_kg g f s) = sched_stathz s"
  "sched_hz (upd_kg g f s) = sched_hz s"
  by (simp_all add: upd_kg_def)

lemma upd_p_simps [simp]:
  "the_td (upd_p p f s) = the_td s"
  "the_ke (upd_p p f s) = the_ke s"
  "the_kg (upd_p p f s) = the_kg s"
  "the_p (upd_p p f s) = (the_p s)(p := f (the_p s p))"
  "the_runq (upd_p p f s) = the_runq s"
  "curthread (upd_p p f s) = curthread s"
  "idlethread (upd_p p f s) = idlethread s"
  "panicstr (upd_p p f s) = panicstr s"
  "sched_allproc (upd_p p f s) = sched_allproc s"
  "sched_averunnable (upd_p p f s) = sched_averunnable s"
  "sched_stathz (upd_p p f s) = sched_stathz s"
  "sched_hz (upd_p p f s) = sched_hz s"
  by (simp_all add: upd_p_def)

definition assert :: "bool \<Rightarrow> unit option" where
  "assert b = (if b then Some () else None)"

text \<open>The macros on the state of a thread.\<close>

definition TD_SET_INHIB :: "u32 \<Rightarrow> sched_thread \<Rightarrow> sched_thread" where
  "TD_SET_INHIB inhib td = td\<lparr>td_state := TDS_INHIBITED, td_inhibitors := td_inhibitors td OR inhib\<rparr>"

definition TD_CLR_INHIB :: "u32 \<Rightarrow> sched_thread \<Rightarrow> sched_thread" where
  "TD_CLR_INHIB inhib td =
     (if td_inhibitors td AND inhib \<noteq> 0 then
        (let td1 = td\<lparr>td_inhibitors := td_inhibitors td AND NOT inhib\<rparr> in
         if td_inhibitors td1 = 0 then td1\<lparr>td_state := TDS_CAN_RUN\<rparr> else td1)
      else td)"

text \<open>\<open>td->td_proc->p_flag & P_SA\<close>: the process is threaded.\<close>

definition is_SA :: "sched \<Rightarrow> tid \<Rightarrow> bool" where
  "is_SA s t \<longleftrightarrow> p_flag (the_p s (td_proc (the_td s t))) AND P_SA \<noteq> 0"

definition in_mem :: "sched \<Rightarrow> pno \<Rightarrow> bool" where
  "in_mem s p \<longleftrightarrow> p_sflag (the_p s p) AND PS_INMEM \<noteq> 0"

section \<open>The system run queue\<close>

definition rq_index :: "u8 \<Rightarrow> nat" where "rq_index prio = unat prio div RQ_PPQ"

definition sched_add :: "tid \<Rightarrow> sched \<Rightarrow> sched option" where
  "sched_add td s = do {
     ke \<leftarrow> td_kse (the_td s td);
     td' \<leftarrow> ke_thread (the_ke s ke);
     assert (td_kse (the_td s td') \<noteq> None);
     assert (ke_state (the_ke s ke) \<noteq> KES_ONRUNQ);
     assert (in_mem s (ke_proc (the_ke s ke)));
     let pri = rq_index (td_priority (the_td s td'));
     let s = upd_kg (ke_ksegrp (the_ke s ke)) (\<lambda>kg. kg\<lparr>kg_runq_kses := kg_runq_kses kg + 1\<rparr>) s;
     let s = upd_ke ke (\<lambda>k. k\<lparr>ke_state := KES_ONRUNQ, ke_rqindex := pri\<rparr>) s;
     Some (s\<lparr>the_runq := runq_add (the_runq s) pri ke\<rparr>) }"

definition sched_rem :: "tid \<Rightarrow> sched \<Rightarrow> sched option" where
  "sched_rem td s = do {
     ke \<leftarrow> td_kse (the_td s td);
     assert (in_mem s (ke_proc (the_ke s ke)));
     assert (ke_state (the_ke s ke) = KES_ONRUNQ);
     rq \<leftarrow> runq_remove (the_runq s) (ke_rqindex (the_ke s ke)) ke;
     let s = upd_ke ke (\<lambda>k. k\<lparr>ke_state := KES_THREAD\<rparr>) (s\<lparr>the_runq := rq\<rparr>);
     Some (upd_kg (ke_ksegrp (the_ke s ke)) (\<lambda>kg. kg\<lparr>kg_runq_kses := kg_runq_kses kg - 1\<rparr>) s) }"

definition sched_choose :: "sched \<Rightarrow> (sched \<times> keid option) option" where
  "sched_choose s = do {
     kp \<leftarrow> runq_choose (the_runq s);
     (case kp of None \<Rightarrow> Some (s, None)
      | Some ke \<Rightarrow> do {
          assert (in_mem s (ke_proc (the_ke s ke)));
          rq \<leftarrow> runq_remove (the_runq s) (ke_rqindex (the_ke s ke)) ke;
          let s = upd_ke ke (\<lambda>k. k\<lparr>ke_state := KES_THREAD\<rparr>) (s\<lparr>the_runq := rq\<rparr>);
          td \<leftarrow> ke_thread (the_ke s ke);
          assert (td_kse (the_td s td) \<noteq> None);
          Some (s, Some ke) }) }"

definition sched_runnable :: "sched \<Rightarrow> bool" where
  "sched_runnable s = runq_check (the_runq s)"

definition maybe_resched :: "tid \<Rightarrow> sched \<Rightarrow> sched" where
  "maybe_resched td s =
     (if td_priority (the_td s td) < td_priority (the_td s (curthread s)) \<and> td_kse (the_td s (curthread s)) \<noteq> None
      then upd_td (curthread s) (\<lambda>td. td\<lparr>td_flags := td_flags td OR TDF_NEEDRESCHED\<rparr>) s else s)"

section \<open>Cpu use and user priority\<close>

definition INVERSE_ESTCPU_WEIGHT :: u32 where "INVERSE_ESTCPU_WEIGHT = 8"
definition NICE_WEIGHT :: u32 where "NICE_WEIGHT = 1"

definition ESTCPULIM :: "u32 \<Rightarrow> u32" where
  "ESTCPULIM e = min e (INVERSE_ESTCPU_WEIGHT * (NICE_WEIGHT * word_of_int (PRIO_MAX - PRIO_MIN) - of_nat RQ_PPQ) + INVERSE_ESTCPU_WEIGHT - 1)"

definition loadfactor :: "u32 \<Rightarrow> u32" where "loadfactor loadav = 2 * loadav"
definition decay_cpu :: "u32 \<Rightarrow> u32 \<Rightarrow> u32" where "decay_cpu loadfac cpu = (loadfac * cpu) div (loadfac + FSCALE)"

definition resetpriority :: "kgid \<Rightarrow> sched \<Rightarrow> sched" where
  "resetpriority kg s =
     (let g = the_kg s kg;
          s = (if kg_pri_class g = PRI_TIMESHARE then
                 (let newpriority = PUSER + kg_estcpu g div INVERSE_ESTCPU_WEIGHT + NICE_WEIGHT * word_of_int (kg_nice g - PRIO_MIN);
                      newpriority = min (max newpriority PRI_MIN_TIMESHARE) PRI_MAX_TIMESHARE
                  in upd_kg kg (\<lambda>g. g\<lparr>kg_user_pri := ucast newpriority\<rparr>) s)
               else s)
      in fold maybe_resched (kg_threads (the_kg s kg)) s)"

text \<open>The loop of \<open>updatepri\<close>: \<open>while (newcpu && --kg_slptime)\<close>.\<close>

function updatepri_loop :: "u32 \<Rightarrow> u32 \<Rightarrow> u32 \<Rightarrow> u32 \<times> u32" where
  "updatepri_loop loadfac newcpu slptime =
     (if newcpu = 0 then (newcpu, slptime)
      else let slptime = slptime - 1 in
        if slptime = 0 then (newcpu, slptime)
        else updatepri_loop loadfac (decay_cpu loadfac newcpu) slptime)"
  by pat_completeness auto

termination
proof (relation "measure (\<lambda>(l, c, t). if t = 0 then 2 ^ 32 else unat t)")
  fix loadfac newcpu slptime x :: u32
  assume "newcpu \<noteq> 0" and x: "x = slptime - 1" "x \<noteq> 0"
  have "0 < unat slptime" if "slptime \<noteq> 0" using that by (simp add: unsigned_eq_0_iff flip: neq0_conv)
  then have "unat x < (if slptime = 0 then 2 ^ 32 else unat slptime)"
    using x unsigned_less [of x, where ?'a = nat] by (cases "slptime = 0") (simp_all add: unat_minus_one)
  then show "((loadfac, decay_cpu loadfac newcpu, x), (loadfac, newcpu, slptime))
      \<in> measure (\<lambda>(l, c, t). if t = 0 then 2 ^ 32 else unat t)"
    using x by simp
qed simp

declare updatepri_loop.simps [simp del]

definition updatepri :: "kgid \<Rightarrow> sched \<Rightarrow> sched" where
  "updatepri kg s =
     (let loadfac = loadfactor (sched_averunnable s);
          g = the_kg s kg;
          s = (if kg_slptime g > 5 * loadfac then upd_kg kg (\<lambda>g. g\<lparr>kg_estcpu := 0\<rparr>) s
               else (let (newcpu, slptime) = updatepri_loop loadfac (kg_estcpu g) (kg_slptime g - 1)
                     in upd_kg kg (\<lambda>g. g\<lparr>kg_estcpu := newcpu, kg_slptime := slptime\<rparr>) s))
      in resetpriority kg s)"

definition sched_clock :: "tid \<Rightarrow> sched \<Rightarrow> sched option" where
  "sched_clock td s = do {
     let kg = td_ksegrp (the_td s td);
     ke \<leftarrow> td_kse (the_td s td);
     let s = upd_ke ke (\<lambda>k. k\<lparr>ske_cpticks := ske_cpticks k + 1\<rparr>) s;
     let s = upd_kg kg (\<lambda>g. g\<lparr>kg_estcpu := ESTCPULIM (kg_estcpu g + 1)\<rparr>) s;
     Some (if kg_estcpu (the_kg s kg) mod INVERSE_ESTCPU_WEIGHT = 0 then
         (let s = resetpriority kg s in
          if ucast (td_priority (the_td s td)) \<ge> PUSER
          then upd_td td (\<lambda>t. t\<lparr>td_priority := kg_user_pri (the_kg s kg)\<rparr>) s else s)
       else s) }"

definition sched_fork_kse :: "keid \<Rightarrow> keid \<Rightarrow> sched \<Rightarrow> sched" where
  "sched_fork_kse ke child s = upd_ke child (\<lambda>k. k\<lparr>ske_cpticks := 0\<rparr>) s"

definition sched_fork_ksegrp :: "kgid \<Rightarrow> kgid \<Rightarrow> sched \<Rightarrow> sched" where
  "sched_fork_ksegrp kg child s = upd_kg child (\<lambda>g. g\<lparr>kg_estcpu := kg_estcpu (the_kg s kg)\<rparr>) s"

definition sched_exit_ksegrp :: "kgid \<Rightarrow> kgid \<Rightarrow> sched \<Rightarrow> sched" where
  "sched_exit_ksegrp kg child s = upd_kg kg (\<lambda>g. g\<lparr>kg_estcpu := ESTCPULIM (kg_estcpu g + kg_estcpu (the_kg s child))\<rparr>) s"

definition sched_nice :: "kgid \<Rightarrow> int \<Rightarrow> sched \<Rightarrow> sched" where
  "sched_nice kg nice s = resetpriority kg (upd_kg kg (\<lambda>g. g\<lparr>kg_nice := nice\<rparr>) s)"

definition sched_class :: "kgid \<Rightarrow> u8 \<Rightarrow> sched \<Rightarrow> sched" where
  "sched_class kg class' s = upd_kg kg (\<lambda>g. g\<lparr>kg_pri_class := class'\<rparr>) s"

definition sched_sleep :: "tid \<Rightarrow> u8 \<Rightarrow> sched \<Rightarrow> sched" where
  "sched_sleep td prio s =
     upd_td td (\<lambda>t. t\<lparr>td_priority := prio\<rparr>) (upd_kg (td_ksegrp (the_td s td)) (\<lambda>g. g\<lparr>kg_slptime := 0\<rparr>) s)"

definition sched_userret :: "tid \<Rightarrow> sched \<Rightarrow> sched" where
  "sched_userret td s =
     (let kg = the_kg s (td_ksegrp (the_td s td)) in
      if td_priority (the_td s td) \<noteq> kg_user_pri kg then upd_td td (\<lambda>t. t\<lparr>td_priority := kg_user_pri kg\<rparr>) s else s)"

definition sched_pctcpu :: "tid \<Rightarrow> sched \<Rightarrow> u32" where
  "sched_pctcpu td s =
     (let ke = td_kse (the_td s td);
          ke = (if ke = None then td_last_kse (the_td s td) else ke)
      in case ke of Some ke \<Rightarrow> ke_pctcpu (the_ke s ke) | None \<Rightarrow> 0)"

end
