(* ===== verification/Kern_Switch.thy ===== *)
theory Kern_Switch
  imports Sched_4bsd
begin

text \<open>
  kern/kern_switch.c: which threads of a group get the KSEs of the group, and who runs next; the part of
  kern/sched_4bsd.c that calls it (the priority of a thread, the switch, the wakeup, the recomputation once a
  second); and \<open>setrunnable\<close> of kern/kern_synch.c. The kernel is the one of GENERIC, without SMP. The last section
  puts the operations into events as the rest of the kernel raises them.
\<close>

section \<open>Lists with links\<close>

fun tailq_next :: "'a list \<Rightarrow> 'a \<Rightarrow> 'a option" where
  "tailq_next [] x = None"
| "tailq_next (y # ys) x = (if x = y then (case ys of [] \<Rightarrow> None | z # _ \<Rightarrow> Some z) else tailq_next ys x)"

definition tailq_prev :: "'a list \<Rightarrow> 'a \<Rightarrow> 'a option" where
  "tailq_prev xs x = tailq_next (rev xs) x"

definition tailq_first :: "'a list \<Rightarrow> 'a option" where
  "tailq_first xs = (case xs of [] \<Rightarrow> None | x # _ \<Rightarrow> Some x)"

definition tailq_remove :: "'a \<Rightarrow> 'a list \<Rightarrow> 'a list option" where
  "tailq_remove x xs = (if x \<in> set xs then Some (remove1 x xs) else None)"

text \<open>The loop of \<open>setrunqueue\<close> over the run queue of the group: before the first thread of a greater priority number.\<close>

fun runq_insert :: "('t \<Rightarrow> u8) \<Rightarrow> 't \<Rightarrow> 't list \<Rightarrow> 't list" where
  "runq_insert prio td [] = [td]"
| "runq_insert prio td (td2 # q) = (if prio td2 > prio td then td # td2 # q else td2 # runq_insert prio td q)"

primrec fold_opt :: "('a \<Rightarrow> 's \<Rightarrow> 's option) \<Rightarrow> 'a list \<Rightarrow> 's \<Rightarrow> 's option" where
  "fold_opt f [] s = Some s"
| "fold_opt f (x # xs) s = f x s \<bind> fold_opt f xs"

definition prio :: "sched \<Rightarrow> tid \<Rightarrow> u8" where "prio s t = td_priority (the_td s t)"

section \<open>Making a thread runnable\<close>

text \<open>The KSE the thread brings or finds, if any, and the last assigned thread after that.\<close>

definition setrunqueue_ke :: "tid \<Rightarrow> kgid \<Rightarrow> sched \<Rightarrow> (sched \<times> keid option \<times> tid option) option" where
  "setrunqueue_ke td kg s =
     (let tda = kg_last_assigned (the_kg s kg) in
      case td_kse (the_td s td) of
        None \<Rightarrow>
          if kg_idle_kses (the_kg s kg) \<noteq> 0 then do {
            ke \<leftarrow> tailq_first (kg_iq (the_kg s kg));
            let s = upd_kg kg (\<lambda>g. g\<lparr>kg_iq := remove1 ke (kg_iq g), kg_idle_kses := kg_idle_kses g - 1\<rparr>) s;
            let s = upd_ke ke (\<lambda>k. k\<lparr>ke_state := KES_THREAD\<rparr>) s;
            Some (s, Some ke, tda) }
          else (case tda of
            None \<Rightarrow> Some (s, None, tda)
          | Some a \<Rightarrow>
              if prio s a > prio s td then do {
                ke \<leftarrow> td_kse (the_td s a);
                s \<leftarrow> sched_rem a s;
                let s = upd_td a (\<lambda>t. t\<lparr>td_kse := None\<rparr>) s;
                let s = upd_ke ke (\<lambda>k. k\<lparr>ke_thread := None\<rparr>) s;
                let tda = tailq_prev (kg_runq (the_kg s kg)) a;
                Some (upd_kg kg (\<lambda>g. g\<lparr>kg_last_assigned := tda\<rparr>) s, Some ke, tda) }
              else Some (s, None, tda))
      | Some ke \<Rightarrow>
          Some (upd_td td (\<lambda>t. t\<lparr>td_kse := None\<rparr>) (upd_ke ke (\<lambda>k. k\<lparr>ke_thread := None\<rparr>) s), Some ke, tda))"

text \<open>Whom the KSE goes to, with the new last assigned thread.\<close>

definition setrunqueue_assign :: "tid \<Rightarrow> kgid \<Rightarrow> keid \<Rightarrow> tid option \<Rightarrow> sched \<Rightarrow> sched option" where
  "setrunqueue_assign td kg ke tda s = do {
     (s, td2) \<leftarrow> (case tda of
         None \<Rightarrow> do {
           td2 \<leftarrow> tailq_first (kg_runq (the_kg s kg));
           assert (td_kse (the_td s td2) = None);
           Some (upd_kg kg (\<lambda>g. g\<lparr>kg_last_assigned := Some td2\<rparr>) s, td2) }
       | Some a \<Rightarrow>
           if prio s a > prio s td then Some (s, td)
           else do {
             td2 \<leftarrow> tailq_next (kg_runq (the_kg s kg)) a;
             Some (upd_kg kg (\<lambda>g. g\<lparr>kg_last_assigned := Some td2\<rparr>) s, td2) });
     let s = upd_td td2 (\<lambda>t. t\<lparr>td_kse := Some ke\<rparr>) s;
     let s = upd_ke ke (\<lambda>k. k\<lparr>ke_thread := Some td2\<rparr>) s;
     sched_add td2 s }"

definition setrunqueue :: "tid \<Rightarrow> sched \<Rightarrow> sched option" where
  "setrunqueue td s = do {
     assert (td_state (the_td s td) = TDS_CAN_RUN \<or> td_state (the_td s td) = TDS_RUNNING);
     let s = upd_td td (\<lambda>t. t\<lparr>td_state := TDS_RUNQ\<rparr>) s;
     let kg = td_ksegrp (the_td s td);
     let s = upd_kg kg (\<lambda>g. g\<lparr>kg_runnable := kg_runnable g + 1\<rparr>) s;
     if \<not> is_SA s td then sched_add td s
     else do {
       (s, ke, tda) \<leftarrow> setrunqueue_ke td kg s;
       let s = upd_kg kg (\<lambda>g. g\<lparr>kg_runq := runq_insert (prio s) td (kg_runq g)\<rparr>) s;
       (case ke of None \<Rightarrow> Some s | Some ke \<Rightarrow> setrunqueue_assign td kg ke tda s) } }"

definition adjustrunqueue :: "tid \<Rightarrow> u8 \<Rightarrow> sched \<Rightarrow> sched option" where
  "adjustrunqueue td newpri s = do {
     assert (td_state (the_td s td) = TDS_RUNQ);
     let ke = td_kse (the_td s td);
     if \<not> is_SA s td then do {
       let s = upd_td td (\<lambda>t. t\<lparr>td_priority := newpri\<rparr>) s;
       ke \<leftarrow> ke;
       (if ke_rqindex (the_ke s ke) \<noteq> rq_index newpri then sched_rem td s \<bind> sched_add td else Some s) }
     else do {
       let kg = td_ksegrp (the_td s td);
       let s = upd_kg kg (\<lambda>g. g\<lparr>kg_runnable := kg_runnable g - 1\<rparr>) s;
       let s = upd_td td (\<lambda>t. t\<lparr>td_state := TDS_CAN_RUN\<rparr>) s;
       s \<leftarrow> (if ke \<noteq> None then
               sched_rem td (if kg_last_assigned (the_kg s kg) = Some td
                 then upd_kg kg (\<lambda>g. g\<lparr>kg_last_assigned := tailq_prev (kg_runq g) td\<rparr>) s else s)
             else Some s);
       q \<leftarrow> tailq_remove td (kg_runq (the_kg s kg));
       let s = upd_kg kg (\<lambda>g. g\<lparr>kg_runq := q\<rparr>) s;
       let s = upd_td td (\<lambda>t. t\<lparr>td_priority := newpri\<rparr>) s;
       setrunqueue td s } }"

text \<open>A surplus KSE goes to the first thread that has none, or to the idle queue.\<close>

definition kse_reassign :: "keid \<Rightarrow> sched \<Rightarrow> sched option" where
  "kse_reassign ke s = do {
     let original = ke_thread (the_ke s ke);
     assert (case original of None \<Rightarrow> True | Some o' \<Rightarrow> td_state (the_td s o') = TDS_INHIBITED);
     let kg = ke_ksegrp (the_ke s ke);
     let s = (case original of None \<Rightarrow> s | Some o' \<Rightarrow> upd_td o' (\<lambda>t. t\<lparr>td_kse := None\<rparr>) s);
     let q = kg_runq (the_kg s kg);
     let td = (case kg_last_assigned (the_kg s kg) of Some a \<Rightarrow> tailq_next q a | None \<Rightarrow> tailq_first q);
     (case td of
        Some td \<Rightarrow> do {
          let s = upd_kg kg (\<lambda>g. g\<lparr>kg_last_assigned := Some td\<rparr>) s;
          let s = upd_td td (\<lambda>t. t\<lparr>td_kse := Some ke\<rparr>) s;
          let s = upd_ke ke (\<lambda>k. k\<lparr>ke_thread := Some td\<rparr>) s;
          sched_add td s }
      | None \<Rightarrow> do {
          let s = upd_ke ke (\<lambda>k. k\<lparr>ke_state := KES_IDLE, ke_thread := None\<rparr>) s;
          Some (upd_kg kg (\<lambda>g. g\<lparr>kg_iq := kg_iq g @ [ke], kg_idle_kses := kg_idle_kses g + 1\<rparr>) s) }) }"

section \<open>Choosing the next thread\<close>

text \<open>The thread of the KSE chosen, taken off the queue of its group, or the idle thread.\<close>

definition choosethread_take :: "keid option \<Rightarrow> sched \<Rightarrow> (sched \<times> tid \<times> keid) option" where
  "choosethread_take kp s = (case kp of
     Some ke \<Rightarrow> do {
       td \<leftarrow> ke_thread (the_ke s ke);
       assert (td_kse (the_td s td) = Some ke);
       let kg = ke_ksegrp (the_ke s ke);
       s \<leftarrow> (if is_SA s td then do {
              let s = (if kg_last_assigned (the_kg s kg) = Some td
                 then upd_kg kg (\<lambda>g. g\<lparr>kg_last_assigned := tailq_prev (kg_runq g) td\<rparr>) s else s);
              q \<leftarrow> tailq_remove td (kg_runq (the_kg s kg));
              Some (upd_kg kg (\<lambda>g. g\<lparr>kg_runq := q\<rparr>) s) }
            else Some s);
       Some (upd_kg kg (\<lambda>g. g\<lparr>kg_runnable := kg_runnable g - 1\<rparr>) s, td, ke) }
   | None \<Rightarrow> do {
       ke \<leftarrow> td_kse (the_td s (idlethread s));
       Some (s, idlethread s, ke) })"

text \<open>After a panic only system threads and the one that panicked may run; \<open>None\<close> is also a search that never ends.\<close>

partial_function (option) choosethread :: "sched \<Rightarrow> (sched \<times> tid) option" where
  "choosethread s = do {
     (s, kp) \<leftarrow> sched_choose s;
     (s, td, ke) \<leftarrow> choosethread_take kp s;
     let s = upd_ke ke (\<lambda>k. k\<lparr>ke_flags := ke_flags k OR KEF_DIDRUN\<rparr>) s;
     if panicstr s \<and> p_flag (the_p s (td_proc (the_td s td))) AND P_SYSTEM = 0 \<and> td_flags (the_td s td) AND TDF_INPANIC = 0
     then choosethread (upd_td td (\<lambda>t. t\<lparr>td_state := TDS_CAN_RUN\<rparr>) s)
     else Some (upd_td td (\<lambda>t. t\<lparr>td_state := TDS_RUNNING\<rparr>) s, td) }"

declare choosethread.simps [code]

section \<open>The scheduler on top\<close>

definition sched_prio :: "tid \<Rightarrow> u8 \<Rightarrow> sched \<Rightarrow> sched option" where
  "sched_prio td pri s =
     (if td_state (the_td s td) = TDS_RUNQ then adjustrunqueue td pri s
      else Some (upd_td td (\<lambda>t. t\<lparr>td_priority := pri\<rparr>) s))"

text \<open>After \<open>cpu_switch\<close> the end of the function runs in the thread switched to.\<close>

definition sched_switch :: "tid \<Rightarrow> sched \<Rightarrow> sched option" where
  "sched_switch td s = do {
     ke \<leftarrow> td_kse (the_td s td);
     assert (ke_state (the_ke s ke) = KES_THREAD);
     let s = upd_td td (\<lambda>t. t\<lparr>td_lastcpu := td_oncpu t, td_last_kse := Some ke, td_oncpu := NOCPU,
                               td_flags := td_flags t AND NOT TDF_NEEDRESCHED\<rparr>) s;
     s \<leftarrow> (if td_state (the_td s td) = TDS_RUNNING then setrunqueue td s
          else if is_SA s td then kse_reassign ke s
          else Some s);
     (s, newtd) \<leftarrow> choosethread s;
     let s = s\<lparr>curthread := newtd\<rparr>;
     Some (upd_td newtd (\<lambda>t. t\<lparr>td_oncpu := 0\<rparr>) s) }"

definition sched_wakeup :: "tid \<Rightarrow> sched \<Rightarrow> sched option" where
  "sched_wakeup td s = do {
     let kg = td_ksegrp (the_td s td);
     let s = (if kg_slptime (the_kg s kg) > 1 then updatepri kg s else s);
     let s = upd_kg kg (\<lambda>g. g\<lparr>kg_slptime := 0\<rparr>) s;
     s \<leftarrow> setrunqueue td s;
     Some (maybe_resched td s) }"

text \<open>The flag of the result tells whether the swapper is woken.\<close>

definition setrunnable :: "tid \<Rightarrow> sched \<Rightarrow> (sched \<times> bool) option" where
  "setrunnable td s =
     (let p = td_proc (the_td s td) in
      if p_state (the_p s p) = PRS_ZOMBIE then None
      else
        let go =
          (if \<not> in_mem s p then
             (if p_sflag (the_p s p) AND PS_SWAPPINGIN = 0
              then Some (upd_p p (\<lambda>p. p\<lparr>p_sflag := p_sflag p OR PS_SWAPINREQ\<rparr>) s, True) else Some (s, False))
           else map_option (\<lambda>s. (s, False)) (sched_wakeup td s))
        in case td_state (the_td s td) of
             TDS_RUNNING \<Rightarrow> Some (s, False)
           | TDS_RUNQ \<Rightarrow> Some (s, False)
           | TDS_INHIBITED \<Rightarrow> if td_inhibitors (the_td s td) \<noteq> TDI_SWAPPED then Some (s, False) else go
           | TDS_CAN_RUN \<Rightarrow> go
           | TDS_INACTIVE \<Rightarrow> None)"

text \<open>Once a second, for every KSE of a group, then for the group: \<open>ccpu\<close> is 0.95122942450071400909 in fixed point.\<close>

definition ccpu :: u32 where "ccpu = 1948"

definition schedcpu_ke :: "u32 \<Rightarrow> keid \<Rightarrow> sched \<times> bool \<Rightarrow> (sched \<times> bool) option" where
  "schedcpu_ke realstathz ke = (\<lambda>(s, awake). do {
     (s, awake) \<leftarrow>
       (if ke_state (the_ke s ke) = KES_ONRUNQ
        then Some (upd_ke ke (\<lambda>k. k\<lparr>ke_flags := ke_flags k AND NOT KEF_DIDRUN\<rparr>) s, True)
        else do {
          running \<leftarrow> (if ke_state (the_ke s ke) = KES_THREAD
             then map_option (\<lambda>td. td_state (the_td s td) = TDS_RUNNING) (ke_thread (the_ke s ke)) else Some False);
          (if running then Some (s, True)
           else if ke_flags (the_ke s ke) AND KEF_DIDRUN \<noteq> 0
           then Some (upd_ke ke (\<lambda>k. k\<lparr>ke_flags := ke_flags k AND NOT KEF_DIDRUN\<rparr>) s, True)
           else Some (s, awake)) });
     let s = upd_ke ke (\<lambda>k. k\<lparr>ke_pctcpu := drop_bit FSHIFT (ke_pctcpu k * ccpu)\<rparr>) s;
     if ske_cpticks (the_ke s ke) = 0 then Some (s, awake)
     else Some (upd_ke ke (\<lambda>k. k\<lparr>ke_pctcpu := ke_pctcpu k +
           (if realstathz = 100 then push_bit (FSHIFT - CCPU_SHIFT) (ske_cpticks k)
            else 100 * push_bit (FSHIFT - CCPU_SHIFT) (ske_cpticks k) div realstathz),
           ske_cpticks := 0\<rparr>) s, awake) })"

definition schedcpu_kg :: "u32 \<Rightarrow> kgid \<Rightarrow> sched \<Rightarrow> sched option" where
  "schedcpu_kg realstathz kg s = do {
     let loadfac = loadfactor (sched_averunnable s);
     (s, awake) \<leftarrow> fold_opt (schedcpu_ke realstathz) (kg_kseq (the_kg s kg)) (s, False);
     let s = (if awake then
         upd_kg kg (\<lambda>g. g\<lparr>kg_slptime := 0\<rparr>) (if kg_slptime (the_kg s kg) > 1 then updatepri kg s else s)
       else upd_kg kg (\<lambda>g. g\<lparr>kg_slptime := kg_slptime g + 1\<rparr>) s);
     if kg_slptime (the_kg s kg) > 1 then Some s
     else do {
       let s = upd_kg kg (\<lambda>g. g\<lparr>kg_estcpu := decay_cpu loadfac (kg_estcpu g)\<rparr>) s;
       let s = resetpriority kg s;
       fold_opt (\<lambda>td s. if ucast (td_priority (the_td s td)) \<ge> PUSER then sched_prio td (kg_user_pri (the_kg s kg)) s else Some s)
         (kg_threads (the_kg s kg)) s } }"

definition schedcpu :: "sched \<Rightarrow> sched option" where
  "schedcpu s =
     (let realstathz = (if sched_stathz s \<noteq> 0 then sched_stathz s else sched_hz s) in
      fold_opt (\<lambda>p s. fold_opt (schedcpu_kg realstathz) (p_ksegrps (the_p s p))
          (upd_p p (\<lambda>p. p\<lparr>p_swtime := p_swtime p + 1\<rparr>) s)) (sched_allproc s) s)"

section \<open>Events\<close>

text \<open>
  What the rest of the kernel does to the scheduler: the running thread blocks (\<open>msleep\<close>, a lock, a stop)
  after it may have set its sleep priority, gives up the cpu or is preempted, the idle thread looks for work, a thread is woken, a priority is
  lent or changed, the clock ticks, the group is reniced or changes its class, the thread returns to user mode, the second is over, a panic begins.
\<close>

datatype sched_event =
    Block u32 | Yield | Idle | Wake tid u32 | Prio tid u8 | Tick | Nice kgid int | Class kgid u8
  | Sleep_prio u8 | Userret | Second | Panics

definition sched_enabled :: "sched_event \<Rightarrow> sched \<Rightarrow> bool" where
  "sched_enabled e s = (let cur = curthread s in case e of
     Block inhib \<Rightarrow> cur \<noteq> idlethread s
   | Yield \<Rightarrow> cur \<noteq> idlethread s
   | Idle \<Rightarrow> cur = idlethread s
   | Wake t inhib \<Rightarrow> td_state (the_td s t) = TDS_INHIBITED \<and> p_state (the_p s (td_proc (the_td s t))) \<noteq> PRS_ZOMBIE \<and>
       (in_mem s (td_proc (the_td s t)) \<longrightarrow> td_inhibitors (the_td s t) AND TDI_SWAPPED = 0)
   | Prio t p \<Rightarrow> td_state (the_td s t) \<noteq> TDS_INACTIVE
   | _ \<Rightarrow> True)"

definition sched_do :: "sched_event \<Rightarrow> sched \<Rightarrow> sched option" where
  "sched_do e s = (let cur = curthread s in case e of
     Block inhib \<Rightarrow> sched_switch cur (upd_td cur (TD_SET_INHIB inhib) s)
   | Yield \<Rightarrow> sched_switch cur s
   | Idle \<Rightarrow> sched_switch cur (upd_td cur (\<lambda>t. t\<lparr>td_state := TDS_CAN_RUN\<rparr>) s)
   | Wake t inhib \<Rightarrow> map_option fst (setrunnable t (upd_td t (TD_CLR_INHIB inhib) s))
   | Prio t p \<Rightarrow> sched_prio t p s
   | Tick \<Rightarrow> sched_clock cur s
   | Nice g n \<Rightarrow> Some (sched_nice g n s)
   | Class g c \<Rightarrow> Some (sched_class g c s)
   | Sleep_prio p \<Rightarrow> Some (sched_sleep cur p s)
   | Userret \<Rightarrow> Some (sched_userret cur s)
   | Second \<Rightarrow> schedcpu s
   | Panics \<Rightarrow> Some (upd_td cur (\<lambda>t. t\<lparr>td_flags := td_flags t OR TDF_INPANIC\<rparr>) (s\<lparr>panicstr := True\<rparr>)))"

text \<open>An event that is not enabled is not raised.\<close>

definition sched_step :: "sched_event \<Rightarrow> sched \<Rightarrow> sched option" where
  "sched_step e s = (if sched_enabled e s then sched_do e s else Some s)"

end
