(* ===== verification/Kern_Switch_Inv.thy ===== *)
theory Kern_Switch_Inv
  imports Kern_Switch
begin

text \<open>
  The invariant of the scheduler, on a view of the state that keeps only what the queues and the assignment of KSEs
  depend on. \<open>X\<close> holds the threads that are marked runnable and not queued yet, \<open>Y\<close> the KSEs
  that are between two threads; outside the operations both are empty.
\<close>

record sview =
  st :: "tid \<Rightarrow> td_states"
  pr :: "tid \<Rightarrow> u8"
  tk :: "tid \<Rightarrow> keid option"
  tg :: "tid \<Rightarrow> kgid"
  sa :: "tid \<Rightarrow> bool"
  tmem :: "tid \<Rightarrow> bool"
  tsys :: "tid \<Rightarrow> bool"
  kt :: "keid \<Rightarrow> tid option"
  ks :: "keid \<Rightarrow> ke_states"
  ri :: "keid \<Rightarrow> nat"
  kgr :: "keid \<Rightarrow> kgid"
  kmem :: "keid \<Rightarrow> bool"
  qu :: "kgid \<Rightarrow> tid list"
  la :: "kgid \<Rightarrow> tid option"
  iq :: "kgid \<Rightarrow> keid list"
  idl :: "kgid \<Rightarrow> int"
  rn :: "kgid \<Rightarrow> int"
  est :: "kgid \<Rightarrow> u32"
  rok :: bool
  rq :: "nat \<Rightarrow> keid list"
  cur :: tid
  idt :: tid
  pan :: bool
  lda :: u32

definition view :: "sched \<Rightarrow> sview" where
  "view s = \<lparr>st = (\<lambda>t. td_state (the_td s t)), pr = (\<lambda>t. td_priority (the_td s t)), tk = (\<lambda>t. td_kse (the_td s t)),
     tg = (\<lambda>t. td_ksegrp (the_td s t)), sa = is_SA s, tmem = (\<lambda>t. in_mem s (td_proc (the_td s t))),
     tsys = (\<lambda>t. p_flag (the_p s (td_proc (the_td s t))) AND P_SYSTEM \<noteq> 0),
     kt = (\<lambda>k. ke_thread (the_ke s k)), ks = (\<lambda>k. ke_state (the_ke s k)), ri = (\<lambda>k. ke_rqindex (the_ke s k)),
     kgr = (\<lambda>k. ke_ksegrp (the_ke s k)), kmem = (\<lambda>k. in_mem s (ke_proc (the_ke s k))),
     qu = (\<lambda>g. kg_runq (the_kg s g)), la = (\<lambda>g. kg_last_assigned (the_kg s g)), iq = (\<lambda>g. kg_iq (the_kg s g)),
     idl = (\<lambda>g. kg_idle_kses (the_kg s g)), rn = (\<lambda>g. kg_runnable (the_kg s g)),
     est = (\<lambda>g. kg_estcpu (the_kg s g)), rok = runq_ok (the_runq s), rq = rq_queue (the_runq s),
     cur = curthread s, idt = idlethread s, pan = panicstr s, lda = sched_averunnable s\<rparr>"

lemma view_simps [simp]:
  "st (view s) t = td_state (the_td s t)" "pr (view s) t = td_priority (the_td s t)" "tk (view s) t = td_kse (the_td s t)"
  "tg (view s) t = td_ksegrp (the_td s t)" "sa (view s) t = is_SA s t" "tmem (view s) t = in_mem s (td_proc (the_td s t))"
  "kt (view s) k = ke_thread (the_ke s k)" "ks (view s) k = ke_state (the_ke s k)" "ri (view s) k = ke_rqindex (the_ke s k)"
  "kgr (view s) k = ke_ksegrp (the_ke s k)" "kmem (view s) k = in_mem s (ke_proc (the_ke s k))"
  "qu (view s) g = kg_runq (the_kg s g)" "la (view s) g = kg_last_assigned (the_kg s g)" "iq (view s) g = kg_iq (the_kg s g)"
  "idl (view s) g = kg_idle_kses (the_kg s g)" "rn (view s) g = kg_runnable (the_kg s g)"
  "est (view s) g = kg_estcpu (the_kg s g)" "rok (view s) = runq_ok (the_runq s)" "rq (view s) = rq_queue (the_runq s)"
  "cur (view s) = curthread s" "idt (view s) = idlethread s" "pan (view s) = panicstr s" "lda (view s) = sched_averunnable s"
  "tsys (view s) t \<longleftrightarrow> p_flag (the_p s (td_proc (the_td s t))) AND P_SYSTEM \<noteq> 0"
  by (simp_all add: view_def)

text \<open>The run queue holds exactly the KSEs that are marked so, at their index.\<close>

definition v_queue :: "sview \<Rightarrow> bool" where
  "v_queue v \<longleftrightarrow> rok v \<and> distinct (flat (rq v) RQ_NQS) \<and>
     (\<forall>k p. k \<in> set (rq v p) \<longleftrightarrow> ks v k = KES_ONRUNQ \<and> ri v k = p) \<and> (\<forall>p \<ge> RQ_NQS. rq v p = [])"

text \<open>Threads and KSEs point at each other, within one group.\<close>

definition v_link :: "keid set \<Rightarrow> sview \<Rightarrow> bool" where
  "v_link Y v \<longleftrightarrow>
     (\<forall>t k. tk v t = Some k \<longleftrightarrow> kt v k = Some t) \<and>
     (\<forall>t k. kt v k = Some t \<longrightarrow> kgr v k = tg v t \<and> (ks v k = KES_ONRUNQ \<or> ks v k = KES_THREAD)) \<and>
     (\<forall>k. k \<in> Y \<longrightarrow> ks v k = KES_THREAD \<and> kt v k = None) \<and> (\<forall>k. ks v k = KES_THREAD \<longrightarrow> k \<notin> Y \<longrightarrow> kt v k \<noteq> None) \<and>
     (\<forall>k t. kgr v k = tg v t \<longrightarrow> kmem v k = tmem v t)"

text \<open>A KSE on the run queue has a runnable thread and sits at its priority; a queued thread with a KSE has it on the run queue.\<close>

definition v_onq :: "tid set \<Rightarrow> sview \<Rightarrow> bool" where
  "v_onq X v \<longleftrightarrow>
     (\<forall>k. ks v k = KES_ONRUNQ \<longrightarrow> (\<exists>t. kt v k = Some t \<and> st v t = TDS_RUNQ \<and> t \<notin> X \<and> ri v k = rq_index (pr v t))) \<and>
     (\<forall>t k. st v t = TDS_RUNQ \<longrightarrow> t \<notin> X \<longrightarrow> tk v t = Some k \<longrightarrow> ks v k = KES_ONRUNQ)"

definition v_idle :: "sview \<Rightarrow> bool" where
  "v_idle v \<longleftrightarrow> (\<forall>g k. k \<in> set (iq v g) \<longleftrightarrow> ks v k = KES_IDLE \<and> kgr v k = g) \<and>
     (\<forall>g. distinct (iq v g) \<and> idl v g = int (length (iq v g)))"

definition v_thread :: "tid set \<Rightarrow> sview \<Rightarrow> bool" where
  "v_thread X v \<longleftrightarrow>
     (\<forall>t. \<not> sa v t \<longrightarrow> st v t \<noteq> TDS_INACTIVE \<longrightarrow> tk v t \<noteq> None) \<and>
     (\<forall>g t. t \<in> set (qu v g) \<longleftrightarrow> tg v t = g \<and> st v t = TDS_RUNQ \<and> sa v t \<and> t \<notin> X) \<and>
     (\<forall>t. st v t = TDS_RUNQ \<longrightarrow> tmem v t)"

text \<open>The run queue of a group is sorted; the threads up to \<open>last_assigned\<close> have a KSE, the others none, and then no KSE of the group is idle.\<close>

definition assigned :: "(tid \<Rightarrow> keid option) \<Rightarrow> tid option \<Rightarrow> keid list \<Rightarrow> tid list \<Rightarrow> tid list \<Rightarrow> bool" where
  "assigned kse_of l idle A B \<longleftrightarrow> l = (if A = [] then None else Some (last A)) \<and> (\<forall>t \<in> set A. kse_of t \<noteq> None) \<and>
     (\<forall>t \<in> set B. kse_of t = None) \<and> (idle \<noteq> [] \<longrightarrow> B = [])"

definition v_group :: "sview \<Rightarrow> bool" where
  "v_group v \<longleftrightarrow> (\<forall>g. distinct (qu v g) \<and> sorted (map (pr v) (qu v g)) \<and>
     (\<exists>A B. qu v g = A @ B \<and> assigned (tk v) (la v g) (iq v g) A B))"

definition v_count :: "sview \<Rightarrow> bool" where
  "v_count v \<longleftrightarrow> finite {t. st v t = TDS_RUNQ} \<and>
     (\<forall>g. rn v g = int (card {t. st v t = TDS_RUNQ \<and> tg v t = g}))"

text \<open>Only the current thread runs, it has a KSE; the idle thread is there, alone and a system thread.\<close>

definition v_cpu :: "sview \<Rightarrow> bool" where
  "v_cpu v \<longleftrightarrow> (\<forall>t. st v t = TDS_RUNNING \<longrightarrow> t = cur v \<and> tk v t \<noteq> None) \<and> \<not> sa v (idt v) \<and> st v (idt v) \<noteq> TDS_INACTIVE \<and>
     tsys v (idt v) \<and> tmem v (idt v)"

text \<open>The bound \<open>ESTCPULIM\<close> puts on the estimate, and the greatest load average the comment at \<open>FSHIFT\<close> allows, 1024.\<close>

definition ESTCPU_MAX :: u32 where "ESTCPU_MAX = 295"
definition LOADAV_MAX :: u32 where "LOADAV_MAX = 0x200000"

definition v_est :: "sview \<Rightarrow> bool" where
  "v_est v \<longleftrightarrow> (\<forall>g. est v g \<le> ESTCPU_MAX) \<and> lda v \<le> LOADAV_MAX"

definition vinv :: "tid set \<Rightarrow> keid set \<Rightarrow> sview \<Rightarrow> bool" where
  "vinv X Y v \<longleftrightarrow> v_queue v \<and> v_link Y v \<and> v_onq X v \<and> v_idle v \<and> v_thread X v \<and> v_group v \<and> v_count v \<and> v_cpu v \<and> v_est v"

lemmas vinv_defs = v_queue_def v_link_def v_onq_def v_idle_def v_thread_def v_group_def v_count_def v_cpu_def v_est_def

lemma vinvD:
  assumes "vinv X Y v"
  shows "v_queue v" "v_link Y v" "v_onq X v" "v_idle v" "v_thread X v" "v_group v" "v_count v" "v_cpu v" "v_est v"
  using assms by (simp_all add: vinv_def)

lemma vinvI:
  "v_queue v \<Longrightarrow> v_link Y v \<Longrightarrow> v_onq X v \<Longrightarrow> v_idle v \<Longrightarrow> v_thread X v \<Longrightarrow> v_group v \<Longrightarrow> v_count v \<Longrightarrow> v_cpu v \<Longrightarrow> v_est v \<Longrightarrow> vinv X Y v"
  by (simp add: vinv_def)

section \<open>Destruction\<close>

lemma link_iff: "vinv X Y v \<Longrightarrow> tk v t = Some k \<longleftrightarrow> kt v k = Some t"
  by (simp add: vinv_def v_link_def)

lemma link_group: "vinv X Y v \<Longrightarrow> kt v k = Some t \<Longrightarrow> kgr v k = tg v t \<and> (ks v k = KES_ONRUNQ \<or> ks v k = KES_THREAD)"
  by (simp add: vinv_def v_link_def)

lemma link_mem: "vinv X Y v \<Longrightarrow> kgr v k = tg v t \<Longrightarrow> kmem v k = tmem v t"
  by (simp add: vinv_def v_link_def)

lemma spare: "vinv X Y v \<Longrightarrow> k \<in> Y \<Longrightarrow> ks v k = KES_THREAD \<and> kt v k = None"
  by (simp add: vinv_def v_link_def)

lemma onq_thread: "vinv X Y v \<Longrightarrow> ks v k = KES_ONRUNQ \<Longrightarrow> \<exists>t. kt v k = Some t \<and> st v t = TDS_RUNQ \<and> t \<notin> X \<and> ri v k = rq_index (pr v t)"
  by (simp add: vinv_def v_onq_def)

lemma onq_kse: "vinv X Y v \<Longrightarrow> st v t = TDS_RUNQ \<Longrightarrow> t \<notin> X \<Longrightarrow> tk v t = Some k \<Longrightarrow> ks v k = KES_ONRUNQ"
  by (simp add: vinv_def v_onq_def)

lemma queue_iff: "vinv X Y v \<Longrightarrow> k \<in> set (rq v p) \<longleftrightarrow> ks v k = KES_ONRUNQ \<and> ri v k = p"
  by (simp add: vinv_def v_queue_def)

lemma idle_iff: "vinv X Y v \<Longrightarrow> k \<in> set (iq v g) \<longleftrightarrow> ks v k = KES_IDLE \<and> kgr v k = g"
  by (simp add: vinv_def v_idle_def)

lemma idle_count: "vinv X Y v \<Longrightarrow> distinct (iq v g) \<and> idl v g = int (length (iq v g))"
  by (simp add: vinv_def v_idle_def)

lemma group_iff: "vinv X Y v \<Longrightarrow> t \<in> set (qu v g) \<longleftrightarrow> tg v t = g \<and> st v t = TDS_RUNQ \<and> sa v t \<and> t \<notin> X"
  by (simp add: vinv_def v_thread_def)

lemma plain_kse: "vinv X Y v \<Longrightarrow> \<not> sa v t \<Longrightarrow> st v t \<noteq> TDS_INACTIVE \<Longrightarrow> \<exists>k. tk v t = Some k"
  by (simp add: vinv_def v_thread_def)

lemma runq_mem: "vinv X Y v \<Longrightarrow> st v t = TDS_RUNQ \<Longrightarrow> tmem v t"
  by (simp add: vinv_def v_thread_def)

lemma running_kse: "vinv X Y v \<Longrightarrow> st v t = TDS_RUNNING \<Longrightarrow> tk v t \<noteq> None"
  by (simp add: vinv_def v_cpu_def)

lemma group_shape:
  assumes "vinv X Y v"
  obtains A B where "qu v g = A @ B" "assigned (tk v) (la v g) (iq v g) A B" "distinct (A @ B)" "sorted (map (pr v) (A @ B))"
proof -
  have "distinct (qu v g) \<and> sorted (map (pr v) (qu v g)) \<and> (\<exists>A B. qu v g = A @ B \<and> assigned (tk v) (la v g) (iq v g) A B)"
    using assms unfolding vinv_def v_group_def by blast
  then show ?thesis using that by auto
qed

lemma rq_index_less: "rq_index p < RQ_NQS"
  using unsigned_less [of p, where ?'a = nat] by (simp add: rq_index_def rq_consts)

lemma onq_index: "vinv X Y v \<Longrightarrow> ks v k = KES_ONRUNQ \<Longrightarrow> ri v k < RQ_NQS"
  using onq_thread [of X Y v k] rq_index_less by auto

lemma onq_finite: "vinv X Y v \<Longrightarrow> finite {k. ks v k = KES_ONRUNQ}"
proof -
  assume i: "vinv X Y v"
  have "{k. ks v k = KES_ONRUNQ} \<subseteq> set (flat (rq v) RQ_NQS)"
    using queue_iff [OF i] onq_index [OF i] by (auto simp: set_flat)
  then show ?thesis by (rule finite_subset) simp
qed

section \<open>Steps on the view\<close>

text \<open>The KSE \<open>k\<close> of thread \<open>t\<close> goes on the run queue, and off it.\<close>

definition v_add :: "keid \<Rightarrow> tid \<Rightarrow> sview \<Rightarrow> sview" where
  "v_add k t v = v\<lparr>ks := (ks v)(k := KES_ONRUNQ), ri := (ri v)(k := rq_index (pr v t)),
     rq := (rq v)(rq_index (pr v t) := rq v (rq_index (pr v t)) @ [k])\<rparr>"

definition v_rem :: "keid \<Rightarrow> sview \<Rightarrow> sview" where
  "v_rem k v = v\<lparr>ks := (ks v)(k := KES_THREAD), rq := (rq v)(ri v k := remove1 k (rq v (ri v k)))\<rparr>"

lemma v_add_simps [simp]:
  "st (v_add k t v) = st v" "pr (v_add k t v) = pr v" "tk (v_add k t v) = tk v" "tg (v_add k t v) = tg v" "sa (v_add k t v) = sa v"
  "tmem (v_add k t v) = tmem v" "tsys (v_add k t v) = tsys v" "kt (v_add k t v) = kt v" "ks (v_add k t v) = (ks v)(k := KES_ONRUNQ)"
  "kgr (v_add k t v) = kgr v" "kmem (v_add k t v) = kmem v" "qu (v_add k t v) = qu v" "la (v_add k t v) = la v" "iq (v_add k t v) = iq v"
  "idl (v_add k t v) = idl v" "rn (v_add k t v) = rn v" "est (v_add k t v) = est v" "rok (v_add k t v) = rok v"
  "cur (v_add k t v) = cur v" "idt (v_add k t v) = idt v" "pan (v_add k t v) = pan v" "lda (v_add k t v) = lda v" "ri (v_add k t v) = (ri v)(k := rq_index (pr v t))"
  by (simp_all add: v_add_def)

lemma v_rem_simps [simp]:
  "st (v_rem k v) = st v" "pr (v_rem k v) = pr v" "tk (v_rem k v) = tk v" "tg (v_rem k v) = tg v" "sa (v_rem k v) = sa v"
  "tmem (v_rem k v) = tmem v" "tsys (v_rem k v) = tsys v" "kt (v_rem k v) = kt v" "ks (v_rem k v) = (ks v)(k := KES_THREAD)"
  "kgr (v_rem k v) = kgr v" "kmem (v_rem k v) = kmem v" "qu (v_rem k v) = qu v" "la (v_rem k v) = la v" "iq (v_rem k v) = iq v"
  "idl (v_rem k v) = idl v" "rn (v_rem k v) = rn v" "est (v_rem k v) = est v" "rok (v_rem k v) = rok v"
  "cur (v_rem k v) = cur v" "idt (v_rem k v) = idt v" "pan (v_rem k v) = pan v" "lda (v_rem k v) = lda v" "ri (v_rem k v) = ri v"
  by (simp_all add: v_rem_def)

lemma v_add_queue:
  assumes "v_queue v" "ks v k \<noteq> KES_ONRUNQ"
  shows "v_queue (v_add k t v)"
proof -
  let ?p = "rq_index (pr v t)"
  have k: "k \<notin> set (rq v p)" for p using assms by (auto simp: v_queue_def)
  have q: "rq (v_add k t v) = (rq v)(?p := rq v ?p @ [k])" by (simp add: v_add_def)
  have "distinct (flat (rq (v_add k t v)) RQ_NQS)"
    unfolding q by (rule flat_distinct_add [OF rq_index_less]) (use assms(1) k in \<open>auto simp: v_queue_def set_flat\<close>)
  moreover have "k' \<in> set (rq (v_add k t v) p) \<longleftrightarrow> ks (v_add k t v) k' = KES_ONRUNQ \<and> ri (v_add k t v) k' = p" for k' p
    using assms k unfolding q by (auto simp: v_queue_def)
  moreover have "rq (v_add k t v) p = []" if "p \<ge> RQ_NQS" for p
    using that assms(1) rq_index_less [of "pr v t"] unfolding q by (auto simp: v_queue_def)
  ultimately show ?thesis using assms(1) by (simp add: v_queue_def)
qed

lemma v_rem_queue:
  assumes "v_queue v" "ks v k = KES_ONRUNQ"
  shows "v_queue (v_rem k v)"
proof -
  have k: "k \<in> set (rq v (ri v k))" using assms by (simp add: v_queue_def)
  have p: "ri v k < RQ_NQS"
  proof (rule ccontr)
    assume "\<not> ri v k < RQ_NQS"
    then have "rq v (ri v k) = []" using assms(1) by (simp add: v_queue_def)
    then show False using k by simp
  qed
  have d: "distinct (flat (rq v) RQ_NQS)" using assms(1) by (simp add: v_queue_def)
  have q: "rq (v_rem k v) = (rq v)(ri v k := remove1 k (rq v (ri v k)))" by (simp add: v_rem_def)
  have dq: "distinct (rq v (ri v k))" using flat_upd_split [OF p, of "rq v"] d by auto
  have "distinct (flat (rq (v_rem k v)) RQ_NQS)" unfolding q flat_remove1 [of _ _ _ "rq v", OF p k d] using d by simp
  moreover have "k' \<in> set (rq (v_rem k v) p) \<longleftrightarrow> ks (v_rem k v) k' = KES_ONRUNQ \<and> ri (v_rem k v) k' = p" for k' p
    using assms dq unfolding q by (auto simp: v_queue_def)
  moreover have "rq (v_rem k v) p' = []" if "p' \<ge> RQ_NQS" for p'
    using that assms(1) p unfolding q by (auto simp: v_queue_def)
  ultimately show ?thesis using assms(1) by (simp add: v_queue_def)
qed

section \<open>The operations of the scheduler on the view\<close>

lemma sched_add_view:
  assumes "td_kse (the_td s t) = Some k" "ke_thread (the_ke s k) = Some t" "ke_state (the_ke s k) \<noteq> KES_ONRUNQ"
    "in_mem s (ke_proc (the_ke s k))" "runq_ok (the_runq s)"
  shows "\<exists>s'. sched_add t s = Some s' \<and> view s' = v_add k t (view s)"
proof -
  let ?p = "rq_index (td_priority (the_td s t))"
  have "runq_ok (runq_add (the_runq s) ?p k)" "rq_queue (runq_add (the_runq s) ?p k) = (rq_queue (the_runq s))(?p := rq_queue (the_runq s) ?p @ [k])"
    using rq.add_ok [OF assms(5) rq_index_less] rq.add_queue [OF assms(5) rq_index_less] by blast+
  then show ?thesis
    using assms by (auto simp: sched_add_def assert_def Let_def view_def v_add_def fun_eq_iff is_SA_def in_mem_def)
qed

lemma sched_rem_view:
  assumes "td_kse (the_td s t) = Some k" "ke_state (the_ke s k) = KES_ONRUNQ" "in_mem s (ke_proc (the_ke s k))" "v_queue (view s)"
  shows "\<exists>s'. sched_rem t s = Some s' \<and> view s' = v_rem k (view s)"
proof -
  let ?p = "ke_rqindex (the_ke s k)"
  have ok: "runq_ok (the_runq s)" and k: "k \<in> set (rq_queue (the_runq s) ?p)"
    using assms(2,4) by (simp_all add: v_queue_def)
  have p: "?p < RQ_NQS" using k by (simp add: rq_queue_def split: if_splits)
  obtain rq where "runq_remove (the_runq s) ?p k = Some rq" using rq.remove_some [OF ok p k] by blast
  moreover from this have "runq_ok rq" "rq_queue rq = (rq_queue (the_runq s))(?p := remove1 k (rq_queue (the_runq s) ?p))"
    using rq.remove_ok [OF ok p] rq.remove_queue [OF ok p] by blast+
  ultimately show ?thesis
    using assms ok by (auto simp: sched_rem_def assert_def Let_def view_def v_rem_def fun_eq_iff is_SA_def in_mem_def)
qed

lemma sched_choose_view:
  assumes "vinv {} {} (view s)"
  shows "sched_choose s = Some (s, None) \<and> (\<forall>k. ke_state (the_ke s k) \<noteq> KES_ONRUNQ) \<or>
    (\<exists>k t ks s'. flat (rq (view s)) RQ_NQS = k # ks \<and> ke_state (the_ke s k) = KES_ONRUNQ \<and> ke_thread (the_ke s k) = Some t \<and>
       sched_choose s = Some (s', Some k) \<and> view s' = v_rem k (view s))"
proof -
  have ok: "runq_ok (the_runq s)" using vinvD(1) [OF assms] by (simp add: v_queue_def)
  show ?thesis
  proof (cases "flat (rq_queue (the_runq s)) RQ_NQS")
    case Nil
    then have "k \<notin> set (flat (rq_queue (the_runq s)) RQ_NQS)" for k by simp
    then have "ke_state (the_ke s k) \<noteq> KES_ONRUNQ" for k
      using queue_iff [OF assms, of k "ri (view s) k"] onq_index [OF assms, of k] unfolding set_flat by auto
    then show ?thesis using rq.pick_first [OF ok] Nil by (simp add: sched_choose_def)
  next
    case (Cons k ks')
    then have "k \<in> set (flat (rq (view s)) RQ_NQS)" by simp
    then obtain p where p: "p < RQ_NQS" "k \<in> set (rq (view s) p)" unfolding set_flat by auto
    then have k: "ke_state (the_ke s k) = KES_ONRUNQ" "ke_rqindex (the_ke s k) = p" using queue_iff [OF assms, of k p] by auto
    obtain t where t: "ke_thread (the_ke s k) = Some t" "td_state (the_td s t) = TDS_RUNQ" using onq_thread [OF assms, of k] k by auto
    have tk: "td_kse (the_td s t) = Some k" using link_iff [OF assms, of t k] t by simp
    have mem: "in_mem s (ke_proc (the_ke s k))"
      using link_mem [OF assms, of k t] link_group [OF assms, of k t] runq_mem [OF assms, of t] t by simp
    have q: "k \<in> set (rq_queue (the_runq s) p)" using p(2) by simp
    obtain rq where "runq_remove (the_runq s) p k = Some rq" using rq.remove_some [OF ok p(1) q] by blast
    moreover from this have "runq_ok rq" "rq_queue rq = (rq_queue (the_runq s))(p := remove1 k (rq_queue (the_runq s) p))"
      using rq.remove_ok [OF ok p(1)] rq.remove_queue [OF ok p(1)] by blast+
    moreover have "runq_choose (the_runq s) = Some (Some k)" using rq.pick_first [OF ok] Cons by simp
    ultimately show ?thesis
      using Cons k t tk mem ok by (auto simp: sched_choose_def assert_def Let_def view_def v_rem_def fun_eq_iff is_SA_def in_mem_def)
  qed
qed

end
