(* ===== verification/Kern_Switch_Steps.thy ===== *)
theory Kern_Switch_Steps
  imports Kern_Switch_Inv
begin

text \<open>
  How the moves of threads and KSEs between the queues change the view, and that each keeps the invariant: a
  thread that starts to wait, a KSE taken from the thread itself, from the idle queue or from the last
  assigned thread, its assignment, and a thread that leaves the queue.
\<close>

section \<open>Lists\<close>

lemma tailq_next_last: "distinct (A @ B) \<Longrightarrow> A \<noteq> [] \<Longrightarrow> tailq_next (A @ B) (last A) = tailq_first B"
proof (induction A)
  case (Cons a A)
  then show ?case by (cases A) (auto simp: tailq_first_def)
qed simp

lemma tailq_prev_last:
  assumes "distinct (A @ B)" "A \<noteq> []"
  shows "tailq_prev (A @ B) (last A) = (if butlast A = [] then None else Some (last (butlast A)))"
proof -
  have A: "A = butlast A @ [last A]" using assms(2) by simp
  have r: "rev (A @ B) = (rev B @ [last A]) @ rev (butlast A)" by (subst A) simp
  have "distinct ((rev B @ [last A]) @ rev (butlast A))" using assms(1) unfolding r [symmetric] by auto
  then have "tailq_next ((rev B @ [last A]) @ rev (butlast A)) (last (rev B @ [last A])) = tailq_first (rev (butlast A))"
    by (rule tailq_next_last) simp
  then have "tailq_prev (A @ B) (last A) = tailq_first (rev (butlast A))" unfolding tailq_prev_def r by simp
  also have "\<dots> = (if butlast A = [] then None else Some (last (butlast A)))"
    by (cases "butlast A" rule: rev_cases) (auto simp: tailq_first_def)
  finally show ?thesis .
qed

lemma set_runq_insert [simp]: "set (runq_insert p t q) = insert t (set q)"
  by (induction q) auto

lemma distinct_runq_insert: "distinct (runq_insert p t q) \<longleftrightarrow> distinct q \<and> t \<notin> set q"
  by (induction q) auto

lemma runq_insert_ne [simp]: "runq_insert p t q \<noteq> []"
  by (cases q) auto

lemma sorted_runq_insert: "sorted (map p q) \<Longrightarrow> sorted (map p (runq_insert p t q))"
  by (induction q) (auto simp: not_less)

lemma runq_insert_front:
  "A \<noteq> [] \<Longrightarrow> p (last A) > p t \<Longrightarrow> runq_insert p t (A @ B) = runq_insert p t A @ B \<and> last (runq_insert p t A) = last A"
  by (induction A) auto

lemma runq_insert_back: "\<forall>a \<in> set A. p a \<le> p t \<Longrightarrow> runq_insert p t (A @ B) = A @ runq_insert p t B"
  by (induction A) (auto simp: not_less)

lemma sorted_last_max: "sorted (map p (A @ B)) \<Longrightarrow> p (last A) \<le> x \<Longrightarrow> \<forall>a \<in> set A. p a \<le> x"
  by (cases A rule: rev_cases) (auto simp: sorted_append intro: order.trans)

lemma runq_insert_cong: "(\<And>x. x \<in> insert t (set q) \<Longrightarrow> p x = p' x) \<Longrightarrow> runq_insert p t q = runq_insert p' t q"
  by (induction q) auto

lemma v_linkI:
  assumes "\<And>t k. tk v t = Some k \<longleftrightarrow> kt v k = Some t"
    "\<And>t k. kt v k = Some t \<Longrightarrow> kgr v k = tg v t \<and> (ks v k = KES_ONRUNQ \<or> ks v k = KES_THREAD)"
    "\<And>k. k \<in> Y \<Longrightarrow> ks v k = KES_THREAD \<and> kt v k = None" "\<And>k. ks v k = KES_THREAD \<Longrightarrow> k \<notin> Y \<Longrightarrow> kt v k \<noteq> None"
    "\<And>k t. kgr v k = tg v t \<Longrightarrow> kmem v k = tmem v t"
  shows "v_link Y v"
  using assms unfolding v_link_def by blast

lemma v_onqI:
  assumes "\<And>k. ks v k = KES_ONRUNQ \<Longrightarrow> \<exists>t. kt v k = Some t \<and> st v t = TDS_RUNQ \<and> t \<notin> X \<and> ri v k = rq_index (pr v t)"
    "\<And>t k. st v t = TDS_RUNQ \<Longrightarrow> t \<notin> X \<Longrightarrow> tk v t = Some k \<Longrightarrow> ks v k = KES_ONRUNQ"
  shows "v_onq X v"
  using assms unfolding v_onq_def by blast

lemma v_thread_cong:
  "v_thread X v \<Longrightarrow> qu v' = qu v \<Longrightarrow> tg v' = tg v \<Longrightarrow> st v' = st v \<Longrightarrow> sa v' = sa v \<Longrightarrow> tmem v' = tmem v \<Longrightarrow>
   (\<And>t. \<not> sa v t \<Longrightarrow> tk v' t = tk v t) \<Longrightarrow> v_thread X v'"
  unfolding v_thread_def by simp

lemma v_linkD:
  assumes "v_link Y v"
  shows "tk v t = Some k \<longleftrightarrow> kt v k = Some t"
    "kt v k = Some t \<Longrightarrow> kgr v k = tg v t \<and> (ks v k = KES_ONRUNQ \<or> ks v k = KES_THREAD)"
    "k \<in> Y \<Longrightarrow> ks v k = KES_THREAD \<and> kt v k = None" "ks v k = KES_THREAD \<Longrightarrow> k \<notin> Y \<Longrightarrow> kt v k \<noteq> None"
    "kgr v k = tg v t \<Longrightarrow> kmem v k = tmem v t"
  using assms unfolding v_link_def by blast+

definition v_unlink :: "tid \<Rightarrow> keid \<Rightarrow> sview \<Rightarrow> sview" where
  "v_unlink t k v = v\<lparr>tk := (tk v)(t := None), kt := (kt v)(k := None)\<rparr>"

definition v_tie :: "tid \<Rightarrow> keid \<Rightarrow> sview \<Rightarrow> sview" where
  "v_tie t k v = v\<lparr>tk := (tk v)(t := Some k), kt := (kt v)(k := Some t)\<rparr>"

lemma link_unlink:
  assumes i: "v_link Y v" and k: "tk v t = Some k" "ks v k = KES_THREAD"
  shows "v_link (insert k Y) (v_unlink t k v)"
proof (rule v_linkI)
  have kk: "kt v k = Some t" using v_linkD(1) [OF i] k by simp
  fix t' k'
  show "tk (v_unlink t k v) t' = Some k' \<longleftrightarrow> kt (v_unlink t k v) k' = Some t'"
    using v_linkD(1) [OF i, of t' k'] v_linkD(1) [OF i, of t k'] kk k(1) by (cases "t' = t"; cases "k' = k") (simp_all add: v_unlink_def)
  show "kt (v_unlink t k v) k' = Some t' \<Longrightarrow> kgr (v_unlink t k v) k' = tg (v_unlink t k v) t' \<and> (ks (v_unlink t k v) k' = KES_ONRUNQ \<or> ks (v_unlink t k v) k' = KES_THREAD)"
    using v_linkD(2) [OF i, of k' t'] by (auto simp: v_unlink_def split: if_splits)
  show "kgr (v_unlink t k v) k' = tg (v_unlink t k v) t' \<Longrightarrow> kmem (v_unlink t k v) k' = tmem (v_unlink t k v) t'"
    using v_linkD(5) [OF i, of k' t'] by (simp add: v_unlink_def)
next
  fix k'
  show "k' \<in> insert k Y \<Longrightarrow> ks (v_unlink t k v) k' = KES_THREAD \<and> kt (v_unlink t k v) k' = None"
    using k(2) v_linkD(3) [OF i, of k'] by (auto simp: v_unlink_def)
  show "ks (v_unlink t k v) k' = KES_THREAD \<Longrightarrow> k' \<notin> insert k Y \<Longrightarrow> kt (v_unlink t k v) k' \<noteq> None"
    using v_linkD(4) [OF i, of k'] by (simp add: v_unlink_def)
qed

lemma link_tie:
  assumes i: "v_link {k} v" and u: "tk v u = None" "kgr v k = tg v u"
  shows "v_link {} (v_tie u k v)"
proof (rule v_linkI)
  have k: "ks v k = KES_THREAD" "kt v k = None" using v_linkD(3) [OF i, of k] by auto
  fix t' k'
  show "tk (v_tie u k v) t' = Some k' \<longleftrightarrow> kt (v_tie u k v) k' = Some t'"
    using v_linkD(1) [OF i, of t' k'] v_linkD(1) [OF i, of u k'] v_linkD(1) [OF i, of t' k] k(2) u(1)
    by (cases "t' = u"; cases "k' = k") (simp_all add: v_tie_def)
  show "kt (v_tie u k v) k' = Some t' \<Longrightarrow> kgr (v_tie u k v) k' = tg (v_tie u k v) t' \<and> (ks (v_tie u k v) k' = KES_ONRUNQ \<or> ks (v_tie u k v) k' = KES_THREAD)"
    using v_linkD(2) [OF i, of k' t'] u(2) k(1) by (auto simp: v_tie_def split: if_splits)
  show "kgr (v_tie u k v) k' = tg (v_tie u k v) t' \<Longrightarrow> kmem (v_tie u k v) k' = tmem (v_tie u k v) t'"
    using v_linkD(5) [OF i, of k' t'] by (simp add: v_tie_def)
next
  fix k'
  show "k' \<in> {} \<Longrightarrow> ks (v_tie u k v) k' = KES_THREAD \<and> kt (v_tie u k v) k' = None" by simp
  show "ks (v_tie u k v) k' = KES_THREAD \<Longrightarrow> k' \<notin> {} \<Longrightarrow> kt (v_tie u k v) k' \<noteq> None"
    using v_linkD(4) [OF i, of k'] by (simp add: v_tie_def)
qed

text \<open>A change of the state of a KSE that has a thread.\<close>

lemma link_state:
  assumes i: "v_link Y v" and "kt v k = Some t" "x = KES_ONRUNQ \<or> x = KES_THREAD"
    and v: "tk v' = tk v" "kt v' = kt v" "kgr v' = kgr v" "tg v' = tg v" "kmem v' = kmem v" "tmem v' = tmem v" "ks v' = (ks v)(k := x)"
  shows "v_link Y v'"
proof (rule v_linkI)
  fix t' k'
  show "tk v' t' = Some k' \<longleftrightarrow> kt v' k' = Some t'" using v_linkD(1) [OF i, of t' k'] by (simp add: v)
  show "kt v' k' = Some t' \<Longrightarrow> kgr v' k' = tg v' t' \<and> (ks v' k' = KES_ONRUNQ \<or> ks v' k' = KES_THREAD)"
    using v_linkD(2) [OF i, of k' t'] assms(3) by (auto simp: v)
  show "kgr v' k' = tg v' t' \<Longrightarrow> kmem v' k' = tmem v' t'" using v_linkD(5) [OF i, of k' t'] by (simp add: v)
next
  fix k'
  show "k' \<in> Y \<Longrightarrow> ks v' k' = KES_THREAD \<and> kt v' k' = None" using v_linkD(3) [OF i, of k'] assms(2) by (auto simp: v)
  show "ks v' k' = KES_THREAD \<Longrightarrow> k' \<notin> Y \<Longrightarrow> kt v' k' \<noteq> None" using v_linkD(4) [OF i, of k'] assms(2) by (auto simp: v split: if_splits)
qed

section \<open>A thread starts to wait\<close>

definition v_start :: "tid \<Rightarrow> sview \<Rightarrow> sview" where
  "v_start t v = v\<lparr>st := (st v)(t := TDS_RUNQ), rn := (rn v)(tg v t := rn v (tg v t) + 1)\<rparr>"

lemma count_start:
  assumes "v_count v" "st v t \<noteq> TDS_RUNQ"
  shows "v_count (v_start t v)"
proof -
  have "{t'. st (v_start t v) t' = TDS_RUNQ} = insert t {t'. st v t' = TDS_RUNQ}" by (auto simp: v_start_def)
  moreover have "{t'. st (v_start t v) t' = TDS_RUNQ \<and> tg (v_start t v) t' = g} =
      (if g = tg v t then insert t {t'. st v t' = TDS_RUNQ \<and> tg v t' = g} else {t'. st v t' = TDS_RUNQ \<and> tg v t' = g})" for g
    using assms(2) by (auto simp: v_start_def)
  moreover have "finite {t'. st v t' = TDS_RUNQ \<and> tg v t' = g}" for g
    using assms(1) by (auto simp: v_count_def intro: finite_subset [where B = "{t'. st v t' = TDS_RUNQ}"])
  ultimately show ?thesis using assms by (auto simp: v_count_def v_start_def)
qed

lemma vinv_start:
  assumes i: "vinv {} Y v" and "st v t \<noteq> TDS_RUNQ" "tmem v t" "t \<noteq> idt v \<or> st v t \<noteq> TDS_INACTIVE" "sa v t \<or> st v t \<noteq> TDS_INACTIVE"
  shows "vinv {t} Y (v_start t v)"
proof (rule vinvI)
  note d = vinvD [OF i]
  show "v_queue (v_start t v)" using d(1) by (simp add: v_queue_def v_start_def)
  show "v_link Y (v_start t v)" using d(2) by (simp add: v_link_def v_start_def)
  have "ks v k = KES_ONRUNQ \<Longrightarrow> \<exists>t'. kt v k = Some t' \<and> st v t' = TDS_RUNQ \<and> t' \<noteq> t \<and> ri v k = rq_index (pr v t')" for k
    using onq_thread [OF i, of k] assms(2) by auto
  then show "v_onq {t} (v_start t v)" using onq_kse [OF i] by (simp add: v_onq_def v_start_def) metis
  show "v_idle (v_start t v)" using d(4) by (simp add: v_idle_def v_start_def)
  show "v_thread {t} (v_start t v)" using d(5) assms(2-) by (auto simp: v_thread_def v_start_def)
  show "v_group (v_start t v)" using d(6) by (simp add: v_group_def v_start_def)
  show "v_count (v_start t v)" by (rule count_start [OF d(7) assms(2)])
  show "v_cpu (v_start t v)" using d(8) by (auto simp: v_cpu_def v_start_def)
  show "v_est (v_start t v)" using d(9) by (simp add: v_est_def v_start_def)
qed

text \<open>The only thread of its KSE: the KSE goes on the run queue.\<close>

lemma vinv_add_plain:
  assumes i: "vinv {t} {} v" and "kt v k = Some t" "\<not> sa v t" "st v t = TDS_RUNQ"
  shows "vinv {} {} (v_add k t v)"
proof -
  note d = vinvD [OF i]
  have n: "ks v k \<noteq> KES_ONRUNQ" "ks v k \<noteq> KES_IDLE" using onq_thread [OF i, of k] link_group [OF i assms(2)] assms(2) by auto
  show ?thesis
  proof (rule vinvI)
    show "v_queue (v_add k t v)" by (rule v_add_queue [OF d(1) n(1)])
    show "v_link {} (v_add k t v)" using d(2) by (auto simp: v_link_def)
    have o': "ks v k' = KES_ONRUNQ \<Longrightarrow> k' \<noteq> k" for k' using n by auto
    have o: "st v t' = TDS_RUNQ \<Longrightarrow> tk v t' = Some k' \<Longrightarrow> k' \<noteq> k \<Longrightarrow> ks v k' = KES_ONRUNQ" for t' k'
      using onq_kse [OF i, of t' k'] link_iff [OF i, of t' k'] link_iff [OF i, of t k] assms(2) by (cases "t' = t") auto
    have o2: "ks v k' = KES_ONRUNQ \<Longrightarrow> \<exists>t'. kt v k' = Some t' \<and> st v t' = TDS_RUNQ \<and> ri v k' = rq_index (pr v t')" for k'
      using onq_thread [OF i, of k'] by blast
    show "v_onq {} (v_add k t v)" using o2 o assms(2,4) by (auto simp: v_onq_def)
    show "v_idle (v_add k t v)" using d(4) n by (auto simp: v_idle_def)
    show "v_thread {} (v_add k t v)" using d(5) assms(3) by (auto simp: v_thread_def)
    show "v_group (v_add k t v)" using d(6) by (simp add: v_group_def)
    show "v_count (v_add k t v)" using d(7) by (simp add: v_count_def)
    show "v_cpu (v_add k t v)" using d(8) by (simp add: v_cpu_def)
    show "v_est (v_add k t v)" using d(9) by (simp add: v_est_def)
  qed
qed

section \<open>A KSE becomes free\<close>

text \<open>From the thread itself.\<close>

lemma group_same:
  assumes "v_group v" "qu v' = qu v" "pr v' = pr v" "la v' = la v" "iq v' = iq v"
    "\<And>g t. t \<in> set (qu v g) \<Longrightarrow> tk v' t = tk v t"
  shows "v_group v'"
  unfolding v_group_def
proof (intro allI)
  fix g
  obtain A B where s: "qu v g = A @ B" "assigned (tk v) (la v g) (iq v g) A B" "distinct (qu v g)" "sorted (map (pr v) (qu v g))"
    using assms(1) unfolding v_group_def by blast
  have "assigned (tk v') (la v g) (iq v g) A B" using s(1,2) assms(6) [of _ g] by (auto simp: assigned_def)
  then show "distinct (qu v' g) \<and> sorted (map (pr v') (qu v' g)) \<and> (\<exists>A B. qu v' g = A @ B \<and> assigned (tk v') (la v' g) (iq v' g) A B)"
    using s assms(2-5) by auto
qed

lemma vinv_free:
  assumes i: "vinv X {} v" and k: "tk v t = Some k" "sa v t" "ks v k = KES_THREAD" "st v t \<noteq> TDS_RUNNING"
  shows "vinv X {k} (v_unlink t k v)"
proof (rule vinvI)
  note d = vinvD [OF i]
  show "v_queue (v_unlink t k v)" using d(1) by (simp add: v_queue_def v_unlink_def)
  show "v_link {k} (v_unlink t k v)" by (rule link_unlink [OF d(2) k(1,3)])
  show "v_onq X (v_unlink t k v)" using d(3) k(3) by (auto simp: v_onq_def v_unlink_def)
  show "v_idle (v_unlink t k v)" using d(4) by (simp add: v_idle_def v_unlink_def)
  show "v_thread X (v_unlink t k v)" using d(5) k(2) by (auto simp: v_thread_def v_unlink_def)
  have t: "t \<notin> set (qu v g)" for g using group_iff [OF i, of t g] onq_kse [OF i, of t k] k by auto
  show "v_group (v_unlink t k v)" by (rule group_same [OF d(6)]) (use t in \<open>auto simp: v_unlink_def\<close>)
  show "v_count (v_unlink t k v)" using d(7) by (simp add: v_count_def v_unlink_def)
  show "v_cpu (v_unlink t k v)" using d(8) k(4) by (auto simp: v_cpu_def v_unlink_def)
  show "v_est (v_unlink t k v)" using d(9) by (simp add: v_est_def v_unlink_def)
qed

lemma vinv_own:
  assumes i: "vinv {t} {} v" and k: "tk v t = Some k" "sa v t" and r: "st v t = TDS_RUNQ"
  shows "vinv {t} {k} (v_unlink t k v)"
proof (rule vinv_free [OF i k])
  show "st v t \<noteq> TDS_RUNNING" using r by simp
  have kk: "kt v k = Some t" using link_iff [OF i] k by simp
  show "ks v k = KES_THREAD" using link_group [OF i kk] onq_thread [OF i, of k] kk by auto
qed

text \<open>From the idle queue.\<close>

definition v_unidle :: "kgid \<Rightarrow> keid \<Rightarrow> sview \<Rightarrow> sview" where
  "v_unidle g k v = v\<lparr>iq := (iq v)(g := remove1 k (iq v g)), idl := (idl v)(g := idl v g - 1), ks := (ks v)(k := KES_THREAD)\<rparr>"

lemma vinv_unidle:
  assumes i: "vinv X {} v" and k: "k \<in> set (iq v g)"
  shows "vinv X {k} (v_unidle g k v)"
proof (rule vinvI)
  note d = vinvD [OF i]
  have ks: "ks v k = KES_IDLE" "kgr v k = g" using idle_iff [OF i] k by auto
  have kt: "kt v k = None" using link_group [OF i, of k] ks(1) by (cases "kt v k") auto
  show "v_queue (v_unidle g k v)" using d(1) ks by (auto simp: v_queue_def v_unidle_def)
  show "v_link {k} (v_unidle g k v)"
  proof (rule v_linkI)
    fix t' k'
    show "tk (v_unidle g k v) t' = Some k' \<longleftrightarrow> kt (v_unidle g k v) k' = Some t'" using v_linkD(1) [OF d(2), of t' k'] by (simp add: v_unidle_def)
    show "kt (v_unidle g k v) k' = Some t' \<Longrightarrow> kgr (v_unidle g k v) k' = tg (v_unidle g k v) t' \<and> (ks (v_unidle g k v) k' = KES_ONRUNQ \<or> ks (v_unidle g k v) k' = KES_THREAD)"
      using v_linkD(2) [OF d(2), of k' t'] by (auto simp: v_unidle_def)
    show "kgr (v_unidle g k v) k' = tg (v_unidle g k v) t' \<Longrightarrow> kmem (v_unidle g k v) k' = tmem (v_unidle g k v) t'"
      using v_linkD(5) [OF d(2), of k' t'] by (simp add: v_unidle_def)
  qed (use v_linkD(4) [OF d(2)] kt in \<open>auto simp: v_unidle_def split: if_splits\<close>)
  show "v_onq X (v_unidle g k v)" using d(3) ks by (auto simp: v_onq_def v_unidle_def)
  have "k' \<in> set (remove1 k (iq v g)) \<longleftrightarrow> k' \<noteq> k \<and> k' \<in> set (iq v g)" for k' using idle_count [OF i, of g] by auto
  moreover have "int (length (iq v g)) - 1 = int (length (remove1 k (iq v g)))" using k length_pos_if_in_set [OF k] by (auto simp: length_remove1 of_nat_diff Suc_le_eq)
  ultimately show "v_idle (v_unidle g k v)"
    using idle_iff [OF i] idle_count [OF i] ks by (auto simp: v_idle_def v_unidle_def)
  show "v_thread X (v_unidle g k v)" using d(5) by (auto simp: v_thread_def v_unidle_def)
  show "v_group (v_unidle g k v)"
    unfolding v_group_def
  proof (intro allI)
    fix g'
    obtain A B where s: "qu v g' = A @ B" "assigned (tk v) (la v g') (iq v g') A B" "distinct (A @ B)" "sorted (map (pr v) (A @ B))"
      using group_shape [OF i] .
    have "assigned (tk v) (la v g') (iq (v_unidle g k v) g') A B" using s(2) k by (auto simp: assigned_def v_unidle_def)
    then show "distinct (qu (v_unidle g k v) g') \<and> sorted (map (pr (v_unidle g k v)) (qu (v_unidle g k v) g')) \<and>
        (\<exists>A B. qu (v_unidle g k v) g' = A @ B \<and> assigned (tk (v_unidle g k v)) (la (v_unidle g k v) g') (iq (v_unidle g k v) g') A B)"
      using s by (auto simp: v_unidle_def)
  qed
  show "v_count (v_unidle g k v)" using d(7) by (simp add: v_count_def v_unidle_def)
  show "v_cpu (v_unidle g k v)" using d(8) by (simp add: v_cpu_def v_unidle_def)
  show "v_est (v_unidle g k v)" using d(9) by (simp add: v_est_def v_unidle_def)
qed

text \<open>From the last assigned thread.\<close>

definition v_steal :: "kgid \<Rightarrow> tid \<Rightarrow> keid \<Rightarrow> tid option \<Rightarrow> sview \<Rightarrow> sview" where
  "v_steal g a k l v = (v_unlink a k (v_rem k v))\<lparr>la := (la v)(g := l)\<rparr>"

lemma v_steal_simps [simp]:
  "st (v_steal g a k l v) = st v" "pr (v_steal g a k l v) = pr v" "tk (v_steal g a k l v) = (tk v)(a := None)" "tg (v_steal g a k l v) = tg v"
  "sa (v_steal g a k l v) = sa v" "tmem (v_steal g a k l v) = tmem v" "tsys (v_steal g a k l v) = tsys v" "kt (v_steal g a k l v) = (kt v)(k := None)"
  "ks (v_steal g a k l v) = (ks v)(k := KES_THREAD)" "kgr (v_steal g a k l v) = kgr v" "kmem (v_steal g a k l v) = kmem v"
  "qu (v_steal g a k l v) = qu v" "la (v_steal g a k l v) = (la v)(g := l)" "iq (v_steal g a k l v) = iq v" "idl (v_steal g a k l v) = idl v"
  "rn (v_steal g a k l v) = rn v" "est (v_steal g a k l v) = est v" "rok (v_steal g a k l v) = rok v" "ri (v_steal g a k l v) = ri v"
  "cur (v_steal g a k l v) = cur v" "idt (v_steal g a k l v) = idt v" "pan (v_steal g a k l v) = pan v" "lda (v_steal g a k l v) = lda v" "rq (v_steal g a k l v) = rq (v_rem k v)"
  by (simp_all add: v_steal_def v_unlink_def)

lemma v_queue_cong: "v_queue v \<Longrightarrow> rok v' = rok v \<Longrightarrow> rq v' = rq v \<Longrightarrow> ks v' = ks v \<Longrightarrow> ri v' = ri v \<Longrightarrow> v_queue v'"
  by (simp add: v_queue_def)

lemma v_link_cong:
  "v_link Y v \<Longrightarrow> tk v' = tk v \<Longrightarrow> kt v' = kt v \<Longrightarrow> kgr v' = kgr v \<Longrightarrow> tg v' = tg v \<Longrightarrow> ks v' = ks v \<Longrightarrow> kmem v' = kmem v \<Longrightarrow> tmem v' = tmem v \<Longrightarrow> v_link Y v'"
  unfolding v_link_def by simp

lemma vinv_steal:
  assumes i: "vinv X {} v" and q: "qu v g = A @ B" "assigned (tk v) (la v g) (iq v g) A B" and A: "A \<noteq> []" and k: "tk v (last A) = Some k"
    and l: "l = (if butlast A = [] then None else Some (last (butlast A)))" and idle: "iq v g = []"
  shows "vinv X {k} (v_steal g (last A) k l v)"
    "assigned ((tk v)(last A := None)) l (iq v g) (butlast A) (last A # B)"
proof -
  note d = vinvD [OF i]
  have kk: "kt v k = Some (last A)" using link_iff [OF i] k by simp
  have a: "last A \<in> set (qu v g)" using q(1) A by simp
  then have a': "tg v (last A) = g" "st v (last A) = TDS_RUNQ" "sa v (last A)" "last A \<notin> X" using group_iff [OF i] by auto
  have ks: "ks v k = KES_ONRUNQ" using onq_kse [OF i a'(2,4) k] .
  have dist: "distinct (A @ B)" "sorted (map (pr v) (A @ B))"
    using d(6) q(1) unfolding v_group_def by metis+
  have split: "A = butlast A @ [last A]" using A by simp
  have na: "last A \<notin> set (butlast A)" "last A \<notin> set B"
    using dist(1) by (subst (asm) split, simp)+
  have sub: "t \<in> set (butlast A) \<Longrightarrow> t \<in> set A" for t by (rule in_set_butlastD)
  show as: "assigned ((tk v)(last A := None)) l (iq v g) (butlast A) (last A # B)"
    using q(2) na sub idle unfolding assigned_def l by auto
  show "vinv X {k} (v_steal g (last A) k l v)"
  proof (rule vinvI)
    show "v_queue (v_steal g (last A) k l v)" by (rule v_queue_cong [OF v_rem_queue [OF d(1) ks]]) simp_all
    have "v_link {} (v_rem k v)" by (rule link_state [OF d(2) kk, of KES_THREAD]) simp_all
    then have "v_link {k} (v_unlink (last A) k (v_rem k v))" by (rule link_unlink) (simp_all add: k)
    then show "v_link {k} (v_steal g (last A) k l v)" by (rule v_link_cong) (simp_all add: v_unlink_def)
    show "v_onq X (v_steal g (last A) k l v)"
    proof (rule v_onqI)
      fix k' assume "ks (v_steal g (last A) k l v) k' = KES_ONRUNQ"
      then have n: "k' \<noteq> k" "ks v k' = KES_ONRUNQ" by (auto split: if_splits)
      then show "\<exists>t. kt (v_steal g (last A) k l v) k' = Some t \<and> st (v_steal g (last A) k l v) t = TDS_RUNQ \<and> t \<notin> X \<and>
          ri (v_steal g (last A) k l v) k' = rq_index (pr (v_steal g (last A) k l v) t)"
        using onq_thread [OF i n(2)] by simp
    next
      fix t k' assume t: "st (v_steal g (last A) k l v) t = TDS_RUNQ" "t \<notin> X" "tk (v_steal g (last A) k l v) t = Some k'"
      then have n: "t \<noteq> last A" "tk v t = Some k'" by (auto split: if_splits)
      then have "k' \<noteq> k" using link_iff [OF i, of t k'] kk by auto
      then show "ks (v_steal g (last A) k l v) k' = KES_ONRUNQ" using onq_kse [OF i, of t k'] t n by simp
    qed
    show "v_idle (v_steal g (last A) k l v)" using d(4) ks by (auto simp: v_idle_def)
    show "v_thread X (v_steal g (last A) k l v)"
      by (rule v_thread_cong [OF d(5)]) (use a'(3) in \<open>auto simp del: last_in_set\<close>)
    show "v_group (v_steal g (last A) k l v)"
      unfolding v_group_def
    proof (intro allI)
      fix g'
      obtain A' B' where s: "qu v g' = A' @ B'" "assigned (tk v) (la v g') (iq v g') A' B'" "distinct (qu v g')" "sorted (map (pr v) (qu v g'))"
        using d(6) unfolding v_group_def by blast
      have "\<exists>A1 B1. qu v g' = A1 @ B1 \<and> assigned ((tk v)(last A := None)) (((la v)(g := l)) g') (iq v g') A1 B1" if "g' = g"
      proof -
        have "qu v g = butlast A @ (last A # B)" unfolding q(1) by (subst split) simp
        then show ?thesis using as that by (intro exI conjI) (simp_all only: fun_upd_same)
      qed
      moreover have "assigned ((tk v)(last A := None)) (la v g') (iq v g') A' B'" if "g' \<noteq> g"
      proof -
        have "last A \<notin> set (A' @ B')" using group_iff [OF i, of "last A" g'] a'(1) that s(1) by auto
        then show ?thesis using s(2) unfolding assigned_def by auto
      qed
      ultimately show "distinct (qu (v_steal g (last A) k l v) g') \<and> sorted (map (pr (v_steal g (last A) k l v)) (qu (v_steal g (last A) k l v) g')) \<and>
          (\<exists>A' B. qu (v_steal g (last A) k l v) g' = A' @ B \<and>
             assigned (tk (v_steal g (last A) k l v)) (la (v_steal g (last A) k l v) g') (iq (v_steal g (last A) k l v) g') A' B)"
        using s by (cases "g' = g") auto
    qed
    show "v_count (v_steal g (last A) k l v)" using d(7) by (simp add: v_count_def)
    have "st v t = TDS_RUNNING \<Longrightarrow> t \<noteq> last A" for t using a'(2) by auto
    then show "v_cpu (v_steal g (last A) k l v)" using d(8) by (auto simp: v_cpu_def)
    show "v_est (v_steal g (last A) k l v)" using d(9) by (simp add: v_est_def)
  qed
qed

end
