(* ===== verification/Kern_Switch_Moves.thy ===== *)
theory Kern_Switch_Moves
  imports Kern_Switch_Steps
begin

text \<open>
  The remaining moves: a thread takes its place in the queue of its group, a free KSE is given to a queued
  thread or becomes idle, and a thread leaves the queue.
\<close>

lemma v_groupI:
  assumes "v_group v" and
    "\<And>g'. g' \<noteq> g \<Longrightarrow> qu v' g' = qu v g' \<and> la v' g' = la v g' \<and> iq v' g' = iq v g'"
    "\<And>g' t. g' \<noteq> g \<Longrightarrow> t \<in> set (qu v g') \<Longrightarrow> tk v' t = tk v t \<and> pr v' t = pr v t"
    "qu v' g = A @ B" "assigned (tk v') (la v' g) (iq v' g) A B" "distinct (A @ B)" "sorted (map (pr v') (A @ B))"
  shows "v_group v'"
  unfolding v_group_def
proof (intro allI)
  fix g'
  show "distinct (qu v' g') \<and> sorted (map (pr v') (qu v' g')) \<and> (\<exists>A B. qu v' g' = A @ B \<and> assigned (tk v') (la v' g') (iq v' g') A B)"
  proof (cases "g' = g")
    case True
    then show ?thesis using assms(4-7) by auto
  next
    case False
    obtain A' B' where s: "qu v g' = A' @ B'" "assigned (tk v) (la v g') (iq v g') A' B'" "distinct (qu v g')" "sorted (map (pr v) (qu v g'))"
      using assms(1) unfolding v_group_def by blast
    have m: "map (pr v') (qu v g') = map (pr v) (qu v g')" using assms(3) [OF False] by simp
    have "assigned (tk v') (la v g') (iq v g') A' B'"
      using s(1,2) assms(3) [OF False] by (auto simp: assigned_def)
    moreover have "sorted (map (pr v') (qu v' g'))" using s(4) assms(2) [OF False] unfolding m [symmetric] by simp
    ultimately show ?thesis using s(1,3) assms(2) [OF False] by auto
  qed
qed

text \<open>The shape of the queue of one group.\<close>

lemma shape:
  assumes "vinv X Y v"
  shows "\<exists>A B. qu v g = A @ B \<and> assigned (tk v) (la v g) (iq v g) A B \<and> distinct (A @ B) \<and> sorted (map (pr v) (A @ B))"
  using group_shape [OF assms] by metis

definition v_put :: "kgid \<Rightarrow> tid list \<Rightarrow> tid option \<Rightarrow> sview \<Rightarrow> sview" where
  "v_put g q l v = v\<lparr>qu := (qu v)(g := q), la := (la v)(g := l)\<rparr>"

lemma v_put_simps [simp]:
  "st (v_put g q l v) = st v" "pr (v_put g q l v) = pr v" "tk (v_put g q l v) = tk v" "tg (v_put g q l v) = tg v" "sa (v_put g q l v) = sa v"
  "tmem (v_put g q l v) = tmem v" "tsys (v_put g q l v) = tsys v" "kt (v_put g q l v) = kt v" "ks (v_put g q l v) = ks v"
  "kgr (v_put g q l v) = kgr v" "kmem (v_put g q l v) = kmem v" "qu (v_put g q l v) = (qu v)(g := q)" "la (v_put g q l v) = (la v)(g := l)"
  "iq (v_put g q l v) = iq v" "idl (v_put g q l v) = idl v" "rn (v_put g q l v) = rn v" "est (v_put g q l v) = est v" "rok (v_put g q l v) = rok v"
  "cur (v_put g q l v) = cur v" "idt (v_put g q l v) = idt v" "pan (v_put g q l v) = pan v" "lda (v_put g q l v) = lda v" "ri (v_put g q l v) = ri v" "rq (v_put g q l v) = rq v"
  by (simp_all add: v_put_def)

lemma v_tie_simps [simp]:
  "st (v_tie u k v) = st v" "pr (v_tie u k v) = pr v" "tk (v_tie u k v) = (tk v)(u := Some k)" "tg (v_tie u k v) = tg v" "sa (v_tie u k v) = sa v"
  "tmem (v_tie u k v) = tmem v" "tsys (v_tie u k v) = tsys v" "kt (v_tie u k v) = (kt v)(k := Some u)" "ks (v_tie u k v) = ks v"
  "kgr (v_tie u k v) = kgr v" "kmem (v_tie u k v) = kmem v" "qu (v_tie u k v) = qu v" "la (v_tie u k v) = la v"
  "iq (v_tie u k v) = iq v" "idl (v_tie u k v) = idl v" "rn (v_tie u k v) = rn v" "est (v_tie u k v) = est v" "rok (v_tie u k v) = rok v"
  "cur (v_tie u k v) = cur v" "idt (v_tie u k v) = idt v" "pan (v_tie u k v) = pan v" "lda (v_tie u k v) = lda v" "ri (v_tie u k v) = ri v" "rq (v_tie u k v) = rq v"
  by (simp_all add: v_tie_def)

section \<open>Into the queue of the group\<close>

lemma vinv_insert:
  assumes i: "vinv {t} {} v" and t: "sa v t" "tg v t = g" "st v t = TDS_RUNQ" "tk v t = None" and idle: "iq v g = []"
    and l: "\<And>a. la v g = Some a \<Longrightarrow> pr v a \<le> pr v t"
  shows "vinv {} {} (v_put g (runq_insert (pr v) t (qu v g)) (la v g) v)"
proof -
  note d = vinvD [OF i]
  let ?v = "v_put g (runq_insert (pr v) t (qu v g)) (la v g) v"
  obtain A B where s: "qu v g = A @ B" "assigned (tk v) (la v g) (iq v g) A B" "distinct (A @ B)" "sorted (map (pr v) (A @ B))"
    using shape [OF i] by metis
  have tn: "t \<notin> set (A @ B)" using group_iff [OF i, of t g] s(1) by simp
  have "\<forall>a \<in> set A. pr v a \<le> pr v t"
  proof (cases "A = []")
    case False
    then have "pr v (last A) \<le> pr v t" using s(2) l by (simp add: assigned_def)
    then show ?thesis using sorted_last_max [OF s(4)] by blast
  qed simp
  then have q: "runq_insert (pr v) t (A @ B) = A @ runq_insert (pr v) t B" by (rule runq_insert_back)
  show ?thesis
  proof (rule vinvI)
    show "v_queue ?v" by (rule v_queue_cong [OF d(1)]) simp_all
    show "v_link {} ?v" by (rule v_link_cong [OF d(2)]) simp_all
    show "v_onq {} ?v"
    proof (rule v_onqI)
      show "ks ?v k = KES_ONRUNQ \<Longrightarrow> \<exists>t. kt ?v k = Some t \<and> st ?v t = TDS_RUNQ \<and> t \<notin> {} \<and> ri ?v k = rq_index (pr ?v t)" for k
        using onq_thread [OF i, of k] by auto
      show "st ?v t' = TDS_RUNQ \<Longrightarrow> t' \<notin> {} \<Longrightarrow> tk ?v t' = Some k \<Longrightarrow> ks ?v k = KES_ONRUNQ" for t' k
        using onq_kse [OF i, of t' k] t(4) by (cases "t' = t") auto
    qed
    show "v_idle ?v" using d(4) by (simp add: v_idle_def)
    have "t' \<in> set (qu ?v g') \<longleftrightarrow> tg v t' = g' \<and> st v t' = TDS_RUNQ \<and> sa v t'" for g' t'
      using group_iff [OF i, of t' g'] t by auto
    then show "v_thread {} ?v" using d(5) by (simp add: v_thread_def)
    show "v_group ?v"
    proof (rule v_groupI [OF d(6), of g])
      show "qu ?v g = A @ runq_insert (pr v) t B" by (simp add: s(1) q)
      show "assigned (tk ?v) (la ?v g) (iq ?v g) A (runq_insert (pr v) t B)" using s(2) t(4) idle by (simp add: assigned_def)
      show "distinct (A @ runq_insert (pr v) t B)" unfolding q [symmetric] distinct_runq_insert using s(3) tn by simp
      show "sorted (map (pr ?v) (A @ runq_insert (pr v) t B))" unfolding q [symmetric] using sorted_runq_insert [OF s(4)] by simp
    qed simp_all
    show "v_count ?v" using d(7) by (simp add: v_count_def)
    show "v_cpu ?v" using d(8) by (simp add: v_cpu_def)
    show "v_est ?v" using d(9) by (simp add: v_est_def)
  qed
qed

text \<open>A free KSE is given to a queued thread, which may just have been inserted.\<close>

lemma vinv_assign:
  assumes i: "vinv X {k} v" and k: "kgr v k = g"
    and u: "tk v u = None" "u \<in> set A" and X: "\<And>x. x \<in> X \<Longrightarrow> tg v x = g \<and> sa v x \<and> st v x = TDS_RUNQ \<and> tk v x = None"
    and q: "set (A @ B) = set (qu v g) \<union> X" "distinct (A @ B)" "sorted (map (pr v) (A @ B))"
    and as: "assigned ((tk v)(u := Some k)) l (iq v g) A B"
  shows "vinv {} {} (v_add k u (v_tie u k (v_put g (A @ B) l v)))"
proof -
  note d = vinvD [OF i]
  let ?w = "v_tie u k (v_put g (A @ B) l v)" and ?v = "v_add k u (v_tie u k (v_put g (A @ B) l v))"
  have ks: "ks v k = KES_THREAD" "kt v k = None" using spare [OF i] by auto
  have "u \<in> set (qu v g) \<union> X" using u(2) q(1) by auto
  then have uu: "tg v u = g" "st v u = TDS_RUNQ" "sa v u" using group_iff [OF i, of u g] X [of u] by auto
  show ?thesis
  proof (rule vinvI)
    have "v_queue ?w" by (rule v_queue_cong [OF d(1)]) simp_all
    then show "v_queue ?v" by (rule v_add_queue) (simp add: ks)
    have "v_link {k} (v_put g (A @ B) l v)" by (rule v_link_cong [OF d(2)]) simp_all
    then have "v_link {} ?w" by (rule link_tie) (simp_all add: u(1) k uu(1))
    then show "v_link {} ?v" by (rule link_state [where k = k and t = u and x = KES_ONRUNQ]) simp_all
    show "v_onq {} ?v"
    proof (rule v_onqI)
      fix k' assume a: "ks ?v k' = KES_ONRUNQ"
      show "\<exists>t. kt ?v k' = Some t \<and> st ?v t = TDS_RUNQ \<and> t \<notin> {} \<and> ri ?v k' = rq_index (pr ?v t)"
      proof (cases "k' = k")
        case False
        then have "ks v k' = KES_ONRUNQ" using a by simp
        then show ?thesis using onq_thread [OF i, of k'] False by auto
      qed (simp add: uu)
    next
      fix t k' assume t: "st ?v t = TDS_RUNQ" "tk ?v t = Some k'"
      show "ks ?v k' = KES_ONRUNQ"
      proof (cases "t = u")
        case False
        then have "tk v t = Some k'" "t \<notin> X" using t(2) X [of t] by auto
        then show ?thesis using onq_kse [OF i, of t k'] t(1) by simp
      qed (use t in simp)
    qed
    show "v_idle ?v" using d(4) ks by (auto simp: v_idle_def)
    have "t' \<in> set (qu ?v g') \<longleftrightarrow> tg v t' = g' \<and> st v t' = TDS_RUNQ \<and> sa v t'" for g' t'
      using group_iff [OF i, of t' g'] X [of t'] q(1) by auto
    moreover have "\<not> sa v t \<Longrightarrow> t \<noteq> u" for t using uu(3) by auto
    ultimately show "v_thread {} ?v" using d(5) by (simp add: v_thread_def)
    show "v_group ?v"
    proof (rule v_groupI [OF d(6), of g])
      show "assigned (tk ?v) (la ?v g) (iq ?v g) A B" using as by simp
      show "g' \<noteq> g \<Longrightarrow> t \<in> set (qu v g') \<Longrightarrow> tk ?v t = tk v t \<and> pr ?v t = pr v t" for g' t
        using group_iff [OF i, of t g'] uu(1) by auto
    qed (use q in simp_all)
    show "v_count ?v" using d(7) by (simp add: v_count_def)
    show "v_cpu ?v" using d(8) by (simp add: v_cpu_def)
    show "v_est ?v" using d(9) by (simp add: v_est_def)
  qed
qed

text \<open>A free KSE that nobody needs becomes idle.\<close>

definition v_park :: "kgid \<Rightarrow> keid \<Rightarrow> sview \<Rightarrow> sview" where
  "v_park g k v = v\<lparr>ks := (ks v)(k := KES_IDLE), iq := (iq v)(g := iq v g @ [k]), idl := (idl v)(g := idl v g + 1)\<rparr>"

lemma vinv_park:
  assumes i: "vinv {} {k} v" and k: "kgr v k = g" and q: "\<And>t. t \<in> set (qu v g) \<Longrightarrow> tk v t \<noteq> None"
  shows "vinv {} {} (v_park g k v)"
proof -
  note d = vinvD [OF i]
  have ks: "ks v k = KES_THREAD" "kt v k = None" using spare [OF i] by auto
  let ?v = "v_park g k v"
  show ?thesis
  proof (rule vinvI)
    show "v_queue ?v" using d(1) ks by (auto simp: v_queue_def v_park_def)
    show "v_link {} ?v"
    proof (rule v_linkI)
      fix t' k'
      show "tk ?v t' = Some k' \<longleftrightarrow> kt ?v k' = Some t'" using v_linkD(1) [OF d(2), of t' k'] by (simp add: v_park_def)
      show "kt ?v k' = Some t' \<Longrightarrow> kgr ?v k' = tg ?v t' \<and> (ks ?v k' = KES_ONRUNQ \<or> ks ?v k' = KES_THREAD)"
        using v_linkD(2) [OF d(2), of k' t'] ks(2) by (auto simp: v_park_def)
      show "kgr ?v k' = tg ?v t' \<Longrightarrow> kmem ?v k' = tmem ?v t'" using v_linkD(5) [OF d(2), of k' t'] by (simp add: v_park_def)
    qed (use v_linkD(4) [OF d(2)] in \<open>auto simp: v_park_def split: if_splits\<close>)
    show "v_onq {} ?v" using d(3) ks by (auto simp: v_onq_def v_park_def)
    have "k \<notin> set (iq v g')" for g' using idle_iff [OF i, of k g'] ks by simp
    then show "v_idle ?v" using idle_iff [OF i] idle_count [OF i] k by (auto simp: v_idle_def v_park_def)
    show "v_thread {} ?v" by (rule v_thread_cong [OF d(5)]) (simp_all add: v_park_def)
    obtain A B where s: "qu v g = A @ B" "assigned (tk v) (la v g) (iq v g) A B" "distinct (A @ B)" "sorted (map (pr v) (A @ B))"
      using shape [OF i] by metis
    have "B = []"
    proof (rule ccontr)
      assume "B \<noteq> []"
      then have "hd B \<in> set (qu v g)" "tk v (hd B) = None" using s(1,2) by (auto simp: assigned_def)
      then show False using q by simp
    qed
    show "v_group ?v"
    proof (rule v_groupI [OF d(6), of g])
      show "qu ?v g = A @ []" using s(1) \<open>B = []\<close> by (simp add: v_park_def)
      show "assigned (tk ?v) (la ?v g) (iq ?v g) A []" using s(2) by (simp add: assigned_def v_park_def)
    qed (use s \<open>B = []\<close> in \<open>simp_all add: v_park_def\<close>)
    show "v_count ?v" using d(7) by (simp add: v_count_def v_park_def)
    show "v_cpu ?v" using d(8) by (simp add: v_cpu_def v_park_def)
    show "v_est ?v" using d(9) by (simp add: v_est_def v_park_def)
  qed
qed

section \<open>Out of the queue\<close>

lemma shape_remove:
  assumes a: "assigned f l idle A B" and d: "distinct (A @ B)" and l': "l' = (if l = Some t then tailq_prev (A @ B) t else l)"
  shows "\<exists>A' B'. remove1 t (A @ B) = A' @ B' \<and> assigned f l' idle A' B'"
proof (cases "t \<in> set A")
  case True
  then obtain A0 x where A: "A = A0 @ [x]" by (cases A rule: rev_cases) auto
  then have l: "l = Some x" using a by (simp add: assigned_def)
  have r: "remove1 t (A @ B) = remove1 t A @ B" using True by (simp add: remove1_append)
  have "l' = (if remove1 t A = [] then None else Some (last (remove1 t A)))"
  proof (cases "t = x")
    case eq: True
    have "t \<notin> set A0" using d eq unfolding A by simp
    then have "remove1 t A = A0" unfolding A eq by (simp add: remove1_append)
    then show ?thesis using l' l eq tailq_prev_last [OF d] A by simp
  next
    case False
    then have "remove1 t A = remove1 t A0 @ [x]" using True unfolding A by (simp add: remove1_append)
    then show ?thesis using l' l False by simp
  qed
  moreover have "\<forall>x \<in> set (remove1 t A). f x \<noteq> None" using a set_remove1_subset [of t A] by (auto simp: assigned_def)
  ultimately have "assigned f l' idle (remove1 t A) B" using a by (simp add: assigned_def)
  then show ?thesis using r by blast
next
  case False
  then have "l \<noteq> Some t" using a last_in_set [of A] by (auto simp: assigned_def)
  then have "assigned f l' idle A (remove1 t B)" using a l' set_remove1_subset [of t B] by (auto simp: assigned_def)
  moreover have "remove1 t (A @ B) = A @ remove1 t B" using False by (simp add: remove1_append)
  ultimately show ?thesis by blast
qed

definition v_stop :: "tid \<Rightarrow> sview \<Rightarrow> sview" where
  "v_stop t v = (let g = tg v t in
     (v_put g (remove1 t (qu v g)) (if la v g = Some t then tailq_prev (qu v g) t else la v g) v)
       \<lparr>st := (st v)(t := TDS_CAN_RUN), rn := (rn v)(g := rn v g - 1)\<rparr>)"

lemma v_stop_simps [simp]:
  "st (v_stop t v) = (st v)(t := TDS_CAN_RUN)" "pr (v_stop t v) = pr v" "tk (v_stop t v) = tk v" "tg (v_stop t v) = tg v" "sa (v_stop t v) = sa v"
  "tmem (v_stop t v) = tmem v" "tsys (v_stop t v) = tsys v" "kt (v_stop t v) = kt v" "ks (v_stop t v) = ks v"
  "kgr (v_stop t v) = kgr v" "kmem (v_stop t v) = kmem v" "qu (v_stop t v) = (qu v)(tg v t := remove1 t (qu v (tg v t)))"
  "la (v_stop t v) = (la v)(tg v t := if la v (tg v t) = Some t then tailq_prev (qu v (tg v t)) t else la v (tg v t))"
  "iq (v_stop t v) = iq v" "idl (v_stop t v) = idl v" "rn (v_stop t v) = (rn v)(tg v t := rn v (tg v t) - 1)" "est (v_stop t v) = est v" "rok (v_stop t v) = rok v"
  "cur (v_stop t v) = cur v" "idt (v_stop t v) = idt v" "pan (v_stop t v) = pan v" "lda (v_stop t v) = lda v" "ri (v_stop t v) = ri v" "rq (v_stop t v) = rq v"
  by (simp_all add: v_stop_def Let_def)

lemma count_stop:
  assumes "v_count v" "st v t = TDS_RUNQ"
  shows "v_count (v_stop t v)"
proof -
  have "{t'. st (v_stop t v) t' = TDS_RUNQ} = {t'. st v t' = TDS_RUNQ} - {t}" by auto
  moreover have "{t'. st (v_stop t v) t' = TDS_RUNQ \<and> tg (v_stop t v) t' = g} = {t'. st v t' = TDS_RUNQ \<and> tg v t' = g} - {t}" for g
    by auto
  moreover have fin: "finite {t'. st v t' = TDS_RUNQ \<and> tg v t' = g}" for g
    using assms(1) by (auto simp: v_count_def intro: finite_subset [where B = "{t'. st v t' = TDS_RUNQ}"])
  moreover have "int (card ({t'. st v t' = TDS_RUNQ \<and> tg v t' = g} - {t})) =
      (if g = tg v t then int (card {t'. st v t' = TDS_RUNQ \<and> tg v t' = g}) - 1 else int (card {t'. st v t' = TDS_RUNQ \<and> tg v t' = g}))" for g
  proof (cases "g = tg v t")
    case True
    then have "t \<in> {t'. st v t' = TDS_RUNQ \<and> tg v t' = g}" using assms(2) by simp
    then show ?thesis using True card_Suc_Diff1 [OF fin [of g], of t] by simp
  qed auto
  ultimately show ?thesis using assms(1) by (simp add: v_count_def)
qed

lemma group_stop:
  assumes i: "vinv {} {} v" and t: "st v t = TDS_RUNQ"
    and v: "qu v' = qu (v_stop t v)" "la v' = la (v_stop t v)" "iq v' = iq v" "tk v' = tk v" "pr v' = pr v"
  shows "v_group v'"
proof -
  obtain A B where s: "qu v (tg v t) = A @ B" "assigned (tk v) (la v (tg v t)) (iq v (tg v t)) A B" "distinct (A @ B)" "sorted (map (pr v) (A @ B))"
    using shape [OF i] by metis
  obtain A' B' where r: "remove1 t (A @ B) = A' @ B'" "assigned (tk v) (if la v (tg v t) = Some t then tailq_prev (A @ B) t else la v (tg v t)) (iq v (tg v t)) A' B'"
    using shape_remove [OF s(2,3) refl] by blast
  show ?thesis
  proof (rule v_groupI [OF vinvD(6) [OF i], of "tg v t"])
    show "qu v' (tg v t) = A' @ B'" using s(1) r(1) v by simp
    show "assigned (tk v') (la v' (tg v t)) (iq v' (tg v t)) A' B'"
      using r(2) by (simp only: v v_stop_simps fun_upd_same s(1))
    show "distinct (A' @ B')" unfolding r(1) [symmetric] using s(3) by (rule distinct_remove1)
    show "sorted (map (pr v') (A' @ B'))" unfolding r(1) [symmetric] v(5) using sorted_map_remove1 [OF s(4)] .
  qed (use v in simp_all)
qed

lemma thread_stop:
  assumes i: "vinv {} {} v" and t: "st v t = TDS_RUNQ"
    and v: "qu v' = qu (v_stop t v)" "st v' = st (v_stop t v)" "tk v' = tk v" "tg v' = tg v" "sa v' = sa v" "tmem v' = tmem v"
  shows "v_thread {} v'"
proof -
  have "distinct (qu v g)" for g using vinvD(6) [OF i] unfolding v_group_def by blast
  then have "t' \<in> set (qu v' g) \<longleftrightarrow> tg v' t' = g \<and> st v' t' = TDS_RUNQ \<and> sa v' t'" for g t'
    using group_iff [OF i, of t' g] by (auto simp: v)
  moreover have "\<not> sa v t' \<Longrightarrow> st v' t' \<noteq> TDS_INACTIVE \<Longrightarrow> tk v t' \<noteq> None" for t'
    using plain_kse [OF i, of t'] t by (cases "t' = t") (auto simp: v)
  moreover have "st v' t' = TDS_RUNQ \<Longrightarrow> tmem v t'" for t' using runq_mem [OF i, of t'] by (auto simp: v split: if_splits)
  ultimately show ?thesis by (simp add: v_thread_def v)
qed

lemma cpu_stop:
  assumes "v_cpu v" "st v' = st (v_stop t v)" "tk v' = tk v" "sa v' = sa v" "tsys v' = tsys v" "tmem v' = tmem v" "cur v' = cur v" "idt v' = idt v"
  shows "v_cpu v'"
  using assms(1) unfolding v_cpu_def assms(2-) by auto

text \<open>A thread without a KSE.\<close>

lemma vinv_leave:
  assumes i: "vinv {} {} v" and t: "st v t = TDS_RUNQ" "tk v t = None"
  shows "vinv {} {} (v_stop t v)"
proof (rule vinvI)
  note d = vinvD [OF i]
  show "v_queue (v_stop t v)" by (rule v_queue_cong [OF d(1)]) simp_all
  show "v_link {} (v_stop t v)" by (rule v_link_cong [OF d(2)]) simp_all
  show "v_onq {} (v_stop t v)"
  proof (rule v_onqI)
    show "\<exists>t'. kt (v_stop t v) k = Some t' \<and> st (v_stop t v) t' = TDS_RUNQ \<and> t' \<notin> {} \<and> ri (v_stop t v) k = rq_index (pr (v_stop t v) t')"
      if "ks (v_stop t v) k = KES_ONRUNQ" for k
    proof -
      have "ks v k = KES_ONRUNQ" using that by simp
      then obtain t' where "kt v k = Some t'" "st v t' = TDS_RUNQ" "ri v k = rq_index (pr v t')" using onq_thread [OF i, of k] by blast
      moreover from this have "t' \<noteq> t" using link_iff [OF i, of t' k] t(2) by auto
      ultimately show ?thesis by simp
    qed
    show "st (v_stop t v) t' = TDS_RUNQ \<Longrightarrow> t' \<notin> {} \<Longrightarrow> tk (v_stop t v) t' = Some k \<Longrightarrow> ks (v_stop t v) k = KES_ONRUNQ" for t' k
      using onq_kse [OF i, of t' k] by (auto split: if_splits)
  qed
  show "v_idle (v_stop t v)" using d(4) by (simp add: v_idle_def)
  show "v_thread {} (v_stop t v)" by (rule thread_stop [OF i t(1)]) simp_all
  show "v_group (v_stop t v)" by (rule group_stop [OF i t(1)]) simp_all
  show "v_count (v_stop t v)" by (rule count_stop [OF d(7) t(1)])
  show "v_cpu (v_stop t v)" by (rule cpu_stop [OF d(8)]) simp_all
  show "v_est (v_stop t v)" using d(9) by (simp add: v_est_def)
qed

text \<open>A thread with its KSE: both leave.\<close>

lemma vinv_dequeue:
  assumes i: "vinv {} {} v" and t: "st v t = TDS_RUNQ" "tk v t = Some k"
  shows "vinv {} {} (v_rem k (v_stop t v))"
proof (rule vinvI)
  note d = vinvD [OF i]
  let ?v = "v_rem k (v_stop t v)"
  have kk: "kt v k = Some t" using link_iff [OF i] t(2) by simp
  have ks: "ks v k = KES_ONRUNQ" using onq_kse [OF i t(1) _ t(2)] by simp
  have "v_queue (v_stop t v)" by (rule v_queue_cong [OF d(1)]) simp_all
  then show "v_queue ?v" by (rule v_rem_queue) (simp add: ks)
  show "v_link {} ?v" by (rule link_state [OF d(2) kk, of KES_THREAD]) simp_all
  show "v_onq {} ?v"
  proof (rule v_onqI)
    show "\<exists>t'. kt ?v k' = Some t' \<and> st ?v t' = TDS_RUNQ \<and> t' \<notin> {} \<and> ri ?v k' = rq_index (pr ?v t')" if "ks ?v k' = KES_ONRUNQ" for k'
    proof -
      have k': "k' \<noteq> k" "ks v k' = KES_ONRUNQ" using that by (auto split: if_splits)
      obtain t' where t': "kt v k' = Some t'" "st v t' = TDS_RUNQ" "ri v k' = rq_index (pr v t')" using onq_thread [OF i k'(2)] by blast
      have "t' \<noteq> t" using link_iff [OF i, of t k'] link_iff [OF i, of t k] t'(1) k'(1) kk by auto
      then show ?thesis using t' by simp
    qed
    show "ks ?v k' = KES_ONRUNQ" if "st ?v t' = TDS_RUNQ" "t' \<notin> {}" "tk ?v t' = Some k'" for t' k'
    proof -
      have t': "t' \<noteq> t" "st v t' = TDS_RUNQ" "tk v t' = Some k'" using that by (auto split: if_splits)
      then have "k' \<noteq> k" using link_iff [OF i, of t' k'] kk by auto
      then show ?thesis using onq_kse [OF i t'(2) _ t'(3)] by simp
    qed
  qed
  show "v_idle ?v" using d(4) ks by (auto simp: v_idle_def)
  show "v_thread {} ?v" by (rule thread_stop [OF i t(1)]) simp_all
  show "v_group ?v" by (rule group_stop [OF i t(1)]) simp_all
  show "v_count ?v" using count_stop [OF d(7) t(1)] by (simp add: v_count_def)
  show "v_cpu ?v" by (rule cpu_stop [OF d(8)]) simp_all
  show "v_est ?v" using d(9) by (simp add: v_est_def)
qed

end
