(* ===== verification/Kern_Switch_Calls.thy ===== *)
theory Kern_Switch_Calls
  imports Kern_Switch_Moves
begin

text \<open>
  Every operation of the scheduler succeeds in a state that satisfies the invariant (no assertion fails, no NULL is
  dereferenced) and keeps it.
\<close>

definition vframe :: "sview \<Rightarrow> sview \<Rightarrow> bool" where
  "vframe v v' \<longleftrightarrow> tg v' = tg v \<and> sa v' = sa v \<and> tmem v' = tmem v \<and> tsys v' = tsys v \<and> kgr v' = kgr v \<and>
     kmem v' = kmem v \<and> est v' = est v \<and> cur v' = cur v \<and> idt v' = idt v \<and> pan v' = pan v \<and> lda v' = lda v"

lemmas view_upd = view_def fun_eq_iff is_SA_def in_mem_def

section \<open>Where the KSE comes from\<close>

lemma setrunqueue_ke_ok:
  assumes i: "vinv {t} {} (view s)" and t: "td_state (the_td s t) = TDS_RUNQ" "is_SA s t" "td_ksegrp (the_td s t) = g"
  obtains s' ke tda where "setrunqueue_ke t g s = Some (s', ke, tda)" "tda = kg_last_assigned (the_kg s' g)" "td_kse (the_td s' t) = None"
    "vframe (view s) (view s')" "st (view s') = st (view s)" "pr (view s') = pr (view s)" "qu (view s') = qu (view s)"
    "case ke of None \<Rightarrow> s' = s \<and> kg_iq (the_kg s g) = [] \<and> (\<forall>a. tda = Some a \<longrightarrow> prio s a \<le> prio s t)
     | Some k \<Rightarrow> vinv {t} {k} (view s') \<and> ke_ksegrp (the_ke s' k) = g"
proof -
  have count: "kg_idle_kses (the_kg s g) = int (length (kg_iq (the_kg s g)))" using idle_count [OF i, of g] by simp
  consider (own) k where "td_kse (the_td s t) = Some k"
    | (idle) "td_kse (the_td s t) = None" "kg_iq (the_kg s g) \<noteq> []"
    | (steal) a where "td_kse (the_td s t) = None" "kg_iq (the_kg s g) = []" "kg_last_assigned (the_kg s g) = Some a" "prio s a > prio s t"
    | (none) "td_kse (the_td s t) = None" "kg_iq (the_kg s g) = []" "\<forall>a. kg_last_assigned (the_kg s g) = Some a \<longrightarrow> prio s a \<le> prio s t"
    by (metis not_None_eq not_le)
  then show thesis
  proof cases
    case own
    let ?s = "upd_td t (\<lambda>t. t\<lparr>td_kse := None\<rparr>) (upd_ke k (\<lambda>k. k\<lparr>ke_thread := None\<rparr>) s)"
    have v: "view ?s = v_unlink t k (view s)" by (auto simp: view_upd v_unlink_def)
    have kt: "kt (view s) k = Some t" using link_iff [OF i, of t k] own by simp
    have i': "vinv {t} {k} (view ?s)" unfolding v by (rule vinv_own [OF i]) (simp_all add: own t)
    show thesis
    proof (rule that)
      show "setrunqueue_ke t g s = Some (?s, Some k, kg_last_assigned (the_kg s g))" using own by (simp add: setrunqueue_ke_def Let_def)
      show "case Some k of None \<Rightarrow> ?s = s \<and> kg_iq (the_kg s g) = [] \<and> (\<forall>a. kg_last_assigned (the_kg s g) = Some a \<longrightarrow> prio s a \<le> prio s t)
        | Some k \<Rightarrow> vinv {t} {k} (view ?s) \<and> ke_ksegrp (the_ke ?s k) = g"
        using i' link_group [OF i kt] t(3) by simp
    qed (auto simp: v vframe_def v_unlink_def)
  next
    case idle
    then obtain k where k: "tailq_first (kg_iq (the_kg s g)) = Some k" "k \<in> set (iq (view s) g)"
      by (cases "kg_iq (the_kg s g)") (auto simp: tailq_first_def)
    let ?s = "upd_ke k (\<lambda>k. k\<lparr>ke_state := KES_THREAD\<rparr>)
       (upd_kg g (\<lambda>g. g\<lparr>kg_iq := remove1 k (kg_iq g), kg_idle_kses := kg_idle_kses g - 1\<rparr>) s)"
    have v: "view ?s = v_unidle g k (view s)" by (auto simp: view_upd v_unidle_def)
    have i': "vinv {t} {k} (view ?s)" unfolding v by (rule vinv_unidle [OF i k(2)])
    show thesis
    proof (rule that)
      show "setrunqueue_ke t g s = Some (?s, Some k, kg_last_assigned (the_kg s g))"
        using idle k(1) count by (simp add: setrunqueue_ke_def Let_def)
      show "case Some k of None \<Rightarrow> ?s = s \<and> kg_iq (the_kg s g) = [] \<and> (\<forall>a. kg_last_assigned (the_kg s g) = Some a \<longrightarrow> prio s a \<le> prio s t)
        | Some k \<Rightarrow> vinv {t} {k} (view ?s) \<and> ke_ksegrp (the_ke ?s k) = g"
        using i' idle_iff [OF i, of k g] k(2) by simp
    qed (use idle in \<open>auto simp: v vframe_def v_unidle_def\<close>)
  next
    case steal
    obtain A B where q: "qu (view s) g = A @ B" "assigned (tk (view s)) (la (view s) g) (iq (view s) g) A B" "distinct (A @ B)"
      using shape [OF i] by metis
    have A: "A \<noteq> []" "a = last A" using q(2) steal(3) by (auto simp: assigned_def split: if_splits)
    then obtain k where k: "tk (view s) (last A) = Some k" using q(2) last_in_set [OF A(1)] unfolding assigned_def by blast
    have a: "a \<in> set (qu (view s) g)" using A q(1) by simp
    have aa: "td_state (the_td s a) = TDS_RUNQ" "a \<noteq> t" using group_iff [OF i, of a g] a by auto
    have kt: "kt (view s) k = Some a" using link_iff [OF i, of a k] k A by simp
    have onq: "ke_state (the_ke s k) = KES_ONRUNQ" using onq_kse [OF i, of a k] aa k A by simp
    have mem: "in_mem s (ke_proc (the_ke s k))"
      using link_mem [OF i, of k a] link_group [OF i kt] runq_mem [OF i, of a] aa by simp
    obtain s1 where s1: "sched_rem a s = Some s1" "view s1 = v_rem k (view s)"
      using sched_rem_view [of s a k] k A onq mem vinvD(1) [OF i] by auto
    have qs1: "kg_runq (the_kg s1 g) = A @ B" using arg_cong [OF s1(2), of "\<lambda>v. qu v g"] q(1) by simp
    let ?l = "tailq_prev (A @ B) a"
    let ?s = "upd_kg g (\<lambda>g. g\<lparr>kg_last_assigned := ?l\<rparr>) (upd_ke k (\<lambda>k. k\<lparr>ke_thread := None\<rparr>) (upd_td a (\<lambda>t. t\<lparr>td_kse := None\<rparr>) s1))"
    have "view ?s = (v_unlink a k (view s1))\<lparr>la := (la (view s1))(g := ?l)\<rparr>" by (auto simp: view_upd v_unlink_def)
    then have v: "view ?s = v_steal g a k ?l (view s)" by (simp add: s1(2) v_steal_def)
    have l: "?l = (if butlast A = [] then None else Some (last (butlast A)))" unfolding A(2) by (rule tailq_prev_last [OF q(3) A(1)])
    have idle: "iq (view s) g = []" using steal(2) by simp
    have i': "vinv {t} {k} (view ?s)" unfolding v unfolding A(2) by (rule vinv_steal(1) [OF i q(1,2) A(1) k _ idle]) (use l A(2) in simp)
    show thesis
    proof (rule that)
      show "setrunqueue_ke t g s = Some (?s, Some k, ?l)"
        using steal count k A s1(1) qs1 by (simp add: setrunqueue_ke_def Let_def)
      show "?l = kg_last_assigned (the_kg ?s g)" by simp
      show "td_kse (the_td ?s t) = None" using arg_cong [OF v, of "\<lambda>v. tk v t"] steal(1) by (simp split: if_splits)
      have "kgr (view ?s) k = g" using link_group [OF i kt] group_iff [OF i, of a g] a unfolding v by simp
      then show "case Some k of None \<Rightarrow> ?s = s \<and> kg_iq (the_kg s g) = [] \<and> (\<forall>b. ?l = Some b \<longrightarrow> prio s b \<le> prio s t)
        | Some k \<Rightarrow> vinv {t} {k} (view ?s) \<and> ke_ksegrp (the_ke ?s k) = g"
        using i' by simp
    qed (simp_all only: v, simp_all add: vframe_def)
  next
    case none
    show thesis
    proof (rule that)
      show "setrunqueue_ke t g s = Some (s, None, kg_last_assigned (the_kg s g))"
        using none count by (auto simp: setrunqueue_ke_def Let_def not_less split: option.split)
    qed (use none in \<open>auto simp: vframe_def\<close>)
  qed
qed

section \<open>Whom it goes to\<close>

text \<open>The shape of the queue after the thread was inserted and the KSE given away: \<open>u\<close> gets it.\<close>

lemma assign_shape:
  assumes as: "assigned f l idle A B" and t: "f t = None" "t \<notin> set (A @ B)" and s: "sorted (map p (A @ B))" and d: "distinct (A @ B)"
  obtains (first) u B' where "l = None" "A = []" "runq_insert p t (A @ B) = [u] @ B'" "f u = None" "assigned (f(u := Some k)) (Some u) idle [u] B'"
    | (before) a A' where "l = Some a" "p t < p a" "runq_insert p t (A @ B) = A' @ B" "t \<in> set A'" "assigned (f(t := Some k)) l idle A' B"
    | (after) a u B' where "l = Some a" "\<not> p t < p a" "runq_insert p t (A @ B) = (A @ [u]) @ B'"
       "tailq_next (runq_insert p t (A @ B)) a = Some u" "f u = None" "assigned (f(u := Some k)) (Some u) idle (A @ [u]) B'"
proof -
  obtain u B' where u: "runq_insert p t B = u # B'" by (cases "runq_insert p t B") auto
  have B: "f x = None" if "x \<in> set (u # B')" for x using that as t unfolding u [symmetric] by (auto simp: assigned_def)
  have dist: "distinct (u # B')" using t d unfolding u [symmetric] by (simp add: distinct_runq_insert)
  have nB: "idle \<noteq> [] \<Longrightarrow> B' = []" using as u by (auto simp: assigned_def)
  have B': "\<forall>x \<in> set B'. (f(u := Some k)) x = None" using B dist by auto
  show thesis
  proof (cases l)
    case None
    then have "A = []" using as by (auto simp: assigned_def split: if_splits)
    then show ?thesis using None u B [of u] B' nB by (intro first [of u B']) (auto simp: assigned_def)
  next
    case (Some a)
    then have A: "A \<noteq> []" "a = last A" using as by (auto simp: assigned_def split: if_splits)
    show ?thesis
    proof (cases "p t < p a")
      case True
      then have r: "runq_insert p t (A @ B) = runq_insert p t A @ B" "last (runq_insert p t A) = last A"
        using runq_insert_front [OF A(1), of p t B] A(2) by auto
      have "assigned (f(t := Some k)) l idle (runq_insert p t A) B" using as t r(2) A unfolding assigned_def by auto
      then show ?thesis using before [OF Some True r(1)] by simp
    next
      case False
      then have "\<forall>x \<in> set A. p x \<le> p t" using sorted_last_max [OF s] A(2) by simp
      then have r: "runq_insert p t (A @ B) = A @ runq_insert p t B" by (rule runq_insert_back)
      have "distinct (A @ runq_insert p t B)" using d t unfolding r [symmetric] by (simp add: distinct_runq_insert)
      then have "tailq_next (runq_insert p t (A @ B)) a = Some u"
        unfolding r using tailq_next_last [of A "runq_insert p t B"] A u by (simp add: tailq_first_def)
      moreover have "assigned (f(u := Some k)) (Some u) idle (A @ [u]) B'" using as B' nB by (auto simp: assigned_def)
      ultimately show ?thesis using after [OF Some False, of u B'] r u B [of u] by simp
    qed
  qed
qed

lemma setrunqueue_assign_ok:
  assumes i: "vinv {t} {k} (view s)" and t: "td_state (the_td s t) = TDS_RUNQ" "is_SA s t" "td_ksegrp (the_td s t) = g" "td_kse (the_td s t) = None"
    and k: "ke_ksegrp (the_ke s k) = g"
  shows "\<exists>s'. setrunqueue_assign t g k (kg_last_assigned (the_kg s g)) (upd_kg g (\<lambda>g. g\<lparr>kg_runq := runq_insert (prio s) t (kg_runq g)\<rparr>) s) = Some s' \<and>
     vinv {} {} (view s') \<and> vframe (view s) (view s') \<and> st (view s') = st (view s) \<and> pr (view s') = pr (view s) \<and>
     qu (view s') = (qu (view s))(g := runq_insert (prio s) t (qu (view s) g))"
proof -
  let ?s2 = "upd_kg g (\<lambda>g. g\<lparr>kg_runq := runq_insert (prio s) t (kg_runq g)\<rparr>) s"
  have prio: "pr (view s) = prio s" "prio ?s2 = prio s" by (auto simp: prio_def)
  obtain A B where q: "qu (view s) g = A @ B" "assigned (tk (view s)) (la (view s) g) (iq (view s) g) A B"
      "distinct (A @ B)" "sorted (map (prio s) (A @ B))"
    using shape [OF i] prio by metis
  have tn: "t \<notin> set (A @ B)" using group_iff [OF i, of t g] q(1) by simp
  let ?q = "runq_insert (prio s) t (A @ B)"
  have mem: "in_mem s (ke_proc (the_ke s k))" using link_mem [OF i, of k t] runq_mem [OF i, of t] t k by simp
  have ok: "runq_ok (the_runq s)" using vinvD(1) [OF i] by (simp add: v_queue_def)
  have ks: "ke_state (the_ke s k) = KES_THREAD" using spare [OF i, of k] by simp
  have q2: "kg_runq (the_kg ?s2 g) = ?q" using q(1) by simp
  text \<open>Once the receiver and the new pointer are known, the rest is the same.\<close>
  have finish: "\<exists>s'. sched_add u s3 = Some s' \<and> vinv {} {} (view s') \<and> vframe (view s) (view s') \<and> st (view s') = st (view s) \<and>
      pr (view s') = pr (view s) \<and> qu (view s') = (qu (view s))(g := runq_insert (prio s) t (qu (view s) g))"
    if s3: "view s3 = v_tie u k (v_put g ?q l (view s))" and u: "tk (view s) u = None" "u \<in> set A'" "?q = A' @ B'"
      "assigned ((tk (view s))(u := Some k)) l (iq (view s) g) A' B'" for s3 u l A' B'
  proof -
    have f: "td_kse (the_td s3 u) = Some k" "ke_thread (the_ke s3 k) = Some u" "ke_state (the_ke s3 k) = KES_THREAD" "runq_ok (the_runq s3)"
        "in_mem s3 (ke_proc (the_ke s3 k))"
      using arg_cong [OF s3, of "\<lambda>v. tk v u"] arg_cong [OF s3, of "\<lambda>v. kt v k"] arg_cong [OF s3, of "\<lambda>v. ks v k"] arg_cong [OF s3, of rok]
        arg_cong [OF s3, of "\<lambda>v. kmem v k"] ks ok mem by simp_all
    obtain s' where s': "sched_add u s3 = Some s'" "view s' = v_add k u (v_tie u k (v_put g ?q l (view s)))"
      using sched_add_view [OF f(1,2) _ f(5,4)] f(3) s3 by auto
    have "vinv {} {} (v_add k u (v_tie u k (v_put g (A' @ B') l (view s))))"
    proof (rule vinv_assign [OF i])
      show "set (A' @ B') = set (qu (view s) g) \<union> {t}" unfolding u(3) [symmetric] q(1) by simp
      show "distinct (A' @ B')" unfolding u(3) [symmetric] distinct_runq_insert using q(3) tn by simp
      show "sorted (map (pr (view s)) (A' @ B'))" unfolding u(3) [symmetric] prio using sorted_runq_insert [OF q(4)] .
    qed (use u t k in auto)
    moreover have "curthread s' = curthread s" "idlethread s' = idlethread s" "panicstr s' = panicstr s" "sched_averunnable s' = sched_averunnable s" using arg_cong [OF s'(2), of cur] arg_cong [OF s'(2), of idt] arg_cong [OF s'(2), of pan] arg_cong [OF s'(2), of lda] by simp_all
    ultimately show ?thesis using s' u(3) q(1) by (simp add: vframe_def)
  qed
  have tkn: "tk (view s) t = None" using t(4) by simp
  show ?thesis
  proof (cases rule: assign_shape [OF q(2) tkn tn q(4,3), of k, case_names first before after])
    case (first u B')
    let ?s3 = "upd_ke k (\<lambda>k. k\<lparr>ke_thread := Some u\<rparr>) (upd_td u (\<lambda>t. t\<lparr>td_kse := Some k\<rparr>) (upd_kg g (\<lambda>g. g\<lparr>kg_last_assigned := Some u\<rparr>) ?s2))"
    have v3: "view ?s3 = v_tie u k (v_put g ?q (Some u) (view s))" using q(1) by (auto simp: view_upd v_tie_def v_put_def)
    have code: "setrunqueue_assign t g k (kg_last_assigned (the_kg s g)) ?s2 = sched_add u ?s3"
      using first q2 by (simp add: setrunqueue_assign_def tailq_first_def assert_def Let_def)
    show ?thesis unfolding code by (rule finish [OF v3 first(4) _ first(3,5)]) simp
  next
    case (before a A')
    let ?s3 = "upd_ke k (\<lambda>k. k\<lparr>ke_thread := Some t\<rparr>) (upd_td t (\<lambda>t. t\<lparr>td_kse := Some k\<rparr>) ?s2)"
    have v3: "view ?s3 = v_tie t k (v_put g ?q (la (view s) g) (view s))" using q(1) by (auto simp: view_upd v_tie_def v_put_def)
    have code: "setrunqueue_assign t g k (kg_last_assigned (the_kg s g)) ?s2 = sched_add t ?s3"
      using before by (simp add: setrunqueue_assign_def assert_def Let_def prio(2))
    show ?thesis unfolding code by (rule finish [OF v3 tkn before(4,3,5)])
  next
    case (after a u B')
    let ?s3 = "upd_ke k (\<lambda>k. k\<lparr>ke_thread := Some u\<rparr>) (upd_td u (\<lambda>t. t\<lparr>td_kse := Some k\<rparr>) (upd_kg g (\<lambda>g. g\<lparr>kg_last_assigned := Some u\<rparr>) ?s2))"
    have v3: "view ?s3 = v_tie u k (v_put g ?q (Some u) (view s))" using q(1) by (auto simp: view_upd v_tie_def v_put_def)
    have code: "setrunqueue_assign t g k (kg_last_assigned (the_kg s g)) ?s2 = sched_add u ?s3"
      using after q2 by (simp add: setrunqueue_assign_def assert_def Let_def prio(2))
    show ?thesis unfolding code by (rule finish [OF v3 after(5) _ after(3,6)]) simp
  qed
qed

end
