(* ===== verification/Kern_Switch_Run.thy ===== *)
theory Kern_Switch_Run
  imports Kern_Switch_Calls
begin

text \<open>
  The operations as wholes: a thread made runnable, its priority changed, a KSE passed on, the next
  thread chosen, the switch, the wakeup and the recomputation once a second.
\<close>

section \<open>setrunqueue\<close>

text \<open>The queues of the groups after \<open>t\<close> was queued.\<close>

definition queued :: "tid \<Rightarrow> sview \<Rightarrow> kgid \<Rightarrow> tid list" where
  "queued t v = (if sa v t then (qu v)(tg v t := runq_insert (pr v) t (qu v (tg v t))) else qu v)"

text \<open>An unthreaded thread brings its KSE, which goes on the system run queue.\<close>

lemma setrunqueue_plain:
  assumes i: "vinv {} {} (view s)" and t: "td_state (the_td s t) = TDS_CAN_RUN \<or> td_state (the_td s t) = TDS_RUNNING"
    and mem: "in_mem s (td_proc (the_td s t))" and sa: "\<not> is_SA s t" and k: "td_kse (the_td s t) = Some k"
  shows "\<exists>s'. setrunqueue t s = Some s' \<and> vinv {} {} (view s') \<and> view s' = v_add k t (v_start t (view s))"
proof -
  let ?g = "td_ksegrp (the_td s t)"
  let ?s1 = "upd_kg ?g (\<lambda>g. g\<lparr>kg_runnable := kg_runnable g + 1\<rparr>) (upd_td t (\<lambda>t. t\<lparr>td_state := TDS_RUNQ\<rparr>) s)"
  have v1: "view ?s1 = v_start t (view s)" by (auto simp: view_upd v_start_def)
  have i1: "vinv {t} {} (view ?s1)" unfolding v1 by (rule vinv_start [OF i]) (use t mem in auto)
  have kt: "kt (view ?s1) k = Some t" using link_iff [OF i1, of t k] k by simp
  have ks: "ke_state (the_ke s k) \<noteq> KES_ONRUNQ" using onq_thread [OF i1, of k] kt by auto
  have mem': "in_mem ?s1 (ke_proc (the_ke ?s1 k))"
    using link_mem [OF i1, of k t] link_group [OF i1 kt] mem by (simp add: in_mem_def)
  have ok: "runq_ok (the_runq s)" using vinvD(1) [OF i] by (simp add: v_queue_def)
  obtain s' where s': "sched_add t ?s1 = Some s'" "view s' = v_add k t (view ?s1)"
    using sched_add_view [of ?s1 t k, OF _ _ _ mem'] k kt ks ok by auto
  have "vinv {} {} (view s')" unfolding s'(2) by (rule vinv_add_plain [OF i1 kt]) (use sa in \<open>simp_all add: is_SA_def\<close>)
  moreover have "setrunqueue t s = Some s'" using t s'(1) sa by (auto simp: setrunqueue_def assert_def Let_def is_SA_def)
  ultimately show ?thesis using s'(2) v1 by auto
qed

lemma setrunqueue_ok:
  assumes i: "vinv {} {} (view s)" and t: "td_state (the_td s t) = TDS_CAN_RUN \<or> td_state (the_td s t) = TDS_RUNNING"
    and mem: "in_mem s (td_proc (the_td s t))"
  shows "\<exists>s'. setrunqueue t s = Some s' \<and> vinv {} {} (view s') \<and> vframe (view s) (view s') \<and>
    st (view s') = (st (view s))(t := TDS_RUNQ) \<and> pr (view s') = pr (view s) \<and> qu (view s') = queued t (view s)"
proof -
  let ?g = "td_ksegrp (the_td s t)"
  let ?s1 = "upd_kg ?g (\<lambda>g. g\<lparr>kg_runnable := kg_runnable g + 1\<rparr>) (upd_td t (\<lambda>t. t\<lparr>td_state := TDS_RUNQ\<rparr>) s)"
  have v1: "view ?s1 = v_start t (view s)" by (auto simp: view_upd v_start_def)
  have i1: "vinv {t} {} (view ?s1)" unfolding v1 by (rule vinv_start [OF i]) (use t mem in auto)
  have f1: "vframe (view s) (view ?s1)" "st (view ?s1) = (st (view s))(t := TDS_RUNQ)" "pr (view ?s1) = pr (view s)" "qu (view ?s1) = qu (view s)"
    unfolding v1 by (simp_all add: vframe_def v_start_def)
  have sa1: "is_SA ?s1 t = is_SA s t" by (simp add: is_SA_def)
  show ?thesis
  proof (cases "is_SA s t")
    case False
    then obtain k where k: "td_kse (the_td s t) = Some k" using plain_kse [OF i, of t] t by auto
    obtain s' where s': "setrunqueue t s = Some s'" "vinv {} {} (view s')" "view s' = v_add k t (v_start t (view s))"
      using setrunqueue_plain [OF i t mem False k] by blast
    have "vframe (view s) (view s') \<and> st (view s') = (st (view s))(t := TDS_RUNQ) \<and> pr (view s') = pr (view s) \<and> qu (view s') = queued t (view s)"
      unfolding s'(3) using False by (simp add: vframe_def queued_def v_start_def)
    then show ?thesis using s'(1,2) by blast
  next
    case True
    obtain s2 ke tda where s2: "setrunqueue_ke t ?g ?s1 = Some (s2, ke, tda)" "tda = kg_last_assigned (the_kg s2 ?g)" "td_kse (the_td s2 t) = None"
        "vframe (view ?s1) (view s2)" "st (view s2) = st (view ?s1)" "pr (view s2) = pr (view ?s1)" "qu (view s2) = qu (view ?s1)"
        "case ke of None \<Rightarrow> s2 = ?s1 \<and> kg_iq (the_kg ?s1 ?g) = [] \<and> (\<forall>a. tda = Some a \<longrightarrow> prio ?s1 a \<le> prio ?s1 t)
         | Some k \<Rightarrow> vinv {t} {k} (view s2) \<and> ke_ksegrp (the_ke s2 k) = ?g"
      by (rule setrunqueue_ke_ok [OF i1]) (use True in \<open>auto simp: is_SA_def\<close>)
    let ?s3 = "upd_kg ?g (\<lambda>g. g\<lparr>kg_runq := runq_insert (prio s2) t (kg_runq g)\<rparr>) s2"
    have p2: "prio s2 = pr (view s)" using s2(6) f1(3) by (auto simp: prio_def fun_eq_iff)
    have code: "setrunqueue t s = (case ke of None \<Rightarrow> Some ?s3 | Some ke \<Rightarrow> setrunqueue_assign t ?g ke tda ?s3)"
      using t True s2(1) by (auto simp: setrunqueue_def assert_def Let_def is_SA_def split: option.split)
    have q: "queued t (view s) = (qu (view s2))(?g := runq_insert (prio s2) t (qu (view s2) ?g))"
      using s2(7) f1(4) True by (simp add: queued_def p2)
    show ?thesis
    proof (cases ke)
      case None
      then have e: "s2 = ?s1" "kg_iq (the_kg s ?g) = []" "\<And>a. kg_last_assigned (the_kg s ?g) = Some a \<Longrightarrow> pr (view s) a \<le> pr (view s) t"
        using s2(2,8) by (auto simp: prio_def split: if_splits)
      have v3: "view ?s3 = v_put ?g (runq_insert (pr (view ?s1)) t (qu (view ?s1) ?g)) (la (view ?s1) ?g) (view ?s1)"
        unfolding e(1) by (auto simp: view_upd v_put_def prio_def [abs_def])
      have "vinv {} {} (view ?s3)" unfolding v3
        by (rule vinv_insert [OF i1]) (use e(2,3) s2(3) True in \<open>auto simp: e(1) is_SA_def\<close>)
      moreover have "vframe (view s) (view ?s3)" "st (view ?s3) = (st (view s))(t := TDS_RUNQ)" "pr (view ?s3) = pr (view s)"
          "qu (view ?s3) = queued t (view s)"
        unfolding q unfolding v3 using f1 by (simp_all add: vframe_def e(1) p2 prio_def [abs_def] view_def)
      ultimately show ?thesis using code None by auto
    next
      case (Some k)
      then have i2: "vinv {t} {k} (view s2)" "ke_ksegrp (the_ke s2 k) = ?g" using s2(8) by auto
      have t2: "td_state (the_td s2 t) = TDS_RUNQ" "is_SA s2 t" "td_ksegrp (the_td s2 t) = ?g"
        using arg_cong [OF s2(5), of "\<lambda>f. f t"] s2(4) f1(1) True by (auto simp: vframe_def fun_eq_iff dest!: fun_cong [where x = t])
      show ?thesis
        using setrunqueue_assign_ok [OF i2(1) t2 s2(3) i2(2)] s2(4-7) f1 code Some q s2(2) by (auto simp: vframe_def)
    qed
  qed
qed

section \<open>kse_reassign\<close>

lemma kse_reassign_ok:
  assumes i: "vinv {} {} (view s)" and t: "td_kse (the_td s t) = Some k" "td_state (the_td s t) = TDS_INHIBITED" "is_SA s t"
  shows "\<exists>s'. kse_reassign k s = Some s' \<and> vinv {} {} (view s') \<and> vframe (view s) (view s') \<and>
    st (view s') = st (view s) \<and> pr (view s') = pr (view s) \<and> qu (view s') = qu (view s)"
proof -
  let ?g = "ke_ksegrp (the_ke s k)"
  let ?w = "v_unlink t k (view s)"
  have kt: "ke_thread (the_ke s k) = Some t" using link_iff [OF i, of t k] t by simp
  have ks: "ke_state (the_ke s k) = KES_THREAD"
    using link_group [OF i, of k t] onq_thread [OF i, of k] kt t by auto
  have iw: "vinv {} {k} ?w" by (rule vinv_free [OF i]) (use t ks in simp_all)
  have w: "qu ?w = qu (view s)" "la ?w = la (view s)" "iq ?w = iq (view s)" "kgr ?w k = ?g" "pr ?w = pr (view s)" "st ?w = st (view s)"
    by (simp_all add: v_unlink_def)
  obtain A B where q: "qu ?w ?g = A @ B" "assigned (tk ?w) (la ?w ?g) (iq ?w ?g) A B" "distinct (A @ B)" "sorted (map (pr ?w) (A @ B))"
    using shape [OF iw] by metis
  have first: "(case kg_last_assigned (the_kg s ?g) of Some a \<Rightarrow> tailq_next (kg_runq (the_kg s ?g)) a | None \<Rightarrow> tailq_first (kg_runq (the_kg s ?g))) = tailq_first B"
    using q(1-3) tailq_next_last [OF q(3)] by (auto simp: w assigned_def split: if_splits)
  show ?thesis
  proof (cases B)
    case Nil
    let ?s = "upd_kg ?g (\<lambda>g. g\<lparr>kg_iq := kg_iq g @ [k], kg_idle_kses := kg_idle_kses g + 1\<rparr>)
       (upd_ke k (\<lambda>k. k\<lparr>ke_state := KES_IDLE, ke_thread := None\<rparr>) (upd_td t (\<lambda>t. t\<lparr>td_kse := None\<rparr>) s))"
    have "kse_reassign k s = Some ?s"
      using first Nil kt t by (cases "kg_last_assigned (the_kg s ?g)") (simp_all add: kse_reassign_def assert_def Let_def tailq_first_def)
    moreover have v: "view ?s = v_park ?g k ?w" by (auto simp: view_upd v_park_def v_unlink_def)
    moreover have "vinv {} {} (view ?s)" unfolding v
      by (rule vinv_park [OF iw w(4)]) (use q(1,2) Nil in \<open>auto simp: assigned_def\<close>)
    moreover have "vframe (view s) (view ?s) \<and> st (view ?s) = st (view s) \<and> pr (view ?s) = pr (view s) \<and> qu (view ?s) = qu (view s)"
      unfolding v by (simp add: vframe_def v_park_def v_unlink_def)
    ultimately show ?thesis by auto
  next
    case (Cons u B')
    let ?s = "upd_ke k (\<lambda>k. k\<lparr>ke_thread := Some u\<rparr>) (upd_td u (\<lambda>t. t\<lparr>td_kse := Some k\<rparr>)
        (upd_kg ?g (\<lambda>g. g\<lparr>kg_last_assigned := Some u\<rparr>) (upd_td t (\<lambda>t. t\<lparr>td_kse := None\<rparr>) s)))"
    have code: "kse_reassign k s = sched_add u ?s"
      using first Cons kt t by (cases "kg_last_assigned (the_kg s ?g)") (simp_all add: kse_reassign_def assert_def Let_def tailq_first_def)
    have u: "u \<in> set (qu (view s) ?g)" "tk ?w u = None" using q(1,2) Cons by (auto simp: w assigned_def)
    then have ut: "u \<noteq> t" "td_state (the_td s u) = TDS_RUNQ" "td_ksegrp (the_td s u) = ?g" using group_iff [OF i, of u ?g] t by auto
    have v: "view ?s = v_tie u k (v_put ?g (A @ B) (Some u) ?w)"
      using q(1) ut(1) by (auto simp: w view_upd v_tie_def v_put_def v_unlink_def)
    have mem: "in_mem s (ke_proc (the_ke s k))" using link_mem [OF i, of k u] runq_mem [OF i, of u] ut by simp
    have ok: "runq_ok (the_runq s)" using vinvD(1) [OF i] by (simp add: v_queue_def)
    have mem': "in_mem ?s (ke_proc (the_ke ?s k))" using mem by (simp add: in_mem_def)
    obtain s' where s': "sched_add u ?s = Some s'" "view s' = v_add k u (view ?s)"
      using sched_add_view [of ?s u k, OF _ _ _ mem'] ks ok by auto
    have AB: "A @ B = (A @ [u]) @ B'" using Cons by simp
    have un: "u \<notin> set B'" using q(3) Cons by auto
    have "vinv {} {} (view s')" unfolding s'(2) v AB
    proof (rule vinv_assign [OF iw w(4) u(2)])
      show "set ((A @ [u]) @ B') = set (qu ?w ?g) \<union> {}" using q(1) Cons by simp
      show "distinct ((A @ [u]) @ B')" "sorted (map (pr ?w) ((A @ [u]) @ B'))" using q(3,4) unfolding AB by auto
      show "assigned ((tk ?w)(u := Some k)) (Some u) (iq ?w ?g) (A @ [u]) B'" using q(2) Cons un by (auto simp: assigned_def)
    qed auto
    moreover have "vframe (view s) (view s') \<and> st (view s') = st (view s) \<and> pr (view s') = pr (view s) \<and> qu (view s') = qu (view s)"
      unfolding s'(2) v using q(1) by (auto simp: vframe_def v_unlink_def w)
    ultimately show ?thesis using code s'(1) by auto
  qed
qed

section \<open>Changes of priority\<close>

lemma group_prio:
  assumes "v_group v" "\<And>g. t \<notin> set (qu v g)" "qu v' = qu v" "la v' = la v" "iq v' = iq v" "tk v' = tk v" "pr v' = (pr v)(t := p)"
  shows "v_group v'"
  unfolding v_group_def
proof (intro allI)
  fix g
  have "map (pr v') (qu v g) = map (pr v) (qu v g)" using assms(2) [of g] assms(7) by auto
  then show "distinct (qu v' g) \<and> sorted (map (pr v') (qu v' g)) \<and> (\<exists>A B. qu v' g = A @ B \<and> assigned (tk v') (la v' g) (iq v' g) A B)"
    using assms(1) unfolding v_group_def assms(3-6) by metis
qed

lemma vinv_prio:
  assumes i: "vinv {} {} v" and t: "st v t \<noteq> TDS_RUNQ \<or> \<not> sa v t \<and> (\<forall>k. tk v t = Some k \<longrightarrow> ri v k = rq_index p)"
  shows "vinv {} {} (v\<lparr>pr := (pr v)(t := p)\<rparr>)" (is "vinv {} {} ?v")
proof (rule vinvI)
  note d = vinvD [OF i]
  show "v_queue ?v" by (rule v_queue_cong [OF d(1)]) simp_all
  show "v_link {} ?v" by (rule v_link_cong [OF d(2)]) simp_all
  show "v_onq {} ?v"
  proof (rule v_onqI)
    fix k assume "ks ?v k = KES_ONRUNQ"
    then obtain t' where t': "kt v k = Some t'" "st v t' = TDS_RUNQ" "ri v k = rq_index (pr v t')" using onq_thread [OF i, of k] by auto
    then have "t' = t \<Longrightarrow> ri v k = rq_index p" using t link_iff [OF i, of t k] by auto
    then show "\<exists>t. kt ?v k = Some t \<and> st ?v t = TDS_RUNQ \<and> t \<notin> {} \<and> ri ?v k = rq_index (pr ?v t)" using t' by (intro exI [of _ t']) auto
  next
    show "st ?v t' = TDS_RUNQ \<Longrightarrow> t' \<notin> {} \<Longrightarrow> tk ?v t' = Some k \<Longrightarrow> ks ?v k = KES_ONRUNQ" for t' k using onq_kse [OF i, of t' k] by simp
  qed
  show "v_idle ?v" using d(4) by (simp add: v_idle_def)
  show "v_thread {} ?v" by (rule v_thread_cong [OF d(5)]) simp_all
  have "t \<notin> set (qu v g)" for g using group_iff [OF i, of t g] t by auto
  then show "v_group ?v" by (rule group_prio [OF d(6)]) simp_all
  show "v_count ?v" using d(7) by (simp add: v_count_def)
  show "v_cpu ?v" using d(8) by (simp add: v_cpu_def)
  show "v_est ?v" using d(9) by (simp add: v_est_def)
qed

text \<open>The KSE of an unthreaded thread is moved between the system queues.\<close>

lemma vinv_requeue:
  assumes i: "vinv {} {} v" and t: "st v t = TDS_RUNQ" "\<not> sa v t" "tk v t = Some k"
  shows "vinv {} {} (v_add k t (v_rem k (v\<lparr>pr := (pr v)(t := p)\<rparr>)))"
proof -
  let ?v = "v_rem k (v\<lparr>pr := (pr v)(t := p)\<rparr>)"
  note d = vinvD [OF i]
  have kt: "kt v k = Some t" using link_iff [OF i, of t k] t(3) by simp
  have ks: "ks v k = KES_ONRUNQ" using onq_kse [OF i t(1) _ t(3)] by simp
  have "vinv {t} {} ?v"
  proof (rule vinvI)
    have "v_queue (v\<lparr>pr := (pr v)(t := p)\<rparr>)" by (rule v_queue_cong [OF d(1)]) simp_all
    then show "v_queue ?v" by (rule v_rem_queue) (simp add: ks)
    show "v_link {} ?v" by (rule link_state [OF d(2) kt, of KES_THREAD]) simp_all
    show "v_onq {t} ?v"
    proof (rule v_onqI)
      fix k' assume "ks ?v k' = KES_ONRUNQ"
      then have k': "k' \<noteq> k" "ks v k' = KES_ONRUNQ" by (auto split: if_splits)
      obtain t' where t': "kt v k' = Some t'" "st v t' = TDS_RUNQ" "ri v k' = rq_index (pr v t')" using onq_thread [OF i k'(2)] by blast
      have "t' \<noteq> t" using link_iff [OF i, of t k'] link_iff [OF i, of t k] t'(1) k'(1) kt by auto
      then show "\<exists>t'. kt ?v k' = Some t' \<and> st ?v t' = TDS_RUNQ \<and> t' \<notin> {t} \<and> ri ?v k' = rq_index (pr ?v t')"
        using t' by (intro exI [of _ t']) simp
    next
      fix t' k' assume "st ?v t' = TDS_RUNQ" "t' \<notin> {t}" "tk ?v t' = Some k'"
      then have t': "t' \<noteq> t" "st v t' = TDS_RUNQ" "tk v t' = Some k'" by auto
      then have "k' \<noteq> k" using link_iff [OF i, of t' k'] kt by auto
      then show "ks ?v k' = KES_ONRUNQ" using onq_kse [OF i t'(2) _ t'(3)] by simp
    qed
    show "v_idle ?v" using d(4) ks by (auto simp: v_idle_def)
    show "v_thread {t} ?v" using d(5) t(2) by (auto simp: v_thread_def)
    have "t \<notin> set (qu v g)" for g using group_iff [OF i, of t g] t by auto
    then show "v_group ?v" by (rule group_prio [OF d(6)]) simp_all
    show "v_count ?v" using d(7) by (simp add: v_count_def)
    show "v_cpu ?v" using d(8) by (simp add: v_cpu_def)
    show "v_est ?v" using d(9) by (simp add: v_est_def)
  qed
  then show ?thesis by (rule vinv_add_plain) (use kt t in simp_all)
qed

lemma adjustrunqueue_ok:
  assumes i: "vinv {} {} (view s)" and t: "td_state (the_td s t) = TDS_RUNQ"
  shows "\<exists>s'. adjustrunqueue t p s = Some s' \<and> vinv {} {} (view s') \<and> vframe (view s) (view s') \<and>
    st (view s') = st (view s) \<and> pr (view s') = (pr (view s))(t := p)"
proof (cases "is_SA s t")
  case False
  then obtain k where k: "td_kse (the_td s t) = Some k" using plain_kse [OF i, of t] t by auto
  have kt: "ke_thread (the_ke s k) = Some t" using link_iff [OF i, of t k] k by simp
  have ks: "ke_state (the_ke s k) = KES_ONRUNQ" using onq_kse [OF i, of t k] t k by simp
  have mem: "in_mem s (ke_proc (the_ke s k))" using link_mem [OF i, of k t] link_group [OF i, of k t] runq_mem [OF i, of t] t kt by simp
  let ?s = "upd_td t (\<lambda>t. t\<lparr>td_priority := p\<rparr>) s"
  have v: "view ?s = (view s)\<lparr>pr := (pr (view s))(t := p)\<rparr>" by (auto simp: view_upd)
  show ?thesis
  proof (cases "ke_rqindex (the_ke s k) = rq_index p")
    case True
    have "vinv {} {} (view ?s)" unfolding v by (rule vinv_prio [OF i]) (use False k True in auto)
    then show ?thesis using v t k False True
      by (intro exI [of _ ?s]) (simp add: adjustrunqueue_def assert_def Let_def is_SA_def vframe_def)
  next
    case ne: False
    have q: "v_queue (view ?s)" by (rule v_queue_cong [OF vinvD(1) [OF i]]) (simp_all add: v)
    have mem': "in_mem ?s (ke_proc (the_ke ?s k))" using mem by (simp add: in_mem_def)
    obtain s1 where s1: "sched_rem t ?s = Some s1" "view s1 = v_rem k (view ?s)"
      using sched_rem_view [of ?s t k, OF _ _ mem' q] k ks by auto
    have f: "td_kse (the_td s1 t) = Some k" "ke_thread (the_ke s1 k) = Some t" "ke_state (the_ke s1 k) = KES_THREAD" "runq_ok (the_runq s1)"
        "in_mem s1 (ke_proc (the_ke s1 k))"
      using arg_cong [OF s1(2), of "\<lambda>v. tk v t"] arg_cong [OF s1(2), of "\<lambda>v. kt v k"] arg_cong [OF s1(2), of "\<lambda>v. ks v k"]
        arg_cong [OF s1(2), of rok] arg_cong [OF s1(2), of "\<lambda>v. kmem v k"] k kt mem' q by (simp_all add: v_queue_def)
    obtain s' where s': "sched_add t s1 = Some s'" "view s' = v_add k t (v_rem k ((view s)\<lparr>pr := (pr (view s))(t := p)\<rparr>))"
      using sched_add_view [OF f(1,2) _ f(5,4)] f(3) unfolding s1(2) v by auto
    have "vinv {} {} (view s')" unfolding s'(2) by (rule vinv_requeue [OF i]) (use t False k in simp_all)
    moreover have "adjustrunqueue t p s = Some s'"
      using t k False ne s1(1) s'(1) by (simp add: adjustrunqueue_def assert_def Let_def is_SA_def)
    moreover have "vframe (view s) (view s') \<and> st (view s') = st (view s) \<and> pr (view s') = (pr (view s))(t := p)"
      unfolding s'(2) by (simp add: vframe_def)
    ultimately show ?thesis by blast
  qed
next
  case True
  let ?g = "td_ksegrp (the_td s t)"
  have member: "t \<in> set (kg_runq (the_kg s ?g))" using group_iff [OF i, of t ?g] t True by simp
  have mem: "in_mem s (td_proc (the_td s t))" using runq_mem [OF i, of t] t by simp
  let ?s1 = "upd_td t (\<lambda>t. t\<lparr>td_state := TDS_CAN_RUN\<rparr>) (upd_kg ?g (\<lambda>g. g\<lparr>kg_runnable := kg_runnable g - 1\<rparr>) s)"
  let ?fin = "\<lambda>s. upd_td t (\<lambda>t. t\<lparr>td_priority := p\<rparr>) (upd_kg ?g (\<lambda>x. x\<lparr>kg_runq := remove1 t (kg_runq (the_kg s ?g))\<rparr>) s)"
  text \<open>Off the queue, with its KSE if it has one, then back with the new priority.\<close>
  have again: "\<exists>s'. setrunqueue t s3 = Some s' \<and> vinv {} {} (view s') \<and> vframe (view s) (view s') \<and>
      st (view s') = st (view s) \<and> pr (view s') = (pr (view s))(t := p)"
    if v: "view s3 = w\<lparr>pr := (pr w)(t := p)\<rparr>" and iw: "vinv {} {} w" and w: "vframe (view s) w" "st w = (st (view s))(t := TDS_CAN_RUN)" "pr w = pr (view s)"
    for s3 w
  proof -
    have i3: "vinv {} {} (view s3)" unfolding v by (rule vinv_prio [OF iw]) (simp add: w)
    have f: "td_state (the_td s3 t) = TDS_CAN_RUN" "in_mem s3 (td_proc (the_td s3 t))"
      using arg_cong [OF v, of "\<lambda>v. st v t"] arg_cong [OF v, of "\<lambda>v. tmem v t"] w mem by (simp_all add: vframe_def)
    have m: "vframe (view s) (view s3)" "st (view s3) = (st (view s))(t := TDS_CAN_RUN)" "pr (view s3) = (pr (view s))(t := p)"
      using w unfolding v by (simp_all add: vframe_def)
    obtain s' where s': "setrunqueue t s3 = Some s'" "vinv {} {} (view s')" "vframe (view s3) (view s')"
        "st (view s') = (st (view s3))(t := TDS_RUNQ)" "pr (view s') = pr (view s3)"
      using setrunqueue_ok [OF i3 _ f(2)] f(1) by blast
    have "st (view s') = st (view s)" unfolding s'(4) m(2) using t by (auto simp: fun_eq_iff)
    then show ?thesis using s' m by (auto simp: vframe_def)
  qed
  show ?thesis
  proof (cases "td_kse (the_td s t)")
    case None
    have v: "view (?fin ?s1) = (v_stop t (view s))\<lparr>pr := (pr (v_stop t (view s)))(t := p)\<rparr>"
    proof -
      obtain A B where q: "qu (view s) ?g = A @ B" "assigned (tk (view s)) (la (view s) ?g) (iq (view s) ?g) A B"
        using shape [OF i] by metis
      have "la (view s) ?g \<noteq> Some t"
      proof
        assume "la (view s) ?g = Some t"
        then have "t \<in> set A" using q(2) last_in_set [of A] by (simp add: assigned_def split: if_splits)
        then have "tk (view s) t \<noteq> None" using q(2) unfolding assigned_def by blast
        then show False using None by simp
      qed
      then show ?thesis by (auto simp: view_upd v_stop_def v_put_def Let_def)
    qed
    have "adjustrunqueue t p s = setrunqueue t (?fin ?s1)"
      using t True None member by (simp add: adjustrunqueue_def assert_def Let_def is_SA_def tailq_remove_def)
    then show ?thesis using again [OF v vinv_leave [OF i]] t None by (simp add: vframe_def)
  next
    case (Some k)
    have kt: "ke_thread (the_ke s k) = Some t" using link_iff [OF i, of t k] Some by simp
    have ks: "ke_state (the_ke s k) = KES_ONRUNQ" using onq_kse [OF i, of t k] t Some by simp
    let ?s2 = "if kg_last_assigned (the_kg ?s1 ?g) = Some t then upd_kg ?g (\<lambda>g. g\<lparr>kg_last_assigned := tailq_prev (kg_runq g) t\<rparr>) ?s1 else ?s1"
    have mem': "in_mem ?s2 (ke_proc (the_ke ?s2 k))"
      using link_mem [OF i, of k t] link_group [OF i, of k t] mem kt by (simp add: in_mem_def)
    have q2: "v_queue (view ?s2)" by (rule v_queue_cong [OF vinvD(1) [OF i]]) (auto simp: view_def)
    have a2: "td_kse (the_td ?s2 t) = Some k" using Some by simp
    have b2: "ke_state (the_ke ?s2 k) = KES_ONRUNQ" using ks by simp
    obtain s3 where s3: "sched_rem t ?s2 = Some s3" "view s3 = v_rem k (view ?s2)"
      using sched_rem_view [OF a2 b2 mem' q2] by blast
    have v2: "view (upd_kg ?g (\<lambda>g. g\<lparr>kg_runq := remove1 t (kg_runq g)\<rparr>) ?s2) = v_stop t (view s)"
      by (auto simp: view_upd v_stop_def v_put_def Let_def)
    have "view (?fin s3) = (view s3)\<lparr>qu := (qu (view s3))(?g := remove1 t (qu (view s3) ?g)), pr := (pr (view s3))(t := p)\<rparr>"
      by (auto simp: view_upd)
    also have "\<dots> = (v_rem k (view (upd_kg ?g (\<lambda>g. g\<lparr>kg_runq := remove1 t (kg_runq g)\<rparr>) ?s2)))\<lparr>pr := (pr (view s3))(t := p)\<rparr>"
      unfolding s3(2) by (auto simp: view_upd v_rem_def)
    also have "\<dots> = (v_rem k (v_stop t (view s)))\<lparr>pr := (pr (v_rem k (v_stop t (view s))))(t := p)\<rparr>"
      unfolding v2 s3(2) by (auto simp: view_upd)
    finally have v: "view (?fin s3) = (v_rem k (v_stop t (view s)))\<lparr>pr := (pr (v_rem k (v_stop t (view s))))(t := p)\<rparr>" .
    have "kg_runq (the_kg s3 ?g) = kg_runq (the_kg s ?g)" using arg_cong [OF s3(2), of "\<lambda>v. qu v ?g"] by simp
    then have "adjustrunqueue t p s = setrunqueue t (?fin s3)"
      using t True Some member s3(1) by (simp add: adjustrunqueue_def assert_def Let_def is_SA_def tailq_remove_def cong: if_cong)
    then show ?thesis using again [OF v vinv_dequeue [OF i]] t Some by (simp add: vframe_def)
  qed
qed

end
