(* ===== verification/Kern_Switch_Choose.thy ===== *)
theory Kern_Switch_Choose
  imports Kern_Switch_Run
begin

text \<open>Choosing the next thread, the switch to it, and the wakeup.\<close>

section \<open>choosethread\<close>

text \<open>The first KSE of the run queue is taken with its thread.\<close>

definition v_taken :: "keid \<Rightarrow> tid \<Rightarrow> sview \<Rightarrow> sview" where
  "v_taken k t v = (v_rem k (v_stop t v))\<lparr>st := st v\<rparr>"

lemma choose_take:
  assumes i: "vinv {} {} (view s)"
  obtains (idle) "sched_choose s = Some (s, None)" "\<And>k. ke_state (the_ke s k) \<noteq> KES_ONRUNQ"
    | (take) k t ks s1 s2 where "flat (rq (view s)) RQ_NQS = k # ks" "ke_state (the_ke s k) = KES_ONRUNQ" "ke_thread (the_ke s k) = Some t"
       "td_state (the_td s t) = TDS_RUNQ" "td_kse (the_td s t) = Some k"
       "sched_choose s = Some (s1, Some k)" "choosethread_take (Some k) s1 = Some (s2, t, k)" "view s2 = v_taken k t (view s)"
proof (cases "\<forall>k. ke_state (the_ke s k) \<noteq> KES_ONRUNQ")
  case True
  then show ?thesis using sched_choose_view [OF i] idle by blast
next
  case False
  then obtain k t ks s1 where k: "flat (rq (view s)) RQ_NQS = k # ks" "ke_state (the_ke s k) = KES_ONRUNQ" "ke_thread (the_ke s k) = Some t"
      "sched_choose s = Some (s1, Some k)" "view s1 = v_rem k (view s)"
    using sched_choose_view [OF i] by blast
  have t: "td_state (the_td s t) = TDS_RUNQ" "td_kse (the_td s t) = Some k"
    using onq_thread [OF i, of k] link_iff [OF i, of t k] k(2,3) by auto
  have g: "ke_ksegrp (the_ke s k) = td_ksegrp (the_td s t)" using link_group [OF i, of k t] k(3) by simp
  let ?g = "td_ksegrp (the_td s t)"
  have v1: "ke_thread (the_ke s1 k) = Some t" "td_kse (the_td s1 t) = Some k" "ke_ksegrp (the_ke s1 k) = ?g" "is_SA s1 t = is_SA s t"
      "kg_runq (the_kg s1 ?g) = kg_runq (the_kg s ?g)" "kg_last_assigned (the_kg s1 ?g) = kg_last_assigned (the_kg s ?g)" "td_ksegrp (the_td s1 t) = ?g"
    using arg_cong [OF k(5), of "\<lambda>v. kt v k"] arg_cong [OF k(5), of "\<lambda>v. tk v t"] arg_cong [OF k(5), of "\<lambda>v. kgr v k"] arg_cong [OF k(5), of "\<lambda>v. sa v t"]
      arg_cong [OF k(5), of "\<lambda>v. qu v ?g"] arg_cong [OF k(5), of "\<lambda>v. la v ?g"] arg_cong [OF k(5), of "\<lambda>v. tg v t"] k(3) t g by simp_all
  let ?s2 = "upd_kg ?g (\<lambda>g. g\<lparr>kg_runnable := kg_runnable g - 1\<rparr>)
     (if is_SA s t then upd_kg ?g (\<lambda>x. x\<lparr>kg_runq := remove1 t (kg_runq (the_kg s ?g))\<rparr>)
        (if kg_last_assigned (the_kg s1 ?g) = Some t then upd_kg ?g (\<lambda>g. g\<lparr>kg_last_assigned := tailq_prev (kg_runq g) t\<rparr>) s1 else s1) else s1)"
  have member: "t \<in> set (kg_runq (the_kg s ?g)) \<longleftrightarrow> is_SA s t" using group_iff [OF i, of t ?g] t by simp
  have "choosethread_take (Some k) s1 = Some (?s2, t, k)"
    using v1 member by (simp add: choosethread_take_def assert_def Let_def tailq_remove_def)
  moreover have "view ?s2 = v_taken k t (view s)"
  proof -
    obtain A B where q: "qu (view s) ?g = A @ B" "assigned (tk (view s)) (la (view s) ?g) (iq (view s) ?g) A B" using shape [OF i] by metis
    have n: "la (view s) ?g \<noteq> Some t" "remove1 t (qu (view s) ?g) = qu (view s) ?g" if "\<not> is_SA s t"
    proof -
      have "t \<notin> set (qu (view s) ?g)" using member that by simp
      then show "remove1 t (qu (view s) ?g) = qu (view s) ?g" by (rule remove1_idem)
      show "la (view s) ?g \<noteq> Some t"
        using \<open>t \<notin> set (qu (view s) ?g)\<close> q last_in_set [of A] by (auto simp: assigned_def split: if_splits)
    qed
    have "view ?s2 = (let v = view s1 in (v_put ?g (if is_SA s t then remove1 t (qu (view s) ?g) else qu v ?g)
        (if is_SA s t \<and> la v ?g = Some t then tailq_prev (qu v ?g) t else la v ?g) v)\<lparr>rn := (rn v)(?g := rn v ?g - 1)\<rparr>)"
      by (auto simp: view_upd v_put_def Let_def)
    also have "\<dots> = v_taken k t (view s)"
      unfolding k(5) using n by (auto simp: v_taken_def v_stop_def v_put_def v_rem_def Let_def)
    finally show ?thesis .
  qed
  ultimately show ?thesis using take k(1-4) t by blast
qed

lemma vinv_run:
  assumes i: "vinv {} {} v" and k: "tk v t \<noteq> None" and t: "st v t \<noteq> TDS_RUNQ" "st v t \<noteq> TDS_INACTIVE" "\<And>t'. st v t' = TDS_RUNNING \<Longrightarrow> t' = t"
  shows "vinv {} {} (v\<lparr>st := (st v)(t := TDS_RUNNING), cur := t\<rparr>)" (is "vinv {} {} ?v")
proof (rule vinvI)
  note d = vinvD [OF i]
  have r: "st ?v t' = TDS_RUNQ \<longleftrightarrow> st v t' = TDS_RUNQ" for t' using t(1) by simp
  show "v_queue ?v" by (rule v_queue_cong [OF d(1)]) simp_all
  show "v_link {} ?v" by (rule v_link_cong [OF d(2)]) simp_all
  show "v_onq {} ?v" using d(3) unfolding v_onq_def r by simp
  show "v_idle ?v" using d(4) by (simp add: v_idle_def)
  show "v_thread {} ?v" using d(5) t(2) unfolding v_thread_def r by auto
  show "v_group ?v" by (rule group_same [OF d(6)]) simp_all
  show "v_count ?v" using d(7) unfolding v_count_def r by simp
  show "v_cpu ?v" using d(8) t(3) k by (auto simp: v_cpu_def)
  show "v_est ?v" using d(9) by (simp add: v_est_def)
qed

text \<open>The current thread runs on a KSE.\<close>

definition v_running :: "sview \<Rightarrow> bool" where
  "v_running v \<longleftrightarrow> st v (cur v) = TDS_RUNNING \<and> tk v (cur v) \<noteq> None \<and> tmem v (cur v)"

text \<open>What the search leaves: the thread chosen is off the queue and running.\<close>

definition chosen :: "sview \<Rightarrow> tid \<Rightarrow> sview \<Rightarrow> bool" where
  "chosen v td w \<longleftrightarrow> vinv {} {} (w\<lparr>cur := td\<rparr>) \<and> v_running (w\<lparr>cur := td\<rparr>) \<and> vframe v w \<and> pr w = pr v"

lemma view_didrun: "view (upd_ke ke (\<lambda>k. k\<lparr>ke_flags := f k\<rparr>) s) = view s"
  by (auto simp: view_upd)

lemma view_run: "view (upd_td t (\<lambda>t. t\<lparr>td_state := x\<rparr>) s) = (view s)\<lparr>st := (st (view s))(t := x)\<rparr>"
  by (auto simp: view_upd)

lemma choosethread_ok:
  assumes "vinv {} {} (view s)" "\<And>t. td_state (the_td s t) \<noteq> TDS_RUNNING"
  shows "\<exists>s' td. choosethread s = Some (s', td) \<and> chosen (view s) td (view s')"
  using assms
proof (induction "length (flat (rq (view s)) RQ_NQS)" arbitrary: s rule: less_induct)
  case (less s)
  note i = less.prems(1)
  have cpu: "\<not> is_SA s (idlethread s)" "td_state (the_td s (idlethread s)) \<noteq> TDS_INACTIVE" "tsys (view s) (idlethread s)" "tmem (view s) (idlethread s)"
    using vinvD(8) [OF i] by (simp_all add: v_cpu_def)
  obtain ki where ki: "td_kse (the_td s (idlethread s)) = Some ki" using plain_kse [OF i, of "idlethread s"] cpu by auto
  from i show ?case
  proof (cases rule: choose_take)
    case idle
    let ?i = "idlethread s"
    let ?s = "upd_ke ki (\<lambda>k. k\<lparr>ke_flags := ke_flags k OR KEF_DIDRUN\<rparr>) s"
    have nq: "td_state (the_td s ?i) \<noteq> TDS_RUNQ" using onq_kse [OF i, of ?i ki] ki idle(2) by auto
    have "choosethread s = Some (upd_td ?i (\<lambda>t. t\<lparr>td_state := TDS_RUNNING\<rparr>) ?s, ?i)"
      using cpu(3) ki by (subst choosethread.simps) (simp add: idle(1) choosethread_take_def Let_def)
    moreover have "chosen (view s) ?i (view (upd_td ?i (\<lambda>t. t\<lparr>td_state := TDS_RUNNING\<rparr>) ?s))"
      unfolding chosen_def view_run view_didrun using vinv_run [OF i, of ?i] nq cpu less.prems(2) ki
      by (simp add: v_running_def vframe_def)
    ultimately show ?thesis by blast
  next
    case (take k t ks s1 s2)
    let ?s3 = "upd_ke k (\<lambda>k. k\<lparr>ke_flags := ke_flags k OR KEF_DIDRUN\<rparr>) s2"
    have deq: "vinv {} {} (v_rem k (v_stop t (view s)))" by (rule vinv_dequeue [OF i]) (use take in simp_all)
    have mem: "tmem (view s) t" using runq_mem [OF i, of t] take(4) by simp
    show ?thesis
    proof (cases "panicstr ?s3 \<and> p_flag (the_p ?s3 (td_proc (the_td ?s3 t))) AND P_SYSTEM = 0 \<and> td_flags (the_td ?s3 t) AND TDF_INPANIC = 0")
      case False
      have "choosethread s = Some (upd_td t (\<lambda>t. t\<lparr>td_state := TDS_RUNNING\<rparr>) ?s3, t)"
        using False by (subst choosethread.simps) (auto simp: take(6,7) Let_def)
      moreover have "chosen (view s) t (view (upd_td t (\<lambda>t. t\<lparr>td_state := TDS_RUNNING\<rparr>) ?s3))"
      proof -
        have e: "(view (upd_td t (\<lambda>t. t\<lparr>td_state := TDS_RUNNING\<rparr>) ?s3))\<lparr>cur := t\<rparr> =
            (v_rem k (v_stop t (view s)))\<lparr>st := (st (v_rem k (v_stop t (view s))))(t := TDS_RUNNING), cur := t\<rparr>"
          unfolding view_run view_didrun take(8) v_taken_def by simp
        have "vinv {} {} ((view (upd_td t (\<lambda>t. t\<lparr>td_state := TDS_RUNNING\<rparr>) ?s3))\<lparr>cur := t\<rparr>)"
          unfolding e by (rule vinv_run [OF deq]) (use less.prems(2) take(5) in \<open>simp_all split: if_splits\<close>)
        then show ?thesis unfolding chosen_def unfolding view_run view_didrun take(8) v_taken_def
          using mem take(5) by (simp add: v_running_def vframe_def)
      qed
      ultimately show ?thesis by blast
    next
      case True
      let ?s4 = "upd_td t (\<lambda>t. t\<lparr>td_state := TDS_CAN_RUN\<rparr>) ?s3"
      have v4: "view ?s4 = v_rem k (v_stop t (view s))"
        unfolding view_run view_didrun take(8) v_taken_def by simp
      have i4: "vinv {} {} (view ?s4)" unfolding v4 by (rule deq)
      have n4: "td_state (the_td ?s4 t') \<noteq> TDS_RUNNING" for t'
        using arg_cong [OF v4, of "\<lambda>v. st v t'"] less.prems(2) [of t'] by (simp split: if_splits)
      have kq: "k \<in> set (rq (view s) (ri (view s) k))" using queue_iff [OF i, of k] take(2) by simp
      have "flat (rq (view ?s4)) RQ_NQS = remove1 k (flat (rq (view s)) RQ_NQS)"
        unfolding v4 using flat_remove1 [of "ri (view s) k" RQ_NQS k "rq (view s)"] kq onq_index [OF i, of k] take(2) vinvD(1) [OF i] by (simp add: v_rem_def v_stop_def v_put_def Let_def v_queue_def)
      then have "length (flat (rq (view ?s4)) RQ_NQS) < length (flat (rq (view s)) RQ_NQS)" using take(1) by simp
      then obtain s' td where s': "choosethread ?s4 = Some (s', td)" "chosen (view ?s4) td (view s')"
        using less.hyps [OF _ i4 n4] by blast
      have "choosethread s = Some (s', td)"
        using True s'(1) by (subst choosethread.simps) (simp add: take(6,7) Let_def)
      moreover have "chosen (view s) td (view s')"
        using s'(2) unfolding chosen_def v4 by (simp add: vframe_def)
      ultimately show ?thesis by blast
    qed
  qed
qed

section \<open>sched_switch\<close>

text \<open>The state in which the search for the next thread begins: the thread switched from is queued, or its KSE given away.\<close>

lemma sched_switch_mid:
  assumes i: "vinv {} {} (view s)" and t: "t = curthread s" "td_kse (the_td s t) = Some k" "in_mem s (td_proc (the_td s t))"
    and st: "td_state (the_td s t) = TDS_RUNNING \<or> td_state (the_td s t) = TDS_INHIBITED \<or> td_state (the_td s t) = TDS_CAN_RUN \<and> \<not> is_SA s t"
  obtains s2 where "vinv {} {} (view s2)" "vframe (view s) (view s2)" "pr (view s2) = pr (view s)" "\<And>t'. td_state (the_td s2 t') \<noteq> TDS_RUNNING"
    "sched_switch t s = choosethread s2 \<bind> (\<lambda>(s3, td). Some (upd_td td (\<lambda>t. t\<lparr>td_oncpu := 0\<rparr>) (s3\<lparr>curthread := td\<rparr>)))"
    "td_state (the_td s t) = TDS_RUNNING \<Longrightarrow> \<not> is_SA s t \<Longrightarrow> view s2 = v_add k t (v_start t (view s))"
proof -
  have kt: "ke_thread (the_ke s k) = Some t" using link_iff [OF i, of t k] t(2) by simp
  have ks: "ke_state (the_ke s k) = KES_THREAD"
    using link_group [OF i, of k t] onq_thread [OF i, of k] kt st by auto
  let ?s1 = "upd_td t (\<lambda>t. t\<lparr>td_lastcpu := td_oncpu t, td_last_kse := Some k, td_oncpu := NOCPU,
                               td_flags := td_flags t AND NOT TDF_NEEDRESCHED\<rparr>) s"
  have v1: "view ?s1 = view s" by (auto simp: view_upd)
  have i1: "vinv {} {} (view ?s1)" unfolding v1 by (rule i)
  have m1: "in_mem ?s1 (td_proc (the_td ?s1 t))" "is_SA ?s1 t = is_SA s t" using t(3) by (simp_all add: in_mem_def is_SA_def)
  have run: "td_state (the_td s t') = TDS_RUNNING \<Longrightarrow> t' = t" for t' using vinvD(8) [OF i] t(1) by (simp add: v_cpu_def)
  let ?go = "if td_state (the_td ?s1 t) = TDS_RUNNING then setrunqueue t ?s1 else if is_SA ?s1 t then kse_reassign k ?s1 else Some ?s1"
  have "\<exists>s2. ?go = Some s2 \<and> vinv {} {} (view s2) \<and> vframe (view s) (view s2) \<and> pr (view s2) = pr (view s) \<and>
      (\<forall>t'. td_state (the_td s2 t') \<noteq> TDS_RUNNING) \<and> (td_state (the_td s t) = TDS_RUNNING \<longrightarrow> \<not> is_SA s t \<longrightarrow> view s2 = v_add k t (v_start t (view s)))"
  proof (cases "td_state (the_td s t) = TDS_RUNNING")
    case True
    then have r1: "td_state (the_td ?s1 t) = TDS_CAN_RUN \<or> td_state (the_td ?s1 t) = TDS_RUNNING" by simp
    obtain s2 where s2: "setrunqueue t ?s1 = Some s2" "vinv {} {} (view s2)" "vframe (view ?s1) (view s2)" "st (view s2) = (st (view ?s1))(t := TDS_RUNQ)"
        "pr (view s2) = pr (view ?s1)"
      using setrunqueue_ok [OF i1 r1 m1(1)] by blast
    have "view s2 = v_add k t (v_start t (view s))" if "\<not> is_SA s t"
      using setrunqueue_plain [OF i1 r1 m1(1), of k] that m1(2) t(2) s2(1) unfolding v1 by auto
    moreover have "td_state (the_td s2 t') \<noteq> TDS_RUNNING" for t'
      using fun_cong [OF s2(4), of t'] run [of t'] by (auto split: if_splits)
    ultimately show ?thesis using s2 True unfolding v1 by simp
  next
    case False
    then have nr: "td_state (the_td s t') \<noteq> TDS_RUNNING" for t' using run [of t'] by auto
    show ?thesis
    proof (cases "is_SA s t")
      case True
      have f: "td_kse (the_td ?s1 t) = Some k" "td_state (the_td ?s1 t) = TDS_INHIBITED" "is_SA ?s1 t"
        using t(2) st False True by (auto simp: is_SA_def)
      obtain s2 where s2: "kse_reassign k ?s1 = Some s2" "vinv {} {} (view s2)" "vframe (view ?s1) (view s2)" "st (view s2) = st (view ?s1)" "pr (view s2) = pr (view ?s1)"
        using kse_reassign_ok [OF i1 f] by auto
      have "td_state (the_td s2 t') \<noteq> TDS_RUNNING" for t'
        using fun_cong [OF s2(4), of t'] nr [of t'] by (auto split: if_splits)
      then show ?thesis using s2 False f(3) unfolding v1 by simp
    next
      case nsa: False
      then show ?thesis using False i1 nr v1 m1(2) by (intro exI [of _ ?s1]) (auto simp: vframe_def)
    qed
  qed
  then obtain s2 where s2: "?go = Some s2" "vinv {} {} (view s2)" "vframe (view s) (view s2)" "pr (view s2) = pr (view s)"
      "\<And>t'. td_state (the_td s2 t') \<noteq> TDS_RUNNING"
      "td_state (the_td s t) = TDS_RUNNING \<Longrightarrow> \<not> is_SA s t \<Longrightarrow> view s2 = v_add k t (v_start t (view s))" by blast
  have "sched_switch t s = choosethread s2 \<bind> (\<lambda>(s3, td). Some (upd_td td (\<lambda>t. t\<lparr>td_oncpu := 0\<rparr>) (s3\<lparr>curthread := td\<rparr>)))"
    using t(2) ks s2(1) by (simp add: sched_switch_def assert_def Let_def)
  then show thesis by (rule that [OF s2(2-5) _ s2(6)])
qed

lemma view_switch: "view (upd_td td (\<lambda>t. t\<lparr>td_oncpu := 0\<rparr>) (s\<lparr>curthread := td\<rparr>)) = (view s)\<lparr>cur := td\<rparr>"
  by (auto simp: view_upd)

lemma sched_switch_ok:
  assumes i: "vinv {} {} (view s)" and t: "t = curthread s" "td_kse (the_td s t) = Some k" "in_mem s (td_proc (the_td s t))"
    and st: "td_state (the_td s t) = TDS_RUNNING \<or> td_state (the_td s t) = TDS_INHIBITED \<or> td_state (the_td s t) = TDS_CAN_RUN \<and> \<not> is_SA s t"
  shows "\<exists>s'. sched_switch t s = Some s' \<and> vinv {} {} (view s') \<and> v_running (view s')"
proof -
  obtain s2 where s2: "vinv {} {} (view s2)" "\<And>t'. td_state (the_td s2 t') \<noteq> TDS_RUNNING"
      "sched_switch t s = choosethread s2 \<bind> (\<lambda>(s3, td). Some (upd_td td (\<lambda>t. t\<lparr>td_oncpu := 0\<rparr>) (s3\<lparr>curthread := td\<rparr>)))"
    by (rule sched_switch_mid [OF i t st]) (rule that, assumption+)
  obtain s3 td where s3: "choosethread s2 = Some (s3, td)" "chosen (view s2) td (view s3)"
    using choosethread_ok [OF s2(1,2)] by blast
  show ?thesis using s2(3) s3 unfolding chosen_def view_switch [symmetric] by auto
qed

text \<open>Without a panic the search takes the thread of the first KSE of the run queue, or the idle thread.\<close>

lemma choosethread_first:
  assumes i: "vinv {} {} (view s)" and np: "\<not> panicstr s"
  obtains (idle) s' where "choosethread s = Some (s', idlethread s)" "\<And>k. ke_state (the_ke s k) \<noteq> KES_ONRUNQ"
      "view s' = (view s)\<lparr>st := (st (view s))(idlethread s := TDS_RUNNING)\<rparr>"
    | (first) s' k t ks where "choosethread s = Some (s', t)" "flat (rq (view s)) RQ_NQS = k # ks" "ke_state (the_ke s k) = KES_ONRUNQ"
      "ke_thread (the_ke s k) = Some t" "td_kse (the_td s t) = Some k" "td_state (the_td s t) = TDS_RUNQ"
      "view s' = (v_rem k (v_stop t (view s)))\<lparr>st := (st (view s))(t := TDS_RUNNING)\<rparr>"
proof -
  have cpu: "\<not> is_SA s (idlethread s)" "td_state (the_td s (idlethread s)) \<noteq> TDS_INACTIVE"
    using vinvD(8) [OF i] by (simp_all add: v_cpu_def)
  obtain ki where ki: "td_kse (the_td s (idlethread s)) = Some ki" using plain_kse [OF i, of "idlethread s"] cpu by auto
  from i show thesis
  proof (cases rule: choose_take)
    case none: idle
    let ?s = "upd_td (idlethread s) (\<lambda>t. t\<lparr>td_state := TDS_RUNNING\<rparr>) (upd_ke ki (\<lambda>k. k\<lparr>ke_flags := ke_flags k OR KEF_DIDRUN\<rparr>) s)"
    have "choosethread s = Some (?s, idlethread s)"
      using np ki by (subst choosethread.simps) (simp add: none(1) choosethread_take_def Let_def)
    then show thesis by (rule idle [OF _ none(2)]) (simp only: view_run view_didrun)
  next
    case (take k t ks s1 s2)
    have np2: "\<not> panicstr s2" using arg_cong [OF take(8), of pan] np by (simp add: v_taken_def)
    let ?s = "upd_td t (\<lambda>t. t\<lparr>td_state := TDS_RUNNING\<rparr>) (upd_ke k (\<lambda>k. k\<lparr>ke_flags := ke_flags k OR KEF_DIDRUN\<rparr>) s2)"
    have "choosethread s = Some (?s, t)"
      using np2 by (subst choosethread.simps) (simp add: take(6,7) Let_def)
    moreover have "view ?s = (v_rem k (v_stop t (view s)))\<lparr>st := (st (view s))(t := TDS_RUNNING)\<rparr>"
      unfolding view_run view_didrun take(8) v_taken_def by simp
    ultimately show thesis using first take(1-5) by blast
  qed
qed

end
