(* ===== verification/Sched_4bsd_Calls.thy ===== *)
theory Sched_4bsd_Calls
  imports Kern_Switch_Choose
begin

text \<open>
  The estimate of cpu use stays within its bound and the user priority within its class; the operations of
  kern/sched_4bsd.c on top of the queues keep the invariant; so does every run of events.
\<close>

section \<open>The estimate\<close>

lemma ESTCPULIM_le: "ESTCPULIM e \<le> ESTCPU_MAX"
  by (simp add: ESTCPULIM_def ESTCPU_MAX_def INVERSE_ESTCPU_WEIGHT_def NICE_WEIGHT_def PRIO_MAX_def PRIO_MIN_def RQ_PPQ_def min.coboundedI2)

lemma decay_cpu_unat:
  assumes "l \<le> LOADAV_MAX" "c \<le> ESTCPU_MAX"
  shows "unat (decay_cpu (loadfactor l) c) = (2 * unat l * unat c) div (2 * unat l + 2048)"
proof -
  have l: "unat l \<le> 2097152" using assms(1) by (simp add: LOADAV_MAX_def word_le_nat_alt)
  have c: "unat c \<le> 295" using assms(2) by (simp add: ESTCPU_MAX_def word_le_nat_alt)
  have f: "unat (loadfactor l) = 2 * unat l" using l by (simp add: loadfactor_def unat_word_ariths)
  have "unat (loadfactor l) * unat c \<le> (2 * 2097152) * 295" unfolding f using l c by (intro mult_mono) auto
  then have m: "unat (loadfactor l * c) = 2 * unat l * unat c" using f by (simp add: unat_word_ariths)
  have s: "unat (loadfactor l + FSCALE) = 2 * unat l + 2048" using f l by (simp add: FSCALE_def FSHIFT_def unat_word_ariths)
  show ?thesis unfolding decay_cpu_def by (simp add: unat_div m s)
qed

lemma decay_cpu_le:
  assumes "l \<le> LOADAV_MAX" "c \<le> ESTCPU_MAX"
  shows "decay_cpu (loadfactor l) c \<le> c" "c \<noteq> 0 \<Longrightarrow> decay_cpu (loadfactor l) c < c"
proof -
  let ?l = "2 * unat l" and ?c = "unat c"
  have "?l * ?c \<le> ?c * (?l + 2048)" by (simp add: algebra_simps)
  then have "?l * ?c div (?l + 2048) \<le> ?c * (?l + 2048) div (?l + 2048)" by (rule div_le_mono)
  then show "decay_cpu (loadfactor l) c \<le> c" unfolding word_le_nat_alt decay_cpu_unat [OF assms] by simp
  assume "c \<noteq> 0"
  then have "0 < ?c" by (simp add: unsigned_eq_0_iff flip: neq0_conv)
  then have "?l * ?c < ?c * (?l + 2048)" by (simp add: algebra_simps)
  then have "?l * ?c div (?l + 2048) < ?c" by (simp add: less_mult_imp_div_less)
  then show "decay_cpu (loadfactor l) c < c" unfolding word_less_nat_alt decay_cpu_unat [OF assms] .
qed

lemma decay_cpu_max:
  "l \<le> LOADAV_MAX \<Longrightarrow> c \<le> ESTCPU_MAX \<Longrightarrow> decay_cpu (loadfactor l) c \<le> ESTCPU_MAX"
  using decay_cpu_le(1) order.trans by blast

lemma updatepri_loop_max:
  "l \<le> LOADAV_MAX \<Longrightarrow> c \<le> ESTCPU_MAX \<Longrightarrow> fst (updatepri_loop (loadfactor l) c t) \<le> ESTCPU_MAX"
proof (induction "loadfactor l" c t rule: updatepri_loop.induct)
  case (1 c t)
  then show ?case using decay_cpu_max [OF 1(2,3)]
    by (subst updatepri_loop.simps) (auto simp: Let_def)
qed

section \<open>Operations that do not move anybody\<close>

lemma maybe_resched_view [simp]: "view (maybe_resched t s) = view s"
  by (auto simp: maybe_resched_def view_upd)

lemma fold_maybe_resched_view [simp]: "view (fold maybe_resched ts s) = view s"
  by (induction ts arbitrary: s) simp_all

lemma upd_user_pri_view [simp]: "view (upd_kg g (\<lambda>x. x\<lparr>kg_user_pri := f x\<rparr>) s) = view s"
  by (auto simp: view_upd)

lemma resetpriority_view [simp]: "view (resetpriority g s) = view s"
  by (simp add: resetpriority_def Let_def)

definition v_set_est :: "kgid \<Rightarrow> u32 \<Rightarrow> sview \<Rightarrow> sview" where
  "v_set_est g e v = v\<lparr>est := (est v)(g := e)\<rparr>"

text \<open>The estimates and the panic flag do not matter to the queues.\<close>

lemma vinv_same:
  assumes i: "vinv X Y v" and e: "\<And>g. e g \<le> ESTCPU_MAX"
  shows "vinv X Y (v\<lparr>est := e, pan := b\<rparr>)" (is "vinv X Y ?v")
proof (rule vinvI)
  note d = vinvD [OF i]
  show "v_queue ?v" by (rule v_queue_cong [OF d(1)]) simp_all
  show "v_link Y ?v" by (rule v_link_cong [OF d(2)]) simp_all
  show "v_onq X ?v" using d(3) by (simp add: v_onq_def)
  show "v_idle ?v" using d(4) by (simp add: v_idle_def)
  show "v_thread X ?v" by (rule v_thread_cong [OF d(5)]) simp_all
  show "v_group ?v" by (rule group_same [OF d(6)]) simp_all
  show "v_count ?v" using d(7) by (simp add: v_count_def)
  show "v_cpu ?v" using d(8) by (simp add: v_cpu_def)
  show "v_est ?v" using d(9) e by (simp add: v_est_def)
qed

lemma vinv_est:
  assumes i: "vinv X Y v" and e: "e \<le> ESTCPU_MAX"
  shows "vinv X Y (v_set_est g e v)"
proof -
  have "vinv X Y (v\<lparr>est := (est v)(g := e), pan := pan v\<rparr>)"
    by (rule vinv_same [OF i]) (use vinvD(9) [OF i] e in \<open>simp add: v_est_def\<close>)
  then show ?thesis by (simp add: v_set_est_def)
qed

lemma running_est [simp]: "v_running (v_set_est g e v) = v_running v"
  by (simp add: v_running_def v_set_est_def)

lemma vinv_bounds: "vinv X Y (view s) \<Longrightarrow> kg_estcpu (the_kg s g) \<le> ESTCPU_MAX \<and> sched_averunnable s \<le> LOADAV_MAX"
  by (simp add: vinv_def v_est_def)

lemma upd_est_view:
  "view (upd_kg g (\<lambda>x. x\<lparr>kg_estcpu := e\<rparr>) s) = v_set_est g e (view s)"
  "view (upd_kg g (\<lambda>x. x\<lparr>kg_estcpu := e, kg_slptime := f\<rparr>) s) = v_set_est g e (view s)"
  by (auto simp: view_upd v_set_est_def)

lemma updatepri_view:
  assumes "vinv {} {} (view s)"
  shows "\<exists>e \<le> ESTCPU_MAX. view (updatepri g s) = v_set_est g e (view s)"
proof -
  let ?l = "loadfactor (sched_averunnable s)" and ?g = "the_kg s g"
  let ?r = "updatepri_loop ?l (kg_estcpu ?g) (kg_slptime ?g - 1)"
  have m: "fst ?r \<le> ESTCPU_MAX" using updatepri_loop_max vinv_bounds [OF assms] by blast
  have "view (updatepri g s) = v_set_est g (if kg_slptime ?g > 5 * ?l then 0 else fst ?r) (view s)"
    by (simp add: updatepri_def Let_def upd_est_view split: prod.split)
  then show ?thesis using m by (intro exI [of _ "if kg_slptime ?g > 5 * ?l then 0 else fst ?r"]) simp
qed

definition sched_ok :: "sched \<Rightarrow> bool" where
  "sched_ok s \<longleftrightarrow> vinv {} {} (view s) \<and> v_running (view s)"

lemma sched_ok_view: "view s' = view s \<Longrightarrow> sched_ok s \<Longrightarrow> sched_ok s'"
  by (simp add: sched_ok_def)

lemma sched_ok_est: "view s' = v_set_est g e (view s) \<Longrightarrow> e \<le> ESTCPU_MAX \<Longrightarrow> sched_ok s \<Longrightarrow> sched_ok s'"
  by (simp add: sched_ok_def vinv_est)

lemma upd_slptime_view: "view (upd_kg g (\<lambda>g. g\<lparr>kg_slptime := f g\<rparr>) s) = view s"
  by (auto simp: view_upd)

lemma sched_ok_cur:
  assumes "sched_ok s"
  shows "td_state (the_td s (curthread s)) = TDS_RUNNING" "\<exists>k. td_kse (the_td s (curthread s)) = Some k" "in_mem s (td_proc (the_td s (curthread s)))"
  using assms by (auto simp: sched_ok_def v_running_def)

lemma sched_ok_prio:
  assumes "sched_ok s" "td_state (the_td s t) \<noteq> TDS_RUNQ"
  shows "sched_ok (upd_td t (\<lambda>t. t\<lparr>td_priority := p\<rparr>) s)"
proof -
  have v: "view (upd_td t (\<lambda>t. t\<lparr>td_priority := p\<rparr>) s) = (view s)\<lparr>pr := (pr (view s))(t := p)\<rparr>" by (auto simp: view_upd)
  have "vinv {} {} ((view s)\<lparr>pr := (pr (view s))(t := p)\<rparr>)" by (rule vinv_prio) (use assms in \<open>auto simp: sched_ok_def\<close>)
  then show ?thesis using assms unfolding sched_ok_def v by (simp add: v_running_def)
qed

section \<open>The operations\<close>

lemma sched_prio_ok: "sched_ok s \<Longrightarrow> \<exists>s'. sched_prio t p s = Some s' \<and> sched_ok s'"
proof (cases "td_state (the_td s t) = TDS_RUNQ")
  case True
  assume s: "sched_ok s"
  obtain s' where s': "adjustrunqueue t p s = Some s'" "vinv {} {} (view s')" "vframe (view s) (view s')" "st (view s') = st (view s)"
    using adjustrunqueue_ok [OF _ True] s by (auto simp: sched_ok_def)
  have cur: "curthread s' = curthread s" "in_mem s' (td_proc (the_td s' (curthread s))) = in_mem s (td_proc (the_td s (curthread s)))"
    using s'(3) by (auto simp: vframe_def dest!: fun_cong [where x = "curthread s"])
  have st: "td_state (the_td s' (curthread s)) = TDS_RUNNING" using fun_cong [OF s'(4), of "curthread s"] sched_ok_cur(1) [OF s] by simp
  have "td_kse (the_td s' (curthread s)) \<noteq> None" using running_kse [OF s'(2), of "curthread s"] st by simp
  then have "v_running (view s')" using st sched_ok_cur(3) [OF s] cur by (simp add: v_running_def)
  then show ?thesis using s' True by (auto simp: sched_prio_def sched_ok_def)
next
  case False
  assume "sched_ok s"
  then show ?thesis using sched_ok_prio False by (auto simp: sched_prio_def)
qed

lemma setrunqueue_sched_ok:
  assumes s: "sched_ok s" and t: "td_state (the_td s t) = TDS_CAN_RUN" "in_mem s (td_proc (the_td s t))"
  shows "\<exists>s'. setrunqueue t s = Some s' \<and> sched_ok s' \<and> vframe (view s) (view s') \<and>
    st (view s') = (st (view s))(t := TDS_RUNQ) \<and> pr (view s') = pr (view s) \<and> qu (view s') = queued t (view s)"
proof -
  obtain s' where s': "setrunqueue t s = Some s'" "vinv {} {} (view s')" "vframe (view s) (view s')"
      "st (view s') = (st (view s))(t := TDS_RUNQ)" "pr (view s') = pr (view s)" "qu (view s') = queued t (view s)"
    using setrunqueue_ok [OF _ _ t(2)] s t(1) unfolding sched_ok_def by blast
  have nt: "curthread s \<noteq> t" using sched_ok_cur(1) [OF s] t(1) by auto
  have cur: "curthread s' = curthread s" using s'(3) by (simp add: vframe_def)
  have m: "tmem (view s') = tmem (view s)" using s'(3) by (simp add: vframe_def)
  have st: "td_state (the_td s' (curthread s')) = TDS_RUNNING"
    using fun_cong [OF s'(4), of "curthread s"] sched_ok_cur(1) [OF s] nt unfolding cur by simp
  have "td_kse (the_td s' (curthread s')) \<noteq> None" using running_kse [OF s'(2), of "curthread s'"] st by simp
  moreover have "in_mem s' (td_proc (the_td s' (curthread s')))"
    using fun_cong [OF m, of "curthread s"] sched_ok_cur(3) [OF s] unfolding cur by simp
  ultimately have "sched_ok s'" using s'(2) st by (simp add: sched_ok_def v_running_def)
  then show ?thesis using s' by blast
qed

lemma sched_wakeup_ok:
  assumes s: "sched_ok s" and t: "td_state (the_td s t) = TDS_CAN_RUN" "in_mem s (td_proc (the_td s t))"
  shows "\<exists>s'. sched_wakeup t s = Some s' \<and> sched_ok s'"
proof -
  let ?g = "td_ksegrp (the_td s t)"
  let ?s1 = "upd_kg ?g (\<lambda>g. g\<lparr>kg_slptime := 0\<rparr>) (if kg_slptime (the_kg s ?g) > 1 then updatepri ?g s else s)"
  have i: "vinv {} {} (view s)" using s by (simp add: sched_ok_def)
  have "\<exists>e \<le> ESTCPU_MAX. view ?s1 = v_set_est ?g e (view s)"
  proof (cases "kg_slptime (the_kg s ?g) > 1")
    case True
    then show ?thesis using updatepri_view [OF i, of ?g] by (simp add: upd_slptime_view)
  next
    case False
    have "view s = v_set_est ?g (kg_estcpu (the_kg s ?g)) (view s)" by (auto simp: v_set_est_def view_def fun_eq_iff)
    then show ?thesis using False vinv_bounds [OF i, of ?g] by (auto simp: upd_slptime_view)
  qed
  then obtain e where e: "e \<le> ESTCPU_MAX" "view ?s1 = v_set_est ?g e (view s)" by blast
  have s1: "sched_ok ?s1" by (rule sched_ok_est [OF e(2,1) s])
  have f: "td_state (the_td ?s1 t) = TDS_CAN_RUN" "in_mem ?s1 (td_proc (the_td ?s1 t))"
    using arg_cong [OF e(2), of "\<lambda>v. st v t"] arg_cong [OF e(2), of "\<lambda>v. tmem v t"] t by (simp_all add: v_set_est_def)
  obtain s' where s': "setrunqueue t ?s1 = Some s'" "sched_ok s'" using setrunqueue_sched_ok [OF s1 f] by blast
  have "sched_ok (maybe_resched t s')" by (rule sched_ok_view [OF _ s'(2)]) simp
  moreover have "sched_wakeup t s = Some (maybe_resched t s')" using s'(1) by (simp add: sched_wakeup_def Let_def)
  ultimately show ?thesis by blast
qed

lemma sched_ok_view_same: "sched_ok s \<Longrightarrow> view s' = view s \<Longrightarrow> sched_ok s'"
  by (simp add: sched_ok_def)

lemma upd_ke_view [simp]:
  "view (upd_ke k (\<lambda>x. x\<lparr>ke_flags := f x\<rparr>) s) = view s" "view (upd_ke k (\<lambda>x. x\<lparr>ke_pctcpu := f x\<rparr>) s) = view s"
  "view (upd_ke k (\<lambda>x. x\<lparr>ske_cpticks := f x\<rparr>) s) = view s" "view (upd_ke k (\<lambda>x. x\<lparr>ke_pctcpu := f x, ske_cpticks := h x\<rparr>) s) = view s"
  by (auto simp: view_upd)

lemma schedcpu_ke_ok:
  assumes "vinv {} {} (view s)"
  shows "\<exists>s' b. schedcpu_ke r k (s, awake) = Some (s', b) \<and> view s' = view s"
proof (cases "ke_state (the_ke s k) = KES_ONRUNQ")
  case True
  then show ?thesis by (auto simp: schedcpu_ke_def Let_def)
next
  case False
  have "\<exists>b. (if ke_state (the_ke s k) = KES_THREAD then map_option (\<lambda>td. td_state (the_td s td) = TDS_RUNNING) (ke_thread (the_ke s k)) else Some False) = Some b"
    using v_linkD(4) [OF vinvD(2) [OF assms], of k] by auto
  then obtain b where "(if ke_state (the_ke s k) = KES_THREAD then map_option (\<lambda>td. td_state (the_td s td) = TDS_RUNNING) (ke_thread (the_ke s k)) else Some False) = Some b" by blast
  then show ?thesis using False by (auto simp: schedcpu_ke_def Let_def)
qed

lemma schedcpu_kes_ok:
  "vinv {} {} (view s) \<Longrightarrow> \<exists>s' b. fold_opt (schedcpu_ke r) kes (s, awake) = Some (s', b) \<and> view s' = view s"
proof (induction kes arbitrary: s awake)
  case (Cons k kes)
  obtain s1 b where s1: "schedcpu_ke r k (s, awake) = Some (s1, b)" "view s1 = view s" using schedcpu_ke_ok [OF Cons.prems] by blast
  then show ?case using Cons.IH [of s1 b] Cons.prems by simp
qed simp

lemma fold_ok: "(\<And>x s. P s \<Longrightarrow> \<exists>s'. f x s = Some s' \<and> P s') \<Longrightarrow> P s \<Longrightarrow> \<exists>s'. fold_opt f xs s = Some s' \<and> P s'"
proof (induction xs arbitrary: s)
  case (Cons x xs)
  obtain s1 where "f x s = Some s1" "P s1" using Cons.prems by blast
  then show ?case using Cons.IH [OF Cons.prems(1)] by simp
qed simp

lemma schedcpu_kg_ok:
  assumes s: "sched_ok s"
  shows "\<exists>s'. schedcpu_kg r g s = Some s' \<and> sched_ok s'"
proof -
  have i: "vinv {} {} (view s)" using s by (simp add: sched_ok_def)
  obtain s1 b where s1: "fold_opt (schedcpu_ke r) (kg_kseq (the_kg s g)) (s, False) = Some (s1, b)" "view s1 = view s"
    using schedcpu_kes_ok [OF i] by blast
  have i1: "vinv {} {} (view s1)" using i s1(2) by simp
  let ?s2 = "if b then upd_kg g (\<lambda>g. g\<lparr>kg_slptime := 0\<rparr>) (if kg_slptime (the_kg s1 g) > 1 then updatepri g s1 else s1)
       else upd_kg g (\<lambda>g. g\<lparr>kg_slptime := kg_slptime g + 1\<rparr>) s1"
  have ok2: "sched_ok ?s2"
  proof -
    have s1ok: "sched_ok s1" by (rule sched_ok_view_same [OF s s1(2)])
    have "sched_ok (updatepri g s1)" using updatepri_view [OF i1, of g] sched_ok_est s1ok by blast
    then show ?thesis using s1ok sched_ok_view_same upd_slptime_view by (auto split: if_splits)
  qed
  let ?l = "loadfactor (sched_averunnable s)"
  have avg: "sched_averunnable s \<le> LOADAV_MAX" using vinv_bounds [OF i] by blast
  let ?s3 = "resetpriority g (upd_kg g (\<lambda>x. x\<lparr>kg_estcpu := decay_cpu ?l (kg_estcpu x)\<rparr>) ?s2)"
  have ok3: "sched_ok ?s3"
  proof -
    have "vinv {} {} (view ?s2)" using ok2 unfolding sched_ok_def by (rule conjunct1)
    then have e: "decay_cpu ?l (kg_estcpu (the_kg ?s2 g)) \<le> ESTCPU_MAX" by (intro decay_cpu_max [OF avg]) (simp only: vinv_bounds)
    have "view ?s3 = v_set_est g (decay_cpu ?l (kg_estcpu (the_kg ?s2 g))) (view ?s2)"
      unfolding resetpriority_view by (simp only: view_def v_set_est_def upd_kg_simps) (auto simp: fun_eq_iff is_SA_def in_mem_def)
    then show ?thesis by (rule sched_ok_est [OF _ e ok2])
  qed
  let ?f = "\<lambda>td s. if ucast (td_priority (the_td s td)) \<ge> PUSER then sched_prio td (kg_user_pri (the_kg s g)) s else Some s"
  have "\<exists>s4. fold_opt ?f (kg_threads (the_kg ?s3 g)) ?s3 = Some s4 \<and> sched_ok s4"
  proof (rule fold_ok [of sched_ok, OF _ ok3])
    fix td s assume "sched_ok s"
    then show "\<exists>s'. ?f td s = Some s' \<and> sched_ok s'"
      using sched_prio_ok [of s td "kg_user_pri (the_kg s g)"] by (cases "ucast (td_priority (the_td s td)) \<ge> PUSER") simp_all
  qed
  then obtain s4 where s4: "fold_opt ?f (kg_threads (the_kg ?s3 g)) ?s3 = Some s4" "sched_ok s4" by blast
  show ?thesis
  proof (cases "kg_slptime (the_kg ?s2 g) > 1")
    case True
    then show ?thesis using ok2 s1(1) by (intro exI [of _ ?s2]) (simp add: schedcpu_kg_def Let_def del: upd_kg_simps)
  next
    case False
    then show ?thesis using s4 s1(1) by (intro exI [of _ s4]) (simp add: schedcpu_kg_def Let_def del: upd_kg_simps)
  qed
qed

lemma schedcpu_ok: "sched_ok s \<Longrightarrow> \<exists>s'. schedcpu s = Some s' \<and> sched_ok s'"
  unfolding schedcpu_def Let_def
proof (rule fold_ok [of sched_ok])
  fix p s assume s: "sched_ok s"
  let ?s = "upd_p p (\<lambda>p. p\<lparr>p_swtime := p_swtime p + 1\<rparr>) s"
  have "view ?s = view s" by (auto simp: view_upd)
  then have "sched_ok ?s" by (rule sched_ok_view_same [OF s])
  then show "\<exists>s'. fold_opt (schedcpu_kg r) (p_ksegrps (the_p s p)) ?s = Some s' \<and> sched_ok s'" for r
    by (intro fold_ok [of sched_ok]) (auto intro: schedcpu_kg_ok)
qed

end
