(* ===== verification/Sched_4bsd_Events.thy ===== *)
theory Sched_4bsd_Events
  imports Sched_4bsd_Calls
begin

text \<open>
  Every event succeeds and keeps the invariant: the running thread blocks, yields or is preempted, the idle thread
  looks for work, a thread is woken, a priority changes, the clock ticks, the second is over, a panic begins.
\<close>

text \<open>A thread stops running, as it blocks or as the idle thread looks for work, or is no longer inhibited.\<close>

lemma vinv_pause:
  assumes i: "vinv {} {} v" and t: "st v t = TDS_RUNNING \<or> st v t = TDS_INHIBITED" and x: "x = TDS_INHIBITED \<or> x = TDS_CAN_RUN"
  shows "vinv {} {} (v\<lparr>st := (st v)(t := x)\<rparr>)" (is "vinv {} {} ?v")
proof (rule vinvI)
  note d = vinvD [OF i]
  have r: "st ?v t' = TDS_RUNQ \<longleftrightarrow> st v t' = TDS_RUNQ" for t' using t x by auto
  show "v_queue ?v" by (rule v_queue_cong [OF d(1)]) simp_all
  show "v_link {} ?v" by (rule v_link_cong [OF d(2)]) simp_all
  show "v_onq {} ?v" using d(3) unfolding v_onq_def r by simp
  show "v_idle ?v" using d(4) by (simp add: v_idle_def)
  have "st ?v t' \<noteq> TDS_INACTIVE \<longleftrightarrow> st v t' \<noteq> TDS_INACTIVE" for t' using t x by auto
  then show "v_thread {} ?v" using d(5) unfolding v_thread_def r by simp
  show "v_group ?v" by (rule group_same [OF d(6)]) simp_all
  show "v_count ?v" using d(7) unfolding v_count_def r by simp
  show "v_cpu ?v" using d(8) x by (auto simp: v_cpu_def)
  show "v_est ?v" using d(9) by (simp add: v_est_def)
qed

lemma sched_ok_upd_cur:
  assumes s: "sched_ok s" and v: "view s' = (view s)\<lparr>st := (st (view s))(curthread s := x)\<rparr>"
    and x: "x = TDS_INHIBITED \<or> x = TDS_CAN_RUN \<and> \<not> is_SA s (curthread s)"
  shows "\<exists>s''. sched_switch (curthread s') s' = Some s'' \<and> sched_ok s''"
proof -
  note i = s [unfolded sched_ok_def, THEN conjunct1]
  have run: "td_state (the_td s (curthread s)) = TDS_RUNNING" using sched_ok_cur(1) [OF s] .
  obtain k where k: "td_kse (the_td s (curthread s)) = Some k" using sched_ok_cur(2) [OF s] by blast
  have c: "curthread s' = curthread s" using arg_cong [OF v, of cur] by simp
  have i': "vinv {} {} (view s')"
    unfolding v by (rule vinv_pause [OF i]) (use run x in auto)
  have f: "td_kse (the_td s' (curthread s)) = Some k" "in_mem s' (td_proc (the_td s' (curthread s)))" "td_state (the_td s' (curthread s)) = x"
      "is_SA s' (curthread s) = is_SA s (curthread s)"
    using arg_cong [OF v, of "\<lambda>v. tk v (curthread s)"] arg_cong [OF v, of "\<lambda>v. tmem v (curthread s)"] arg_cong [OF v, of "\<lambda>v. st v (curthread s)"]
      arg_cong [OF v, of "\<lambda>v. sa v (curthread s)"] k sched_ok_cur(3) [OF s] by simp_all
  show ?thesis
    using sched_switch_ok [OF i' refl, of k] f x unfolding c sched_ok_def by auto
qed

text \<open>Waking a thread that is not inhibited for being swapped out.\<close>

lemma wake_ok:
  assumes s: "sched_ok s" and e: "sched_enabled (Wake t inhib) s"
  shows "\<exists>s'. map_option fst (setrunnable t (upd_td t (TD_CLR_INHIB inhib) s)) = Some s' \<and> sched_ok s'"
proof -
  note i = s [unfolded sched_ok_def, THEN conjunct1]
  have t: "td_state (the_td s t) = TDS_INHIBITED" "p_state (the_p s (td_proc (the_td s t))) \<noteq> PRS_ZOMBIE"
      "in_mem s (td_proc (the_td s t)) \<Longrightarrow> td_inhibitors (the_td s t) AND TDI_SWAPPED = 0"
    using e by (auto simp: sched_enabled_def Let_def)
  let ?s = "upd_td t (TD_CLR_INHIB inhib) s"
  let ?x = "td_state (TD_CLR_INHIB inhib (the_td s t))"
  have x: "?x = TDS_INHIBITED \<or> ?x = TDS_CAN_RUN" using t(1) by (simp add: TD_CLR_INHIB_def Let_def)
  have v: "view ?s = (view s)\<lparr>st := (st (view s))(t := ?x)\<rparr>" by (auto simp: view_upd TD_CLR_INHIB_def Let_def)
  have nt: "curthread s \<noteq> t" using sched_ok_cur(1) [OF s] t(1) by auto
  have ok: "sched_ok ?s"
    unfolding sched_ok_def v using vinv_pause [OF i _ , of t ?x] x t(1) nt s by (simp add: sched_ok_def v_running_def)
  have p: "td_proc (TD_CLR_INHIB inhib (the_td s t)) = td_proc (the_td s t)" by (simp add: TD_CLR_INHIB_def Let_def)
  have swapinreq: "(w OR PS_SWAPINREQ) AND PS_INMEM = w AND PS_INMEM" for w
    by (simp add: bit.conj_disj_distrib2 PS_SWAPINREQ_def PS_INMEM_def)
  have swp: "sched_ok (upd_p p (\<lambda>p. p\<lparr>p_sflag := p_sflag p OR PS_SWAPINREQ\<rparr>) ?s)" for p
  proof (rule sched_ok_view_same [OF ok])
    show "view (upd_p p (\<lambda>p. p\<lparr>p_sflag := p_sflag p OR PS_SWAPINREQ\<rparr>) ?s) = view ?s"
      using swapinreq by (auto simp: view_upd)
  qed
  show ?thesis
  proof (cases "in_mem s (td_proc (the_td s t))")
    case True
    then have m: "in_mem ?s (td_proc (the_td ?s t))" using p by (simp add: in_mem_def)
    show ?thesis
    proof (cases "?x = TDS_CAN_RUN")
      case c: True
      obtain s' where "sched_wakeup t ?s = Some s'" "sched_ok s'" using sched_wakeup_ok [OF ok _ m] c by auto
      then show ?thesis using c m p t(2) by (simp add: setrunnable_def Let_def)
    next
      case False
      then have inh: "?x = TDS_INHIBITED" using x by simp
      have "td_inhibitors (TD_CLR_INHIB inhib (the_td s t)) AND TDI_SWAPPED = 0"
      proof -
        have z: "td_inhibitors (the_td s t) AND TDI_SWAPPED = 0" using t(3) True by simp
        have "(td_inhibitors (the_td s t) AND NOT inhib) AND TDI_SWAPPED = (td_inhibitors (the_td s t) AND TDI_SWAPPED) AND NOT inhib"
          by (simp add: ac_simps)
        then show ?thesis using z by (simp add: TD_CLR_INHIB_def Let_def)
      qed
      then have "td_inhibitors (TD_CLR_INHIB inhib (the_td s t)) \<noteq> TDI_SWAPPED" by (auto simp: TDI_SWAPPED_def)
      then show ?thesis using inh p t(2) ok by (simp add: setrunnable_def Let_def)
    qed
  next
    case False
    then have m: "\<not> in_mem ?s (td_proc (the_td s t))" by (simp add: in_mem_def)
    then show ?thesis using x p t(2) ok swp by (auto simp: setrunnable_def Let_def)
  qed
qed

lemma sched_clock_ok:
  assumes s: "sched_ok s"
  shows "\<exists>s'. sched_clock (curthread s) s = Some s' \<and> sched_ok s'"
proof -
  let ?t = "curthread s"
  let ?g = "td_ksegrp (the_td s ?t)"
  obtain k where k: "td_kse (the_td s ?t) = Some k" using sched_ok_cur(2) [OF s] by blast
  let ?s1 = "upd_kg ?g (\<lambda>g. g\<lparr>kg_estcpu := ESTCPULIM (kg_estcpu g + 1)\<rparr>) (upd_ke k (\<lambda>k. k\<lparr>ske_cpticks := ske_cpticks k + 1\<rparr>) s)"
  have v1: "view ?s1 = v_set_est ?g (ESTCPULIM (kg_estcpu (the_kg s ?g) + 1)) (view s)" by (auto simp: view_upd v_set_est_def)
  have ok1: "sched_ok ?s1" by (rule sched_ok_est [OF v1 ESTCPULIM_le s])
  let ?s2 = "resetpriority ?g ?s1"
  have ok2: "sched_ok ?s2" by (rule sched_ok_view_same [OF ok1]) simp
  have "curthread ?s2 = ?t" using arg_cong [OF resetpriority_view [of ?g ?s1], of cur] by (simp only: view_simps) simp
  then have "td_state (the_td ?s2 ?t) \<noteq> TDS_RUNQ" using sched_ok_cur(1) [OF ok2] by simp
  then have ok3: "sched_ok (upd_td ?t (\<lambda>t. t\<lparr>td_priority := kg_user_pri (the_kg ?s2 ?g)\<rparr>) ?s2)" by (rule sched_ok_prio [OF ok2])
  show ?thesis using k ok1 ok2 ok3 by (simp add: sched_clock_def Let_def del: upd_kg_simps upd_ke_simps)
qed

lemma sched_step_ok: "sched_ok s \<Longrightarrow> \<exists>s'. sched_step e s = Some s' \<and> sched_ok s'"
proof (cases "sched_enabled e s")
  case True
  assume s: "sched_ok s"
  note i = s [unfolded sched_ok_def, THEN conjunct1]
  have "\<exists>s'. sched_do e s = Some s' \<and> sched_ok s'"
  proof (cases e)
    case (Block inhib)
    have "view (upd_td (curthread s) (TD_SET_INHIB inhib) s) = (view s)\<lparr>st := (st (view s))(curthread s := TDS_INHIBITED)\<rparr>"
      by (auto simp: view_upd TD_SET_INHIB_def)
    from sched_ok_upd_cur [OF s this] show ?thesis using Block by (simp add: sched_do_def Let_def)
  next
    case Yield
    obtain k where "td_kse (the_td s (curthread s)) = Some k" using sched_ok_cur(2) [OF s] by blast
    then show ?thesis using sched_switch_ok [OF i refl] sched_ok_cur [OF s] Yield by (simp add: sched_do_def Let_def sched_ok_def)
  next
    case Idle
    then have "curthread s = idlethread s" using True by (simp add: sched_enabled_def Let_def)
    then have "\<not> is_SA s (curthread s)" using vinvD(8) [OF i] by (simp add: v_cpu_def)
    moreover have "view (upd_td (curthread s) (\<lambda>t. t\<lparr>td_state := TDS_CAN_RUN\<rparr>) s) = (view s)\<lparr>st := (st (view s))(curthread s := TDS_CAN_RUN)\<rparr>"
      by (auto simp: view_upd)
    ultimately have "\<exists>s'. sched_switch (curthread (upd_td (curthread s) (\<lambda>t. t\<lparr>td_state := TDS_CAN_RUN\<rparr>) s))
        (upd_td (curthread s) (\<lambda>t. t\<lparr>td_state := TDS_CAN_RUN\<rparr>) s) = Some s' \<and> sched_ok s'"
      by (intro sched_ok_upd_cur [OF s]) auto
    then show ?thesis using Idle by (simp add: sched_do_def Let_def)
  next
    case (Wake t inhib)
    then show ?thesis using wake_ok [OF s] True by (simp add: sched_do_def Let_def)
  next
    case (Prio t p)
    then show ?thesis using sched_prio_ok [OF s] by (simp add: sched_do_def Let_def)
  next
    case Tick
    then show ?thesis using sched_clock_ok [OF s] by (simp add: sched_do_def Let_def)
  next
    case (Nice g n)
    have "view (sched_nice g n s) = view s" unfolding sched_nice_def resetpriority_view by (auto simp: view_upd)
    then show ?thesis using sched_ok_view_same [OF s] Nice by (simp add: sched_do_def Let_def)
  next
    case (Class g c)
    have "view (sched_class g c s) = view s" unfolding sched_class_def by (auto simp: view_upd)
    then show ?thesis using sched_ok_view_same [OF s] Class by (simp add: sched_do_def Let_def)
  next
    case (Sleep_prio p)
    let ?s = "upd_kg (td_ksegrp (the_td s (curthread s))) (\<lambda>g. g\<lparr>kg_slptime := 0\<rparr>) s"
    have "sched_ok ?s" by (rule sched_ok_view_same [OF s]) (simp add: upd_slptime_view)
    then have "sched_ok (sched_sleep (curthread s) p s)"
      unfolding sched_sleep_def by (rule sched_ok_prio) (use sched_ok_cur(1) [OF s] in simp)
    then show ?thesis using Sleep_prio by (simp add: sched_do_def Let_def)
  next
    case Userret
    have "sched_ok (sched_userret (curthread s) s)"
      using sched_ok_prio [OF s] sched_ok_cur(1) [OF s] s by (simp add: sched_userret_def Let_def)
    then show ?thesis using Userret by (simp add: sched_do_def Let_def)
  next
    case Second
    then show ?thesis using schedcpu_ok [OF s] by (simp add: sched_do_def Let_def)
  next
    case Panics
    let ?s = "upd_td (curthread s) (\<lambda>t. t\<lparr>td_flags := td_flags t OR TDF_INPANIC\<rparr>) (s\<lparr>panicstr := True\<rparr>)"
    have v: "view ?s = (view s)\<lparr>pan := True\<rparr>" by (auto simp: view_upd)
    have "vinv {} {} ((view s)\<lparr>est := est (view s), pan := True\<rparr>)"
      by (rule vinv_same [OF i]) (use vinvD(9) [OF i] in \<open>simp add: v_est_def\<close>)
    then have "vinv {} {} ((view s)\<lparr>pan := True\<rparr>)" by simp
    then have "sched_ok ?s" using s unfolding sched_ok_def v by (simp add: v_running_def)
    then show ?thesis using Panics by (simp add: sched_do_def Let_def)
  qed
  then show ?thesis using True by (simp add: sched_step_def)
qed (simp add: sched_step_def)

end
