(* ===== verification/Sched_4bsd_Frame.thy ===== *)
theory Sched_4bsd_Frame
  imports Kern_Switch
begin

text \<open>
  What no event of the scheduler changes: the group and the process of a thread, and the flags of a process. So a
  threaded group stays threaded along every run.
\<close>

definition tied :: "sched \<Rightarrow> (tid \<Rightarrow> kgid \<times> pno) \<times> (pno \<Rightarrow> u32)" where
  "tied s = ((\<lambda>t. (td_ksegrp (the_td s t), td_proc (the_td s t))), (\<lambda>p. p_flag (the_p s p)))"

lemma tied_SA: "tied s' = tied s \<Longrightarrow> td_ksegrp (the_td s' t) = td_ksegrp (the_td s t) \<and> is_SA s' t = is_SA s t"
  by (auto simp: tied_def is_SA_def fun_eq_iff)

lemma tied_kg [simp]: "tied (upd_kg g f s) = tied s" and tied_ke [simp]: "tied (upd_ke k f' s) = tied s"
  and tied_other [simp]: "tied (s\<lparr>the_runq := r\<rparr>) = tied s" "tied (s\<lparr>curthread := t\<rparr>) = tied s" "tied (s\<lparr>panicstr := b\<rparr>) = tied s"
  by (simp_all add: tied_def)

lemma tied_td: "td_ksegrp (f (the_td s t)) = td_ksegrp (the_td s t) \<Longrightarrow> td_proc (f (the_td s t)) = td_proc (the_td s t) \<Longrightarrow> tied (upd_td t f s) = tied s"
  by (auto simp: tied_def fun_eq_iff)

lemma tied_p: "p_flag (f (the_p s p)) = p_flag (the_p s p) \<Longrightarrow> tied (upd_p p f s) = tied s"
  by (auto simp: tied_def fun_eq_iff)

lemma TD_INHIB [simp]:
  "td_ksegrp (TD_SET_INHIB i t) = td_ksegrp t" "td_proc (TD_SET_INHIB i t) = td_proc t"
  "td_ksegrp (TD_CLR_INHIB i t) = td_ksegrp t" "td_proc (TD_CLR_INHIB i t) = td_proc t"
  by (simp_all add: TD_SET_INHIB_def TD_CLR_INHIB_def Let_def)

lemmas tied_simps = tied_td tied_p Let_def bind_eq_Some_conv map_option_eq_Some

section \<open>The functions\<close>

lemma tied_resched [simp]: "tied (maybe_resched t s) = tied s"
  by (simp add: maybe_resched_def tied_td)

lemma tied_resched_fold [simp]: "tied (fold maybe_resched ts s) = tied s"
  by (induction ts arbitrary: s) simp_all

lemma tied_resetpriority [simp]: "tied (resetpriority g s) = tied s"
  by (simp add: resetpriority_def Let_def)

lemma tied_updatepri [simp]: "tied (updatepri g s) = tied s"
  by (simp add: updatepri_def Let_def split: prod.split)

lemma tied_sched_add: "sched_add t s = Some s' \<Longrightarrow> tied s' = tied s"
  by (auto simp: sched_add_def tied_simps)

lemma tied_sched_rem: "sched_rem t s = Some s' \<Longrightarrow> tied s' = tied s"
  by (auto simp: sched_rem_def tied_simps)

lemma tied_sched_choose: "sched_choose s = Some (s', k) \<Longrightarrow> tied s' = tied s"
  by (auto simp: sched_choose_def tied_simps split: option.splits)

lemma tied_setrunqueue_ke: "setrunqueue_ke t g s = Some (s', k, a) \<Longrightarrow> tied s' = tied s"
  by (auto simp: setrunqueue_ke_def tied_simps dest!: tied_sched_rem split: option.splits if_splits)

lemma tied_setrunqueue_assign: "setrunqueue_assign t g k a s = Some s' \<Longrightarrow> tied s' = tied s"
  by (auto simp: setrunqueue_assign_def tied_simps dest!: tied_sched_add split: option.splits if_splits)

lemma tied_setrunqueue: "setrunqueue t s = Some s' \<Longrightarrow> tied s' = tied s"
  by (auto simp: setrunqueue_def tied_simps dest!: tied_setrunqueue_ke tied_setrunqueue_assign tied_sched_add split: option.splits if_splits)

lemma tied_adjustrunqueue: "adjustrunqueue t p s = Some s' \<Longrightarrow> tied s' = tied s"
  by (auto simp: adjustrunqueue_def tied_simps dest!: tied_setrunqueue tied_sched_rem tied_sched_add split: option.splits if_splits)

lemma tied_kse_reassign: "kse_reassign k s = Some s' \<Longrightarrow> tied s' = tied s"
  by (auto simp: kse_reassign_def tied_simps dest!: tied_sched_add split: option.splits)

lemma tied_choosethread_take: "choosethread_take k s = Some (s', t, k') \<Longrightarrow> tied s' = tied s"
  by (auto simp: choosethread_take_def tied_simps split: option.splits if_splits)

lemma tied_choosethread:
  assumes "choosethread s = Some r"
  shows "tied (fst r) = tied s"
proof (rule choosethread.raw_induct [where P = "\<lambda>s r. tied (fst r) = tied s", OF _ assms])
  fix f s r
  assume ih: "\<And>s r. f s = Some r \<Longrightarrow> tied (fst r) = tied s"
    and eq: "sched_choose s \<bind> (\<lambda>(s, kp). choosethread_take kp s \<bind> (\<lambda>(s, td, ke).
      let s = upd_ke ke (\<lambda>k. k\<lparr>ke_flags := ke_flags k OR KEF_DIDRUN\<rparr>) s
      in if panicstr s \<and> p_flag (the_p s (td_proc (the_td s td))) AND P_SYSTEM = 0 \<and> td_flags (the_td s td) AND TDF_INPANIC = 0
         then f (upd_td td (\<lambda>t. t\<lparr>td_state := TDS_CAN_RUN\<rparr>) s)
         else Some (upd_td td (\<lambda>t. t\<lparr>td_state := TDS_RUNNING\<rparr>) s, td))) = Some r"
  then show "tied (fst r) = tied s"
    by (auto simp: tied_simps dest!: tied_sched_choose tied_choosethread_take ih split: if_splits)
qed

lemma tied_sched_prio: "sched_prio t p s = Some s' \<Longrightarrow> tied s' = tied s"
  by (auto simp: sched_prio_def tied_simps dest!: tied_adjustrunqueue split: if_splits)

lemma tied_sched_switch: "sched_switch t s = Some s' \<Longrightarrow> tied s' = tied s"
  by (auto simp: sched_switch_def tied_simps dest!: tied_setrunqueue tied_kse_reassign tied_choosethread split: if_splits)

lemma tied_sched_wakeup: "sched_wakeup t s = Some s' \<Longrightarrow> tied s' = tied s"
  by (auto simp: sched_wakeup_def tied_simps dest!: tied_setrunqueue split: if_splits)

lemma tied_setrunnable: "setrunnable t s = Some (s', b) \<Longrightarrow> tied s' = tied s"
  by (auto simp: setrunnable_def tied_simps dest!: tied_sched_wakeup split: if_splits td_states.splits)

lemma tied_sched_clock: "sched_clock t s = Some s' \<Longrightarrow> tied s' = tied s"
  by (auto simp: sched_clock_def tied_simps split: if_splits)

lemma tied_fold:
  "(\<And>x s s'. f x s = Some s' \<Longrightarrow> tied (g s') = tied (g s)) \<Longrightarrow> fold_opt f xs s = Some s' \<Longrightarrow> tied (g s') = tied (g s)"
  by (induction xs arbitrary: s) (fastforce simp: bind_eq_Some_conv)+

lemma tied_schedcpu_ke: "schedcpu_ke r k sa = Some sa' \<Longrightarrow> tied (fst sa') = tied (fst sa)"
  by (cases sa) (auto simp: schedcpu_ke_def tied_simps split: option.splits if_splits)

lemma tied_schedcpu_kes: "fold_opt (schedcpu_ke r) ks (s, a) = Some (s', a') \<Longrightarrow> tied s' = tied s"
  using tied_fold [where g = fst, OF tied_schedcpu_ke] by fastforce

lemma tied_sched_prios:
  "fold_opt (\<lambda>t s. if c t s then sched_prio t (p s) s else Some s) ts s = Some s' \<Longrightarrow> tied s' = tied s"
  by (rule tied_fold [where g = "\<lambda>s. s"]) (auto dest!: tied_sched_prio split: if_splits)

lemma tied_schedcpu_kg:
  assumes "schedcpu_kg r g s = Some s'"
  shows "tied s' = tied s"
proof -
  obtain s1 a where s1: "fold_opt (schedcpu_ke r) (kg_kseq (the_kg s g)) (s, False) = Some (s1, a)"
    using assms by (auto simp: schedcpu_kg_def bind_eq_Some_conv)
  define s2 where "s2 = (if a then upd_kg g (\<lambda>g. g\<lparr>kg_slptime := 0\<rparr>) (if kg_slptime (the_kg s1 g) > 1 then updatepri g s1 else s1)
    else upd_kg g (\<lambda>g. g\<lparr>kg_slptime := kg_slptime g + 1\<rparr>) s1)"
  have t: "tied s2 = tied s" using tied_schedcpu_kes [OF s1] by (simp add: s2_def)
  show ?thesis
  proof (cases "kg_slptime (the_kg s2 g) > 1")
    case True
    then have "s' = s2" using assms s1 by (simp add: schedcpu_kg_def Let_def s2_def)
    then show ?thesis using t by simp
  next
    case False
    then obtain f where "fold_opt (\<lambda>t s. if ucast (td_priority (the_td s t)) \<ge> PUSER then sched_prio t (kg_user_pri (the_kg s g)) s else Some s)
        (kg_threads (the_kg (resetpriority g (upd_kg g f s2)) g)) (resetpriority g (upd_kg g f s2)) = Some s'"
      using assms s1 by (simp add: schedcpu_kg_def Let_def s2_def [symmetric])
    then show ?thesis using tied_sched_prios t by fastforce
  qed
qed

lemma tied_schedcpu_kgs: "fold_opt (schedcpu_kg r) gs s = Some s' \<Longrightarrow> tied s' = tied s"
  by (rule tied_fold [where g = "\<lambda>s. s", OF tied_schedcpu_kg])

lemma tied_schedcpu: "schedcpu s = Some s' \<Longrightarrow> tied s' = tied s"
  unfolding schedcpu_def Let_def
  by (rule tied_fold [where g = "\<lambda>s. s"]) (auto dest!: tied_schedcpu_kgs simp: tied_p)

lemma tied_step: "sched_step e s = Some s' \<Longrightarrow> tied s' = tied s"
  by (cases e) (auto simp: sched_step_def sched_do_def sched_nice_def sched_class_def sched_sleep_def sched_userret_def tied_simps
      dest!: tied_sched_switch tied_setrunnable tied_sched_prio tied_sched_clock tied_schedcpu split: if_splits)

lemma tied_run: "fold_opt sched_step es s = Some s' \<Longrightarrow> tied s' = tied s"
  by (rule tied_fold [where g = "\<lambda>s. s", OF tied_step])

end
