(* ===== verification/Sched_4bsd_Theorems.thy ===== *)
theory Sched_4bsd_Theorems
  imports Sched_4bsd_Events Sched_4bsd_Frame
begin

text \<open>
  The properties of the scheduler: the invariant along every run of events, which threads of a group
  have its KSEs, who runs next, the bound on waiting, and the bounds of the user priority. The first section builds a small
  system for the witnesses: the idle thread, three unthreaded processes, and a threaded one of four
  threads with two idle KSEs.
\<close>

section \<open>A small system\<close>

definition thread0 :: sched_thread where
  "thread0 = \<lparr>td_proc = 9, td_ksegrp = 9, td_flags = 0, td_inhibitors = 0, td_last_kse = None, td_kse = None, td_lastcpu = 0,
     td_oncpu = NOCPU, td_priority = 0, td_state = TDS_INACTIVE\<rparr>"

definition kse0 :: kse where
  "kse0 = \<lparr>ke_proc = 9, ke_ksegrp = 9, ke_flags = 0, ke_thread = None, ke_pctcpu = 0, ke_rqindex = 0, ke_state = KES_UNUSED, ske_cpticks = 0\<rparr>"

definition ksegrp0 :: ksegrp where
  "ksegrp0 = \<lparr>kg_proc = 9, kg_kseq = [], kg_iq = [], kg_threads = [], kg_runq = [], kg_estcpu = 0, kg_slptime = 0, kg_last_assigned = None,
     kg_runnable = 0, kg_runq_kses = 0, kg_idle_kses = 0, kg_pri_class = PRI_TIMESHARE, kg_user_pri = 160, kg_nice = 0\<rparr>"

definition sched_proc0 :: sched_proc where
  "sched_proc0 = \<lparr>p_ksegrps = [], p_flag = 0, p_sflag = PS_INMEM, p_state = PRS_NORMAL, p_swtime = 0\<rparr>"

definition boot_thread :: "nat \<Rightarrow> sched_thread" where
  "boot_thread t =
     (if t = 0 then thread0\<lparr>td_proc := 0, td_ksegrp := 0, td_kse := Some 0, td_priority := 255, td_state := TDS_CAN_RUN\<rparr>
      else if t = 1 then thread0\<lparr>td_proc := 1, td_ksegrp := 1, td_kse := Some 1, td_priority := 170, td_state := TDS_RUNNING\<rparr>
      else if t = 2 \<or> t = 3 \<or> t = 4 then thread0\<lparr>td_proc := 2, td_ksegrp := 2, td_priority := (if t = 2 then 161 else 160), td_state := TDS_CAN_RUN\<rparr>
      else if t = 6 then thread0\<lparr>td_proc := 2, td_ksegrp := 2, td_priority := 200, td_state := TDS_INHIBITED, td_inhibitors := 2\<rparr>
      else if t = 7 then thread0\<lparr>td_proc := 4, td_ksegrp := 4, td_kse := Some 5, td_priority := 170, td_state := TDS_CAN_RUN\<rparr>
      else if t = 5 then thread0\<lparr>td_proc := 3, td_ksegrp := 3, td_kse := Some 4, td_priority := 170, td_state := TDS_INHIBITED, td_inhibitors := 2\<rparr>
      else thread0)"

definition boot_kse :: "nat \<Rightarrow> kse" where
  "boot_kse k =
     (if k = 0 then kse0\<lparr>ke_proc := 0, ke_ksegrp := 0, ke_thread := Some 0, ke_state := KES_THREAD\<rparr>
      else if k = 1 then kse0\<lparr>ke_proc := 1, ke_ksegrp := 1, ke_thread := Some 1, ke_state := KES_THREAD\<rparr>
      else if k = 2 \<or> k = 3 then kse0\<lparr>ke_proc := 2, ke_ksegrp := 2, ke_state := KES_IDLE\<rparr>
      else if k = 4 then kse0\<lparr>ke_proc := 3, ke_ksegrp := 3, ke_thread := Some 5, ke_state := KES_THREAD\<rparr>
      else if k = 5 then kse0\<lparr>ke_proc := 4, ke_ksegrp := 4, ke_thread := Some 7, ke_state := KES_THREAD\<rparr>
      else kse0)"

definition boot_ksegrp :: "nat \<Rightarrow> ksegrp" where
  "boot_ksegrp g =
     (if g = 0 \<or> g = 1 then ksegrp0\<lparr>kg_proc := g, kg_kseq := [g], kg_threads := [g]\<rparr>
      else if g = 2 then ksegrp0\<lparr>kg_proc := 2, kg_kseq := [2, 3], kg_iq := [2, 3], kg_idle_kses := 2, kg_threads := [2, 3, 4, 6]\<rparr>
      else if g = 3 then ksegrp0\<lparr>kg_proc := 3, kg_kseq := [4], kg_threads := [5]\<rparr>
      else if g = 4 then ksegrp0\<lparr>kg_proc := 4, kg_kseq := [5], kg_threads := [7]\<rparr>
      else ksegrp0)"

definition boot_proc :: "nat \<Rightarrow> sched_proc" where
  "boot_proc p =
     (if p = 0 then sched_proc0\<lparr>p_ksegrps := [0], p_flag := P_SYSTEM\<rparr>
      else if p = 2 then sched_proc0\<lparr>p_ksegrps := [2], p_flag := P_SA\<rparr>
      else if p = 1 \<or> p = 3 \<or> p = 4 then sched_proc0\<lparr>p_ksegrps := [p]\<rparr> else sched_proc0)"

definition sched_boot :: sched where
  "sched_boot = \<lparr>the_td = boot_thread, the_ke = boot_kse, the_kg = boot_ksegrp, the_p = boot_proc, the_runq = runq_init,
     curthread = 1, idlethread = 0, panicstr = False, sched_allproc = [1, 2, 3, 4], sched_averunnable = 2048, sched_stathz = 128, sched_hz = 100\<rparr>"

lemmas boot_defs = sched_boot_def boot_thread_def boot_kse_def boot_ksegrp_def boot_proc_def thread0_def kse0_def ksegrp0_def sched_proc0_def
  is_SA_def in_mem_def P_SA_def PS_INMEM_def P_SYSTEM_def

lemma boot_no_runq: "td_state (boot_thread t) \<noteq> TDS_RUNQ" "ke_state (boot_kse k) \<noteq> KES_ONRUNQ" "kg_runq (boot_ksegrp g) = []"
  by (simp_all add: boot_defs)

lemma boot_ok: "sched_ok sched_boot"
  unfolding sched_ok_def
proof (intro conjI vinvI)
  have q: "rq_queue runq_init p = []" for p by (rule rq.fresh_queue)
  show "v_queue (view sched_boot)"
  proof -
    have "flat (rq_queue runq_init) RQ_NQS = []" by (simp add: flat_def q)
    then show ?thesis using rq.fresh_ok boot_no_runq(2) by (simp add: v_queue_def q sched_boot_def)
  qed
  show "v_link {} (view sched_boot)"
  proof (rule v_linkI)
    show "tk (view sched_boot) t = Some k \<longleftrightarrow> kt (view sched_boot) k = Some t" for t k by (auto simp: boot_defs)
    show "kt (view sched_boot) k = Some t \<Longrightarrow> kgr (view sched_boot) k = tg (view sched_boot) t \<and>
        (ks (view sched_boot) k = KES_ONRUNQ \<or> ks (view sched_boot) k = KES_THREAD)" for t k by (auto simp: boot_defs split: if_splits)
    show "ks (view sched_boot) k = KES_THREAD \<Longrightarrow> k \<notin> {} \<Longrightarrow> kt (view sched_boot) k \<noteq> None" for k by (auto simp: boot_defs split: if_splits)
    show "kgr (view sched_boot) k = tg (view sched_boot) t \<Longrightarrow> kmem (view sched_boot) k = tmem (view sched_boot) t" for k t
      by (simp add: boot_defs)
  qed simp
  show "v_onq {} (view sched_boot)" using boot_no_runq by (simp add: v_onq_def sched_boot_def)
  show "v_idle (view sched_boot)" by (auto simp: v_idle_def boot_defs)
  show "v_thread {} (view sched_boot)" by (auto simp: v_thread_def boot_defs)
  show "v_group (view sched_boot)" unfolding v_group_def assigned_def using boot_no_runq(3) by (simp add: sched_boot_def) (simp add: boot_defs)
  show "v_count (view sched_boot)" using boot_no_runq(1) by (simp add: v_count_def sched_boot_def) (simp add: boot_defs)
  show "v_cpu (view sched_boot)" by (auto simp: v_cpu_def boot_defs split: if_splits)
  show "v_est (view sched_boot)" by (simp add: v_est_def boot_defs ESTCPU_MAX_def LOADAV_MAX_def)
  show "v_running (view sched_boot)" by (simp add: v_running_def boot_defs)
qed

text \<open>C5: (invariant) From a state that satisfies the invariant every sequence of events (the running thread blocks, yields or is
  preempted, the idle thread looks for work, a thread is woken, a priority is lent or changed, the clock ticks, a group is reniced or
  changes class, the second is over, a panic begins) runs to its end: no assertion of the scheduler fails, no NULL is
  dereferenced, the search of choosethread ends, and the invariant holds again.\<close>

theorem sched_run_ok:
  assumes "sched_ok s"
  shows "\<exists>s'. fold_opt sched_step es s = Some s' \<and> sched_ok s'"
  by (rule fold_ok [OF sched_step_ok assms])

theorem sched_run_ok_witness:
  "\<exists>s'. fold_opt sched_step [Wake 5 2, Wake 6 2, Tick, Yield, Block 2, Prio 6 100, Second, Yield, Panics, Yield] sched_boot = Some s' \<and> sched_ok s'"
  by (rule sched_run_ok [OF boot_ok])

section \<open>Which threads of a group have a KSE\<close>

lemma assigned_onq:
  assumes i: "vinv {} {} v" and g: "\<And>t. tg v t = g \<Longrightarrow> sa v t" and q: "qu v g = A @ B" "assigned (tk v) (la v g) (iq v g) A B" "distinct A"
  shows "card {k. kgr v k = g \<and> ks v k = KES_ONRUNQ} = length A"
proof -
  let ?f = "\<lambda>t. the (tk v t)"
  have a: "\<exists>k. tk v t = Some k \<and> kt v k = Some t \<and> ks v k = KES_ONRUNQ \<and> kgr v k = g" if t: "t \<in> set A" for t
  proof -
    obtain k where k: "tk v t = Some k" using q(2) t unfolding assigned_def by blast
    have "t \<in> set (qu v g)" using q(1) t by simp
    then have m: "tg v t = g" "st v t = TDS_RUNQ" using group_iff [OF i, of t g] by auto
    have "kt v k = Some t" using link_iff [OF i, of t k] k by simp
    then show ?thesis using k m onq_kse [OF i m(2) _ k] link_group [OF i, of k t] by simp
  qed
  have "bij_betw ?f (set A) {k. kgr v k = g \<and> ks v k = KES_ONRUNQ}"
    unfolding bij_betw_def
  proof (intro conjI)
    show "inj_on ?f (set A)"
    proof (rule inj_onI)
      fix t u assume tu: "t \<in> set A" "u \<in> set A" "?f t = ?f u"
      obtain k k' where "tk v t = Some k" "kt v k = Some t" "tk v u = Some k'" "kt v k' = Some u" using a [OF tu(1)] a [OF tu(2)] by blast
      then show "t = u" using tu(3) by simp
    qed
    show "?f ` set A = {k. kgr v k = g \<and> ks v k = KES_ONRUNQ}"
    proof
      show "?f ` set A \<subseteq> {k. kgr v k = g \<and> ks v k = KES_ONRUNQ}" using a by force
      show "{k. kgr v k = g \<and> ks v k = KES_ONRUNQ} \<subseteq> ?f ` set A"
      proof
        fix k assume k: "k \<in> {k. kgr v k = g \<and> ks v k = KES_ONRUNQ}"
        then obtain t where t: "kt v k = Some t" "st v t = TDS_RUNQ" using onq_thread [OF i, of k] by auto
        have m: "tk v t = Some k" "tg v t = g" using link_iff [OF i, of t k] link_group [OF i, of k t] t k by auto
        then have "t \<in> set (qu v g)" using group_iff [OF i, of t g] t g by simp
        then have "t \<in> set A" using q(1,2) m(1) by (auto simp: assigned_def)
        then show "k \<in> ?f ` set A" using m(1) by (intro image_eqI [of _ _ t]) simp_all
      qed
    qed
  qed
  then show ?thesis using bij_betw_same_card distinct_card [OF q(3)] by metis
qed

text \<open>The rule in a state that satisfies the invariant.\<close>

lemma top_threads:
  assumes "sched_ok s" and "\<forall>t. td_ksegrp (the_td s t) = g \<longrightarrow> is_SA s t"
  shows "let q = kg_runq (the_kg s g); M = card {k. ke_ksegrp (the_ke s k) = g \<and> (ke_state (the_ke s k) = KES_ONRUNQ \<or> ke_state (the_ke s k) = KES_IDLE)} in
     sorted (map (prio s) q) \<and> distinct q \<and> set q = {t. td_ksegrp (the_td s t) = g \<and> td_state (the_td s t) = TDS_RUNQ} \<and>
     {t \<in> set q. td_kse (the_td s t) \<noteq> None} = set (take M q) \<and>
     kg_last_assigned (the_kg s g) = (if take M q = [] then None else Some (last (take M q))) \<and>
     (\<forall>t \<in> set (take M q). \<exists>k. td_kse (the_td s t) = Some k \<and> k \<in> set (rq_queue (the_runq s) (rq_index (prio s t))))"
proof -
  have i: "vinv {} {} (view s)" using assms(1) by (simp add: sched_ok_def)
  obtain A B where q: "qu (view s) g = A @ B" "assigned (tk (view s)) (la (view s) g) (iq (view s) g) A B" "distinct (A @ B)" "sorted (map (pr (view s)) (A @ B))"
    using shape [OF i] by metis
  let ?q = "kg_runq (the_kg s g)"
  let ?O = "{k. ke_ksegrp (the_ke s k) = g \<and> ke_state (the_ke s k) = KES_ONRUNQ}" and ?I = "{k. ke_ksegrp (the_ke s k) = g \<and> ke_state (the_ke s k) = KES_IDLE}"
  have c: "card ?O = length A" using assigned_onq [OF i _ q(1,2)] q(3) assms(2) by simp
  have I: "?I = set (kg_iq (the_kg s g))" using idle_iff [OF i, of _ g] by auto
  have fO: "finite ?O" by (rule finite_subset [OF _ onq_finite [OF i]]) auto
  have M: "card {k. ke_ksegrp (the_ke s k) = g \<and> (ke_state (the_ke s k) = KES_ONRUNQ \<or> ke_state (the_ke s k) = KES_IDLE)} = length A + card ?I" (is "?M = _")
  proof -
    have "{k. ke_ksegrp (the_ke s k) = g \<and> (ke_state (the_ke s k) = KES_ONRUNQ \<or> ke_state (the_ke s k) = KES_IDLE)} = ?O \<union> ?I" by auto
    moreover have "?O \<inter> ?I = {}" by auto
    moreover have "finite ?I" unfolding I by simp
    ultimately show ?thesis using card_Un_disjoint [OF fO, of ?I] c by simp
  qed
  have q': "?q = A @ B" using q(1) by simp
  have t: "take ?M ?q = A"
  proof (cases "kg_iq (the_kg s g) = []")
    case True
    then have "card ?I = 0" unfolding I by simp
    then show ?thesis unfolding M q' by simp
  next
    case False
    then have "B = []" using q(2) by (simp add: assigned_def)
    then show ?thesis unfolding M q' by simp
  qed
  have as: "{t \<in> set ?q. td_kse (the_td s t) \<noteq> None} = set A" using q(2) unfolding q' by (auto simp: assigned_def)
  have k: "\<exists>k. td_kse (the_td s t) = Some k \<and> k \<in> set (rq_queue (the_runq s) (rq_index (prio s t)))" if "t \<in> set A" for t
  proof -
    have "t \<in> {t \<in> set ?q. td_kse (the_td s t) \<noteq> None}" unfolding as using that .
    then obtain k where k: "td_kse (the_td s t) = Some k" by blast
    have r: "td_state (the_td s t) = TDS_RUNQ" using group_iff [OF i, of t g] that q(1) by simp
    have o: "ks (view s) k = KES_ONRUNQ" using onq_kse [OF i, of t k] r k by simp
    obtain t' where "kt (view s) k = Some t'" "ri (view s) k = rq_index (pr (view s) t')" using onq_thread [OF i o] by blast
    moreover have "kt (view s) k = Some t" using link_iff [OF i, of t k] k by simp
    ultimately show ?thesis using queue_iff [OF i, of k "rq_index (prio s t)"] o k by (simp add: prio_def)
  qed
  have "set ?q = {t. td_ksegrp (the_td s t) = g \<and> td_state (the_td s t) = TDS_RUNQ}" using group_iff [OF i, of _ g] assms(2) by auto
  moreover have "pr (view s) = prio s" by (simp add: prio_def fun_eq_iff)
  then have "sorted (map (prio s) ?q)" using q(4) unfolding q' by simp
  ultimately show ?thesis
    unfolding Let_def t using as k q(2,3) q' by (simp add: assigned_def)
qed

lemma boot_queued:
  "\<exists>s'. fold_opt setrunqueue [2, 3, 4] sched_boot = Some s' \<and> sched_ok s' \<and> kg_runq (the_kg s' 2) = [3, 4, 2] \<and>
     (\<forall>t. td_ksegrp (the_td s' t) = 2 \<longrightarrow> is_SA s' t)"
proof -
  have frame: "vframe u w" if "vframe u v" "vframe v w" for u v w using that by (simp add: vframe_def)
  obtain s1 where s1: "setrunqueue 2 sched_boot = Some s1" "sched_ok s1" "vframe (view sched_boot) (view s1)"
      "st (view s1) = (st (view sched_boot))(2 := TDS_RUNQ)" "pr (view s1) = pr (view sched_boot)" "qu (view s1) = queued 2 (view sched_boot)"
    using setrunqueue_sched_ok [OF boot_ok, of 2] by (auto simp: boot_defs)
  have t1: "td_state (the_td s1 3) = TDS_CAN_RUN" "in_mem s1 (td_proc (the_td s1 3))" "sa (view s1) 3" "tg (view s1) 3 = 2"
    using fun_cong [OF s1(4), of 3] s1(3) by (auto simp: vframe_def boot_defs dest!: fun_cong [where x = 3])
  obtain s2 where s2: "setrunqueue 3 s1 = Some s2" "sched_ok s2" "vframe (view s1) (view s2)"
      "st (view s2) = (st (view s1))(3 := TDS_RUNQ)" "pr (view s2) = pr (view s1)" "qu (view s2) = queued 3 (view s1)"
    using setrunqueue_sched_ok [OF s1(2) t1(1,2)] by auto
  have f2: "vframe (view sched_boot) (view s2)" by (rule frame [OF s1(3) s2(3)])
  have t2: "td_state (the_td s2 4) = TDS_CAN_RUN" "in_mem s2 (td_proc (the_td s2 4))" "sa (view s2) 4" "tg (view s2) 4 = 2"
    using fun_cong [OF s2(4), of 4] fun_cong [OF s1(4), of 4] f2 by (auto simp: vframe_def boot_defs dest!: fun_cong [where x = 4])
  obtain s3 where s3: "setrunqueue 4 s2 = Some s3" "sched_ok s3" "vframe (view s2) (view s3)"
      "pr (view s3) = pr (view s2)" "qu (view s3) = queued 4 (view s2)"
    using setrunqueue_sched_ok [OF s2(2) t2(1,2)] by auto
  have f3: "vframe (view sched_boot) (view s3)" by (rule frame [OF f2 s3(3)])
  have "qu (view s1) 2 = [2]" unfolding s1(6) by (simp add: queued_def boot_defs)
  then have "qu (view s2) 2 = [3, 2]" unfolding s2(6) using t1(3,4) fun_cong [OF s1(5), of 2] fun_cong [OF s1(5), of 3] by (simp add: queued_def boot_defs)
  then have "qu (view s3) 2 = [3, 4, 2]"
    unfolding s3(5) using t2(3,4) fun_cong [OF s1(5)] fun_cong [OF s2(5)] by (simp add: queued_def boot_defs)
  moreover have "\<forall>t. tg (view s3) t = 2 \<longrightarrow> sa (view s3) t" using f3 by (simp add: vframe_def) (auto simp: boot_defs split: if_splits)
  ultimately show ?thesis using s1(1) s2(1) s3(1,2) by simp
qed

lemma run_ok: "sched_ok s0 \<Longrightarrow> fold_opt sched_step es s0 = Some s \<Longrightarrow> sched_ok s"
  using fold_ok [of sched_ok sched_step, OF sched_step_ok, of s0 es] by auto

text \<open>C4: (refinement) Along every sequence of events, of any group whose threads are all of threaded processes (P_SA) at the start: the run
  queue of the group is in the order of priority, and the threads with a KSE are exactly the first M, where M
  is the number of KSEs of the group that no thread outside the queue has, that is those on the system run queue and
  the idle ones: the abstract rule the comment at the top of kern/kern_switch.c states. kg_last_assigned is the last of them, and the KSE of each
  is queued at its priority. So setrunqueue, adjustrunqueue, kse_reassign and choosethread move the KSEs to the right threads at every event.\<close>

theorem sched_top_threads:
  assumes "sched_ok s0" and "\<forall>t. td_ksegrp (the_td s0 t) = g \<longrightarrow> is_SA s0 t" and "fold_opt sched_step es s0 = Some s"
  shows "let q = kg_runq (the_kg s g); M = card {k. ke_ksegrp (the_ke s k) = g \<and> (ke_state (the_ke s k) = KES_ONRUNQ \<or> ke_state (the_ke s k) = KES_IDLE)} in
     sorted (map (prio s) q) \<and> distinct q \<and> set q = {t. td_ksegrp (the_td s t) = g \<and> td_state (the_td s t) = TDS_RUNQ} \<and>
     {t \<in> set q. td_kse (the_td s t) \<noteq> None} = set (take M q) \<and>
     kg_last_assigned (the_kg s g) = (if take M q = [] then None else Some (last (take M q))) \<and>
     (\<forall>t \<in> set (take M q). \<exists>k. td_kse (the_td s t) = Some k \<and> k \<in> set (rq_queue (the_runq s) (rq_index (prio s t))))"
proof -
  have "\<forall>t. td_ksegrp (the_td s t) = g \<longrightarrow> is_SA s t" using assms(2) tied_SA [OF tied_run [OF assms(3)]] by simp
  then show ?thesis by (rule top_threads [OF run_ok [OF assms(1,3)]])
qed

theorem sched_top_threads_witness:
  "\<exists>s0 s. fold_opt setrunqueue [2, 3, 4] sched_boot = Some s0 \<and> kg_runq (the_kg s0 2) = [3, 4, 2] \<and>
     fold_opt sched_step [Wake 6 2, Prio 2 159, Tick, Yield, Second] s0 = Some s \<and>
     {t \<in> set (kg_runq (the_kg s 2)). td_kse (the_td s t) \<noteq> None} =
       set (take (card {k. ke_ksegrp (the_ke s k) = 2 \<and> (ke_state (the_ke s k) = KES_ONRUNQ \<or> ke_state (the_ke s k) = KES_IDLE)}) (kg_runq (the_kg s 2)))"
proof -
  obtain s0 where s0: "fold_opt setrunqueue [2, 3, 4] sched_boot = Some s0" "sched_ok s0" "kg_runq (the_kg s0 2) = [3, 4, 2]"
      "\<forall>t. td_ksegrp (the_td s0 t) = 2 \<longrightarrow> is_SA s0 t"
    using boot_queued by blast
  obtain s where s: "fold_opt sched_step [Wake 6 2, Prio 2 159, Tick, Yield, Second] s0 = Some s"
    using fold_ok [of sched_ok sched_step, OF sched_step_ok s0(2), of "[Wake 6 2, Prio 2 159, Tick, Yield, Second]"] by blast
  show ?thesis using sched_top_threads [OF s0(2,4) s] s0(1,3) s unfolding Let_def by blast
qed

section \<open>Who runs next\<close>

lemma flat_hd_min:
  assumes "flat r n = k # zs" "k' \<in> set (r p')" "p' < n" and only: "\<And>q. k \<in> set (r q) \<Longrightarrow> q = p"
  shows "p \<le> p'"
proof -
  obtain B where B: "flat r n = flat r p' @ r p' @ B" using flat_upd_split [OF assms(3)] by blast
  have "r p' \<noteq> []" using assms(2) by auto
  then have "k \<in> set (flat r p' @ r p')" using B assms(1) by (cases "flat r p'"; cases "r p'") auto
  then have "\<exists>q \<le> p'. k \<in> set (r q)" by (auto simp: set_flat intro: less_imp_le)
  then obtain q where "q \<le> p'" "k \<in> set (r q)" by blast
  then show ?thesis using only by blast
qed

lemma rq_index_mono: "p \<le> q \<Longrightarrow> rq_index p \<le> rq_index q"
  by (simp add: rq_index_def word_le_nat_alt div_le_mono)

lemma switch_best:
  assumes i: "vinv {} {} (view s)" and t: "t = curthread s" "td_kse (the_td s t) = Some k0" "in_mem s (td_proc (the_td s t))"
    and stt: "td_state (the_td s t) = TDS_RUNNING \<or> td_state (the_td s t) = TDS_INHIBITED \<or> td_state (the_td s t) = TDS_CAN_RUN \<and> \<not> is_SA s t"
    and np: "\<not> panicstr s" and s': "sched_switch t s = Some s'"
  shows "\<forall>u. td_state (the_td s' u) = TDS_RUNQ \<and>
      (td_kse (the_td s' u) \<noteq> None \<or> is_SA s' (curthread s') \<and> td_ksegrp (the_td s' u) = td_ksegrp (the_td s' (curthread s'))) \<longrightarrow>
      rq_index (prio s' (curthread s')) \<le> rq_index (prio s' u)"
proof -
  obtain s2 where s2: "vinv {} {} (view s2)" "vframe (view s) (view s2)"
      "sched_switch t s = choosethread s2 \<bind> (\<lambda>(s3, td). Some (upd_td td (\<lambda>t. t\<lparr>td_oncpu := 0\<rparr>) (s3\<lparr>curthread := td\<rparr>)))"
    by (rule sched_switch_mid [OF i t stt]) (rule that, assumption+)
  have np2: "\<not> panicstr s2" using s2(2) np by (simp add: vframe_def)
  from s2(1) np2 show ?thesis
  proof (cases rule: choosethread_first)
    case (idle s3)
    let ?i = "idlethread s2"
    have v: "view s' = (view s3)\<lparr>cur := ?i\<rparr>" using s' s2(3) idle(1) view_switch [of ?i s3] by simp
    have v': "view s' = (view s2)\<lparr>st := (st (view s2))(?i := TDS_RUNNING), cur := ?i\<rparr>" unfolding v idle(3) by simp
    have c: "curthread s' = ?i" using arg_cong [OF v', of cur] by simp
    have "\<not> is_SA s' (curthread s')"
      using fun_cong [OF arg_cong [OF v', of sa], of ?i] vinvD(8) [OF s2(1)] unfolding c by (simp add: v_cpu_def)
    moreover have "td_kse (the_td s' u) = None" if "td_state (the_td s' u) = TDS_RUNQ" for u
    proof (rule ccontr)
      assume "td_kse (the_td s' u) \<noteq> None"
      then obtain k where "tk (view s2) u = Some k" using fun_cong [OF arg_cong [OF v', of tk], of u] by auto
      moreover have "st (view s2) u = TDS_RUNQ" using fun_cong [OF arg_cong [OF v', of st], of u] that by (simp split: if_splits)
      ultimately show False using onq_kse [OF s2(1), of u k] idle(2) by simp
    qed
    ultimately show ?thesis by auto
  next
    case (first s3 k td zs)
    have v: "view s' = (view s3)\<lparr>cur := td\<rparr>" using s' s2(3) first(1) view_switch [of td s3] by simp
    have v': "view s' = (v_rem k (v_stop td (view s2)))\<lparr>st := (st (view s2))(td := TDS_RUNNING), cur := td\<rparr>" unfolding v first(7) by simp
    have c: "curthread s' = td" using arg_cong [OF v', of cur] by simp
    have f: "prio s' = pr (view s2)" "\<And>u. td_kse (the_td s' u) = tk (view s2) u" "\<And>u. td_ksegrp (the_td s' u) = tg (view s2) u" "\<And>u. is_SA s' u = sa (view s2) u"
      using arg_cong [OF v', of pr] fun_cong [OF arg_cong [OF v', of tk]] fun_cong [OF arg_cong [OF v', of tg]] fun_cong [OF arg_cong [OF v', of sa]]
      by (auto simp: prio_def fun_eq_iff)
    have ri: "ri (view s2) k = rq_index (pr (view s2) td)"
      using onq_thread [OF s2(1), of k] first(3,4) by auto
    show ?thesis
    proof (intro allI impI)
      fix u assume u: "td_state (the_td s' u) = TDS_RUNQ \<and>
          (td_kse (the_td s' u) \<noteq> None \<or> is_SA s' (curthread s') \<and> td_ksegrp (the_td s' u) = td_ksegrp (the_td s' (curthread s')))"
      have ru: "st (view s2) u = TDS_RUNQ" "u \<noteq> td" using fun_cong [OF arg_cong [OF v', of st], of u] u by (auto split: if_splits)
      show "rq_index (prio s' (curthread s')) \<le> rq_index (prio s' u)"
      proof (cases "tk (view s2) u")
        case (Some k')
        have o: "ks (view s2) k' = KES_ONRUNQ" by (rule onq_kse [OF s2(1) ru(1) _ Some]) simp
        have k': "k' \<in> set (rq (view s2) (ri (view s2) k'))" using queue_iff [OF s2(1)] o by blast
        have "ri (view s2) k \<le> ri (view s2) k'"
          by (rule flat_hd_min [OF first(2) k' onq_index [OF s2(1) o]]) (use queue_iff [OF s2(1), of k] in auto)
        moreover have "ri (view s2) k' = rq_index (pr (view s2) u)"
          using onq_thread [OF s2(1) o] link_iff [OF s2(1), of u k'] Some by auto
        ultimately show ?thesis unfolding c f(1) ri by simp
      next
        case None
        then have g: "sa (view s2) td" "tg (view s2) u = tg (view s2) td" using u f c by auto
        have "sa (view s2) u" using plain_kse [OF s2(1), of u] ru(1) None by auto
        then have m: "u \<in> set (qu (view s2) (tg (view s2) td))" "td \<in> set (qu (view s2) (tg (view s2) td))"
          using group_iff [OF s2(1)] g ru(1) first(6) by auto
        obtain A B where q: "qu (view s2) (tg (view s2) td) = A @ B" "assigned (tk (view s2)) (la (view s2) (tg (view s2) td)) (iq (view s2) (tg (view s2) td)) A B"
            "sorted (map (pr (view s2)) (A @ B))"
          using shape [OF s2(1)] by metis
        have "u \<in> set B" using m(1) q(1,2) None by (auto simp: assigned_def)
        moreover have "td \<in> set A" using m(2) q(1,2) first(5) by (auto simp: assigned_def)
        ultimately have "pr (view s2) td \<le> pr (view s2) u" using q(3) by (auto simp: sorted_append)
        then show ?thesis unfolding c f(1) by (rule rq_index_mono)
      qed
    qed
  qed
qed

text \<open>The three events that switch, as calls of \<open>sched_switch\<close>.\<close>

lemma switch_event:
  assumes s: "sched_ok s" and e: "e = Yield \<or> e = Idle \<or> e = Block inhib" "sched_enabled e s"
  obtains s1 k where "sched_step e s = sched_switch (curthread s) s1" "vinv {} {} (view s1)" "curthread s = curthread s1"
    "td_kse (the_td s1 (curthread s)) = Some k" "in_mem s1 (td_proc (the_td s1 (curthread s)))"
    "td_state (the_td s1 (curthread s)) = TDS_RUNNING \<or> td_state (the_td s1 (curthread s)) = TDS_INHIBITED \<or>
       td_state (the_td s1 (curthread s)) = TDS_CAN_RUN \<and> \<not> is_SA s1 (curthread s)" "panicstr s1 = panicstr s"
proof -
  let ?t = "curthread s"
  note i = s [unfolded sched_ok_def, THEN conjunct1]
  obtain k where k: "td_kse (the_td s ?t) = Some k" using sched_ok_cur(2) [OF s] by blast
  have run: "td_state (the_td s ?t) = TDS_RUNNING" "in_mem s (td_proc (the_td s ?t))" using sched_ok_cur [OF s] by auto
  from e(1) consider (y) "e = Yield" | (i) "e = Idle" | (b) "e = Block inhib" by blast
  then show thesis
  proof cases
    case y
    show thesis by (rule that [OF _ i refl k run(2) disjI1 [OF run(1)] refl]) (use y e(2) in \<open>simp add: sched_step_def sched_do_def Let_def\<close>)
  next
    case i': i
    let ?s = "upd_td ?t (\<lambda>t. t\<lparr>td_state := TDS_CAN_RUN\<rparr>) s"
    have v: "view ?s = (view s)\<lparr>st := (st (view s))(?t := TDS_CAN_RUN)\<rparr>" by (auto simp: view_upd)
    have "?t = idlethread s" using e(2) i' by (simp add: sched_enabled_def Let_def)
    then have "\<not> is_SA s ?t" using vinvD(8) [OF i] by (simp add: v_cpu_def)
    moreover have "vinv {} {} (view ?s)" unfolding v by (rule vinv_pause [OF i]) (use run in auto)
    ultimately show thesis
      by (intro that [of ?s k]) (use i' e(2) k run in \<open>auto simp: sched_step_def sched_do_def Let_def in_mem_def is_SA_def\<close>)
  next
    case b
    let ?s = "upd_td ?t (TD_SET_INHIB inhib) s"
    have v: "view ?s = (view s)\<lparr>st := (st (view s))(?t := TDS_INHIBITED)\<rparr>" by (auto simp: view_upd TD_SET_INHIB_def)
    have "vinv {} {} (view ?s)" unfolding v by (rule vinv_pause [OF i]) (use run in auto)
    then show thesis
      by (intro that [of ?s k]) (use b e(2) k run in \<open>auto simp: sched_step_def sched_do_def Let_def in_mem_def TD_SET_INHIB_def\<close>)
  qed
qed

text \<open>C35: (functional) Outside a panic, whenever the running thread yields, blocks, or the idle thread looks for work, the thread that runs
  next is in the best system queue (a queue holds four priorities) of all the threads that could have run: no thread
  that is left waiting with a KSE is in a better one, nor is any thread of its own group that waits without.
\<close>

theorem sched_picks_best:
  assumes "sched_ok s" and "\<not> panicstr s" and "e = Yield \<or> e = Idle \<or> e = Block inhib" and "sched_enabled e s"
    and "sched_step e s = Some s'"
  shows "\<forall>u. td_state (the_td s' u) = TDS_RUNQ \<and>
      (td_kse (the_td s' u) \<noteq> None \<or> is_SA s' (curthread s') \<and> td_ksegrp (the_td s' u) = td_ksegrp (the_td s' (curthread s'))) \<longrightarrow>
      rq_index (prio s' (curthread s')) \<le> rq_index (prio s' u)"
proof -
  obtain s1 k where s1: "sched_step e s = sched_switch (curthread s) s1" "vinv {} {} (view s1)" "curthread s = curthread s1"
    "td_kse (the_td s1 (curthread s)) = Some k" "in_mem s1 (td_proc (the_td s1 (curthread s)))"
    "td_state (the_td s1 (curthread s)) = TDS_RUNNING \<or> td_state (the_td s1 (curthread s)) = TDS_INHIBITED \<or>
       td_state (the_td s1 (curthread s)) = TDS_CAN_RUN \<and> \<not> is_SA s1 (curthread s)" "panicstr s1 = panicstr s"
    using switch_event [OF assms(1,3,4)] by blast
  have "\<not> panicstr s1" using s1(7) assms(2) by simp
  then show ?thesis using switch_best [OF s1(2-6)] s1(1) assms(5) by simp
qed

lemma boot_run_ok: "fold_opt sched_step es sched_boot = Some s \<Longrightarrow> sched_ok s"
  by (rule run_ok [OF boot_ok])


lemma wake_yield:
  "map_option (\<lambda>s. (panicstr s, sched_enabled Yield s, map_option (\<lambda>s'. (curthread s', td_state (the_td s' 1), td_kse (the_td s' 1))) (sched_step Yield s)))
     (fold_opt sched_step [Wake 5 2, Prio 5 100] sched_boot) = Some (False, True, Some (5, TDS_RUNQ, Some 1))"
  by code_simp

theorem sched_picks_best_witness:
  "\<exists>s s'. fold_opt sched_step [Wake 5 2, Prio 5 100] sched_boot = Some s \<and> sched_step Yield s = Some s' \<and> curthread s' = 5 \<and>
     rq_index (prio s' (curthread s')) \<le> rq_index (prio s' 1)"
proof -
  obtain s s' where s: "fold_opt sched_step [Wake 5 2, Prio 5 100] sched_boot = Some s" "\<not> panicstr s" "sched_enabled Yield s"
      "sched_step Yield s = Some s'" "curthread s' = 5" "td_state (the_td s' 1) = TDS_RUNQ" "td_kse (the_td s' 1) = Some 1"
    using wake_yield by (auto split: option.splits)
  have "rq_index (prio s' (curthread s')) \<le> rq_index (prio s' 1)"
    using sched_picks_best [OF boot_run_ok [OF s(1)] s(2) disjI1 [OF refl] s(3,4)] s(6,7) by blast
  then show ?thesis using s by blast
qed

section \<open>Round robin\<close>

text \<open>The system as round robin sees it: every thread that runs or could run is unthreaded and in the queue of \<open>t\<close> or a later one.\<close>

definition rr_ready :: "tid \<Rightarrow> sched \<Rightarrow> bool" where
  "rr_ready t s \<longleftrightarrow> \<not> panicstr s \<and> curthread s \<noteq> idlethread s \<and> td_state (the_td s (idlethread s)) \<noteq> TDS_RUNQ \<and>
     td_state (the_td s t) = TDS_RUNQ \<and>
     (\<forall>u. td_state (the_td s u) = TDS_RUNQ \<or> td_state (the_td s u) = TDS_RUNNING \<longrightarrow>
        \<not> is_SA s u \<and> rq_index (prio s t) \<le> rq_index (prio s u))"

lemma yield_rr:
  assumes s: "sched_ok s" and r: "rr_ready t s" and k: "td_kse (the_td s t) = Some k"
  shows "\<exists>s'. sched_step Yield s = Some s' \<and> sched_ok s' \<and> td_kse (the_td s' t) = Some k \<and>
    (if ahead (rq_queue (the_runq s)) RQ_NQS k = 0 then curthread s' = t
     else rr_ready t s' \<and> ahead (rq_queue (the_runq s')) RQ_NQS k = ahead (rq_queue (the_runq s)) RQ_NQS k - 1)"
proof -
  let ?c = "curthread s"
  note i = s [unfolded sched_ok_def, THEN conjunct1]
  have run: "td_state (the_td s ?c) = TDS_RUNNING" "in_mem s (td_proc (the_td s ?c))" using sched_ok_cur [OF s] by auto
  obtain k0 where k0: "td_kse (the_td s ?c) = Some k0" using sched_ok_cur(2) [OF s] by blast
  have c: "\<not> is_SA s ?c" "rq_index (prio s t) \<le> rq_index (prio s ?c)" using r run by (simp_all add: rr_ready_def)
  have t: "td_state (the_td s t) = TDS_RUNQ" "t \<noteq> ?c" using r run by (auto simp: rr_ready_def)
  obtain s2 where s2: "vinv {} {} (view s2)" "\<And>t'. td_state (the_td s2 t') \<noteq> TDS_RUNNING"
      "sched_switch ?c s = choosethread s2 \<bind> (\<lambda>(s3, td). Some (upd_td td (\<lambda>t. t\<lparr>td_oncpu := 0\<rparr>) (s3\<lparr>curthread := td\<rparr>)))"
      "td_state (the_td s ?c) = TDS_RUNNING \<Longrightarrow> \<not> is_SA s ?c \<Longrightarrow> view s2 = v_add k0 ?c (v_start ?c (view s))"
    by (rule sched_switch_mid [OF i refl k0 run(2) disjI1 [OF run(1)]]) (rule that, assumption+)
  have v2: "view s2 = v_add k0 ?c (v_start ?c (view s))" using s2(4) run(1) c(1) by blast
  let ?r = "rq (view s)" and ?p = "rq_index (prio s ?c)"
  have r2: "rq (view s2) = ?r(?p := ?r ?p @ [k0])" unfolding v2 by (simp add: v_add_def v_start_def prio_def)
  have kk: "ke_state (the_ke s k) = KES_ONRUNQ" "ke_rqindex (the_ke s k) = rq_index (prio s t)"
  proof -
    show o: "ke_state (the_ke s k) = KES_ONRUNQ" using onq_kse [OF i, of t k] t k by simp
    show "ke_rqindex (the_ke s k) = rq_index (prio s t)"
      using onq_thread [OF i, of k] o link_iff [OF i, of t k] k by (auto simp: prio_def)
  qed
  have kin: "k \<in> set (?r (rq_index (prio s t)))" using queue_iff [OF i, of k] kk by simp
  have a2: "ahead (rq (view s2)) RQ_NQS k = ahead ?r RQ_NQS k" unfolding r2 by (rule ahead_add [where r = ?r, OF rq_index_less kin c(2)])
  have k2: "ks (view s2) k = KES_ONRUNQ" "tk (view s2) t = Some k" "st (view s2) t = TDS_RUNQ"
    unfolding v2 using kk k t by (simp_all add: v_start_def)
  have np2: "\<not> panicstr s2" using arg_cong [OF v2, of pan] r by (simp add: rr_ready_def v_start_def)
  from s2(1) np2 show ?thesis
  proof (cases rule: choosethread_first)
    case idle
    then show ?thesis using k2(1) by simp
  next
    case (first s3 k1 td zs)
    let ?s = "upd_td td (\<lambda>t. t\<lparr>td_oncpu := 0\<rparr>) (s3\<lparr>curthread := td\<rparr>)"
    have step: "sched_step Yield s = Some ?s"
      using s2(3) first(1) r by (simp add: sched_step_def sched_enabled_def sched_do_def Let_def rr_ready_def)
    have ok: "sched_ok ?s" using sched_step_ok [OF s, of Yield] step by simp
    have v: "view ?s = (v_rem k1 (v_stop td (view s2)))\<lparr>st := (st (view s2))(td := TDS_RUNNING), cur := td\<rparr>" unfolding view_switch first(7) by simp
    have kse: "td_kse (the_td ?s t) = Some k" using fun_cong [OF arg_cong [OF v, of tk], of t] k2(2) by simp
    have k1: "k1 \<in> set (rq (view s2) (ri (view s2) k1))" using queue_iff [OF s2(1), of k1] first(3) by simp
    have kt: "kt (view s2) k = Some t" using link_iff [OF s2(1), of t k] k2(2) by simp
    show ?thesis
    proof (cases "k1 = k")
      case True
      then have "td = t" using first(4) kt by simp
      moreover have "ahead ?r RQ_NQS k = 0" using a2 first(2) True by (simp add: ahead_def)
      ultimately show ?thesis using step ok kse by simp
    next
      case False
      have d: "distinct (flat (rq (view s2)) RQ_NQS)" using vinvD(1) [OF s2(1)] by (simp add: v_queue_def)
      have o1: "ks (view s2) k1 = KES_ONRUNQ" using first(3) by simp
      have tk: "ahead ((rq (view s2))(ri (view s2) k1 := remove1 k1 (rq (view s2) (ri (view s2) k1)))) RQ_NQS k =
          ahead (rq (view s2)) RQ_NQS k - 1 \<and> 0 < ahead (rq (view s2)) RQ_NQS k"
        by (rule ahead_taken [OF first(2) onq_index [OF s2(1) o1] k1 d]) (use False in simp)
      have rqs: "rq_queue (the_runq ?s) = (rq (view s2))(ri (view s2) k1 := remove1 k1 (rq (view s2) (ri (view s2) k1)))"
        using arg_cong [OF v, of rq] by (simp add: v_rem_def v_stop_def v_put_def Let_def)
      have tt: "td \<noteq> t" using False k2(2) first(5) by auto
      have st': "td_state (the_td ?s u) = (if u = td then TDS_RUNNING else if u = ?c then TDS_RUNQ else td_state (the_td s u))" for u
        using fun_cong [OF arg_cong [OF v, of st], of u] unfolding v2 by (simp add: v_start_def)
      have run1: "td_state (the_td s u) = TDS_RUNNING \<Longrightarrow> u = ?c" for u using vinvD(8) [OF i] by (simp add: v_cpu_def)
      have tdq: "td = ?c \<or> td_state (the_td s td) = TDS_RUNQ"
        using first(6) fun_cong [OF arg_cong [OF v2, of st], of td] by (auto simp: v_start_def split: if_splits)
      have same: "prio ?s = prio s" "is_SA ?s u = is_SA s u" "idlethread ?s = idlethread s" "panicstr ?s = panicstr s" "curthread ?s = td" for u
        using arg_cong [OF v, of pr] fun_cong [OF arg_cong [OF v, of sa], of u] arg_cong [OF v, of idt] arg_cong [OF v, of pan] arg_cong [OF v, of cur]
        unfolding v2 by (auto simp: prio_def fun_eq_iff v_start_def)
      have sets: "td_state (the_td s u) = TDS_RUNQ \<or> td_state (the_td s u) = TDS_RUNNING"
        if "td_state (the_td ?s u) = TDS_RUNQ \<or> td_state (the_td ?s u) = TDS_RUNNING" for u
        using that tdq run(1) unfolding st' by (auto split: if_splits)
      have "rr_ready t ?s"
        unfolding rr_ready_def same
      proof (intro conjI allI impI)
        show "\<not> panicstr s" using r by (simp add: rr_ready_def)
        show "td \<noteq> idlethread s" using tdq r by (auto simp: rr_ready_def)
        show "td_state (the_td ?s (idlethread s)) \<noteq> TDS_RUNQ" using tdq r unfolding st' by (auto simp: rr_ready_def)
        show "td_state (the_td ?s t) = TDS_RUNQ" using tt t unfolding st' by simp
        fix u assume "td_state (the_td ?s u) = TDS_RUNQ \<or> td_state (the_td ?s u) = TDS_RUNNING"
        then show "\<not> is_SA s u" "rq_index (prio s t) \<le> rq_index (prio s u)" using sets r by (auto simp: rr_ready_def)
      qed
      then show ?thesis using step ok kse tk a2 rqs by simp
    qed
  qed
qed

text \<open>C36: (liveness) Round robin: when every thread that runs or could run is unthreaded and in the system queue of t or a worse one, and each gives
  up the cpu in turn, then t runs after exactly as many switches as there are entries before its KSE in the queues, plus one; nobody is overtaken.\<close>

theorem sched_round_robin:
  assumes "sched_ok s" and "rr_ready t s" and "td_kse (the_td s t) = Some k"
  shows "\<exists>s'. fold_opt sched_step (replicate (Suc (ahead (rq_queue (the_runq s)) RQ_NQS k)) Yield) s = Some s' \<and> curthread s' = t"
  using assms
proof (induction "ahead (rq_queue (the_runq s)) RQ_NQS k" arbitrary: s)
  case 0
  then obtain s' where "sched_step Yield s = Some s'" "curthread s' = t"
    using yield_rr [OF 0(2-4)] by auto
  then show ?case using 0(1) [symmetric] by simp
next
  case (Suc n)
  obtain s' where s': "sched_step Yield s = Some s'" "sched_ok s'" "td_kse (the_td s' t) = Some k" "rr_ready t s'"
      "ahead (rq_queue (the_runq s')) RQ_NQS k = n"
    using yield_rr [OF Suc(3-5)] Suc(2) by auto
  then show ?case using Suc(1) [OF s'(5) [symmetric] s'(2,4,3)] Suc(2) [symmetric] by simp
qed

theorem sched_round_robin_witness:
  "\<exists>s s'. setrunqueue 7 sched_boot = Some s \<and> td_kse (the_td s 7) = Some 5 \<and>
     fold_opt sched_step (replicate (Suc (ahead (rq_queue (the_runq s)) RQ_NQS 5)) Yield) s = Some s' \<and> curthread s' = 7"
proof -
  have b: "td_state (the_td sched_boot 7) = TDS_CAN_RUN" "in_mem sched_boot (td_proc (the_td sched_boot 7))" "\<not> is_SA sched_boot 7"
      "td_kse (the_td sched_boot 7) = Some 5" by (simp_all add: boot_defs)
  obtain s where s: "setrunqueue 7 sched_boot = Some s" "sched_ok s" using setrunqueue_sched_ok [OF boot_ok b(1,2)] by blast
  have v: "view s = v_add 5 7 (v_start 7 (view sched_boot))"
    using setrunqueue_plain [OF boot_ok [unfolded sched_ok_def, THEN conjunct1] disjI1 [OF b(1)] b(2-4)] s(1) by auto
  have st: "td_state (the_td s u) = (if u = 7 then TDS_RUNQ else td_state (boot_thread u))" for u
    using fun_cong [OF arg_cong [OF v, of st], of u] by (simp add: v_start_def sched_boot_def)
  have same: "prio s u = td_priority (boot_thread u)" "is_SA s u = is_SA sched_boot u" "idlethread s = 0" "\<not> panicstr s" "curthread s = 1"
      "td_kse (the_td s 7) = Some 5" for u
    using fun_cong [OF arg_cong [OF v, of pr], of u] fun_cong [OF arg_cong [OF v, of sa], of u] arg_cong [OF v, of idt] arg_cong [OF v, of pan]
      arg_cong [OF v, of cur] fun_cong [OF arg_cong [OF v, of tk], of 7]
    by (simp_all add: prio_def v_start_def sched_boot_def boot_thread_def)
  have "rr_ready 7 s"
    unfolding rr_ready_def same st by (auto simp: boot_defs same(4) split: if_splits)
  then show ?thesis using sched_round_robin [OF s(2) _ same(6)] s(1) same(6) by blast
qed

section \<open>The user priority\<close>

lemma fold_maybe_resched_kg [simp]: "the_kg (fold maybe_resched ts s) = the_kg s"
  by (induction ts arbitrary: s) (simp_all add: maybe_resched_def)

text \<open>The computation in a state that satisfies the invariant.\<close>

lemma user_pri:
  assumes "sched_ok s" and "kg_pri_class (the_kg s g) = PRI_TIMESHARE" and "-20 \<le> kg_nice (the_kg s g)" "kg_nice (the_kg s g) \<le> 20"
  shows "unat (kg_user_pri (the_kg (resetpriority g s) g)) =
      min 223 (160 + unat (kg_estcpu (the_kg s g)) div 8 + nat (kg_nice (the_kg s g) + 20)) \<and> unat (kg_estcpu (the_kg s g)) \<le> 295"
proof -
  let ?e = "kg_estcpu (the_kg s g)" and ?n = "kg_nice (the_kg s g)"
  have e: "unat ?e \<le> 295" using vinv_bounds [of "{}" "{}" s g] assms(1) by (simp add: sched_ok_def ESTCPU_MAX_def word_le_nat_alt)
  let ?d = "word_of_int (?n - PRIO_MIN) :: u32"
  have "?n - PRIO_MIN = int (nat (?n + 20))" using assms(3) by (simp add: PRIO_MIN_def)
  then have "?d = of_nat (nat (?n + 20))" by (metis of_int_of_nat_eq)
  then have d: "unat ?d = nat (?n + 20)" using assms(4) by (simp only:) (simp add: unsigned_of_nat take_bit_nat_eq_self)
  define w where "w = ?d"
  have w: "unat w = nat (?n + 20)" unfolding w_def by (rule d)
  let ?p = "PUSER + ?e div INVERSE_ESTCPU_WEIGHT + NICE_WEIGHT * w"
  have q: "unat (?e div 8) = unat ?e div 8" by (simp add: unat_div)
  have "unat (160 + ?e div 8) = 160 + unat ?e div 8" using e by (simp add: unat_word_ariths q)
  then have p: "unat ?p = 160 + unat ?e div 8 + nat (?n + 20)"
    using e assms(4) by (simp add: PUSER_def INVERSE_ESTCPU_WEIGHT_def NICE_WEIGHT_def unat_word_ariths w)
  let ?m = "min (max ?p PRI_MIN_TIMESHARE) PRI_MAX_TIMESHARE"
  have m: "unat ?m = min 223 (160 + unat ?e div 8 + nat (?n + 20))"
    using p by (auto simp: min_def max_def word_le_nat_alt PRI_MIN_TIMESHARE_def PRI_MAX_TIMESHARE_def)
  have "kg_user_pri (the_kg (resetpriority g s) g) = ucast ?m"
    unfolding w_def using assms(2) by (simp add: resetpriority_def Let_def)
  moreover have "unat (ucast ?m :: u8) = unat ?m"
    using m by (simp add: unsigned_ucast_eq take_bit_nat_eq_self)
  ultimately show ?thesis using m e by simp
qed

text \<open>C37: (bounds) Along every sequence of events the estimate of the cpu use of every group stays at most 295, and the user priority that resetpriority
  gives a timesharing group is exactly 160, plus an eighth of the estimate, plus its nice value counted from the
  least, cut off at 223, for every nice value from -20 to 20: nothing wraps in the
  unsigned and the 8 bit arithmetic. The bound is that of ESTCPULIM in sched_clock; the comment at updatepri says 255.\<close>

theorem sched_user_pri:
  assumes "sched_ok s0" and "fold_opt sched_step es s0 = Some s"
  shows "unat (kg_estcpu (the_kg s g)) \<le> 295 \<and>
    (kg_pri_class (the_kg s g) = PRI_TIMESHARE \<and> -20 \<le> kg_nice (the_kg s g) \<and> kg_nice (the_kg s g) \<le> 20 \<longrightarrow>
     unat (kg_user_pri (the_kg (resetpriority g s) g)) =
       min 223 (160 + unat (kg_estcpu (the_kg s g)) div 8 + nat (kg_nice (the_kg s g) + 20)))"
proof -
  have ok: "sched_ok s" by (rule run_ok [OF assms])
  have "unat (kg_estcpu (the_kg s g)) \<le> 295"
    using vinv_bounds [of "{}" "{}" s g] ok by (simp add: sched_ok_def ESTCPU_MAX_def word_le_nat_alt)
  then show ?thesis using user_pri [OF ok, of g] by blast
qed

theorem sched_user_pri_witness:
  "\<exists>s. fold_opt sched_step [Nice 1 5, Tick, Tick, Second] sched_boot = Some s \<and> unat (kg_estcpu (the_kg s 1)) \<le> 295 \<and>
     unat (kg_user_pri (the_kg (resetpriority 1 sched_boot) 1)) = 180"
proof -
  obtain s where s: "fold_opt sched_step [Nice 1 5, Tick, Tick, Second] sched_boot = Some s"
    using fold_ok [of sched_ok sched_step, OF sched_step_ok boot_ok, of "[Nice 1 5, Tick, Tick, Second]"] by blast
  have "unat (kg_user_pri (the_kg (resetpriority 1 sched_boot) 1)) = 180"
    using sched_user_pri [OF boot_ok, of "[]" sched_boot 1] by (simp add: boot_defs)
  then show ?thesis using sched_user_pri [OF boot_ok s, of 1] s by blast
qed

section \<open>What the comments and the counters say\<close>

text \<open>
  The comment of kern/kern_switch.c says that a KSE that is taken from the run queue was associated with the thread at the head of the queue of its group. With
  two KSEs of the group in one system queue, which holds four priorities, the one queued first is taken first, though the
  other belongs to the head: thread 2 of priority 161 runs, thread 3 of priority 160 waits. The pointer to the last assigned thread is backed up
  and not cleared, so that the assignment stays right (\<open>sched_top_threads\<close>).
\<close>

lemma sched_takes_not_the_head:
  "map_option (\<lambda>s. (kg_runq (the_kg s 2), map_option (\<lambda>s'. (curthread s', kg_runq (the_kg s' 2), kg_last_assigned (the_kg s' 2))) (sched_step Yield s)))
     (fold_opt setrunqueue [2, 3] sched_boot) = Some ([3, 2], Some (2, [3], Some 3))"
  by code_simp

text \<open>
  \<open>kg_runq_kses\<close> counts the KSEs of a group on the run queue. \<open>sched_add\<close> increments it and \<open>sched_rem\<close> decrements it, but
  \<open>sched_choose\<close>, which takes a KSE off the queue for the next switch, does not: a thread that yields three times alone
  leaves the count at 3 while no KSE of the group is queued.
\<close>

lemma sched_runq_kses_drifts:
  "map_option (\<lambda>s. (curthread s, kg_runq_kses (the_kg s 1), concat (rq_queues (the_runq s)))) (fold_opt sched_step [Yield, Yield, Yield] sched_boot) = Some (1, 3, [])"
  by code_simp

text \<open>
  The comment at \<open>updatepri\<close> says that for a load average of at least 1 and an estimate of at most 255 (the bound is 295) a sleep of six times the load factor
  decays the estimate to 0. At load 1 the load factor is 2; an estimate of 255 is 4 after 12 seconds and becomes 0 only after 15.
\<close>

lemma updatepri_slower:
  "fst (updatepri_loop (loadfactor 2048) 255 (12 - 1)) = 4" "fst (updatepri_loop (loadfactor 2048) 255 (14 - 1)) = 1"
  "fst (updatepri_loop (loadfactor 2048) 255 (15 - 1)) = 0"
  by code_simp+

end
