(* ===== verification/Kern_Lock.thy ===== *)
theory Kern_Lock
  imports Kern_Rwlock "HOL-Library.Monad_Syntax"
begin

text \<open>
  The lock manager, kern/kern_lock.c with sys/lockmgr.h: locks that are held shared or exclusively, with recursion,
  upgrade, downgrade and drain. The interlock makes the code between two sleeps one step: a call runs until it returns, panics
  (\<open>None\<close>) or sleeps, and a thread that was woken runs on from its \<open>msleep\<close>, with an error when a signal or a timeout
  ended the sleep. A frame is what a sleeping thread remembers of its call. The kernel is one without SMP and with
  INVARIANTS; the counts are unbounded.
\<close>

section \<open>The lock\<close>

datatype lk_thread = LK_NOPROC | LK_KERNPROC | Thread ptr

record lock =
  lk_flags :: u32
  lk_sharecount :: int
  lk_waitcount :: int
  lk_exclusivecount :: int
  lk_prio :: int
  lk_wmesg :: string
  lk_timo :: int
  lk_lockholder :: lk_thread
  lk_newlock :: "ptr option"

definition LK_TYPE_MASK :: u32 where "LK_TYPE_MASK = 0xf"
definition LK_SHARED :: u32 where "LK_SHARED = 1"
definition LK_EXCLUSIVE :: u32 where "LK_EXCLUSIVE = 2"
definition LK_UPGRADE :: u32 where "LK_UPGRADE = 3"
definition LK_EXCLUPGRADE :: u32 where "LK_EXCLUPGRADE = 4"
definition LK_DOWNGRADE :: u32 where "LK_DOWNGRADE = 5"
definition LK_RELEASE :: u32 where "LK_RELEASE = 6"
definition LK_DRAIN :: u32 where "LK_DRAIN = 7"
definition LK_EXCLOTHER :: u32 where "LK_EXCLOTHER = 8"
definition LK_EXTFLG_MASK :: u32 where "LK_EXTFLG_MASK = 0x03000070"
definition LK_NOWAIT :: u32 where "LK_NOWAIT = 0x10"
definition LK_SLEEPFAIL :: u32 where "LK_SLEEPFAIL = 0x20"
definition LK_CANRECURSE :: u32 where "LK_CANRECURSE = 0x40"
definition LK_NOPAUSE :: u32 where "LK_NOPAUSE = 0x01000000"
definition LK_WANT_UPGRADE :: u32 where "LK_WANT_UPGRADE = 0x100"
definition LK_WANT_EXCL :: u32 where "LK_WANT_EXCL = 0x200"
definition LK_HAVE_EXCL :: u32 where "LK_HAVE_EXCL = 0x400"
definition LK_WAITDRAIN :: u32 where "LK_WAITDRAIN = 0x800"
definition LK_DRAINING :: u32 where "LK_DRAINING = 0x4000"
definition LK_SHARE_NONZERO :: u32 where "LK_SHARE_NONZERO = 0x00100000"
definition LK_WAIT_NONZERO :: u32 where "LK_WAIT_NONZERO = 0x00200000"
definition LK_ALL :: u32 where
  "LK_ALL = LK_HAVE_EXCL OR LK_WANT_EXCL OR LK_WANT_UPGRADE OR LK_SHARE_NONZERO OR LK_WAIT_NONZERO"

definition lockinit :: "int \<Rightarrow> string \<Rightarrow> int \<Rightarrow> u32 \<Rightarrow> lock" where
  "lockinit prio wmesg timo flags = \<lparr>lk_flags = flags AND LK_EXTFLG_MASK, lk_sharecount = 0, lk_waitcount = 0, lk_exclusivecount = 0,
     lk_prio = prio, lk_wmesg = wmesg, lk_timo = timo, lk_lockholder = LK_NOPROC, lk_newlock = None\<rparr>"

section \<open>Threads inside a call\<close>

text \<open>The \<open>msleep\<close> a thread is in: where \<open>acquire\<close> was called from, \<open>acquiredrain\<close> or \<open>transferlockers\<close>.\<close>

datatype lk_site = Shared | Upgrade | Excl_want | Excl_wait | Drain | Transfer

record lk_frame =
  fr_lock :: ptr
  fr_site :: lk_site
  fr_ext :: u32
  fr_wanted :: u32
  fr_thr :: lk_thread

text \<open>The addresses slept on: \<open>lkp\<close>, \<open>&lkp->lk_flags\<close> and \<open>&lkp->lk_newlock\<close>.\<close>

datatype lk_chan = On_lock ptr | On_flags ptr | On_newlock ptr

text \<open>
  The locks, the threads inside a call, where those that sleep do so, and \<open>panicstr\<close>. The last two fields are
  not part of the kernel: they record who got which lock, for the statements about it.
\<close>

record lk_world =
  the_lk :: "ptr \<Rightarrow> lock"
  lk_frames :: "ptr \<Rightarrow> lk_frame option"
  lk_sleep :: "ptr \<Rightarrow> lk_chan option"
  lk_panicstr :: bool
  lk_readers :: "ptr \<Rightarrow> lk_thread multiset"
  lk_writer :: "ptr \<Rightarrow> (lk_thread \<times> nat) option"

definition upd_lk :: "ptr \<Rightarrow> (lock \<Rightarrow> lock) \<Rightarrow> lk_world \<Rightarrow> lk_world" where
  "upd_lk p f w = w\<lparr>the_lk := (the_lk w)(p := f (the_lk w p))\<rparr>"

definition lk_set :: "ptr \<Rightarrow> u32 \<Rightarrow> lk_world \<Rightarrow> lk_world" where
  "lk_set p m = upd_lk p (\<lambda>l. l\<lparr>lk_flags := lk_flags l OR m\<rparr>)"

definition lk_clear :: "ptr \<Rightarrow> u32 \<Rightarrow> lk_world \<Rightarrow> lk_world" where
  "lk_clear p m = upd_lk p (\<lambda>l. l\<lparr>lk_flags := lk_flags l AND NOT m\<rparr>)"

definition lk_has :: "ptr \<Rightarrow> u32 \<Rightarrow> lk_world \<Rightarrow> bool" where
  "lk_has p m w \<longleftrightarrow> lk_flags (the_lk w p) AND m \<noteq> 0"

definition lk_wakeup :: "lk_chan \<Rightarrow> lk_world \<Rightarrow> lk_world" where
  "lk_wakeup ch w = w\<lparr>lk_sleep := (\<lambda>t. if lk_sleep w t = Some ch then None else lk_sleep w t)\<rparr>"

definition lk_msleep :: "ptr \<Rightarrow> lk_chan \<Rightarrow> lk_frame \<Rightarrow> lk_world \<Rightarrow> lk_world" where
  "lk_msleep t ch fr w = w\<lparr>lk_frames := (lk_frames w)(t \<mapsto> fr), lk_sleep := (lk_sleep w)(t \<mapsto> ch)\<rparr>"

section \<open>The code\<close>

definition sharelock :: "ptr \<Rightarrow> int \<Rightarrow> lk_world \<Rightarrow> lk_world" where
  "sharelock lkp incr w = upd_lk lkp (\<lambda>l. l\<lparr>lk_sharecount := lk_sharecount l + incr\<rparr>) (lk_set lkp LK_SHARE_NONZERO w)"

definition shareunlock :: "ptr \<Rightarrow> int \<Rightarrow> lk_world \<Rightarrow> lk_world option" where
  "shareunlock lkp decr w =
     (if lk_sharecount (the_lk w lkp) < decr then None
      else if lk_sharecount (the_lk w lkp) = decr then
        (let w = lk_clear lkp LK_SHARE_NONZERO w;
             w = (if lk_has lkp (LK_WANT_UPGRADE OR LK_WANT_EXCL) w then lk_wakeup (On_lock lkp) w else w)
         in Some (upd_lk lkp (\<lambda>l. l\<lparr>lk_sharecount := 0\<rparr>) w))
      else Some (upd_lk lkp (\<lambda>l. l\<lparr>lk_sharecount := lk_sharecount l - decr\<rparr>) w))"

definition apause :: "ptr \<Rightarrow> u32 \<Rightarrow> lk_world \<Rightarrow> bool" where
  "apause lkp flags w = lk_has lkp flags w"

text \<open>
  \<open>acquire\<close> for the thread \<open>t\<close>; its locals \<open>lkp\<close>, \<open>extflags\<close> and \<open>wanted\<close> are in the frame. The result is \<open>None\<close> when the thread sleeps and
  otherwise the error. One turn of the loop ends in \<open>msleep\<close>, after which \<open>acquire_woken\<close> goes on, with another lock when the
  waiters have been transferred.
\<close>

definition acquire_loop :: "ptr \<Rightarrow> lk_frame \<Rightarrow> lk_world \<Rightarrow> lk_world \<times> err option" where
  "acquire_loop t fr w =
     (let lkp = fr_lock fr in
      if lk_has lkp (fr_wanted fr) w
      then (lk_msleep t (On_lock lkp) fr (upd_lk lkp (\<lambda>l. l\<lparr>lk_waitcount := lk_waitcount l + 1\<rparr>) (lk_set lkp LK_WAIT_NONZERO w)), None)
      else (w, Some None))"

definition acquire :: "ptr \<Rightarrow> lk_frame \<Rightarrow> lk_world \<Rightarrow> lk_world \<times> err option" where
  "acquire t fr w =
     (let lkp = fr_lock fr in
      if fr_ext fr AND LK_NOWAIT \<noteq> 0 \<and> lk_has lkp (fr_wanted fr) w then (w, Some (Some EBUSY))
      else if (lk_flags (the_lk w lkp) OR fr_ext fr) AND LK_NOPAUSE = 0 \<and> \<not> apause lkp (fr_wanted fr) w then (w, Some None)
      else acquire_loop t fr w)"

definition acquire_woken :: "ptr \<Rightarrow> lk_frame \<Rightarrow> err \<Rightarrow> lk_world \<Rightarrow> lk_frame \<times> lk_world \<times> err option" where
  "acquire_woken t fr error w =
     (let lkp = fr_lock fr;
          w = (if lk_waitcount (the_lk w lkp) = 1
               then upd_lk lkp (\<lambda>l. l\<lparr>lk_waitcount := 0\<rparr>) (lk_clear lkp LK_WAIT_NONZERO w)
               else upd_lk lkp (\<lambda>l. l\<lparr>lk_waitcount := lk_waitcount l - 1\<rparr>) w)
      in if error \<noteq> None then (fr, w, Some error)
         else if fr_ext fr AND LK_SLEEPFAIL \<noteq> 0 then (fr, w, Some (Some ENOLCK))
         else case lk_newlock (the_lk w lkp) of
           None \<Rightarrow> (fr, acquire_loop t fr w)
         | Some new \<Rightarrow>
             (let w = (if lk_waitcount (the_lk w lkp) = 0 then lk_wakeup (On_newlock lkp) w else w);
                  fr = fr\<lparr>fr_lock := new\<rparr>
              in (fr, acquire_loop t fr w)))"

definition drain_loop :: "ptr \<Rightarrow> lk_frame \<Rightarrow> lk_world \<Rightarrow> lk_world \<times> err option" where
  "drain_loop t fr w =
     (let lkp = fr_lock fr in
      if lk_has lkp LK_ALL w then (lk_msleep t (On_flags lkp) fr (lk_set lkp LK_WAITDRAIN w), None) else (w, Some None))"

definition acquiredrain :: "ptr \<Rightarrow> lk_frame \<Rightarrow> lk_world \<Rightarrow> lk_world \<times> err option" where
  "acquiredrain t fr w =
     (let lkp = fr_lock fr in
      if fr_ext fr AND LK_NOWAIT \<noteq> 0 \<and> lk_has lkp LK_ALL w then (w, Some (Some EBUSY))
      else if \<not> apause lkp LK_ALL w then (w, Some None)
      else drain_loop t fr w)"

definition acquiredrain_woken :: "ptr \<Rightarrow> lk_frame \<Rightarrow> err \<Rightarrow> lk_world \<Rightarrow> lk_world \<times> err option" where
  "acquiredrain_woken t fr error w =
     (if error \<noteq> None then (w, Some error)
      else if fr_ext fr AND LK_SLEEPFAIL \<noteq> 0 then (w, Some (Some ENOLCK))
      else drain_loop t fr w)"

text \<open>The end of \<open>lockmgr\<close>: a thread that drains is told that the lock has become idle.\<close>

definition lockmgr_end :: "ptr \<Rightarrow> err \<Rightarrow> lk_world \<Rightarrow> lk_world \<times> err option" where
  "lockmgr_end lkp error w =
     (if lk_has lkp LK_WAITDRAIN w \<and> \<not> lk_has lkp LK_ALL w
      then (lk_wakeup (On_flags lkp) (lk_clear lkp LK_WAITDRAIN w), Some error) else (w, Some error))"

text \<open>The lock is taken exclusively; the assertion on the count panics.\<close>

definition take_excl :: "lk_frame \<Rightarrow> lk_world \<Rightarrow> lk_world option" where
  "take_excl fr w =
     (let w = upd_lk (fr_lock fr) (\<lambda>l. l\<lparr>lk_lockholder := fr_thr fr\<rparr>) (lk_set (fr_lock fr) LK_HAVE_EXCL w) in
      if lk_exclusivecount (the_lk w (fr_lock fr)) \<noteq> 0 then None
      else Some (upd_lk (fr_lock fr) (\<lambda>l. l\<lparr>lk_exclusivecount := 1\<rparr>) w))"

text \<open>What follows each call of \<open>acquire\<close> and \<open>acquiredrain\<close> once it has returned \<open>error\<close>.\<close>

definition lk_took_want :: "u32 \<Rightarrow> lk_frame \<Rightarrow> err \<Rightarrow> lk_world \<Rightarrow> (lk_world \<times> err option) option" where
  "lk_took_want want fr error w =
     (let w = lk_clear (fr_lock fr) want w in
      if error \<noteq> None then Some (lockmgr_end (fr_lock fr) error w)
      else map_option (lockmgr_end (fr_lock fr) None) (take_excl fr w))"

definition lk_took :: "ptr \<Rightarrow> lk_frame \<Rightarrow> err \<Rightarrow> lk_world \<Rightarrow> (lk_world \<times> err option) option" where
  "lk_took t fr error w =
     (let lkp = fr_lock fr in
      case fr_site fr of
        Shared \<Rightarrow> Some (lockmgr_end lkp error (if error \<noteq> None then w else sharelock lkp 1 w))
      | Upgrade \<Rightarrow> lk_took_want LK_WANT_UPGRADE fr error w
      | Excl_want \<Rightarrow>
          if error \<noteq> None then Some (lockmgr_end lkp error w)
          else (let w = lk_set lkp LK_WANT_EXCL w;
                    fr = fr\<lparr>fr_site := Excl_wait, fr_wanted := LK_WANT_UPGRADE OR LK_SHARE_NONZERO\<rparr>
                in case acquire t fr w of (w, None) \<Rightarrow> Some (w, None) | (w, Some e) \<Rightarrow> lk_took_want LK_WANT_EXCL fr e w)
      | Excl_wait \<Rightarrow> lk_took_want LK_WANT_EXCL fr error w
      | Drain \<Rightarrow> Some (lockmgr_end lkp error (if error \<noteq> None then w
          else upd_lk lkp (\<lambda>l. l\<lparr>lk_lockholder := fr_thr fr, lk_exclusivecount := 1\<rparr>) (lk_set lkp (LK_DRAINING OR LK_HAVE_EXCL) w)))
      | Transfer \<Rightarrow> None)"

definition after_acquire :: "ptr \<Rightarrow> lk_frame \<Rightarrow> lk_world \<times> err option \<Rightarrow> (lk_world \<times> err option) option" where
  "after_acquire t fr r = (case r of (w, None) \<Rightarrow> Some (w, None) | (w, Some e) \<Rightarrow> lk_took t fr e w)"

text \<open>The cases of the switch.\<close>

definition lockmgr_downgrade :: "ptr \<Rightarrow> lk_thread \<Rightarrow> lk_world \<Rightarrow> (lk_world \<times> err option) option" where
  "lockmgr_downgrade lkp thr w =
     (if lk_lockholder (the_lk w lkp) = thr \<and> lk_exclusivecount (the_lk w lkp) \<noteq> 0 then
        (let w = sharelock lkp (lk_exclusivecount (the_lk w lkp)) w;
             w = upd_lk lkp (\<lambda>l. l\<lparr>lk_exclusivecount := 0\<rparr>) w;
             w = upd_lk lkp (\<lambda>l. l\<lparr>lk_lockholder := LK_NOPROC\<rparr>) (lk_clear lkp LK_HAVE_EXCL w);
             w = (if lk_waitcount (the_lk w lkp) \<noteq> 0 then lk_wakeup (On_lock lkp) w else w)
         in Some (lockmgr_end lkp None w))
      else None)"

definition lockmgr_shared :: "ptr \<Rightarrow> ptr \<Rightarrow> u32 \<Rightarrow> lk_thread \<Rightarrow> bool \<Rightarrow> lk_world \<Rightarrow> (lk_world \<times> err option) option" where
  "lockmgr_shared t lkp extflags thr heed w =
     (if lk_lockholder (the_lk w lkp) \<noteq> thr then
        (let lockflags = (if heed then LK_HAVE_EXCL OR (LK_WANT_EXCL OR LK_WANT_UPGRADE) else LK_HAVE_EXCL);
             fr = \<lparr>fr_lock = lkp, fr_site = Shared, fr_ext = extflags, fr_wanted = lockflags, fr_thr = thr\<rparr>
         in after_acquire t fr (acquire t fr w))
      else lockmgr_downgrade lkp thr (sharelock lkp 1 w))"

definition lockmgr_exclusive :: "ptr \<Rightarrow> ptr \<Rightarrow> u32 \<Rightarrow> lk_thread \<Rightarrow> lk_world \<Rightarrow> (lk_world \<times> err option) option" where
  "lockmgr_exclusive t lkp extflags thr w =
     (let recurse = (lk_lockholder (the_lk w lkp) = thr \<and> thr \<noteq> LK_KERNPROC) in
      if recurse \<and> extflags AND (LK_NOWAIT OR LK_CANRECURSE) = 0 then None
      else if recurse \<and> extflags AND LK_CANRECURSE \<noteq> 0
        then Some (lockmgr_end lkp None (upd_lk lkp (\<lambda>l. l\<lparr>lk_exclusivecount := lk_exclusivecount l + 1\<rparr>) w))
      else if extflags AND LK_NOWAIT \<noteq> 0 \<and> lk_has lkp (LK_HAVE_EXCL OR LK_WANT_EXCL OR LK_WANT_UPGRADE OR LK_SHARE_NONZERO) w
        then Some (lockmgr_end lkp (Some EBUSY) w)
      else (let fr = \<lparr>fr_lock = lkp, fr_site = Excl_want, fr_ext = extflags, fr_wanted = LK_HAVE_EXCL OR LK_WANT_EXCL, fr_thr = thr\<rparr>
            in after_acquire t fr (acquire t fr w)))"

definition lockmgr_upgrade :: "ptr \<Rightarrow> ptr \<Rightarrow> u32 \<Rightarrow> lk_thread \<Rightarrow> lk_world \<Rightarrow> (lk_world \<times> err option) option" where
  "lockmgr_upgrade t lkp extflags thr w =
     (if lk_lockholder (the_lk w lkp) = thr \<or> lk_sharecount (the_lk w lkp) \<le> 0 then None
      else do {
        w \<leftarrow> shareunlock lkp 1 w;
        if extflags AND LK_NOWAIT \<noteq> 0 \<and> (lk_has lkp LK_WANT_UPGRADE w \<or> lk_sharecount (the_lk w lkp) > 1)
        then Some (lockmgr_end lkp (Some EBUSY) w)
        else if \<not> lk_has lkp LK_WANT_UPGRADE w then
          (let w = lk_set lkp LK_WANT_UPGRADE w;
               fr = \<lparr>fr_lock = lkp, fr_site = Upgrade, fr_ext = extflags, fr_wanted = LK_SHARE_NONZERO, fr_thr = thr\<rparr>
           in after_acquire t fr (acquire t fr w))
        else
          (let w = (if lk_flags (the_lk w lkp) AND (LK_SHARE_NONZERO OR LK_WAIT_NONZERO) = LK_WAIT_NONZERO
                    then lk_wakeup (On_lock lkp) w else w)
           in lockmgr_exclusive t lkp extflags thr w) })"

definition lockmgr_release :: "ptr \<Rightarrow> lk_thread \<Rightarrow> lk_world \<Rightarrow> (lk_world \<times> err option) option" where
  "lockmgr_release lkp thr w = do {
     let l = the_lk w lkp;
     w \<leftarrow> (if lk_exclusivecount l \<noteq> 0 then
             (if lk_lockholder l \<noteq> thr \<and> lk_lockholder l \<noteq> LK_KERNPROC then None
              else if lk_exclusivecount l = 1
              then Some (upd_lk lkp (\<lambda>l. l\<lparr>lk_lockholder := LK_NOPROC, lk_exclusivecount := 0\<rparr>) (lk_clear lkp LK_HAVE_EXCL w))
              else Some (upd_lk lkp (\<lambda>l. l\<lparr>lk_exclusivecount := lk_exclusivecount l - 1\<rparr>) w))
           else if lk_has lkp LK_SHARE_NONZERO w then shareunlock lkp 1 w
           else Some w);
     let w = (if lk_has lkp LK_WAIT_NONZERO w then lk_wakeup (On_lock lkp) w else w);
     Some (lockmgr_end lkp None w) }"

definition lockmgr_drain :: "ptr \<Rightarrow> ptr \<Rightarrow> u32 \<Rightarrow> lk_thread \<Rightarrow> lk_world \<Rightarrow> (lk_world \<times> err option) option" where
  "lockmgr_drain t lkp extflags thr w =
     (if lk_lockholder (the_lk w lkp) = thr then None
      else (let fr = \<lparr>fr_lock = lkp, fr_site = Drain, fr_ext = extflags, fr_wanted = LK_ALL, fr_thr = thr\<rparr>
            in after_acquire t fr (acquiredrain t fr w)))"

text \<open>
  The call by the thread \<open>t\<close>, with \<open>td\<close> its argument (\<open>None\<close> is NULL) and \<open>deadlktreat\<close> whether \<open>TDF_DEADLKTREAT\<close> is set in \<open>td->td_flags\<close>. The
  two flags that concern mutexes, \<open>LK_INTERNAL\<close> and \<open>LK_INTERLOCK\<close>, do not change the state of the lock.
\<close>

definition lockmgr :: "ptr \<Rightarrow> ptr \<Rightarrow> u32 \<Rightarrow> ptr option \<Rightarrow> bool \<Rightarrow> lk_world \<Rightarrow> (lk_world \<times> err option) option" where
  "lockmgr t lkp flags td deadlktreat w =
     (let thr = (case td of None \<Rightarrow> LK_KERNPROC | Some td \<Rightarrow> Thread td) in
      if lk_panicstr w then Some (w, Some None)
      else
        (let extflags = (flags OR lk_flags (the_lk w lkp)) AND LK_EXTFLG_MASK;
             ty = flags AND LK_TYPE_MASK
         in if ty = LK_SHARED then lockmgr_shared t lkp extflags thr (td \<noteq> None \<and> \<not> deadlktreat) w
            else if ty = LK_DOWNGRADE then lockmgr_downgrade lkp thr w
            else if ty = LK_EXCLUPGRADE then
              (if lk_has lkp LK_WANT_UPGRADE w then map_option (lockmgr_end lkp (Some EBUSY)) (shareunlock lkp 1 w)
               else lockmgr_upgrade t lkp extflags thr w)
            else if ty = LK_UPGRADE then lockmgr_upgrade t lkp extflags thr w
            else if ty = LK_EXCLUSIVE then lockmgr_exclusive t lkp extflags thr w
            else if ty = LK_RELEASE then lockmgr_release lkp thr w
            else if ty = LK_DRAIN then lockmgr_drain t lkp extflags thr w
            else None))"

definition transferlockers :: "ptr \<Rightarrow> ptr \<Rightarrow> ptr \<Rightarrow> lk_world \<Rightarrow> (lk_world \<times> err option) option" where
  "transferlockers t from' to w =
     (if from' = to \<or> lk_has from' LK_WAITDRAIN w then None
      else if lk_waitcount (the_lk w from') = 0 then Some (w, Some None)
      else
        (let w = lk_wakeup (On_lock from') (upd_lk from' (\<lambda>l. l\<lparr>lk_newlock := Some to\<rparr>) w) in
         Some (lk_msleep t (On_newlock from') \<lparr>fr_lock = from', fr_site = Transfer, fr_ext = 0, fr_wanted = 0, fr_thr = Thread t\<rparr> w, None)))"

definition transferlockers_woken :: "ptr \<Rightarrow> lk_world \<Rightarrow> (lk_world \<times> err option) option" where
  "transferlockers_woken from' w =
     (let w = lk_clear from' (LK_WANT_EXCL OR LK_WANT_UPGRADE) (upd_lk from' (\<lambda>l. l\<lparr>lk_newlock := None\<rparr>) w) in
      if lk_waitcount (the_lk w from') \<noteq> 0 then None else Some (w, Some None))"

text \<open>A thread that was woken, or whose sleep a signal or a timeout ended with the error, returns from its \<open>msleep\<close>.\<close>

definition lk_resume :: "ptr \<Rightarrow> err \<Rightarrow> lk_world \<Rightarrow> (lk_world \<times> err option) option" where
  "lk_resume t error w = do {
     fr \<leftarrow> lk_frames w t;
     let w = w\<lparr>lk_frames := (lk_frames w)(t := None), lk_sleep := (lk_sleep w)(t := None)\<rparr>;
     (case fr_site fr of
        Transfer \<Rightarrow> transferlockers_woken (fr_lock fr) w
      | Drain \<Rightarrow> after_acquire t fr (acquiredrain_woken t fr error w)
      | _ \<Rightarrow> (case acquire_woken t fr error w of (fr, r) \<Rightarrow> after_acquire t fr r)) }"

text \<open>\<open>BUF_KERNPROC\<close> of sys/buf.h gives the lock of a buffer to the kernel while i/o is in progress.\<close>

definition BUF_KERNPROC :: "ptr \<Rightarrow> lk_world \<Rightarrow> lk_world" where
  "BUF_KERNPROC lkp = upd_lk lkp (\<lambda>l. l\<lparr>lk_lockholder := LK_KERNPROC\<rparr>)"

definition lockstatus :: "ptr \<Rightarrow> ptr option \<Rightarrow> lk_world \<Rightarrow> u32" where
  "lockstatus lkp td w =
     (let l = the_lk w lkp in
      if lk_exclusivecount l \<noteq> 0 then
        (if td = None \<or> lk_lockholder l = Thread (the td) then LK_EXCLUSIVE else LK_EXCLOTHER)
      else if lk_sharecount l \<noteq> 0 then LK_SHARED else 0)"

definition lockcount :: "ptr \<Rightarrow> lk_world \<Rightarrow> int" where
  "lockcount lkp w = lk_exclusivecount (the_lk w lkp) + lk_sharecount (the_lk w lkp)"

section \<open>Threads that use locks\<close>

text \<open>
  A thread calls for itself, a woken thread goes on, a sleeping one does so with an error, and the holder of a lock leaves it to the kernel. \<open>lk_may\<close> is the contract
  of a caller: it upgrades and downgrades what it holds, releases what it or the kernel holds, and does not ask for a
  lock it has exclusively without one of the flags that allow it.
\<close>

datatype lk_event = Call ptr ptr u32 bool | Resume ptr err | Disown ptr ptr

definition lk_may :: "lk_event \<Rightarrow> lk_world \<Rightarrow> bool" where
  "lk_may e w = (case e of
     Call t p flags treat \<Rightarrow> lk_frames w t = None \<and>
       (let ty = flags AND LK_TYPE_MASK; mine = (case lk_writer w p of Some (x, n) \<Rightarrow> x = Thread t | None \<Rightarrow> False) in
        if ty = LK_SHARED then True
        else if ty = LK_DOWNGRADE then mine
        else if ty = LK_EXCLUPGRADE \<or> ty = LK_UPGRADE then Thread t \<in># lk_readers w p
        else if ty = LK_EXCLUSIVE then mine \<longrightarrow> (flags OR lk_flags (the_lk w p)) AND (LK_NOWAIT OR LK_CANRECURSE) \<noteq> 0
        else if ty = LK_RELEASE then mine \<or> map_option fst (lk_writer w p) = Some LK_KERNPROC \<or> Thread t \<in># lk_readers w p
        else ty = LK_DRAIN \<and> \<not> mine)
   | Resume t error \<Rightarrow> lk_frames w t \<noteq> None \<and> (lk_sleep w t = None \<or> error \<noteq> None)
   | Disown t p \<Rightarrow> map_option fst (lk_writer w p) = Some (Thread t))"

text \<open>Who holds the lock after a call of the type with the result.\<close>

definition lk_holds :: "u32 \<Rightarrow> lk_thread \<Rightarrow> err option \<Rightarrow> lk_thread multiset \<times> (lk_thread \<times> nat) option \<Rightarrow> lk_thread multiset \<times> (lk_thread \<times> nat) option" where
  "lk_holds ty thr r = (\<lambda>(R, W).
     if ty = LK_SHARED then
       (case W of Some (x, n) \<Rightarrow> if x = thr then (R + replicate_mset (Suc n) thr, None) else (if r = Some None then add_mset thr R else R, W)
        | None \<Rightarrow> (if r = Some None then add_mset thr R else R, W))
     else if ty = LK_DOWNGRADE then (case W of Some (x, n) \<Rightarrow> (R + replicate_mset n x, None) | None \<Rightarrow> (R, W))
     else if ty = LK_RELEASE then
       (case W of Some (x, n) \<Rightarrow> (R, if n = 1 then None else Some (x, n - 1)) | None \<Rightarrow> (R - {#thr#}, W))
     else
       (if ty = LK_EXCLUPGRADE \<or> ty = LK_UPGRADE then R - {#thr#} else R,
        if r = Some None then (case W of Some (x, n) \<Rightarrow> Some (x, Suc n) | None \<Rightarrow> Some (thr, 1)) else W))"

definition lk_got :: "ptr \<Rightarrow> u32 \<Rightarrow> lk_thread \<Rightarrow> lk_world \<times> err option \<Rightarrow> lk_world" where
  "lk_got p ty thr = (\<lambda>(w, r). case lk_holds ty thr r (lk_readers w p, lk_writer w p) of
     (R, W) \<Rightarrow> w\<lparr>lk_readers := (lk_readers w)(p := R), lk_writer := (lk_writer w)(p := W)\<rparr>)"

definition lk_do :: "lk_event \<Rightarrow> lk_world \<Rightarrow> lk_world option" where
  "lk_do e w = (case e of
     Call t p flags treat \<Rightarrow> map_option (lk_got p (flags AND LK_TYPE_MASK) (Thread t)) (lockmgr t p flags (Some t) treat w)
   | Resume t error \<Rightarrow> do {
       fr \<leftarrow> lk_frames w t;
       (w, r) \<leftarrow> lk_resume t error w;
       Some (if r = Some None then lk_got (fr_lock fr) (if fr_site fr = Shared then LK_SHARED else LK_EXCLUSIVE) (fr_thr fr) (w, r) else w) }
   | Disown t p \<Rightarrow> Some ((BUF_KERNPROC p w)\<lparr>lk_writer := (lk_writer w)(p := map_option (\<lambda>(x, n). (LK_KERNPROC, n)) (lk_writer w p))\<rparr>))"

inductive lk_step :: "(lk_event \<Rightarrow> lk_world \<Rightarrow> bool) \<Rightarrow> lk_world \<Rightarrow> lk_world \<Rightarrow> bool" for P where
  lk_stepI: "lk_may e w \<Longrightarrow> P e w \<Longrightarrow> lk_do e w = Some w' \<Longrightarrow> lk_step P w w'"

inductive_cases lk_stepE: "lk_step P w w'"

text \<open>Locks that have just been initialised, with any external flags.\<close>

definition lk_world0 :: "(ptr \<Rightarrow> u32) \<Rightarrow> lk_world" where
  "lk_world0 flags = \<lparr>the_lk = (\<lambda>p. lockinit 80 ''lock'' 0 (flags p)), lk_frames = (\<lambda>t. None), lk_sleep = (\<lambda>t. None), lk_panicstr = False,
     lk_readers = (\<lambda>p. {#}), lk_writer = (\<lambda>p. None)\<rparr>"

end
