(* ===== verification/Kern_Lock_Inv.thy ===== *)
theory Kern_Lock_Inv
  imports Kern_Lock
begin

text \<open>
  The invariant of the lock manager. \<open>lk_core\<close> is about one lock, with the holders and the sets of threads that
  the lock counts as waiting, upgrading and waiting for the shared holders; \<open>lk_nap\<close> and \<open>lk_drains\<close> say what the sleeping threads
  sleep for; \<open>lk_ok\<close> puts this together for all locks. Two switches take in what holds only for some runs: \<open>s\<close>
  when no upgrade and no exclusive request is given up, \<open>n\<close> when nobody upgrades.
\<close>

section \<open>Flags\<close>

lemmas lk_consts = LK_WANT_UPGRADE_def LK_WANT_EXCL_def LK_HAVE_EXCL_def LK_WAITDRAIN_def LK_DRAINING_def LK_SHARE_NONZERO_def LK_WAIT_NONZERO_def
  LK_EXTFLG_MASK_def LK_NOWAIT_def LK_SLEEPFAIL_def LK_CANRECURSE_def LK_NOPAUSE_def

lemma and_or_word: "(a OR b) AND c \<noteq> 0 \<longleftrightarrow> a AND c \<noteq> 0 \<or> b AND c \<noteq> (0 :: u32)" "c AND (a OR b) \<noteq> 0 \<longleftrightarrow> c AND a \<noteq> 0 \<or> c AND b \<noteq> (0 :: u32)"
  by (simp_all add: bit.conj_disj_distrib bit.conj_disj_distrib2 or_eq_0_iff)

lemma and_not_word: "c AND m = 0 \<Longrightarrow> (a AND NOT c) AND m = a AND (m :: u32)" "(a AND NOT m) AND m = (0 :: u32)"
proof -
  assume c: "c AND m = 0"
  have "\<not> (bit c i \<and> bit m i)" for i using arg_cong [OF c, of "\<lambda>x. bit x i"] by (simp add: bit_and_iff)
  then show "(a AND NOT c) AND m = a AND m"
    by (intro bit_word_eqI) (auto simp: bit_and_iff bit_not_iff)
qed (simp add: and.assoc)

lemma lk_has_or [simp]: "lk_has p (a OR b) w \<longleftrightarrow> lk_has p a w \<or> lk_has p b w"
  by (simp add: lk_has_def and_or_word)

lemma upd_lk_simps [simp]:
  "the_lk (upd_lk p f w) q = (if q = p then f (the_lk w p) else the_lk w q)" "lk_frames (upd_lk p f w) = lk_frames w" "lk_sleep (upd_lk p f w) = lk_sleep w"
  "lk_panicstr (upd_lk p f w) = lk_panicstr w" "lk_readers (upd_lk p f w) = lk_readers w" "lk_writer (upd_lk p f w) = lk_writer w"
  by (simp_all add: upd_lk_def)

lemma lk_set_simps [simp]:
  "the_lk (lk_set p m w) q = (if q = p then (the_lk w p)\<lparr>lk_flags := lk_flags (the_lk w p) OR m\<rparr> else the_lk w q)" "lk_frames (lk_set p m w) = lk_frames w"
  "lk_sleep (lk_set p m w) = lk_sleep w" "lk_panicstr (lk_set p m w) = lk_panicstr w" "lk_readers (lk_set p m w) = lk_readers w" "lk_writer (lk_set p m w) = lk_writer w"
  by (simp_all add: lk_set_def)

lemma lk_clear_simps [simp]:
  "the_lk (lk_clear p m w) q = (if q = p then (the_lk w p)\<lparr>lk_flags := lk_flags (the_lk w p) AND NOT m\<rparr> else the_lk w q)" "lk_frames (lk_clear p m w) = lk_frames w"
  "lk_sleep (lk_clear p m w) = lk_sleep w" "lk_panicstr (lk_clear p m w) = lk_panicstr w" "lk_readers (lk_clear p m w) = lk_readers w" "lk_writer (lk_clear p m w) = lk_writer w"
  by (simp_all add: lk_clear_def)

lemma lk_wakeup_simps [simp]:
  "the_lk (lk_wakeup ch w) = the_lk w" "lk_frames (lk_wakeup ch w) = lk_frames w" "lk_sleep (lk_wakeup ch w) t = (if lk_sleep w t = Some ch then None else lk_sleep w t)"
  "lk_panicstr (lk_wakeup ch w) = lk_panicstr w" "lk_readers (lk_wakeup ch w) = lk_readers w" "lk_writer (lk_wakeup ch w) = lk_writer w"
  by (simp_all add: lk_wakeup_def)

lemma lk_msleep_simps [simp]:
  "the_lk (lk_msleep t ch fr w) = the_lk w" "lk_frames (lk_msleep t ch fr w) = (lk_frames w)(t \<mapsto> fr)" "lk_sleep (lk_msleep t ch fr w) = (lk_sleep w)(t \<mapsto> ch)"
  "lk_panicstr (lk_msleep t ch fr w) = lk_panicstr w" "lk_readers (lk_msleep t ch fr w) = lk_readers w" "lk_writer (lk_msleep t ch fr w) = lk_writer w"
  by (simp_all add: lk_msleep_def)

lemma lk_has_same [simp]:
  "lk_has q m (lk_wakeup ch w) = lk_has q m w" "lk_has q m (lk_msleep t ch fr w) = lk_has q m w"
  "lk_has q m (w\<lparr>lk_frames := F, lk_sleep := S\<rparr>) = lk_has q m w" "lk_has q m (w\<lparr>lk_readers := R, lk_writer := W\<rparr>) = lk_has q m w"
  by (simp_all add: lk_has_def)

lemma lk_has_upd [simp]: "(\<And>l. lk_flags (f l) = lk_flags l) \<Longrightarrow> lk_has q m (upd_lk p f w) = lk_has q m w"
  by (simp add: lk_has_def)

lemma lk_has_set [simp]: "lk_has q m (lk_set p c w) \<longleftrightarrow> lk_has q m w \<or> q = p \<and> c AND m \<noteq> 0"
  by (auto simp: lk_has_def and_or_word)

lemma lk_has_clear [simp]:
  "lk_has q m (lk_clear p m w) \<longleftrightarrow> q \<noteq> p \<and> lk_has q m w"
  "c AND m = 0 \<Longrightarrow> lk_has q m (lk_clear p c w) = lk_has q m w"
  by (auto simp: lk_has_def and_not_word)

text \<open>The flags are different bits.\<close>

lemma lk_flag_bits [simp]:
  "LK_WANT_UPGRADE AND LK_WANT_EXCL = 0" "LK_WANT_UPGRADE AND LK_HAVE_EXCL = 0" "LK_WANT_UPGRADE AND LK_SHARE_NONZERO = 0" "LK_WANT_UPGRADE AND LK_WAIT_NONZERO = 0" "LK_WANT_UPGRADE AND LK_WAITDRAIN = 0"
  "LK_WANT_EXCL AND LK_WANT_UPGRADE = 0" "LK_WANT_EXCL AND LK_HAVE_EXCL = 0" "LK_WANT_EXCL AND LK_SHARE_NONZERO = 0" "LK_WANT_EXCL AND LK_WAIT_NONZERO = 0" "LK_WANT_EXCL AND LK_WAITDRAIN = 0"
  "LK_HAVE_EXCL AND LK_WANT_UPGRADE = 0" "LK_HAVE_EXCL AND LK_WANT_EXCL = 0" "LK_HAVE_EXCL AND LK_SHARE_NONZERO = 0" "LK_HAVE_EXCL AND LK_WAIT_NONZERO = 0" "LK_HAVE_EXCL AND LK_WAITDRAIN = 0"
  "LK_SHARE_NONZERO AND LK_WANT_UPGRADE = 0" "LK_SHARE_NONZERO AND LK_WANT_EXCL = 0" "LK_SHARE_NONZERO AND LK_HAVE_EXCL = 0" "LK_SHARE_NONZERO AND LK_WAIT_NONZERO = 0" "LK_SHARE_NONZERO AND LK_WAITDRAIN = 0"
  "LK_WAIT_NONZERO AND LK_WANT_UPGRADE = 0" "LK_WAIT_NONZERO AND LK_WANT_EXCL = 0" "LK_WAIT_NONZERO AND LK_HAVE_EXCL = 0" "LK_WAIT_NONZERO AND LK_SHARE_NONZERO = 0" "LK_WAIT_NONZERO AND LK_WAITDRAIN = 0"
  "LK_WAITDRAIN AND LK_WANT_UPGRADE = 0" "LK_WAITDRAIN AND LK_WANT_EXCL = 0" "LK_WAITDRAIN AND LK_HAVE_EXCL = 0" "LK_WAITDRAIN AND LK_SHARE_NONZERO = 0" "LK_WAITDRAIN AND LK_WAIT_NONZERO = 0"
  "LK_DRAINING AND LK_WANT_UPGRADE = 0" "LK_DRAINING AND LK_WANT_EXCL = 0" "LK_DRAINING AND LK_HAVE_EXCL = 0" "LK_DRAINING AND LK_SHARE_NONZERO = 0" "LK_DRAINING AND LK_WAIT_NONZERO = 0" "LK_DRAINING AND LK_WAITDRAIN = 0"
  "LK_WANT_UPGRADE \<noteq> 0" "LK_WANT_EXCL \<noteq> 0" "LK_HAVE_EXCL \<noteq> 0" "LK_SHARE_NONZERO \<noteq> 0" "LK_WAIT_NONZERO \<noteq> 0" "LK_WAITDRAIN \<noteq> 0"
  by (simp_all add: lk_consts)

lemma lk_has_all [simp]: "lk_has p LK_ALL w \<longleftrightarrow> lk_has p LK_HAVE_EXCL w \<or> lk_has p LK_WANT_EXCL w \<or> lk_has p LK_WANT_UPGRADE w \<or> lk_has p LK_SHARE_NONZERO w \<or> lk_has p LK_WAIT_NONZERO w"
  by (simp add: LK_ALL_def)

section \<open>One lock\<close>

fun writer_count :: "(lk_thread \<times> nat) option \<Rightarrow> nat" where
  "writer_count None = 0"
| "writer_count (Some (x, n)) = n"

fun writer_thread :: "(lk_thread \<times> nat) option \<Rightarrow> lk_thread" where
  "writer_thread None = LK_NOPROC"
| "writer_thread (Some (x, n)) = x"

definition lk_counts :: "ptr \<Rightarrow> lk_world \<Rightarrow> lk_thread multiset \<Rightarrow> (lk_thread \<times> nat) option \<Rightarrow> bool" where
  "lk_counts p w R W \<longleftrightarrow> lk_sharecount (the_lk w p) = int (size R) \<and> (lk_has p LK_SHARE_NONZERO w \<longleftrightarrow> R \<noteq> {#}) \<and>
     (lk_has p LK_HAVE_EXCL w \<longleftrightarrow> W \<noteq> None) \<and> LK_NOPROC \<notin># R \<and>
     lk_exclusivecount (the_lk w p) = int (writer_count W) \<and> lk_lockholder (the_lk w p) = writer_thread W \<and>
     (\<forall>x n. W = Some (x, n) \<longrightarrow> 0 < n \<and> x \<noteq> LK_NOPROC \<and> R = {#})"

definition lone :: "'a set \<Rightarrow> bool" where "lone A \<longleftrightarrow> (\<forall>a b. a \<in> A \<longrightarrow> b \<in> A \<longrightarrow> a = b)"

lemma lone_simps [simp]: "lone {}" "lone {a}"
  by (simp_all add: lone_def)

lemma lone_insert: "lone (insert t A) \<Longrightarrow> t \<notin> A \<Longrightarrow> A = {}"
  by (auto simp: lone_def)

lemma lone_sub: "lone (insert t A) \<Longrightarrow> lone A"
  by (auto simp: lone_def)

definition lk_core :: "bool \<Rightarrow> ptr \<Rightarrow> lk_world \<Rightarrow> lk_thread multiset \<Rightarrow> (lk_thread \<times> nat) option \<Rightarrow> ptr set \<Rightarrow> ptr set \<Rightarrow> ptr set \<Rightarrow> bool" where
  "lk_core n p w R W N U E \<longleftrightarrow> lk_counts p w R W \<and> finite N \<and> lk_waitcount (the_lk w p) = int (card N) \<and> (lk_has p LK_WAIT_NONZERO w \<longleftrightarrow> N \<noteq> {}) \<and>
     lk_newlock (the_lk w p) = None \<and> (lk_has p LK_WANT_UPGRADE w \<longleftrightarrow> U \<noteq> {}) \<and> lone U \<and> (lk_has p LK_WANT_EXCL w \<longleftrightarrow> E \<noteq> {}) \<and> lone E \<and>
     (U \<noteq> {} \<longrightarrow> W = None) \<and> (n \<longrightarrow> U = {} \<and> (W = None \<or> E = {}))"

text \<open>The threads in a call.\<close>

definition lk_in :: "ptr \<Rightarrow> (lk_site \<Rightarrow> bool) \<Rightarrow> lk_world \<Rightarrow> ptr set" where
  "lk_in p S w = {t. \<exists>fr. lk_frames w t = Some fr \<and> fr_lock fr = p \<and> S (fr_site fr)}"

abbreviation waiters :: "ptr \<Rightarrow> lk_world \<Rightarrow> ptr set" where "waiters p \<equiv> lk_in p (\<lambda>s. s \<noteq> Drain)"
abbreviation upgraders :: "ptr \<Rightarrow> lk_world \<Rightarrow> ptr set" where "upgraders p \<equiv> lk_in p (\<lambda>s. s = Upgrade)"
abbreviation exclwaiters :: "ptr \<Rightarrow> lk_world \<Rightarrow> ptr set" where "exclwaiters p \<equiv> lk_in p (\<lambda>s. s = Excl_wait)"

definition lk_nap :: "ptr \<Rightarrow> lk_world \<Rightarrow> bool" where
  "lk_nap p w \<longleftrightarrow> (\<forall>t fr. lk_frames w t = Some fr \<and> fr_lock fr = p \<and> fr_site fr \<noteq> Drain \<and> lk_sleep w t \<noteq> None \<longrightarrow>
     lk_has p (fr_wanted fr) w \<or> lk_has p LK_HAVE_EXCL w)"

definition lk_drain1 :: "ptr \<Rightarrow> lk_world \<Rightarrow> bool" where
  "lk_drain1 p w \<longleftrightarrow> (\<forall>t fr. lk_frames w t = Some fr \<and> fr_lock fr = p \<and> fr_site fr = Drain \<and> lk_sleep w t \<noteq> None \<longrightarrow> lk_has p LK_WAITDRAIN w)"

definition lk_drains :: "ptr \<Rightarrow> lk_world \<Rightarrow> bool" where
  "lk_drains p w \<longleftrightarrow> (\<forall>t fr. lk_frames w t = Some fr \<and> fr_lock fr = p \<and> fr_site fr = Drain \<and> lk_sleep w t \<noteq> None \<longrightarrow> lk_has p LK_WAITDRAIN w \<and> lk_has p LK_ALL w)"

definition frame_ok :: "ptr \<Rightarrow> lk_frame \<Rightarrow> bool" where
  "frame_ok t fr \<longleftrightarrow> fr_thr fr = Thread t \<and> (fr_site fr \<noteq> Drain \<longrightarrow> fr_ext fr AND LK_NOWAIT = 0) \<and> (case fr_site fr of
     Shared \<Rightarrow> fr_wanted fr = LK_HAVE_EXCL \<or> fr_wanted fr = LK_HAVE_EXCL OR (LK_WANT_EXCL OR LK_WANT_UPGRADE)
   | Upgrade \<Rightarrow> fr_wanted fr = LK_SHARE_NONZERO
   | Excl_want \<Rightarrow> fr_wanted fr = LK_HAVE_EXCL OR LK_WANT_EXCL
   | Excl_wait \<Rightarrow> fr_wanted fr = LK_WANT_UPGRADE OR LK_SHARE_NONZERO
   | Drain \<Rightarrow> True
   | Transfer \<Rightarrow> False)"

definition lk_chan_of :: "lk_frame \<Rightarrow> lk_chan" where
  "lk_chan_of fr = (if fr_site fr = Drain then On_flags (fr_lock fr) else On_lock (fr_lock fr))"

definition thread_ok :: "lk_world \<Rightarrow> ptr \<Rightarrow> bool" where
  "thread_ok w t \<longleftrightarrow> (case lk_frames w t of None \<Rightarrow> lk_sleep w t = None
     | Some fr \<Rightarrow> frame_ok t fr \<and> (lk_sleep w t = None \<or> lk_sleep w t = Some (lk_chan_of fr)))"

definition lk_at :: "bool \<Rightarrow> bool \<Rightarrow> ptr \<Rightarrow> lk_world \<Rightarrow> lk_thread multiset \<Rightarrow> (lk_thread \<times> nat) option \<Rightarrow> bool" where
  "lk_at s n p w R W \<longleftrightarrow> lk_core n p w R W (waiters p w) (upgraders p w) (exclwaiters p w) \<and> (s \<longrightarrow> lk_nap p w) \<and> lk_drains p w"

definition lk_ok :: "bool \<Rightarrow> bool \<Rightarrow> lk_world \<Rightarrow> bool" where
  "lk_ok s n w \<longleftrightarrow> (\<forall>p. lk_at s n p w (lk_readers w p) (lk_writer w p)) \<and> (\<forall>t. thread_ok w t) \<and> \<not> lk_panicstr w"

lemma lk_at_cong: "the_lk v = the_lk w \<Longrightarrow> lk_frames v = lk_frames w \<Longrightarrow> lk_sleep v = lk_sleep w \<Longrightarrow> lk_at s n p v R W = lk_at s n p w R W"
  by (simp only: lk_at_def lk_core_def lk_counts_def lk_nap_def lk_drains_def lk_in_def lk_has_def)

lemma lk_at_ghost: "lk_at s n p (w\<lparr>lk_readers := A, lk_writer := B\<rparr>) R W = lk_at s n p w R W"
  by (rule lk_at_cong) simp_all

section \<open>What a call may touch\<close>

text \<open>A call of the thread \<open>t\<close> on the lock \<open>p\<close> leaves other locks and the frames of other threads alone; it may wake threads that sleep for \<open>p\<close>.\<close>

definition touch :: "ptr \<Rightarrow> ptr \<Rightarrow> lk_world \<Rightarrow> lk_world \<Rightarrow> bool" where
  "touch t p w w' \<longleftrightarrow> (\<forall>q. q \<noteq> p \<longrightarrow> the_lk w' q = the_lk w q) \<and> (\<forall>u. u \<noteq> t \<longrightarrow> lk_frames w' u = lk_frames w u) \<and>
     (\<forall>u. u \<noteq> t \<longrightarrow> lk_sleep w' u = lk_sleep w u \<or> lk_sleep w' u = None \<and> lk_sleep w u \<in> {Some (On_lock p), Some (On_flags p)}) \<and>
     lk_panicstr w' = lk_panicstr w \<and> lk_readers w' = lk_readers w \<and> lk_writer w' = lk_writer w"

lemma touch_refl [simp]: "touch t p w w" by (simp add: touch_def)

lemma touch_sleep: "touch t p w w' \<Longrightarrow> \<forall>u. u \<noteq> t \<longrightarrow> lk_sleep w' u \<noteq> None \<longrightarrow> lk_sleep w' u = lk_sleep w u"
  unfolding touch_def by metis

lemma touch_trans: "touch t p w w1 \<Longrightarrow> touch t p w1 w2 \<Longrightarrow> touch t p w w2"
  unfolding touch_def by (intro conjI; metis)

lemma touch_steps:
  "touch t p w w1 \<Longrightarrow> touch t p w (upd_lk p f w1)"
  "touch t p w w1 \<Longrightarrow> touch t p w (lk_set p m w1)"
  "touch t p w w1 \<Longrightarrow> touch t p w (lk_clear p m w1)"
  "touch t p w w1 \<Longrightarrow> touch t p w (lk_wakeup (On_lock p) w1)"
  "touch t p w w1 \<Longrightarrow> touch t p w (lk_wakeup (On_flags p) w1)"
  "touch t p w w1 \<Longrightarrow> touch t p w (lk_msleep t ch fr w1)"
  by (erule touch_trans, auto simp: touch_def)+

text \<open>The state of all locks after it.\<close>

lemma in_touch:
  assumes "touch t p w w'" "q \<noteq> p" "\<forall>fr. lk_frames w t = Some fr \<longrightarrow> fr_lock fr = p" "\<forall>fr. lk_frames w' t = Some fr \<longrightarrow> fr_lock fr = p"
  shows "lk_in q S w' = lk_in q S w"
  using assms by (auto simp: lk_in_def touch_def)

lemma touch_at:
  assumes t: "touch t p w w'" "q \<noteq> p" and f: "\<forall>fr. lk_frames w t = Some fr \<longrightarrow> fr_lock fr = p" "\<forall>fr. lk_frames w' t = Some fr \<longrightarrow> fr_lock fr = p"
    and a: "lk_at s n q w R W"
  shows "lk_at s n q w' R W"
proof -
  have l: "the_lk w' q = the_lk w q" using t by (simp add: touch_def)
  then have h: "lk_has q m w' = lk_has q m w" for m by (simp add: lk_has_def)
  have fr: "lk_frames w' u = Some fr \<and> fr_lock fr = q \<Longrightarrow> lk_frames w u = Some fr \<and> (lk_sleep w' u \<noteq> None \<longrightarrow> lk_sleep w u \<noteq> None)" for u fr
    using t f(2) spec [OF touch_sleep [OF t(1)], of u] by (cases "u = t") (auto simp: touch_def)
  have "lk_core n q w' R W A B C = lk_core n q w R W A B C" for A B C by (simp only: lk_core_def lk_counts_def l h)
  moreover have "lk_nap q w'" if "lk_nap q w" unfolding lk_nap_def h using that [unfolded lk_nap_def] fr by blast
  moreover have "lk_drains q w'" if "lk_drains q w" unfolding lk_drains_def h using that [unfolded lk_drains_def] fr by blast
  ultimately show ?thesis using a unfolding lk_at_def in_touch [OF t f] by blast
qed

lemma touch_ok:
  assumes ok: "lk_ok s n w" and t: "touch t p (w\<lparr>lk_frames := (lk_frames w)(t := None), lk_sleep := (lk_sleep w)(t := None)\<rparr>) w'"
    and f: "\<forall>fr. lk_frames w t = Some fr \<longrightarrow> fr_lock fr = p" "\<forall>fr. lk_frames w' t = Some fr \<longrightarrow> fr_lock fr = p"
    and th: "thread_ok w' t" and a: "lk_at s n p w' R W"
  shows "lk_ok s n (w'\<lparr>lk_readers := (lk_readers w')(p := R), lk_writer := (lk_writer w')(p := W)\<rparr>)"
proof -
  let ?w = "w'\<lparr>lk_readers := (lk_readers w')(p := R), lk_writer := (lk_writer w')(p := W)\<rparr>"
  have t': "touch t p w w'" using t by (auto simp: touch_def)
  have "lk_at s n q ?w (lk_readers ?w q) (lk_writer ?w q)" for q
    using a touch_at [OF t' _ f, of q s n "lk_readers w q" "lk_writer w q"] ok t' by (auto simp: lk_at_ghost lk_ok_def touch_def)
  moreover have "thread_ok ?w u" for u
  proof (cases "u = t")
    case False
    have "thread_ok w u" using ok by (simp add: lk_ok_def)
    then show ?thesis using t' False by (auto simp: thread_ok_def touch_def split: option.splits)
  qed (use th in \<open>simp add: thread_ok_def split: option.splits\<close>)
  moreover have "\<not> lk_panicstr ?w" using ok t' by (simp add: lk_ok_def touch_def)
  ultimately show ?thesis unfolding lk_ok_def by blast
qed

section \<open>The thread that runs\<close>

text \<open>
  Between two sleeps: the lock counts the threads in \<open>N\<close>, \<open>U\<close> and \<open>E\<close>, and \<open>t\<close> runs. At the end (\<open>lk_done\<close>) the thread has returned or sleeps,
  and \<open>H\<close> gives the holders for the result.
\<close>

definition lk_pre :: "bool \<Rightarrow> bool \<Rightarrow> ptr \<Rightarrow> ptr \<Rightarrow> lk_world \<Rightarrow> lk_thread multiset \<Rightarrow> (lk_thread \<times> nat) option \<Rightarrow> ptr set \<Rightarrow> ptr set \<Rightarrow> ptr set \<Rightarrow> bool" where
  "lk_pre s n t p w R W N U E \<longleftrightarrow> lk_core n p w R W N U E \<and> (s \<longrightarrow> lk_nap p w) \<and> lk_drain1 p w \<and> lk_frames w t = None \<and> (\<forall>u. thread_ok w u)"

abbreviation lk_run :: "bool \<Rightarrow> bool \<Rightarrow> ptr \<Rightarrow> ptr \<Rightarrow> lk_world \<Rightarrow> lk_thread multiset \<Rightarrow> (lk_thread \<times> nat) option \<Rightarrow> bool" where
  "lk_run s n t p w R W \<equiv> lk_pre s n t p w R W (waiters p w) (upgraders p w) (exclwaiters p w)"

definition lk_done :: "bool \<Rightarrow> bool \<Rightarrow> ptr \<Rightarrow> ptr \<Rightarrow> lk_world \<Rightarrow> (err option \<Rightarrow> lk_thread multiset \<times> (lk_thread \<times> nat) option) \<Rightarrow> (lk_world \<times> err option) option \<Rightarrow> bool" where
  "lk_done s n t p w0 H res \<longleftrightarrow> (\<exists>w r. res = Some (w, r) \<and> touch t p w0 w \<and> (case H r of (R, W) \<Rightarrow> lk_at s n p w R W) \<and> thread_ok w t \<and>
     (\<forall>fr. lk_frames w t = Some fr \<longrightarrow> fr_lock fr = p))"

lemma lk_in_same [simp]:
  "lk_in p S (upd_lk q f w) = lk_in p S w" "lk_in p S (lk_set q m w) = lk_in p S w" "lk_in p S (lk_clear q m w) = lk_in p S w" "lk_in p S (lk_wakeup ch w) = lk_in p S w"
  by (simp_all add: lk_in_def)

lemma lk_in_msleep: "lk_frames w t = None \<Longrightarrow> lk_in p S (lk_msleep t ch fr w) = (if fr_lock fr = p \<and> S (fr_site fr) then insert t (lk_in p S w) else lk_in p S w)"
  by (auto simp: lk_in_def)

lemma not_in: "lk_frames w t = None \<Longrightarrow> t \<notin> lk_in p S w"
  by (simp add: lk_in_def)

lemma thread_ok_same [simp]:
  "thread_ok (upd_lk q f w) u = thread_ok w u" "thread_ok (lk_set q m w) u = thread_ok w u" "thread_ok (lk_clear q m w) u = thread_ok w u"
  by (simp_all add: thread_ok_def split: option.splits)

lemma asleep_chan: "thread_ok w u \<Longrightarrow> lk_frames w u = Some fr \<Longrightarrow> lk_sleep w u = Some ch \<Longrightarrow> ch = lk_chan_of fr"
  by (auto simp: thread_ok_def)

lemma thread_ok_wakeup [simp]: "thread_ok w u \<Longrightarrow> thread_ok (lk_wakeup ch w) u"
  by (auto simp: thread_ok_def split: option.splits)

lemma end_done:
  assumes "lk_run s n t p w R W" "touch t p w0 w" "H (Some e) = (R, W)"
  shows "lk_done s n t p w0 H (Some (lockmgr_end p e w))"
proof (cases "lk_has p LK_WAITDRAIN w \<and> \<not> lk_has p LK_ALL w")
  case True
  let ?w = "lk_wakeup (On_flags p) (lk_clear p LK_WAITDRAIN w)"
  have th: "\<And>u. thread_ok w u" using assms(1) by (simp add: lk_pre_def)
  have "lk_sleep ?w u = None" if "lk_frames w u = Some fr" "fr_lock fr = p" "fr_site fr = Drain" for u fr
    using asleep_chan [OF th that(1)] that by (cases "lk_sleep w u") (auto simp: lk_chan_of_def)
  then have "lk_drains p ?w" unfolding lk_drains_def by (metis lk_wakeup_simps(2) lk_clear_simps(2))
  moreover have "lk_core n p ?w R W (waiters p w) (upgraders p w) (exclwaiters p w)" using assms(1) by (simp add: lk_pre_def lk_core_def lk_counts_def)
  moreover have "s \<Longrightarrow> lk_nap p ?w"
  proof -
    assume s
    then have "lk_nap p w" using assms(1) by (simp add: lk_pre_def)
    moreover have "waiters p w = {}" using True assms(1) by (auto simp: lk_pre_def lk_core_def)
    ultimately show ?thesis by (auto simp: lk_nap_def lk_in_def)
  qed
  moreover have "thread_ok ?w t" "\<forall>fr. lk_frames ?w t = Some fr \<longrightarrow> fr_lock fr = p" using th assms(1) by (simp_all add: lk_pre_def)
  ultimately show ?thesis
    using True assms(2,3) by (auto simp: lk_done_def lockmgr_end_def lk_at_def intro: touch_steps)
next
  case False
  then have "lk_drains p w" using assms(1) by (auto simp: lk_pre_def lk_drains_def lk_drain1_def)
  then show ?thesis using False assms by (auto simp: lk_done_def lockmgr_end_def lk_at_def lk_pre_def)
qed

text \<open>Going to sleep in \<open>acquire\<close>, with the sets of the threads including \<open>t\<close> where its site says so.\<close>

lemma sleep_done:
  assumes p: "lk_pre s n t p w R W (waiters p w) (if fr_site fr = Upgrade then insert t (upgraders p w) else upgraders p w)
      (if fr_site fr = Excl_wait then insert t (exclwaiters p w) else exclwaiters p w)"
    and h: "lk_has p (fr_wanted fr) w" and fr: "frame_ok t fr" "fr_lock fr = p" "fr_site fr \<noteq> Drain" and t: "touch t p w0 w" and H: "H None = (R, W)"
  shows "lk_done s n t p w0 H (Some (lk_msleep t (On_lock p) fr (upd_lk p (\<lambda>l. l\<lparr>lk_waitcount := lk_waitcount l + 1\<rparr>) (lk_set p LK_WAIT_NONZERO w)), None))"
proof -
  let ?w = "lk_msleep t (On_lock p) fr (upd_lk p (\<lambda>l. l\<lparr>lk_waitcount := lk_waitcount l + 1\<rparr>) (lk_set p LK_WAIT_NONZERO w))"
  have f: "lk_frames w t = None" using p by (simp add: lk_pre_def)
  have has: "lk_has p m w \<Longrightarrow> lk_has p m ?w" for m by simp
  have "lk_core n p ?w R W (waiters p ?w) (upgraders p ?w) (exclwaiters p ?w)"
    using p fr not_in [OF f] by (cases "fr_site fr") (auto simp: lk_pre_def lk_core_def lk_counts_def lk_in_msleep f)
  moreover have "lk_nap p ?w" if s using p that h has unfolding lk_pre_def lk_nap_def by (auto simp: fun_upd_def)
  moreover have "lk_drains p ?w" using p fr unfolding lk_pre_def lk_drains_def lk_drain1_def by (auto simp: fun_upd_def)
  moreover have "thread_ok ?w t" using fr by (simp add: thread_ok_def lk_chan_of_def)
  moreover have "touch t p w0 ?w" by (intro touch_steps t)
  ultimately show ?thesis using fr H by (auto simp: lk_done_def lk_at_def)
qed

text \<open>Sleeping until the lock is idle.\<close>

lemma drain_sleep_done:
  assumes p: "lk_run s n t p w R W" and h: "lk_has p LK_ALL w" and fr: "frame_ok t fr" "fr_lock fr = p" "fr_site fr = Drain" and t: "touch t p w0 w" and H: "H None = (R, W)"
  shows "lk_done s n t p w0 H (Some (lk_msleep t (On_flags p) fr (lk_set p LK_WAITDRAIN w), None))"
proof -
  let ?w = "lk_msleep t (On_flags p) fr (lk_set p LK_WAITDRAIN w)"
  have f: "lk_frames w t = None" using p by (simp add: lk_pre_def)
  have has: "lk_has p m w \<Longrightarrow> lk_has p m ?w" for m by simp
  have "lk_core n p ?w R W (waiters p ?w) (upgraders p ?w) (exclwaiters p ?w)"
    using p fr not_in [OF f] by (simp add: lk_pre_def lk_core_def lk_counts_def lk_in_msleep f)
  moreover have "lk_nap p ?w" if s using p that fr has unfolding lk_pre_def lk_nap_def by (auto simp: fun_upd_def)
  moreover have "lk_drains p ?w" using h by (auto simp: lk_drains_def)
  moreover have "thread_ok ?w t" using fr by (simp add: thread_ok_def lk_chan_of_def)
  moreover have "touch t p w0 ?w" by (intro touch_steps t)
  ultimately show ?thesis using fr H by (auto simp: lk_done_def lk_at_def)
qed

text \<open>Waking all that sleep in \<open>acquire\<close>.\<close>

lemma wake_nap:
  assumes "\<And>u. thread_ok w u"
  shows "lk_nap p (lk_wakeup (On_lock p) w)"
proof -
  have "lk_sleep (lk_wakeup (On_lock p) w) u = None" if "lk_frames w u = Some fr" "fr_lock fr = p" "fr_site fr \<noteq> Drain" for u fr
    using asleep_chan [OF assms that(1)] that by (cases "lk_sleep w u") (auto simp: lk_chan_of_def)
  then show ?thesis unfolding lk_nap_def by (metis lk_wakeup_simps(2))
qed

end
