(* ===== verification/Kern_Lock_Calls.thy ===== *)
theory Kern_Lock_Calls
  imports Kern_Lock_Inv
begin

text \<open>
  Each case of \<open>lockmgr\<close> from a state in which the thread runs: it ends in a state of the invariant with the holders that
  \<open>H\<close> gives for its result, or sleeps.
\<close>

section \<open>Steps that keep the invariant\<close>

lemma lk_pre_thread: "lk_pre s n t p w R W N U E \<Longrightarrow> thread_ok w u" by (simp add: lk_pre_def)

lemma wanted_has:
  "frame_ok u fr \<Longrightarrow> fr_site fr \<noteq> Drain \<Longrightarrow> lk_has p (fr_wanted fr) w \<Longrightarrow>
     (\<And>m. m \<in> {LK_HAVE_EXCL, LK_WANT_EXCL, LK_WANT_UPGRADE, LK_SHARE_NONZERO} \<Longrightarrow> lk_has p m w \<Longrightarrow> lk_has p m w') \<Longrightarrow> lk_has p (fr_wanted fr) w'"
  by (cases "fr_site fr") (auto simp: frame_ok_def)

lemma nap_more:
  assumes "lk_nap p w" "\<And>u. thread_ok w u" "lk_frames w' = lk_frames w" "lk_sleep w' = lk_sleep w"
    "\<And>m. m \<in> {LK_HAVE_EXCL, LK_WANT_EXCL, LK_WANT_UPGRADE, LK_SHARE_NONZERO} \<Longrightarrow> lk_has p m w \<Longrightarrow> lk_has p m w'"
  shows "lk_nap p w'"
proof -
  have "frame_ok u fr" if "lk_frames w u = Some fr" for u fr using assms(2) [of u] that by (simp add: thread_ok_def)
  then show ?thesis using assms(1) wanted_has [OF _ _ _ assms(5)] assms(5) unfolding lk_nap_def assms(3,4) by (metis insertI1)
qed

text \<open>Nobody in the last phase of an exclusive request: then the shared holders are not waited for.\<close>

lemma nap_unshare:
  assumes "lk_nap p w" "\<And>u. thread_ok w u" "upgraders p w = {}" "exclwaiters p w = {}"
  shows "lk_nap p (lk_clear p LK_SHARE_NONZERO w)"
proof -
  have "lk_has p (fr_wanted fr) (lk_clear p LK_SHARE_NONZERO w)" if "lk_frames w u = Some fr" "fr_lock fr = p" "fr_site fr \<noteq> Drain" "lk_has p (fr_wanted fr) w" for u fr
  proof -
    have "frame_ok u fr" using assms(2) [of u] that(1) by (simp add: thread_ok_def)
    moreover have "fr_site fr \<noteq> Upgrade" "fr_site fr \<noteq> Excl_wait" using assms(3,4) that by (auto simp: lk_in_def)
    ultimately show ?thesis using that(3,4) by (cases "fr_site fr") (auto simp: frame_ok_def)
  qed
  note keep = this
  show ?thesis unfolding lk_nap_def
  proof (intro allI impI)
    fix u fr
    assume a: "lk_frames (lk_clear p LK_SHARE_NONZERO w) u = Some fr \<and> fr_lock fr = p \<and> fr_site fr \<noteq> Drain \<and> lk_sleep (lk_clear p LK_SHARE_NONZERO w) u \<noteq> None"
    then have "lk_has p (fr_wanted fr) w \<or> lk_has p LK_HAVE_EXCL w" using assms(1) [unfolded lk_nap_def] unfolding lk_clear_simps by blast
    then show "lk_has p (fr_wanted fr) (lk_clear p LK_SHARE_NONZERO w) \<or> lk_has p LK_HAVE_EXCL (lk_clear p LK_SHARE_NONZERO w)"
      using keep [of u fr] a by auto
  qed
qed

lemma sharelock_pre:
  assumes "lk_pre s n t p w R None N U E" "0 < k" "x \<noteq> LK_NOPROC"
  shows "lk_pre s n t p (sharelock p (int k) w) (R + replicate_mset k x) None N U E"
proof -
  let ?w = "sharelock p (int k) w"
  have "lk_core n p ?w (R + replicate_mset k x) None N U E" using assms by (auto simp: lk_pre_def lk_core_def lk_counts_def sharelock_def)
  moreover have "lk_nap p ?w" if s
  proof (rule nap_more [of p w])
    show "lk_nap p w" "\<And>u. thread_ok w u" using assms that by (simp_all add: lk_pre_def)
  qed (simp_all add: sharelock_def)
  moreover have "lk_drain1 p ?w" using assms by (simp add: lk_pre_def lk_drain1_def sharelock_def)
  ultimately show ?thesis using assms by (simp add: lk_pre_def sharelock_def)
qed

lemma sharelock_touch: "touch t p w0 w \<Longrightarrow> touch t p w0 (sharelock p k w)"
  by (simp add: sharelock_def touch_steps)

lemma shareunlock_pre:
  assumes r: "lk_run s n t p w R W" and x: "x \<in># R" and t: "touch t p w0 w"
  obtains w' where "shareunlock p 1 w = Some w'" "lk_run s n t p w' (R - {#x#}) W" "touch t p w0 w'"
    "waiters p w' = waiters p w" "upgraders p w' = upgraders p w" "exclwaiters p w' = exclwaiters p w"
    "lk_has p LK_WANT_UPGRADE w' = lk_has p LK_WANT_UPGRADE w"
proof -
  have sc: "lk_sharecount (the_lk w p) = int (size R)" and W: "W = None" and core: "lk_core n p w R W (waiters p w) (upgraders p w) (exclwaiters p w)"
    and th: "\<And>u. thread_ok w u" and np: "LK_NOPROC \<notin># R"
    using r x by (auto simp: lk_pre_def lk_core_def lk_counts_def)
  have sz: "size R = Suc (size (R - {#x#}))" using x by (metis insert_DiffM size_add_mset)
  show ?thesis
  proof (cases "R - {#x#} = {#}")
    case True
    let ?w1 = "lk_clear p LK_SHARE_NONZERO w"
    let ?w2 = "if lk_has p (LK_WANT_UPGRADE OR LK_WANT_EXCL) ?w1 then lk_wakeup (On_lock p) ?w1 else ?w1"
    let ?w = "upd_lk p (\<lambda>l. l\<lparr>lk_sharecount := 0\<rparr>) ?w2"
    have eq: "shareunlock p 1 w = Some ?w" using sc sz True by (simp add: shareunlock_def Let_def)
    have "lk_core n p ?w (R - {#x#}) W (waiters p ?w) (upgraders p ?w) (exclwaiters p ?w)"
      using core W unfolding True by (simp add: lk_core_def lk_counts_def)
    moreover have "lk_nap p ?w" if s
    proof -
      have "lk_nap p ?w2"
        using th wake_nap [of ?w1 p] nap_unshare [OF _ th, of p] r that core by (auto simp: lk_pre_def lk_core_def)
      then show ?thesis by (simp add: lk_nap_def)
    qed
    moreover have "lk_drain1 p ?w" using r by (auto simp: lk_pre_def lk_drain1_def split: if_splits)
    ultimately show ?thesis using th r t by (intro that [OF eq]) (auto simp: lk_pre_def intro!: touch_steps)
  next
    case False
    let ?w = "upd_lk p (\<lambda>l. l\<lparr>lk_sharecount := lk_sharecount l - 1\<rparr>) w"
    have eq: "shareunlock p 1 w = Some ?w" using sc sz False by (auto simp: shareunlock_def Let_def)
    have "LK_NOPROC \<notin># R - {#x#}" using np by (meson in_diffD)
    moreover have "R \<noteq> {#}" using x by auto
    ultimately have "lk_core n p ?w (R - {#x#}) W (waiters p ?w) (upgraders p ?w) (exclwaiters p ?w)"
      using core sz False W by (simp add: lk_core_def lk_counts_def)
    then show ?thesis using r t by (intro that [OF eq]) (auto simp: lk_pre_def lk_nap_def lk_drain1_def intro!: touch_steps)
  qed
qed

section \<open>After \<open>acquire\<close>\<close>

lemma acquire_done:
  assumes p: "lk_pre s n t p w R W (waiters p w) (if fr_site fr = Upgrade then insert t (upgraders p w) else upgraders p w)
      (if fr_site fr = Excl_wait then insert t (exclwaiters p w) else exclwaiters p w)"
    and fr: "fr_ext fr AND LK_NOWAIT = 0 \<Longrightarrow> frame_ok t fr" "fr_lock fr = p" "fr_site fr \<noteq> Drain" and t: "touch t p w0 w" and H: "H None = (R, W)"
    and got: "\<not> lk_has p (fr_wanted fr) w \<Longrightarrow> lk_done s n t p w0 H (lk_took t fr None w)"
    and busy: "fr_ext fr AND LK_NOWAIT \<noteq> 0 \<Longrightarrow> lk_has p (fr_wanted fr) w \<Longrightarrow> lk_done s n t p w0 H (lk_took t fr (Some EBUSY) w)"
  shows "lk_done s n t p w0 H (after_acquire t fr (acquire t fr w))"
    and "fr_ext fr AND LK_NOWAIT = 0 \<Longrightarrow> lk_done s n t p w0 H (after_acquire t fr (acquire_loop t fr w))"
proof -
  have loop: "lk_done s n t p w0 H (after_acquire t fr (acquire_loop t fr w))" if "fr_ext fr AND LK_NOWAIT = 0"
  proof (cases "lk_has p (fr_wanted fr) w")
    case True
    then show ?thesis using sleep_done [where H = H, OF p True fr(1) [OF that] fr(2,3) t H] fr(2) by (simp add: acquire_loop_def after_acquire_def Let_def)
  next
    case False
    then show ?thesis using got fr(2) by (simp add: acquire_loop_def after_acquire_def Let_def)
  qed
  then show "fr_ext fr AND LK_NOWAIT = 0 \<Longrightarrow> lk_done s n t p w0 H (after_acquire t fr (acquire_loop t fr w))" .
  show "lk_done s n t p w0 H (after_acquire t fr (acquire t fr w))"
  proof (cases "lk_has p (fr_wanted fr) w")
    case True
    then show ?thesis using busy loop fr(2) by (cases "fr_ext fr AND LK_NOWAIT = 0") (auto simp: acquire_def apause_def after_acquire_def Let_def)
  next
    case False
    then show ?thesis using got fr(2) by (auto simp: acquire_def apause_def acquire_loop_def after_acquire_def Let_def)
  qed
qed

lemma took_shared:
  assumes r: "lk_run s n t p w R W" and fr: "fr_lock fr = p" "fr_site fr = Shared" "fr_thr fr = Thread t" and t: "touch t p w0 w"
    and e: "error = None \<Longrightarrow> \<not> lk_has p LK_HAVE_EXCL w"
    and H: "\<And>e. H (Some (Some e)) = (R, W)" "W = None \<Longrightarrow> H (Some None) = (add_mset (Thread t) R, None)"
  shows "lk_done s n t p w0 H (lk_took t fr error w)"
proof (cases error)
  case None
  then have W: "W = None" using e r by (auto simp: lk_pre_def lk_core_def lk_counts_def)
  have "lk_run s n t p (sharelock p 1 w) (add_mset (Thread t) R) None"
    using sharelock_pre [of s n t p w R "waiters p w" "upgraders p w" "exclwaiters p w" 1 "Thread t"] r W by (simp add: sharelock_def)
  from end_done [OF this sharelock_touch [OF t]] show ?thesis using None fr H(2) [OF W] by (simp add: lk_took_def Let_def)
next
  case (Some e)
  then show ?thesis using end_done [where H = H, OF r t H(1)] fr by (simp add: lk_took_def Let_def)
qed

text \<open>Taking the lock with the mark \<open>want\<close> withdrawn.\<close>

lemma take_done:
  assumes r: "lk_pre s n t p w {#} None (waiters p w) U E" and fr: "fr_lock fr = p" "fr_thr fr = Thread t" and t: "touch t p w0 w"
    and c: "want = LK_WANT_UPGRADE \<and> U = insert t (upgraders p w) \<and> E = exclwaiters p w \<or> want = LK_WANT_EXCL \<and> U = {} \<and> upgraders p w = {} \<and> E = insert t (exclwaiters p w)"
    and H: "H (Some None) = ({#}, Some (Thread t, 1))"
  shows "lk_done s n t p w0 H (lk_took_want want fr None w)"
proof -
  have f: "lk_frames w t = None" and th: "\<And>u. thread_ok w u" using r by (simp_all add: lk_pre_def)
  let ?w1 = "upd_lk p (\<lambda>l. l\<lparr>lk_lockholder := Thread t\<rparr>) (lk_set p LK_HAVE_EXCL (lk_clear p want w))"
  let ?w = "upd_lk p (\<lambda>l. l\<lparr>lk_exclusivecount := 1\<rparr>) ?w1"
  have eq: "lk_took_want want fr None w = Some (lockmgr_end p None ?w)"
    using r fr by (simp add: lk_took_want_def take_excl_def Let_def lk_pre_def lk_core_def lk_counts_def)
  have core: "lk_core n p w {#} None (waiters p w) U E" using r by (simp add: lk_pre_def)
  have nt: "t \<notin> upgraders p w" "t \<notin> exclwaiters p w" using not_in [OF f] by auto
  have "lk_core n p ?w {#} (Some (Thread t, 1)) (waiters p ?w) (upgraders p ?w) (exclwaiters p ?w)"
    using c
  proof (elim disjE conjE)
    assume c: "want = LK_WANT_UPGRADE" "U = insert t (upgraders p w)" "E = exclwaiters p w"
    have "upgraders p w = {}" using core nt(1) unfolding c lk_core_def by (blast dest: lone_insert)
    then show ?thesis using core unfolding c by (simp add: lk_core_def lk_counts_def)
  next
    assume c: "want = LK_WANT_EXCL" "U = {}" "upgraders p w = {}" "E = insert t (exclwaiters p w)"
    have "exclwaiters p w = {}" using core nt(2) unfolding c lk_core_def by (blast dest: lone_insert)
    then show ?thesis using core c(3) unfolding c(1,2,4) by (simp add: lk_core_def lk_counts_def)
  qed
  moreover have "lk_nap p ?w" by (simp add: lk_nap_def)
  moreover have "lk_drain1 p ?w" using r c by (auto simp: lk_pre_def lk_drain1_def)
  ultimately have "lk_run s n t p ?w {#} (Some (Thread t, 1))" using f th by (simp add: lk_pre_def)
  moreover have "touch t p w0 ?w" by (intro touch_steps t)
  ultimately show ?thesis unfolding eq by (rule end_done) (rule H)
qed

lemma giveup_done:
  assumes r: "lk_pre s' n t p w R W (waiters p w) U E" and fr: "fr_lock fr = p" and t: "touch t p w0 w"
    and c: "want = LK_WANT_UPGRADE \<and> U = insert t (upgraders p w) \<and> E = exclwaiters p w \<or> want = LK_WANT_EXCL \<and> U = upgraders p w \<and> E = insert t (exclwaiters p w)"
    and nap: "s \<Longrightarrow> lk_nap p (lk_clear p want w)" and H: "H (Some (Some e)) = (R, W)"
  shows "lk_done s n t p w0 H (lk_took_want want fr (Some e) w)"
proof -
  have f: "lk_frames w t = None" and th: "\<And>u. thread_ok w u" using r by (simp_all add: lk_pre_def)
  let ?w = "lk_clear p want w"
  have core: "lk_core n p w R W (waiters p w) U E" using r by (simp add: lk_pre_def)
  have nt: "t \<notin> upgraders p w" "t \<notin> exclwaiters p w" using not_in [OF f] by auto
  have "lk_core n p ?w R W (waiters p ?w) (upgraders p ?w) (exclwaiters p ?w)"
    using c
  proof (elim disjE conjE)
    assume c: "want = LK_WANT_UPGRADE" "U = insert t (upgraders p w)" "E = exclwaiters p w"
    have "upgraders p w = {}" using core nt(1) unfolding c lk_core_def by (blast dest: lone_insert)
    then show ?thesis using core unfolding c by (simp add: lk_core_def lk_counts_def)
  next
    assume c: "want = LK_WANT_EXCL" "U = upgraders p w" "E = insert t (exclwaiters p w)"
    have "exclwaiters p w = {}" using core nt(2) unfolding c lk_core_def by (blast dest: lone_insert)
    then show ?thesis using core unfolding c by (simp add: lk_core_def lk_counts_def)
  qed
  moreover have "lk_drain1 p ?w" using r c by (auto simp: lk_pre_def lk_drain1_def)
  ultimately have "lk_run s n t p ?w R W" using f th nap by (simp add: lk_pre_def)
  moreover have "touch t p w0 ?w" by (intro touch_steps t)
  ultimately show ?thesis using end_done [of s n t p ?w R W w0 H "Some e"] H fr by (simp add: lk_took_want_def Let_def)
qed

end
