(* ===== verification/Kern_Lock_Cases.thy ===== *)
theory Kern_Lock_Cases
  imports Kern_Lock_Calls
begin

text \<open>The cases of the switch in \<open>lockmgr\<close>, and a thread that goes on after \<open>msleep\<close>.\<close>

lemma and_or_zero: "c AND (a OR b) = 0 \<longleftrightarrow> c AND a = 0 \<and> c AND b = (0 :: u32)"
  using and_or_word(2) [of c a b] by blast

lemma lk_pre_core: "lk_pre s n t p w R W N U E \<Longrightarrow> lk_core n p w R W N U E"
  by (simp add: lk_pre_def)

lemma core_flags:
  assumes "lk_core n p w R W N U E"
  shows "lk_has p LK_SHARE_NONZERO w \<longleftrightarrow> R \<noteq> {#}" "lk_has p LK_HAVE_EXCL w \<longleftrightarrow> W \<noteq> None" "lk_has p LK_WANT_UPGRADE w \<longleftrightarrow> U \<noteq> {}"
    "lk_has p LK_WANT_EXCL w \<longleftrightarrow> E \<noteq> {}" "lk_has p LK_WAIT_NONZERO w \<longleftrightarrow> N \<noteq> {}" "lk_newlock (the_lk w p) = None" "W \<noteq> None \<Longrightarrow> R = {#}"
    "lk_exclusivecount (the_lk w p) = int (writer_count W)" "lk_lockholder (the_lk w p) = writer_thread W" "lk_sharecount (the_lk w p) = int (size R)"
    "LK_NOPROC \<notin># R" "W = Some (x, k) \<Longrightarrow> 0 < k \<and> x \<noteq> LK_NOPROC" "lk_waitcount (the_lk w p) = int (card N)" "finite N" "n \<Longrightarrow> U = {}" "n \<Longrightarrow> W = None \<or> E = {}"
  using assms by (auto simp: lk_core_def lk_counts_def)

lemma writer_zero: "lk_core n p w R W N U E \<Longrightarrow> writer_count W = 0 \<longleftrightarrow> W = None"
  by (cases W) (auto simp: lk_core_def lk_counts_def)

lemma sharelock_same [simp]:
  "lk_frames (sharelock q k w) = lk_frames w" "lk_sleep (sharelock q k w) = lk_sleep w" "lk_in p S (sharelock q k w) = lk_in p S w" "thread_ok (sharelock q k w) u = thread_ok w u"
  by (simp_all add: sharelock_def)

lemma nap_upd: "(\<And>l. lk_flags (f l) = lk_flags l) \<Longrightarrow> lk_nap p (upd_lk q f w) = lk_nap p w"
  by (simp only: lk_nap_def lk_has_upd upd_lk_simps)

text \<open>Setting a mark.\<close>

lemma mark_pre:
  assumes r: "lk_run s n t p w R W" and c: "m = LK_WANT_UPGRADE \<and> upgraders p w = {} \<and> W = None \<and> \<not> n \<and> U = {t} \<and> E = exclwaiters p w \<or>
      m = LK_WANT_EXCL \<and> exclwaiters p w = {} \<and> W = None \<and> U = upgraders p w \<and> E = {t}"
  shows "lk_pre s n t p (lk_set p m w) R W (waiters p w) U E"
proof -
  have "lk_core n p (lk_set p m w) R W (waiters p w) U E"
    using c lk_pre_core [OF r] by (elim disjE conjE) (simp_all add: lk_core_def lk_counts_def)
  moreover have "lk_nap p (lk_set p m w)" if s
  proof (rule nap_more [of p w])
    show "lk_nap p w" "\<And>u. thread_ok w u" using r that by (simp_all add: lk_pre_def)
  qed simp_all
  ultimately show ?thesis using r by (simp add: lk_pre_def lk_drain1_def)
qed

section \<open>Exclusive\<close>

definition excl_result :: "ptr \<Rightarrow> lk_thread multiset \<Rightarrow> (lk_thread \<times> nat) option \<Rightarrow> (err option \<Rightarrow> lk_thread multiset \<times> (lk_thread \<times> nat) option) \<Rightarrow> bool" where
  "excl_result t R W H \<longleftrightarrow> H None = (R, W) \<and> (\<forall>e. H (Some (Some e)) = (R, W)) \<and>
     H (Some None) = (R, case W of Some (x, k) \<Rightarrow> Some (x, Suc k) | None \<Rightarrow> Some (Thread t, 1))"

lemma excl_took:
  assumes r: "lk_run s n t p w R W" and fr: "fr_lock fr = p" "fr_site fr = Excl_want" "fr_thr fr = Thread t" and t: "touch t p w0 w" and H: "excl_result t R W H"
    and got: "error = None \<Longrightarrow> \<not> lk_has p LK_HAVE_EXCL w \<and> \<not> lk_has p LK_WANT_EXCL w"
    and busy: "error = None \<Longrightarrow> fr_ext fr AND LK_NOWAIT \<noteq> 0 \<Longrightarrow> \<not> lk_has p LK_WANT_UPGRADE w \<and> \<not> lk_has p LK_SHARE_NONZERO w"
  shows "lk_done s n t p w0 H (lk_took t fr error w)"
proof (cases error)
  case (Some e)
  then show ?thesis using end_done [where H = H, OF r t, of "Some e"] H fr by (simp add: lk_took_def excl_result_def Let_def)
next
  case None
  let ?w = "lk_set p LK_WANT_EXCL w"
  let ?fr = "fr\<lparr>fr_site := Excl_wait, fr_wanted := LK_WANT_UPGRADE OR LK_SHARE_NONZERO\<rparr>"
  note core = lk_pre_core [OF r]
  have e: "exclwaiters p w = {}" "W = None" using got [OF None] core_flags [OF core] by auto
  have pre: "lk_pre s n t p ?w R None (waiters p ?w) (upgraders p ?w) (insert t (exclwaiters p ?w))"
    using mark_pre [OF r, of LK_WANT_EXCL "upgraders p w" "{t}"] e by simp
  have eq: "lk_took t fr error w = after_acquire t ?fr (acquire t ?fr ?w)"
    using None fr by (simp add: lk_took_def after_acquire_def Let_def split: option.splits prod.splits)
  show ?thesis unfolding eq
  proof (rule acquire_done(1))
    show "lk_pre s n t p ?w R None (waiters p ?w) (if fr_site ?fr = Upgrade then insert t (upgraders p ?w) else upgraders p ?w)
      (if fr_site ?fr = Excl_wait then insert t (exclwaiters p ?w) else exclwaiters p ?w)" using pre by simp
    show "lk_done s n t p w0 H (lk_took t ?fr None ?w)" if "\<not> lk_has p (fr_wanted ?fr) ?w"
    proof -
      have c: "R = {#}" "upgraders p w = {}" using that core_flags(1,3) [OF core] by auto
      have "lk_done s n t p w0 H (lk_took_want LK_WANT_EXCL ?fr None ?w)"
      proof (rule take_done)
        show "lk_pre s n t p ?w {#} None (waiters p ?w) {} (insert t (exclwaiters p ?w))" using pre c by simp
      qed (use fr c H e in \<open>simp_all add: excl_result_def touch_steps t\<close>)
      then show ?thesis by (simp add: lk_took_def)
    qed
    show "lk_done s n t p w0 H (lk_took t ?fr (Some EBUSY) ?w)" if "fr_ext ?fr AND LK_NOWAIT \<noteq> 0" "lk_has p (fr_wanted ?fr) ?w"
      using busy [OF None] that by (simp add: and_or_zero)
  qed (use fr H e in \<open>simp_all add: frame_ok_def excl_result_def touch_steps t\<close>)
qed

lemma exclusive_done:
  assumes r: "lk_run s n t p w R W" and t: "touch t p w0 w" and H: "excl_result t R W H"
    and may: "\<And>k. W = Some (Thread t, k) \<Longrightarrow> ext AND (LK_NOWAIT OR LK_CANRECURSE) \<noteq> 0"
  shows "lk_done s n t p w0 H (lockmgr_exclusive t p ext (Thread t) w)"
proof -
  note core = lk_pre_core [OF r]
  have mine: "lk_lockholder (the_lk w p) = Thread t \<longleftrightarrow> (\<exists>k. W = Some (Thread t, k))"
    using core_flags(9) [OF core] by (cases W) auto
  let ?fr = "\<lparr>fr_lock = p, fr_site = Excl_want, fr_ext = ext, fr_wanted = LK_HAVE_EXCL OR LK_WANT_EXCL, fr_thr = Thread t\<rparr>"
  consider (recurse) k where "W = Some (Thread t, k)" "ext AND LK_CANRECURSE \<noteq> 0"
    | (poll) "\<not> (lk_lockholder (the_lk w p) = Thread t \<and> ext AND LK_CANRECURSE \<noteq> 0)" "ext AND LK_NOWAIT \<noteq> 0 \<and> lk_has p (LK_HAVE_EXCL OR LK_WANT_EXCL OR LK_WANT_UPGRADE OR LK_SHARE_NONZERO) w"
    | (acq) "\<not> (lk_lockholder (the_lk w p) = Thread t \<and> ext AND LK_CANRECURSE \<noteq> 0)" "\<not> (ext AND LK_NOWAIT \<noteq> 0 \<and> lk_has p (LK_HAVE_EXCL OR LK_WANT_EXCL OR LK_WANT_UPGRADE OR LK_SHARE_NONZERO) w)"
    using mine by blast
  then show ?thesis
  proof cases
    case recurse
    let ?w = "upd_lk p (\<lambda>l. l\<lparr>lk_exclusivecount := lk_exclusivecount l + 1\<rparr>) w"
    have "lk_run s n t p ?w R (Some (Thread t, Suc k))"
      using r recurse(1) by (simp add: lk_pre_def lk_core_def lk_counts_def nap_upd lk_drain1_def)
    from end_done [where H = H, OF this touch_steps(1) [OF t], of None] show ?thesis
      using H recurse mine by (simp add: lockmgr_exclusive_def excl_result_def and_or_zero Let_def)
  next
    case poll
    then have "lockmgr_exclusive t p ext (Thread t) w = Some (lockmgr_end p (Some EBUSY) w)"
      using may mine by (auto simp: lockmgr_exclusive_def and_or_zero Let_def)
    then show ?thesis using end_done [where H = H, OF r t, of "Some EBUSY"] H by (simp add: excl_result_def)
  next
    case acq
    then have eq: "lockmgr_exclusive t p ext (Thread t) w = after_acquire t ?fr (acquire t ?fr w)"
      using may mine by (auto simp: lockmgr_exclusive_def and_or_zero Let_def)
    show ?thesis unfolding eq
    proof (rule acquire_done(1))
      show "lk_done s n t p w0 H (lk_took t ?fr None w)" if "\<not> lk_has p (fr_wanted ?fr) w"
        by (rule excl_took [OF r _ _ _ t H]) (use that acq(2) in auto)
      show "lk_done s n t p w0 H (lk_took t ?fr (Some EBUSY) w)"
        by (rule excl_took [OF r _ _ _ t H]) simp_all
    qed (use r t H in \<open>simp_all add: frame_ok_def excl_result_def\<close>)
  qed
qed

section \<open>Shared, downgrade, release, drain\<close>

lemma downgrade_done:
  assumes r: "lk_run s n t p w R W" and W: "W = Some (x, k)" and t: "touch t p w0 w" and H: "H (Some None) = (replicate_mset (k + m) x, None)"
  shows "lk_done s n t p w0 H (lockmgr_downgrade p x (if m = 0 then w else sharelock p (int m) w))"
proof -
  note core = lk_pre_core [OF r]
  have k: "0 < k" "x \<noteq> LK_NOPROC" "R = {#}" using core_flags(7,12) [OF core] W by auto
  let ?v = "if m = 0 then w else sharelock p (int m) w"
  let ?w1 = "upd_lk p (\<lambda>l. l\<lparr>lk_lockholder := LK_NOPROC\<rparr>) (lk_clear p LK_HAVE_EXCL (upd_lk p (\<lambda>l. l\<lparr>lk_exclusivecount := 0\<rparr>) (sharelock p (int k) ?v)))"
  let ?w = "if lk_waitcount (the_lk ?w1 p) \<noteq> 0 then lk_wakeup (On_lock p) ?w1 else ?w1"
  have "lk_lockholder (the_lk ?v p) = x" "lk_exclusivecount (the_lk ?v p) = int k"
    using core_flags(8,9) [OF core] W by (simp_all add: sharelock_def)
  then have eq: "lockmgr_downgrade p x ?v = Some (lockmgr_end p None ?w)"
    unfolding lockmgr_downgrade_def Let_def using k by (simp only: simp_thms if_True of_nat_eq_0_iff neq0_conv)
  have same: "lk_frames ?w1 = lk_frames w" "lk_sleep ?w1 = lk_sleep w" "thread_ok ?w1 u = thread_ok w u" "lk_in p S ?w1 = lk_in p S w" for S u by (simp_all add: sharelock_def)
  have "lk_core n p ?w1 (replicate_mset (k + m) x) None (waiters p w) (upgraders p w) (exclwaiters p w)"
    using core k unfolding W by (simp add: lk_core_def lk_counts_def sharelock_def)
  then have c: "lk_core n p ?w (replicate_mset (k + m) x) None (waiters p ?w) (upgraders p ?w) (exclwaiters p ?w)"
    by (simp add: same lk_core_def lk_counts_def)
  have th: "thread_ok w u" for u using r by (simp add: lk_pre_def)
  have "lk_nap p ?w"
  proof (cases "lk_waitcount (the_lk ?w1 p) = 0")
    case True
    then have "waiters p w = {}" using core_flags(13,14) [OF core] by (simp add: sharelock_def split: if_splits)
    then show ?thesis using True by (auto simp: lk_nap_def lk_in_def same)
  next
    case False
    have "lk_nap p (lk_wakeup (On_lock p) ?w1)" by (rule wake_nap) (simp only: same th)
    then show ?thesis using False by simp
  qed
  moreover have "lk_drain1 p ?w" using r by (auto simp: lk_pre_def lk_drain1_def sharelock_def)
  moreover have "thread_ok ?w u" for u
    by (cases "lk_waitcount (the_lk ?w1 p) = 0") (simp_all only: if_True if_False simp_thms same th thread_ok_wakeup)
  moreover have "lk_frames ?w t = None" using r by (simp add: lk_pre_def)
  ultimately have "lk_run s n t p ?w (replicate_mset (k + m) x) None" using c unfolding lk_pre_def by blast
  moreover have "touch t p w0 ?w"
  proof -
    have "touch t p w0 ?v" using t by (simp add: sharelock_touch)
    then have "touch t p w0 ?w1" by (intro touch_steps sharelock_touch)
    then show ?thesis by (cases "lk_waitcount (the_lk ?w1 p) = 0") (simp_all only: if_True if_False simp_thms touch_steps)
  qed
  ultimately show ?thesis unfolding eq by (rule end_done) (rule H)
qed

lemma shared_done:
  assumes r: "lk_run s n t p w R W" and t: "touch t p w0 w"
    and H: "\<And>k. W = Some (Thread t, k) \<Longrightarrow> H (Some None) = (replicate_mset (k + 1) (Thread t), None)" "\<nexists>k. W = Some (Thread t, k) \<Longrightarrow> H None = (R, W) \<and> (\<forall>e. H (Some (Some e)) = (R, W))" "W = None \<Longrightarrow> H (Some None) = (add_mset (Thread t) R, None)"
  shows "lk_done s n t p w0 H (lockmgr_shared t p ext (Thread t) heed w)"
proof (cases "lk_lockholder (the_lk w p) = Thread t")
  case True
  then obtain k where W: "W = Some (Thread t, k)" using core_flags(9) [OF lk_pre_core [OF r]] by (cases W) auto
  show ?thesis using downgrade_done [OF r W t, of H 1] H(1) [OF W] True by (simp add: lockmgr_shared_def)
next
  case False
  let ?fr = "\<lparr>fr_lock = p, fr_site = Shared, fr_ext = ext, fr_wanted = (if heed then LK_HAVE_EXCL OR (LK_WANT_EXCL OR LK_WANT_UPGRADE) else LK_HAVE_EXCL), fr_thr = Thread t\<rparr>"
  have eq: "lockmgr_shared t p ext (Thread t) heed w = after_acquire t ?fr (acquire t ?fr w)"
    using False by (simp add: lockmgr_shared_def Let_def)
  have "\<nexists>k. W = Some (Thread t, k)" using False core_flags(9) [OF lk_pre_core [OF r]] by auto
  note H = H(2) [OF this] H(3)
  show ?thesis unfolding eq
  proof (rule acquire_done(1))
    show "lk_done s n t p w0 H (lk_took t ?fr None w)" if "\<not> lk_has p (fr_wanted ?fr) w"
      by (rule took_shared [OF r _ _ _ t]) (use that H in \<open>auto split: if_splits\<close>)
    show "lk_done s n t p w0 H (lk_took t ?fr (Some EBUSY) w)"
      by (rule took_shared [OF r _ _ _ t]) (use H in auto)
  qed (use r t H in \<open>simp_all add: frame_ok_def\<close>)
qed

lemma release_done:
  assumes r: "lk_run s n t p w R W" and t: "touch t p w0 w"
    and may: "(\<exists>k. W = Some (Thread t, k)) \<or> (\<exists>k. W = Some (LK_KERNPROC, k)) \<or> Thread t \<in># R"
    and H: "\<And>x k. W = Some (x, k) \<Longrightarrow> H (Some None) = (R, if k = 1 then None else Some (x, k - 1))" "W = None \<Longrightarrow> H (Some None) = (R - {#Thread t#}, None)"
  shows "lk_done s n t p w0 H (lockmgr_release p (Thread t) w)"
proof -
  note core = lk_pre_core [OF r]
  have "\<exists>w1. (if lk_exclusivecount (the_lk w p) \<noteq> 0 then
        (if lk_lockholder (the_lk w p) \<noteq> Thread t \<and> lk_lockholder (the_lk w p) \<noteq> LK_KERNPROC then None
         else if lk_exclusivecount (the_lk w p) = 1
         then Some (upd_lk p (\<lambda>l. l\<lparr>lk_lockholder := LK_NOPROC, lk_exclusivecount := 0\<rparr>) (lk_clear p LK_HAVE_EXCL w))
         else Some (upd_lk p (\<lambda>l. l\<lparr>lk_exclusivecount := lk_exclusivecount l - 1\<rparr>) w))
      else if lk_has p LK_SHARE_NONZERO w then shareunlock p 1 w else Some w) = Some w1 \<and>
    (\<exists>s'. lk_run s' n t p w1 (fst (H (Some None))) (snd (H (Some None)))) \<and> touch t p w0 w1"
  proof (cases W)
    case None
    then have x: "Thread t \<in># R" using may by simp
    obtain w1 where w1: "shareunlock p 1 w = Some w1" "lk_run s n t p w1 (R - {#Thread t#}) W" "touch t p w0 w1"
      by (rule shareunlock_pre [OF r x t])
    have "lk_exclusivecount (the_lk w p) = 0" "lk_has p LK_SHARE_NONZERO w"
      using core_flags(1,8) [OF core] None x by auto
    then show ?thesis using w1 H(2) [OF None] None by auto
  next
    case (Some y)
    obtain x k where y: "y = (x, k)" by (cases y)
    note W = Some [unfolded y]
    have k: "0 < k" "x \<noteq> LK_NOPROC" "R = {#}" using core_flags(7,12) [OF core] W by auto
    have x: "x = Thread t \<or> x = LK_KERNPROC" using may W k(3) by auto
    have l: "lk_exclusivecount (the_lk w p) = int k" "lk_lockholder (the_lk w p) = x" using core_flags(8,9) [OF core] W by simp_all
    show ?thesis
    proof (cases "k = 1")
      case True
      let ?w = "upd_lk p (\<lambda>l. l\<lparr>lk_lockholder := LK_NOPROC, lk_exclusivecount := 0\<rparr>) (lk_clear p LK_HAVE_EXCL w)"
      have "lk_core n p ?w R None (waiters p w) (upgraders p w) (exclwaiters p w)"
        using core k unfolding W by (simp add: lk_core_def lk_counts_def)
      then have "lk_run False n t p ?w R None" using r by (simp add: lk_pre_def lk_drain1_def)
      then show ?thesis using l x True t H(1) [OF W] by (auto intro!: touch_steps)
    next
      case False
      let ?w = "upd_lk p (\<lambda>l. l\<lparr>lk_exclusivecount := lk_exclusivecount l - 1\<rparr>) w"
      have "lk_core n p ?w R (Some (x, k - 1)) (waiters p w) (upgraders p w) (exclwaiters p w)"
        using core k False unfolding W by (simp add: lk_core_def lk_counts_def of_nat_diff)
      then have "lk_run s n t p ?w R (Some (x, k - 1))" using r by (simp add: lk_pre_def lk_drain1_def nap_upd)
      then show ?thesis using l x False t k H(1) [OF W] by (auto intro!: touch_steps)
    qed
  qed
  then obtain w1 s' where w1: "(if lk_exclusivecount (the_lk w p) \<noteq> 0 then
        (if lk_lockholder (the_lk w p) \<noteq> Thread t \<and> lk_lockholder (the_lk w p) \<noteq> LK_KERNPROC then None
         else if lk_exclusivecount (the_lk w p) = 1
         then Some (upd_lk p (\<lambda>l. l\<lparr>lk_lockholder := LK_NOPROC, lk_exclusivecount := 0\<rparr>) (lk_clear p LK_HAVE_EXCL w))
         else Some (upd_lk p (\<lambda>l. l\<lparr>lk_exclusivecount := lk_exclusivecount l - 1\<rparr>) w))
      else if lk_has p LK_SHARE_NONZERO w then shareunlock p 1 w else Some w) = Some w1"
    "lk_run s' n t p w1 (fst (H (Some None))) (snd (H (Some None)))" "touch t p w0 w1" by blast
  let ?w = "if lk_has p LK_WAIT_NONZERO w1 then lk_wakeup (On_lock p) w1 else w1"
  have eq: "lockmgr_release p (Thread t) w = Some (lockmgr_end p None ?w)"
    unfolding lockmgr_release_def Let_def w1(1) by simp
  have th: "thread_ok w1 u" for u using w1(2) by (simp add: lk_pre_def)
  have "lk_nap p ?w"
  proof (cases "lk_has p LK_WAIT_NONZERO w1")
    case True
    then show ?thesis using wake_nap [of w1 p, OF th] by simp
  next
    case False
    then have "waiters p w1 = {}" using core_flags(5) [OF lk_pre_core [OF w1(2)]] by simp
    then show ?thesis using False by (auto simp: lk_nap_def lk_in_def)
  qed
  moreover have "lk_core n p ?w (fst (H (Some None))) (snd (H (Some None))) (waiters p ?w) (upgraders p ?w) (exclwaiters p ?w)"
    using w1(2) by (simp add: lk_pre_def lk_core_def lk_counts_def)
  moreover have "lk_drain1 p ?w" using w1(2) by (auto simp: lk_pre_def lk_drain1_def)
  moreover have "thread_ok ?w u" for u using th by simp
  moreover have "lk_frames ?w t = None" using w1(2) by (simp add: lk_pre_def)
  ultimately have "lk_run s n t p ?w (fst (H (Some None))) (snd (H (Some None)))" unfolding lk_pre_def by blast
  moreover have "touch t p w0 ?w" using w1(3) by (simp add: touch_steps)
  ultimately show ?thesis unfolding eq by (rule end_done) simp
qed

lemma drain_took:
  assumes r: "lk_run s n t p w R W" and fr: "fr_lock fr = p" "fr_site fr = Drain" "fr_thr fr = Thread t" and t: "touch t p w0 w"
    and e: "error = None \<Longrightarrow> \<not> lk_has p LK_ALL w" and H: "excl_result t R W H"
  shows "lk_done s n t p w0 H (lk_took t fr error w)"
proof (cases error)
  case (Some e)
  then show ?thesis using end_done [where H = H, OF r t, of "Some e"] H fr by (simp add: lk_took_def excl_result_def Let_def)
next
  case None
  note core = lk_pre_core [OF r]
  have c: "R = {#}" "W = None" "upgraders p w = {}" "exclwaiters p w = {}" using e [OF None] core_flags(1-4) [OF core] by (cases W; auto)+
  let ?w = "upd_lk p (\<lambda>l. l\<lparr>lk_lockholder := Thread t, lk_exclusivecount := 1\<rparr>) (lk_set p (LK_DRAINING OR LK_HAVE_EXCL) w)"
  have bits: "(LK_DRAINING OR LK_HAVE_EXCL) AND m = LK_HAVE_EXCL AND m" if "m \<in> {LK_HAVE_EXCL, LK_WANT_EXCL, LK_WANT_UPGRADE, LK_SHARE_NONZERO, LK_WAIT_NONZERO, LK_WAITDRAIN}" for m
    using that by (auto simp: lk_consts)
  have "lk_core n p ?w {#} (Some (Thread t, 1)) (waiters p w) (upgraders p w) (exclwaiters p w)"
    using core c by (simp add: lk_core_def lk_counts_def bits)
  moreover have "lk_nap p ?w" by (simp add: lk_nap_def bits)
  moreover have "lk_drain1 p ?w" using r by (simp add: lk_pre_def lk_drain1_def)
  ultimately have "lk_run s n t p ?w {#} (Some (Thread t, 1))" using r by (simp add: lk_pre_def)
  from end_done [where H = H, OF this, of w0 None] show ?thesis
    using None fr H c t by (simp add: lk_took_def excl_result_def touch_steps Let_def)
qed

lemma drain_done:
  assumes r: "lk_run s n t p w R W" and t: "touch t p w0 w" and H: "excl_result t R W H" and may: "\<nexists>k. W = Some (Thread t, k)"
  shows "lk_done s n t p w0 H (lockmgr_drain t p ext (Thread t) w)"
proof -
  let ?fr = "\<lparr>fr_lock = p, fr_site = Drain, fr_ext = ext, fr_wanted = LK_ALL, fr_thr = Thread t\<rparr>"
  have "lk_lockholder (the_lk w p) \<noteq> Thread t" using core_flags(9) [OF lk_pre_core [OF r]] may by (cases W) auto
  then have eq: "lockmgr_drain t p ext (Thread t) w = after_acquire t ?fr (acquiredrain t ?fr w)"
    by (simp add: lockmgr_drain_def Let_def)
  show ?thesis
  proof (cases "lk_has p LK_ALL w")
    case True
    have "lk_done s n t p w0 H (Some (lk_msleep t (On_flags p) ?fr (lk_set p LK_WAITDRAIN w), None))"
      by (rule drain_sleep_done [OF r True _ _ _ t]) (use H in \<open>simp_all add: frame_ok_def excl_result_def\<close>)
    moreover have "lk_done s n t p w0 H (lk_took t ?fr (Some EBUSY) w)" by (rule drain_took [OF r _ _ _ t _ H]) simp_all
    ultimately show ?thesis unfolding eq using True
      by (cases "ext AND LK_NOWAIT = 0") (simp_all add: acquiredrain_def drain_loop_def apause_def after_acquire_def Let_def del: lk_has_all)
  next
    case False
    have "lk_done s n t p w0 H (lk_took t ?fr None w)" by (rule drain_took [OF r _ _ _ t False H]) simp_all
    then show ?thesis unfolding eq using False
      by (simp add: acquiredrain_def drain_loop_def apause_def after_acquire_def Let_def del: lk_has_all)
  qed
qed

end
