(* ===== verification/Kern_Lock_Steps.thy ===== *)
theory Kern_Lock_Steps
  imports Kern_Lock_Cases
begin

text \<open>
  Upgrades, threads that go on after \<open>msleep\<close>, and from these the events: every event the contract allows keeps the invariant,
  and panics only in the way \<open>lk_clash\<close> describes.
\<close>

section \<open>Upgrade\<close>

lemma set_clear_flags: "f AND m = 0 \<Longrightarrow> (f OR m) AND NOT m = (f :: u32)"
proof -
  assume c: "f AND m = 0"
  have "\<not> (bit f i \<and> bit m i)" for i using arg_cong [OF c, of "\<lambda>x. bit x i"] by (simp add: bit_and_iff)
  then show ?thesis by (intro bit_word_eqI) (auto simp: bit_and_iff bit_not_iff bit_or_iff)
qed

lemma set_clear: "\<not> lk_has p m w \<Longrightarrow> lk_clear p m (lk_set p m w) = w"
  by (simp add: lk_has_def lk_clear_def lk_set_def upd_lk_def set_clear_flags)

lemma upgrade_done:
  assumes r: "lk_run s n t p w R W" and t: "touch t p w0 w" and x: "Thread t \<in># R" and n: "\<not> n"
    and H: "H None = (R - {#Thread t#}, None)" "\<And>e. H (Some (Some e)) = (R - {#Thread t#}, None)" "H (Some None) = (R - {#Thread t#}, Some (Thread t, 1))"
  shows "lk_done s n t p w0 H (lockmgr_upgrade t p ext (Thread t) w)"
proof -
  have W: "W = None" and np: "lk_lockholder (the_lk w p) \<noteq> Thread t" "\<not> lk_sharecount (the_lk w p) \<le> 0"
  proof -
    show W: "W = None" using core_flags(7) [OF lk_pre_core [OF r]] x by (cases W) auto
    show "lk_lockholder (the_lk w p) \<noteq> Thread t" using core_flags(9) [OF lk_pre_core [OF r]] W by simp
    show "\<not> lk_sharecount (the_lk w p) \<le> 0" using core_flags(10) [OF lk_pre_core [OF r]] x by (auto simp: size_eq_0_iff_empty)
  qed
  obtain v where v: "shareunlock p 1 w = Some v" and r1: "lk_run s n t p v (R - {#Thread t#}) None" and t1: "touch t p w0 v"
    using shareunlock_pre [OF r x t] W by metis
  note core = lk_pre_core [OF r1]
  have ex: "excl_result t (R - {#Thread t#}) None H" using H by (simp add: excl_result_def)
  let ?fr = "\<lparr>fr_lock = p, fr_site = Upgrade, fr_ext = ext, fr_wanted = LK_SHARE_NONZERO, fr_thr = Thread t\<rparr>"
  consider (poll) "ext AND LK_NOWAIT \<noteq> 0 \<and> (lk_has p LK_WANT_UPGRADE v \<or> lk_sharecount (the_lk v p) > 1)"
    | (first) "\<not> (ext AND LK_NOWAIT \<noteq> 0 \<and> (lk_has p LK_WANT_UPGRADE v \<or> lk_sharecount (the_lk v p) > 1))" "\<not> lk_has p LK_WANT_UPGRADE v"
    | (excl) "\<not> (ext AND LK_NOWAIT \<noteq> 0 \<and> (lk_has p LK_WANT_UPGRADE v \<or> lk_sharecount (the_lk v p) > 1))" "lk_has p LK_WANT_UPGRADE v"
    by blast
  then show ?thesis
  proof cases
    case poll
    then have "lockmgr_upgrade t p ext (Thread t) w = Some (lockmgr_end p (Some EBUSY) v)"
      using np v by (simp add: lockmgr_upgrade_def)
    then show ?thesis using end_done [where H = H, OF r1 t1, of "Some EBUSY"] H(2) by simp
  next
    case first
    let ?v = "lk_set p LK_WANT_UPGRADE v"
    have up: "upgraders p v = {}" using core_flags(3) [OF core] first(2) by simp
    have pre: "lk_pre s n t p ?v (R - {#Thread t#}) None (waiters p ?v) (insert t (upgraders p ?v)) (exclwaiters p ?v)"
      using mark_pre [OF r1, of LK_WANT_UPGRADE "{t}" "exclwaiters p v"] up n by simp
    have eq: "lockmgr_upgrade t p ext (Thread t) w = after_acquire t ?fr (acquire t ?fr ?v)"
      unfolding lockmgr_upgrade_def Let_def v using first np by auto
    show ?thesis unfolding eq
    proof (rule acquire_done(1))
      show "lk_pre s n t p ?v (R - {#Thread t#}) None (waiters p ?v) (if fr_site ?fr = Upgrade then insert t (upgraders p ?v) else upgraders p ?v)
        (if fr_site ?fr = Excl_wait then insert t (exclwaiters p ?v) else exclwaiters p ?v)" using pre by simp
      show "lk_done s n t p w0 H (lk_took t ?fr None ?v)" if "\<not> lk_has p (fr_wanted ?fr) ?v"
      proof -
        have c: "R - {#Thread t#} = {#}" using that core_flags(1) [OF core] by simp
        have "lk_done s n t p w0 H (lk_took_want LK_WANT_UPGRADE ?fr None ?v)"
        proof (rule take_done)
          show "lk_pre s n t p ?v {#} None (waiters p ?v) (insert t (upgraders p ?v)) (exclwaiters p ?v)" using pre c by simp
        qed (use c H in \<open>simp_all add: touch_steps t1\<close>)
        then show ?thesis by (simp add: lk_took_def)
      qed
      show "lk_done s n t p w0 H (lk_took t ?fr (Some EBUSY) ?v)"
      proof -
        have "lk_done s n t p w0 H (lk_took_want LK_WANT_UPGRADE ?fr (Some EBUSY) ?v)"
        proof (rule giveup_done [OF pre])
          show "lk_nap p (lk_clear p LK_WANT_UPGRADE ?v)" if s using r1 that by (simp add: set_clear [OF first(2)] lk_pre_def)
        qed (use H in \<open>simp_all add: touch_steps t1\<close>)
        then show ?thesis by (simp add: lk_took_def)
      qed
    qed (use H in \<open>simp_all add: frame_ok_def touch_steps t1\<close>)
  next
    case excl
    let ?v = "if lk_flags (the_lk v p) AND (LK_SHARE_NONZERO OR LK_WAIT_NONZERO) = LK_WAIT_NONZERO then lk_wakeup (On_lock p) v else v"
    have eq: "lockmgr_upgrade t p ext (Thread t) w = lockmgr_exclusive t p ext (Thread t) ?v"
      unfolding lockmgr_upgrade_def Let_def v using excl np by auto
    have th: "thread_ok v u" for u using r1 by (simp add: lk_pre_def)
    have "lk_run s n t p (lk_wakeup (On_lock p) v) (R - {#Thread t#}) None"
    proof -
      have "lk_core n p (lk_wakeup (On_lock p) v) (R - {#Thread t#}) None (waiters p v) (upgraders p v) (exclwaiters p v)"
        using core by (simp add: lk_core_def lk_counts_def)
      moreover have "lk_drain1 p (lk_wakeup (On_lock p) v)" using r1 by (auto simp: lk_pre_def lk_drain1_def)
      moreover have "thread_ok (lk_wakeup (On_lock p) v) u" for u by (rule thread_ok_wakeup [OF th])
      moreover have "lk_frames v t = None" using r1 by (simp add: lk_pre_def)
      ultimately show ?thesis using wake_nap [of v p, OF th] unfolding lk_pre_def lk_in_same lk_wakeup_simps(2) by blast
    qed
    then have "lk_run s n t p ?v (R - {#Thread t#}) None" using r1 by simp
    moreover have "touch t p w0 ?v" using t1 by (simp add: touch_steps)
    ultimately show ?thesis unfolding eq by (rule exclusive_done) (use ex in simp_all)
  qed
qed

section \<open>Going on\<close>

text \<open>
  The thread that goes on is still counted by the lock. When it waited for the shared holders and the lock was given to a thread that upgraded, it
  takes what is not free and the kernel panics.
\<close>

definition lk_clash :: "ptr \<Rightarrow> err \<Rightarrow> lk_world \<Rightarrow> bool" where
  "lk_clash t error w \<longleftrightarrow> (case lk_frames w t of None \<Rightarrow> False
     | Some fr \<Rightarrow> fr_site fr = Excl_wait \<and> error = None \<and> fr_ext fr AND LK_SLEEPFAIL = 0 \<and>
         lk_has (fr_lock fr) LK_HAVE_EXCL w \<and> \<not> lk_has (fr_lock fr) (fr_wanted fr) w)"

text \<open>No error while the lock carries the mark of the thread.\<close>

definition lk_patient :: "lk_event \<Rightarrow> lk_world \<Rightarrow> bool" where
  "lk_patient e w = (case e of
     Resume t error \<Rightarrow> (case lk_frames w t of None \<Rightarrow> True
       | Some fr \<Rightarrow> fr_site fr = Upgrade \<or> fr_site fr = Excl_wait \<longrightarrow> error = None \<and> fr_ext fr AND LK_SLEEPFAIL = 0)
   | _ \<Rightarrow> True)"

lemma unframe:
  assumes a: "lk_at s n p w R W" and th: "\<And>u. thread_ok w u" and f: "lk_frames w t = Some fr" "fr_lock fr = p"
  defines "v \<equiv> w\<lparr>lk_frames := (lk_frames w)(t := None), lk_sleep := (lk_sleep w)(t := None)\<rparr>"
  shows "lk_pre s n t p v R W (if fr_site fr \<noteq> Drain then insert t (waiters p v) else waiters p v)
    (if fr_site fr = Upgrade then insert t (upgraders p v) else upgraders p v) (if fr_site fr = Excl_wait then insert t (exclwaiters p v) else exclwaiters p v)"
proof -
  have i: "lk_in p S w = (if S (fr_site fr) then insert t (lk_in p S v) else lk_in p S v)" for S
    using f by (auto simp: lk_in_def v_def)
  have h: "lk_has q m v = lk_has q m w" for q m by (simp add: v_def)
  have "lk_core n p v R W N U E = lk_core n p w R W N U E" for N U E by (simp only: lk_core_def lk_counts_def h) (simp add: v_def)
  moreover have "lk_nap p v" if "lk_nap p w" using that unfolding lk_nap_def h by (auto simp: v_def)
  moreover have "lk_drain1 p v" if "lk_drains p w" using that unfolding lk_drains_def lk_drain1_def h by (auto simp: v_def)
  moreover have "All (thread_ok v)" proof fix u show "thread_ok v u" using th [of u] by (auto simp: thread_ok_def v_def split: option.splits) qed
  moreover have "lk_frames v t = None" by (simp add: v_def)
  ultimately show ?thesis using a unfolding lk_at_def lk_pre_def i by simp
qed

text \<open>The end of the sleep takes the thread out of the count.\<close>

definition uncount :: "ptr \<Rightarrow> lk_world \<Rightarrow> lk_world" where
  "uncount p w = (if lk_waitcount (the_lk w p) = 1 then upd_lk p (\<lambda>l. l\<lparr>lk_waitcount := 0\<rparr>) (lk_clear p LK_WAIT_NONZERO w)
     else upd_lk p (\<lambda>l. l\<lparr>lk_waitcount := lk_waitcount l - 1\<rparr>) w)"

lemma uncount_same [simp]:
  "lk_frames (uncount p w) = lk_frames w" "lk_sleep (uncount p w) = lk_sleep w" "lk_in p S (uncount p w) = lk_in p S w" "thread_ok (uncount p w) u = thread_ok w u"
  "m AND LK_WAIT_NONZERO = 0 \<Longrightarrow> lk_has p m (uncount p w) = lk_has p m w" "lk_newlock (the_lk (uncount p w) p) = lk_newlock (the_lk w p)"
  by (auto simp: uncount_def and.commute)

lemma uncount_pre:
  assumes p: "lk_pre s n t p w R W (insert t N) U E" and "t \<notin> N"
  shows "lk_pre s n t p (uncount p w) R W N U E"
proof -
  have core: "lk_core n p w R W (insert t N) U E" using p by (simp add: lk_pre_def)
  have fin: "finite N" using core_flags(14) [OF core] by simp
  have card: "lk_waitcount (the_lk w p) = int (Suc (card N))" using core_flags(13) [OF core] assms(2) fin by simp
  have "lk_core n p (uncount p w) R W N U E"
  proof (cases "N = {}")
    case True
    then show ?thesis using core card by (simp add: uncount_def lk_core_def lk_counts_def)
  next
    case False
    then have "card N \<noteq> 0" using fin by simp
    then show ?thesis using core card False fin by (simp add: uncount_def lk_core_def lk_counts_def del: card_0_eq card_eq_0_iff)
  qed
  moreover have "lk_nap p (uncount p w)" if s
  proof (rule nap_more [of p w])
    show "lk_nap p w" "\<And>u. thread_ok w u" using p that by (simp_all add: lk_pre_def)
  qed auto
  moreover have "lk_drain1 p (uncount p w)" using p by (simp add: lk_pre_def lk_drain1_def)
  ultimately show ?thesis using p by (simp add: lk_pre_def)
qed

lemma uncount_touch: "touch t p w0 w \<Longrightarrow> touch t p w0 (uncount p w)"
  by (auto simp: uncount_def intro: touch_steps)

lemma acquire_woken_eq:
  assumes "lk_newlock (the_lk w (fr_lock fr)) = None"
  shows "acquire_woken t fr error w = (fr, let v = uncount (fr_lock fr) w in
     if error \<noteq> None then (v, Some error) else if fr_ext fr AND LK_SLEEPFAIL \<noteq> 0 then (v, Some (Some ENOLCK)) else acquire_loop t fr v)"
  using assms uncount_same(6) [of "fr_lock fr" w] by (simp add: acquire_woken_def uncount_def Let_def split: if_splits)

text \<open>Back from \<open>acquire\<close> with the result of one turn of its loop.\<close>

lemma woken_done:
  assumes p: "lk_pre s n t p v R W (insert t (waiters p v)) (if fr_site fr = Upgrade then insert t (upgraders p v) else upgraders p v)
      (if fr_site fr = Excl_wait then insert t (exclwaiters p v) else exclwaiters p v)"
    and fr: "frame_ok t fr" "fr_lock fr = p" "fr_site fr \<noteq> Drain" and t: "touch t p w0 v" and H: "H None = (R, W)"
    and got: "error = None \<Longrightarrow> fr_ext fr AND LK_SLEEPFAIL = 0 \<Longrightarrow> \<not> lk_has p (fr_wanted fr) v \<Longrightarrow> lk_done s n t p w0 H (lk_took t fr None (uncount p v))"
    and err: "\<And>e. error \<noteq> None \<or> fr_ext fr AND LK_SLEEPFAIL \<noteq> 0 \<Longrightarrow> lk_done s n t p w0 H (lk_took t fr (Some e) (uncount p v))"
  shows "lk_done s n t p w0 H (case acquire_woken t fr error v of (fr, r) \<Rightarrow> after_acquire t fr r)"
proof -
  let ?v = "uncount p v"
  have core: "lk_core n p v R W (insert t (waiters p v)) (if fr_site fr = Upgrade then insert t (upgraders p v) else upgraders p v)
      (if fr_site fr = Excl_wait then insert t (exclwaiters p v) else exclwaiters p v)" and f: "lk_frames v t = None"
    using p by (simp_all add: lk_pre_def)
  note eq = acquire_woken_eq [of v fr t, unfolded fr(2), OF core_flags(6) [OF core]]
  have pre: "lk_pre s n t p ?v R W (waiters p ?v) (if fr_site fr = Upgrade then insert t (upgraders p ?v) else upgraders p ?v)
      (if fr_site fr = Excl_wait then insert t (exclwaiters p ?v) else exclwaiters p ?v)"
    using uncount_pre [OF p not_in [OF f]] by (simp only: uncount_same)
  have wanted: "lk_has p (fr_wanted fr) ?v = lk_has p (fr_wanted fr) v"
    using fr(1,3) by (cases "fr_site fr") (auto simp: frame_ok_def)
  show ?thesis
  proof (cases "error \<noteq> None \<or> fr_ext fr AND LK_SLEEPFAIL \<noteq> 0")
    case True
    then show ?thesis using err by (cases error) (auto simp: eq after_acquire_def Let_def)
  next
    case False
    have "lk_done s n t p w0 H (after_acquire t fr (acquire_loop t fr ?v))"
    proof (rule acquire_done(2) [where H = H, OF pre _ fr(2,3) uncount_touch [OF t] H])
      show "fr_ext fr AND LK_NOWAIT = 0" using fr by (simp add: frame_ok_def)
      then show "lk_done s n t p w0 H (lk_took t fr (Some EBUSY) ?v)" if "fr_ext fr AND LK_NOWAIT \<noteq> 0" using that by simp
      show "lk_done s n t p w0 H (lk_took t fr None ?v)" if "\<not> lk_has p (fr_wanted fr) ?v" using got False that wanted by simp
    qed (rule fr(1))
    then show ?thesis using False by (simp add: eq Let_def)
  qed
qed

lemma resume_done:
  assumes a: "lk_at s n p w R W" and th: "\<And>u. thread_ok w u" and f: "lk_frames w t = Some fr" "fr_lock fr = p"
    and s: "s \<Longrightarrow> lk_patient (Resume t error) w" and c: "\<not> lk_clash t error w"
    and H: "fr_site fr = Shared \<Longrightarrow> H None = (R, W) \<and> (\<forall>e. H (Some (Some e)) = (R, W)) \<and> (W = None \<longrightarrow> H (Some None) = (add_mset (Thread t) R, None))"
      "fr_site fr \<noteq> Shared \<Longrightarrow> excl_result t R W H"
  shows "lk_done s n t p (w\<lparr>lk_frames := (lk_frames w)(t := None), lk_sleep := (lk_sleep w)(t := None)\<rparr>) H (lk_resume t error w)"
proof -
  let ?v = "w\<lparr>lk_frames := (lk_frames w)(t := None), lk_sleep := (lk_sleep w)(t := None)\<rparr>"
  have fr: "frame_ok t fr" using th [of t] f by (simp add: thread_ok_def)
  then have thr: "fr_thr fr = Thread t" by (simp add: frame_ok_def)
  have pre: "lk_pre s n t p ?v R W (if fr_site fr \<noteq> Drain then insert t (waiters p ?v) else waiters p ?v)
    (if fr_site fr = Upgrade then insert t (upgraders p ?v) else upgraders p ?v) (if fr_site fr = Excl_wait then insert t (exclwaiters p ?v) else exclwaiters p ?v)"
    by (rule unframe [OF a th f])
  have tt: "touch t p ?v (uncount p ?v)" by (rule uncount_touch) simp
  have nt: "t \<notin> waiters p ?v" by (rule not_in) simp
  let ?u = "uncount p ?v"
  have s': "fr_site fr = Upgrade \<or> fr_site fr = Excl_wait \<Longrightarrow> s \<Longrightarrow> error = None \<and> fr_ext fr AND LK_SLEEPFAIL = 0"
    using s f by (simp add: lk_patient_def)
  have has: "lk_has q m ?v = lk_has q m w" for q m by simp
  show ?thesis
  proof (cases "fr_site fr")
    case Shared
    have pre: "lk_pre s n t p ?v R W (insert t (waiters p ?v)) (upgraders p ?v) (exclwaiters p ?v)" using pre Shared by simp
    then have r: "lk_run s n t p ?u R W" using uncount_pre [OF pre nt] by simp
    have "lk_done s n t p ?v H (case acquire_woken t fr error ?v of (fr, r) \<Rightarrow> after_acquire t fr r)"
    proof (rule woken_done)
      show "lk_done s n t p ?v H (lk_took t fr None ?u)" if "\<not> lk_has p (fr_wanted fr) ?v"
        by (rule took_shared [OF r f(2) Shared thr tt]) (use that fr Shared H in \<open>auto simp: frame_ok_def\<close>)
      show "lk_done s n t p ?v H (lk_took t fr (Some e) ?u)" for e
        by (rule took_shared [OF r f(2) Shared thr tt]) (use H Shared in auto)
    qed (use pre fr f Shared H in simp_all)
    then show ?thesis using f Shared by (simp add: lk_resume_def Let_def)
  next
    case Upgrade
    have pre: "lk_pre s n t p ?v R W (insert t (waiters p ?v)) (insert t (upgraders p ?v)) (exclwaiters p ?v)" using pre Upgrade by simp
    then have r: "lk_pre s n t p ?u R W (waiters p ?u) (insert t (upgraders p ?u)) (exclwaiters p ?u)" using uncount_pre [OF pre nt] by simp
    have W: "W = None" using pre by (simp add: lk_pre_def lk_core_def)
    have "lk_done s n t p ?v H (case acquire_woken t fr error ?v of (fr, r) \<Rightarrow> after_acquire t fr r)"
    proof (rule woken_done)
      show "lk_done s n t p ?v H (lk_took t fr None ?u)" if "\<not> lk_has p (fr_wanted fr) ?v"
      proof -
        have "R = {#}" using that fr Upgrade core_flags(1) [OF lk_pre_core [OF pre]] by (simp add: frame_ok_def)
        then have "lk_done s n t p ?v H (lk_took_want LK_WANT_UPGRADE fr None ?u)"
          using H(2) Upgrade W by (intro take_done [OF r [unfolded W \<open>R = {#}\<close>] f(2) thr tt]) (simp_all add: excl_result_def)
        then show ?thesis by (simp add: lk_took_def Upgrade)
      qed
      show "lk_done s n t p ?v H (lk_took t fr (Some e) ?u)" if "error \<noteq> None \<or> fr_ext fr AND LK_SLEEPFAIL \<noteq> 0" for e
      proof -
        have "lk_done s n t p ?v H (lk_took_want LK_WANT_UPGRADE fr (Some e) ?u)"
          using s' that Upgrade H(2) by (intro giveup_done [OF r f(2) tt]) (auto simp: excl_result_def)
        then show ?thesis by (simp add: lk_took_def Upgrade)
      qed
    qed (use pre fr f Upgrade H in \<open>simp_all add: excl_result_def\<close>)
    then show ?thesis using f Upgrade by (simp add: lk_resume_def Let_def)
  next
    case Excl_want
    have pre: "lk_pre s n t p ?v R W (insert t (waiters p ?v)) (upgraders p ?v) (exclwaiters p ?v)" using pre Excl_want by simp
    then have r: "lk_run s n t p ?u R W" using uncount_pre [OF pre nt] by simp
    have ex: "excl_result t R W H" using H(2) Excl_want by simp
    have nw: "fr_ext fr AND LK_NOWAIT = 0" using fr Excl_want by (simp add: frame_ok_def)
    have "lk_done s n t p ?v H (case acquire_woken t fr error ?v of (fr, r) \<Rightarrow> after_acquire t fr r)"
    proof (rule woken_done)
      show "lk_done s n t p ?v H (lk_took t fr None ?u)" if "\<not> lk_has p (fr_wanted fr) ?v"
        by (rule excl_took [OF r f(2) Excl_want thr tt ex]) (use that fr Excl_want nw in \<open>auto simp: frame_ok_def\<close>)
      show "lk_done s n t p ?v H (lk_took t fr (Some e) ?u)" for e
        by (rule excl_took [OF r f(2) Excl_want thr tt ex]) auto
    qed (use pre fr f Excl_want ex in \<open>simp_all add: excl_result_def\<close>)
    then show ?thesis using f Excl_want by (simp add: lk_resume_def Let_def)
  next
    case Excl_wait
    have pre: "lk_pre s n t p ?v R W (insert t (waiters p ?v)) (upgraders p ?v) (insert t (exclwaiters p ?v))" using pre Excl_wait by simp
    then have r: "lk_pre s n t p ?u R W (waiters p ?u) (upgraders p ?u) (insert t (exclwaiters p ?u))" using uncount_pre [OF pre nt] by simp
    note core = lk_pre_core [OF pre]
    have "lk_done s n t p ?v H (case acquire_woken t fr error ?v of (fr, r) \<Rightarrow> after_acquire t fr r)"
    proof (rule woken_done)
      show "lk_done s n t p ?v H (lk_took t fr None ?u)" if g: "error = None" "fr_ext fr AND LK_SLEEPFAIL = 0" "\<not> lk_has p (fr_wanted fr) ?v"
      proof -
        have R: "R = {#}" "upgraders p ?v = {}" using g(3) fr Excl_wait core_flags(1,3) [OF core] by (auto simp: frame_ok_def)
        have "\<not> lk_has p LK_HAVE_EXCL ?v" using c g f Excl_wait unfolding lk_clash_def has by auto
        then have W: "W = None" using core_flags(2) [OF core] by (cases W) auto
        have "upgraders p ?u = {}" using R(2) by simp
        then have "lk_done s n t p ?v H (lk_took_want LK_WANT_EXCL fr None ?u)"
          using H(2) Excl_wait W R(1) by (intro take_done [OF r [unfolded W R(1)] f(2) thr tt]) (simp_all add: excl_result_def)
        then show ?thesis by (simp add: lk_took_def Excl_wait)
      qed
      show "lk_done s n t p ?v H (lk_took t fr (Some e) ?u)" if "error \<noteq> None \<or> fr_ext fr AND LK_SLEEPFAIL \<noteq> 0" for e
      proof -
        have "lk_done s n t p ?v H (lk_took_want LK_WANT_EXCL fr (Some e) ?u)"
          using s' that Excl_wait H(2) by (intro giveup_done [OF r f(2) tt]) (auto simp: excl_result_def)
        then show ?thesis by (simp add: lk_took_def Excl_wait)
      qed
    qed (use pre fr f Excl_wait H in \<open>simp_all add: excl_result_def\<close>)
    then show ?thesis using f Excl_wait by (simp add: lk_resume_def Let_def)
  next
    case Drain
    have r: "lk_run s n t p ?v R W" using pre Drain by simp
    have ex: "excl_result t R W H" using H(2) Drain by simp
    have tk: "lk_done s n t p ?v H (lk_took t fr e ?v)" if "e = None \<Longrightarrow> \<not> lk_has p LK_ALL ?v" for e
      by (rule drain_took [OF r f(2) Drain thr _ that ex]) simp_all
    have "lk_done s n t p ?v H (after_acquire t fr (acquiredrain_woken t fr error ?v))"
    proof (cases "error \<noteq> None \<or> fr_ext fr AND LK_SLEEPFAIL \<noteq> 0")
      case True
      then show ?thesis using tk [of "Some (the error)"] tk [of "Some ENOLCK"] by (cases error) (auto simp: acquiredrain_woken_def after_acquire_def)
    next
      case False
      show ?thesis
      proof (cases "lk_has p LK_ALL ?v")
        case True
        have "lk_done s n t p ?v H (Some (lk_msleep t (On_flags p) fr (lk_set p LK_WAITDRAIN ?v), None))"
          by (rule drain_sleep_done [OF r True fr f(2) Drain]) (use ex in \<open>simp_all add: excl_result_def\<close>)
        then show ?thesis using False True f(2) by (simp add: acquiredrain_woken_def drain_loop_def after_acquire_def Let_def del: lk_has_all)
      next
        case F: False
        then show ?thesis using False tk [of None] f(2) by (simp add: acquiredrain_woken_def drain_loop_def after_acquire_def Let_def del: lk_has_all)
      qed
    qed
    then show ?thesis using f Drain by (simp add: lk_resume_def Let_def)
  next
    case Transfer
    then show ?thesis using fr by (simp add: frame_ok_def)
  qed
qed

end
