(* ===== verification/Kern_Lock_Theorems.thy ===== *)
theory Kern_Lock_Theorems
  imports Kern_Lock_Steps
begin

text \<open>
  The events keep the invariant, and what follows: exact counts and exclusion, the only way to panic, no lost wakeup, and
  runs of the code that show the two defects of the exclusive request.
\<close>

section \<open>Every event keeps the invariant\<close>

definition lk_no_upgrade :: "lk_event \<Rightarrow> lk_world \<Rightarrow> bool" where
  "lk_no_upgrade e w = (case e of Call t p flags d \<Rightarrow> flags AND LK_TYPE_MASK \<noteq> LK_UPGRADE \<and> flags AND LK_TYPE_MASK \<noteq> LK_EXCLUPGRADE | _ \<Rightarrow> True)"

lemma lk_at_cong1: "the_lk v p = the_lk w p \<Longrightarrow> lk_frames v = lk_frames w \<Longrightarrow> lk_sleep v = lk_sleep w \<Longrightarrow> lk_at s n p v R W = lk_at s n p w R W"
  by (simp only: lk_at_def lk_core_def lk_counts_def lk_nap_def lk_drains_def lk_in_def lk_has_def)

lemma at_run: "lk_at s n p w R W \<Longrightarrow> (\<And>u. thread_ok w u) \<Longrightarrow> lk_frames w t = None \<Longrightarrow> lk_run s n t p w R W"
  unfolding lk_at_def lk_pre_def lk_drains_def lk_drain1_def by blast

lemma done_ok:
  assumes ok: "lk_ok s n w" and d: "lk_done s n t p (w\<lparr>lk_frames := (lk_frames w)(t := None), lk_sleep := (lk_sleep w)(t := None)\<rparr>) H res"
    and f: "\<forall>fr. lk_frames w t = Some fr \<longrightarrow> fr_lock fr = p"
  obtains w' r where "res = Some (w', r)" "lk_readers w' = lk_readers w" "lk_writer w' = lk_writer w"
    "lk_ok s n (w'\<lparr>lk_readers := (lk_readers w')(p := fst (H r)), lk_writer := (lk_writer w')(p := snd (H r))\<rparr>)"
proof -
  obtain w' r where x: "res = Some (w', r)" "touch t p (w\<lparr>lk_frames := (lk_frames w)(t := None), lk_sleep := (lk_sleep w)(t := None)\<rparr>) w'" "lk_at s n p w' (fst (H r)) (snd (H r))" "thread_ok w' t"
    "\<forall>fr. lk_frames w' t = Some fr \<longrightarrow> fr_lock fr = p"
    using d unfolding lk_done_def case_prod_beta by blast
  show thesis by (rule that [OF x(1) _ _ touch_ok [OF ok x(2) f x(5,4,3)]]) (use x(2) in \<open>simp_all add: touch_def\<close>)
qed

lemma lk_types [simp]:
  "LK_DOWNGRADE \<noteq> LK_SHARED" "LK_EXCLUPGRADE \<noteq> LK_SHARED" "LK_UPGRADE \<noteq> LK_SHARED" "LK_EXCLUSIVE \<noteq> LK_SHARED" "LK_RELEASE \<noteq> LK_SHARED" "LK_DRAIN \<noteq> LK_SHARED"
  "LK_EXCLUPGRADE \<noteq> LK_DOWNGRADE" "LK_UPGRADE \<noteq> LK_DOWNGRADE" "LK_EXCLUSIVE \<noteq> LK_DOWNGRADE" "LK_RELEASE \<noteq> LK_DOWNGRADE" "LK_DRAIN \<noteq> LK_DOWNGRADE"
  "LK_UPGRADE \<noteq> LK_EXCLUPGRADE" "LK_EXCLUSIVE \<noteq> LK_EXCLUPGRADE" "LK_RELEASE \<noteq> LK_EXCLUPGRADE" "LK_DRAIN \<noteq> LK_EXCLUPGRADE"
  "LK_EXCLUSIVE \<noteq> LK_UPGRADE" "LK_RELEASE \<noteq> LK_UPGRADE" "LK_DRAIN \<noteq> LK_UPGRADE" "LK_RELEASE \<noteq> LK_EXCLUSIVE" "LK_DRAIN \<noteq> LK_EXCLUSIVE" "LK_DRAIN \<noteq> LK_RELEASE"
  by (simp_all add: LK_SHARED_def LK_DOWNGRADE_def LK_EXCLUPGRADE_def LK_UPGRADE_def LK_EXCLUSIVE_def LK_RELEASE_def LK_DRAIN_def)

lemmas lk_types_sym [simp] = lk_types [THEN not_sym]

lemma ext_and: "m AND LK_EXTFLG_MASK = m \<Longrightarrow> ((f :: u32) AND LK_EXTFLG_MASK) AND m = f AND m"
  using and.assoc [of f LK_EXTFLG_MASK m] and.commute [of LK_EXTFLG_MASK m] by simp

lemma call_done:
  assumes ok: "lk_ok s n w" and may: "lk_may (Call t p flags d) w" and n: "n \<Longrightarrow> lk_no_upgrade (Call t p flags d) w"
  shows "lk_done s n t p w (\<lambda>r. lk_holds (flags AND LK_TYPE_MASK) (Thread t) r (lk_readers w p, lk_writer w p)) (lockmgr t p flags (Some t) d w)"
proof -
  let ?R = "lk_readers w p" and ?W = "lk_writer w p" and ?ty = "flags AND LK_TYPE_MASK" and ?ext = "(flags OR lk_flags (the_lk w p)) AND LK_EXTFLG_MASK"
  let ?H = "\<lambda>r. lk_holds ?ty (Thread t) r (?R, ?W)"
  have f: "lk_frames w t = None" using may by (simp add: lk_may_def)
  have r: "lk_run s n t p w ?R ?W" using ok f by (intro at_run) (simp_all add: lk_ok_def)
  have ps: "\<not> lk_panicstr w" using ok by (simp add: lk_ok_def)
  have t: "touch t p w w" by simp
  note core = lk_pre_core [OF r]
  have Wr: "?W \<noteq> None \<Longrightarrow> ?R = {#}" using core_flags(7) [OF core] .
  consider (sh) "?ty = LK_SHARED" | (dn) "?ty = LK_DOWNGRADE" | (eu) "?ty = LK_EXCLUPGRADE" | (up) "?ty = LK_UPGRADE" | (ex) "?ty = LK_EXCLUSIVE" | (re) "?ty = LK_RELEASE" | (dr) "?ty = LK_DRAIN"
    using may by (auto simp: lk_may_def Let_def split: if_splits)
  then show ?thesis
  proof cases
    case sh
    have "lk_done s n t p w ?H (lockmgr_shared t p ?ext (Thread t) (\<not> d) w)"
      using Wr by (intro shared_done [OF r t]) (auto simp: sh lk_holds_def split: option.splits)
    then show ?thesis using sh ps by (simp add: lockmgr_def Let_def)
  next
    case dn
    then obtain k where W: "?W = Some (Thread t, k)" using may by (auto simp: lk_may_def Let_def split: option.splits)
    have "lk_done s n t p w ?H (lockmgr_downgrade p (Thread t) w)"
      using downgrade_done [OF r W t, of ?H 0] W Wr by (simp add: dn lk_holds_def)
    then show ?thesis using dn ps by (simp add: lockmgr_def Let_def)
  next
    case eu
    then have x: "Thread t \<in># ?R" using may by (simp add: lk_may_def Let_def)
    then have W: "?W = None" using Wr by (cases ?W) auto
    have nn: "\<not> n" using n eu by (auto simp: lk_no_upgrade_def)
    show ?thesis
    proof (cases "lk_has p LK_WANT_UPGRADE w")
      case True
      obtain v where v: "shareunlock p 1 w = Some v" "lk_run s n t p v (?R - {#Thread t#}) ?W" "touch t p w v"
        by (rule shareunlock_pre [OF r x t])
      have "lk_done s n t p w ?H (Some (lockmgr_end p (Some EBUSY) v))" by (rule end_done [OF v(2,3)]) (simp add: eu lk_holds_def)
      then show ?thesis using eu ps True v(1) by (simp add: lockmgr_def Let_def)
    next
      case False
      have "lk_done s n t p w ?H (lockmgr_upgrade t p ?ext (Thread t) w)"
        by (rule upgrade_done [OF r t x nn]) (simp_all add: eu lk_holds_def W)
      then show ?thesis using eu ps False by (simp add: lockmgr_def Let_def)
    qed
  next
    case up
    then have x: "Thread t \<in># ?R" using may by (simp add: lk_may_def Let_def)
    then have W: "?W = None" using Wr by (cases ?W) auto
    have nn: "\<not> n" using n up by (auto simp: lk_no_upgrade_def)
    have "lk_done s n t p w ?H (lockmgr_upgrade t p ?ext (Thread t) w)"
      by (rule upgrade_done [OF r t x nn]) (simp_all add: up lk_holds_def W)
    then show ?thesis using up ps by (simp add: lockmgr_def Let_def)
  next
    case ex
    have m: "LK_NOWAIT AND LK_EXTFLG_MASK = LK_NOWAIT" "LK_CANRECURSE AND LK_EXTFLG_MASK = LK_CANRECURSE" by (simp_all add: lk_consts)
    have "lk_done s n t p w ?H (lockmgr_exclusive t p ?ext (Thread t) w)"
      using may by (intro exclusive_done [OF r t]) (auto simp: ex lk_holds_def excl_result_def lk_may_def Let_def and_or_zero ext_and [OF m(1)] ext_and [OF m(2)])
    then show ?thesis using ex ps by (simp add: lockmgr_def Let_def)
  next
    case re
    have "lk_done s n t p w ?H (lockmgr_release p (Thread t) w)"
      using may by (intro release_done [OF r t]) (auto simp: re lk_holds_def lk_may_def Let_def split: option.splits)
    then show ?thesis using re ps by (simp add: lockmgr_def Let_def)
  next
    case dr
    have "lk_done s n t p w ?H (lockmgr_drain t p ?ext (Thread t) w)"
      using may by (intro drain_done [OF r t]) (auto simp: dr lk_holds_def excl_result_def lk_may_def Let_def)
    then show ?thesis using dr ps by (simp add: lockmgr_def Let_def)
  qed
qed

lemma resume_clash:
  assumes ok: "lk_ok s n w" and c: "lk_clash t error w"
  shows "lk_resume t error w = None"
proof -
  obtain fr where f: "lk_frames w t = Some fr" "fr_site fr = Excl_wait" "error = None" "fr_ext fr AND LK_SLEEPFAIL = 0"
    "lk_has (fr_lock fr) LK_HAVE_EXCL w" "\<not> lk_has (fr_lock fr) (fr_wanted fr) w"
    using c by (auto simp: lk_clash_def split: option.splits)
  let ?p = "fr_lock fr" and ?v = "w\<lparr>lk_frames := (lk_frames w)(t := None), lk_sleep := (lk_sleep w)(t := None)\<rparr>"
  have fo: "frame_ok t fr" using ok f(1) by (auto simp: lk_ok_def thread_ok_def dest!: spec [of _ t])
  have core: "lk_core n ?p w (lk_readers w ?p) (lk_writer w ?p) (waiters ?p w) (upgraders ?p w) (exclwaiters ?p w)" using ok by (simp add: lk_ok_def lk_at_def)
  then have W: "lk_writer w ?p \<noteq> None" using core_flags(2) f(5) by blast
  then have e: "lk_exclusivecount (the_lk w ?p) \<noteq> 0" using core_flags(8) [OF core] writer_zero [OF core] by simp
  have nl: "lk_newlock (the_lk ?v ?p) = None" using core_flags(6) [OF core] by simp
  have "\<not> lk_has ?p (fr_wanted fr) (uncount ?p ?v)" using f(2,6) fo by (auto simp: frame_ok_def)
  then have "acquire_woken t fr error ?v = (fr, uncount ?p ?v, Some None)"
    unfolding acquire_woken_eq [OF nl] using f by (simp add: acquire_loop_def Let_def)
  moreover have "lk_exclusivecount (the_lk (uncount ?p ?v) ?p) = lk_exclusivecount (the_lk w ?p)" by (simp add: uncount_def)
  ultimately show ?thesis using f(1,2) e by (simp add: lk_resume_def after_acquire_def lk_took_def lk_took_want_def take_excl_def Let_def)
qed

definition lk_clashes :: "lk_event \<Rightarrow> lk_world \<Rightarrow> bool" where
  "lk_clashes e w = (case e of Resume t error \<Rightarrow> lk_clash t error w | _ \<Rightarrow> False)"

lemma disown_ok: "lk_ok s n w \<Longrightarrow> lk_may (Disown t p) w \<Longrightarrow> \<exists>w'. lk_do (Disown t p) w = Some w' \<and> lk_ok s n w'"
proof -
  assume ok: "lk_ok s n w" and may: "lk_may (Disown t p) w"
  obtain k where W: "lk_writer w p = Some (Thread t, k)" using may by (auto simp: lk_may_def)
  let ?v = "BUF_KERNPROC p w"
  let ?w = "?v\<lparr>lk_writer := (lk_writer w)(p := Some (LK_KERNPROC, k))\<rparr>"
  have at: "lk_at s n q w (lk_readers w q) (lk_writer w q)" for q using ok by (simp add: lk_ok_def)
  have "lk_at s n q ?w (lk_readers ?w q) (lk_writer ?w q)" for q
  proof (cases "q = p")
    case True
    have core: "lk_core n p w (lk_readers w p) (Some (Thread t, k)) (waiters p w) (upgraders p w) (exclwaiters p w)" using at [of p] W by (simp add: lk_at_def)
    then have "lk_core n p ?v (lk_readers w p) (Some (LK_KERNPROC, k)) (waiters p ?v) (upgraders p ?v) (exclwaiters p ?v)"
      by (simp add: lk_core_def lk_counts_def BUF_KERNPROC_def)
    moreover have "lk_nap p ?v = lk_nap p w" by (simp add: BUF_KERNPROC_def nap_upd)
    moreover have "lk_drains p ?v = lk_drains p w" unfolding lk_drains_def by (simp add: BUF_KERNPROC_def)
    ultimately have "lk_at s n p ?v (lk_readers w p) (Some (LK_KERNPROC, k))" using at [of p] by (simp add: lk_at_def)
    moreover have "lk_at s n p ?w R W' = lk_at s n p ?v R W'" for R W' by (rule lk_at_cong) simp_all
    ultimately show ?thesis using True by (simp add: BUF_KERNPROC_def)
  next
    case False
    have "lk_at s n q ?w R W' = lk_at s n q w R W'" for R W' by (rule lk_at_cong1) (simp_all add: BUF_KERNPROC_def False)
    then show ?thesis using at [of q] False by (simp add: BUF_KERNPROC_def)
  qed
  moreover have "thread_ok ?w u" for u
    using ok [unfolded lk_ok_def, THEN conjunct2, THEN conjunct1, THEN spec, of u] by (simp add: thread_ok_def BUF_KERNPROC_def split: option.splits)
  moreover have "\<not> lk_panicstr ?w" using ok by (simp add: lk_ok_def BUF_KERNPROC_def)
  ultimately have "lk_ok s n ?w" unfolding lk_ok_def by blast
  then show ?thesis using W by (simp add: lk_do_def)
qed

text \<open>The holders after a thread went on with the result.\<close>

definition lk_resumed :: "lk_frame \<Rightarrow> lk_thread multiset \<times> (lk_thread \<times> nat) option \<Rightarrow> err option \<Rightarrow> lk_thread multiset \<times> (lk_thread \<times> nat) option" where
  "lk_resumed fr h r = (if r = Some None then lk_holds (if fr_site fr = Shared then LK_SHARED else LK_EXCLUSIVE) (fr_thr fr) r h else h)"

lemma resume_ok:
  assumes ok: "lk_ok s n w" and f: "lk_frames w t = Some fr" and s: "s \<Longrightarrow> lk_patient (Resume t error) w" and c: "\<not> lk_clash t error w"
  defines "p \<equiv> fr_lock fr" and "h \<equiv> lk_resumed fr (lk_readers w (fr_lock fr), lk_writer w (fr_lock fr))"
  obtains w' r where "lk_resume t error w = Some (w', r)" "lk_readers w' = lk_readers w" "lk_writer w' = lk_writer w"
    "lk_ok s n (w'\<lparr>lk_readers := (lk_readers w')(p := fst (h r)), lk_writer := (lk_writer w')(p := snd (h r))\<rparr>)"
proof -
  have th: "\<And>u. thread_ok w u" and at: "lk_at s n p w (lk_readers w p) (lk_writer w p)" using ok by (simp_all add: lk_ok_def)
  have thr: "fr_thr fr = Thread t" using th [of t] f by (simp add: thread_ok_def frame_ok_def)
  have d: "lk_done s n t p (w\<lparr>lk_frames := (lk_frames w)(t := None), lk_sleep := (lk_sleep w)(t := None)\<rparr>) h (lk_resume t error w)"
    by (rule resume_done [OF at th f p_def [symmetric, THEN meta_eq_to_obj_eq] s c]) (auto simp: h_def p_def lk_resumed_def lk_holds_def excl_result_def thr)
  show thesis by (rule done_ok [OF ok d]) (use f that in \<open>auto simp: p_def\<close>)
qed

lemma lk_do_ok:
  assumes ok: "lk_ok s n w" and may: "lk_may e w" and s: "s \<Longrightarrow> lk_patient e w" and n: "n \<Longrightarrow> lk_no_upgrade e w" and c: "\<not> lk_clashes e w"
  shows "\<exists>w'. lk_do e w = Some w' \<and> lk_ok s n w'"
proof (cases e)
  case (Call t p flags d)
  have f: "lk_frames w t = None" using may Call by (simp add: lk_may_def)
  have th: "thread_ok w t" using ok by (simp add: lk_ok_def)
  have same: "w\<lparr>lk_frames := (lk_frames w)(t := None), lk_sleep := (lk_sleep w)(t := None)\<rparr> = w"
    using f th by (simp add: fun_upd_idem thread_ok_def)
  let ?H = "\<lambda>r. lk_holds (flags AND LK_TYPE_MASK) (Thread t) r (lk_readers w p, lk_writer w p)"
  have d: "lk_done s n t p (w\<lparr>lk_frames := (lk_frames w)(t := None), lk_sleep := (lk_sleep w)(t := None)\<rparr>) ?H (lockmgr t p flags (Some t) d w)"
    unfolding same using call_done [OF ok may [unfolded Call]] n Call by simp
  obtain w' r where "lockmgr t p flags (Some t) d w = Some (w', r)" "lk_readers w' = lk_readers w" "lk_writer w' = lk_writer w"
    "lk_ok s n (w'\<lparr>lk_readers := (lk_readers w')(p := fst (?H r)), lk_writer := (lk_writer w')(p := snd (?H r))\<rparr>)"
    by (rule done_ok [OF ok d]) (use f in simp_all)
  then show ?thesis using Call by (simp add: lk_do_def lk_got_def case_prod_beta)
next
  case (Resume t error)
  then obtain fr where f: "lk_frames w t = Some fr" using may by (auto simp: lk_may_def)
  let ?p = "fr_lock fr" and ?H = "lk_resumed fr (lk_readers w (fr_lock fr), lk_writer w (fr_lock fr))"
  obtain w' r where x: "lk_resume t error w = Some (w', r)" "lk_readers w' = lk_readers w" "lk_writer w' = lk_writer w"
    "lk_ok s n (w'\<lparr>lk_readers := (lk_readers w')(?p := fst (?H r)), lk_writer := (lk_writer w')(?p := snd (?H r))\<rparr>)"
    by (rule resume_ok [OF ok f]) (use s c Resume in \<open>simp_all add: lk_clashes_def\<close>)
  have "lk_ok s n (w'\<lparr>lk_readers := (lk_readers w')(?p := lk_readers w' ?p), lk_writer := (lk_writer w')(?p := lk_writer w' ?p)\<rparr>)" if "r \<noteq> Some None"
    using x(4) that x(2,3) by (simp add: lk_resumed_def)
  then have "lk_ok s n w'" if "r \<noteq> Some None" using that by simp
  then show ?thesis using x Resume f by (cases "r = Some None") (simp_all add: lk_do_def lk_got_def lk_resumed_def case_prod_beta)
next
  case (Disown t p)
  then show ?thesis using disown_ok [OF ok] may by simp
qed

lemma do_clash: "lk_ok s n w \<Longrightarrow> lk_clashes e w \<Longrightarrow> lk_do e w = None"
  using resume_clash by (cases e) (auto simp: lk_clashes_def lk_do_def Option.bind_eq_None_conv)

lemma world0_lk_ok: "lk_ok s n (lk_world0 fl)"
proof -
  have [simp]: "lk_in p S (lk_world0 fl) = {}" for p S by (simp add: lk_in_def lk_world0_def)
  have [simp]: "\<not> lk_has p m (lk_world0 fl)" if "m AND LK_EXTFLG_MASK = 0" for p m
    using that by (simp add: lk_has_def lk_world0_def lockinit_def and.assoc and.commute [of LK_EXTFLG_MASK])
  have m: "LK_SHARE_NONZERO AND LK_EXTFLG_MASK = 0" "LK_HAVE_EXCL AND LK_EXTFLG_MASK = 0" "LK_WAIT_NONZERO AND LK_EXTFLG_MASK = 0"
    "LK_WANT_UPGRADE AND LK_EXTFLG_MASK = 0" "LK_WANT_EXCL AND LK_EXTFLG_MASK = 0" by (simp_all add: lk_consts)
  have "lk_at s n p (lk_world0 fl) {#} None" for p
    by (simp add: lk_at_def lk_core_def lk_counts_def m) (simp add: lk_nap_def lk_drains_def lk_world0_def lockinit_def)
  then show ?thesis by (simp add: lk_ok_def) (simp add: thread_ok_def lk_world0_def)
qed

lemma lk_step_ok:
  assumes "lk_ok s n w" and "lk_step P w w'" and "\<And>e w. P e w \<Longrightarrow> s \<Longrightarrow> lk_patient e w" and "\<And>e w. P e w \<Longrightarrow> n \<Longrightarrow> lk_no_upgrade e w"
  shows "lk_ok s n w'"
proof -
  obtain e where e: "lk_may e w" "P e w" "lk_do e w = Some w'" using assms(2) by (rule lk_stepE)
  then have "\<not> lk_clashes e w" using do_clash [OF assms(1)] by auto
  then show ?thesis using lk_do_ok [OF assms(1) e(1) assms(3,4)] e(2,3) by auto
qed

section \<open>The contract of a shared/exclusive lock\<close>

interpretation lm: rw_lock "lk_step P" "lk_ok False False" "\<lambda>w. lk_readers w p" "\<lambda>w. map_option fst (lk_writer w p)" for P p
proof
  fix w w' assume "lk_ok False False w" "lk_step P w w'"
  then show "lk_ok False False w'" by (rule lk_step_ok) simp_all
next
  fix w assume "lk_ok False False w" and W: "map_option fst (lk_writer w p) \<noteq> None"
  then have "lk_core False p w (lk_readers w p) (lk_writer w p) (waiters p w) (upgraders p w) (exclwaiters p w)" by (simp add: lk_ok_def lk_at_def)
  from core_flags(7) [OF this] W show "lk_readers w p = {#}" by simp
qed

section \<open>Runs\<close>

text \<open>A sequence of events that the contract and \<open>P\<close> allow and that does not panic.\<close>

fun lk_events :: "(lk_event \<Rightarrow> lk_world \<Rightarrow> bool) \<Rightarrow> lk_event list \<Rightarrow> lk_world \<Rightarrow> lk_world option" where
  "lk_events P [] w = Some w"
| "lk_events P (e # es) w = (if lk_may e w \<and> P e w then lk_do e w \<bind> lk_events P es else None)"

lemma events_reach: "lk_events P es w = Some w' \<Longrightarrow> (lk_step P)\<^sup>*\<^sup>* w w'"
proof (induction es arbitrary: w)
  case (Cons e es)
  then obtain v where "lk_may e w" "P e w" "lk_do e w = Some v" "lk_events P es v = Some w'" by (auto split: if_splits Option.bind_splits)
  then show ?case using Cons.IH [of v] lk_stepI [of e w P v] by (meson converse_rtranclp_into_rtranclp)
qed simp

lemma reach_lk_ok: "(lk_step P)\<^sup>*\<^sup>* (lk_world0 fl) w \<Longrightarrow> lk_ok False False w"
  by (rule lm.reachable_ok [OF _ world0_lk_ok])

lemma reach_patient: "(lk_step lk_patient)\<^sup>*\<^sup>* (lk_world0 fl) w \<Longrightarrow> lk_ok True False w"
  by (induction rule: rtranclp_induct) (auto intro: world0_lk_ok lk_step_ok)

lemma reach_no_upgrade: "(lk_step lk_no_upgrade)\<^sup>*\<^sup>* (lk_world0 fl) w \<Longrightarrow> lk_ok False True w"
  by (induction rule: rtranclp_induct) (auto intro: world0_lk_ok lk_step_ok)

lemmas lk_code = lk_may_def lk_do_def lockmgr_def lockmgr_shared_def lockmgr_downgrade_def lockmgr_exclusive_def lockmgr_upgrade_def lockmgr_release_def lockmgr_drain_def
  acquire_def acquire_loop_def acquire_woken_def apause_def after_acquire_def lk_took_def lk_took_want_def take_excl_def lockmgr_end_def lk_resume_def sharelock_def shareunlock_def
  lk_got_def lk_holds_def upd_lk_def lk_set_def lk_clear_def lk_has_def lk_wakeup_def lk_msleep_def lk_world0_def lockinit_def
  LK_TYPE_MASK_def LK_SHARED_def LK_EXCLUSIVE_def LK_UPGRADE_def LK_EXCLUPGRADE_def LK_DOWNGRADE_def LK_RELEASE_def LK_DRAIN_def LK_ALL_def lk_consts lk_patient_def

section \<open>Properties\<close>

text \<open>C38: Whatever the threads do within the contract of the callers, with signals, timeouts, upgrades and locks left to the kernel, the counts in the lock are
  exact: the shared holds, the recursive exclusive holds of the one holder, and the threads inside acquire; nobody
  holds the lock shared while a thread or the kernel holds it exclusively; and lockcount and lockstatus tell the truth.\<close>

theorem lk_counts_exact:
  assumes "(lk_step P)\<^sup>*\<^sup>* (lk_world0 fl) w"
  shows "lk_sharecount (the_lk w p) = int (size (lk_readers w p)) \<and>
    (case lk_writer w p of
       None \<Rightarrow> lk_exclusivecount (the_lk w p) = 0 \<and> lk_lockholder (the_lk w p) = LK_NOPROC
     | Some (x, k) \<Rightarrow> lk_exclusivecount (the_lk w p) = int k \<and> 0 < k \<and> lk_lockholder (the_lk w p) = x \<and> lk_readers w p = {#}) \<and>
    lk_waitcount (the_lk w p) = int (card (waiters p w)) \<and>
    lockcount p w = int (size (lk_readers w p) + writer_count (lk_writer w p)) \<and>
    (lockstatus p (Some t) w = LK_EXCLUSIVE \<longleftrightarrow> map_option fst (lk_writer w p) = Some (Thread t)) \<and> (lockstatus p (Some t) w = LK_SHARED \<longleftrightarrow> lk_readers w p \<noteq> {#})"
proof -
  have core: "lk_core False p w (lk_readers w p) (lk_writer w p) (waiters p w) (upgraders p w) (exclwaiters p w)"
    using reach_lk_ok [OF assms] by (simp add: lk_ok_def lk_at_def)
  have st: "LK_EXCLUSIVE \<noteq> 0" "LK_SHARED \<noteq> 0" "LK_EXCLOTHER \<noteq> LK_EXCLUSIVE" "LK_EXCLOTHER \<noteq> LK_SHARED"
    by (simp_all add: LK_EXCLUSIVE_def LK_SHARED_def LK_EXCLOTHER_def)
  show ?thesis using core_flags(7-10,12,13) [OF core] st
    by (cases "lk_writer w p") (auto simp: lockcount_def lockstatus_def Let_def)
qed

text \<open>Threads 0 and 1 share lock 7, thread 2 wants it exclusively and thread 1 upgrades; when 0 leaves, 1 gets the lock first.\<close>

definition upgrade_race :: "lk_event list" where
  "upgrade_race = [Call 0 7 LK_SHARED False, Call 1 7 LK_SHARED False, Call 2 7 LK_EXCLUSIVE False, Call 1 7 LK_UPGRADE False, Call 0 7 LK_RELEASE False, Resume 1 None]"

lemma upgrade_race_run:
  obtains w where "(lk_step (\<lambda>_ _. True))\<^sup>*\<^sup>* (lk_world0 (\<lambda>_. 0)) w" "lk_writer w 7 = Some (Thread 1, 1)" "lk_do (Resume 2 None) w = None" "lk_may (Resume 2 None) w"
    "lk_waitcount (the_lk w 7) = 1"
proof -
  have "case lk_events (\<lambda>_ _. True) upgrade_race (lk_world0 (\<lambda>_. 0)) of None \<Rightarrow> False
      | Some w \<Rightarrow> lk_writer w 7 = Some (Thread 1, 1) \<and> lk_do (Resume 2 None) w = None \<and> lk_may (Resume 2 None) w \<and> lk_waitcount (the_lk w 7) = 1"
    by (simp add: upgrade_race_def lk_code Let_def)
  then show thesis by (auto split: option.splits intro: that events_reach)
qed

theorem lk_counts_exact_witness: "\<exists>w. (lk_step (\<lambda>_ _. True))\<^sup>*\<^sup>* (lk_world0 (\<lambda>_. 0)) w \<and> lk_readers w 7 = {#} \<and> card (waiters 7 w) = 1"
proof -
  obtain w where w: "(lk_step (\<lambda>_ _. True))\<^sup>*\<^sup>* (lk_world0 (\<lambda>_. 0)) w" "lk_writer w 7 = Some (Thread 1, 1)" "lk_waitcount (the_lk w 7) = 1"
    by (rule upgrade_race_run)
  then show ?thesis using lk_counts_exact [OF w(1), of 7] by auto
qed

text \<open>C39: A request within the contract never panics, with one exception: a thread that waits in the second half of an exclusive request for the shared holders
  to leave panics when it goes on while the lock is held exclusively, which happens only after an upgrade; in runs without
  upgrades no request panics.\<close>

theorem lk_panics_only:
  assumes "(lk_step P)\<^sup>*\<^sup>* (lk_world0 fl) w" and "lk_may e w"
  shows "(lk_do e w = None \<longleftrightarrow> (\<exists>t fr. e = Resume t None \<and> lk_frames w t = Some fr \<and> fr_site fr = Excl_wait \<and> fr_ext fr AND LK_SLEEPFAIL = 0 \<and>
      lk_writer w (fr_lock fr) \<noteq> None)) \<and> ((lk_step lk_no_upgrade)\<^sup>*\<^sup>* (lk_world0 fl) w \<longrightarrow> lk_do e w \<noteq> None)"
proof -
  note ok = reach_lk_ok [OF assms(1)]
  have core: "lk_core False p w (lk_readers w p) (lk_writer w p) (waiters p w) (upgraders p w) (exclwaiters p w)" for p
    using ok by (simp add: lk_ok_def lk_at_def)
  have fo: "lk_frames w t = Some fr \<Longrightarrow> frame_ok t fr" for t fr using ok by (auto simp: lk_ok_def thread_ok_def dest: spec [of _ t])
  have no: "\<not> lk_has p LK_WANT_UPGRADE w" "\<not> lk_has p LK_SHARE_NONZERO w" "lk_has p LK_HAVE_EXCL w" if "lk_writer w p \<noteq> None" for p
    using core_flags(1,2,3,7) [OF core [of p]] core [of p] that by (auto simp: lk_core_def)
  have clash: "lk_clashes e w \<longleftrightarrow> (\<exists>t fr. e = Resume t None \<and> lk_frames w t = Some fr \<and> fr_site fr = Excl_wait \<and> fr_ext fr AND LK_SLEEPFAIL = 0 \<and>
      lk_writer w (fr_lock fr) \<noteq> None)" (is "_ \<longleftrightarrow> ?C")
  proof
    assume "lk_clashes e w"
    then show ?C using core_flags(2) [OF core] by (cases e) (fastforce simp: lk_clashes_def lk_clash_def split: option.splits)+
  next
    assume ?C
    then show "lk_clashes e w" using no fo by (fastforce simp: lk_clashes_def lk_clash_def frame_ok_def)
  qed
  have "lk_do e w = None \<longleftrightarrow> lk_clashes e w" using do_clash [OF ok, of e] lk_do_ok [OF ok assms(2)] by (metis option.distinct(1))
  moreover have "\<not> lk_clashes e w" if "(lk_step lk_no_upgrade)\<^sup>*\<^sup>* (lk_world0 fl) w"
  proof
    assume "lk_clashes e w"
    then obtain t fr where f: "lk_frames w t = Some fr" "fr_site fr = Excl_wait" "lk_writer w (fr_lock fr) \<noteq> None" using clash by blast
    then have "exclwaiters (fr_lock fr) w \<noteq> {}" by (auto simp: lk_in_def)
    moreover have "lk_core True (fr_lock fr) w (lk_readers w (fr_lock fr)) (lk_writer w (fr_lock fr)) (waiters (fr_lock fr) w) (upgraders (fr_lock fr) w) (exclwaiters (fr_lock fr) w)"
      using reach_no_upgrade [OF that] by (simp add: lk_ok_def lk_at_def)
    ultimately show False using f(3) by (simp add: lk_core_def)
  qed
  ultimately show ?thesis using clash by (metis (no_types, lifting))
qed

theorem lk_panics_only_witness: "\<exists>w fr. lk_frames w 2 = Some fr \<and> fr_site fr = Excl_wait \<and> lk_writer w (fr_lock fr) \<noteq> None \<and> lk_do (Resume 2 None) w = None"
proof -
  obtain w where w: "(lk_step (\<lambda>_ _. True))\<^sup>*\<^sup>* (lk_world0 (\<lambda>_. 0)) w" "lk_do (Resume 2 None) w = None" "lk_may (Resume 2 None) w"
    by (rule upgrade_race_run)
  show ?thesis using lk_panics_only [OF w(1,3)] w(2) by auto
qed

section \<open>No wakeup is lost\<close>

lemma end_result: "lockmgr_end p e w = (w', r) \<Longrightarrow> r = Some e"
  by (auto simp: lockmgr_end_def split: if_splits)

lemma want_result: "lk_took_want m fr e w = Some (w', r) \<Longrightarrow> r = Some e"
  by (auto simp: lk_took_want_def Let_def dest: end_result split: if_splits)

text \<open>A thread that goes on and finds the lock free gets it.\<close>

lemma resume_gets:
  assumes ok: "lk_ok s n w" and f: "lk_frames w u = Some fr" and d: "fr_site fr \<noteq> Drain" and sf: "fr_ext fr AND LK_SLEEPFAIL = 0"
    and free: "lk_writer w (fr_lock fr) = None" "lk_readers w (fr_lock fr) = {#}" and h: "\<not> lk_has (fr_lock fr) (fr_wanted fr) w"
    and e: "fr_site fr = Excl_want \<Longrightarrow> \<not> lk_has (fr_lock fr) LK_WANT_UPGRADE w"
  shows "\<exists>w'. lk_do (Resume u None) w = Some w' \<and> (lk_writer w' (fr_lock fr) = Some (Thread u, 1) \<or> lk_readers w' (fr_lock fr) = {#Thread u#})"
proof -
  let ?p = "fr_lock fr" and ?v = "w\<lparr>lk_frames := (lk_frames w)(u := None), lk_sleep := (lk_sleep w)(u := None)\<rparr>"
  let ?u = "uncount ?p ?v"
  have fo: "frame_ok u fr" using ok f by (auto simp: lk_ok_def thread_ok_def dest: spec [of _ u])
  have core: "lk_core n ?p w {#} None (waiters ?p w) (upgraders ?p w) (exclwaiters ?p w)"
    using ok free unfolding lk_ok_def lk_at_def by metis
  have nl: "lk_newlock (the_lk ?v ?p) = None" using core_flags(6) [OF core] by simp
  have fl: "\<not> lk_has ?p LK_HAVE_EXCL w" "\<not> lk_has ?p LK_SHARE_NONZERO w" using core_flags(1,2) [OF core] by auto
  have nc: "\<not> lk_clash u None w" using f fl by (simp add: lk_clash_def)
  have ok0: "lk_ok False n w" using ok by (simp add: lk_ok_def lk_at_def)
  obtain w' r where x: "lk_resume u None w = Some (w', r)" "lk_readers w' = lk_readers w" "lk_writer w' = lk_writer w"
    by (rule resume_ok [OF ok0 f _ nc]) auto
  have "\<not> lk_has ?p (fr_wanted fr) ?u" using h d fo by (cases "fr_site fr") (auto simp: frame_ok_def)
  then have "acquire_woken u fr None ?v = (fr, ?u, Some None)" unfolding acquire_woken_eq [OF nl] using sf by (simp add: acquire_loop_def Let_def)
  then have t: "lk_took u fr None ?u = Some (w', r)" using x(1) f d fo by (cases "fr_site fr") (auto simp: lk_resume_def after_acquire_def frame_ok_def Let_def)
  have "r = Some None"
  proof (cases "fr_site fr")
    case Excl_want
    let ?g = "fr\<lparr>fr_site := Excl_wait, fr_wanted := LK_WANT_UPGRADE OR LK_SHARE_NONZERO\<rparr>"
    have "acquire u ?g (lk_set ?p LK_WANT_EXCL ?u) = (lk_set ?p LK_WANT_EXCL ?u, Some None)"
      using e [OF Excl_want] fl by (simp add: acquire_def acquire_loop_def apause_def and_or_zero Let_def)
    then show ?thesis using t Excl_want want_result by (auto simp: lk_took_def Let_def)
  qed (use t want_result end_result d fo in \<open>auto simp: lk_took_def frame_ok_def Let_def\<close>)
  then show ?thesis using x f free fo by (cases "fr_site fr") (auto simp: lk_do_def lk_got_def lk_holds_def frame_ok_def)
qed

text \<open>C40: When nobody holds a lock and a thread sleeps for it, shared, exclusive, for an upgrade or until it drains, then some thread that has been woken
  gets the lock if it is the next to run, so that no wakeup is lost. This holds as long as no sleep of an upgrade, or of the second half
  of an exclusive request, ends with an error, and nobody asks for LK_SLEEPFAIL.\<close>

theorem lk_no_lost_wakeup:
  assumes "(lk_step lk_patient)\<^sup>*\<^sup>* (lk_world0 fl) w" and "lk_writer w p = None" and "lk_readers w p = {#}"
    and "\<forall>u fr. lk_frames w u = Some fr \<longrightarrow> fr_ext fr AND LK_SLEEPFAIL = 0"
    and "lk_frames w t = Some fr" and "fr_lock fr = p" and "lk_sleep w t \<noteq> None"
  shows "\<exists>u w'. lk_may (Resume u None) w \<and> lk_do (Resume u None) w = Some w' \<and> (lk_writer w' p = Some (Thread u, 1) \<or> lk_readers w' p = {#Thread u#})"
proof -
  have ok: "lk_ok True False w" by (rule reach_patient [OF assms(1)])
  then have core: "lk_core False p w {#} None (waiters p w) (upgraders p w) (exclwaiters p w)" and nap: "lk_nap p w" and dr: "lk_drains p w"
    using assms(2,3) unfolding lk_ok_def lk_at_def by metis+
  have fo: "lk_frames w u = Some g \<Longrightarrow> frame_ok u g" for u g using ok by (auto simp: lk_ok_def thread_ok_def dest: spec [of _ u])
  have fl: "\<not> lk_has p LK_HAVE_EXCL w" "\<not> lk_has p LK_SHARE_NONZERO w" using core_flags(1,2) [OF core] by auto
  have goes: ?thesis if g: "lk_frames w u = Some g" "fr_lock g = p" "fr_site g \<noteq> Drain" "\<not> lk_has p (fr_wanted g) w" "fr_site g = Excl_want \<Longrightarrow> \<not> lk_has p LK_WANT_UPGRADE w" for u g
  proof -
    have "lk_sleep w u = None" using nap g(1-4) fl(1) unfolding lk_nap_def by blast
    then have "lk_may (Resume u None) w" using g(1) by (simp add: lk_may_def)
    then show ?thesis using resume_gets [OF ok g(1,3), unfolded g(2), OF _ assms(2,3) g(4,5)] assms(4) g(1) by blast
  qed
  show ?thesis
  proof (cases "upgraders p w = {}")
    case False
    then obtain u g where g: "lk_frames w u = Some g" "fr_lock g = p" "fr_site g = Upgrade" by (auto simp: lk_in_def)
    then show ?thesis using goes [of u g] fo [OF g(1)] fl by (simp add: frame_ok_def)
  next
    case up: True
    then have wu: "\<not> lk_has p LK_WANT_UPGRADE w" using core_flags(3) [OF core] by simp
    show ?thesis
    proof (cases "exclwaiters p w = {}")
      case False
      then obtain u g where g: "lk_frames w u = Some g" "fr_lock g = p" "fr_site g = Excl_wait" by (auto simp: lk_in_def)
      then show ?thesis using goes [of u g] fo [OF g(1)] fl wu by (simp add: frame_ok_def)
    next
      case True
      then have we: "\<not> lk_has p LK_WANT_EXCL w" using core_flags(4) [OF core] by simp
      have none: "\<not> lk_has p (fr_wanted g) w" if "lk_frames w u = Some g" "fr_site g \<noteq> Drain" for u g
        using fo [OF that(1)] that(2) fl wu we by (cases "fr_site g") (auto simp: frame_ok_def)
      have "waiters p w \<noteq> {}"
      proof (cases "fr_site fr = Drain")
        case True
        then have "lk_has p LK_ALL w" using dr assms(5-7) by (auto simp: lk_drains_def)
        then show ?thesis using fl wu we core_flags(5) [OF core] by simp
      next
        case False
        then show ?thesis using assms(5,6) by (auto simp: lk_in_def)
      qed
      then obtain u g where g: "lk_frames w u = Some g" "fr_lock g = p" "fr_site g \<noteq> Drain" by (auto simp: lk_in_def)
      show ?thesis by (rule goes [OF g none [OF g(1,3)] wu])
    qed
  qed
qed

text \<open>A holder, a thread that wants the lock exclusively and one that comes after it; when the holder leaves, the last one runs first.\<close>

definition late_reader :: "lk_event list" where
  "late_reader = [Call 0 7 LK_SHARED False, Call 1 7 LK_EXCLUSIVE False, Call 2 7 LK_SHARED False, Call 0 7 LK_RELEASE False, Resume 2 None]"

theorem lk_no_lost_wakeup_witness: "\<exists>w u w'. lk_sleep w 2 \<noteq> None \<and> lk_do (Resume u None) w = Some w' \<and> (lk_writer w' 7 = Some (Thread u, 1) \<or> lk_readers w' 7 = {#Thread u#})"
proof -
  have "case lk_events lk_patient late_reader (lk_world0 (\<lambda>_. 0)) of None \<Rightarrow> False
      | Some w \<Rightarrow> lk_writer w 7 = None \<and> lk_readers w 7 = {#} \<and> lk_sleep w 2 \<noteq> None \<and> (\<exists>fr. lk_frames w 2 = Some fr \<and> fr_lock fr = 7) \<and>
        (\<forall>u fr. lk_frames w u = Some fr \<longrightarrow> fr_ext fr AND LK_SLEEPFAIL = 0)"
    by (simp add: late_reader_def lk_code Let_def)
  then obtain w fr where w: "(lk_step lk_patient)\<^sup>*\<^sup>* (lk_world0 (\<lambda>_. 0)) w" "lk_writer w 7 = None" "lk_readers w 7 = {#}"
    "\<forall>u fr. lk_frames w u = Some fr \<longrightarrow> fr_ext fr AND LK_SLEEPFAIL = 0" "lk_frames w 2 = Some fr" "fr_lock fr = 7" "lk_sleep w 2 \<noteq> None"
    by (auto split: option.splits dest: events_reach)
  show ?thesis using lk_no_lost_wakeup [OF w] w(7) by blast
qed

section \<open>Where the code does not do what it means to\<close>

text \<open>
  A thread in the second half of an exclusive request waits for \<open>LK_WANT_UPGRADE | LK_SHARE_NONZERO\<close> only. When the last shared holder leaves, it is woken together
  with a thread that upgrades; if that one runs first it holds the lock exclusively with both marks gone, and the other one
  takes the lock as well and panics on the count.
\<close>

lemma lk_upgrade_race_panics:
  "map_option (\<lambda>w. (lk_writer w 7, lk_do (Resume 2 None) w = None)) (lk_events (\<lambda>_ _. True) upgrade_race (lk_world0 (\<lambda>_. 0))) = Some (Some (Thread 1, 1), True)"
  by (simp add: upgrade_race_def lk_code Let_def)

text \<open>
  When a signal ends the sleep of the exclusive request, the code withdraws \<open>LK_WANT_EXCL\<close> and returns without a wakeup. Nobody holds the lock, no thread is on the way, and thread 2 sleeps
  for ever, or until the next user of the lock releases it.
\<close>

lemma lk_error_loses_wakeup:
  "map_option (\<lambda>w. (lk_writer w 7, lk_readers w 7, lk_flags (the_lk w 7) = LK_WAIT_NONZERO, lk_sleep w 2, lk_frames w 0, lk_frames w 1))
     (lk_events (\<lambda>_ _. True) (late_reader @ [Resume 1 (Some EINTR)]) (lk_world0 (\<lambda>_. 0))) = Some (None, {#}, True, Some (On_lock 7), None, None)"
  by (simp add: late_reader_def lk_code Let_def)

text \<open>Waiters that are transferred go on waiting for the new lock, and the thread that transfers them is woken by the last of them.\<close>

lemma transfer_run:
  "map_option (\<lambda>(w, _). (lk_sleep w 0, lk_sleep w 1, lk_waitcount (the_lk w 7), lk_waitcount (the_lk w 8), map_option snd (lk_resume 0 None w)))
     (lk_events (\<lambda>_ _. True) [Call 0 7 LK_EXCLUSIVE False, Call 1 7 LK_SHARED False, Call 0 8 LK_EXCLUSIVE False] (lk_world0 (\<lambda>_. 0)) \<bind>
      transferlockers 0 7 8 \<bind> (\<lambda>(w, _). lk_resume 1 None w)) = Some (None, Some (On_lock 8), 0, 1, Some (Some None))"
  by (simp add: transferlockers_def transferlockers_woken_def lk_code Let_def)

end
