(* ===== verification/Spec2Isabelle.thy ===== *)
theory Spec2Isabelle
  imports Subr_Blist_Theorems Kern_Sema Kern_Lockf_Theorems Kern_Prot_Theorems Kern_Prot_Access Kern_Proc_Calls Kern_Jail_Calls Bpf_Filter Subr_Rman_Theorems Sched_4bsd_Theorems Kern_Lock_Theorems
begin

text \<open>
  A verification development for parts of the FreeBSD 5.2 kernel (src/freebsd/sys). It has nine
  groups of theories, each over a state of its own, on the shared vocabulary of Kern_Prelude (C integer types as
  words, error numbers, reference counts over finite maps). A C function is an Isabelle function of the same name
  from the state before to the result and the state after; a struct is a record with the fields the code uses;
  a pointer is a number that a finite map (the heap of its struct) takes to the record.

  Credentials, jails and process groups. Kern_State has the structs (sys/ucred.h, sys/proc.h, sys/jail.h,
  sys/resourcevar.h) and the state kern. Kern_Resource models the uidinfo half of kern/kern_resource.c (uifind,
  uihold, uifree, chgproccnt, chgsbsize), Kern_Jail the references, ids and checks of kern/kern_jail.c, Kern_Cred
  the ucred functions of kern/kern_prot.c (crget, crcopy, crfree, the change_ functions, suser, securelevel), Kern_Prot_Ids
  the calls setuid, seteuid, setgid, setegid, setgroups, setreuid, setregid, setresuid and setresgid,
  Kern_Prot_Access the checks cr_cansee, p_cansignal, p_cansched, p_candebug, cr_canseesocket and
  the calls that read ids, Kern_Proc the process groups of kern/kern_proc.c with setsid and setpgid, and
  Kern_Jail_Calls the calls jail and jail_attach. They interact through the cred of a process: each id call takes a
  fresh cred, copies and edits it and installs it, which moves references to uidinfos and prisons.
  Kern_Cred_Inv states the account of all references (cred_inv: each count is the number of pointers);
  the locale refcounted of Kern_Prelude is its interface, interpreted for uidinfos, prisons and creds. Kern_Cred_Edit
  and Kern_Prot_Edit follow a cred from crget to its installation, Kern_Prot_Setids derives the outcome of each
  call, and Kern_Prot_Theorems the properties: exact reference counts on every path, refinement of an
  abstract step on the ids, and what sequences of calls can and cannot do; setreuid_rules and setregid_rules are the points in which the code is not
  what setreuid(2) and setregid(2) say. Kern_Jail_Calls keeps the same account, but for the one reference jail_left counts: a
  process that is in a jail already while the cred of its thread is not leaves its old prison one reference too many (jail_attach_leaks). Kern_Proc_Inv has the invariant of the
  process tree, groups and sessions with the job control count, which doenterpgrp and leavepgrp keep. Kern_Boot is the small
  kernel on which the theorems are exercised. The hypotheses state that a thread runs a process of
  the state; the allocator never fails (M_WAITOK) and gives addresses not in use; what other processors do
  while a lock is dropped in uifind is an argument of uifind, which the id calls take as the identity. copyin, copyout, namei and change_dir are arguments as well. MAC
  is not configured.

  Packet filter. Bpf_Filter models net/bpf_filter.c: the reads from a buffer and from an mbuf chain, one
  instruction, bpf_filter and bpf_validate. Undefined behaviour is a fault of the step. The program counter is a pointer of the i386, which
  wraps around after 2^29 instructions (pc_add), so a program that was not validated may run for ever (bpf_loops_for_ever) and the
  interpreter is a partial function. The theorems show that a validated program of at most 2^29 instructions ends, executes each instruction at most once and
  meets no fault but the four of bpf_left_open, that m_xword reads the word of the concatenated chain when the middle mbufs have three bytes, and that absolute word and
  byte loads then agree between chains and buffers; half_read_outside and word_in_three show what shorter mbufs do.

  Resource manager. Subr_Rman models kern/subr_rman.c: a list of segments with the 32 bit u_long bounds of the i386, reservation with alignment and
  boundary, sharing, splitting, release with merging. The loop that adjusts the start may run for ever in the code, so it is a
  partial function; good_bound and the absence of wrap-around in valid_request are what makes it end.
  Subr_Rman_Inv states that the segments tile the space and the sharing lists are consistent, Subr_Rman_Ops and
  Subr_Rman_Calls prove the operations against the set of holders, Subr_Rman_Merge that they leave no two free neighbours unmerged, and Subr_Rman_Theorems interprets the locale
  range_allocator and derives disjointness, the round trip, and that a holder keeps its range.

  Bitmap allocator. Subr_Blist models kern/subr_blist.c, which the swap pager uses: the radix tree in one array, with every access
  outside the array a Fault and every panic a value. The recursion is bounded by bl_skip, which is at least the
  depth of the tree (level_le_skp), and the theorems show that the bound is never reached. Subr_Blist_Inv says what the array means:
  laid for the layout with its terminators, vl for counts that are to be believed, fr for the set of free blocks. Subr_Blist_Leaf proves the
  searches and masks of a bitmap, Subr_Blist_Ops the operations on a node by induction on its level, Subr_Blist_Calls and
  Subr_Blist_Resize the calls, and Subr_Blist_Theorems the refinement of sets of blocks, with the locale
  block_allocator for what a client can rely on. Block numbers are unbounded integers there: with at most 2^29 blocks no
  64 bit value overflows, and the 32 bit radix of blist_create, where overflow matters, is a word. Allocation and
  filling are proved for at most 32 blocks; the code panics for most longer ranges.

  Locks. Kern_Rwlock has the contract of a shared/exclusive lock as the locale rw_lock and the wait queue of
  kern/kern_condvar.c; Kern_Sx the locks of kern/kern_sx.c and Kern_Sema the semaphores of kern/kern_sema.c. The mutex inside a lock makes
  the code between two sleeps one step, and the steps of all threads interleave in any order. The
  invariants give the counts exactly and say who has yet to run when threads sleep, from which follow exclusion, that a
  reader sees stable data, and that no wakeup is lost; a run that starves a writer is constructed.

  Lock manager. Kern_Lock models kern/kern_lock.c and sys/lockmgr.h: lockmgr with one function per case of its switch, acquire and acquiredrain cut where they
  sleep, transferlockers, lockstatus, lockcount, and BUF_KERNPROC of sys/buf.h. A thread inside a call has a frame with the locals of acquire; threads that share a wait channel are woken together and
  then go on in any order, and a sleep may end with any error. The state also records who got which lock, which
  the code never reads. Kern_Lock_Inv has the flags as facts on single bits and the invariant (lk_core for one lock, lk_nap and lk_drains for the
  threads asleep), Kern_Lock_Calls and Kern_Lock_Cases prove the cases, Kern_Lock_Steps upgrades and resumed threads, and
  Kern_Lock_Theorems interprets the locale rw_lock and derives the exact counts, the only way to panic, and that no wakeup is lost unless an exclusive request or upgrade is given
  up while it keeps others out. The runs exclude transferlockers; transfer_run shows it at work. The
  counts are unbounded integers, the events always pass a thread (never td = NULL), and LK_SLEEPFAIL is outside the contract of the theorems on wakeups.

  Advisory locks. Kern_Lockf models kern/kern_lockf.c: the list of byte-range locks of each file, the requests that wait in the queue of the
  lock that blocks them, and lf_advlock, lf_setlock, lf_clearlock and lf_getlock with the loops over the overlaps (lf_link, lf_unlink),
  lf_split, the wakeups and the deadlock detection. The lists are lists of addresses in a store, the pointer prev of the code is where
  a list is cut, and a step ends where the code sleeps; threads that sleep or have been woken are part of the state, and a step that brings one
  back may come with any error. Offsets are integers with the wrap-around of a 64-bit sum written out (off_t).
  Kern_Lockf_Ranges, _Link, _Setlk and _Unlink prove what the two loops do to the table of who holds which byte (facts), Kern_Lockf_Wake, _Queue
  and _Walk what they do to the queues (queues), Kern_Lockf_Inv, _Back and _Calls put both together into the invariant lf_ok of
  the reachable states, and Kern_Lockf_Theorems derives the properties: setting and clearing refine the table, a write lock excludes (through the
  locale byte_locks), no wakeup is lost, nothing leaks. The reachable states are those of calls whose range does not end at the last offset OFF_MAX (call_in), a
  limit of every property over them: otherwise lf_split overflows, lf_unlock_wraps shows what the caller then holds, and lf_write_lock_overrun that this may be what another owner has write-locked. A thread woken by a signal stays
  asleep in the model until it runs, so that lf_chase may still see its wait channel; only the choice between EDEADLK and sleep depends on it.

  Scheduler. Kern_Runq models the 64 system run queues with their status bits (struct runq of sys/runq.h, the macros of
  i386/include/runq.h, the runq_ functions of kern/kern_switch.c) and proves them an instance of the locale prio_queues, which says what a
  client may rely on: add, remove and choose on a family of queues, and that the first queue that is not empty is chosen. Sched_4bsd has the records of threads, KSEs (the slots of a group in which its threads run), groups and
  processes (sys/proc.h) and those functions of kern/sched_4bsd.c that do not call back: sched_add, sched_rem, sched_choose, the estimate of cpu use and the
  user priority. Kern_Switch has the rest of the two files: setrunqueue, adjustrunqueue, kse_reassign and choosethread, which
  decide which thread of a threaded group gets which KSE, sched_switch, sched_wakeup, sched_prio, schedcpu, with setrunnable of kern/kern_synch.c, and the
  events by which the rest of the kernel drives them. The kernel is GENERIC: one processor, sched_lock held, so an event is one step; a failed assertion
  of INVARIANTS, a NULL that is followed and a list operation on an element that is not there are the value None. choosethread may search for ever in
  a panic, so it is a partial function, and its end is proved. Kern_Switch_Inv states the invariant over a projection of the state (view) with two sets of exceptions: the threads
  and the KSEs that are between two places; Kern_Switch_Moves, _Steps, _Calls, _Run and _Choose prove each function against
  it, Sched_4bsd_Calls and Sched_4bsd_Events lift it to the events, Sched_4bsd_Frame shows that no event moves a thread to another group or process, and Sched_4bsd_Theorems derives that no event sequence fails, that the threads with a KSE are
  the best of their group, that the next thread comes from the best queue, round robin within a queue, and the exact user priority. The invariant asks for a load average of at most 1024, below which the product in
  decay_cpu stays within 32 bits.

  Each theory states a property next to its witness, which applies it to a concrete state. Several lemmas record
  where the code does not do what its comments or the manual say, or goes wrong: validate_misses_stx, chain_byte_signed and chain_half_ignored in Bpf_Filter,
  half_read_outside, word_in_three and bpf_loops_for_ever there too, setreuid_rules and setregid_rules in Kern_Prot_Theorems, jail_ids_do_not_wrap and jail_attach_leaks in Kern_Jail_Calls, stale_share_flag, release_over_gap, reserve_beyond_end and reserve_wraps in
  Subr_Rman_Theorems, fill_panics, blist_hint_too_low, fill_past_end and double_free_unnoticed in Subr_Blist_Theorems,
  lf_deadlock_missed, lf_unlock_wraps and lf_write_lock_overrun in Kern_Lockf_Theorems, sched_takes_not_the_head, sched_runq_kses_drifts and updatepri_slower in
  Sched_4bsd_Theorems, lk_upgrade_race_panics and lk_error_loses_wakeup in Kern_Lock_Theorems.

  Not modelled: virtual memory, file systems, network stacks, drivers and machine-dependent code, because their state is shared with
  hardware or with subsystems outside these files; mutexes, whose effect here is the atomicity of a step, with the turnstiles that lend
  priorities; of the scheduler the branches for several processors, critical sections, the callouts and sysctls around schedcpu, and the creation and exit of
  threads and KSEs, so that the set of threads is fixed during a sequence of events;
  fork, exit and signals, so that the set of processes is fixed during a sequence of calls; System V IPC, which fits the same style but is not reached. Output, tracing and the debugging
  code of WITNESS kernels are left out of every model, and so are the assertions of INVARIANTS but in the scheduler.
\<close>

end
